(* ===== verification/Kds_Prelude.thy ===== *)
theory Kds_Prelude
  imports Main "HOL-Library.Word"
begin

unbundle bit_operations_syntax

text \<open>
  What every component of the KDS module shares: the fixed-width integers of the C code, its
  error codes, byte-addressed memory with \<^verbatim>\<open>memcpy\<close>-style reads and writes, the little-endian
  layout of integers inside packed structs, and the contract of a fixed-width struct layout
  (locale \<open>layout\<close>) from which the components derive what a read returns after a write.
\<close>

section \<open>Integers, error codes and results\<close>

type_synonym u8 = "8 word"
type_synonym u16 = "16 word"
type_synonym u32 = "32 word"
type_synonym u64 = "64 word"

text \<open>
  The negative errno values the module returns. A call that returns \<^verbatim>\<open>-EINVAL\<close> is modelled as
  \<open>Inl (Errno EINVAL)\<close>. \<open>Panic\<close> stands for \<^verbatim>\<open>panic()\<close> and \<^verbatim>\<open>BUG_ON\<close>, \<open>Fault\<close> for a memory
  access outside the object the pointer belongs to.
\<close>

datatype errno = EINVAL | ENOSPC | ENOENT | EEXIST | ENOMEM | ENODEV | EIO | ERANGE
  | EMSGSIZE | E2BIG | ENOSYS | ETIMEDOUT | EFAULT

datatype failure = Errno errno | Panic | Fault

type_synonym 'a res = "failure + 'a"

abbreviation fails :: "errno \<Rightarrow> 'a res" where
  "fails e \<equiv> Inl (Errno e)"

abbreviation is_ok :: "'a res \<Rightarrow> bool" where
  "is_ok r \<equiv> (case r of Inl _ \<Rightarrow> False | Inr _ \<Rightarrow> True)"

text \<open>The early-return idiom \<^verbatim>\<open>if (ret) return ret;\<close> on results.\<close>

definition rbind :: "'a res \<Rightarrow> ('a \<Rightarrow> 'b res) \<Rightarrow> 'b res" where
  "rbind r f = (case r of Inl e \<Rightarrow> Inl e | Inr x \<Rightarrow> f x)"

lemma rbind_simps [simp]: "rbind (Inl e) f = Inl e" "rbind (Inr x) f = f x"
  by (simp_all add: rbind_def)

lemma rbind_ok_iff: "rbind r f = Inr y \<longleftrightarrow> (\<exists>x. r = Inr x \<and> f x = Inr y)"
  by (cases r) simp_all

lemma rbind_fail_iff: "rbind r f = Inl e \<longleftrightarrow> r = Inl e \<or> (\<exists>x. r = Inr x \<and> f x = Inl e)"
  by (cases r) simp_all

text \<open>
  A call that may change the module's state and may fail: the result with the state it leaves, which
  an error path has changed too. \<open>sbind\<close> runs the second call only when the first succeeded.
\<close>

type_synonym ('s, 'a) call = "'s \<Rightarrow> 'a res \<times> 's"

definition sret :: "'a \<Rightarrow> ('s, 'a) call" where "sret x = (\<lambda>s. (Inr x, s))"

definition sfail :: "failure \<Rightarrow> ('s, 'a) call" where "sfail e = (\<lambda>s. (Inl e, s))"

definition sbind :: "('s, 'a) call \<Rightarrow> ('a \<Rightarrow> ('s, 'b) call) \<Rightarrow> ('s, 'b) call" where
  "sbind m f = (\<lambda>s. case m s of (Inl e, s') \<Rightarrow> (Inl e, s') | (Inr x, s') \<Rightarrow> f x s')"

definition sget :: "('s, 's) call" where "sget = (\<lambda>s. (Inr s, s))"

definition smod :: "('s \<Rightarrow> 's) \<Rightarrow> ('s, unit) call" where "smod g = (\<lambda>s. (Inr (), g s))"

definition slift :: "'a res \<Rightarrow> ('s, 'a) call" where "slift r = (\<lambda>s. (r, s))"

text \<open>Run a call and inspect its result instead of propagating the failure.\<close>

definition strying :: "('s, 'a) call \<Rightarrow> ('a res \<Rightarrow> ('s, 'b) call) \<Rightarrow> ('s, 'b) call" where
  "strying m f = (\<lambda>s. case m s of (r, s') \<Rightarrow> f r s')"

lemmas call_defs = sret_def sfail_def sbind_def sget_def smod_def slift_def strying_def

section \<open>Collections\<close>

text \<open>
  \<open>layout_simps\<close> collects the sizes and offsets of packed structs, \<open>mem_simps\<close> the read-after-write
  equations of byte memory, \<open>codec_simps\<close> the decode-after-encode equations.
\<close>

named_theorems layout_simps
named_theorems mem_simps
named_theorems codec_simps

section \<open>Byte-addressed memory\<close>

text \<open>
  A buffer is a total function from byte offsets to bytes. The bounds of the object behind a
  pointer are checked by \<open>pload\<close> and \<open>pstore\<close>, which fail with \<open>Fault\<close> on an access outside
  the page.
\<close>

type_synonym pagebuf = "nat \<Rightarrow> u8"

definition KDS_PAGE_SIZE :: nat where
  "KDS_PAGE_SIZE = 8192"

definition rd :: "pagebuf \<Rightarrow> nat \<Rightarrow> nat \<Rightarrow> u8 list" where
  "rd p off n = map p [off ..< off + n]"

definition wr :: "pagebuf \<Rightarrow> nat \<Rightarrow> u8 list \<Rightarrow> pagebuf" where
  "wr p off bs = (\<lambda>i. if off \<le> i \<and> i < off + length bs then bs ! (i - off) else p i)"

definition pload :: "pagebuf \<Rightarrow> nat \<Rightarrow> nat \<Rightarrow> u8 list res" where
  "pload p off n = (if off + n \<le> KDS_PAGE_SIZE then Inr (rd p off n) else Inl Fault)"

definition pstore :: "pagebuf \<Rightarrow> nat \<Rightarrow> u8 list \<Rightarrow> pagebuf res" where
  "pstore p off bs = (if off + length bs \<le> KDS_PAGE_SIZE then Inr (wr p off bs) else Inl Fault)"

text \<open>The first \<open>n\<close> bytes behind a caller's pointer; \<open>None\<close> when the buffer is shorter.\<close>

definition buf_rd :: "u8 list \<Rightarrow> nat \<Rightarrow> u8 list option" where
  "buf_rd bs n = (if n \<le> length bs then Some (take n bs) else None)"

lemma length_rd [simp]: "length (rd p off n) = n"
  by (simp add: rd_def)

lemma rd_nth [simp]: "i < n \<Longrightarrow> rd p off n ! i = p (off + i)"
  by (simp add: rd_def)

lemma wr_Nil [simp]: "wr p off [] = p"
  by (auto simp: wr_def fun_eq_iff)

lemma wr_inside: "off \<le> i \<Longrightarrow> i < off + length bs \<Longrightarrow> wr p off bs i = bs ! (i - off)"
  by (simp add: wr_def)

lemma wr_outside: "i < off \<or> off + length bs \<le> i \<Longrightarrow> wr p off bs i = p i"
  by (auto simp: wr_def)

lemma rd_wr_same [mem_simps]:
  "n = length bs \<Longrightarrow> rd (wr p off bs) off n = bs"
  by (rule nth_equalityI) (auto simp: wr_def)

lemma rd_wr_disjoint:
  "off + n \<le> off' \<or> off' + length bs \<le> off \<Longrightarrow> rd (wr p off' bs) off n = rd p off n"
  by (rule nth_equalityI) (auto simp: wr_def)

lemma rd_wr_before [mem_simps]: "off + n \<le> off' \<Longrightarrow> rd (wr p off' bs) off n = rd p off n"
  by (rule rd_wr_disjoint) simp

lemma rd_wr_after [mem_simps]: "off' + length bs \<le> off \<Longrightarrow> rd (wr p off' bs) off n = rd p off n"
  by (rule rd_wr_disjoint) simp

lemma rd_wr_inside:
  "off' \<le> off \<Longrightarrow> off + n \<le> off' + length bs \<Longrightarrow>
   rd (wr p off' bs) off n = take n (drop (off - off') bs)"
  by (rule nth_equalityI) (auto simp: wr_def)

lemma rd_cong: "(\<And>i. off \<le> i \<Longrightarrow> i < off + n \<Longrightarrow> p i = q i) \<Longrightarrow> rd p off n = rd q off n"
  by (simp add: rd_def)

lemma rd_zero [simp]: "rd p off 0 = []"
  by (simp add: rd_def)

lemma rd_append: "rd p off (m + n) = rd p off m @ rd p (off + m) n"
  by (rule nth_equalityI) (auto simp: nth_append)

lemma rd_Suc: "rd p off (Suc n) = p off # rd p (off + 1) n"
  using rd_append [of p off 1 n] by (simp add: rd_def)

lemma take_rd: "m \<le> n \<Longrightarrow> take m (rd p off n) = rd p off m"
  by (rule nth_equalityI) auto

lemma drop_rd: "m \<le> n \<Longrightarrow> drop m (rd p off n) = rd p (off + m) (n - m)"
  by (rule nth_equalityI) (auto simp: add.assoc)

lemma take_drop_glue: "take a (drop b bs) @ drop (b + a) bs = drop b bs"
  by (metis append_take_drop_id drop_drop add.commute)

lemma wr_rd_same: "wr p off (rd p off n) = p"
  by (auto simp: wr_def fun_eq_iff)

section \<open>Little-endian integers\<close>

lemma unat_bound: "unat (w :: 'a::len word) < 2 ^ LENGTH('a)"
  by (rule unsigned_less)

fun le_bytes :: "nat \<Rightarrow> int \<Rightarrow> u8 list" where
  "le_bytes 0 x = []"
| "le_bytes (Suc n) x = word_of_int x # le_bytes n (x div 256)"

fun le_int :: "u8 list \<Rightarrow> int" where
  "le_int [] = 0"
| "le_int (b # bs) = uint b + 256 * le_int bs"

lemma length_le_bytes [simp]: "length (le_bytes n x) = n"
  by (induction n arbitrary: x) auto

lemma uint_bounded: "uint (w :: 'a::len word) < 2 ^ LENGTH('a)"
  by (rule unsigned_less)

lemma uint_byte: "0 \<le> uint (b :: u8)" "uint (b :: u8) < 256"
  using uint_bounded [of b] by simp_all

lemma le_int_bounds: "0 \<le> le_int bs \<and> le_int bs < 256 ^ length bs"
proof (induction bs)
  case Nil
  then show ?case by simp
next
  case (Cons b bs)
  with uint_byte [of b] show ?case by simp
qed

lemma le_int_le_bytes: "le_int (le_bytes n x) = x mod 256 ^ n"
proof (induction n arbitrary: x)
  case 0
  then show ?case by simp
next
  case (Suc n)
  have "uint (word_of_int x :: u8) = x mod 256"
    by (simp add: uint_word_of_int)
  moreover have "x mod (256 * 256 ^ n) = x mod 256 + 256 * (x div 256 mod 256 ^ n)"
    by (simp add: zmod_zmult2_eq)
  ultimately show ?case
    using Suc by simp
qed

lemma le_bytes_le_int: "length bs = n \<Longrightarrow> le_bytes n (le_int bs) = bs"
proof (induction bs arbitrary: n)
  case Nil
  then show ?case by simp
next
  case (Cons b bs)
  have "uint (word_of_int (uint b + 256 * le_int bs) :: u8) = (uint b + 256 * le_int bs) mod 256"
    by (simp only: uint_word_of_int) simp
  then have "(word_of_int (uint b + 256 * le_int bs) :: u8) = b"
    using uint_byte [of b] by (simp only: word_uint_eq_iff) simp
  moreover have "(uint b + 256 * le_int bs) div 256 = le_int bs"
    using uint_byte [of b] by simp
  ultimately show ?case using Cons by auto
qed

definition enc16 :: "u16 \<Rightarrow> u8 list" where "enc16 w = le_bytes 2 (uint w)"
definition enc32 :: "u32 \<Rightarrow> u8 list" where "enc32 w = le_bytes 4 (uint w)"
definition enc64 :: "u64 \<Rightarrow> u8 list" where "enc64 w = le_bytes 8 (uint w)"

definition dec16 :: "u8 list \<Rightarrow> u16" where "dec16 bs = word_of_int (le_int bs)"
definition dec32 :: "u8 list \<Rightarrow> u32" where "dec32 bs = word_of_int (le_int bs)"
definition dec64 :: "u8 list \<Rightarrow> u64" where "dec64 bs = word_of_int (le_int bs)"

lemma enc_lengths [simp]:
  "length (enc16 a) = 2" "length (enc32 b) = 4" "length (enc64 c) = 8"
  by (simp_all add: enc16_def enc32_def enc64_def)

lemma dec16_enc16 [simp, codec_simps]: "dec16 (enc16 w) = w"
  using uint_bounded [of w]
  by (simp add: dec16_def enc16_def le_int_le_bytes)

lemma dec32_enc32 [simp, codec_simps]: "dec32 (enc32 w) = w"
  using uint_bounded [of w]
  by (simp add: dec32_def enc32_def le_int_le_bytes)

lemma dec64_enc64 [simp, codec_simps]: "dec64 (enc64 w) = w"
  using uint_bounded [of w]
  by (simp add: dec64_def enc64_def le_int_le_bytes)

lemma enc16_dec16: "length bs = 2 \<Longrightarrow> enc16 (dec16 bs) = bs"
  using le_int_bounds [of bs]
  by (simp add: dec16_def enc16_def uint_word_of_int le_bytes_le_int)

lemma enc32_dec32: "length bs = 4 \<Longrightarrow> enc32 (dec32 bs) = bs"
  using le_int_bounds [of bs]
  by (simp add: dec32_def enc32_def uint_word_of_int le_bytes_le_int)

lemma enc64_dec64: "length bs = 8 \<Longrightarrow> enc64 (dec64 bs) = bs"
  using le_int_bounds [of bs]
  by (simp add: dec64_def enc64_def uint_word_of_int le_bytes_le_int)

section \<open>The layout contract of a packed struct\<close>

text \<open>
  A packed struct has a fixed width; writing a value with \<^verbatim>\<open>memcpy\<close> and reading it back at the
  same place gives the value, a write elsewhere does not change what is read, and reading then
  writing back changes no byte. The components instantiate it for each of their structs.
\<close>

locale layout =
  fixes width :: nat
    and enc :: "'a \<Rightarrow> u8 list"
    and dec :: "u8 list \<Rightarrow> 'a"
    and valid :: "'a \<Rightarrow> bool"
  assumes enc_width: "valid x \<Longrightarrow> length (enc x) = width"
    and dec_enc: "valid x \<Longrightarrow> dec (enc x) = x"
    and dec_valid: "length bs = width \<Longrightarrow> valid (dec bs)"
    and enc_dec: "length bs = width \<Longrightarrow> enc (dec bs) = bs"
begin

lemma load_store_same:
  "valid x \<Longrightarrow> dec (rd (wr p off (enc x)) off width) = x"
  by (simp add: rd_wr_same enc_width dec_enc)

lemma load_store_disjoint:
  "off + width \<le> off' \<or> off' + length bs \<le> off \<Longrightarrow>
   dec (rd (wr p off' bs) off width) = dec (rd p off width)"
  by (simp add: rd_wr_disjoint)

lemma store_frame:
  "valid x \<Longrightarrow> i < off \<or> off + width \<le> i \<Longrightarrow> wr p off (enc x) i = p i"
  by (simp add: wr_outside enc_width)

lemma store_load_same: "wr p off (enc (dec (rd p off width))) = p"
  by (simp add: enc_dec wr_rd_same)

lemma enc_inj: "valid x \<Longrightarrow> valid y \<Longrightarrow> enc x = enc y \<Longrightarrow> x = y"
  using dec_enc by metis

end

interpretation le16: layout 2 enc16 dec16 "\<lambda>_. True"
  by unfold_locales (simp_all add: enc16_dec16)

interpretation le32: layout 4 enc32 dec32 "\<lambda>_. True"
  by unfold_locales (simp_all add: enc32_dec32)

interpretation le64: layout 8 enc64 dec64 "\<lambda>_. True"
  by unfold_locales (simp_all add: enc64_dec64)

end
