(* ===== verification/Kds_Frame.thy ===== *)
theory Kds_Frame
  imports Kds_Prelude
begin

text \<open>
  Pages and frames: the structs of \<^verbatim>\<open>include/linux/kds.h\<close> and \<^verbatim>\<open>kds_page_mgr.h\<close>, the inline helpers
  of \<^verbatim>\<open>kds_page.h\<close>, and the operations of \<^verbatim>\<open>kernel/kds/page.c\<close> that work on one frame in memory.
  A frame's buffer is \<open>fr_page\<close>, \<open>None\<close> for a null \<^verbatim>\<open>struct page *\<close>; the content lock is held for the
  whole of each operation, which is therefore one atomic step. A null frame pointer takes the branch
  of a frame without \<open>fr_kp\<close>. \<^verbatim>\<open>crc32c\<close> belongs to the Linux kernel and is a parameter.
\<close>

section \<open>Constants and structs\<close>

definition KDS_BLKDEV_SECTOR_SIZE :: nat where "KDS_BLKDEV_SECTOR_SIZE = 512"
definition META_SUPERBLOCK_SECTOR :: u64 where "META_SUPERBLOCK_SECTOR = 2048"
definition KDS_SYS_RESERVED_PAGES :: nat where "KDS_SYS_RESERVED_PAGES = 128"

definition KDS_PAGE_TYPE_INVALID :: u32 where "KDS_PAGE_TYPE_INVALID = 0"
definition KDS_PAGE_TYPE_BTREE_ROOT :: u32 where "KDS_PAGE_TYPE_BTREE_ROOT = 1"
definition KDS_PAGE_TYPE_BTREE_INTERNAL :: u32 where "KDS_PAGE_TYPE_BTREE_INTERNAL = 2"
definition KDS_PAGE_TYPE_BTREE_DATA :: u32 where "KDS_PAGE_TYPE_BTREE_DATA = 3"
definition KDS_PAGE_TYPE_HEAP :: u32 where "KDS_PAGE_TYPE_HEAP = 4"
definition KDS_PAGE_TYPE_UNDO :: u32 where "KDS_PAGE_TYPE_UNDO = 5"
definition KDS_PAGE_TYPE_WAL :: u32 where "KDS_PAGE_TYPE_WAL = 6"
definition KDS_PAGE_TYPE_TOAST :: u32 where "KDS_PAGE_TYPE_TOAST = 7"

definition KDS_PAGE_FLAG_ALLOC :: u8 where "KDS_PAGE_FLAG_ALLOC = 1"
definition KDS_PAGE_FLAG_INIT :: u8 where "KDS_PAGE_FLAG_INIT = 2"
definition KDS_PAGE_FLAG_FREE :: u8 where "KDS_PAGE_FLAG_FREE = 4"
definition KDS_PAGE_FLAG_DIRTY :: u8 where "KDS_PAGE_FLAG_DIRTY = 8"

record kds_page_hdr =
  hdr_type :: u32
  hdr_crc :: u32
  hdr_flags :: u8
  hdr_reserved1 :: "u8 list"

definition KDS_PAGE_HDR_SIZE :: nat where "KDS_PAGE_HDR_SIZE = 41"

definition enc_page_hdr :: "kds_page_hdr \<Rightarrow> u8 list" where
  "enc_page_hdr h = enc32 (hdr_type h) @ enc32 (hdr_crc h) @ [hdr_flags h] @ hdr_reserved1 h"

definition dec_page_hdr :: "u8 list \<Rightarrow> kds_page_hdr" where
  "dec_page_hdr bs =
     \<lparr>hdr_type = dec32 (take 4 bs), hdr_crc = dec32 (take 4 (drop 4 bs)), hdr_flags = bs ! 8,
      hdr_reserved1 = drop 9 bs\<rparr>"

definition page_hdr_valid :: "kds_page_hdr \<Rightarrow> bool" where
  "page_hdr_valid h \<longleftrightarrow> length (hdr_reserved1 h) = 32"

record kds_page =
  kp_id :: u64
  kp_hdr :: kds_page_hdr
  kp_refcnt :: u64

datatype kds_frame_state = KDS_FRAME_FREE | KDS_FRAME_LOADING | KDS_FRAME_VALID

record kds_frame =
  frame_id :: nat
  fr_state :: kds_frame_state
  fr_page_id :: u64
  fr_kp :: "kds_page option"
  fr_page :: "pagebuf option"
  fr_mapped :: bool

definition kds_page_sector :: "u64 \<Rightarrow> u64" where
  "kds_page_sector pid = pid * 16"

section \<open>Inline helpers\<close>

definition kds_set_page_dirty :: "kds_page \<Rightarrow> kds_page" where
  "kds_set_page_dirty kp = kp\<lparr>kp_hdr := (kp_hdr kp)\<lparr>hdr_flags := hdr_flags (kp_hdr kp) OR KDS_PAGE_FLAG_DIRTY\<rparr>\<rparr>"

definition kds_set_page_init :: "kds_page \<Rightarrow> kds_page" where
  "kds_set_page_init kp = kp\<lparr>kp_hdr := (kp_hdr kp)\<lparr>hdr_flags := hdr_flags (kp_hdr kp) OR KDS_PAGE_FLAG_INIT\<rparr>\<rparr>"

definition pin_kpage :: "kds_page \<Rightarrow> kds_page" where
  "pin_kpage kp = kp\<lparr>kp_refcnt := kp_refcnt kp + 1\<rparr>"

definition unpin_kpage :: "kds_page \<Rightarrow> kds_page" where
  "unpin_kpage kp = kp\<lparr>kp_refcnt := kp_refcnt kp - 1\<rparr>"

definition PAGE_USABLE :: "kds_page \<Rightarrow> bool" where
  "PAGE_USABLE kp \<longleftrightarrow>
     hdr_flags (kp_hdr kp) AND (KDS_PAGE_FLAG_ALLOC OR KDS_PAGE_FLAG_INIT OR KDS_PAGE_FLAG_FREE) \<noteq> 0"

text \<open>The guard every operation on a frame opens with.\<close>

definition frame_page :: "kds_frame \<Rightarrow> (kds_page \<times> pagebuf) option" where
  "frame_page f = (case (fr_kp f, fr_page f) of (Some kp, Some pg) \<Rightarrow> Some (kp, pg) | _ \<Rightarrow> None)"

definition frame_put :: "kds_frame \<Rightarrow> kds_page \<Rightarrow> pagebuf \<Rightarrow> kds_frame" where
  "frame_put f kp pg = f\<lparr>fr_kp := Some kp, fr_page := Some pg\<rparr>"

section \<open>Page operations in memory\<close>

definition kds_calc_data_crc :: "(u32 \<Rightarrow> u8 list \<Rightarrow> u32) \<Rightarrow> pagebuf \<Rightarrow> u32" where
  "kds_calc_data_crc crc32c pg =
     crc32c (NOT 0) (rd pg KDS_PAGE_HDR_SIZE (KDS_PAGE_SIZE - KDS_PAGE_HDR_SIZE)) XOR NOT 0"

definition check_valid_page :: "(u32 \<Rightarrow> u8 list \<Rightarrow> u32) \<Rightarrow> kds_frame \<Rightarrow> bool" where
  "check_valid_page crc32c f =
     (case frame_page f of None \<Rightarrow> False
      | Some (kp, pg) \<Rightarrow> kds_calc_data_crc crc32c pg = hdr_crc (kp_hdr kp))"

definition kds_update_page_crc :: "(u32 \<Rightarrow> u8 list \<Rightarrow> u32) \<Rightarrow> kds_frame \<Rightarrow> kds_frame" where
  "kds_update_page_crc crc32c f =
     (case frame_page f of None \<Rightarrow> f
      | Some (kp, pg) \<Rightarrow>
          frame_put f (kp\<lparr>kp_hdr := (kp_hdr kp)\<lparr>hdr_crc := kds_calc_data_crc crc32c pg\<rparr>\<rparr>) pg)"

text \<open>\<^verbatim>\<open>offset + size\<close> is computed in 64 bits, as the guard does.\<close>

definition kds_set_page_buffer :: "kds_frame \<Rightarrow> u8 list \<Rightarrow> u64 \<Rightarrow> u64 \<Rightarrow> kds_frame res" where
  "kds_set_page_buffer f data offset sz =
     (case frame_page f of None \<Rightarrow> fails EINVAL
      | Some (kp, pg) \<Rightarrow>
          if of_nat KDS_PAGE_SIZE < offset + sz then fails EINVAL
          else case buf_rd data (unat sz) of
            None \<Rightarrow> Inl Fault
          | Some bs \<Rightarrow>
              rbind (pstore pg (unat offset) bs)
                (\<lambda>pg'. Inr (frame_put f (kds_set_page_dirty kp) pg')))"

definition kds_commit_page_hdr :: "kds_frame \<Rightarrow> kds_frame res" where
  "kds_commit_page_hdr f =
     (case frame_page f of None \<Rightarrow> fails EINVAL
      | Some (kp, pg) \<Rightarrow>
          rbind (pstore pg 0 (enc_page_hdr (kp_hdr kp))) (\<lambda>pg'. Inr (frame_put f kp pg')))"

definition kds_update_page_hdr :: "kds_frame \<Rightarrow> kds_page_hdr \<Rightarrow> kds_frame res" where
  "kds_update_page_hdr f hdr =
     (case frame_page f of None \<Rightarrow> fails EINVAL
      | Some (kp, pg) \<Rightarrow>
          rbind (pstore pg 0 (enc_page_hdr hdr))
            (\<lambda>pg'. Inr (frame_put f ((kds_set_page_dirty kp)\<lparr>kp_hdr := hdr\<rparr>) pg')))"

definition kds_free_list_add :: "u64 list \<Rightarrow> kds_page \<Rightarrow> u64 list" where
  "kds_free_list_add free_list kp = free_list @ [kp_id kp]"

definition kds_free_page :: "u64 list \<Rightarrow> kds_frame \<Rightarrow> (u64 list \<times> kds_frame) res" where
  "kds_free_page free_list f =
     (case frame_page f of None \<Rightarrow> fails EINVAL
      | Some (kp, pg) \<Rightarrow>
          rbind (pstore pg 0 (replicate KDS_PAGE_SIZE 0))
            (\<lambda>pg'. let kp1 = kds_set_page_dirty kp;
                       kp2 = kp1\<lparr>kp_hdr := (kp_hdr kp1)\<lparr>hdr_flags := hdr_flags (kp_hdr kp1) OR KDS_PAGE_FLAG_FREE\<rparr>\<rparr>
                   in Inr (kds_free_list_add free_list kp2, frame_put f kp2 pg')))"

section \<open>Layout of the page header\<close>

lemma length_enc_page_hdr: "page_hdr_valid h \<Longrightarrow> length (enc_page_hdr h) = 41"
  by (simp add: enc_page_hdr_def page_hdr_valid_def)

lemma drop_enc32 [simp]: "drop 4 (enc32 a @ xs) = xs" "take 4 (enc32 a @ xs) = enc32 a"
  by simp_all

lemma dec_enc_page_hdr: "dec_page_hdr (enc_page_hdr h) = h"
  by (cases h) (simp add: dec_page_hdr_def enc_page_hdr_def nth_append)

lemma split_hdr_bytes:
  assumes "length bs = 41"
  shows "bs = take 4 bs @ take 4 (drop 4 bs) @ [bs ! 8] @ drop 9 bs"
proof -
  have "bs = take 4 bs @ take 4 (drop 4 bs) @ drop 8 bs"
    by (metis append_take_drop_id drop_drop numeral_Bit0 add.commute)
  moreover have "drop 8 bs = bs ! 8 # drop 9 bs"
    using assms Cons_nth_drop_Suc [of 8 bs] by simp
  ultimately show ?thesis by simp
qed

interpretation page_hdr: layout KDS_PAGE_HDR_SIZE enc_page_hdr dec_page_hdr page_hdr_valid
proof unfold_locales
  fix bs :: "u8 list"
  assume "length bs = KDS_PAGE_HDR_SIZE"
  then have len: "length bs = 41" by (simp add: KDS_PAGE_HDR_SIZE_def)
  then show "page_hdr_valid (dec_page_hdr bs)"
    by (simp add: dec_page_hdr_def page_hdr_valid_def)
  have "enc_page_hdr (dec_page_hdr bs) = take 4 bs @ take 4 (drop 4 bs) @ [bs ! 8] @ drop 9 bs"
    using len by (simp add: enc_page_hdr_def dec_page_hdr_def enc32_dec32)
  then show "enc_page_hdr (dec_page_hdr bs) = bs"
    using split_hdr_bytes [OF len] by simp
qed (simp_all add: length_enc_page_hdr dec_enc_page_hdr KDS_PAGE_HDR_SIZE_def)

end
