(* ===== verification/Kds_Heap.thy ===== *)
theory Kds_Heap
  imports Kds_Frame
begin

text \<open>
  Slotted heap pages (\<^verbatim>\<open>kernel/kds/heap.c\<close>, \<^verbatim>\<open>include/linux/kds_heap.h\<close>). The page is kept byte for byte:
  the page header, the heap metadata, the slot directory growing up from \<open>KDS_HEAP_AREA_OFFSET\<close>, the
  tuples growing down from \<open>KDS_HEAP_NEXT_PAGE_OFFSET\<close>, and the link to the next page in the last eight
  bytes. Arithmetic on offsets stored in the page is 16-bit, as in the code. Every \<^verbatim>\<open>memcpy\<close> is a
  checked access to the page (\<open>pload\<close>, \<open>pstore\<close>), whose failure \<open>Fault\<close> is an access outside it. Out
  parameters are components of the result.
\<close>

section \<open>Layout\<close>

definition KDS_HEAP_NEXT_PAGE_OFFSET :: nat where "KDS_HEAP_NEXT_PAGE_OFFSET = KDS_PAGE_SIZE - 8"

record kds_heap_page_meta =
  nr_slots :: u16
  lower :: u16
  upper :: u16
  m_reserved :: u16

definition KDS_HEAP_META_SIZE :: nat where "KDS_HEAP_META_SIZE = 8"
definition KDS_HEAP_META_OFFSET :: nat where "KDS_HEAP_META_OFFSET = KDS_PAGE_HDR_SIZE"
definition KDS_HEAP_AREA_OFFSET :: nat where
  "KDS_HEAP_AREA_OFFSET = KDS_HEAP_META_OFFSET + KDS_HEAP_META_SIZE"

definition enc_meta :: "kds_heap_page_meta \<Rightarrow> u8 list" where
  "enc_meta m = enc16 (nr_slots m) @ enc16 (lower m) @ enc16 (upper m) @ enc16 (m_reserved m)"

definition dec_meta :: "u8 list \<Rightarrow> kds_heap_page_meta" where
  "dec_meta bs = \<lparr>nr_slots = dec16 (take 2 bs), lower = dec16 (take 2 (drop 2 bs)),
     upper = dec16 (take 2 (drop 4 bs)), m_reserved = dec16 (drop 6 bs)\<rparr>"

record kds_heap_slot =
  s_offset :: u16
  s_length :: u16
  s_flags :: u8

definition KDS_HEAP_SLOT_SIZE :: nat where "KDS_HEAP_SLOT_SIZE = 5"
definition KDS_HEAP_SLOT_DEAD :: u8 where "KDS_HEAP_SLOT_DEAD = 1"

definition enc_slot :: "kds_heap_slot \<Rightarrow> u8 list" where
  "enc_slot s = enc16 (s_offset s) @ enc16 (s_length s) @ [s_flags s]"

definition dec_slot :: "u8 list \<Rightarrow> kds_heap_slot" where
  "dec_slot bs = \<lparr>s_offset = dec16 (take 2 bs), s_length = dec16 (take 2 (drop 2 bs)), s_flags = bs ! 4\<rparr>"

record kds_heap_tuple_hdr =
  xmin :: u64
  xmax :: u64
  undo_ptr :: u64
  data_len :: u16
  t_flags :: u8
  t_reserved :: u8

definition KDS_HEAP_TUPLE_HDR_SIZE :: nat where "KDS_HEAP_TUPLE_HDR_SIZE = 28"

definition enc_tuple_hdr :: "kds_heap_tuple_hdr \<Rightarrow> u8 list" where
  "enc_tuple_hdr h =
     enc64 (xmin h) @ enc64 (xmax h) @ enc64 (undo_ptr h) @ enc16 (data_len h) @ [t_flags h, t_reserved h]"

definition dec_tuple_hdr :: "u8 list \<Rightarrow> kds_heap_tuple_hdr" where
  "dec_tuple_hdr bs =
     \<lparr>xmin = dec64 (take 8 bs), xmax = dec64 (take 8 (drop 8 bs)), undo_ptr = dec64 (take 8 (drop 16 bs)),
      data_len = dec16 (take 2 (drop 24 bs)), t_flags = bs ! 26, t_reserved = bs ! 27\<rparr>"

record kds_heap_tid =
  tid_page_id :: u64
  tid_slot :: u16

definition kds_heap_tid_pack :: "kds_heap_tid \<Rightarrow> u64" where
  "kds_heap_tid_pack tid = (tid_page_id tid AND 0xFFFFFFFFFFFF) OR push_bit 48 (ucast (tid_slot tid))"

definition kds_heap_tid_unpack :: "u64 \<Rightarrow> kds_heap_tid" where
  "kds_heap_tid_unpack packed =
     \<lparr>tid_page_id = packed AND 0xFFFFFFFFFFFF, tid_slot = ucast (drop_bit 48 packed)\<rparr>"

section \<open>Accessors of heap.c\<close>

definition heap_meta_ptr :: nat where "heap_meta_ptr = KDS_HEAP_META_OFFSET"

definition heap_slot_ptr :: "u16 \<Rightarrow> nat" where
  "heap_slot_ptr idx = KDS_HEAP_AREA_OFFSET + unat idx * KDS_HEAP_SLOT_SIZE"

definition load_meta :: "pagebuf \<Rightarrow> kds_heap_page_meta res" where
  "load_meta pg = rbind (pload pg heap_meta_ptr KDS_HEAP_META_SIZE) (\<lambda>bs. Inr (dec_meta bs))"

definition load_slot :: "pagebuf \<Rightarrow> u16 \<Rightarrow> kds_heap_slot res" where
  "load_slot pg i = rbind (pload pg (heap_slot_ptr i) KDS_HEAP_SLOT_SIZE) (\<lambda>bs. Inr (dec_slot bs))"

definition load_tuple_hdr :: "pagebuf \<Rightarrow> u16 \<Rightarrow> kds_heap_tuple_hdr res" where
  "load_tuple_hdr pg off = rbind (pload pg (unat off) KDS_HEAP_TUPLE_HDR_SIZE) (\<lambda>bs. Inr (dec_tuple_hdr bs))"

definition is_heap_insert_possible :: "kds_heap_page_meta \<Rightarrow> u16 \<Rightarrow> bool" where
  "is_heap_insert_possible m needed \<longleftrightarrow> needed \<le> upper m - lower m"

definition slot_dead :: "kds_heap_slot \<Rightarrow> bool" where
  "slot_dead s \<longleftrightarrow> s_flags s AND KDS_HEAP_SLOT_DEAD \<noteq> 0 \<or> s_length s = 0"

text \<open>The header and the payload of a tuple, the payload only when there is one.\<close>

definition store_tuple :: "pagebuf \<Rightarrow> nat \<Rightarrow> kds_heap_tuple_hdr \<Rightarrow> u8 list option \<Rightarrow> u16 \<Rightarrow> pagebuf res" where
  "store_tuple pg off h data len =
     rbind (pstore pg off (enc_tuple_hdr h)) (\<lambda>pg1.
       if 0 < len
       then (case data of None \<Rightarrow> Inl Fault
             | Some d \<Rightarrow> (case buf_rd d (unat len) of None \<Rightarrow> Inl Fault
                 | Some bs \<Rightarrow> pstore pg1 (off + KDS_HEAP_TUPLE_HDR_SIZE) bs))
       else Inr pg1)"

section \<open>Operations\<close>

definition heap_init_page_as :: "kds_frame \<Rightarrow> u32 \<Rightarrow> kds_frame res" where
  "heap_init_page_as f type =
     (case frame_page f of None \<Rightarrow> Inr f
      | Some (kp, pg) \<Rightarrow>
          let hdr = (kp_hdr kp)\<lparr>hdr_type := type, hdr_flags := hdr_flags (kp_hdr kp) OR KDS_PAGE_FLAG_INIT\<rparr>;
              meta = \<lparr>nr_slots = 0, lower = of_nat KDS_HEAP_AREA_OFFSET,
                      upper = of_nat KDS_HEAP_NEXT_PAGE_OFFSET, m_reserved = 0\<rparr>
          in rbind (pstore pg 0 (enc_page_hdr hdr)) (\<lambda>pg1.
             rbind (pstore pg1 heap_meta_ptr (enc_meta meta)) (\<lambda>pg2.
             rbind (pstore pg2 KDS_HEAP_NEXT_PAGE_OFFSET (enc64 0)) (\<lambda>pg3.
               Inr (frame_put f (kp\<lparr>kp_hdr := hdr\<rparr>) pg3)))))"

definition heap_init_page :: "kds_frame \<Rightarrow> kds_frame res" where
  "heap_init_page f = heap_init_page_as f KDS_PAGE_TYPE_HEAP"

definition heap_free_space :: "kds_frame \<Rightarrow> u16 res" where
  "heap_free_space f =
     (case frame_page f of None \<Rightarrow> Inr 0
      | Some (kp, pg) \<Rightarrow> rbind (load_meta pg) (\<lambda>m.
          Inr (if lower m < upper m then upper m - lower m else 0)))"

definition heap_nr_slots :: "kds_frame \<Rightarrow> u16 res" where
  "heap_nr_slots f =
     (case frame_page f of None \<Rightarrow> Inr 0
      | Some (kp, pg) \<Rightarrow> rbind (load_meta pg) (\<lambda>m. Inr (nr_slots m)))"

definition heap_insert_tuple_ex ::
  "kds_frame \<Rightarrow> u8 list option \<Rightarrow> u16 \<Rightarrow> u64 \<Rightarrow> u64 \<Rightarrow> u64 \<Rightarrow> (kds_heap_tid \<times> kds_frame) res" where
  "heap_insert_tuple_ex f data len xmn xmx undo =
     (case frame_page f of None \<Rightarrow> fails EINVAL
      | Some (kp, pg) \<Rightarrow>
          if 0 < len \<and> data = None then fails EINVAL
          else if KDS_PAGE_SIZE < unat len then fails EINVAL
          else let needed = of_nat KDS_HEAP_SLOT_SIZE + of_nat KDS_HEAP_TUPLE_HDR_SIZE + len in
          rbind (load_meta pg) (\<lambda>m.
          if \<not> is_heap_insert_possible m needed then fails ENOSPC
          else let new_upper = upper m - (of_nat KDS_HEAP_TUPLE_HDR_SIZE + len);
                   new_slot_idx = nr_slots m;
                   h = \<lparr>xmin = xmn, xmax = xmx, undo_ptr = undo, data_len = len, t_flags = 0, t_reserved = 0\<rparr>;
                   slot = \<lparr>s_offset = new_upper, s_length = of_nat KDS_HEAP_TUPLE_HDR_SIZE + len, s_flags = 0\<rparr>;
                   m' = m\<lparr>nr_slots := nr_slots m + 1, lower := lower m + of_nat KDS_HEAP_SLOT_SIZE,
                          upper := new_upper\<rparr>
          in rbind (store_tuple pg (unat new_upper) h data len) (\<lambda>pg1.
             rbind (pstore pg1 (heap_slot_ptr new_slot_idx) (enc_slot slot)) (\<lambda>pg2.
             rbind (pstore pg2 heap_meta_ptr (enc_meta m')) (\<lambda>pg3.
               Inr (\<lparr>tid_page_id = kp_id kp, tid_slot = new_slot_idx\<rparr>,
                    frame_put f (kds_set_page_dirty kp) pg3))))))"

definition heap_insert_tuple ::
  "kds_frame \<Rightarrow> u8 list option \<Rightarrow> u16 \<Rightarrow> u64 \<Rightarrow> (kds_heap_tid \<times> kds_frame) res" where
  "heap_insert_tuple f data len xmn = heap_insert_tuple_ex f data len xmn 0 0"

definition heap_overwrite_tuple ::
  "kds_frame \<Rightarrow> u16 \<Rightarrow> u8 list option \<Rightarrow> u16 \<Rightarrow> u64 \<Rightarrow> u64 \<Rightarrow> u64 \<Rightarrow> kds_frame res" where
  "heap_overwrite_tuple f i data len xmn xmx undo =
     (case frame_page f of None \<Rightarrow> fails EINVAL
      | Some (kp, pg) \<Rightarrow>
          if 0 < len \<and> data = None then fails EINVAL
          else rbind (load_meta pg) (\<lambda>m.
          if nr_slots m \<le> i then fails ENOENT
          else rbind (load_slot pg i) (\<lambda>s.
          if slot_dead s then fails ENOENT
          else if s_length s < of_nat KDS_HEAP_TUPLE_HDR_SIZE + len then fails ENOSPC
          else rbind (store_tuple pg (unat (s_offset s))
                 \<lparr>xmin = xmn, xmax = xmx, undo_ptr = undo, data_len = len, t_flags = 0, t_reserved = 0\<rparr>
                 data len) (\<lambda>pg'.
               Inr (frame_put f (kds_set_page_dirty kp) pg')))))"

definition heap_retire_slot :: "kds_frame \<Rightarrow> u16 \<Rightarrow> kds_frame res" where
  "heap_retire_slot f i =
     (case frame_page f of None \<Rightarrow> fails EINVAL
      | Some (kp, pg) \<Rightarrow>
          rbind (load_meta pg) (\<lambda>m.
          if nr_slots m \<le> i then fails ENOENT
          else rbind (load_slot pg i) (\<lambda>s.
               rbind (pstore pg (heap_slot_ptr i)
                 (enc_slot (s\<lparr>s_flags := s_flags s OR KDS_HEAP_SLOT_DEAD, s_length := 0\<rparr>))) (\<lambda>pg'.
               Inr (frame_put f (kds_set_page_dirty kp) pg')))))"

definition heap_slot_capacity :: "kds_frame \<Rightarrow> u16 \<Rightarrow> u16 res" where
  "heap_slot_capacity f i =
     (case frame_page f of None \<Rightarrow> fails EINVAL
      | Some (kp, pg) \<Rightarrow>
          rbind (load_meta pg) (\<lambda>m.
          if nr_slots m \<le> i then fails ENOENT
          else rbind (load_slot pg i) (\<lambda>s.
          if slot_dead s then fails ENOENT
          else Inr (s_length s - of_nat KDS_HEAP_TUPLE_HDR_SIZE))))"

definition heap_get_next_page_id :: "kds_frame \<Rightarrow> u64 res" where
  "heap_get_next_page_id f =
     (case frame_page f of None \<Rightarrow> Inr 0
      | Some (kp, pg) \<Rightarrow> rbind (pload pg KDS_HEAP_NEXT_PAGE_OFFSET 8) (\<lambda>bs. Inr (dec64 bs)))"

definition heap_set_next_page_id :: "kds_frame \<Rightarrow> u64 \<Rightarrow> kds_frame res" where
  "heap_set_next_page_id f next =
     (case frame_page f of None \<Rightarrow> fails EINVAL
      | Some (kp, pg) \<Rightarrow>
          rbind (pstore pg KDS_HEAP_NEXT_PAGE_OFFSET (enc64 next)) (\<lambda>pg'.
            Inr (frame_put f (kds_set_page_dirty kp) pg')))"

text \<open>
  \<open>out_buf\<close> says whether the caller's buffer pointer is non-null; the result carries the bytes copied
  into the buffer. The copy is of the whole buffer size, whatever the stored length is.
\<close>

definition heap_read_tuple_gen ::
  "kds_frame \<Rightarrow> u16 \<Rightarrow> bool \<Rightarrow> u16 \<Rightarrow> bool \<Rightarrow> (kds_heap_tuple_hdr \<times> u8 list) res" where
  "heap_read_tuple_gen f i out_buf out_buf_size raise_not_size_matched =
     (case frame_page f of None \<Rightarrow> fails EINVAL
      | Some (kp, pg) \<Rightarrow>
          rbind (load_meta pg) (\<lambda>m.
          if nr_slots m \<le> i then fails ENOENT
          else rbind (load_slot pg i) (\<lambda>s.
          if slot_dead s then fails ENOENT
          else rbind (load_tuple_hdr pg (s_offset s)) (\<lambda>h.
          if out_buf
          then if out_buf_size < data_len h \<and> raise_not_size_matched then fails ENOSPC
               else rbind (pload pg (unat (s_offset s) + KDS_HEAP_TUPLE_HDR_SIZE) (unat out_buf_size))
                      (\<lambda>bs. Inr (h, bs))
          else Inr (h, [])))))"

definition heap_read_tuple_pk :: "kds_frame \<Rightarrow> u16 \<Rightarrow> bool \<Rightarrow> u16 \<Rightarrow> (kds_heap_tuple_hdr \<times> u8 list) res" where
  "heap_read_tuple_pk f i out_buf out_buf_size =
     (if out_buf_size \<noteq> 8 then fails ENOSPC else heap_read_tuple_gen f i out_buf out_buf_size False)"

definition heap_read_tuple :: "kds_frame \<Rightarrow> u16 \<Rightarrow> bool \<Rightarrow> u16 \<Rightarrow> (kds_heap_tuple_hdr \<times> u8 list) res" where
  "heap_read_tuple f i out_buf out_buf_size = heap_read_tuple_gen f i out_buf out_buf_size True"

definition heap_delete_tuple :: "kds_frame \<Rightarrow> u16 \<Rightarrow> u64 \<Rightarrow> kds_frame res" where
  "heap_delete_tuple f i xmx =
     (case frame_page f of None \<Rightarrow> fails EINVAL
      | Some (kp, pg) \<Rightarrow>
          rbind (load_meta pg) (\<lambda>m.
          if nr_slots m \<le> i then fails ENOENT
          else rbind (load_slot pg i) (\<lambda>s.
          if slot_dead s then fails ENOENT
          else rbind (load_tuple_hdr pg (s_offset s)) (\<lambda>h.
               rbind (pstore pg (unat (s_offset s)) (enc_tuple_hdr (h\<lparr>xmax := xmx\<rparr>))) (\<lambda>pg'.
               Inr (frame_put f (kds_set_page_dirty kp) pg'))))))"

definition heap_has_space :: "kds_frame \<Rightarrow> u16 \<Rightarrow> bool res" where
  "heap_has_space f len =
     (case frame_page f of None \<Rightarrow> Inr False
      | Some _ \<Rightarrow>
          if KDS_PAGE_SIZE < unat len then Inr False
          else rbind (heap_free_space f) (\<lambda>free.
            Inr (of_nat KDS_HEAP_SLOT_SIZE + of_nat KDS_HEAP_TUPLE_HDR_SIZE + len \<le> free)))"

section \<open>Struct layouts\<close>

lemma dec_enc_meta: "dec_meta (enc_meta m) = m"
  by (cases m) (simp add: dec_meta_def enc_meta_def)

lemma dec_enc_slot: "dec_slot (enc_slot s) = s"
  by (cases s) (simp add: dec_slot_def enc_slot_def nth_append)

lemma dec_enc_tuple_hdr: "dec_tuple_hdr (enc_tuple_hdr h) = h"
  by (cases h) (simp add: dec_tuple_hdr_def enc_tuple_hdr_def nth_append)

lemma enc_dec_meta: "length bs = 8 \<Longrightarrow> enc_meta (dec_meta bs) = bs"
  using take_drop_glue [of 2 0 bs] take_drop_glue [of 2 2 bs] take_drop_glue [of 2 4 bs]
  by (simp add: enc_meta_def dec_meta_def enc16_dec16)

lemma enc_dec_slot: "length bs = 5 \<Longrightarrow> enc_slot (dec_slot bs) = bs"
  using take_drop_glue [of 2 0 bs] take_drop_glue [of 2 2 bs] Cons_nth_drop_Suc [of 4 bs]
  by (simp add: enc_slot_def dec_slot_def enc16_dec16)

lemma enc_dec_tuple_hdr: "length bs = 28 \<Longrightarrow> enc_tuple_hdr (dec_tuple_hdr bs) = bs"
  using take_drop_glue [of 8 0 bs] take_drop_glue [of 8 8 bs] take_drop_glue [of 8 16 bs]
    take_drop_glue [of 2 24 bs] Cons_nth_drop_Suc [of 26 bs] Cons_nth_drop_Suc [of 27 bs]
  by (simp add: enc_tuple_hdr_def dec_tuple_hdr_def enc16_dec16 enc64_dec64)

interpretation heap_meta: layout 8 enc_meta dec_meta "\<lambda>_. True"
  by unfold_locales (simp_all add: dec_enc_meta enc_dec_meta, simp add: enc_meta_def)

interpretation heap_slot: layout 5 enc_slot dec_slot "\<lambda>_. True"
  by unfold_locales (simp_all add: dec_enc_slot enc_dec_slot, simp add: enc_slot_def)

interpretation tuple_hdr: layout 28 enc_tuple_hdr dec_tuple_hdr "\<lambda>_. True"
  by unfold_locales (simp_all add: dec_enc_tuple_hdr enc_dec_tuple_hdr, simp add: enc_tuple_hdr_def)

lemmas heap_consts = KDS_PAGE_SIZE_def KDS_PAGE_HDR_SIZE_def KDS_HEAP_NEXT_PAGE_OFFSET_def
  KDS_HEAP_META_SIZE_def KDS_HEAP_META_OFFSET_def KDS_HEAP_AREA_OFFSET_def KDS_HEAP_SLOT_SIZE_def
  KDS_HEAP_TUPLE_HDR_SIZE_def heap_meta_ptr_def heap_slot_ptr_def

lemma heap_enc_lengths [simp]:
  "length (enc_meta m) = 8" "length (enc_slot s) = 5" "length (enc_tuple_hdr h) = 28"
  by (simp_all add: enc_meta_def enc_slot_def enc_tuple_hdr_def)

section \<open>The page as the readers see it\<close>

definition hmeta :: "pagebuf \<Rightarrow> kds_heap_page_meta" where
  "hmeta pg = dec_meta (rd pg 41 8)"

definition hslot :: "pagebuf \<Rightarrow> nat \<Rightarrow> kds_heap_slot" where
  "hslot pg i = dec_slot (rd pg (49 + 5 * i) 5)"

definition htuple :: "pagebuf \<Rightarrow> nat \<Rightarrow> kds_heap_tuple_hdr" where
  "htuple pg off = dec_tuple_hdr (rd pg off 28)"

definition nslots :: "pagebuf \<Rightarrow> nat" where
  "nslots pg = unat (nr_slots (hmeta pg))"

definition slot_off :: "pagebuf \<Rightarrow> nat \<Rightarrow> nat" where
  "slot_off pg i = unat (s_offset (hslot pg i))"

definition slot_len :: "pagebuf \<Rightarrow> nat \<Rightarrow> nat" where
  "slot_len pg i = unat (s_length (hslot pg i))"

definition slot_live :: "pagebuf \<Rightarrow> nat \<Rightarrow> bool" where
  "slot_live pg i \<longleftrightarrow> \<not> slot_dead (hslot pg i)"

text \<open>
  A well-formed heap page: the directory ends where \<open>lower\<close> says, free space lies between \<open>lower\<close> and
  \<open>upper\<close>, every live slot describes a tuple between \<open>upper\<close> and the link, large enough for its header
  and payload, and no two live slots overlap.
\<close>

definition span_ok :: "pagebuf \<Rightarrow> nat \<Rightarrow> bool" where
  "span_ok pg i \<longleftrightarrow> unat (upper (hmeta pg)) \<le> slot_off pg i \<and> slot_off pg i + slot_len pg i \<le> 8184
     \<and> 28 + unat (data_len (htuple pg (slot_off pg i))) \<le> slot_len pg i"

definition spans_disjoint :: "pagebuf \<Rightarrow> nat \<Rightarrow> nat \<Rightarrow> bool" where
  "spans_disjoint pg i j \<longleftrightarrow> slot_off pg i + slot_len pg i \<le> slot_off pg j
     \<or> slot_off pg j + slot_len pg j \<le> slot_off pg i"

definition heap_wf :: "pagebuf \<Rightarrow> bool" where
  "heap_wf pg \<longleftrightarrow>
     unat (lower (hmeta pg)) = 49 + 5 * nslots pg \<and> unat (lower (hmeta pg)) \<le> unat (upper (hmeta pg))
     \<and> unat (upper (hmeta pg)) \<le> 8184
     \<and> (\<forall>i < nslots pg. slot_live pg i \<longrightarrow> span_ok pg i)
     \<and> (\<forall>i < nslots pg. \<forall>j < nslots pg. i \<noteq> j \<longrightarrow> slot_live pg i \<longrightarrow> slot_live pg j \<longrightarrow> spans_disjoint pg i j)"

text \<open>The abstract page: what each slot holds, how many bytes are free, and the link.\<close>

type_synonym tuple_view = "kds_heap_tuple_hdr \<times> u8 list \<times> nat"

definition tuple_at :: "pagebuf \<Rightarrow> nat \<Rightarrow> tuple_view option" where
  "tuple_at pg i =
     (if slot_live pg i
      then let off = slot_off pg i; h = htuple pg off
           in Some (h, rd pg (off + 28) (unat (data_len h)), slot_len pg i - 28)
      else None)"

record heap_view =
  v_slots :: "tuple_view option list"
  v_free :: nat
  v_next :: u64

definition heap_view :: "pagebuf \<Rightarrow> heap_view" where
  "heap_view pg = \<lparr>v_slots = map (tuple_at pg) [0 ..< nslots pg],
     v_free = unat (upper (hmeta pg)) - unat (lower (hmeta pg)), v_next = dec64 (rd pg 8184 8)\<rparr>"

lemma length_v_slots [simp]: "length (v_slots (heap_view pg)) = nslots pg"
  by (simp add: heap_view_def)

lemma v_slots_nth [simp]: "i < nslots pg \<Longrightarrow> v_slots (heap_view pg) ! i = tuple_at pg i"
  by (simp add: heap_view_def)

section \<open>Checked accesses on a well-formed page\<close>

lemma load_meta_ok [simp]: "load_meta pg = Inr (hmeta pg)"
  by (simp add: load_meta_def pload_def heap_consts hmeta_def)

lemma load_slot_ok: "49 + 5 * unat i + 5 \<le> 8192 \<Longrightarrow> load_slot pg i = Inr (hslot pg (unat i))"
  by (simp add: load_slot_def pload_def heap_consts hslot_def mult.commute)

lemma load_tuple_hdr_ok: "unat off + 28 \<le> 8192 \<Longrightarrow> load_tuple_hdr pg off = Inr (htuple pg (unat off))"
  by (simp add: load_tuple_hdr_def pload_def heap_consts htuple_def)

lemma wr_append: "wr (wr p off xs) (off + length xs) ys = wr p off (xs @ ys)"
  by (auto simp: wr_def fun_eq_iff nth_append)

lemma store_tuple_ok:
  assumes "off + 28 + unat len \<le> 8192" and "unat len \<le> length d"
  shows "store_tuple pg off h (Some d) len = Inr (wr pg off (enc_tuple_hdr h @ take (unat len) d))"
  using assms wr_append [of pg off "enc_tuple_hdr h" "take (unat len) d"]
  by (auto simp: store_tuple_def pstore_def heap_consts buf_rd_def word_less_nat_alt unat_eq_0)

lemma heap_wf_bounds:
  assumes "heap_wf pg"
  shows "49 + 5 * nslots pg \<le> unat (upper (hmeta pg))" "unat (upper (hmeta pg)) \<le> 8184"
    "unat (lower (hmeta pg)) = 49 + 5 * nslots pg"
  using assms by (simp_all add: heap_wf_def)

lemma heap_wf_span:
  assumes "heap_wf pg" and "i < nslots pg" and "slot_live pg i"
  shows "unat (upper (hmeta pg)) \<le> slot_off pg i" "slot_off pg i + slot_len pg i \<le> 8184"
    "28 + unat (data_len (htuple pg (slot_off pg i))) \<le> slot_len pg i"
  using assms by (auto simp: heap_wf_def span_ok_def)

lemma heap_wf_disjoint:
  "heap_wf pg \<Longrightarrow> i < nslots pg \<Longrightarrow> j < nslots pg \<Longrightarrow> i \<noteq> j \<Longrightarrow> slot_live pg i \<Longrightarrow> slot_live pg j
   \<Longrightarrow> spans_disjoint pg i j"
  by (simp add: heap_wf_def)

section \<open>What a write leaves unchanged\<close>

lemma htuple_cong: "rd q off 28 = rd pg off 28 \<Longrightarrow> htuple q off = htuple pg off"
  by (simp add: htuple_def)

lemma rd_sub:
  assumes "rd q off n = rd p off n" and "off \<le> a" and "a + k \<le> off + n"
  shows "rd q a k = rd p a k"
proof (rule nth_equalityI)
  fix i assume "i < length (rd q a k)"
  then have i: "i < k" by simp
  have "rd q off n ! (a - off + i) = rd p off n ! (a - off + i)" using assms by simp
  then have "q (off + (a - off + i)) = p (off + (a - off + i))"
    using i assms(2,3) by (subst (asm) (1 2) rd_nth) auto
  then show "rd q a k ! i = rd p a k ! i" using i assms(2) by simp
qed simp

text \<open>A slot whose directory entry and whose span are untouched holds the same tuple.\<close>

lemma slot_unchanged:
  assumes "hslot q i = hslot pg i"
    and "slot_live pg i \<Longrightarrow> rd q (slot_off pg i) (slot_len pg i) = rd pg (slot_off pg i) (slot_len pg i)"
    and "slot_live pg i \<Longrightarrow> 28 + unat (data_len (htuple pg (slot_off pg i))) \<le> slot_len pg i"
  shows "tuple_at q i = tuple_at pg i" "slot_live q i = slot_live pg i" "slot_off q i = slot_off pg i"
    "slot_len q i = slot_len pg i"
    "slot_live pg i \<Longrightarrow> htuple q (slot_off pg i) = htuple pg (slot_off pg i)"
proof -
  show same: "slot_live q i = slot_live pg i" "slot_off q i = slot_off pg i" "slot_len q i = slot_len pg i"
    using assms(1) by (simp_all add: slot_live_def slot_off_def slot_len_def)
  show hdr: "htuple q (slot_off pg i) = htuple pg (slot_off pg i)" if "slot_live pg i"
    by (rule htuple_cong, rule rd_sub [OF assms(2) [OF that]]) (use assms(3) [OF that] in simp_all)
  show "tuple_at q i = tuple_at pg i"
  proof (cases "slot_live pg i")
    case True
    have "rd q (slot_off pg i + 28) (unat (data_len (htuple pg (slot_off pg i))))
        = rd pg (slot_off pg i + 28) (unat (data_len (htuple pg (slot_off pg i))))"
      by (rule rd_sub [OF assms(2) [OF True]]) (use assms(3) [OF True] in simp_all)
    with True same hdr [OF True] show ?thesis by (simp add: tuple_at_def Let_def del: One_nat_def)
  qed (simp add: tuple_at_def same)
qed

lemma hmeta_wr: "off \<le> 33 \<and> off + length bs \<le> 41 \<or> 49 \<le> off \<Longrightarrow> hmeta (wr pg off bs) = hmeta pg"
  unfolding hmeta_def by (subst rd_wr_disjoint) auto

lemma hmeta_wr_meta [simp]: "hmeta (wr pg 41 (enc_meta m)) = m"
  unfolding hmeta_def by (rule heap_meta.load_store_same) simp

lemma hslot_wr: "off + length bs \<le> 49 + 5 * i \<or> 54 + 5 * i \<le> off \<Longrightarrow> hslot (wr pg off bs) i = hslot pg i"
  unfolding hslot_def by (subst rd_wr_disjoint) auto

lemma hslot_wr_slot [simp]: "hslot (wr pg (49 + 5 * i) (enc_slot s)) i = s"
  unfolding hslot_def by (rule heap_slot.load_store_same) simp

lemma htuple_wr_same: "htuple (wr pg off (enc_tuple_hdr h @ d)) off = h"
  by (simp add: htuple_def rd_wr_inside dec_enc_tuple_hdr)

lemma rd_wr_payload: "rd (wr pg off (enc_tuple_hdr h @ d)) (off + 28) (length d) = d"
  by (simp add: rd_wr_inside)

section \<open>Appending a tuple\<close>

text \<open>The three writes of an insertion, in the order the code makes them.\<close>

definition put_new :: "pagebuf \<Rightarrow> kds_heap_tuple_hdr \<Rightarrow> u8 list \<Rightarrow> pagebuf" where
  "put_new pg h d =
     (let m = hmeta pg; nu = unat (upper m) - (28 + length d); i = nslots pg in
      wr (wr (wr pg nu (enc_tuple_hdr h @ d))
            (49 + 5 * i) (enc_slot \<lparr>s_offset = of_nat nu, s_length = of_nat (28 + length d), s_flags = 0\<rparr>))
         41 (enc_meta (m\<lparr>nr_slots := of_nat (Suc i), lower := of_nat (54 + 5 * i), upper := of_nat nu\<rparr>)))"

lemma unat_of_nat16: "n < 65536 \<Longrightarrow> unat (of_nat n :: u16) = n"
  by (simp add: unat_of_nat)

lemma put_new_facts:
  assumes wf: "heap_wf pg" and room: "33 + length d \<le> v_free (heap_view pg)"
    and len: "data_len h = of_nat (length d)"
  defines "q \<equiv> put_new pg h d" and "n \<equiv> nslots pg" and "u \<equiv> unat (upper (hmeta pg))"
  shows "nslots q = Suc n" "unat (lower (hmeta q)) = 54 + 5 * n"
    "unat (upper (hmeta q)) = u - (28 + length d)" "dec64 (rd q 8184 8) = dec64 (rd pg 8184 8)"
    "slot_live q n" "slot_off q n = u - (28 + length d)" "slot_len q n = 28 + length d"
    "tuple_at q n = Some (h, d, length d)" "htuple q (slot_off q n) = h"
    "\<And>i. i < n \<Longrightarrow> hslot q i = hslot pg i"
    "\<And>a k. u \<le> a \<Longrightarrow> rd q a k = rd pg a k"
proof -
  note b = heap_wf_bounds [OF wf, folded n_def u_def]
  have r: "54 + 5 * n + 28 + length d \<le> u"
    using room b by (simp add: heap_view_def u_def [symmetric])
  have sm: "28 + length d < 65536" "n < 65535" using r b(2) by simp_all
  note q = q_def put_new_def Let_def n_def [symmetric] u_def [symmetric]
  show m: "nslots q = Suc n" "unat (lower (hmeta q)) = 54 + 5 * n"
    "unat (upper (hmeta q)) = u - (28 + length d)"
    using r b sm by (simp_all add: q nslots_def [of "wr _ _ _"] unat_of_nat16 del: of_nat_Suc of_nat_add of_nat_mult of_nat_diff)
  show frame: "rd q a k = rd pg a k" if "u \<le> a" for a k
    using that r by (simp add: q rd_wr_before rd_wr_after)
  show "dec64 (rd q 8184 8) = dec64 (rd pg 8184 8)"
    using frame b(2) by simp
  show "hslot q i = hslot pg i" if "i < n" for i
    using that r by (simp add: q hslot_wr)
  have s: "hslot q n = \<lparr>s_offset = of_nat (u - (28 + length d)), s_length = of_nat (28 + length d), s_flags = 0\<rparr>"
    unfolding q by (subst hslot_wr) (simp_all del: of_nat_add of_nat_diff)
  have nz: "(of_nat (28 + length d) :: u16) \<noteq> 0"
    using unat_of_nat16 [OF sm(1)] by (metis add_is_0 unat_0 zero_neq_numeral)
  show lv: "slot_live q n" and off: "slot_off q n = u - (28 + length d)" and l: "slot_len q n = 28 + length d"
    using nz sm b r unat_of_nat16 [of "28 + length d"] unat_of_nat16 [of "u - (28 + length d)"]
    by (auto simp: slot_live_def slot_dead_def slot_off_def slot_len_def s KDS_HEAP_SLOT_DEAD_def
        unat_of_nat16 simp del: of_nat_add of_nat_diff)
  show th: "htuple q (slot_off q n) = h"
    unfolding off using r htuple_wr_same [of pg "u - (28 + length d)" h d]
    by (simp add: q htuple_def rd_wr_before rd_wr_after)
  have "rd q (u - (28 + length d) + 28) (length d) = d"
    using r rd_wr_payload [of pg "u - (28 + length d)" h d] by (simp add: q rd_wr_before rd_wr_after)
  then show "tuple_at q n = Some (h, d, length d)"
    using lv l th off len sm by (simp add: tuple_at_def Let_def unat_of_nat16)
qed


lemma put_new_refines:
  assumes wf: "heap_wf pg" and room: "33 + length d \<le> v_free (heap_view pg)"
    and len: "data_len h = of_nat (length d)"
  shows "heap_wf (put_new pg h d)"
    and "heap_view (put_new pg h d) = (heap_view pg)\<lparr>v_slots := v_slots (heap_view pg) @ [Some (h, d, length d)],
           v_free := v_free (heap_view pg) - (33 + length d)\<rparr>"
proof -
  let ?q = "put_new pg h d" and ?n = "nslots pg"
  note P = put_new_facts [OF assms]
  note b = heap_wf_bounds [OF wf]
  have old: "tuple_at ?q i = tuple_at pg i" "slot_live ?q i = slot_live pg i" "slot_off ?q i = slot_off pg i"
    "slot_len ?q i = slot_len pg i" "slot_live pg i \<Longrightarrow> htuple ?q (slot_off pg i) = htuple pg (slot_off pg i)"
    if "i < ?n" for i
    using slot_unchanged [of ?q i pg] P(10,11) [of i] P(11) heap_wf_span [OF wf that] that by auto
  have sp: "span_ok ?q i" if "i < ?n" "slot_live pg i" for i
    using old [OF that(1)] that heap_wf_span [OF wf that] P(3) by (simp add: span_ok_def)
  have new: "span_ok ?q ?n"
    using P b room len by (simp add: span_ok_def heap_view_def unat_of_nat16)
  have dn: "spans_disjoint ?q i ?n" "spans_disjoint ?q ?n i" if "i < ?n" "slot_live pg i" for i
    using old [OF that(1)] heap_wf_span [OF wf that] P(6,7) b room
    by (auto simp: spans_disjoint_def heap_view_def)
  have dd: "spans_disjoint ?q i j" if "i < ?n" "j < ?n" "i \<noteq> j" "slot_live pg i" "slot_live pg j" for i j
    using old [OF that(1)] old [OF that(2)] heap_wf_disjoint [OF wf that] by (simp add: spans_disjoint_def)
  show "heap_wf ?q"
    unfolding heap_wf_def P(1,2,3)
    using b room sp new dn dd old by (auto simp: less_Suc_eq heap_view_def)
  show "heap_view ?q = (heap_view pg)\<lparr>v_slots := v_slots (heap_view pg) @ [Some (h, d, length d)],
           v_free := v_free (heap_view pg) - (33 + length d)\<rparr>"
    using P b old by (simp add: heap_view_def)
qed

section \<open>Changing one slot in place\<close>

lemma update_slot_refines:
  assumes wf: "heap_wf pg" and i: "i < nslots pg"
    and meta: "hmeta q = hmeta pg" and link: "rd q 8184 8 = rd pg 8184 8"
    and others: "\<And>j. j < nslots pg \<Longrightarrow> j \<noteq> i \<Longrightarrow> hslot q j = hslot pg j"
    and bytes: "\<And>j. j < nslots pg \<Longrightarrow> j \<noteq> i \<Longrightarrow> slot_live pg j \<Longrightarrow>
      rd q (slot_off pg j) (slot_len pg j) = rd pg (slot_off pg j) (slot_len pg j)"
    and self: "slot_live q i \<Longrightarrow> slot_live pg i \<and> slot_off q i = slot_off pg i \<and> slot_len q i = slot_len pg i
      \<and> 28 + unat (data_len (htuple q (slot_off q i))) \<le> slot_len q i"
  shows "heap_wf q" and "heap_view q = (heap_view pg)\<lparr>v_slots := (v_slots (heap_view pg))[i := tuple_at q i]\<rparr>"
proof -
  note b = heap_wf_bounds [OF wf]
  have n: "nslots q = nslots pg" by (simp add: nslots_def meta)
  have old: "tuple_at q j = tuple_at pg j" "slot_live q j = slot_live pg j" "slot_off q j = slot_off pg j"
    "slot_len q j = slot_len pg j" "slot_live pg j \<Longrightarrow> htuple q (slot_off pg j) = htuple pg (slot_off pg j)"
    if "j < nslots pg" "j \<noteq> i" for j
    using slot_unchanged [of q j pg] others [OF that] bytes [OF that] heap_wf_span(3) [OF wf that(1)] by auto
  have geo: "slot_live pg j \<and> slot_off q j = slot_off pg j \<and> slot_len q j = slot_len pg j"
    if "j < nslots pg" "slot_live q j" for j
    using old [OF that(1)] self that by (cases "j = i") auto
  have sp: "span_ok q j" if j: "j < nslots pg" "slot_live q j" for j
    using heap_wf_span [OF wf j(1)] geo [OF j] old [OF j(1)] self j
    by (cases "j = i") (auto simp: span_ok_def meta)
  have dis: "spans_disjoint q j k" if jk: "j < nslots pg" "k < nslots pg" "j \<noteq> k" "slot_live q j" "slot_live q k" for j k
    using geo [OF jk(1,4)] geo [OF jk(2,5)] heap_wf_disjoint [OF wf jk(1-3)] by (simp add: spans_disjoint_def)
  show "heap_wf q"
    unfolding heap_wf_def n meta using b sp dis by simp
  show "heap_view q = (heap_view pg)\<lparr>v_slots := (v_slots (heap_view pg))[i := tuple_at q i]\<rparr>"
    using i old by (auto simp: heap_view_def meta link n intro!: nth_equalityI) (auto simp: nth_list_update)
qed

text \<open>A write inside the span of a live slot.\<close>

lemma write_span_refines:
  assumes wf: "heap_wf pg" and i: "i < nslots pg" and live: "slot_live pg i"
    and fits: "28 + length d \<le> slot_len pg i" and len: "data_len h = of_nat (length d)"
  defines "q \<equiv> wr pg (slot_off pg i) (enc_tuple_hdr h @ d)"
  shows "heap_wf q" and "heap_view q = (heap_view pg)\<lparr>v_slots :=
      (v_slots (heap_view pg))[i := Some (h, d, slot_len pg i - 28)]\<rparr>"
proof -
  note b = heap_wf_bounds [OF wf]
  note s = heap_wf_span [OF wf i live]
  have slots: "hslot q j = hslot pg j" if "j < nslots pg" for j
    unfolding q_def using that b s(1) by (intro hslot_wr) auto
  have geo: "slot_live q i" "slot_off q i = slot_off pg i" "slot_len q i = slot_len pg i"
    using slots [OF i] live by (simp_all add: slot_live_def slot_off_def slot_len_def)
  have h: "htuple q (slot_off pg i) = h" by (simp add: q_def htuple_wr_same)
  have ln: "unat (data_len h) = length d" using len fits s(2) by (simp add: unat_of_nat16)
  have t: "tuple_at q i = Some (h, d, slot_len pg i - 28)"
    using geo h ln rd_wr_payload [of pg "slot_off pg i" h d] by (simp add: tuple_at_def Let_def q_def)
  have meta: "hmeta q = hmeta pg" unfolding q_def using s(1) b by (intro hmeta_wr) auto
  have link: "rd q 8184 8 = rd pg 8184 8" unfolding q_def using s(2) fits by (intro rd_wr_after) simp
  have other: "rd q (slot_off pg j) (slot_len pg j) = rd pg (slot_off pg j) (slot_len pg j)"
    if "j < nslots pg" "j \<noteq> i" "slot_live pg j" for j
    unfolding q_def using heap_wf_disjoint [OF wf that(1) i that(2,3) live] fits
    by (intro rd_wr_disjoint) (auto simp: spans_disjoint_def)
  note U = update_slot_refines [OF wf i meta link slots other]
  show "heap_wf q" by (rule U) (use geo h ln fits live in auto)
  have "heap_view q = (heap_view pg)\<lparr>v_slots := (v_slots (heap_view pg))[i := tuple_at q i]\<rparr>"
    by (rule U) (use geo h ln fits live in auto)
  then show "heap_view q = (heap_view pg)\<lparr>v_slots :=
      (v_slots (heap_view pg))[i := Some (h, d, slot_len pg i - 28)]\<rparr>" by (simp add: t)
qed

lemma write_hdr_refines:
  assumes wf: "heap_wf pg" and i: "i < nslots pg" and live: "slot_live pg i"
    and t: "tuple_at pg i = Some (h, d, c)" and h': "data_len h' = data_len h"
  defines "q \<equiv> wr pg (slot_off pg i) (enc_tuple_hdr h')"
  shows "heap_wf q" and "heap_view q = (heap_view pg)\<lparr>v_slots := (v_slots (heap_view pg))[i := Some (h', d, c)]\<rparr>"
proof -
  have d: "h = htuple pg (slot_off pg i)" "d = rd pg (slot_off pg i + 28) (unat (data_len h))" "c = slot_len pg i - 28"
    using t live by (auto simp: tuple_at_def Let_def)
  have q: "q = wr pg (slot_off pg i) (enc_tuple_hdr h' @ d)"
    unfolding q_def d(2) by (rule ext) (auto simp: wr_def nth_append)
  have fits: "28 + length d \<le> slot_len pg i"
    using heap_wf_span(3) [OF wf i live] d by simp
  have len: "data_len h' = of_nat (length d)" using h' d by simp
  show "heap_wf q" "heap_view q = (heap_view pg)\<lparr>v_slots := (v_slots (heap_view pg))[i := Some (h', d, c)]\<rparr>"
    using write_span_refines [OF wf i live fits len] unfolding q [symmetric] d(3) by simp_all
qed

lemma retire_refines:
  assumes wf: "heap_wf pg" and i: "i < nslots pg" and dead: "slot_dead s"
  defines "q \<equiv> wr pg (49 + 5 * i) (enc_slot s)"
  shows "heap_wf q" and "heap_view q = (heap_view pg)\<lparr>v_slots := (v_slots (heap_view pg))[i := None]\<rparr>"
proof -
  note b = heap_wf_bounds [OF wf]
  have s: "hslot q i = s" by (simp add: q_def)
  then have nl: "\<not> slot_live q i" using dead by (simp add: slot_live_def)
  then have t: "tuple_at q i = None" by (simp add: tuple_at_def)
  have slots: "hslot q j = hslot pg j" if "j < nslots pg" "j \<noteq> i" for j
    unfolding q_def using that by (intro hslot_wr) auto
  have meta: "hmeta q = hmeta pg" unfolding q_def by (intro hmeta_wr) simp
  have link: "rd q 8184 8 = rd pg 8184 8" unfolding q_def using i b by (intro rd_wr_after) simp
  have other: "rd q (slot_off pg j) (slot_len pg j) = rd pg (slot_off pg j) (slot_len pg j)"
    if "j < nslots pg" "j \<noteq> i" "slot_live pg j" for j
    unfolding q_def using heap_wf_span(1) [OF wf that(1,3)] i b by (intro rd_wr_after) simp
  note U = update_slot_refines [OF wf i meta link slots other]
  show "heap_wf q" by (rule U) (use nl in auto)
  have "heap_view q = (heap_view pg)\<lparr>v_slots := (v_slots (heap_view pg))[i := tuple_at q i]\<rparr>"
    by (rule U) (use nl in auto)
  then show "heap_view q = (heap_view pg)\<lparr>v_slots := (v_slots (heap_view pg))[i := None]\<rparr>" by (simp add: t)
qed

lemma write_link_refines:
  fixes nx :: u64
  assumes wf: "heap_wf pg"
  defines "q \<equiv> wr pg 8184 (enc64 nx)"
  shows "heap_wf q" and "heap_view q = (heap_view pg)\<lparr>v_next := nx\<rparr>"
proof -
  note b = heap_wf_bounds [OF wf]
  have meta: "hmeta q = hmeta pg" unfolding q_def by (intro hmeta_wr) simp
  have n: "nslots q = nslots pg" by (simp add: nslots_def meta)
  have slots: "hslot q j = hslot pg j" if "j < nslots pg" for j
    unfolding q_def using that b by (intro hslot_wr) auto
  have old: "tuple_at q j = tuple_at pg j" "slot_live q j = slot_live pg j" "slot_off q j = slot_off pg j"
    "slot_len q j = slot_len pg j" "slot_live pg j \<Longrightarrow> htuple q (slot_off pg j) = htuple pg (slot_off pg j)"
    if "j < nslots pg" for j
    using slot_unchanged [of q j pg] slots [OF that] heap_wf_span(2,3) [OF wf that]
    by (auto simp: q_def rd_wr_before)
  show "heap_wf q"
    using wf old unfolding heap_wf_def n meta span_ok_def spans_disjoint_def by auto
  show "heap_view q = (heap_view pg)\<lparr>v_next := nx\<rparr>"
    using old by (simp add: heap_view_def meta n) (simp add: q_def rd_wr_same)
qed

section \<open>The abstract heap page\<close>

definition mk_hdr :: "u64 \<Rightarrow> u64 \<Rightarrow> u64 \<Rightarrow> nat \<Rightarrow> kds_heap_tuple_hdr" where
  "mk_hdr xmn xmx undo len =
     \<lparr>xmin = xmn, xmax = xmx, undo_ptr = undo, data_len = of_nat len, t_flags = 0, t_reserved = 0\<rparr>"

definition spec_slot :: "heap_view \<Rightarrow> nat \<Rightarrow> tuple_view res" where
  "spec_slot v i = (if i < length (v_slots v)
     then case v_slots v ! i of None \<Rightarrow> fails ENOENT | Some t \<Rightarrow> Inr t else fails ENOENT)"

definition spec_insert :: "heap_view \<Rightarrow> u8 list \<Rightarrow> u64 \<Rightarrow> u64 \<Rightarrow> u64 \<Rightarrow> (nat \<times> heap_view) res" where
  "spec_insert v d xmn xmx undo =
     (if 8192 < length d then fails EINVAL
      else if v_free v < 33 + length d then fails ENOSPC
      else Inr (length (v_slots v),
        v\<lparr>v_slots := v_slots v @ [Some (mk_hdr xmn xmx undo (length d), d, length d)],
          v_free := v_free v - (33 + length d)\<rparr>))"

definition spec_overwrite :: "heap_view \<Rightarrow> nat \<Rightarrow> u8 list \<Rightarrow> u64 \<Rightarrow> u64 \<Rightarrow> u64 \<Rightarrow> heap_view res" where
  "spec_overwrite v i d xmn xmx undo = rbind (spec_slot v i) (\<lambda>(h0, d0, c).
     if c < length d then fails ENOSPC
     else Inr (v\<lparr>v_slots := (v_slots v)[i := Some (mk_hdr xmn xmx undo (length d), d, c)]\<rparr>))"

definition spec_retire :: "heap_view \<Rightarrow> nat \<Rightarrow> heap_view res" where
  "spec_retire v i = (if i < length (v_slots v) then Inr (v\<lparr>v_slots := (v_slots v)[i := None]\<rparr>) else fails ENOENT)"

definition spec_delete :: "heap_view \<Rightarrow> nat \<Rightarrow> u64 \<Rightarrow> heap_view res" where
  "spec_delete v i xmx = rbind (spec_slot v i) (\<lambda>(h, d, c).
     Inr (v\<lparr>v_slots := (v_slots v)[i := Some (h\<lparr>xmax := xmx\<rparr>, d, c)]\<rparr>))"

definition spec_read :: "heap_view \<Rightarrow> nat \<Rightarrow> nat \<Rightarrow> (kds_heap_tuple_hdr \<times> u8 list) res" where
  "spec_read v i sz = rbind (spec_slot v i) (\<lambda>(h, d, c). if sz < length d then fails ENOSPC else Inr (h, d))"

text \<open>A frame that holds a well-formed heap page, and what it holds.\<close>

definition heap_ok :: "kds_frame \<Rightarrow> bool" where
  "heap_ok f = (case frame_page f of None \<Rightarrow> False | Some (kp, pg) \<Rightarrow> heap_wf pg)"

definition frame_view :: "kds_frame \<Rightarrow> heap_view" where
  "frame_view f = (case frame_page f of None \<Rightarrow> \<lparr>v_slots = [], v_free = 0, v_next = 0\<rparr>
     | Some (kp, pg) \<Rightarrow> heap_view pg)"

definition frame_kp_id :: "kds_frame \<Rightarrow> u64" where
  "frame_kp_id f = (case fr_kp f of None \<Rightarrow> 0 | Some kp \<Rightarrow> kp_id kp)"

lemma frame_page_put [simp]: "frame_page (frame_put f kp pg) = Some (kp, pg)"
  by (simp add: frame_page_def frame_put_def)

lemma frame_kp_id_put [simp]: "frame_kp_id (frame_put f kp pg) = kp_id kp"
  by (simp add: frame_kp_id_def frame_put_def)

lemma kp_id_dirty [simp]: "kp_id (kds_set_page_dirty kp) = kp_id kp"
  by (simp add: kds_set_page_dirty_def)

lemma frame_page_kp_id: "frame_page f = Some (kp, pg) \<Longrightarrow> frame_kp_id f = kp_id kp"
  by (auto simp: frame_page_def frame_kp_id_def split: option.splits)

lemma heap_okE:
  assumes "heap_ok f"
  obtains kp pg where "frame_page f = Some (kp, pg)" "heap_wf pg" "frame_view f = heap_view pg"
  using assms by (auto simp: heap_ok_def frame_view_def split: option.splits)

lemma slot_in_page: "heap_wf pg \<Longrightarrow> \<not> nr_slots (hmeta pg) \<le> i \<Longrightarrow> load_slot pg i = Inr (hslot pg (unat i))"
  using heap_wf_bounds [of pg] by (intro load_slot_ok) (simp add: nslots_def word_le_nat_alt)

lemma nr_slots_le: "nr_slots (hmeta pg) \<le> i \<longleftrightarrow> nslots pg \<le> unat i"
  by (simp add: nslots_def word_le_nat_alt)

lemma spec_slot_view:
  "spec_slot (heap_view pg) i = (if nslots pg \<le> i \<or> slot_dead (hslot pg i) then fails ENOENT
     else Inr (htuple pg (slot_off pg i),
       rd pg (slot_off pg i + 28) (unat (data_len (htuple pg (slot_off pg i)))), slot_len pg i - 28))"
  by (auto simp: spec_slot_def tuple_at_def slot_live_def Let_def)

section \<open>Refinement\<close>

lemma heap_insert_refines:
  assumes ok: "heap_ok f" and len: "length d < 65536"
  shows "case heap_insert_tuple_ex f (Some d) (of_nat (length d)) xmn xmx undo of
      Inl e \<Rightarrow> spec_insert (frame_view f) d xmn xmx undo = Inl e
    | Inr (tid, f') \<Rightarrow> spec_insert (frame_view f) d xmn xmx undo = Inr (unat (tid_slot tid), frame_view f')
        \<and> heap_ok f' \<and> tid_page_id tid = frame_kp_id f \<and> frame_kp_id f' = frame_kp_id f"
proof -
  obtain kp pg where f: "frame_page f = Some (kp, pg)" "heap_wf pg" "frame_view f = heap_view pg"
    using ok by (rule heap_okE)
  note b = heap_wf_bounds [OF f(2)]
  let ?m = "hmeta pg" and ?h = "mk_hdr xmn xmx undo (length d)"
  have ul: "unat (upper ?m - lower ?m) = unat (upper ?m) - unat (lower ?m)"
    using b by (intro unat_sub) (simp add: word_le_nat_alt)
  have L: "unat (of_nat (length d) :: u16) = length d" using len by (rule unat_of_nat16)
  have room: "is_heap_insert_possible ?m (5 + 28 + of_nat (length d)) \<longleftrightarrow> 33 + length d \<le> v_free (heap_view pg)"
    if "length d \<le> 8192"
  proof -
    have "unat (33 + of_nat (length d) :: u16) = 33 + length d"
      using unat_of_nat16 [of "33 + length d"] that by simp
    then show ?thesis by (simp add: is_heap_insert_possible_def word_le_nat_alt ul heap_view_def)
  qed
  show ?thesis
  proof (cases "length d \<le> 8192 \<and> 33 + length d \<le> v_free (heap_view pg)")
    case False
    then show ?thesis
      using room by (auto simp: heap_insert_tuple_ex_def f spec_insert_def L heap_consts Let_def)
  next
    case True
    then have r: "82 + 5 * nslots pg + length d \<le> unat (upper ?m)" using b by (auto simp: heap_view_def)
    have s28: "(28 + of_nat (length d) :: u16) = of_nat (28 + length d)" by simp
    have nu: "upper ?m - of_nat (28 + length d) = of_nat (unat (upper ?m) - (28 + length d))"
      using r by (simp add: of_nat_diff)
    have nun: "unat (of_nat (unat (upper ?m) - (28 + length d)) :: u16) = unat (upper ?m) - (28 + length d)"
      using b r by (intro unat_of_nat16) simp
    have lo: "lower ?m + 5 = of_nat (54 + 5 * nslots pg)"
    proof -
      have "lower ?m = of_nat (unat (lower ?m))" by simp
      then show ?thesis unfolding b(3) by simp
    qed
    have nr: "nr_slots ?m + 1 = of_nat (Suc (nslots pg))" by (simp add: nslots_def)
    have st: "store_tuple pg (unat (upper ?m) - (28 + length d)) ?h (Some d) (of_nat (length d))
        = Inr (wr pg (unat (upper ?m) - (28 + length d)) (enc_tuple_hdr ?h @ d))"
      using store_tuple_ok [of "unat (upper ?m) - (28 + length d)" "of_nat (length d)" d pg ?h] r b L by simp
    have slotn: "unat (nr_slots ?m) * 5 = 5 * nslots pg" by (simp add: nslots_def)
    have "heap_insert_tuple_ex f (Some d) (of_nat (length d)) xmn xmx undo
        = Inr (\<lparr>tid_page_id = kp_id kp, tid_slot = nr_slots ?m\<rparr>, frame_put f (kds_set_page_dirty kp) (put_new pg ?h d))"
      using True room r b st
      by (simp add: heap_insert_tuple_ex_def f L heap_consts Let_def pstore_def put_new_def nu nun lo nr
          slotn mk_hdr_def s28 del: of_nat_Suc of_nat_add of_nat_diff)
    then show ?thesis
      using True put_new_refines [OF f(2), of d ?h] frame_page_kp_id [OF f(1)]
      by (simp add: f spec_insert_def heap_ok_def frame_view_def nslots_def mk_hdr_def)
  qed
qed

lemma heap_overwrite_refines:
  assumes ok: "heap_ok f" and len: "28 + length d < 65536"
  shows "case heap_overwrite_tuple f i (Some d) (of_nat (length d)) xmn xmx undo of
      Inl e \<Rightarrow> spec_overwrite (frame_view f) (unat i) d xmn xmx undo = Inl e
    | Inr f' \<Rightarrow> spec_overwrite (frame_view f) (unat i) d xmn xmx undo = Inr (frame_view f')
        \<and> heap_ok f' \<and> frame_kp_id f' = frame_kp_id f"
proof -
  obtain kp pg where f: "frame_page f = Some (kp, pg)" "heap_wf pg" "frame_view f = heap_view pg"
    using ok by (rule heap_okE)
  let ?i = "unat i"
  have L: "unat (of_nat (length d) :: u16) = length d" using len by (intro unat_of_nat16) simp
  have s28: "(28 + of_nat (length d) :: u16) = of_nat (28 + length d)" by simp
  have fit: "s_length (hslot pg ?i) < of_nat (28 + length d) \<longleftrightarrow> slot_len pg ?i < 28 + length d"
    using unat_of_nat16 [OF len] by (simp add: word_less_nat_alt slot_len_def del: of_nat_add)
  show ?thesis
  proof (cases "nslots pg \<le> ?i \<or> slot_dead (hslot pg ?i) \<or> slot_len pg ?i < 28 + length d")
    case True
    moreover have "nslots pg \<le> ?i \<or> slot_dead (hslot pg ?i) \<or> 28 \<le> slot_len pg ?i"
      using heap_wf_span(3) [OF f(2), of ?i] unfolding slot_live_def by linarith
    ultimately show ?thesis
      by (auto simp: heap_overwrite_tuple_def f nr_slots_le slot_in_page [OF f(2)] heap_consts s28 fit
          spec_overwrite_def spec_slot_view slot_live_def split: if_splits simp del: of_nat_add)
  next
    case False
    then have i: "?i < nslots pg" and live: "slot_live pg ?i" and fits: "28 + length d \<le> slot_len pg ?i"
      by (auto simp: slot_live_def)
    let ?h = "mk_hdr xmn xmx undo (length d)"
    have st: "store_tuple pg (slot_off pg ?i) ?h (Some d) (of_nat (length d))
        = Inr (wr pg (slot_off pg ?i) (enc_tuple_hdr ?h @ d))"
      using store_tuple_ok [of "slot_off pg ?i" "of_nat (length d)" d pg ?h] L fits
        heap_wf_span(2) [OF f(2) i live] by simp
    have "heap_overwrite_tuple f i (Some d) (of_nat (length d)) xmn xmx undo
        = Inr (frame_put f (kds_set_page_dirty kp) (wr pg (slot_off pg ?i) (enc_tuple_hdr ?h @ d)))"
      using False st
      by (simp add: heap_overwrite_tuple_def f nr_slots_le slot_in_page [OF f(2)] heap_consts s28 fit
          mk_hdr_def slot_off_def del: of_nat_add)
    then show ?thesis
      using False fits write_span_refines [OF f(2) i live fits, of ?h] frame_page_kp_id [OF f(1)]
      by (auto simp: f spec_overwrite_def spec_slot_view heap_ok_def frame_view_def mk_hdr_def)
  qed
qed

lemma heap_retire_refines:
  assumes ok: "heap_ok f"
  shows "case heap_retire_slot f i of
      Inl e \<Rightarrow> spec_retire (frame_view f) (unat i) = Inl e
    | Inr f' \<Rightarrow> spec_retire (frame_view f) (unat i) = Inr (frame_view f')
        \<and> heap_ok f' \<and> frame_kp_id f' = frame_kp_id f"
proof -
  obtain kp pg where f: "frame_page f = Some (kp, pg)" "heap_wf pg" "frame_view f = heap_view pg"
    using ok by (rule heap_okE)
  note b = heap_wf_bounds [OF f(2)]
  let ?i = "unat i"
  show ?thesis
  proof (cases "nslots pg \<le> ?i")
    case True
    then show ?thesis by (simp add: heap_retire_slot_def f nr_slots_le spec_retire_def)
  next
    case False
    then have i: "?i < nslots pg" by simp
    let ?s = "(hslot pg ?i)\<lparr>s_flags := s_flags (hslot pg ?i) OR KDS_HEAP_SLOT_DEAD, s_length := 0\<rparr>"
    have "heap_retire_slot f i
        = Inr (frame_put f (kds_set_page_dirty kp) (wr pg (49 + 5 * ?i) (enc_slot ?s)))"
      using False b by (simp add: heap_retire_slot_def f nr_slots_le slot_in_page [OF f(2)] heap_consts
          pstore_def mult.commute [of _ 5])
    then show ?thesis
      using i retire_refines [OF f(2) i, of ?s] frame_page_kp_id [OF f(1)]
      by (simp add: f spec_retire_def heap_ok_def frame_view_def slot_dead_def)
  qed
qed

lemma heap_delete_refines:
  assumes ok: "heap_ok f"
  shows "case heap_delete_tuple f i xmx of
      Inl e \<Rightarrow> spec_delete (frame_view f) (unat i) xmx = Inl e
    | Inr f' \<Rightarrow> spec_delete (frame_view f) (unat i) xmx = Inr (frame_view f')
        \<and> heap_ok f' \<and> frame_kp_id f' = frame_kp_id f"
proof -
  obtain kp pg where f: "frame_page f = Some (kp, pg)" "heap_wf pg" "frame_view f = heap_view pg"
    using ok by (rule heap_okE)
  let ?i = "unat i"
  show ?thesis
  proof (cases "nslots pg \<le> ?i \<or> slot_dead (hslot pg ?i)")
    case True
    then show ?thesis
      by (auto simp: heap_delete_tuple_def f nr_slots_le slot_in_page [OF f(2)] spec_delete_def spec_slot_view)
  next
    case False
    then have i: "?i < nslots pg" and live: "slot_live pg ?i" by (auto simp: slot_live_def)
    let ?h = "htuple pg (slot_off pg ?i)"
    have in_page: "slot_off pg ?i + 28 \<le> 8192" using heap_wf_span [OF f(2) i live] by simp
    have "heap_delete_tuple f i xmx = Inr (frame_put f (kds_set_page_dirty kp)
        (wr pg (slot_off pg ?i) (enc_tuple_hdr (?h\<lparr>xmax := xmx\<rparr>))))"
      using False in_page load_tuple_hdr_ok [of "s_offset (hslot pg ?i)" pg]
      by (simp add: heap_delete_tuple_def f nr_slots_le slot_in_page [OF f(2)] pstore_def
          KDS_PAGE_SIZE_def slot_off_def)
    then show ?thesis
      using False write_hdr_refines [OF f(2) i live, of _ _ _ "?h\<lparr>xmax := xmx\<rparr>"] frame_page_kp_id [OF f(1)]
      by (simp add: f spec_delete_def spec_slot_view heap_ok_def frame_view_def tuple_at_def Let_def live)
  qed
qed

lemma heap_link_refines:
  assumes ok: "heap_ok f"
  shows "\<exists>f'. heap_set_next_page_id f nx = Inr f' \<and> heap_ok f' \<and> frame_view f' = (frame_view f)\<lparr>v_next := nx\<rparr>
           \<and> heap_get_next_page_id f' = Inr nx"
proof -
  obtain kp pg where f: "frame_page f = Some (kp, pg)" "heap_wf pg" "frame_view f = heap_view pg"
    using ok by (rule heap_okE)
  show ?thesis
    using write_link_refines [OF f(2), of nx]
    by (simp add: heap_set_next_page_id_def heap_get_next_page_id_def f pstore_def pload_def heap_consts heap_ok_def
        frame_view_def rd_wr_same)
qed

text \<open>
  Reading: \<open>ENOENT\<close> and \<open>ENOSPC\<close> exactly as specified; otherwise the header, and a buffer filled
  with as many bytes as it has room for, of which the stored payload is a prefix.
\<close>

lemma heap_read_refines:
  assumes ok: "heap_ok f"
  shows "case spec_read (frame_view f) (unat i) (unat sz) of
      Inl e \<Rightarrow> heap_read_tuple f i True sz = Inl e
    | Inr (h, d) \<Rightarrow> heap_read_tuple f i True sz = Inl Fault \<and> length d < unat sz
        \<or> (\<exists>rest. heap_read_tuple f i True sz = Inr (h, d @ rest) \<and> length (d @ rest) = unat sz)"
proof -
  obtain kp pg where f: "frame_page f = Some (kp, pg)" "heap_wf pg" "frame_view f = heap_view pg"
    using ok by (rule heap_okE)
  let ?i = "unat i"
  show ?thesis
  proof (cases "nslots pg \<le> ?i \<or> slot_dead (hslot pg ?i)")
    case True
    then show ?thesis
      by (auto simp: heap_read_tuple_def heap_read_tuple_gen_def f nr_slots_le slot_in_page [OF f(2)]
          spec_read_def spec_slot_view)
  next
    case False
    then have i: "?i < nslots pg" and live: "slot_live pg ?i" by (auto simp: slot_live_def)
    let ?o = "slot_off pg ?i" let ?h = "htuple pg ?o"
    note s = heap_wf_span [OF f(2) i live]
    have hd: "load_tuple_hdr pg (s_offset (hslot pg ?i)) = Inr ?h"
      using s unfolding slot_off_def by (intro load_tuple_hdr_ok) simp
    have rdt: "heap_read_tuple f i True sz = (if sz < data_len ?h then fails ENOSPC
        else rbind (pload pg (?o + 28) (unat sz)) (\<lambda>bs. Inr (?h, bs)))"
      using False hd by (simp add: heap_read_tuple_def heap_read_tuple_gen_def f nr_slots_le
          slot_in_page [OF f(2)] heap_consts slot_off_def)
    have split: "rd pg (?o + 28) (unat sz) = rd pg (?o + 28) (unat (data_len ?h))
        @ rd pg (?o + 28 + unat (data_len ?h)) (unat sz - unat (data_len ?h))" if "\<not> sz < data_len ?h"
      using that rd_append [of pg "?o + 28" "unat (data_len ?h)" "unat sz - unat (data_len ?h)"]
      by (simp add: word_less_nat_alt)
    show ?thesis
      using False s split
      by (auto simp: rdt spec_read_def f spec_slot_view pload_def KDS_PAGE_SIZE_def word_less_nat_alt)
  qed
qed

lemma heap_read_exact:
  assumes ok: "heap_ok f" and t: "unat i < length (v_slots (frame_view f))"
    and s: "v_slots (frame_view f) ! unat i = Some (h, d, c)"
  shows "heap_read_tuple f i True (of_nat (length d)) = Inr (h, d)"
proof -
  obtain kp pg where f: "frame_page f = Some (kp, pg)" "heap_wf pg" "frame_view f = heap_view pg"
    using ok by (rule heap_okE)
  have i: "unat i < nslots pg" and live: "slot_live pg (unat i)" and d: "length d = unat (data_len h)"
    using t s f(3) by (auto simp: tuple_at_def Let_def split: if_splits)
  have "length d < 65536" using unat_bound [of "data_len h"] d by simp
  then have L: "unat (of_nat (length d) :: u16) = length d" by (rule unat_of_nat16)
  have "spec_read (frame_view f) (unat i) (length d) = Inr (h, d)"
    using t s by (simp add: spec_read_def spec_slot_def)
  with heap_read_refines [OF ok, of i "of_nat (length d)"] show ?thesis unfolding L by auto
qed

lemma heap_capacity_view:
  assumes ok: "heap_ok f"
  shows "heap_slot_capacity f i = rbind (spec_slot (frame_view f) (unat i)) (\<lambda>(h, d, c). Inr (of_nat c))"
proof -
  obtain kp pg where f: "frame_page f = Some (kp, pg)" "heap_wf pg" "frame_view f = heap_view pg"
    using ok by (rule heap_okE)
  have "s_length s - 28 = of_nat (unat (s_length s) - 28)" if "28 \<le> unat (s_length s)" for s
    using that by (simp add: of_nat_diff)
  then show ?thesis
    using heap_wf_span(3) [OF f(2), of "unat i"]
    by (auto simp: heap_slot_capacity_def f nr_slots_le slot_in_page [OF f(2)] spec_slot_view heap_consts
        slot_len_def slot_live_def)
qed

lemma heap_has_space_iff:
  assumes ok: "heap_ok f" and len: "length d < 65536"
  shows "heap_has_space f (of_nat (length d)) = Inr True
    \<longleftrightarrow> is_ok (heap_insert_tuple_ex f (Some d) (of_nat (length d)) xmn xmx undo)"
proof -
  obtain kp pg where f: "frame_page f = Some (kp, pg)" "heap_wf pg" "frame_view f = heap_view pg"
    using ok by (rule heap_okE)
  note b = heap_wf_bounds [OF f(2)]
  have ul: "unat (upper (hmeta pg) - lower (hmeta pg)) = v_free (heap_view pg)"
    using b unat_sub [of "lower (hmeta pg)" "upper (hmeta pg)"] by (simp add: word_le_nat_alt heap_view_def)
  have ge: "v_free (heap_view pg) = 0" if "\<not> lower (hmeta pg) < upper (hmeta pg)"
    using that by (simp add: word_less_nat_alt heap_view_def)
  have L: "unat (of_nat (length d) :: u16) = length d" using len by (rule unat_of_nat16)
  have "unat (33 + of_nat (length d) :: u16) = 33 + length d" if "length d \<le> 8192"
    using unat_of_nat16 [of "33 + length d"] that by simp
  then have "heap_has_space f (of_nat (length d)) = Inr True \<longleftrightarrow> length d \<le> 8192 \<and> 33 + length d \<le> v_free (heap_view pg)"
    using ul ge by (auto simp: heap_has_space_def heap_free_space_def f L heap_consts word_le_nat_alt)
  moreover have "is_ok (heap_insert_tuple_ex f (Some d) (of_nat (length d)) xmn xmx undo)
      \<longleftrightarrow> length d \<le> 8192 \<and> 33 + length d \<le> v_free (heap_view pg)"
    using heap_insert_refines [OF ok len, of xmn xmx undo] f(3)
    by (auto simp: spec_insert_def split: sum.splits if_splits prod.splits)
  ultimately show ?thesis by simp
qed

lemma heap_init_ok:
  assumes "frame_page f = Some (kp, pg)" and "page_hdr_valid (kp_hdr kp)"
  shows "\<exists>f'. heap_init_page_as f t = Inr f' \<and> heap_ok f' \<and> frame_kp_id f' = kp_id kp
     \<and> frame_view f' = \<lparr>v_slots = [], v_free = 8135, v_next = 0\<rparr>"
proof -
  define hdr where "hdr = (kp_hdr kp)\<lparr>hdr_type := t, hdr_flags := hdr_flags (kp_hdr kp) OR KDS_PAGE_FLAG_INIT\<rparr>"
  define m :: kds_heap_page_meta where "m = \<lparr>nr_slots = 0, lower = 49, upper = 8184, m_reserved = 0\<rparr>"
  define q where "q = wr (wr (wr pg 0 (enc_page_hdr hdr)) 41 (enc_meta m)) 8184 (enc64 0)"
  have len: "length (enc_page_hdr hdr) = 41"
    using assms(2) by (intro length_enc_page_hdr) (simp add: hdr_def page_hdr_valid_def)
  have "heap_init_page_as f t = Inr (frame_put f (kp\<lparr>kp_hdr := hdr\<rparr>) q)"
    using len by (simp add: heap_init_page_as_def assms(1) Let_def hdr_def [symmetric] pstore_def heap_consts q_def m_def)
  moreover have meta: "hmeta q = m" unfolding q_def by (subst hmeta_wr) simp_all
  moreover have "rd q 8184 8 = enc64 0" by (simp add: q_def rd_wr_same)
  ultimately show ?thesis
    by (simp add: heap_ok_def heap_wf_def frame_view_def heap_view_def nslots_def m_def)
qed

section \<open>The contract of a tuple store\<close>

text \<open>
  What the undo log and the table access code rely on: an insertion appends one tuple and keeps the
  others, its address is the number of slots before it, and a live tuple reads back as stored.
\<close>

locale tuple_store =
  fixes ok :: "'f \<Rightarrow> bool"
    and slots :: "'f \<Rightarrow> tuple_view option list"
    and room :: "'f \<Rightarrow> nat"
    and insert :: "'f \<Rightarrow> u8 list \<Rightarrow> u64 \<Rightarrow> u64 \<Rightarrow> u64 \<Rightarrow> (kds_heap_tid \<times> 'f) res"
    and read :: "'f \<Rightarrow> u16 \<Rightarrow> nat \<Rightarrow> (kds_heap_tuple_hdr \<times> u8 list) res"
  assumes insert_succeeds: "ok f \<Longrightarrow> length d \<le> 8192 \<Longrightarrow> 33 + length d \<le> room f \<Longrightarrow> is_ok (insert f d a b c)"
    and insert_appends: "ok f \<Longrightarrow> length d < 65536 \<Longrightarrow> insert f d a b c = Inr (tid, f') \<Longrightarrow>
      ok f' \<and> slots f' = slots f @ [Some (mk_hdr a b c (length d), d, length d)]
      \<and> unat (tid_slot tid) = length (slots f)"
    and read_live: "ok f \<Longrightarrow> unat i < length (slots f) \<Longrightarrow> slots f ! unat i = Some (h, d, cap) \<Longrightarrow>
      read f i (length d) = Inr (h, d)"
begin

lemma read_inserted:
  assumes "ok f" and "length d < 65536" and "insert f d a b c = Inr (tid, f')"
  shows "read f' (tid_slot tid) (length d) = Inr (mk_hdr a b c (length d), d)"
  using insert_appends [OF assms] by (intro read_live) (auto simp: nth_append)

lemma read_kept:
  assumes "ok f" and "length d < 65536" and "insert f d a b c = Inr (tid, f')"
    and "unat i < length (slots f)" and "slots f ! unat i = Some (h, e, cap)"
  shows "read f' i (length e) = Inr (h, e)"
  using insert_appends [OF assms(1-3)] assms(4,5) by (intro read_live) (auto simp: nth_append)

lemma insert_fresh_slot:
  assumes "ok f" and "length d < 65536" and "insert f d a b c = Inr (tid, f')"
    and "insert f' e p q r = Inr (tid', f'')" and "length e < 65536"
  shows "tid_slot tid \<noteq> tid_slot tid'"
  using insert_appends [OF assms(1-3)] insert_appends [OF _ assms(5,4)] by auto

end

interpretation heap_store: tuple_store heap_ok "\<lambda>f. v_slots (frame_view f)" "\<lambda>f. v_free (frame_view f)"
  "\<lambda>f d. heap_insert_tuple_ex f (Some d) (of_nat (length d))"
  "\<lambda>f i n. heap_read_tuple f i True (of_nat n)"
proof unfold_locales
  fix f :: kds_frame and d :: "u8 list" and a b c :: u64
  assume ok: "heap_ok f"
  { assume "length d \<le> 8192" "33 + length d \<le> v_free (frame_view f)"
    then show "is_ok (heap_insert_tuple_ex f (Some d) (of_nat (length d)) a b c)"
      using heap_insert_refines [OF ok, of d a b c]
      by (auto simp: spec_insert_def split: sum.splits) }
  { fix tid f'
    assume "length d < 65536" "heap_insert_tuple_ex f (Some d) (of_nat (length d)) a b c = Inr (tid, f')"
    then show "heap_ok f' \<and> v_slots (frame_view f') = v_slots (frame_view f) @ [Some (mk_hdr a b c (length d), d, length d)]
        \<and> unat (tid_slot tid) = length (v_slots (frame_view f))"
      using heap_insert_refines [OF ok, of d a b c]
      by (auto simp: spec_insert_def dest: sym [of _ "frame_view f'"] split: if_splits) }
  { fix i :: u16 and h e cap
    assume "unat i < length (v_slots (frame_view f))" "v_slots (frame_view f) ! unat i = Some (h, e, cap)"
    then show "heap_read_tuple f i True (of_nat (length e)) = Inr (h, e)"
      by (rule heap_read_exact [OF ok]) }
qed

section \<open>Any sequence of operations\<close>

datatype heap_op =
    HInsert "u8 list" u64 u64 u64
  | HOverwrite u16 "u8 list" u64 u64 u64
  | HRetire u16
  | HDelete u16 u64
  | HLink u64

definition heap_exec :: "heap_op \<Rightarrow> kds_frame \<Rightarrow> kds_frame res" where
  "heap_exec op f = (case op of
     HInsert d a b c \<Rightarrow> rbind (heap_insert_tuple_ex f (Some d) (of_nat (length d)) a b c) (\<lambda>(tid, f'). Inr f')
   | HOverwrite i d a b c \<Rightarrow> heap_overwrite_tuple f i (Some d) (of_nat (length d)) a b c
   | HRetire i \<Rightarrow> heap_retire_slot f i
   | HDelete i x \<Rightarrow> heap_delete_tuple f i x
   | HLink n \<Rightarrow> heap_set_next_page_id f n)"

text \<open>The payload lengths for which the 16-bit sums of the code do not wrap.\<close>

definition op_fits :: "heap_op \<Rightarrow> bool" where
  "op_fits op = (case op of HInsert d _ _ _ \<Rightarrow> length d < 65536
     | HOverwrite _ d _ _ _ \<Rightarrow> 28 + length d < 65536 | _ \<Rightarrow> True)"

inductive heap_reach :: "kds_frame \<Rightarrow> kds_frame \<Rightarrow> bool" for f where
  start: "heap_reach f f"
| step: "heap_reach f g \<Longrightarrow> op_fits op \<Longrightarrow> heap_exec op g = Inr h \<Longrightarrow> heap_reach f h"

lemma heap_exec_ok:
  assumes "heap_ok f" and "op_fits op"
  shows "heap_exec op f = Inr g \<Longrightarrow> heap_ok g" and "heap_exec op f \<noteq> Inl Fault"
proof -
  have "case heap_exec op f of Inl e \<Rightarrow> e \<noteq> Fault | Inr g \<Rightarrow> heap_ok g"
  proof (cases op)
    case (HInsert d a b c)
    then show ?thesis using heap_insert_refines [OF assms(1), of d a b c] assms(2)
      by (auto simp: heap_exec_def op_fits_def spec_insert_def split: sum.splits if_splits)
  next
    case (HOverwrite i d a b c)
    then show ?thesis using heap_overwrite_refines [OF assms(1), of d i a b c] assms(2)
      by (auto simp: heap_exec_def op_fits_def spec_overwrite_def spec_slot_def rbind_fail_iff
          split: sum.splits if_splits option.splits)
  next
    case (HRetire i)
    then show ?thesis using heap_retire_refines [OF assms(1), of i]
      by (auto simp: heap_exec_def spec_retire_def split: sum.splits if_splits)
  next
    case (HDelete i x)
    then show ?thesis using heap_delete_refines [OF assms(1), of i x]
      by (auto simp: heap_exec_def spec_delete_def spec_slot_def rbind_fail_iff
          split: sum.splits if_splits option.splits)
  next
    case (HLink n)
    then show ?thesis using heap_link_refines [OF assms(1), of n] by (auto simp: heap_exec_def)
  qed
  then show "heap_exec op f = Inr g \<Longrightarrow> heap_ok g" and "heap_exec op f \<noteq> Inl Fault"
    by (auto split: sum.splits)
qed

lemma heap_reach_ok: "heap_reach f g \<Longrightarrow> heap_ok f \<Longrightarrow> heap_ok g"
  by (induction rule: heap_reach.induct) (auto intro: heap_exec_ok(1))

lemma heap_reach_safe:
  assumes "frame_page f = Some (kp, pg)" and "page_hdr_valid (kp_hdr kp)"
    and "heap_init_page_as f t = Inr f0" and "heap_reach f0 g" and "op_fits op"
  shows "heap_ok g" and "heap_exec op g \<noteq> Inl Fault"
proof -
  have "heap_ok f0" using heap_init_ok [OF assms(1,2), of t] assms(3) by auto
  with assms(4) show "heap_ok g" by (rule heap_reach_ok)
  then show "heap_exec op g \<noteq> Inl Fault" using assms(5) by (rule heap_exec_ok(2))
qed

section \<open>Where the 16-bit sums and the copy length go wrong\<close>

lemma heap_overwrite_wrap:
  assumes ok: "heap_ok f" and i: "unat i < length (v_slots (frame_view f))"
    and s: "v_slots (frame_view f) ! unat i = Some t" and len: "65508 \<le> unat len" and d: "length d = unat len"
  shows "heap_overwrite_tuple f i (Some d) len xmn xmx undo = Inl Fault"
proof -
  obtain kp pg where f: "frame_page f = Some (kp, pg)" "heap_wf pg" "frame_view f = heap_view pg"
    using ok by (rule heap_okE)
  have i': "unat i < nslots pg" and live: "slot_live pg (unat i)"
    using i s f(3) by (auto simp: tuple_at_def Let_def split: if_splits)
  note sp = heap_wf_span [OF f(2) i' live]
  have "28 + len = of_nat (28 + unat len)" by simp
  then have "unat (28 + len) = (28 + unat len) mod 65536" by (simp only: unat_of_nat) simp
  also have "\<dots> = unat len - 65508"
    using len unat_bound [of len] by (simp add: mod_if)
  finally have w: "unat (28 + len) = unat len - 65508" .
  have "unat len < 65536" using unat_bound [of len] by simp
  then have small: "\<not> s_length (hslot pg (unat i)) < 28 + len"
    using sp(3) w by (simp add: word_less_nat_alt slot_len_def)
  have "store_tuple pg (unat (s_offset (hslot pg (unat i)))) h (Some d) len = Inl Fault" for h
    using len d by (auto simp: store_tuple_def pstore_def buf_rd_def heap_consts rbind_fail_iff word_less_nat_alt)
  then show ?thesis
    using i' live small
    by (simp add: heap_overwrite_tuple_def f nr_slots_le slot_in_page [OF f(2)] heap_consts slot_live_def)
qed

lemma heap_read_overrun:
  assumes ok: "heap_ok f" and i: "unat i < length (v_slots (frame_view f))"
    and s: "v_slots (frame_view f) ! unat i = Some (h, d, c)" and sz: "8192 \<le> unat sz"
  shows "heap_read_tuple f i True sz = Inl Fault"
proof -
  have "length d \<le> unat sz"
  proof -
    obtain kp pg where f: "frame_page f = Some (kp, pg)" "heap_wf pg" "frame_view f = heap_view pg"
      using ok by (rule heap_okE)
    then show ?thesis
      using i s sz heap_wf_span [OF f(2), of "unat i"] by (auto simp: tuple_at_def Let_def split: if_splits)
  qed
  then show ?thesis
    using heap_read_refines [OF ok, of i sz] i s sz
    by (auto simp: spec_read_def spec_slot_def heap_read_tuple_def heap_read_tuple_gen_def pload_def
        heap_consts rbind_ok_iff split: option.splits prod.splits if_splits)
qed

section \<open>Tuple addresses\<close>

lemma mask48: "(0xFFFFFFFFFFFF :: u64) = mask 48"
  by (simp add: mask_eq_exp_minus_1)

lemma tid_pack_unpack:
  assumes "unat (tid_page_id tid) < 2 ^ 48"
  shows "kds_heap_tid_unpack (kds_heap_tid_pack tid) = tid"
proof -
  have p: "tid_page_id tid AND mask 48 = tid_page_id tid"
    using assms by (simp add: word_unat_eq_iff take_bit_eq_mask [symmetric] unsigned_take_bit_eq take_bit_nat_eq_self)
  have "tid_page_id tid AND mask 48 = (kds_heap_tid_pack tid) AND mask 48"
    unfolding kds_heap_tid_pack_def mask48 by (rule bit_word_eqI) (auto simp: bit_simps)
  moreover have "tid_slot tid = ucast (drop_bit 48 (kds_heap_tid_pack tid))"
    unfolding kds_heap_tid_pack_def mask48 by (rule bit_word_eqI) (auto simp: bit_simps)
  ultimately show ?thesis
    using p by (simp add: kds_heap_tid_unpack_def mask48)
qed

section \<open>Concrete pages\<close>

definition blank_frame :: "u64 \<Rightarrow> kds_frame" where
  "blank_frame pid = \<lparr>frame_id = 0, fr_state = KDS_FRAME_VALID, fr_page_id = pid,
     fr_kp = Some \<lparr>kp_id = pid, kp_hdr = \<lparr>hdr_type = 0, hdr_crc = 0, hdr_flags = 1,
       hdr_reserved1 = replicate 32 0\<rparr>, kp_refcnt = 1\<rparr>,
     fr_page = Some (\<lambda>_. 0), fr_mapped = False\<rparr>"

definition blank_heap :: "u64 \<Rightarrow> kds_frame" where
  "blank_heap pid = (case heap_init_page (blank_frame pid) of Inr f \<Rightarrow> f | Inl _ \<Rightarrow> blank_frame pid)"

definition heap_with :: "u64 \<Rightarrow> u8 list \<Rightarrow> kds_frame" where
  "heap_with pid d = (case heap_insert_tuple (blank_heap pid) (Some d) (of_nat (length d)) 7 of
     Inr (tid, f) \<Rightarrow> f | Inl _ \<Rightarrow> blank_heap pid)"

lemma blank_frame_init:
  "\<exists>f'. heap_init_page_as (blank_frame pid) t = Inr f' \<and> heap_ok f' \<and> frame_kp_id f' = pid
     \<and> frame_view f' = \<lparr>v_slots = [], v_free = 8135, v_next = 0\<rparr>"
  using heap_init_ok [of "blank_frame pid" "the (fr_kp (blank_frame pid))" "\<lambda>_. 0" t]
  by (simp add: blank_frame_def frame_page_def page_hdr_valid_def)

lemma blank_heap_facts:
  "heap_ok (blank_heap pid)" "frame_kp_id (blank_heap pid) = pid"
  "frame_view (blank_heap pid) = \<lparr>v_slots = [], v_free = 8135, v_next = 0\<rparr>"
  using blank_frame_init [of pid KDS_PAGE_TYPE_HEAP] by (auto simp: blank_heap_def heap_init_page_def)

lemma heap_with_facts:
  assumes "length d \<le> 8000"
  shows "heap_ok (heap_with pid d)" "frame_kp_id (heap_with pid d) = pid"
    "frame_view (heap_with pid d) = \<lparr>v_slots = [Some (mk_hdr 7 0 0 (length d), d, length d)],
       v_free = 8102 - length d, v_next = 0\<rparr>"
  using heap_insert_refines [OF blank_heap_facts(1), of d pid 7 0 0] assms
  by (auto simp: heap_with_def heap_insert_tuple_def spec_insert_def blank_heap_facts split: sum.splits prod.splits)

lemma slots_of_view: "v = frame_view f \<Longrightarrow> v_slots (frame_view f) = v_slots v"
  by simp

text \<open>C6: inserting into a well-formed heap page does what the abstract page does: it fails with EINVAL or
  ENOSPC exactly when the payload is longer than a page or does not fit the free space, and otherwise appends
  one tuple at the next slot number, keeps every other tuple, the link and the page id, and leaves a
  well-formed page.\<close>

theorem heap_insert_correct:
  assumes "heap_ok f" and "length d < 65536"
  shows "case heap_insert_tuple_ex f (Some d) (of_nat (length d)) xmn xmx undo of
      Inl e \<Rightarrow> spec_insert (frame_view f) d xmn xmx undo = Inl e
    | Inr (tid, f') \<Rightarrow> spec_insert (frame_view f) d xmn xmx undo = Inr (unat (tid_slot tid), frame_view f')
        \<and> heap_ok f' \<and> tid_page_id tid = frame_kp_id f \<and> frame_kp_id f' = frame_kp_id f"
  using assms by (rule heap_insert_refines)

theorem heap_insert_correct_witness:
  "\<exists>tid f'. heap_insert_tuple_ex (blank_heap 200) (Some [1, 2, 3]) 3 7 0 0 = Inr (tid, f') \<and> heap_ok f'
     \<and> v_slots (frame_view f') = [Some (mk_hdr 7 0 0 3, [1, 2, 3], 3)]"
  using heap_insert_correct [OF blank_heap_facts(1), of "[1, 2, 3]" 200 7 0 0]
  by (auto simp: spec_insert_def blank_heap_facts mk_hdr_def dest!: slots_of_view split: sum.splits)

text \<open>Overwriting a tuple in place fails with ENOENT on a dead or missing slot and with ENOSPC when the
  payload exceeds the reserved capacity, and otherwise replaces exactly that slot and keeps its capacity.\<close>

theorem heap_overwrite_correct:
  assumes "heap_ok f" and "28 + length d < 65536"
  shows "case heap_overwrite_tuple f i (Some d) (of_nat (length d)) xmn xmx undo of
      Inl e \<Rightarrow> spec_overwrite (frame_view f) (unat i) d xmn xmx undo = Inl e
    | Inr f' \<Rightarrow> spec_overwrite (frame_view f) (unat i) d xmn xmx undo = Inr (frame_view f')
        \<and> heap_ok f' \<and> frame_kp_id f' = frame_kp_id f"
  using assms by (rule heap_overwrite_refines)

theorem heap_overwrite_correct_witness:
  "\<exists>f'. heap_overwrite_tuple (heap_with 200 [1, 2, 3]) 0 (Some [9, 8]) 2 5 0 0 = Inr f'
     \<and> v_slots (frame_view f') = [Some (mk_hdr 5 0 0 2, [9, 8], 3)]"
  using heap_overwrite_correct [OF heap_with_facts(1), of "[1, 2, 3]" "[9, 8]" 200 0 5 0 0]
  by (auto simp: spec_overwrite_def spec_slot_def heap_with_facts mk_hdr_def dest!: slots_of_view split: sum.splits)

text \<open>A logical delete stamps xmax on the tuple of the slot and changes nothing else; retiring a slot
  makes exactly that slot empty. Both fail with ENOENT on a slot outside the directory, delete also on a dead one.\<close>

theorem heap_delete_retire_correct:
  assumes "heap_ok f"
  shows "(case heap_delete_tuple f i x of Inl e \<Rightarrow> spec_delete (frame_view f) (unat i) x = Inl e
      | Inr f' \<Rightarrow> spec_delete (frame_view f) (unat i) x = Inr (frame_view f') \<and> heap_ok f')
    \<and> (case heap_retire_slot f i of Inl e \<Rightarrow> spec_retire (frame_view f) (unat i) = Inl e
      | Inr f' \<Rightarrow> spec_retire (frame_view f) (unat i) = Inr (frame_view f') \<and> heap_ok f')"
  using heap_delete_refines [OF assms, of i x] heap_retire_refines [OF assms, of i]
  by (auto split: sum.splits)

theorem heap_delete_retire_correct_witness:
  "\<exists>f' f''. heap_delete_tuple (heap_with 200 [1, 2, 3]) 0 11 = Inr f'
     \<and> v_slots (frame_view f') = [Some ((mk_hdr 7 0 0 3)\<lparr>xmax := 11\<rparr>, [1, 2, 3], 3)]
     \<and> heap_retire_slot (heap_with 200 [1, 2, 3]) 0 = Inr f'' \<and> v_slots (frame_view f'') = [None]"
  using heap_delete_retire_correct [OF heap_with_facts(1), of "[1, 2, 3]" 200 0 11]
  by (auto simp: spec_delete_def spec_retire_def spec_slot_def heap_with_facts mk_hdr_def dest!: slots_of_view split: sum.splits)

text \<open>Reading a live tuple into a buffer of its stored length returns its header and exactly its payload.\<close>

theorem heap_read_correct:
  assumes "heap_ok f" and "unat i < length (v_slots (frame_view f))"
    and "v_slots (frame_view f) ! unat i = Some (h, d, c)"
  shows "heap_read_tuple f i True (of_nat (length d)) = Inr (h, d)"
  using assms by (rule heap_read_exact)

theorem heap_read_correct_witness:
  "heap_read_tuple (heap_with 200 [1, 2, 3]) 0 True 3 = Inr (mk_hdr 7 0 0 3, [1, 2, 3])"
  using heap_read_correct [OF heap_with_facts(1), of "[1, 2, 3]" 0 200] by (simp add: heap_with_facts mk_hdr_def)

text \<open>\<^verbatim>\<open>heap_has_space\<close> answers true exactly when an insertion of that length would succeed.\<close>

theorem heap_has_space_correct:
  assumes "heap_ok f" and "length d < 65536"
  shows "heap_has_space f (of_nat (length d)) = Inr True
    \<longleftrightarrow> is_ok (heap_insert_tuple_ex f (Some d) (of_nat (length d)) xmn xmx undo)"
  using assms by (rule heap_has_space_iff)

theorem heap_has_space_correct_witness:
  "heap_has_space (blank_heap 200) 3 = Inr True
     \<longleftrightarrow> is_ok (heap_insert_tuple_ex (blank_heap 200) (Some [1, 2, 3]) 3 7 0 0)"
  using heap_has_space_correct [OF blank_heap_facts(1), of "[1, 2, 3]" 200 7 0 0] by simp

text \<open>C1: from a freshly initialised page, any sequence of insertions, overwrites, retirements, deletes and
  link updates whose lengths do not wrap 16 bits keeps the page well-formed, and no operation ever accesses a
  byte outside the page.\<close>

theorem heap_sequence_safe:
  assumes "frame_page f = Some (kp, pg)" and "page_hdr_valid (kp_hdr kp)"
    and "heap_init_page_as f t = Inr f0" and "heap_reach f0 g" and "op_fits op"
  shows "heap_ok g \<and> heap_exec op g \<noteq> Inl Fault"
  using heap_reach_safe [OF assms] by simp

theorem heap_sequence_safe_witness:
  "\<exists>g. heap_exec (HInsert [1, 2, 3] 7 0 0) (blank_heap 200) = Inr g \<and> heap_ok g
     \<and> heap_exec (HDelete 0 9) g \<noteq> Inl Fault"
proof -
  obtain f0 where f0: "heap_init_page_as (blank_frame 200) KDS_PAGE_TYPE_HEAP = Inr f0"
    using blank_frame_init by blast
  then have b: "blank_heap 200 = f0" by (simp add: blank_heap_def heap_init_page_def)
  have "is_ok (heap_exec (HInsert [1, 2, 3] 7 0 0) (blank_heap 200))"
    using heap_store.insert_succeeds [OF blank_heap_facts(1), of "[1, 2, 3]" 200 7 0 0]
    by (auto simp: heap_exec_def blank_heap_facts split: sum.splits)
  then obtain g where g: "heap_exec (HInsert [1, 2, 3] 7 0 0) (blank_heap 200) = Inr g"
    by (auto split: sum.splits)
  then have "heap_reach f0 g"
    using heap_reach.step [OF heap_reach.start, of "HInsert [1, 2, 3] 7 0 0" f0 g] by (simp add: b op_fits_def)
  then show ?thesis
    using g heap_sequence_safe [OF _ _ f0, of "the (fr_kp (blank_frame 200))" "\<lambda>_. 0" g "HDelete 0 9"]
    by (simp add: blank_frame_def frame_page_def page_hdr_valid_def op_fits_def)
qed

text \<open>The length check of \<^verbatim>\<open>heap_overwrite_tuple\<close> is a 16-bit sum: a payload of 65508 bytes or more passes
  it on any live slot, and the copy leaves the page.\<close>

theorem heap_overwrite_wraps:
  assumes "heap_ok f" and "unat i < length (v_slots (frame_view f))"
    and "v_slots (frame_view f) ! unat i = Some t" and "65508 \<le> unat len" and "length d = unat len"
  shows "heap_overwrite_tuple f i (Some d) len xmn xmx undo = Inl Fault"
  using assms by (rule heap_overwrite_wrap)

theorem heap_overwrite_wraps_witness:
  "heap_overwrite_tuple (heap_with 200 [1]) 0 (Some (replicate 65520 0)) 65520 1 0 0 = Inl Fault"
  by (rule heap_overwrite_wraps [OF heap_with_facts(1)]) (simp_all add: heap_with_facts)

text \<open>\<^verbatim>\<open>heap_read_tuple\<close> copies as many bytes as the buffer holds, not as many as the tuple has: a buffer
  of a whole page makes the read leave the page, for every live tuple.\<close>

theorem heap_read_overruns:
  assumes "heap_ok f" and "unat i < length (v_slots (frame_view f))"
    and "v_slots (frame_view f) ! unat i = Some (h, d, c)" and "8192 \<le> unat sz"
  shows "heap_read_tuple f i True sz = Inl Fault"
  using assms by (rule heap_read_overrun)

theorem heap_read_overruns_witness: "heap_read_tuple (heap_with 200 [1]) 0 True 8192 = Inl Fault"
  by (rule heap_read_overruns [OF heap_with_facts(1)]) (simp_all add: heap_with_facts)

text \<open>Packing a tuple address into the 64-bit undo pointer loses nothing while page ids stay below
  two to the 48.\<close>

theorem tid_pack_roundtrip:
  assumes "unat (tid_page_id tid) < 2 ^ 48"
  shows "kds_heap_tid_unpack (kds_heap_tid_pack tid) = tid"
  using assms by (rule tid_pack_unpack)

theorem tid_pack_roundtrip_witness:
  "kds_heap_tid_unpack (kds_heap_tid_pack \<lparr>tid_page_id = 129, tid_slot = 3\<rparr>) = \<lparr>tid_page_id = 129, tid_slot = 3\<rparr>"
  using tid_pack_roundtrip [of "\<lparr>tid_page_id = 129, tid_slot = 3\<rparr>"] by simp

end
