(* ===== verification/Kds_Undo.thy ===== *)
theory Kds_Undo
  imports Kds_Heap
begin

text \<open>
  The undo log (\<^verbatim>\<open>kernel/kds/undo.c\<close>, \<^verbatim>\<open>include/linux/kds_undo.h\<close>): undo entries are fixed-size tuples of an
  undo heap page, and an update saves the old version there before it overwrites or relocates the tuple.
  The target frame and the undo frame are distinct. \<^verbatim>\<open>kds_heap_tid_t\<close> is not packed: six padding bytes
  follow the slot inside an entry, and a struct assignment copies whatever they hold, so they are an
  argument (\<open>pad\<close>). \<open>mem_ok\<close> says whether \<^verbatim>\<open>kmalloc\<close> succeeds.
\<close>

section \<open>Model\<close>

definition KDS_UNDO_OP_UPDATE :: u8 where "KDS_UNDO_OP_UPDATE = 1"
definition KDS_UNDO_OP_DELETE :: u8 where "KDS_UNDO_OP_DELETE = 2"
definition KDS_UNDO_MAX_OLD_DATA :: nat where "KDS_UNDO_MAX_OLD_DATA = 256"

record kds_undo_entry =
  owner_oid :: u64
  old_tid :: kds_heap_tid
  old_tid_pad :: "u8 list"
  prev_undo_ptr :: u64
  u_xmin :: u64
  u_xmax :: u64
  operation :: u8
  old_data_len :: u16
  old_data :: "u8 list"

definition KDS_UNDO_ENTRY_SIZE :: nat where "KDS_UNDO_ENTRY_SIZE = 307"

definition enc_undo_entry :: "kds_undo_entry \<Rightarrow> u8 list" where
  "enc_undo_entry e =
     enc64 (owner_oid e) @ enc64 (tid_page_id (old_tid e)) @ enc16 (tid_slot (old_tid e)) @ old_tid_pad e
     @ enc64 (prev_undo_ptr e) @ enc64 (u_xmin e) @ enc64 (u_xmax e) @ [operation e]
     @ enc16 (old_data_len e) @ old_data e"

definition dec_undo_entry :: "u8 list \<Rightarrow> kds_undo_entry" where
  "dec_undo_entry bs =
     \<lparr>owner_oid = dec64 (take 8 bs),
      old_tid = \<lparr>tid_page_id = dec64 (take 8 (drop 8 bs)), tid_slot = dec16 (take 2 (drop 16 bs))\<rparr>,
      old_tid_pad = take 6 (drop 18 bs), prev_undo_ptr = dec64 (take 8 (drop 24 bs)),
      u_xmin = dec64 (take 8 (drop 32 bs)), u_xmax = dec64 (take 8 (drop 40 bs)),
      operation = bs ! 48, old_data_len = dec16 (take 2 (drop 49 bs)), old_data = drop 51 bs\<rparr>"

definition undo_entry_valid :: "kds_undo_entry \<Rightarrow> bool" where
  "undo_entry_valid e \<longleftrightarrow> length (old_tid_pad e) = 6 \<and> length (old_data e) = KDS_UNDO_MAX_OLD_DATA"

definition kds_undo_write_entry ::
  "u8 list \<Rightarrow> kds_frame \<Rightarrow> u64 \<Rightarrow> kds_heap_tid \<Rightarrow> u64 \<Rightarrow> u64 \<Rightarrow> u64 \<Rightarrow> u8 \<Rightarrow> u8 list option \<Rightarrow> u16 \<Rightarrow> u64
   \<Rightarrow> (kds_heap_tid \<times> kds_frame) res" where
  "kds_undo_write_entry pad undo_frame owner tid prev xmn xmx op data len write_xid =
     (if KDS_UNDO_MAX_OLD_DATA < unat len then fails EMSGSIZE
      else if 0 < len \<and> data = None then fails EINVAL
      else case (if 0 < len then buf_rd (the data) (unat len) else Some []) of
        None \<Rightarrow> Inl Fault
      | Some bs \<Rightarrow>
          let entry = \<lparr>owner_oid = owner, old_tid = tid, old_tid_pad = pad, prev_undo_ptr = prev,
                u_xmin = xmn, u_xmax = xmx, operation = op, old_data_len = len,
                old_data = bs @ replicate (KDS_UNDO_MAX_OLD_DATA - length bs) 0\<rparr>
          in heap_insert_tuple_ex undo_frame (Some (enc_undo_entry entry)) (of_nat KDS_UNDO_ENTRY_SIZE)
               write_xid 0 0)"

definition kds_undo_read_entry :: "kds_frame \<Rightarrow> u16 \<Rightarrow> kds_undo_entry res" where
  "kds_undo_read_entry undo_frame slot =
     rbind (heap_read_tuple undo_frame slot True (of_nat KDS_UNDO_ENTRY_SIZE))
       (\<lambda>(h, bs). Inr (dec_undo_entry bs))"

text \<open>The result is the return value with the two frames as they are left.\<close>

definition kds_heap_update_tuple ::
  "bool \<Rightarrow> u8 list \<Rightarrow> kds_frame \<Rightarrow> u16 \<Rightarrow> u8 list option \<Rightarrow> u16 \<Rightarrow> u64 \<Rightarrow> u64 \<Rightarrow> kds_frame
   \<Rightarrow> kds_heap_tid res \<times> kds_frame \<times> kds_frame" where
  "kds_heap_update_tuple mem_ok pad target i new_data new_len xid owner undo =
     (if fr_kp target = None then (fails EINVAL, target, undo)
      else if 0 < new_len \<and> new_data = None then (fails EINVAL, target, undo)
      else case heap_read_tuple target i False 0 of
        Inl e \<Rightarrow> (Inl e, target, undo)
      | Inr (h0, _) \<Rightarrow>
          if KDS_UNDO_MAX_OLD_DATA < unat (data_len h0) then (fails EMSGSIZE, target, undo)
          else if 0 < data_len h0 \<and> \<not> mem_ok then (fails ENOMEM, target, undo)
          else case (if 0 < data_len h0
                     then rbind (heap_read_tuple target i True (data_len h0)) (\<lambda>(h, d). Inr (h, Some d))
                     else Inr (h0, None)) of
            Inl e \<Rightarrow> (Inl e, target, undo)
          | Inr (h, old) \<Rightarrow>
              (case kds_undo_write_entry pad undo owner
                      \<lparr>tid_page_id = frame_kp_id target, tid_slot = i\<rparr>
                      (undo_ptr h) (xmin h) xid KDS_UNDO_OP_UPDATE old (data_len h) xid of
                 Inl e \<Rightarrow> (Inl e, target, undo)
               | Inr (undo_tid, undo') \<Rightarrow>
                   let up = kds_heap_tid_pack undo_tid in
                   (case heap_slot_capacity target i of
                      Inl e \<Rightarrow> (Inl e, target, undo')
                    | Inr old_capacity \<Rightarrow>
                        if new_len \<le> old_capacity
                        then (case heap_overwrite_tuple target i new_data new_len xid 0 up of
                                Inl e \<Rightarrow> (Inl e, target, undo')
                              | Inr t' \<Rightarrow> (Inr \<lparr>tid_page_id = frame_kp_id target, tid_slot = i\<rparr>, t', undo'))
                        else (case heap_retire_slot target i of
                                Inl e \<Rightarrow> (Inl e, target, undo')
                              | Inr t1 \<Rightarrow>
                                  (case heap_insert_tuple_ex t1 new_data new_len xid 0 up of
                                     Inl e \<Rightarrow> (Inl e, t1, undo')
                                   | Inr (tid, t2) \<Rightarrow> (Inr tid, t2, undo'))))))"

section \<open>Entry layout\<close>

lemma length_enc_undo_entry: "undo_entry_valid e \<Longrightarrow> length (enc_undo_entry e) = 307"
  by (simp add: enc_undo_entry_def undo_entry_valid_def KDS_UNDO_MAX_OLD_DATA_def)

lemma dec_enc_undo_entry: "undo_entry_valid e \<Longrightarrow> dec_undo_entry (enc_undo_entry e) = e"
  by (cases e) (simp add: dec_undo_entry_def enc_undo_entry_def undo_entry_valid_def nth_append)

lemma enc_dec_undo_entry:
  assumes "length bs = 307"
  shows "enc_undo_entry (dec_undo_entry bs) = bs"
  using assms take_drop_glue [of 8 0 bs] take_drop_glue [of 8 8 bs] take_drop_glue [of 2 16 bs]
    take_drop_glue [of 6 18 bs] take_drop_glue [of 8 24 bs] take_drop_glue [of 8 32 bs]
    take_drop_glue [of 8 40 bs] Cons_nth_drop_Suc [of 48 bs] take_drop_glue [of 2 49 bs]
  by (simp add: enc_undo_entry_def dec_undo_entry_def enc64_dec64 enc16_dec16)

interpretation undo_entry: layout KDS_UNDO_ENTRY_SIZE enc_undo_entry dec_undo_entry undo_entry_valid
  by unfold_locales (simp_all add: length_enc_undo_entry dec_enc_undo_entry enc_dec_undo_entry
      KDS_UNDO_ENTRY_SIZE_def, simp add: undo_entry_valid_def dec_undo_entry_def KDS_UNDO_MAX_OLD_DATA_def)

section \<open>Writing and reading entries\<close>

definition mk_entry :: "u8 list \<Rightarrow> u64 \<Rightarrow> kds_heap_tid \<Rightarrow> u64 \<Rightarrow> u64 \<Rightarrow> u64 \<Rightarrow> u8 \<Rightarrow> u8 list \<Rightarrow> kds_undo_entry" where
  "mk_entry pad owner tid prev xmn xmx op d =
     \<lparr>owner_oid = owner, old_tid = tid, old_tid_pad = pad, prev_undo_ptr = prev, u_xmin = xmn, u_xmax = xmx,
      operation = op, old_data_len = of_nat (length d),
      old_data = d @ replicate (KDS_UNDO_MAX_OLD_DATA - length d) 0\<rparr>"

lemma mk_entry_valid: "length pad = 6 \<Longrightarrow> length d \<le> 256 \<Longrightarrow> undo_entry_valid (mk_entry pad o' t p a b op d)"
  by (simp add: mk_entry_def undo_entry_valid_def KDS_UNDO_MAX_OLD_DATA_def)

lemma undo_write_is_insert:
  assumes "length d \<le> 256" and "d \<noteq> [] \<longrightarrow> data = Some d"
  shows "kds_undo_write_entry pad f owner tid prev xmn xmx op data (of_nat (length d)) wx
    = heap_insert_tuple_ex f (Some (enc_undo_entry (mk_entry pad owner tid prev xmn xmx op d))) 307 wx 0 0"
proof -
  have L: "unat (of_nat (length d) :: u16) = length d" using assms(1) by (intro unat_of_nat16) simp
  then have z: "(0 :: u16) < of_nat (length d) \<longleftrightarrow> d \<noteq> []" by (simp add: word_less_nat_alt)
  show ?thesis
    using assms by (cases "d = []")
      (simp_all add: kds_undo_write_entry_def L z buf_rd_def mk_entry_def KDS_UNDO_MAX_OLD_DATA_def
        KDS_UNDO_ENTRY_SIZE_def)
qed

lemma undo_write_appends:
  assumes ok: "heap_ok f" and pad: "length pad = 6" and d: "length d \<le> 256" "d \<noteq> [] \<longrightarrow> data = Some d"
    and w: "kds_undo_write_entry pad f owner tid prev xmn xmx op data (of_nat (length d)) wx = Inr (ut, f')"
  defines "e \<equiv> mk_entry pad owner tid prev xmn xmx op d"
  shows "heap_ok f'" and "v_slots (frame_view f') = v_slots (frame_view f) @ [Some (mk_hdr wx 0 0 307, enc_undo_entry e, 307)]"
    and "unat (tid_slot ut) = length (v_slots (frame_view f))"
    and "kds_undo_read_entry f' (tid_slot ut) = Inr e"
    and "tid_page_id ut = frame_kp_id f"
proof -
  have v: "undo_entry_valid e" unfolding e_def using pad d(1) by (rule mk_entry_valid)
  note len = length_enc_undo_entry [OF v]
  have ins: "heap_insert_tuple_ex f (Some (enc_undo_entry e)) (of_nat (length (enc_undo_entry e))) wx 0 0 = Inr (ut, f')"
    using w unfolding undo_write_is_insert [OF d] e_def [symmetric] by (simp add: len)
  note A = heap_store.insert_appends [OF ok _ ins]
  show "heap_ok f'" "unat (tid_slot ut) = length (v_slots (frame_view f))"
    "v_slots (frame_view f') = v_slots (frame_view f) @ [Some (mk_hdr wx 0 0 307, enc_undo_entry e, 307)]"
    using A len by simp_all
  have "heap_read_tuple f' (tid_slot ut) True 307 = Inr (mk_hdr wx 0 0 307, enc_undo_entry e)"
    using heap_store.read_inserted [OF ok _ ins] len by simp
  then show "kds_undo_read_entry f' (tid_slot ut) = Inr e"
    by (simp add: kds_undo_read_entry_def KDS_UNDO_ENTRY_SIZE_def dec_enc_undo_entry [OF v])
  show "tid_page_id ut = frame_kp_id f"
    using heap_insert_refines [OF ok, of "enc_undo_entry e" wx 0 0] ins len by simp
qed

lemma undo_write_succeeds:
  assumes "heap_ok f" and "length pad = 6" and d: "length d \<le> 256" "d \<noteq> [] \<longrightarrow> data = Some d"
    and "340 \<le> v_free (frame_view f)"
  shows "is_ok (kds_undo_write_entry pad f owner tid prev xmn xmx op data (of_nat (length d)) wx)"
  using heap_store.insert_succeeds [OF assms(1), of "enc_undo_entry (mk_entry pad owner tid prev xmn xmx op d)" wx 0 0]
    length_enc_undo_entry [OF mk_entry_valid [OF assms(2) d(1)]] assms(5)
  unfolding undo_write_is_insert [OF d] by simp

section \<open>Updating a tuple\<close>

lemma read_header_only:
  assumes ok: "heap_ok f" and i: "unat i < length (v_slots (frame_view f))"
    and s: "v_slots (frame_view f) ! unat i = Some (h, d, c)"
  shows "heap_read_tuple f i False n = Inr (h, [])"
proof -
  have "heap_read_tuple f i True (of_nat (length d)) = Inr (h, d)"
    using ok i s by (rule heap_read_exact)
  then show ?thesis
    by (auto simp: heap_read_tuple_def heap_read_tuple_gen_def rbind_ok_iff split: option.splits if_splits)
qed

lemma view_data_len:
  assumes "heap_ok f" and "unat i < length (v_slots (frame_view f))"
    and "v_slots (frame_view f) ! unat i = Some (h, d, c)"
  shows "data_len h = of_nat (length d)" "length d \<le> c" "c < 8192"
proof -
  obtain kp pg where f: "frame_page f = Some (kp, pg)" "heap_wf pg" "frame_view f = heap_view pg"
    using assms(1) by (rule heap_okE)
  then show "data_len h = of_nat (length d)" "length d \<le> c" "c < 8192"
    using assms(2,3) heap_wf_span [OF f(2), of "unat i"] by (auto simp: tuple_at_def Let_def split: if_splits)
qed


text \<open>The write half of an update, after the undo entry is in place.\<close>

definition place_new :: "kds_frame \<Rightarrow> u16 \<Rightarrow> u8 list \<Rightarrow> u64 \<Rightarrow> u64 \<Rightarrow> u16 \<Rightarrow> kds_heap_tid res \<times> kds_frame" where
  "place_new target i nd xid up cap =
     (if of_nat (length nd) \<le> cap
      then (case heap_overwrite_tuple target i (Some nd) (of_nat (length nd)) xid 0 up of
              Inl e \<Rightarrow> (Inl e, target)
            | Inr t' \<Rightarrow> (Inr \<lparr>tid_page_id = frame_kp_id target, tid_slot = i\<rparr>, t'))
      else (case heap_retire_slot target i of
              Inl e \<Rightarrow> (Inl e, target)
            | Inr t1 \<Rightarrow> (case heap_insert_tuple_ex t1 (Some nd) (of_nat (length nd)) xid 0 up of
                 Inl e \<Rightarrow> (Inl e, t1) | Inr (tid, t2) \<Rightarrow> (Inr tid, t2))))"

lemma update_is_place_new:
  assumes ok: "heap_ok target" and i: "unat i < length (v_slots (frame_view target))"
    and s: "v_slots (frame_view target) ! unat i = Some (h, d, c)" and d: "length d \<le> 256"
    and w: "kds_undo_write_entry pad undo owner \<lparr>tid_page_id = frame_kp_id target, tid_slot = i\<rparr>
      (undo_ptr h) (xmin h) xid KDS_UNDO_OP_UPDATE (if d = [] then None else Some d) (of_nat (length d)) xid = Inr (ut, undo')"
  shows "kds_heap_update_tuple True pad target i (Some nd) (of_nat (length nd)) xid owner undo
    = (let (r, t') = place_new target i nd xid (kds_heap_tid_pack ut) (of_nat c) in (r, t', undo'))"
proof -
  note v = view_data_len [OF ok i s]
  have L: "unat (of_nat (length d) :: u16) = length d" using d by (intro unat_of_nat16) simp
  then have z: "(0 :: u16) < of_nat (length d) \<longleftrightarrow> d \<noteq> []" by (simp add: word_less_nat_alt)
  obtain kp where kp: "fr_kp target = Some kp"
    using ok by (auto simp: heap_ok_def frame_page_def split: option.splits)
  have cap: "heap_slot_capacity target i = Inr (of_nat c)"
    using heap_capacity_view [OF ok, of i] i s by (simp add: spec_slot_def)
  note R = kds_heap_update_tuple_def read_header_only [OF ok i s] heap_read_exact [OF ok i s] v(1) L z
    KDS_UNDO_MAX_OLD_DATA_def cap place_new_def Let_def
  show ?thesis
  proof (cases "d = []")
    case True
    with kp w show ?thesis by (simp add: R) (simp split: sum.splits)
  next
    case False
    with kp d w show ?thesis by (simp add: R) (simp split: sum.splits)
  qed
qed

lemma place_new_in_place:
  assumes ok: "heap_ok f" and i: "unat i < length (v_slots (frame_view f))"
    and s: "v_slots (frame_view f) ! unat i = Some (h, d, c)" and fits: "length nd \<le> c"
  shows "\<exists>f'. place_new f i nd xid up (of_nat c) = (Inr \<lparr>tid_page_id = frame_kp_id f, tid_slot = i\<rparr>, f') \<and> heap_ok f'
    \<and> v_slots (frame_view f') = (v_slots (frame_view f))[unat i := Some (mk_hdr xid 0 up (length nd), nd, c)]"
proof -
  note v = view_data_len [OF ok i s]
  have "(of_nat (length nd) :: u16) \<le> of_nat c"
    using fits v(3) by (simp add: word_le_nat_alt unat_of_nat16)
  then show ?thesis
    using heap_overwrite_refines [OF ok, of nd i xid 0 up] fits v i s
    by (auto simp: place_new_def spec_overwrite_def spec_slot_def dest!: slots_of_view split: sum.splits)
qed

lemma place_new_relocates:
  assumes ok: "heap_ok f" and i: "unat i < length (v_slots (frame_view f))"
    and s: "v_slots (frame_view f) ! unat i = Some (h, d, c)" and big: "c < length nd" "length nd < 65508"
  shows "\<exists>r f'. place_new f i nd xid up (of_nat c) = (r, f') \<and> heap_ok f' \<and>
    (if 8192 < length nd \<or> v_free (frame_view f) < 33 + length nd
     then r = fails (if 8192 < length nd then EINVAL else ENOSPC) \<and> v_slots (frame_view f') = (v_slots (frame_view f))[unat i := None]
     else (\<exists>tid. r = Inr tid \<and> tid_page_id tid = frame_kp_id f \<and> unat (tid_slot tid) = length (v_slots (frame_view f)))
       \<and> v_slots (frame_view f') = (v_slots (frame_view f))[unat i := None] @ [Some (mk_hdr xid 0 up (length nd), nd, length nd)])"
proof -
  note v = view_data_len [OF ok i s]
  have nle: "\<not> (of_nat (length nd) :: u16) \<le> of_nat c"
    using big v(3) by (simp add: word_le_nat_alt unat_of_nat16)
  obtain f1 where f1: "heap_retire_slot f i = Inr f1" "heap_ok f1" "frame_kp_id f1 = frame_kp_id f"
    "frame_view f1 = (frame_view f)\<lparr>v_slots := (v_slots (frame_view f))[unat i := None]\<rparr>"
    using heap_retire_refines [OF ok, of i] i by (auto simp: spec_retire_def split: sum.splits)
  have "length nd < 65536" using big by simp
  from heap_insert_refines [OF f1(2) this, of xid 0 up] show ?thesis
    using nle
    by (auto simp: place_new_def f1 spec_insert_def dest!: slots_of_view split: sum.splits if_splits)
qed


text \<open>An update with room for its undo entry: the entry is written first, then the new version is placed.\<close>

lemma update_splits:
  fixes owner xid :: u64 and nd :: "u8 list"
  assumes ok: "heap_ok target" "heap_ok undo" and i: "unat i < length (v_slots (frame_view target))"
    and s: "v_slots (frame_view target) ! unat i = Some (h, d, c)" and d: "length d \<le> 256"
    and pad: "length pad = 6" and room: "340 \<le> v_free (frame_view undo)"
  defines "e \<equiv> mk_entry pad owner \<lparr>tid_page_id = frame_kp_id target, tid_slot = i\<rparr> (undo_ptr h) (xmin h) xid
      KDS_UNDO_OP_UPDATE d"
  obtains ut undo' where "heap_ok undo'" "kds_undo_read_entry undo' (tid_slot ut) = Inr e"
    "tid_page_id ut = frame_kp_id undo" "unat (tid_slot ut) = length (v_slots (frame_view undo))"
    "v_slots (frame_view undo') = v_slots (frame_view undo) @ [Some (mk_hdr xid 0 0 307, enc_undo_entry e, 307)]"
    "kds_heap_update_tuple True pad target i (Some nd) (of_nat (length nd)) xid owner undo
      = (let (r, t') = place_new target i nd xid (kds_heap_tid_pack ut) (of_nat c) in (r, t', undo'))"
proof -
  let ?data = "if d = [] then None else Some d"
  let ?w = "kds_undo_write_entry pad undo owner \<lparr>tid_page_id = frame_kp_id target, tid_slot = i\<rparr> (undo_ptr h)
      (xmin h) xid KDS_UNDO_OP_UPDATE ?data (of_nat (length d)) xid"
  have dd: "d \<noteq> [] \<longrightarrow> ?data = Some d" by simp
  have "is_ok ?w" by (rule undo_write_succeeds [OF ok(2) pad d dd room])
  then obtain ut undo' where w: "?w = Inr (ut, undo')" by (cases ?w) auto
  note A = undo_write_appends [OF ok(2) pad d dd w, folded e_def]
  show thesis
    by (rule that [OF A(1,4,5,3,2)]) (rule update_is_place_new [OF ok(1) i s d w])
qed

section \<open>Properties\<close>

text \<open>An undo entry that was written reads back with every field as given, its payload padded with zeros
  to 256 bytes, and the entries already on the page still read as before.\<close>

theorem undo_entry_roundtrip:
  assumes "heap_ok f" and "length pad = 6" and "length d \<le> 256" and "340 \<le> v_free (frame_view f)"
  shows "\<exists>ut f'. kds_undo_write_entry pad f owner tid prev xmn xmx op (Some d) (of_nat (length d)) wx = Inr (ut, f')
     \<and> heap_ok f' \<and> kds_undo_read_entry f' (tid_slot ut) = Inr (mk_entry pad owner tid prev xmn xmx op d)
     \<and> (\<forall>i h b. unat i < length (v_slots (frame_view f)) \<and> v_slots (frame_view f) ! unat i = Some (h, b, 307)
          \<and> length b = 307 \<longrightarrow> kds_undo_read_entry f' i = kds_undo_read_entry f i)"
proof -
  have dd: "d \<noteq> [] \<longrightarrow> Some d = Some d" by simp
  have "is_ok (kds_undo_write_entry pad f owner tid prev xmn xmx op (Some d) (of_nat (length d)) wx)"
    using undo_write_succeeds [OF assms(1,2,3) dd assms(4)] .
  then obtain ut f' where w: "kds_undo_write_entry pad f owner tid prev xmn xmx op (Some d) (of_nat (length d)) wx = Inr (ut, f')"
    by (auto split: sum.splits)
  note A = undo_write_appends [OF assms(1,2,3) dd w]
  have "kds_undo_read_entry f' i = kds_undo_read_entry f i"
    if i: "unat i < length (v_slots (frame_view f))"
      and s: "v_slots (frame_view f) ! unat i = Some (h, b, 307)" and b: "length b = 307" for i h b
  proof -
    have "v_slots (frame_view f') ! unat i = Some (h, b, 307)" using A(2) i s by (simp add: nth_append)
    then show ?thesis
      using heap_read_exact [OF assms(1) i s] heap_read_exact [OF A(1), of i h b 307] A(2) i b
      by (simp add: kds_undo_read_entry_def KDS_UNDO_ENTRY_SIZE_def)
  qed
  with w A(1,4) show ?thesis by blast
qed

theorem undo_entry_roundtrip_witness:
  "\<exists>ut f'. kds_undo_write_entry [0, 0, 0, 0, 0, 0] (blank_heap 300) 42 \<lparr>tid_page_id = 200, tid_slot = 1\<rparr> 0 5 9 1
       (Some [1, 2]) 2 9 = Inr (ut, f') \<and> heap_ok f'
     \<and> kds_undo_read_entry f' (tid_slot ut)
       = Inr (mk_entry [0, 0, 0, 0, 0, 0] 42 \<lparr>tid_page_id = 200, tid_slot = 1\<rparr> 0 5 9 1 [1, 2])"
  using undo_entry_roundtrip [OF blank_heap_facts(1), of "[0, 0, 0, 0, 0, 0]" "[1, 2]" 300 42 _ 0 5 9 1 9]
  by (auto simp: blank_heap_facts)


text \<open>An update whose new payload fits the capacity reserved for the slot stays at its address and changes
  no other tuple of the page; it always succeeds when the undo page has room.\<close>

theorem update_in_place:
  assumes "heap_ok target" "heap_ok undo" and "unat i < length (v_slots (frame_view target))"
    and "v_slots (frame_view target) ! unat i = Some (h, d, c)" and "length d \<le> 256"
    and "length pad = 6" and "340 \<le> v_free (frame_view undo)" and "length nd \<le> c"
  shows "\<exists>t' undo' up. kds_heap_update_tuple True pad target i (Some nd) (of_nat (length nd)) xid owner undo
      = (Inr \<lparr>tid_page_id = frame_kp_id target, tid_slot = i\<rparr>, t', undo') \<and> heap_ok t' \<and> heap_ok undo'
    \<and> v_slots (frame_view t') = (v_slots (frame_view target))[unat i := Some (mk_hdr xid 0 up (length nd), nd, c)]"
proof -
  obtain ut u2 where u: "heap_ok u2"
    "kds_heap_update_tuple True pad target i (Some nd) (of_nat (length nd)) xid owner undo
      = (let (r, t') = place_new target i nd xid (kds_heap_tid_pack ut) (of_nat c) in (r, t', u2))"
    by (rule update_splits [OF assms(1-7), of owner xid nd])
  then show ?thesis
    using place_new_in_place [OF assms(1,3,4,8), of xid "kds_heap_tid_pack ut"] by fastforce
qed

theorem update_in_place_witness:
  "\<exists>t' undo' up. kds_heap_update_tuple True [0, 0, 0, 0, 0, 0] (heap_with 200 [1, 2, 3]) 0 (Some [9]) 1 8 42 (blank_heap 300)
      = (Inr \<lparr>tid_page_id = 200, tid_slot = 0\<rparr>, t', undo') \<and> heap_ok t' \<and> heap_ok undo'
    \<and> v_slots (frame_view t') = [Some (mk_hdr 8 0 up 1, [9], 3)]"
  using update_in_place [OF heap_with_facts(1) blank_heap_facts(1), of "[1, 2, 3]" 0 200 "mk_hdr 7 0 0 3"
      "[1, 2, 3]" 3 "[0, 0, 0, 0, 0, 0]" 300 "[9]" 8 42]
  by (simp add: heap_with_facts blank_heap_facts numeral_eq_Suc)


text \<open>When the new payload fits neither the old slot nor the free space of the page, the update fails with
  ENOSPC but has already retired the old slot: the tuple is gone from the page.\<close>

theorem update_loses_tuple:
  assumes "heap_ok target" "heap_ok undo" and "unat i < length (v_slots (frame_view target))"
    and "v_slots (frame_view target) ! unat i = Some (h, d, c)" and "length d \<le> 256"
    and "length pad = 6" and "340 \<le> v_free (frame_view undo)"
    and "c < length nd" and "length nd \<le> 8192" and "v_free (frame_view target) < 33 + length nd"
  shows "\<exists>t' undo'. kds_heap_update_tuple True pad target i (Some nd) (of_nat (length nd)) xid owner undo
      = (fails ENOSPC, t', undo') \<and> v_slots (frame_view t') = (v_slots (frame_view target))[unat i := None]
      \<and> heap_read_tuple t' i True (of_nat (length d)) = fails ENOENT"
proof -
  obtain ut u2 where u: "kds_heap_update_tuple True pad target i (Some nd) (of_nat (length nd)) xid owner undo
      = (let (r, t') = place_new target i nd xid (kds_heap_tid_pack ut) (of_nat c) in (r, t', u2))"
    by (rule update_splits [OF assms(1-7), of owner xid nd])
  obtain t' where t: "place_new target i nd xid (kds_heap_tid_pack ut) (of_nat c) = (fails ENOSPC, t')" "heap_ok t'"
    "v_slots (frame_view t') = (v_slots (frame_view target))[unat i := None]"
    using place_new_relocates [OF assms(1,3,4,8), of xid "kds_heap_tid_pack ut"] assms(9,10) by auto
  have "heap_read_tuple t' i True (of_nat (length d)) = fails ENOENT"
    using heap_read_refines [OF t(2), of i "of_nat (length d)"] t(3) assms(3) by (simp add: spec_read_def spec_slot_def)
  with u t show ?thesis by simp
qed

theorem update_loses_tuple_witness:
  "\<exists>t' undo'. kds_heap_update_tuple True [0, 0, 0, 0, 0, 0] (heap_with 200 [1]) 0 (Some (replicate 8100 0)) 8100 8 42 (blank_heap 300)
      = (fails ENOSPC, t', undo') \<and> heap_read_tuple t' 0 True 1 = fails ENOENT"
  using update_loses_tuple [OF heap_with_facts(1) blank_heap_facts(1), of "[1]" 0 200 "mk_hdr 7 0 0 1" "[1]" 1
      "[0, 0, 0, 0, 0, 0]" 300 "replicate 8100 0" 8 42]
  by (auto simp: heap_with_facts blank_heap_facts)

end
