(* ===== verification/Kds_Blkdev.thy ===== *)
theory Kds_Blkdev
  imports Kds_Frame
begin

text \<open>
  The block device layer (\<^verbatim>\<open>kernel/kds/blkdev.c\<close>). The disk is a byte map; sector \<open>s\<close> starts at byte
  \<open>512 * s\<close>. What the Linux kernel decides is in \<open>kenv\<close>: the native page size, whether the \<open>n\<close>-th allocation
  succeeds, the outcome of the \<open>n\<close>-th submitted bio and, when a write fails, how many bytes of it reached
  the disk, whether a base page can be added to the \<open>n\<close>-th bio, whether the hash table accepts an insertion, the
  clock as a function of the number of bios so far, and what opening the device returns. The
  state counts the allocations and bios so far. Freeing memory has no effect on the model.
\<close>

section \<open>The kernel and the device\<close>

record kenv =
  ke_page_size :: nat
  ke_alloc_ok :: "nat \<Rightarrow> bool"
  ke_garbage :: "nat \<Rightarrow> pagebuf"
  ke_io :: "nat \<Rightarrow> errno option"
  ke_torn :: "nat \<Rightarrow> nat"
  ke_bio_add :: "nat \<Rightarrow> nat \<Rightarrow> bool"
  ke_rht_init :: "errno option"
  ke_rht_insert :: "nat \<Rightarrow> errno option"
  ke_time :: "nat \<Rightarrow> u64"
  ke_open :: "errno option"
  ke_bdev_valid :: bool

record blk_state =
  kds_bdev :: bool
  kds_bdev_filp :: bool
  disk :: "nat \<Rightarrow> u8"
  nalloc :: nat
  nio :: nat

definition kalloc :: "kenv \<Rightarrow> ('z blk_state_scheme, bool) call" where
  "kalloc env = (\<lambda>s. (Inr (ke_alloc_ok env (nalloc s)), s\<lparr>nalloc := Suc (nalloc s)\<rparr>))"

text \<open>A bio: its start sector and the base pages added to it.\<close>

record bio =
  bi_sector :: u64
  bi_pages :: "u8 list list"

definition sector_byte :: "u64 \<Rightarrow> nat" where
  "sector_byte sec = KDS_BLKDEV_SECTOR_SIZE * unat sec"

definition submit_write :: "kenv \<Rightarrow> bio \<Rightarrow> ('z blk_state_scheme, unit) call" where
  "submit_write env b = (\<lambda>s.
     let bs = concat (bi_pages b); n = nio s; s' = s\<lparr>nio := Suc n\<rparr> in
     case ke_io env n of
       None \<Rightarrow> (Inr (), s'\<lparr>disk := wr (disk s) (sector_byte (bi_sector b)) bs\<rparr>)
     | Some e \<Rightarrow> (fails e, s'\<lparr>disk := wr (disk s) (sector_byte (bi_sector b)) (take (ke_torn env n) bs)\<rparr>))"

definition submit_read :: "kenv \<Rightarrow> u64 \<Rightarrow> nat \<Rightarrow> ('z blk_state_scheme, u8 list) call" where
  "submit_read env sec len = (\<lambda>s.
     let s' = s\<lparr>nio := Suc (nio s)\<rparr> in
     case ke_io env (nio s) of
       None \<Rightarrow> (Inr (rd (disk s) (sector_byte sec) len), s')
     | Some e \<Rightarrow> (fails e, s'))"

section \<open>Opening and closing\<close>

definition init_block_device :: "kenv \<Rightarrow> ('z blk_state_scheme, unit) call" where
  "init_block_device env = (\<lambda>s.
     case ke_open env of
       Some e \<Rightarrow> (fails e, s)
     | None \<Rightarrow> if \<not> ke_bdev_valid env then (fails ENODEV, s)
               else (Inr (), s\<lparr>kds_bdev_filp := True, kds_bdev := True\<rparr>))"

definition exit_block_device :: "'z blk_state_scheme \<Rightarrow> 'z blk_state_scheme" where
  "exit_block_device s = s\<lparr>kds_bdev_filp := False, kds_bdev := False\<rparr>"

section \<open>Sector and single-page I/O\<close>

definition request_write_sector_to_disk :: "kenv \<Rightarrow> u64 \<Rightarrow> u8 list \<Rightarrow> ('z blk_state_scheme, bio) call" where
  "request_write_sector_to_disk env sector data =
     sbind sget (\<lambda>s.
     if \<not> kds_bdev s then sfail (Errno ENODEV)
     else sbind (kalloc env) (\<lambda>page_ok.
     if \<not> page_ok then sfail (Errno ENOMEM)
     else case buf_rd data KDS_BLKDEV_SECTOR_SIZE of
       None \<Rightarrow> sfail Fault
     | Some bs \<Rightarrow>
         sbind (kalloc env) (\<lambda>bio_ok.
         if \<not> bio_ok then sfail (Errno ENOMEM)
         else sbind sget (\<lambda>s'.
         if \<not> ke_bio_add env (nio s') 0 then sfail (Errno EIO)
         else sret \<lparr>bi_sector = sector, bi_pages = [bs]\<rparr>))))"

definition wait_free_bio :: "kenv \<Rightarrow> bio \<Rightarrow> ('z blk_state_scheme, unit) call" where
  "wait_free_bio env b = submit_write env b"

definition write_sector_to_disk :: "kenv \<Rightarrow> u64 \<Rightarrow> u8 list \<Rightarrow> ('z blk_state_scheme, unit) call" where
  "write_sector_to_disk env sector data =
     sbind (request_write_sector_to_disk env sector data) (wait_free_bio env)"

definition blkdev_read_sector :: "kenv \<Rightarrow> u64 \<Rightarrow> ('z blk_state_scheme, u8 list) call" where
  "blkdev_read_sector env sector =
     sbind sget (\<lambda>s.
     if \<not> kds_bdev s then sfail (Errno EINVAL)
     else sbind (kalloc env) (\<lambda>page_ok.
     if \<not> page_ok then sfail (Errno ENOMEM)
     else sbind (kalloc env) (\<lambda>bio_ok.
     if \<not> bio_ok then sfail (Errno ENOMEM)
     else sbind sget (\<lambda>s'.
     if \<not> ke_bio_add env (nio s') 0 then sfail (Errno EIO)
     else submit_read env sector (ke_page_size env)))))"

definition kds_read_page_sector :: "kenv \<Rightarrow> u64 \<Rightarrow> ('z blk_state_scheme, u8 list) call" where
  "kds_read_page_sector env sector =
     sbind sget (\<lambda>s.
     if \<not> kds_bdev s then sfail (Errno EINVAL)
     else sbind (kalloc env) (\<lambda>bio_ok.
     if \<not> bio_ok then sfail (Errno ENOMEM)
     else sbind sget (\<lambda>s'.
     if \<not> ke_bio_add env (nio s') 0 then sfail (Errno EIO)
     else submit_read env sector (ke_page_size env))))"

definition kds_write_page_sector :: "kenv \<Rightarrow> u64 \<Rightarrow> u8 list \<Rightarrow> ('z blk_state_scheme, unit) call" where
  "kds_write_page_sector env sector page =
     sbind sget (\<lambda>s.
     if \<not> kds_bdev s then sfail (Errno EINVAL)
     else sbind (kalloc env) (\<lambda>bio_ok.
     if \<not> bio_ok then sfail (Errno ENOMEM)
     else sbind sget (\<lambda>s'.
     if \<not> ke_bio_add env (nio s') 0 then sfail (Errno EIO)
     else submit_write env \<lparr>bi_sector = sector, bi_pages = [page]\<rparr>)))"

section \<open>Extents and logical pages\<close>

definition kds_write_extent :: "kenv \<Rightarrow> u64 \<Rightarrow> u8 list list \<Rightarrow> ('z blk_state_scheme, unit) call" where
  "kds_write_extent env start_sector pages =
     sbind sget (\<lambda>s.
     if \<not> kds_bdev s then sfail (Errno ENODEV)
     else sbind (kalloc env) (\<lambda>bio_ok.
     if \<not> bio_ok then sfail (Errno ENOMEM)
     else sbind sget (\<lambda>s'.
     if \<not> list_all (ke_bio_add env (nio s')) [0 ..< length pages] then sfail (Errno EIO)
     else submit_write env \<lparr>bi_sector = start_sector, bi_pages = pages\<rparr>)))"

definition kds_read_extent :: "kenv \<Rightarrow> u64 \<Rightarrow> nat \<Rightarrow> ('z blk_state_scheme, u8 list) call" where
  "kds_read_extent env start_sector nr_pages =
     sbind sget (\<lambda>s.
     if \<not> kds_bdev s then sfail (Errno ENODEV)
     else if nr_pages = 0 then sfail (Errno EINVAL)
     else sbind (kalloc env) (\<lambda>bio_ok.
     if \<not> bio_ok then sfail (Errno ENOMEM)
     else sbind sget (\<lambda>s'.
     if \<not> list_all (ke_bio_add env (nio s')) [0 ..< nr_pages] then sfail (Errno EIO)
     else submit_read env start_sector (nr_pages * ke_page_size env))))"

definition KDS_PAGE_NR_BASE_PAGES :: "kenv \<Rightarrow> nat" where
  "KDS_PAGE_NR_BASE_PAGES env = KDS_PAGE_SIZE div ke_page_size env"

definition kds_read_logical_page :: "kenv \<Rightarrow> u64 \<Rightarrow> ('z blk_state_scheme, pagebuf) call" where
  "kds_read_logical_page env sector =
     sbind (kds_read_extent env sector (KDS_PAGE_NR_BASE_PAGES env))
       (\<lambda>bs. sret (wr (\<lambda>_. 0) 0 bs))"

definition kds_write_logical_page :: "kenv \<Rightarrow> u64 \<Rightarrow> pagebuf \<Rightarrow> ('z blk_state_scheme, unit) call" where
  "kds_write_logical_page env sector head_page =
     strying (kds_write_extent env sector
        (map (\<lambda>i. rd head_page (i * ke_page_size env) (ke_page_size env)) [0 ..< KDS_PAGE_NR_BASE_PAGES env]))
       (\<lambda>r. case r of Inr _ \<Rightarrow> sret () | Inl _ \<Rightarrow> sfail Panic)"

section \<open>Logical pages on disk\<close>

definition page_size_ok :: "kenv \<Rightarrow> bool" where
  "page_size_ok env \<longleftrightarrow> 0 < ke_page_size env \<and> KDS_PAGE_SIZE mod ke_page_size env = 0"

lemma concat_base_pages: "concat (map (\<lambda>i. rd p (i * k) k) [0 ..< n]) = rd p 0 (n * k)"
proof (induction n)
  case (Suc n)
  then show ?case using rd_append [of p 0 "n * k" k] by (simp add: add.commute)
qed simp

lemma nr_base_pages: "page_size_ok env \<Longrightarrow> KDS_PAGE_NR_BASE_PAGES env * ke_page_size env = KDS_PAGE_SIZE"
  by (auto simp: page_size_ok_def KDS_PAGE_NR_BASE_PAGES_def)

text \<open>Everything a device call may change of the state: the disk and the two counters.\<close>

definition same_dev :: "'z blk_state_scheme \<Rightarrow> 'z blk_state_scheme \<Rightarrow> bool" where
  "same_dev s s' \<longleftrightarrow> (\<exists>d a n. s' = s\<lparr>disk := d, nalloc := a, nio := n\<rparr>)"

lemma same_dev_refl [simp]: "same_dev s s"
  unfolding same_dev_def by (metis blk_state.surjective blk_state.update_convs(3-5))

lemma same_devI: "same_dev s (s\<lparr>disk := d, nalloc := a, nio := n\<rparr>)"
  unfolding same_dev_def by blast

lemma same_dev_partial [simp]:
  "same_dev s (s\<lparr>nalloc := a\<rparr>)" "same_dev s (s\<lparr>nalloc := a, nio := n\<rparr>)"
  "same_dev s (s\<lparr>nalloc := a, nio := n, disk := d\<rparr>)"
  using same_devI [where s = s and d = "disk s" and a = a and n = "nio s"]
    same_devI [where s = s and d = "disk s" and a = a and n = n] same_devI [of s n a d]
  by (simp, simp, cases s, simp)

lemma same_dev_bdev: "same_dev s s' \<Longrightarrow> kds_bdev s' = kds_bdev s"
  by (auto simp: same_dev_def)

lemma write_logical_cases:
  fixes s :: "'z blk_state_scheme"
  assumes "page_size_ok env" and "kds_write_logical_page env sec pg s = (r, s')"
  shows "(r = Inr () \<and> disk s' = wr (disk s) (sector_byte sec) (rd pg 0 KDS_PAGE_SIZE) \<or> r = Inl Panic)
    \<and> same_dev s s'"
  using assms(2)
  by (auto simp: kds_write_logical_page_def kds_write_extent_def submit_write_def kalloc_def call_defs
      concat_base_pages nr_base_pages [OF assms(1)] Let_def
      split: if_splits option.splits sum.splits prod.splits)

lemma read_logical_cases:
  fixes s :: "'z blk_state_scheme"
  assumes "page_size_ok env" and "kds_read_logical_page env sec s = (r, s')"
  shows "(r = Inr (wr (\<lambda>_. 0) 0 (rd (disk s) (sector_byte sec) KDS_PAGE_SIZE)) \<or> (\<exists>e. r = fails e))
    \<and> disk s' = disk s \<and> same_dev s s'"
  using assms(2)
  by (auto simp: kds_read_logical_page_def kds_read_extent_def submit_read_def kalloc_def call_defs
      nr_base_pages [OF assms(1)] Let_def split: if_splits option.splits sum.splits prod.splits)

text \<open>A kernel in which nothing fails.\<close>

definition env_good :: "kenv \<Rightarrow> bool" where
  "env_good env \<longleftrightarrow> page_size_ok env \<and> ke_alloc_ok env = (\<lambda>_. True) \<and> ke_io env = (\<lambda>_. None)
     \<and> ke_bio_add env = (\<lambda>_ _. True) \<and> ke_rht_init env = None \<and> ke_rht_insert env = (\<lambda>_. None)"

lemma env_good_page_size: "env_good env \<Longrightarrow> page_size_ok env"
  by (simp add: env_good_def)

lemma write_logical_good:
  assumes "env_good env" and "kds_bdev s"
  shows "\<exists>s'. kds_write_logical_page env sec pg s = (Inr (), s')"
  using assms by (simp add: kds_write_logical_page_def kds_write_extent_def submit_write_def kalloc_def call_defs
      env_good_def list_all_iff Let_def)

lemma read_logical_good:
  assumes "env_good env" and "kds_bdev s"
  shows "\<exists>pg s'. kds_read_logical_page env sec s = (Inr pg, s')"
proof -
  have "KDS_PAGE_NR_BASE_PAGES env \<noteq> 0"
    using nr_base_pages [OF env_good_page_size [OF assms(1)]] by (cases "KDS_PAGE_NR_BASE_PAGES env") (simp_all add: KDS_PAGE_SIZE_def)
  then show ?thesis
    using assms by (simp add: kds_read_logical_page_def kds_read_extent_def submit_read_def kalloc_def call_defs
        env_good_def list_all_iff Let_def)
qed

text \<open>Page ids map to disjoint regions as long as the sector number does not wrap.\<close>

lemma page_byte: "unat pid < 2 ^ 60 \<Longrightarrow> sector_byte (kds_page_sector pid) = 8192 * unat pid"
  by (simp add: sector_byte_def kds_page_sector_def KDS_BLKDEV_SECTOR_SIZE_def unat_word_ariths)

definition disk_page :: "(nat \<Rightarrow> u8) \<Rightarrow> u64 \<Rightarrow> u8 list" where
  "disk_page d pid = rd d (sector_byte (kds_page_sector pid)) KDS_PAGE_SIZE"

lemma disk_page_write_same:
  "disk_page (wr d (sector_byte (kds_page_sector pid)) (rd pg 0 KDS_PAGE_SIZE)) pid = rd pg 0 KDS_PAGE_SIZE"
  by (simp add: disk_page_def rd_wr_same)

lemma disk_page_write_other:
  assumes "unat pid < 2 ^ 60" and "unat qid < 2 ^ 60" and "pid \<noteq> qid"
  shows "disk_page (wr d (sector_byte (kds_page_sector pid)) (rd pg 0 KDS_PAGE_SIZE)) qid = disk_page d qid"
proof -
  have "unat pid \<noteq> unat qid" using assms(3) by (simp add: word_unat_eq_iff)
  then show ?thesis
    unfolding disk_page_def page_byte [OF assms(1)] page_byte [OF assms(2)]
    by (intro rd_wr_disjoint) (simp add: KDS_PAGE_SIZE_def, linarith)
qed

lemma rd_fresh_page: "rd (wr (\<lambda>_. 0) 0 (rd d o' KDS_PAGE_SIZE)) 0 KDS_PAGE_SIZE = rd d o' KDS_PAGE_SIZE"
  by (simp add: rd_wr_same)

section \<open>The contract of a page device\<close>

text \<open>
  What the buffer pool and the superblock rely on: a successful write changes the page it names and no
  other, a successful read returns what is there, and a read changes nothing.
\<close>

locale page_device =
  fixes addr_ok :: "u64 \<Rightarrow> bool"
    and contents :: "'s \<Rightarrow> u64 \<Rightarrow> u8 list"
    and put :: "u64 \<Rightarrow> pagebuf \<Rightarrow> ('s, unit) call"
    and get :: "u64 \<Rightarrow> ('s, pagebuf) call"
  assumes write_ok: "addr_ok p \<Longrightarrow> addr_ok q \<Longrightarrow> put p pg s = (Inr (), s') \<Longrightarrow>
      contents s' q = (if q = p then rd pg 0 KDS_PAGE_SIZE else contents s q)"
    and read_ok: "addr_ok p \<Longrightarrow> get p s = (Inr pg, s') \<Longrightarrow> rd pg 0 KDS_PAGE_SIZE = contents s p"
    and read_pure: "addr_ok p \<Longrightarrow> addr_ok q \<Longrightarrow> get p s = (r, s') \<Longrightarrow> contents s' q = contents s q"
begin

lemma read_after_write:
  assumes "addr_ok p" and "addr_ok q" and "put p pg s = (Inr (), s1)" and "get q s1 = (Inr pg', s2)"
  shows "rd pg' 0 KDS_PAGE_SIZE = (if q = p then rd pg 0 KDS_PAGE_SIZE else contents s q)"
  using read_ok [OF assms(2,4)] write_ok [OF assms(1,2,3)] by simp

lemma read_repeatable:
  assumes "addr_ok p" and "get p s = (Inr pg, s1)" and "get p s1 = (Inr pg', s2)"
  shows "rd pg' 0 KDS_PAGE_SIZE = rd pg 0 KDS_PAGE_SIZE"
  using read_ok [OF assms(1,2)] read_ok [OF assms(1,3)] read_pure [OF assms(1,1,2)] by simp

lemma write_overwrites:
  assumes "addr_ok p" and "addr_ok q" and "put p pg s = (Inr (), s1)" and "put p pg' s1 = (Inr (), s2)"
  shows "contents s2 q = (if q = p then rd pg' 0 KDS_PAGE_SIZE else contents s q)"
  using write_ok [OF assms(1,2,3)] write_ok [OF assms(1,2,4)] by simp

end

interpretation blkdev: page_device "\<lambda>p. page_size_ok env \<and> unat p < 2 ^ 60" "\<lambda>s. disk_page (disk s)"
  "\<lambda>p. kds_write_logical_page env (kds_page_sector p)" "\<lambda>p. kds_read_logical_page env (kds_page_sector p)"
  for env :: kenv
proof unfold_locales
  fix p q :: u64 and pg and s s' :: "'z blk_state_scheme"
  assume "page_size_ok env \<and> unat p < 2 ^ 60" "page_size_ok env \<and> unat q < 2 ^ 60"
    and w: "kds_write_logical_page env (kds_page_sector p) pg s = (Inr (), s')"
  then show "disk_page (disk s') q = (if q = p then rd pg 0 KDS_PAGE_SIZE else disk_page (disk s) q)"
    using write_logical_cases [OF _ w] disk_page_write_other [of p q] by (auto simp: disk_page_write_same)
next
  fix p :: u64 and pg and s s' :: "'z blk_state_scheme"
  assume "page_size_ok env \<and> unat p < 2 ^ 60" and r: "kds_read_logical_page env (kds_page_sector p) s = (Inr pg, s')"
  then show "rd pg 0 KDS_PAGE_SIZE = disk_page (disk s) p"
    using read_logical_cases [OF _ r] by (auto simp: rd_fresh_page disk_page_def)
next
  fix p q :: u64 and r and s s' :: "'z blk_state_scheme"
  assume "page_size_ok env \<and> unat p < 2 ^ 60" and r: "kds_read_logical_page env (kds_page_sector p) s = (r, s')"
  then show "disk_page (disk s') q = disk_page (disk s) q"
    using read_logical_cases [OF _ r] by simp
qed

text \<open>A logical page written without error reads back unchanged from its page id, and the write does not
  disturb any other page id, whatever native page size divides the logical page.\<close>

theorem logical_page_roundtrip:
  assumes "page_size_ok env" and "unat pid < 2 ^ 60" and "unat qid < 2 ^ 60"
    and "kds_write_logical_page env (kds_page_sector pid) pg s = (Inr (), s1)"
    and "kds_read_logical_page env (kds_page_sector qid) s1 = (Inr pg', s2)"
  shows "rd pg' 0 KDS_PAGE_SIZE = (if qid = pid then rd pg 0 KDS_PAGE_SIZE else disk_page (disk s) qid)"
  using assms by (intro blkdev.read_after_write) auto

definition demo_env :: kenv where
  "demo_env = \<lparr>ke_page_size = 4096, ke_alloc_ok = (\<lambda>_. True), ke_garbage = (\<lambda>_ _. 0), ke_io = (\<lambda>_. None),
     ke_torn = (\<lambda>_. 0), ke_bio_add = (\<lambda>_ _. True), ke_rht_init = None, ke_rht_insert = (\<lambda>_. None), ke_time = (\<lambda>n. of_nat n), ke_open = None, ke_bdev_valid = True\<rparr>"

definition demo_blk :: blk_state where
  "demo_blk = \<lparr>kds_bdev = True, kds_bdev_filp = True, disk = (\<lambda>_. 0), nalloc = 0, nio = 0\<rparr>"

lemma demo_env_good: "env_good demo_env"
  by (simp add: env_good_def demo_env_def page_size_ok_def KDS_PAGE_SIZE_def)

theorem logical_page_roundtrip_witness:
  "\<exists>s1 s2 pg'. kds_write_logical_page demo_env (kds_page_sector 130) (\<lambda>_. 5) demo_blk = (Inr (), s1)
     \<and> kds_read_logical_page demo_env (kds_page_sector 130) s1 = (Inr pg', s2)
     \<and> rd pg' 0 KDS_PAGE_SIZE = rd (\<lambda>_. 5) 0 KDS_PAGE_SIZE"
proof -
  note g = env_good_page_size [OF demo_env_good]
  obtain s1 where w: "kds_write_logical_page demo_env (kds_page_sector 130) (\<lambda>_. 5) demo_blk = (Inr (), s1)"
    using write_logical_good [OF demo_env_good, of demo_blk] by (auto simp: demo_blk_def)
  have "kds_bdev s1"
    using write_logical_cases [OF g w] by (auto simp: demo_blk_def dest!: same_dev_bdev)
  then obtain pg' s2 where r: "kds_read_logical_page demo_env (kds_page_sector 130) s1 = (Inr pg', s2)"
    using read_logical_good [OF demo_env_good] by blast
  show ?thesis using w r logical_page_roundtrip [OF g _ _ w r] by auto
qed

end
