(* ===== verification/Kds_Page_Mgr.thy ===== *)
theory Kds_Page_Mgr
  imports Kds_Blkdev
begin

text \<open>
  The buffer pool (\<^verbatim>\<open>kernel/kds/page_mgr.c\<close>, \<^verbatim>\<open>include/linux/kds_page_mgr.h\<close>) and the operations of
  \<^verbatim>\<open>kernel/kds/page.c\<close> that reach the disk. Frames are numbered; a \<^verbatim>\<open>kds_frame_t *\<close> is its number. The hash
  table is the map \<open>pmap\<close>. Each call is atomic but for one place: between the disk read of a load and the
  registration of the loaded frame other threads may run, which is the argument \<open>oth\<close> of
  \<open>kds_buf_lookup_or_load\<close>. \<^verbatim>\<open>vmalloc\<close> memory is not cleared, so the reserved bytes of a new page's header
  are the environment's.
\<close>

section \<open>State\<close>

definition KDS_BUF_NR_FRAMES :: nat where "KDS_BUF_NR_FRAMES = 4096"

record pool_state = blk_state +
  g_pool :: bool
  pframes :: "nat \<Rightarrow> kds_frame"
  pmap :: "u64 \<rightharpoonup> nat"
  free_frames :: "nat list"
  nr_free :: u32

definition init_frame :: "nat \<Rightarrow> kds_frame" where
  "init_frame i = \<lparr>frame_id = i, fr_state = KDS_FRAME_FREE, fr_page_id = 0, fr_kp = None, fr_page = None,
     fr_mapped = False\<rparr>"

definition upd_frame :: "nat \<Rightarrow> (kds_frame \<Rightarrow> kds_frame) \<Rightarrow> 'z pool_state_scheme \<Rightarrow> 'z pool_state_scheme" where
  "upd_frame i g s = s\<lparr>pframes := (pframes s)(i := g (pframes s i))\<rparr>"

section \<open>Lifecycle\<close>

definition kds_buf_pool_init :: "kenv \<Rightarrow> ('z pool_state_scheme, unit) call" where
  "kds_buf_pool_init env =
     sbind (kalloc env) (\<lambda>mem_ok.
     if \<not> mem_ok then sbind (smod (\<lambda>s. s\<lparr>g_pool := False\<rparr>)) (\<lambda>_. sfail (Errno ENOMEM))
     else case ke_rht_init env of
       Some e \<Rightarrow> sbind (smod (\<lambda>s. s\<lparr>g_pool := False\<rparr>)) (\<lambda>_. sfail (Errno e))
     | None \<Rightarrow> smod (\<lambda>s. s\<lparr>g_pool := True, pframes := init_frame, pmap := Map.empty,
           free_frames := [0 ..< KDS_BUF_NR_FRAMES], nr_free := of_nat KDS_BUF_NR_FRAMES\<rparr>))"

text \<open>The frames, their pages and the table are freed with the pool.\<close>

definition kds_buf_pool_destroy :: "'z pool_state_scheme \<Rightarrow> 'z pool_state_scheme" where
  "kds_buf_pool_destroy s =
     (if \<not> g_pool s then s
      else s\<lparr>g_pool := False, pframes := init_frame, pmap := Map.empty, free_frames := [], nr_free := 0\<rparr>)"

section \<open>Free frames\<close>

definition kds_buf_take_free_frame :: "('z pool_state_scheme, nat option) call" where
  "kds_buf_take_free_frame = (\<lambda>s.
     case free_frames s of [] \<Rightarrow> (Inr None, s)
     | i # is \<Rightarrow> (Inr (Some i), s\<lparr>free_frames := is, nr_free := nr_free s - 1\<rparr>))"

definition kds_buf_return_free_frame :: "nat \<Rightarrow> 'z pool_state_scheme \<Rightarrow> 'z pool_state_scheme" where
  "kds_buf_return_free_frame i s = s\<lparr>free_frames := free_frames s @ [i], nr_free := nr_free s + 1\<rparr>"

text \<open>The error paths: mark the frame free and put it back.\<close>

definition give_back :: "bool \<Rightarrow> bool \<Rightarrow> nat \<Rightarrow> 'z pool_state_scheme \<Rightarrow> 'z pool_state_scheme" where
  "give_back drop_kp drop_page i s =
     kds_buf_return_free_frame i (upd_frame i (\<lambda>f. f\<lparr>fr_state := KDS_FRAME_FREE, fr_page_id := 0,
       fr_kp := (if drop_kp then None else fr_kp f), fr_page := (if drop_page then None else fr_page f)\<rparr>) s)"

section \<open>Pinning\<close>

definition kds_buf_pin :: "nat \<Rightarrow> ('z pool_state_scheme, unit) call" where
  "kds_buf_pin i = (\<lambda>s.
     case fr_kp (pframes s i) of None \<Rightarrow> (Inl Fault, s)
     | Some kp \<Rightarrow> (Inr (), upd_frame i (\<lambda>f. f\<lparr>fr_kp := Some (pin_kpage kp)\<rparr>) s))"

definition kds_buf_unpin :: "nat \<Rightarrow> ('z pool_state_scheme, unit) call" where
  "kds_buf_unpin i = (\<lambda>s.
     case fr_kp (pframes s i) of None \<Rightarrow> (Inl Fault, s)
     | Some kp \<Rightarrow> (Inr (), upd_frame i (\<lambda>f. f\<lparr>fr_kp := Some (unpin_kpage kp)\<rparr>) s))"

section \<open>Loading and registering\<close>

definition kds_frame_read_from_disk :: "kenv \<Rightarrow> nat \<Rightarrow> u64 \<Rightarrow> ('z pool_state_scheme, unit) call" where
  "kds_frame_read_from_disk env i pid =
     sbind sget (\<lambda>s.
     if \<not> kds_bdev s then sfail (Errno ENODEV)
     else sbind (kalloc env) (\<lambda>page_ok.
     if \<not> page_ok then sfail (Errno ENOMEM)
     else sbind (kds_read_logical_page env (kds_page_sector pid)) (\<lambda>page.
     sbind (kalloc env) (\<lambda>kp_ok.
     if \<not> kp_ok then sbind (smod (upd_frame i (\<lambda>f. f\<lparr>fr_kp := None\<rparr>))) (\<lambda>_. sfail (Errno ENOMEM))
     else smod (upd_frame i (\<lambda>f. f\<lparr>fr_page := Some page,
            fr_kp := Some \<lparr>kp_id = pid, kp_hdr = dec_page_hdr (rd page 0 KDS_PAGE_HDR_SIZE), kp_refcnt = 0\<rparr>\<rparr>))))))"

definition kds_buf_register_frame :: "kenv \<Rightarrow> nat \<Rightarrow> ('z pool_state_scheme, unit) call" where
  "kds_buf_register_frame env i =
     sbind (kalloc env) (\<lambda>entry_ok.
     if \<not> entry_ok then sfail (Errno ENOMEM)
     else sbind sget (\<lambda>s.
       let pid = fr_page_id (pframes s i) in
       if pmap s pid \<noteq> None then sfail (Errno EEXIST)
       else case ke_rht_insert env (nalloc s) of
         Some e \<Rightarrow> sfail (Errno e)
       | None \<Rightarrow>
           sbind (smod (\<lambda>s. upd_frame i (\<lambda>f. f\<lparr>fr_state := KDS_FRAME_VALID\<rparr>)
                    (s\<lparr>pmap := (pmap s)(pid \<mapsto> frame_id (pframes s i))\<rparr>)))
             (\<lambda>_. kds_buf_pin i)))"

definition kds_buf_lookup :: "u64 \<Rightarrow> ('z pool_state_scheme, nat option) call" where
  "kds_buf_lookup pid =
     sbind sget (\<lambda>s.
     if \<not> g_pool s then sret None
     else case pmap s pid of
       None \<Rightarrow> sret None
     | Some i \<Rightarrow> sbind (kds_buf_pin i) (\<lambda>_. sret (Some i)))"

definition kds_buf_lookup_or_load ::
  "kenv \<Rightarrow> ('z pool_state_scheme \<Rightarrow> 'z pool_state_scheme) \<Rightarrow> u64 \<Rightarrow> ('z pool_state_scheme, nat) call" where
  "kds_buf_lookup_or_load env oth pid =
     sbind sget (\<lambda>s.
     if \<not> g_pool s then sfail (Errno ENODEV)
     else sbind (kds_buf_lookup pid) (\<lambda>hit.
     case hit of Some i \<Rightarrow> sret i
     | None \<Rightarrow>
       sbind kds_buf_take_free_frame (\<lambda>taken.
       case taken of None \<Rightarrow> sfail (Errno ENOSPC)
       | Some i \<Rightarrow>
         sbind (smod (upd_frame i (\<lambda>f. f\<lparr>fr_state := KDS_FRAME_LOADING, fr_page_id := pid\<rparr>))) (\<lambda>_.
         strying (kds_frame_read_from_disk env i pid) (\<lambda>r.
         case r of Inl e \<Rightarrow> sbind (smod (give_back False False i)) (\<lambda>_. sfail e)
         | Inr _ \<Rightarrow>
           sbind (smod oth) (\<lambda>_.
           strying (kds_buf_register_frame env i) (\<lambda>r.
           case r of Inr _ \<Rightarrow> sret i
           | Inl e \<Rightarrow>
             sbind (smod (give_back True False i)) (\<lambda>_.
             if e = Errno EEXIST
             then sbind sget (\<lambda>s'. case pmap s' pid of
                    Some j \<Rightarrow> sbind (kds_buf_pin j) (\<lambda>_. sret j)
                  | None \<Rightarrow> sfail (Errno ENOENT))
             else sfail e))))))))"

definition kds_buf_alloc_new :: "kenv \<Rightarrow> u64 \<Rightarrow> ('z pool_state_scheme, nat) call" where
  "kds_buf_alloc_new env pid =
     sbind sget (\<lambda>s.
     if \<not> g_pool s then sfail (Errno ENODEV)
     else sbind (kds_buf_lookup pid) (\<lambda>hit.
     case hit of Some i \<Rightarrow> sbind (kds_buf_unpin i) (\<lambda>_. sfail (Errno EEXIST))
     | None \<Rightarrow>
       sbind kds_buf_take_free_frame (\<lambda>taken.
       case taken of None \<Rightarrow> sfail (Errno ENOSPC)
       | Some i \<Rightarrow>
         sbind (smod (upd_frame i (\<lambda>f. f\<lparr>fr_state := KDS_FRAME_LOADING, fr_page_id := pid\<rparr>))) (\<lambda>_.
         sbind (kalloc env) (\<lambda>page_ok.
         if \<not> page_ok then sbind (smod (give_back False False i)) (\<lambda>_. sfail (Errno ENOMEM))
         else sbind sget (\<lambda>s0. sbind (kalloc env) (\<lambda>kp_ok.
         if \<not> kp_ok then sbind (smod (give_back True False i)) (\<lambda>_. sfail (Errno ENOMEM))
         else
           let hdr = \<lparr>hdr_type = KDS_PAGE_TYPE_INVALID, hdr_crc = 0,
                 hdr_flags = KDS_PAGE_FLAG_ALLOC OR KDS_PAGE_FLAG_DIRTY,
                 hdr_reserved1 = rd (ke_garbage env (nalloc s0)) 9 32\<rparr>;
               page = wr (\<lambda>_. 0) 0 (enc_page_hdr hdr)
           in
           sbind (smod (upd_frame i (\<lambda>f. f\<lparr>fr_page := Some page,
                    fr_kp := Some \<lparr>kp_id = pid, kp_hdr = hdr, kp_refcnt = 0\<rparr>\<rparr>))) (\<lambda>_.
           sbind sget (\<lambda>s1.
           if \<not> kds_bdev s1 then sfail Panic
           else strying (kds_write_logical_page env (kds_page_sector pid) page) (\<lambda>r.
           case r of
             Inl Panic \<Rightarrow> sfail Panic
           | Inl e \<Rightarrow> sbind (smod (give_back True False i)) (\<lambda>_. sfail e)
           | Inr _ \<Rightarrow>
             sbind (smod (upd_frame i (\<lambda>f. f\<lparr>fr_kp := map_option (\<lambda>kp. kp\<lparr>kp_hdr := (kp_hdr kp)
                      \<lparr>hdr_flags := hdr_flags (kp_hdr kp) AND NOT KDS_PAGE_FLAG_DIRTY\<rparr>\<rparr>) (fr_kp f)\<rparr>))) (\<lambda>_.
             strying (kds_buf_register_frame env i) (\<lambda>r.
             case r of Inr _ \<Rightarrow> sret i
             | Inl e \<Rightarrow> sbind (smod (give_back True True i)) (\<lambda>_. sfail e)))))))))))))"

section \<open>Direct buffer access\<close>

text \<open>A pointer into the mapped page is its offset; the lock is held from get to put.\<close>

definition kds_frame_get_write_ptr :: "nat \<Rightarrow> u64 \<Rightarrow> u64 \<Rightarrow> ('z pool_state_scheme, nat) call" where
  "kds_frame_get_write_ptr i offset sz =
     (if of_nat KDS_PAGE_SIZE < offset + sz then sfail (Errno EINVAL)
      else sbind sget (\<lambda>s.
        if frame_page (pframes s i) = None then sfail Fault
        else sbind (smod (upd_frame i (\<lambda>f. f\<lparr>fr_mapped := True\<rparr>))) (\<lambda>_. sret (unat offset))))"

definition kds_frame_put_write_ptr :: "nat \<Rightarrow> ('z pool_state_scheme, unit) call" where
  "kds_frame_put_write_ptr i =
     sbind sget (\<lambda>s. case fr_kp (pframes s i) of None \<Rightarrow> sfail Fault
     | Some kp \<Rightarrow> smod (upd_frame i (\<lambda>f. f\<lparr>fr_mapped := False, fr_kp := Some (kds_set_page_dirty kp)\<rparr>)))"

definition kds_frame_get_read_ptr :: "nat \<Rightarrow> u64 \<Rightarrow> u64 \<Rightarrow> ('z pool_state_scheme, nat) call" where
  "kds_frame_get_read_ptr i offset sz =
     (if of_nat KDS_PAGE_SIZE < offset + sz then sfail (Errno EINVAL)
      else sbind sget (\<lambda>s.
        if frame_page (pframes s i) = None then sfail Fault
        else sbind (smod (upd_frame i (\<lambda>f. f\<lparr>fr_mapped := True\<rparr>))) (\<lambda>_. sret (unat offset))))"

definition kds_frame_put_read_ptr :: "nat \<Rightarrow> ('z pool_state_scheme, unit) call" where
  "kds_frame_put_read_ptr i =
     sbind sget (\<lambda>s. case fr_kp (pframes s i) of None \<Rightarrow> sfail Fault
     | Some kp \<Rightarrow> smod (upd_frame i (\<lambda>f. f\<lparr>fr_mapped := False\<rparr>)))"

section \<open>Flushing and statistics\<close>

definition frame_dirty :: "kds_frame \<Rightarrow> bool" where
  "frame_dirty f = (case fr_kp f of None \<Rightarrow> False | Some kp \<Rightarrow> hdr_flags (kp_hdr kp) AND KDS_PAGE_FLAG_DIRTY \<noteq> 0)"

definition kds_frame_flush :: "kenv \<Rightarrow> nat \<Rightarrow> ('z pool_state_scheme, unit) call" where
  "kds_frame_flush env i =
     sbind sget (\<lambda>s. case fr_kp (pframes s i) of None \<Rightarrow> sfail (Errno EINVAL)
     | Some kp \<Rightarrow>
       if \<not> frame_dirty (pframes s i) then sret ()
       else case fr_page (pframes s i) of None \<Rightarrow> sfail Fault
       | Some pg \<Rightarrow>
         let pg' = wr pg 0 (enc_page_hdr (kp_hdr kp)) in
         sbind (smod (upd_frame i (\<lambda>f. f\<lparr>fr_page := Some pg'\<rparr>))) (\<lambda>_.
         sbind (kds_write_logical_page env (kds_page_sector (fr_page_id (pframes s i))) pg') (\<lambda>_.
         smod (upd_frame i (\<lambda>f. f\<lparr>fr_kp := Some (kp\<lparr>kp_hdr := (kp_hdr kp)
           \<lparr>hdr_flags := hdr_flags (kp_hdr kp) AND NOT KDS_PAGE_FLAG_DIRTY\<rparr>\<rparr>)\<rparr>)))))"

text \<open>The loop ignores the error of one frame; a panic stops the machine.\<close>

fun flush_frames :: "kenv \<Rightarrow> nat list \<Rightarrow> ('z pool_state_scheme, unit) call" where
  "flush_frames env [] = sret ()"
| "flush_frames env (i # is) =
     sbind sget (\<lambda>s.
     if fr_state (pframes s i) \<noteq> KDS_FRAME_VALID \<or> fr_kp (pframes s i) = None
        \<or> \<not> frame_dirty (pframes s i) then flush_frames env is
     else sbind (kds_buf_pin i) (\<lambda>_.
          strying (kds_frame_flush env i) (\<lambda>r.
          case r of
            Inl Panic \<Rightarrow> sfail Panic
          | Inl Fault \<Rightarrow> sfail Fault
          | _ \<Rightarrow> sbind (kds_buf_unpin i) (\<lambda>_. flush_frames env is))))"

definition kds_buf_flush_dirty_frames :: "kenv \<Rightarrow> ('z pool_state_scheme, unit) call" where
  "kds_buf_flush_dirty_frames env =
     sbind sget (\<lambda>s. if \<not> g_pool s then sret () else flush_frames env [0 ..< KDS_BUF_NR_FRAMES])"

definition count_state :: "kds_frame_state \<Rightarrow> 'z pool_state_scheme \<Rightarrow> nat" where
  "count_state st s = length (filter (\<lambda>i. fr_state (pframes s i) = st) [0 ..< KDS_BUF_NR_FRAMES])"

definition kds_buf_pool_get_stats :: "'z pool_state_scheme \<Rightarrow> nat \<times> nat \<times> nat" where
  "kds_buf_pool_get_stats s =
     (if \<not> g_pool s then (KDS_BUF_NR_FRAMES, 0, 0)
      else (KDS_BUF_NR_FRAMES, count_state KDS_FRAME_FREE s, count_state KDS_FRAME_VALID s))"

section \<open>page.c: pages to and from the disk\<close>

definition kds_read_page ::
  "kenv \<Rightarrow> ('z pool_state_scheme \<Rightarrow> 'z pool_state_scheme) \<Rightarrow> u64 \<Rightarrow> ('z pool_state_scheme, nat) call" where
  "kds_read_page env oth pid = kds_buf_lookup_or_load env oth pid"

definition kds_write_page :: "kenv \<Rightarrow> nat \<Rightarrow> ('z pool_state_scheme, unit) call" where
  "kds_write_page env i =
     sbind sget (\<lambda>s. case frame_page (pframes s i) of None \<Rightarrow> sfail (Errno EINVAL)
     | Some (kp, pg) \<Rightarrow>
         if \<not> kds_bdev s then sfail (Errno ENODEV)
         else kds_write_logical_page env (kds_page_sector (kp_id kp)) pg)"

fun write_each :: "kenv \<Rightarrow> nat list \<Rightarrow> ('z pool_state_scheme, unit) call" where
  "write_each env [] = sret ()"
| "write_each env (i # is) = sbind (kds_write_page env i) (\<lambda>_. write_each env is)"

definition kds_write_pages :: "kenv \<Rightarrow> nat list \<Rightarrow> ('z pool_state_scheme, unit) call" where
  "kds_write_pages env is =
     (if is = [] then sfail (Errno EINVAL)
      else sbind sget (\<lambda>s.
        if \<not> kds_bdev s then sfail (Errno ENODEV)
        else if list_ex (\<lambda>i. frame_page (pframes s i) = None) is then sfail (Errno EINVAL)
        else write_each env is))"

section \<open>The pool invariant\<close>

text \<open>
  Every frame knows its number; the free list holds exactly the free frames, once each; the table maps a
  page id to a frame exactly when that frame is valid and holds that id; a valid frame has a buffer and
  metadata that name the same page; the free count is the length of the list. A frame being loaded is in
  neither the list nor the table.
\<close>

definition frame_loaded :: "kds_frame \<Rightarrow> u64 \<Rightarrow> bool" where
  "frame_loaded f pid \<longleftrightarrow> (\<exists>kp pg. fr_kp f = Some kp \<and> fr_page f = Some pg \<and> kp_id kp = pid)"

definition pool_wf :: "'z pool_state_scheme \<Rightarrow> bool" where
  "pool_wf s \<longleftrightarrow> g_pool s \<and> (\<forall>i. frame_id (pframes s i) = i)
     \<and> distinct (free_frames s)
     \<and> (\<forall>i. i \<in> set (free_frames s) \<longleftrightarrow> i < KDS_BUF_NR_FRAMES \<and> fr_state (pframes s i) = KDS_FRAME_FREE)
     \<and> (\<forall>p i. pmap s p = Some i \<longleftrightarrow>
          i < KDS_BUF_NR_FRAMES \<and> fr_state (pframes s i) = KDS_FRAME_VALID \<and> fr_page_id (pframes s i) = p)
     \<and> (\<forall>i < KDS_BUF_NR_FRAMES. fr_state (pframes s i) = KDS_FRAME_VALID \<longrightarrow>
          frame_loaded (pframes s i) (fr_page_id (pframes s i)))
     \<and> nr_free s = of_nat (length (free_frames s))"

lemma upd_frame_simps [simp]:
  "pframes (upd_frame i g s) j = (if j = i then g (pframes s i) else pframes s j)"
  "pmap (upd_frame i g s) = pmap s" "free_frames (upd_frame i g s) = free_frames s"
  "nr_free (upd_frame i g s) = nr_free s" "g_pool (upd_frame i g s) = g_pool s"
  "kds_bdev (upd_frame i g s) = kds_bdev s" "disk (upd_frame i g s) = disk s"
  "nalloc (upd_frame i g s) = nalloc s" "nio (upd_frame i g s) = nio s"
  by (simp_all add: upd_frame_def)

lemma give_back_simps [simp]:
  "pmap (give_back a b i s) = pmap s" "free_frames (give_back a b i s) = free_frames s @ [i]"
  "nr_free (give_back a b i s) = nr_free s + 1" "g_pool (give_back a b i s) = g_pool s"
  "disk (give_back a b i s) = disk s" "kds_bdev (give_back a b i s) = kds_bdev s"
  "pframes (give_back a b i s) j = (if j = i then (pframes s i)\<lparr>fr_state := KDS_FRAME_FREE, fr_page_id := 0,
       fr_kp := (if a then None else fr_kp (pframes s i)), fr_page := (if b then None else fr_page (pframes s i))\<rparr>
     else pframes s j)"
  by (simp_all add: give_back_def kds_buf_return_free_frame_def)

text \<open>Device calls do not touch the pool.\<close>

lemma same_dev_pool:
  fixes s :: "'z pool_state_scheme"
  assumes "same_dev s s'"
  shows "pframes s' = pframes s" "pmap s' = pmap s" "free_frames s' = free_frames s" "nr_free s' = nr_free s"
    "g_pool s' = g_pool s" "kds_bdev s' = kds_bdev s"
  using assms by (auto simp: same_dev_def)

lemma pool_wf_cong:
  assumes "pframes s' = pframes s" "pmap s' = pmap s" "free_frames s' = free_frames s" "nr_free s' = nr_free s"
    "g_pool s' = g_pool s"
  shows "pool_wf s' = pool_wf s"
  using assms by (simp add: pool_wf_def)

lemma pool_wf_dev [simp]: "pool_wf (s\<lparr>nalloc := a\<rparr>) = pool_wf s"
  by (rule pool_wf_cong) simp_all

lemma pool_wf_map:
  assumes "pool_wf s" and "pmap s p = Some i"
  shows "i < KDS_BUF_NR_FRAMES" "fr_state (pframes s i) = KDS_FRAME_VALID" "fr_page_id (pframes s i) = p"
    "frame_loaded (pframes s i) p"
  using assms by (auto simp: pool_wf_def)

lemma pool_wf_valid:
  "pool_wf s \<Longrightarrow> i < KDS_BUF_NR_FRAMES \<Longrightarrow> fr_state (pframes s i) = KDS_FRAME_VALID \<Longrightarrow>
   pmap s (fr_page_id (pframes s i)) = Some i"
  by (simp add: pool_wf_def)

text \<open>A change of one frame that keeps its number, state and page id.\<close>

lemma pool_wf_touch:
  assumes "pool_wf s" and "frame_id (g (pframes s i)) = i" and "fr_state (g (pframes s i)) = fr_state (pframes s i)"
    and "fr_page_id (g (pframes s i)) = fr_page_id (pframes s i)"
    and "fr_state (pframes s i) = KDS_FRAME_VALID \<Longrightarrow> frame_loaded (pframes s i) (fr_page_id (pframes s i)) \<Longrightarrow>
      frame_loaded (g (pframes s i)) (fr_page_id (pframes s i))"
  shows "pool_wf (upd_frame i g s)"
  using assms by (auto simp: pool_wf_def)

lemma pool_wf_loading:
  assumes "pool_wf s" and "fr_state (pframes s i) = KDS_FRAME_LOADING" and "frame_id (g (pframes s i)) = i"
    and "fr_state (g (pframes s i)) = KDS_FRAME_LOADING"
  shows "pool_wf (upd_frame i g s)"
  using assms by (auto simp: pool_wf_def)

lemma pool_wf_take:
  assumes "pool_wf s" and "free_frames s = i # is"
  shows "pool_wf (upd_frame i (\<lambda>f. f\<lparr>fr_state := KDS_FRAME_LOADING, fr_page_id := pid\<rparr>)
    (s\<lparr>free_frames := is, nr_free := nr_free s - 1\<rparr>))"
proof -
  have "fr_state (pframes s i) = KDS_FRAME_FREE"
    using assms by (auto simp: pool_wf_def dest: spec [of _ i])
  then show ?thesis using assms by (auto simp: pool_wf_def)
qed

lemma pool_wf_give_back:
  assumes "pool_wf s" and "fr_state (pframes s i) = KDS_FRAME_LOADING" and "i < KDS_BUF_NR_FRAMES"
  shows "pool_wf (give_back a b i s)"
  using assms by (auto simp: pool_wf_def)

lemma pool_wf_register:
  assumes "pool_wf s" and "fr_state (pframes s i) = KDS_FRAME_LOADING" and "i < KDS_BUF_NR_FRAMES"
    and "frame_loaded (pframes s i) pid" and "fr_page_id (pframes s i) = pid" and "pmap s pid = None"
  shows "pool_wf (upd_frame i (\<lambda>f. f\<lparr>fr_state := KDS_FRAME_VALID\<rparr>) (s\<lparr>pmap := (pmap s)(pid \<mapsto> i)\<rparr>))"
proof -
  have "fr_page_id (pframes s j) \<noteq> pid" if "j < KDS_BUF_NR_FRAMES" "fr_state (pframes s j) = KDS_FRAME_VALID" for j
    using pool_wf_valid [OF assms(1) that] assms(6) by auto
  then show ?thesis using assms by (auto simp: pool_wf_def frame_loaded_def)
qed

lemma pin_ok:
  assumes "pool_wf s" and "pmap s p = Some i"
  shows "\<exists>kp. fr_kp (pframes s i) = Some kp \<and> kp_id kp = p
    \<and> kds_buf_pin i s = (Inr (), upd_frame i (\<lambda>f. f\<lparr>fr_kp := Some (pin_kpage kp)\<rparr>) s)
    \<and> pool_wf (upd_frame i (\<lambda>f. f\<lparr>fr_kp := Some (pin_kpage kp)\<rparr>) s)"
proof -
  obtain kp pg where kp: "fr_kp (pframes s i) = Some kp" "fr_page (pframes s i) = Some pg" "kp_id kp = p"
    using pool_wf_map(4) [OF assms] by (auto simp: frame_loaded_def)
  have "pool_wf (upd_frame i (\<lambda>f. f\<lparr>fr_kp := Some (pin_kpage kp)\<rparr>) s)"
    using pool_wf_map [OF assms] kp assms(1)
    by (intro pool_wf_touch) (auto simp: pool_wf_def frame_loaded_def pin_kpage_def)
  with kp show ?thesis by (simp add: kds_buf_pin_def)
qed

section \<open>Start-up\<close>

lemma pool_init_wf:
  assumes "kds_buf_pool_init env s = (Inr (), s')"
  shows "pool_wf s'" "pmap s' = Map.empty" "free_frames s' = [0 ..< KDS_BUF_NR_FRAMES]" "disk s' = disk s"
  using assms
  by (auto simp: kds_buf_pool_init_def kalloc_def call_defs pool_wf_def init_frame_def
      split: if_splits option.splits)

section \<open>Loading a page\<close>

text \<open>What a call on frame \<open>i\<close> leaves alone: every other frame, the table, the free list, the device handle
  and the state of the other components.\<close>

definition only_frame :: "nat \<Rightarrow> 'z pool_state_scheme \<Rightarrow> 'z pool_state_scheme \<Rightarrow> bool" where
  "only_frame i s s' \<longleftrightarrow> (\<forall>j. j \<noteq> i \<longrightarrow> pframes s' j = pframes s j) \<and> pmap s' = pmap s
     \<and> free_frames s' = free_frames s \<and> nr_free s' = nr_free s \<and> g_pool s' = g_pool s \<and> kds_bdev s' = kds_bdev s
     \<and> pool_state.more s' = pool_state.more s"

lemma same_dev_only: "same_dev s s' \<Longrightarrow> only_frame i s s'"
  by (auto simp: same_dev_def only_frame_def)

lemma upd_frame_more [simp]: "pool_state.more (upd_frame i g s) = pool_state.more s"
  by (simp add: upd_frame_def)

lemma only_frame_upd: "only_frame i s s' \<Longrightarrow> only_frame i s (upd_frame i g s')"
  by (simp add: only_frame_def)

lemma kalloc_eq: "kalloc env s = (Inr (ke_alloc_ok env (nalloc s)), s\<lparr>nalloc := Suc (nalloc s)\<rparr>)"
  by (simp add: kalloc_def)

lemma same_dev_trans: "same_dev s t \<Longrightarrow> same_dev t u \<Longrightarrow> same_dev s u"
  unfolding same_dev_def by (elim exE) (simp, metis)

lemma read_from_disk_cases:
  fixes s :: "'z pool_state_scheme"
  assumes ps: "page_size_ok env" and run: "kds_frame_read_from_disk env i pid s = (r, s')"
  shows "only_frame i s s' \<and> disk s' = disk s \<and> fr_state (pframes s' i) = fr_state (pframes s i)
     \<and> fr_page_id (pframes s' i) = fr_page_id (pframes s i) \<and> frame_id (pframes s' i) = frame_id (pframes s i)
     \<and> (case r of Inl e \<Rightarrow> (\<exists>x. e = Errno x)
        | Inr _ \<Rightarrow> \<exists>pg. fr_page (pframes s' i) = Some pg \<and> rd pg 0 KDS_PAGE_SIZE = disk_page (disk s) pid
            \<and> fr_kp (pframes s' i) = Some \<lparr>kp_id = pid, kp_hdr = dec_page_hdr (rd pg 0 KDS_PAGE_HDR_SIZE), kp_refcnt = 0\<rparr>)"
proof (cases "kds_bdev s \<and> ke_alloc_ok env (nalloc s)")
  case False
  then show ?thesis
    using run by (auto simp: kds_frame_read_from_disk_def call_defs kalloc_eq only_frame_def split: if_splits)
next
  case True
  define s1 where "s1 = s\<lparr>nalloc := Suc (nalloc s)\<rparr>"
  obtain r2 s2 where rd: "kds_read_logical_page env (kds_page_sector pid) s1 = (r2, s2)" by fastforce
  note c = read_logical_cases [OF ps rd]
  have sd: "same_dev s s2" using c same_dev_partial(1) [of s "Suc (nalloc s)"] unfolding s1_def
    by (blast intro: same_dev_trans)
  have d: "disk s2 = disk s" using c by (simp add: s1_def)
  note fr = same_dev_pool [OF sd]
  have one: "only_frame i s s2" using sd by (rule same_dev_only)
  show ?thesis
  proof (cases r2)
    case (Inl e)
    then have "r = Inl e" "s' = s2"
      using run True rd by (auto simp: kds_frame_read_from_disk_def call_defs kalloc_eq s1_def)
    then show ?thesis using c Inl one d fr by auto
  next
    case (Inr pg)
    then have pg: "rd pg 0 KDS_PAGE_SIZE = disk_page (disk s) pid"
      using c by (auto simp: rd_fresh_page disk_page_def s1_def)
    show ?thesis
      using run True rd Inr pg d fr one
      by (auto simp: kds_frame_read_from_disk_def call_defs kalloc_eq s1_def [symmetric] only_frame_def split: if_splits)
  qed
qed

text \<open>What other threads may do between the read and the registration.\<close>

definition rely :: "('z pool_state_scheme \<Rightarrow> 'z pool_state_scheme) \<Rightarrow> bool" where
  "rely oth \<longleftrightarrow> (\<forall>s. pool_wf s \<longrightarrow> pool_wf (oth s)
     \<and> (\<forall>i. fr_state (pframes s i) = KDS_FRAME_LOADING \<longrightarrow> pframes (oth s) i = pframes s i))"

lemma rely_id [simp]: "rely id" "rely (\<lambda>s. s)"
  by (simp_all add: rely_def)

lemma register_cases:
  fixes s :: "'z pool_state_scheme"
  assumes wf: "pool_wf s" and i: "i < KDS_BUF_NR_FRAMES" and st: "fr_state (pframes s i) = KDS_FRAME_LOADING"
    and ld: "frame_loaded (pframes s i) pid" and pid: "fr_page_id (pframes s i) = pid"
    and run: "kds_buf_register_frame env i s = (r, s')"
  shows "(case r of
      Inl e \<Rightarrow> (\<exists>x. e = Errno x) \<and> s' = s\<lparr>nalloc := Suc (nalloc s)\<rparr> \<and> (e = Errno EEXIST \<longrightarrow> pmap s pid \<noteq> None \<or>
          ke_rht_insert env (Suc (nalloc s)) = Some EEXIST)
    | Inr _ \<Rightarrow> pool_wf s' \<and> pmap s pid = None \<and> pmap s' = (pmap s)(pid \<mapsto> i)
        \<and> (\<forall>j. j \<noteq> i \<longrightarrow> pframes s' j = pframes s j)
        \<and> pframes s' i = (pframes s i)\<lparr>fr_state := KDS_FRAME_VALID, fr_kp := map_option pin_kpage (fr_kp (pframes s i))\<rparr>
        \<and> free_frames s' = free_frames s \<and> disk s' = disk s \<and> kds_bdev s' = kds_bdev s
        \<and> pool_state.more s' = pool_state.more s)"
proof -
  let ?s1 = "s\<lparr>nalloc := Suc (nalloc s)\<rparr>"
  let ?s2 = "upd_frame i (\<lambda>f. f\<lparr>fr_state := KDS_FRAME_VALID\<rparr>) (?s1\<lparr>pmap := (pmap s)(pid \<mapsto> i)\<rparr>)"
  have id: "frame_id (pframes s i) = i" using wf by (simp add: pool_wf_def)
  obtain kp pg where kp: "fr_kp (pframes s i) = Some kp" "fr_page (pframes s i) = Some pg" "kp_id kp = pid"
    using ld by (auto simp: frame_loaded_def)
  show ?thesis
  proof (cases "ke_alloc_ok env (nalloc s) \<and> pmap s pid = None \<and> ke_rht_insert env (Suc (nalloc s)) = None")
    case False
    then show ?thesis
      using run pid by (auto simp: kds_buf_register_frame_def call_defs kalloc_eq Let_def split: if_splits option.splits)
  next
    case True
    have wf2: "pool_wf ?s2"
      using pool_wf_register [of ?s1 i pid] wf st i ld pid True by simp
    have m: "pmap ?s2 pid = Some i" by simp
    have "r = Inr ()" "s' = upd_frame i (\<lambda>f. f\<lparr>fr_kp := Some (pin_kpage kp)\<rparr>) ?s2"
      using run True pid kp by (simp_all add: kds_buf_register_frame_def call_defs kalloc_eq Let_def kds_buf_pin_def id)
    then show ?thesis
      using pin_ok [OF wf2 m] kp True by (simp add: upd_frame_def)
  qed
qed

lemma pool_wf_g_pool: "pool_wf s \<Longrightarrow> g_pool s"
  by (simp add: pool_wf_def)

lemma lookup_cases:
  assumes wf: "pool_wf s" and run: "kds_buf_lookup pid s = (r, s')"
  shows "(case pmap s pid of None \<Rightarrow> r = Inr None \<and> s' = s
    | Some i \<Rightarrow> r = Inr (Some i) \<and> pool_wf s' \<and> only_frame i s s' \<and> disk s' = disk s \<and> nio s' = nio s
        \<and> pframes s' i = (pframes s i)\<lparr>fr_kp := map_option pin_kpage (fr_kp (pframes s i))\<rparr>)"
proof (cases "pmap s pid")
  case None
  then show ?thesis using run pool_wf_g_pool [OF wf] by (simp add: kds_buf_lookup_def call_defs)
next
  case (Some i)
  show ?thesis
    using pin_ok [OF wf Some] run pool_wf_g_pool [OF wf] Some
    by (auto simp: kds_buf_lookup_def call_defs only_frame_def)
qed

lemma pool_wf_only:
  assumes wf: "pool_wf s" and one: "only_frame i s s'" and st: "fr_state (pframes s i) = KDS_FRAME_LOADING"
    and same: "fr_state (pframes s' i) = KDS_FRAME_LOADING" "frame_id (pframes s' i) = frame_id (pframes s i)"
  shows "pool_wf s'"
proof -
  have eqs: "pmap s' = pmap s" "free_frames s' = free_frames s" "nr_free s' = nr_free s" "g_pool s' = g_pool s"
    using one by (simp_all add: only_frame_def)
  let ?t = "upd_frame i (\<lambda>_. pframes s' i) s"
  have "pool_wf ?t" using wf st same by (intro pool_wf_loading) (auto simp: pool_wf_def)
  moreover have "pframes s' = pframes ?t" using one by (auto simp: fun_eq_iff only_frame_def)
  ultimately show ?thesis using eqs by (simp add: pool_wf_cong [of s' ?t])
qed

text \<open>The state after a frame is taken for loading.\<close>

definition taken :: "nat \<Rightarrow> nat list \<Rightarrow> u64 \<Rightarrow> 'z pool_state_scheme \<Rightarrow> 'z pool_state_scheme" where
  "taken i is pid s = upd_frame i (\<lambda>f. f\<lparr>fr_state := KDS_FRAME_LOADING, fr_page_id := pid\<rparr>)
     (s\<lparr>free_frames := is, nr_free := nr_free s - 1\<rparr>)"

lemma taken_simps [simp]:
  "pframes (taken i is pid s) j = (if j = i then (pframes s i)\<lparr>fr_state := KDS_FRAME_LOADING, fr_page_id := pid\<rparr> else pframes s j)"
  "free_frames (taken i is pid s) = is" "pmap (taken i is pid s) = pmap s" "disk (taken i is pid s) = disk s"
  "kds_bdev (taken i is pid s) = kds_bdev s" "g_pool (taken i is pid s) = g_pool s"
  "pool_state.more (taken i is pid s) = pool_state.more s" "nalloc (taken i is pid s) = nalloc s"
  by (simp_all add: taken_def)

lemma pool_wf_free_bound: "pool_wf s \<Longrightarrow> free_frames s = i # is \<Longrightarrow> i < KDS_BUF_NR_FRAMES"
  by (auto simp: pool_wf_def dest: spec [of _ i])

lemma load_miss:
  assumes wf: "pool_wf s" and miss: "pmap s pid = None" and fr: "free_frames s = i # is"
  shows "kds_buf_lookup_or_load env oth pid s =
     (case kds_frame_read_from_disk env i pid (taken i is pid s) of
        (Inl e, s2) \<Rightarrow> (Inl e, give_back False False i s2)
      | (Inr _, s2) \<Rightarrow> (case kds_buf_register_frame env i (oth s2) of
            (Inr _, s3) \<Rightarrow> (Inr i, s3)
          | (Inl e, s3) \<Rightarrow>
              let s4 = give_back True False i s3 in
              if e = Errno EEXIST
              then (case pmap s4 pid of None \<Rightarrow> (fails ENOENT, s4)
                    | Some j \<Rightarrow> (case kds_buf_pin j s4 of (Inl e, s5) \<Rightarrow> (Inl e, s5) | (Inr _, s5) \<Rightarrow> (Inr j, s5)))
              else (Inl e, s4)))"
  using pool_wf_g_pool [OF wf] miss fr
  by (simp add: kds_buf_lookup_or_load_def kds_buf_lookup_def kds_buf_take_free_frame_def call_defs
      taken_def [symmetric] Let_def split: prod.splits sum.splits option.splits)

lemma load_hit:
  assumes wf: "pool_wf s" and hit: "pmap s pid = Some i"
  shows "kds_buf_lookup_or_load env oth pid s = (Inr i, snd (kds_buf_lookup pid s))"
  using pool_wf_g_pool [OF wf] lookup_cases [OF wf, of pid] hit
  by (cases "kds_buf_lookup pid s") (simp add: kds_buf_lookup_or_load_def call_defs)

lemma load_full:
  assumes "pool_wf s" and "pmap s pid = None" and "free_frames s = []"
  shows "kds_buf_lookup_or_load env oth pid s = (fails ENOSPC, s)"
  using assms pool_wf_g_pool [OF assms(1)]
  by (simp add: kds_buf_lookup_or_load_def kds_buf_lookup_def kds_buf_take_free_frame_def call_defs)

lemma load_wf:
  fixes s :: "'z pool_state_scheme"
  assumes ps: "page_size_ok env" and wf: "pool_wf s" and rel: "rely oth"
    and run: "kds_buf_lookup_or_load env oth pid s = (r, s')"
  shows "pool_wf s' \<and> (case r of Inr i \<Rightarrow> pmap s' pid = Some i | Inl e \<Rightarrow> \<exists>x. e = Errno x)"
proof (cases "pmap s pid")
  case (Some i)
  then show ?thesis
    using load_hit [OF wf Some, of env oth] lookup_cases [OF wf, of pid] run
    by (cases "kds_buf_lookup pid s") (auto simp: only_frame_def)
next
  case None
  show ?thesis
  proof (cases "free_frames s")
    case Nil
    then show ?thesis using load_full [OF wf None Nil, of env oth] run wf by simp
  next
    case (Cons i "is")
    let ?s1 = "taken i is pid s"
    have i: "i < KDS_BUF_NR_FRAMES" using wf Cons by (rule pool_wf_free_bound)
    have wf1: "pool_wf ?s1" unfolding taken_def using wf Cons by (rule pool_wf_take)
    obtain r2 s2 where rd: "kds_frame_read_from_disk env i pid ?s1 = (r2, s2)" by fastforce
    note c = read_from_disk_cases [OF ps rd]
    have wf2: "pool_wf s2" by (rule pool_wf_only [OF wf1, of i]) (use c in auto)
    have st2: "fr_state (pframes s2 i) = KDS_FRAME_LOADING" using c by simp
    note M = load_miss [OF wf None Cons, of env oth, unfolded rd]
    show ?thesis
    proof (cases r2)
      case (Inl e)
      then show ?thesis using M run c pool_wf_give_back [OF wf2 st2 i] by auto
    next
      case (Inr u)
      have wf3: "pool_wf (oth s2)" and f3: "pframes (oth s2) i = pframes s2 i"
        using rel wf2 st2 by (auto simp: rely_def)
      obtain r3 s3 where rg: "kds_buf_register_frame env i (oth s2) = (r3, s3)" by fastforce
      have ld: "frame_loaded (pframes (oth s2) i) pid" using c Inr by (auto simp: frame_loaded_def f3)
      note R = register_cases [OF wf3 i _ ld _ rg, unfolded f3, OF st2]
      have pid: "fr_page_id (pframes s2 i) = pid" using c by simp
      show ?thesis
      proof (cases r3)
        case r3: (Inr v)
        then show ?thesis using M run R [OF pid] Inr rg by auto
      next
        case r3: (Inl e)
        then have s3: "s3 = (oth s2)\<lparr>nalloc := Suc (nalloc (oth s2))\<rparr>" and e: "\<exists>x. e = Errno x"
          using R [OF pid] by auto
        have wf4: "pool_wf (give_back True False i s3)"
          by (rule pool_wf_give_back) (use wf3 st2 i s3 f3 in auto)
        show ?thesis
        proof (cases "e = Errno EEXIST")
          case False
          then show ?thesis using M run Inr rg r3 e wf4 by auto
        next
          case True
          show ?thesis
          proof (cases "pmap (give_back True False i s3) pid")
            case n: None
            then show ?thesis using M run Inr rg r3 True wf4 by (auto simp: Let_def)
          next
            case sm: (Some j)
            from pin_ok [OF wf4 sm] obtain s5 where
              "kds_buf_pin j (give_back True False i s3) = (Inr (), s5)" "pool_wf s5" "pmap s5 = pmap (give_back True False i s3)"
              by auto
            then show ?thesis using M run Inr rg r3 True sm by (auto simp: Let_def)
          qed
        qed
      qed
    qed
  qed
qed

text \<open>A load that finds nothing cached: what it leaves on success and on failure, run alone.\<close>

lemma load_alone:
  fixes s :: "'z pool_state_scheme"
  assumes ps: "page_size_ok env" and wf: "pool_wf s" and miss: "pmap s pid = None"
    and run: "kds_buf_lookup_or_load env (\<lambda>s. s) pid s = (r, s')"
  shows "disk s' = disk s \<and> pool_state.more s' = pool_state.more s \<and>
    (case r of
       Inr i \<Rightarrow> i \<in> set (free_frames s) \<and> set (free_frames s') = set (free_frames s) - {i}
         \<and> pmap s' = (pmap s)(pid \<mapsto> i) \<and> (\<forall>j. j \<noteq> i \<longrightarrow> pframes s' j = pframes s j)
         \<and> (\<exists>pg. fr_page (pframes s' i) = Some pg \<and> rd pg 0 KDS_PAGE_SIZE = disk_page (disk s) pid
            \<and> fr_kp (pframes s' i) = Some \<lparr>kp_id = pid, kp_hdr = dec_page_hdr (rd pg 0 KDS_PAGE_HDR_SIZE), kp_refcnt = 1\<rparr>)
     | Inl e \<Rightarrow> set (free_frames s') = set (free_frames s) \<and> pmap s' = pmap s
         \<and> (\<forall>j. j \<notin> set (free_frames s) \<longrightarrow> pframes s' j = pframes s j))"
proof (cases "free_frames s")
  case Nil
  then show ?thesis using load_full [OF wf miss Nil, of env] run by auto
next
  case (Cons i "is")
  have i: "i < KDS_BUF_NR_FRAMES" using wf Cons by (rule pool_wf_free_bound)
  have di: "i \<notin> set is" using wf Cons by (simp add: pool_wf_def)
  have wf1: "pool_wf (taken i is pid s)" unfolding taken_def using wf Cons by (rule pool_wf_take)
  obtain r2 s2 where rd: "kds_frame_read_from_disk env i pid (taken i is pid s) = (r2, s2)" by fastforce
  note c = read_from_disk_cases [OF ps rd]
  have wf2: "pool_wf s2" by (rule pool_wf_only [OF wf1, of i]) (use c in auto)
  have m2: "pmap s2 = pmap s" "free_frames s2 = is" "disk s2 = disk s" "pool_state.more s2 = pool_state.more s"
    "\<And>j. j \<noteq> i \<Longrightarrow> pframes s2 j = pframes s j" using c by (auto simp: only_frame_def)
  note M = load_miss [OF wf miss Cons, of env "\<lambda>s. s", unfolded rd]
  show ?thesis
  proof (cases r2)
    case (Inl e)
    then have "r = Inl e" "s' = give_back False False i s2" using M run by auto
    then show ?thesis using m2 Cons by (auto simp: give_back_def kds_buf_return_free_frame_def)
  next
    case (Inr u)
    obtain r3 s3 where rg: "kds_buf_register_frame env i s2 = (r3, s3)" by fastforce
    have ld: "frame_loaded (pframes s2 i) pid" using c Inr by (auto simp: frame_loaded_def)
    have R: "case r3 of
      Inl e \<Rightarrow> (\<exists>x. e = Errno x) \<and> s3 = s2\<lparr>nalloc := Suc (nalloc s2)\<rparr> \<and> (e = Errno EEXIST \<longrightarrow> pmap s2 pid \<noteq> None \<or>
          ke_rht_insert env (Suc (nalloc s2)) = Some EEXIST)
    | Inr _ \<Rightarrow> pool_wf s3 \<and> pmap s2 pid = None \<and> pmap s3 = (pmap s2)(pid \<mapsto> i)
        \<and> (\<forall>j. j \<noteq> i \<longrightarrow> pframes s3 j = pframes s2 j)
        \<and> pframes s3 i = (pframes s2 i)\<lparr>fr_state := KDS_FRAME_VALID, fr_kp := map_option pin_kpage (fr_kp (pframes s2 i))\<rparr>
        \<and> free_frames s3 = free_frames s2 \<and> disk s3 = disk s2 \<and> kds_bdev s3 = kds_bdev s2
        \<and> pool_state.more s3 = pool_state.more s2"
      by (rule register_cases [OF wf2 i _ ld _ rg]) (use c in auto)
    show ?thesis
    proof (cases r3)
      case r3: (Inr v)
      then have "r = Inr i" "s' = s3" using M run Inr rg by auto
      then show ?thesis using R r3 m2 c Inr Cons di by (auto simp: pin_kpage_def)
    next
      case r3: (Inl e)
      then have s3: "s3 = s2\<lparr>nalloc := Suc (nalloc s2)\<rparr>" using R by auto
      have "pmap (give_back True False i s3) pid = None" using m2 miss s3 by simp
      then have "s' = give_back True False i s3 \<and> (\<exists>x. r = Inl x)"
        using M run Inr rg r3 by (auto simp: Let_def split: if_splits)
      then show ?thesis using m2 s3 Cons by (auto simp: give_back_def kds_buf_return_free_frame_def)
    qed
  qed
qed

section \<open>Flushing\<close>

lemma not_dirty_after_clear: "(w AND NOT KDS_PAGE_FLAG_DIRTY) AND KDS_PAGE_FLAG_DIRTY = 0"
  by (simp add: and.assoc [symmetric] bit_eq_iff bit_simps)

text \<open>A page buffer of a valid frame covers exactly the page; the header in the frame is well-formed.\<close>

lemma flush_cases:
  fixes s :: "'z pool_state_scheme"
  assumes ps: "page_size_ok env" and kp: "fr_kp (pframes s i) = Some kp" and pg: "fr_page (pframes s i) = Some pg"
    and d: "frame_dirty (pframes s i)" and run: "kds_frame_flush env i s = (r, s')"
  defines "pg' \<equiv> wr pg 0 (enc_page_hdr (kp_hdr kp))"
  shows "r = Inl Panic \<or> r = Inr () \<and> only_frame i s s'
     \<and> disk s' = wr (disk s) (sector_byte (kds_page_sector (fr_page_id (pframes s i)))) (rd pg' 0 KDS_PAGE_SIZE)
     \<and> pframes s' i = (pframes s i)\<lparr>fr_page := Some pg', fr_kp := Some (kp\<lparr>kp_hdr := (kp_hdr kp)
           \<lparr>hdr_flags := hdr_flags (kp_hdr kp) AND NOT KDS_PAGE_FLAG_DIRTY\<rparr>\<rparr>)\<rparr>"
proof -
  let ?s1 = "upd_frame i (\<lambda>f. f\<lparr>fr_page := Some pg'\<rparr>) s"
  obtain r2 s2 where w: "kds_write_logical_page env (kds_page_sector (fr_page_id (pframes s i))) pg' ?s1 = (r2, s2)"
    by fastforce
  have "(r, s') = (case r2 of Inl e \<Rightarrow> (Inl e, s2) | Inr _ \<Rightarrow> (Inr (), upd_frame i (\<lambda>f. f\<lparr>fr_kp := Some (kp\<lparr>kp_hdr := (kp_hdr kp)
           \<lparr>hdr_flags := hdr_flags (kp_hdr kp) AND NOT KDS_PAGE_FLAG_DIRTY\<rparr>\<rparr>)\<rparr>) s2))"
    using run w kp pg d by (simp add: kds_frame_flush_def call_defs Let_def pg'_def split: sum.splits)
  moreover note write_logical_cases [OF ps w]
  ultimately show ?thesis
    using same_dev_pool [of ?s1 s2] by (auto simp: only_frame_def same_dev_def split: sum.splits)
qed

lemma flush_clean:
  assumes "fr_kp (pframes s i) = Some kp" and "\<not> frame_dirty (pframes s i)"
  shows "kds_frame_flush env i s = (Inr (), s)"
  using assms by (simp add: kds_frame_flush_def call_defs)

lemma flush_wf:
  assumes ps: "page_size_ok env" and wf: "pool_wf s" and v: "pmap s p = Some i"
    and run: "kds_frame_flush env i s = (Inr (), s')"
  shows "pool_wf s'" "pmap s' = pmap s" "\<not> frame_dirty (pframes s' i)"
    "frame_dirty (pframes s i) \<Longrightarrow> \<exists>pg. fr_page (pframes s' i) = Some pg \<and> disk_page (disk s') p = rd pg 0 KDS_PAGE_SIZE"
    "unat p < 2 ^ 60 \<Longrightarrow> unat q < 2 ^ 60 \<Longrightarrow> q \<noteq> p \<Longrightarrow> disk_page (disk s') q = disk_page (disk s) q"
    "only_frame i s s'"
proof -
  obtain kp pg where kp: "fr_kp (pframes s i) = Some kp" "fr_page (pframes s i) = Some pg" "kp_id kp = p"
    using pool_wf_map(4) [OF wf v] by (auto simp: frame_loaded_def)
  note m = pool_wf_map [OF wf v]
  have "pool_wf s' \<and> pmap s' = pmap s \<and> \<not> frame_dirty (pframes s' i) \<and> only_frame i s s' \<and>
    (frame_dirty (pframes s i) \<longrightarrow> (\<exists>pg. fr_page (pframes s' i) = Some pg \<and> disk_page (disk s') p = rd pg 0 KDS_PAGE_SIZE)) \<and>
    (unat p < 2 ^ 60 \<longrightarrow> unat q < 2 ^ 60 \<longrightarrow> q \<noteq> p \<longrightarrow> disk_page (disk s') q = disk_page (disk s) q)"
  proof (cases "frame_dirty (pframes s i)")
    case False
    then show ?thesis using flush_clean [of s i kp env] kp run wf by (simp add: only_frame_def)
  next
    case True
    note c = flush_cases [OF ps kp(1,2) True run]
    let ?g = "\<lambda>_. pframes s' i"
    have "pool_wf (upd_frame i ?g s)"
      using c kp m wf by (intro pool_wf_touch) (auto simp: frame_loaded_def pool_wf_def)
    moreover have "pframes (upd_frame i ?g s) = pframes s'" using c by (auto simp: fun_eq_iff only_frame_def)
    ultimately have "pool_wf s'" using c pool_wf_cong [of s' "upd_frame i ?g s"] by (simp add: only_frame_def)
    then show ?thesis
      using c m disk_page_write_other [of p q "disk s"]
      by (auto simp: only_frame_def frame_dirty_def not_dirty_after_clear disk_page_write_same)
  qed
  then show "pool_wf s'" "pmap s' = pmap s" "\<not> frame_dirty (pframes s' i)"
    "frame_dirty (pframes s i) \<Longrightarrow> \<exists>pg. fr_page (pframes s' i) = Some pg \<and> disk_page (disk s') p = rd pg 0 KDS_PAGE_SIZE"
    "unat p < 2 ^ 60 \<Longrightarrow> unat q < 2 ^ 60 \<Longrightarrow> q \<noteq> p \<Longrightarrow> disk_page (disk s') q = disk_page (disk s) q"
    "only_frame i s s'" by auto
qed

section \<open>Allocating a new page\<close>

definition new_hdr :: "kenv \<Rightarrow> nat \<Rightarrow> kds_page_hdr" where
  "new_hdr env n = \<lparr>hdr_type = KDS_PAGE_TYPE_INVALID, hdr_crc = 0,
     hdr_flags = KDS_PAGE_FLAG_ALLOC OR KDS_PAGE_FLAG_DIRTY, hdr_reserved1 = rd (ke_garbage env n) 9 32\<rparr>"

definition new_page :: "kenv \<Rightarrow> nat \<Rightarrow> pagebuf" where
  "new_page env n = wr (\<lambda>_. 0) 0 (enc_page_hdr (new_hdr env n))"

definition new_kp :: "kenv \<Rightarrow> nat \<Rightarrow> u64 \<Rightarrow> kds_page" where
  "new_kp env n pid = \<lparr>kp_id = pid, kp_hdr = (new_hdr env n)\<lparr>hdr_flags := KDS_PAGE_FLAG_ALLOC\<rparr>, kp_refcnt = 0\<rparr>"

lemma alloc_flags: "(KDS_PAGE_FLAG_ALLOC OR KDS_PAGE_FLAG_DIRTY) AND NOT KDS_PAGE_FLAG_DIRTY = KDS_PAGE_FLAG_ALLOC"
  by (simp add: KDS_PAGE_FLAG_ALLOC_def KDS_PAGE_FLAG_DIRTY_def)

lemma upd_frame_same: "g (pframes s i) = pframes s i \<Longrightarrow> upd_frame i g s = s"
  by (simp add: upd_frame_def)

lemma upd_frame_upd: "upd_frame i g (upd_frame i h s) = upd_frame i (g \<circ> h) s"
  by (simp add: upd_frame_def)

lemma alloc_cached:
  assumes wf: "pool_wf s" and hit: "pmap s pid = Some i"
  shows "kds_buf_alloc_new env pid s = (fails EEXIST, s)"
proof -
  obtain kp where kp: "fr_kp (pframes s i) = Some kp"
    "kds_buf_pin i s = (Inr (), upd_frame i (\<lambda>f. f\<lparr>fr_kp := Some (pin_kpage kp)\<rparr>) s)"
    using pin_ok [OF wf hit] by auto
  have "unpin_kpage (pin_kpage kp) = kp" by (simp add: pin_kpage_def unpin_kpage_def)
  then have "kds_buf_unpin i (upd_frame i (\<lambda>f. f\<lparr>fr_kp := Some (pin_kpage kp)\<rparr>) s) = (Inr (), s)"
    using kp(1) by (simp add: kds_buf_unpin_def upd_frame_upd upd_frame_same)
  then show ?thesis
    using pool_wf_g_pool [OF wf] hit kp(2) by (simp add: kds_buf_alloc_new_def kds_buf_lookup_def call_defs)
qed

lemma alloc_full:
  assumes "pool_wf s" and "pmap s pid = None" and "free_frames s = []"
  shows "kds_buf_alloc_new env pid s = (fails ENOSPC, s)"
  using assms pool_wf_g_pool [OF assms(1)]
  by (simp add: kds_buf_alloc_new_def kds_buf_lookup_def kds_buf_take_free_frame_def call_defs)

text \<open>The state in which a new page is registered.\<close>

definition prepared :: "kenv \<Rightarrow> nat \<Rightarrow> nat list \<Rightarrow> u64 \<Rightarrow> 'z pool_state_scheme \<Rightarrow> 'z pool_state_scheme" where
  "prepared env i is pid s = upd_frame i (\<lambda>f. f\<lparr>fr_page := Some (new_page env (Suc (nalloc s))),
      fr_kp := Some ((new_kp env (Suc (nalloc s)) pid)\<lparr>kp_hdr := new_hdr env (Suc (nalloc s))\<rparr>)\<rparr>)
      ((taken i is pid s)\<lparr>nalloc := Suc (Suc (nalloc s))\<rparr>)"

definition clear_dirty :: "nat \<Rightarrow> 'z pool_state_scheme \<Rightarrow> 'z pool_state_scheme" where
  "clear_dirty i = upd_frame i (\<lambda>f. f\<lparr>fr_kp := map_option (\<lambda>kp. kp\<lparr>kp_hdr := (kp_hdr kp)
      \<lparr>hdr_flags := hdr_flags (kp_hdr kp) AND NOT KDS_PAGE_FLAG_DIRTY\<rparr>\<rparr>) (fr_kp f)\<rparr>)"

lemma alloc_miss:
  assumes wf: "pool_wf s" and miss: "pmap s pid = None" and fr: "free_frames s = i # is"
  shows "kds_buf_alloc_new env pid s =
    (if \<not> ke_alloc_ok env (nalloc s)
     then (fails ENOMEM, give_back False False i ((taken i is pid s)\<lparr>nalloc := Suc (nalloc s)\<rparr>))
     else if \<not> ke_alloc_ok env (Suc (nalloc s))
     then (fails ENOMEM, give_back True False i ((taken i is pid s)\<lparr>nalloc := Suc (Suc (nalloc s))\<rparr>))
     else if \<not> kds_bdev s then (Inl Panic, prepared env i is pid s)
     else case kds_write_logical_page env (kds_page_sector pid) (new_page env (Suc (nalloc s))) (prepared env i is pid s) of
        (Inl Panic, s2) \<Rightarrow> (Inl Panic, s2)
      | (Inl e, s2) \<Rightarrow> (Inl e, give_back True False i s2)
      | (Inr _, s2) \<Rightarrow> (case kds_buf_register_frame env i (clear_dirty i s2) of
            (Inr _, s3) \<Rightarrow> (Inr i, s3) | (Inl e, s3) \<Rightarrow> (Inl e, give_back True True i s3)))"
proof -
  have t: "(taken i is pid s)\<lparr>nalloc := a\<rparr> = upd_frame i (\<lambda>f. f\<lparr>fr_state := KDS_FRAME_LOADING, fr_page_id := pid\<rparr>)
     (s\<lparr>free_frames := is, nr_free := nr_free s - 1\<rparr>)\<lparr>nalloc := a\<rparr>" for a
    by (simp add: taken_def)
  show ?thesis
    using pool_wf_g_pool [OF wf] miss fr
    by (simp add: kds_buf_alloc_new_def kds_buf_lookup_def kds_buf_take_free_frame_def call_defs kalloc_eq
        t prepared_def new_page_def new_hdr_def new_kp_def clear_dirty_def Let_def
        split: prod.splits sum.splits failure.splits)
qed

lemma prepared_simps [simp]:
  "pmap (prepared env i is pid s) = pmap s" "free_frames (prepared env i is pid s) = is"
  "disk (prepared env i is pid s) = disk s" "pool_state.more (prepared env i is pid s) = pool_state.more s"
  "kds_bdev (prepared env i is pid s) = kds_bdev s"
  "j \<noteq> i \<Longrightarrow> pframes (prepared env i is pid s) j = pframes s j"
  "pframes (prepared env i is pid s) i = (pframes s i)\<lparr>fr_state := KDS_FRAME_LOADING, fr_page_id := pid,
     fr_page := Some (new_page env (Suc (nalloc s))),
     fr_kp := Some ((new_kp env (Suc (nalloc s)) pid)\<lparr>kp_hdr := new_hdr env (Suc (nalloc s))\<rparr>)\<rparr>"
  by (simp_all add: prepared_def)

lemma give_back_more [simp]: "pool_state.more (give_back a b i s) = pool_state.more s"
  by (simp add: give_back_def kds_buf_return_free_frame_def)

lemma pool_wf_id: "pool_wf s \<Longrightarrow> frame_id (pframes s i) = i"
  by (simp add: pool_wf_def)

lemma alloc_alone:
  fixes s :: "'z pool_state_scheme"
  assumes ps: "page_size_ok env" and wf: "pool_wf s" and miss: "pmap s pid = None"
    and run: "kds_buf_alloc_new env pid s = (r, s')"
  shows "r = Inl Panic \<or> pool_wf s' \<and> pool_state.more s' = pool_state.more s \<and> kds_bdev s' = kds_bdev s \<and>
    (case r of
       Inr i \<Rightarrow> i \<in> set (free_frames s) \<and> set (free_frames s') = set (free_frames s) - {i}
         \<and> pmap s' = (pmap s)(pid \<mapsto> i) \<and> (\<forall>j. j \<noteq> i \<longrightarrow> pframes s' j = pframes s j)
         \<and> fr_page (pframes s' i) = Some (new_page env (Suc (nalloc s)))
         \<and> fr_kp (pframes s' i) = Some ((new_kp env (Suc (nalloc s)) pid)\<lparr>kp_refcnt := 1\<rparr>)
         \<and> disk s' = wr (disk s) (sector_byte (kds_page_sector pid)) (rd (new_page env (Suc (nalloc s))) 0 KDS_PAGE_SIZE)
     | Inl e \<Rightarrow> (\<exists>x. e = Errno x) \<and> set (free_frames s') = set (free_frames s) \<and> pmap s' = pmap s
         \<and> (\<forall>j. j \<notin> set (free_frames s) \<longrightarrow> pframes s' j = pframes s j))"
proof (cases "free_frames s")
  case Nil
  then show ?thesis using alloc_full [OF wf miss Nil, of env] run wf by auto
next
  case (Cons i "is")
  let ?t = "taken i is pid s" and ?p = "prepared env i is pid s" and ?n = "Suc (nalloc s)"
  have i: "i < KDS_BUF_NR_FRAMES" using wf Cons by (rule pool_wf_free_bound)
  have di: "i \<notin> set is" using wf Cons by (simp add: pool_wf_def)
  have wft: "pool_wf ?t" unfolding taken_def using wf Cons by (rule pool_wf_take)
  have wfp: "pool_wf ?p"
    using wft pool_wf_id [OF wf, of i] unfolding prepared_def by (intro pool_wf_loading) auto
  note M = alloc_miss [OF wf miss Cons, of env]
  have gb: "pool_wf (give_back a b i (?t\<lparr>nalloc := k\<rparr>))" for a b k
    by (rule pool_wf_give_back) (use wft i in auto)
  show ?thesis
  proof (cases "ke_alloc_ok env (nalloc s) \<and> ke_alloc_ok env ?n \<and> kds_bdev s")
    case False
    then show ?thesis
      using M run gb Cons by (auto split: if_splits)
  next
    case True
    obtain r2 s2 where w: "kds_write_logical_page env (kds_page_sector pid) (new_page env ?n) ?p = (r2, s2)" by fastforce
    note c = write_logical_cases [OF ps w]
    note sd = same_dev_pool [of ?p s2]
    have more: "pool_state.more s2 = pool_state.more s" using c by (auto simp: same_dev_def)
    show ?thesis
    proof (cases r2)
      case (Inl e)
      then show ?thesis using M True w c run by auto
    next
      case (Inr u)
      let ?s2 = "clear_dirty i s2"
      have d: "disk s2 = wr (disk s) (sector_byte (kds_page_sector pid)) (rd (new_page env ?n) 0 KDS_PAGE_SIZE)"
        using c Inr by simp
      have wf2: "pool_wf s2" using c sd wfp pool_wf_cong [of s2 ?p] by simp
      have f2: "pframes ?s2 i = (pframes s i)\<lparr>fr_state := KDS_FRAME_LOADING, fr_page_id := pid,
          fr_page := Some (new_page env ?n), fr_kp := Some (new_kp env ?n pid)\<rparr>"
        using c sd by (simp add: clear_dirty_def new_kp_def new_hdr_def alloc_flags)
      have wf2': "pool_wf ?s2"
        unfolding clear_dirty_def using wf2 c sd pool_wf_id [OF wf, of i] by (intro pool_wf_loading) auto
      have o2: "pmap ?s2 = pmap s" "free_frames ?s2 = is" "disk ?s2 = disk s2" "pool_state.more ?s2 = pool_state.more s"
        "kds_bdev ?s2 = kds_bdev s" "\<And>j. j \<noteq> i \<Longrightarrow> pframes ?s2 j = pframes s j"
        using c sd more by (simp_all add: clear_dirty_def)
      obtain r3 s3 where rg: "kds_buf_register_frame env i ?s2 = (r3, s3)" by fastforce
      have R: "case r3 of
          Inl e \<Rightarrow> (\<exists>x. e = Errno x) \<and> s3 = ?s2\<lparr>nalloc := Suc (nalloc ?s2)\<rparr> \<and> (e = Errno EEXIST \<longrightarrow> pmap ?s2 pid \<noteq> None \<or>
              ke_rht_insert env (Suc (nalloc ?s2)) = Some EEXIST)
        | Inr _ \<Rightarrow> pool_wf s3 \<and> pmap ?s2 pid = None \<and> pmap s3 = (pmap ?s2)(pid \<mapsto> i)
            \<and> (\<forall>j. j \<noteq> i \<longrightarrow> pframes s3 j = pframes ?s2 j)
            \<and> pframes s3 i = (pframes ?s2 i)\<lparr>fr_state := KDS_FRAME_VALID, fr_kp := map_option pin_kpage (fr_kp (pframes ?s2 i))\<rparr>
            \<and> free_frames s3 = free_frames ?s2 \<and> disk s3 = disk ?s2 \<and> kds_bdev s3 = kds_bdev ?s2
            \<and> pool_state.more s3 = pool_state.more ?s2"
        by (rule register_cases [OF wf2' i _ _ _ rg]) (simp_all add: f2 frame_loaded_def new_kp_def)
      show ?thesis
      proof (cases r3)
        case r3: (Inr v)
        then have "r = Inr i" "s' = s3" using M True w Inr rg run by auto
        then show ?thesis using R r3 o2 f2 d Cons di by (auto simp: pin_kpage_def new_kp_def)
      next
        case r3: (Inl e)
        then have rs: "r = Inl e" "s' = give_back True True i s3" using M True w Inr rg run by auto
        have s3: "s3 = ?s2\<lparr>nalloc := Suc (nalloc ?s2)\<rparr>" and e: "\<exists>x. e = Errno x" using R r3 by auto
        have "pool_wf (give_back True True i s3)" by (rule pool_wf_give_back) (use s3 wf2' f2 i in auto)
        moreover have "pool_state.more (give_back True True i s3) = pool_state.more s" "kds_bdev (give_back True True i s3) = kds_bdev s"
          using o2 s3 by simp_all
        ultimately show ?thesis using rs e s3 o2 Cons by auto
      qed
    qed
  qed
qed

lemma alloc_good:
  fixes s :: "'z pool_state_scheme"
  assumes good: "env_good env" and wf: "pool_wf s" and miss: "pmap s pid = None" and fr: "free_frames s \<noteq> []"
    and b: "kds_bdev s"
  shows "\<exists>i s'. kds_buf_alloc_new env pid s = (Inr i, s')"
proof -
  obtain i "is" where Cons: "free_frames s = i # is" using fr by (cases "free_frames s") auto
  have al: "ke_alloc_ok env n" "ke_rht_insert env n = None" for n using good by (simp_all add: env_good_def)
  obtain s2 where w: "kds_write_logical_page env (kds_page_sector pid) (new_page env (Suc (nalloc s))) (prepared env i is pid s) = (Inr (), s2)"
    using write_logical_good [OF good, of "prepared env i is pid s"] b by auto
  note c = write_logical_cases [OF env_good_page_size [OF good] w]
  have f: "pframes s2 = pframes (prepared env i is pid s)" "pmap s2 = pmap s" using c same_dev_pool [of "prepared env i is pid s" s2] by auto
  have "\<exists>u. kds_buf_register_frame env i (clear_dirty i s2) = (Inr (), u)"
    using f miss by (simp add: kds_buf_register_frame_def call_defs kalloc_eq al Let_def kds_buf_pin_def clear_dirty_def)
  then show ?thesis using alloc_miss [OF wf miss Cons, of env] al b w by auto
qed

section \<open>Flushing every dirty frame\<close>

lemma pin_unpin_flush:
  fixes s :: "'z pool_state_scheme"
  assumes ps: "page_size_ok env" and wf: "pool_wf s" and v: "pmap s p = Some i"
    and run: "flush_frames env (i # is) s = (Inr (), s')" and d: "frame_dirty (pframes s i)"
  shows "\<exists>t. flush_frames env is t = (Inr (), s') \<and> pool_wf t \<and> pmap t = pmap s \<and> only_frame i s t
    \<and> \<not> frame_dirty (pframes t i)
    \<and> (\<exists>pg. fr_page (pframes t i) = Some pg \<and> disk_page (disk t) p = rd pg 0 KDS_PAGE_SIZE)
    \<and> (\<forall>q. unat p < 2 ^ 60 \<longrightarrow> unat q < 2 ^ 60 \<longrightarrow> q \<noteq> p \<longrightarrow> disk_page (disk t) q = disk_page (disk s) q)"
proof -
  obtain kp where kp: "fr_kp (pframes s i) = Some kp"
    "kds_buf_pin i s = (Inr (), upd_frame i (\<lambda>f. f\<lparr>fr_kp := Some (pin_kpage kp)\<rparr>) s)"
    "pool_wf (upd_frame i (\<lambda>f. f\<lparr>fr_kp := Some (pin_kpage kp)\<rparr>) s)"
    using pin_ok [OF wf v] by auto
  define s1 where "s1 = upd_frame i (\<lambda>f. f\<lparr>fr_kp := Some (pin_kpage kp)\<rparr>) s"
  have v1: "pmap s1 p = Some i" and wf1: "pool_wf s1" using v kp(3) by (simp_all add: s1_def)
  have d1: "frame_dirty (pframes s1 i)" using d kp(1) by (simp add: s1_def frame_dirty_def pin_kpage_def)
  obtain kp1 pg1 where k1: "fr_kp (pframes s1 i) = Some kp1" "fr_page (pframes s1 i) = Some pg1"
    using pool_wf_map(4) [OF wf1 v1] by (auto simp: frame_loaded_def)
  obtain r2 s2 where fl: "kds_frame_flush env i s1 = (r2, s2)" by fastforce
  note c = flush_cases [OF ps k1 d1 fl]
  have st: "fr_state (pframes s i) = KDS_FRAME_VALID" using pool_wf_map(2) [OF wf v] .
  have run2: "(case r2 of Inl Panic \<Rightarrow> (Inl Panic, s2) | Inl Fault \<Rightarrow> (Inl Fault, s2)
      | _ \<Rightarrow> sbind (kds_buf_unpin i) (\<lambda>_. flush_frames env is) s2) = (Inr (), s')"
    using run st kp d fl by (simp add: call_defs s1_def [symmetric] split: sum.splits failure.splits)
  have r2: "r2 = Inr ()"
    using c run2 by auto
  note F = flush_wf [OF ps wf1 v1 fl [unfolded r2]]
  obtain kp2 pg2 where k2: "fr_kp (pframes s2 i) = Some kp2" "fr_page (pframes s2 i) = Some pg2" "kp_id kp2 = p"
    using pool_wf_map(4) [OF F(1), of p i] F(2) v1 by (auto simp: frame_loaded_def)
  define t where "t = upd_frame i (\<lambda>f. f\<lparr>fr_kp := Some (unpin_kpage kp2)\<rparr>) s2"
  have "flush_frames env is t = (Inr (), s')"
    using run2 r2 k2(1) by (simp add: call_defs kds_buf_unpin_def t_def)
  moreover have "pool_wf t"
    unfolding t_def using F(1) k2 pool_wf_map [OF F(1), of p i] F(2) v1
      pool_wf_id [OF F(1), of i]
    by (intro pool_wf_touch) (auto simp: frame_loaded_def unpin_kpage_def)
  moreover have "only_frame i s t" using F(6) by (auto simp: t_def s1_def only_frame_def)
  moreover have "\<not> frame_dirty (pframes t i)"
    using F(3) k2(1) by (simp add: t_def frame_dirty_def unpin_kpage_def)
  moreover have "pmap t = pmap s" using F(2) by (simp add: t_def s1_def)
  moreover have "\<exists>pg. fr_page (pframes t i) = Some pg \<and> disk_page (disk t) p = rd pg 0 KDS_PAGE_SIZE"
    using F(4) [OF d1] by (simp add: t_def)
  moreover have "disk_page (disk t) q = disk_page (disk s) q" if "unat p < 2 ^ 60" "unat q < 2 ^ 60" "q \<noteq> p" for q
    using F(5) [OF that] by (simp add: t_def s1_def)
  ultimately show ?thesis by blast
qed

definition ids_in_range :: "'z pool_state_scheme \<Rightarrow> bool" where
  "ids_in_range s \<longleftrightarrow> (\<forall>p \<in> dom (pmap s). unat p < 2 ^ 60)"

lemma valid_of_map: "pool_wf s \<Longrightarrow> pmap s p = Some i \<Longrightarrow> fr_kp (pframes s i) \<noteq> None"
  using pool_wf_map(4) by (fastforce simp: frame_loaded_def)

definition flushed :: "'z pool_state_scheme \<Rightarrow> 'z pool_state_scheme \<Rightarrow> u64 \<Rightarrow> nat \<Rightarrow> bool" where
  "flushed s s' p i \<longleftrightarrow> \<not> frame_dirty (pframes s' i) \<and> (frame_dirty (pframes s i) \<longrightarrow>
     (\<exists>pg. fr_page (pframes s' i) = Some pg \<and> disk_page (disk s') p = rd pg 0 KDS_PAGE_SIZE))"

lemma flush_frames_ok:
  fixes s :: "'z pool_state_scheme"
  assumes ps: "page_size_ok env"
  shows "distinct is \<Longrightarrow> set is \<subseteq> {..<KDS_BUF_NR_FRAMES} \<Longrightarrow> pool_wf s \<Longrightarrow> ids_in_range s \<Longrightarrow>
    flush_frames env is s = (Inr (), s') \<Longrightarrow>
    pool_wf s' \<and> pmap s' = pmap s \<and> (\<forall>j. j \<notin> set is \<longrightarrow> pframes s' j = pframes s j)
    \<and> (\<forall>p i. pmap s p = Some i \<longrightarrow> i \<in> set is \<longrightarrow> flushed s s' p i)
    \<and> (\<forall>q. unat q < 2 ^ 60 \<longrightarrow> (\<forall>i \<in> set is. pmap s q \<noteq> Some i) \<longrightarrow> disk_page (disk s') q = disk_page (disk s) q)"
proof (induction "is" arbitrary: s)
  case Nil
  then show ?case by (simp add: call_defs)
next
  case (Cons i "is")
  show ?case
  proof (cases "fr_state (pframes s i) = KDS_FRAME_VALID \<and> fr_kp (pframes s i) \<noteq> None \<and> frame_dirty (pframes s i)")
    case False
    then have "flush_frames env is s = (Inr (), s')" using Cons.prems(5) by (auto simp: call_defs)
    note IH = Cons.IH [OF _ _ Cons.prems(3,4) this]
    have nd: "\<not> frame_dirty (pframes s i)" if "pmap s p = Some i" for p
      using False pool_wf_map(2) [OF Cons.prems(3) that] valid_of_map [OF Cons.prems(3) that] by auto
    show ?thesis using IH Cons.prems(1,2) nd by (auto simp: flushed_def)
  next
    case True
    define p where "p = fr_page_id (pframes s i)"
    have i: "i < KDS_BUF_NR_FRAMES" using Cons.prems(2) by simp
    have v: "pmap s p = Some i" unfolding p_def using pool_wf_valid [OF Cons.prems(3) i] True by simp
    obtain t where t: "flush_frames env is t = (Inr (), s')" "pool_wf t" "pmap t = pmap s" "only_frame i s t"
      "\<not> frame_dirty (pframes t i)"
      "\<exists>pg. fr_page (pframes t i) = Some pg \<and> disk_page (disk t) p = rd pg 0 KDS_PAGE_SIZE"
      "\<forall>q. unat p < 2 ^ 60 \<longrightarrow> unat q < 2 ^ 60 \<longrightarrow> q \<noteq> p \<longrightarrow> disk_page (disk t) q = disk_page (disk s) q"
      using pin_unpin_flush [OF ps Cons.prems(3) v Cons.prems(5)] True by blast
    have rt: "ids_in_range t" using Cons.prems(4) t(3) by (simp add: ids_in_range_def)
    have pr: "unat p < 2 ^ 60" using Cons.prems(4) v by (auto simp: ids_in_range_def dom_def)
    have IH: "pool_wf s' \<and> pmap s' = pmap t \<and> (\<forall>j. j \<notin> set is \<longrightarrow> pframes s' j = pframes t j)
      \<and> (\<forall>p i. pmap t p = Some i \<longrightarrow> i \<in> set is \<longrightarrow> flushed t s' p i)
      \<and> (\<forall>q. unat q < 2 ^ 60 \<longrightarrow> (\<forall>i \<in> set is. pmap t q \<noteq> Some i) \<longrightarrow> disk_page (disk s') q = disk_page (disk t) q)"
      by (rule Cons.IH [OF _ _ t(2) rt t(1)]) (use Cons.prems in auto)
    have fi: "pframes s' i = pframes t i" using IH Cons.prems(1) by auto
    have "disk_page (disk s') p = disk_page (disk t) p" using IH pr v t(3) Cons.prems(1) by auto
    then have mine: "flushed s s' p i" using t(5,6) fi by (simp add: flushed_def)
    have uniq: "p' = p" if "pmap s p' = Some i" for p'
      using pool_wf_map(3) [OF Cons.prems(3) that] p_def by simp
    have others: "flushed s s' q j" if "pmap s q = Some j" "j \<in> set is" for q j
      using IH that t(3,4) Cons.prems(1) by (auto simp: flushed_def only_frame_def)
    have disk: "disk_page (disk s') q = disk_page (disk s) q" if "unat q < 2 ^ 60" "\<forall>i \<in> set (i # is). pmap s q \<noteq> Some i" for q
      using IH t(3,7) that pr v by auto
    show ?thesis
      using IH t(3,4) mine uniq others disk by (auto simp: only_frame_def)
  qed
qed

lemma flush_frames_progress:
  fixes s :: "'z pool_state_scheme"
  assumes good: "env_good env"
  shows "set is \<subseteq> {..<KDS_BUF_NR_FRAMES} \<Longrightarrow> pool_wf s \<Longrightarrow> kds_bdev s \<Longrightarrow> \<exists>s'. flush_frames env is s = (Inr (), s')"
proof (induction "is" arbitrary: s)
  case Nil
  then show ?case by (simp add: call_defs)
next
  case (Cons i "is")
  show ?case
  proof (cases "fr_state (pframes s i) = KDS_FRAME_VALID \<and> fr_kp (pframes s i) \<noteq> None \<and> frame_dirty (pframes s i)")
    case False
    then show ?thesis using Cons by (auto simp: call_defs)
  next
    case True
    have v: "pmap s (fr_page_id (pframes s i)) = Some i" using pool_wf_valid [OF Cons.prems(2)] Cons.prems(1) True by simp
    obtain kp pg where kp: "fr_kp (pframes s i) = Some kp" "fr_page (pframes s i) = Some pg"
      using pool_wf_map(4) [OF Cons.prems(2) v] by (auto simp: frame_loaded_def)
    define s1 where "s1 = upd_frame i (\<lambda>f. f\<lparr>fr_kp := Some (pin_kpage kp)\<rparr>) s"
    have s1: "kds_buf_pin i s = (Inr (), s1)" "pool_wf s1" using pin_ok [OF Cons.prems(2) v] kp by (auto simp: s1_def)
    have d1: "frame_dirty (pframes s1 i)" using True kp by (simp add: s1_def frame_dirty_def pin_kpage_def)
    obtain r2 s2 where fl: "kds_frame_flush env i s1 = (r2, s2)" by fastforce
    have "\<exists>s2. kds_frame_flush env i s1 = (Inr (), s2)"
    proof -
      have "\<exists>u. kds_write_logical_page env sec q (upd_frame i g s1) = (Inr (), u)" for sec q g
        by (rule write_logical_good [OF good]) (simp add: s1_def Cons.prems(3))
      then obtain u where "kds_write_logical_page env (kds_page_sector (fr_page_id (pframes s1 i))) (wr pg 0 (enc_page_hdr (kp_hdr (pin_kpage kp))))
          (upd_frame i (\<lambda>f. f\<lparr>fr_page := Some (wr pg 0 (enc_page_hdr (kp_hdr (pin_kpage kp))))\<rparr>) s1) = (Inr (), u)" by blast
      then show ?thesis using d1 kp by (simp add: kds_frame_flush_def call_defs s1_def Let_def)
    qed
    with fl have r2: "r2 = Inr ()" by simp
    have v1: "pmap s1 (fr_page_id (pframes s i)) = Some i" using v by (simp add: s1_def)
    note F = flush_wf [OF env_good_page_size [OF good] s1(2) v1 fl [unfolded r2]]
    obtain kp2 pg2 where k2: "fr_kp (pframes s2 i) = Some kp2" "fr_page (pframes s2 i) = Some pg2" "kp_id kp2 = fr_page_id (pframes s i)"
      using pool_wf_map(4) [OF F(1), of "fr_page_id (pframes s i)" i] F(2) v1 by (auto simp: frame_loaded_def)
    define t where "t = upd_frame i (\<lambda>f. f\<lparr>fr_kp := Some (unpin_kpage kp2)\<rparr>) s2"
    have "pool_wf t"
      unfolding t_def using F(1) k2 pool_wf_map [OF F(1), of "fr_page_id (pframes s i)" i] F(2) v1 pool_wf_id [OF F(1), of i]
      by (intro pool_wf_touch) (auto simp: frame_loaded_def unpin_kpage_def)
    moreover have "kds_bdev t" using F(6) Cons.prems(3) by (simp add: t_def s1_def only_frame_def)
    ultimately obtain s' where "flush_frames env is t = (Inr (), s')" using Cons.IH [of t] Cons.prems(1) by auto
    then show ?thesis
      using True kp(1) s1(1) fl r2 k2(1) by (simp add: call_defs kds_buf_unpin_def t_def)
  qed
qed

section \<open>The contract of the page cache\<close>

text \<open>
  What the allocator, the catalog and the access methods rely on: a page id has at most one frame, a frame
  serves at most one page id, loading keeps what is cached, and allocating succeeds only for an id that is
  not cached.
\<close>

locale page_cache =
  fixes inv :: "'s \<Rightarrow> bool"
    and cached :: "'s \<Rightarrow> u64 \<rightharpoonup> nat"
    and load :: "u64 \<Rightarrow> ('s, nat) call"
    and alloc :: "u64 \<Rightarrow> ('s, nat) call"
  assumes load_inv: "inv s \<Longrightarrow> load p s = (r, s') \<Longrightarrow> inv s' \<and> (\<forall>i. r = Inr i \<longrightarrow> cached s' p = Some i)
      \<and> cached s \<subseteq>\<^sub>m cached s'"
    and alloc_inv: "inv s \<Longrightarrow> alloc p s = (Inr i, s') \<Longrightarrow> inv s' \<and> cached s p = None \<and> cached s' = (cached s)(p \<mapsto> i)"
    and cached_inj: "inv s \<Longrightarrow> cached s p = Some i \<Longrightarrow> cached s q = Some i \<Longrightarrow> p = q"
begin

lemma load_stable:
  assumes "inv s" and "load p s = (Inr i, s1)" and "load q s1 = (r, s2)" and "load p s2 = (Inr j, s3)"
  shows "i = j"
proof -
  have 1: "inv s1" "cached s1 p = Some i" using load_inv [OF assms(1,2)] by auto
  have 2: "inv s2" "cached s2 p = Some i" using load_inv [OF 1(1) assms(3)] 1(2) by (auto simp: map_le_def dom_def)
  have "cached s3 p = Some i \<and> cached s3 p = Some j"
    using load_inv [OF 2(1) assms(4)] 2(2) by (auto simp: map_le_def dom_def)
  then show ?thesis by auto
qed

lemma load_after_alloc:
  assumes "inv s" and "alloc p s = (Inr i, s1)" and "load p s1 = (Inr j, s2)"
  shows "i = j"
  using alloc_inv [OF assms(1,2)] load_inv [OF _ assms(3)] by (auto simp: map_le_def dom_def split: if_splits)

lemma alloc_once:
  assumes "inv s" and "alloc p s = (Inr i, s1)" and "load q s1 = (r, s2)"
  shows "alloc p s2 \<noteq> (Inr j, s3)"
  using alloc_inv [OF assms(1,2)] load_inv [OF _ assms(3)] alloc_inv [of s2 p j s3]
  by (auto simp: map_le_def dom_def split: if_splits)

lemma alloc_fresh_frame:
  assumes "inv s" and "alloc p s = (Inr i, s1)" and "q \<noteq> p"
  shows "cached s q \<noteq> Some i"
  using alloc_inv [OF assms(1,2)] cached_inj [of s1 p i q] assms(3) by auto

end

lemma load_keeps_cached:
  assumes "page_size_ok env" and "pool_wf s" and "kds_buf_lookup_or_load env (\<lambda>s. s) p s = (r, s')"
  shows "pmap s \<subseteq>\<^sub>m pmap s'"
proof (cases "pmap s p")
  case None
  then show ?thesis
    using load_alone [OF assms(1,2) None assms(3)] by (auto simp: map_le_def split: sum.splits)
next
  case (Some i)
  then show ?thesis
    using load_hit [OF assms(2) Some, of env] lookup_cases [OF assms(2), of p] assms(3)
    by (cases "kds_buf_lookup p s") (auto simp: only_frame_def)
qed

interpretation buf_pool: page_cache "\<lambda>s. page_size_ok env \<and> pool_wf s" pmap
  "kds_buf_lookup_or_load env (\<lambda>s. s)" "kds_buf_alloc_new env" for env :: kenv
proof unfold_locales
  fix p :: u64 and r i and s s' :: "'z pool_state_scheme"
  assume inv: "page_size_ok env \<and> pool_wf s"
  { assume l: "kds_buf_lookup_or_load env (\<lambda>s. s) p s = (r, s')"
    show "(page_size_ok env \<and> pool_wf s') \<and> (\<forall>i. r = Inr i \<longrightarrow> pmap s' p = Some i) \<and> pmap s \<subseteq>\<^sub>m pmap s'"
      using load_wf [OF _ _ _ l] load_keeps_cached [OF _ _ l] inv by (auto split: sum.splits) }
  { assume a: "kds_buf_alloc_new env p s = (Inr i, s')"
    have miss: "pmap s p = None" using alloc_cached [of s p] inv a by (cases "pmap s p") auto
    show "(page_size_ok env \<and> pool_wf s') \<and> pmap s p = None \<and> pmap s' = (pmap s)(p \<mapsto> i)"
      using alloc_alone [OF _ _ miss a] inv miss by auto }
  { fix q assume "pmap s p = Some i" "pmap s q = Some i"
    then show "p = q" using pool_wf_map(3) inv by metis }
qed

section \<open>Properties\<close>

definition demo_pool :: pool_state where
  "demo_pool = snd (kds_buf_pool_init demo_env \<lparr>kds_bdev = True, kds_bdev_filp = True, disk = (\<lambda>_. 0), nalloc = 0,
     nio = 0, g_pool = False, pframes = init_frame, pmap = Map.empty, free_frames = [], nr_free = 0\<rparr>)"

lemma nr_frames_pos: "0 < KDS_BUF_NR_FRAMES"
  by (simp add: KDS_BUF_NR_FRAMES_def)

lemma all_frames: "set [0 ..< KDS_BUF_NR_FRAMES] \<subseteq> {..<KDS_BUF_NR_FRAMES}" "distinct [0 ..< KDS_BUF_NR_FRAMES]"
  by auto

lemma demo_pool_facts:
  "pool_wf demo_pool" "pmap demo_pool = Map.empty" "free_frames demo_pool = 0 # [1 ..< KDS_BUF_NR_FRAMES]" "kds_bdev demo_pool"
  "disk demo_pool = (\<lambda>_. 0)"
proof -
  let ?s = "\<lparr>kds_bdev = True, kds_bdev_filp = True, disk = (\<lambda>_. 0), nalloc = 0,
     nio = 0, g_pool = False, pframes = init_frame, pmap = Map.empty, free_frames = [], nr_free = 0\<rparr> :: pool_state"
  have "kds_buf_pool_init demo_env ?s = (Inr (), demo_pool)"
    by (simp add: demo_pool_def kds_buf_pool_init_def call_defs kalloc_def demo_env_def)
  from pool_init_wf [OF this] show "pool_wf demo_pool" "pmap demo_pool = Map.empty" "disk demo_pool = (\<lambda>_. 0)"
    "free_frames demo_pool = 0 # [1 ..< KDS_BUF_NR_FRAMES]"
    using upt_conv_Cons [OF nr_frames_pos] by simp_all
  show "kds_bdev demo_pool"
    by (simp add: demo_pool_def kds_buf_pool_init_def call_defs kalloc_def demo_env_def)
qed

text \<open>C11: \<^verbatim>\<open>kds_buf_lookup_or_load\<close> keeps the pool well-formed whatever other threads do between its disk read and
  its registration, as long as they keep the pool well-formed and leave the frame being loaded alone; on
  success the page id is mapped to the returned frame, on failure an error code is returned.\<close>

theorem pool_load_invariant:
  assumes "page_size_ok env" and "pool_wf s" and "rely oth" and "kds_buf_lookup_or_load env oth pid s = (r, s')"
  shows "pool_wf s' \<and> (case r of Inr i \<Rightarrow> pmap s' pid = Some i | Inl e \<Rightarrow> \<exists>x. e = Errno x)"
  using assms by (rule load_wf)

lemma demo_load: "\<exists>i s'. kds_buf_lookup_or_load demo_env (\<lambda>s. s) 130 demo_pool = (Inr i, s') \<and> kds_bdev s'"
proof -
  let ?t = "taken 0 [1 ..< KDS_BUF_NR_FRAMES] 130 demo_pool"
  obtain pg u where rd: "kds_read_logical_page demo_env (kds_page_sector 130) (?t\<lparr>nalloc := Suc (nalloc ?t)\<rparr>) = (Inr pg, u)"
    using read_logical_good [OF demo_env_good, of "?t\<lparr>nalloc := Suc (nalloc ?t)\<rparr>" "kds_page_sector 130"]
      demo_pool_facts(4) by auto
  have al: "ke_alloc_ok demo_env n" "ke_rht_insert demo_env n = None" for n by (simp_all add: demo_env_def)
  obtain v where rd2: "kds_frame_read_from_disk demo_env 0 130 ?t = (Inr (), v)"
    using rd demo_pool_facts(4) by (simp add: kds_frame_read_from_disk_def call_defs kalloc_eq al)
  note c = read_from_disk_cases [OF env_good_page_size [OF demo_env_good] rd2]
  have "\<exists>w. kds_buf_register_frame demo_env 0 v = (Inr (), w) \<and> kds_bdev w"
    using c demo_pool_facts(2,4) by (auto simp: kds_buf_register_frame_def call_defs kalloc_eq al Let_def kds_buf_pin_def only_frame_def)
  then show ?thesis
    using load_miss [OF demo_pool_facts(1) _ demo_pool_facts(3), of 130 demo_env "\<lambda>s. s"] rd2 demo_pool_facts(2) by auto
qed

theorem pool_load_invariant_witness:
  "\<exists>i s'. kds_buf_lookup_or_load demo_env (\<lambda>s. s) 130 demo_pool = (Inr i, s') \<and> pool_wf s' \<and> pmap s' 130 = Some i"
  using demo_load pool_load_invariant [OF env_good_page_size [OF demo_env_good] demo_pool_facts(1) rely_id(2), of 130]
  by fastforce

text \<open>A load of a page that is not cached, run alone, either takes one free frame and fills it with the page's
  bytes on disk, its header decoded from them and one pin, or fails and leaks nothing: the same frames are
  free, the same pages are cached, and no frame in use has changed. The disk is never changed.\<close>

theorem load_reads_disk:
  assumes "page_size_ok env" and "pool_wf s" and "pmap s pid = None"
    and "kds_buf_lookup_or_load env (\<lambda>s. s) pid s = (r, s')"
  shows "disk s' = disk s \<and>
    (case r of
       Inr i \<Rightarrow> i \<in> set (free_frames s) \<and> set (free_frames s') = set (free_frames s) - {i}
         \<and> pmap s' = (pmap s)(pid \<mapsto> i) \<and> (\<forall>j. j \<noteq> i \<longrightarrow> pframes s' j = pframes s j)
         \<and> (\<exists>pg. fr_page (pframes s' i) = Some pg \<and> rd pg 0 KDS_PAGE_SIZE = disk_page (disk s) pid
            \<and> fr_kp (pframes s' i) = Some \<lparr>kp_id = pid, kp_hdr = dec_page_hdr (rd pg 0 KDS_PAGE_HDR_SIZE), kp_refcnt = 1\<rparr>)
     | Inl e \<Rightarrow> set (free_frames s') = set (free_frames s) \<and> pmap s' = pmap s
         \<and> (\<forall>j. j \<notin> set (free_frames s) \<longrightarrow> pframes s' j = pframes s j))"
  using load_alone [OF assms] by simp

theorem load_reads_disk_witness:
  "\<exists>i s'. kds_buf_lookup_or_load demo_env (\<lambda>s. s) 130 demo_pool = (Inr i, s') \<and> disk s' = (\<lambda>_. 0) \<and> pmap s' = [130 \<mapsto> i]"
proof -
  obtain i s' where l: "kds_buf_lookup_or_load demo_env (\<lambda>s. s) 130 demo_pool = (Inr i, s')" using demo_load by blast
  show ?thesis
    using l load_reads_disk [OF env_good_page_size [OF demo_env_good] demo_pool_facts(1) _ l] demo_pool_facts by simp
qed

text \<open>\<^verbatim>\<open>kds_buf_alloc_new\<close> refuses a cached page id with EEXIST and changes nothing; otherwise, unless a failed
  disk write panics, it either fails and leaks nothing or registers a zeroed page with only ALLOC set, pinned
  once, whose image with its header is already on disk.\<close>

theorem alloc_new_correct:
  assumes "page_size_ok env" and "pool_wf s" and "kds_buf_alloc_new env pid s = (r, s')"
  shows "if pmap s pid \<noteq> None then r = fails EEXIST \<and> s' = s
    else r = Inl Panic \<or> pool_wf s' \<and>
    (case r of
       Inr i \<Rightarrow> pmap s' = (pmap s)(pid \<mapsto> i) \<and> (\<forall>j. j \<noteq> i \<longrightarrow> pframes s' j = pframes s j)
         \<and> fr_page (pframes s' i) = Some (new_page env (Suc (nalloc s)))
         \<and> fr_kp (pframes s' i) = Some ((new_kp env (Suc (nalloc s)) pid)\<lparr>kp_refcnt := 1\<rparr>)
         \<and> disk_page (disk s') pid = rd (new_page env (Suc (nalloc s))) 0 KDS_PAGE_SIZE
     | Inl e \<Rightarrow> set (free_frames s') = set (free_frames s) \<and> pmap s' = pmap s)"
proof (cases "pmap s pid")
  case None
  then show ?thesis
    using alloc_alone [OF assms(1,2) None assms(3)] by (auto simp: disk_page_write_same split: sum.splits)
next
  case (Some i)
  then show ?thesis using alloc_cached [OF assms(2) Some, of env] assms(3) by simp
qed

theorem alloc_new_correct_witness:
  "\<exists>i s1. kds_buf_lookup_or_load demo_env (\<lambda>s. s) 130 demo_pool = (Inr i, s1)
     \<and> kds_buf_alloc_new demo_env 130 s1 = (fails EEXIST, s1)"
proof -
  obtain i s1 where l: "kds_buf_lookup_or_load demo_env (\<lambda>s. s) 130 demo_pool = (Inr i, s1)" using demo_load by blast
  note w = load_wf [OF env_good_page_size [OF demo_env_good] demo_pool_facts(1) rely_id(2) l]
  obtain r s2 where a: "kds_buf_alloc_new demo_env 130 s1 = (r, s2)" by fastforce
  show ?thesis using l a w alloc_new_correct [OF env_good_page_size [OF demo_env_good] _ a] by auto
qed

text \<open>C3: On a well-formed pool whose cached page ids are below \<open>2 ^ 60\<close> (the sector of a larger one does not fit its type), whenever \<^verbatim>\<open>kds_buf_flush_dirty_frames\<close> returns, the same pages are cached, none of them is dirty, and every page that was dirty is on disk exactly as it is in its frame; and with an open device and a kernel that fails nothing it does return.\<close>

theorem flush_all_durable:
  assumes "page_size_ok env" and "pool_wf s" and "ids_in_range s"
  shows "(\<forall>s'. kds_buf_flush_dirty_frames env s = (Inr (), s') \<longrightarrow> pool_wf s' \<and> pmap s' = pmap s
      \<and> (\<forall>p i. pmap s p = Some i \<longrightarrow> \<not> frame_dirty (pframes s' i) \<and>
          (frame_dirty (pframes s i) \<longrightarrow> (\<exists>pg. fr_page (pframes s' i) = Some pg \<and> disk_page (disk s') p = rd pg 0 KDS_PAGE_SIZE))))
    \<and> (env_good env \<and> kds_bdev s \<longrightarrow> (\<exists>s'. kds_buf_flush_dirty_frames env s = (Inr (), s')))"
proof (intro conjI allI impI)
  fix s' assume "kds_buf_flush_dirty_frames env s = (Inr (), s')"
  then have "flush_frames env [0 ..< KDS_BUF_NR_FRAMES] s = (Inr (), s')"
    using pool_wf_g_pool [OF assms(2)] by (simp add: kds_buf_flush_dirty_frames_def call_defs)
  note F = flush_frames_ok [OF assms(1) all_frames(2,1) assms(2,3) this]
  show "pool_wf s'" "pmap s' = pmap s" using F by simp_all
  fix p i assume "pmap s p = Some i"
  then have "flushed s s' p i" using F pool_wf_map(1) [OF assms(2)] by simp
  then show "\<not> frame_dirty (pframes s' i)"
    "frame_dirty (pframes s i) \<Longrightarrow> \<exists>pg. fr_page (pframes s' i) = Some pg \<and> disk_page (disk s') p = rd pg 0 KDS_PAGE_SIZE"
    by (simp_all add: flushed_def)
next
  assume "env_good env \<and> kds_bdev s"
  then show "\<exists>s'. kds_buf_flush_dirty_frames env s = (Inr (), s')"
    using flush_frames_progress [OF _ all_frames(1) assms(2)] pool_wf_g_pool [OF assms(2)]
    by (auto simp: kds_buf_flush_dirty_frames_def call_defs)
qed

text \<open>The page 130, loaded and then changed.\<close>

definition demo_dirty :: pool_state where
  "demo_dirty = (case kds_buf_lookup_or_load demo_env (\<lambda>s. s) 130 demo_pool of
     (Inr i, s) \<Rightarrow> upd_frame i (\<lambda>f. f\<lparr>fr_kp := map_option kds_set_page_dirty (fr_kp f)\<rparr>) s | (Inl e, s) \<Rightarrow> s)"

lemma demo_dirty_facts:
  "\<exists>i. pool_wf demo_dirty \<and> pmap demo_dirty = [130 \<mapsto> i] \<and> frame_dirty (pframes demo_dirty i) \<and> kds_bdev demo_dirty"
proof -
  obtain i s where l: "kds_buf_lookup_or_load demo_env (\<lambda>s. s) 130 demo_pool = (Inr i, s)" "kds_bdev s" using demo_load by blast
  note g = env_good_page_size [OF demo_env_good]
  have wf: "pool_wf s" using load_wf [OF g demo_pool_facts(1) rely_id(2) l(1)] by simp
  note A = load_alone [OF g demo_pool_facts(1) _ l(1)]
  obtain kp pg where s: "pmap s = [130 \<mapsto> i]" "fr_kp (pframes s i) = Some kp" "fr_page (pframes s i) = Some pg"
    using A demo_pool_facts(2) by auto
  have d: "demo_dirty = upd_frame i (\<lambda>f. f\<lparr>fr_kp := map_option kds_set_page_dirty (fr_kp f)\<rparr>) s" by (simp add: demo_dirty_def l)
  have "pool_wf demo_dirty"
    unfolding d using pool_wf_id [OF wf, of i] by (intro pool_wf_touch [OF wf]) (auto simp: frame_loaded_def kds_set_page_dirty_def)
  moreover have "frame_dirty (pframes demo_dirty i)"
    using s by (simp add: d frame_dirty_def kds_set_page_dirty_def KDS_PAGE_FLAG_DIRTY_def)
  ultimately show ?thesis using s l(2) by (intro exI [of _ i]) (simp add: d)
qed

theorem flush_all_durable_witness:
  "\<exists>i s' pg. frame_dirty (pframes demo_dirty i) \<and> kds_buf_flush_dirty_frames demo_env demo_dirty = (Inr (), s') \<and> pmap s' = [130 \<mapsto> i]
    \<and> \<not> frame_dirty (pframes s' i) \<and> fr_page (pframes s' i) = Some pg \<and> disk_page (disk s') 130 = rd pg 0 KDS_PAGE_SIZE"
proof -
  obtain i where d: "pool_wf demo_dirty" "pmap demo_dirty = [130 \<mapsto> i]" "frame_dirty (pframes demo_dirty i)" "kds_bdev demo_dirty"
    using demo_dirty_facts by blast
  note T = flush_all_durable [OF env_good_page_size [OF demo_env_good] d(1)]
  show ?thesis using T d demo_env_good by (auto simp: ids_in_range_def)
qed

text \<open>A page id keeps its frame: once loaded, loading it again, with any other load in between, returns the same
  frame, and a page just allocated loads into the frame it was allocated in.\<close>

theorem cache_coherent:
  assumes "page_size_ok env" and "pool_wf s"
  shows "(kds_buf_lookup_or_load env (\<lambda>s. s) p s = (Inr i, s1) \<and> kds_buf_lookup_or_load env (\<lambda>s. s) q s1 = (r, s2)
       \<and> kds_buf_lookup_or_load env (\<lambda>s. s) p s2 = (Inr j, s3) \<longrightarrow> i = j)
    \<and> (kds_buf_alloc_new env p s = (Inr i, s1) \<and> kds_buf_lookup_or_load env (\<lambda>s. s) p s1 = (Inr j, s2) \<longrightarrow> i = j)"
  using buf_pool.load_stable [of env s p i s1 q r s2 j s3] buf_pool.load_after_alloc [of env s p i s1 j s2] assms by blast

theorem cache_coherent_witness:
  "\<exists>i j s1 s2 s3. kds_buf_lookup_or_load demo_env (\<lambda>s. s) 130 demo_pool = (Inr i, s1)
     \<and> kds_buf_lookup_or_load demo_env (\<lambda>s. s) 130 s1 = (Inr i, s2)
     \<and> kds_buf_lookup_or_load demo_env (\<lambda>s. s) 130 s2 = (Inr j, s3) \<and> i = j"
proof -
  note g = env_good_page_size [OF demo_env_good]
  obtain i s1 where 1: "kds_buf_lookup_or_load demo_env (\<lambda>s. s) 130 demo_pool = (Inr i, s1)" using demo_load by blast
  have w1: "pool_wf s1" "pmap s1 130 = Some i" using load_wf [OF g demo_pool_facts(1) rely_id(2) 1] by auto
  obtain s2 where 2: "kds_buf_lookup_or_load demo_env (\<lambda>s. s) 130 s1 = (Inr i, s2)" using load_hit [OF w1] by blast
  have w2: "pool_wf s2" "pmap s2 130 = Some i" using load_wf [OF g w1(1) rely_id(2) 2] by auto
  obtain j s3 where 3: "kds_buf_lookup_or_load demo_env (\<lambda>s. s) 130 s2 = (Inr j, s3)" using load_hit [OF w2] by blast
  show ?thesis using 1 2 3 cache_coherent [OF g demo_pool_facts(1)] by blast
qed

end
