(* ===== verification/Kds_Meta.thy ===== *)
theory Kds_Meta
  imports Kds_Page_Mgr
begin

text \<open>
  The superblock (\<^verbatim>\<open>kernel/kds/meta.c\<close>, \<^verbatim>\<open>include/linux/kds_meta.h\<close>): its layout as exactly one logical page,
  page-id counters, loading or initialising it at boot, writing it back, and shutdown. Atomic counters are
  64-bit words. \<open>superblock = None\<close> is the null pointer; \<open>sb_io_page\<close> is the I/O buffer.
\<close>

section \<open>State\<close>

definition SUPERBLOCK_MAGIC :: u64 where "SUPERBLOCK_MAGIC = 0x4B44424F"
definition KDS_VERSION :: u32 where "KDS_VERSION = 1"

record kds_superblock =
  magic :: u64
  version :: u32
  sb_reserved1 :: u32
  max_page_id :: u64
  last_commit_page_id :: u64
  create_time :: u64
  last_mount_time :: u64
  last_fsync_time :: u64
  total_pages :: u64
  free_pages :: u64
  alloc_point :: u64
  alloc_remaining :: u64
  sb_reserved2 :: "u8 list"

definition enc_superblock :: "kds_superblock \<Rightarrow> u8 list" where
  "enc_superblock b = enc64 (magic b) @ enc32 (version b) @ enc32 (sb_reserved1 b) @ enc64 (max_page_id b)
     @ enc64 (last_commit_page_id b) @ enc64 (create_time b) @ enc64 (last_mount_time b)
     @ enc64 (last_fsync_time b) @ enc64 (total_pages b) @ enc64 (free_pages b) @ enc64 (alloc_point b)
     @ enc64 (alloc_remaining b) @ sb_reserved2 b"

definition dec_superblock :: "u8 list \<Rightarrow> kds_superblock" where
  "dec_superblock bs =
     \<lparr>magic = dec64 (take 8 bs), version = dec32 (take 4 (drop 8 bs)), sb_reserved1 = dec32 (take 4 (drop 12 bs)),
      max_page_id = dec64 (take 8 (drop 16 bs)), last_commit_page_id = dec64 (take 8 (drop 24 bs)),
      create_time = dec64 (take 8 (drop 32 bs)), last_mount_time = dec64 (take 8 (drop 40 bs)),
      last_fsync_time = dec64 (take 8 (drop 48 bs)), total_pages = dec64 (take 8 (drop 56 bs)),
      free_pages = dec64 (take 8 (drop 64 bs)), alloc_point = dec64 (take 8 (drop 72 bs)),
      alloc_remaining = dec64 (take 8 (drop 80 bs)), sb_reserved2 = drop 88 bs\<rparr>"

definition superblock_valid :: "kds_superblock \<Rightarrow> bool" where
  "superblock_valid b \<longleftrightarrow> length (sb_reserved2 b) = 8104"

record meta_state = pool_state +
  superblock :: "kds_superblock option"
  sb_io_page :: "pagebuf option"
  g_fresh_init :: bool

section \<open>Page-id counters\<close>

definition assign_page_id :: "'z meta_state_scheme \<Rightarrow> u64 \<times> 'z meta_state_scheme" where
  "assign_page_id s = (case superblock s of None \<Rightarrow> (0, s)
     | Some sb \<Rightarrow> (max_page_id sb + 1, s\<lparr>superblock := Some (sb\<lparr>max_page_id := max_page_id sb + 1\<rparr>)\<rparr>))"

definition alloc_page_id_batch :: "u64 \<Rightarrow> 'z meta_state_scheme \<Rightarrow> u64 \<times> 'z meta_state_scheme" where
  "alloc_page_id_batch count s = (case superblock s of None \<Rightarrow> (0, s)
     | Some sb \<Rightarrow> if count = 0 then (0, s)
         else (max_page_id sb, s\<lparr>superblock := Some (sb\<lparr>max_page_id := max_page_id sb + count\<rparr>)\<rparr>))"

definition get_max_page_id :: "'z meta_state_scheme \<Rightarrow> u64" where
  "get_max_page_id s = (case superblock s of None \<Rightarrow> 0 | Some sb \<Rightarrow> max_page_id sb)"

section \<open>Operations\<close>

definition kds_meta_is_fresh_init :: "'z meta_state_scheme \<Rightarrow> bool" where
  "kds_meta_is_fresh_init s = g_fresh_init s"

definition first_superblock :: "u64 \<Rightarrow> kds_superblock" where
  "first_superblock now =
     \<lparr>magic = SUPERBLOCK_MAGIC, version = KDS_VERSION, sb_reserved1 = 0,
      max_page_id = of_nat KDS_SYS_RESERVED_PAGES, last_commit_page_id = 0, create_time = now,
      last_mount_time = now, last_fsync_time = 0, total_pages = 0, free_pages = 0, alloc_point = 0,
      alloc_remaining = 0, sb_reserved2 = replicate 8104 0\<rparr>"

definition init_superblock_and_fsync :: "kenv \<Rightarrow> ('z meta_state_scheme, unit) call" where
  "init_superblock_and_fsync env =
     sbind sget (\<lambda>s.
     if superblock s = None \<or> sb_io_page s = None then sfail (Errno EINVAL)
     else let block = first_superblock (ke_time env (nio s));
              io = wr (the (sb_io_page s)) 0 (enc_superblock block)
          in sbind (smod (\<lambda>s. s\<lparr>superblock := Some block, sb_io_page := Some io\<rparr>)) (\<lambda>_.
             kds_write_logical_page env META_SUPERBLOCK_SECTOR io))"

definition kds_meta_set_alloc_range :: "u64 \<Rightarrow> u64 \<Rightarrow> 'z meta_state_scheme \<Rightarrow> 'z meta_state_scheme" where
  "kds_meta_set_alloc_range ap remaining s = (case superblock s of None \<Rightarrow> s
     | Some sb \<Rightarrow> s\<lparr>superblock := Some (sb\<lparr>alloc_point := ap, alloc_remaining := remaining\<rparr>)\<rparr>)"

definition kds_meta_get_alloc_range :: "('z meta_state_scheme, u64 \<times> u64) call" where
  "kds_meta_get_alloc_range =
     sbind sget (\<lambda>s. case superblock s of None \<Rightarrow> sfail Panic | Some sb \<Rightarrow> sret (alloc_point sb, alloc_remaining sb))"

definition kds_superblock_fsync :: "kenv \<Rightarrow> ('z meta_state_scheme, unit) call" where
  "kds_superblock_fsync env =
     sbind sget (\<lambda>s. case (superblock s, sb_io_page s) of
       (Some sb, Some pg) \<Rightarrow>
         let io = wr pg 0 (enc_superblock sb) in
         sbind (smod (\<lambda>s. s\<lparr>sb_io_page := Some io\<rparr>)) (\<lambda>_.
         sbind (kds_write_logical_page env META_SUPERBLOCK_SECTOR io) (\<lambda>_.
         smod (\<lambda>s. s\<lparr>superblock := Some (sb\<lparr>last_fsync_time := ke_time env (nio s),
           last_commit_page_id := max_page_id sb\<rparr>)\<rparr>)))
     | _ \<Rightarrow> sfail (Errno EINVAL))"

definition kds_request_superblock_fsync :: "('z meta_state_scheme, unit) call" where
  "kds_request_superblock_fsync = sfail (Errno ENOSYS)"

definition kds_load_or_init_superblock :: "kenv \<Rightarrow> ('z meta_state_scheme, unit) call" where
  "kds_load_or_init_superblock env =
     sbind (kalloc env) (\<lambda>page_ok.
     if \<not> page_ok then sbind (smod (\<lambda>s. s\<lparr>sb_io_page := None\<rparr>)) (\<lambda>_. sfail (Errno ENOMEM))
     else sbind (kalloc env) (\<lambda>sb_ok.
     if \<not> sb_ok then sbind (smod (\<lambda>s. s\<lparr>superblock := None, sb_io_page := None\<rparr>)) (\<lambda>_. sfail (Errno ENOMEM))
     else strying (kds_read_logical_page env META_SUPERBLOCK_SECTOR) (\<lambda>r.
     case r of Inl e \<Rightarrow> sbind (smod (\<lambda>s. s\<lparr>superblock := None, sb_io_page := None\<rparr>)) (\<lambda>_. sfail e)
     | Inr io \<Rightarrow>
       sbind (smod (\<lambda>s. s\<lparr>superblock := Some (dec_superblock (rd io 0 KDS_PAGE_SIZE)), sb_io_page := Some io\<rparr>)) (\<lambda>_.
       sbind (if magic (dec_superblock (rd io 0 KDS_PAGE_SIZE)) = SUPERBLOCK_MAGIC then sret ()
              else sbind (smod (\<lambda>s. s\<lparr>g_fresh_init := True\<rparr>)) (\<lambda>_.
                   strying (init_superblock_and_fsync env) (\<lambda>r. case r of Inl _ \<Rightarrow> sfail Panic | Inr _ \<Rightarrow> sret ()))) (\<lambda>_.
       smod (\<lambda>s. s\<lparr>superblock := map_option (\<lambda>sb. sb\<lparr>last_mount_time := ke_time env (nio s)\<rparr>) (superblock s)\<rparr>))))))"

definition kds_init_meta_system :: "kenv \<Rightarrow> ('z meta_state_scheme, unit) call" where
  "kds_init_meta_system env = kds_load_or_init_superblock env"

definition kds_shutdown_meta_system :: "kenv \<Rightarrow> ('z meta_state_scheme, unit) call" where
  "kds_shutdown_meta_system env =
     sbind sget (\<lambda>s.
     sbind (if superblock s = None then sret ()
            else strying (kds_superblock_fsync env) (\<lambda>r.
                 case r of Inl Panic \<Rightarrow> sfail Panic
                 | _ \<Rightarrow> smod (\<lambda>s. s\<lparr>superblock := None\<rparr>))) (\<lambda>_.
     smod (\<lambda>s. s\<lparr>sb_io_page := None\<rparr>)))"

section \<open>Layout\<close>

lemma length_enc_superblock: "superblock_valid b \<Longrightarrow> length (enc_superblock b) = 8192"
  by (simp add: enc_superblock_def superblock_valid_def)

lemma dec_enc_superblock: "dec_superblock (enc_superblock b) = b"
  by (cases b) (simp add: dec_superblock_def enc_superblock_def)

lemma enc_dec_superblock:
  assumes "length bs = 8192"
  shows "enc_superblock (dec_superblock bs) = bs"
  using assms take_drop_glue [of 8 0 bs] take_drop_glue [of 4 8 bs] take_drop_glue [of 4 12 bs]
    take_drop_glue [of 8 16 bs] take_drop_glue [of 8 24 bs] take_drop_glue [of 8 32 bs]
    take_drop_glue [of 8 40 bs] take_drop_glue [of 8 48 bs] take_drop_glue [of 8 56 bs]
    take_drop_glue [of 8 64 bs] take_drop_glue [of 8 72 bs] take_drop_glue [of 8 80 bs]
  by (simp add: enc_superblock_def dec_superblock_def enc64_dec64 enc32_dec32)

interpretation superblock_layout: layout 8192 enc_superblock dec_superblock superblock_valid
  by unfold_locales (simp_all add: length_enc_superblock dec_enc_superblock enc_dec_superblock,
      simp add: superblock_valid_def dec_superblock_def)

section \<open>Durability\<close>

lemma superblock_sector: "META_SUPERBLOCK_SECTOR = kds_page_sector 128"
  by (simp add: META_SUPERBLOCK_SECTOR_def kds_page_sector_def)

lemma io_page_bytes: "superblock_valid sb \<Longrightarrow> rd (wr pg 0 (enc_superblock sb)) 0 KDS_PAGE_SIZE = enc_superblock sb"
  by (simp add: rd_wr_same KDS_PAGE_SIZE_def length_enc_superblock)

lemma fsync_writes:
  fixes s :: "'z meta_state_scheme"
  assumes ps: "page_size_ok env" and sb: "superblock s = Some sb" "superblock_valid sb" and io: "sb_io_page s = Some pg"
    and run: "kds_superblock_fsync env s = (r, s')"
  shows "r = Inl Panic \<or> r = Inr () \<and> disk_page (disk s') 128 = enc_superblock sb
    \<and> (\<forall>q. unat q < 2 ^ 60 \<longrightarrow> q \<noteq> 128 \<longrightarrow> disk_page (disk s') q = disk_page (disk s) q)
    \<and> (\<exists>t. superblock s' = Some (sb\<lparr>last_fsync_time := t, last_commit_page_id := max_page_id sb\<rparr>))
    \<and> pframes s' = pframes s \<and> pmap s' = pmap s \<and> free_frames s' = free_frames s \<and> nr_free s' = nr_free s
    \<and> g_pool s' = g_pool s \<and> kds_bdev s' = kds_bdev s \<and> sb_io_page s' \<noteq> None \<and> meta_state.more s' = meta_state.more s"
proof -
  let ?io = "wr pg 0 (enc_superblock sb)"
  let ?s1 = "s\<lparr>sb_io_page := Some ?io\<rparr>"
  obtain r2 s2 where w: "kds_write_logical_page env META_SUPERBLOCK_SECTOR ?io ?s1 = (r2, s2)" by fastforce
  note c = write_logical_cases [OF ps w]
  have dp: "disk_page (wr (disk s) (sector_byte META_SUPERBLOCK_SECTOR) (rd ?io 0 KDS_PAGE_SIZE)) 128 = enc_superblock sb"
    unfolding superblock_sector by (rule trans [OF disk_page_write_same io_page_bytes [OF sb(2)]])
  have other: "disk_page (wr (disk s) (sector_byte META_SUPERBLOCK_SECTOR) (rd ?io 0 KDS_PAGE_SIZE)) q = disk_page (disk s) q"
    if "unat q < 2 ^ 60" "q \<noteq> 128" for q
    unfolding superblock_sector using that by (intro disk_page_write_other) auto
  have "(r, s') = (case r2 of Inl e \<Rightarrow> (Inl e, s2) | Inr _ \<Rightarrow> (Inr (), s2\<lparr>superblock := Some (sb\<lparr>last_fsync_time := ke_time env (nio s2),
           last_commit_page_id := max_page_id sb\<rparr>)\<rparr>))"
    using run w sb io by (simp add: kds_superblock_fsync_def call_defs Let_def split: sum.splits)
  then show ?thesis
    using c dp other by (auto simp: same_dev_def split: sum.splits)
qed

lemma boot_loads:
  fixes s :: "'z meta_state_scheme"
  assumes ps: "page_size_ok env" and d: "disk_page (disk s) 128 = enc_superblock sb" and m: "magic sb = SUPERBLOCK_MAGIC"
    and run: "kds_init_meta_system env s = (Inr (), s')"
  shows "\<exists>t. superblock s' = Some (sb\<lparr>last_mount_time := t\<rparr>)" "g_fresh_init s' = g_fresh_init s" "disk s' = disk s"
    "sb_io_page s' \<noteq> None"
proof -
  let ?s1 = "s\<lparr>nalloc := Suc (Suc (nalloc s))\<rparr>"
  obtain r2 s2 where r: "kds_read_logical_page env META_SUPERBLOCK_SECTOR ?s1 = (r2, s2)" by fastforce
  note c = read_logical_cases [OF ps r]
  have al: "ke_alloc_ok env (nalloc s)" "ke_alloc_ok env (Suc (nalloc s))"
    using run by (auto simp: kds_init_meta_system_def kds_load_or_init_superblock_def call_defs kalloc_def split: if_splits)
  obtain pg where pg: "r2 = Inr pg"
    using run al r by (cases r2) (auto simp: kds_init_meta_system_def kds_load_or_init_superblock_def call_defs kalloc_def)
  have "rd pg 0 KDS_PAGE_SIZE = disk_page (disk s) 128"
    using c pg by (auto simp: rd_fresh_page disk_page_def superblock_sector)
  then have dec: "dec_superblock (rd pg 0 KDS_PAGE_SIZE) = sb" using d by (simp add: dec_enc_superblock)
  have "s' = s2\<lparr>sb_io_page := Some pg, superblock := Some (sb\<lparr>last_mount_time := ke_time env (nio s2)\<rparr>)\<rparr>"
    using run al r pg dec m
    by (simp add: kds_init_meta_system_def kds_load_or_init_superblock_def call_defs kalloc_def)
  then show "\<exists>t. superblock s' = Some (sb\<lparr>last_mount_time := t\<rparr>)" "g_fresh_init s' = g_fresh_init s" "disk s' = disk s"
    "sb_io_page s' \<noteq> None"
    using c by (auto simp: same_dev_def)
qed


lemma first_superblock_valid: "superblock_valid (first_superblock now)"
  by (simp add: superblock_valid_def first_superblock_def)

lemma boot_fresh:
  fixes s :: "'z meta_state_scheme"
  assumes ps: "page_size_ok env" and m: "magic (dec_superblock (disk_page (disk s) 128)) \<noteq> SUPERBLOCK_MAGIC"
    and run: "kds_init_meta_system env s = (Inr (), s')"
  shows "g_fresh_init s' \<and> (\<exists>now t. superblock s' = Some ((first_superblock now)\<lparr>last_mount_time := t\<rparr>)
      \<and> disk_page (disk s') 128 = enc_superblock (first_superblock now))"
proof -
  let ?s1 = "s\<lparr>nalloc := Suc (Suc (nalloc s))\<rparr>"
  obtain r2 s2 where r: "kds_read_logical_page env META_SUPERBLOCK_SECTOR ?s1 = (r2, s2)" by fastforce
  note c = read_logical_cases [OF ps r]
  have al: "ke_alloc_ok env (nalloc s)" "ke_alloc_ok env (Suc (nalloc s))"
    using run by (auto simp: kds_init_meta_system_def kds_load_or_init_superblock_def call_defs kalloc_def split: if_splits)
  obtain pg where pg: "r2 = Inr pg"
    using run al r by (cases r2) (auto simp: kds_init_meta_system_def kds_load_or_init_superblock_def call_defs kalloc_def)
  have "rd pg 0 KDS_PAGE_SIZE = disk_page (disk s) 128"
    using c pg by (auto simp: rd_fresh_page disk_page_def superblock_sector)
  then have bad: "magic (dec_superblock (rd pg 0 KDS_PAGE_SIZE)) \<noteq> SUPERBLOCK_MAGIC" using m by simp
  define now where "now = ke_time env (nio s2)"
  let ?io = "wr pg 0 (enc_superblock (first_superblock now))"
  let ?s3 = "s2\<lparr>g_fresh_init := True, superblock := Some (first_superblock now), sb_io_page := Some ?io\<rparr>"
  obtain r4 s4 where w: "kds_write_logical_page env META_SUPERBLOCK_SECTOR ?io ?s3 = (r4, s4)" by fastforce
  have "r4 = Inr () \<and> s' = s4\<lparr>superblock := map_option (\<lambda>sb. sb\<lparr>last_mount_time := ke_time env (nio s4)\<rparr>) (superblock s4)\<rparr>"
    using run al r pg bad w
    by (auto simp: kds_init_meta_system_def kds_load_or_init_superblock_def init_superblock_and_fsync_def call_defs
        kalloc_def Let_def now_def split: sum.splits)
  moreover note write_logical_cases [OF ps w]
  moreover have "disk_page (wr (disk s2) (sector_byte (kds_page_sector 128)) (rd ?io 0 KDS_PAGE_SIZE)) 128
      = enc_superblock (first_superblock now)"
    by (rule trans [OF disk_page_write_same io_page_bytes [OF first_superblock_valid]])
  ultimately have "g_fresh_init s' \<and> superblock s' = Some ((first_superblock now)\<lparr>last_mount_time := ke_time env (nio s4)\<rparr>)
      \<and> disk_page (disk s') 128 = enc_superblock (first_superblock now)"
    by (auto simp: same_dev_def superblock_sector)
  then show ?thesis by blast
qed

lemma new_page_no_magic: "magic (dec_superblock (rd (new_page env n) 0 KDS_PAGE_SIZE)) = 0"
proof -
  have "take 8 (rd (new_page env n) 0 KDS_PAGE_SIZE) = rd (new_page env n) 0 8"
    by (rule take_rd) (simp add: KDS_PAGE_SIZE_def)
  also have "\<dots> = enc32 0 @ enc32 0"
    unfolding new_page_def by (subst rd_wr_inside) (simp_all add: enc_page_hdr_def new_hdr_def KDS_PAGE_TYPE_INVALID_def)
  finally have "magic (dec_superblock (rd (new_page env n) 0 KDS_PAGE_SIZE)) = dec64 (enc32 0 @ enc32 0)"
    by (simp add: dec_superblock_def)
  then show ?thesis by (simp add: dec64_def enc32_def numeral_eq_Suc)
qed

section \<open>Properties\<close>

text \<open>A system with an open, empty device, before and after its first boot.\<close>

definition demo_meta0 :: meta_state where
  "demo_meta0 = \<lparr>kds_bdev = True, kds_bdev_filp = True, disk = (\<lambda>_. 0), nalloc = 0, nio = 0, g_pool = True,
     pframes = init_frame, pmap = Map.empty, free_frames = [0 ..< KDS_BUF_NR_FRAMES],
     nr_free = of_nat KDS_BUF_NR_FRAMES, superblock = None, sb_io_page = None, g_fresh_init = False\<rparr>"

definition demo_meta :: meta_state where
  "demo_meta = snd (kds_init_meta_system demo_env demo_meta0)"

lemma boot_good:
  fixes s :: "'z meta_state_scheme"
  assumes good: "env_good env" and b: "kds_bdev s"
  shows "\<exists>s'. kds_init_meta_system env s = (Inr (), s')"
proof -
  have al: "ke_alloc_ok env n" for n using good by (simp add: env_good_def)
  obtain pg s2 where r: "kds_read_logical_page env META_SUPERBLOCK_SECTOR (s\<lparr>nalloc := Suc (Suc (nalloc s))\<rparr>) = (Inr pg, s2)"
    using read_logical_good [OF good, of "s\<lparr>nalloc := Suc (Suc (nalloc s))\<rparr>" META_SUPERBLOCK_SECTOR] b by auto
  have b2: "kds_bdev s2" using read_logical_cases [OF env_good_page_size [OF good] r] b by (auto dest: same_dev_bdev)
  have w: "\<exists>u. kds_write_logical_page env META_SUPERBLOCK_SECTOR io (s2\<lparr>g_fresh_init := True, superblock := x, sb_io_page := y\<rparr>) = (Inr (), u)" for io x y
    by (rule write_logical_good [OF good]) (simp add: b2)
  show ?thesis
  proof (cases "magic (dec_superblock (rd pg 0 KDS_PAGE_SIZE)) = SUPERBLOCK_MAGIC")
    case True
    then show ?thesis using r al by (simp add: kds_init_meta_system_def kds_load_or_init_superblock_def call_defs kalloc_def)
  next
    case False
    obtain u where "kds_write_logical_page env META_SUPERBLOCK_SECTOR (wr pg 0 (enc_superblock (first_superblock (ke_time env (nio s2)))))
        (s2\<lparr>g_fresh_init := True, superblock := Some (first_superblock (ke_time env (nio s2))),
            sb_io_page := Some (wr pg 0 (enc_superblock (first_superblock (ke_time env (nio s2)))))\<rparr>) = (Inr (), u)"
      using w by blast
    then show ?thesis using False r al
      by (simp add: kds_init_meta_system_def kds_load_or_init_superblock_def init_superblock_and_fsync_def call_defs
          kalloc_def Let_def)
  qed
qed

lemma boot_keeps:
  fixes s :: "'z meta_state_scheme"
  assumes ps: "page_size_ok env" and run: "kds_init_meta_system env s = (Inr (), s')"
  shows "kds_bdev s' = kds_bdev s" "sb_io_page s' \<noteq> None"
proof -
  let ?s1 = "s\<lparr>nalloc := Suc (Suc (nalloc s))\<rparr>"
  obtain r2 s2 where r: "kds_read_logical_page env META_SUPERBLOCK_SECTOR ?s1 = (r2, s2)" by fastforce
  have b2: "kds_bdev s2 = kds_bdev s" using read_logical_cases [OF ps r] by (auto dest: same_dev_bdev)
  have wb: "kds_bdev u = kds_bdev s \<and> sb_io_page u = Some y"
    if "kds_write_logical_page env sec io (s2\<lparr>g_fresh_init := True, superblock := x, sb_io_page := Some y\<rparr>) = (r3, u)" for sec io x y r3 u
    using write_logical_cases [OF ps that] b2 by (auto simp: same_dev_def)
  show "kds_bdev s' = kds_bdev s" "sb_io_page s' \<noteq> None"
    using run r b2 wb
    by (auto simp: kds_init_meta_system_def kds_load_or_init_superblock_def init_superblock_and_fsync_def call_defs
        kalloc_def Let_def split: if_splits sum.splits prod.splits)
qed

lemma fsync_good:
  fixes s :: "'z meta_state_scheme"
  assumes good: "env_good env" and b: "kds_bdev s" and sb: "superblock s = Some sb" and io: "sb_io_page s = Some pg"
  shows "\<exists>s'. kds_superblock_fsync env s = (Inr (), s')"
proof -
  let ?io = "wr pg 0 (enc_superblock sb)"
  obtain u where "kds_write_logical_page env META_SUPERBLOCK_SECTOR ?io (s\<lparr>sb_io_page := Some ?io\<rparr>) = (Inr (), u)"
    using write_logical_good [OF good, of "s\<lparr>sb_io_page := Some ?io\<rparr>"] b by auto
  then show ?thesis using sb io by (simp add: kds_superblock_fsync_def call_defs Let_def)
qed

lemma zero_disk_no_magic: "magic (dec_superblock (disk_page (\<lambda>_. 0) 128)) \<noteq> SUPERBLOCK_MAGIC"
proof -
  have "take 8 (disk_page (\<lambda>_. 0) 128) = replicate 8 0"
    by (rule nth_equalityI) (simp_all add: disk_page_def KDS_PAGE_SIZE_def)
  moreover have "dec64 (replicate 8 0) = 0" by (simp add: dec64_def numeral_eq_Suc)
  ultimately show ?thesis by (simp add: dec_superblock_def SUPERBLOCK_MAGIC_def)
qed

lemma demo_meta_boot: "kds_init_meta_system demo_env demo_meta0 = (Inr (), demo_meta)"
  using boot_good [OF demo_env_good, of demo_meta0] by (auto simp: demo_meta_def demo_meta0_def)

text \<open>C17: what a successful \<^verbatim>\<open>kds_superblock_fsync\<close> wrote is what the next boot loads: as long as nothing writes
  the superblock's sectors in between, every field comes back as it was, page-id counter and allocation point
  included, except the mount time.\<close>

theorem superblock_survives_restart:
  assumes "page_size_ok env" and "superblock s = Some sb" and "superblock_valid sb" and "magic sb = SUPERBLOCK_MAGIC"
    and "sb_io_page s = Some pg" and "kds_superblock_fsync env s = (Inr (), s1)"
    and "disk_page (disk s2) 128 = disk_page (disk s1) 128" and "kds_init_meta_system env s2 = (Inr (), s3)"
  shows "\<exists>t. superblock s3 = Some (sb\<lparr>last_mount_time := t\<rparr>)"
proof -
  have "disk_page (disk s2) 128 = enc_superblock sb"
    using fsync_writes [OF assms(1-3,5,6)] assms(7) by simp
  then show ?thesis using boot_loads(1) [OF assms(1) _ assms(4,8)] by simp
qed

theorem superblock_survives_restart_witness:
  "\<exists>sb s1 s3 t. superblock demo_meta = Some sb \<and> kds_superblock_fsync demo_env demo_meta = (Inr (), s1)
     \<and> kds_init_meta_system demo_env s1 = (Inr (), s3) \<and> superblock s3 = Some (sb\<lparr>last_mount_time := t\<rparr>)"
proof -
  note g = env_good_page_size [OF demo_env_good]
  obtain now t where sb: "superblock demo_meta = Some ((first_superblock now)\<lparr>last_mount_time := t\<rparr>)"
    using boot_fresh [OF g _ demo_meta_boot] zero_disk_no_magic by (auto simp: demo_meta0_def)
  let ?sb = "(first_superblock now)\<lparr>last_mount_time := t\<rparr>"
  have v: "superblock_valid ?sb" and m: "magic ?sb = SUPERBLOCK_MAGIC"
    by (simp_all add: superblock_valid_def first_superblock_def)
  obtain pg where io: "sb_io_page demo_meta = Some pg" and b: "kds_bdev demo_meta"
    using boot_keeps [OF g demo_meta_boot] by (auto simp: demo_meta0_def)
  obtain s1 where f: "kds_superblock_fsync demo_env demo_meta = (Inr (), s1)"
    using fsync_good [OF demo_env_good b sb io] by blast
  have "kds_bdev s1" using fsync_writes [OF g sb v io f] b by simp
  then obtain s3 where i: "kds_init_meta_system demo_env s1 = (Inr (), s3)" using boot_good [OF demo_env_good] by blast
  show ?thesis using sb f i superblock_survives_restart [OF g sb v m io f refl i] by blast
qed

text \<open>On a device without a superblock the first boot creates one that is already on disk, with the page-id
  counter at the reserved 128 and no allocation range, and reports a fresh start.\<close>

theorem first_boot_superblock:
  assumes "page_size_ok env" and "magic (dec_superblock (disk_page (disk s) 128)) \<noteq> SUPERBLOCK_MAGIC"
    and "kds_init_meta_system env s = (Inr (), s')"
  shows "kds_meta_is_fresh_init s' \<and> get_max_page_id s' = 128
    \<and> (\<exists>now. disk_page (disk s') 128 = enc_superblock (first_superblock now))
    \<and> fst (kds_meta_get_alloc_range s') = Inr (0, 0)"
  using boot_fresh [OF assms]
  by (auto simp: kds_meta_is_fresh_init_def get_max_page_id_def kds_meta_get_alloc_range_def call_defs
      first_superblock_def KDS_SYS_RESERVED_PAGES_def)

theorem first_boot_superblock_witness:
  "kds_init_meta_system demo_env demo_meta0 = (Inr (), demo_meta) \<and> kds_meta_is_fresh_init demo_meta
     \<and> get_max_page_id demo_meta = 128"
  using first_boot_superblock [OF env_good_page_size [OF demo_env_good] _ demo_meta_boot] demo_meta_boot
    zero_disk_no_magic by (simp add: demo_meta0_def)

text \<open>C40: the first batch of page ids a fresh system hands out starts at 128, the page whose sectors hold the
  superblock; creating that page overwrites the superblock on disk with a page without its magic number.\<close>

theorem first_batch_hits_superblock:
  assumes "superblock s = Some (first_superblock now)" and "0 < n" and "page_size_ok env" and "pool_wf s"
    and "kds_buf_alloc_new env (fst (alloc_page_id_batch n s)) s = (Inr i, s')"
  shows "kds_page_sector (fst (alloc_page_id_batch n s)) = META_SUPERBLOCK_SECTOR
    \<and> magic (dec_superblock (disk_page (disk s') 128)) \<noteq> SUPERBLOCK_MAGIC"
proof -
  have b: "fst (alloc_page_id_batch n s) = 128"
    using assms(1,2) by (auto simp: alloc_page_id_batch_def first_superblock_def KDS_SYS_RESERVED_PAGES_def)
  have miss: "pmap s 128 = None"
    using alloc_cached [OF assms(4), of 128 _ env] assms(5) b by (cases "pmap s 128") auto
  have "disk_page (disk s') 128 = rd (new_page env (Suc (nalloc s))) 0 KDS_PAGE_SIZE"
    using alloc_alone [OF assms(3,4) miss] assms(5) b by (auto simp: disk_page_write_same)
  then show ?thesis using b new_page_no_magic by (simp add: superblock_sector SUPERBLOCK_MAGIC_def)
qed

theorem first_batch_hits_superblock_witness:
  "\<exists>i s'. kds_buf_alloc_new demo_env 128 (demo_meta0\<lparr>superblock := Some (first_superblock 0)\<rparr>) = (Inr i, s')
     \<and> magic (dec_superblock (disk_page (disk s') 128)) \<noteq> SUPERBLOCK_MAGIC"
proof -
  let ?s = "demo_meta0\<lparr>superblock := Some (first_superblock 0)\<rparr>"
  have wf: "pool_wf ?s" by (auto simp: pool_wf_def demo_meta0_def init_frame_def)
  have b: "fst (alloc_page_id_batch 127 ?s) = 128"
    by (simp add: alloc_page_id_batch_def first_superblock_def KDS_SYS_RESERVED_PAGES_def)
  obtain i s' where a: "kds_buf_alloc_new demo_env 128 ?s = (Inr i, s')"
    using alloc_good [OF demo_env_good wf, of 128] nr_frames_pos by (auto simp: demo_meta0_def)
  show ?thesis
    using a first_batch_hits_superblock [of ?s 0 127 demo_env i s', OF _ _ env_good_page_size [OF demo_env_good] wf] b by simp
qed

text \<open>The two ways of issuing page ids disagree: \<^verbatim>\<open>assign_page_id\<close> returns the incremented counter and
  \<^verbatim>\<open>alloc_page_id_batch\<close> the counter before the addition, so an id just assigned is issued again as the first
  id of the next batch.\<close>

theorem assigned_id_reissued:
  assumes "superblock s = Some sb" and "0 < n"
  shows "fst (alloc_page_id_batch n (snd (assign_page_id s))) = fst (assign_page_id s)"
  using assms by (auto simp: assign_page_id_def alloc_page_id_batch_def)

theorem assigned_id_reissued_witness:
  "fst (alloc_page_id_batch 127 (snd (assign_page_id (\<lparr>kds_bdev = True, kds_bdev_filp = True, disk = (\<lambda>_. 0), nalloc = 0,
      nio = 0, g_pool = False, pframes = init_frame, pmap = Map.empty, free_frames = [], nr_free = 0,
      superblock = Some (first_superblock 0), sb_io_page = None, g_fresh_init = True\<rparr> :: meta_state))))
    = 129"
  using assigned_id_reissued [of "\<lparr>kds_bdev = True, kds_bdev_filp = True, disk = (\<lambda>_. 0), nalloc = 0,
      nio = 0, g_pool = False, pframes = init_frame, pmap = Map.empty, free_frames = [], nr_free = 0,
      superblock = Some (first_superblock 0), sb_io_page = None, g_fresh_init = True\<rparr>" "first_superblock 0" 127]
  by (simp add: assign_page_id_def first_superblock_def KDS_SYS_RESERVED_PAGES_def)

end
