(* ===== verification/Kds_Page_Alloc.thy ===== *)
theory Kds_Page_Alloc
  imports Kds_Meta
begin

text \<open>
  The page allocator (\<^verbatim>\<open>kernel/kds/page_alloc.c\<close>, \<^verbatim>\<open>include/linux/kds_page_alloc.h\<close>): a ring of pre-allocated
  frames with one wasted slot, batch allocation of fresh page ids, the boot-time scan that recycles pages
  allocated but never initialised, start-up and shutdown. The ring indices are 64-bit words, as in the code.
  Registering and unregistering the background process belongs to the scheduler and is an argument
  (\<open>proc_register\<close>, \<open>proc_unregister\<close>).
\<close>

section \<open>State\<close>

definition PRE_ALLOC_RING_BUFFER_SIZE :: u64 where "PRE_ALLOC_RING_BUFFER_SIZE = 128"
definition PRE_ALLOC_NUM :: u64 where "PRE_ALLOC_NUM = 256"
definition PRE_ALLOC_PAGE_THRES :: u64 where "PRE_ALLOC_PAGE_THRES = 32"

record alloc_state = meta_state +
  g_alloc :: bool
  reserved :: u64
  cursor :: u64
  ring :: "u64 \<Rightarrow> nat option"
  kds_prealloc_proc :: bool

section \<open>The ring\<close>

definition kds_ring_is_full :: "'z alloc_state_scheme \<Rightarrow> bool" where
  "kds_ring_is_full s \<longleftrightarrow> (reserved s + 1) mod PRE_ALLOC_RING_BUFFER_SIZE = cursor s"

definition kds_ring_count :: "'z alloc_state_scheme \<Rightarrow> u64" where
  "kds_ring_count s = (reserved s - cursor s + PRE_ALLOC_RING_BUFFER_SIZE) mod PRE_ALLOC_RING_BUFFER_SIZE"

definition kds_ring_free_slots :: "'z alloc_state_scheme \<Rightarrow> u64" where
  "kds_ring_free_slots s = PRE_ALLOC_RING_BUFFER_SIZE - 1 - kds_ring_count s"

definition ring_push :: "nat \<Rightarrow> 'z alloc_state_scheme \<Rightarrow> 'z alloc_state_scheme" where
  "ring_push i s = s\<lparr>ring := (ring s)(reserved s := Some i),
     reserved := (reserved s + 1) mod PRE_ALLOC_RING_BUFFER_SIZE\<rparr>"

text \<open>Taking the oldest entry, as the consumer and the shutdown loop both do.\<close>

definition ring_pop :: "'z alloc_state_scheme \<Rightarrow> nat option \<times> 'z alloc_state_scheme" where
  "ring_pop s = (ring s (cursor s), s\<lparr>ring := (ring s)(cursor s := None),
     cursor := (cursor s + 1) mod PRE_ALLOC_RING_BUFFER_SIZE\<rparr>)"

section \<open>Consumer\<close>

definition set_page_type :: "nat \<Rightarrow> u32 \<Rightarrow> ('z pool_state_scheme, unit) call" where
  "set_page_type i type = sbind sget (\<lambda>s. case fr_kp (pframes s i) of None \<Rightarrow> sfail Fault
     | Some kp \<Rightarrow> smod (upd_frame i (\<lambda>f. f\<lparr>fr_kp := Some (kp\<lparr>kp_hdr := (kp_hdr kp)\<lparr>hdr_type := type\<rparr>\<rparr>)\<rparr>)))"

definition kds_page_alloc :: "u32 \<Rightarrow> ('z alloc_state_scheme, nat option) call" where
  "kds_page_alloc type =
     sbind sget (\<lambda>s.
     if \<not> g_alloc s then sfail Fault
     else if kds_ring_count s = 0 then sret None
     else case ring_pop s of (frame, s') \<Rightarrow>
       sbind (smod (\<lambda>_. s')) (\<lambda>_.
       case frame of None \<Rightarrow> sfail Fault
       | Some i \<Rightarrow> sbind (set_page_type i type) (\<lambda>_. sret (Some i))))"

definition kds_get_reserved_kpage :: "u32 \<Rightarrow> ('z alloc_state_scheme, nat option) call" where
  "kds_get_reserved_kpage type = kds_page_alloc type"

section \<open>Batch allocation\<close>

text \<open>The loop body for the ids \<open>base + i\<close>; the result is how many frames were staged.\<close>

fun batch_loop :: "kenv \<Rightarrow> u64 \<Rightarrow> nat list \<Rightarrow> nat \<Rightarrow> ('z alloc_state_scheme, nat) call" where
  "batch_loop env base [] got = sret got"
| "batch_loop env base (i # is) got =
     strying (kds_buf_alloc_new env (base + of_nat i)) (\<lambda>r.
     case r of
       Inl (Errno _) \<Rightarrow> sret got
     | Inl e \<Rightarrow> sfail e
     | Inr f \<Rightarrow> sbind sget (\<lambda>s.
         if kds_ring_is_full s then sbind (kds_buf_unpin f) (\<lambda>_. sret got)
         else sbind (smod (ring_push f)) (\<lambda>_. batch_loop env base is (Suc got))))"

definition kds_batch_alloc :: "kenv \<Rightarrow> u64 \<Rightarrow> ('z alloc_state_scheme, nat) call" where
  "kds_batch_alloc env count =
     (if count = 0 then sret 0
      else sbind sget (\<lambda>s.
        let want = min count (kds_ring_free_slots s) in
        if want = 0 then sret 0
        else case alloc_page_id_batch want s of (base0, s1) \<Rightarrow>
          let base = (if base0 = 0 then base0 + of_nat KDS_SYS_RESERVED_PAGES else base0) in
          sbind (smod (\<lambda>_. s1)) (\<lambda>_.
          sbind (batch_loop env base [0 ..< unat want] 0) (\<lambda>got.
          sbind (smod (kds_meta_set_alloc_range base 0)) (\<lambda>_.
          strying (kds_superblock_fsync env) (\<lambda>r.
          case r of Inl Panic \<Rightarrow> sfail Panic | _ \<Rightarrow> sret got))))))"

section \<open>Boot-time reclaim\<close>

fun reclaim_loop :: "kenv \<Rightarrow> u64 list \<Rightarrow> nat \<Rightarrow> ('z alloc_state_scheme, nat) call" where
  "reclaim_loop env [] got = sret got"
| "reclaim_loop env (pid # ids) got =
     sbind sget (\<lambda>s.
     if kds_ring_is_full s then sret got
     else strying (kds_buf_lookup_or_load env (\<lambda>s. s) pid) (\<lambda>r.
     case r of
       Inl (Errno _) \<Rightarrow> reclaim_loop env ids got
     | Inl e \<Rightarrow> sfail e
     | Inr f \<Rightarrow> sbind sget (\<lambda>s1.
         case fr_kp (pframes s1 f) of None \<Rightarrow> sfail Fault
         | Some kp \<Rightarrow>
           let is_alloc = (hdr_flags (kp_hdr kp) AND KDS_PAGE_FLAG_ALLOC \<noteq> 0);
               is_init = (hdr_flags (kp_hdr kp) AND KDS_PAGE_FLAG_INIT \<noteq> 0) in
           if \<not> is_alloc \<or> is_init then sbind (kds_buf_unpin f) (\<lambda>_. reclaim_loop env ids got)
           else if kds_ring_is_full s1 then sbind (kds_buf_unpin f) (\<lambda>_. sret got)
           else sbind (smod (ring_push f)) (\<lambda>_. reclaim_loop env ids (Suc got)))))"

definition kds_reclaim_uninitialized_pages :: "kenv \<Rightarrow> u64 \<Rightarrow> ('z alloc_state_scheme, nat) call" where
  "kds_reclaim_uninitialized_pages env ap =
     sbind sget (\<lambda>s.
     let scan_end = min (ap + PRE_ALLOC_NUM) (get_max_page_id s) in
     if scan_end \<le> ap then sret 0
     else reclaim_loop env (map of_nat [unat ap ..< unat scan_end]) 0)"

section \<open>Background refill, start-up and shutdown\<close>

definition kds_proc_prealloc :: "kenv \<Rightarrow> ('z alloc_state_scheme, unit) call" where
  "kds_proc_prealloc env =
     sbind sget (\<lambda>s.
     if \<not> g_alloc s then sfail Fault
     else if kds_ring_count s < PRE_ALLOC_PAGE_THRES
     then sbind (kds_batch_alloc env (PRE_ALLOC_RING_BUFFER_SIZE - kds_ring_count s)) (\<lambda>_. sret ())
     else sret ())"

definition kds_init_g_alloc :: "kenv \<Rightarrow> ('z alloc_state_scheme, unit) call" where
  "kds_init_g_alloc env =
     sbind (kalloc env) (\<lambda>mem_ok.
     if \<not> mem_ok then sfail Panic
     else smod (\<lambda>s. s\<lparr>g_alloc := True, cursor := 0, reserved := 0, ring := (\<lambda>_. None)\<rparr>))"

definition kds_create_proc_prealloc ::
  "kenv \<Rightarrow> ('z alloc_state_scheme, unit) call \<Rightarrow> ('z alloc_state_scheme, unit) call" where
  "kds_create_proc_prealloc env proc_register =
     sbind (kalloc env) (\<lambda>mem_ok.
     if \<not> mem_ok then sbind (smod (\<lambda>s. s\<lparr>kds_prealloc_proc := False\<rparr>)) (\<lambda>_. sfail (Errno ENOMEM))
     else sbind (smod (\<lambda>s. s\<lparr>kds_prealloc_proc := True\<rparr>)) (\<lambda>_.
     strying proc_register (\<lambda>r.
     case r of Inr _ \<Rightarrow> sret ()
     | Inl e \<Rightarrow> sbind (smod (\<lambda>s. s\<lparr>kds_prealloc_proc := False\<rparr>)) (\<lambda>_. sfail e))))"

definition kds_init_page_alloc_system ::
  "kenv \<Rightarrow> ('z alloc_state_scheme, unit) call \<Rightarrow> ('z alloc_state_scheme, unit) call" where
  "kds_init_page_alloc_system env proc_register =
     sbind (kds_init_g_alloc env) (\<lambda>_.
     sbind kds_meta_get_alloc_range (\<lambda>(ap, _).
     sbind (if ap = 0 then kds_batch_alloc env PRE_ALLOC_RING_BUFFER_SIZE
            else sbind (kds_reclaim_uninitialized_pages env ap) (\<lambda>filled.
              if of_nat filled < PRE_ALLOC_PAGE_THRES
              then kds_batch_alloc env (PRE_ALLOC_RING_BUFFER_SIZE - of_nat filled)
              else sret filled)) (\<lambda>_.
     kds_create_proc_prealloc env proc_register)))"

text \<open>The loop runs while the ring is not empty; it ends because each round removes one entry.\<close>

fun drain :: "nat \<Rightarrow> ('z alloc_state_scheme, unit) call" where
  "drain 0 = sret ()"
| "drain (Suc n) =
     sbind sget (\<lambda>s.
     if kds_ring_count s = 0 then sret ()
     else case ring_pop s of (frame, s') \<Rightarrow>
       sbind (smod (\<lambda>_. s')) (\<lambda>_.
       sbind (case frame of None \<Rightarrow> sret () | Some i \<Rightarrow> kds_buf_unpin i) (\<lambda>_. drain n)))"

definition kds_shutdown_page_alloc_system ::
  "('z alloc_state_scheme, unit) call \<Rightarrow> ('z alloc_state_scheme, unit) call" where
  "kds_shutdown_page_alloc_system proc_unregister =
     sbind sget (\<lambda>s.
     sbind (if kds_prealloc_proc s
            then sbind proc_unregister (\<lambda>_. smod (\<lambda>s. s\<lparr>kds_prealloc_proc := False\<rparr>)) else sret ()) (\<lambda>_.
     sbind sget (\<lambda>s.
     if \<not> g_alloc s then sret ()
     else sbind (drain (unat PRE_ALLOC_RING_BUFFER_SIZE)) (\<lambda>_. smod (\<lambda>s. s\<lparr>g_alloc := False\<rparr>)))))"

text \<open>Statistics: allocation point and staged frames; the other two counters are always zero.\<close>

definition kds_page_alloc_get_stats :: "('z alloc_state_scheme, u64 \<times> u64 \<times> u64 \<times> u64) call" where
  "kds_page_alloc_get_stats =
     sbind sget (\<lambda>s. if \<not> g_alloc s then sret (0, 0, 0, 0)
     else sbind kds_meta_get_alloc_range (\<lambda>(ap, _). sret (ap, 0, kds_ring_count s, 0)))"

section \<open>The contract of a bounded queue\<close>

locale fifo =
  fixes inv :: "'s \<Rightarrow> bool"
    and items :: "'s \<Rightarrow> 'a list"
    and capacity :: nat
    and full :: "'s \<Rightarrow> bool"
    and push :: "'a \<Rightarrow> 's \<Rightarrow> 's"
    and pop :: "'s \<Rightarrow> 'a option \<times> 's"
  assumes full_iff: "inv s \<Longrightarrow> full s \<longleftrightarrow> length (items s) = capacity"
    and push_back: "inv s \<Longrightarrow> \<not> full s \<Longrightarrow> inv (push x s) \<and> items (push x s) = items s @ [x]"
    and pop_front: "inv s \<Longrightarrow> items s = x # xs \<Longrightarrow> fst (pop s) = Some x \<and> inv (snd (pop s)) \<and> items (snd (pop s)) = xs"
begin

lemma push_all:
  "inv s \<Longrightarrow> length (items s) + length xs \<le> capacity \<Longrightarrow>
   inv (fold push xs s) \<and> items (fold push xs s) = items s @ xs"
proof (induction xs arbitrary: s)
  case (Cons x xs)
  have "\<not> full s" using full_iff [OF Cons.prems(1)] Cons.prems(2) by simp
  then show ?case using Cons.IH [of "push x s"] push_back [OF Cons.prems(1)] Cons.prems(2) by simp
qed simp

fun pops :: "nat \<Rightarrow> 's \<Rightarrow> 'a list" where
  "pops 0 s = []"
| "pops (Suc n) s = the (fst (pop s)) # pops n (snd (pop s))"

lemma pops_all: "inv s \<Longrightarrow> pops (length (items s)) s = items s"
proof (induction "items s" arbitrary: s)
  case Nil
  then show ?case by (metis list.size(3) pops.simps(1))
next
  case (Cons x xs)
  have p: "fst (pop s) = Some x" "inv (snd (pop s))" "items (snd (pop s)) = xs"
    using pop_front [OF Cons.prems Cons.hyps(2) [symmetric]] by auto
  from Cons.hyps(1) [OF p(3) [symmetric] p(2)] p Cons.hyps(2) [symmetric] show ?case by simp
qed

lemma first_in_first_out:
  assumes "inv s" and "items s = []" and "length xs \<le> capacity"
  shows "pops (length xs) (fold push xs s) = xs"
  using push_all [OF assms(1), of xs] pops_all [of "fold push xs s"] assms(2,3) by simp

end

section \<open>The ring implements the queue\<close>

definition slot_at :: "'z alloc_state_scheme \<Rightarrow> nat \<Rightarrow> u64" where
  "slot_at s k = of_nat ((unat (cursor s) + k) mod 128)"

definition ring_len :: "'z alloc_state_scheme \<Rightarrow> nat" where
  "ring_len s = unat (kds_ring_count s)"

definition ring_items :: "'z alloc_state_scheme \<Rightarrow> nat list" where
  "ring_items s = map (\<lambda>k. the (ring s (slot_at s k))) [0 ..< ring_len s]"

definition ring_inv :: "'z alloc_state_scheme \<Rightarrow> bool" where
  "ring_inv s \<longleftrightarrow> unat (cursor s) < 128 \<and> unat (reserved s) < 128
     \<and> (\<forall>k < ring_len s. ring s (slot_at s k) \<noteq> None)"

lemmas ring_size = PRE_ALLOC_RING_BUFFER_SIZE_def

lemma ring_len_eq:
  assumes "unat (cursor s) < 128" and "unat (reserved s) < 128"
  shows "ring_len s = (unat (reserved s) + 128 - unat (cursor s)) mod 128"
proof -
  have a: "unat (reserved s + 128) = unat (reserved s) + 128"
    using assms(2) by (subst unat_add_lem [THEN iffD1]) simp_all
  have "kds_ring_count s = ((reserved s + 128) - cursor s) mod 128"
    by (simp add: kds_ring_count_def ring_size algebra_simps)
  moreover have "unat ((reserved s + 128) - cursor s) = unat (reserved s) + 128 - unat (cursor s)"
    using a assms by (subst unat_sub) (simp_all add: word_le_nat_alt)
  ultimately show ?thesis by (simp add: ring_len_def unat_mod)
qed

lemma unat_next: "unat w < 128 \<Longrightarrow> unat ((w + 1) mod 128 :: u64) = (unat w + 1) mod 128"
  by (simp add: unat_mod unat_add_lem [THEN iffD1])

lemma ring_len_bound: "unat (cursor s) < 128 \<Longrightarrow> unat (reserved s) < 128 \<Longrightarrow> ring_len s < 128"
  by (simp add: ring_len_eq)

lemma full_ring:
  assumes "unat (cursor s) < 128" and "unat (reserved s) < 128"
  shows "kds_ring_is_full s \<longleftrightarrow> ring_len s = 127"
proof -
  have "kds_ring_is_full s \<longleftrightarrow> (unat (reserved s) + 1) mod 128 = unat (cursor s)"
    using unat_next [OF assms(2)] by (simp add: kds_ring_is_full_def ring_size word_unat_eq_iff)
  then show ?thesis using assms by (simp add: ring_len_eq mod_if) arith
qed

lemma slot_at_end:
  assumes "unat (cursor s) < 128" and "unat (reserved s) < 128"
  shows "slot_at s (ring_len s) = reserved s"
proof -
  have "(unat (cursor s) + ring_len s) mod 128 = unat (reserved s)"
    using assms by (simp add: ring_len_eq mod_if)
  then show ?thesis by (simp add: slot_at_def)
qed

lemma slot_at_inj:
  assumes "slot_at s j = slot_at s k" and "j < 128" and "k < 128" and "unat (cursor s) < 128"
  shows "j = k"
proof -
  have "unat (slot_at s m) = (unat (cursor s) + m) mod 128" for m
    by (simp add: slot_at_def unat_of_nat)
  then have "(unat (cursor s) + j) mod 128 = (unat (cursor s) + k) mod 128" using assms(1) by metis
  then show ?thesis using assms(2-4) by (simp add: mod_if split: if_splits)
qed

lemma push_ring:
  assumes inv: "ring_inv s" and nf: "\<not> kds_ring_is_full s"
  shows "ring_inv (ring_push i s) \<and> ring_items (ring_push i s) = ring_items s @ [i]"
proof -
  have c: "unat (cursor s) < 128" "unat (reserved s) < 128" using inv by (simp_all add: ring_inv_def)
  let ?q = "ring_push i s"
  have q: "cursor ?q = cursor s" "unat (reserved ?q) = (unat (reserved s) + 1) mod 128" "ring ?q = (ring s)(reserved s := Some i)"
    using unat_next [OF c(2)] by (simp_all add: ring_push_def ring_size)
  have l: "ring_len s < 127" using ring_len_bound [OF c] full_ring [OF c] nf by simp
  have lq: "ring_len ?q = Suc (ring_len s)"
    using q c l ring_len_eq [of ?q] ring_len_eq [of s] by (simp add: mod_if split: if_splits)
  have sl: "slot_at ?q k = slot_at s k" for k by (simp add: slot_at_def q)
  have other: "ring ?q (slot_at s k) = ring s (slot_at s k)" if "k < ring_len s" for k
  proof -
    have "slot_at s k \<noteq> reserved s"
      using slot_at_inj [of s k "ring_len s"] slot_at_end [OF c] that l c by auto
    then show ?thesis by (simp add: q)
  qed
  have new: "ring ?q (slot_at s (ring_len s)) = Some i" using slot_at_end [OF c] by (simp add: q)
  show ?thesis
    using q c inv other new by (auto simp: ring_inv_def ring_items_def lq sl less_Suc_eq)
qed

lemma pop_ring:
  assumes inv: "ring_inv s" and it: "ring_items s = x # xs"
  shows "fst (ring_pop s) = Some x \<and> ring_inv (snd (ring_pop s)) \<and> ring_items (snd (ring_pop s)) = xs"
proof -
  have c: "unat (cursor s) < 128" "unat (reserved s) < 128" using inv by (simp_all add: ring_inv_def)
  let ?q = "snd (ring_pop s)"
  have len: "ring_len s = Suc (length xs)" using it by (metis length_Cons length_map length_upt ring_items_def diff_zero)
  have q: "unat (cursor ?q) = (unat (cursor s) + 1) mod 128" "reserved ?q = reserved s" "ring ?q = (ring s)(cursor s := None)"
    using unat_next [OF c(1)] by (simp_all add: ring_pop_def ring_size)
  have lq: "ring_len ?q = length xs"
    using q c len ring_len_eq [of ?q] ring_len_eq [of s] by (simp add: mod_if split: if_splits)
  have s0: "slot_at s 0 = cursor s" using c by (simp add: slot_at_def)
  have sl: "slot_at ?q k = slot_at s (Suc k)" for k by (simp add: slot_at_def q mod_add_left_eq)
  have other: "ring ?q (slot_at s (Suc k)) = ring s (slot_at s (Suc k))" if "k < length xs" for k
  proof -
    have "slot_at s (Suc k) \<noteq> cursor s"
      using slot_at_inj [of s "Suc k" 0] s0 that len ring_len_bound [OF c] c by auto
    then show ?thesis by (simp add: q)
  qed
  have its: "ring_items s = the (ring s (cursor s)) # map (\<lambda>k. the (ring s (slot_at s (Suc k)))) [0 ..< length xs]"
    unfolding ring_items_def len by (simp add: upt_conv_Cons s0 map_Suc_upt [symmetric] o_def del: upt_Suc)
  have xs: "xs = map (\<lambda>k. the (ring s (slot_at s (Suc k)))) [0 ..< length xs]" and x: "x = the (ring s (cursor s))"
    using its it by auto
  have "ring_items ?q = map (\<lambda>k. the (ring s (slot_at s (Suc k)))) [0 ..< length xs]"
    unfolding ring_items_def lq sl by (simp add: other)
  then have "ring_items ?q = xs" using xs by simp
  moreover have "ring s (cursor s) \<noteq> None" using inv len s0 by (metis ring_inv_def zero_less_Suc)
  moreover have "ring_inv ?q"
    using inv q c len other by (auto simp: ring_inv_def lq sl)
  ultimately show ?thesis using x by (simp add: ring_pop_def)
qed

interpretation ring: fifo ring_inv ring_items 127 kds_ring_is_full ring_push ring_pop
proof unfold_locales
  fix s :: "'z alloc_state_scheme"
  assume "ring_inv s"
  then show "kds_ring_is_full s \<longleftrightarrow> length (ring_items s) = 127"
    using full_ring [of s] by (simp add: ring_inv_def ring_items_def)
qed (rule push_ring, assumption+, rule pop_ring, assumption+)

section \<open>The allocator invariant\<close>

text \<open>The pool and the ring are well-formed, and the ring stages distinct frames, each caching some page.\<close>

definition alloc_wf :: "'z alloc_state_scheme \<Rightarrow> bool" where
  "alloc_wf s \<longleftrightarrow> pool_wf s \<and> ring_inv s \<and> distinct (ring_items s) \<and> set (ring_items s) \<subseteq> ran (pmap s)"

lemma alloc_of_more:
  fixes s s' :: "'z alloc_state_scheme"
  assumes "pool_state.more s' = pool_state.more s"
  shows "cursor s' = cursor s" "reserved s' = reserved s" "ring s' = ring s" "superblock s' = superblock s"
    "sb_io_page s' = sb_io_page s" "g_alloc s' = g_alloc s" "kds_prealloc_proc s' = kds_prealloc_proc s"
    "g_fresh_init s' = g_fresh_init s"
  using assms by (cases s, cases s', simp)+

lemma ring_cong:
  assumes "cursor s' = cursor s" "reserved s' = reserved s" "ring s' = ring s"
  shows "ring_items s' = ring_items s" "ring_inv s' = ring_inv s" "kds_ring_is_full s' = kds_ring_is_full s"
    "kds_ring_count s' = kds_ring_count s"
  using assms
  by (simp_all add: ring_items_def ring_inv_def ring_len_def kds_ring_count_def slot_at_def kds_ring_is_full_def)

lemma ring_more:
  assumes "pool_state.more s' = pool_state.more s"
  shows "ring_items s' = ring_items s" "ring_inv s' = ring_inv s" "kds_ring_is_full s' = kds_ring_is_full s"
    "kds_ring_count s' = kds_ring_count s"
  by (rule ring_cong; rule alloc_of_more [OF assms])+

lemma ring_push_pool [simp]:
  "pframes (ring_push i s) = pframes s" "pmap (ring_push i s) = pmap s" "free_frames (ring_push i s) = free_frames s"
  "nr_free (ring_push i s) = nr_free s" "g_pool (ring_push i s) = g_pool s" "kds_bdev (ring_push i s) = kds_bdev s"
  "superblock (ring_push i s) = superblock s" "sb_io_page (ring_push i s) = sb_io_page s"
  "g_alloc (ring_push i s) = g_alloc s" "disk (ring_push i s) = disk s"
  by (simp_all add: ring_push_def)

lemma ring_pop_pool [simp]:
  "pframes (snd (ring_pop s)) = pframes s" "pmap (snd (ring_pop s)) = pmap s" "free_frames (snd (ring_pop s)) = free_frames s"
  "nr_free (snd (ring_pop s)) = nr_free s" "g_pool (snd (ring_pop s)) = g_pool s" "g_alloc (snd (ring_pop s)) = g_alloc s"
  by (simp_all add: ring_pop_def)

lemma pool_wf_push [simp]: "pool_wf (ring_push i s) = pool_wf s"
  by (rule pool_wf_cong) simp_all

lemma pool_wf_pop [simp]: "pool_wf (snd (ring_pop s)) = pool_wf s"
  by (rule pool_wf_cong) simp_all

text \<open>One turn of the batch loop.\<close>

lemma alloc_new_alloc:
  fixes s :: "'z alloc_state_scheme"
  assumes ps: "page_size_ok env" and wf: "alloc_wf s" and run: "kds_buf_alloc_new env pid s = (r, s')"
  shows "r = Inl Panic \<or> pool_state.more s' = pool_state.more s \<and> kds_bdev s' = kds_bdev s \<and>
    (case r of
       Inl e \<Rightarrow> (\<exists>x. e = Errno x) \<and> alloc_wf s' \<and> ring_items s' = ring_items s \<and> pmap s' = pmap s
     | Inr f \<Rightarrow> pmap s pid = None \<and> pmap s' = (pmap s)(pid \<mapsto> f) \<and> alloc_wf s' \<and> ring_items s' = ring_items s
         \<and> f \<notin> set (ring_items s) \<and> f \<in> ran (pmap s'))"
proof -
  have pw: "pool_wf s" and ri: "ring_inv s" and di: "distinct (ring_items s)" and su: "set (ring_items s) \<subseteq> ran (pmap s)"
    using wf by (simp_all add: alloc_wf_def)
  show ?thesis
  proof (cases "pmap s pid")
    case (Some i)
    then show ?thesis using alloc_cached [OF pw Some, of env] run wf by simp
  next
    case None
    note A = alloc_alone [OF ps pw None run]
    show ?thesis
    proof (cases "r = Inl Panic")
      case False
      then have m: "pool_state.more s' = pool_state.more s" using A by simp
      note R = ring_more [OF m]
      show ?thesis
      proof (cases r)
        case (Inl e)
        then show ?thesis using A False R ri di su by (auto simp: alloc_wf_def)
      next
        case (Inr f)
        then have f: "f \<in> set (free_frames s)" "pmap s' = (pmap s)(pid \<mapsto> f)" using A by auto
        have "f \<notin> ran (pmap s)"
          using f(1) pw pool_wf_map(2) [OF pw] by (auto simp: ran_def pool_wf_def)
        then have nf: "f \<notin> set (ring_items s)" using su by auto
        have "ran (pmap s') = insert f (ran (pmap s))"
          using f(2) None by simp
        then have su': "set (ring_items s) \<subseteq> ran (pmap s')" using su by blast
        show ?thesis using A False Inr R ri di su' nf f None by (auto simp: alloc_wf_def)
      qed
    qed simp
  qed
qed

text \<open>What a run of the loop adds to the ring.\<close>

lemma batch_loop_stages:
  fixes s :: "'z alloc_state_scheme"
  assumes ps: "page_size_ok env"
  shows "alloc_wf s \<Longrightarrow> length (ring_items s) + length is \<le> 127 \<Longrightarrow> batch_loop env base is got s = (Inr g, s') \<Longrightarrow>
    alloc_wf s' \<and> superblock s' = superblock s \<and> sb_io_page s' = sb_io_page s \<and> kds_bdev s' = kds_bdev s
    \<and> g_alloc s' = g_alloc s \<and> pmap s \<subseteq>\<^sub>m pmap s'
    \<and> (\<exists>fs. ring_items s' = ring_items s @ fs \<and> g = got + length fs \<and> length fs \<le> length is
        \<and> (\<forall>k < length fs. pmap s (base + of_nat (is ! k)) = None \<and> pmap s' (base + of_nat (is ! k)) = Some (fs ! k)))"
proof (induction "is" arbitrary: s got)
  case Nil
  then show ?case by (simp add: call_defs)
next
  case (Cons i "is")
  obtain r s1 where a: "kds_buf_alloc_new env (base + of_nat i) s = (r, s1)" by fastforce
  note A = alloc_new_alloc [OF ps Cons.prems(1) a]
  have np: "r \<noteq> Inl Panic" using Cons.prems(3) a by (auto simp: call_defs)
  then have m: "pool_state.more s1 = pool_state.more s" using A by simp
  note F = alloc_of_more [OF m] and R = ring_more [OF m]
  show ?case
  proof (cases r)
    case (Inl e)
    then have "s' = s1" "g = got" using Cons.prems(3) a A np by (auto simp: call_defs split: failure.splits)
    then show ?thesis using A np Inl F by auto
  next
    case (Inr f)
    have wf1: "alloc_wf s1" and p1: "pmap s1 = (pmap s)(base + of_nat i \<mapsto> f)" "pmap s (base + of_nat i) = None"
      and nf: "f \<notin> set (ring_items s)" "f \<in> ran (pmap s1)" and bd: "kds_bdev s1 = kds_bdev s"
      using A np Inr by auto
    have ri: "ring_inv s1" using wf1 by (simp add: alloc_wf_def)
    have nfull: "\<not> kds_ring_is_full s1" using ring.full_iff [OF ri] R(1) Cons.prems(2) by simp
    let ?s2 = "ring_push f s1"
    have s2: "ring_inv ?s2" "ring_items ?s2 = ring_items s @ [f]"
      using ring.push_back [OF ri nfull, of f] R(1) by auto
    have wf2: "alloc_wf ?s2" using wf1 s2 nf R(1) by (auto simp: alloc_wf_def)
    have run: "batch_loop env base is (Suc got) ?s2 = (Inr g, s')"
      using Cons.prems(3) a Inr nfull by (simp add: call_defs)
    have l: "length (ring_items ?s2) + length is \<le> 127" using Cons.prems(2) s2(2) by simp
    from Cons.IH [OF wf2 l run] obtain fs where IH: "alloc_wf s'" "superblock s' = superblock ?s2" "sb_io_page s' = sb_io_page ?s2"
      "kds_bdev s' = kds_bdev ?s2" "g_alloc s' = g_alloc ?s2" "pmap ?s2 \<subseteq>\<^sub>m pmap s'" "ring_items s' = ring_items ?s2 @ fs"
      "g = Suc got + length fs" "length fs \<le> length is"
      "\<forall>k < length fs. pmap ?s2 (base + of_nat (is ! k)) = None \<and> pmap s' (base + of_nat (is ! k)) = Some (fs ! k)"
      by auto
    have le: "pmap s \<subseteq>\<^sub>m pmap s'" and mine: "pmap s' (base + of_nat i) = Some f"
      using IH(6) p1 by (auto simp: map_le_def dom_def split: if_splits)
    have each: "pmap s (base + of_nat ((i # is) ! k)) = None \<and> pmap s' (base + of_nat ((i # is) ! k)) = Some ((f # fs) ! k)"
      if "k < length (f # fs)" for k
      using that mine IH(10) p1 by (cases k) (auto split: if_splits)
    have "ring_items s' = ring_items s @ (f # fs) \<and> g = got + length (f # fs) \<and> length (f # fs) \<le> length (i # is)"
      using IH s2(2) by simp
    then show ?thesis
      using IH(1-5) le each F bd by (intro conjI exI [of _ "f # fs"]) auto
  qed
qed

section \<open>Handing out a page\<close>

lemma page_alloc_pops:
  fixes s :: "'z alloc_state_scheme"
  assumes wf: "alloc_wf s" and g: "g_alloc s" and it: "ring_items s = f # fs"
  shows "\<exists>s' kp. kds_page_alloc t s = (Inr (Some f), s') \<and> alloc_wf s' \<and> ring_items s' = fs \<and> pmap s' = pmap s
    \<and> g_alloc s' \<and> fr_kp (pframes s f) = Some kp \<and> fr_kp (pframes s' f) = Some (kp\<lparr>kp_hdr := (kp_hdr kp)\<lparr>hdr_type := t\<rparr>\<rparr>)
    \<and> (\<forall>j. j \<noteq> f \<longrightarrow> pframes s' j = pframes s j)"
proof -
  have pw: "pool_wf s" and ri: "ring_inv s" and di: "distinct (f # fs)" and su: "set (f # fs) \<subseteq> ran (pmap s)"
    using wf it by (simp_all add: alloc_wf_def)
  let ?q = "snd (ring_pop s)"
  have P: "fst (ring_pop s) = Some f" "ring_inv ?q" "ring_items ?q = fs" using ring.pop_front [OF ri it] by auto
  obtain q where rp: "ring_pop s = (Some f, q)" using P(1) by (cases "ring_pop s") auto
  have qf: "pframes q = pframes s" using ring_pop_pool(1) [of s] rp by simp
  have cnt: "kds_ring_count s \<noteq> 0"
    using it by (auto simp: ring_items_def ring_len_def)
  obtain p where p: "pmap s p = Some f" using su by (auto simp: ran_def)
  obtain kp pg where kp: "fr_kp (pframes s f) = Some kp" "fr_page (pframes s f) = Some pg" "kp_id kp = p"
    using pool_wf_map(4) [OF pw p] by (auto simp: frame_loaded_def)
  let ?g = "\<lambda>fr. fr\<lparr>fr_kp := Some (kp\<lparr>kp_hdr := (kp_hdr kp)\<lparr>hdr_type := t\<rparr>\<rparr>)\<rparr>"
  have run: "kds_page_alloc t s = (Inr (Some f), upd_frame f ?g ?q)"
    using g cnt rp qf kp(1) by (simp add: kds_page_alloc_def set_page_type_def call_defs)
  have "pool_wf (upd_frame f ?g ?q)"
    using pw kp pool_wf_map [OF pw p] pool_wf_id [OF pw, of f]
    by (intro pool_wf_touch) (auto simp: frame_loaded_def)
  moreover have m: "pool_state.more (upd_frame f ?g ?q) = pool_state.more ?q" by simp
  ultimately have "alloc_wf (upd_frame f ?g ?q)"
    using P di su ring_more [OF m] by (simp add: alloc_wf_def)
  then show ?thesis using run ring_more [OF m] P(3) kp alloc_of_more(6) [OF m] g by auto
qed

section \<open>A batch\<close>

lemma free_slots:
  assumes "ring_inv s"
  shows "unat (kds_ring_free_slots s) = 127 - length (ring_items s)" "length (ring_items s) \<le> 127"
proof -
  have l: "unat (kds_ring_count s) = length (ring_items s)" by (simp add: ring_items_def ring_len_def)
  have b: "length (ring_items s) < 128" using ring_len_bound [of s] assms by (simp add: ring_inv_def ring_items_def)
  have "unat (127 - kds_ring_count s) = unat (127 :: u64) - unat (kds_ring_count s)"
    using l b by (intro unat_sub) (simp add: word_le_nat_alt)
  then show "unat (kds_ring_free_slots s) = 127 - length (ring_items s)"
    using l by (simp add: kds_ring_free_slots_def ring_size)
  show "length (ring_items s) \<le> 127" using b by simp
qed

lemma alloc_wf_superblock [simp]: "alloc_wf (s\<lparr>superblock := x\<rparr>) = alloc_wf s"
proof -
  have "pool_wf (s\<lparr>superblock := x\<rparr>) = pool_wf s" by (rule pool_wf_cong) simp_all
  moreover have "ring_items (s\<lparr>superblock := x\<rparr>) = ring_items s" "ring_inv (s\<lparr>superblock := x\<rparr>) = ring_inv s"
    by (rule ring_cong; simp)+
  ultimately show ?thesis by (simp add: alloc_wf_def)
qed

lemma ring_items_superblock [simp]: "ring_items (s\<lparr>superblock := x\<rparr>) = ring_items s"
  by (rule ring_cong) simp_all

lemma alloc_of_meta_more:
  fixes s s' :: "'z alloc_state_scheme"
  assumes "meta_state.more s' = meta_state.more s"
  shows "cursor s' = cursor s" "reserved s' = reserved s" "ring s' = ring s" "g_alloc s' = g_alloc s"
  using assms by (cases s, cases s', simp)+

lemma fsync_alloc:
  fixes s :: "'z alloc_state_scheme"
  assumes ps: "page_size_ok env" and wf: "alloc_wf s" and sb: "superblock s = Some sb" "superblock_valid sb"
    and io: "sb_io_page s = Some pg" and run: "kds_superblock_fsync env s = (r, s')" and np: "r \<noteq> Inl Panic"
  shows "alloc_wf s'" "ring_items s' = ring_items s" "pmap s' = pmap s" "disk_page (disk s') 128 = enc_superblock sb"
    "\<exists>t. superblock s' = Some (sb\<lparr>last_fsync_time := t, last_commit_page_id := max_page_id sb\<rparr>)" "g_alloc s' = g_alloc s"
proof -
  note F = fsync_writes [OF ps sb io run]
  have m: "meta_state.more s' = meta_state.more s" and p: "pframes s' = pframes s" "pmap s' = pmap s"
    "free_frames s' = free_frames s" "nr_free s' = nr_free s" "g_pool s' = g_pool s" using F np by auto
  note R = ring_cong [OF alloc_of_meta_more(1-3) [OF m]]
  show "alloc_wf s'" using wf pool_wf_cong [OF p] R p by (simp add: alloc_wf_def)
  show "ring_items s' = ring_items s" "pmap s' = pmap s" "disk_page (disk s') 128 = enc_superblock sb"
    "\<exists>t. superblock s' = Some (sb\<lparr>last_fsync_time := t, last_commit_page_id := max_page_id sb\<rparr>)" "g_alloc s' = g_alloc s"
    using F np R alloc_of_meta_more(4) [OF m] by auto
qed

lemma batch_alloc_stages:
  fixes s :: "'z alloc_state_scheme"
  assumes ps: "page_size_ok env" and wf: "alloc_wf s" and sb: "superblock s = Some sb" "superblock_valid sb"
    and io: "sb_io_page s = Some pg" and mx: "max_page_id sb \<noteq> 0" and cnt: "0 < count"
    and run: "kds_batch_alloc env count s = (Inr g, s')"
  defines "want \<equiv> min count (kds_ring_free_slots s)"
  shows "alloc_wf s' \<and> g_alloc s' = g_alloc s \<and> (\<exists>fs. ring_items s' = ring_items s @ fs \<and> length fs = g \<and> g \<le> unat want
      \<and> (\<forall>k < g. pmap s (max_page_id sb + of_nat k) = None \<and> pmap s' (max_page_id sb + of_nat k) = Some (fs ! k)))
    \<and> get_max_page_id s' = max_page_id sb + want
    \<and> (want \<noteq> 0 \<longrightarrow> disk_page (disk s') 128
         = enc_superblock (sb\<lparr>max_page_id := max_page_id sb + want, alloc_point := max_page_id sb, alloc_remaining := 0\<rparr>))"
proof -
  have nz: "count \<noteq> 0" using cnt by auto
  show ?thesis
  proof (cases "want = 0")
    case True
    then have "kds_batch_alloc env count s = (Inr 0, s)"
      using nz by (simp add: kds_batch_alloc_def call_defs Let_def want_def [symmetric])
    then have "g = 0" "s' = s" using run by simp_all
    then show ?thesis using wf True sb by (simp add: get_max_page_id_def)
  next
    case False
    have ri: "ring_inv s" using wf by (simp add: alloc_wf_def)
    let ?sb = "sb\<lparr>max_page_id := max_page_id sb + want\<rparr>" and ?base = "max_page_id sb"
    let ?s1 = "s\<lparr>superblock := Some ?sb\<rparr>"
    let ?sb2 = "?sb\<lparr>alloc_point := ?base, alloc_remaining := 0\<rparr>"
    obtain r2 s2 where b: "batch_loop env ?base [0 ..< unat want] 0 ?s1 = (r2, s2)" by fastforce
    obtain r3 s3 where f: "kds_superblock_fsync env (kds_meta_set_alloc_range ?base 0 s2) = (r3, s3)" by fastforce
    have eq: "(Inr g, s') = (case r2 of Inl e \<Rightarrow> (Inl e, s2) | Inr got \<Rightarrow> (case r3 of Inl Panic \<Rightarrow> (Inl Panic, s3) | _ \<Rightarrow> (Inr got, s3)))"
      using run nz False b f mx sb
      by (simp add: kds_batch_alloc_def call_defs Let_def want_def [symmetric] alloc_page_id_batch_def
          split: sum.splits failure.splits)
    then have r2: "r2 = Inr g" and np: "r3 \<noteq> Inl Panic" and s': "s' = s3" by (auto split: sum.splits failure.splits)
    have "unat want \<le> unat (kds_ring_free_slots s)" unfolding want_def by (metis min.cobounded2 word_le_nat_alt)
    then have room: "length (ring_items ?s1) + length [0 ..< unat want] \<le> 127" using free_slots [OF ri] by simp
    have wf1: "alloc_wf ?s1" using wf by simp
    from batch_loop_stages [OF ps wf1 room b [unfolded r2]] obtain fs where L:
      "alloc_wf s2" "superblock s2 = superblock ?s1" "sb_io_page s2 = sb_io_page ?s1" "ring_items s2 = ring_items ?s1 @ fs"
      "g = length fs" "length fs \<le> unat want"
      "\<forall>k < length fs. pmap ?s1 (?base + of_nat ([0 ..< unat want] ! k)) = None \<and> pmap s2 (?base + of_nat ([0 ..< unat want] ! k)) = Some (fs ! k)"
      "g_alloc s2 = g_alloc ?s1"
      by auto
    have s2': "kds_meta_set_alloc_range ?base 0 s2 = s2\<lparr>superblock := Some ?sb2\<rparr>"
      using L(2) by (simp add: kds_meta_set_alloc_range_def)
    have v2: "superblock_valid ?sb2" using sb(2) by (simp add: superblock_valid_def)
    have sb2: "superblock (s2\<lparr>superblock := Some ?sb2\<rparr>) = Some ?sb2" by simp
    have io2: "sb_io_page (s2\<lparr>superblock := Some ?sb2\<rparr>) = Some pg" using L(3) io by simp
    have wf2: "alloc_wf (s2\<lparr>superblock := Some ?sb2\<rparr>)" using L(1) by simp
    note F = fsync_alloc [OF ps wf2 sb2 v2 io2 f [unfolded s2'] np]
    have "\<forall>k < g. pmap s (?base + of_nat k) = None \<and> pmap s' (?base + of_nat k) = Some (fs ! k)"
      using L(5,6,7) F(3) s' by auto
    then show ?thesis
      using F(1,2,4,5,6) s' L(4,5,6,8) by (auto simp: get_max_page_id_def)
  qed
qed

section \<open>Shutdown\<close>

lemma unpin_alloc:
  fixes s :: "'z alloc_state_scheme"
  assumes wf: "alloc_wf s" and p: "pmap s p = Some i"
  shows "\<exists>s'. kds_buf_unpin i s = (Inr (), s') \<and> alloc_wf s' \<and> ring_items s' = ring_items s \<and> pmap s' = pmap s
    \<and> pool_state.more s' = pool_state.more s \<and> pframes s' = (pframes s)(i := (pframes s i)\<lparr>fr_kp := map_option unpin_kpage (fr_kp (pframes s i))\<rparr>)"
proof -
  have pw: "pool_wf s" using wf by (simp add: alloc_wf_def)
  obtain kp pg where kp: "fr_kp (pframes s i) = Some kp" "fr_page (pframes s i) = Some pg" "kp_id kp = p"
    using pool_wf_map(4) [OF pw p] by (auto simp: frame_loaded_def)
  let ?q = "upd_frame i (\<lambda>f. f\<lparr>fr_kp := Some (unpin_kpage kp)\<rparr>) s"
  have "pool_wf ?q" using pw kp pool_wf_map [OF pw p] pool_wf_id [OF pw, of i]
    by (intro pool_wf_touch) (auto simp: frame_loaded_def unpin_kpage_def)
  moreover have m: "pool_state.more ?q = pool_state.more s" by simp
  ultimately have "alloc_wf ?q" using wf ring_more [OF m] by (simp add: alloc_wf_def)
  then show ?thesis using kp ring_more [OF m] by (auto simp: kds_buf_unpin_def upd_frame_def)
qed

text \<open>The frames of a list lose one pin each.\<close>

definition unpinned :: "nat list \<Rightarrow> (nat \<Rightarrow> kds_frame) \<Rightarrow> nat \<Rightarrow> kds_frame" where
  "unpinned is fs i = (if i \<in> set is then (fs i)\<lparr>fr_kp := map_option unpin_kpage (fr_kp (fs i))\<rparr> else fs i)"

lemma drain_empties:
  fixes s :: "'z alloc_state_scheme"
  shows "alloc_wf s \<Longrightarrow> length (ring_items s) \<le> n \<Longrightarrow>
    \<exists>s'. drain n s = (Inr (), s') \<and> alloc_wf s' \<and> ring_items s' = [] \<and> pmap s' = pmap s \<and> g_alloc s' = g_alloc s
      \<and> pframes s' = unpinned (ring_items s) (pframes s)"
proof (induction n arbitrary: s)
  case 0
  then show ?case by (simp add: call_defs unpinned_def fun_eq_iff)
next
  case (Suc n)
  show ?case
  proof (cases "ring_items s")
    case Nil
    then have "kds_ring_count s = 0" by (simp add: ring_items_def ring_len_def unat_eq_0)
    then show ?thesis using Suc.prems(1) Nil by (simp add: call_defs unpinned_def fun_eq_iff)
  next
    case (Cons f fs)
    have ri: "ring_inv s" using Suc.prems(1) by (simp add: alloc_wf_def)
    have P: "fst (ring_pop s) = Some f" "ring_inv (snd (ring_pop s))" "ring_items (snd (ring_pop s)) = fs"
      using ring.pop_front [OF ri Cons] by auto
    have wfq: "alloc_wf (snd (ring_pop s))" using Suc.prems(1) P Cons by (auto simp: alloc_wf_def)
    obtain p where p: "pmap (snd (ring_pop s)) p = Some f" using Suc.prems(1) Cons by (auto simp: alloc_wf_def ran_def)
    obtain s1 where s1: "kds_buf_unpin f (snd (ring_pop s)) = (Inr (), s1)" "alloc_wf s1" "ring_items s1 = fs"
      "pmap s1 = pmap s" "pool_state.more s1 = pool_state.more (snd (ring_pop s))"
      "pframes s1 = (pframes s)(f := (pframes s f)\<lparr>fr_kp := map_option unpin_kpage (fr_kp (pframes s f))\<rparr>)"
      using unpin_alloc [OF wfq p] P(3) by auto
    have ga: "g_alloc s1 = g_alloc s" using alloc_of_more(6) [OF s1(5)] by simp
    have cnt: "kds_ring_count s \<noteq> 0" using Cons by (auto simp: ring_items_def ring_len_def)
    obtain q where rp: "ring_pop s = (Some f, q)" using P(1) by (cases "ring_pop s") auto
    have "drain (Suc n) s = drain n s1" using cnt rp s1(1) by (simp add: call_defs)
    moreover have "f \<notin> set fs" using Suc.prems(1) Cons by (simp add: alloc_wf_def)
    then have "unpinned fs (pframes s1) = unpinned (f # fs) (pframes s)" by (auto simp: fun_eq_iff unpinned_def s1(6))
    ultimately show ?thesis using Suc.IH [OF s1(2)] s1(3,4) Suc.prems(2) Cons ga by simp
  qed
qed

text \<open>What the shutdown relies on of the scheduler: unregistering the pre-allocation process returns and leaves the pool
  and the ring as they are.\<close>

definition unregisters :: "('z alloc_state_scheme, unit) call \<Rightarrow> 'z alloc_state_scheme \<Rightarrow> bool" where
  "unregisters proc_unregister s \<longleftrightarrow> (\<exists>t. proc_unregister s = (Inr (), t) \<and> alloc_wf t \<and> g_alloc t \<and> ring_items t = ring_items s
     \<and> pmap t = pmap s \<and> pframes t = pframes s)"

lemma alloc_wf_flags:
  "alloc_wf (s\<lparr>g_alloc := b\<rparr>) = alloc_wf s" "alloc_wf (s\<lparr>kds_prealloc_proc := b\<rparr>) = alloc_wf s"
  "ring_items (s\<lparr>g_alloc := b\<rparr>) = ring_items s" "ring_items (s\<lparr>kds_prealloc_proc := b\<rparr>) = ring_items s"
proof -
  have "pool_wf (s\<lparr>g_alloc := b\<rparr>) = pool_wf s" "pool_wf (s\<lparr>kds_prealloc_proc := b\<rparr>) = pool_wf s" by (rule pool_wf_cong; simp)+
  moreover have "ring_inv (s\<lparr>g_alloc := b\<rparr>) = ring_inv s" "ring_inv (s\<lparr>kds_prealloc_proc := b\<rparr>) = ring_inv s" by (rule ring_cong; simp)+
  moreover show "ring_items (s\<lparr>g_alloc := b\<rparr>) = ring_items s" "ring_items (s\<lparr>kds_prealloc_proc := b\<rparr>) = ring_items s" by (rule ring_cong; simp)+
  ultimately show "alloc_wf (s\<lparr>g_alloc := b\<rparr>) = alloc_wf s" "alloc_wf (s\<lparr>kds_prealloc_proc := b\<rparr>) = alloc_wf s" by (simp_all add: alloc_wf_def)
qed

text \<open>When memory, disk and frames are available, a batch stages every id it reserved.\<close>

lemma batch_loop_good:
  fixes s :: "'z alloc_state_scheme"
  assumes good: "env_good env"
  shows "alloc_wf s \<Longrightarrow> length (ring_items s) + length is \<le> 127 \<Longrightarrow> kds_bdev s \<Longrightarrow>
    length is \<le> length (free_frames s) \<Longrightarrow> distinct (map (\<lambda>i. base + of_nat i) is) \<Longrightarrow>
    (\<forall>i \<in> set is. pmap s (base + of_nat i) = None) \<Longrightarrow>
    \<exists>s'. batch_loop env base is got s = (Inr (got + length is), s') \<and> kds_bdev s'"
proof (induction "is" arbitrary: s got)
  case Nil
  then show ?case by (simp add: call_defs)
next
  case (Cons i "is")
  have pw: "pool_wf s" using Cons.prems(1) by (simp add: alloc_wf_def)
  have miss: "pmap s (base + of_nat i) = None" using Cons.prems(6) by simp
  have fr: "free_frames s \<noteq> []" using Cons.prems(4) by auto
  obtain f s1 where a: "kds_buf_alloc_new env (base + of_nat i) s = (Inr f, s1)"
    using alloc_good [OF good pw miss fr Cons.prems(3)] by auto
  note A = alloc_alone [OF env_good_page_size [OF good] pw miss a]
  note B = alloc_new_alloc [OF env_good_page_size [OF good] Cons.prems(1) a]
  have wf1: "alloc_wf s1" and nf: "f \<notin> set (ring_items s)" "f \<in> ran (pmap s1)" and p1: "pmap s1 = (pmap s)(base + of_nat i \<mapsto> f)"
    and b1: "kds_bdev s1" and m: "pool_state.more s1 = pool_state.more s" using B Cons.prems(3) by auto
  note R = ring_more [OF m]
  have ri: "ring_inv s1" and pw1: "pool_wf s1" using wf1 by (simp_all add: alloc_wf_def)
  have nfull: "\<not> kds_ring_is_full s1" using ring.full_iff [OF ri] R(1) Cons.prems(2) by simp
  let ?s2 = "ring_push f s1"
  have s2: "ring_inv ?s2" "ring_items ?s2 = ring_items s @ [f]" using ring.push_back [OF ri nfull, of f] R(1) by auto
  have wf2: "alloc_wf ?s2" using wf1 s2 nf R(1) by (auto simp: alloc_wf_def)
  have d: "distinct (free_frames s)" "distinct (free_frames s1)" using pw pw1 by (simp_all add: pool_wf_def)
  have "f \<in> set (free_frames s)" "set (free_frames s1) = set (free_frames s) - {f}" using A by auto
  then have "length (free_frames s1) = length (free_frames s) - 1"
    using distinct_card [OF d(1)] distinct_card [OF d(2)] by (simp add: card_Diff_singleton)
  then have fr2: "length is \<le> length (free_frames ?s2)" using Cons.prems(4) by simp
  have nm: "\<forall>j \<in> set is. pmap ?s2 (base + of_nat j) = None" using Cons.prems(5,6) p1 by (auto simp: image_iff)
  have l2: "length (ring_items ?s2) + length is \<le> 127" using Cons.prems(2) s2(2) by simp
  have "\<exists>s'. batch_loop env base is (Suc got) ?s2 = (Inr (Suc got + length is), s') \<and> kds_bdev s'"
    using Cons.IH [OF wf2 l2 _ fr2 _ nm, of "Suc got"] Cons.prems(5) b1 by simp
  then show ?case using a nfull by (simp add: call_defs)
qed

lemma batch_ids_distinct: "n \<le> 128 \<Longrightarrow> distinct (map (\<lambda>i. base + of_nat i :: u64) [0 ..< n])"
proof -
  assume n: "n \<le> 128"
  have "inj_on (\<lambda>i. base + of_nat i :: u64) {0 ..< n}"
  proof (rule inj_onI)
    fix i j
    assume "i \<in> {0 ..< n}" "j \<in> {0 ..< n}" "base + of_nat i = (base + of_nat j :: u64)"
    then have "(of_nat i :: u64) = of_nat j" "i < 128" "j < 128" using n by auto
    then have "unat (of_nat i :: u64) = unat (of_nat j :: u64)" by simp
    then show "i = j" using \<open>i < 128\<close> \<open>j < 128\<close> by (simp add: unat_of_nat)
  qed
  then show ?thesis by (simp add: distinct_map)
qed

lemma batch_alloc_full:
  fixes s :: "'z alloc_state_scheme"
  assumes good: "env_good env" and wf: "alloc_wf s" and b: "kds_bdev s" and sb: "superblock s = Some sb"
    and io: "sb_io_page s = Some pg" and mx: "max_page_id sb \<noteq> 0" and cnt: "0 < count"
    and want: "n = unat (min count (kds_ring_free_slots s))" and fr: "n \<le> length (free_frames s)"
    and nw: "\<forall>k < n. pmap s (max_page_id sb + of_nat k) = None"
  shows "\<exists>s'. kds_batch_alloc env count s = (Inr n, s')"
proof (cases "min count (kds_ring_free_slots s) = 0")
  case True
  have "count \<noteq> 0" using cnt by auto
  then have "kds_batch_alloc env count s = (Inr 0, s)" using True by (simp add: kds_batch_alloc_def call_defs Let_def)
  then show ?thesis using True want by simp
next
  case False
  let ?want = "min count (kds_ring_free_slots s)" and ?base = "max_page_id sb"
  let ?s1 = "s\<lparr>superblock := Some (sb\<lparr>max_page_id := ?base + ?want\<rparr>)\<rparr>"
  have ri: "ring_inv s" using wf by (simp add: alloc_wf_def)
  have nz: "count \<noteq> 0" using cnt by auto
  have "n \<le> unat (kds_ring_free_slots s)" unfolding want by (metis min.cobounded2 word_le_nat_alt)
  then have room: "length (ring_items ?s1) + length [0 ..< n] \<le> 127" "n \<le> 128" using free_slots [OF ri] by simp_all
  have wf1: "alloc_wf ?s1" using wf by simp
  have "\<exists>s'. batch_loop env ?base [0 ..< n] 0 ?s1 = (Inr n, s') \<and> kds_bdev s'"
    using batch_loop_good [OF good wf1 room(1), of ?base 0] b fr batch_ids_distinct [OF room(2), of ?base] nw by simp
  then obtain s2 where L: "batch_loop env ?base [0 ..< n] 0 ?s1 = (Inr n, s2)" "kds_bdev s2" by auto
  have keep: "superblock s2 = superblock ?s1" "sb_io_page s2 = Some pg"
    using batch_loop_stages [OF env_good_page_size [OF good] wf1 room(1) L(1)] io by auto
  let ?s3 = "kds_meta_set_alloc_range ?base 0 s2"
  have s3: "\<exists>x. superblock ?s3 = Some x" "kds_bdev ?s3" "sb_io_page ?s3 = Some pg"
    using keep L(2) by (auto simp: kds_meta_set_alloc_range_def)
  obtain s4 where "kds_superblock_fsync env ?s3 = (Inr (), s4)" using fsync_good [OF good s3(2) _ s3(3)] s3(1) by blast
  then show ?thesis
    using nz False L(1) mx sb want by (simp add: kds_batch_alloc_def call_defs Let_def alloc_page_id_batch_def)
qed

section \<open>Properties\<close>

fun ring_pops :: "nat \<Rightarrow> 'z alloc_state_scheme \<Rightarrow> nat option list" where
  "ring_pops 0 s = []"
| "ring_pops (Suc n) s = (case ring_pop s of (f, s') \<Rightarrow> f # ring_pops n s')"

lemma ring_pops_items: "ring_inv s \<Longrightarrow> ring_pops (length (ring_items s)) s = map Some (ring_items s)"
proof (induction "ring_items s" arbitrary: s)
  case Nil
  then show ?case by (metis list.map(1) list.size(3) ring_pops.simps(1))
next
  case (Cons x xs)
  obtain f q where rp: "ring_pop s = (f, q)" by fastforce
  have p: "f = Some x" "ring_inv q" "ring_items q = xs"
    using ring.pop_front [OF Cons.prems Cons.hyps(2) [symmetric]] rp by auto
  from Cons.hyps(1) [OF p(3) [symmetric] p(2)] p Cons.hyps(2) [symmetric] rp show ?case by simp
qed

lemma ring_empty:
  assumes "unat (cursor s) < 128" and "reserved s = cursor s"
  shows "ring_inv s" "ring_items s = []"
  using assms ring_len_eq [of s] by (simp_all add: ring_inv_def ring_items_def)

definition demo_alloc :: alloc_state where
  "demo_alloc = meta_state.extend (demo_meta0\<lparr>superblock := Some ((first_superblock 0)\<lparr>max_page_id := 200\<rparr>), sb_io_page := Some (\<lambda>_. 0)\<rparr>)
     \<lparr>g_alloc = True, reserved = 126, cursor = 126, ring = (\<lambda>_. None), kds_prealloc_proc = False\<rparr>"

lemma demo_alloc_simps:
  "superblock demo_alloc = Some ((first_superblock 0)\<lparr>max_page_id := 200\<rparr>)" "sb_io_page demo_alloc = Some (\<lambda>_. 0)"
  "kds_bdev demo_alloc" "g_alloc demo_alloc" "reserved demo_alloc = 126" "cursor demo_alloc = 126"
  "pmap demo_alloc = Map.empty" "free_frames demo_alloc = [0 ..< KDS_BUF_NR_FRAMES]"
  by (simp_all add: demo_alloc_def demo_meta0_def meta_state.defs)

lemma demo_alloc_ring: "ring_inv demo_alloc" "ring_items demo_alloc = []"
  by (rule ring_empty; simp add: demo_alloc_simps)+

lemma demo_alloc_wf: "alloc_wf demo_alloc"
proof -
  have "pool_wf demo_alloc"
    by (auto simp: pool_wf_def demo_alloc_def demo_meta0_def meta_state.defs init_frame_def)
  then show ?thesis by (simp add: alloc_wf_def demo_alloc_ring)
qed

lemma demo_batch: "\<exists>s'. kds_batch_alloc demo_env 2 demo_alloc = (Inr 2, s')"
proof -
  have w: "2 = unat (min 2 (kds_ring_free_slots demo_alloc))"
    by (simp add: kds_ring_free_slots_def kds_ring_count_def demo_alloc_simps ring_size)
  show ?thesis
    using batch_alloc_full [OF demo_env_good demo_alloc_wf demo_alloc_simps(3,1,2) _ _ w]
    by (simp add: demo_alloc_simps KDS_BUF_NR_FRAMES_def)
qed

text \<open>C21: the ring is a bounded first-in first-out queue wherever its indices stand, also when they wrap: the frames
  pushed into an empty ring come out in the same order, and the ring is full exactly when it holds 127 frames.\<close>

theorem ring_fifo:
  assumes "unat (cursor s) < 128" and "reserved s = cursor s" and "length fs \<le> 127"
  shows "ring_pops (length fs) (fold ring_push fs s) = map Some fs
    \<and> unat (kds_ring_count (fold ring_push fs s)) = length fs
    \<and> (kds_ring_is_full (fold ring_push fs s) \<longleftrightarrow> length fs = 127)"
proof -
  have P: "ring_inv (fold ring_push fs s)" "ring_items (fold ring_push fs s) = fs"
    using ring.push_all [OF ring_empty(1) [OF assms(1,2)], of fs] ring_empty(2) [OF assms(1,2)] assms(3) by auto
  have "unat (kds_ring_count (fold ring_push fs s)) = length (ring_items (fold ring_push fs s))"
    by (simp add: ring_items_def ring_len_def)
  then show ?thesis using ring_pops_items [OF P(1)] ring.full_iff [OF P(1)] P(2) by simp
qed

theorem ring_fifo_witness:
  "ring_pops 3 (fold ring_push [7, 8, 9] demo_alloc) = [Some 7, Some 8, Some 9]
    \<and> unat (kds_ring_count (fold ring_push [7, 8, 9] demo_alloc)) = 3"
  using ring_fifo [of demo_alloc "[7, 8, 9]"] by (simp add: demo_alloc_simps numeral_3_eq_3)



text \<open>When memory, device and enough free frames are available and the next ids are not cached yet, batch
  allocation stages every page it asked for.\<close>

theorem batch_alloc_complete:
  assumes "env_good env" and "alloc_wf s" and "kds_bdev s" and "superblock s = Some sb" and "sb_io_page s = Some pg"
    and "max_page_id sb \<noteq> 0" and "0 < count" and "n = unat (min count (kds_ring_free_slots s))"
    and "n \<le> length (free_frames s)" and "\<forall>k < n. pmap s (max_page_id sb + of_nat k) = None"
  shows "\<exists>s'. kds_batch_alloc env count s = (Inr n, s')"
  using batch_alloc_full [OF assms] .

theorem batch_alloc_complete_witness:
  "\<exists>s'. kds_batch_alloc demo_env 1000 demo_alloc = (Inr 127, s')"
proof -
  have w: "127 = unat (min 1000 (kds_ring_free_slots demo_alloc))"
    by (simp add: kds_ring_free_slots_def kds_ring_count_def demo_alloc_simps ring_size)
  show ?thesis
    using batch_alloc_complete [OF demo_env_good demo_alloc_wf demo_alloc_simps(3,1,2) _ _ w]
    by (simp add: demo_alloc_simps KDS_BUF_NR_FRAMES_def)
qed

text \<open>Allocating a page hands out the oldest staged frame with the requested type in its header, changes no other
  frame and no cached page, and removes it from the ring: a second allocation hands out another frame. An empty
  ring gives no frame and changes nothing.\<close>

theorem page_alloc_correct:
  assumes "alloc_wf s" and "g_alloc s"
  shows "case ring_items s of
       [] \<Rightarrow> kds_page_alloc t s = (Inr None, s)
     | f # fs \<Rightarrow> \<exists>s' kp. kds_page_alloc t s = (Inr (Some f), s') \<and> alloc_wf s' \<and> g_alloc s' \<and> ring_items s' = fs
         \<and> f \<notin> set fs \<and> pmap s' = pmap s \<and> fr_kp (pframes s f) = Some kp
         \<and> fr_kp (pframes s' f) = Some (kp\<lparr>kp_hdr := (kp_hdr kp)\<lparr>hdr_type := t\<rparr>\<rparr>)
         \<and> pframes s' = (pframes s)(f := pframes s' f)"
proof (cases "ring_items s")
  case Nil
  then have "kds_ring_count s = 0" by (simp add: ring_items_def ring_len_def unat_eq_0)
  then show ?thesis using Nil assms(2) by (simp add: kds_page_alloc_def call_defs)
next
  case (Cons f fs)
  have "f \<notin> set fs" using assms(1) Cons by (simp add: alloc_wf_def)
  moreover obtain s' kp where S: "kds_page_alloc t s = (Inr (Some f), s')" "alloc_wf s'" "ring_items s' = fs" "pmap s' = pmap s"
    "g_alloc s'" "fr_kp (pframes s f) = Some kp" "fr_kp (pframes s' f) = Some (kp\<lparr>kp_hdr := (kp_hdr kp)\<lparr>hdr_type := t\<rparr>\<rparr>)"
    "\<forall>j. j \<noteq> f \<longrightarrow> pframes s' j = pframes s j"
    using page_alloc_pops [OF assms Cons] by blast
  moreover have "pframes s' = (pframes s)(f := pframes s' f)" using S(8) by auto
  ultimately show ?thesis using Cons by auto
qed

text \<open>The allocator after a batch of two pages.\<close>

lemma demo_batch_two:
  "\<exists>s1 a b. kds_batch_alloc demo_env 2 demo_alloc = (Inr 2, s1) \<and> ring_items s1 = [a, b] \<and> pmap s1 200 = Some a \<and> alloc_wf s1 \<and> g_alloc s1"
proof -
  obtain s1 where r: "kds_batch_alloc demo_env 2 demo_alloc = (Inr 2, s1)" using demo_batch by blast
  have w: "min 2 (kds_ring_free_slots demo_alloc) = 2"
    by (simp add: kds_ring_free_slots_def kds_ring_count_def demo_alloc_simps ring_size)
  have v: "superblock_valid ((first_superblock 0)\<lparr>max_page_id := 200\<rparr>)"
    using first_superblock_valid [of 0] by (simp add: superblock_valid_def)
  note T = batch_alloc_stages [OF env_good_page_size [OF demo_env_good] demo_alloc_wf demo_alloc_simps(1) v demo_alloc_simps(2) _ _ r, unfolded w]
  obtain fs where fs: "ring_items s1 = fs" "length fs = 2" "\<forall>k < 2. pmap s1 (200 + of_nat k) = Some (fs ! k)" "alloc_wf s1"
    using T by (auto simp: demo_alloc_ring)
  obtain a b where ab: "fs = [a, b]" using fs(2) by (auto simp: numeral_2_eq_2 length_Suc_conv)
  have p: "pmap s1 200 = Some a" using fs(3) [rule_format, of 0] ab by simp
  have ga: "g_alloc s1" using T demo_alloc_simps(4) by simp
  show ?thesis using r fs(1,4) ab p ga by blast
qed

theorem page_alloc_correct_witness:
  "kds_page_alloc 3 demo_alloc = (Inr None, demo_alloc)
   \<and> (\<exists>s1 f s2. kds_batch_alloc demo_env 2 demo_alloc = (Inr 2, s1) \<and> kds_page_alloc 3 s1 = (Inr (Some f), s2)
        \<and> pmap s2 200 = Some f \<and> f \<notin> set (ring_items s2) \<and> length (ring_items s2) = 1)"
proof -
  obtain s1 a b where r: "kds_batch_alloc demo_env 2 demo_alloc = (Inr 2, s1)" and s1: "ring_items s1 = [a, b]" "pmap s1 200 = Some a" "alloc_wf s1" "g_alloc s1"
    using demo_batch_two by blast
  have "kds_page_alloc 3 demo_alloc = (Inr None, demo_alloc)"
    using page_alloc_correct [OF demo_alloc_wf demo_alloc_simps(4), of 3] by (simp add: demo_alloc_ring)
  moreover obtain s2 where "kds_page_alloc 3 s1 = (Inr (Some a), s2)" "ring_items s2 = [b]" "a \<noteq> b" "pmap s2 = pmap s1"
    using page_alloc_correct [OF s1(3,4), of 3] s1(1) by auto
  ultimately show ?thesis using r s1(2) by auto
qed

text \<open>C26: Shutdown empties the ring, whatever it holds: the loop ends by itself, every staged frame loses exactly one pin and no other frame changes, the pool stays well-formed, every cached page stays cached, and the allocator is gone. Unregistering the pre-allocation process, when there is one, is assumed to return and to leave the pool and the ring alone.\<close>

theorem shutdown_drains:
  assumes "alloc_wf s" and "g_alloc s" and "kds_prealloc_proc s \<longrightarrow> unregisters proc_unregister s"
  shows "\<exists>s'. kds_shutdown_page_alloc_system proc_unregister s = (Inr (), s') \<and> alloc_wf s' \<and> ring_items s' = []
    \<and> pmap s' = pmap s \<and> \<not> g_alloc s' \<and> pframes s' = unpinned (ring_items s) (pframes s)"
proof -
  have "\<exists>u. (if kds_prealloc_proc s then sbind proc_unregister (\<lambda>_. smod (\<lambda>s. s\<lparr>kds_prealloc_proc := False\<rparr>)) else sret ()) s = (Inr (), u)
      \<and> alloc_wf u \<and> g_alloc u \<and> ring_items u = ring_items s \<and> pmap u = pmap s \<and> pframes u = pframes s"
    using assms by (auto simp: unregisters_def call_defs alloc_wf_flags)
  then obtain u where u: "(if kds_prealloc_proc s then sbind proc_unregister (\<lambda>_. smod (\<lambda>s. s\<lparr>kds_prealloc_proc := False\<rparr>)) else sret ()) s = (Inr (), u)"
    "alloc_wf u" "g_alloc u" "ring_items u = ring_items s" "pmap u = pmap s" "pframes u = pframes s" by blast
  have "length (ring_items u) \<le> unat PRE_ALLOC_RING_BUFFER_SIZE" using free_slots(2) [of u] u(2) by (simp add: ring_size alloc_wf_def)
  from drain_empties [OF u(2) this] obtain s' where d: "drain (unat PRE_ALLOC_RING_BUFFER_SIZE) u = (Inr (), s')" "alloc_wf s'"
    "ring_items s' = []" "pmap s' = pmap s" "pframes s' = unpinned (ring_items s) (pframes s)" using u by auto
  then have "kds_shutdown_page_alloc_system proc_unregister s = (Inr (), s'\<lparr>g_alloc := False\<rparr>)"
    using u(1,3) by (simp add: kds_shutdown_page_alloc_system_def sbind_def [of sget] sget_def sbind_def [of "if _ then _ else _"])
      (simp add: call_defs)
  then show ?thesis using d by (simp add: alloc_wf_flags)
qed


theorem shutdown_drains_witness:
  "\<exists>s1 s2 a b. kds_batch_alloc demo_env 2 demo_alloc = (Inr 2, s1) \<and> ring_items s1 = [a, b]
    \<and> kds_shutdown_page_alloc_system (sret ()) s1 = (Inr (), s2) \<and> ring_items s2 = [] \<and> \<not> g_alloc s2
    \<and> fr_kp (pframes s2 a) = map_option unpin_kpage (fr_kp (pframes s1 a))"
proof -
  obtain s1 a b where r: "kds_batch_alloc demo_env 2 demo_alloc = (Inr 2, s1)" and s1: "ring_items s1 = [a, b]" "alloc_wf s1" "g_alloc s1"
    using demo_batch_two by blast
  have "unregisters (sret ()) s1" using s1 by (simp add: unregisters_def sret_def)
  then show ?thesis
    using shutdown_drains [OF s1(2,3), of "sret ()"] s1(1) r by (auto simp: unpinned_def)
qed


end
