(* ===== verification/Kds_Btree.thy ===== *)
theory Kds_Btree
  imports Kds_Page_Alloc
begin

text \<open>
  The B-tree (\<^verbatim>\<open>kernel/kds/btree.c\<close>, \<^verbatim>\<open>include/linux/kds_btree.h\<close>). The packed page struct is thirteen
  64-bit cells: level, key count, \<^verbatim>\<open>keys[4]\<close>, \<^verbatim>\<open>slots[5]\<close>, next, prev. A node is the list of its cells and the
  frame it came from. Array accesses are cell accesses, so an index past \<^verbatim>\<open>keys[3]\<close> reaches \<^verbatim>\<open>slots[0]\<close> and one
  past \<^verbatim>\<open>slots[4]\<close> reaches \<^verbatim>\<open>next\<close>, as in memory; an access outside the struct is \<open>Fault\<close>. C \<^verbatim>\<open>int\<close> values
  are \<open>int\<close>; a comparison of an \<^verbatim>\<open>int\<close> with the 64-bit key count converts to 64 bits as C does. A call that
  returns a negative errno beside changed out-parameters is a call whose value carries \<open>Some\<close> of the errno;
  \<^verbatim>\<open>BUG_ON\<close> and \<^verbatim>\<open>panic\<close> are \<open>Panic\<close>.
\<close>

section \<open>Structs\<close>

definition BTREE_MAX_KEYS :: int where "BTREE_MAX_KEYS = 4"
definition BTREE_MIN_KEYS :: u64 where "BTREE_MIN_KEYS = 2"
definition BTREE_MAX_DEPTH :: nat where "BTREE_MAX_DEPTH = 16"

record kds_btree_node =
  bt_cells :: "u64 list"
  bt_frame :: "nat option"

record kds_btree_cursor =
  cur_nodes :: "kds_btree_node list"
  cur_positions :: "int list"
  cur_depth :: nat

record kds_btree_split_result =
  promoted_key :: u64
  right_page_id :: u64

text \<open>The allocator's state and the global list of freed pages of \<^verbatim>\<open>page.c\<close>.\<close>

record btree_state = alloc_state +
  free_list :: "u64 list"

definition level_at :: int where "level_at = 0"
definition count_at :: int where "count_at = 1"
definition keys_at :: "int \<Rightarrow> int" where "keys_at i = 2 + i"
definition slots_at :: "int \<Rightarrow> int" where "slots_at i = 6 + i"
definition next_at :: int where "next_at = 11"
definition prev_at :: int where "prev_at = 12"

definition getc :: "int \<Rightarrow> u64 list \<Rightarrow> u64 res" where
  "getc i c = (if 0 \<le> i \<and> nat i < length c then Inr (c ! nat i) else Inl Fault)"

definition setc :: "int \<Rightarrow> u64 \<Rightarrow> u64 list \<Rightarrow> u64 list res" where
  "setc i v c = (if 0 \<le> i \<and> nat i < length c then Inr (c[nat i := v]) else Inl Fault)"

definition movc :: "int \<Rightarrow> int \<Rightarrow> u64 list \<Rightarrow> u64 list res" where
  "movc d i c = rbind (getc i c) (\<lambda>v. setc d v c)"

definition level_of :: "u64 list \<Rightarrow> u64" where "level_of c = c ! 0"
definition count_of :: "u64 list \<Rightarrow> u64" where "count_of c = c ! 1"
definition next_of :: "u64 list \<Rightarrow> u64" where "next_of c = c ! 11"

text \<open>\<^verbatim>\<open>int nkeys = node->key_count\<close>\<close>

definition int_count :: "u64 list \<Rightarrow> int" where
  "int_count c = sint (ucast (count_of c) :: u32)"

definition as_u64 :: "int \<Rightarrow> u64" where "as_u64 i = word_of_int i"

definition blank_cells :: "u64 list" where "blank_cells = replicate 13 0"

text \<open>
  A counting loop over array cells. Consecutive rounds touch consecutive cells and a struct has thirteen, so a
  loop whose sixteenth round is reached has left the struct.
\<close>

fun cell_loop :: "nat \<Rightarrow> (int \<Rightarrow> u64 list \<Rightarrow> bool) \<Rightarrow> (int \<Rightarrow> u64 list \<Rightarrow> u64 list res) \<Rightarrow> int \<Rightarrow> int \<Rightarrow> u64 list \<Rightarrow> u64 list res" where
  "cell_loop 0 c body step i x = Inl Fault"
| "cell_loop (Suc n) c body step i x =
     (if c i x then rbind (body i x) (cell_loop n c body step (i + step)) else Inr x)"

definition for_cells :: "(int \<Rightarrow> u64 list \<Rightarrow> bool) \<Rightarrow> (int \<Rightarrow> u64 list \<Rightarrow> u64 list res) \<Rightarrow> int \<Rightarrow> int \<Rightarrow> u64 list \<Rightarrow> u64 list res" where
  "for_cells = cell_loop 16"

section \<open>Reading and writing nodes\<close>

definition kds_is_btree_page :: "kds_page \<Rightarrow> bool" where
  "kds_is_btree_page kp \<longleftrightarrow> hdr_type (kp_hdr kp) = KDS_PAGE_TYPE_BTREE_ROOT
     \<or> hdr_type (kp_hdr kp) = KDS_PAGE_TYPE_BTREE_INTERNAL \<or> hdr_type (kp_hdr kp) = KDS_PAGE_TYPE_BTREE_DATA"

definition kds_btree_data_copy :: "pagebuf \<Rightarrow> u64 list" where
  "kds_btree_data_copy pg = map (\<lambda>i. dec64 (rd pg (KDS_PAGE_HDR_SIZE + 8 * i) 8)) [0 ..< 13]"

definition kds_btree_data_store :: "pagebuf \<Rightarrow> u64 list \<Rightarrow> pagebuf" where
  "kds_btree_data_store pg c = wr pg KDS_PAGE_HDR_SIZE (concat (map enc64 c))"

definition kds_btree_is_leaf :: "kds_btree_node \<Rightarrow> bool" where
  "kds_btree_is_leaf n \<longleftrightarrow> level_of (bt_cells n) = 0"

definition kds_btree_is_full :: "kds_btree_node \<Rightarrow> bool" where
  "kds_btree_is_full n \<longleftrightarrow> as_u64 BTREE_MAX_KEYS \<le> count_of (bt_cells n)"

definition the_kp :: "nat \<Rightarrow> ('z btree_state_scheme, kds_page) call" where
  "the_kp i = sbind sget (\<lambda>s. case fr_kp (pframes s i) of None \<Rightarrow> sfail Fault | Some kp \<Rightarrow> sret kp)"

definition the_page :: "nat \<Rightarrow> ('z btree_state_scheme, pagebuf) call" where
  "the_page i = sbind sget (\<lambda>s. case fr_page (pframes s i) of None \<Rightarrow> sfail Fault | Some pg \<Rightarrow> sret pg)"

definition put_kp :: "nat \<Rightarrow> kds_page \<Rightarrow> ('z btree_state_scheme, unit) call" where
  "put_kp i kp = smod (upd_frame i (\<lambda>f. f\<lparr>fr_kp := Some kp\<rparr>))"

definition load_btree_node_data :: "nat \<Rightarrow> ('z btree_state_scheme, u64 list) call" where
  "load_btree_node_data i = sbind (the_kp i) (\<lambda>kp.
     if \<not> kds_is_btree_page kp then sfail Panic
     else sbind (the_page i) (\<lambda>pg. sret (kds_btree_data_copy pg)))"

definition load_btree_node :: "nat \<Rightarrow> ('z btree_state_scheme, kds_btree_node) call" where
  "load_btree_node i = sbind (load_btree_node_data i) (\<lambda>c. sret \<lparr>bt_cells = c, bt_frame = Some i\<rparr>)"

definition btree_link_kpage :: "nat \<Rightarrow> u64 list \<Rightarrow> ('z btree_state_scheme, unit) call" where
  "btree_link_kpage i data = sbind (the_kp i) (\<lambda>kp.
     if \<not> kds_is_btree_page kp then sfail Panic
     else sbind (the_page i) (\<lambda>pg. smod (upd_frame i (\<lambda>f. f\<lparr>fr_page := Some (kds_btree_data_store pg data)\<rparr>))))"

definition node_frame :: "kds_btree_node \<Rightarrow> ('z btree_state_scheme, nat) call" where
  "node_frame n = (case bt_frame n of None \<Rightarrow> sfail Fault | Some i \<Rightarrow> sret i)"

definition store_btree_node :: "kds_btree_node \<Rightarrow> ('z btree_state_scheme, unit) call" where
  "store_btree_node n = sbind (node_frame n) (\<lambda>i. btree_link_kpage i (bt_cells n))"

definition set_dirty :: "nat \<Rightarrow> ('z btree_state_scheme, unit) call" where
  "set_dirty i = sbind (the_kp i) (\<lambda>kp. put_kp i (kds_set_page_dirty kp))"

definition node_dirty :: "kds_btree_node \<Rightarrow> ('z btree_state_scheme, unit) call" where
  "node_dirty n = sbind (node_frame n) set_dirty"

text \<open>A call whose errno return value is inspected; panics and faults go through.\<close>

definition sattempt :: "('s, 'a) call \<Rightarrow> (errno + 'a \<Rightarrow> ('s, 'b) call) \<Rightarrow> ('s, 'b) call" where
  "sattempt m f = strying m (\<lambda>r. case r of Inl (Errno e) \<Rightarrow> f (Inl e) | Inl x \<Rightarrow> sfail x | Inr a \<Rightarrow> f (Inr a))"

definition load_page :: "kenv \<Rightarrow> u64 \<Rightarrow> ('z btree_state_scheme, nat) call" where
  "load_page env pid = kds_buf_lookup_or_load env (\<lambda>s. s) pid"

section \<open>Cursors and search\<close>

definition blank_node :: kds_btree_node where
  "blank_node = \<lparr>bt_cells = blank_cells, bt_frame = None\<rparr>"

definition btree_cursor_init :: kds_btree_cursor where
  "btree_cursor_init = \<lparr>cur_nodes = replicate BTREE_MAX_DEPTH blank_node,
     cur_positions = replicate BTREE_MAX_DEPTH 0, cur_depth = 0\<rparr>"

text \<open>The loop visits the entries up to \<^verbatim>\<open>depth\<close> inclusive; entry \<^verbatim>\<open>nodes[16]\<close> does not exist.\<close>

fun unpin_nodes :: "kds_btree_node list \<Rightarrow> nat \<Rightarrow> ('z btree_state_scheme, kds_btree_node list) call" where
  "unpin_nodes [] n = sfail Fault"
| "unpin_nodes (nd # nds) n =
     sbind (case bt_frame nd of None \<Rightarrow> sret nd | Some i \<Rightarrow> sbind (kds_buf_unpin i) (\<lambda>_. sret (nd\<lparr>bt_frame := None\<rparr>))) (\<lambda>nd'.
     case n of 0 \<Rightarrow> sret (nd' # nds)
     | Suc m \<Rightarrow> sbind (unpin_nodes nds m) (\<lambda>nds'. sret (nd' # nds')))"

definition btree_cursor_cleanup :: "kds_btree_cursor \<Rightarrow> ('z btree_state_scheme, kds_btree_cursor) call" where
  "btree_cursor_cleanup cur = sbind (unpin_nodes (cur_nodes cur) (cur_depth cur)) (\<lambda>nds. sret (cur\<lparr>cur_nodes := nds\<rparr>))"

fun scan_keys :: "nat \<Rightarrow> u64 list \<Rightarrow> u64 \<Rightarrow> int \<Rightarrow> int res" where
  "scan_keys 0 c key i = Inl Fault"
| "scan_keys (Suc n) c key i =
     (if i < int_count c
      then rbind (getc (keys_at i) c) (\<lambda>k. if key \<le> k then Inr i else scan_keys n c key (i + 1))
      else Inr (int_count c))"

definition btree_search_position :: "u64 list \<Rightarrow> u64 \<Rightarrow> int res" where
  "btree_search_position c key = scan_keys 16 c key 0"

function bisect_keys :: "u64 list \<Rightarrow> u64 \<Rightarrow> int \<Rightarrow> int \<Rightarrow> int \<Rightarrow> int res" where
  "bisect_keys c key left right pos =
     (if left \<le> right then
        let mid = (left + right) div 2 in
        case getc (keys_at mid) c of
          Inl e \<Rightarrow> Inl e
        | Inr k \<Rightarrow>
            if key < k then bisect_keys c key left (mid - 1) mid
            else if k < key then bisect_keys c key (mid + 1) right (mid + 1)
            else Inr mid
      else Inr pos)"
  by pat_completeness auto
termination
  by (relation "measure (\<lambda>(c, key, left, right, pos). nat (right - left + 1))") auto

declare bisect_keys.simps [simp del]

definition btree_search_position_binary :: "u64 list \<Rightarrow> u64 \<Rightarrow> int res" where
  "btree_search_position_binary c key = bisect_keys c key 0 (sint (ucast (count_of c - 1) :: u32)) 0"

text \<open>The body of one round of the descent, shared by the two copies of the loop in the source.\<close>

definition visit_node :: "nat \<Rightarrow> u64 \<Rightarrow> kds_btree_cursor \<Rightarrow> ('z btree_state_scheme, kds_btree_cursor \<times> bool) call" where
  "visit_node i key cur =
     sbind (load_btree_node i) (\<lambda>node.
     sbind (slift (btree_search_position (bt_cells node) key)) (\<lambda>pos.
     let cur' = cur\<lparr>cur_nodes := (cur_nodes cur)[cur_depth cur := node], cur_positions := (cur_positions cur)[cur_depth cur := pos]\<rparr> in
     if as_u64 pos < count_of (bt_cells node)
     then sbind (slift (getc (keys_at pos) (bt_cells node))) (\<lambda>k. sret (cur', k = key))
     else sret (cur', False)))"

text \<open>\<open>n\<close> is \<^verbatim>\<open>BTREE_MAX_DEPTH - depth\<close>, the number of rounds the loop guard still allows.\<close>

fun descend :: "kenv \<Rightarrow> u64 \<Rightarrow> nat \<Rightarrow> u64 \<Rightarrow> kds_btree_cursor \<Rightarrow> ('z btree_state_scheme, errno option \<times> kds_btree_cursor) call" where
  "descend env key 0 pid cur = sret (Some E2BIG, cur)"
| "descend env key (Suc n) pid cur =
     sattempt (load_page env pid) (\<lambda>r.
     case r of Inl e \<Rightarrow> sret (Some e, cur)
     | Inr i \<Rightarrow>
       sbind (visit_node i key cur) (\<lambda>(cur', found).
       let c = bt_cells (cur_nodes cur' ! cur_depth cur') in
       if found then sret (Some EEXIST, cur')
       else if level_of c = 0 then sret (None, cur')
       else sbind (slift (getc (slots_at (cur_positions cur' ! cur_depth cur')) c)) (\<lambda>child.
         descend env key n child (cur'\<lparr>cur_depth := Suc (cur_depth cur')\<rparr>))))"

definition btree_cursor_search :: "kenv \<Rightarrow> u64 \<Rightarrow> u64 \<Rightarrow> ('z btree_state_scheme, errno option \<times> kds_btree_cursor) call" where
  "btree_cursor_search env root_page_id key = descend env key BTREE_MAX_DEPTH root_page_id btree_cursor_init"

definition kds_btree_cursor_search :: "kenv \<Rightarrow> u64 \<Rightarrow> u64 \<Rightarrow> ('z btree_state_scheme, errno option \<times> kds_btree_cursor) call" where
  "kds_btree_cursor_search env root_page_id key =
     sbind (descend env key BTREE_MAX_DEPTH root_page_id btree_cursor_init) (\<lambda>(ret, cur).
     case ret of None \<Rightarrow> sret (None, cur)
     | Some e \<Rightarrow> sbind (btree_cursor_cleanup cur) (\<lambda>cur'. sret (Some e, cur')))"

section \<open>Inserting into a node\<close>

definition btree_node_insert_at :: "u64 list \<Rightarrow> int \<Rightarrow> u64 \<Rightarrow> u64 \<Rightarrow> u64 list res" where
  "btree_node_insert_at c pos key slot =
     rbind (for_cells (\<lambda>i _. i > pos)
              (\<lambda>i c. rbind (movc (keys_at i) (keys_at (i - 1)) c) (movc (slots_at (i + 1)) (slots_at i)))
              (-1) (int_count c) c) (\<lambda>c.
     rbind (setc (keys_at pos) key c) (\<lambda>c.
     rbind (setc (slots_at (pos + 1)) slot c) (\<lambda>c.
     setc count_at (count_of c + 1) c)))"

section \<open>Splitting\<close>

text \<open>\<^verbatim>\<open>kds_commit_page_hdr\<close> ignores its result here, as the caller does.\<close>

definition commit_hdr :: "nat \<Rightarrow> ('z btree_state_scheme, unit) call" where
  "commit_hdr i = sbind sget (\<lambda>s. case kds_commit_page_hdr (pframes s i) of
     Inr f \<Rightarrow> smod (upd_frame i (\<lambda>_. f)) | Inl (Errno _) \<Rightarrow> sret () | Inl e \<Rightarrow> sfail e)"

definition btree_alloc_new_page :: "kenv \<Rightarrow> u32 \<Rightarrow> ('z btree_state_scheme, nat) call" where
  "btree_alloc_new_page env type =
     sbind sget (\<lambda>s. case assign_page_id s of (new_id, s') \<Rightarrow>
     sbind (smod (\<lambda>_. s')) (\<lambda>_.
     if new_id = 0 then sfail (Errno ENOMEM)
     else sbind (kds_buf_alloc_new env new_id) (\<lambda>i.
     sbind (the_kp i) (\<lambda>kp.
     sbind (put_kp i (kp\<lparr>kp_hdr := (kp_hdr kp)\<lparr>hdr_type := type, hdr_flags := hdr_flags (kp_hdr kp) OR KDS_PAGE_FLAG_INIT\<rparr>\<rparr>)) (\<lambda>_.
     sbind (commit_hdr i) (\<lambda>_. sret i))))))"

text \<open>The cells of the new right sibling, and of the node that stays on the left.\<close>

definition split_right :: "u64 list \<Rightarrow> u64 \<Rightarrow> u64 list res" where
  "split_right c left_id =
     (let mid = BTREE_MAX_KEYS div 2 in
      rbind (cell_loop 16 (\<lambda>i _. i < BTREE_MAX_KEYS)
        (\<lambda>i n. rbind (getc (keys_at i) c) (\<lambda>k. rbind (setc (keys_at (i - (mid + 1))) k n) (\<lambda>n.
               rbind (getc (slots_at i) c) (\<lambda>v. setc (slots_at (i - (mid + 1))) v n))))
        1 (mid + 1) (blank_cells[0 := level_of c, 11 := next_of c, 12 := left_id])) (\<lambda>n.
      rbind (getc (slots_at BTREE_MAX_KEYS) c) (\<lambda>v.
      rbind (setc (slots_at (BTREE_MAX_KEYS - (mid + 1))) v n) (\<lambda>n.
      setc count_at (as_u64 (BTREE_MAX_KEYS - mid - 1)) n))))"

definition split_left :: "u64 list \<Rightarrow> u64 \<Rightarrow> u64 list res" where
  "split_left c right_id =
     rbind (setc count_at (as_u64 (BTREE_MAX_KEYS div 2)) c) (setc next_at right_id)"

text \<open>Point the \<^verbatim>\<open>prev\<close> link of page \<open>pid\<close> at \<open>new_prev\<close>; a page that cannot be loaded is skipped with a warning.\<close>

definition relink_next :: "kenv \<Rightarrow> u64 \<Rightarrow> u64 \<Rightarrow> ('z btree_state_scheme, unit) call" where
  "relink_next env pid new_prev =
     (if pid = 0 then sret ()
      else sattempt (load_page env pid) (\<lambda>r.
        case r of Inl _ \<Rightarrow> sret ()
        | Inr j \<Rightarrow>
          sbind (load_btree_node j) (\<lambda>next_node.
          sbind (slift (setc prev_at new_prev (bt_cells next_node))) (\<lambda>c.
          sbind (store_btree_node (next_node\<lparr>bt_cells := c\<rparr>)) (\<lambda>_. kds_buf_unpin j)))))"

definition btree_split_node :: "kenv \<Rightarrow> kds_btree_node \<Rightarrow> ('z btree_state_scheme, kds_btree_node \<times> kds_btree_split_result) call" where
  "btree_split_node env node =
     sbind (node_frame node) (\<lambda>i.
     sbind (the_kp i) (\<lambda>kp.
     sbind (btree_alloc_new_page env (hdr_type (kp_hdr kp))) (\<lambda>j.
     sbind (the_kp i) (\<lambda>kp.
     sbind (the_kp j) (\<lambda>new_kp.
     sbind (slift (split_right (bt_cells node) (kp_id kp))) (\<lambda>rc.
     sbind (slift (getc (keys_at (BTREE_MAX_KEYS div 2)) (bt_cells node))) (\<lambda>pk.
     sbind (slift (split_left (bt_cells node) (kp_id new_kp))) (\<lambda>lc.
     sbind (store_btree_node (node\<lparr>bt_cells := lc\<rparr>)) (\<lambda>_.
     sbind (store_btree_node \<lparr>bt_cells = rc, bt_frame = Some j\<rparr>) (\<lambda>_.
     sbind (relink_next env (next_of rc) (kp_id new_kp)) (\<lambda>_.
     sbind (set_dirty i) (\<lambda>_.
     sbind (set_dirty j) (\<lambda>_.
     sbind (kds_buf_unpin j) (\<lambda>_.
     sret (node\<lparr>bt_cells := lc\<rparr>, \<lparr>promoted_key = pk, right_page_id = kp_id new_kp\<rparr>)))))))))))))))"

section \<open>Propagating a split\<close>

definition insert_split :: "kds_btree_cursor \<Rightarrow> nat \<Rightarrow> kds_btree_split_result \<Rightarrow> kds_btree_node res" where
  "insert_split cur level sr =
     rbind (btree_node_insert_at (bt_cells (cur_nodes cur ! level)) (cur_positions cur ! level) (promoted_key sr) (right_page_id sr))
       (\<lambda>c. Inr ((cur_nodes cur ! level)\<lparr>bt_cells := c\<rparr>))"

text \<open>The new root is written and then the code panics, because the catalogue cannot be told about it.\<close>

definition grow_root :: "kenv \<Rightarrow> kds_btree_cursor \<Rightarrow> kds_btree_split_result \<Rightarrow> ('z btree_state_scheme, errno option \<times> kds_btree_cursor) call" where
  "grow_root env cur sr =
     sattempt (btree_alloc_new_page env KDS_PAGE_TYPE_BTREE_ROOT) (\<lambda>r.
     case r of Inl e \<Rightarrow> sret (Some e, cur)
     | Inr j \<Rightarrow>
       let root = cur_nodes cur ! 0 in
       sbind (node_frame root) (\<lambda>i.
       sbind (the_kp i) (\<lambda>kp.
       sbind (put_kp i (kds_set_page_dirty (kp\<lparr>kp_hdr := (kp_hdr kp)\<lparr>hdr_type := KDS_PAGE_TYPE_BTREE_INTERNAL\<rparr>\<rparr>))) (\<lambda>_.
       sbind (store_btree_node \<lparr>bt_cells = blank_cells[0 := level_of (bt_cells root) + 1, 1 := 1, 2 := promoted_key sr,
                6 := kp_id kp, 7 := right_page_id sr], bt_frame = Some j\<rparr>) (\<lambda>_.
       sbind (set_dirty j) (\<lambda>_.
       sbind (kds_buf_unpin j) (\<lambda>_. sfail Panic)))))))"

text \<open>\<open>n\<close> levels above are still to be visited: the parent is level \<open>n - 1\<close>.\<close>

fun propagate :: "kenv \<Rightarrow> nat \<Rightarrow> kds_btree_cursor \<Rightarrow> kds_btree_split_result \<Rightarrow> ('z btree_state_scheme, errno option \<times> kds_btree_cursor) call" where
  "propagate env 0 cur sr = grow_root env cur sr"
| "propagate env (Suc l) cur sr =
     (let has_space = count_of (bt_cells (cur_nodes cur ! l)) < as_u64 BTREE_MAX_KEYS in
      sbind (slift (insert_split cur l sr)) (\<lambda>parent.
      if has_space
      then sbind (store_btree_node parent) (\<lambda>_. sret (None, cur\<lparr>cur_nodes := (cur_nodes cur)[l := parent]\<rparr>))
      else sattempt (btree_split_node env parent) (\<lambda>r.
        case r of Inl _ \<Rightarrow> sret (Some ENOMEM, cur\<lparr>cur_nodes := (cur_nodes cur)[l := parent]\<rparr>)
        | Inr (parent', sr') \<Rightarrow> propagate env l (cur\<lparr>cur_nodes := (cur_nodes cur)[l := parent']\<rparr>) sr')))"

definition btree_propagate_split ::
  "kenv \<Rightarrow> kds_btree_cursor \<Rightarrow> kds_btree_split_result \<Rightarrow> ('z btree_state_scheme, errno option \<times> kds_btree_cursor) call" where
  "btree_propagate_split env cur sr = propagate env (cur_depth cur) cur sr"

section \<open>Inserting\<close>

definition put_leaf :: "kds_btree_cursor \<Rightarrow> kds_btree_node \<Rightarrow> kds_btree_cursor" where
  "put_leaf cur leaf = cur\<lparr>cur_nodes := (cur_nodes cur)[cur_depth cur := leaf]\<rparr>"

definition kds_btree_cursor_insert ::
  "kenv \<Rightarrow> kds_btree_cursor \<Rightarrow> u64 \<Rightarrow> u64 \<Rightarrow> ('z btree_state_scheme, errno option \<times> kds_btree_cursor) call" where
  "kds_btree_cursor_insert env cur key value_page_id =
     (let leaf = cur_nodes cur ! cur_depth cur; pos = cur_positions cur ! cur_depth cur in
      sbind (slift (btree_node_insert_at (bt_cells leaf) pos key value_page_id)) (\<lambda>c.
      let leaf' = leaf\<lparr>bt_cells := c\<rparr> in
      if count_of (bt_cells leaf) < as_u64 BTREE_MAX_KEYS
      then sbind (store_btree_node leaf') (\<lambda>_.
           sbind (btree_cursor_cleanup (put_leaf cur leaf')) (\<lambda>cur'. sret (None, cur')))
      else sattempt (btree_split_node env leaf') (\<lambda>r.
        case r of Inl e \<Rightarrow> sbind (btree_cursor_cleanup (put_leaf cur leaf')) (\<lambda>cur'. sret (Some e, cur'))
        | Inr (leaf'', sr) \<Rightarrow>
          sbind (btree_propagate_split env (put_leaf cur leaf'') sr) (\<lambda>(ret, cur').
          sbind (btree_cursor_cleanup cur') (\<lambda>cur''. sret (ret, cur''))))))"

definition btree_insert :: "kenv \<Rightarrow> u64 \<Rightarrow> u64 \<Rightarrow> u64 \<Rightarrow> ('z btree_state_scheme, errno option) call" where
  "btree_insert env root_page_id key value_page_id =
     sbind (kds_btree_cursor_search env root_page_id key) (\<lambda>(ret, cur).
     case ret of Some e \<Rightarrow> sret (Some e)
     | None \<Rightarrow> sbind (kds_btree_cursor_insert env cur key value_page_id) (\<lambda>(ret, cur). sret ret))"

section \<open>Removing and rebalancing\<close>

definition btree_node_remove_at :: "u64 list \<Rightarrow> int \<Rightarrow> u64 list res" where
  "btree_node_remove_at c pos =
     rbind (for_cells (\<lambda>i c. as_u64 i < count_of c - 1) (\<lambda>i. movc (keys_at i) (keys_at (i + 1))) 1 pos c) (\<lambda>c.
     rbind (for_cells (\<lambda>i c. as_u64 i < count_of c) (\<lambda>i. movc (slots_at i) (slots_at (i + 1))) 1 (pos + 1) c) (\<lambda>c.
     setc count_at (count_of c - 1) c))"

definition btree_node_is_underflow :: "u64 list \<Rightarrow> bool" where
  "btree_node_is_underflow c \<longleftrightarrow> count_of c < BTREE_MIN_KEYS"

text \<open>Array subscripts with the 64-bit key count: the address arithmetic is on 64 bits.\<close>

definition count_index :: "u64 list \<Rightarrow> int" where "count_index c = sint (count_of c)"

definition bump_count :: "u64 \<Rightarrow> u64 list \<Rightarrow> u64 list res" where
  "bump_count d c = setc count_at (count_of c + d) c"

text \<open>One entry moves from the left sibling to the front of the node: (parent, left, node).\<close>

definition redistribute_left_cells :: "u64 list \<Rightarrow> int \<Rightarrow> u64 list \<Rightarrow> u64 list \<Rightarrow> (u64 list \<times> u64 list \<times> u64 list) res" where
  "redistribute_left_cells parent sep left node =
     (if level_of node = 0 then
        rbind (for_cells (\<lambda>i _. 0 < i)
                 (\<lambda>i c. rbind (movc (keys_at i) (keys_at (i - 1)) c) (movc (slots_at i) (slots_at (i - 1))))
                 (-1) (int_count node) node) (\<lambda>node.
        rbind (getc (keys_at (count_index left - 1)) left) (\<lambda>k.
        rbind (setc (keys_at 0) k node) (\<lambda>node.
        rbind (getc (slots_at (count_index left - 1)) left) (\<lambda>v.
        rbind (setc (slots_at 0) v node) (\<lambda>node.
        rbind (bump_count 1 node) (\<lambda>node.
        rbind (bump_count (-1) left) (\<lambda>left.
        rbind (getc (keys_at 0) node) (\<lambda>k0.
        rbind (setc (keys_at sep) k0 parent) (\<lambda>parent. Inr (parent, left, node))))))))))
      else
        rbind (for_cells (\<lambda>i _. 0 < i) (\<lambda>i. movc (keys_at i) (keys_at (i - 1))) (-1) (int_count node) node) (\<lambda>node.
        rbind (for_cells (\<lambda>i _. 0 < i) (\<lambda>i. movc (slots_at i) (slots_at (i - 1))) (-1)
                 (sint (ucast (count_of node + 1) :: u32)) node) (\<lambda>node.
        rbind (getc (keys_at sep) parent) (\<lambda>k.
        rbind (setc (keys_at 0) k node) (\<lambda>node.
        rbind (getc (slots_at (count_index left)) left) (\<lambda>v.
        rbind (setc (slots_at 0) v node) (\<lambda>node.
        rbind (bump_count 1 node) (\<lambda>node.
        rbind (getc (keys_at (count_index left - 1)) left) (\<lambda>k1.
        rbind (setc (keys_at sep) k1 parent) (\<lambda>parent.
        rbind (bump_count (-1) left) (\<lambda>left. Inr (parent, left, node))))))))))))"

definition redistribute_right_cells :: "u64 list \<Rightarrow> int \<Rightarrow> u64 list \<Rightarrow> u64 list \<Rightarrow> (u64 list \<times> u64 list \<times> u64 list) res" where
  "redistribute_right_cells parent sep node right =
     (if level_of node = 0 then
        rbind (getc (keys_at 0) right) (\<lambda>k.
        rbind (setc (keys_at (count_index node)) k node) (\<lambda>node.
        rbind (getc (slots_at 0) right) (\<lambda>v.
        rbind (setc (slots_at (count_index node)) v node) (\<lambda>node.
        rbind (bump_count 1 node) (\<lambda>node.
        rbind (for_cells (\<lambda>i c. as_u64 i < count_of c - 1)
                 (\<lambda>i c. rbind (movc (keys_at i) (keys_at (i + 1)) c) (movc (slots_at i) (slots_at (i + 1)))) 1 0 right) (\<lambda>right.
        rbind (bump_count (-1) right) (\<lambda>right.
        rbind (getc (keys_at 0) right) (\<lambda>k0.
        rbind (setc (keys_at sep) k0 parent) (\<lambda>parent. Inr (parent, node, right))))))))))
      else
        rbind (getc (keys_at sep) parent) (\<lambda>k.
        rbind (setc (keys_at (count_index node)) k node) (\<lambda>node.
        rbind (getc (slots_at 0) right) (\<lambda>v.
        rbind (setc (slots_at (count_index node + 1)) v node) (\<lambda>node.
        rbind (bump_count 1 node) (\<lambda>node.
        rbind (getc (keys_at 0) right) (\<lambda>k0.
        rbind (setc (keys_at sep) k0 parent) (\<lambda>parent.
        rbind (for_cells (\<lambda>i c. as_u64 i < count_of c - 1) (\<lambda>i. movc (keys_at i) (keys_at (i + 1))) 1 0 right) (\<lambda>right.
        rbind (for_cells (\<lambda>i c. as_u64 i < count_of c) (\<lambda>i. movc (slots_at i) (slots_at (i + 1))) 1 0 right) (\<lambda>right.
        rbind (bump_count (-1) right) (\<lambda>right. Inr (parent, node, right))))))))))))"

text \<open>The three nodes go back to their pages and are marked dirty. Updated: (first, second, third).\<close>

definition store_three :: "kds_btree_node \<Rightarrow> kds_btree_node \<Rightarrow> kds_btree_node \<Rightarrow> ('z btree_state_scheme, unit) call" where
  "store_three a b c =
     sbind (store_btree_node a) (\<lambda>_. sbind (store_btree_node b) (\<lambda>_. sbind (store_btree_node c) (\<lambda>_.
     sbind (node_dirty a) (\<lambda>_. sbind (node_dirty b) (\<lambda>_. node_dirty c)))))"

definition btree_redistribute_from_left ::
  "kds_btree_node \<Rightarrow> int \<Rightarrow> kds_btree_node \<Rightarrow> kds_btree_node \<Rightarrow> ('z btree_state_scheme, kds_btree_node \<times> kds_btree_node) call" where
  "btree_redistribute_from_left parent sep_pos left node =
     sbind (slift (redistribute_left_cells (bt_cells parent) sep_pos (bt_cells left) (bt_cells node))) (\<lambda>(p, l, n).
     sbind (store_three (left\<lparr>bt_cells := l\<rparr>) (node\<lparr>bt_cells := n\<rparr>) (parent\<lparr>bt_cells := p\<rparr>)) (\<lambda>_.
     sret (parent\<lparr>bt_cells := p\<rparr>, node\<lparr>bt_cells := n\<rparr>)))"

definition btree_redistribute_from_right ::
  "kds_btree_node \<Rightarrow> int \<Rightarrow> kds_btree_node \<Rightarrow> kds_btree_node \<Rightarrow> ('z btree_state_scheme, kds_btree_node \<times> kds_btree_node) call" where
  "btree_redistribute_from_right parent sep_pos node right =
     sbind (slift (redistribute_right_cells (bt_cells parent) sep_pos (bt_cells node) (bt_cells right))) (\<lambda>(p, n, r).
     sbind (store_three (node\<lparr>bt_cells := n\<rparr>) (right\<lparr>bt_cells := r\<rparr>) (parent\<lparr>bt_cells := p\<rparr>)) (\<lambda>_.
     sret (parent\<lparr>bt_cells := p\<rparr>, node\<lparr>bt_cells := n\<rparr>)))"

definition merge_leaf_cells :: "u64 list \<Rightarrow> u64 list \<Rightarrow> u64 list res" where
  "merge_leaf_cells left right =
     (let base = int_count left in
      rbind (for_cells (\<lambda>i _. as_u64 i < count_of right)
        (\<lambda>i c. rbind (getc (keys_at i) right) (\<lambda>k. rbind (setc (keys_at (base + i)) k c) (\<lambda>c.
               rbind (getc (slots_at i) right) (\<lambda>v. setc (slots_at (base + i)) v c)))) 1 0 left) (\<lambda>c.
      rbind (bump_count (count_of right) c) (setc next_at (next_of right))))"

definition merge_internal_cells :: "u64 list \<Rightarrow> int \<Rightarrow> u64 list \<Rightarrow> u64 list \<Rightarrow> u64 list res" where
  "merge_internal_cells parent sep left right =
     (let base = int_count left in
      rbind (getc (keys_at sep) parent) (\<lambda>k.
      rbind (setc (keys_at base) k left) (\<lambda>c.
      rbind (for_cells (\<lambda>i _. as_u64 i < count_of right)
        (\<lambda>i c. rbind (getc (keys_at i) right) (\<lambda>k. setc (keys_at (base + 1 + i)) k c)) 1 0 c) (\<lambda>c.
      rbind (for_cells (\<lambda>i _. as_u64 i \<le> count_of right)
        (\<lambda>i c. rbind (getc (slots_at i) right) (\<lambda>v. setc (slots_at (base + 1 + i)) v c)) 1 0 c) (\<lambda>c.
      bump_count (count_of right + 1) c)))))"

definition btree_merge_nodes ::
  "kenv \<Rightarrow> kds_btree_node \<Rightarrow> int \<Rightarrow> kds_btree_node \<Rightarrow> kds_btree_node \<Rightarrow> ('z btree_state_scheme, kds_btree_node \<times> kds_btree_node) call" where
  "btree_merge_nodes env parent sep_pos left right =
     sbind (if level_of (bt_cells left) = 0
            then sbind (slift (merge_leaf_cells (bt_cells left) (bt_cells right))) (\<lambda>c.
                 sbind (node_frame left) (\<lambda>i.
                 sbind (the_kp i) (\<lambda>kp.
                 sbind (relink_next env (next_of (bt_cells right)) (kp_id kp)) (\<lambda>_. sret c))))
            else slift (merge_internal_cells (bt_cells parent) sep_pos (bt_cells left) (bt_cells right))) (\<lambda>lc.
     sbind (slift (btree_node_remove_at (bt_cells parent) sep_pos)) (\<lambda>pc.
     let left' = left\<lparr>bt_cells := lc\<rparr>; parent' = parent\<lparr>bt_cells := pc\<rparr> in
     sbind (store_btree_node left') (\<lambda>_. sbind (store_btree_node parent') (\<lambda>_.
     sbind (node_dirty left') (\<lambda>_. sbind (node_dirty parent') (\<lambda>_. sret (parent', left')))))))"

text \<open>\<^verbatim>\<open>kds_free_page\<close> on a frame of the pool; its result is ignored.\<close>

definition free_page :: "nat \<Rightarrow> ('z btree_state_scheme, unit) call" where
  "free_page i = sbind sget (\<lambda>s. case kds_free_page (free_list s) (pframes s i) of
     Inr (fl, f) \<Rightarrow> smod (\<lambda>s. upd_frame i (\<lambda>_. f) (s\<lparr>free_list := fl\<rparr>))
   | Inl (Errno _) \<Rightarrow> sret () | Inl e \<Rightarrow> sfail e)"

text \<open>Load a sibling; a failed load only warns.\<close>

definition load_sibling :: "kenv \<Rightarrow> u64 list \<Rightarrow> int \<Rightarrow> ('z btree_state_scheme, (nat \<times> kds_btree_node) option) call" where
  "load_sibling env parent p =
     sbind (slift (getc (slots_at p) parent)) (\<lambda>pid.
     sattempt (load_page env pid) (\<lambda>r. case r of Inl _ \<Rightarrow> sret None
       | Inr i \<Rightarrow> sbind (load_btree_node i) (\<lambda>nd. sret (Some (i, nd)))))"

definition set_pair :: "kds_btree_cursor \<Rightarrow> nat \<Rightarrow> kds_btree_node \<Rightarrow> kds_btree_node \<Rightarrow> kds_btree_cursor" where
  "set_pair cur l parent node = cur\<lparr>cur_nodes := (cur_nodes cur)[l := parent, Suc l := node]\<rparr>"

text \<open>Merging at one level: the pins of the siblings are dropped and the absorbed page is freed.\<close>

definition merge_level ::
  "kenv \<Rightarrow> kds_btree_cursor \<Rightarrow> nat \<Rightarrow> int \<Rightarrow> (nat \<times> kds_btree_node) option \<Rightarrow> (nat \<times> kds_btree_node) option
    \<Rightarrow> ('z btree_state_scheme, kds_btree_cursor) call" where
  "merge_level env cur l pos left right =
     (let parent = cur_nodes cur ! l; node = cur_nodes cur ! Suc l in
      case left of
        Some (li, ln) \<Rightarrow>
          sbind (btree_merge_nodes env parent (pos - 1) ln node) (\<lambda>(parent', _).
          sbind (kds_buf_unpin li) (\<lambda>_.
          sbind (case right of None \<Rightarrow> sret () | Some (ri, _) \<Rightarrow> kds_buf_unpin ri) (\<lambda>_.
          sbind (node_frame node) (\<lambda>i.
          sbind (free_page i) (\<lambda>_. sret (set_pair cur l parent' node))))))
      | None \<Rightarrow>
          (case right of
             Some (ri, rn) \<Rightarrow>
               sbind (btree_merge_nodes env parent pos node rn) (\<lambda>(parent', node').
               sbind (kds_buf_unpin ri) (\<lambda>_.
               sbind (free_page ri) (\<lambda>_. sret (set_pair cur l parent' node'))))
           | None \<Rightarrow> sret cur))"

text \<open>One round of the loop; the flag says that the function returned from inside it.\<close>

definition underflow_right ::
  "kenv \<Rightarrow> nat \<Rightarrow> kds_btree_cursor \<Rightarrow> (nat \<times> kds_btree_node) option \<Rightarrow> ('z btree_state_scheme, bool \<times> kds_btree_cursor) call" where
  "underflow_right env l cur left =
     (let node = cur_nodes cur ! Suc l; parent = cur_nodes cur ! l; pos = cur_positions cur ! l in
      sbind (if as_u64 pos < count_of (bt_cells parent) then load_sibling env (bt_cells parent) (pos + 1) else sret None) (\<lambda>right.
      let merge = sbind (merge_level env cur l pos left right) (\<lambda>cur'. sret (False, cur')) in
      case right of
        Some (ri, rn) \<Rightarrow>
          if BTREE_MIN_KEYS < count_of (bt_cells rn)
          then sbind (btree_redistribute_from_right parent pos node rn) (\<lambda>(parent', node').
               sbind (case left of None \<Rightarrow> sret () | Some (li, _) \<Rightarrow> kds_buf_unpin li) (\<lambda>_.
               sbind (kds_buf_unpin ri) (\<lambda>_. sret (True, set_pair cur l parent' node'))))
          else merge
      | None \<Rightarrow> merge))"

definition underflow_level :: "kenv \<Rightarrow> nat \<Rightarrow> kds_btree_cursor \<Rightarrow> ('z btree_state_scheme, bool \<times> kds_btree_cursor) call" where
  "underflow_level env l cur =
     (let node = cur_nodes cur ! Suc l; parent = cur_nodes cur ! l; pos = cur_positions cur ! l in
      if \<not> btree_node_is_underflow (bt_cells node) then sret (True, cur)
      else
        sbind (if 0 < pos then load_sibling env (bt_cells parent) (pos - 1) else sret None) (\<lambda>left.
        case left of
          Some (li, ln) \<Rightarrow>
            if BTREE_MIN_KEYS < count_of (bt_cells ln)
            then sbind (btree_redistribute_from_left parent (pos - 1) ln node) (\<lambda>(parent', node').
                 sbind (kds_buf_unpin li) (\<lambda>_. sret (True, set_pair cur l parent' node')))
            else underflow_right env l cur left
        | None \<Rightarrow> underflow_right env l cur None))"

fun btree_handle_underflow :: "kenv \<Rightarrow> kds_btree_cursor \<Rightarrow> nat \<Rightarrow> ('z btree_state_scheme, kds_btree_cursor) call" where
  "btree_handle_underflow env cur 0 = sret cur"
| "btree_handle_underflow env cur (Suc l) =
     sbind (underflow_level env l cur) (\<lambda>(returned, cur').
     if returned then sret cur' else btree_handle_underflow env cur' l)"

section \<open>Deleting\<close>

text \<open>The child of an empty internal root becomes the root; the old root page is freed.\<close>

definition collapse_root :: "kenv \<Rightarrow> kds_btree_cursor \<Rightarrow> ('z btree_state_scheme, errno option) call" where
  "collapse_root env cur =
     (let root = cur_nodes cur ! 0 in
      if level_of (bt_cells root) = 0 \<or> count_of (bt_cells root) \<noteq> 0 then sret None
      else sbind (slift (getc (slots_at 0) (bt_cells root))) (\<lambda>child_id.
        sattempt (load_page env child_id) (\<lambda>r.
        case r of Inl e \<Rightarrow> sret (Some e)
        | Inr j \<Rightarrow>
          sbind (the_kp j) (\<lambda>kp.
          sbind (put_kp j (if hdr_type (kp_hdr kp) = KDS_PAGE_TYPE_BTREE_INTERNAL
                           then kp\<lparr>kp_hdr := (kp_hdr kp)\<lparr>hdr_type := KDS_PAGE_TYPE_BTREE_ROOT\<rparr>\<rparr> else kp)) (\<lambda>_.
          sbind (set_dirty j) (\<lambda>_.
          sbind (commit_hdr j) (\<lambda>_.
          sbind (kds_buf_unpin j) (\<lambda>_.
          sbind (node_frame root) (\<lambda>i.
          sbind (free_page i) (\<lambda>_. sret None))))))))))"

definition btree_delete :: "kenv \<Rightarrow> u64 \<Rightarrow> u64 \<Rightarrow> ('z btree_state_scheme, errno option) call" where
  "btree_delete env root_page_id key =
     sbind (btree_cursor_search env root_page_id key) (\<lambda>(ret, cur).
     if ret \<noteq> Some EEXIST
     then sbind (btree_cursor_cleanup cur) (\<lambda>_. sret (Some (case ret of None \<Rightarrow> ENOENT | Some e \<Rightarrow> e)))
     else
       let leaf = cur_nodes cur ! cur_depth cur; pos = cur_positions cur ! cur_depth cur in
       sbind (slift (btree_node_remove_at (bt_cells leaf) pos)) (\<lambda>c.
       let leaf' = leaf\<lparr>bt_cells := c\<rparr>; cur' = put_leaf cur leaf' in
       sbind (store_btree_node leaf') (\<lambda>_.
       sbind (node_dirty leaf') (\<lambda>_.
       sbind (if 0 < cur_depth cur' \<and> btree_node_is_underflow c then btree_handle_underflow env cur' (cur_depth cur') else sret cur') (\<lambda>cur2.
       sbind (collapse_root env cur2) (\<lambda>r.
       sbind (btree_cursor_cleanup cur2) (\<lambda>_. sret r)))))))"

section \<open>Traversal\<close>

text \<open>
  The callback sees the node, its frame, the depth and a key index and may change its private data; a non-zero
  result stops the walk. The context carries that data, the depth and the two counters.
\<close>

type_synonym 'p traverse_cb = "kds_btree_node \<Rightarrow> nat \<Rightarrow> int \<Rightarrow> int \<Rightarrow> 'p \<Rightarrow> int \<times> 'p"

record 'p kds_btree_traverse_ctx =
  private_data :: 'p
  tr_depth :: int
  visited_nodes :: u64
  visited_keys :: u64

fun leaf_keys :: "'p traverse_cb \<Rightarrow> kds_btree_node \<Rightarrow> nat \<Rightarrow> int list \<Rightarrow> 'p kds_btree_traverse_ctx \<Rightarrow> int \<times> 'p kds_btree_traverse_ctx" where
  "leaf_keys cb node frame [] ctx = (0, ctx)"
| "leaf_keys cb node frame (i # is) ctx =
     (case cb node frame (tr_depth ctx) i (private_data ctx) of (ret, p) \<Rightarrow>
        if ret \<noteq> 0 then (ret, ctx\<lparr>private_data := p\<rparr>)
        else leaf_keys cb node frame is (ctx\<lparr>private_data := p, visited_keys := visited_keys ctx + 1\<rparr>))"

definition kds_btree_traverse_leaf ::
  "'p traverse_cb \<Rightarrow> kds_btree_node \<Rightarrow> nat \<Rightarrow> 'p kds_btree_traverse_ctx \<Rightarrow> int \<times> 'p kds_btree_traverse_ctx" where
  "kds_btree_traverse_leaf cb node frame ctx =
     (case cb node frame (tr_depth ctx) (-1) (private_data ctx) of (ret, p) \<Rightarrow>
        if ret \<noteq> 0 then (ret, ctx\<lparr>private_data := p\<rparr>)
        else leaf_keys cb node frame (map int [0 ..< unat (count_of (bt_cells node))])
               (ctx\<lparr>private_data := p, visited_nodes := visited_nodes ctx + 1\<rparr>))"

text \<open>
  The recursion follows child pointers; on a cyclic structure it runs out of kernel stack. \<open>fuel\<close> bounds the number
  of nested calls and its end is \<open>Fault\<close>. A failure to load a child is the errno result.
\<close>

fun traverse_internal ::
  "nat \<Rightarrow> kenv \<Rightarrow> 'p traverse_cb \<Rightarrow> kds_btree_node \<Rightarrow> nat \<Rightarrow> 'p kds_btree_traverse_ctx
    \<Rightarrow> ('z btree_state_scheme, (errno + int) \<times> 'p kds_btree_traverse_ctx) call"
and traverse_children ::
  "nat \<Rightarrow> kenv \<Rightarrow> 'p traverse_cb \<Rightarrow> kds_btree_node \<Rightarrow> int list \<Rightarrow> 'p kds_btree_traverse_ctx
    \<Rightarrow> ('z btree_state_scheme, (errno + int) \<times> 'p kds_btree_traverse_ctx) call" where
  "traverse_internal 0 env cb node frame ctx = sfail Fault"
| "traverse_internal (Suc fuel) env cb node frame ctx =
     (case cb node frame (tr_depth ctx) (-1) (private_data ctx) of (ret, p) \<Rightarrow>
        if ret \<noteq> 0 then sret (Inr ret, ctx\<lparr>private_data := p\<rparr>)
        else sbind (traverse_children fuel env cb node (map int [0 ..< Suc (unat (count_of (bt_cells node)))])
               (ctx\<lparr>private_data := p, visited_nodes := visited_nodes ctx + 1, tr_depth := tr_depth ctx + 1\<rparr>)) (\<lambda>(r, ctx').
             sret (r, ctx'\<lparr>tr_depth := tr_depth ctx' - 1\<rparr>)))"
| "traverse_children fuel env cb node [] ctx = sret (Inr 0, ctx)"
| "traverse_children fuel env cb node (i # is) ctx =
     sbind (slift (getc (slots_at i) (bt_cells node))) (\<lambda>pid.
     sattempt (load_page env pid) (\<lambda>r.
     case r of Inl e \<Rightarrow> sret (Inl e, ctx)
     | Inr j \<Rightarrow>
       sbind (load_btree_node j) (\<lambda>child.
       sbind (the_kp j) (\<lambda>kp.
       sbind (if hdr_type (kp_hdr kp) = KDS_PAGE_TYPE_BTREE_INTERNAL
              then traverse_internal fuel env cb child j ctx
              else (case kds_btree_traverse_leaf cb child j ctx of (ret, ctx') \<Rightarrow> sret (Inr ret, ctx'))) (\<lambda>(ret, ctx').
       sbind (kds_buf_unpin j) (\<lambda>_.
       if ret \<noteq> Inr 0 then sret (ret, ctx') else traverse_children fuel env cb node is ctx'))))))"

definition kds_btree_traverse ::
  "nat \<Rightarrow> kenv \<Rightarrow> nat option \<Rightarrow> 'p traverse_cb \<Rightarrow> 'p \<Rightarrow> ('z btree_state_scheme, (errno + int) \<times> 'p kds_btree_traverse_ctx option) call" where
  "kds_btree_traverse fuel env root_frame cb p =
     (case root_frame of None \<Rightarrow> sret (Inl EINVAL, None)
      | Some i \<Rightarrow>
        let ctx = \<lparr>private_data = p, tr_depth = 0, visited_nodes = 0, visited_keys = 0\<rparr> in
        sbind (load_btree_node i) (\<lambda>root.
        sbind (the_kp i) (\<lambda>kp.
        if hdr_type (kp_hdr kp) = KDS_PAGE_TYPE_BTREE_INTERNAL
        then sbind (traverse_internal fuel env cb root i ctx) (\<lambda>(r, ctx'). sret (r, Some ctx'))
        else (case kds_btree_traverse_leaf cb root i ctx of (ret, ctx') \<Rightarrow> sret (Inr ret, Some ctx')))))"

section \<open>Initialising pages\<close>

definition btree_init_page_data :: "u64 list" where "btree_init_page_data = blank_cells"

definition init_kpage :: "u32 \<Rightarrow> nat \<Rightarrow> ('z btree_state_scheme, unit) call" where
  "init_kpage type i = sbind (the_kp i) (\<lambda>kp. put_kp i
     (kp\<lparr>kp_hdr := (kp_hdr kp)\<lparr>hdr_type := type, hdr_flags := hdr_flags (kp_hdr kp) OR KDS_PAGE_FLAG_INIT\<rparr>\<rparr>))"

definition btree_init_root_kpage :: "nat \<Rightarrow> ('z btree_state_scheme, unit) call" where
  "btree_init_root_kpage = init_kpage KDS_PAGE_TYPE_BTREE_ROOT"

definition btree_init_data_kpage :: "nat \<Rightarrow> ('z btree_state_scheme, unit) call" where
  "btree_init_data_kpage = init_kpage KDS_PAGE_TYPE_BTREE_DATA"

section \<open>Nodes as key and slot lists\<close>

definition node_keys :: "u64 list \<Rightarrow> u64 list" where
  "node_keys c = take (unat (count_of c)) (drop 2 c)"

definition node_slots :: "u64 list \<Rightarrow> u64 list" where
  "node_slots c = take (Suc (unat (count_of c))) (drop 6 c)"

definition node_ok :: "u64 list \<Rightarrow> bool" where
  "node_ok c \<longleftrightarrow> length c = 13 \<and> count_of c \<le> 4"

lemma cell_loop_numeral [simp]:
  "cell_loop (numeral v) c body step i x =
     (if c i x then rbind (body i x) (cell_loop (pred_numeral v) c body step (i + step)) else Inr x)"
  by (simp add: numeral_eq_Suc)

lemma scan_keys_numeral [simp]:
  "scan_keys (numeral v) c key i =
     (if i < int_count c
      then rbind (getc (keys_at i) c) (\<lambda>k. if key \<le> k then Inr i else scan_keys (pred_numeral v) c key (i + 1))
      else Inr (int_count c))"
  by (simp add: numeral_eq_Suc)

lemma count_cases: "(n :: u64) \<le> 4 \<Longrightarrow> n = 0 \<or> n = 1 \<or> n = 2 \<or> n = 3 \<or> n = 4"
  by (simp add: word_le_nat_alt word_unat_eq_iff) arith

lemma cells_explicit:
  assumes "length c = 13"
  obtains a b k0 k1 k2 k3 s0 s1 s2 s3 s4 nx pv where "c = [a, b, k0, k1, k2, k3, s0, s1, s2, s3, s4, nx, pv]"
  using assms by (auto simp: length_Suc_conv numeral_eq_Suc)

lemmas cell_defs = getc_def setc_def movc_def keys_at_def slots_at_def count_at_def next_at_def prev_at_def
  level_of_def count_of_def next_of_def int_count_def node_keys_def node_slots_def as_u64_def

lemma node_cells:
  assumes "node_ok c"
  obtains a b k0 k1 k2 k3 s0 s1 s2 s3 s4 nx pv where "c = [a, b, k0, k1, k2, k3, s0, s1, s2, s3, s4, nx, pv]"
    and "b = 0 \<or> b = 1 \<or> b = 2 \<or> b = 3 \<or> b = 4"
proof -
  have l: "length c = 13" and b: "count_of c \<le> 4" using assms by (simp_all add: node_ok_def)
  from l show ?thesis
  proof (rule cells_explicit)
    fix a b k0 k1 k2 k3 s0 s1 s2 s3 s4 nx pv
    assume c: "c = [a, b, k0, k1, k2, k3, s0, s1, s2, s3, s4, nx, pv]"
    then have "b \<le> 4" using b by (simp add: count_of_def)
    from that [OF c count_cases [OF this]] show ?thesis .
  qed
qed

text \<open>Inserting into a node with room shifts the tail of both arrays and touches nothing else.\<close>

lemma insert_at_spec:
  assumes ok: "node_ok c" and room: "count_of c < 4" and p: "0 \<le> pos" "pos \<le> int (unat (count_of c))"
  shows "\<exists>c'. btree_node_insert_at c pos key slot = Inr c' \<and> node_ok c' \<and> count_of c' = count_of c + 1
    \<and> node_keys c' = take (nat pos) (node_keys c) @ key # drop (nat pos) (node_keys c)
    \<and> node_slots c' = take (Suc (nat pos)) (node_slots c) @ slot # drop (Suc (nat pos)) (node_slots c)
    \<and> level_of c' = level_of c \<and> drop 11 c' = drop 11 c"
proof -
  obtain a b k0 k1 k2 k3 s0 s1 s2 s3 s4 nx pv where c: "c = [a, b, k0, k1, k2, k3, s0, s1, s2, s3, s4, nx, pv]"
    and b: "b = 0 \<or> b = 1 \<or> b = 2 \<or> b = 3 \<or> b = 4" using ok by (rule node_cells)
  have b: "b = 0 \<or> b = 1 \<or> b = 2 \<or> b = 3" using b room c by (auto simp: count_of_def)
  have "pos = 0 \<or> pos = 1 \<or> pos = 2 \<or> pos = 3" using p b c by (auto simp: count_of_def)
  with b p c show ?thesis
    by (elim disjE; simp add: btree_node_insert_at_def for_cells_def cell_defs node_ok_def)
qed

lemma remove_at_spec:
  assumes ok: "node_ok c" and p: "0 \<le> pos" "pos < int (unat (count_of c))"
  shows "\<exists>c'. btree_node_remove_at c pos = Inr c' \<and> node_ok c' \<and> count_of c' = count_of c - 1
    \<and> node_keys c' = take (nat pos) (node_keys c) @ drop (Suc (nat pos)) (node_keys c)
    \<and> node_slots c' = take (Suc (nat pos)) (node_slots c) @ drop (Suc (Suc (nat pos))) (node_slots c)
    \<and> level_of c' = level_of c \<and> drop 11 c' = drop 11 c"
proof -
  obtain a b k0 k1 k2 k3 s0 s1 s2 s3 s4 nx pv where c: "c = [a, b, k0, k1, k2, k3, s0, s1, s2, s3, s4, nx, pv]"
    and b: "b = 0 \<or> b = 1 \<or> b = 2 \<or> b = 3 \<or> b = 4" using ok by (rule node_cells)
  have "pos = 0 \<or> pos = 1 \<or> pos = 2 \<or> pos = 3" using p b c by (auto simp: count_of_def)
  with b p c show ?thesis
    by (elim disjE; simp add: btree_node_remove_at_def for_cells_def cell_defs node_ok_def)
qed

text \<open>The position the linear scan returns.\<close>

lemma search_position_spec:
  assumes ok: "node_ok c"
  shows "btree_search_position c key = Inr (int (length (takeWhile (\<lambda>k. k < key) (node_keys c))))"
proof -
  obtain a b k0 k1 k2 k3 s0 s1 s2 s3 s4 nx pv where c: "c = [a, b, k0, k1, k2, k3, s0, s1, s2, s3, s4, nx, pv]"
    and b: "b = 0 \<or> b = 1 \<or> b = 2 \<or> b = 3 \<or> b = 4" using ok by (rule node_cells)
  with c show ?thesis
    by (elim disjE; simp add: btree_search_position_def cell_defs not_le)
qed

lemma node_keys_length: "node_ok c \<Longrightarrow> length (node_keys c) = unat (count_of c)"
  by (simp add: node_ok_def node_keys_def word_le_nat_alt)

lemma key_cell:
  assumes ok: "node_ok c" and i: "0 \<le> i" "i < int (length (node_keys c))"
  shows "getc (keys_at i) c = Inr (node_keys c ! nat i)"
proof -
  have "nat (2 + i) = 2 + nat i" "nat i < unat (count_of c)" "unat (count_of c) \<le> 4"
    using ok i node_keys_length [OF ok] by (auto simp: node_ok_def word_le_nat_alt simp del: of_nat_unat)
  then show ?thesis using ok i by (simp add: getc_def keys_at_def node_keys_def node_ok_def)
qed

lemma ucast_minus_one: "(ucast (- 1 :: u64) :: u32) = - 1"
  by (rule bit_word_eqI) (simp add: bit_simps)

lemma bisect_spec:
  "node_ok c \<Longrightarrow> sorted_wrt (<) (node_keys c) \<Longrightarrow>
    0 \<le> left \<Longrightarrow> left \<le> right + 1 \<Longrightarrow> right < int (length (node_keys c)) \<Longrightarrow> (left = right + 1 \<Longrightarrow> pos = left) \<Longrightarrow>
    (\<And>i. i < nat left \<Longrightarrow> node_keys c ! i < key) \<Longrightarrow> (\<And>i. right < int i \<Longrightarrow> i < length (node_keys c) \<Longrightarrow> key < node_keys c ! i) \<Longrightarrow>
    bisect_keys c key left right pos = Inr (int (length (takeWhile (\<lambda>k. k < key) (node_keys c))))"
proof (induction c key left right pos rule: bisect_keys.induct)
  case (1 c key left right pos)
  let ?ks = "node_keys c" and ?mid = "(left + right) div 2"
  note ok = 1(3) and so = 1(4) and bd = 1(5-7) and below = 1(9) and above = 1(10)
  show ?case
  proof (cases "left \<le> right")
    case False
    then have p: "left = right + 1" "pos = left" using bd 1(8) by auto
    have "takeWhile (\<lambda>k. k < key) ?ks = take (nat left) ?ks"
      using below above [of "nat left"] p bd by (intro takeWhile_eq_take_P_nth) auto
    then show ?thesis using p bd False by (simp add: bisect_keys.simps)
  next
    case True
    have m: "left \<le> ?mid" "?mid \<le> right" using True by auto
    then have mb: "0 \<le> ?mid" "nat ?mid < length ?ks" using bd by auto
    have g: "getc (keys_at ?mid) c = Inr (?ks ! nat ?mid)" using m bd by (intro key_cell [OF ok]) auto
    have mono: "?ks ! i < ?ks ! j" if "i < j" "j < length ?ks" for i j using so that by (simp add: sorted_wrt_iff_nth_less)
    consider (lt) "key < ?ks ! nat ?mid" | (gt) "?ks ! nat ?mid < key" | (eq) "?ks ! nat ?mid = key" by fastforce
    then show ?thesis
    proof cases
      case lt
      have up: "key < ?ks ! i" if "?mid - 1 < int i" "i < length ?ks" for i
        using lt mono [of "nat ?mid" i] that mb by (cases "i = nat ?mid") (auto intro: less_trans)
      have "bisect_keys c key left (?mid - 1) ?mid = Inr (int (length (takeWhile (\<lambda>k. k < key) ?ks)))"
        using 1(1) [OF True refl g lt ok so bd(1)] m bd below up by simp
      then show ?thesis using True g lt by (subst bisect_keys.simps) (simp add: Let_def)
    next
      case gt
      have lo: "?ks ! i < key" if "i < nat (?mid + 1)" for i
      proof -
        have "i = nat ?mid \<or> i < nat ?mid" using that mb by linarith
        then show ?thesis using gt mono [of i "nat ?mid"] mb by (auto intro: less_trans)
      qed
      have "bisect_keys c key (?mid + 1) right (?mid + 1) = Inr (int (length (takeWhile (\<lambda>k. k < key) ?ks)))"
        using 1(2) [OF True refl g less_asym [OF gt] gt ok so] m bd above lo by simp
      then show ?thesis using True g gt by (subst bisect_keys.simps) (auto simp: Let_def)
    next
      case eq
      have "takeWhile (\<lambda>k. k < key) ?ks = take (nat ?mid) ?ks"
        using eq mono [of _ "nat ?mid"] mb by (intro takeWhile_eq_take_P_nth) auto
      then show ?thesis using True g eq mb by (subst bisect_keys.simps) (simp add: Let_def)
    qed
  qed
qed

lemma binary_position_spec:
  assumes ok: "node_ok c" and so: "sorted_wrt (<) (node_keys c)"
  shows "btree_search_position_binary c key = btree_search_position c key"
proof -
  have n: "unat (count_of c) \<le> 4" using ok by (simp add: node_ok_def word_le_nat_alt)
  have "sint (ucast (count_of c - 1) :: u32) = int (unat (count_of c)) - 1"
    using count_cases [of "count_of c"] ok ucast_minus_one by (auto simp: node_ok_def)
  then show ?thesis
    unfolding search_position_spec [OF ok] btree_search_position_binary_def
    using node_keys_length [OF ok] bisect_spec [OF ok so, of 0 "int (unat (count_of c)) - 1" 0 key]
    by (simp del: of_nat_unat)
qed

section \<open>The contract of a sorted node\<close>

lemma dropWhile_ge:
  fixes k :: "'a::linorder"
  assumes so: "sorted_wrt (<) ks" and y: "y \<in> set (dropWhile (\<lambda>x. x < k) ks)"
  shows "k \<le> y"
proof -
  obtain z zs where d: "dropWhile (\<lambda>x. x < k) ks = z # zs" using y by (cases "dropWhile (\<lambda>x. x < k) ks") auto
  then have z: "\<not> z < k" by (simp add: dropWhile_eq_Cons_conv)
  have "sorted_wrt (<) (takeWhile (\<lambda>x. x < k) ks @ z # zs)" using so d by (metis takeWhile_dropWhile_id)
  then show ?thesis using z y unfolding d by (auto simp: sorted_wrt_append)
qed

locale key_node =
  fixes ok :: "'n \<Rightarrow> bool"
    and keys :: "'n \<Rightarrow> 'k::linorder list"
    and capacity :: nat
    and position :: "'n \<Rightarrow> 'k \<Rightarrow> int res"
    and insert_at :: "'n \<Rightarrow> int \<Rightarrow> 'k \<Rightarrow> 'v \<Rightarrow> 'n res"
    and remove_at :: "'n \<Rightarrow> int \<Rightarrow> 'n res"
  assumes position_eq: "ok n \<Longrightarrow> position n k = Inr (int (length (takeWhile (\<lambda>x. x < k) (keys n))))"
    and insert_keys: "ok n \<Longrightarrow> length (keys n) < capacity \<Longrightarrow> 0 \<le> p \<Longrightarrow> p \<le> int (length (keys n)) \<Longrightarrow>
      \<exists>n'. insert_at n p k v = Inr n' \<and> ok n' \<and> keys n' = take (nat p) (keys n) @ k # drop (nat p) (keys n)"
    and remove_keys: "ok n \<Longrightarrow> 0 \<le> p \<Longrightarrow> p < int (length (keys n)) \<Longrightarrow>
      \<exists>n'. remove_at n p = Inr n' \<and> ok n' \<and> keys n' = take (nat p) (keys n) @ drop (Suc (nat p)) (keys n)"
begin

lemma split_at_position:
  fixes ks :: "'k list" and k :: 'k
  assumes so: "sorted_wrt (<) ks" and nk: "k \<notin> set ks"
  shows "sorted_wrt (<) (takeWhile (\<lambda>x. x < k) ks @ k # dropWhile (\<lambda>x. x < k) ks)"
proof -
  define xs ys where "xs = takeWhile (\<lambda>x. x < k) ks" and "ys = dropWhile (\<lambda>x. x < k) ks"
  have ks: "ks = xs @ ys" by (simp add: xs_def ys_def)
  have lo: "\<forall>x \<in> set xs. x < k" unfolding xs_def by (auto dest: set_takeWhileD)
  have so': "sorted_wrt (<) (xs @ ys)" using so ks by simp
  have hi: "\<forall>y \<in> set ys. k < y"
    using dropWhile_ge [OF so, of _ k] nk ks unfolding ys_def [symmetric] by (force simp: order.order_iff_strict)
  show ?thesis using so' lo hi unfolding xs_def [symmetric] ys_def [symmetric] by (auto simp: sorted_wrt_append)
qed

text \<open>Inserting a new key at the position the search gives keeps the node sorted, and removing it there undoes it.\<close>

lemma insert_sorted:
  assumes "ok n" and "length (keys n) < capacity" and "sorted_wrt (<) (keys n)" and "k \<notin> set (keys n)" and "position n k = Inr p"
  shows "\<exists>n'. insert_at n p k v = Inr n' \<and> ok n' \<and> sorted_wrt (<) (keys n') \<and> set (keys n') = insert k (set (keys n))
    \<and> position n' k = Inr p \<and> keys n' ! nat p = k \<and> nat p < length (keys n')
    \<and> (\<exists>n''. remove_at n' p = Inr n'' \<and> ok n'' \<and> keys n'' = keys n)"
proof -
  let ?ks = "keys n" and ?t = "takeWhile (\<lambda>x. x < k) (keys n)" and ?d = "dropWhile (\<lambda>x. x < k) (keys n)"
  have p: "p = int (length ?t)" using position_eq [OF assms(1)] assms(5) by simp
  have pb: "0 \<le> p" "p \<le> int (length ?ks)" using p length_takeWhile_le by auto
  have td: "take (nat p) ?ks = ?t" "drop (nat p) ?ks = ?d" 
    unfolding p nat_int by (rule takeWhile_eq_take [symmetric], rule dropWhile_eq_drop [symmetric])
  obtain n' where n': "insert_at n p k v = Inr n'" "ok n'" "keys n' = ?t @ k # ?d"
    using insert_keys [OF assms(1,2) pb] td by auto
  have st: "set (keys n') = insert k (set ?ks)" using n'(3) by (metis Un_insert_right list.simps(15) set_append takeWhile_dropWhile_id)
  have "takeWhile (\<lambda>x. x < k) (keys n') = ?t"
    unfolding n'(3) by (subst takeWhile_append2) (auto dest: set_takeWhileD)
  then have pos: "position n' k = Inr p" using position_eq [OF n'(2)] p by simp
  have at: "keys n' ! nat p = k" "nat p < length (keys n')" using n'(3) p by (simp_all add: nth_append)
  have pb': "p < int (length (keys n'))" using n'(3) p by simp
  obtain n'' where "remove_at n' p = Inr n''" "ok n''" "keys n'' = take (nat p) (keys n') @ drop (Suc (nat p)) (keys n')"
    using remove_keys [OF n'(2) pb(1) pb'] by auto
  moreover have "take (nat p) (keys n') @ drop (Suc (nat p)) (keys n') = ?ks" using n'(3) p by simp
  ultimately show ?thesis
    using n' st pos at split_at_position [OF assms(3,4)] by auto
qed

end

interpretation node: key_node node_ok node_keys 4 btree_search_position btree_node_insert_at btree_node_remove_at
proof unfold_locales
  fix n and k :: u64
  assume "node_ok n"
  then show "btree_search_position n k = Inr (int (length (takeWhile (\<lambda>x. x < k) (node_keys n))))"
    by (rule search_position_spec)
next
  fix n and p :: int and k v :: u64
  assume ok: "node_ok n" and "length (node_keys n) < 4" and "0 \<le> p" and "p \<le> int (length (node_keys n))"
  then show "\<exists>n'. btree_node_insert_at n p k v = Inr n' \<and> node_ok n'
      \<and> node_keys n' = take (nat p) (node_keys n) @ k # drop (nat p) (node_keys n)"
    using insert_at_spec [OF ok, of p k v] node_keys_length [OF ok] by (auto simp: word_less_nat_alt)
next
  fix n and p :: int
  assume ok: "node_ok n" and "0 \<le> p" and "p < int (length (node_keys n))"
  then show "\<exists>n'. btree_node_remove_at n p = Inr n' \<and> node_ok n'
      \<and> node_keys n' = take (nat p) (node_keys n) @ drop (Suc (nat p)) (node_keys n)"
    using remove_at_spec [OF ok, of p] node_keys_length [OF ok] by auto
qed

section \<open>Nodes on pages\<close>

lemma take_drop_concat:
  "(\<And>x. x \<in> set xs \<Longrightarrow> length (f x) = n) \<Longrightarrow> i < length xs \<Longrightarrow> take n (drop (n * i) (concat (map f xs))) = f (xs ! i)"
proof (induction xs arbitrary: i)
  case (Cons x xs)
  then show ?case by (cases i) simp_all
qed simp

lemma length_concat_enc64: "length (concat (map enc64 c)) = 8 * length c"
  by (induction c) simp_all

lemma copy_store [simp]:
  assumes "length c = 13"
  shows "kds_btree_data_copy (kds_btree_data_store pg c) = c"
proof (rule nth_equalityI)
  show "length (kds_btree_data_copy (kds_btree_data_store pg c)) = length c" using assms by (simp add: kds_btree_data_copy_def)
next
  fix i
  assume "i < length (kds_btree_data_copy (kds_btree_data_store pg c))"
  then have i: "i < 13" by (simp add: kds_btree_data_copy_def)
  have "rd (wr pg KDS_PAGE_HDR_SIZE (concat (map enc64 c))) (KDS_PAGE_HDR_SIZE + 8 * i) 8 = take 8 (drop (8 * i) (concat (map enc64 c)))"
    using i assms by (subst rd_wr_inside) (simp_all add: length_concat_enc64)
  also have "\<dots> = enc64 (c ! i)" using i assms by (intro take_drop_concat) simp_all
  finally show "kds_btree_data_copy (kds_btree_data_store pg c) ! i = c ! i"
    using i by (simp add: kds_btree_data_copy_def kds_btree_data_store_def del: upt_Suc)
qed

lemma length_copy [simp]: "length (kds_btree_data_copy pg) = 13"
  by (simp add: kds_btree_data_copy_def)

text \<open>The root page is cached and is a sorted leaf.\<close>

definition leaf_root :: "'z btree_state_scheme \<Rightarrow> u64 \<Rightarrow> nat \<Rightarrow> kds_page \<Rightarrow> pagebuf \<Rightarrow> bool" where
  "leaf_root s root i kp pg \<longleftrightarrow> pool_wf s \<and> pmap s root = Some i \<and> fr_kp (pframes s i) = Some kp \<and> fr_page (pframes s i) = Some pg
     \<and> kds_is_btree_page kp \<and> node_ok (kds_btree_data_copy pg) \<and> sorted_wrt (<) (node_keys (kds_btree_data_copy pg))
     \<and> level_of (kds_btree_data_copy pg) = 0"

definition pinned :: "nat \<Rightarrow> kds_page \<Rightarrow> 'z btree_state_scheme \<Rightarrow> 'z btree_state_scheme" where
  "pinned i kp s = upd_frame i (\<lambda>f. f\<lparr>fr_kp := Some (pin_kpage kp)\<rparr>) s"

definition root_cursor :: "nat \<Rightarrow> u64 list \<Rightarrow> int \<Rightarrow> kds_btree_cursor" where
  "root_cursor i c p = \<lparr>cur_nodes = (replicate BTREE_MAX_DEPTH blank_node)[0 := \<lparr>bt_cells = c, bt_frame = Some i\<rparr>],
     cur_positions = (replicate BTREE_MAX_DEPTH 0)[0 := p], cur_depth = 0\<rparr>"

lemma root_cursor_simps [simp]:
  "cur_depth (root_cursor i c p) = 0" "cur_nodes (root_cursor i c p) ! 0 = \<lparr>bt_cells = c, bt_frame = Some i\<rparr>"
  "cur_positions (root_cursor i c p) ! 0 = p"
  by (simp_all add: root_cursor_def btree_cursor_init_def BTREE_MAX_DEPTH_def)

lemma load_root:
  assumes "pool_wf s" and "pmap s root = Some i" and "fr_kp (pframes s i) = Some kp"
  shows "load_page env root s = (Inr i, pinned i kp s)"
  using assms load_hit [of s root i env "\<lambda>s. s"] pool_wf_g_pool [of s]
  by (simp add: load_page_def kds_buf_lookup_def kds_buf_pin_def call_defs pinned_def)

lemma pin_type [simp]: "kds_is_btree_page (pin_kpage kp) = kds_is_btree_page kp" "unpin_kpage (pin_kpage kp) = kp"
  by (simp_all add: kds_is_btree_page_def pin_kpage_def unpin_kpage_def)

lemma position_member:
  fixes ks :: "'a::linorder list" and k :: 'a
  assumes "sorted_wrt (<) ks"
  defines "p \<equiv> length (takeWhile (\<lambda>x. x < k) ks)"
  shows "(p < length ks \<and> ks ! p = k) \<longleftrightarrow> k \<in> set ks"
proof
  assume "k \<in> set ks"
  then obtain j where j: "j < length ks" "ks ! j = k" by (auto simp: in_set_conv_nth)
  have "takeWhile (\<lambda>x. x < k) ks = take j ks"
    using assms(1) j by (intro takeWhile_eq_take_P_nth) (auto simp: sorted_wrt_iff_nth_less)
  then show "p < length ks \<and> ks ! p = k" using j by (simp add: p_def)
qed (metis nth_mem)

lemma descend_leaf:
  assumes lr: "leaf_root s root i kp pg" and p: "btree_search_position (kds_btree_data_copy pg) key = Inr p"
  shows "descend env key (Suc n) root btree_cursor_init s =
    (Inr (if key \<in> set (node_keys (kds_btree_data_copy pg)) then Some EEXIST else None, root_cursor i (kds_btree_data_copy pg) p), pinned i kp s)"
proof -
  let ?c = "kds_btree_data_copy pg"
  have ok: "node_ok ?c" and so: "sorted_wrt (<) (node_keys ?c)" and lv: "level_of ?c = 0"
    and bt: "kds_is_btree_page kp" and fk: "fr_kp (pframes s i) = Some kp" "fr_page (pframes s i) = Some pg"
    using lr by (simp_all add: leaf_root_def)
  note len = node_keys_length [OF ok]
  have pv: "p = int (length (takeWhile (\<lambda>x. x < key) (node_keys ?c)))" using search_position_spec [OF ok] p by simp
  have pb: "0 \<le> p" "p \<le> int (length (node_keys ?c))" using pv length_takeWhile_le by auto
  have lt: "as_u64 p < count_of ?c \<longleftrightarrow> p < int (length (node_keys ?c))"
  proof -
    have "nat p \<le> 4" using pb len ok by (simp add: node_ok_def word_le_nat_alt del: of_nat_unat)
    then obtain m where m: "p = int m" "m \<le> 4" using pb(1) by (metis nat_0_le)
    then have "unat (as_u64 p) = nat p" by (simp add: as_u64_def unat_of_nat)
    then show ?thesis using pb len by (auto simp: word_less_nat_alt simp del: of_nat_unat)
  qed
  have found: "p < int (length (node_keys ?c)) \<Longrightarrow> getc (keys_at p) ?c = Inr (node_keys ?c ! nat p)"
    using key_cell [OF ok pb(1)] by simp
  have mem: "(p < int (length (node_keys ?c)) \<and> node_keys ?c ! nat p = key) \<longleftrightarrow> key \<in> set (node_keys ?c)"
    using position_member [OF so, of key] pv by simp
  show ?thesis
    using lr bt fk lv p lt found mem pb
    by (simp add: sattempt_def visit_node_def load_btree_node_def load_btree_node_data_def the_kp_def the_page_def call_defs
        load_root pinned_def Let_def root_cursor_def btree_cursor_init_def BTREE_MAX_DEPTH_def leaf_root_def) auto
qed

section \<open>Inserting into and deleting from a leaf root\<close>

definition with_page :: "nat \<Rightarrow> pagebuf \<Rightarrow> 'z btree_state_scheme \<Rightarrow> 'z btree_state_scheme" where
  "with_page i pg s = upd_frame i (\<lambda>f. f\<lparr>fr_page := Some pg\<rparr>) s"

definition with_dirty_page :: "nat \<Rightarrow> kds_page \<Rightarrow> pagebuf \<Rightarrow> 'z btree_state_scheme \<Rightarrow> 'z btree_state_scheme" where
  "with_dirty_page i kp pg s = upd_frame i (\<lambda>f. f\<lparr>fr_page := Some pg, fr_kp := Some (kds_set_page_dirty kp)\<rparr>) s"

lemma dirty_unpin [simp]: "unpin_kpage (kds_set_page_dirty (pin_kpage kp)) = kds_set_page_dirty kp"
  by (simp add: unpin_kpage_def kds_set_page_dirty_def pin_kpage_def)

lemma cleanup_root:
  "btree_cursor_cleanup ((root_cursor i c p)\<lparr>cur_nodes := (cur_nodes (root_cursor i c p))[0 := \<lparr>bt_cells = c', bt_frame = Some i\<rparr>]\<rparr>) s =
     (case kds_buf_unpin i s of (Inl e, s') \<Rightarrow> (Inl e, s')
      | (Inr _, s') \<Rightarrow> (Inr ((root_cursor i c p)\<lparr>cur_nodes := (cur_nodes (root_cursor i c p))[0 := \<lparr>bt_cells = c', bt_frame = None\<rparr>]\<rparr>), s'))"
  by (simp add: btree_cursor_cleanup_def root_cursor_def btree_cursor_init_def BTREE_MAX_DEPTH_def call_defs numeral_eq_Suc
      split: prod.splits sum.splits)

lemma cleanup_root_found:
  "btree_cursor_cleanup (root_cursor i c p) s =
     (case kds_buf_unpin i s of (Inl e, s') \<Rightarrow> (Inl e, s')
      | (Inr _, s') \<Rightarrow> (Inr ((root_cursor i c p)\<lparr>cur_nodes := (cur_nodes (root_cursor i c p))[0 := \<lparr>bt_cells = c, bt_frame = None\<rparr>]\<rparr>), s'))"
  using cleanup_root [of i c p c s] by (simp add: root_cursor_def)

lemma descend_root:
  assumes lr: "leaf_root s root i kp pg" and p: "btree_search_position (kds_btree_data_copy pg) key = Inr p"
  shows "descend env key BTREE_MAX_DEPTH root btree_cursor_init s =
    (Inr (if key \<in> set (node_keys (kds_btree_data_copy pg)) then Some EEXIST else None, root_cursor i (kds_btree_data_copy pg) p), pinned i kp s)"
proof -
  have "BTREE_MAX_DEPTH = Suc 15" by (simp add: BTREE_MAX_DEPTH_def)
  then show ?thesis using descend_leaf [OF lr p, of env 15] by metis
qed

lemma search_present:
  assumes lr: "leaf_root s root i kp pg" and k: "key \<in> set (node_keys (kds_btree_data_copy pg))"
  shows "\<exists>cur. kds_btree_cursor_search env root key s = (Inr (Some EEXIST, cur), s)"
proof -
  have ok: "node_ok (kds_btree_data_copy pg)" and kp: "fr_kp (pframes s i) = Some kp" using lr by (simp_all add: leaf_root_def)
  have "\<exists>cur. btree_cursor_cleanup (root_cursor i (kds_btree_data_copy pg) p) (pinned i kp s) = (Inr cur, s)" for p
    using kp by (simp add: cleanup_root_found kds_buf_unpin_def pinned_def upd_frame_upd upd_frame_same o_def)
  then obtain cur where "btree_cursor_cleanup (root_cursor i (kds_btree_data_copy pg)
      (int (length (takeWhile (\<lambda>x. x < key) (node_keys (kds_btree_data_copy pg)))))) (pinned i kp s) = (Inr cur, s)" by blast
  then show ?thesis
    using descend_root [OF lr search_position_spec [OF ok], of env] k
    by (simp add: kds_btree_cursor_search_def call_defs)
qed

lemma insert_leaf:
  assumes lr: "leaf_root s root i kp pg" and room: "count_of (kds_btree_data_copy pg) < 4"
    and k: "key \<notin> set (node_keys (kds_btree_data_copy pg))"
    and p: "btree_search_position (kds_btree_data_copy pg) key = Inr p"
    and c': "btree_node_insert_at (kds_btree_data_copy pg) p key v = Inr c'"
  shows "btree_insert env root key v s = (Inr None, with_page i (kds_btree_data_store pg c') s)"
proof -
  let ?c = "kds_btree_data_copy pg" and ?pg = "kds_btree_data_store pg c'"
  have kp: "fr_kp (pframes s i) = Some kp" "fr_page (pframes s i) = Some pg" "kds_is_btree_page kp" using lr by (simp_all add: leaf_root_def)
  have se: "kds_btree_cursor_search env root key s = (Inr (None, root_cursor i ?c p), pinned i kp s)"
    using descend_root [OF lr p, of env] k by (simp add: kds_btree_cursor_search_def call_defs)
  have st: "store_btree_node \<lparr>bt_cells = c', bt_frame = Some i\<rparr> (pinned i kp s) = (Inr (), with_page i ?pg (pinned i kp s))"
    using kp by (simp add: store_btree_node_def node_frame_def btree_link_kpage_def the_kp_def the_page_def call_defs pinned_def with_page_def)
  have "(pframes s i)\<lparr>fr_page := Some ?pg, fr_kp := Some kp\<rparr> = (pframes s i)\<lparr>fr_page := Some ?pg\<rparr>"
    using kp(1) by (cases "pframes s i") simp
  then have "upd_frame i (\<lambda>f. f\<lparr>fr_kp := Some kp\<rparr>) (with_page i ?pg (pinned i kp s)) = with_page i ?pg s"
    by (simp add: with_page_def pinned_def upd_frame_upd o_def) (simp add: upd_frame_def)
  then have cl: "\<exists>cur. btree_cursor_cleanup (put_leaf (root_cursor i ?c p) \<lparr>bt_cells = c', bt_frame = Some i\<rparr>) (with_page i ?pg (pinned i kp s))
      = (Inr cur, with_page i ?pg s)"
    by (simp add: put_leaf_def cleanup_root kds_buf_unpin_def with_page_def pinned_def)
  show ?thesis
    using se st cl c' room
    by (auto simp: btree_insert_def kds_btree_cursor_insert_def call_defs Let_def as_u64_def BTREE_MAX_KEYS_def)
qed

lemma delete_leaf:
  assumes lr: "leaf_root s root i kp pg" and k: "key \<in> set (node_keys (kds_btree_data_copy pg))"
    and p: "btree_search_position (kds_btree_data_copy pg) key = Inr p"
    and c': "btree_node_remove_at (kds_btree_data_copy pg) p = Inr c'" and lv: "level_of c' = 0"
  shows "btree_delete env root key s = (Inr None, with_dirty_page i kp (kds_btree_data_store pg c') s)"
proof -
  let ?c = "kds_btree_data_copy pg" and ?pg = "kds_btree_data_store pg c'"
  let ?s2 = "with_dirty_page i (pin_kpage kp) ?pg s"
  have kp: "fr_kp (pframes s i) = Some kp" "fr_page (pframes s i) = Some pg" "kds_is_btree_page kp" using lr by (simp_all add: leaf_root_def)
  have se: "btree_cursor_search env root key s = (Inr (Some EEXIST, root_cursor i ?c p), pinned i kp s)"
    using descend_root [OF lr p, of env] k by (simp add: btree_cursor_search_def)
  have st: "store_btree_node \<lparr>bt_cells = c', bt_frame = Some i\<rparr> (pinned i kp s) = (Inr (), with_page i ?pg (pinned i kp s))"
    using kp by (simp add: store_btree_node_def node_frame_def btree_link_kpage_def the_kp_def the_page_def call_defs pinned_def with_page_def)
  have di: "node_dirty \<lparr>bt_cells = c', bt_frame = Some i\<rparr> (with_page i ?pg (pinned i kp s)) = (Inr (), ?s2)"
    by (simp add: node_dirty_def node_frame_def set_dirty_def the_kp_def put_kp_def call_defs with_page_def pinned_def with_dirty_page_def
        upd_frame_upd o_def)
  have "upd_frame i (\<lambda>f. f\<lparr>fr_kp := Some (kds_set_page_dirty kp)\<rparr>) ?s2 = with_dirty_page i kp ?pg s"
    by (simp add: with_dirty_page_def upd_frame_upd o_def)
  then have cl: "\<exists>cur. btree_cursor_cleanup (put_leaf (root_cursor i ?c p) \<lparr>bt_cells = c', bt_frame = Some i\<rparr>) ?s2
      = (Inr cur, with_dirty_page i kp ?pg s)"
    by (simp add: put_leaf_def cleanup_root kds_buf_unpin_def) (simp add: with_dirty_page_def)
  have "cur_nodes (put_leaf (root_cursor i ?c p) \<lparr>bt_cells = c', bt_frame = Some i\<rparr>) ! 0 = \<lparr>bt_cells = c', bt_frame = Some i\<rparr>"
    "cur_depth (put_leaf (root_cursor i ?c p) \<lparr>bt_cells = c', bt_frame = Some i\<rparr>) = 0"
    by (simp_all add: put_leaf_def root_cursor_def btree_cursor_init_def BTREE_MAX_DEPTH_def)
  then show ?thesis
    using se st di cl c' lv by (auto simp: btree_delete_def collapse_root_def call_defs Let_def)
qed


lemma leaf_root_with_page:
  assumes lr: "leaf_root s root i kp pg" and c: "node_ok c" "sorted_wrt (<) (node_keys c)" "level_of c = 0"
  shows "leaf_root (with_page i (kds_btree_data_store pg c) s) root i kp (kds_btree_data_store pg c)"
proof -
  have "pool_wf (with_page i (kds_btree_data_store pg c) s)"
    unfolding with_page_def using lr pool_wf_id [of s i]
    by (intro pool_wf_touch) (auto simp: leaf_root_def frame_loaded_def)
  then show ?thesis using lr c by (simp add: leaf_root_def with_page_def node_ok_def)
qed

section \<open>Cursor clean-up past the last entry\<close>

text \<open>A search that runs out of depth leaves the depth at sixteen, one past the last entry, and the clean-up then reads
  an entry that does not exist.\<close>

lemma sbind_fails: "fst (m s) = Inl e \<Longrightarrow> fst (sbind m f s) = Inl e"
  by (cases "m s") (auto simp: sbind_def)

lemma sbind_fails_later: "(\<And>x t. fst (f x t) = Inl e) \<Longrightarrow> fst (m s) = Inl e \<or> is_ok (fst (m s)) \<Longrightarrow> fst (sbind m f s) = Inl e"
  by (cases "m s") (auto simp: sbind_def split: sum.splits)

lemma unpin_nodes_faults:
  fixes s :: "'z btree_state_scheme"
  shows "length nds \<le> n \<Longrightarrow> fst (unpin_nodes nds n s) = Inl Fault"
proof (induction nds arbitrary: n s)
  case (Cons nd nds)
  then obtain m where n: "n = Suc m" "length nds \<le> m" by (cases n) auto
  have "fst (unpin_nodes nds m t) = Inl Fault" for t :: "'z btree_state_scheme" using Cons.IH [OF n(2)] .
  then show ?case
    unfolding n(1) unpin_nodes.simps nat.case
    by (intro sbind_fails_later sbind_fails) (auto simp: call_defs kds_buf_unpin_def split: option.splits)
qed (simp add: call_defs)

lemma too_deep_cleanup_faults:
  "length (cur_nodes cur) = BTREE_MAX_DEPTH \<Longrightarrow> cur_depth cur = BTREE_MAX_DEPTH \<Longrightarrow> fst (btree_cursor_cleanup cur s) = Inl Fault"
  unfolding btree_cursor_cleanup_def by (rule sbind_fails) (simp add: unpin_nodes_faults)

section \<open>Properties\<close>

text \<open>A cached root leaf with keys 10, 20 and 30.\<close>

definition demo_leaf :: "u64 list" where
  "demo_leaf = [0, 3, 10, 20, 30, 0, 0, 210, 220, 230, 0, 0, 0]"

definition demo_btree_page :: pagebuf where
  "demo_btree_page = kds_btree_data_store (\<lambda>_. 0) demo_leaf"

definition demo_btree_kp :: kds_page where
  "demo_btree_kp = \<lparr>kp_id = 300, kp_hdr = \<lparr>hdr_type = KDS_PAGE_TYPE_BTREE_ROOT, hdr_crc = 0, hdr_flags = 3, hdr_reserved1 = replicate 32 0\<rparr>,
     kp_refcnt = 0\<rparr>"

definition demo_btree :: btree_state where
  "demo_btree = alloc_state.extend (demo_alloc\<lparr>pframes := init_frame(5 := \<lparr>frame_id = 5, fr_state = KDS_FRAME_VALID, fr_page_id = 300,
       fr_kp = Some demo_btree_kp, fr_page = Some demo_btree_page, fr_mapped = False\<rparr>),
     pmap := [300 \<mapsto> 5], free_frames := filter (\<lambda>i. i \<noteq> 5) [0 ..< KDS_BUF_NR_FRAMES],
     nr_free := of_nat (length (filter (\<lambda>i. i \<noteq> 5) [0 ..< KDS_BUF_NR_FRAMES]))\<rparr>) \<lparr>free_list = []\<rparr>"

lemma demo_leaf_ok: "node_ok demo_leaf" "node_keys demo_leaf = [10, 20, 30]" "count_of demo_leaf = 3" "level_of demo_leaf = 0"
  "length demo_leaf = 13"
  by (simp_all add: demo_leaf_def node_ok_def node_keys_def count_of_def level_of_def)


lemma demo_btree_root: "leaf_root demo_btree 300 5 demo_btree_kp demo_btree_page"
proof -
  have "(5::nat) < KDS_BUF_NR_FRAMES" by (simp add: KDS_BUF_NR_FRAMES_def)
  then have "pool_wf demo_btree"
    by (auto simp: pool_wf_def demo_btree_def alloc_state.defs demo_alloc_def meta_state.defs demo_meta0_def init_frame_def frame_loaded_def
        demo_btree_kp_def split: if_splits)
  then show ?thesis
    using demo_leaf_ok by (simp add: leaf_root_def demo_btree_page_def demo_btree_def alloc_state.defs kds_is_btree_page_def demo_btree_kp_def)
qed

text \<open>C25: the linear scan over the keys of a node returns the number of keys smaller than the searched one, and the
  binary search returns the same position on a node whose keys are strictly increasing; both stay inside the node.\<close>

theorem search_position_correct:
  assumes "node_ok c" and "sorted_wrt (<) (node_keys c)"
  shows "\<exists>p. btree_search_position c key = Inr (int p) \<and> btree_search_position_binary c key = Inr (int p)
    \<and> p \<le> unat (count_of c) \<and> (\<forall>k \<in> set (take p (node_keys c)). k < key) \<and> (\<forall>k \<in> set (drop p (node_keys c)). key \<le> k)"
proof -
  let ?ks = "node_keys c"
  let ?p = "length (takeWhile (\<lambda>k. k < key) ?ks)"
  have td: "take ?p ?ks = takeWhile (\<lambda>k. k < key) ?ks" "drop ?p ?ks = dropWhile (\<lambda>k. k < key) ?ks"
    by (rule takeWhile_eq_take [symmetric], rule dropWhile_eq_drop [symmetric])
  have lo: "\<forall>k \<in> set (take ?p ?ks). k < key" unfolding td by (auto dest: set_takeWhileD)
  have hi: "\<forall>k \<in> set (drop ?p ?ks). key \<le> k" unfolding td using dropWhile_ge [OF assms(2)] by blast
  have "?p \<le> unat (count_of c)" using length_takeWhile_le [of _ ?ks] node_keys_length [OF assms(1)] by simp
  then show ?thesis
    using search_position_spec [OF assms(1), of key] binary_position_spec [OF assms, of key, unfolded search_position_spec [OF assms(1)]]
      lo hi by blast
qed

theorem search_position_correct_witness:
  "btree_search_position demo_leaf 25 = Inr 2 \<and> btree_search_position_binary demo_leaf 25 = Inr 2"
proof -
  have "sorted_wrt (<) (node_keys demo_leaf)" by (simp add: demo_leaf_ok)
  moreover have "btree_search_position demo_leaf 25 = Inr 2" by (simp add: search_position_spec [OF demo_leaf_ok(1)] demo_leaf_ok)
  ultimately show ?thesis using search_position_correct [OF demo_leaf_ok(1), of 25] by auto
qed

text \<open>Inserting at any position of a node with room puts the key before the keys from that position on and the
  slot after the slot of that position, changes nothing else (level and sibling links included), and removing at the
  same position restores the keys and the slots.\<close>

theorem node_insert_remove:
  assumes "node_ok c" and "count_of c < 4" and "0 \<le> pos" and "pos \<le> int (unat (count_of c))"
  shows "\<exists>c' c''. btree_node_insert_at c pos key slot = Inr c' \<and> node_ok c'
    \<and> node_keys c' = take (nat pos) (node_keys c) @ key # drop (nat pos) (node_keys c)
    \<and> node_slots c' = take (Suc (nat pos)) (node_slots c) @ slot # drop (Suc (nat pos)) (node_slots c)
    \<and> level_of c' = level_of c \<and> drop 11 c' = drop 11 c
    \<and> btree_node_remove_at c' pos = Inr c'' \<and> node_keys c'' = node_keys c \<and> node_slots c'' = node_slots c"
proof -
  obtain c' where c': "btree_node_insert_at c pos key slot = Inr c'" "node_ok c'" "count_of c' = count_of c + 1"
    "node_keys c' = take (nat pos) (node_keys c) @ key # drop (nat pos) (node_keys c)"
    "node_slots c' = take (Suc (nat pos)) (node_slots c) @ slot # drop (Suc (nat pos)) (node_slots c)"
    "level_of c' = level_of c" "drop 11 c' = drop 11 c"
    using insert_at_spec [OF assms] by blast
  have len: "nat pos \<le> length (node_keys c)" "Suc (nat pos) \<le> length (node_slots c)"
    using assms node_keys_length [OF assms(1)] by (simp_all add: node_slots_def node_ok_def word_less_nat_alt del: of_nat_unat)
  have "pos < int (length (node_keys c'))" using len(1) assms(3) unfolding c'(4) by simp
  then have "pos < int (unat (count_of c'))" by (simp only: node_keys_length [OF c'(2)])
  from remove_at_spec [OF c'(2) assms(3) this] obtain c'' where "btree_node_remove_at c' pos = Inr c''"
    "node_keys c'' = take (nat pos) (node_keys c') @ drop (Suc (nat pos)) (node_keys c')"
    "node_slots c'' = take (Suc (nat pos)) (node_slots c') @ drop (Suc (Suc (nat pos))) (node_slots c')" by blast
  then show ?thesis using c' len by (intro exI [of _ c'] exI [of _ c'']) simp
qed

theorem node_insert_remove_witness:
  "\<exists>c' c''. btree_node_insert_at demo_leaf 1 15 215 = Inr c' \<and> node_keys c' = [10, 15, 20, 30] \<and> node_slots c' = [0, 210, 215, 220, 230]
     \<and> btree_node_remove_at c' 1 = Inr c'' \<and> node_keys c'' = [10, 20, 30]"
  using node_insert_remove [OF demo_leaf_ok(1), of 1 15 215]
  by (auto simp: demo_leaf_ok) (auto simp: demo_leaf_def node_slots_def count_of_def)


text \<open>C4: inserting a new key into a cached root leaf with room succeeds: the page's keys stay strictly increasing and
  gain exactly that key, no other frame changes, a search for the key then reports it as a duplicate and so does a
  second insert, both without changing the state; deleting it succeeds, gives the page its old keys back and marks it
  dirty.\<close>

theorem btree_insert_delete:
  assumes lr: "leaf_root s root i kp pg" and room: "count_of (kds_btree_data_copy pg) < 4"
    and k: "key \<notin> set (node_keys (kds_btree_data_copy pg))"
  shows "\<exists>pg' s' pg''. btree_insert env root key v s = (Inr None, s') \<and> s' = with_page i pg' s \<and> leaf_root s' root i kp pg'
    \<and> set (node_keys (kds_btree_data_copy pg')) = insert key (set (node_keys (kds_btree_data_copy pg)))
    \<and> (\<exists>cur. kds_btree_cursor_search env root key s' = (Inr (Some EEXIST, cur), s'))
    \<and> btree_insert env root key w s' = (Inr (Some EEXIST), s')
    \<and> btree_delete env root key s' = (Inr None, with_dirty_page i kp pg'' s')
    \<and> node_keys (kds_btree_data_copy pg'') = node_keys (kds_btree_data_copy pg)"
proof -
  let ?c = "kds_btree_data_copy pg"
  have ok: "node_ok ?c" and so: "sorted_wrt (<) (node_keys ?c)" and lv: "level_of ?c = 0" using lr by (simp_all add: leaf_root_def)
  have rm: "length (node_keys ?c) < 4" using room node_keys_length [OF ok] by (simp add: word_less_nat_alt)
  define p where "p = int (length (takeWhile (\<lambda>x. x < key) (node_keys ?c)))"
  have p: "btree_search_position ?c key = Inr p" using search_position_spec [OF ok] by (simp add: p_def)
  have pb: "0 \<le> p" "p \<le> int (unat (count_of ?c))"
    using length_takeWhile_le [of "\<lambda>x. x < key" "node_keys ?c"] node_keys_length [OF ok] by (simp_all add: p_def del: of_nat_unat)
  from node.insert_sorted [OF ok rm so k p, of v] obtain c' c'' where
    c': "btree_node_insert_at ?c p key v = Inr c'" "node_ok c'" "sorted_wrt (<) (node_keys c')"
      "set (node_keys c') = insert key (set (node_keys ?c))" "btree_search_position c' key = Inr p" "nat p < length (node_keys c')" and
    c'': "btree_node_remove_at c' p = Inr c''" "node_ok c''" "node_keys c'' = node_keys ?c"
    by blast
  have lv': "level_of c' = 0" using insert_at_spec [OF ok room pb, of key v] c'(1) lv by auto
  have "p < int (unat (count_of c'))"
    using c'(6) pb(1) node_keys_length [OF c'(2)] by (simp del: of_nat_unat)
  then have lv'': "level_of c'' = 0" using remove_at_spec [OF c'(2) pb(1)] c''(1) lv' by auto
  let ?pg' = "kds_btree_data_store pg c'" and ?pg'' = "kds_btree_data_store (kds_btree_data_store pg c') c''"
  let ?s' = "with_page i ?pg' s"
  have len: "length c' = 13" "length c'' = 13" using c'(2) c''(2) by (simp_all add: node_ok_def)
  have cp: "kds_btree_data_copy ?pg' = c'" "kds_btree_data_copy ?pg'' = c''" using len by simp_all
  have lr': "leaf_root ?s' root i kp ?pg'" using leaf_root_with_page [OF lr c'(2,3) lv'] .
  have ks: "key \<in> set (node_keys (kds_btree_data_copy ?pg'))" using cp c'(4) by simp
  obtain cur where se: "kds_btree_cursor_search env root key ?s' = (Inr (Some EEXIST, cur), ?s')"
    using search_present [OF lr' ks] by blast
  have dup: "btree_insert env root key w ?s' = (Inr (Some EEXIST), ?s')" using se by (simp add: btree_insert_def call_defs)
  have del: "btree_delete env root key ?s' = (Inr None, with_dirty_page i kp ?pg'' ?s')"
    using delete_leaf [OF lr' ks, of p c''] cp c'(5) c''(1) lv'' by simp
  show ?thesis
    using insert_leaf [OF lr room k p c'(1), of env] lr' se dup del cp c'(4) c''(3)
    by (intro exI [of _ ?pg'] exI [of _ ?s'] exI [of _ ?pg'']) auto
qed

theorem btree_insert_delete_witness:
  "\<exists>s' s''. btree_insert demo_env 300 25 225 demo_btree = (Inr None, s') \<and> btree_insert demo_env 300 25 226 s' = (Inr (Some EEXIST), s')
     \<and> btree_delete demo_env 300 25 s' = (Inr None, s'')"
  using btree_insert_delete [OF demo_btree_root, of 25 demo_env 225 226] demo_leaf_ok by (auto simp: demo_btree_page_def)

lemma blank_cells_eq: "blank_cells = [0, 0, 0, 0, 0, 0, 0, 0, 0, 0, 0, 0, 0]"
  by (simp add: blank_cells_def numeral_eq_Suc)

text \<open>C38: inserting into a full node writes past the end of both arrays: the largest of the five keys overwrites the
  first child pointer and the last slot overwrites the sibling link; the split that follows keeps four keys only (two
  on the left, one promoted, one on the right), so the largest key is in neither node.\<close>

theorem full_node_insert_overflows:
  assumes "node_ok c" and "count_of c = 4" and "0 \<le> pos" and "pos \<le> 4"
    and five: "five = take (nat pos) (node_keys c) @ key # drop (nat pos) (node_keys c)"
    and six: "six = take (Suc (nat pos)) (node_slots c) @ slot # drop (Suc (nat pos)) (node_slots c)"
  shows "\<exists>c' l r. btree_node_insert_at c pos key slot = Inr c' \<and> getc (slots_at 0) c' = Inr (last five) \<and> next_of c' = last six
    \<and> split_left c' right_id = Inr l \<and> split_right c' left_id = Inr r
    \<and> node_keys l @ [c' ! 4] @ node_keys r = butlast five"
proof -
  obtain a b k0 k1 k2 k3 s0 s1 s2 s3 s4 nx pv where c: "c = [a, b, k0, k1, k2, k3, s0, s1, s2, s3, s4, nx, pv]"
    using assms(1) by (rule node_cells)
  have b: "b = 4" using assms(2) c by (simp add: count_of_def)
  have "pos = 0 \<or> pos = 1 \<or> pos = 2 \<or> pos = 3 \<or> pos = 4" using assms(3,4) by arith
  then show ?thesis
    by (elim disjE; simp add: btree_node_insert_at_def for_cells_def cell_defs split_left_def split_right_def BTREE_MAX_KEYS_def
        Let_def blank_cells_eq five six c b)
qed


definition demo_full :: "u64 list" where
  "demo_full = [0, 4, 10, 20, 30, 40, 0, 210, 220, 230, 240, 0, 0]"

theorem full_node_insert_overflows_witness:
  "\<exists>c' l r. btree_node_insert_at demo_full 4 50 250 = Inr c' \<and> getc (slots_at 0) c' = Inr 50 \<and> next_of c' = 250
     \<and> split_left c' 999 = Inr l \<and> split_right c' 300 = Inr r \<and> node_keys l @ [c' ! 4] @ node_keys r = [10, 20, 30, 40]"
proof -
  have f: "node_ok demo_full" "count_of demo_full = 4" "node_keys demo_full = [10, 20, 30, 40]" "node_slots demo_full = [0, 210, 220, 230, 240]"
    by (simp_all add: demo_full_def node_ok_def count_of_def node_keys_def node_slots_def)
  show ?thesis
    using full_node_insert_overflows [OF f(1,2), of 4 "[10, 20, 30, 40, 50]" 50 "[0, 210, 220, 230, 240, 250]" 250 999 300] f by simp
qed

end
