(* ===== verification/Kds_Wal.thy ===== *)
theory Kds_Wal
  imports Kds_Btree
begin

text \<open>
  The write-ahead log (\<^verbatim>\<open>kernel/kds/wal.c\<close>, \<^verbatim>\<open>include/linux/kds_wal.h\<close>). Records are appended to a 4 MiB ring of
  bytes; the checkpointer copies the ring into a chain of log pages, flushes the data pages and appends a
  checkpoint record. The ring is a byte memory; a \<^verbatim>\<open>memcpy\<close> that would leave it is \<open>Fault\<close>. A flush takes its
  snapshot and publishes its result in two critical sections; what other threads do to the log in between is the
  argument \<open>oth\<close>. \<^verbatim>\<open>crc32c\<close> belongs to the Linux kernel and is a parameter. The scheduler's registration calls
  are arguments, as they are for the page allocator.
\<close>

section \<open>Log sequence numbers\<close>

definition KDS_LSN_INVALID :: u64 where "KDS_LSN_INVALID = 0"

definition kds_lsn_make :: "u64 \<Rightarrow> u32 \<Rightarrow> u64" where
  "kds_lsn_make pid off = push_bit 32 pid OR ucast off"

definition kds_lsn_page_id :: "u64 \<Rightarrow> u64" where
  "kds_lsn_page_id lsn = drop_bit 32 lsn"

definition kds_lsn_offset :: "u64 \<Rightarrow> u32" where
  "kds_lsn_offset lsn = ucast (lsn AND 0xFFFFFFFF)"

section \<open>On-disk structs\<close>

datatype kds_wal_rec_type = KDS_WAL_REC_INSERT | KDS_WAL_REC_DELETE | KDS_WAL_REC_INIT_PAGE
  | KDS_WAL_REC_COMMIT | KDS_WAL_REC_ABORT | KDS_WAL_REC_CHECKPOINT | KDS_WAL_REC_FULL_PAGE

primrec rec_type_code :: "kds_wal_rec_type \<Rightarrow> u8" where
  "rec_type_code KDS_WAL_REC_INSERT = 1"
| "rec_type_code KDS_WAL_REC_DELETE = 2"
| "rec_type_code KDS_WAL_REC_INIT_PAGE = 3"
| "rec_type_code KDS_WAL_REC_COMMIT = 4"
| "rec_type_code KDS_WAL_REC_ABORT = 5"
| "rec_type_code KDS_WAL_REC_CHECKPOINT = 6"
| "rec_type_code KDS_WAL_REC_FULL_PAGE = 7"

record kds_wal_page_hdr =
  seg_no :: u64
  start_lsn :: u64
  used_bytes :: u32
  next_wal_page_id :: u64
  wph_pad :: u32

definition KDS_WAL_PAGE_HDR_SIZE :: nat where "KDS_WAL_PAGE_HDR_SIZE = 32"

definition KDS_WAL_PAGE_PAYLOAD :: nat where
  "KDS_WAL_PAGE_PAYLOAD = KDS_PAGE_SIZE - KDS_PAGE_HDR_SIZE - KDS_WAL_PAGE_HDR_SIZE"

definition enc_wal_page_hdr :: "kds_wal_page_hdr \<Rightarrow> u8 list" where
  "enc_wal_page_hdr h = enc64 (seg_no h) @ enc64 (start_lsn h) @ enc32 (used_bytes h)
     @ enc64 (next_wal_page_id h) @ enc32 (wph_pad h)"

definition dec_wal_page_hdr :: "u8 list \<Rightarrow> kds_wal_page_hdr" where
  "dec_wal_page_hdr bs =
     \<lparr>seg_no = dec64 (take 8 bs), start_lsn = dec64 (take 8 (drop 8 bs)), used_bytes = dec32 (take 4 (drop 16 bs)),
      next_wal_page_id = dec64 (take 8 (drop 20 bs)), wph_pad = dec32 (take 4 (drop 28 bs))\<rparr>"

record kds_wal_rec_hdr =
  rec_lsn :: u64
  rec_prev_lsn :: u64
  rec_xid :: u64
  rec_type :: u8
  rec_pad :: "u8 list"
  body_len :: u32
  rec_crc :: u32

definition KDS_WAL_REC_HDR_SIZE :: nat where "KDS_WAL_REC_HDR_SIZE = 36"

definition KDS_WAL_MAX_REC_SIZE :: nat where
  "KDS_WAL_MAX_REC_SIZE = KDS_WAL_REC_HDR_SIZE + KDS_PAGE_SIZE"

definition enc_rec_hdr :: "kds_wal_rec_hdr \<Rightarrow> u8 list" where
  "enc_rec_hdr h = enc64 (rec_lsn h) @ enc64 (rec_prev_lsn h) @ enc64 (rec_xid h) @ [rec_type h] @ rec_pad h
     @ enc32 (body_len h) @ enc32 (rec_crc h)"

definition dec_rec_hdr :: "u8 list \<Rightarrow> kds_wal_rec_hdr" where
  "dec_rec_hdr bs =
     \<lparr>rec_lsn = dec64 (take 8 bs), rec_prev_lsn = dec64 (take 8 (drop 8 bs)), rec_xid = dec64 (take 8 (drop 16 bs)),
      rec_type = bs ! 24, rec_pad = take 3 (drop 25 bs), body_len = dec32 (take 4 (drop 28 bs)),
      rec_crc = dec32 (take 4 (drop 32 bs))\<rparr>"

definition rec_hdr_valid :: "kds_wal_rec_hdr \<Rightarrow> bool" where
  "rec_hdr_valid h \<longleftrightarrow> length (rec_pad h) = 3"

definition zero_rec_hdr :: kds_wal_rec_hdr where
  "zero_rec_hdr = \<lparr>rec_lsn = 0, rec_prev_lsn = 0, rec_xid = 0, rec_type = 0, rec_pad = [0, 0, 0], body_len = 0, rec_crc = 0\<rparr>"

text \<open>Record bodies: page modification (the changed bytes follow), page initialisation, transaction end, checkpoint.\<close>

definition enc_body_page_mod :: "u64 \<Rightarrow> u32 \<Rightarrow> u32 \<Rightarrow> u8 list" where
  "enc_body_page_mod pid off len = enc64 pid @ enc32 off @ enc32 len"

definition enc_body_init_page :: "u64 \<Rightarrow> u8 \<Rightarrow> u8 list" where
  "enc_body_init_page pid ptype = enc64 pid @ [ptype] @ [0, 0, 0]"

definition enc_body_xact :: "u64 \<Rightarrow> u8 list" where "enc_body_xact xid = enc64 xid"

definition enc_body_checkpoint :: "u64 \<Rightarrow> u64 \<Rightarrow> u8 list" where
  "enc_body_checkpoint lsn time = enc64 lsn @ enc64 time"

section \<open>State\<close>

definition KDS_WAL_BUF_SIZE :: nat where "KDS_WAL_BUF_SIZE = 4 * 1024 * 1024"
definition KDS_WAL_BUF_MASK :: u64 where "KDS_WAL_BUF_MASK = of_nat KDS_WAL_BUF_SIZE - 1"

record kds_wal_buf =
  wb_buf :: pagebuf
  write_off :: u64
  flush_off :: u64
  current_lsn :: u64
  tail_page_id :: u64
  tail_used :: u32
  tail_seg_no :: u64

record kds_wal_state =
  ws_buf :: kds_wal_buf
  flush_lsn :: u64
  checkpointed_lsn :: u64
  prev_lsn :: u64

record wal_state = btree_state +
  g_wal :: "kds_wal_state option"
  g_wal_head_page_id :: u64
  g_wal_tail_page_id :: u64
  g_ckpt_proc :: bool

definition kds_meta_set_wal_pages :: "u64 \<Rightarrow> u64 \<Rightarrow> 'z wal_state_scheme \<Rightarrow> 'z wal_state_scheme" where
  "kds_meta_set_wal_pages head tail s = s\<lparr>g_wal_head_page_id := head, g_wal_tail_page_id := tail\<rparr>"

text \<open>An update through the global pointer; a null pointer is \<open>Fault\<close>.\<close>

definition upd_wal :: "(kds_wal_state \<Rightarrow> kds_wal_state) \<Rightarrow> ('z wal_state_scheme, unit) call" where
  "upd_wal g = sbind sget (\<lambda>s. case g_wal s of None \<Rightarrow> sfail Fault | Some w \<Rightarrow> smod (\<lambda>s. s\<lparr>g_wal := Some (g w)\<rparr>))"

definition the_wal :: "('z wal_state_scheme, kds_wal_state) call" where
  "the_wal = sbind sget (\<lambda>s. case g_wal s of None \<Rightarrow> sfail Fault | Some w \<Rightarrow> sret w)"

definition upd_buf :: "(kds_wal_buf \<Rightarrow> kds_wal_buf) \<Rightarrow> ('z wal_state_scheme, unit) call" where
  "upd_buf g = upd_wal (\<lambda>w. w\<lparr>ws_buf := g (ws_buf w)\<rparr>)"

definition kds_meta_set_wal_checkpoint_lsn :: "u64 \<Rightarrow> ('z wal_state_scheme, unit) call" where
  "kds_meta_set_wal_checkpoint_lsn lsn = upd_wal (\<lambda>w. w\<lparr>checkpointed_lsn := lsn\<rparr>)"

text \<open>Unsigned comparison: the atomic's signed value is converted to the type of the LSN.\<close>

definition kds_wal_need_checkpoint :: "kds_wal_state \<Rightarrow> u64 \<Rightarrow> bool" where
  "kds_wal_need_checkpoint w lsn \<longleftrightarrow> lsn \<noteq> KDS_LSN_INVALID \<and> checkpointed_lsn w < lsn"

text \<open>The code compares the write offset with the address of the flush offset; \<open>addr\<close> is that address.\<close>

definition kds_wal_need_flush :: "u64 \<Rightarrow> kds_wal_state \<Rightarrow> bool" where
  "kds_wal_need_flush addr w \<longleftrightarrow> write_off (ws_buf w) \<noteq> addr"

section \<open>Helpers\<close>

definition wal_buf_used :: "kds_wal_buf \<Rightarrow> u64" where
  "wal_buf_used b = write_off b - flush_off b"

definition wal_buf_free :: "kds_wal_buf \<Rightarrow> u64" where
  "wal_buf_free b = of_nat KDS_WAL_BUF_SIZE - wal_buf_used b"

definition wal_rec_crc :: "(u32 \<Rightarrow> u8 list \<Rightarrow> u32) \<Rightarrow> kds_wal_rec_hdr \<Rightarrow> u8 list option \<Rightarrow> u32 res" where
  "wal_rec_crc crc32c h body =
     (let crc = crc32c (NOT 0) (enc_rec_hdr (h\<lparr>rec_crc := 0\<rparr>)) in
      case body of
        None \<Rightarrow> Inr (crc XOR NOT 0)
      | Some bs \<Rightarrow>
          if body_len h = 0 then Inr (crc XOR NOT 0)
          else case buf_rd bs (unat (body_len h)) of
            None \<Rightarrow> Inl Fault
          | Some b \<Rightarrow> Inr (crc32c crc b XOR NOT 0))"

definition wal_rec_crc_ok :: "(u32 \<Rightarrow> u8 list \<Rightarrow> u32) \<Rightarrow> kds_wal_rec_hdr \<Rightarrow> u8 list option \<Rightarrow> bool res" where
  "wal_rec_crc_ok crc32c h body = rbind (wal_rec_crc crc32c h body) (\<lambda>c. Inr (rec_crc h = c))"

definition wal_page_payload :: nat where
  "wal_page_payload = KDS_PAGE_HDR_SIZE + KDS_WAL_PAGE_HDR_SIZE"

definition wal_page_hdr :: "pagebuf \<Rightarrow> kds_wal_page_hdr" where
  "wal_page_hdr pg = dec_wal_page_hdr (rd pg KDS_PAGE_HDR_SIZE KDS_WAL_PAGE_HDR_SIZE)"

text \<open>Writing through the pointer the source's \<^verbatim>\<open>wal_page_hdr\<close> returns.\<close>

definition set_wal_page_hdr :: "(kds_wal_page_hdr \<Rightarrow> kds_wal_page_hdr) \<Rightarrow> pagebuf \<Rightarrow> pagebuf" where
  "set_wal_page_hdr g pg = wr pg KDS_PAGE_HDR_SIZE (enc_wal_page_hdr (g (wal_page_hdr pg)))"

definition put_page :: "nat \<Rightarrow> pagebuf \<Rightarrow> ('z btree_state_scheme, unit) call" where
  "put_page i pg = smod (upd_frame i (\<lambda>f. f\<lparr>fr_page := Some pg\<rparr>))"

section \<open>Log pages\<close>

definition wal_page_init :: "u64 \<Rightarrow> u64 \<Rightarrow> pagebuf \<Rightarrow> pagebuf" where
  "wal_page_init seg lsn pg =
     (let h = dec_page_hdr (rd pg 0 KDS_PAGE_HDR_SIZE);
          pg1 = wr pg 0 (enc_page_hdr (h\<lparr>hdr_type := KDS_PAGE_TYPE_WAL,
                  hdr_flags := KDS_PAGE_FLAG_ALLOC OR KDS_PAGE_FLAG_INIT OR KDS_PAGE_FLAG_DIRTY, hdr_crc := 0\<rparr>));
          pg2 = set_wal_page_hdr (\<lambda>_. \<lparr>seg_no = seg, start_lsn = lsn, used_bytes = 0, next_wal_page_id = 0, wph_pad = 0\<rparr>) pg1
      in wr pg2 wal_page_payload (replicate KDS_WAL_PAGE_PAYLOAD 0))"

definition wal_alloc_page :: "u64 \<Rightarrow> u64 \<Rightarrow> ('z wal_state_scheme, nat) call" where
  "wal_alloc_page seg lsn =
     sbind (kds_page_alloc KDS_PAGE_TYPE_WAL) (\<lambda>frame.
     case frame of None \<Rightarrow> sfail (Errno ENOSPC)
     | Some i \<Rightarrow>
       sbind (the_kp i) (\<lambda>kp.
       sbind (the_page i) (\<lambda>pg.
       let pg' = wal_page_init seg lsn pg in
       sbind (put_page i pg') (\<lambda>_.
       sbind (put_kp i (kds_set_page_dirty (kp\<lparr>kp_hdr := dec_page_hdr (rd pg' 0 KDS_PAGE_HDR_SIZE)\<rparr>))) (\<lambda>_.
       sret i)))))"

definition kds_wal_init :: "kenv \<Rightarrow> ('z wal_state_scheme, unit) call" where
  "kds_wal_init env =
     sbind (kalloc env) (\<lambda>state_ok.
     if \<not> state_ok then sfail (Errno ENOMEM)
     else sbind (kalloc env) (\<lambda>buf_ok.
     if \<not> buf_ok then sfail (Errno ENOMEM)
     else sbind (wal_alloc_page 1 KDS_LSN_INVALID) (\<lambda>i.
     sbind (the_kp i) (\<lambda>kp.
     sbind (the_page i) (\<lambda>pg.
     sbind (put_page i (set_wal_page_hdr (\<lambda>h. h\<lparr>start_lsn := kds_lsn_make (kp_id kp) 0\<rparr>) pg)) (\<lambda>_.
     sbind (smod (kds_meta_set_wal_pages (kp_id kp) (kp_id kp))) (\<lambda>_.
     sbind (kds_buf_unpin i) (\<lambda>_.
     smod (\<lambda>s. s\<lparr>g_wal := Some
       \<lparr>ws_buf = \<lparr>wb_buf = (\<lambda>_. 0), write_off = 0, flush_off = 0, current_lsn = KDS_LSN_INVALID,
          tail_page_id = kp_id kp, tail_used = 0, tail_seg_no = 1\<rparr>,
        flush_lsn = KDS_LSN_INVALID, checkpointed_lsn = KDS_LSN_INVALID, prev_lsn = KDS_LSN_INVALID\<rparr>\<rparr>)))))))))"

section \<open>Appending\<close>

text \<open>Copy \<open>bs\<close> to ring offset \<open>off\<close>, in two pieces when it passes the end of the ring.\<close>

definition ring_store :: "pagebuf \<Rightarrow> u64 \<Rightarrow> u8 list \<Rightarrow> pagebuf res" where
  "ring_store buf off bs =
     (let idx = unat (off AND KDS_WAL_BUF_MASK) in
      if idx + length bs \<le> KDS_WAL_BUF_SIZE then Inr (wr buf idx bs)
      else let first = KDS_WAL_BUF_SIZE - idx in
        if length bs - first \<le> KDS_WAL_BUF_SIZE
        then Inr (wr (wr buf idx (take first bs)) 0 (drop first bs)) else Inl Fault)"

definition kds_wal_append ::
  "(u32 \<Rightarrow> u8 list \<Rightarrow> u32) \<Rightarrow> kds_wal_rec_hdr \<Rightarrow> u8 list option \<Rightarrow> ('z wal_state_scheme, kds_wal_rec_hdr) call" where
  "kds_wal_append crc32c hdr body =
     sbind sget (\<lambda>s. case g_wal s of None \<Rightarrow> sfail (Errno ENODEV)
     | Some w \<Rightarrow>
       let buf = ws_buf w; total = of_nat KDS_WAL_REC_HDR_SIZE + body_len hdr :: u32 in
       if KDS_WAL_MAX_REC_SIZE < unat total then sfail (Errno EINVAL)
       else if wal_buf_free buf < ucast total then sfail (Errno ENOSPC)
       else
         let lsn = kds_lsn_make (tail_page_id buf) (tail_used buf + ucast (wal_buf_used buf));
             h = hdr\<lparr>rec_lsn := lsn, rec_prev_lsn := prev_lsn w\<rparr> in
         sbind (slift (wal_rec_crc crc32c h body)) (\<lambda>crc.
         let h' = h\<lparr>rec_crc := crc\<rparr>; off = write_off buf + of_nat KDS_WAL_REC_HDR_SIZE in
         sbind (slift (ring_store (wb_buf buf) (write_off buf) (enc_rec_hdr h'))) (\<lambda>b1.
         sbind (case body of
                  None \<Rightarrow> sret (b1, off)
                | Some bs \<Rightarrow>
                    if body_len h' = 0 then sret (b1, off)
                    else sbind (slift (ring_store b1 off (take (unat (body_len h')) bs))) (\<lambda>b2.
                         sret (b2, off + ucast (body_len h')))) (\<lambda>(b2, off').
         sbind (upd_wal (\<lambda>w. w\<lparr>ws_buf := (ws_buf w)\<lparr>wb_buf := b2, write_off := off', current_lsn := lsn\<rparr>,
                  prev_lsn := lsn\<rparr>)) (\<lambda>_. sret h')))))"

definition kds_wal_commit :: "(u32 \<Rightarrow> u8 list \<Rightarrow> u32) \<Rightarrow> u64 \<Rightarrow> ('z wal_state_scheme, unit) call" where
  "kds_wal_commit crc32c xid =
     sbind (kds_wal_append crc32c (zero_rec_hdr\<lparr>rec_xid := xid, rec_type := rec_type_code KDS_WAL_REC_COMMIT, body_len := 8\<rparr>)
       (Some (enc_body_xact xid))) (\<lambda>_. sret ())"

definition kds_wal_abort :: "(u32 \<Rightarrow> u8 list \<Rightarrow> u32) \<Rightarrow> u64 \<Rightarrow> ('z wal_state_scheme, unit) call" where
  "kds_wal_abort crc32c xid =
     sbind (kds_wal_append crc32c (zero_rec_hdr\<lparr>rec_xid := xid, rec_type := rec_type_code KDS_WAL_REC_ABORT, body_len := 8\<rparr>)
       (Some (enc_body_xact xid))) (\<lambda>_. sret ())"

definition kds_wal_get_current_lsn :: "'z wal_state_scheme \<Rightarrow> u64" where
  "kds_wal_get_current_lsn s = (case g_wal s of None \<Rightarrow> KDS_LSN_INVALID | Some w \<Rightarrow> current_lsn (ws_buf w))"

definition kds_wal_get_flush_lsn :: "('z wal_state_scheme, u64) call" where
  "kds_wal_get_flush_lsn = sbind sget (\<lambda>s. case g_wal s of None \<Rightarrow> sfail Panic | Some w \<Rightarrow> sret (flush_lsn w))"

definition kds_wal_get_checkpointed_lsn :: "'z wal_state_scheme \<Rightarrow> u64" where
  "kds_wal_get_checkpointed_lsn s = (case g_wal s of None \<Rightarrow> KDS_LSN_INVALID | Some w \<Rightarrow> checkpointed_lsn w)"

section \<open>Flushing\<close>

text \<open>The bytes at ring offset \<open>off\<close>, in two pieces when they pass the end of the ring.\<close>

definition ring_load :: "pagebuf \<Rightarrow> u64 \<Rightarrow> nat \<Rightarrow> u8 list res" where
  "ring_load buf off n =
     (let idx = unat (off AND KDS_WAL_BUF_MASK) in
      if idx + n \<le> KDS_WAL_BUF_SIZE then Inr (rd buf idx n)
      else let first = KDS_WAL_BUF_SIZE - idx in
        if n - first \<le> KDS_WAL_BUF_SIZE then Inr (rd buf idx first @ rd buf 0 (n - first)) else Inl Fault)"

text \<open>Store a changed log page in its frame, write it out (the result is ignored) and unpin it.\<close>

definition sync_page :: "kenv \<Rightarrow> nat \<Rightarrow> pagebuf \<Rightarrow> ('z wal_state_scheme, unit) call" where
  "sync_page env i pg =
     sbind (put_page i pg) (\<lambda>_. sbind (set_dirty i) (\<lambda>_. sattempt (kds_frame_flush env i) (\<lambda>_. kds_buf_unpin i)))"

text \<open>Append a log page to the chain and make it the tail. The old tail is written out only after a full chunk.\<close>

definition link_old_tail :: "kenv \<Rightarrow> bool \<Rightarrow> u64 \<Rightarrow> u64 \<Rightarrow> ('z wal_state_scheme, unit) call" where
  "link_old_tail env sync tail new_id =
     sattempt (load_page env tail) (\<lambda>r.
     case r of Inl _ \<Rightarrow> sret ()
     | Inr i \<Rightarrow>
       sbind (the_page i) (\<lambda>pg.
       let pg' = set_wal_page_hdr (\<lambda>h. h\<lparr>next_wal_page_id := new_id\<rparr>) pg in
       if sync then sync_page env i pg'
       else sbind (put_page i pg') (\<lambda>_. sbind (set_dirty i) (\<lambda>_. kds_buf_unpin i))))"

definition grow_log :: "kenv \<Rightarrow> bool \<Rightarrow> ('z wal_state_scheme, unit) call" where
  "grow_log env sync =
     sbind (upd_buf (\<lambda>b. b\<lparr>tail_seg_no := tail_seg_no b + 1\<rparr>)) (\<lambda>_.
     sbind the_wal (\<lambda>w.
     let b = ws_buf w in
     sbind (wal_alloc_page (tail_seg_no b) (kds_lsn_make (tail_page_id b) (tail_used b))) (\<lambda>j.
     sbind (the_kp j) (\<lambda>new_kp.
     sbind (link_old_tail env sync (tail_page_id b) (kp_id new_kp)) (\<lambda>_.
     sbind (upd_buf (\<lambda>b. b\<lparr>tail_page_id := kp_id new_kp, tail_used := 0\<rparr>)) (\<lambda>_.
     kds_buf_unpin j))))))"

text \<open>
  The copy loop. \<open>bytes\<close> is what is left to flush. A round either grows the chain, when the tail page is full, or
  moves at least one byte, and a page just added is not full; \<open>n\<close> bounds the rounds.
\<close>

fun flush_loop :: "kenv \<Rightarrow> nat \<Rightarrow> u64 \<Rightarrow> u64 \<Rightarrow> ('z wal_state_scheme, unit) call" where
  "flush_loop env 0 flush_start bytes = sfail Fault"
| "flush_loop env (Suc n) flush_start bytes =
     (if bytes = 0 then sret ()
      else sbind the_wal (\<lambda>w.
        sbind (load_page env (tail_page_id (ws_buf w))) (\<lambda>i.
        sbind (the_page i) (\<lambda>pg.
        let used = used_bytes (wal_page_hdr pg);
            space = of_nat KDS_WAL_PAGE_PAYLOAD - used :: u32 in
        if space = 0
        then sbind (kds_buf_unpin i) (\<lambda>_.
             sbind (grow_log env False) (\<lambda>_. flush_loop env n flush_start bytes))
        else
          let chunk = min bytes (ucast space) in
          sbind (slift (ring_load (wb_buf (ws_buf w)) flush_start (unat chunk))) (\<lambda>bs.
          sbind (slift (pstore pg (wal_page_payload + unat used) bs)) (\<lambda>pg'.
          sbind (sync_page env i (set_wal_page_hdr (\<lambda>h. h\<lparr>used_bytes := used + ucast chunk\<rparr>) pg')) (\<lambda>_.
          sbind (upd_buf (\<lambda>b. b\<lparr>tail_used := used + ucast chunk\<rparr>)) (\<lambda>_.
          if KDS_WAL_PAGE_PAYLOAD \<le> unat (used + ucast chunk)
          then sattempt (grow_log env True) (\<lambda>r.
               case r of Inl _ \<Rightarrow> sret ()
               | Inr _ \<Rightarrow> flush_loop env n (flush_start + chunk) (bytes - chunk))
          else flush_loop env n (flush_start + chunk) (bytes - chunk)))))))))"

definition kds_wal_flush ::
  "kenv \<Rightarrow> ('z wal_state_scheme \<Rightarrow> 'z wal_state_scheme) \<Rightarrow> ('z wal_state_scheme, unit) call" where
  "kds_wal_flush env oth =
     sbind sget (\<lambda>s. case g_wal s of None \<Rightarrow> sfail Panic
     | Some w \<Rightarrow>
       let flush_start = flush_off (ws_buf w); flush_end = write_off (ws_buf w) in
       if flush_start = flush_end then sret ()
       else
         sbind (flush_loop env (2 * unat (flush_end - flush_start) + 2) flush_start (flush_end - flush_start)) (\<lambda>_.
         sbind (smod oth) (\<lambda>_.
         sbind (upd_buf (\<lambda>b. b\<lparr>flush_off := flush_end\<rparr>)) (\<lambda>_.
         upd_wal (\<lambda>w. w\<lparr>flush_lsn := kds_lsn_make (tail_page_id (ws_buf w)) (tail_used (ws_buf w))\<rparr>)))))"

section \<open>Checkpoints\<close>

definition kds_wal_checkpoint ::
  "kenv \<Rightarrow> (u32 \<Rightarrow> u8 list \<Rightarrow> u32) \<Rightarrow> u64 \<Rightarrow> ('z wal_state_scheme, unit) call" where
  "kds_wal_checkpoint env crc32c data_flush_lsn =
     sbind sget (\<lambda>s.
     sbind (kds_wal_append crc32c (zero_rec_hdr\<lparr>rec_type := rec_type_code KDS_WAL_REC_CHECKPOINT, body_len := 16\<rparr>)
              (Some (enc_body_checkpoint data_flush_lsn (ke_time env (nio s))))) (\<lambda>_.
     sattempt (kds_wal_flush env (\<lambda>s. s)) (\<lambda>r.
     case r of Inl _ \<Rightarrow> sfail Panic
     | Inr _ \<Rightarrow>
       sbind kds_wal_get_flush_lsn (\<lambda>flush_end_lsn.
       sbind (kds_meta_set_wal_checkpoint_lsn flush_end_lsn) (\<lambda>_.
       sattempt (kds_superblock_fsync env) (\<lambda>_. sret ()))))))"

text \<open>One slice of the background proc; it always yields.\<close>

definition kds_wal_checkpointer_proc ::
  "kenv \<Rightarrow> (u32 \<Rightarrow> u8 list \<Rightarrow> u32) \<Rightarrow> u64 \<Rightarrow> ('z wal_state_scheme, unit) call" where
  "kds_wal_checkpointer_proc env crc32c addr =
     sbind sget (\<lambda>s. case g_wal s of None \<Rightarrow> sret ()
     | Some w \<Rightarrow>
       sbind (if kds_wal_need_flush addr w
              then sattempt (kds_wal_flush env (\<lambda>s. s)) (\<lambda>r. case r of Inl _ \<Rightarrow> sfail Panic | Inr _ \<Rightarrow> sret ())
              else sret ()) (\<lambda>_.
       sbind kds_wal_get_flush_lsn (\<lambda>lsn.
       sbind the_wal (\<lambda>w.
       if \<not> kds_wal_need_checkpoint w lsn then sret ()
       else sbind (kds_buf_flush_dirty_frames env) (\<lambda>_.
            sattempt (kds_wal_checkpoint env crc32c lsn) (\<lambda>_. sret ()))))))"

section \<open>Recovery\<close>

text \<open>
  The records of one page: \<open>Some\<close> of the number replayed, \<open>None\<close> when the loop is still running after \<open>n\<close> rounds
  (an offset that wraps can stay where it is). The body's checksum is computed before its length is checked.
\<close>

fun replay_page ::
  "(u32 \<Rightarrow> u8 list \<Rightarrow> u32) \<Rightarrow> u64 \<Rightarrow> pagebuf \<Rightarrow> nat \<Rightarrow> u32 \<Rightarrow> nat \<Rightarrow> nat option res" where
  "replay_page crc32c ckpt_lsn pg 0 off count = Inr None"
| "replay_page crc32c ckpt_lsn pg (Suc n) off count =
     (let used = used_bytes (wal_page_hdr pg); at = wal_page_payload + unat off in
      if unat used < unat off + KDS_WAL_REC_HDR_SIZE then Inr (Some count)
      else rbind (pload pg at KDS_WAL_REC_HDR_SIZE) (\<lambda>bs.
        let rec = dec_rec_hdr bs; len = unat (body_len rec);
            off' = off + of_nat KDS_WAL_REC_HDR_SIZE + body_len rec in
        if rec_lsn rec \<noteq> KDS_LSN_INVALID \<and> rec_lsn rec < ckpt_lsn
        then replay_page crc32c ckpt_lsn pg n off' count
        else rbind (pload pg (at + KDS_WAL_REC_HDR_SIZE) len) (\<lambda>body.
        rbind (wal_rec_crc_ok crc32c rec (Some body)) (\<lambda>ok.
        if \<not> ok then Inr (Some count)
        else if unat used < unat off + KDS_WAL_REC_HDR_SIZE + len then Inr (Some count)
        else if rec_type rec = rec_type_code KDS_WAL_REC_INSERT \<or> rec_type rec = rec_type_code KDS_WAL_REC_DELETE
                \<or> rec_type rec = rec_type_code KDS_WAL_REC_INIT_PAGE
        then replay_page crc32c ckpt_lsn pg n off' (Suc count)
        else if rec_type rec = rec_type_code KDS_WAL_REC_CHECKPOINT \<or> rec_type rec = rec_type_code KDS_WAL_REC_COMMIT
                \<or> rec_type rec = rec_type_code KDS_WAL_REC_ABORT
        then replay_page crc32c ckpt_lsn pg n off' count
        else Inr (Some count)))))"

text \<open>The walk over the chain; the value is \<open>None\<close> when \<open>n\<close> pages, or \<open>m\<close> rounds on one page, were not enough.\<close>

fun recover_chain ::
  "kenv \<Rightarrow> (u32 \<Rightarrow> u8 list \<Rightarrow> u32) \<Rightarrow> u64 \<Rightarrow> nat \<Rightarrow> nat \<Rightarrow> u64 \<Rightarrow> nat \<Rightarrow> ('z wal_state_scheme, nat option) call" where
  "recover_chain env crc32c ckpt_lsn m 0 pid count = sret (if pid = 0 then Some count else None)"
| "recover_chain env crc32c ckpt_lsn m (Suc n) pid count =
     (if pid = 0 then sret (Some count)
      else sbind (load_page env pid) (\<lambda>i.
        sbind (the_page i) (\<lambda>pg.
        sbind (slift (replay_page crc32c ckpt_lsn pg m 0 count)) (\<lambda>r.
        case r of None \<Rightarrow> sret None
        | Some count' \<Rightarrow>
          sbind (kds_buf_unpin i) (\<lambda>_.
          recover_chain env crc32c ckpt_lsn m n (next_wal_page_id (wal_page_hdr pg)) count')))))"

definition kds_wal_recover ::
  "kenv \<Rightarrow> (u32 \<Rightarrow> u8 list \<Rightarrow> u32) \<Rightarrow> nat \<Rightarrow> nat \<Rightarrow> ('z wal_state_scheme, nat option) call" where
  "kds_wal_recover env crc32c m n =
     sbind sget (\<lambda>s. case g_wal s of None \<Rightarrow> sfail (Errno ENODEV)
     | Some w \<Rightarrow>
       if kds_lsn_page_id (checkpointed_lsn w) = 0 then sret (Some 0)
       else recover_chain env crc32c (checkpointed_lsn w) m n (kds_lsn_page_id (checkpointed_lsn w)) 0)"

section \<open>The checkpointer proc and shutdown\<close>

definition kds_wal_checkpointer_init ::
  "kenv \<Rightarrow> ('z wal_state_scheme, unit) call \<Rightarrow> ('z wal_state_scheme, unit) call" where
  "kds_wal_checkpointer_init env proc_register =
     sbind (kalloc env) (\<lambda>mem_ok.
     if \<not> mem_ok then sbind (smod (\<lambda>s. s\<lparr>g_ckpt_proc := False\<rparr>)) (\<lambda>_. sfail (Errno ENOMEM))
     else sbind (smod (\<lambda>s. s\<lparr>g_ckpt_proc := True\<rparr>)) (\<lambda>_.
     strying proc_register (\<lambda>r.
     case r of Inr _ \<Rightarrow> sret ()
     | Inl e \<Rightarrow> sbind (smod (\<lambda>s. s\<lparr>g_ckpt_proc := False\<rparr>)) (\<lambda>_. sfail e))))"

definition kds_wal_checkpointer_shutdown ::
  "('z wal_state_scheme, unit) call \<Rightarrow> ('z wal_state_scheme, unit) call" where
  "kds_wal_checkpointer_shutdown proc_unregister =
     sbind sget (\<lambda>s. if g_ckpt_proc s
     then sbind proc_unregister (\<lambda>_. smod (\<lambda>s. s\<lparr>g_ckpt_proc := False\<rparr>)) else sret ())"

definition kds_wal_shutdown :: "kenv \<Rightarrow> ('z wal_state_scheme, unit) call" where
  "kds_wal_shutdown env =
     sbind sget (\<lambda>s. if g_wal s = None then sret ()
     else sattempt (kds_wal_flush env (\<lambda>s. s)) (\<lambda>_. smod (\<lambda>s. s\<lparr>g_wal := None\<rparr>)))"

section \<open>LSNs and struct layouts\<close>

lemma low_mask: "(0xFFFFFFFF :: u64) = mask 32"
  by (simp add: mask_eq_exp_minus_1)

lemma lsn_parts:
  "unat pid < 2 ^ 32 \<Longrightarrow> kds_lsn_page_id (kds_lsn_make pid off) = pid"
  "kds_lsn_offset (kds_lsn_make pid off) = off"
proof -
  show "kds_lsn_offset (kds_lsn_make pid off) = off"
    unfolding kds_lsn_offset_def kds_lsn_make_def
    unfolding low_mask by (rule bit_word_eqI) (auto simp: bit_simps)
  show "unat pid < 2 ^ 32 \<Longrightarrow> kds_lsn_page_id (kds_lsn_make pid off) = pid"
  proof -
    assume "unat pid < 2 ^ 32"
    then have "\<not> bit pid n" if "32 \<le> n" for n
      using that by (metis bit_take_bit_iff linorder_not_le take_bit_nat_eq_self unsigned_take_bit_eq word_unat_eq_iff)
    then show ?thesis
      unfolding kds_lsn_page_id_def kds_lsn_make_def
      by (intro bit_word_eqI) (auto simp: bit_simps dest: bit_imp_le_length intro: ccontr [of "_ < 32"])
  qed
qed

lemma unat_lsn_make:
  assumes "unat pid < 2 ^ 32"
  shows "unat (kds_lsn_make pid off) = unat pid * 2 ^ 32 + unat off"
proof -
  have "push_bit 32 pid AND ucast off = (0 :: u64)"
    by (rule bit_word_eqI) (auto simp: bit_simps dest: bit_imp_le_length)
  then have "kds_lsn_make pid off = push_bit 32 pid + ucast off"
    unfolding kds_lsn_make_def by (simp add: disjunctive_add_eq_or)
  moreover have "unat (push_bit 32 pid) = unat pid * 2 ^ 32"
    using assms by (simp add: push_bit_eq_mult unat_word_ariths)
  moreover have "unat (ucast off :: u64) = unat off"
    using unat_bound [of off] by (simp add: unsigned_ucast_eq take_bit_nat_eq_self)
  ultimately show ?thesis
    using assms unat_bound [of off] by (simp add: unat_word_ariths)
qed

lemma dec_enc_wal_page_hdr: "dec_wal_page_hdr (enc_wal_page_hdr h) = h"
  by (cases h) (simp add: dec_wal_page_hdr_def enc_wal_page_hdr_def)

lemma length_enc_wal_page_hdr [simp]: "length (enc_wal_page_hdr h) = 32"
  by (simp add: enc_wal_page_hdr_def)

lemma dec_enc_rec_hdr: "rec_hdr_valid h \<Longrightarrow> dec_rec_hdr (enc_rec_hdr h) = h"
  by (cases h) (simp add: dec_rec_hdr_def enc_rec_hdr_def rec_hdr_valid_def nth_append)

lemma length_enc_rec_hdr: "rec_hdr_valid h \<Longrightarrow> length (enc_rec_hdr h) = 36"
  by (simp add: enc_rec_hdr_def rec_hdr_valid_def)

lemma enc_dec_wal_page_hdr:
  assumes "length bs = 32"
  shows "enc_wal_page_hdr (dec_wal_page_hdr bs) = bs"
proof -
  have "bs = take 8 bs @ take 8 (drop 8 bs) @ take 4 (drop 16 bs) @ take 8 (drop 20 bs) @ drop 28 bs"
    using take_drop_glue [of 8 0 bs] take_drop_glue [of 8 8 bs] take_drop_glue [of 4 16 bs] take_drop_glue [of 8 20 bs]
    by simp
  then show ?thesis
    using assms by (simp add: enc_wal_page_hdr_def dec_wal_page_hdr_def enc64_dec64 enc32_dec32)
qed

lemma enc_dec_rec_hdr:
  assumes "length bs = 36"
  shows "enc_rec_hdr (dec_rec_hdr bs) = bs"
proof -
  have "drop 24 bs = bs ! 24 # drop 25 bs"
    using assms Cons_nth_drop_Suc [of 24 bs] by simp
  then have "bs = take 8 bs @ take 8 (drop 8 bs) @ take 8 (drop 16 bs) @ bs ! 24 # take 3 (drop 25 bs) @ take 4 (drop 28 bs) @ drop 32 bs"
    using take_drop_glue [of 8 0 bs] take_drop_glue [of 8 8 bs] take_drop_glue [of 8 16 bs] take_drop_glue [of 3 25 bs]
      take_drop_glue [of 4 28 bs] by simp
  then show ?thesis
    using assms by (simp add: enc_rec_hdr_def dec_rec_hdr_def enc64_dec64 enc32_dec32)
qed

lemma dec_rec_hdr_valid: "length bs = 36 \<Longrightarrow> rec_hdr_valid (dec_rec_hdr bs)"
  by (simp add: rec_hdr_valid_def dec_rec_hdr_def)

interpretation wal_page_layout: layout KDS_WAL_PAGE_HDR_SIZE enc_wal_page_hdr dec_wal_page_hdr "\<lambda>_. True"
  by unfold_locales (simp_all add: KDS_WAL_PAGE_HDR_SIZE_def dec_enc_wal_page_hdr enc_dec_wal_page_hdr)

interpretation wal_rec_layout: layout KDS_WAL_REC_HDR_SIZE enc_rec_hdr dec_rec_hdr rec_hdr_valid
  by unfold_locales
     (simp_all add: KDS_WAL_REC_HDR_SIZE_def dec_enc_rec_hdr length_enc_rec_hdr enc_dec_rec_hdr dec_rec_hdr_valid)

section \<open>The ring is a byte queue\<close>

text \<open>
  Bytes are put at the end and read by distance from the front. A client of this contract gets back, at its place in
  the stream, every block it put.
\<close>

locale byte_queue =
  fixes ok :: "'b \<Rightarrow> bool"
    and contents :: "'b \<Rightarrow> u8 list"
    and cap :: nat
    and put :: "u8 list \<Rightarrow> 'b \<Rightarrow> 'b"
    and peek :: "nat \<Rightarrow> 'b \<Rightarrow> u8 list"
  assumes put_ok: "ok b \<Longrightarrow> length (contents b) + length bs \<le> cap \<Longrightarrow> ok (put bs b)"
    and put_contents: "ok b \<Longrightarrow> length (contents b) + length bs \<le> cap \<Longrightarrow> contents (put bs b) = contents b @ bs"
    and peek_contents: "ok b \<Longrightarrow> n \<le> length (contents b) \<Longrightarrow> peek n b = take n (contents b)"
begin

lemma put_all:
  "ok b \<Longrightarrow> length (contents b) + length (concat bss) \<le> cap \<Longrightarrow>
   ok (fold put bss b) \<and> contents (fold put bss b) = contents b @ concat bss"
  by (induction bss arbitrary: b) (simp_all add: put_ok put_contents)

lemma peek_put:
  "ok b \<Longrightarrow> contents b = [] \<Longrightarrow> length (concat bss) \<le> cap \<Longrightarrow> peek (length (concat bss)) (fold put bss b) = concat bss"
  using put_all [of b bss] by (simp add: peek_contents)

end

definition wal_buffered :: "kds_wal_buf \<Rightarrow> u8 list" where
  "wal_buffered b = map (\<lambda>k. wb_buf b ((unat (flush_off b) + k) mod KDS_WAL_BUF_SIZE)) [0 ..< unat (wal_buf_used b)]"

definition wal_buf_ok :: "kds_wal_buf \<Rightarrow> bool" where
  "wal_buf_ok b \<longleftrightarrow> unat (wal_buf_used b) \<le> KDS_WAL_BUF_SIZE"

lemma length_wal_buffered [simp]: "length (wal_buffered b) = unat (wal_buf_used b)"
  by (simp add: wal_buffered_def)

lemma ring_index: "unat (off AND KDS_WAL_BUF_MASK) = unat off mod KDS_WAL_BUF_SIZE"
proof -
  have "KDS_WAL_BUF_MASK = mask 22"
    by (simp add: KDS_WAL_BUF_MASK_def KDS_WAL_BUF_SIZE_def mask_eq_exp_minus_1)
  then have "off AND KDS_WAL_BUF_MASK = take_bit 22 off"
    by (simp add: take_bit_eq_mask)
  then show ?thesis
    by (simp add: KDS_WAL_BUF_SIZE_def unsigned_take_bit_eq take_bit_nat_def)
qed

lemma mod_wrap: "(0::nat) < m \<Longrightarrow> a mod m + k < m \<Longrightarrow> (a + k) mod m = a mod m + k"
  by (metis mod_add_left_eq mod_less)

lemma mod_wrap2: "(0::nat) < m \<Longrightarrow> m \<le> a mod m + k \<Longrightarrow> k \<le> m \<Longrightarrow> (a + k) mod m = a mod m + k - m"
  by (smt (verit) mod_add_left_eq le_mod_geq mod_less mod_less_divisor add_mono_thms_linordered_field less_diff_conv2 add_less_le_mono)

lemma size_pos: "0 < KDS_WAL_BUF_SIZE"
  by (simp add: KDS_WAL_BUF_SIZE_def)

lemma ring_load_spec:
  assumes "n \<le> KDS_WAL_BUF_SIZE"
  shows "ring_load buf off n = Inr (map (\<lambda>k. buf ((unat off + k) mod KDS_WAL_BUF_SIZE)) [0 ..< n])"
proof -
  let ?m = KDS_WAL_BUF_SIZE and ?i = "unat off mod KDS_WAL_BUF_SIZE"
  have i: "?i < ?m" using size_pos by simp
  show ?thesis
  proof (cases "?i + n \<le> ?m")
    case True
    then have "rd buf ?i n = map (\<lambda>k. buf ((unat off + k) mod ?m)) [0 ..< n]"
      by (intro nth_equalityI) (simp_all add: mod_wrap size_pos)
    with True show ?thesis by (simp add: ring_load_def ring_index)
  next
    case False
    have "rd buf ?i (?m - ?i) @ rd buf 0 (n - (?m - ?i)) = map (\<lambda>k. buf ((unat off + k) mod ?m)) [0 ..< n]"
      (is "?l = ?r")
    proof (rule nth_equalityI)
      show "length ?l = length ?r" using False i by simp
      fix k assume "k < length ?l"
      then have k: "k < n" using False i by simp
      show "?l ! k = ?r ! k"
      proof (cases "?i + k < ?m")
        case True
        then have "k < ?m - ?i" by simp
        with True k show ?thesis by (simp add: nth_append mod_wrap size_pos)
      next
        case neg: False
        then have "(unat off + k) mod ?m = ?i + k - ?m" "\<not> k < ?m - ?i" "?i + k - ?m = k - (?m - ?i)"
          using k i assms by (simp_all add: mod_wrap2 size_pos)
        with k False i show ?thesis by (simp add: nth_append)
      qed
    qed
    with False assms i show ?thesis by (simp add: ring_load_def ring_index Let_def)
  qed
qed

lemma ring_store_spec:
  assumes "length bs \<le> KDS_WAL_BUF_SIZE"
  shows "\<exists>m. ring_store buf off bs = Inr m \<and>
    (\<forall>k < KDS_WAL_BUF_SIZE. m ((unat off + k) mod KDS_WAL_BUF_SIZE) =
       (if k < length bs then bs ! k else buf ((unat off + k) mod KDS_WAL_BUF_SIZE)))"
proof -
  let ?S = KDS_WAL_BUF_SIZE and ?i = "unat off mod KDS_WAL_BUF_SIZE" and ?f = "KDS_WAL_BUF_SIZE - unat off mod KDS_WAL_BUF_SIZE"
  have i: "?i < ?S" using size_pos by simp
  have addr: "(unat off + k) mod ?S = (if ?i + k < ?S then ?i + k else ?i + k - ?S)" if "k < ?S" for k
    using that by (simp add: mod_wrap mod_wrap2 size_pos)
  show ?thesis
  proof (cases "?i + length bs \<le> ?S")
    case True
    then have "ring_store buf off bs = Inr (wr buf ?i bs)"
      by (simp add: ring_store_def ring_index)
    moreover have "wr buf ?i bs ((unat off + k) mod ?S) = (if k < length bs then bs ! k else buf ((unat off + k) mod ?S))"
      if "k < ?S" for k
      using True i that by (auto simp: addr wr_def)
    ultimately show ?thesis by blast
  next
    case False
    let ?m = "wr (wr buf ?i (take ?f bs)) 0 (drop ?f bs)"
    have "ring_store buf off bs = Inr ?m"
      using False assms i by (simp add: ring_store_def ring_index Let_def)
    moreover have "?m ((unat off + k) mod ?S) = (if k < length bs then bs ! k else buf ((unat off + k) mod ?S))"
      if k: "k < ?S" for k
    proof (cases "?i + k < ?S")
      case True
      then show ?thesis using False assms i by (auto simp: addr [OF k] wr_def)
    next
      case neg: False
      then have a: "(unat off + k) mod ?S = ?i + k - ?S" using addr [OF k] by simp
      have j: "?i + k - ?S = k - ?f" "?f \<le> k" "k - ?f < ?i" using neg i k by simp_all
      show ?thesis
      proof (cases "k < length bs")
        case True
        then show ?thesis using j unfolding a by (simp add: wr_inside)
      next
        case None: False
        then show ?thesis using j unfolding a by (simp add: wr_outside)
      qed
    qed
    ultimately show ?thesis by blast
  qed
qed

definition buf_put :: "u8 list \<Rightarrow> kds_wal_buf \<Rightarrow> kds_wal_buf" where
  "buf_put bs b = (case ring_store (wb_buf b) (write_off b) bs of
     Inr m \<Rightarrow> b\<lparr>wb_buf := m, write_off := write_off b + of_nat (length bs)\<rparr> | Inl _ \<Rightarrow> b)"

definition buf_peek :: "nat \<Rightarrow> kds_wal_buf \<Rightarrow> u8 list" where
  "buf_peek n b = (case ring_load (wb_buf b) (flush_off b) n of Inr bs \<Rightarrow> bs | Inl _ \<Rightarrow> [])"

lemma unat_add_mod_size: "unat (a + b :: u64) mod KDS_WAL_BUF_SIZE = (unat a + unat b) mod KDS_WAL_BUF_SIZE"
proof -
  have "KDS_WAL_BUF_SIZE dvd 2 ^ 64" by (simp add: KDS_WAL_BUF_SIZE_def)
  then show ?thesis by (simp add: unat_word_ariths mod_mod_cancel)
qed

lemma buf_put_used:
  assumes "wal_buf_ok b" "unat (wal_buf_used b) + length bs \<le> KDS_WAL_BUF_SIZE"
    and "ring_store (wb_buf b) (write_off b) bs = Inr m"
  shows "unat (wal_buf_used (buf_put bs b)) = unat (wal_buf_used b) + length bs"
proof -
  have "wal_buf_used (buf_put bs b) = wal_buf_used b + of_nat (length bs)"
    by (simp add: buf_put_def assms(3) wal_buf_used_def)
  moreover have "unat (wal_buf_used b) + length bs < 2 ^ 64"
    using assms(2) by (simp add: KDS_WAL_BUF_SIZE_def)
  ultimately show ?thesis
    by (simp add: unat_word_ariths unat_of_nat)
qed

lemma buf_put_contents:
  assumes ok: "wal_buf_ok b" and room: "unat (wal_buf_used b) + length bs \<le> KDS_WAL_BUF_SIZE"
  shows "wal_buf_ok (buf_put bs b) \<and> wal_buffered (buf_put bs b) = wal_buffered b @ bs"
proof -
  let ?S = KDS_WAL_BUF_SIZE and ?u = "unat (wal_buf_used b)"
  obtain m where m: "ring_store (wb_buf b) (write_off b) bs = Inr m"
    and at: "\<And>k. k < ?S \<Longrightarrow> m ((unat (write_off b) + k) mod ?S) =
       (if k < length bs then bs ! k else wb_buf b ((unat (write_off b) + k) mod ?S))"
    using ring_store_spec [of bs "wb_buf b" "write_off b"] room by auto
  have "write_off b = flush_off b + wal_buf_used b" by (simp add: wal_buf_used_def)
  then have w: "unat (write_off b) mod ?S = (unat (flush_off b) + ?u) mod ?S"
    using unat_add_mod_size by metis
  have used: "unat (wal_buf_used (buf_put bs b)) = ?u + length bs"
    using buf_put_used [OF ok room m] .
  have "wal_buffered (buf_put bs b) = wal_buffered b @ bs" (is "?l = ?r")
  proof (rule nth_equalityI)
    show "length ?l = length ?r" using used by simp
    fix k assume "k < length ?l"
    then have k: "k < ?u + length bs" using used by simp
    have l: "?l ! k = m ((unat (flush_off b) + k) mod ?S)"
      using k used by (simp add: wal_buffered_def buf_put_def m)
    show "?l ! k = ?r ! k"
    proof (cases "k < ?u")
      case True
      have "(unat (write_off b) + (?S - ?u + k)) mod ?S = (unat (flush_off b) + ?u + (?S - ?u + k)) mod ?S"
        using w by (metis mod_add_left_eq)
      also have "\<dots> = (unat (flush_off b) + k + ?S) mod ?S"
        using room by (simp add: algebra_simps)
      finally have e: "(unat (write_off b) + (?S - ?u + k)) mod ?S = (unat (flush_off b) + k) mod ?S" by simp
      have "?S - ?u + k < ?S" "\<not> ?S - ?u + k < length bs" using True room by simp_all
      then show ?thesis using at [of "?S - ?u + k"] e l True by (simp add: nth_append wal_buffered_def)
    next
      case False
      have "(unat (write_off b) + (k - ?u)) mod ?S = (unat (flush_off b) + ?u + (k - ?u)) mod ?S"
        using w by (metis mod_add_left_eq)
      then have e: "(unat (write_off b) + (k - ?u)) mod ?S = (unat (flush_off b) + k) mod ?S" using False by simp
      have "k - ?u < ?S" "k - ?u < length bs" using False k room by simp_all
      then show ?thesis using at [of "k - ?u"] e l False by (simp add: nth_append)
    qed
  qed
  then show ?thesis using used room by (simp add: wal_buf_ok_def)
qed

lemma buf_peek_contents:
  "wal_buf_ok b \<Longrightarrow> n \<le> length (wal_buffered b) \<Longrightarrow> buf_peek n b = take n (wal_buffered b)"
  by (simp add: buf_peek_def ring_load_spec wal_buf_ok_def wal_buffered_def take_map)

interpretation wal_ring: byte_queue wal_buf_ok wal_buffered KDS_WAL_BUF_SIZE buf_put buf_peek
  by unfold_locales (simp_all add: buf_put_contents buf_peek_contents)

section \<open>Appending records\<close>

definition rec_fits :: "kds_wal_rec_hdr \<Rightarrow> u8 list \<Rightarrow> bool" where
  "rec_fits h bs \<longleftrightarrow> rec_hdr_valid h \<and> unat (body_len h) = length bs \<and> length bs \<le> KDS_PAGE_SIZE"

lemma rec_total:
  assumes "rec_fits h bs"
  shows "unat (of_nat KDS_WAL_REC_HDR_SIZE + body_len h) = 36 + length bs"
  using assms by (simp add: rec_fits_def unat_word_ariths KDS_WAL_REC_HDR_SIZE_def KDS_PAGE_SIZE_def)

lemma ucast_u32_u64: "unat (ucast (w :: u32) :: u64) = unat w"
  using unat_bound [of w] by (simp add: unsigned_ucast_eq take_bit_nat_eq_self)

lemma buf_free_iff:
  assumes "wal_buf_ok b"
  shows "unat (wal_buf_free b) = KDS_WAL_BUF_SIZE - unat (wal_buf_used b)"
proof -
  have "wal_buf_used b \<le> of_nat KDS_WAL_BUF_SIZE"
    using assms by (simp add: wal_buf_ok_def word_le_nat_alt KDS_WAL_BUF_SIZE_def)
  then show ?thesis
    by (simp add: wal_buf_free_def unat_sub KDS_WAL_BUF_SIZE_def)
qed

lemma crc_of_rec: "rec_fits h bs \<Longrightarrow> \<exists>c. wal_rec_crc crc h (Some bs) = Inr c"
  by (simp add: wal_rec_crc_def rec_fits_def buf_rd_def Let_def)

lemma crc_ignores_crc: "wal_rec_crc crc (h\<lparr>rec_crc := c\<rparr>) body = wal_rec_crc crc h body"
  by (simp add: wal_rec_crc_def Let_def split: option.split)

definition next_lsn :: "kds_wal_buf \<Rightarrow> u64" where
  "next_lsn b = kds_lsn_make (tail_page_id b) (tail_used b + ucast (wal_buf_used b))"

definition stamped :: "(u32 \<Rightarrow> u8 list \<Rightarrow> u32) \<Rightarrow> kds_wal_state \<Rightarrow> kds_wal_rec_hdr \<Rightarrow> u8 list \<Rightarrow> kds_wal_rec_hdr" where
  "stamped crc w h bs = (let h1 = h\<lparr>rec_lsn := next_lsn (ws_buf w), rec_prev_lsn := prev_lsn w\<rparr>
     in h1\<lparr>rec_crc := (case wal_rec_crc crc h1 (Some bs) of Inr c \<Rightarrow> c | Inl _ \<Rightarrow> 0)\<rparr>)"

definition appended :: "(u32 \<Rightarrow> u8 list \<Rightarrow> u32) \<Rightarrow> kds_wal_state \<Rightarrow> kds_wal_rec_hdr \<Rightarrow> u8 list \<Rightarrow> kds_wal_state" where
  "appended crc w h bs = w\<lparr>ws_buf := (buf_put bs (buf_put (enc_rec_hdr (stamped crc w h bs)) (ws_buf w)))
     \<lparr>current_lsn := next_lsn (ws_buf w)\<rparr>, prev_lsn := next_lsn (ws_buf w)\<rparr>"

lemma buf_put_fields [simp]:
  "flush_off (buf_put bs b) = flush_off b" "current_lsn (buf_put bs b) = current_lsn b"
  "tail_page_id (buf_put bs b) = tail_page_id b" "tail_used (buf_put bs b) = tail_used b"
  "tail_seg_no (buf_put bs b) = tail_seg_no b"
  by (simp_all add: buf_put_def split: sum.split)

lemma buffered_lsn [simp]:
  "wal_buffered (b\<lparr>current_lsn := l\<rparr>) = wal_buffered b" "wal_buf_ok (b\<lparr>current_lsn := l\<rparr>) = wal_buf_ok b"
  "wal_buf_used (b\<lparr>current_lsn := l\<rparr>) = wal_buf_used b"
  by (simp_all add: wal_buffered_def wal_buf_ok_def wal_buf_used_def)

lemma stamped_fields [simp]:
  "rec_lsn (stamped crc w h bs) = next_lsn (ws_buf w)" "rec_prev_lsn (stamped crc w h bs) = prev_lsn w"
  "rec_xid (stamped crc w h bs) = rec_xid h" "rec_type (stamped crc w h bs) = rec_type h"
  "body_len (stamped crc w h bs) = body_len h" "rec_pad (stamped crc w h bs) = rec_pad h"
  by (simp_all add: stamped_def Let_def)

lemma stamped_fits: "rec_fits h bs \<Longrightarrow> rec_fits (stamped crc w h bs) bs"
  by (simp add: rec_fits_def rec_hdr_valid_def)

lemma rec_fits_lsn [simp]: "rec_fits (h\<lparr>rec_lsn := a, rec_prev_lsn := b\<rparr>) bs = rec_fits h bs"
  by (simp add: rec_fits_def rec_hdr_valid_def)

lemma stamped_crc: "rec_fits h bs \<Longrightarrow> wal_rec_crc_ok crc (stamped crc w h bs) (Some bs) = Inr True"
  using crc_of_rec [of "h\<lparr>rec_lsn := next_lsn (ws_buf w), rec_prev_lsn := prev_lsn w\<rparr>" bs crc]
  by (auto simp: stamped_def wal_rec_crc_ok_def Let_def crc_ignores_crc)

lemma put_stored:
  assumes "ring_store (wb_buf b) (write_off b) bs = Inr m"
  shows "buf_put bs b = b\<lparr>wb_buf := m, write_off := write_off b + of_nat (length bs)\<rparr>"
  by (simp add: buf_put_def assms)

lemma ring_store_Nil: "ring_store buf off [] = Inr buf"
  by (simp add: ring_store_def ring_index Let_def)

lemma append_runs:
  assumes w: "g_wal s = Some w" and ok: "wal_buf_ok (ws_buf w)" and fits: "rec_fits h bs"
    and room: "unat (wal_buf_used (ws_buf w)) + 36 + length bs \<le> KDS_WAL_BUF_SIZE"
  shows "kds_wal_append crc h (Some bs) s = (Inr (stamped crc w h bs), s\<lparr>g_wal := Some (appended crc w h bs)\<rparr>)"
proof -
  let ?b = "ws_buf w" and ?e = "enc_rec_hdr (stamped crc w h bs)"
  let ?h1 = "h\<lparr>rec_lsn := next_lsn ?b, rec_prev_lsn := prev_lsn w\<rparr>"
  have le: "length ?e = 36" using stamped_fits [OF fits] by (simp add: length_enc_rec_hdr rec_fits_def)
  obtain c where c: "wal_rec_crc crc ?h1 (Some bs) = Inr c" using fits crc_of_rec [of ?h1 bs crc] by auto
  then have st: "stamped crc w h bs = ?h1\<lparr>rec_crc := c\<rparr>" by (simp add: stamped_def)
  have "length ?e \<le> KDS_WAL_BUF_SIZE" "length bs \<le> KDS_WAL_BUF_SIZE" using le room by simp_all
  then obtain m1 m2 where m1: "ring_store (wb_buf ?b) (write_off ?b) ?e = Inr m1"
    and m2: "ring_store m1 (write_off ?b + 36) bs = Inr m2"
    using ring_store_spec by metis
  have put: "buf_put bs (buf_put ?e ?b) = ?b\<lparr>wb_buf := m2, write_off := write_off ?b + 36 + of_nat (length bs)\<rparr>"
    using m2 le by (simp add: put_stored [OF m1] put_stored)
  have t: "unat (of_nat KDS_WAL_REC_HDR_SIZE + body_len h) = 36 + length bs" by (rule rec_total [OF fits])
  have big: "\<not> KDS_WAL_MAX_REC_SIZE < unat (of_nat KDS_WAL_REC_HDR_SIZE + body_len h)"
    using fits t by (simp add: KDS_WAL_MAX_REC_SIZE_def KDS_WAL_REC_HDR_SIZE_def rec_fits_def)
  have free: "\<not> wal_buf_free ?b < ucast (of_nat KDS_WAL_REC_HDR_SIZE + body_len h)"
    using room t buf_free_iff [OF ok] by (simp add: word_less_nat_alt ucast_u32_u64)
  have lenb: "(ucast (body_len h) :: u64) = of_nat (length bs)"
    using fits by (simp add: rec_fits_def word_unat_eq_iff ucast_u32_u64 unat_of_nat KDS_PAGE_SIZE_def)
  have tk: "take (unat (body_len h)) bs = bs" using fits by (simp add: rec_fits_def)
  have nil: "body_len h = 0 \<Longrightarrow> bs = []" using fits by (simp add: rec_fits_def)
  show ?thesis
  proof (cases "body_len h = 0")
    case True
    then have "m2 = m1" using m2 nil by (simp add: ring_store_Nil)
    then show ?thesis
      using w big free c m1 put st True nil
      by (simp add: kds_wal_append_def appended_def call_defs upd_wal_def Let_def next_lsn_def [symmetric]
          KDS_WAL_REC_HDR_SIZE_def)
  next
    case False
    then show ?thesis
      using w big free c m1 m2 put st lenb tk
      by (simp add: kds_wal_append_def appended_def call_defs upd_wal_def Let_def next_lsn_def [symmetric]
          KDS_WAL_REC_HDR_SIZE_def)
  qed
qed

lemma append_full:
  assumes w: "g_wal s = Some w" and ok: "wal_buf_ok (ws_buf w)" and fits: "rec_fits h bs"
    and full: "KDS_WAL_BUF_SIZE < unat (wal_buf_used (ws_buf w)) + 36 + length bs"
  shows "kds_wal_append crc h (Some bs) s = (fails ENOSPC, s)"
proof -
  have t: "unat (of_nat KDS_WAL_REC_HDR_SIZE + body_len h) = 36 + length bs" by (rule rec_total [OF fits])
  have "\<not> KDS_WAL_MAX_REC_SIZE < unat (of_nat KDS_WAL_REC_HDR_SIZE + body_len h)"
    using fits t by (simp add: KDS_WAL_MAX_REC_SIZE_def KDS_WAL_REC_HDR_SIZE_def rec_fits_def)
  moreover have "wal_buf_free (ws_buf w) < ucast (of_nat KDS_WAL_REC_HDR_SIZE + body_len h)"
    using full t buf_free_iff [OF ok] ok by (simp add: word_less_nat_alt ucast_u32_u64 wal_buf_ok_def)
  ultimately show ?thesis
    using w by (simp add: kds_wal_append_def call_defs Let_def)
qed

lemma appended_buf:
  assumes ok: "wal_buf_ok (ws_buf w)" and fits: "rec_fits h bs"
    and room: "unat (wal_buf_used (ws_buf w)) + 36 + length bs \<le> KDS_WAL_BUF_SIZE"
  shows "wal_buf_ok (ws_buf (appended crc w h bs))"
    "wal_buffered (ws_buf (appended crc w h bs)) = wal_buffered (ws_buf w) @ enc_rec_hdr (stamped crc w h bs) @ bs"
    "unat (wal_buf_used (ws_buf (appended crc w h bs))) = unat (wal_buf_used (ws_buf w)) + 36 + length bs"
proof -
  let ?e = "enc_rec_hdr (stamped crc w h bs)"
  have le: "length ?e = 36" using stamped_fits [OF fits] by (simp add: length_enc_rec_hdr rec_fits_def)
  have *: "wal_buf_ok (fold buf_put [?e, bs] (ws_buf w)) \<and>
     wal_buffered (fold buf_put [?e, bs] (ws_buf w)) = wal_buffered (ws_buf w) @ concat [?e, bs]"
    by (rule wal_ring.put_all [OF ok]) (use room le in simp)
  then show "wal_buf_ok (ws_buf (appended crc w h bs))"
    "wal_buffered (ws_buf (appended crc w h bs)) = wal_buffered (ws_buf w) @ ?e @ bs"
    by (simp_all add: appended_def)
  from * have "length (wal_buffered (fold buf_put [?e, bs] (ws_buf w))) = unat (wal_buf_used (ws_buf w)) + 36 + length bs"
    using le by simp
  then show "unat (wal_buf_used (ws_buf (appended crc w h bs))) = unat (wal_buf_used (ws_buf w)) + 36 + length bs"
    by (simp add: appended_def)
qed

text \<open>A sequence of appends, as the executors and the checkpointer issue them.\<close>

fun append_all ::
  "(u32 \<Rightarrow> u8 list \<Rightarrow> u32) \<Rightarrow> (kds_wal_rec_hdr \<times> u8 list) list \<Rightarrow> ('z wal_state_scheme, kds_wal_rec_hdr list) call" where
  "append_all crc32c [] = sret []"
| "append_all crc32c ((h, bs) # rs) =
     sbind (kds_wal_append crc32c h (Some bs)) (\<lambda>h'. sbind (append_all crc32c rs) (\<lambda>hs. sret (h' # hs)))"

text \<open>Reading a byte stream of records, the reader's view of the log.\<close>

fun read_records :: "nat \<Rightarrow> u8 list \<Rightarrow> (kds_wal_rec_hdr \<times> u8 list) list" where
  "read_records 0 bs = []"
| "read_records (Suc n) bs =
     (let h = dec_rec_hdr (take KDS_WAL_REC_HDR_SIZE bs); r = drop KDS_WAL_REC_HDR_SIZE bs; len = unat (body_len h)
      in (h, take len r) # read_records n (drop len r))"

fun lsn_chain :: "u64 \<Rightarrow> kds_wal_rec_hdr list \<Rightarrow> bool" where
  "lsn_chain p [] = True"
| "lsn_chain p (h # hs) = (rec_prev_lsn h = p \<and> lsn_chain (rec_lsn h) hs)"

definition rec_bytes :: "(kds_wal_rec_hdr \<times> u8 list) list \<Rightarrow> nat" where
  "rec_bytes rs = sum_list (map (\<lambda>(h, bs). 36 + length bs) rs)"

lemma rec_bytes_simps [simp]: "rec_bytes [] = 0" "rec_bytes ((h, bs) # rs) = 36 + length bs + rec_bytes rs"
  by (simp_all add: rec_bytes_def)

definition same_record :: "kds_wal_rec_hdr \<Rightarrow> kds_wal_rec_hdr \<Rightarrow> bool" where
  "same_record h h' \<longleftrightarrow> rec_xid h' = rec_xid h \<and> rec_type h' = rec_type h \<and> body_len h' = body_len h \<and> rec_pad h' = rec_pad h"

lemma read_one:
  assumes "rec_fits h bs"
  shows "read_records (Suc n) (enc_rec_hdr h @ bs @ rest) = (h, bs) # read_records n rest"
  using assms by (simp add: rec_fits_def KDS_WAL_REC_HDR_SIZE_def length_enc_rec_hdr dec_enc_rec_hdr Let_def)

lemma appended_fields [simp]:
  "tail_page_id (ws_buf (appended crc w h bs)) = tail_page_id (ws_buf w)"
  "tail_used (ws_buf (appended crc w h bs)) = tail_used (ws_buf w)"
  "flush_off (ws_buf (appended crc w h bs)) = flush_off (ws_buf w)"
  "prev_lsn (appended crc w h bs) = next_lsn (ws_buf w)"
  "flush_lsn (appended crc w h bs) = flush_lsn w" "checkpointed_lsn (appended crc w h bs) = checkpointed_lsn w"
  "current_lsn (ws_buf (appended crc w h bs)) = next_lsn (ws_buf w)"
  by (simp_all add: appended_def)

lemma unat_next_lsn:
  assumes "unat (tail_page_id b) < 2 ^ 32" "unat (tail_used b) + unat (wal_buf_used b) < 2 ^ 32"
  shows "unat (next_lsn b) = unat (tail_page_id b) * 2 ^ 32 + (unat (tail_used b) + unat (wal_buf_used b))"
proof -
  have "unat (ucast (wal_buf_used b) :: u32) = unat (wal_buf_used b)"
    using assms(2) by (simp add: unsigned_ucast_eq take_bit_nat_eq_self)
  then show ?thesis
    using assms by (simp add: next_lsn_def unat_lsn_make unat_word_ariths)
qed

lemma append_all_runs:
  assumes "g_wal s = Some w" "wal_buf_ok (ws_buf w)" "list_all (\<lambda>(h, bs). rec_fits h bs) rs"
    and "unat (wal_buf_used (ws_buf w)) + rec_bytes rs \<le> KDS_WAL_BUF_SIZE"
    and "unat (tail_page_id (ws_buf w)) < 2 ^ 32" "unat (tail_used (ws_buf w)) + KDS_WAL_BUF_SIZE < 2 ^ 32"
  shows "\<exists>hs w'. append_all crc rs s = (Inr hs, s\<lparr>g_wal := Some w'\<rparr>)
    \<and> wal_buf_ok (ws_buf w')
    \<and> (\<exists>str. wal_buffered (ws_buf w') = wal_buffered (ws_buf w) @ str
         \<and> read_records (length rs) str = zip hs (map snd rs))
    \<and> list_all2 (\<lambda>h (h0, bs). same_record h0 h \<and> wal_rec_crc_ok crc h (Some bs) = Inr True) hs rs
    \<and> lsn_chain (prev_lsn w) hs
    \<and> sorted_wrt (<) (map (\<lambda>h. unat (rec_lsn h)) hs) \<and> (\<forall>h \<in> set hs. unat (next_lsn (ws_buf w)) \<le> unat (rec_lsn h))"
  using assms
proof (induction rs arbitrary: s w)
  case Nil
  then have "append_all crc [] s = (Inr [], s\<lparr>g_wal := Some w\<rparr>)" by (simp add: sret_def)
  with Nil.prems(2) show ?case by (intro exI [of _ "[]"] exI [of _ w]) simp
next
  case (Cons r rs)
  obtain h bs where r: "r = (h, bs)" by force
  let ?w = "appended crc w h bs" and ?h = "stamped crc w h bs"
  have fits: "rec_fits h bs" and room: "unat (wal_buf_used (ws_buf w)) + 36 + length bs \<le> KDS_WAL_BUF_SIZE"
    using Cons.prems r by auto
  note buf = appended_buf [OF Cons.prems(2) fits room, of crc]
  have run: "kds_wal_append crc h (Some bs) s = (Inr ?h, s\<lparr>g_wal := Some ?w\<rparr>)"
    by (rule append_runs [OF Cons.prems(1,2) fits room])
  have rest: "list_all (\<lambda>(h, bs). rec_fits h bs) rs" "unat (wal_buf_used (ws_buf ?w)) + rec_bytes rs \<le> KDS_WAL_BUF_SIZE"
    using Cons.prems(3,4) r buf(3) by simp_all
  obtain hs w' str where IH: "append_all crc rs (s\<lparr>g_wal := Some ?w\<rparr>) = (Inr hs, s\<lparr>g_wal := Some w'\<rparr>)"
    "wal_buf_ok (ws_buf w')" "wal_buffered (ws_buf w') = wal_buffered (ws_buf ?w) @ str"
    "read_records (length rs) str = zip hs (map snd rs)"
    "list_all2 (\<lambda>h (h0, bs). same_record h0 h \<and> wal_rec_crc_ok crc h (Some bs) = Inr True) hs rs"
    "lsn_chain (prev_lsn ?w) hs" "sorted_wrt (<) (map (\<lambda>h. unat (rec_lsn h)) hs)"
    "\<forall>h \<in> set hs. unat (next_lsn (ws_buf ?w)) \<le> unat (rec_lsn h)"
    using Cons.IH [of "s\<lparr>g_wal := Some ?w\<rparr>" ?w, OF _ buf(1) rest] Cons.prems(5,6) by (simp del: appended_fields(4)) blast
  have lt: "unat (next_lsn (ws_buf w)) < unat (next_lsn (ws_buf ?w))"
    using buf(3) Cons.prems r by (simp add: unat_next_lsn)
  have "append_all crc (r # rs) s = (Inr (?h # hs), s\<lparr>g_wal := Some w'\<rparr>)"
    using run IH(1) r by (simp add: call_defs)
  moreover have "wal_buffered (ws_buf w') = wal_buffered (ws_buf w) @ (enc_rec_hdr ?h @ bs @ str)"
    using IH(3) buf(2) by simp
  moreover have "read_records (length (r # rs)) (enc_rec_hdr ?h @ bs @ str) = zip (?h # hs) (map snd (r # rs))"
    using IH(4) r read_one [OF stamped_fits [OF fits]] by simp
  moreover have "list_all2 (\<lambda>h (h0, bs). same_record h0 h \<and> wal_rec_crc_ok crc h (Some bs) = Inr True) (?h # hs) (r # rs)"
    using IH(5) r stamped_crc [OF fits] by (simp add: same_record_def)
  moreover have "lsn_chain (prev_lsn w) (?h # hs)" using IH(6) by simp
  moreover have "sorted_wrt (<) (map (\<lambda>h. unat (rec_lsn h)) (?h # hs))"
    using IH(7,8) lt by (auto dest: order_less_le_trans)
  moreover have "\<forall>h' \<in> set (?h # hs). unat (next_lsn (ws_buf w)) \<le> unat (rec_lsn h')"
    using IH(8) lt by (auto dest: order_trans less_imp_le)
  ultimately show ?case using IH(2) by blast
qed

end
