(* ===== verification/Kds_Wal_Log.thy ===== *)
theory Kds_Wal_Log
  imports Kds_Wal
begin

text \<open>
  The log as the flush loop and recovery see it: the chain of log pages, what one round of the flush loop does, a
  whole flush, start-up, checkpoints and replay, with the properties of the write-ahead log. The chain is given by its
  page ids; \<open>log_inv\<close> ties it to the buffer pool, the disk and the in-memory tail.
\<close>

section \<open>Writing a log page back\<close>

lemma wal_more:
  fixes s s' :: "'z wal_state_scheme"
  assumes "pool_state.more s' = pool_state.more s"
  shows "g_wal s' = g_wal s" "g_wal_head_page_id s' = g_wal_head_page_id s" "g_wal_tail_page_id s' = g_wal_tail_page_id s"
    "g_ckpt_proc s' = g_ckpt_proc s"
  using assms by (cases s, cases s', simp)+

lemma only_frame_trans: "only_frame i s t \<Longrightarrow> only_frame i t u \<Longrightarrow> only_frame i s u"
  by (simp add: only_frame_def)

lemma only_frame_upd_self: "only_frame i s (upd_frame i g s)"
  by (simp add: only_frame_def)

lemma write_logical_io:
  assumes "env_good env" and "kds_bdev s"
  obtains s' where "kds_write_logical_page env sec pg s = (Inr (), s')"
  using write_logical_good [OF assms] by blast

lemma frame_flush_good:
  assumes "env_good env" and "kds_bdev s" and "fr_kp (pframes s i) = Some kp" and "fr_page (pframes s i) = Some pg"
  shows "\<exists>s'. kds_frame_flush env i s = (Inr (), s')"
proof (cases "frame_dirty (pframes s i)")
  case False
  with assms show ?thesis by (simp add: flush_clean)
next
  case True
  let ?pg = "wr pg 0 (enc_page_hdr (kp_hdr kp))"
  have "kds_bdev (upd_frame i (\<lambda>f. f\<lparr>fr_page := Some ?pg\<rparr>) s)" using assms(2) by simp
  then obtain s' where "kds_write_logical_page env (kds_page_sector (fr_page_id (pframes s i))) ?pg
      (upd_frame i (\<lambda>f. f\<lparr>fr_page := Some ?pg\<rparr>) s) = (Inr (), s')"
    using write_logical_good [OF assms(1)] by blast
  with True assms show ?thesis by (simp add: kds_frame_flush_def call_defs Let_def)
qed

lemma dirty_is_dirty: "frame_dirty (f\<lparr>fr_kp := Some (kds_set_page_dirty kp)\<rparr>)"
proof -
  have "bit ((hdr_flags (kp_hdr kp) OR 8) AND 8) 3" by (simp add: bit_simps)
  then show ?thesis
    by (auto simp: frame_dirty_def kds_set_page_dirty_def KDS_PAGE_FLAG_DIRTY_def simp del: bit_and_iff)
qed

lemma page_hdr_valid_simps [simp]:
  "page_hdr_valid (h\<lparr>hdr_flags := x\<rparr>) = page_hdr_valid h"
  "page_hdr_valid (h\<lparr>hdr_type := y\<rparr>) = page_hdr_valid h"
  by (simp_all add: page_hdr_valid_def)

lemma sync_page_good:
  fixes s :: "'z wal_state_scheme"
  assumes env: "env_good env" and dev: "kds_bdev s" and wf: "pool_wf s" and p: "pmap s p = Some i"
    and kp: "fr_kp (pframes s i) = Some kp" and hv: "page_hdr_valid (kp_hdr kp)"
  shows "\<exists>s' pg' kp'. sync_page env i pg s = (Inr (), s') \<and> pool_wf s' \<and> only_frame i s s'
    \<and> fr_page (pframes s' i) = Some pg' \<and> (\<forall>k \<ge> KDS_PAGE_HDR_SIZE. pg' k = pg k)
    \<and> disk s' = wr (disk s) (sector_byte (kds_page_sector p)) (rd pg' 0 KDS_PAGE_SIZE)
    \<and> fr_kp (pframes s' i) = Some kp' \<and> page_hdr_valid (kp_hdr kp')"
proof -
  let ?kp = "kds_set_page_dirty kp"
  let ?g = "\<lambda>f. f\<lparr>fr_page := Some pg, fr_kp := Some ?kp\<rparr>"
  define t where "t = upd_frame i ?g s"
  have id: "kp_id kp = p" using pool_wf_map(4) [OF wf p] kp by (simp add: frame_loaded_def)
  have t: "pmap t p = Some i" "kds_bdev t" "fr_kp (pframes t i) = Some ?kp" "fr_page (pframes t i) = Some pg"
    "fr_page_id (pframes t i) = p"
    using p dev pool_wf_map(3) [OF wf p] by (simp_all add: t_def)
  have wft: "pool_wf t"
    unfolding t_def using wf id pool_wf_map [OF wf p] pool_wf_id [OF wf, of i]
    by (intro pool_wf_touch) (auto simp: frame_loaded_def kds_set_page_dirty_def)
  have d: "frame_dirty (pframes t i)"
    using dirty_is_dirty [where f = "(pframes s i)\<lparr>fr_page := Some pg\<rparr>" and kp = kp] by (simp add: t_def)
  obtain u where u: "kds_frame_flush env i t = (Inr (), u)" using frame_flush_good [OF env t(2,3,4)] by blast
  note c = flush_cases [OF env_good_page_size [OF env] t(3,4) d u]
  note F = flush_wf [OF env_good_page_size [OF env] wft t(1) u]
  let ?pg = "wr pg 0 (enc_page_hdr (kp_hdr ?kp))"
  let ?kp2 = "?kp\<lparr>kp_hdr := (kp_hdr ?kp)\<lparr>hdr_flags := hdr_flags (kp_hdr ?kp) AND NOT KDS_PAGE_FLAG_DIRTY\<rparr>\<rparr>"
  have fu: "fr_page (pframes u i) = Some ?pg" "fr_kp (pframes u i) = Some ?kp2" using c by auto
  define v where "v = upd_frame i (\<lambda>f. f\<lparr>fr_kp := Some (unpin_kpage ?kp2)\<rparr>) u"
  have put: "put_page i pg s = (Inr (), upd_frame i (\<lambda>f. f\<lparr>fr_page := Some pg\<rparr>) s)"
    by (simp add: put_page_def call_defs)
  have "set_dirty i (upd_frame i (\<lambda>f. f\<lparr>fr_page := Some pg\<rparr>) s) = (Inr (), t)"
    using kp by (simp add: set_dirty_def the_kp_def put_kp_def call_defs t_def upd_frame_upd comp_def)
  then have "sync_page env i pg s = (Inr (), v)"
    using put u fu by (simp add: sync_page_def sattempt_def call_defs kds_buf_unpin_def v_def)
  moreover have "pool_wf v"
    unfolding v_def using F(1,2) fu id pool_wf_map [OF F(1), of p i] t(1) pool_wf_id [OF F(1), of i]
    by (intro pool_wf_touch) (auto simp: frame_loaded_def unpin_kpage_def kds_set_page_dirty_def)
  moreover have "only_frame i s t" by (simp add: t_def only_frame_upd_self)
  then have "only_frame i s v"
    using F(6) unfolding v_def by (intro only_frame_upd) (rule only_frame_trans)
  moreover have "fr_page (pframes v i) = Some ?pg" using fu by (simp add: v_def)
  moreover have hv2: "page_hdr_valid (kp_hdr ?kp)" using hv by (simp add: kds_set_page_dirty_def)
  then have "?pg k = pg k" if "KDS_PAGE_HDR_SIZE \<le> k" for k
    using that by (intro wr_outside) (simp add: length_enc_page_hdr KDS_PAGE_HDR_SIZE_def)
  moreover have "disk v = wr (disk s) (sector_byte (kds_page_sector p)) (rd ?pg 0 KDS_PAGE_SIZE)"
    using c t(5) by (simp add: v_def t_def)
  moreover have "fr_kp (pframes v i) = Some (unpin_kpage ?kp2)" by (simp add: v_def)
  moreover have "page_hdr_valid (kp_hdr (unpin_kpage ?kp2))" using hv2 by (simp add: unpin_kpage_def)
  ultimately show ?thesis by blast
qed

section \<open>A new log page\<close>

lemma page_alloc_keeps:
  fixes s :: "'z wal_state_scheme"
  assumes "kds_page_alloc t s = (r, s')"
  shows "disk s' = disk s \<and> kds_bdev s' = kds_bdev s \<and> g_wal s' = g_wal s \<and> fr_page (pframes s' k) = fr_page (pframes s k)"
  using assms
  by (auto simp: kds_page_alloc_def ring_pop_def set_page_type_def call_defs upd_frame_def split: if_splits option.splits)

lemma wal_page_hdr_init: "wal_page_hdr (wal_page_init seg lsn pg) =
    \<lparr>seg_no = seg, start_lsn = lsn, used_bytes = 0, next_wal_page_id = 0, wph_pad = 0\<rparr>"
  unfolding wal_page_hdr_def wal_page_init_def set_wal_page_hdr_def Let_def wal_page_payload_def KDS_WAL_PAGE_HDR_SIZE_def
  by (simp add: rd_wr_before rd_wr_same dec_enc_wal_page_hdr)

lemma pool_wf_wal [simp]: "pool_wf (s\<lparr>g_wal := x\<rparr>) = pool_wf s"
  by (rule pool_wf_cong) simp_all

lemma ring_items_wal [simp]: "ring_items (s\<lparr>g_wal := x\<rparr>) = ring_items s" "ring_inv (s\<lparr>g_wal := x\<rparr>) = ring_inv s"
  by (rule ring_cong; simp)+

lemma alloc_wf_wal [simp]: "alloc_wf (s\<lparr>g_wal := x\<rparr>) = alloc_wf s"
  by (simp add: alloc_wf_def)

lemma alloc_wf_only:
  fixes s :: "'z wal_state_scheme"
  assumes "alloc_wf s" and "only_frame i s s'" and "pool_wf s'"
  shows "alloc_wf s'" "ring_items s' = ring_items s" "g_alloc s' = g_alloc s" "g_wal s' = g_wal s"
proof -
  have m: "pool_state.more s' = pool_state.more s" and p: "pmap s' = pmap s" using assms(2) by (simp_all add: only_frame_def)
  show "ring_items s' = ring_items s" "g_alloc s' = g_alloc s" "g_wal s' = g_wal s"
    using ring_more [OF m] alloc_of_more [OF m] wal_more [OF m] by simp_all
  show "alloc_wf s'" using assms(1,3) ring_more [OF m] p by (simp add: alloc_wf_def)
qed

lemma wal_alloc_page_good:
  fixes s :: "'z wal_state_scheme"
  assumes wf: "alloc_wf s" and g: "g_alloc s" and it: "ring_items s = j # fs"
  shows "\<exists>s' kp pg. wal_alloc_page seg lsn s = (Inr j, s') \<and> alloc_wf s' \<and> ring_items s' = fs \<and> g_alloc s'
    \<and> pmap s' = pmap s \<and> (\<forall>k. k \<noteq> j \<longrightarrow> pframes s' k = pframes s k)
    \<and> fr_kp (pframes s' j) = Some kp \<and> page_hdr_valid (kp_hdr kp) \<and> pmap s (kp_id kp) = Some j
    \<and> fr_page (pframes s' j) = Some (wal_page_init seg lsn pg)
    \<and> disk s' = disk s \<and> kds_bdev s' = kds_bdev s \<and> g_wal s' = g_wal s"
proof -
  obtain t kp where t: "kds_page_alloc KDS_PAGE_TYPE_WAL s = (Inr (Some j), t)" "alloc_wf t" "ring_items t = fs" "pmap t = pmap s"
    "g_alloc t" "fr_kp (pframes t j) = Some (kp\<lparr>kp_hdr := (kp_hdr kp)\<lparr>hdr_type := KDS_PAGE_TYPE_WAL\<rparr>\<rparr>)"
    "\<forall>k. k \<noteq> j \<longrightarrow> pframes t k = pframes s k"
    using page_alloc_pops [OF wf g it] by blast
  have keep: "disk t = disk s" "kds_bdev t = kds_bdev s" "g_wal t = g_wal s"
    using page_alloc_keeps [OF t(1)] by blast+
  have pw: "pool_wf t" using t(2) by (simp add: alloc_wf_def)
  obtain p where p: "pmap t p = Some j" using wf it t(4) by (auto simp: alloc_wf_def ran_def)
  obtain pg where pg: "fr_page (pframes t j) = Some pg" and id: "kp_id kp = p"
    using pool_wf_map(4) [OF pw p] t(6) by (auto simp: frame_loaded_def)
  let ?pg = "wal_page_init seg lsn pg"
  let ?kp = "kds_set_page_dirty (kp\<lparr>kp_hdr := dec_page_hdr (rd ?pg 0 KDS_PAGE_HDR_SIZE)\<rparr>)"
  let ?u = "upd_frame j (\<lambda>f. f\<lparr>fr_page := Some ?pg, fr_kp := Some ?kp\<rparr>) t"
  have run: "wal_alloc_page seg lsn s = (Inr j, ?u)"
    using t(1,6) pg by (simp add: wal_alloc_page_def the_kp_def the_page_def put_page_def put_kp_def call_defs Let_def
        upd_frame_upd comp_def)
  have "pool_wf ?u" using pw p id pool_wf_map [OF pw p] pool_wf_id [OF pw, of j]
    by (intro pool_wf_touch) (auto simp: frame_loaded_def kds_set_page_dirty_def)
  note A = alloc_wf_only [OF t(2) only_frame_upd_self this]
  have "page_hdr_valid (kp_hdr ?kp)"
    by (simp add: kds_set_page_dirty_def page_hdr.dec_valid)
  moreover have "pmap s (kp_id ?kp) = Some j" using p id t(4) by (simp add: kds_set_page_dirty_def)
  ultimately show ?thesis
    using run A t(3-5,7) keep by (intro exI [of _ ?u] exI [of _ ?kp] exI [of _ pg]) simp
qed

section \<open>The log as a chain of pages\<close>

text \<open>
  The log is the list of its page ids. Every page is cached in a frame that is not staged in the allocator's ring; a
  page with log bytes is on disk as it is in memory; the pages are linked in order; the buffer's tail fields name the
  last page and its fill. \<open>log_stream\<close> is the byte stream the pages hold.
\<close>

definition cpage :: "'z pool_state_scheme \<Rightarrow> u64 \<Rightarrow> pagebuf" where
  "cpage s p = (case pmap s p of None \<Rightarrow> (\<lambda>_. 0)
     | Some i \<Rightarrow> (case fr_page (pframes s i) of None \<Rightarrow> (\<lambda>_. 0) | Some pg \<Rightarrow> pg))"

definition page_log :: "pagebuf \<Rightarrow> u8 list" where
  "page_log pg = rd pg wal_page_payload (unat (used_bytes (wal_page_hdr pg)))"

definition log_page :: "'z wal_state_scheme \<Rightarrow> u64 \<Rightarrow> bool" where
  "log_page s p \<longleftrightarrow> (\<exists>i kp. pmap s p = Some i \<and> i \<notin> set (ring_items s) \<and> fr_kp (pframes s i) = Some kp
     \<and> page_hdr_valid (kp_hdr kp)
     \<and> (page_log (cpage s p) \<noteq> [] \<longrightarrow> disk_page (disk s) p = rd (cpage s p) 0 KDS_PAGE_SIZE))"

fun log_linked :: "(u64 \<Rightarrow> kds_wal_page_hdr) \<Rightarrow> u64 list \<Rightarrow> bool" where
  "log_linked c [] = True"
| "log_linked c [p] = (next_wal_page_id (c p) = 0)"
| "log_linked c (p # q # ps) = (next_wal_page_id (c p) = q \<and> log_linked c (q # ps))"

definition log_inv :: "'z wal_state_scheme \<Rightarrow> kds_wal_state \<Rightarrow> u64 list \<Rightarrow> bool" where
  "log_inv s w ps \<longleftrightarrow> alloc_wf s \<and> g_alloc s \<and> kds_bdev s \<and> ids_in_range s \<and> distinct ps \<and> ps \<noteq> []
     \<and> (\<forall>p \<in> set ps. log_page s p) \<and> log_linked (\<lambda>p. wal_page_hdr (cpage s p)) ps
     \<and> g_wal s = Some w \<and> tail_page_id (ws_buf w) = last ps
     \<and> used_bytes (wal_page_hdr (cpage s (last ps))) = tail_used (ws_buf w)
     \<and> unat (tail_used (ws_buf w)) \<le> KDS_WAL_PAGE_PAYLOAD"

definition log_stream :: "'z wal_state_scheme \<Rightarrow> u64 list \<Rightarrow> u8 list" where
  "log_stream s ps = concat (map (\<lambda>p. page_log (cpage s p)) ps)"

lemma cpage_cached: "pmap s p = Some i \<Longrightarrow> fr_page (pframes s i) = Some pg \<Longrightarrow> cpage s p = pg"
  by (simp add: cpage_def)

lemma pmap_inj: "pool_wf s \<Longrightarrow> pmap s p = Some i \<Longrightarrow> pmap s q = Some i \<Longrightarrow> p = q"
  using pool_wf_map(3) by metis

lemma alloc_wf_pool: "alloc_wf s \<Longrightarrow> pool_wf s"
  by (simp add: alloc_wf_def)

lemma log_linked_cong:
  "(\<And>p. p \<in> set ps \<Longrightarrow> next_wal_page_id (c p) = next_wal_page_id (d p)) \<Longrightarrow> log_linked c ps = log_linked d ps"
  by (induction c ps rule: log_linked.induct) auto

lemma log_linked_snoc:
  assumes "log_linked c ps" and "ps \<noteq> []" and "distinct ps"
    and "next_wal_page_id (d (last ps)) = q" and "next_wal_page_id (d q) = 0"
    and "\<And>p. p \<in> set (butlast ps) \<Longrightarrow> next_wal_page_id (d p) = next_wal_page_id (c p)"
  shows "log_linked d (ps @ [q])"
  using assms
proof (induction c ps rule: log_linked.induct)
  case (3 c p q' ps)
  then show ?case by (cases ps) auto
qed simp_all

text \<open>A change of the frame of one log page, written through to disk.\<close>

lemma log_touch:
  fixes s :: "'z wal_state_scheme"
  assumes inv: "log_inv s w ps" and p: "p \<in> set ps" "pmap s p = Some i"
    and one: "only_frame i s s'" and wf: "pool_wf s'" and pg: "fr_page (pframes s' i) = Some pg'"
    and d: "disk s' = wr (disk s) (sector_byte (kds_page_sector p)) (rd pg' 0 KDS_PAGE_SIZE)"
    and kp: "fr_kp (pframes s' i) = Some kp'" "page_hdr_valid (kp_hdr kp')"
  shows "alloc_wf s'" "ring_items s' = ring_items s" "g_alloc s'" "kds_bdev s'" "ids_in_range s'" "g_wal s' = g_wal s"
    "\<forall>q \<in> set ps. log_page s' q" "cpage s' p = pg'" "\<And>q. q \<noteq> p \<Longrightarrow> cpage s' q = cpage s q"
proof -
  have A: "alloc_wf s" "g_alloc s" "kds_bdev s" "ids_in_range s" "\<forall>q \<in> set ps. log_page s q"
    using inv by (simp_all add: log_inv_def)
  note O = alloc_wf_only [OF A(1) one wf]
  have m: "pmap s' = pmap s" "kds_bdev s' = kds_bdev s" "\<And>j. j \<noteq> i \<Longrightarrow> pframes s' j = pframes s j"
    using one by (simp_all add: only_frame_def)
  have pw: "pool_wf s" using A(1) by (rule alloc_wf_pool)
  show "alloc_wf s'" "ring_items s' = ring_items s" "g_alloc s'" "kds_bdev s'" "ids_in_range s'" "g_wal s' = g_wal s"
    using O A m by (simp_all add: ids_in_range_def)
  show c: "cpage s' p = pg'" using p pg m by (simp add: cpage_def)
  show other: "cpage s' q = cpage s q" if "q \<noteq> p" for q
  proof -
    have "pmap s q \<noteq> Some i" using pmap_inj [OF pw p(2), of q] that by auto
    then show ?thesis using m by (cases "pmap s q") (auto simp: cpage_def)
  qed
  show "\<forall>q \<in> set ps. log_page s' q"
  proof
    fix q assume q: "q \<in> set ps"
    then obtain j kq where j: "pmap s q = Some j" "j \<notin> set (ring_items s)" "fr_kp (pframes s j) = Some kq" "page_hdr_valid (kp_hdr kq)"
      "page_log (cpage s q) \<noteq> [] \<longrightarrow> disk_page (disk s) q = rd (cpage s q) 0 KDS_PAGE_SIZE"
      using A(5) [rule_format, OF q] unfolding log_page_def by blast
    have r: "unat p < 2 ^ 60" "unat q < 2 ^ 60" using A(4) p(2) j(1) by (auto simp: ids_in_range_def)
    show "log_page s' q"
    proof (cases "q = p")
      case True
      then show ?thesis using p j m O kp c d by (auto simp: log_page_def disk_page_write_same)
    next
      case False
      then have "j \<noteq> i" using pmap_inj [OF pw p(2), of q] j(1) by auto
      then show ?thesis
        using j m O other [OF False] d r False disk_page_write_other [of p q "disk s" pg'] by (auto simp: log_page_def)
    qed
  qed
qed

section \<open>One round of the flush loop\<close>

lemma payload_size: "KDS_WAL_PAGE_PAYLOAD = 8119" "wal_page_payload = 73"
  by (simp_all add: KDS_WAL_PAGE_PAYLOAD_def wal_page_payload_def KDS_PAGE_SIZE_def KDS_PAGE_HDR_SIZE_def KDS_WAL_PAGE_HDR_SIZE_def)

lemma wal_page_hdr_cong:
  "(\<And>k. KDS_PAGE_HDR_SIZE \<le> k \<Longrightarrow> pg' k = pg k) \<Longrightarrow> wal_page_hdr pg' = wal_page_hdr pg \<and> page_log pg' = page_log pg"
proof -
  assume a: "\<And>k. KDS_PAGE_HDR_SIZE \<le> k \<Longrightarrow> pg' k = pg k"
  have h: "wal_page_hdr pg' = wal_page_hdr pg"
    unfolding wal_page_hdr_def by (rule arg_cong [of _ _ dec_wal_page_hdr], rule rd_cong) (simp add: a)
  moreover have "rd pg' wal_page_payload n = rd pg wal_page_payload n" for n
    by (rule rd_cong) (simp add: a wal_page_payload_def)
  ultimately show ?thesis by (simp add: page_log_def)
qed

lemma wal_page_hdr_set [simp]: "wal_page_hdr (set_wal_page_hdr g pg) = g (wal_page_hdr pg)"
  unfolding set_wal_page_hdr_def wal_page_hdr_def by (simp add: wal_page_layout.load_store_same)

lemma payload_set [simp]: "rd (set_wal_page_hdr g pg) (wal_page_payload + k) n = rd pg (wal_page_payload + k) n"
  by (simp add: set_wal_page_hdr_def rd_wr_after wal_page_payload_def KDS_WAL_PAGE_HDR_SIZE_def)

lemma page_log_grow:
  assumes "used_bytes (wal_page_hdr pg) = u" and "unat (u + c) = unat u + length bs"
  shows "page_log (set_wal_page_hdr (\<lambda>h. h\<lparr>used_bytes := u + c\<rparr>) (wr pg (wal_page_payload + unat u) bs)) = page_log pg @ bs"
    "next_wal_page_id (wal_page_hdr (set_wal_page_hdr (\<lambda>h. h\<lparr>used_bytes := u + c\<rparr>) (wr pg (wal_page_payload + unat u) bs)))
       = next_wal_page_id (wal_page_hdr pg)"
proof -
  have h: "wal_page_hdr (wr pg (wal_page_payload + unat u) bs) = wal_page_hdr pg"
    by (simp add: wal_page_hdr_def rd_wr_before wal_page_payload_def)
  have "rd (wr pg (wal_page_payload + unat u) bs) wal_page_payload (unat u + length bs)
      = rd pg wal_page_payload (unat u) @ bs"
    by (simp add: rd_append rd_wr_before rd_wr_same)
  then show "page_log (set_wal_page_hdr (\<lambda>h. h\<lparr>used_bytes := u + c\<rparr>) (wr pg (wal_page_payload + unat u) bs)) = page_log pg @ bs"
    using assms payload_set [of _ "wr pg (wal_page_payload + unat u) bs" 0] by (simp add: page_log_def h)
  show "next_wal_page_id (wal_page_hdr (set_wal_page_hdr (\<lambda>h. h\<lparr>used_bytes := u + c\<rparr>) (wr pg (wal_page_payload + unat u) bs)))
       = next_wal_page_id (wal_page_hdr pg)"
    by (simp add: h)
qed

lemma log_stream_last:
  assumes "ps \<noteq> []" and "distinct ps" and "\<And>q. q \<in> set ps \<Longrightarrow> q \<noteq> last ps \<Longrightarrow> cpage s' q = cpage s q"
    and "page_log (cpage s' (last ps)) = page_log (cpage s (last ps)) @ bs"
  shows "log_stream s' ps = log_stream s ps @ bs"
proof -
  obtain qs p where ps: "ps = qs @ [p]" using assms(1) by (cases ps rule: rev_cases) auto
  then have "map (\<lambda>q. page_log (cpage s' q)) qs = map (\<lambda>q. page_log (cpage s q)) qs"
    using assms(2) assms(3) ps by (intro map_cong refl arg_cong [where f = page_log] assms(3)) auto
  then show ?thesis using assms(4) ps by (simp add: log_stream_def del: map_eq_conv)
qed

definition tail_at :: "u32 \<Rightarrow> kds_wal_state \<Rightarrow> kds_wal_state" where
  "tail_at u w = w\<lparr>ws_buf := (ws_buf w)\<lparr>tail_used := u\<rparr>\<rparr>"

lemma log_tail_frame:
  assumes "log_inv s w ps"
  obtains i kp pg where "pmap s (last ps) = Some i" "i \<notin> set (ring_items s)" "fr_kp (pframes s i) = Some kp"
    "page_hdr_valid (kp_hdr kp)" "fr_page (pframes s i) = Some pg" "cpage s (last ps) = pg" "pool_wf s"
proof -
  have lp: "log_page s (last ps)" and pw: "pool_wf s" using assms by (auto simp: log_inv_def alloc_wf_def)
  obtain i kp where i: "pmap s (last ps) = Some i" "i \<notin> set (ring_items s)" "fr_kp (pframes s i) = Some kp" "page_hdr_valid (kp_hdr kp)"
    using lp by (auto simp: log_page_def)
  moreover obtain pg where "fr_page (pframes s i) = Some pg"
    using pool_wf_map(4) [OF pw i(1)] by (auto simp: frame_loaded_def)
  ultimately show thesis using that pw cpage_cached by metis
qed

lemma pinned_facts:
  assumes "pool_wf s" and "pmap s p = Some i" and "fr_kp (pframes s i) = Some kp"
  shows "pool_wf (pinned i kp s)" "only_frame i s (pinned i kp s)" "pmap (pinned i kp s) = pmap s" "disk (pinned i kp s) = disk s"
    "kds_bdev (pinned i kp s) = kds_bdev s" "fr_kp (pframes (pinned i kp s) i) = Some (pin_kpage kp)"
    "fr_page (pframes (pinned i kp s) i) = fr_page (pframes s i)"
proof -
  show "pool_wf (pinned i kp s)"
    unfolding pinned_def using assms pool_wf_map [OF assms(1,2)] pool_wf_id [OF assms(1), of i]
    by (intro pool_wf_touch) (auto simp: frame_loaded_def pin_kpage_def)
qed (simp_all add: pinned_def only_frame_upd_self)

lemma upd_buf_eq: "g_wal s = Some w \<Longrightarrow> upd_buf g s = (Inr (), s\<lparr>g_wal := Some (w\<lparr>ws_buf := g (ws_buf w)\<rparr>)\<rparr>)"
  by (simp add: upd_buf_def upd_wal_def call_defs)

lemma the_wal_eq: "g_wal s = Some w \<Longrightarrow> the_wal s = (Inr w, s)"
  by (simp add: the_wal_def call_defs)

lemma cpage_wal [simp]: "cpage (s\<lparr>g_wal := x\<rparr>) = cpage s"
  by (rule ext) (simp add: cpage_def split: option.split)

lemma log_page_wal [simp]: "log_page (s\<lparr>g_wal := x\<rparr>) = log_page s"
  by (simp add: log_page_def fun_eq_iff)

lemma log_stream_wal [simp]: "log_stream (s\<lparr>g_wal := x\<rparr>) = log_stream s"
  by (simp add: log_stream_def fun_eq_iff)

text \<open>Rewriting the tail page and setting the fill of the buffer to match keeps the chain.\<close>

lemma log_sync_tail:
  fixes s :: "'z wal_state_scheme"
  assumes env: "env_good env" and inv: "log_inv s w ps"
    and i: "pmap s (last ps) = Some i" and kp: "fr_kp (pframes s i) = Some kp" "page_hdr_valid (kp_hdr kp)"
  shows "\<exists>t. sync_page env i pg (pinned i kp s) = (Inr (), t)
    \<and> alloc_wf t \<and> ring_items t = ring_items s \<and> g_alloc t \<and> kds_bdev t \<and> ids_in_range t \<and> g_wal t = Some w
    \<and> pmap t = pmap s \<and> (\<forall>j. j \<noteq> i \<longrightarrow> pframes t j = pframes s j)
    \<and> (\<forall>q \<in> set ps. log_page t q) \<and> wal_page_hdr (cpage t (last ps)) = wal_page_hdr pg
    \<and> page_log (cpage t (last ps)) = page_log pg \<and> (\<forall>q. q \<noteq> last ps \<longrightarrow> cpage t q = cpage s q)"
proof -
  have A: "kds_bdev s" "pool_wf s" "g_wal s = Some w" "last ps \<in> set ps" using inv by (auto simp: log_inv_def alloc_wf_def)
  note P = pinned_facts [OF A(2) i kp(1)]
  obtain t pg' kp' where t: "sync_page env i pg (pinned i kp s) = (Inr (), t)" "pool_wf t" "only_frame i (pinned i kp s) t"
    "fr_page (pframes t i) = Some pg'" "\<forall>k \<ge> KDS_PAGE_HDR_SIZE. pg' k = pg k"
    "disk t = wr (disk (pinned i kp s)) (sector_byte (kds_page_sector (last ps))) (rd pg' 0 KDS_PAGE_SIZE)"
    "fr_kp (pframes t i) = Some kp'" "page_hdr_valid (kp_hdr kp')"
    using sync_page_good [OF env _ P(1), of "last ps" i "pin_kpage kp" pg] P(3,5,6) A(1) i kp(2)
    by (auto simp: pin_kpage_def)
  have one: "only_frame i s t" using P(2) t(3) by (rule only_frame_trans)
  note T = log_touch [OF inv A(4) i one t(2,4) _ t(7,8)]
  have d: "disk t = wr (disk s) (sector_byte (kds_page_sector (last ps))) (rd pg' 0 KDS_PAGE_SIZE)" using t(6) P(4) by simp
  note T = T [OF d]
  have m: "pmap t = pmap s" "\<forall>j. j \<noteq> i \<longrightarrow> pframes t j = pframes s j" using one by (simp_all add: only_frame_def)
  show ?thesis
    using t(1) T m A(3) wal_page_hdr_cong [of pg' pg] t(5) by (intro exI [of _ t]) simp
qed

lemma space_left:
  assumes "unat tu \<le> KDS_WAL_PAGE_PAYLOAD"
  shows "unat (of_nat KDS_WAL_PAGE_PAYLOAD - tu :: u32) = KDS_WAL_PAGE_PAYLOAD - unat tu"
  using assms by (subst unat_sub) (simp_all add: word_le_nat_alt payload_size)

lemma chunk_size:
  assumes "unat tu \<le> KDS_WAL_PAGE_PAYLOAD"
  shows "unat (min bytes (ucast (of_nat KDS_WAL_PAGE_PAYLOAD - tu :: u32)) :: u64) = min (unat bytes) (KDS_WAL_PAGE_PAYLOAD - unat tu)"
  using space_left [OF assms] by (simp add: min_def word_le_nat_alt ucast_u32_u64)

lemma flush_round:
  fixes s :: "'z wal_state_scheme"
  assumes env: "env_good env" and inv: "log_inv s w ps" and room: "unat (tail_used (ws_buf w)) < KDS_WAL_PAGE_PAYLOAD"
    and b: "bytes \<noteq> 0" "unat bytes \<le> KDS_WAL_BUF_SIZE"
    and c: "c = min bytes (ucast (of_nat KDS_WAL_PAGE_PAYLOAD - tail_used (ws_buf w) :: u32))"
  defines "u \<equiv> tail_used (ws_buf w) + ucast c"
  shows "\<exists>t. log_inv t (tail_at u w) ps \<and> ring_items t = ring_items s \<and> pmap t = pmap s \<and> unat u = unat (tail_used (ws_buf w)) + unat c
    \<and> log_stream t ps = log_stream s ps
        @ map (\<lambda>k. wb_buf (ws_buf w) ((unat start + k) mod KDS_WAL_BUF_SIZE)) [0 ..< unat c]
    \<and> flush_loop env (Suc n) start bytes s =
        (if KDS_WAL_PAGE_PAYLOAD \<le> unat u
         then sattempt (grow_log env True) (\<lambda>r. case r of Inl _ \<Rightarrow> sret ()
                | Inr _ \<Rightarrow> flush_loop env n (start + c) (bytes - c)) t
         else flush_loop env n (start + c) (bytes - c) t)"
proof -
  let ?tu = "tail_used (ws_buf w)" and ?bs = "map (\<lambda>k. wb_buf (ws_buf w) ((unat start + k) mod KDS_WAL_BUF_SIZE)) [0 ..< unat c]"
  obtain i kp pg where i: "pmap s (last ps) = Some i" "i \<notin> set (ring_items s)" "fr_kp (pframes s i) = Some kp"
    "page_hdr_valid (kp_hdr kp)" "fr_page (pframes s i) = Some pg" "cpage s (last ps) = pg" "pool_wf s"
    using log_tail_frame [OF inv] by blast
  have A: "g_wal s = Some w" "tail_page_id (ws_buf w) = last ps" "used_bytes (wal_page_hdr pg) = ?tu" "distinct ps" "ps \<noteq> []"
    using inv i(6) by (auto simp: log_inv_def)
  have sp: "unat (of_nat KDS_WAL_PAGE_PAYLOAD - ?tu :: u32) = KDS_WAL_PAGE_PAYLOAD - unat ?tu"
    using room by (intro space_left) simp
  have sp0: "(of_nat KDS_WAL_PAGE_PAYLOAD - ?tu :: u32) \<noteq> 0" using sp room by auto
  have uc: "unat c = min (unat bytes) (KDS_WAL_PAGE_PAYLOAD - unat ?tu)"
    unfolding c using room by (intro chunk_size) simp
  have uc32: "unat (ucast c :: u32) = unat c"
    using uc by (simp add: unsigned_ucast_eq take_bit_nat_eq_self payload_size)
  have uu: "unat u = unat ?tu + unat c"
    using uc room by (simp add: u_def unat_word_ariths uc32 payload_size)
  have ld: "ring_load (wb_buf (ws_buf w)) start (unat c) = Inr ?bs"
    using b(2) uc by (intro ring_load_spec) simp
  have st: "pstore pg (wal_page_payload + unat ?tu) ?bs = Inr (wr pg (wal_page_payload + unat ?tu) ?bs)"
    using uc room by (simp add: pstore_def payload_size KDS_PAGE_SIZE_def)
  let ?pg = "set_wal_page_hdr (\<lambda>h. h\<lparr>used_bytes := u\<rparr>) (wr pg (wal_page_payload + unat ?tu) ?bs)"
  obtain t where t: "sync_page env i ?pg (pinned i kp s) = (Inr (), t)"
    "alloc_wf t" "ring_items t = ring_items s" "g_alloc t" "kds_bdev t" "ids_in_range t" "g_wal t = Some w"
    "\<forall>q \<in> set ps. log_page t q" "wal_page_hdr (cpage t (last ps)) = wal_page_hdr ?pg"
    "page_log (cpage t (last ps)) = page_log ?pg" "\<forall>q. q \<noteq> last ps \<longrightarrow> cpage t q = cpage s q" "pmap t = pmap s"
    using log_sync_tail [OF env inv i(1,3,4), of ?pg] by (elim exE conjE) (rule that; assumption)
  have G: "page_log ?pg = page_log pg @ ?bs" "next_wal_page_id (wal_page_hdr ?pg) = next_wal_page_id (wal_page_hdr pg)"
    using page_log_grow [OF A(3), of "ucast c" ?bs] uu by (simp_all add: u_def)
  let ?t = "t\<lparr>g_wal := Some (tail_at u w)\<rparr>"
  have "log_linked (\<lambda>p. wal_page_hdr (cpage t p)) ps = log_linked (\<lambda>p. wal_page_hdr (cpage s p)) ps"
    using t(9,11) G(2) i(6) by (intro log_linked_cong) metis
  moreover have "unat u \<le> KDS_WAL_PAGE_PAYLOAD" using uu uc room by simp
  ultimately have inv': "log_inv ?t (tail_at u w) ps"
    using inv t by (simp add: log_inv_def tail_at_def ids_in_range_def)
  have "log_stream ?t ps = log_stream s ps @ ?bs"
    using log_stream_last [OF A(5,4), of t s ?bs] t(10,11) G(1) i(6) by simp
  moreover have "flush_loop env (Suc n) start bytes s =
        (if KDS_WAL_PAGE_PAYLOAD \<le> unat u
         then sattempt (grow_log env True) (\<lambda>r. case r of Inl _ \<Rightarrow> sret ()
                | Inr _ \<Rightarrow> flush_loop env n (start + c) (bytes - c)) ?t
         else flush_loop env n (start + c) (bytes - c) ?t)"
    using b(1) A(1,2,3) load_root [OF i(7,1,3), of env] i(5) sp0 ld st t(1,7)
    by (simp add: the_wal_eq the_page_def call_defs pinned_facts [OF i(7,1,3)] Let_def c [symmetric] u_def [symmetric]
        upd_buf_eq tail_at_def) (simp add: sret_def)
  ultimately show ?thesis using inv' t(3,12) uu by (intro exI [of _ ?t]) simp
qed

text \<open>Growing the chain: the next staged page becomes the tail, the old tail points to it and is written out.\<close>

definition new_tail :: "u64 \<Rightarrow> kds_wal_state \<Rightarrow> kds_wal_state" where
  "new_tail q w = w\<lparr>ws_buf := (ws_buf w)\<lparr>tail_seg_no := tail_seg_no (ws_buf w) + 1, tail_page_id := q, tail_used := 0\<rparr>\<rparr>"

lemma set_next_log [simp]: "page_log (set_wal_page_hdr (\<lambda>h. h\<lparr>next_wal_page_id := q\<rparr>) pg) = page_log pg"
  using payload_set [of _ pg 0] by (simp add: page_log_def)

lemma page_log_init: "page_log (wal_page_init seg lsn pg) = []"
  by (simp add: page_log_def wal_page_hdr_init)

lemma log_alloc:
  fixes s :: "'z wal_state_scheme"
  assumes inv: "log_inv s w ps" and it: "ring_items s = j # fs"
  shows "\<exists>s' kp. wal_alloc_page seg lsn s = (Inr j, s') \<and> log_inv s' w ps \<and> ring_items s' = fs \<and> j \<notin> set fs
    \<and> log_stream s' ps = log_stream s ps \<and> kp_id kp \<notin> set ps
    \<and> fr_kp (pframes s' j) = Some kp \<and> page_hdr_valid (kp_hdr kp) \<and> pmap s' = pmap s \<and> pmap s' (kp_id kp) = Some j
    \<and> page_log (cpage s' (kp_id kp)) = [] \<and> used_bytes (wal_page_hdr (cpage s' (kp_id kp))) = 0
    \<and> next_wal_page_id (wal_page_hdr (cpage s' (kp_id kp))) = 0"
proof -
  have A: "alloc_wf s" "g_alloc s" "\<forall>p \<in> set ps. log_page s p" using inv by (simp_all add: log_inv_def)
  obtain s' kp pg where S: "wal_alloc_page seg lsn s = (Inr j, s')" "alloc_wf s'" "ring_items s' = fs" "g_alloc s'"
    "pmap s' = pmap s" "\<forall>k. k \<noteq> j \<longrightarrow> pframes s' k = pframes s k"
    "fr_kp (pframes s' j) = Some kp" "page_hdr_valid (kp_hdr kp)" "pmap s (kp_id kp) = Some j"
    "fr_page (pframes s' j) = Some (wal_page_init seg lsn pg)"
    "disk s' = disk s" "kds_bdev s' = kds_bdev s" "g_wal s' = g_wal s"
    using wal_alloc_page_good [OF A(1,2) it, of seg lsn] by (elim exE conjE) (rule that; assumption)
  have nj: "j \<notin> set fs" using A(1) it by (simp add: alloc_wf_def)
  have frame: "\<exists>i. pmap s p = Some i \<and> i \<noteq> j" if "p \<in> set ps" for p
    using A(3) that it by (auto simp: log_page_def)
  have c: "cpage s' p = cpage s p" if "p \<in> set ps" for p
    using frame [OF that] S(5,6) by (auto simp: cpage_def)
  have q: "kp_id kp \<notin> set ps" using frame [of "kp_id kp"] S(9) by auto
  have "log_page s' p" if mem: "p \<in> set ps" for p
  proof -
    obtain i kp where i: "pmap s p = Some i" "i \<notin> set (ring_items s)" "fr_kp (pframes s i) = Some kp" "page_hdr_valid (kp_hdr kp)"
      "page_log (cpage s p) \<noteq> [] \<longrightarrow> disk_page (disk s) p = rd (cpage s p) 0 KDS_PAGE_SIZE"
      using A(3) [rule_format, OF mem] unfolding log_page_def by blast
    then have "i \<noteq> j" "i \<notin> set fs" using it by auto
    then show ?thesis using i S(3,5,6,11) c [OF mem] by (auto simp: log_page_def)
  qed
  moreover have "log_linked (\<lambda>p. wal_page_hdr (cpage s' p)) ps = log_linked (\<lambda>p. wal_page_hdr (cpage s p)) ps"
    by (rule log_linked_cong) (simp add: c)
  ultimately have inv': "log_inv s' w ps"
    using inv S(2,4,5,12,13) c by (simp add: log_inv_def ids_in_range_def)
  have cq: "cpage s' (kp_id kp) = wal_page_init seg lsn pg" using S(5,9,10) by (simp add: cpage_def)
  have "log_stream s' ps = log_stream s ps" using c by (simp add: log_stream_def cong: map_cong)
  then show ?thesis
    using S(1,3,5,7-9) inv' nj q cq by (intro exI [of _ s'] exI [of _ kp]) (simp add: page_log_init wal_page_hdr_init)
qed

lemma grow_good:
  fixes s :: "'z wal_state_scheme"
  assumes env: "env_good env" and inv: "log_inv s w ps" and it: "ring_items s = j # fs"
  shows "\<exists>t q. grow_log env True s = (Inr (), t) \<and> log_inv t (new_tail q w) (ps @ [q]) \<and> ring_items t = fs
    \<and> log_stream t (ps @ [q]) = log_stream s ps \<and> pmap t = pmap s \<and> pmap s q = Some j"
proof -
  let ?b = "(ws_buf w)\<lparr>tail_seg_no := tail_seg_no (ws_buf w) + 1\<rparr>"
  let ?w = "w\<lparr>ws_buf := ?b\<rparr>"
  let ?s = "s\<lparr>g_wal := Some ?w\<rparr>"
  have w: "g_wal s = Some w" and tl: "tail_page_id (ws_buf w) = last ps" using inv by (simp_all add: log_inv_def)
  have inv1: "log_inv ?s ?w ps" using inv by (simp add: log_inv_def ids_in_range_def)
  have it1: "ring_items ?s = j # fs" using it by simp
  obtain s1 kp where S: "wal_alloc_page (tail_seg_no ?b) (kds_lsn_make (tail_page_id ?b) (tail_used ?b)) ?s = (Inr j, s1)"
    "log_inv s1 ?w ps" "ring_items s1 = fs" "j \<notin> set fs" "log_stream s1 ps = log_stream ?s ps" "kp_id kp \<notin> set ps"
    "fr_kp (pframes s1 j) = Some kp" "page_hdr_valid (kp_hdr kp)" "pmap s1 (kp_id kp) = Some j"
    "page_log (cpage s1 (kp_id kp)) = []" "used_bytes (wal_page_hdr (cpage s1 (kp_id kp))) = 0"
    "next_wal_page_id (wal_page_hdr (cpage s1 (kp_id kp))) = 0" "pmap s1 = pmap ?s"
    using log_alloc [OF inv1 it1, of "tail_seg_no ?b" "kds_lsn_make (tail_page_id ?b) (tail_used ?b)"] by (elim exE conjE) (rule that; assumption)
  let ?q = "kp_id kp"
  obtain i ki pg where i: "pmap s1 (last ps) = Some i" "fr_kp (pframes s1 i) = Some ki" "page_hdr_valid (kp_hdr ki)"
    "fr_page (pframes s1 i) = Some pg" "cpage s1 (last ps) = pg" "pool_wf s1"
    using log_tail_frame [OF S(2)] by blast
  let ?pg = "set_wal_page_hdr (\<lambda>h. h\<lparr>next_wal_page_id := ?q\<rparr>) pg"
  obtain t where t: "sync_page env i ?pg (pinned i ki s1) = (Inr (), t)"
    "alloc_wf t" "ring_items t = ring_items s1" "g_alloc t" "kds_bdev t" "ids_in_range t" "g_wal t = Some ?w"
    "pmap t = pmap s1" "\<forall>k. k \<noteq> i \<longrightarrow> pframes t k = pframes s1 k"
    "\<forall>p \<in> set ps. log_page t p" "wal_page_hdr (cpage t (last ps)) = wal_page_hdr ?pg"
    "page_log (cpage t (last ps)) = page_log ?pg" "\<forall>p. p \<noteq> last ps \<longrightarrow> cpage t p = cpage s1 p"
    using log_sync_tail [OF env S(2) i(1,2,3), of ?pg] by (elim exE conjE) (rule that; assumption)
  have B: "ps \<noteq> []" "distinct ps" "log_linked (\<lambda>p. wal_page_hdr (cpage s1 p)) ps" using S(2) by (simp_all add: log_inv_def)
  have ql: "?q \<noteq> last ps" using S(6) B(1) by auto
  then have ij: "i \<noteq> j" using i(1) S(9) pmap_inj [OF i(6)] by metis
  let ?v = "upd_frame j (\<lambda>f. f\<lparr>fr_kp := Some (unpin_kpage kp)\<rparr>) (t\<lparr>g_wal := Some (new_tail ?q w)\<rparr>)"
  have run: "grow_log env True s = (Inr (), ?v)"
    using w S(1,7) load_root [OF i(6,1,2), of env] i(4) t(1,7,9) ij tl
    by (simp add: grow_log_def upd_buf_eq the_wal_eq call_defs the_kp_def the_page_def link_old_tail_def sattempt_def
        pinned_facts [OF i(6,1,2)] Let_def kds_buf_unpin_def new_tail_def)
  have kt: "fr_kp (pframes t j) = Some kp" using t(9) ij S(7) by simp
  have pt: "pmap t ?q = Some j" using t(8) S(9) by simp
  have cv: "cpage ?v = cpage t"
    by (rule ext) (simp add: cpage_def split: option.split)
  have pwt: "pool_wf t" using t(2) by (rule alloc_wf_pool)
  have pwv: "pool_wf ?v"
    using pwt pool_wf_map [OF pwt pt] pool_wf_id [OF pwt, of j] kt
    by (intro pool_wf_touch) (auto simp: frame_loaded_def unpin_kpage_def)
  have av: "alloc_wf ?v" "ring_items ?v = ring_items t" "g_alloc ?v = g_alloc t" "g_wal ?v = Some (new_tail ?q w)"
    using alloc_wf_only [OF _ only_frame_upd_self pwv] t(2) by simp_all
  have old: "log_page ?v p" if "p \<in> set ps" for p
    using t(10) [rule_format, OF that] that S(6) cv av(2) kt by (auto simp: log_page_def unpin_kpage_def)
  have cq: "cpage t ?q = cpage s1 ?q" using t(13) ql by simp
  have "log_page ?v ?q"
    using pt S(3,4,8,10) t(3) cv cq av(2) kt by (simp add: log_page_def unpin_kpage_def)
  moreover have "log_linked (\<lambda>p. wal_page_hdr (cpage t p)) (ps @ [?q])"
  proof (rule log_linked_snoc [OF B(3,1,2)])
    show "next_wal_page_id (wal_page_hdr (cpage t p)) = next_wal_page_id (wal_page_hdr (cpage s1 p))"
      if "p \<in> set (butlast ps)" for p
    proof -
      have "p \<noteq> last ps" using that B(1,2) by (metis append_butlast_last_id distinct_append disjoint_iff list.set_intros(1))
      then show ?thesis using t(13) by simp
    qed
  qed (use t(11) S(12) cq in simp_all)
  ultimately have "log_inv ?v (new_tail ?q w) (ps @ [?q])"
    using av t(4-6) B(1,2) S(6) old cv cq S(11)
    by (auto simp: log_inv_def new_tail_def ids_in_range_def)
  moreover have "log_stream ?v ps = log_stream s ps"
    using log_stream_last [OF B(1,2), of t s1 "[]"] t(12,13) i(5) S(5) cv by (simp add: log_stream_def)
  then have "log_stream ?v (ps @ [?q]) = log_stream s ps" using cv cq S(10) by (simp add: log_stream_def)
  ultimately show ?thesis using run av(2) t(3,8) S(3,9,13) by (intro exI [of _ ?v] exI [of _ ?q]) simp
qed

section \<open>The whole flush\<close>

lemma loop_done: "flush_loop env (Suc n) start 0 = sret ()"
  by simp

text \<open>The number of pages a flush of \<open>n\<close> bytes adds when the tail holds \<open>u\<close>.\<close>

definition pages_needed :: "nat \<Rightarrow> nat \<Rightarrow> nat" where
  "pages_needed u n = (u + n) div KDS_WAL_PAGE_PAYLOAD"

lemma tail_fields [simp]:
  "ws_buf (tail_at u w) = (ws_buf w)\<lparr>tail_used := u\<rparr>"
  "ws_buf (new_tail q w) = (ws_buf w)\<lparr>tail_seg_no := tail_seg_no (ws_buf w) + 1, tail_page_id := q, tail_used := 0\<rparr>"
  by (simp_all add: tail_at_def new_tail_def)

definition same_ring :: "kds_wal_state \<Rightarrow> kds_wal_state \<Rightarrow> bool" where
  "same_ring w w' \<longleftrightarrow> wb_buf (ws_buf w') = wb_buf (ws_buf w) \<and> write_off (ws_buf w') = write_off (ws_buf w)
     \<and> flush_off (ws_buf w') = flush_off (ws_buf w) \<and> current_lsn (ws_buf w') = current_lsn (ws_buf w)
     \<and> prev_lsn w' = prev_lsn w \<and> flush_lsn w' = flush_lsn w \<and> checkpointed_lsn w' = checkpointed_lsn w"

lemma same_ring_steps [simp]:
  "same_ring w w" "same_ring w (tail_at u w)" "same_ring w (new_tail q w)"
  by (simp_all add: same_ring_def tail_at_def new_tail_def)

lemma same_ring_trans: "same_ring w w' \<Longrightarrow> same_ring w' w'' \<Longrightarrow> same_ring w w''"
  by (simp add: same_ring_def)

lemma map_shift: "map (\<lambda>k. f (a + k)) [0 ..< n] @ map (\<lambda>k. f (a + n + k)) [0 ..< m] = map (\<lambda>k. f (a + k)) [0 ..< n + m :: nat]"
  by (rule nth_equalityI) (auto simp: nth_append)

lemma loop_runs:
  fixes s :: "'z wal_state_scheme"
  assumes "env_good env" and "log_inv s w ps" and "unat (tail_used (ws_buf w)) < KDS_WAL_PAGE_PAYLOAD"
    and "unat bytes \<le> KDS_WAL_BUF_SIZE" and "unat bytes < n"
    and "pages_needed (unat (tail_used (ws_buf w))) (unat bytes) \<le> length (ring_items s)"
  shows "\<exists>t w' qs. flush_loop env n start bytes s = (Inr (), t) \<and> log_inv t w' (ps @ qs) \<and> same_ring w w'
    \<and> unat (tail_used (ws_buf w')) < KDS_WAL_PAGE_PAYLOAD
    \<and> length qs = pages_needed (unat (tail_used (ws_buf w))) (unat bytes)
    \<and> ring_items t = drop (length qs) (ring_items s) \<and> pmap t = pmap s \<and> map (pmap s) qs = map Some (take (length qs) (ring_items s))
    \<and> log_stream t (ps @ qs) = log_stream s ps
        @ map (\<lambda>k. wb_buf (ws_buf w) ((unat start + k) mod KDS_WAL_BUF_SIZE)) [0 ..< unat bytes]"
  using assms
proof (induction n arbitrary: s w ps start bytes)
  case 0
  then show ?case by simp
next
  case (Suc n)
  show ?case
  proof (cases "bytes = 0")
    case True
    then show ?thesis
      using Suc.prems same_ring_steps(1) by (intro exI [of _ s] exI [of _ w] exI [of _ "[]"]) (simp add: pages_needed_def call_defs)
  next
    case False
    let ?tu = "unat (tail_used (ws_buf w))" and ?f = "\<lambda>k. wb_buf (ws_buf w) (k mod KDS_WAL_BUF_SIZE)"
    define c where "c = min bytes (ucast (of_nat KDS_WAL_PAGE_PAYLOAD - tail_used (ws_buf w) :: u32))"
    define u where "u = tail_used (ws_buf w) + ucast c"
    obtain t where t0: "pmap t = pmap s" and t: "log_inv t (tail_at u w) ps" "ring_items t = ring_items s" "unat u = ?tu + unat c"
      "log_stream t ps = log_stream s ps @ map (\<lambda>k. ?f (unat start + k)) [0 ..< unat c]"
      "flush_loop env (Suc n) start bytes s =
        (if KDS_WAL_PAGE_PAYLOAD \<le> unat u
         then sattempt (grow_log env True) (\<lambda>r. case r of Inl _ \<Rightarrow> sret ()
                | Inr _ \<Rightarrow> flush_loop env n (start + c) (bytes - c)) t
         else flush_loop env n (start + c) (bytes - c) t)"
      using flush_round [OF Suc.prems(1-3) False Suc.prems(4) c_def, of start n] unfolding u_def by blast
    have uc: "unat c = min (unat bytes) (KDS_WAL_PAGE_PAYLOAD - ?tu)"
      unfolding c_def using Suc.prems(3) by (intro chunk_size) simp
    have ub: "unat (bytes - c) = unat bytes - unat c" using uc by (intro unat_sub) (simp add: word_le_nat_alt)
    have "0 < unat bytes" using False by (simp add: unat_gt_0)
    then have less: "unat (bytes - c) < n" "unat (bytes - c) \<le> KDS_WAL_BUF_SIZE"
      using ub uc Suc.prems(3,4,5) by auto
    have addr: "?f (unat (start + c) + k) = ?f (unat start + unat c + k)" for k
      using unat_add_mod_size [of start c] by (metis mod_add_left_eq)
    have split: "map (\<lambda>k. ?f (unat start + k)) [0 ..< unat c] @ map (\<lambda>k. ?f (unat (start + c) + k)) [0 ..< unat (bytes - c)]
        = map (\<lambda>k. ?f (unat start + k)) [0 ..< unat bytes]"
      using map_shift [of ?f "unat start" "unat c" "unat (bytes - c)"] ub uc by (simp only: addr) simp
    show ?thesis
    proof (cases "KDS_WAL_PAGE_PAYLOAD \<le> unat u")
      case False
      then have z: "unat c = unat bytes" using t(3) uc Suc.prems(3) by (simp add: min_def split: if_splits)
      then have "pages_needed (unat u) (unat (bytes - c)) = pages_needed ?tu (unat bytes)" using ub t(3) by (simp add: pages_needed_def)
      then show ?thesis
        using Suc.IH [OF Suc.prems(1) t(1), of "bytes - c" "start + c"] False less t0 t(2,4,5) split Suc.prems(6)
          same_ring_trans [OF same_ring_steps(2) [of w u]]
        by (fastforce simp del: map_map)
    next
      case True
      then have z: "unat c = KDS_WAL_PAGE_PAYLOAD - ?tu" "KDS_WAL_PAGE_PAYLOAD \<le> ?tu + unat bytes" using t(3) uc by auto
      have pn: "pages_needed ?tu (unat bytes) = Suc (pages_needed 0 (unat (bytes - c)))"
      proof -
        have "?tu + unat bytes = KDS_WAL_PAGE_PAYLOAD + (unat bytes - unat c)" using z Suc.prems(3) by simp
        then show ?thesis using ub by (simp add: pages_needed_def payload_size)
      qed
      obtain j fs where it: "ring_items t = j # fs" using pn Suc.prems(6) t(2) by (cases "ring_items s") auto
      obtain v q where v: "grow_log env True t = (Inr (), v)" "log_inv v (new_tail q (tail_at u w)) (ps @ [q])" "ring_items v = fs"
        "log_stream v (ps @ [q]) = log_stream t ps" "pmap v = pmap s" "pmap s q = Some j"
        using grow_good [OF Suc.prems(1) t(1) it] unfolding t0 by blast
      have "length (ring_items s) = Suc (length fs)" using it t(2) by (metis length_Cons)
      then have enough: "pages_needed 0 (unat (bytes - c)) \<le> length (ring_items v)" using pn Suc.prems(6) v(3) by simp
      obtain x w' qs where x: "flush_loop env n (start + c) (bytes - c) v = (Inr (), x)" "log_inv x w' ((ps @ [q]) @ qs)"
        "same_ring (new_tail q (tail_at u w)) w'" "unat (tail_used (ws_buf w')) < KDS_WAL_PAGE_PAYLOAD"
        "length qs = pages_needed 0 (unat (bytes - c))" "ring_items x = drop (length qs) fs" "pmap x = pmap s" "map (pmap s) qs = map Some (take (length qs) fs)"
        "log_stream x ((ps @ [q]) @ qs) = log_stream v (ps @ [q]) @ map (\<lambda>k. ?f (unat (start + c) + k)) [0 ..< unat (bytes - c)]"
        using Suc.IH [OF Suc.prems(1) v(2) _ less(2,1), of "start + c"] enough v(3,5)
        by (auto simp: payload_size)
      have "same_ring w w'" using x(3) same_ring_trans same_ring_steps(2,3) by metis
      moreover have "flush_loop env (Suc n) start bytes s = (Inr (), x)"
        using t(5) True v(1) x(1) by (simp add: sattempt_def call_defs del: flush_loop.simps)
      moreover have "ring_items x = drop (length (q # qs)) (ring_items s)"
        using x(6) it t(2) by (metis drop_Suc_Cons length_Cons)
      moreover have "log_stream x (ps @ q # qs) = log_stream s ps @ map (\<lambda>k. ?f (unat start + k)) [0 ..< unat bytes]"
        using x(9) v(4) t(4) split by simp
      moreover have "map (pmap s) (q # qs) = map Some (take (length (q # qs)) (ring_items s))"
        using x(8) v(6) it t(2) by (metis length_Cons list.simps(9) take_Suc_Cons)
      ultimately show ?thesis
        using x(2,4,5,7) pn by (intro exI [of _ x] exI [of _ w'] exI [of _ "q # qs"]) (simp del: flush_loop.simps)
    qed
  qed
qed

definition flushed_wal :: "kds_wal_state \<Rightarrow> kds_wal_state" where
  "flushed_wal w = w\<lparr>ws_buf := (ws_buf w)\<lparr>flush_off := write_off (ws_buf w)\<rparr>,
     flush_lsn := kds_lsn_make (tail_page_id (ws_buf w)) (tail_used (ws_buf w))\<rparr>"

lemma log_inv_flushed: "log_inv s w ps \<Longrightarrow> log_inv (s\<lparr>g_wal := Some (flushed_wal w)\<rparr>) (flushed_wal w) ps"
  by (simp add: log_inv_def flushed_wal_def ids_in_range_def)

lemma flush_runs:
  fixes s :: "'z wal_state_scheme"
  assumes env: "env_good env" and inv: "log_inv s w ps" and room: "unat (tail_used (ws_buf w)) < KDS_WAL_PAGE_PAYLOAD"
    and ok: "wal_buf_ok (ws_buf w)" and ne: "wal_buffered (ws_buf w) \<noteq> []"
    and pages: "pages_needed (unat (tail_used (ws_buf w))) (length (wal_buffered (ws_buf w))) \<le> length (ring_items s)"
  shows "\<exists>t w' qs. kds_wal_flush env (\<lambda>s. s) s = (Inr (), t) \<and> log_inv t w' (ps @ qs)
    \<and> unat (tail_used (ws_buf w')) < KDS_WAL_PAGE_PAYLOAD \<and> wal_buf_ok (ws_buf w') \<and> wal_buffered (ws_buf w') = []
    \<and> log_stream t (ps @ qs) = log_stream s ps @ wal_buffered (ws_buf w)
    \<and> flush_lsn w' = kds_lsn_make (last (ps @ qs)) (tail_used (ws_buf w')) \<and> prev_lsn w' = prev_lsn w
    \<and> checkpointed_lsn w' = checkpointed_lsn w \<and> ring_items t = drop (length qs) (ring_items s)
    \<and> pmap t = pmap s \<and> map (pmap s) qs = map Some (take (length qs) (ring_items s))
    \<and> length qs = pages_needed (unat (tail_used (ws_buf w))) (length (wal_buffered (ws_buf w)))"
proof -
  let ?n = "wal_buf_used (ws_buf w)"
  have w: "g_wal s = Some w" using inv by (simp add: log_inv_def)
  have n0: "flush_off (ws_buf w) \<noteq> write_off (ws_buf w)"
    using ne by (auto simp: wal_buffered_def wal_buf_used_def)
  obtain t w1 qs where t: "flush_loop env (2 * unat ?n + 2) (flush_off (ws_buf w)) ?n s = (Inr (), t)"
    "log_inv t w1 (ps @ qs)" "same_ring w w1" "unat (tail_used (ws_buf w1)) < KDS_WAL_PAGE_PAYLOAD"
    "ring_items t = drop (length qs) (ring_items s)" "length qs = pages_needed (unat (tail_used (ws_buf w))) (unat ?n)"
    "log_stream t (ps @ qs) = log_stream s ps
       @ map (\<lambda>k. wb_buf (ws_buf w) ((unat (flush_off (ws_buf w)) + k) mod KDS_WAL_BUF_SIZE)) [0 ..< unat ?n]"
    "pmap t = pmap s" "map (pmap s) qs = map Some (take (length qs) (ring_items s))"
    using loop_runs [OF env inv room, of ?n "2 * unat ?n + 2" "flush_off (ws_buf w)"] ok pages
    by (auto simp: wal_buf_ok_def)
  have w1: "g_wal t = Some w1" "tail_page_id (ws_buf w1) = last (ps @ qs)" using t(2) by (simp_all add: log_inv_def)
  have "kds_wal_flush env (\<lambda>s. s) s = (Inr (), t\<lparr>g_wal := Some (flushed_wal w1)\<rparr>)"
    using w n0 t(1,3) w1 by (simp add: kds_wal_flush_def call_defs Let_def wal_buf_used_def [symmetric] upd_buf_eq upd_wal_def
        flushed_wal_def same_ring_def)
  moreover have "wal_buf_used (ws_buf (flushed_wal w1)) = 0" by (simp add: wal_buf_used_def flushed_wal_def)
  then have "wal_buf_ok (ws_buf (flushed_wal w1))" "wal_buffered (ws_buf (flushed_wal w1)) = []"
    by (simp_all add: wal_buf_ok_def wal_buffered_def)
  ultimately show ?thesis
    using log_inv_flushed [OF t(2)] t(3-9) w1(2)
    by (intro exI [of _ "t\<lparr>g_wal := Some (flushed_wal w1)\<rparr>"] exI [of _ "flushed_wal w1"] exI [of _ qs])
       (simp add: flushed_wal_def same_ring_def wal_buffered_def)
qed

section \<open>Start-up\<close>

lemma pool_wf_heads [simp]: "pool_wf (s\<lparr>g_wal_head_page_id := a, g_wal_tail_page_id := b\<rparr>) = pool_wf s"
  by (rule pool_wf_cong) simp_all

lemma alloc_wf_fields [simp]:
  "ring_items (s\<lparr>g_wal_head_page_id := a, g_wal_tail_page_id := b\<rparr>) = ring_items s"
  "ring_items (s\<lparr>nalloc := n\<rparr>) = ring_items s"
  by (rule ring_cong; simp)+

lemma ring_inv_fields [simp]:
  "ring_inv (s\<lparr>g_wal_head_page_id := a, g_wal_tail_page_id := b\<rparr>) = ring_inv s" "ring_inv (s\<lparr>nalloc := n\<rparr>) = ring_inv s"
  by (rule ring_cong; simp)+

lemma alloc_wf_more [simp]:
  "alloc_wf (s\<lparr>g_wal_head_page_id := a, g_wal_tail_page_id := b\<rparr>) = alloc_wf s" "alloc_wf (s\<lparr>nalloc := n\<rparr>) = alloc_wf s"
  by (simp_all add: alloc_wf_def)

definition first_wal :: "u64 \<Rightarrow> kds_wal_state" where
  "first_wal q = \<lparr>ws_buf = \<lparr>wb_buf = (\<lambda>_. 0), write_off = 0, flush_off = 0, current_lsn = KDS_LSN_INVALID,
          tail_page_id = q, tail_used = 0, tail_seg_no = 1\<rparr>,
        flush_lsn = KDS_LSN_INVALID, checkpointed_lsn = KDS_LSN_INVALID, prev_lsn = KDS_LSN_INVALID\<rparr>"

lemma init_good:
  fixes s :: "'z wal_state_scheme"
  assumes env: "env_good env" and wf: "alloc_wf s" and g: "g_alloc s" and dev: "kds_bdev s" and r: "ids_in_range s"
    and it: "ring_items s = j # fs"
  shows "\<exists>t q. kds_wal_init env s = (Inr (), t) \<and> pmap s q = Some j \<and> log_inv t (first_wal q) [q] \<and> log_stream t [q] = []
    \<and> ring_items t = fs \<and> pmap t = pmap s"
proof -
  let ?s = "s\<lparr>nalloc := Suc (Suc (nalloc s))\<rparr>"
  have pre: "alloc_wf ?s" "g_alloc ?s" "ring_items ?s = j # fs" using wf g it by simp_all
  obtain t kp pg where S: "wal_alloc_page 1 KDS_LSN_INVALID ?s = (Inr j, t)" "alloc_wf t" "ring_items t = fs" "g_alloc t"
    "pmap t = pmap ?s" "fr_kp (pframes t j) = Some kp" "page_hdr_valid (kp_hdr kp)" "pmap ?s (kp_id kp) = Some j"
    "fr_page (pframes t j) = Some (wal_page_init 1 KDS_LSN_INVALID pg)" "disk t = disk ?s" "kds_bdev t = kds_bdev ?s" "g_wal t = g_wal ?s"
    using wal_alloc_page_good [OF pre, of 1 KDS_LSN_INVALID] by (elim exE conjE) (rule that; assumption)
  let ?q = "kp_id kp" and ?pg = "set_wal_page_hdr (\<lambda>h. h\<lparr>start_lsn := kds_lsn_make (kp_id kp) 0\<rparr>) (wal_page_init 1 KDS_LSN_INVALID pg)"
  let ?u = "upd_frame j (\<lambda>f. f\<lparr>fr_page := Some ?pg, fr_kp := Some (unpin_kpage kp)\<rparr>) (t\<lparr>g_wal_head_page_id := ?q, g_wal_tail_page_id := ?q\<rparr>)"
  let ?v = "?u\<lparr>g_wal := Some (first_wal ?q)\<rparr>"
  have al: "ke_alloc_ok env = (\<lambda>_. True)" using env by (simp add: env_good_def)
  have run: "kds_wal_init env s = (Inr (), ?v)"
    using S(1,6,9) al by (simp add: kds_wal_init_def kalloc_eq call_defs the_kp_def the_page_def put_page_def kds_buf_unpin_def
        kds_meta_set_wal_pages_def first_wal_def upd_frame_def)
  have pw: "pool_wf t" using S(2) by (rule alloc_wf_pool)
  have q: "pmap t ?q = Some j" "pmap s ?q = Some j" using S(5,8) by simp_all
  have "pool_wf ?u"
    using pw pool_wf_map [OF pw q(1)] pool_wf_id [OF pw, of j] S(6)
    by (intro pool_wf_touch) (auto simp: frame_loaded_def unpin_kpage_def)
  note A = alloc_wf_only [OF _ only_frame_upd_self this]
  have c: "cpage ?v ?q = ?pg" using q by (simp add: cpage_def)
  have l: "page_log ?pg = []" by (simp add: page_log_def wal_page_hdr_init)
  have nj: "j \<notin> set fs" using wf it by (simp add: alloc_wf_def)
  have "log_page ?v ?q"
    unfolding log_page_def using q(1) A S(2,3,7) c l nj by (simp add: unpin_kpage_def)
  moreover have "ids_in_range ?v" using r S(5) by (simp add: ids_in_range_def)
  ultimately have "log_inv ?v (first_wal ?q) [?q]"
    using A S(2,4,11) dev c by (simp add: log_inv_def first_wal_def wal_page_hdr_init)
  moreover have "ring_items ?v = fs" using A S(2,3) by simp
  ultimately show ?thesis using run q(2) c l S(5) by (intro exI [of _ ?v] exI [of _ ?q]) (simp add: log_stream_def)
qed

section \<open>A log with two staged pages\<close>

definition demo_kp :: "u64 \<Rightarrow> kds_page" where
  "demo_kp p = \<lparr>kp_id = p, kp_hdr = \<lparr>hdr_type = 0, hdr_crc = 0, hdr_flags = 1, hdr_reserved1 = replicate 32 0\<rparr>, kp_refcnt = 1\<rparr>"

definition demo_frame :: "nat \<Rightarrow> u64 \<Rightarrow> kds_frame" where
  "demo_frame i p = \<lparr>frame_id = i, fr_state = KDS_FRAME_VALID, fr_page_id = p, fr_kp = Some (demo_kp p), fr_page = Some (\<lambda>_. 0),
     fr_mapped = False\<rparr>"

definition demo_free :: "nat list" where
  "demo_free = filter (\<lambda>i. i \<noteq> 5 \<and> i \<noteq> 6) [0 ..< KDS_BUF_NR_FRAMES]"

definition demo_wal0 :: wal_state where
  "demo_wal0 = btree_state.extend (demo_btree\<lparr>pframes := init_frame(5 := demo_frame 5 200, 6 := demo_frame 6 201),
     pmap := [200 \<mapsto> 5, 201 \<mapsto> 6], free_frames := demo_free, nr_free := of_nat (length demo_free),
     cursor := 0, reserved := 2, ring := (\<lambda>_. None)(0 := Some 5, 1 := Some 6)\<rparr>)
     \<lparr>g_wal = None, g_wal_head_page_id = 0, g_wal_tail_page_id = 0, g_ckpt_proc = False\<rparr>"

lemma demo_wal0_simps:
  "pframes demo_wal0 = init_frame(5 := demo_frame 5 200, 6 := demo_frame 6 201)" "pmap demo_wal0 = [200 \<mapsto> 5, 201 \<mapsto> 6]"
  "free_frames demo_wal0 = demo_free" "nr_free demo_wal0 = of_nat (length demo_free)" "cursor demo_wal0 = 0" "reserved demo_wal0 = 2"
  "ring demo_wal0 = (\<lambda>_. None)(0 := Some 5, 1 := Some 6)" "g_alloc demo_wal0" "kds_bdev demo_wal0" "g_pool demo_wal0"
  "superblock demo_wal0 = Some ((first_superblock 0)\<lparr>max_page_id := 200\<rparr>)" "sb_io_page demo_wal0 = Some (\<lambda>_. 0)"
  by (simp_all add: demo_wal0_def btree_state.defs demo_btree_def alloc_state.defs demo_alloc_def meta_state.defs demo_meta0_def)

lemma demo_wal0_ring: "ring_items demo_wal0 = [5, 6]" "ring_inv demo_wal0"
proof -
  have len: "ring_len demo_wal0 = 2" using ring_len_eq [of demo_wal0] by (simp add: demo_wal0_simps)
  have two: "[0 ..< 2] = [0, 1 :: nat]" by (simp add: upt_conv_Cons)
  show "ring_items demo_wal0 = [5, 6]"
    unfolding ring_items_def len two by (simp add: slot_at_def demo_wal0_simps)
  show "ring_inv demo_wal0"
    unfolding ring_inv_def len by (auto simp: demo_wal0_simps slot_at_def less_2_cases_iff)
qed

lemma demo_wal0_wf: "alloc_wf demo_wal0"
proof -
  have k: "(5::nat) < KDS_BUF_NR_FRAMES" "(6::nat) < KDS_BUF_NR_FRAMES" by (simp_all add: KDS_BUF_NR_FRAMES_def)
  have "distinct demo_free" by (simp add: demo_free_def)
  moreover have "i \<in> set demo_free \<longleftrightarrow> i < KDS_BUF_NR_FRAMES \<and> i \<noteq> 5 \<and> i \<noteq> 6" for i by (auto simp: demo_free_def)
  ultimately have "pool_wf demo_wal0"
    using k by (auto simp: pool_wf_def demo_wal0_simps init_frame_def demo_frame_def demo_kp_def frame_loaded_def split: if_splits)
  moreover have "5 \<in> ran (pmap demo_wal0)" by (rule ranI [of _ 200]) (simp add: demo_wal0_simps)
  moreover have "6 \<in> ran (pmap demo_wal0)" by (rule ranI [of _ 201]) (simp add: demo_wal0_simps)
  ultimately show ?thesis by (simp add: alloc_wf_def demo_wal0_ring)
qed

lemma demo_wal0_range: "ids_in_range demo_wal0"
  by (auto simp: ids_in_range_def demo_wal0_simps split: if_splits)

lemma demo_wal_init: "\<exists>t. kds_wal_init demo_env demo_wal0 = (Inr (), t) \<and> log_inv t (first_wal 200) [200] \<and> log_stream t [200] = []
    \<and> ring_items t = [6] \<and> pmap t = pmap demo_wal0"
proof -
  obtain t q where t: "kds_wal_init demo_env demo_wal0 = (Inr (), t)" "pmap demo_wal0 q = Some 5" "log_inv t (first_wal q) [q]"
    "log_stream t [q] = []" "ring_items t = [6]" "pmap t = pmap demo_wal0"
    using init_good [OF demo_env_good demo_wal0_wf demo_wal0_simps(8,9) demo_wal0_range demo_wal0_ring(1)] by blast
  have "q = 200" using t(2) by (simp add: demo_wal0_simps split: if_splits)
  with t show ?thesis by blast
qed

section \<open>Replaying a page\<close>

definition rec_stream :: "(kds_wal_rec_hdr \<times> u8 list) list \<Rightarrow> u8 list" where
  "rec_stream rs = concat (map (\<lambda>(h, bs). enc_rec_hdr h @ bs) rs)"

definition before_checkpoint :: "u64 \<Rightarrow> kds_wal_rec_hdr \<Rightarrow> bool" where
  "before_checkpoint ckpt h \<longleftrightarrow> rec_lsn h \<noteq> KDS_LSN_INVALID \<and> rec_lsn h < ckpt"

definition modifies :: "kds_wal_rec_hdr \<Rightarrow> bool" where
  "modifies h \<longleftrightarrow> rec_type h \<in> {rec_type_code KDS_WAL_REC_INSERT, rec_type_code KDS_WAL_REC_DELETE, rec_type_code KDS_WAL_REC_INIT_PAGE}"

definition good_record :: "(u32 \<Rightarrow> u8 list \<Rightarrow> u32) \<Rightarrow> u64 \<Rightarrow> kds_wal_rec_hdr \<times> u8 list \<Rightarrow> bool" where
  "good_record crc ckpt r \<longleftrightarrow> (case r of (h, bs) \<Rightarrow> rec_fits h bs \<and> (before_checkpoint ckpt h \<or>
     wal_rec_crc_ok crc h (Some bs) = Inr True \<and> (modifies h \<or> rec_type h \<in>
       {rec_type_code KDS_WAL_REC_COMMIT, rec_type_code KDS_WAL_REC_ABORT, rec_type_code KDS_WAL_REC_CHECKPOINT})))"

definition replayed :: "u64 \<Rightarrow> (kds_wal_rec_hdr \<times> u8 list) list \<Rightarrow> nat" where
  "replayed ckpt rs = length (filter (\<lambda>(h, bs). \<not> before_checkpoint ckpt h \<and> modifies h) rs)"

lemma rec_stream_simps [simp]: "rec_stream [] = []" "rec_stream ((h, bs) # rs) = enc_rec_hdr h @ bs @ rec_stream rs"
  by (simp_all add: rec_stream_def)

lemma replayed_simps [simp]: "replayed ckpt [] = 0"
  "replayed ckpt ((h, bs) # rs) = (if \<not> before_checkpoint ckpt h \<and> modifies h then Suc (replayed ckpt rs) else replayed ckpt rs)"
  by (simp_all add: replayed_def)

lemma length_rec_stream: "list_all (good_record crc ckpt) rs \<Longrightarrow> length (rec_stream rs) = rec_bytes rs"
  by (induction rs) (auto simp: good_record_def rec_fits_def length_enc_rec_hdr)

text \<open>The loop steps over any run of good records and counts those that have to be redone.\<close>

lemma replay_run:
  assumes "list_all (good_record crc ckpt) rs"
    and "unat off + rec_bytes rs \<le> unat (used_bytes (wal_page_hdr pg))" "unat (used_bytes (wal_page_hdr pg)) \<le> KDS_WAL_PAGE_PAYLOAD"
    and "rd pg (wal_page_payload + unat off) (rec_bytes rs) = rec_stream rs"
  shows "replay_page crc ckpt pg (length rs + n) off count =
    replay_page crc ckpt pg n (off + of_nat (rec_bytes rs)) (count + replayed ckpt rs)"
  using assms
proof (induction rs arbitrary: off count)
  case Nil
  then show ?case by simp
next
  case (Cons r rs)
  obtain h bs where r: "r = (h, bs)" by force
  let ?at = "wal_page_payload + unat off" and ?off = "off + of_nat KDS_WAL_REC_HDR_SIZE + body_len h"
  have good: "rec_fits h bs" "length (enc_rec_hdr h) = 36" using Cons.prems(1) r by (auto simp: good_record_def rec_fits_def length_enc_rec_hdr)
  have len: "unat (body_len h) = length bs" using good(1) by (simp add: rec_fits_def)
  have "rd pg ?at (rec_bytes (r # rs)) = rd pg ?at 36 @ rd pg (?at + 36) (length bs) @ rd pg (?at + 36 + length bs) (rec_bytes rs)"
    using r rd_append [of pg ?at 36 "length bs + rec_bytes rs"] rd_append [of pg "?at + 36" "length bs" "rec_bytes rs"]
    by (simp add: add.assoc)
  then have parts: "rd pg ?at 36 = enc_rec_hdr h" "rd pg (?at + 36) (length bs) = bs"
    "rd pg (?at + 36 + length bs) (rec_bytes rs) = rec_stream rs"
    using Cons.prems(4) r good(2) by (simp_all add: append_eq_append_conv)
  have bound: "unat off + 36 + length bs + rec_bytes rs \<le> unat (used_bytes (wal_page_hdr pg))" using Cons.prems(2) r by simp
  have ld: "pload pg ?at KDS_WAL_REC_HDR_SIZE = Inr (enc_rec_hdr h)" "pload pg (?at + KDS_WAL_REC_HDR_SIZE) (length bs) = Inr bs"
    using parts bound Cons.prems(3) by (simp_all add: pload_def KDS_WAL_REC_HDR_SIZE_def payload_size KDS_PAGE_SIZE_def)
  have dec: "dec_rec_hdr (enc_rec_hdr h) = h" using good(1) by (simp add: dec_enc_rec_hdr rec_fits_def)
  have uo: "unat ?off = unat off + 36 + length bs"
    using bound len Cons.prems(3) by (simp add: unat_word_ariths KDS_WAL_REC_HDR_SIZE_def payload_size)
  have bl: "(of_nat (length bs) :: u32) = body_len h" by (simp add: len [symmetric])
  then have off: "?off + of_nat (rec_bytes rs) = off + of_nat (rec_bytes (r # rs))"
    using r by (simp add: KDS_WAL_REC_HDR_SIZE_def algebra_simps)
  have IH: "replay_page crc ckpt pg (length rs + n) ?off c =
      replay_page crc ckpt pg n (off + of_nat (rec_bytes (r # rs))) (c + replayed ckpt rs)" for c
    using Cons.IH [of ?off c] Cons.prems(1,3) bound parts(3) uo unfolding off by (simp add: add.assoc)
  show ?case
    using r IH ld dec bound Cons.prems(1) len
    by (auto simp: good_record_def before_checkpoint_def modifies_def Let_def KDS_WAL_REC_HDR_SIZE_def)
qed

lemma replay_ends:
  assumes "unat (used_bytes (wal_page_hdr pg)) < unat off + KDS_WAL_REC_HDR_SIZE"
  shows "replay_page crc ckpt pg (Suc n) off count = Inr (Some count)"
  using assms by simp

lemma replay_all:
  assumes "list_all (good_record crc ckpt) rs" and "page_log pg = rec_stream rs"
    and "unat (used_bytes (wal_page_hdr pg)) \<le> KDS_WAL_PAGE_PAYLOAD" and "length rs < n"
  shows "replay_page crc ckpt pg n 0 count = Inr (Some (count + replayed ckpt rs))"
proof -
  have u: "unat (used_bytes (wal_page_hdr pg)) = rec_bytes rs"
    using arg_cong [OF assms(2), of length] length_rec_stream [OF assms(1)] by (simp add: page_log_def)
  obtain m where n: "n = length rs + Suc m" using assms(4) by (metis less_imp_Suc_add add_Suc_right)
  have "unat (of_nat (rec_bytes rs) :: u32) = rec_bytes rs" using u assms(3) by (simp add: unat_of_nat payload_size)
  then show ?thesis
    using replay_run [OF assms(1), of 0 pg "Suc m" count] assms(2,3) u
    by (simp add: n page_log_def KDS_WAL_REC_HDR_SIZE_def)
qed

text \<open>A record that continues on the next page, as the flush loop writes them: the checksum reads past the page.\<close>

lemma replay_overrun:
  assumes "list_all (good_record crc ckpt) rs" and h: "rec_hdr_valid h" "\<not> before_checkpoint ckpt h"
    and log: "page_log pg = rec_stream rs @ enc_rec_hdr h @ bs" and full: "length (page_log pg) = KDS_WAL_PAGE_PAYLOAD"
    and cut: "length bs < unat (body_len h)"
  shows "replay_page crc ckpt pg (length rs + Suc n) 0 count = Inl Fault"
proof -
  let ?b = "rec_bytes rs" and ?at = "wal_page_payload + rec_bytes rs"
  have eh: "length (enc_rec_hdr h) = 36" using h by (simp add: length_enc_rec_hdr)
  have ls: "length (rec_stream rs) = ?b" by (rule length_rec_stream [OF assms(1)])
  have u: "unat (used_bytes (wal_page_hdr pg)) = KDS_WAL_PAGE_PAYLOAD" using full by (simp add: page_log_def)
  have sz: "?b + 36 + length bs = KDS_WAL_PAGE_PAYLOAD" using full log ls eh by simp
  have ub: "unat (of_nat ?b :: u32) = ?b" using sz by (simp add: unat_of_nat payload_size)
  have whole: "rd pg wal_page_payload KDS_WAL_PAGE_PAYLOAD = rec_stream rs @ enc_rec_hdr h @ bs" using log u by (simp add: page_log_def)
  have "take ?b (rd pg wal_page_payload KDS_WAL_PAGE_PAYLOAD) = rec_stream rs"
    "take 36 (drop ?b (rd pg wal_page_payload KDS_WAL_PAGE_PAYLOAD)) = enc_rec_hdr h"
    unfolding whole using ls eh by simp_all
  then have parts: "rd pg wal_page_payload ?b = rec_stream rs" "rd pg ?at 36 = enc_rec_hdr h"
    using sz by (simp_all add: take_rd drop_rd)
  have "replay_page crc ckpt pg (length rs + Suc n) 0 count = replay_page crc ckpt pg (Suc n) (of_nat ?b) (count + replayed ckpt rs)"
    using replay_run [OF assms(1), of 0 pg "Suc n" count] parts(1) u sz by simp
  also have "\<dots> = Inl Fault"
  proof -
    have "pload pg ?at KDS_WAL_REC_HDR_SIZE = Inr (enc_rec_hdr h)"
      using parts(2) sz by (simp add: pload_def KDS_WAL_REC_HDR_SIZE_def payload_size KDS_PAGE_SIZE_def)
    moreover have "pload pg (?at + KDS_WAL_REC_HDR_SIZE) (unat (body_len h)) = Inl Fault"
      using cut sz by (simp add: pload_def KDS_WAL_REC_HDR_SIZE_def payload_size KDS_PAGE_SIZE_def)
    ultimately show ?thesis
      using h ub u sz by (auto simp: dec_enc_rec_hdr before_checkpoint_def Let_def KDS_WAL_REC_HDR_SIZE_def)
  qed
  finally show ?thesis .
qed

text \<open>A record from before the checkpoint whose length field is \<open>2 ^ 32 - 36\<close> leaves the offset where it is.\<close>

lemma replay_stuck:
  assumes "rd pg wal_page_payload 36 = enc_rec_hdr h" and "rec_hdr_valid h" and "before_checkpoint ckpt h"
    and "body_len h = - 36" and "36 \<le> unat (used_bytes (wal_page_hdr pg))"
  shows "replay_page crc ckpt pg n 0 count = Inr None"
proof (induction n)
  case (Suc n)
  have "pload pg wal_page_payload KDS_WAL_REC_HDR_SIZE = Inr (enc_rec_hdr h)"
    using assms(1) by (simp add: pload_def KDS_WAL_REC_HDR_SIZE_def payload_size KDS_PAGE_SIZE_def)
  then show ?case
    using Suc assms(2-5) by (simp add: dec_enc_rec_hdr before_checkpoint_def Let_def KDS_WAL_REC_HDR_SIZE_def)
qed simp

lemma recover_one_page:
  fixes s :: "'z wal_state_scheme"
  assumes pw: "pool_wf s" and p: "pmap s p = Some i" and kp: "fr_kp (pframes s i) = Some kp" and pg: "fr_page (pframes s i) = Some pg"
    and w: "g_wal s = Some w" and ck: "kds_lsn_page_id (checkpointed_lsn w) = p" "p \<noteq> 0"
    and last: "next_wal_page_id (wal_page_hdr pg) = 0"
    and recs: "list_all (good_record crc (checkpointed_lsn w)) rs" "page_log pg = rec_stream rs"
    and size: "unat (used_bytes (wal_page_hdr pg)) \<le> KDS_WAL_PAGE_PAYLOAD" and m: "length rs < m" "0 < n"
  shows "kds_wal_recover env crc m n s = (Inr (Some (replayed (checkpointed_lsn w) rs)), s)"
proof -
  obtain k where n: "n = Suc k" using m(2) gr0_implies_Suc by blast
  have rc0: "recover_chain env crc (checkpointed_lsn w) m k 0 c s = (Inr (Some c), s)" for c
    by (cases k) (simp_all add: call_defs)
  have un: "kds_buf_unpin i (pinned i kp s) = (Inr (), s)"
    using kp by (simp add: kds_buf_unpin_def pinned_def upd_frame_upd comp_def) (rule upd_frame_same, simp)
  show ?thesis
    using w ck n last load_root [OF pw p kp, of env] pg replay_all [OF recs size m(1), of 0] un rc0
    by (simp add: kds_wal_recover_def call_defs the_page_def pinned_facts [OF pw p kp])
qed

section \<open>Properties\<close>

lemma log_inv_buffer:
  assumes "log_inv s w ps" and "tail_page_id (ws_buf w') = tail_page_id (ws_buf w)" and "tail_used (ws_buf w') = tail_used (ws_buf w)"
  shows "log_inv (s\<lparr>g_wal := Some w'\<rparr>) w' ps"
  using assms by (simp add: log_inv_def ids_in_range_def)

lemma first_wal_simps [simp]:
  "tail_used (ws_buf (first_wal q)) = 0" "tail_page_id (ws_buf (first_wal q)) = q" "checkpointed_lsn (first_wal q) = 0"
  "wal_buffered (ws_buf (first_wal q)) = []" "wal_buf_ok (ws_buf (first_wal q))" "wal_buf_used (ws_buf (first_wal q)) = 0"
  by (simp_all add: first_wal_def wal_buffered_def wal_buf_ok_def wal_buf_used_def KDS_LSN_INVALID_def)

text \<open>C5: any sequence of appends that fits into the ring succeeds, wherever the ring's offsets stand. The bytes added
  behind what was buffered before decode to exactly the records given, with the stamped headers: every checksum
  verifies, each record's back link is the LSN of the one before it, starting from the previously appended record, and
  the LSNs strictly increase.\<close>

theorem wal_append_sequence:
  assumes "g_wal s = Some w" and "wal_buf_ok (ws_buf w)" and "list_all (\<lambda>(h, bs). rec_fits h bs) rs"
    and "unat (wal_buf_used (ws_buf w)) + rec_bytes rs \<le> KDS_WAL_BUF_SIZE"
    and "unat (tail_page_id (ws_buf w)) < 2 ^ 32" and "unat (tail_used (ws_buf w)) + KDS_WAL_BUF_SIZE < 2 ^ 32"
  shows "\<exists>hs w'. append_all crc rs s = (Inr hs, s\<lparr>g_wal := Some w'\<rparr>)
    \<and> wal_buf_ok (ws_buf w')
    \<and> (\<exists>str. wal_buffered (ws_buf w') = wal_buffered (ws_buf w) @ str
         \<and> read_records (length rs) str = zip hs (map snd rs))
    \<and> list_all2 (\<lambda>h (h0, bs). same_record h0 h \<and> wal_rec_crc_ok crc h (Some bs) = Inr True) hs rs
    \<and> lsn_chain (prev_lsn w) hs \<and> sorted_wrt (<) (map (\<lambda>h. unat (rec_lsn h)) hs)"
  using append_all_runs [OF assms, of crc] by blast

definition demo_crc :: "u32 \<Rightarrow> u8 list \<Rightarrow> u32" where
  "demo_crc seed bs = seed + of_nat (length bs)"

definition demo_rec :: "u64 \<Rightarrow> kds_wal_rec_hdr \<times> u8 list" where
  "demo_rec xid = (zero_rec_hdr\<lparr>rec_xid := xid, rec_type := rec_type_code KDS_WAL_REC_COMMIT, body_len := 8\<rparr>, enc_body_xact xid)"

lemma demo_rec_fits: "list_all (\<lambda>(h, bs). rec_fits h bs) [demo_rec a, demo_rec b]" "rec_bytes [demo_rec a, demo_rec b] = 88"
  by (simp_all add: demo_rec_def rec_fits_def zero_rec_hdr_def rec_hdr_valid_def enc_body_xact_def KDS_PAGE_SIZE_def)

theorem wal_append_sequence_witness:
  "\<exists>hs w'. append_all demo_crc [demo_rec 7, demo_rec 8] (demo_wal0\<lparr>g_wal := Some (first_wal 200)\<rparr>)
       = (Inr hs, demo_wal0\<lparr>g_wal := Some w'\<rparr>)
    \<and> map rec_xid hs = [7, 8] \<and> lsn_chain 0 hs \<and> read_records 2 (wal_buffered (ws_buf w')) = zip hs [enc_body_xact 7, enc_body_xact 8]"
proof -
  let ?s = "demo_wal0\<lparr>g_wal := Some (first_wal 200)\<rparr>" and ?rs = "[demo_rec 7, demo_rec 8]"
  obtain hs w' where T: "append_all demo_crc ?rs ?s = (Inr hs, ?s\<lparr>g_wal := Some w'\<rparr>)"
    "read_records (length ?rs) (wal_buffered (ws_buf w')) = zip hs (map snd ?rs)"
    "list_all2 (\<lambda>h (h0, bs). same_record h0 h \<and> wal_rec_crc_ok demo_crc h (Some bs) = Inr True) hs ?rs"
    "lsn_chain (prev_lsn (first_wal 200)) hs"
    using wal_append_sequence [of ?s "first_wal 200" ?rs demo_crc] demo_rec_fits [of 7 8]
    by (auto simp: KDS_WAL_BUF_SIZE_def)
  have "map rec_xid hs = [7, 8]"
    using T(3) by (auto simp: list_all2_Cons2 same_record_def demo_rec_def)
  moreover have "lsn_chain 0 hs" using T(4) by (simp add: first_wal_def KDS_LSN_INVALID_def)
  moreover have "read_records 2 (wal_buffered (ws_buf w')) = zip hs [enc_body_xact 7, enc_body_xact 8]"
    using T(2) by (simp add: demo_rec_def numeral_2_eq_2 del: read_records.simps)
  ultimately show ?thesis using T(1) by (intro exI [of _ hs] exI [of _ w']) (simp del: append_all.simps)
qed

text \<open>C2: A flush, run alone by a kernel that fails nothing, when there is something to flush, the tail page is not full and as many pages are staged as the bytes need (without them records are lost). It moves exactly the buffered bytes, in order, to the end of the log: the chain gains the next staged pages, which leave the allocator's ring in order, it stays linked, every page of it that holds log bytes is on disk as it is in memory, the buffer is empty afterwards and \<open>flush_lsn\<close> names the end of the log.\<close>

theorem wal_flush_durable:
  assumes "env_good env" and "log_inv s w ps" and "unat (tail_used (ws_buf w)) < KDS_WAL_PAGE_PAYLOAD"
    and "wal_buf_ok (ws_buf w)" and "wal_buffered (ws_buf w) \<noteq> []"
    and "pages_needed (unat (tail_used (ws_buf w))) (length (wal_buffered (ws_buf w))) \<le> length (ring_items s)"
  shows "\<exists>t w' qs. kds_wal_flush env (\<lambda>s. s) s = (Inr (), t) \<and> log_inv t w' (ps @ qs)
    \<and> unat (tail_used (ws_buf w')) < KDS_WAL_PAGE_PAYLOAD \<and> wal_buffered (ws_buf w') = []
    \<and> log_stream t (ps @ qs) = log_stream s ps @ wal_buffered (ws_buf w)
    \<and> length qs = pages_needed (unat (tail_used (ws_buf w))) (length (wal_buffered (ws_buf w)))
    \<and> map (pmap s) qs = map Some (take (length qs) (ring_items s)) \<and> ring_items t = drop (length qs) (ring_items s)
    \<and> flush_lsn w' = kds_lsn_make (last (ps @ qs)) (tail_used (ws_buf w')) \<and> prev_lsn w' = prev_lsn w"
  using flush_runs [OF assms] by blast

lemma demo_append:
  assumes "kds_wal_init demo_env demo_wal0 = (Inr (), t)" "log_inv t (first_wal 200) [200]"
  shows "\<exists>w'. kds_wal_append demo_crc (fst (demo_rec 7)) (Some (snd (demo_rec 7))) t
      = (Inr (stamped demo_crc (first_wal 200) (fst (demo_rec 7)) (snd (demo_rec 7))), t\<lparr>g_wal := Some w'\<rparr>)
    \<and> log_inv (t\<lparr>g_wal := Some w'\<rparr>) w' [200] \<and> tail_used (ws_buf w') = 0 \<and> wal_buf_ok (ws_buf w')
    \<and> length (wal_buffered (ws_buf w')) = 44 \<and> checkpointed_lsn w' = 0
    \<and> wal_buffered (ws_buf w') = enc_rec_hdr (stamped demo_crc (first_wal 200) (fst (demo_rec 7)) (snd (demo_rec 7))) @ snd (demo_rec 7)"
proof -
  let ?w = "appended demo_crc (first_wal 200) (fst (demo_rec 7)) (snd (demo_rec 7))"
  have f: "rec_fits (fst (demo_rec 7)) (snd (demo_rec 7))" "length (snd (demo_rec 7)) = 8"
    using demo_rec_fits(1) [of 7 7] by (simp_all add: demo_rec_def enc_body_xact_def)
  have g: "g_wal t = Some (first_wal 200)" using assms(2) by (simp add: log_inv_def)
  have room: "unat (wal_buf_used (ws_buf (first_wal 200))) + 36 + length (snd (demo_rec 7)) \<le> KDS_WAL_BUF_SIZE"
    using f(2) by (simp add: KDS_WAL_BUF_SIZE_def)
  note B = appended_buf [OF first_wal_simps(5) f(1) room, of demo_crc]
  show ?thesis
    using append_runs [OF g first_wal_simps(5) f(1) room, of demo_crc] B f(2) log_inv_buffer [OF assms(2), of ?w]
      stamped_fits [OF f(1), of demo_crc "first_wal 200"]
    by (intro exI [of _ ?w]) (simp add: length_enc_rec_hdr rec_fits_def)
qed

theorem wal_flush_durable_witness:
  "\<exists>t w t' u w'. kds_wal_init demo_env demo_wal0 = (Inr (), t)
    \<and> kds_wal_append demo_crc (fst (demo_rec 7)) (Some (snd (demo_rec 7))) t = (Inr w, t')
    \<and> kds_wal_flush demo_env (\<lambda>s. s) t' = (Inr (), u) \<and> log_inv u w' [200]
    \<and> log_stream u [200] = enc_rec_hdr w @ snd (demo_rec 7)"
proof -
  obtain t where t: "kds_wal_init demo_env demo_wal0 = (Inr (), t)" "log_inv t (first_wal 200) [200]" "log_stream t [200] = []"
    "ring_items t = [6]" using demo_wal_init by blast
  obtain w2 where A: "kds_wal_append demo_crc (fst (demo_rec 7)) (Some (snd (demo_rec 7))) t
      = (Inr (stamped demo_crc (first_wal 200) (fst (demo_rec 7)) (snd (demo_rec 7))), t\<lparr>g_wal := Some w2\<rparr>)"
    "log_inv (t\<lparr>g_wal := Some w2\<rparr>) w2 [200]" "tail_used (ws_buf w2) = 0" "wal_buf_ok (ws_buf w2)" "length (wal_buffered (ws_buf w2)) = 44"
    "wal_buffered (ws_buf w2) = enc_rec_hdr (stamped demo_crc (first_wal 200) (fst (demo_rec 7)) (snd (demo_rec 7))) @ snd (demo_rec 7)"
    using demo_append [OF t(1,2)] by blast
  have ne: "wal_buffered (ws_buf w2) \<noteq> []" using A(5) by (metis list.size(3) zero_neq_numeral)
  have lt: "unat (tail_used (ws_buf w2)) < KDS_WAL_PAGE_PAYLOAD" using A(3) by (simp add: payload_size)
  have pn: "pages_needed (unat (tail_used (ws_buf w2))) (length (wal_buffered (ws_buf w2))) = 0"
    unfolding A(3) A(5) by (simp add: pages_needed_def payload_size)
  obtain u w' qs where F: "kds_wal_flush demo_env (\<lambda>s. s) (t\<lparr>g_wal := Some w2\<rparr>) = (Inr (), u)" "log_inv u w' ([200] @ qs)"
    "log_stream u ([200] @ qs) = log_stream (t\<lparr>g_wal := Some w2\<rparr>) [200] @ wal_buffered (ws_buf w2)"
    "length qs = pages_needed (unat (tail_used (ws_buf w2))) (length (wal_buffered (ws_buf w2)))"
    using wal_flush_durable [OF demo_env_good A(2) lt A(4) ne] pn by auto
  then have "qs = []" using pn by simp
  with F t A show ?thesis by auto
qed

text \<open>Initialising the log takes the oldest staged page, makes it a one-page chain with an empty stream and an empty
  buffer, and recovery right after it (as the module's start-up does) finds nothing to replay, whatever an earlier run
  left on disk: the checkpoint LSN and the head of the chain are kept in memory only.\<close>

theorem wal_init_correct:
  assumes "env_good env" and "alloc_wf s" and "g_alloc s" and "kds_bdev s" and "ids_in_range s" and "ring_items s = j # fs"
  shows "\<exists>t w q. kds_wal_init env s = (Inr (), t) \<and> pmap s q = Some j \<and> log_inv t w [q] \<and> log_stream t [q] = []
    \<and> wal_buffered (ws_buf w) = [] \<and> ring_items t = fs \<and> kds_wal_recover env crc m n t = (Inr (Some 0), t)"
proof -
  obtain t q where t: "kds_wal_init env s = (Inr (), t)" "pmap s q = Some j" "log_inv t (first_wal q) [q]" "log_stream t [q] = []"
    "ring_items t = fs" using init_good [OF assms] by blast
  have "g_wal t = Some (first_wal q)" using t(3) by (simp add: log_inv_def)
  then have "kds_wal_recover env crc m n t = (Inr (Some 0), t)"
    by (simp add: kds_wal_recover_def call_defs kds_lsn_page_id_def)
  with t show ?thesis by (intro exI [of _ t] exI [of _ "first_wal q"] exI [of _ q]) simp
qed

theorem wal_init_correct_witness:
  "\<exists>t w q. kds_wal_init demo_env demo_wal0 = (Inr (), t) \<and> pmap demo_wal0 q = Some 5 \<and> log_inv t w [q] \<and> ring_items t = [6]"
  using wal_init_correct [OF demo_env_good demo_wal0_wf demo_wal0_simps(8,9) demo_wal0_range demo_wal0_ring(1), of demo_crc 1 1] by blast

text \<open>Recovery over a one-page log whose payload is a sequence of intact records returns how many of the records not
  older than the checkpoint are inserts, deletes or page initialisations, and changes no state.\<close>

theorem wal_recover_counts:
  assumes "pool_wf s" and "pmap s p = Some i" and "fr_kp (pframes s i) = Some kp" and "fr_page (pframes s i) = Some pg"
    and "g_wal s = Some w" and "kds_lsn_page_id (checkpointed_lsn w) = p" and "p \<noteq> 0"
    and "next_wal_page_id (wal_page_hdr pg) = 0"
    and "list_all (good_record crc (checkpointed_lsn w)) rs" and "page_log pg = rec_stream rs"
    and "unat (used_bytes (wal_page_hdr pg)) \<le> KDS_WAL_PAGE_PAYLOAD" and "length rs < m" and "0 < n"
  shows "kds_wal_recover env crc m n s = (Inr (Some (replayed (checkpointed_lsn w) rs)), s)"
  using recover_one_page [OF assms] .

text \<open>A page with one insert record, and the log state that points recovery at it.\<close>

definition demo_insert :: kds_wal_rec_hdr where
  "demo_insert = stamped demo_crc (first_wal 200) (zero_rec_hdr\<lparr>rec_type := rec_type_code KDS_WAL_REC_INSERT, body_len := 16\<rparr>)
     (enc_body_page_mod 200 0 0)"

definition demo_log_page :: pagebuf where
  "demo_log_page = set_wal_page_hdr (\<lambda>h. h\<lparr>used_bytes := 52\<rparr>)
     (wr (wal_page_init 1 0 (\<lambda>_. 0)) wal_page_payload (enc_rec_hdr demo_insert @ enc_body_page_mod 200 0 0))"

lemma demo_insert_ok: "rec_fits demo_insert (enc_body_page_mod 200 0 0)"
  "wal_rec_crc_ok demo_crc demo_insert (Some (enc_body_page_mod 200 0 0)) = Inr True" "length (enc_rec_hdr demo_insert) = 36"
  "rec_lsn demo_insert = kds_lsn_make 200 0" "modifies demo_insert"
proof -
  have f: "rec_fits (zero_rec_hdr\<lparr>rec_type := rec_type_code KDS_WAL_REC_INSERT, body_len := 16\<rparr>) (enc_body_page_mod 200 0 0)"
    by (simp add: rec_fits_def zero_rec_hdr_def rec_hdr_valid_def enc_body_page_mod_def KDS_PAGE_SIZE_def)
  show g: "rec_fits demo_insert (enc_body_page_mod 200 0 0)" unfolding demo_insert_def by (rule stamped_fits [OF f])
  show "wal_rec_crc_ok demo_crc demo_insert (Some (enc_body_page_mod 200 0 0)) = Inr True"
    unfolding demo_insert_def by (rule stamped_crc [OF f])
  show "length (enc_rec_hdr demo_insert) = 36" using g by (simp add: rec_fits_def length_enc_rec_hdr)
  show "rec_lsn demo_insert = kds_lsn_make 200 0" "modifies demo_insert"
    by (simp_all add: demo_insert_def next_lsn_def modifies_def)
qed

lemma demo_log_page_ok: "page_log demo_log_page = enc_rec_hdr demo_insert @ enc_body_page_mod 200 0 0"
  "used_bytes (wal_page_hdr demo_log_page) = 52" "next_wal_page_id (wal_page_hdr demo_log_page) = 0"
proof -
  let ?b = "enc_rec_hdr demo_insert @ enc_body_page_mod 200 0 0"
  have l: "length ?b = 52" using demo_insert_ok(3) by (simp add: enc_body_page_mod_def)
  have h: "wal_page_hdr (wr (wal_page_init 1 0 (\<lambda>_. 0)) wal_page_payload ?b) = wal_page_hdr (wal_page_init 1 0 (\<lambda>_. 0))"
    by (simp add: wal_page_hdr_def rd_wr_before wal_page_payload_def)
  show u: "used_bytes (wal_page_hdr demo_log_page) = 52" "next_wal_page_id (wal_page_hdr demo_log_page) = 0"
    by (simp_all add: demo_log_page_def h wal_page_hdr_init)
  show "page_log demo_log_page = ?b"
    unfolding page_log_def u using l payload_set [of _ "wr (wal_page_init 1 0 (\<lambda>_. 0)) wal_page_payload ?b" 0 52]
    by (simp add: demo_log_page_def rd_wr_same)
qed

theorem wal_recover_counts_witness:
  "\<exists>s :: wal_state. kds_wal_recover demo_env demo_crc 2 1 s = (Inr (Some 1), s)"
proof -
  let ?w = "(first_wal 200)\<lparr>checkpointed_lsn := kds_lsn_make 200 0\<rparr>"
  let ?s = "upd_frame 5 (\<lambda>f. f\<lparr>fr_page := Some demo_log_page\<rparr>) (demo_wal0\<lparr>g_wal := Some ?w\<rparr>)"
  have pw: "pool_wf ?s" using alloc_wf_pool [OF demo_wal0_wf]
    by (intro pool_wf_touch) (auto simp: demo_wal0_simps demo_frame_def frame_loaded_def)
  have k: "fr_kp (pframes ?s 5) = Some (demo_kp 200)" "pmap ?s 200 = Some 5" "fr_page (pframes ?s 5) = Some demo_log_page"
    by (simp_all add: demo_wal0_simps demo_frame_def)
  have gw: "g_wal ?s = Some ?w" by (simp add: upd_frame_def)
  have lp: "kds_lsn_page_id (kds_lsn_make 200 0) = 200" by (rule lsn_parts) simp
  have g: "list_all (good_record demo_crc (checkpointed_lsn ?w)) [(demo_insert, enc_body_page_mod 200 0 0)]"
    using demo_insert_ok by (simp add: good_record_def)
  have "kds_wal_recover demo_env demo_crc 2 1 ?s = (Inr (Some (replayed (checkpointed_lsn ?w) [(demo_insert, enc_body_page_mod 200 0 0)])), ?s)"
    by (rule wal_recover_counts [OF pw k(2,1,3) gw _ _ _ g])
       (use demo_log_page_ok lp in \<open>simp_all add: payload_size\<close>)
  then show ?thesis using demo_insert_ok(4,5) by (auto simp: before_checkpoint_def)
qed

text \<open>The flush loop splits records at page boundaries, but recovery cannot read such a log: on a full page whose last
  record continues on the next page, the checksum of that record is computed before its length is compared with the
  page, so recovery reads past the end of the page.\<close>

theorem recover_reads_past_page:
  assumes "list_all (good_record crc ckpt) rs" and "rec_hdr_valid h" and "\<not> before_checkpoint ckpt h"
    and "page_log pg = rec_stream rs @ enc_rec_hdr h @ bs" and "length (page_log pg) = KDS_WAL_PAGE_PAYLOAD"
    and "length bs < unat (body_len h)"
  shows "replay_page crc ckpt pg (length rs + Suc n) 0 count = Inl Fault"
  using replay_overrun [OF assms] .

definition demo_long :: kds_wal_rec_hdr where
  "demo_long = zero_rec_hdr\<lparr>rec_type := rec_type_code KDS_WAL_REC_INSERT, body_len := 8192\<rparr>"

definition demo_full_page :: pagebuf where
  "demo_full_page = set_wal_page_hdr (\<lambda>h. h\<lparr>used_bytes := 8119\<rparr>) (wr (\<lambda>_. 0) wal_page_payload (enc_rec_hdr demo_long))"

lemma demo_full_page_log: "page_log demo_full_page = enc_rec_hdr demo_long @ replicate 8083 0" "rec_hdr_valid demo_long"
proof -
  show v: "rec_hdr_valid demo_long" by (simp add: demo_long_def zero_rec_hdr_def rec_hdr_valid_def)
  have l: "length (enc_rec_hdr demo_long) = 36" by (rule length_enc_rec_hdr [OF v])
  have "rd (wr (\<lambda>_. 0) wal_page_payload (enc_rec_hdr demo_long)) wal_page_payload 8119 = enc_rec_hdr demo_long @ replicate 8083 0"
    using rd_append [of "wr (\<lambda>_. 0) wal_page_payload (enc_rec_hdr demo_long)" wal_page_payload 36 8083] l
    by (simp add: rd_wr_same rd_wr_after) (simp add: rd_def map_replicate_const)
  then show "page_log demo_full_page = enc_rec_hdr demo_long @ replicate 8083 0"
    using payload_set [of _ "wr (\<lambda>_. 0) wal_page_payload (enc_rec_hdr demo_long)" 0 8119]
    by (simp add: page_log_def demo_full_page_def)
qed

theorem recover_reads_past_page_witness: "replay_page demo_crc 0 demo_full_page 1 0 0 = Inl Fault"
  using recover_reads_past_page [of demo_crc 0 "[]" demo_long demo_full_page "replicate 8083 0" 0 0]
    demo_full_page_log length_enc_rec_hdr [OF demo_full_page_log(2)]
  by (simp add: payload_size before_checkpoint_def demo_long_def del: replay_page.simps)

text \<open>A record older than the checkpoint whose length field holds \<open>2 ^ 32 - 36\<close> (a corrupted log) makes recovery loop
  for ever: the 32-bit offset wraps back to the record, and no number of rounds is enough.\<close>

theorem recover_can_hang:
  assumes "rd pg wal_page_payload 36 = enc_rec_hdr h" and "rec_hdr_valid h" and "before_checkpoint ckpt h"
    and "body_len h = - 36" and "36 \<le> unat (used_bytes (wal_page_hdr pg))"
  shows "\<forall>n. replay_page crc ckpt pg n 0 count = Inr None"
  using replay_stuck [OF assms] by blast

definition demo_stuck :: kds_wal_rec_hdr where
  "demo_stuck = zero_rec_hdr\<lparr>rec_lsn := 1, body_len := - 36\<rparr>"

definition demo_stuck_page :: pagebuf where
  "demo_stuck_page = set_wal_page_hdr (\<lambda>h. h\<lparr>used_bytes := 36\<rparr>) (wr (\<lambda>_. 0) wal_page_payload (enc_rec_hdr demo_stuck))"

theorem recover_can_hang_witness: "\<forall>n. replay_page demo_crc 2 demo_stuck_page n 0 0 = Inr None"
proof (rule recover_can_hang)
  show v: "rec_hdr_valid demo_stuck" by (simp add: demo_stuck_def zero_rec_hdr_def rec_hdr_valid_def)
  show "rd demo_stuck_page wal_page_payload 36 = enc_rec_hdr demo_stuck"
    using payload_set [of _ "wr (\<lambda>_. 0) wal_page_payload (enc_rec_hdr demo_stuck)" 0 36] length_enc_rec_hdr [OF v]
    by (simp add: demo_stuck_page_def rd_wr_same)
  show "before_checkpoint 2 demo_stuck" "body_len demo_stuck = - 36"
    by (simp_all add: demo_stuck_def before_checkpoint_def KDS_LSN_INVALID_def)
  show "36 \<le> unat (used_bytes (wal_page_hdr demo_stuck_page))" by (simp add: demo_stuck_page_def)
qed

lemma ring_count_empty: "ring_items s = [] \<Longrightarrow> kds_ring_count s = 0"
  by (simp add: ring_items_def ring_len_def unat_eq_0)

lemma ring_count_wal [simp]: "kds_ring_count (s\<lparr>g_wal := x\<rparr>) = kds_ring_count s"
  by (rule ring_cong) simp_all

definition next_seg :: "kds_wal_state \<Rightarrow> kds_wal_state" where
  "next_seg w = w\<lparr>ws_buf := (ws_buf w)\<lparr>tail_seg_no := tail_seg_no (ws_buf w) + 1\<rparr>\<rparr>"

lemma grow_fails:
  assumes "log_inv s w ps" and "ring_items s = []"
  shows "grow_log env sync s = (fails ENOSPC, s\<lparr>g_wal := Some (next_seg w)\<rparr>)"
  using assms ring_count_empty [of s]
  by (simp add: log_inv_def grow_log_def upd_buf_eq the_wal_eq call_defs Let_def wal_alloc_page_def kds_page_alloc_def next_seg_def)

lemma two_n: "2 * n + 2 = Suc (Suc (2 * n))"
  by simp

lemma flush_drops:
  fixes s :: "'z wal_state_scheme"
  assumes env: "env_good env" and inv: "log_inv s w ps" and room: "unat (tail_used (ws_buf w)) < KDS_WAL_PAGE_PAYLOAD"
    and ok: "wal_buf_ok (ws_buf w)" and empty: "ring_items s = []"
    and over: "KDS_WAL_PAGE_PAYLOAD < unat (tail_used (ws_buf w)) + length (wal_buffered (ws_buf w))"
  shows "\<exists>t w'. kds_wal_flush env (\<lambda>s. s) s = (Inr (), t) \<and> g_wal t = Some w' \<and> wal_buffered (ws_buf w') = []
    \<and> log_stream t ps = log_stream s ps @ take (KDS_WAL_PAGE_PAYLOAD - unat (tail_used (ws_buf w))) (wal_buffered (ws_buf w))"
proof -
  let ?n = "wal_buf_used (ws_buf w)" and ?st = "flush_off (ws_buf w)"
  define c where "c = min ?n (ucast (of_nat KDS_WAL_PAGE_PAYLOAD - tail_used (ws_buf w) :: u32))"
  have w: "g_wal s = Some w" using inv by (simp add: log_inv_def)
  have n0: "?n \<noteq> 0" using over room by auto
  have cs: "unat c = KDS_WAL_PAGE_PAYLOAD - unat (tail_used (ws_buf w))"
    using chunk_size [of "tail_used (ws_buf w)" ?n] room over by (simp add: c_def)
  obtain t where t: "log_inv t (tail_at (tail_used (ws_buf w) + ucast c) w) ps" "ring_items t = ring_items s"
    "unat (tail_used (ws_buf w) + ucast c) = unat (tail_used (ws_buf w)) + unat c"
    "log_stream t ps = log_stream s ps @ map (\<lambda>k. wb_buf (ws_buf w) ((unat ?st + k) mod KDS_WAL_BUF_SIZE)) [0 ..< unat c]"
    "flush_loop env (Suc (Suc (2 * unat ?n))) ?st ?n s =
        (if KDS_WAL_PAGE_PAYLOAD \<le> unat (tail_used (ws_buf w) + ucast c)
         then sattempt (grow_log env True) (\<lambda>r. case r of Inl _ \<Rightarrow> sret ()
                | Inr _ \<Rightarrow> flush_loop env (Suc (2 * unat ?n)) (?st + c) (?n - c)) t
         else flush_loop env (Suc (2 * unat ?n)) (?st + c) (?n - c) t)"
    using flush_round [OF env inv room n0 _ c_def, of ?st "Suc (2 * unat ?n)"] ok by (auto simp: wal_buf_ok_def simp del: flush_loop.simps)
  let ?w = "next_seg (tail_at (tail_used (ws_buf w) + ucast c) w)"
  have g: "grow_log env True t = (fails ENOSPC, t\<lparr>g_wal := Some ?w\<rparr>)" using grow_fails [OF t(1)] t(2) empty by simp
  have "flush_loop env (2 * unat ?n + 2) ?st ?n s = (Inr (), t\<lparr>g_wal := Some ?w\<rparr>)"
    unfolding two_n t(5) using t(3) cs room g by (simp add: sattempt_def call_defs del: flush_loop.simps)
  then have "kds_wal_flush env (\<lambda>s. s) s = (Inr (), t\<lparr>g_wal := Some (flushed_wal ?w)\<rparr>)"
    using w n0 by (simp add: kds_wal_flush_def call_defs Let_def wal_buf_used_def [symmetric] upd_buf_eq upd_wal_def
        flushed_wal_def next_seg_def tail_at_def del: flush_loop.simps) (auto simp: wal_buf_used_def)
  moreover have "wal_buffered (ws_buf (flushed_wal ?w)) = []"
    by (simp add: flushed_wal_def wal_buffered_def wal_buf_used_def)
  moreover have "log_stream t ps = log_stream s ps @ take (unat c) (wal_buffered (ws_buf w))"
    using t(4) cs over by (simp add: wal_buffered_def take_map)
  ultimately show ?thesis using cs by auto
qed

lemma flush_races:
  fixes s :: "'z wal_state_scheme"
  assumes env: "env_good env" and inv: "log_inv s w ps" and ok: "wal_buf_ok (ws_buf w)" and pid: "unat (last ps) < 2 ^ 32"
    and small: "unat (tail_used (ws_buf w)) + length (wal_buffered (ws_buf w)) < KDS_WAL_PAGE_PAYLOAD"
    and fits: "rec_fits h bs" "rec_fits h2 bs2" and longer: "36 + length bs < length (wal_buffered (ws_buf w))"
  shows "\<exists>t w' h' t'. kds_wal_flush env (\<lambda>s. snd (kds_wal_append crc h (Some bs) s)) s = (Inr (), t)
    \<and> g_wal t = Some w' \<and> kds_wal_append crc h2 (Some bs2) t = (Inr h', t')
    \<and> rec_prev_lsn h' = prev_lsn w' \<and> rec_lsn h' < rec_prev_lsn h'"
proof -
  let ?n = "wal_buf_used (ws_buf w)" and ?st = "flush_off (ws_buf w)" and ?tu = "tail_used (ws_buf w)"
  define c where "c = min ?n (ucast (of_nat KDS_WAL_PAGE_PAYLOAD - ?tu :: u32))"
  have w: "g_wal s = Some w" "tail_page_id (ws_buf w) = last ps" using inv by (simp_all add: log_inv_def)
  have n0: "?n \<noteq> 0" using longer by auto
  have room: "unat ?tu < KDS_WAL_PAGE_PAYLOAD" using small by simp
  have cs: "c = ?n" using chunk_size [of ?tu ?n] small by (simp add: c_def word_unat_eq_iff)
  obtain t where t: "log_inv t (tail_at (?tu + ucast c) w) ps" "unat (?tu + ucast c) = unat ?tu + unat c"
    "flush_loop env (Suc (Suc (2 * unat ?n))) ?st ?n s =
        (if KDS_WAL_PAGE_PAYLOAD \<le> unat (?tu + ucast c)
         then sattempt (grow_log env True) (\<lambda>r. case r of Inl _ \<Rightarrow> sret ()
                | Inr _ \<Rightarrow> flush_loop env (Suc (2 * unat ?n)) (?st + c) (?n - c)) t
         else flush_loop env (Suc (2 * unat ?n)) (?st + c) (?n - c) t)"
    using flush_round [OF env inv room n0 _ c_def, of ?st "Suc (2 * unat ?n)"] ok by (auto simp: wal_buf_ok_def simp del: flush_loop.simps)
  let ?w = "tail_at (?tu + ucast c) w"
  have loop: "flush_loop env (2 * unat ?n + 2) ?st ?n s = (Inr (), t)"
    unfolding two_n t(3) using t(2) cs small by (simp add: call_defs)
  have gt: "g_wal t = Some ?w" using t(1) by (simp add: log_inv_def)
  have okw: "wal_buf_ok (ws_buf ?w)" "wal_buf_used (ws_buf ?w) = ?n" using ok by (simp_all add: wal_buf_ok_def wal_buf_used_def)
  have lim: "unat ?n < 8119" "length bs < 8119" using small longer by (simp_all add: payload_size)
  have r1: "unat (wal_buf_used (ws_buf ?w)) + 36 + length bs \<le> KDS_WAL_BUF_SIZE" using okw(2) lim by (simp add: KDS_WAL_BUF_SIZE_def)
  let ?v = "appended crc ?w h bs"
  note B = appended_buf [OF okw(1) fits(1) r1, of crc]
  have ap: "kds_wal_append crc h (Some bs) t = (Inr (stamped crc ?w h bs), t\<lparr>g_wal := Some ?v\<rparr>)"
    by (rule append_runs [OF gt okw(1) fits(1) r1])
  let ?x = "?v\<lparr>ws_buf := (ws_buf ?v)\<lparr>flush_off := write_off (ws_buf w)\<rparr>,
     flush_lsn := kds_lsn_make (tail_page_id (ws_buf ?v)) (tail_used (ws_buf ?v))\<rparr>"
  have fl: "kds_wal_flush env (\<lambda>s. snd (kds_wal_append crc h (Some bs) s)) s = (Inr (), t\<lparr>g_wal := Some ?x\<rparr>)"
    using w(1) n0 loop ap by (simp add: kds_wal_flush_def call_defs Let_def wal_buf_used_def [symmetric] upd_buf_eq upd_wal_def
        del: flush_loop.simps) (auto simp: wal_buf_used_def)
  have "wal_buf_used (ws_buf ?x) = wal_buf_used (ws_buf ?v) - ?n" by (simp add: wal_buf_used_def)
  then have ux: "unat (wal_buf_used (ws_buf ?x)) = 36 + length bs"
    using B(3) okw(2) by (simp add: unat_sub word_le_nat_alt)
  have okx: "wal_buf_ok (ws_buf ?x)" using ux lim by (simp add: wal_buf_ok_def KDS_WAL_BUF_SIZE_def)
  have gx: "g_wal (t\<lparr>g_wal := Some ?x\<rparr>) = Some ?x" by simp
  have r2: "unat (wal_buf_used (ws_buf ?x)) + 36 + length bs2 \<le> KDS_WAL_BUF_SIZE"
    using ux lim fits(2) by (simp add: rec_fits_def KDS_WAL_BUF_SIZE_def KDS_PAGE_SIZE_def)
  note ap2 = append_runs [OF gx okx fits(2) r2, of crc]
  have "unat (next_lsn (ws_buf ?w)) = unat (last ps) * 2 ^ 32 + (unat (?tu + ucast c) + unat ?n)"
    using unat_next_lsn [of "ws_buf ?w"] pid w(2) t(2) cs lim small okw(2) by (simp add: payload_size)
  moreover have "unat (next_lsn (ws_buf ?x)) = unat (last ps) * 2 ^ 32 + (unat (?tu + ucast c) + (36 + length bs))"
    using unat_next_lsn [of "ws_buf ?x"] pid w(2) t(2) cs lim small ux by (simp add: payload_size)
  ultimately have "next_lsn (ws_buf ?x) < next_lsn (ws_buf ?w)" using longer by (simp add: word_less_nat_alt)
  then show ?thesis using fl gx ap2 by (intro exI [of _ "t\<lparr>g_wal := Some ?x\<rparr>"] exI [of _ ?x]) auto
qed

lemma fsync_keeps:
  fixes s :: "'z wal_state_scheme"
  assumes env: "env_good env" and dev: "kds_bdev s" and run: "kds_superblock_fsync env s = (r, s')"
  shows "r \<noteq> Inl Panic \<and> r \<noteq> Inl Fault \<and> pframes s' = pframes s \<and> pmap s' = pmap s \<and> free_frames s' = free_frames s
    \<and> nr_free s' = nr_free s \<and> g_pool s' = g_pool s \<and> kds_bdev s' = kds_bdev s \<and> meta_state.more s' = meta_state.more s
    \<and> (\<forall>q. unat q < 2 ^ 60 \<longrightarrow> q \<noteq> 128 \<longrightarrow> disk_page (disk s') q = disk_page (disk s) q)"
proof (cases "superblock s = None \<or> sb_io_page s = None")
  case True
  then show ?thesis using run by (auto simp: kds_superblock_fsync_def call_defs split: option.splits)
next
  case False
  then obtain sb pg where sb: "superblock s = Some sb" "sb_io_page s = Some pg" by auto
  let ?io = "wr pg 0 (enc_superblock sb)"
  let ?s = "s\<lparr>sb_io_page := Some ?io\<rparr>"
  obtain u where u: "kds_write_logical_page env META_SUPERBLOCK_SECTOR ?io ?s = (Inr (), u)"
    using write_logical_good [OF env, of ?s] dev by auto
  have c: "same_dev ?s u" "disk u = wr (disk s) (sector_byte (kds_page_sector 128)) (rd ?io 0 KDS_PAGE_SIZE)"
    using write_logical_cases [OF env_good_page_size [OF env] u] by (simp_all add: superblock_sector)
  have "disk_page (disk u) q = disk_page (disk s) q" if "unat q < 2 ^ 60" "q \<noteq> 128" for q
    unfolding c(2) using that by (intro disk_page_write_other) auto
  then show ?thesis using run u sb c(1) by (auto simp: kds_superblock_fsync_def call_defs Let_def same_dev_def)
qed

text \<open>A write of the superblock leaves the log alone, unless a page of the log shares its sectors.\<close>

lemma log_inv_fsync:
  fixes s :: "'z wal_state_scheme"
  assumes env: "env_good env" and inv: "log_inv s w ps" and free: "pmap s 128 = None" and run: "kds_superblock_fsync env s = (r, s')"
  shows "r \<noteq> Inl Panic \<and> r \<noteq> Inl Fault \<and> log_inv s' w ps \<and> log_stream s' qs = log_stream s qs \<and> ring_items s' = ring_items s"
proof -
  have dev: "kds_bdev s" "ids_in_range s" using inv by (simp_all add: log_inv_def)
  have K: "r \<noteq> Inl Panic" "r \<noteq> Inl Fault" "pframes s' = pframes s" "pmap s' = pmap s" "free_frames s' = free_frames s" "nr_free s' = nr_free s"
    "g_pool s' = g_pool s" "kds_bdev s' = kds_bdev s" "meta_state.more s' = meta_state.more s"
    "\<And>q. unat q < 2 ^ 60 \<Longrightarrow> q \<noteq> 128 \<Longrightarrow> disk_page (disk s') q = disk_page (disk s) q"
    using fsync_keeps [OF env dev(1) run] by auto
  note A = alloc_of_meta_more [OF K(9)] and R = ring_cong [OF alloc_of_meta_more(1-3) [OF K(9)]]
  have w: "g_wal s' = g_wal s" using K(9) by (cases s, cases s') simp
  have c: "cpage s' = cpage s" using K(3,4) by (intro ext) (simp add: cpage_def split: option.split)
  have lp: "log_page s' p" if "log_page s p" for p
    using that K(3,4,10) R(1) c free dev(2) by (fastforce simp: log_page_def ids_in_range_def)
  have "alloc_wf s'" using inv pool_wf_cong [OF K(3-7)] R K(4) by (simp add: log_inv_def alloc_wf_def)
  then have "log_inv s' w ps" using inv lp A(4) K(4,8) c w by (simp add: log_inv_def ids_in_range_def)
  then show ?thesis using K(1,2) R(1) c by (simp add: log_stream_def)
qed

definition ckpt_hdr :: kds_wal_rec_hdr where
  "ckpt_hdr = zero_rec_hdr\<lparr>rec_type := rec_type_code KDS_WAL_REC_CHECKPOINT, body_len := 16\<rparr>"

lemma ckpt_fits: "rec_fits ckpt_hdr (enc_body_checkpoint lsn time)" "length (enc_body_checkpoint lsn time) = 16"
  by (simp_all add: ckpt_hdr_def rec_fits_def zero_rec_hdr_def rec_hdr_valid_def enc_body_checkpoint_def KDS_PAGE_SIZE_def)

lemma checkpoint_runs:
  fixes s :: "'z wal_state_scheme"
  assumes env: "env_good env" and inv: "log_inv s w ps" and room: "unat (tail_used (ws_buf w)) < KDS_WAL_PAGE_PAYLOAD"
    and ok: "wal_buf_ok (ws_buf w)" and sz: "length (wal_buffered (ws_buf w)) + 52 \<le> KDS_WAL_BUF_SIZE"
    and pages: "pages_needed (unat (tail_used (ws_buf w))) (length (wal_buffered (ws_buf w)) + 52) \<le> length (ring_items s)"
    and free: "pmap s 128 = None"
  shows "\<exists>t w' qs h. kds_wal_checkpoint env crc lsn s = (Inr (), t) \<and> log_inv t w' (ps @ qs)
    \<and> length qs = pages_needed (unat (tail_used (ws_buf w))) (length (wal_buffered (ws_buf w)) + 52)
    \<and> map (pmap s) qs = map Some (take (length qs) (ring_items s)) \<and> ring_items t = drop (length qs) (ring_items s)
    \<and> rec_type h = rec_type_code KDS_WAL_REC_CHECKPOINT \<and> rec_prev_lsn h = prev_lsn w
    \<and> log_stream t (ps @ qs) = log_stream s ps @ wal_buffered (ws_buf w) @ enc_rec_hdr h
         @ enc_body_checkpoint lsn (ke_time env (nio s))
    \<and> wal_buffered (ws_buf w') = [] \<and> flush_lsn w' = kds_lsn_make (last (ps @ qs)) (tail_used (ws_buf w'))
    \<and> checkpointed_lsn w' = flush_lsn w' \<and> \<not> kds_wal_need_checkpoint w' (flush_lsn w')"
proof -
  let ?b = "enc_body_checkpoint lsn (ke_time env (nio s))"
  let ?w = "appended crc w ckpt_hdr ?b" and ?h = "stamped crc w ckpt_hdr ?b"
  have w: "g_wal s = Some w" using inv by (simp add: log_inv_def)
  have r: "unat (wal_buf_used (ws_buf w)) + 36 + length ?b \<le> KDS_WAL_BUF_SIZE" using sz ckpt_fits(2) by simp
  note A = append_runs [OF w ok ckpt_fits(1) r, of crc]
  note B = appended_buf [OF ok ckpt_fits(1) r, of crc]
  let ?s = "s\<lparr>g_wal := Some ?w\<rparr>"
  have inv1: "log_inv ?s ?w ps" by (rule log_inv_buffer [OF inv]) simp_all
  have len: "length (wal_buffered (ws_buf ?w)) = length (wal_buffered (ws_buf w)) + 52" using B(3) ckpt_fits(2) by simp
  have ne: "wal_buffered (ws_buf ?w) \<noteq> []" using len by (metis add_is_0 list.size(3) zero_neq_numeral)
  have rm: "unat (tail_used (ws_buf ?w)) < KDS_WAL_PAGE_PAYLOAD" using room by simp
  have pg: "pages_needed (unat (tail_used (ws_buf ?w))) (length (wal_buffered (ws_buf ?w))) \<le> length (ring_items ?s)"
    unfolding len using pages by simp
  obtain t w1 qs where F: "kds_wal_flush env (\<lambda>s. s) ?s = (Inr (), t)" "log_inv t w1 (ps @ qs)" "wal_buffered (ws_buf w1) = []"
    "log_stream t (ps @ qs) = log_stream ?s ps @ wal_buffered (ws_buf ?w)"
    "flush_lsn w1 = kds_lsn_make (last (ps @ qs)) (tail_used (ws_buf w1))"
    "pmap t = pmap ?s" "map (pmap ?s) qs = map Some (take (length qs) (ring_items ?s))" "ring_items t = drop (length qs) (ring_items ?s)"
    "length qs = pages_needed (unat (tail_used (ws_buf ?w))) (length (wal_buffered (ws_buf ?w)))"
    using flush_runs [OF env inv1 rm B(1) ne pg] by blast
  have g1: "g_wal t = Some w1" using F(2) by (simp add: log_inv_def)
  let ?x = "w1\<lparr>checkpointed_lsn := flush_lsn w1\<rparr>"
  let ?t = "t\<lparr>g_wal := Some ?x\<rparr>"
  obtain r2 u where u: "kds_superblock_fsync env ?t = (r2, u)" by fastforce
  have "log_inv ?t ?x (ps @ qs)" by (rule log_inv_buffer [OF F(2)]) simp_all
  from log_inv_fsync [OF env this _ u, of "ps @ qs"] have K: "r2 \<noteq> Inl Panic" "r2 \<noteq> Inl Fault" "log_inv u ?x (ps @ qs)"
    "log_stream u (ps @ qs) = log_stream t (ps @ qs)" "ring_items u = ring_items t"
    using free F(6) by (simp_all add: log_stream_def cpage_def)
  have "kds_wal_checkpoint env crc lsn s = (Inr (), u)"
    using A F(1) g1 u K(1,2)
    by (auto simp: kds_wal_checkpoint_def ckpt_hdr_def call_defs sattempt_def kds_wal_get_flush_lsn_def
        kds_meta_set_wal_checkpoint_lsn_def upd_wal_def split: sum.splits failure.splits)
  moreover have "log_stream u (ps @ qs) = log_stream s ps @ wal_buffered (ws_buf w) @ enc_rec_hdr ?h @ ?b" using F(4) B(2) K(4) by simp
  moreover have "wal_buffered (ws_buf ?x) = []" using F(3) by simp
  moreover have "length qs = pages_needed (unat (tail_used (ws_buf w))) (length (wal_buffered (ws_buf w)) + 52)" using F(9) len by simp
  ultimately show ?thesis
    using K(3,5) F(5,7,8) by (intro exI [of _ u] exI [of _ ?x] exI [of _ qs] exI [of _ ?h])
      (simp add: kds_wal_need_checkpoint_def ckpt_hdr_def)
qed

text \<open>C18: A checkpoint, run alone by a kernel that fails nothing, when the ring has room for its record (52 bytes), the tail page is not full, as many pages are staged as the bytes need, and page 128, whose sectors are those of the superblock, is not cached. It appends a checkpoint record behind everything buffered and makes all of it part of the log: the chain gains the next staged pages, stays linked, and every page of it that holds log bytes is on disk as it is in memory. The buffer is empty, and the checkpoint LSN moves to the end of the log, so that no further checkpoint is due until something is appended.\<close>

theorem wal_checkpoint_correct:
  assumes "env_good env" and "log_inv s w ps" and "unat (tail_used (ws_buf w)) < KDS_WAL_PAGE_PAYLOAD"
    and "wal_buf_ok (ws_buf w)" and "length (wal_buffered (ws_buf w)) + 52 \<le> KDS_WAL_BUF_SIZE"
    and "pages_needed (unat (tail_used (ws_buf w))) (length (wal_buffered (ws_buf w)) + 52) \<le> length (ring_items s)"
    and "pmap s 128 = None"
  shows "\<exists>t w' qs h. kds_wal_checkpoint env crc lsn s = (Inr (), t) \<and> log_inv t w' (ps @ qs)
    \<and> length qs = pages_needed (unat (tail_used (ws_buf w))) (length (wal_buffered (ws_buf w)) + 52)
    \<and> map (pmap s) qs = map Some (take (length qs) (ring_items s)) \<and> ring_items t = drop (length qs) (ring_items s)
    \<and> rec_type h = rec_type_code KDS_WAL_REC_CHECKPOINT \<and> rec_prev_lsn h = prev_lsn w
    \<and> log_stream t (ps @ qs) = log_stream s ps @ wal_buffered (ws_buf w) @ enc_rec_hdr h
         @ enc_body_checkpoint lsn (ke_time env (nio s))
    \<and> wal_buffered (ws_buf w') = [] \<and> flush_lsn w' = kds_lsn_make (last (ps @ qs)) (tail_used (ws_buf w'))
    \<and> checkpointed_lsn w' = flush_lsn w' \<and> \<not> kds_wal_need_checkpoint w' (flush_lsn w')"
  using checkpoint_runs [OF assms] .

theorem wal_checkpoint_correct_witness:
  "\<exists>s t w' h. kds_wal_init demo_env demo_wal0 = (Inr (), s) \<and> kds_wal_checkpoint demo_env demo_crc 0 s = (Inr (), t)
    \<and> log_inv t w' [200] \<and> log_stream t [200] = enc_rec_hdr h @ enc_body_checkpoint 0 (ke_time demo_env (nio s)) \<and> checkpointed_lsn w' = flush_lsn w'"
proof -
  obtain s where s: "kds_wal_init demo_env demo_wal0 = (Inr (), s)" "log_inv s (first_wal 200) [200]" "log_stream s [200] = []" "pmap s = pmap demo_wal0"
    using demo_wal_init by blast
  have p: "pages_needed (unat (tail_used (ws_buf (first_wal 200)))) (length (wal_buffered (ws_buf (first_wal 200))) + 52) = 0"
    by (simp add: pages_needed_def payload_size del: length_wal_buffered)
  have f: "pmap s 128 = None" by (simp add: s(4) demo_wal0_simps)
  obtain t w' h where t: "kds_wal_checkpoint demo_env demo_crc 0 s = (Inr (), t)" "log_inv t w' [200]" "checkpointed_lsn w' = flush_lsn w'"
    "log_stream t [200] = enc_rec_hdr h @ enc_body_checkpoint 0 (ke_time demo_env (nio s))"
    using wal_checkpoint_correct [OF demo_env_good s(2) _ _ _ _ f, of demo_crc 0] p s(3)
    by (auto simp: payload_size KDS_WAL_BUF_SIZE_def)
  with s(1) show ?thesis by blast
qed

text \<open>When the tail page fills up during a flush and the allocator has no staged page, the loop stops but the flush
  still reports success and marks everything as flushed: the log ends with the bytes that fitted and the rest of the
  buffered records is lost.\<close>

theorem wal_flush_loses_records:
  assumes "env_good env" and "log_inv s w ps" and "unat (tail_used (ws_buf w)) < KDS_WAL_PAGE_PAYLOAD"
    and "wal_buf_ok (ws_buf w)" and "ring_items s = []"
    and "KDS_WAL_PAGE_PAYLOAD < unat (tail_used (ws_buf w)) + length (wal_buffered (ws_buf w))"
  shows "\<exists>t w'. kds_wal_flush env (\<lambda>s. s) s = (Inr (), t) \<and> g_wal t = Some w' \<and> wal_buffered (ws_buf w') = []
    \<and> log_stream t ps = log_stream s ps @ take (KDS_WAL_PAGE_PAYLOAD - unat (tail_used (ws_buf w))) (wal_buffered (ws_buf w))"
  using flush_drops [OF assms] .

text \<open>A log whose buffer holds \<open>n\<close> bytes.\<close>

definition filled_wal :: "u64 \<Rightarrow> kds_wal_state" where
  "filled_wal n = (first_wal 200)\<lparr>ws_buf := (ws_buf (first_wal 200))\<lparr>write_off := n\<rparr>\<rparr>"

lemma filled_wal_simps [simp]:
  "tail_used (ws_buf (filled_wal n)) = 0" "tail_page_id (ws_buf (filled_wal n)) = 200" "wal_buf_used (ws_buf (filled_wal n)) = n"
  by (simp_all add: filled_wal_def first_wal_def wal_buf_used_def)

theorem wal_flush_loses_records_witness:
  "\<exists>(s :: wal_state) t w'. kds_wal_flush demo_env (\<lambda>s. s) s = (Inr (), t) \<and> g_wal t = Some w' \<and> wal_buffered (ws_buf w') = []
    \<and> length (log_stream t [200]) = length (log_stream s [200]) + 8119 \<and> g_wal s = Some (filled_wal 9000)"
proof -
  obtain s :: wal_state where s: "log_inv s (first_wal 200) [200]" "ring_items s = [6]" using demo_wal_init by blast
  obtain t :: wal_state where t: "log_inv t (first_wal 200) [200]" "ring_items t = []" using log_alloc [OF s, of 0 0] by blast
  let ?t = "t\<lparr>g_wal := Some (filled_wal 9000)\<rparr>"
  have inv: "log_inv ?t (filled_wal 9000) [200]" by (rule log_inv_buffer [OF t(1)]) simp_all
  obtain u w' where u: "kds_wal_flush demo_env (\<lambda>s. s) ?t = (Inr (), u)" "g_wal u = Some w'" "wal_buffered (ws_buf w') = []"
    "log_stream u [200] = log_stream ?t [200] @ take 8119 (wal_buffered (ws_buf (filled_wal 9000)))"
    using wal_flush_loses_records [OF demo_env_good inv] t(2) by (auto simp: payload_size wal_buf_ok_def KDS_WAL_BUF_SIZE_def)
  moreover have "length (log_stream u [200]) = length (log_stream ?t [200]) + 8119" unfolding u(4) by simp
  ultimately show ?thesis by (intro exI [of _ ?t] exI [of _ u] exI [of _ w']) simp
qed

text \<open>LSNs can go backwards. A flush moves the fill of the tail page forward before it moves the flush offset, without
  the lock that the appenders take; a record appended in between counts the buffered bytes twice, and the next record
  after the flush gets a smaller LSN than the one its back link names.\<close>

theorem wal_lsn_race:
  assumes "env_good env" and "log_inv s w ps" and "wal_buf_ok (ws_buf w)" and "unat (last ps) < 2 ^ 32"
    and "unat (tail_used (ws_buf w)) + length (wal_buffered (ws_buf w)) < KDS_WAL_PAGE_PAYLOAD"
    and "rec_fits h bs" and "rec_fits h2 bs2" and "36 + length bs < length (wal_buffered (ws_buf w))"
  shows "\<exists>t w' h' t'. kds_wal_flush env (\<lambda>s. snd (kds_wal_append crc h (Some bs) s)) s = (Inr (), t)
    \<and> g_wal t = Some w' \<and> kds_wal_append crc h2 (Some bs2) t = (Inr h', t')
    \<and> rec_prev_lsn h' = prev_lsn w' \<and> rec_lsn h' < rec_prev_lsn h'"
  using flush_races [OF assms] .

theorem wal_lsn_race_witness:
  "\<exists>(s :: wal_state) t h' t'. kds_wal_flush demo_env (\<lambda>s. snd (kds_wal_append demo_crc (fst (demo_rec 7)) (Some (snd (demo_rec 7))) s)) s = (Inr (), t)
    \<and> kds_wal_append demo_crc (fst (demo_rec 8)) (Some (snd (demo_rec 8))) t = (Inr h', t') \<and> rec_lsn h' < rec_prev_lsn h'"
proof -
  obtain s :: wal_state where s: "log_inv s (first_wal 200) [200]" using demo_wal_init by blast
  let ?s = "s\<lparr>g_wal := Some (filled_wal 100)\<rparr>"
  have inv: "log_inv ?s (filled_wal 100) [200]" by (rule log_inv_buffer [OF s]) simp_all
  have f: "rec_fits (fst (demo_rec x)) (snd (demo_rec x))" "length (snd (demo_rec x)) = 8" for x
    using demo_rec_fits(1) [of x x] by (simp_all add: demo_rec_def enc_body_xact_def)
  have ok: "wal_buf_ok (ws_buf (filled_wal 100))" by (simp add: wal_buf_ok_def KDS_WAL_BUF_SIZE_def)
  show ?thesis
    using wal_lsn_race [OF demo_env_good inv ok _ _ f(1) [of 7] f(1) [of 8], of demo_crc] f(2) by (auto simp: payload_size)
qed

end
