(* ===== verification/Kds_Types.thy ===== *)
theory Kds_Types
  imports Kds_Prelude
begin

text \<open>
  The scalar type registry (\<^verbatim>\<open>kernel/kds/types.c\<close>, \<^verbatim>\<open>kds_types.h\<close>): for every column type an
  encoder from text to bytes, a decoder from bytes to text, an optional comparison, and the two
  table lookups. A C string is a \<open>string\<close>; the bytes behind a pointer are a byte list. An encoder
  returns the bytes it wrote (\<^verbatim>\<open>*out_len\<close> is their number), a decoder the characters it wrote
  (its return value is their number). \<^verbatim>\<open>kstrtoll\<close> belongs to the Linux kernel and is a
  parameter of the integer encoders.
\<close>

section \<open>C library helpers the encoders use\<close>

fun show_nat :: "nat \<Rightarrow> string" where
  "show_nat n = (if n < 10 then [char_of (48 + n)] else show_nat (n div 10) @ [char_of (48 + n mod 10)])"

declare show_nat.simps [simp del]

definition show_int :: "int \<Rightarrow> string" where
  "show_int v = (if v < 0 then CHR ''-'' # show_nat (nat (- v)) else show_nat (nat v))"

text \<open>\<^verbatim>\<open>%0*lld\<close>: zero padding to a field width, after the sign.\<close>

definition zero_pad :: "nat \<Rightarrow> string \<Rightarrow> string" where
  "zero_pad w s = replicate (w - length s) (CHR ''0'') @ s"

definition show_int_pad :: "nat \<Rightarrow> int \<Rightarrow> string" where
  "show_int_pad w v =
     (if v < 0 then CHR ''-'' # zero_pad (w - 1) (show_nat (nat (- v)))
      else zero_pad w (show_nat (nat v)))"

text \<open>\<^verbatim>\<open>scnprintf\<close> writes at most \<open>sz - 1\<close> characters and returns how many it wrote.\<close>

definition scnprintf :: "nat \<Rightarrow> string \<Rightarrow> string" where
  "scnprintf sz s = take (sz - 1) s"

definition is_digit :: "char \<Rightarrow> bool" where
  "is_digit c \<longleftrightarrow> (48::nat) \<le> of_char c \<and> of_char c \<le> (57::nat)"

definition digit_val :: "char \<Rightarrow> nat" where
  "digit_val c = of_char c - 48"

definition bytes_of :: "string \<Rightarrow> u8 list" where
  "bytes_of s = map of_char s"

definition string_of :: "u8 list \<Rightarrow> string" where
  "string_of bs = map (\<lambda>b. char_of (unat b)) bs"

section \<open>Hexadecimal helpers\<close>

definition hex_nibble :: "char \<Rightarrow> int" where
  "hex_nibble c =
     (let v = of_char c :: int in
      if 48 \<le> v \<and> v \<le> 57 then v - 48
      else if 97 \<le> v \<and> v \<le> 102 then v - 97 + 10
      else if 65 \<le> v \<and> v \<le> 70 then v - 65 + 10
      else -1)"

fun hex_pairs :: "string \<Rightarrow> u8 list res" where
  "hex_pairs (c # d # s) =
     (let hi = hex_nibble c; lo = hex_nibble d in
      if hi < 0 \<or> lo < 0 then fails EINVAL
      else case hex_pairs s of Inl e \<Rightarrow> Inl e
           | Inr bs \<Rightarrow> Inr (word_of_int (push_bit 4 hi OR lo) # bs))"
| "hex_pairs s = Inr []"

definition parse_hex_bytes :: "string \<Rightarrow> nat \<Rightarrow> u8 list res" where
  "parse_hex_bytes str out_len =
     (if length str \<noteq> out_len * 2 then fails EINVAL else hex_pairs str)"

definition hexdigits :: string where
  "hexdigits = ''0123456789abcdef''"

definition format_hex_bytes :: "u8 list \<Rightarrow> string" where
  "format_hex_bytes bs =
     concat (map (\<lambda>b. [hexdigits ! unat (drop_bit 4 b), hexdigits ! unat (b AND 0xf)]) bs)"

section \<open>Fixed-width signed integers\<close>

definition encode_int_generic ::
  "(string \<Rightarrow> int res) \<Rightarrow> string \<Rightarrow> nat \<Rightarrow> nat \<Rightarrow> int \<Rightarrow> int \<Rightarrow> u8 list res" where
  "encode_int_generic kstrtoll str_val buf_size width mn mx =
     (if buf_size < width then fails ENOSPC
      else case kstrtoll str_val of
        Inl e \<Rightarrow> Inl e
      | Inr v \<Rightarrow>
          if v < mn \<or> mx < v then fails ERANGE
          else if width = 1 then Inr [word_of_int v]
          else if width = 2 then Inr (enc16 (word_of_int v))
          else if width = 4 then Inr (enc32 (word_of_int v))
          else if width = 8 then Inr (enc64 (word_of_int v))
          else fails EINVAL)"

text \<open>The value a signed load of \<open>width\<close> bytes gives; \<open>None\<close> for a width the switch has no case for.\<close>

definition load_int :: "nat \<Rightarrow> u8 list \<Rightarrow> int option" where
  "load_int width bs =
     (if width = 1 then Some (sint (hd bs))
      else if width = 2 then Some (sint (dec16 bs))
      else if width = 4 then Some (sint (dec32 bs))
      else if width = 8 then Some (sint (dec64 bs))
      else None)"

definition decode_int_generic :: "u8 list \<Rightarrow> nat \<Rightarrow> nat \<Rightarrow> nat \<Rightarrow> string res" where
  "decode_int_generic buf len out_size width =
     (if len \<noteq> width then fails EINVAL
      else case buf_rd buf width of
        None \<Rightarrow> Inl Fault
      | Some bs \<Rightarrow>
          (case load_int width bs of
             None \<Rightarrow> fails EINVAL
           | Some v \<Rightarrow> Inr (scnprintf out_size (show_int v))))"

definition encode_int8 where "encode_int8 k s bs = encode_int_generic k s bs 1 (-128) 127"
definition decode_int8 where "decode_int8 b l os = decode_int_generic b l os 1"
definition encode_int16 where "encode_int16 k s bs = encode_int_generic k s bs 2 (-32768) 32767"
definition decode_int16 where "decode_int16 b l os = decode_int_generic b l os 2"
definition encode_int32 where
  "encode_int32 k s bs = encode_int_generic k s bs 4 (-2147483648) 2147483647"
definition decode_int32 where "decode_int32 b l os = decode_int_generic b l os 4"
definition encode_int64 where
  "encode_int64 k s bs = encode_int_generic k s bs 8 (-9223372036854775808) 9223372036854775807"
definition decode_int64 where "decode_int64 b l os = decode_int_generic b l os 8"

definition compare_int64_generic :: "u8 list \<Rightarrow> nat \<Rightarrow> u8 list \<Rightarrow> nat \<Rightarrow> nat \<Rightarrow> int" where
  "compare_int64_generic a a_len b b_len width =
     (if a_len \<noteq> width \<or> b_len \<noteq> width then 0
      else let av = (case load_int width a of None \<Rightarrow> 0 | Some v \<Rightarrow> v);
               bv = (case load_int width b of None \<Rightarrow> 0 | Some v \<Rightarrow> v)
           in of_bool (bv < av) - of_bool (av < bv))"

definition compare_int8 where "compare_int8 a al b bl = compare_int64_generic a al b bl 1"
definition compare_int16 where "compare_int16 a al b bl = compare_int64_generic a al b bl 2"
definition compare_int32 where "compare_int32 a al b bl = compare_int64_generic a al b bl 4"
definition compare_int64 where "compare_int64 a al b bl = compare_int64_generic a al b bl 8"

section \<open>Bool, varchar and float\<close>

definition encode_bool :: "string \<Rightarrow> nat \<Rightarrow> u8 list res" where
  "encode_bool str_val buf_size =
     (if buf_size < 1 then fails ENOSPC
      else Inr [if str_val = ''1'' \<or> str_val = ''true'' then 1 else 0])"

definition decode_bool :: "u8 list \<Rightarrow> nat \<Rightarrow> nat \<Rightarrow> string res" where
  "decode_bool buf len out_size =
     (if len \<noteq> 1 then fails EINVAL
      else case buf_rd buf 1 of
        None \<Rightarrow> Inl Fault
      | Some bs \<Rightarrow> Inr (scnprintf out_size (if hd bs \<noteq> 0 then ''true'' else ''false'')))"

definition U16_MAX :: nat where "U16_MAX = 65535"

definition encode_varchar :: "string \<Rightarrow> nat \<Rightarrow> u8 list res" where
  "encode_varchar str_val buf_size =
     (let len = length str_val in
      if U16_MAX < len \<or> buf_size < len then fails ENOSPC else Inr (bytes_of str_val))"

definition decode_varchar :: "u8 list \<Rightarrow> nat \<Rightarrow> nat \<Rightarrow> string res" where
  "decode_varchar buf len out_size =
     (if out_size \<le> len then fails ENOSPC
      else case buf_rd buf len of None \<Rightarrow> Inl Fault | Some bs \<Rightarrow> Inr (string_of bs))"

definition encode_float :: "string \<Rightarrow> nat \<Rightarrow> u8 list res" where
  "encode_float str_val buf_size =
     (if buf_size < 4 then fails ENOSPC
      else case parse_hex_bytes str_val 4 of Inl _ \<Rightarrow> fails EINVAL | Inr bs \<Rightarrow> Inr bs)"

definition decode_float :: "u8 list \<Rightarrow> nat \<Rightarrow> nat \<Rightarrow> string res" where
  "decode_float buf len out_size =
     (if len \<noteq> 4 then fails EINVAL
      else if out_size < 9 then fails ENOSPC
      else case buf_rd buf 4 of None \<Rightarrow> Inl Fault | Some bs \<Rightarrow> Inr (format_hex_bytes bs))"

section \<open>Decimal: fixed point on a signed 64-bit integer\<close>

definition KDS_DECIMAL_SCALE :: nat where "KDS_DECIMAL_SCALE = 4"
definition KDS_DECIMAL_SCALE_MUL :: int where "KDS_DECIMAL_SCALE_MUL = 10000"

text \<open>The integer-part loop: \<^verbatim>\<open>int_part = int_part * 10 + (*p - '0')\<close>, wrapping at 64 bits.\<close>

fun scan_int :: "u64 \<Rightarrow> string \<Rightarrow> u64 \<times> string" where
  "scan_int acc [] = (acc, [])"
| "scan_int acc (c # s) =
     (if is_digit c then scan_int (acc * 10 + of_nat (digit_val c)) s else (acc, c # s))"

text \<open>The fraction loop stops after \<open>KDS_DECIMAL_SCALE\<close> digits; \<open>n\<close> is \<^verbatim>\<open>frac_digits\<close>.\<close>

fun scan_frac :: "u64 \<Rightarrow> nat \<Rightarrow> string \<Rightarrow> u64 \<times> nat \<times> string" where
  "scan_frac acc n [] = (acc, n, [])"
| "scan_frac acc n (c # s) =
     (if is_digit c \<and> n < KDS_DECIMAL_SCALE
      then scan_frac (acc * 10 + of_nat (digit_val c)) (Suc n) s else (acc, n, c # s))"

definition encode_decimal :: "string \<Rightarrow> nat \<Rightarrow> u8 list res" where
  "encode_decimal str_val buf_size =
     (if buf_size < 8 then fails ENOSPC
      else
        let (neg, p) =
              (if str_val \<noteq> [] \<and> hd str_val = CHR ''-'' then (True, tl str_val)
               else if str_val \<noteq> [] \<and> hd str_val = CHR ''+'' then (False, tl str_val)
               else (False, str_val)) in
        if p = [] then fails EINVAL
        else
          let (int_part, p1) = scan_int 0 p;
              (frac_part, frac_digits, p2) =
                (if p1 \<noteq> [] \<and> hd p1 = CHR ''.''
                 then let (fp, n, s') = scan_frac 0 0 (tl p1) in (fp, n, dropWhile is_digit s')
                 else (0, 0, p1))
          in if p2 \<noteq> [] then fails EINVAL
             else
               let frac = frac_part * 10 ^ (KDS_DECIMAL_SCALE - frac_digits);
                   result = int_part * word_of_int KDS_DECIMAL_SCALE_MUL + frac
               in Inr (enc64 (if neg then - result else result)))"

text \<open>C division and remainder truncate towards zero.\<close>

definition c_div :: "int \<Rightarrow> int \<Rightarrow> int" where
  "c_div a b = sgn a * sgn b * (\<bar>a\<bar> div \<bar>b\<bar>)"

definition c_mod :: "int \<Rightarrow> int \<Rightarrow> int" where
  "c_mod a b = a - b * c_div a b"

definition decode_decimal :: "u8 list \<Rightarrow> nat \<Rightarrow> nat \<Rightarrow> string res" where
  "decode_decimal buf len out_size =
     (if len \<noteq> 8 then fails EINVAL
      else case buf_rd buf 8 of
        None \<Rightarrow> Inl Fault
      | Some bs \<Rightarrow>
          let w = dec64 bs;
              neg = sint w < 0;
              v = sint (if neg then - w else w);
              int_part = c_div v KDS_DECIMAL_SCALE_MUL;
              frac_part = c_mod v KDS_DECIMAL_SCALE_MUL
          in Inr (scnprintf out_size
                ((if neg then ''-'' else '''') @ show_int int_part @ ''.''
                  @ show_int_pad KDS_DECIMAL_SCALE frac_part)))"

section \<open>The registry\<close>

datatype kds_type_val = KDS_TYPE_INT8 | KDS_TYPE_INT16 | KDS_TYPE_INT32 | KDS_TYPE_INT64
  | KDS_TYPE_FLOAT | KDS_TYPE_DECIMAL | KDS_TYPE_BOOL | KDS_TYPE_VARCHAR | KDS_TYPE_CHAR

record kds_type_desc =
  type_val :: kds_type_val
  type_name :: string
  fixed_len :: nat
  t_encode :: "string \<Rightarrow> nat \<Rightarrow> u8 list res"
  t_decode :: "u8 list \<Rightarrow> nat \<Rightarrow> nat \<Rightarrow> string res"
  t_compare :: "(u8 list \<Rightarrow> nat \<Rightarrow> u8 list \<Rightarrow> nat \<Rightarrow> int) option"

definition mk_desc where
  "mk_desc v n l e d c =
     \<lparr>type_val = v, type_name = n, fixed_len = l, t_encode = e, t_decode = d, t_compare = c\<rparr>"

definition kds_type_table :: "(string \<Rightarrow> int res) \<Rightarrow> kds_type_desc list" where
  "kds_type_table kstrtoll =
    [mk_desc KDS_TYPE_INT8 ''int8'' 1 (encode_int8 kstrtoll) decode_int8 (Some compare_int8),
     mk_desc KDS_TYPE_INT16 ''int16'' 2 (encode_int16 kstrtoll) decode_int16 (Some compare_int16),
     mk_desc KDS_TYPE_INT32 ''int32'' 4 (encode_int32 kstrtoll) decode_int32 (Some compare_int32),
     mk_desc KDS_TYPE_INT64 ''int64'' 8 (encode_int64 kstrtoll) decode_int64 (Some compare_int64),
     mk_desc KDS_TYPE_FLOAT ''float'' 4 encode_float decode_float None,
     mk_desc KDS_TYPE_DECIMAL ''decimal'' 8 encode_decimal decode_decimal None,
     mk_desc KDS_TYPE_BOOL ''bool'' 1 encode_bool decode_bool None,
     mk_desc KDS_TYPE_VARCHAR ''varchar'' 0 encode_varchar decode_varchar None,
     mk_desc KDS_TYPE_CHAR ''char'' 0 encode_varchar decode_varchar None]"

definition kds_type_lookup_by_name :: "(string \<Rightarrow> int res) \<Rightarrow> string \<Rightarrow> kds_type_desc option" where
  "kds_type_lookup_by_name kstrtoll name =
     find (\<lambda>d. type_name d = name) (kds_type_table kstrtoll)"

definition kds_type_lookup_by_val :: "(string \<Rightarrow> int res) \<Rightarrow> kds_type_val \<Rightarrow> kds_type_desc option" where
  "kds_type_lookup_by_val kstrtoll v =
     find (\<lambda>d. type_val d = v) (kds_type_table kstrtoll)"

section \<open>Decimal text\<close>

lemma of_char_char_of [simp]: "n < 256 \<Longrightarrow> (of_char (char_of n :: char) :: nat) = n"
  by simp

lemma is_digit_char_of [simp]: "d < 10 \<Longrightarrow> is_digit (char_of (48 + d :: nat))"
  by (simp add: is_digit_def)

lemma digit_val_char_of [simp]: "d < 10 \<Longrightarrow> digit_val (char_of (48 + d :: nat)) = d"
  by (simp add: digit_val_def)

lemma show_nat_digits: "list_all is_digit (show_nat n)"
proof (induction n rule: show_nat.induct)
  case (1 n)
  then show ?case by (subst show_nat.simps) (simp add: list_all_append)
qed

lemma show_nat_not_Nil [simp]: "show_nat n \<noteq> []"
  by (subst show_nat.simps) simp

lemma length_show_nat: "n < 10 ^ k \<Longrightarrow> 0 < k \<Longrightarrow> length (show_nat n) \<le> k"
proof (induction k arbitrary: n)
  case 0
  then show ?case by simp
next
  case (Suc k)
  show ?case
  proof (cases "n < 10")
    case True
    then show ?thesis by (subst show_nat.simps) simp
  next
    case False
    with Suc.prems have "n div 10 < 10 ^ k" "0 < k" by (auto intro: ccontr)
    then have "length (show_nat (n div 10)) \<le> k" by (rule Suc.IH)
    with False show ?thesis by (subst show_nat.simps) simp
  qed
qed

abbreviation push_digit :: "u64 \<Rightarrow> char \<Rightarrow> u64" where
  "push_digit acc c \<equiv> acc * 10 + of_nat (digit_val c)"

lemma foldl_show_nat: "foldl push_digit 0 (show_nat n) = of_nat n"
proof (induction n rule: show_nat.induct)
  case (1 n)
  show ?case
  proof (cases "n < 10")
    case True
    then show ?thesis by (subst show_nat.simps) simp
  next
    case False
    have "(of_nat n :: u64) = of_nat (n div 10 * 10 + n mod 10)" by simp
    then have "(of_nat n :: u64) = of_nat (n div 10) * 10 + of_nat (n mod 10)"
      by (simp only: of_nat_add of_nat_mult of_nat_numeral)
    with False 1 show ?thesis by (subst show_nat.simps) simp
  qed
qed

lemma scan_int_digits:
  "list_all is_digit xs \<Longrightarrow> scan_int acc (xs @ ys) = scan_int (foldl push_digit acc xs) ys"
  by (induction xs arbitrary: acc) auto

lemma scan_int_show_nat:
  "ys = [] \<or> \<not> is_digit (hd ys) \<Longrightarrow> scan_int 0 (show_nat n @ ys) = (of_nat n, ys)"
  using scan_int_digits [OF show_nat_digits, of 0 n ys] by (cases ys) (auto simp: foldl_show_nat)

lemma scan_frac_digits:
  "list_all is_digit xs \<Longrightarrow> n + length xs \<le> KDS_DECIMAL_SCALE \<Longrightarrow>
   scan_frac acc n xs = (foldl push_digit acc xs, n + length xs, [])"
  by (induction xs arbitrary: acc n) auto

lemma zero_digit [simp]: "is_digit (CHR ''0'')" "digit_val (CHR ''0'') = 0"
  by (simp_all add: is_digit_def digit_val_def)

lemma foldl_zero_pad: "foldl push_digit 0 (zero_pad w s) = foldl push_digit 0 s"
proof -
  have "foldl push_digit 0 (replicate k (CHR ''0'')) = 0" for k
    by (induction k) auto
  then show ?thesis by (simp add: zero_pad_def)
qed

lemma zero_pad_digits: "list_all is_digit s \<Longrightarrow> list_all is_digit (zero_pad w s)"
  by (auto simp: zero_pad_def list_all_iff)

lemma length_zero_pad: "length s \<le> w \<Longrightarrow> length (zero_pad w s) = w"
  by (simp add: zero_pad_def)

text \<open>What the fraction loop reads back from a value printed with four digits.\<close>

lemma scan_frac_show:
  assumes "f < 10000"
  shows "scan_frac 0 0 (zero_pad 4 (show_nat f)) = (of_nat f, 4, [])"
proof -
  have len: "length (show_nat f) \<le> 4"
    using length_show_nat [of f 4] assms by simp
  have "scan_frac 0 0 (zero_pad 4 (show_nat f))
      = (foldl push_digit 0 (zero_pad 4 (show_nat f)), 0 + length (zero_pad 4 (show_nat f)), [])"
    by (rule scan_frac_digits)
      (simp_all add: zero_pad_digits show_nat_digits length_zero_pad len KDS_DECIMAL_SCALE_def)
  then show ?thesis
    by (simp add: foldl_zero_pad foldl_show_nat length_zero_pad len)
qed

lemma show_nat_head: "is_digit (hd (show_nat n))"
  using show_nat_digits [of n] by (cases "show_nat n") auto

lemma sign_not_digit [simp]: "\<not> is_digit (CHR ''-'')" "\<not> is_digit (CHR ''+'')" "\<not> is_digit (CHR ''.'')"
  by (simp_all add: is_digit_def)

text \<open>The encoder on a value printed as sign, integer part and four fraction digits.\<close>

lemma encode_decimal_printed:
  assumes f: "f < 10000" and size: "8 \<le> bsz"
  shows "encode_decimal ((if neg then ''-'' else []) @ show_nat i @ ''.'' @ zero_pad 4 (show_nat f)) bsz
    = Inr (enc64 (let r = of_nat i * 10000 + of_nat f in if neg then - r else r))"
proof -
  have hd: "hd (show_nat i) \<noteq> CHR ''-''" "hd (show_nat i) \<noteq> CHR ''+''"
    using show_nat_head [of i] by auto
  have sc: "scan_int 0 (show_nat i @ CHR ''.'' # xs) = (of_nat i, CHR ''.'' # xs)" for xs
    by (rule scan_int_show_nat) simp
  show ?thesis
    using size by (cases neg)
      (simp_all add: encode_decimal_def hd sc scan_frac_show [OF f] KDS_DECIMAL_SCALE_def
        KDS_DECIMAL_SCALE_MUL_def Let_def)
qed


text \<open>What the decoder prints, away from the one value whose negation overflows.\<close>

lemma c_div_mod_nonneg: "0 \<le> v \<Longrightarrow> c_div v 10000 = v div 10000 \<and> c_mod v 10000 = v mod 10000"
  by (auto simp: c_div_def c_mod_def sgn_if minus_div_mult_eq_mod [symmetric] algebra_simps)

lemma sint_of_int64: "- (2 ^ 63) \<le> v \<Longrightarrow> v < 2 ^ 63 \<Longrightarrow> sint (word_of_int v :: u64) = v"
  by (simp add: int_word_sint)

lemma sint_bounds64: "- (2 ^ 63) \<le> sint (w :: u64) \<and> sint (w :: u64) < 2 ^ 63"
  using sint_ge [of w] sint_lt [of w] by simp

lemma sint_minus_word:
  fixes w :: u64
  assumes "w \<noteq> word_of_int (- (2 ^ 63))"
  shows "sint (- w) = - sint w"
proof -
  have "word_of_int (sint w) = w" by simp
  with assms have "sint w \<noteq> - (2 ^ 63)" by metis
  with sint_bounds64 [of w] have "sint (word_of_int (- sint w) :: u64) = - sint w"
    by (intro sint_of_int64) auto
  then show ?thesis by simp
qed

lemma decode_decimal_prints:
  fixes w :: u64
  assumes "w \<noteq> word_of_int (- (2 ^ 63))" and "32 \<le> osz"
  shows "decode_decimal (enc64 w) 8 osz
    = Inr ((if sint w < 0 then ''-'' else []) @ show_nat (nat \<bar>sint w\<bar> div 10000) @ ''.''
           @ zero_pad 4 (show_nat (nat \<bar>sint w\<bar> mod 10000)))"
proof -
  have v: "sint (if sint w < 0 then - w else w) = \<bar>sint w\<bar>"
    using sint_minus_word [OF assms(1)] by simp
  define m where "m = nat \<bar>sint w\<bar>"
  have m: "\<bar>sint w\<bar> = int m" by (simp add: m_def)
  have "m div 10000 < 10 ^ 16"
    using sint_bounds64 [of w] unfolding m_def by (simp add: abs_if) linarith
  then have l1: "length (show_nat (m div 10000)) \<le> 16"
    using length_show_nat by simp
  have l2: "length (zero_pad 4 (show_nat (m mod 10000))) = 4"
    using length_show_nat [of "m mod 10000" 4] by (simp add: length_zero_pad)
  have fits: "take (osz - 1) (sg @ show_nat (m div 10000) @ CHR ''.'' # zero_pad 4 (show_nat (m mod 10000)))
    = sg @ show_nat (m div 10000) @ CHR ''.'' # zero_pad 4 (show_nat (m mod 10000))"
    if "length sg \<le> 1" for sg
    using l1 l2 assms(2) that by (intro take_all) simp
  have dm: "nat (int m div 10000) = m div 10000" "nat (int m mod 10000) = m mod 10000"
    by (simp_all add: nat_div_distrib nat_mod_distrib)
  have nn: "\<not> int m div 10000 < 0" "\<not> int m mod 10000 < 0" by simp_all
  note prints = decode_decimal_def buf_rd_def c_div_mod_nonneg KDS_DECIMAL_SCALE_MUL_def
    KDS_DECIMAL_SCALE_def show_int_def show_int_pad_def scnprintf_def dm nn Let_def
    fits [of "[]", simplified] fits [of "''-''", simplified]
  show ?thesis
  proof (cases "sint w < 0")
    case True
    with v m have "sint (- w) = int m" by simp
    with True show ?thesis
      unfolding m_def [symmetric] by (simp add: prints del: take_append)
  next
    case False
    with m have "sint w = int m" by simp
    with False l1 l2 assms(2) show ?thesis
      unfolding m_def [symmetric] by (simp add: prints del: take_append)
  qed
qed

lemma of_nat_nat_abs: "(of_nat (nat \<bar>v\<bar>) :: 'a::len word) = word_of_int \<bar>v\<bar>"
  by (simp add: nat_abs_int_diff)

lemma of_nat_div_mod_word: "(of_nat (m div 10000) * 10000 + of_nat (m mod 10000) :: u64) = of_nat m"
proof -
  have "(of_nat m :: u64) = of_nat (m div 10000 * 10000 + m mod 10000)" by simp
  then show ?thesis by (simp only: of_nat_add of_nat_mult of_nat_numeral)
qed

text \<open>What the decimal decoder prints for a stored value is text the decimal encoder turns back into the same eight bytes, for every 64-bit value except the most negative one, whose negation overflows.\<close>

theorem decimal_roundtrip:
  assumes "w \<noteq> word_of_int (- (2 ^ 63))" and "32 \<le> osz" and "8 \<le> bsz"
    and "decode_decimal (enc64 w) 8 osz = Inr s"
  shows "encode_decimal s bsz = Inr (enc64 w)"
proof -
  let ?v = "nat \<bar>sint w\<bar>"
  have w: "(if sint w < 0 then - of_nat ?v else of_nat ?v) = w"
    by (simp add: of_nat_nat_abs)
  have s: "s = (if sint w < 0 then ''-'' else []) @ show_nat (?v div 10000) @ ''.''
           @ zero_pad 4 (show_nat (?v mod 10000))"
    using assms(4) unfolding decode_decimal_prints [OF assms(1,2)] by (rule Inr_inject [symmetric])
  have "encode_decimal s bsz = Inr (enc64
      (let r = of_nat (?v div 10000) * 10000 + of_nat (?v mod 10000) in if sint w < 0 then - r else r))"
    unfolding s by (rule encode_decimal_printed) (simp_all add: assms(3))
  then show ?thesis unfolding of_nat_div_mod_word Let_def w .
qed

theorem decimal_roundtrip_witness:
  "encode_decimal ''-12.3400'' 8 = Inr (enc64 (word_of_int (- 123400)))"
proof -
  have ne: "(word_of_int (- 123400) :: u64) \<noteq> word_of_int (- (2 ^ 63))" by simp
  have "decode_decimal (enc64 (word_of_int (- 123400))) 8 32 = Inr ''-12.3400''"
    unfolding decode_decimal_prints [OF ne order_refl]
    by (simp add: show_nat.simps zero_pad_def char_of_def bit_0)
  from decimal_roundtrip [OF ne order_refl order_refl this] show ?thesis .
qed

section \<open>Integer codecs\<close>

lemma sint_word_of_int_range:
  "- (2 ^ (LENGTH('a) - 1)) \<le> v \<Longrightarrow> v < 2 ^ (LENGTH('a) - 1) \<Longrightarrow> sint (word_of_int v :: 'a::len word) = v"
  by (cases "LENGTH('a)") (simp_all add: int_word_sint)

text \<open>The bounds an integer column of a given byte width has.\<close>

definition in_width :: "nat \<Rightarrow> int \<Rightarrow> bool" where
  "in_width n v \<longleftrightarrow> - (2 ^ (8 * n - 1)) \<le> v \<and> v < 2 ^ (8 * n - 1)"

definition int_bytes :: "nat \<Rightarrow> int \<Rightarrow> u8 list" where
  "int_bytes n v = (if n = 1 then [word_of_int v] else if n = 2 then enc16 (word_of_int v)
     else if n = 4 then enc32 (word_of_int v) else enc64 (word_of_int v))"

lemma length_int_bytes: "n \<in> {1, 2, 4, 8} \<Longrightarrow> length (int_bytes n v) = n"
  by (auto simp: int_bytes_def)

lemma load_int_bytes:
  assumes "n \<in> {1, 2, 4, 8}" and "in_width n v"
  shows "load_int n (int_bytes n v) = Some v"
  using assms sint_word_of_int_range [where 'a = 8, of v] sint_word_of_int_range [where 'a = 16, of v]
    sint_word_of_int_range [where 'a = 32, of v] sint_word_of_int_range [where 'a = 64, of v]
  by (auto simp: load_int_def int_bytes_def in_width_def)

lemma decode_int_bytes:
  assumes "n \<in> {1, 2, 4, 8}" and "in_width n v" and "length (show_int v) < osz"
  shows "decode_int_generic (int_bytes n v) n osz n = Inr (show_int v)"
  using assms
  by (simp only: decode_int_generic_def buf_rd_def length_int_bytes load_int_bytes take_all order_refl
      if_True option.case not_True_eq_False simp_thms if_False)
    (simp add: scnprintf_def)

text \<open>The four integer entries of the table are exactly those with a comparison.\<close>

lemma int_entry:
  assumes "d \<in> set (kds_type_table k)" and "t_compare d \<noteq> None"
  obtains n where "n \<in> {1, 2, 4, 8}" and "fixed_len d = n"
    and "t_encode d = (\<lambda>s bsz. encode_int_generic k s bsz n (- (2 ^ (8 * n - 1))) (2 ^ (8 * n - 1) - 1))"
    and "t_decode d = (\<lambda>b l osz. decode_int_generic b l osz n)"
    and "t_compare d = Some (\<lambda>a al b bl. compare_int64_generic a al b bl n)"
proof -
  note defs = mk_desc_def encode_int8_def encode_int16_def encode_int32_def encode_int64_def
    decode_int8_def decode_int16_def decode_int32_def decode_int64_def
    compare_int8_def compare_int16_def compare_int32_def compare_int64_def
  from assms consider
      "d = mk_desc KDS_TYPE_INT8 ''int8'' 1 (encode_int8 k) decode_int8 (Some compare_int8)"
    | "d = mk_desc KDS_TYPE_INT16 ''int16'' 2 (encode_int16 k) decode_int16 (Some compare_int16)"
    | "d = mk_desc KDS_TYPE_INT32 ''int32'' 4 (encode_int32 k) decode_int32 (Some compare_int32)"
    | "d = mk_desc KDS_TYPE_INT64 ''int64'' 8 (encode_int64 k) decode_int64 (Some compare_int64)"
    by (auto simp: kds_type_table_def mk_desc_def)
  then show thesis
  proof cases
    case 1
    then show ?thesis by (intro that [of 1]) (simp_all add: defs fun_eq_iff)
  next
    case 2
    then show ?thesis by (intro that [of 2]) (simp_all add: defs fun_eq_iff)
  next
    case 3
    then show ?thesis by (intro that [of 4]) (simp_all add: defs fun_eq_iff)
  next
    case 4
    then show ?thesis by (intro that [of 8]) (simp_all add: defs fun_eq_iff)
  qed
qed

lemma encode_int_ok_iff:
  assumes "n \<in> {1, 2, 4, 8}"
  shows "encode_int_generic k s bsz n (- (2 ^ (8 * n - 1))) (2 ^ (8 * n - 1) - 1) = Inr bs
     \<longleftrightarrow> n \<le> bsz \<and> (\<exists>v. k s = Inr v \<and> in_width n v \<and> bs = int_bytes n v)"
  using assms
  by (auto simp: encode_int_generic_def in_width_def int_bytes_def split: sum.splits if_splits)

text \<open>A base-10 parser with the documented behaviour of \<^verbatim>\<open>kstrtoll(s, 10, .)\<close>, to instantiate the parameter.\<close>

definition kstrtoll_decimal :: "string \<Rightarrow> int res" where
  "kstrtoll_decimal s =
     (let neg = (s \<noteq> [] \<and> hd s = CHR ''-''); ds = (if neg then tl s else s);
          m = foldl (\<lambda>a c. a * 10 + int (digit_val c)) 0 ds; v = (if neg then - m else m)
      in if ds = [] \<or> \<not> list_all is_digit ds then fails EINVAL
         else if in_width 8 v then Inr v else fails ERANGE)"

lemma foldl_int_show_nat: "foldl (\<lambda>a c. a * 10 + int (digit_val c)) 0 (show_nat n) = int n"
proof (induction n rule: show_nat.induct)
  case (1 n)
  then show ?case
    by (subst show_nat.simps) (simp add: zdiv_int zmod_int)
qed

lemma kstrtoll_decimal_show: "in_width 8 x \<Longrightarrow> kstrtoll_decimal (show_int x) = Inr x"
  using show_nat_digits [of "nat x"] show_nat_digits [of "nat (- x)"] show_nat_head [of "nat x"]
  by (auto simp: kstrtoll_decimal_def show_int_def foldl_int_show_nat Let_def)

text \<open>For each of the four integer types, every value in the range of the type is encoded in exactly the width of the type, and decoding gives the text back. The hypothesis on \<^verbatim>\<open>kstrtoll\<close> is that it reads back a printed 64-bit integer.\<close>

theorem int_roundtrip:
  assumes "\<And>x. in_width 8 x \<Longrightarrow> kstrtoll (show_int x) = Inr x"
    and "d \<in> set (kds_type_table kstrtoll)" and "t_compare d \<noteq> None"
    and "in_width (fixed_len d) v" and "fixed_len d \<le> bsz" and "length (show_int v) < osz"
  shows "\<exists>bs. t_encode d (show_int v) bsz = Inr bs \<and> length bs = fixed_len d
           \<and> t_decode d bs (length bs) osz = Inr (show_int v)"
proof -
  obtain n where n: "n \<in> {1, 2, 4, 8}" "fixed_len d = n"
    "t_encode d = (\<lambda>s bsz. encode_int_generic kstrtoll s bsz n (- (2 ^ (8 * n - 1))) (2 ^ (8 * n - 1) - 1))"
    "t_decode d = (\<lambda>b l osz. decode_int_generic b l osz n)"
    by (rule int_entry [OF assms(2,3)])
  have "in_width 8 v" using assms(4) n(1,2) by (auto simp: in_width_def)
  then have k: "kstrtoll (show_int v) = Inr v" by (rule assms(1))
  have enc: "t_encode d (show_int v) bsz = Inr (int_bytes n v)"
    unfolding n(3) encode_int_ok_iff [OF n(1)] k using assms(4,5) n(2) by simp
  have "decode_int_generic (int_bytes n v) n osz n = Inr (show_int v)"
    using decode_int_bytes [OF n(1)] assms(4,6) n(2) by simp
  with enc n(2,4) length_int_bytes [OF n(1)] show ?thesis by simp
qed

theorem int_roundtrip_witness:
  "\<exists>bs. encode_int16 kstrtoll_decimal (show_int (- 300)) 16 = Inr bs \<and> length bs = 2
     \<and> decode_int16 bs (length bs) 32 = Inr (show_int (- 300))"
  using int_roundtrip [OF kstrtoll_decimal_show, of
      "mk_desc KDS_TYPE_INT16 ''int16'' 2 (encode_int16 kstrtoll_decimal) decode_int16 (Some compare_int16)"
      "- 300" 16 32]
  by (simp add: kds_type_table_def mk_desc_def in_width_def show_int_def show_nat.simps)


text \<open>An integer that parses but lies outside the range of its type is refused with ERANGE.\<close>

theorem encode_int_range:
  assumes "d \<in> set (kds_type_table kstrtoll)" and "t_compare d \<noteq> None"
    and "kstrtoll s = Inr v" and "\<not> in_width (fixed_len d) v" and "fixed_len d \<le> bsz"
  shows "t_encode d s bsz = fails ERANGE"
  by (rule int_entry [OF assms(1,2)])
    (use assms(3-) in \<open>auto simp: encode_int_generic_def in_width_def\<close>)

theorem encode_int_range_witness: "encode_int8 (\<lambda>_. Inr 128) ''128'' 16 = fails ERANGE"
  using encode_int_range [of "mk_desc KDS_TYPE_INT8 ''int8'' 1 (encode_int8 (\<lambda>_. Inr 128)) decode_int8 (Some compare_int8)"
      "\<lambda>_. Inr 128" "''128''" 128 16]
  by (simp add: kds_type_table_def mk_desc_def in_width_def)


text \<open>The comparison of an integer type orders encoded values as the integers they encode, negative numbers included.\<close>

theorem compare_int_sgn:
  assumes "d \<in> set (kds_type_table kstrtoll)" and "t_compare d = Some cmp"
    and "kstrtoll s = Inr v" and "t_encode d s n = Inr a"
    and "kstrtoll t = Inr w" and "t_encode d t m = Inr b"
  shows "cmp a (length a) b (length b) = sgn (v - w)"
proof -
  obtain k where k: "k \<in> {1, 2, 4, 8}"
    "t_encode d = (\<lambda>s bsz. encode_int_generic kstrtoll s bsz k (- (2 ^ (8 * k - 1))) (2 ^ (8 * k - 1) - 1))"
    "t_compare d = Some (\<lambda>a al b bl. compare_int64_generic a al b bl k)"
    by (rule int_entry [OF assms(1)]) (simp add: assms(2))
  have "a = int_bytes k v \<and> in_width k v" "b = int_bytes k w \<and> in_width k w"
    using assms(4,6) unfolding k(2) encode_int_ok_iff [OF k(1)] assms(3,5) by auto
  then have "compare_int64_generic a (length a) b (length b) k = sgn (v - w)"
    using k(1) by (simp add: compare_int64_generic_def length_int_bytes load_int_bytes)
  with k(3) assms(2) show ?thesis by simp
qed

theorem compare_int_sgn_witness: "compare_int32 (enc32 (- 5)) 4 (enc32 3) 4 = - 1"
  using compare_int_sgn [of
      "mk_desc KDS_TYPE_INT32 ''int32'' 4 (encode_int32 kstrtoll_decimal) decode_int32 (Some compare_int32)"
      kstrtoll_decimal compare_int32 "''-5''" "- 5" 4 "enc32 (- 5)" "''3''" 3 4 "enc32 3"]
  by (simp add: kds_type_table_def mk_desc_def encode_int32_def encode_int_generic_def
      kstrtoll_decimal_def in_width_def is_digit_def digit_val_def of_char_def)


section \<open>Text and hexadecimal codecs\<close>

lemma unat_of_char: "unat (of_char c :: u8) = of_char c"
proof -
  have "(of_char c :: u8) = of_nat (of_char c)" by (simp only: of_nat_of_char)
  moreover have "of_char c < (256 :: nat)" by simp
  ultimately show ?thesis by (simp only: unat_of_nat) simp
qed

lemma string_of_bytes_of: "string_of (bytes_of s) = s"
  by (induction s) (simp_all add: string_of_def bytes_of_def unat_of_char)

lemma varchar_roundtrip_aux:
  "encode_varchar s bsz = Inr bs \<Longrightarrow> length s < osz \<Longrightarrow> decode_varchar bs (length bs) osz = Inr s"
  by (auto simp: encode_varchar_def decode_varchar_def buf_rd_def Let_def bytes_of_def [of s]
      string_of_bytes_of [unfolded bytes_of_def] split: if_splits)

lemma hexdigit_nibble: "i < 16 \<Longrightarrow> hex_nibble (hexdigits ! i) = int i"
proof -
  assume "i < 16"
  then have "i = 0 \<or> i = 1 \<or> i = 2 \<or> i = 3 \<or> i = 4 \<or> i = 5 \<or> i = 6 \<or> i = 7 \<or> i = 8
    \<or> i = 9 \<or> i = 10 \<or> i = 11 \<or> i = 12 \<or> i = 13 \<or> i = 14 \<or> i = 15" by presburger
  then show ?thesis
    by (elim disjE) (simp_all add: hex_nibble_def hexdigits_def of_char_def)
qed

lemma low_nibble_mask: "(0xf :: u8) = mask 4"
  by (simp add: mask_eq_exp_minus_1)

lemma nibbles_of_byte:
  fixes b :: u8
  shows "(word_of_int (push_bit 4 (int (unat (drop_bit 4 b))) OR int (unat (b AND 0xf))) :: u8) = b"
  unfolding low_nibble_mask by (rule bit_word_eqI) (auto simp: bit_simps)

lemma nibble_bounds: "unat (drop_bit 4 (b :: u8)) < 16" "unat (b AND 0xf :: u8) < 16"
proof -
  show "unat (drop_bit 4 b) < 16"
    using unat_bound [of b] by (subst unat_drop_bit_eq) (simp add: drop_bit_eq_div)
  show "unat (b AND 0xf) < 16"
    using word_and_le1 [of b "0xf"] by (simp add: word_le_nat_alt)
qed

lemma hex_pairs_format: "hex_pairs (format_hex_bytes bs) = Inr bs"
proof (induction bs)
  case Nil
  then show ?case by (simp add: format_hex_bytes_def)
next
  case (Cons b bs)
  have "hex_pairs (format_hex_bytes (b # bs)) = hex_pairs
      (hexdigits ! unat (drop_bit 4 b) # hexdigits ! unat (b AND 0xf) # format_hex_bytes bs)"
    by (simp add: format_hex_bytes_def)
  also have "\<dots> = Inr (b # bs)"
    by (simp only: hex_pairs.simps hexdigit_nibble nibble_bounds Let_def Cons nibbles_of_byte) simp
  finally show ?case .
qed

lemma length_format_hex [simp]: "length (format_hex_bytes bs) = 2 * length bs"
  by (induction bs) (simp_all add: format_hex_bytes_def)

lemma length_hex_pairs: "hex_pairs s = Inr bs \<Longrightarrow> length bs = length s div 2"
  by (induction s arbitrary: bs rule: hex_pairs.induct) (auto simp: Let_def split: if_splits sum.splits)

text \<open>The hexadecimal text a float decodes to encodes to the same four bytes.\<close>

theorem float_roundtrip:
  assumes "length bs = 4" and "decode_float bs 4 osz = Inr s" and "4 \<le> bsz"
  shows "encode_float s bsz = Inr bs"
  using assms
  by (auto simp: decode_float_def encode_float_def buf_rd_def parse_hex_bytes_def hex_pairs_format
      split: if_splits)

theorem float_roundtrip_witness: "encode_float ''3f8000a0'' 4 = Inr [0x3f, 0x80, 0, 0xa0]"
  by (rule float_roundtrip [of _ 9])
    (simp_all add: decode_float_def buf_rd_def format_hex_bytes_def hexdigits_def)


text \<open>Every encoder of the registry stays inside its buffer.\<close>

lemma encode_int_length:
  "encode_int_generic k s bsz n mn mx = Inr bs \<Longrightarrow> length bs = n \<and> n \<le> bsz"
  by (auto simp: encode_int_generic_def split: if_splits sum.splits)

lemma encode_decimal_length: "encode_decimal s bsz = Inr bs \<Longrightarrow> length bs = 8 \<and> 8 \<le> bsz"
  by (auto simp: encode_decimal_def Let_def split: if_splits prod.splits)

lemma encode_float_length: "encode_float s bsz = Inr bs \<Longrightarrow> length bs = 4 \<and> 4 \<le> bsz"
  by (auto simp: encode_float_def parse_hex_bytes_def dest: length_hex_pairs split: if_splits sum.splits)

lemma encode_varchar_length: "encode_varchar s bsz = Inr bs \<Longrightarrow> length bs = length s \<and> length s \<le> bsz"
  by (auto simp: encode_varchar_def bytes_of_def Let_def split: if_splits)

lemma encode_bool_length: "encode_bool s bsz = Inr bs \<Longrightarrow> length bs = 1 \<and> 1 \<le> bsz"
  by (auto simp: encode_bool_def split: if_splits)

lemmas encode_lengths = encode_int_length encode_decimal_length encode_float_length
  encode_varchar_length encode_bool_length

text \<open>No encoder of the registry writes past the buffer it is given, and a type of fixed length writes exactly that length.\<close>

theorem encode_in_bounds:
  assumes "d \<in> set (kds_type_table kstrtoll)" and "t_encode d s bsz = Inr bs"
  shows "length bs \<le> bsz \<and> (fixed_len d \<noteq> 0 \<longrightarrow> length bs = fixed_len d)"
proof -
  have "d \<in> set (kds_type_table kstrtoll) \<Longrightarrow> ?thesis"
    unfolding kds_type_table_def mk_desc_def list.set insert_iff empty_iff
    using assms(2)
    by (elim disjE) (auto simp: encode_int8_def encode_int16_def encode_int32_def
        encode_int64_def dest!: encode_lengths)
  with assms(1) show ?thesis by blast
qed

theorem encode_in_bounds_witness: "encode_decimal ''1.5'' 8 = Inr (enc64 15000) \<and> length (enc64 15000) \<le> 8"
proof -
  let ?d = "mk_desc KDS_TYPE_DECIMAL ''decimal'' 8 encode_decimal decode_decimal None"
  have e: "encode_decimal ''1.5'' 8 = Inr (enc64 15000)" by code_simp
  have "t_encode ?d = encode_decimal" "?d \<in> set (kds_type_table kstrtoll_decimal)" by (simp_all add: mk_desc_def kds_type_table_def)
  then show ?thesis using encode_in_bounds [of ?d kstrtoll_decimal "''1.5''" 8 "enc64 15000"] e by simp
qed


lemma find_distinct_key:
  "distinct (map f xs) \<Longrightarrow> find (\<lambda>x. f x = k) xs = Some x \<longleftrightarrow> x \<in> set xs \<and> f x = k"
  by (induction xs) auto

lemma type_keys_distinct:
  "distinct (map type_name (kds_type_table k))" "distinct (map type_val (kds_type_table k))"
  by (simp_all add: kds_type_table_def mk_desc_def)

text \<open>A lookup by name or by type value returns a descriptor exactly when the table has one with that key, and then that one.\<close>

theorem lookup_exact:
  "(kds_type_lookup_by_name k n = Some d \<longleftrightarrow> d \<in> set (kds_type_table k) \<and> type_name d = n)
   \<and> (kds_type_lookup_by_val k v = Some e \<longleftrightarrow> e \<in> set (kds_type_table k) \<and> type_val e = v)"
  unfolding kds_type_lookup_by_name_def kds_type_lookup_by_val_def
  by (simp add: find_distinct_key type_keys_distinct)

end
