(* ===== verification/Kds_Catalog.thy ===== *)
theory Kds_Catalog
  imports Kds_Wal_Log Kds_Heap Kds_Types
begin

text \<open>
  The system catalogue (\<^verbatim>\<open>kernel/kds/catalog.c\<close>, \<^verbatim>\<open>include/linux/kds_catalog.h\<close>): the in-memory registry of well-known
  objects, the four fixed heap pages \<^verbatim>\<open>sys.types\<close>, \<^verbatim>\<open>sys.columns\<close>, \<^verbatim>\<open>sys.objects\<close> and \<^verbatim>\<open>sys.tables\<close>, table creation and
  the catalogue readers. Rows are packed structs; a name field is the list of its 64 bytes. A null \<^verbatim>\<open>name\<close> or
  \<^verbatim>\<open>schema\<close> pointer is \<open>None\<close>; out parameters are results, and the pointers for them are not null. The second half of
  the theory lifts the heap operations on a frame to the cached catalogue pages: an insertion appends a decoded row or
  reports a full page (locale \<open>row_store\<close>), a scan sees the decoded rows in order.
\<close>

section \<open>Constants\<close>

definition KDS_CATALOG_NAME_MAX :: nat where "KDS_CATALOG_NAME_MAX = 64"
definition KDS_SCHEMA_MAX_COLUMNS :: nat where "KDS_SCHEMA_MAX_COLUMNS = 32"
definition KDS_CATALOG_MAX_SYS_OBJECTS :: nat where "KDS_CATALOG_MAX_SYS_OBJECTS = 64"

definition KDS_OID_NAMESPACE_SYS :: u64 where "KDS_OID_NAMESPACE_SYS = 0"
definition KDS_OID_NAMESPACE_PUBLIC :: u64 where "KDS_OID_NAMESPACE_PUBLIC = 1"
definition KDS_OID_TYPE_INT :: u64 where "KDS_OID_TYPE_INT = 12"
definition KDS_OID_TYPE_VARCHAR :: u64 where "KDS_OID_TYPE_VARCHAR = 13"
definition KDS_OID_TYPE_SCHEMA :: u64 where "KDS_OID_TYPE_SCHEMA = 14"
definition KDS_OID_TYPE_BOOL :: u64 where "KDS_OID_TYPE_BOOL = 15"
definition KDS_OID_TYPE_BYTES :: u64 where "KDS_OID_TYPE_BYTES = 16"
definition KDS_OID_TYPE_NAMESPACE :: u64 where "KDS_OID_TYPE_NAMESPACE = 17"
definition KDS_OID_TYPE_ATTRIBUTE :: u64 where "KDS_OID_TYPE_ATTRIBUTE = 18"
definition KDS_OID_TYPE_COLUMN :: u64 where "KDS_OID_TYPE_COLUMN = 19"
definition KDS_OID_TYPE_PAGE :: u64 where "KDS_OID_TYPE_PAGE = 20"
definition KDS_OID_TYPE_TABLE :: u64 where "KDS_OID_TYPE_TABLE = 21"
definition KDS_OID_TYPE_OPERATOR :: u64 where "KDS_OID_TYPE_OPERATOR = 22"
definition KDS_OID_TYPE_INDEX :: u64 where "KDS_OID_TYPE_INDEX = 23"
definition KDS_OID_TYPE_CHAR :: u64 where "KDS_OID_TYPE_CHAR = 24"
definition KDS_OID_TYPE_INT8 :: u64 where "KDS_OID_TYPE_INT8 = 25"
definition KDS_OID_TYPE_INT16 :: u64 where "KDS_OID_TYPE_INT16 = 26"
definition KDS_OID_TYPE_INT32 :: u64 where "KDS_OID_TYPE_INT32 = 27"
definition KDS_OID_TYPE_FLOAT :: u64 where "KDS_OID_TYPE_FLOAT = 28"
definition KDS_OID_TYPE_DECIMAL :: u64 where "KDS_OID_TYPE_DECIMAL = 29"
definition KDS_OID_TYPE_INT64 :: u64 where "KDS_OID_TYPE_INT64 = KDS_OID_TYPE_INT"
definition KDS_OID_SYS_TYPES_TABLE :: u64 where "KDS_OID_SYS_TYPES_TABLE = 100"
definition KDS_OID_SYS_OBJECTS_TABLE :: u64 where "KDS_OID_SYS_OBJECTS_TABLE = 110"
definition KDS_OID_SYS_COLUMNS_TABLE :: u64 where "KDS_OID_SYS_COLUMNS_TABLE = 111"
definition KDS_OID_SYS_TABLES_TABLE :: u64 where "KDS_OID_SYS_TABLES_TABLE = 112"
definition KDS_USER_OID_START :: u64 where "KDS_USER_OID_START = 4000"
definition KDS_CATALOG_PAGE_TYPES :: u64 where "KDS_CATALOG_PAGE_TYPES = 4"
definition KDS_CATALOG_PAGE_COLUMNS :: u64 where "KDS_CATALOG_PAGE_COLUMNS = 5"
definition KDS_CATALOG_PAGE_OBJECTS :: u64 where "KDS_CATALOG_PAGE_OBJECTS = 6"
definition KDS_CATALOG_PAGE_TABLES :: u64 where "KDS_CATALOG_PAGE_TABLES = 7"
definition KDS_BOOTSTRAP_XID :: u64 where "KDS_BOOTSTRAP_XID = 1"
definition KDS_CLUSTERED_HEAP :: u32 where "KDS_CLUSTERED_HEAP = 0"
definition KDS_CLUSTERED_BTREE :: u32 where "KDS_CLUSTERED_BTREE = 1"

primrec type_val_code :: "kds_type_val \<Rightarrow> u32" where
  "type_val_code KDS_TYPE_INT8 = 0"
| "type_val_code KDS_TYPE_INT16 = 1"
| "type_val_code KDS_TYPE_INT32 = 2"
| "type_val_code KDS_TYPE_INT64 = 3"
| "type_val_code KDS_TYPE_FLOAT = 4"
| "type_val_code KDS_TYPE_DECIMAL = 5"
| "type_val_code KDS_TYPE_BOOL = 6"
| "type_val_code KDS_TYPE_VARCHAR = 7"
| "type_val_code KDS_TYPE_CHAR = 8"

section \<open>C strings\<close>

text \<open>
  The bytes behind a \<^verbatim>\<open>char *\<close>; the end of the list stands for the terminator. \<open>cstr n bs\<close> is the string of at
  most \<open>n\<close> bytes that starts there.
\<close>

definition cstr :: "nat \<Rightarrow> u8 list \<Rightarrow> u8 list" where
  "cstr n bs = takeWhile (\<lambda>b. b \<noteq> 0) (take n bs)"

definition set_name :: "u8 list \<Rightarrow> u8 list" where
  "set_name src = (let s = cstr (KDS_CATALOG_NAME_MAX - 1) src in s @ replicate (KDS_CATALOG_NAME_MAX - length s) 0)"

text \<open>\<^verbatim>\<open>!strncmp(a, b, n)\<close>\<close>

fun strneq :: "nat \<Rightarrow> u8 list \<Rightarrow> u8 list \<Rightarrow> bool" where
  "strneq 0 a b = True"
| "strneq (Suc n) a b =
     (let x = (case a of [] \<Rightarrow> 0 | c # _ \<Rightarrow> c); y = (case b of [] \<Rightarrow> 0 | c # _ \<Rightarrow> c)
      in x = y \<and> (x = 0 \<or> strneq n (tl a) (tl b)))"

section \<open>Rows\<close>

record kds_sys_object =
  so_oid :: u64
  so_namespace_oid :: u64
  so_type_oid :: u64
  so_rel_id :: u64
  so_name :: "u8 list"

record kds_sys_table =
  st_oid :: u64
  st_namespace_oid :: u64
  st_name :: "u8 list"
  st_desc_page_id :: u64
  st_clustered_type :: u8

record kds_sys_column =
  sc_oid :: u64
  sc_rel_id :: u64
  sc_pos :: u32
  sc_name :: "u8 list"
  sc_type_val :: u32
  sc_len :: u32
  sc_notnull :: u8

record kds_sys_type =
  sy_oid :: u64
  sy_name :: "u8 list"
  sy_type_val :: u32
  sy_len :: u32

definition enc_sys_object :: "kds_sys_object \<Rightarrow> u8 list" where
  "enc_sys_object r = enc64 (so_oid r) @ enc64 (so_namespace_oid r) @ enc64 (so_type_oid r) @ enc64 (so_rel_id r) @ so_name r"

definition dec_sys_object :: "u8 list \<Rightarrow> kds_sys_object" where
  "dec_sys_object bs = \<lparr>so_oid = dec64 (take 8 bs), so_namespace_oid = dec64 (take 8 (drop 8 bs)),
     so_type_oid = dec64 (take 8 (drop 16 bs)), so_rel_id = dec64 (take 8 (drop 24 bs)), so_name = drop 32 bs\<rparr>"

definition enc_sys_table :: "kds_sys_table \<Rightarrow> u8 list" where
  "enc_sys_table r = enc64 (st_oid r) @ enc64 (st_namespace_oid r) @ st_name r @ enc64 (st_desc_page_id r) @ [st_clustered_type r]"

definition dec_sys_table :: "u8 list \<Rightarrow> kds_sys_table" where
  "dec_sys_table bs = \<lparr>st_oid = dec64 (take 8 bs), st_namespace_oid = dec64 (take 8 (drop 8 bs)),
     st_name = take 64 (drop 16 bs), st_desc_page_id = dec64 (take 8 (drop 80 bs)), st_clustered_type = bs ! 88\<rparr>"

definition enc_sys_column :: "kds_sys_column \<Rightarrow> u8 list" where
  "enc_sys_column r = enc64 (sc_oid r) @ enc64 (sc_rel_id r) @ enc32 (sc_pos r) @ sc_name r
     @ enc32 (sc_type_val r) @ enc32 (sc_len r) @ [sc_notnull r]"

definition dec_sys_column :: "u8 list \<Rightarrow> kds_sys_column" where
  "dec_sys_column bs = \<lparr>sc_oid = dec64 (take 8 bs), sc_rel_id = dec64 (take 8 (drop 8 bs)), sc_pos = dec32 (take 4 (drop 16 bs)),
     sc_name = take 64 (drop 20 bs), sc_type_val = dec32 (take 4 (drop 84 bs)), sc_len = dec32 (take 4 (drop 88 bs)),
     sc_notnull = bs ! 92\<rparr>"

definition enc_sys_type :: "kds_sys_type \<Rightarrow> u8 list" where
  "enc_sys_type r = enc64 (sy_oid r) @ sy_name r @ enc32 (sy_type_val r) @ enc32 (sy_len r)"

definition dec_sys_type :: "u8 list \<Rightarrow> kds_sys_type" where
  "dec_sys_type bs = \<lparr>sy_oid = dec64 (take 8 bs), sy_name = take 64 (drop 8 bs), sy_type_val = dec32 (take 4 (drop 72 bs)),
     sy_len = dec32 (drop 76 bs)\<rparr>"

text \<open>A schema; the array entries past \<open>nr_cols\<close> are not represented.\<close>

record kds_schema =
  sch_cols :: "kds_sys_column list"
  nr_cols :: u32

record kds_table_access =
  ta_namespace_oid :: u64
  ta_oid :: u64
  ta_schema :: kds_schema
  ta_desc_page_id :: u64
  ta_clustered_type :: u32

record cat_state = wal_state +
  g_sys_objects :: "kds_sys_object list"
  g_user_oid_counter :: u64

section \<open>Control flow shared by the operations\<close>

text \<open>A heap operation on the frame a pointer refers to.\<close>

definition on_frame :: "nat \<Rightarrow> (kds_frame \<Rightarrow> ('a \<times> kds_frame) res) \<Rightarrow> ('z pool_state_scheme, 'a) call" where
  "on_frame i op = (\<lambda>s. case op (pframes s i) of Inl e \<Rightarrow> (Inl e, s) | Inr (x, f) \<Rightarrow> (Inr x, upd_frame i (\<lambda>_. f) s))"

definition unit_op :: "(kds_frame \<Rightarrow> kds_frame res) \<Rightarrow> kds_frame \<Rightarrow> (unit \<times> kds_frame) res" where
  "unit_op op f = rbind (op f) (\<lambda>f'. Inr ((), f'))"

text \<open>Run a call that reports an errno, then release a frame and return what the call returned.\<close>

definition then_unpin :: "nat \<Rightarrow> ('z pool_state_scheme, 'a) call \<Rightarrow> ('z pool_state_scheme, 'a) call" where
  "then_unpin i m = sattempt m (\<lambda>r. sbind (kds_buf_unpin i) (\<lambda>_. case r of Inl e \<Rightarrow> sfail (Errno e) | Inr x \<Rightarrow> sret x))"

text \<open>Run a call; on an errno release a frame and return the errno, otherwise go on.\<close>

definition or_unpin :: "nat \<Rightarrow> ('z pool_state_scheme, 'a) call \<Rightarrow> ('a \<Rightarrow> ('z pool_state_scheme, 'b) call) \<Rightarrow> ('z pool_state_scheme, 'b) call" where
  "or_unpin i m k = sattempt m (\<lambda>r. case r of Inl e \<Rightarrow> sbind (kds_buf_unpin i) (\<lambda>_. sfail (Errno e)) | Inr x \<Rightarrow> k x)"

definition or_panic :: "('s, 'a) call \<Rightarrow> ('s, 'a) call" where
  "or_panic m = sattempt m (\<lambda>r. case r of Inl e \<Rightarrow> sfail Panic | Inr x \<Rightarrow> sret x)"

fun for_each :: "('a \<Rightarrow> ('s, unit) call) \<Rightarrow> 'a list \<Rightarrow> ('s, unit) call" where
  "for_each f [] = sret ()"
| "for_each f (x # xs) = sbind (f x) (\<lambda>_. for_each f xs)"

section \<open>The in-memory registry\<close>

definition kds_catalog_register_sys_object :: "kds_sys_object \<Rightarrow> ('z cat_state_scheme, unit) call" where
  "kds_catalog_register_sys_object obj = sbind sget (\<lambda>s.
     if KDS_CATALOG_MAX_SYS_OBJECTS \<le> length (g_sys_objects s) then sfail Panic
     else smod (\<lambda>s. s\<lparr>g_sys_objects := g_sys_objects s @ [obj]\<rparr>))"

definition kds_catalog_get_sys_object :: "'z cat_state_scheme \<Rightarrow> u64 \<Rightarrow> kds_sys_object option" where
  "kds_catalog_get_sys_object s oid = find (\<lambda>obj. so_oid obj = oid) (g_sys_objects s)"

definition kds_catalog_get_sys_object_by_name :: "'z cat_state_scheme \<Rightarrow> u8 list option \<Rightarrow> kds_sys_object option" where
  "kds_catalog_get_sys_object_by_name s name = (case name of None \<Rightarrow> None
     | Some n \<Rightarrow> find (\<lambda>obj. strneq KDS_CATALOG_NAME_MAX (so_name obj) n) (g_sys_objects s))"

definition kds_schema_find_column :: "kds_schema option \<Rightarrow> u8 list option \<Rightarrow> kds_sys_column option" where
  "kds_schema_find_column schema name = (case (schema, name) of
       (Some sch, Some n) \<Rightarrow> find (\<lambda>c. strneq KDS_CATALOG_NAME_MAX (sc_name c) n) (take (unat (nr_cols sch)) (sch_cols sch))
     | _ \<Rightarrow> None)"

definition register_namespace :: "u64 \<Rightarrow> string \<Rightarrow> ('z cat_state_scheme, unit) call" where
  "register_namespace oid name = kds_catalog_register_sys_object
     \<lparr>so_oid = oid, so_namespace_oid = oid, so_type_oid = KDS_OID_TYPE_NAMESPACE, so_rel_id = 0, so_name = set_name (bytes_of name)\<rparr>"

definition register_type :: "u64 \<Rightarrow> string \<Rightarrow> ('z cat_state_scheme, unit) call" where
  "register_type oid name = kds_catalog_register_sys_object
     \<lparr>so_oid = oid, so_namespace_oid = KDS_OID_NAMESPACE_SYS, so_type_oid = oid, so_rel_id = 0, so_name = set_name (bytes_of name)\<rparr>"

definition well_known_types :: "(u64 \<times> string) list" where
  "well_known_types =
     [(KDS_OID_TYPE_INT, ''type_int''), (KDS_OID_TYPE_VARCHAR, ''type_varchar''), (KDS_OID_TYPE_CHAR, ''type_char''),
      (KDS_OID_TYPE_SCHEMA, ''type_schema''), (KDS_OID_TYPE_BOOL, ''type_bool''), (KDS_OID_TYPE_BYTES, ''type_bytes''),
      (KDS_OID_TYPE_NAMESPACE, ''type_namespace''), (KDS_OID_TYPE_ATTRIBUTE, ''type_attribute''),
      (KDS_OID_TYPE_COLUMN, ''type_column''), (KDS_OID_TYPE_PAGE, ''type_page''), (KDS_OID_TYPE_TABLE, ''type_table''),
      (KDS_OID_TYPE_OPERATOR, ''type_operator''), (KDS_OID_TYPE_INDEX, ''type_index''), (KDS_OID_TYPE_INT8, ''type_int8''),
      (KDS_OID_TYPE_INT16, ''type_int16''), (KDS_OID_TYPE_INT32, ''type_int32''), (KDS_OID_TYPE_FLOAT, ''type_float''),
      (KDS_OID_TYPE_DECIMAL, ''type_decimal'')]"

definition kds_catalog_init_well_known_objects :: "('z cat_state_scheme, unit) call" where
  "kds_catalog_init_well_known_objects =
     sbind (register_namespace KDS_OID_NAMESPACE_SYS ''namespaceSys'') (\<lambda>_.
     sbind (register_namespace KDS_OID_NAMESPACE_PUBLIC ''namespacePublic'') (\<lambda>_.
     for_each (\<lambda>(oid, name). register_type oid name) well_known_types))"

section \<open>Inserting rows\<close>

definition bootstrap_one_catalog_page :: "kenv \<Rightarrow> u64 \<Rightarrow> ('z cat_state_scheme, unit) call" where
  "bootstrap_one_catalog_page env page_id =
     sbind (kds_buf_alloc_new env page_id) (\<lambda>i.
     sbind (on_frame i (unit_op heap_init_page)) (\<lambda>_. kds_buf_unpin i))"

text \<open>The common part of the four row inserts: pin the catalogue page, insert the row, unpin, return the result.\<close>

definition insert_row :: "kenv \<Rightarrow> u64 \<Rightarrow> u8 list \<Rightarrow> ('z cat_state_scheme, unit) call" where
  "insert_row env page_id row =
     sbind (load_page env page_id) (\<lambda>i.
     then_unpin i (sbind (on_frame i (\<lambda>f. heap_insert_tuple f (Some row) (of_nat (length row)) KDS_BOOTSTRAP_XID))
       (\<lambda>tid. sret ())))"

definition kds_catalog_insert_object_row :: "kenv \<Rightarrow> u64 \<Rightarrow> u64 \<Rightarrow> u64 \<Rightarrow> u8 list \<Rightarrow> ('z cat_state_scheme, unit) call" where
  "kds_catalog_insert_object_row env oid namespace_oid type_oid name =
     insert_row env KDS_CATALOG_PAGE_OBJECTS (enc_sys_object
       \<lparr>so_oid = oid, so_namespace_oid = namespace_oid, so_type_oid = type_oid, so_rel_id = 0, so_name = set_name name\<rparr>)"

definition kds_catalog_insert_relation_row ::
  "kenv \<Rightarrow> u64 \<Rightarrow> u64 \<Rightarrow> u8 list \<Rightarrow> u64 \<Rightarrow> u32 \<Rightarrow> ('z cat_state_scheme, unit) call" where
  "kds_catalog_insert_relation_row env oid namespace_oid name desc_page_id clustered_type =
     insert_row env KDS_CATALOG_PAGE_TABLES (enc_sys_table
       \<lparr>st_oid = oid, st_namespace_oid = namespace_oid, st_name = set_name name, st_desc_page_id = desc_page_id,
        st_clustered_type = ucast clustered_type\<rparr>)"

definition insert_sys_column_row ::
  "kenv \<Rightarrow> u64 \<Rightarrow> u64 \<Rightarrow> u32 \<Rightarrow> u8 list \<Rightarrow> u32 \<Rightarrow> u32 \<Rightarrow> bool \<Rightarrow> ('z cat_state_scheme, unit) call" where
  "insert_sys_column_row env oid rel_id pos name tval len notnull =
     insert_row env KDS_CATALOG_PAGE_COLUMNS (enc_sys_column
       \<lparr>sc_oid = oid, sc_rel_id = rel_id, sc_pos = pos, sc_name = set_name name, sc_type_val = tval, sc_len = len,
        sc_notnull = of_bool notnull\<rparr>)"

definition insert_sys_type_row :: "kenv \<Rightarrow> u64 \<Rightarrow> u8 list \<Rightarrow> u32 \<Rightarrow> u32 \<Rightarrow> ('z cat_state_scheme, unit) call" where
  "insert_sys_type_row env oid name tval len =
     insert_row env KDS_CATALOG_PAGE_TYPES (enc_sys_type \<lparr>sy_oid = oid, sy_name = set_name name, sy_type_val = tval, sy_len = len\<rparr>)"

section \<open>Bootstrap\<close>

definition sys_tables :: "(u64 \<times> string \<times> u64) list" where
  "sys_tables = [(KDS_OID_SYS_TYPES_TABLE, ''types'', KDS_CATALOG_PAGE_TYPES),
     (KDS_OID_SYS_OBJECTS_TABLE, ''objects'', KDS_CATALOG_PAGE_OBJECTS),
     (KDS_OID_SYS_COLUMNS_TABLE, ''columns'', KDS_CATALOG_PAGE_COLUMNS),
     (KDS_OID_SYS_TABLES_TABLE, ''tables'', KDS_CATALOG_PAGE_TABLES)]"

definition bootstrap_types :: "(u64 \<times> string) list" where
  "bootstrap_types = [(KDS_OID_TYPE_INT8, ''int8''), (KDS_OID_TYPE_INT16, ''int16''), (KDS_OID_TYPE_INT32, ''int32''),
     (KDS_OID_TYPE_INT64, ''int64''), (KDS_OID_TYPE_FLOAT, ''float''), (KDS_OID_TYPE_DECIMAL, ''decimal''),
     (KDS_OID_TYPE_BOOL, ''bool''), (KDS_OID_TYPE_VARCHAR, ''varchar''), (KDS_OID_TYPE_CHAR, ''char'')]"

definition kds_catalog_bootstrap :: "kenv \<Rightarrow> (string \<Rightarrow> int res) \<Rightarrow> ('z cat_state_scheme, unit) call" where
  "kds_catalog_bootstrap env kstrtoll =
     sbind kds_catalog_init_well_known_objects (\<lambda>_.
     sbind (for_each (\<lambda>(oid, name, page_id). or_panic (bootstrap_one_catalog_page env page_id)) sys_tables) (\<lambda>_.
     sbind (for_each (\<lambda>(oid, name, page_id).
       or_panic (kds_catalog_insert_object_row env oid KDS_OID_NAMESPACE_SYS KDS_OID_TYPE_TABLE (bytes_of name))) sys_tables) (\<lambda>_.
     sbind (for_each (\<lambda>(oid, name, page_id).
       or_panic (kds_catalog_insert_relation_row env oid KDS_OID_NAMESPACE_SYS (bytes_of name) page_id KDS_CLUSTERED_HEAP)) sys_tables) (\<lambda>_.
     for_each (\<lambda>(oid, name). case kds_type_lookup_by_name kstrtoll name of
         None \<Rightarrow> sfail Panic
       | Some desc \<Rightarrow> or_panic (insert_sys_type_row env oid (bytes_of (type_name desc)) (type_val_code (type_val desc)) (of_nat (fixed_len desc))))
       bootstrap_types))))"

section \<open>Creating a table\<close>

definition kds_catalog_generate_user_oid :: "('z cat_state_scheme, u64) call" where
  "kds_catalog_generate_user_oid =
     sbind (smod (\<lambda>s. s\<lparr>g_user_oid_counter := g_user_oid_counter s + 1\<rparr>)) (\<lambda>_. sbind sget (\<lambda>s. sret (g_user_oid_counter s)))"

text \<open>Allocate and initialise the storage root page of a new table.\<close>

definition table_root_page :: "u32 \<Rightarrow> ('z cat_state_scheme, nat) call" where
  "table_root_page clustered_type =
     (if clustered_type = KDS_CLUSTERED_HEAP
      then sbind (kds_page_alloc KDS_PAGE_TYPE_HEAP) (\<lambda>r. case r of None \<Rightarrow> sfail (Errno ENOSPC)
             | Some i \<Rightarrow> sbind (on_frame i (unit_op heap_init_page)) (\<lambda>_. sret i))
      else if clustered_type = KDS_CLUSTERED_BTREE
      then sbind (kds_page_alloc KDS_PAGE_TYPE_BTREE_ROOT) (\<lambda>r. case r of None \<Rightarrow> sfail (Errno ENOSPC)
             | Some i \<Rightarrow> sbind (btree_init_root_kpage i) (\<lambda>_. sret i))
      else sfail (Errno EINVAL))"

fun insert_columns :: "kenv \<Rightarrow> nat \<Rightarrow> u64 \<Rightarrow> kds_schema \<Rightarrow> nat list \<Rightarrow> ('z cat_state_scheme, unit) call" where
  "insert_columns env root new_oid schema [] = sret ()"
| "insert_columns env root new_oid schema (i # is) =
     (if length (sch_cols schema) \<le> i then sfail Fault
      else let col = sch_cols schema ! i in
        sbind kds_catalog_generate_user_oid (\<lambda>col_oid.
        or_unpin root (insert_sys_column_row env col_oid new_oid (sc_pos col) (sc_name col) (sc_type_val col) (sc_len col)
                         (sc_notnull col \<noteq> 0))
          (\<lambda>_. insert_columns env root new_oid schema is)))"

definition kds_catalog_create_table ::
  "kenv \<Rightarrow> u64 \<Rightarrow> u8 list option \<Rightarrow> kds_schema option \<Rightarrow> u32 \<Rightarrow> ('z cat_state_scheme, u64) call" where
  "kds_catalog_create_table env namespace_oid name schema clustered_type =
     (case (name, schema) of
        (Some nm, Some sch) \<Rightarrow>
          sbind (table_root_page clustered_type) (\<lambda>root.
          sbind kds_catalog_generate_user_oid (\<lambda>new_oid.
          or_unpin root (kds_catalog_insert_object_row env new_oid namespace_oid KDS_OID_TYPE_TABLE nm) (\<lambda>_.
          sbind (the_kp root) (\<lambda>kp.
          or_unpin root (kds_catalog_insert_relation_row env new_oid namespace_oid nm (kp_id kp) clustered_type) (\<lambda>_.
          sbind (insert_columns env root new_oid sch [0 ..< unat (nr_cols sch)]) (\<lambda>_.
          sbind (kds_buf_unpin root) (\<lambda>_. sret new_oid)))))))
      | _ \<Rightarrow> sfail (Errno EINVAL))"

section \<open>Reading the catalogue\<close>

fun find_table_row :: "kds_frame \<Rightarrow> u64 \<Rightarrow> nat list \<Rightarrow> kds_sys_table res" where
  "find_table_row f table_oid [] = fails ENOENT"
| "find_table_row f table_oid (slot # slots) =
     (case heap_read_tuple f (of_nat slot) True 89 of
        Inl (Errno ENOENT) \<Rightarrow> find_table_row f table_oid slots
      | Inl (Errno e) \<Rightarrow> fails ENOENT
      | Inl x \<Rightarrow> Inl x
      | Inr (hdr, bs) \<Rightarrow> let row = dec_sys_table bs in
          if st_oid row = table_oid then Inr row else find_table_row f table_oid slots)"

definition page_slots :: "kds_frame \<Rightarrow> nat list res" where
  "page_slots f = rbind (heap_nr_slots f) (\<lambda>n. Inr [0 ..< unat n])"

text \<open>Scan the slots of a cached page with a read-only loop.\<close>

definition scan_page :: "kenv \<Rightarrow> u64 \<Rightarrow> (kds_frame \<Rightarrow> nat list \<Rightarrow> 'a res) \<Rightarrow> ('z cat_state_scheme, 'a) call" where
  "scan_page env page_id loop =
     sbind (load_page env page_id) (\<lambda>i.
     then_unpin i (sbind sget (\<lambda>s. slift (rbind (page_slots (pframes s i)) (loop (pframes s i))))))"

definition kds_catalog_get_sys_table_row :: "kenv \<Rightarrow> u64 \<Rightarrow> ('z cat_state_scheme, kds_sys_table) call" where
  "kds_catalog_get_sys_table_row env table_oid = scan_page env KDS_CATALOG_PAGE_TABLES (\<lambda>f. find_table_row f table_oid)"

fun find_object_row :: "kds_frame \<Rightarrow> u8 list \<Rightarrow> nat list \<Rightarrow> u64 res" where
  "find_object_row f name [] = fails ENOENT"
| "find_object_row f name (slot # slots) =
     (case heap_read_tuple f (of_nat slot) True 96 of
        Inl (Errno ENOENT) \<Rightarrow> find_object_row f name slots
      | Inl (Errno e) \<Rightarrow> fails ENOENT
      | Inl x \<Rightarrow> Inl x
      | Inr (hdr, bs) \<Rightarrow> let row = dec_sys_object bs in
          if so_type_oid row = KDS_OID_TYPE_TABLE \<and> strneq KDS_CATALOG_NAME_MAX (so_name row) name then Inr (so_oid row)
          else find_object_row f name slots)"

definition kds_catalog_find_table_oid_by_name :: "kenv \<Rightarrow> u8 list option \<Rightarrow> ('z cat_state_scheme, u64) call" where
  "kds_catalog_find_table_oid_by_name env name = (case name of None \<Rightarrow> sfail (Errno EINVAL)
     | Some n \<Rightarrow> scan_page env KDS_CATALOG_PAGE_OBJECTS (\<lambda>f. find_object_row f n))"

fun collect_columns :: "kds_frame \<Rightarrow> u64 \<Rightarrow> nat list \<Rightarrow> kds_sys_column list \<Rightarrow> kds_sys_column list res" where
  "collect_columns f rel_id [] cols = Inr cols"
| "collect_columns f rel_id (slot # slots) cols =
     (if KDS_SCHEMA_MAX_COLUMNS \<le> length cols then Inr cols
      else case heap_read_tuple f (of_nat slot) True 93 of
        Inl (Errno ENOENT) \<Rightarrow> collect_columns f rel_id slots cols
      | Inl x \<Rightarrow> Inl x
      | Inr (hdr, bs) \<Rightarrow> let col = dec_sys_column bs in
          collect_columns f rel_id slots (if sc_rel_id col = rel_id then cols @ [col] else cols))"

definition kds_catalog_build_schema_from_columns :: "kenv \<Rightarrow> u64 \<Rightarrow> ('z cat_state_scheme, kds_schema) call" where
  "kds_catalog_build_schema_from_columns env rel_id =
     sbind (scan_page env KDS_CATALOG_PAGE_COLUMNS (\<lambda>f slots. collect_columns f rel_id slots [])) (\<lambda>cols.
     if cols = [] then sfail (Errno ENOENT) else sret \<lparr>sch_cols = cols, nr_cols = of_nat (length cols)\<rparr>)"

definition kds_catalog_init_table_access :: "kenv \<Rightarrow> u64 \<Rightarrow> u64 \<Rightarrow> ('z cat_state_scheme, kds_table_access) call" where
  "kds_catalog_init_table_access env namespace_oid oid =
     sbind (kds_catalog_get_sys_table_row env oid) (\<lambda>row.
     sbind (kds_catalog_build_schema_from_columns env oid) (\<lambda>schema.
     sret \<lparr>ta_namespace_oid = namespace_oid, ta_oid = oid, ta_schema = schema, ta_desc_page_id = st_desc_page_id row,
       ta_clustered_type = ucast (st_clustered_type row)\<rparr>))"

section \<open>Moving a root page\<close>

fun overwrite_table_row :: "u64 \<Rightarrow> u64 \<Rightarrow> nat list \<Rightarrow> kds_frame \<Rightarrow> kds_frame res" where
  "overwrite_table_row table_oid new_pid [] f = fails ENOENT"
| "overwrite_table_row table_oid new_pid (slot # slots) f =
     (case heap_read_tuple f (of_nat slot) True 89 of
        Inl (Errno ENOENT) \<Rightarrow> overwrite_table_row table_oid new_pid slots f
      | Inl x \<Rightarrow> Inl x
      | Inr (hdr, bs) \<Rightarrow> let row = dec_sys_table bs in
          if st_oid row \<noteq> table_oid then overwrite_table_row table_oid new_pid slots f
          else heap_overwrite_tuple f (of_nat slot) (Some (enc_sys_table (row\<lparr>st_desc_page_id := new_pid\<rparr>))) 89
                 (xmin hdr) (xmax hdr) (undo_ptr hdr))"

definition kds_catalog_update_relation_desc_page :: "kenv \<Rightarrow> u64 \<Rightarrow> u64 \<Rightarrow> ('z cat_state_scheme, unit) call" where
  "kds_catalog_update_relation_desc_page env table_oid new_desc_page_id =
     sbind (load_page env KDS_CATALOG_PAGE_TABLES) (\<lambda>i.
     then_unpin i (on_frame i (unit_op (\<lambda>f. rbind (page_slots f) (\<lambda>slots. overwrite_table_row table_oid new_desc_page_id slots f)))))"

section \<open>Row layouts\<close>

lemma sys_object_codec:
  "length (so_name r) = 64 \<Longrightarrow> length (enc_sys_object r) = 96" "dec_sys_object (enc_sys_object r) = r"
  "length bs = 96 \<Longrightarrow> length (so_name (dec_sys_object bs)) = 64" "length bs = 96 \<Longrightarrow> enc_sys_object (dec_sys_object bs) = bs"
proof -
  show "dec_sys_object (enc_sys_object r) = r" by (cases r) (simp add: dec_sys_object_def enc_sys_object_def)
  show "length bs = 96 \<Longrightarrow> enc_sys_object (dec_sys_object bs) = bs"
    using take_drop_glue [of 8 0 bs] take_drop_glue [of 8 8 bs] take_drop_glue [of 8 16 bs] take_drop_glue [of 8 24 bs]
    by (simp add: enc_sys_object_def dec_sys_object_def enc64_dec64)
qed (simp_all add: enc_sys_object_def dec_sys_object_def)

lemma sys_table_codec:
  "length (st_name r) = 64 \<Longrightarrow> length (enc_sys_table r) = 89" "length (st_name r) = 64 \<Longrightarrow> dec_sys_table (enc_sys_table r) = r"
  "length bs = 89 \<Longrightarrow> length (st_name (dec_sys_table bs)) = 64" "length bs = 89 \<Longrightarrow> enc_sys_table (dec_sys_table bs) = bs"
proof -
  show "length (st_name r) = 64 \<Longrightarrow> dec_sys_table (enc_sys_table r) = r"
    by (cases r) (simp add: dec_sys_table_def enc_sys_table_def nth_append)
  show "length bs = 89 \<Longrightarrow> enc_sys_table (dec_sys_table bs) = bs"
    using take_drop_glue [of 8 0 bs] take_drop_glue [of 8 8 bs] take_drop_glue [of 64 16 bs] take_drop_glue [of 8 80 bs]
      Cons_nth_drop_Suc [of 88 bs]
    by (simp add: enc_sys_table_def dec_sys_table_def enc64_dec64)
qed (simp_all add: enc_sys_table_def dec_sys_table_def)

lemma sys_column_codec:
  "length (sc_name r) = 64 \<Longrightarrow> length (enc_sys_column r) = 93" "length (sc_name r) = 64 \<Longrightarrow> dec_sys_column (enc_sys_column r) = r"
  "length bs = 93 \<Longrightarrow> length (sc_name (dec_sys_column bs)) = 64" "length bs = 93 \<Longrightarrow> enc_sys_column (dec_sys_column bs) = bs"
proof -
  show "length (sc_name r) = 64 \<Longrightarrow> dec_sys_column (enc_sys_column r) = r"
    by (cases r) (simp add: dec_sys_column_def enc_sys_column_def nth_append)
  show "length bs = 93 \<Longrightarrow> enc_sys_column (dec_sys_column bs) = bs"
    using take_drop_glue [of 8 0 bs] take_drop_glue [of 8 8 bs] take_drop_glue [of 4 16 bs] take_drop_glue [of 64 20 bs]
      take_drop_glue [of 4 84 bs] take_drop_glue [of 4 88 bs] Cons_nth_drop_Suc [of 92 bs]
    by (simp add: enc_sys_column_def dec_sys_column_def enc64_dec64 enc32_dec32)
qed (simp_all add: enc_sys_column_def dec_sys_column_def)

lemma sys_type_codec:
  "length (sy_name r) = 64 \<Longrightarrow> length (enc_sys_type r) = 80" "length (sy_name r) = 64 \<Longrightarrow> dec_sys_type (enc_sys_type r) = r"
  "length bs = 80 \<Longrightarrow> length (sy_name (dec_sys_type bs)) = 64" "length bs = 80 \<Longrightarrow> enc_sys_type (dec_sys_type bs) = bs"
proof -
  show "length (sy_name r) = 64 \<Longrightarrow> dec_sys_type (enc_sys_type r) = r"
    by (cases r) (simp add: dec_sys_type_def enc_sys_type_def)
  show "length bs = 80 \<Longrightarrow> enc_sys_type (dec_sys_type bs) = bs"
    using take_drop_glue [of 8 0 bs] take_drop_glue [of 64 8 bs] take_drop_glue [of 4 72 bs]
    by (simp add: enc_sys_type_def dec_sys_type_def enc64_dec64 enc32_dec32)
qed (simp_all add: enc_sys_type_def dec_sys_type_def)

section \<open>Names\<close>

lemma strneq_iff: "strneq n a b \<longleftrightarrow> cstr n a = cstr n b"
proof (induction n arbitrary: a b)
  case 0
  then show ?case by (simp add: cstr_def)
next
  case (Suc n)
  show ?case by (cases a; cases b) (auto simp: cstr_def Suc Let_def)
qed

lemma length_set_name [simp]: "length (set_name n) = 64"
  using length_takeWhile_le [of "\<lambda>b. b \<noteq> 0" "take 63 n"]
  by (simp add: set_name_def cstr_def Let_def KDS_CATALOG_NAME_MAX_def)

lemma cstr_set_name: "cstr 64 (set_name n) = cstr 63 n"
proof -
  have l: "length (cstr 63 n) \<le> 63" using length_takeWhile_le [of "\<lambda>b. b \<noteq> 0" "take 63 n"] by (simp add: cstr_def)
  have "\<forall>b \<in> set (cstr 63 n). b \<noteq> 0" by (auto simp: cstr_def dest: set_takeWhileD)
  then show ?thesis
    using l by (simp add: cstr_def [of 64] set_name_def Let_def KDS_CATALOG_NAME_MAX_def takeWhile_append)
qed

text \<open>A name that fits the field, terminator included.\<close>

definition short_name :: "u8 list \<Rightarrow> bool" where
  "short_name n \<longleftrightarrow> length (cstr 64 n) < 64"

lemma cstr_short: "short_name n \<Longrightarrow> cstr 63 n = cstr 64 n"
proof -
  assume s: "short_name n"
  have *: "take 64 n = take 63 n @ take 1 (drop 63 n)" using take_add [of 63 1 n] by simp
  show ?thesis
  proof (cases "\<forall>b \<in> set (take 63 n). b \<noteq> 0")
    case False
    then show ?thesis by (auto simp: cstr_def * takeWhile_append1)
  next
    case True
    then have "cstr 64 n = take 63 n @ takeWhile (\<lambda>b. b \<noteq> 0) (take 1 (drop 63 n))"
      by (simp add: cstr_def *)
    moreover have "cstr 63 n = take 63 n" using True by (simp add: cstr_def)
    ultimately show ?thesis using s by (cases "drop 63 n") (auto simp: short_name_def split: if_splits)
  qed
qed

lemma own_name: "short_name n \<Longrightarrow> strneq 64 (set_name n) m \<longleftrightarrow> cstr 64 n = cstr 64 m"
  by (simp add: strneq_iff cstr_set_name cstr_short)

section \<open>Rows in a heap page\<close>

text \<open>The decoded live rows of a page, and a page whose live tuples all have the row's size.\<close>

definition page_rows :: "(u8 list \<Rightarrow> 'a) \<Rightarrow> kds_frame \<Rightarrow> 'a list" where
  "page_rows dec f = List.map_filter (map_option (\<lambda>(h, d, c). dec d)) (v_slots (frame_view f))"

definition row_page :: "nat \<Rightarrow> kds_frame \<Rightarrow> bool" where
  "row_page w f \<longleftrightarrow> heap_ok f \<and> (\<forall>h d c. Some (h, d, c) \<in> set (v_slots (frame_view f)) \<longrightarrow> length d = w)"

definition page_room :: "kds_frame \<Rightarrow> nat" where
  "page_room f = v_free (frame_view f)"

text \<open>What a heap operation leaves of a frame besides the page: its identity and its pins.\<close>

definition frame_keeps :: "kds_frame \<Rightarrow> kds_frame \<Rightarrow> bool" where
  "frame_keeps f f' \<longleftrightarrow> frame_id f' = frame_id f \<and> fr_state f' = fr_state f \<and> fr_page_id f' = fr_page_id f
     \<and> (\<exists>kp kp' pg. fr_kp f = Some kp \<and> fr_kp f' = Some kp' \<and> fr_page f' = Some pg \<and> kp_id kp' = kp_id kp \<and> kp_refcnt kp' = kp_refcnt kp
          \<and> hdr_reserved1 (kp_hdr kp') = hdr_reserved1 (kp_hdr kp))"

lemma map_filter_append: "List.map_filter g (xs @ ys) = List.map_filter g xs @ List.map_filter g ys"
  by (induction xs) (simp_all split: option.splits)

lemma frame_keeps_put: "fr_kp f = Some kp \<Longrightarrow> frame_keeps f (frame_put f (kds_set_page_dirty kp) pg)"
  by (simp add: frame_keeps_def frame_put_def kds_set_page_dirty_def)

lemma frame_page_kp: "frame_page f = Some (kp, pg) \<longleftrightarrow> fr_kp f = Some kp \<and> fr_page f = Some pg"
  by (auto simp: frame_page_def split: option.splits)

lemma insert_puts:
  assumes "heap_insert_tuple_ex f d l a b c = Inr (tid, f')"
  shows "\<exists>kp pg. fr_kp f = Some kp \<and> f' = frame_put f (kds_set_page_dirty kp) pg"
  using assms
  by (auto simp: heap_insert_tuple_ex_def rbind_ok_iff Let_def frame_page_kp split: option.splits if_splits)

lemma overwrite_puts:
  assumes "heap_overwrite_tuple f i d l a b c = Inr f'"
  shows "\<exists>kp pg. fr_kp f = Some kp \<and> f' = frame_put f (kds_set_page_dirty kp) pg"
  using assms
  by (auto simp: heap_overwrite_tuple_def rbind_ok_iff Let_def frame_page_kp split: option.splits if_splits)

lemma slots_small: "heap_ok f \<Longrightarrow> length (v_slots (frame_view f)) < 65536"
  using unat_bound [where 'a = 16] by (auto simp: nslots_def elim!: heap_okE)

lemma page_slots_eq: "heap_ok f \<Longrightarrow> page_slots f = Inr [0 ..< length (v_slots (frame_view f))]"
  by (auto simp: page_slots_def heap_nr_slots_def nslots_def elim!: heap_okE)

lemma row_page_read:
  assumes "row_page w f" and "i < length (v_slots (frame_view f))"
  shows "heap_read_tuple f (of_nat i) True (of_nat w) =
    (case v_slots (frame_view f) ! i of None \<Rightarrow> fails ENOENT | Some (h, d, c) \<Rightarrow> Inr (h, d))"
proof -
  have ok: "heap_ok f" using assms(1) by (simp add: row_page_def)
  have i: "unat (of_nat i :: u16) = i" using slots_small [OF ok] assms(2) by (intro unat_of_nat16) simp
  show ?thesis
  proof (cases "v_slots (frame_view f) ! i")
    case None
    then have "spec_read (frame_view f) i (unat (of_nat w :: u16)) = fails ENOENT"
      using assms(2) by (simp add: spec_read_def spec_slot_def)
    then show ?thesis using heap_read_refines [OF ok, of "of_nat i" "of_nat w"] None i by simp
  next
    case (Some t)
    obtain h d c where t: "t = (h, d, c)" by (cases t)
    have "Some (h, d, c) \<in> set (v_slots (frame_view f))" using Some t assms(2) nth_mem by metis
    then have "length d = w" using assms(1) by (auto simp: row_page_def)
    then show ?thesis using heap_store.read_live [OF ok, of "of_nat i" h d c] Some t i assms(2) by simp
  qed
qed

lemma map_filter_map: "List.map_filter g (map h ys) = List.map_filter (\<lambda>y. g (h y)) ys"
  by (induction ys) (simp_all split: option.splits)

lemma map_filter_nth: "List.map_filter (\<lambda>i. g (xs ! i)) [0 ..< length xs] = List.map_filter g xs"
  using arg_cong [OF map_nth [of xs], of "List.map_filter g"] by (simp only: map_filter_map)

lemma rows_of_slots:
  "List.map_filter (\<lambda>i. map_option (\<lambda>(h, d, c). dec d) (v_slots (frame_view f) ! i)) [0 ..< length (v_slots (frame_view f))]
   = page_rows dec f"
  by (simp only: page_rows_def map_filter_nth [of "map_option (\<lambda>(h, d, c). dec d)"])

section \<open>The contract of a row store\<close>

text \<open>
  What the catalogue relies on for each kind of row: a fixed-size layout small enough for a heap page. An insertion
  appends the row to the decoded rows or reports a full page; a scan sees the decoded rows in order.
\<close>

locale row_store = layout width enc dec valid
  for width :: nat and enc :: "'a \<Rightarrow> u8 list" and dec :: "u8 list \<Rightarrow> 'a" and valid :: "'a \<Rightarrow> bool" +
  assumes width_small: "width \<le> 8000"
begin

lemma insert_full:
  assumes "row_page width f" and "valid r" and "page_room f < 33 + width"
  shows "heap_insert_tuple f (Some (enc r)) (of_nat width) xid = fails ENOSPC"
  using heap_insert_refines [of f "enc r" xid 0 0] assms width_small enc_width [OF assms(2)]
  by (auto simp: heap_insert_tuple_def spec_insert_def row_page_def page_room_def split: sum.splits)

lemma insert_appends:
  assumes "row_page width f" and "valid r" and "33 + width \<le> page_room f"
  shows "\<exists>tid f'. heap_insert_tuple f (Some (enc r)) (of_nat width) xid = Inr (tid, f') \<and> row_page width f'
    \<and> page_rows dec f' = page_rows dec f @ [r] \<and> page_room f' = page_room f - (33 + width) \<and> frame_keeps f f'
    \<and> v_slots (frame_view f') = v_slots (frame_view f) @ [Some (mk_hdr xid 0 0 width, enc r, width)]"
proof -
  have w: "length (enc r) = width" using enc_width assms(2) .
  have ok: "heap_ok f" using assms(1) by (simp add: row_page_def)
  obtain tid f' where ins: "heap_insert_tuple_ex f (Some (enc r)) (of_nat width) xid 0 0 = Inr (tid, f')"
    using heap_insert_refines [OF ok, of "enc r" xid 0 0] assms(3) w width_small
    by (auto simp: spec_insert_def page_room_def split: sum.splits)
  have S: "v_slots (frame_view f') = v_slots (frame_view f) @ [Some (mk_hdr xid 0 0 width, enc r, width)]"
    "v_free (frame_view f') = v_free (frame_view f) - (33 + width)" "heap_ok f'"
    using heap_insert_refines [OF ok, of "enc r" xid 0 0] ins w width_small
    by (auto simp: spec_insert_def split: if_splits dest: sym [of _ "frame_view f'"])
  have "frame_keeps f f'" using insert_puts [OF ins] frame_keeps_put by blast
  moreover have "row_page width f'" using assms(1) S w by (auto simp: row_page_def)
  moreover have "page_rows dec f' = page_rows dec f @ [r]"
    using S(1) dec_enc [OF assms(2)] by (simp add: page_rows_def map_filter_append)
  ultimately show ?thesis using ins S by (auto simp: heap_insert_tuple_def page_room_def)
qed

lemma read_row:
  assumes "row_page width f" and "i < length (v_slots (frame_view f))"
  shows "heap_read_tuple f (of_nat i) True (of_nat width) =
    (case v_slots (frame_view f) ! i of None \<Rightarrow> fails ENOENT | Some (h, d, c) \<Rightarrow> Inr (h, d))"
  using assms by (rule row_page_read)

end

interpretation sys_object: row_store 96 enc_sys_object dec_sys_object "\<lambda>r. length (so_name r) = 64"
  by unfold_locales (simp_all add: sys_object_codec)

interpretation sys_table: row_store 89 enc_sys_table dec_sys_table "\<lambda>r. length (st_name r) = 64"
  by unfold_locales (simp_all add: sys_table_codec)

interpretation sys_column: row_store 93 enc_sys_column dec_sys_column "\<lambda>r. length (sc_name r) = 64"
  by unfold_locales (simp_all add: sys_column_codec)

interpretation sys_type: row_store 80 enc_sys_type dec_sys_type "\<lambda>r. length (sy_name r) = 64"
  by unfold_locales (simp_all add: sys_type_codec)

section \<open>The scans\<close>

definition row_at :: "(u8 list \<Rightarrow> 'a) \<Rightarrow> kds_frame \<Rightarrow> nat \<Rightarrow> 'a option" where
  "row_at dec f i = map_option (\<lambda>(h, d, c). dec d) (v_slots (frame_view f) ! i)"

lemma page_rows_at: "List.map_filter (row_at dec f) [0 ..< length (v_slots (frame_view f))] = page_rows dec f"
  using rows_of_slots [of dec f] by (simp add: row_at_def [abs_def])

definition found :: "'a option \<Rightarrow> 'a res" where
  "found x = (case x of None \<Rightarrow> fails ENOENT | Some r \<Rightarrow> Inr r)"

lemma table_scan:
  assumes "row_page 89 f" and "\<forall>i \<in> set is. i < length (v_slots (frame_view f))"
  shows "find_table_row f oid is = found (find (\<lambda>r. st_oid r = oid) (List.map_filter (row_at dec_sys_table f) is))"
  using assms(2)
proof (induction "is")
  case Nil
  then show ?case by (simp add: found_def)
next
  case (Cons i "is")
  have "heap_read_tuple f (of_nat i) True 89 = (case v_slots (frame_view f) ! i of None \<Rightarrow> fails ENOENT | Some (h, d, c) \<Rightarrow> Inr (h, d))"
    using sys_table.read_row [OF assms(1), of i] Cons.prems by simp
  then show ?case using Cons by (simp add: found_def row_at_def Let_def split: option.splits)
qed

lemma object_scan:
  assumes "row_page 96 f" and "\<forall>i \<in> set is. i < length (v_slots (frame_view f))"
  shows "find_object_row f n is = rbind (found (find (\<lambda>r. so_type_oid r = KDS_OID_TYPE_TABLE \<and> strneq 64 (so_name r) n)
    (List.map_filter (row_at dec_sys_object f) is))) (\<lambda>r. Inr (so_oid r))"
  using assms(2)
proof (induction "is")
  case Nil
  then show ?case by (simp add: found_def)
next
  case (Cons i "is")
  have "heap_read_tuple f (of_nat i) True 96 = (case v_slots (frame_view f) ! i of None \<Rightarrow> fails ENOENT | Some (h, d, c) \<Rightarrow> Inr (h, d))"
    using sys_object.read_row [OF assms(1), of i] Cons.prems by simp
  then show ?case using Cons by (auto simp: found_def row_at_def Let_def KDS_CATALOG_NAME_MAX_def split: option.splits)
qed

lemma column_scan:
  assumes "row_page 93 f" and "\<forall>i \<in> set is. i < length (v_slots (frame_view f))" and "length cols \<le> 32"
  shows "collect_columns f rel is cols = Inr (take 32 (cols @ filter (\<lambda>c. sc_rel_id c = rel) (List.map_filter (row_at dec_sys_column f) is)))"
  using assms(2,3)
proof (induction "is" arbitrary: cols)
  case Nil
  then show ?case by simp
next
  case (Cons i "is")
  have rd: "heap_read_tuple f (of_nat i) True 93 = (case v_slots (frame_view f) ! i of None \<Rightarrow> fails ENOENT | Some (h, d, c) \<Rightarrow> Inr (h, d))"
    using sys_column.read_row [OF assms(1), of i] Cons.prems by simp
  show ?case
  proof (cases "32 \<le> length cols")
    case True
    then show ?thesis using Cons.prems by (simp add: KDS_SCHEMA_MAX_COLUMNS_def)
  next
    case False
    then show ?thesis using rd Cons.IH [of cols] Cons.IH [of "cols @ [c]" for c] Cons.prems
      by (simp add: row_at_def Let_def KDS_SCHEMA_MAX_COLUMNS_def split: option.splits)
  qed
qed

section \<open>Catalogue pages in the pool\<close>

definition cat_frame :: "'z cat_state_scheme \<Rightarrow> u64 \<Rightarrow> kds_frame" where
  "cat_frame s pid = pframes s (the (pmap s pid))"

definition put_frame :: "nat \<Rightarrow> kds_frame \<Rightarrow> 'z pool_state_scheme \<Rightarrow> 'z pool_state_scheme" where
  "put_frame i f s = upd_frame i (\<lambda>_. f) s"

lemma put_frame_simps [simp]:
  "pframes (put_frame i f s) j = (if j = i then f else pframes s j)" "pmap (put_frame i f s) = pmap s"
  "pool_state.more (put_frame i f s) = pool_state.more s" "disk (put_frame i f s) = disk s"
  "kds_bdev (put_frame i f s) = kds_bdev s" "free_frames (put_frame i f s) = free_frames s"
  by (simp_all add: put_frame_def)

lemma put_frame_put [simp]: "put_frame i g (put_frame i f s) = put_frame i g s"
  by (simp add: put_frame_def upd_frame_def)

lemma put_frame_self: "put_frame i (pframes s i) s = s"
  by (simp add: put_frame_def upd_frame_same)

lemma pool_wf_put:
  assumes "pool_wf s" and "pmap s p = Some i" and "frame_keeps (pframes s i) f"
  shows "pool_wf (put_frame i f s)"
  unfolding put_frame_def using assms pool_wf_id [OF assms(1), of i]
  by (intro pool_wf_touch) (auto simp: frame_keeps_def frame_loaded_def)

lemma cat_frame_put:
  assumes "pool_wf s" and "pmap s p = Some i" and "pmap s q = Some j"
  shows "cat_frame (put_frame i f s) q = (if q = p then f else cat_frame s q)"
  using assms pmap_inj [OF assms(1), of p i q] by (auto simp: cat_frame_def)

text \<open>Pinning, running an operation that does not look at the pin count, unpinning.\<close>

lemma pinned_put: "pinned i kp s = put_frame i ((pframes s i)\<lparr>fr_kp := Some (pin_kpage kp)\<rparr>) s"
  by (simp add: pinned_def put_frame_def upd_frame_def)

lemma view_kp [simp]:
  assumes "fr_kp f \<noteq> None"
  shows "heap_ok (f\<lparr>fr_kp := Some kp\<rparr>) = heap_ok f" "frame_view (f\<lparr>fr_kp := Some kp\<rparr>) = frame_view f"
  using assms by (auto simp: heap_ok_def frame_view_def frame_page_def split: option.splits)

lemma row_page_kp:
  assumes "fr_kp f \<noteq> None"
  shows "row_page w (f\<lparr>fr_kp := Some kp\<rparr>) = row_page w f" "page_rows dec (f\<lparr>fr_kp := Some kp\<rparr>) = page_rows dec f"
    "page_room (f\<lparr>fr_kp := Some kp\<rparr>) = page_room f"
  using assms by (simp_all add: row_page_def page_rows_def page_room_def)

lemma unpin_put: "fr_kp f = Some kp \<Longrightarrow> kds_buf_unpin i (put_frame i f s) = (Inr (), put_frame i (f\<lparr>fr_kp := Some (unpin_kpage kp)\<rparr>) s)"
  by (simp add: kds_buf_unpin_def put_frame_def upd_frame_def)

lemma frame_kp_same: "fr_kp f = Some kp \<Longrightarrow> f\<lparr>fr_kp := Some kp\<rparr> = f"
  by (cases f) simp

lemma unpin_pinned:
  assumes "fr_kp (pframes s i) = Some kp"
  shows "kds_buf_unpin i (put_frame i ((pframes s i)\<lparr>fr_kp := Some (pin_kpage kp)\<rparr>) s) = (Inr (), s)"
  using assms put_frame_self [of i s] by (simp add: unpin_put [where kp = "pin_kpage kp"] frame_kp_same)

lemma scan_page_eq:
  assumes wf: "pool_wf s" and p: "pmap s pid = Some i" and ok: "heap_ok (pframes s i)"
    and loop: "\<And>kp. loop ((pframes s i)\<lparr>fr_kp := Some kp\<rparr>) [0 ..< length (v_slots (frame_view (pframes s i)))] = r"
    and r: "r = Inl (Errno e) \<or> r = Inr x"
  shows "scan_page env pid loop s = (r, s)"
proof -
  obtain kp where kp: "fr_kp (pframes s i) = Some kp" using pool_wf_map(4) [OF wf p] by (auto simp: frame_loaded_def)
  let ?f = "(pframes s i)\<lparr>fr_kp := Some (pin_kpage kp)\<rparr>"
  have sl: "page_slots ?f = Inr [0 ..< length (v_slots (frame_view (pframes s i)))]"
    using page_slots_eq [of ?f] ok kp by simp
  have u: "kds_buf_unpin i (put_frame i ?f s) = (Inr (), s)" using kp by (rule unpin_pinned)
  show ?thesis
    using load_root [OF wf p kp, of env] r u sl loop [of "pin_kpage kp"]
    by (auto simp: scan_page_def then_unpin_def sattempt_def call_defs pinned_put)
qed

text \<open>A row insert into a cached catalogue page.\<close>

lemma insert_row_full:
  assumes wf: "pool_wf s" and p: "pmap s pid = Some i"
    and full: "\<And>f. fr_kp f \<noteq> None \<Longrightarrow> frame_view f = frame_view (pframes s i) \<Longrightarrow> heap_ok f = heap_ok (pframes s i) \<Longrightarrow>
      heap_insert_tuple f (Some row) (of_nat (length row)) KDS_BOOTSTRAP_XID = fails ENOSPC"
  shows "insert_row env pid row s = (fails ENOSPC, s)"
proof -
  obtain kp where kp: "fr_kp (pframes s i) = Some kp" using pool_wf_map(4) [OF wf p] by (auto simp: frame_loaded_def)
  let ?f = "(pframes s i)\<lparr>fr_kp := Some (pin_kpage kp)\<rparr>"
  have u: "kds_buf_unpin i (put_frame i ?f s) = (Inr (), s)" using kp by (rule unpin_pinned)
  have "heap_insert_tuple ?f (Some row) (of_nat (length row)) KDS_BOOTSTRAP_XID = fails ENOSPC"
    using kp by (intro full) simp_all
  then show ?thesis
    using load_root [OF wf p kp, of env] u
    by (simp add: insert_row_def then_unpin_def sattempt_def call_defs pinned_put on_frame_def)
qed

lemma insert_row_ok:
  assumes wf: "pool_wf s" and p: "pmap s pid = Some i"
    and ins: "\<And>f. fr_kp f \<noteq> None \<Longrightarrow> frame_view f = frame_view (pframes s i) \<Longrightarrow> heap_ok f = heap_ok (pframes s i) \<Longrightarrow>
      \<exists>tid f'. heap_insert_tuple f (Some row) (of_nat (length row)) KDS_BOOTSTRAP_XID = Inr (tid, f') \<and> frame_keeps f f' \<and> P (frame_view f')
        \<and> heap_ok f'"
  shows "\<exists>f'. insert_row env pid row s = (Inr (), put_frame i f' s) \<and> frame_keeps (pframes s i) f' \<and> P (frame_view f') \<and> heap_ok f'"
proof -
  obtain kp where kp: "fr_kp (pframes s i) = Some kp" using pool_wf_map(4) [OF wf p] by (auto simp: frame_loaded_def)
  let ?f = "(pframes s i)\<lparr>fr_kp := Some (pin_kpage kp)\<rparr>"
  obtain tid f' where f': "heap_insert_tuple ?f (Some row) (of_nat (length row)) KDS_BOOTSTRAP_XID = Inr (tid, f')"
    "frame_keeps ?f f'" "P (frame_view f')" "heap_ok f'"
    using ins [of ?f] kp by auto
  obtain kp' where kp': "fr_kp f' = Some kp'" using f'(2) by (auto simp: frame_keeps_def)
  let ?g = "f'\<lparr>fr_kp := Some (unpin_kpage kp')\<rparr>"
  have "frame_keeps (pframes s i) ?g"
    using f'(2) kp kp' by (auto simp: frame_keeps_def pin_kpage_def unpin_kpage_def)
  moreover have "insert_row env pid row s = (Inr (), put_frame i ?g s)"
    using load_root [OF wf p kp, of env] f'(1) unpin_put [OF kp', of i s]
    by (simp add: insert_row_def then_unpin_def sattempt_def call_defs pinned_put on_frame_def put_frame_def [symmetric])
  ultimately show ?thesis using f' kp' by auto
qed

context row_store
begin

lemma insert_row_cases:
  assumes wf: "pool_wf s" and p: "pmap s pid = Some i" and rp: "row_page width (pframes s i)" and v: "valid r"
  shows "page_room (pframes s i) < 33 + width \<and> insert_row env pid (enc r) s = (fails ENOSPC, s)
    \<or> (\<exists>f. 33 + width \<le> page_room (pframes s i) \<and> insert_row env pid (enc r) s = (Inr (), put_frame i f s) \<and> frame_keeps (pframes s i) f
         \<and> row_page width f \<and> page_rows dec f = page_rows dec (pframes s i) @ [r] \<and> page_room f = page_room (pframes s i) - (33 + width))"
proof (cases "page_room (pframes s i) < 33 + width")
  case True
  have "insert_row env pid (enc r) s = (fails ENOSPC, s)"
    using wf p
  proof (rule insert_row_full)
    fix f assume "frame_view f = frame_view (pframes s i)" "heap_ok f = heap_ok (pframes s i)"
    then show "heap_insert_tuple f (Some (enc r)) (of_nat (length (enc r))) KDS_BOOTSTRAP_XID = fails ENOSPC"
      using insert_full [of f r] rp v True enc_width [OF v] by (simp add: row_page_def page_room_def)
  qed
  with True show ?thesis by blast
next
  case False
  let ?P = "\<lambda>w. v_slots w = v_slots (frame_view (pframes s i)) @ [Some (mk_hdr KDS_BOOTSTRAP_XID 0 0 width, enc r, width)]
    \<and> v_free w = v_free (frame_view (pframes s i)) - (33 + width)"
  have "\<exists>f. insert_row env pid (enc r) s = (Inr (), put_frame i f s) \<and> frame_keeps (pframes s i) f \<and> ?P (frame_view f) \<and> heap_ok f"
    using wf p
  proof (rule insert_row_ok)
    fix f assume f: "frame_view f = frame_view (pframes s i)" "heap_ok f = heap_ok (pframes s i)"
    then show "\<exists>tid f'. heap_insert_tuple f (Some (enc r)) (of_nat (length (enc r))) KDS_BOOTSTRAP_XID = Inr (tid, f')
        \<and> frame_keeps f f' \<and> ?P (frame_view f') \<and> heap_ok f'"
      using insert_appends [of f r KDS_BOOTSTRAP_XID] rp v False enc_width [OF v] by (auto simp: row_page_def page_room_def)
  qed
  then obtain f where f: "insert_row env pid (enc r) s = (Inr (), put_frame i f s)" "frame_keeps (pframes s i) f" "?P (frame_view f)" "heap_ok f"
    by blast
  have "row_page width f" using rp f enc_width [OF v] by (auto simp: row_page_def)
  moreover have "page_rows dec f = page_rows dec (pframes s i) @ [r]"
    using f(3) dec_enc [OF v] by (simp add: page_rows_def map_filter_append)
  ultimately show ?thesis using f False by (auto simp: page_room_def)
qed

end

section \<open>The catalogue as an abstract state\<close>

text \<open>
  The rows of the four catalogue pages, the free bytes of each, the object id counter and the ids of the pages staged
  for new tables.
\<close>

record cat_view =
  cv_objects :: "kds_sys_object list"
  cv_tables :: "kds_sys_table list"
  cv_columns :: "kds_sys_column list"
  cv_types :: "kds_sys_type list"
  cv_objects_room :: nat
  cv_tables_room :: nat
  cv_columns_room :: nat
  cv_types_room :: nat
  cv_oid :: u64
  cv_staged :: "u64 list"

definition catalog_view :: "'z cat_state_scheme \<Rightarrow> cat_view" where
  "catalog_view s = \<lparr>cv_objects = page_rows dec_sys_object (cat_frame s 6), cv_tables = page_rows dec_sys_table (cat_frame s 7),
     cv_columns = page_rows dec_sys_column (cat_frame s 5), cv_types = page_rows dec_sys_type (cat_frame s 4),
     cv_objects_room = page_room (cat_frame s 6), cv_tables_room = page_room (cat_frame s 7),
     cv_columns_room = page_room (cat_frame s 5), cv_types_room = page_room (cat_frame s 4),
     cv_oid = g_user_oid_counter s, cv_staged = map (\<lambda>i. fr_page_id (pframes s i)) (ring_items s)\<rparr>"

definition row_width :: "u64 \<Rightarrow> nat" where
  "row_width p = (if p = 4 then 80 else if p = 5 then 93 else if p = 6 then 96 else 89)"

definition hdrs_ok :: "'z pool_state_scheme \<Rightarrow> bool" where
  "hdrs_ok s \<longleftrightarrow> (\<forall>p i kp. pmap s p = Some i \<longrightarrow> fr_kp (pframes s i) = Some kp \<longrightarrow> page_hdr_valid (kp_hdr kp))"

text \<open>The four pages are cached, hold rows of their size, and are not staged for a new table.\<close>

definition catalog_wf :: "'z cat_state_scheme \<Rightarrow> bool" where
  "catalog_wf s \<longleftrightarrow> alloc_wf s \<and> g_alloc s \<and> hdrs_ok s
     \<and> (\<forall>p \<in> {4, 5, 6, 7}. \<exists>i. pmap s p = Some i \<and> i \<notin> set (ring_items s) \<and> row_page (row_width p) (pframes s i))"

lemma catalog_wf_page:
  assumes "catalog_wf s" and "p \<in> {4, 5, 6, 7}"
  obtains i where "pmap s p = Some i" "i \<notin> set (ring_items s)" "row_page (row_width p) (cat_frame s p)" "pframes s i = cat_frame s p"
proof -
  obtain i where i: "pmap s p = Some i" "i \<notin> set (ring_items s)" "row_page (row_width p) (pframes s i)"
    using assms unfolding catalog_wf_def by blast
  have c: "cat_frame s p = pframes s i" using i(1) by (simp only: cat_frame_def option.sel)
  show thesis by (rule that [OF i(1,2)]) (simp_all only: c i(3))
qed

lemma catalog_wf_pool: "catalog_wf s \<Longrightarrow> pool_wf s"
  by (simp add: catalog_wf_def alloc_wf_def)

lemma cat_more:
  assumes "pool_state.more s' = pool_state.more s"
  shows "g_user_oid_counter s' = g_user_oid_counter s" "g_sys_objects s' = g_sys_objects s"
  using assms by (cases s, cases s', simp)+

lemma hdrs_ok_put: "hdrs_ok s \<Longrightarrow> pool_wf s \<Longrightarrow> pmap s p = Some i \<Longrightarrow> frame_keeps (pframes s i) f \<Longrightarrow> hdrs_ok (put_frame i f s)"
  by (auto simp: hdrs_ok_def frame_keeps_def page_hdr_valid_def)

lemma catalog_wf_put:
  assumes wf: "catalog_wf s" and p: "pmap s p = Some i" and k: "frame_keeps (pframes s i) f"
    and r: "p \<in> {4, 5, 6, 7} \<Longrightarrow> row_page (row_width p) f"
  shows "catalog_wf (put_frame i f s)" "ring_items (put_frame i f s) = ring_items s"
proof -
  have pw: "pool_wf s" using wf by (rule catalog_wf_pool)
  have m: "pool_state.more (put_frame i f s) = pool_state.more s" by simp
  show ri: "ring_items (put_frame i f s) = ring_items s" using ring_more [OF m] by simp
  have "alloc_wf (put_frame i f s)"
    using wf pool_wf_put [OF pw p k] ring_more [OF m] by (simp add: catalog_wf_def alloc_wf_def)
  moreover have "g_alloc (put_frame i f s)" using wf alloc_of_more [OF m] by (simp add: catalog_wf_def)
  moreover have "hdrs_ok (put_frame i f s)" using wf hdrs_ok_put [OF _ pw p k] by (simp add: catalog_wf_def)
  moreover have "\<exists>j. pmap s q = Some j \<and> j \<notin> set (ring_items s) \<and> row_page (row_width q) (pframes (put_frame i f s) j)"
    if q: "q \<in> {4, 5, 6, 7}" for q
  proof -
    obtain j where j: "pmap s q = Some j" "j \<notin> set (ring_items s)" "row_page (row_width q) (pframes s j)"
      using wf q by (auto simp: catalog_wf_def)
    have "row_page (row_width q) (pframes (put_frame i f s) j)"
      using r q j pmap_inj [OF pw p, of q] by (cases "j = i") auto
    with j show ?thesis by blast
  qed
  ultimately show "catalog_wf (put_frame i f s)" using ri by (simp add: catalog_wf_def)
qed

lemma staged_put:
  assumes "frame_keeps (pframes s i) f"
  shows "map (\<lambda>j. fr_page_id (pframes (put_frame i f s) j)) js = map (\<lambda>j. fr_page_id (pframes s j)) js"
  using assms by (auto simp: frame_keeps_def)

lemma catalog_view_put:
  fixes s :: "'z cat_state_scheme"
  assumes wf: "catalog_wf s" and p: "pmap s p = Some i" and k: "frame_keeps (pframes s i) f"
  shows "catalog_view (put_frame i f s) = \<lparr>
     cv_objects = page_rows dec_sys_object (if p = 6 then f else cat_frame s 6), cv_tables = page_rows dec_sys_table (if p = 7 then f else cat_frame s 7),
     cv_columns = page_rows dec_sys_column (if p = 5 then f else cat_frame s 5), cv_types = page_rows dec_sys_type (if p = 4 then f else cat_frame s 4),
     cv_objects_room = page_room (if p = 6 then f else cat_frame s 6), cv_tables_room = page_room (if p = 7 then f else cat_frame s 7),
     cv_columns_room = page_room (if p = 5 then f else cat_frame s 5), cv_types_room = page_room (if p = 4 then f else cat_frame s 4),
     cv_oid = g_user_oid_counter s, cv_staged = map (\<lambda>i. fr_page_id (pframes s i)) (ring_items s)\<rparr>"
proof -
  have pw: "pool_wf s" using wf by (rule catalog_wf_pool)
  have m: "pool_state.more (put_frame i f s) = pool_state.more s" by simp
  have c: "cat_frame (put_frame i f s) q = (if p = q then f else cat_frame s q)" if q: "q \<in> {4, 5, 6, 7}" for q
  proof -
    obtain j where "pmap s q = Some j" using wf q by (rule catalog_wf_page)
    then show ?thesis using cat_frame_put [OF pw p, of q j f] by auto
  qed
  show ?thesis
    unfolding catalog_view_def using c [of 4] c [of 5] c [of 6] c [of 7] ring_more [OF m] cat_more [OF m] staged_put [OF k]
    by simp
qed

end
