(* ===== verification/Kds_Catalog_Spec.thy ===== *)
theory Kds_Catalog_Spec
  imports Kds_Catalog
begin

text \<open>
  The catalogue against an abstract specification: lists of rows, free bytes, an id counter and a queue of staged pages
  (\<open>cat_view\<close>). Every step of a table creation simulates a step of the specification (\<open>simulates\<close>, with one rule per
  combinator of the model), so the whole call refines \<open>spec_create_table\<close> on every outcome. The readers return what
  the abstract rows say. Bootstrap, lookups after a creation, moving a root page, and what a failed creation leaves.
\<close>

section \<open>The abstract operations\<close>

definition spec_add_object :: "kds_sys_object \<Rightarrow> (cat_view, unit) call" where
  "spec_add_object r = (\<lambda>v. if cv_objects_room v < 129 then (fails ENOSPC, v)
     else (Inr (), v\<lparr>cv_objects := cv_objects v @ [r], cv_objects_room := cv_objects_room v - 129\<rparr>))"

definition spec_add_table :: "kds_sys_table \<Rightarrow> (cat_view, unit) call" where
  "spec_add_table r = (\<lambda>v. if cv_tables_room v < 122 then (fails ENOSPC, v)
     else (Inr (), v\<lparr>cv_tables := cv_tables v @ [r], cv_tables_room := cv_tables_room v - 122\<rparr>))"

definition spec_add_column :: "kds_sys_column \<Rightarrow> (cat_view, unit) call" where
  "spec_add_column r = (\<lambda>v. if cv_columns_room v < 126 then (fails ENOSPC, v)
     else (Inr (), v\<lparr>cv_columns := cv_columns v @ [r], cv_columns_room := cv_columns_room v - 126\<rparr>))"

definition spec_new_oid :: "(cat_view, u64) call" where
  "spec_new_oid = (\<lambda>v. (Inr (cv_oid v + 1), v\<lparr>cv_oid := cv_oid v + 1\<rparr>))"

definition spec_take_page :: "(cat_view, u64) call" where
  "spec_take_page = (\<lambda>v. case cv_staged v of [] \<Rightarrow> (fails ENOSPC, v) | p # ps \<Rightarrow> (Inr p, v\<lparr>cv_staged := ps\<rparr>))"

definition stored_column :: "u64 \<Rightarrow> u64 \<Rightarrow> kds_sys_column \<Rightarrow> kds_sys_column" where
  "stored_column oid rel c = \<lparr>sc_oid = oid, sc_rel_id = rel, sc_pos = sc_pos c, sc_name = set_name (sc_name c),
     sc_type_val = sc_type_val c, sc_len = sc_len c, sc_notnull = of_bool (sc_notnull c \<noteq> 0)\<rparr>"

definition spec_create_table :: "u64 \<Rightarrow> u8 list \<Rightarrow> kds_sys_column list \<Rightarrow> u32 \<Rightarrow> (cat_view, u64) call" where
  "spec_create_table ns name cols ct =
     (if ct \<noteq> KDS_CLUSTERED_HEAP \<and> ct \<noteq> KDS_CLUSTERED_BTREE then sfail (Errno EINVAL)
      else sbind spec_take_page (\<lambda>p. sbind spec_new_oid (\<lambda>oid.
        sbind (spec_add_object \<lparr>so_oid = oid, so_namespace_oid = ns, so_type_oid = KDS_OID_TYPE_TABLE, so_rel_id = 0, so_name = set_name name\<rparr>) (\<lambda>_.
        sbind (spec_add_table \<lparr>st_oid = oid, st_namespace_oid = ns, st_name = set_name name, st_desc_page_id = p, st_clustered_type = ucast ct\<rparr>) (\<lambda>_.
        sbind (for_each (\<lambda>c. sbind spec_new_oid (\<lambda>co. spec_add_column (stored_column co oid c))) cols) (\<lambda>_. sret oid))))))"

section \<open>Simulation\<close>

text \<open>
  \<open>simulates p i m sm\<close>: from a well-formed catalogue in which frame \<open>i\<close> caches page \<open>p\<close>, the call \<open>m\<close> does what
  \<open>sm\<close> does on the abstract catalogue, and keeps the catalogue well-formed.
\<close>

definition simulates :: "u64 \<Rightarrow> nat \<Rightarrow> ('z cat_state_scheme, 'a) call \<Rightarrow> (cat_view, 'a) call \<Rightarrow> bool" where
  "simulates p i m sm \<longleftrightarrow> (\<forall>s. catalog_wf s \<longrightarrow> pmap s p = Some i \<longrightarrow>
     (case m s of (r, s') \<Rightarrow> catalog_wf s' \<and> pmap s' = pmap s \<and> sm (catalog_view s) = (r, catalog_view s')))"

named_theorems sim_rules

lemma simulatesI:
  assumes "\<And>s. catalog_wf s \<Longrightarrow> pmap s p = Some i \<Longrightarrow>
    catalog_wf (snd (m s)) \<and> pmap (snd (m s)) = pmap s \<and> sm (catalog_view s) = (fst (m s), catalog_view (snd (m s)))"
  shows "simulates p i m sm"
  unfolding simulates_def using assms by (simp add: case_prod_unfold)

lemma simulatesD:
  assumes "simulates p i m sm" and "catalog_wf s" and "pmap s p = Some i" and "m s = (r, s')"
  shows "catalog_wf s'" "pmap s' = pmap s" "sm (catalog_view s) = (r, catalog_view s')"
  using assms(1) [unfolded simulates_def, rule_format, OF assms(2,3)] assms(4) by simp_all

lemma sim_ret [sim_rules]: "simulates p i (sret x) (sret x)"
  by (simp add: simulates_def sret_def)

lemma sim_fail [sim_rules]: "simulates p i (sfail x) (sfail x)"
  by (simp add: simulates_def sfail_def)

lemma sim_bind [sim_rules]:
  assumes m: "simulates p i m sm" and k: "\<And>x. simulates p i (k x) (sk x)"
  shows "simulates p i (sbind m k) (sbind sm sk)"
proof (rule simulatesI)
  fix s :: "'a cat_state_scheme" assume s: "catalog_wf s" "pmap s p = Some i"
  obtain r s' where r: "m s = (r, s')" by fastforce
  note M = simulatesD [OF m s r]
  show "catalog_wf (snd (sbind m k s)) \<and> pmap (snd (sbind m k s)) = pmap s
    \<and> sbind sm sk (catalog_view s) = (fst (sbind m k s), catalog_view (snd (sbind m k s)))"
  proof (cases r)
    case (Inl e)
    then show ?thesis using M r by (simp add: sbind_def)
  next
    case (Inr x)
    obtain r2 s2 where r2: "k x s' = (r2, s2)" by fastforce
    show ?thesis using simulatesD [OF k M(1) _ r2] M(2,3) s(2) r Inr r2 by (simp add: sbind_def)
  qed
qed

lemma sim_unpin [sim_rules]: "simulates p i (kds_buf_unpin i) (sret ())"
proof (rule simulatesI)
  fix s :: "'a cat_state_scheme" assume s: "catalog_wf s" "pmap s p = Some i"
  obtain kp pg where kp: "fr_kp (pframes s i) = Some kp" "fr_page (pframes s i) = Some pg"
    using pool_wf_map(4) [OF catalog_wf_pool [OF s(1)] s(2)] by (auto simp: frame_loaded_def)
  let ?f = "(pframes s i)\<lparr>fr_kp := Some (unpin_kpage kp)\<rparr>"
  have u: "kds_buf_unpin i s = (Inr (), put_frame i ?f s)"
    using kp by (simp add: kds_buf_unpin_def put_frame_def upd_frame_def)
  have pw: "pool_wf s" using s(1) by (rule catalog_wf_pool)
  have "pool_wf (put_frame i ?f s)"
    unfolding put_frame_def using pw kp pool_wf_map [OF pw s(2)] pool_wf_id [OF pw, of i]
    by (intro pool_wf_touch) (auto simp: frame_loaded_def unpin_kpage_def)
  moreover have m: "pool_state.more (put_frame i ?f s) = pool_state.more s" by simp
  moreover have rows: "heap_ok (pframes (put_frame i ?f s) j) = heap_ok (pframes s j)"
     "frame_view (pframes (put_frame i ?f s) j) = frame_view (pframes s j)" for j
    using kp by simp_all
  moreover have "hdrs_ok (put_frame i ?f s)"
    using s(1) kp by (auto simp: catalog_wf_def hdrs_ok_def unpin_kpage_def)
  ultimately have "catalog_wf (put_frame i ?f s)"
    using s(1) ring_more [OF m] alloc_of_more [OF m] unfolding catalog_wf_def alloc_wf_def row_page_def by simp
  moreover have "cat_frame (put_frame i ?f s) q = pframes (put_frame i ?f s) (the (pmap s q))" for q
    by (simp only: cat_frame_def put_frame_simps)
  then have "catalog_view (put_frame i ?f s) = catalog_view s"
    using rows ring_more [OF m] cat_more [OF m] unfolding catalog_view_def page_rows_def page_room_def cat_frame_def by simp
  ultimately show "catalog_wf (snd (kds_buf_unpin i s)) \<and> pmap (snd (kds_buf_unpin i s)) = pmap s
    \<and> sret () (catalog_view s) = (fst (kds_buf_unpin i s), catalog_view (snd (kds_buf_unpin i s)))"
    using u by (simp add: sret_def)
qed

lemma sim_or_unpin [sim_rules]:
  assumes m: "simulates p i m sm" and k: "\<And>x. simulates p i (k x) (sk x)"
  shows "simulates p i (or_unpin i m k) (sbind sm sk)"
proof (rule simulatesI)
  fix s :: "'a cat_state_scheme" assume s: "catalog_wf s" "pmap s p = Some i"
  obtain r s' where r: "m s = (r, s')" by fastforce
  note M = simulatesD [OF m s r]
  have p': "pmap s' p = Some i" using M(2) s(2) by simp
  obtain u t where u: "kds_buf_unpin i s' = (u, t)" by fastforce
  note U = simulatesD [OF sim_unpin M(1) p' u]
  have uo: "u = Inr ()" "catalog_view t = catalog_view s'" using U(3) by (simp_all add: sret_def)
  let ?R = "or_unpin i m k s"
  show "catalog_wf (snd ?R) \<and> pmap (snd ?R) = pmap s \<and> sbind sm sk (catalog_view s) = (fst ?R, catalog_view (snd ?R))"
  proof (cases r)
    case (Inl e)
    then show ?thesis using M r U(1,2) u uo by (cases e) (simp_all add: or_unpin_def sattempt_def call_defs)
  next
    case (Inr x)
    obtain r2 s2 where r2: "k x s' = (r2, s2)" by fastforce
    show ?thesis using simulatesD [OF k M(1) p' r2] M(2,3) r Inr r2
      by (simp add: or_unpin_def sattempt_def sbind_def strying_def)
  qed
qed

lemma sim_new_oid [sim_rules]: "simulates p i kds_catalog_generate_user_oid spec_new_oid"
proof (rule simulatesI)
  fix s :: "'a cat_state_scheme" assume s: "catalog_wf s" "pmap s p = Some i"
  let ?t = "s\<lparr>g_user_oid_counter := g_user_oid_counter s + 1\<rparr>"
  have pw: "pool_wf ?t = pool_wf s" by (rule pool_wf_cong) simp_all
  have ri: "ring_items ?t = ring_items s" "ring_inv ?t = ring_inv s" by (rule ring_cong; simp)+
  have "catalog_wf ?t" using s(1) pw ri by (simp add: catalog_wf_def alloc_wf_def hdrs_ok_def)
  moreover have "catalog_view ?t = (catalog_view s)\<lparr>cv_oid := g_user_oid_counter s + 1\<rparr>"
    using ri by (simp add: catalog_view_def cat_frame_def)
  ultimately show "catalog_wf (snd (kds_catalog_generate_user_oid s)) \<and> pmap (snd (kds_catalog_generate_user_oid s)) = pmap s
    \<and> spec_new_oid (catalog_view s) = (fst (kds_catalog_generate_user_oid s), catalog_view (snd (kds_catalog_generate_user_oid s)))"
    by (simp add: kds_catalog_generate_user_oid_def spec_new_oid_def call_defs) (simp add: catalog_view_def)
qed

lemma catalog_simps [simp]:
  "KDS_CATALOG_PAGE_TYPES = 4" "KDS_CATALOG_PAGE_COLUMNS = 5" "KDS_CATALOG_PAGE_OBJECTS = 6" "KDS_CATALOG_PAGE_TABLES = 7"
  "KDS_CATALOG_NAME_MAX = 64" "row_width 4 = 80" "row_width 5 = 93" "row_width 6 = 96" "row_width 7 = 89"
  by (simp_all add: KDS_CATALOG_PAGE_TYPES_def KDS_CATALOG_PAGE_COLUMNS_def KDS_CATALOG_PAGE_OBJECTS_def
      KDS_CATALOG_PAGE_TABLES_def KDS_CATALOG_NAME_MAX_def row_width_def)

context row_store
begin

lemma sim_insert_row:
  fixes add :: "cat_view \<Rightarrow> cat_view" and room :: "cat_view \<Rightarrow> nat"
  assumes v: "valid r" and q: "q \<in> {4, 5, 6, 7}" and w: "row_width q = width"
    and room: "\<And>s :: 'z cat_state_scheme. room (catalog_view s) = page_room (cat_frame s q)"
    and add: "\<And>(s :: 'z cat_state_scheme) i f. catalog_wf s \<Longrightarrow> pmap s q = Some i \<Longrightarrow> frame_keeps (pframes s i) f \<Longrightarrow>
      page_rows dec f = page_rows dec (cat_frame s q) @ [r] \<Longrightarrow> page_room f = page_room (cat_frame s q) - (33 + width) \<Longrightarrow>
      catalog_view (put_frame i f s) = add (catalog_view s)"
  shows "simulates p i (insert_row env q (enc r) :: ('z cat_state_scheme, unit) call)
    (\<lambda>v. if room v < 33 + width then (fails ENOSPC, v) else (Inr (), add v))"
proof (rule simulatesI)
  fix s :: "'z cat_state_scheme" assume s: "catalog_wf s" "pmap s p = Some i"
  obtain j where j: "pmap s q = Some j" "row_page (row_width q) (cat_frame s q)" "pframes s j = cat_frame s q"
    using s(1) q by (rule catalog_wf_page)
  note C = insert_row_cases [OF catalog_wf_pool [OF s(1)] j(1) _ v, of env]
  let ?R = "insert_row env q (enc r) s"
  show "catalog_wf (snd ?R) \<and> pmap (snd ?R) = pmap s
    \<and> (if room (catalog_view s) < 33 + width then (fails ENOSPC, catalog_view s) else (Inr (), add (catalog_view s)))
      = (fst ?R, catalog_view (snd ?R))"
  proof (cases "room (catalog_view s) < 33 + width")
    case True
    then show ?thesis using C j w s(1) room [of s] by simp
  next
    case False
    then obtain f where f: "?R = (Inr (), put_frame j f s)" "frame_keeps (pframes s j) f" "row_page width f"
      "page_rows dec f = page_rows dec (cat_frame s q) @ [r]" "page_room f = page_room (cat_frame s q) - (33 + width)"
      using C j w room [of s] by auto
    have "catalog_wf (put_frame j f s)" using catalog_wf_put(1) [OF s(1) j(1) f(2)] f(3) w by simp
    then show ?thesis using f(1) add [OF s(1) j(1) f(2,4,5)] False by simp
  qed
qed

end

lemma sim_add_object [sim_rules]:
  assumes "length (so_name r) = 64"
  shows "simulates p i (insert_row env 6 (enc_sys_object r)) (spec_add_object r)"
  unfolding spec_add_object_def
  by (rule sys_object.sim_insert_row [where add = "\<lambda>v. v\<lparr>cv_objects := cv_objects v @ [r], cv_objects_room := cv_objects_room v - 129\<rparr>",
        simplified])
    (simp_all add: assms catalog_view_put, simp_all add: catalog_view_def)

lemma sim_add_table [sim_rules]:
  assumes "length (st_name r) = 64"
  shows "simulates p i (insert_row env 7 (enc_sys_table r)) (spec_add_table r)"
  unfolding spec_add_table_def
  by (rule sys_table.sim_insert_row [where add = "\<lambda>v. v\<lparr>cv_tables := cv_tables v @ [r], cv_tables_room := cv_tables_room v - 122\<rparr>",
        simplified])
    (simp_all add: assms catalog_view_put, simp_all add: catalog_view_def)

lemma sim_add_column [sim_rules]:
  assumes "length (sc_name r) = 64"
  shows "simulates p i (insert_row env 5 (enc_sys_column r)) (spec_add_column r)"
  unfolding spec_add_column_def
  by (rule sys_column.sim_insert_row [where add = "\<lambda>v. v\<lparr>cv_columns := cv_columns v @ [r], cv_columns_room := cv_columns_room v - 126\<rparr>",
        simplified])
    (simp_all add: assms catalog_view_put, simp_all add: catalog_view_def)

section \<open>The root page of a new table\<close>

lemma page_alloc_frames:
  fixes s :: "'z cat_state_scheme"
  assumes "kds_page_alloc t s = (r, s')"
  shows "pframes s' k = (pframes s k)\<lparr>fr_kp := fr_kp (pframes s' k)\<rparr>" "g_user_oid_counter s' = g_user_oid_counter s"
    "disk s' = disk s" "kds_bdev s' = kds_bdev s" "g_wal s' = g_wal s" "free_frames s' = free_frames s"
  using assms
  by (auto simp: kds_page_alloc_def ring_pop_def set_page_type_def call_defs upd_frame_def split: if_splits option.splits)

lemma page_alloc_catalog:
  fixes s :: "'z cat_state_scheme"
  assumes wf: "catalog_wf s" and it: "ring_items s = i # is"
  shows "\<exists>s'. kds_page_alloc t s = (Inr (Some i), s') \<and> catalog_wf s' \<and> pmap s' = pmap s \<and> ring_items s' = is
    \<and> frame_keeps (pframes s i) (pframes s' i) \<and> pmap s (fr_page_id (pframes s i)) = Some i
    \<and> catalog_view s' = (catalog_view s)\<lparr>cv_staged := map (\<lambda>i. fr_page_id (pframes s i)) is\<rparr>"
proof -
  have aw: "alloc_wf s" and g: "g_alloc s" using wf by (simp_all add: catalog_wf_def)
  have pw: "pool_wf s" using wf by (rule catalog_wf_pool)
  obtain s' kp where S: "kds_page_alloc t s = (Inr (Some i), s')" "alloc_wf s'" "ring_items s' = is" "pmap s' = pmap s" "g_alloc s'"
    "fr_kp (pframes s i) = Some kp" "fr_kp (pframes s' i) = Some (kp\<lparr>kp_hdr := (kp_hdr kp)\<lparr>hdr_type := t\<rparr>\<rparr>)"
    "\<forall>j. j \<noteq> i \<longrightarrow> pframes s' j = pframes s j"
    using page_alloc_pops [OF aw g it] by blast
  obtain p where p: "pmap s p = Some i" using aw it by (auto simp: alloc_wf_def ran_def)
  have pid: "fr_page_id (pframes s i) = p" using pool_wf_map(3) [OF pw p] .
  obtain pg where pg: "fr_page (pframes s i) = Some pg" using pool_wf_map(4) [OF pw p] by (auto simp: frame_loaded_def)
  note F = page_alloc_frames [OF S(1)]
  have keep: "frame_keeps (pframes s i) (pframes s' i)"
    using S(6,7) pg by (subst F(1)) (simp add: frame_keeps_def)
  have ids: "fr_page_id (pframes s' k) = fr_page_id (pframes s k)" for k by (subst F(1)) simp
  have h: "hdrs_ok s'"
    unfolding hdrs_ok_def
  proof (intro allI impI)
    fix q j k assume q: "pmap s' q = Some j" "fr_kp (pframes s' j) = Some k"
    show "page_hdr_valid (kp_hdr k)"
    proof (cases "j = i")
      case True
      then show ?thesis using q S(4,6,7) wf p by (auto simp: catalog_wf_def hdrs_ok_def page_hdr_valid_def)
    next
      case False
      then show ?thesis using q S(4,8) wf by (auto simp: catalog_wf_def hdrs_ok_def)
    qed
  qed
  have pages: "\<exists>j. pmap s q = Some j \<and> j \<notin> set is \<and> row_page (row_width q) (pframes s' j) \<and> pframes s' j = pframes s j"
    if q: "q \<in> {4, 5, 6, 7}" for q
  proof -
    obtain j where j: "pmap s q = Some j" "j \<notin> set (ring_items s)" "row_page (row_width q) (cat_frame s q)" "pframes s j = cat_frame s q"
      using wf q by (rule catalog_wf_page)
    have "j \<noteq> i" using j(2) it by auto
    then show ?thesis using j S(8) it by auto
  qed
  have cf: "cat_frame s' q = cat_frame s q" if "q \<in> {4, 5, 6, 7}" for q
    using pages [OF that] S(4) by (auto simp: cat_frame_def)
  have "catalog_wf s'" using S h pages unfolding catalog_wf_def by metis
  moreover have "catalog_view s' = (catalog_view s)\<lparr>cv_staged := map (\<lambda>i. fr_page_id (pframes s i)) is\<rparr>"
    using cf [of 4] cf [of 5] cf [of 6] cf [of 7] S(3) ids F(2) by (simp add: catalog_view_def)
  ultimately show ?thesis using S(1,3,4) keep p pid by blast
qed

lemma frame_keeps_trans: "frame_keeps f g \<Longrightarrow> frame_keeps g h \<Longrightarrow> frame_keeps f h"
  by (auto simp: frame_keeps_def)

lemma not_catalog_page:
  assumes "catalog_wf s" and "ring_items s = i # is" and "pmap s p = Some i"
  shows "p \<notin> {4, 5, 6, 7}"
proof
  assume "p \<in> {4, 5, 6, 7}"
  then obtain j where "pmap s p = Some j" "j \<notin> set (ring_items s)" by (rule catalog_wf_page [OF assms(1)])
  then show False using assms(2,3) by simp
qed

lemma catalog_view_root:
  assumes "catalog_wf s" and "pmap s p = Some i" and "frame_keeps (pframes s i) f" and "p \<notin> {4, 5, 6, 7}"
  shows "catalog_wf (put_frame i f s)" "catalog_view (put_frame i f s) = catalog_view s"
  using catalog_wf_put [OF assms(1-3)] assms(4) catalog_view_put [OF assms(1-3)]
  by (simp_all add: catalog_view_def)

definition empty_root :: "u32 \<Rightarrow> kds_frame \<Rightarrow> bool" where
  "empty_root ct f \<longleftrightarrow> (if ct = KDS_CLUSTERED_HEAP then heap_ok f \<and> v_slots (frame_view f) = []
     else \<exists>kp. fr_kp f = Some kp \<and> hdr_type (kp_hdr kp) = KDS_PAGE_TYPE_BTREE_ROOT)"

lemma heap_init_keeps:
  assumes "fr_kp f = Some kp" and "fr_page f = Some pg" and "page_hdr_valid (kp_hdr kp)"
  shows "\<exists>f'. heap_init_page f = Inr f' \<and> frame_keeps f f' \<and> heap_ok f' \<and> v_slots (frame_view f') = [] \<and> page_room f' = 8135"
proof -
  have fp: "frame_page f = Some (kp, pg)" using assms by (simp add: frame_page_kp)
  obtain f' where f': "heap_init_page_as f KDS_PAGE_TYPE_HEAP = Inr f'" "heap_ok f'" "frame_view f' = \<lparr>v_slots = [], v_free = 8135, v_next = 0\<rparr>"
    using heap_init_ok [OF fp assms(3)] by blast
  have "frame_keeps f f'"
    using f'(1) fp assms by (auto simp: heap_init_page_as_def Let_def rbind_ok_iff frame_keeps_def frame_put_def)
  then show ?thesis using f' by (auto simp: heap_init_page_def page_room_def)
qed

lemma root_page_good:
  fixes s :: "'z cat_state_scheme"
  assumes wf: "catalog_wf s" and it: "ring_items s = i # is" and ct: "ct = KDS_CLUSTERED_HEAP \<or> ct = KDS_CLUSTERED_BTREE"
  shows "\<exists>s'. table_root_page ct s = (Inr i, s') \<and> catalog_wf s' \<and> pmap s' = pmap s \<and> pmap s (fr_page_id (pframes s i)) = Some i
    \<and> catalog_view s' = (catalog_view s)\<lparr>cv_staged := map (\<lambda>i. fr_page_id (pframes s i)) is\<rparr> \<and> empty_root ct (pframes s' i)"
proof -
  define ty where "ty = (if ct = KDS_CLUSTERED_HEAP then KDS_PAGE_TYPE_HEAP else KDS_PAGE_TYPE_BTREE_ROOT)"
  obtain t where t: "kds_page_alloc ty s = (Inr (Some i), t)" "catalog_wf t" "pmap t = pmap s" "ring_items t = is"
    "frame_keeps (pframes s i) (pframes t i)" "pmap s (fr_page_id (pframes s i)) = Some i"
    "catalog_view t = (catalog_view s)\<lparr>cv_staged := map (\<lambda>i. fr_page_id (pframes s i)) is\<rparr>"
    using page_alloc_catalog [OF wf it, of ty] by blast
  let ?p = "fr_page_id (pframes s i)"
  have np: "?p \<notin> {4, 5, 6, 7}" using not_catalog_page [OF wf it t(6)] .
  have pt: "pmap t ?p = Some i" using t(3,6) by simp
  obtain kp pg where kp: "fr_kp (pframes t i) = Some kp" "fr_page (pframes t i) = Some pg"
    using pool_wf_map(4) [OF catalog_wf_pool [OF t(2)] pt] by (auto simp: frame_loaded_def)
  have hv: "page_hdr_valid (kp_hdr kp)" using t(2) pt kp(1) by (auto simp: catalog_wf_def hdrs_ok_def)
  show ?thesis
  proof (cases "ct = KDS_CLUSTERED_HEAP")
    case True
    obtain f' where f': "heap_init_page (pframes t i) = Inr f'" "frame_keeps (pframes t i) f'" "heap_ok f'" "v_slots (frame_view f') = []"
      using heap_init_keeps [OF kp hv] by blast
    have "table_root_page ct s = (Inr i, put_frame i f' t)"
      using t(1) f'(1) True by (simp add: table_root_page_def ty_def call_defs on_frame_def unit_op_def put_frame_def)
    then show ?thesis
      using catalog_view_root [OF t(2) pt f'(2) np] t f' True by (auto simp: empty_root_def)
  next
    case False
    let ?f = "(pframes t i)\<lparr>fr_kp := Some (kp\<lparr>kp_hdr := (kp_hdr kp)\<lparr>hdr_type := KDS_PAGE_TYPE_BTREE_ROOT,
      hdr_flags := hdr_flags (kp_hdr kp) OR KDS_PAGE_FLAG_INIT\<rparr>\<rparr>)\<rparr>"
    have k: "frame_keeps (pframes t i) ?f" using kp by (simp add: frame_keeps_def)
    have "table_root_page ct s = (Inr i, put_frame i ?f t)"
      using t(1) False ct kp
      by (simp add: table_root_page_def ty_def call_defs btree_init_root_kpage_def init_kpage_def the_kp_def put_kp_def put_frame_def upd_frame_def)
    then show ?thesis
      using catalog_view_root [OF t(2) pt k np] t False by (auto simp: empty_root_def)
  qed
qed

lemma root_page_none:
  assumes "catalog_wf s" and "ring_items s = []" and "ct = KDS_CLUSTERED_HEAP \<or> ct = KDS_CLUSTERED_BTREE"
  shows "table_root_page ct s = (fails ENOSPC, s)"
proof -
  have "kds_ring_count s = 0" using assms(2) by (simp add: ring_items_def ring_len_def unat_eq_0)
  then show ?thesis using assms by (auto simp: table_root_page_def kds_page_alloc_def call_defs catalog_wf_def)
qed

section \<open>Creating a table refines the specification\<close>

lemma sbind_assoc: "sbind (sbind m k) h = sbind m (\<lambda>x. sbind (k x) h)"
  by (auto simp: sbind_def fun_eq_iff split: prod.splits sum.splits)

lemma sbind_sret [simp]: "sbind (sret x) k = k x"
  by (simp add: sbind_def sret_def fun_eq_iff)

lemma take_page_bind: "cv_staged v = p # ps \<Longrightarrow> sbind spec_take_page k v = k p (v\<lparr>cv_staged := ps\<rparr>)"
  by (simp add: spec_take_page_def sbind_def)

lemma sim_the_kp:
  assumes "\<And>kp. kp_id kp = p \<Longrightarrow> simulates p i (k kp) sm"
  shows "simulates p i (sbind (the_kp i) k) sm"
proof (rule simulatesI)
  fix s :: "'a cat_state_scheme" assume s: "catalog_wf s" "pmap s p = Some i"
  obtain kp where kp: "fr_kp (pframes s i) = Some kp" "kp_id kp = p"
    using pool_wf_map(4) [OF catalog_wf_pool [OF s(1)] s(2)] by (auto simp: frame_loaded_def)
  have run: "sbind (the_kp i) k s = k kp s" using kp by (simp add: the_kp_def call_defs)
  obtain r s' where r: "k kp s = (r, s')" by fastforce
  show "catalog_wf (snd (sbind (the_kp i) k s)) \<and> pmap (snd (sbind (the_kp i) k s)) = pmap s
    \<and> sm (catalog_view s) = (fst (sbind (the_kp i) k s), catalog_view (snd (sbind (the_kp i) k s)))"
    using simulatesD [OF assms [OF kp(2)] s r] run r by simp
qed

lemma sim_columns:
  assumes "\<forall>j \<in> set js. j < length (sch_cols sch)"
  shows "simulates p i (insert_columns env i oid sch js)
    (for_each (\<lambda>c. sbind spec_new_oid (\<lambda>co. spec_add_column (stored_column co oid c))) (map ((!) (sch_cols sch)) js))"
  using assms
proof (induction js)
  case Nil
  then show ?case by (simp add: sim_ret)
next
  case (Cons j js)
  have "simulates p i (insert_sys_column_row env co oid (sc_pos c) (sc_name c) (sc_type_val c) (sc_len c) (sc_notnull c \<noteq> 0))
      (spec_add_column (stored_column co oid c))" for co c
    unfolding insert_sys_column_row_def stored_column_def catalog_simps by (rule sim_add_column) simp
  then show ?case
    using Cons by (auto simp: sbind_assoc Let_def intro!: sim_bind sim_new_oid sim_or_unpin)
qed

lemma create_table_sim:
  fixes s :: "'z cat_state_scheme"
  assumes wf: "catalog_wf s" and n: "unat (nr_cols sch) = length (sch_cols sch)"
  shows "case kds_catalog_create_table env ns (Some nm) (Some sch) ct s of
    (r, s') \<Rightarrow> catalog_wf s' \<and> spec_create_table ns nm (sch_cols sch) ct (catalog_view s) = (r, catalog_view s')"
proof -
  consider "ct \<noteq> KDS_CLUSTERED_HEAP \<and> ct \<noteq> KDS_CLUSTERED_BTREE" | "ct = KDS_CLUSTERED_HEAP \<or> ct = KDS_CLUSTERED_BTREE" "ring_items s = []"
    | i "is" where "ct = KDS_CLUSTERED_HEAP \<or> ct = KDS_CLUSTERED_BTREE" "ring_items s = i # is"
    by (cases "ring_items s") auto
  then show ?thesis
  proof cases
    case 1
    then show ?thesis using wf by (simp add: kds_catalog_create_table_def table_root_page_def spec_create_table_def call_defs)
  next
    case 2
    then show ?thesis using wf root_page_none [OF wf 2(2,1)]
      by (auto simp: kds_catalog_create_table_def spec_create_table_def spec_take_page_def call_defs catalog_view_def)
  next
    case 3
    let ?p = "fr_page_id (pframes s i)"
    obtain t where t: "table_root_page ct s = (Inr i, t)" "catalog_wf t" "pmap t = pmap s" "pmap s ?p = Some i"
      "catalog_view t = (catalog_view s)\<lparr>cv_staged := map (\<lambda>i. fr_page_id (pframes s i)) is\<rparr>"
      using root_page_good [OF wf 3(2,1)] by blast
    have staged: "cv_staged (catalog_view s) = ?p # map (\<lambda>i. fr_page_id (pframes s i)) is"
      using 3(2) by (simp add: catalog_view_def)
    have tp: "pmap t ?p = Some i" using t(3,4) by simp
    define rest :: "('z cat_state_scheme, u64) call" where "rest =
       sbind kds_catalog_generate_user_oid (\<lambda>oid.
       or_unpin i (kds_catalog_insert_object_row env oid ns KDS_OID_TYPE_TABLE nm) (\<lambda>_.
       sbind (the_kp i) (\<lambda>kp.
       or_unpin i (kds_catalog_insert_relation_row env oid ns nm (kp_id kp) ct) (\<lambda>_.
       sbind (insert_columns env i oid sch [0 ..< unat (nr_cols sch)]) (\<lambda>_.
       sbind (kds_buf_unpin i) (\<lambda>_. sret oid))))))"
    define srest where "srest = sbind spec_new_oid (\<lambda>oid.
       sbind (spec_add_object \<lparr>so_oid = oid, so_namespace_oid = ns, so_type_oid = KDS_OID_TYPE_TABLE, so_rel_id = 0, so_name = set_name nm\<rparr>) (\<lambda>_.
       sbind (spec_add_table \<lparr>st_oid = oid, st_namespace_oid = ns, st_name = set_name nm, st_desc_page_id = ?p, st_clustered_type = ucast ct\<rparr>) (\<lambda>_.
       sbind (for_each (\<lambda>c. sbind spec_new_oid (\<lambda>co. spec_add_column (stored_column co oid c))) (sch_cols sch)) (\<lambda>_. sbind (sret ()) (\<lambda>_. sret oid)))))"
    have cols: "simulates ?p i (insert_columns env i oid sch [0 ..< unat (nr_cols sch)])
      (for_each (\<lambda>c. sbind spec_new_oid (\<lambda>co. spec_add_column (stored_column co oid c))) (sch_cols sch))" for oid
      using sim_columns [of "[0 ..< unat (nr_cols sch)]" sch ?p i env oid] n by (simp add: map_nth)
    have sim: "simulates ?p i rest srest"
      unfolding rest_def srest_def kds_catalog_insert_object_row_def kds_catalog_insert_relation_row_def catalog_simps
      by (intro sim_bind sim_new_oid sim_or_unpin sim_add_object sim_add_table sim_the_kp cols sim_unpin sim_ret) (simp_all, intro sim_bind sim_or_unpin sim_add_table cols sim_unpin sim_ret, simp)
    obtain r s' where r: "rest t = (r, s')" by fastforce
    note R = simulatesD(1,3) [OF sim t(2) tp r]
    have "kds_catalog_create_table env ns (Some nm) (Some sch) ct s = rest t"
      using t(1) by (simp add: kds_catalog_create_table_def rest_def sbind_def [of "table_root_page ct"])
    moreover have "spec_create_table ns nm (sch_cols sch) ct (catalog_view s) = srest (catalog_view t)"
      using 3(1) unfolding spec_create_table_def srest_def by (auto simp: take_page_bind [OF staged] t(5))
    ultimately show ?thesis using R r by simp
  qed
qed

section \<open>What the readers return\<close>

lemma scan_rows:
  assumes wf: "catalog_wf s" and q: "q \<in> {4, 5, 6, 7}"
    and loop: "\<And>f. row_page (row_width q) f \<Longrightarrow> frame_view f = frame_view (cat_frame s q) \<Longrightarrow>
      loop f [0 ..< length (v_slots (frame_view f))] = r"
    and r: "(\<exists>e. r = Inl (Errno e)) \<or> (\<exists>x. r = Inr x)"
  shows "scan_page env q loop s = (r, s)"
proof -
  obtain i where i: "pmap s q = Some i" "row_page (row_width q) (cat_frame s q)" "pframes s i = cat_frame s q"
    using wf q by (rule catalog_wf_page)
  have k: "fr_kp (pframes s i) \<noteq> None"
    using pool_wf_map(4) [OF catalog_wf_pool [OF wf] i(1)] by (auto simp: frame_loaded_def)
  have ok: "heap_ok (pframes s i)" using i(2,3) by (simp add: row_page_def)
  have "loop ((pframes s i)\<lparr>fr_kp := Some kp\<rparr>) [0 ..< length (v_slots (frame_view (pframes s i)))] = r" for kp
  proof -
    have v: "frame_view ((pframes s i)\<lparr>fr_kp := Some kp\<rparr>) = frame_view (pframes s i)" using k by simp
    have "row_page (row_width q) ((pframes s i)\<lparr>fr_kp := Some kp\<rparr>)" using row_page_kp(1) [OF k] i(2,3) by simp
    then show ?thesis using loop [of "(pframes s i)\<lparr>fr_kp := Some kp\<rparr>"] v i(3) by simp
  qed
  note S = scan_page_eq [where loop = loop, OF catalog_wf_pool [OF wf] i(1) ok this]
  show ?thesis using r S by metis
qed

lemma rows_cong: "frame_view f = frame_view g \<Longrightarrow> page_rows dec f = page_rows dec g"
  by (simp add: page_rows_def)

lemma found_total: "(\<exists>e. found x = Inl (Errno e)) \<or> (\<exists>r. found x = Inr r)"
  by (simp add: found_def split: option.splits)

lemma get_row_view:
  assumes wf: "catalog_wf s"
  shows "kds_catalog_get_sys_table_row env oid s = (found (find (\<lambda>r. st_oid r = oid) (cv_tables (catalog_view s))), s)"
  unfolding kds_catalog_get_sys_table_row_def catalog_simps using wf
proof (rule scan_rows)
  fix f assume f: "row_page (row_width 7) f" "frame_view f = frame_view (cat_frame s 7)"
  show "find_table_row f oid [0 ..< length (v_slots (frame_view f))] = found (find (\<lambda>r. st_oid r = oid) (cv_tables (catalog_view s)))"
    using table_scan [of f "[0 ..< length (v_slots (frame_view f))]" oid] f(1) page_rows_at [of dec_sys_table f] rows_cong [OF f(2), of dec_sys_table]
    by (simp add: catalog_view_def)
qed (simp_all add: found_total)

lemma find_oid_view:
  assumes wf: "catalog_wf s"
  shows "kds_catalog_find_table_oid_by_name env (Some n) s =
    (rbind (found (find (\<lambda>r. so_type_oid r = KDS_OID_TYPE_TABLE \<and> strneq 64 (so_name r) n) (cv_objects (catalog_view s)))) (\<lambda>r. Inr (so_oid r)), s)"
  unfolding kds_catalog_find_table_oid_by_name_def catalog_simps option.case using wf
proof (rule scan_rows)
  fix f assume f: "row_page (row_width 6) f" "frame_view f = frame_view (cat_frame s 6)"
  show "find_object_row f n [0 ..< length (v_slots (frame_view f))] =
    rbind (found (find (\<lambda>r. so_type_oid r = KDS_OID_TYPE_TABLE \<and> strneq 64 (so_name r) n) (cv_objects (catalog_view s)))) (\<lambda>r. Inr (so_oid r))"
    using object_scan [of f "[0 ..< length (v_slots (frame_view f))]" n] f(1) page_rows_at [of dec_sys_object f] rows_cong [OF f(2), of dec_sys_object]
    by (simp add: catalog_view_def)
qed (auto simp: found_def split: option.splits)

lemma schema_view:
  assumes wf: "catalog_wf s"
  shows "kds_catalog_build_schema_from_columns env rel s =
    (let cols = take 32 (filter (\<lambda>c. sc_rel_id c = rel) (cv_columns (catalog_view s))) in
     if cols = [] then fails ENOENT else Inr \<lparr>sch_cols = cols, nr_cols = of_nat (length cols)\<rparr>, s)"
proof -
  let ?cols = "take 32 (filter (\<lambda>c. sc_rel_id c = rel) (cv_columns (catalog_view s)))"
  have "scan_page env 5 (\<lambda>f slots. collect_columns f rel slots []) s = (Inr ?cols, s)"
    using wf
  proof (rule scan_rows)
    fix f assume f: "row_page (row_width 5) f" "frame_view f = frame_view (cat_frame s 5)"
    show "collect_columns f rel [0 ..< length (v_slots (frame_view f))] [] = Inr ?cols"
      using column_scan [of f "[0 ..< length (v_slots (frame_view f))]" "[]" rel] f(1) page_rows_at [of dec_sys_column f] rows_cong [OF f(2), of dec_sys_column]
      by (simp add: catalog_view_def)
  qed simp_all
  then show ?thesis
    unfolding kds_catalog_build_schema_from_columns_def catalog_simps
    by (simp add: sbind_def Let_def sfail_def sret_def)
qed

section \<open>Moving a root page\<close>

text \<open>The first row with the given id gets the new page; every other row and every free byte stays.\<close>

fun set_desc :: "u64 \<Rightarrow> u64 \<Rightarrow> kds_sys_table list \<Rightarrow> kds_sys_table list" where
  "set_desc oid pid [] = []"
| "set_desc oid pid (r # rs) = (if st_oid r = oid then r\<lparr>st_desc_page_id := pid\<rparr> # rs else r # set_desc oid pid rs)"

lemma set_desc_append: "set_desc oid pid (xs @ ys) =
    (if \<exists>r \<in> set xs. st_oid r = oid then set_desc oid pid xs @ ys else xs @ set_desc oid pid ys)"
  by (induction xs) auto

lemma capacity: "heap_ok f \<Longrightarrow> i < length (v_slots (frame_view f)) \<Longrightarrow> v_slots (frame_view f) ! i = Some (h, d, c) \<Longrightarrow> length d \<le> c"
  using heap_wf_span(3) by (fastforce elim!: heap_okE simp: tuple_at_def Let_def split: if_splits)

lemma overwrite_row:
  assumes rp: "row_page 89 f" and i: "i < length (v_slots (frame_view f))" and t: "v_slots (frame_view f) ! i = Some (h, d, c)" and n: "length (st_name r) = 64"
  shows "\<exists>f'. heap_overwrite_tuple f (of_nat i) (Some (enc_sys_table r)) 89 a b u = Inr f' \<and> frame_keeps f f' \<and> row_page 89 f'
    \<and> v_slots (frame_view f') = (v_slots (frame_view f))[i := Some (mk_hdr a b u 89, enc_sys_table r, c)] \<and> page_room f' = page_room f"
proof -
  have ok: "heap_ok f" using rp by (simp add: row_page_def)
  have ui: "unat (of_nat i :: u16) = i" using slots_small [OF ok] i by (intro unat_of_nat16) simp
  have ln: "length (enc_sys_table r) = 89" using sys_table_codec(1) [OF n] .
  have "Some (h, d, c) \<in> set (v_slots (frame_view f))" using t i nth_mem by metis
  then have "length d = 89" using rp by (auto simp: row_page_def)
  then have c: "89 \<le> c" using capacity [OF ok i t] by simp
  have R: "case heap_overwrite_tuple f (of_nat i) (Some (enc_sys_table r)) 89 a b u of
      Inl e \<Rightarrow> spec_overwrite (frame_view f) i (enc_sys_table r) a b u = Inl e
    | Inr f' \<Rightarrow> spec_overwrite (frame_view f) i (enc_sys_table r) a b u = Inr (frame_view f') \<and> heap_ok f' \<and> frame_kp_id f' = frame_kp_id f"
    using heap_overwrite_refines [OF ok, of "enc_sys_table r" "of_nat i" a b u] ln unfolding ui by simp
  have S: "spec_overwrite (frame_view f) i (enc_sys_table r) a b u =
      Inr ((frame_view f)\<lparr>v_slots := (v_slots (frame_view f))[i := Some (mk_hdr a b u 89, enc_sys_table r, c)]\<rparr>)"
    using i t c ln by (simp add: spec_overwrite_def spec_slot_def)
  obtain f' where f': "heap_overwrite_tuple f (of_nat i) (Some (enc_sys_table r)) 89 a b u = Inr f'"
    "frame_view f' = (frame_view f)\<lparr>v_slots := (v_slots (frame_view f))[i := Some (mk_hdr a b u 89, enc_sys_table r, c)]\<rparr>" "heap_ok f'"
    using R S by (auto split: sum.splits)
  have "frame_keeps f f'" using overwrite_puts [OF f'(1)] frame_keeps_put by blast
  moreover have "row_page 89 f'"
    using rp f' ln set_update_subset_insert [of "v_slots (frame_view f)" i] by (fastforce simp: row_page_def)
  ultimately show ?thesis using f' by (auto simp: page_room_def)
qed

lemma map_filter_cong: "(\<And>x. x \<in> set xs \<Longrightarrow> g x = h x) \<Longrightarrow> List.map_filter g xs = List.map_filter h xs"
  by (induction xs) (simp_all split: option.splits)

definition table_rows_from :: "nat \<Rightarrow> kds_frame \<Rightarrow> kds_sys_table list" where
  "table_rows_from k f = List.map_filter (row_at dec_sys_table f) [k ..< length (v_slots (frame_view f))]"

lemma table_rows_step:
  "k < length (v_slots (frame_view f)) \<Longrightarrow>
   table_rows_from k f = (case row_at dec_sys_table f k of None \<Rightarrow> table_rows_from (Suc k) f | Some r \<Rightarrow> r # table_rows_from (Suc k) f)"
  by (simp add: table_rows_from_def upt_conv_Cons split: option.splits)

lemma overwrite_scan:
  assumes rp: "row_page 89 f" and "k \<le> length (v_slots (frame_view f))"
  shows "if \<exists>r \<in> set (table_rows_from k f). st_oid r = oid
    then \<exists>f'. overwrite_table_row oid pid [k ..< length (v_slots (frame_view f))] f = Inr f' \<and> frame_keeps f f' \<and> row_page 89 f'
      \<and> page_room f' = page_room f \<and> length (v_slots (frame_view f')) = length (v_slots (frame_view f))
      \<and> (\<forall>j < k. row_at dec_sys_table f' j = row_at dec_sys_table f j) \<and> table_rows_from k f' = set_desc oid pid (table_rows_from k f)
    else overwrite_table_row oid pid [k ..< length (v_slots (frame_view f))] f = fails ENOENT"
  using assms(2)
proof (induction k rule: inc_induct)
  case base
  then show ?case by (simp add: table_rows_from_def)
next
  case (step k)
  let ?n = "length (v_slots (frame_view f))"
  have k: "k < ?n" using step by simp
  note rd = sys_table.read_row [OF rp k]
  note st = table_rows_step [OF k]
  show ?case
  proof (cases "v_slots (frame_view f) ! k")
    case None
    have no: "row_at dec_sys_table g k = None \<Longrightarrow> length (v_slots (frame_view g)) = ?n \<Longrightarrow> table_rows_from k g = table_rows_from (Suc k) g" for g
      using table_rows_step [of k g] k by simp
    have "row_at dec_sys_table f k = None" using None by (simp add: row_at_def)
    moreover have "overwrite_table_row oid pid [k ..< ?n] f = overwrite_table_row oid pid [Suc k ..< ?n] f"
      using rd None k by (simp add: upt_conv_Cons)
    ultimately show ?thesis using step.IH st no by (auto split: if_splits)
  next
    case (Some t)
    obtain h d c where t: "t = (h, d, c)" by (cases t)
    have slot: "v_slots (frame_view f) ! k = Some (h, d, c)" using Some t by simp
    have ra: "row_at dec_sys_table f k = Some (dec_sys_table d)" using slot by (simp add: row_at_def)
    show ?thesis
    proof (cases "st_oid (dec_sys_table d) = oid")
      case False
      then have "overwrite_table_row oid pid [k ..< ?n] f = overwrite_table_row oid pid [Suc k ..< ?n] f"
        using rd slot k by (simp add: upt_conv_Cons Let_def)
      moreover have "row_at dec_sys_table g k = row_at dec_sys_table f k \<Longrightarrow> length (v_slots (frame_view g)) = ?n \<Longrightarrow>
          table_rows_from k g = dec_sys_table d # table_rows_from (Suc k) g" for g
        using table_rows_step [of k g] k ra by simp
      ultimately show ?thesis using step.IH st ra False by (auto split: if_splits)
    next
      case True
      have "Some (h, d, c) \<in> set (v_slots (frame_view f))" using slot k nth_mem by metis
      then have "length d = 89" using rp by (auto simp: row_page_def)
      then have nm: "length (st_name ((dec_sys_table d)\<lparr>st_desc_page_id := pid\<rparr>)) = 64" using sys_table_codec(3) [of d] by simp
      let ?r = "(dec_sys_table d)\<lparr>st_desc_page_id := pid\<rparr>"
      obtain f' where f': "heap_overwrite_tuple f (of_nat k) (Some (enc_sys_table ?r)) 89 (xmin h) (xmax h) (undo_ptr h) = Inr f'"
        "frame_keeps f f'" "row_page 89 f'" "page_room f' = page_room f"
        "v_slots (frame_view f') = (v_slots (frame_view f))[k := Some (mk_hdr (xmin h) (xmax h) (undo_ptr h) 89, enc_sys_table ?r, c)]"
        using overwrite_row [OF rp k slot nm, of "xmin h" "xmax h" "undo_ptr h"] by blast
      have n': "length (v_slots (frame_view f')) = ?n" using f'(5) by simp
      have other: "row_at dec_sys_table f' j = row_at dec_sys_table f j" if "j \<noteq> k" for j using f'(5) that by (simp add: row_at_def)
      have "row_at dec_sys_table f' k = Some ?r" using f'(5) k sys_table_codec(2) [OF nm] by (simp add: row_at_def)
      moreover have "table_rows_from (Suc k) f' = table_rows_from (Suc k) f"
        unfolding table_rows_from_def n' by (rule map_filter_cong) (use other in auto)
      ultimately have "table_rows_from k f' = set_desc oid pid (table_rows_from k f)"
        using table_rows_step [of k f'] k n' st ra True by simp
      moreover have "overwrite_table_row oid pid [k ..< ?n] f = Inr f'"
        using rd slot k True f'(1) by (simp add: upt_conv_Cons Let_def)
      ultimately show ?thesis using f' n' other st ra True by auto
    qed
  qed
qed

lemma update_desc_sim:
  fixes s :: "'z cat_state_scheme"
  assumes wf: "catalog_wf s"
  shows "\<exists>s'. kds_catalog_update_relation_desc_page env oid pid s
      = (if \<exists>r \<in> set (cv_tables (catalog_view s)). st_oid r = oid then Inr () else fails ENOENT, s')
    \<and> catalog_wf s' \<and> catalog_view s' = (catalog_view s)\<lparr>cv_tables := set_desc oid pid (cv_tables (catalog_view s))\<rparr>"
proof -
  obtain i where i: "pmap s 7 = Some i" "row_page 89 (cat_frame s 7)" "pframes s i = cat_frame s 7"
    using catalog_wf_page [OF wf, of 7] by auto
  note pw = catalog_wf_pool [OF wf]
  obtain kp where kp: "fr_kp (pframes s i) = Some kp" using pool_wf_map(4) [OF pw i(1)] by (auto simp: frame_loaded_def)
  let ?f = "(pframes s i)\<lparr>fr_kp := Some (pin_kpage kp)\<rparr>"
  let ?n = "length (v_slots (frame_view ?f))"
  have v: "frame_view ?f = frame_view (cat_frame s 7)" and rp: "row_page 89 ?f"
    using kp i row_page_kp(1) [of "pframes s i"] by simp_all
  have T: "table_rows_from 0 g = page_rows dec_sys_table g" for g
    by (simp add: table_rows_from_def page_rows_at)
  have rows: "page_rows dec_sys_table ?f = cv_tables (catalog_view s)" using rows_cong [OF v] by (simp add: catalog_view_def)
  have sl: "page_slots ?f = Inr [0 ..< ?n]" using page_slots_eq [of ?f] rp by (simp add: row_page_def)
  note S = overwrite_scan [OF rp, of 0 oid pid, unfolded T rows]
  let ?call = "kds_catalog_update_relation_desc_page env oid pid s"
  show ?thesis
  proof (cases "\<exists>r \<in> set (cv_tables (catalog_view s)). st_oid r = oid")
    case False
    then have "overwrite_table_row oid pid [0 ..< ?n] ?f = fails ENOENT" using S by simp
    then have "?call = (fails ENOENT, s)"
      using load_root [OF pw i(1) kp, of env] sl unpin_pinned [OF kp]
      by (simp add: kds_catalog_update_relation_desc_page_def then_unpin_def sattempt_def call_defs pinned_put on_frame_def unit_op_def)
    moreover have "set_desc oid pid (cv_tables (catalog_view s)) = cv_tables (catalog_view s)"
      using False set_desc_append [of oid pid "cv_tables (catalog_view s)" "[]"] by simp
    ultimately show ?thesis using wf False by simp
  next
    case True
    then obtain f' where f': "overwrite_table_row oid pid [0 ..< ?n] ?f = Inr f'" "frame_keeps ?f f'" "row_page 89 f'" "page_room f' = page_room ?f"
      "page_rows dec_sys_table f' = set_desc oid pid (cv_tables (catalog_view s))" using S by auto
    obtain kp' where kp': "fr_kp f' = Some kp'" using f'(2) by (auto simp: frame_keeps_def)
    let ?g = "f'\<lparr>fr_kp := Some (unpin_kpage kp')\<rparr>"
    have keep: "frame_keeps (pframes s i) ?g"
      using f'(2) kp kp' by (auto simp: frame_keeps_def pin_kpage_def unpin_kpage_def)
    have run: "?call = (Inr (), put_frame i ?g s)"
      using load_root [OF pw i(1) kp, of env] sl f'(1) unpin_put [OF kp', of i s]
      by (simp add: kds_catalog_update_relation_desc_page_def then_unpin_def sattempt_def call_defs pinned_put on_frame_def unit_op_def
          put_frame_def [symmetric])
    have vg: "frame_view ?g = frame_view f'" "row_page 89 ?g" using kp' f'(3) row_page_kp(1) [of f'] by simp_all
    have rg: "page_rows dec_sys_table ?g = set_desc oid pid (cv_tables (catalog_view s))" "page_room ?g = page_room (cat_frame s 7)"
      using rows_cong [OF vg(1), of dec_sys_table] f'(4,5) vg(1) v by (simp_all add: page_room_def)
    have "catalog_wf (put_frame i ?g s)" using catalog_wf_put(1) [OF wf i(1) keep] vg(2) by simp
    moreover have "catalog_view (put_frame i ?g s) = (catalog_view s)\<lparr>cv_tables := set_desc oid pid (cv_tables (catalog_view s))\<rparr>"
      unfolding catalog_view_put [OF wf i(1) keep] using rg by (simp add: catalog_view_def)
    ultimately show ?thesis using run True by auto
  qed
qed

section \<open>Bootstrap\<close>

definition spec_add_type :: "kds_sys_type \<Rightarrow> (cat_view, unit) call" where
  "spec_add_type r = (\<lambda>v. if cv_types_room v < 113 then (fails ENOSPC, v)
     else (Inr (), v\<lparr>cv_types := cv_types v @ [r], cv_types_room := cv_types_room v - 113\<rparr>))"

lemma sim_add_type [sim_rules]:
  assumes "length (sy_name r) = 64"
  shows "simulates p i (insert_row env 4 (enc_sys_type r)) (spec_add_type r)"
  unfolding spec_add_type_def
  by (rule sys_type.sim_insert_row [where add = "\<lambda>v. v\<lparr>cv_types := cv_types v @ [r], cv_types_room := cv_types_room v - 113\<rparr>",
        simplified])
    (simp_all add: assms catalog_view_put, simp_all add: catalog_view_def)

lemma sim_or_panic [sim_rules]:
  assumes m: "simulates p i m sm"
  shows "simulates p i (or_panic m) (or_panic sm)"
proof (rule simulatesI)
  fix s :: "'a cat_state_scheme" assume s: "catalog_wf s" "pmap s p = Some i"
  obtain r s' where r: "m s = (r, s')" by fastforce
  note M = simulatesD [OF m s r]
  let ?R = "or_panic m s"
  show "catalog_wf (snd ?R) \<and> pmap (snd ?R) = pmap s \<and> or_panic sm (catalog_view s) = (fst ?R, catalog_view (snd ?R))"
    using M r by (cases r rule: sum.exhaust; cases "projl r") (simp_all add: or_panic_def sattempt_def call_defs)
qed

lemma sim_for_each [sim_rules]:
  assumes "\<And>x. x \<in> set xs \<Longrightarrow> simulates p i (f x) (g x)"
  shows "simulates p i (for_each f xs) (for_each g xs)"
  using assms by (induction xs) (auto intro: sim_bind sim_ret)

text \<open>The database before its first bootstrap: no catalogue page, room for four more frames.\<close>

definition no_catalog :: "'z cat_state_scheme \<Rightarrow> bool" where
  "no_catalog s \<longleftrightarrow> alloc_wf s \<and> g_alloc s \<and> hdrs_ok s \<and> kds_bdev s \<and> (\<forall>p \<in> {4, 5, 6, 7}. pmap s p = None)
     \<and> 4 \<le> length (free_frames s)"

definition empty_page :: "kds_frame \<Rightarrow> bool" where
  "empty_page f \<longleftrightarrow> heap_ok f \<and> v_slots (frame_view f) = [] \<and> page_room f = 8135"

lemma bootstrap_page:
  fixes s :: "'z cat_state_scheme"
  assumes good: "env_good env" and wf: "alloc_wf s" and h: "hdrs_ok s" and b: "kds_bdev s" and miss: "pmap s p = None" and fr: "free_frames s \<noteq> []"
  shows "\<exists>i s'. bootstrap_one_catalog_page env p s = (Inr (), s') \<and> alloc_wf s' \<and> hdrs_ok s' \<and> kds_bdev s' \<and> pmap s' = (pmap s)(p \<mapsto> i)
    \<and> length (free_frames s') = length (free_frames s) - 1 \<and> (\<forall>j. j \<noteq> i \<longrightarrow> pframes s' j = pframes s j) \<and> i \<notin> ran (pmap s)
    \<and> empty_page (pframes s' i) \<and> pool_state.more s' = pool_state.more s"
proof -
  have pw: "pool_wf s" using wf by (simp add: alloc_wf_def)
  obtain i t where t: "kds_buf_alloc_new env p s = (Inr i, t)" using alloc_good [OF good pw miss fr b] by blast
  note A = alloc_alone [OF env_good_page_size [OF good] pw miss t]
  have T: "pool_wf t" "pool_state.more t = pool_state.more s" "kds_bdev t = kds_bdev s" "i \<in> set (free_frames s)"
    "set (free_frames t) = set (free_frames s) - {i}" "pmap t = (pmap s)(p \<mapsto> i)" "\<forall>j. j \<noteq> i \<longrightarrow> pframes t j = pframes s j"
    "fr_page (pframes t i) = Some (new_page env (Suc (nalloc s)))"
    "fr_kp (pframes t i) = Some ((new_kp env (Suc (nalloc s)) p)\<lparr>kp_refcnt := 1\<rparr>)" using A by auto
  have at: "alloc_wf t" "i \<notin> set (ring_items s)" using alloc_new_alloc [OF env_good_page_size [OF good] wf t] by auto
  have hv: "page_hdr_valid (kp_hdr ((new_kp env (Suc (nalloc s)) p)\<lparr>kp_refcnt := 1\<rparr>))"
    by (simp add: new_kp_def new_hdr_def page_hdr_valid_def)
  obtain f where f: "heap_init_page (pframes t i) = Inr f" "frame_keeps (pframes t i) f" "heap_ok f" "v_slots (frame_view f) = []" "page_room f = 8135"
    using heap_init_keeps [OF T(9,8) hv] by blast
  obtain kp where kp: "fr_kp f = Some kp" "hdr_reserved1 (kp_hdr kp) = hdr_reserved1 (kp_hdr (new_kp env (Suc (nalloc s)) p))" "kp_id kp = p"
    using f(2) T(9) by (auto simp: frame_keeps_def new_kp_def)
  let ?g = "f\<lparr>fr_kp := Some (unpin_kpage kp)\<rparr>"
  let ?u = "put_frame i ?g t"
  have run: "bootstrap_one_catalog_page env p s = (Inr (), ?u)"
    using t f(1) unpin_put [OF kp(1), of i t]
    by (simp add: bootstrap_one_catalog_page_def call_defs on_frame_def unit_op_def put_frame_def [symmetric])
  have pt: "pmap t p = Some i" using T(6) by simp
  have "pool_wf ?u"
    unfolding put_frame_def using T(1) pool_wf_map [OF T(1) pt] pool_wf_id [OF T(1), of i] f(2) kp
    by (intro pool_wf_touch) (auto simp: frame_loaded_def frame_keeps_def unpin_kpage_def)
  moreover have m: "pool_state.more ?u = pool_state.more t" by simp
  ultimately have "alloc_wf ?u" using at(1) ring_more [OF m] by (simp add: alloc_wf_def)
  moreover have "hdrs_ok ?u"
    unfolding hdrs_ok_def
  proof (intro allI impI)
    fix q j k assume q: "pmap ?u q = Some j" "fr_kp (pframes ?u j) = Some k"
    show "page_hdr_valid (kp_hdr k)"
    proof (cases "j = i")
      case True
      then show ?thesis using q kp by (auto simp: unpin_kpage_def page_hdr_valid_def new_kp_def new_hdr_def)
    next
      case False
      then show ?thesis using q T(6,7) h by (auto simp: hdrs_ok_def split: if_splits)
    qed
  qed
  moreover have "length (free_frames ?u) = length (free_frames s) - 1"
  proof -
    have "distinct (free_frames s)" "distinct (free_frames t)" using pw T(1) by (simp_all add: pool_wf_def)
    then show ?thesis using T(4,5) distinct_card [of "free_frames s"] distinct_card [of "free_frames t"] by simp
  qed
  moreover have "i \<notin> ran (pmap s)"
    using T(4) pool_wf_map(2) [OF pw] pw by (auto simp: ran_def pool_wf_def)
  moreover have "empty_page (pframes ?u i)" using f kp(1) row_page_kp(3) [of f] by (simp add: empty_page_def)
  moreover have "\<forall>j. j \<noteq> i \<longrightarrow> pframes ?u j = pframes s j" using T(7) by simp
  moreover have "kds_bdev ?u" using T(3) b by simp
  moreover have "pool_state.more ?u = pool_state.more s" using m T(2) by simp
  ultimately show ?thesis using run T(6) by (intro exI [of _ i] exI [of _ ?u]) simp
qed

lemma empty_page_rows: "empty_page f \<Longrightarrow> row_page w f" "empty_page f \<Longrightarrow> page_rows dec f = []" "empty_page f \<Longrightarrow> page_room f = 8135"
  by (simp_all add: empty_page_def row_page_def page_rows_def)

definition namespace_object :: "u64 \<times> string \<Rightarrow> kds_sys_object" where
  "namespace_object = (\<lambda>(oid, name). \<lparr>so_oid = oid, so_namespace_oid = oid, so_type_oid = KDS_OID_TYPE_NAMESPACE, so_rel_id = 0,
     so_name = set_name (bytes_of name)\<rparr>)"

definition type_object :: "u64 \<times> string \<Rightarrow> kds_sys_object" where
  "type_object = (\<lambda>(oid, name). \<lparr>so_oid = oid, so_namespace_oid = KDS_OID_NAMESPACE_SYS, so_type_oid = oid, so_rel_id = 0,
     so_name = set_name (bytes_of name)\<rparr>)"

definition well_known_objects :: "kds_sys_object list" where
  "well_known_objects = map namespace_object [(KDS_OID_NAMESPACE_SYS, ''namespaceSys''), (KDS_OID_NAMESPACE_PUBLIC, ''namespacePublic'')]
     @ map type_object well_known_types"

lemma register_each:
  "length (g_sys_objects s) + length xs \<le> 64 \<Longrightarrow>
   for_each (\<lambda>(oid, name). register_type oid name) xs s = (Inr (), s\<lparr>g_sys_objects := g_sys_objects s @ map type_object xs\<rparr>)"
proof (induction xs arbitrary: s)
  case Nil
  then show ?case by (simp add: sret_def)
next
  case (Cons x xs)
  obtain oid name where x: "x = (oid, name)" by (cases x)
  have "register_type oid name s = (Inr (), s\<lparr>g_sys_objects := g_sys_objects s @ [type_object x]\<rparr>)"
    using Cons.prems by (simp add: register_type_def kds_catalog_register_sys_object_def KDS_CATALOG_MAX_SYS_OBJECTS_def call_defs x type_object_def)
  then show ?case using Cons.IH [of "s\<lparr>g_sys_objects := g_sys_objects s @ [type_object x]\<rparr>"] Cons.prems
    by (simp add: x sbind_def)
qed

lemma register_overflow:
  "length (g_sys_objects s) \<le> 64 \<Longrightarrow> 64 < length (g_sys_objects s) + length xs \<Longrightarrow>
   fst (for_each (\<lambda>(oid, name). register_type oid name) xs s) = Inl Panic"
proof (induction xs arbitrary: s)
  case Nil
  then show ?case by simp
next
  case (Cons x xs)
  obtain oid name where x: "x = (oid, name)" by (cases x)
  show ?case
  proof (cases "length (g_sys_objects s) = 64")
    case True
    then show ?thesis
      by (simp add: x sbind_def register_type_def kds_catalog_register_sys_object_def KDS_CATALOG_MAX_SYS_OBJECTS_def sget_def sfail_def)
  next
    case False
    then have "register_type oid name s = (Inr (), s\<lparr>g_sys_objects := g_sys_objects s @ [type_object x]\<rparr>)"
      using Cons.prems by (simp add: register_type_def kds_catalog_register_sys_object_def KDS_CATALOG_MAX_SYS_OBJECTS_def call_defs x type_object_def)
    then show ?thesis using Cons.IH [of "s\<lparr>g_sys_objects := g_sys_objects s @ [type_object x]\<rparr>"] Cons.prems False
      by (simp add: x sbind_def)
  qed
qed

lemma well_known_run:
  assumes "length (g_sys_objects s) + 20 \<le> 64"
  shows "kds_catalog_init_well_known_objects s = (Inr (), s\<lparr>g_sys_objects := g_sys_objects s @ well_known_objects\<rparr>)"
proof -
  have n: "length well_known_types = 18" by (simp add: well_known_types_def)
  let ?s = "s\<lparr>g_sys_objects := g_sys_objects s @ map namespace_object [(KDS_OID_NAMESPACE_SYS, ''namespaceSys''), (KDS_OID_NAMESPACE_PUBLIC, ''namespacePublic'')]\<rparr>"
  have "kds_catalog_init_well_known_objects s = for_each (\<lambda>(oid, name). register_type oid name) well_known_types ?s"
    using assms by (simp add: kds_catalog_init_well_known_objects_def register_namespace_def kds_catalog_register_sys_object_def
        KDS_CATALOG_MAX_SYS_OBJECTS_def call_defs namespace_object_def)
  then show ?thesis using register_each [of ?s well_known_types] assms n by (simp add: well_known_objects_def)
qed

definition system_object :: "u64 \<times> string \<times> u64 \<Rightarrow> kds_sys_object" where
  "system_object = (\<lambda>(oid, name, p). \<lparr>so_oid = oid, so_namespace_oid = KDS_OID_NAMESPACE_SYS, so_type_oid = KDS_OID_TYPE_TABLE, so_rel_id = 0,
     so_name = set_name (bytes_of name)\<rparr>)"

definition system_table :: "u64 \<times> string \<times> u64 \<Rightarrow> kds_sys_table" where
  "system_table = (\<lambda>(oid, name, p). \<lparr>st_oid = oid, st_namespace_oid = KDS_OID_NAMESPACE_SYS, st_name = set_name (bytes_of name),
     st_desc_page_id = p, st_clustered_type = 0\<rparr>)"

definition system_type :: "(string \<Rightarrow> int res) \<Rightarrow> u64 \<times> string \<Rightarrow> kds_sys_type" where
  "system_type kstrtoll = (\<lambda>(oid, name). case kds_type_lookup_by_name kstrtoll name of
       None \<Rightarrow> \<lparr>sy_oid = 0, sy_name = [], sy_type_val = 0, sy_len = 0\<rparr>
     | Some d \<Rightarrow> \<lparr>sy_oid = oid, sy_name = set_name (bytes_of name), sy_type_val = type_val_code (type_val d), sy_len = of_nat (fixed_len d)\<rparr>)"

lemma type_known: "x \<in> set bootstrap_types \<Longrightarrow> \<exists>d. kds_type_lookup_by_name k (snd x) = Some d \<and> type_name d = snd x"
  by (auto simp: bootstrap_types_def kds_type_lookup_by_name_def kds_type_table_def mk_desc_def)

lemma for_each_fold:
  assumes "\<And>x xs v. P (x # xs) v \<Longrightarrow> f x v = (Inr (), g x v) \<and> P xs (g x v)" and "P xs v"
  shows "for_each f xs v = (Inr (), fold g xs v)"
  using assms(2)
proof (induction xs arbitrary: v)
  case Nil
  then show ?case by (simp add: sret_def)
next
  case (Cons x xs)
  show ?case using assms(1) [OF Cons.prems] Cons.IH [of "g x v"] by (simp add: sbind_def)
qed

lemma or_panic_ok: "m v = (Inr x, v') \<Longrightarrow> or_panic m v = (Inr x, v')"
  by (simp add: or_panic_def sattempt_def call_defs)

lemma add_objects:
  assumes "129 * length xs \<le> cv_objects_room v"
  shows "for_each (\<lambda>x. or_panic (spec_add_object (f x))) xs v =
    (Inr (), v\<lparr>cv_objects := cv_objects v @ map f xs, cv_objects_room := cv_objects_room v - 129 * length xs\<rparr>)"
proof -
  let ?g = "\<lambda>x v. v\<lparr>cv_objects := cv_objects v @ [f x], cv_objects_room := cv_objects_room v - 129\<rparr>"
  have "for_each (\<lambda>x. or_panic (spec_add_object (f x))) xs v = (Inr (), fold ?g xs v)"
    by (rule for_each_fold [where P = "\<lambda>xs v. 129 * length xs \<le> cv_objects_room v"]) (use assms in \<open>auto simp: spec_add_object_def intro!: or_panic_ok\<close>)
  moreover have "fold ?g xs v = v\<lparr>cv_objects := cv_objects v @ map f xs, cv_objects_room := cv_objects_room v - 129 * length xs\<rparr>"
    by (induction xs arbitrary: v) simp_all
  ultimately show ?thesis by simp
qed

lemma add_tables:
  assumes "122 * length xs \<le> cv_tables_room v"
  shows "for_each (\<lambda>x. or_panic (spec_add_table (f x))) xs v =
    (Inr (), v\<lparr>cv_tables := cv_tables v @ map f xs, cv_tables_room := cv_tables_room v - 122 * length xs\<rparr>)"
proof -
  let ?g = "\<lambda>x v. v\<lparr>cv_tables := cv_tables v @ [f x], cv_tables_room := cv_tables_room v - 122\<rparr>"
  have "for_each (\<lambda>x. or_panic (spec_add_table (f x))) xs v = (Inr (), fold ?g xs v)"
    by (rule for_each_fold [where P = "\<lambda>xs v. 122 * length xs \<le> cv_tables_room v"]) (use assms in \<open>auto simp: spec_add_table_def intro!: or_panic_ok\<close>)
  moreover have "fold ?g xs v = v\<lparr>cv_tables := cv_tables v @ map f xs, cv_tables_room := cv_tables_room v - 122 * length xs\<rparr>"
    by (induction xs arbitrary: v) simp_all
  ultimately show ?thesis by simp
qed

lemma add_types:
  assumes "113 * length xs \<le> cv_types_room v"
  shows "for_each (\<lambda>x. or_panic (spec_add_type (f x))) xs v =
    (Inr (), v\<lparr>cv_types := cv_types v @ map f xs, cv_types_room := cv_types_room v - 113 * length xs\<rparr>)"
proof -
  let ?g = "\<lambda>x v. v\<lparr>cv_types := cv_types v @ [f x], cv_types_room := cv_types_room v - 113\<rparr>"
  have "for_each (\<lambda>x. or_panic (spec_add_type (f x))) xs v = (Inr (), fold ?g xs v)"
    by (rule for_each_fold [where P = "\<lambda>xs v. 113 * length xs \<le> cv_types_room v"]) (use assms in \<open>auto simp: spec_add_type_def intro!: or_panic_ok\<close>)
  moreover have "fold ?g xs v = v\<lparr>cv_types := cv_types v @ map f xs, cv_types_room := cv_types_room v - 113 * length xs\<rparr>"
    by (induction xs arbitrary: v) simp_all
  ultimately show ?thesis by simp
qed

text \<open>The abstract catalogue after the bootstrap.\<close>

definition bootstrapped :: "(string \<Rightarrow> int res) \<Rightarrow> cat_view \<Rightarrow> bool" where
  "bootstrapped kstrtoll v \<longleftrightarrow> cv_objects v = map system_object sys_tables \<and> cv_tables v = map system_table sys_tables
     \<and> cv_types v = map (system_type kstrtoll) bootstrap_types \<and> cv_columns v = []
     \<and> cv_objects_room v = 7619 \<and> cv_tables_room v = 7647 \<and> cv_types_room v = 7118 \<and> cv_columns_room v = 8135"

lemma four_pages:
  fixes s :: "'z cat_state_scheme"
  assumes good: "env_good env" and nc: "no_catalog s"
  shows "\<exists>s'. for_each (\<lambda>(oid, name, page_id). or_panic (bootstrap_one_catalog_page env page_id)) sys_tables s = (Inr (), s')
    \<and> catalog_wf s' \<and> pool_state.more s' = pool_state.more s \<and> ring_items s' = ring_items s
    \<and> (\<forall>q \<in> {4, 5, 6, 7}. empty_page (cat_frame s' q)) \<and> kds_bdev s' \<and> (\<forall>p. p \<notin> {4, 5, 6, 7} \<longrightarrow> pmap s' p = pmap s p)
    \<and> (\<forall>i \<in> ran (pmap s). pframes s' i = pframes s i)"
proof -
  have P: "or_panic (bootstrap_one_catalog_page env p) s = (Inr (), s')" if "bootstrap_one_catalog_page env p s = (Inr (), s')"
    for p and s s' :: "'z cat_state_scheme" using that by (simp add: or_panic_def sattempt_def call_defs)
  have s: "alloc_wf s" "g_alloc s" "hdrs_ok s" "kds_bdev s" "4 \<le> length (free_frames s)" "pmap s 4 = None" "pmap s 5 = None" "pmap s 6 = None" "pmap s 7 = None"
    using nc by (simp_all add: no_catalog_def)
  have m0: "free_frames s \<noteq> []" using s(5) by auto
  obtain i4 s1 where a: "bootstrap_one_catalog_page env 4 s = (Inr (), s1)" "alloc_wf s1" "hdrs_ok s1" "kds_bdev s1" "pmap s1 = (pmap s)(4 \<mapsto> i4)"
    "length (free_frames s1) = length (free_frames s) - 1" "\<forall>j. j \<noteq> i4 \<longrightarrow> pframes s1 j = pframes s j" "i4 \<notin> ran (pmap s)"
    "empty_page (pframes s1 i4)" "pool_state.more s1 = pool_state.more s"
    using bootstrap_page [OF good s(1,3,4,6) m0] by auto
  have m1: "pmap s1 6 = None" "free_frames s1 \<noteq> []" using a(5,6) s by auto
  obtain i6 s2 where b: "bootstrap_one_catalog_page env 6 s1 = (Inr (), s2)" "alloc_wf s2" "hdrs_ok s2" "kds_bdev s2" "pmap s2 = (pmap s1)(6 \<mapsto> i6)"
    "length (free_frames s2) = length (free_frames s1) - 1" "\<forall>j. j \<noteq> i6 \<longrightarrow> pframes s2 j = pframes s1 j" "i6 \<notin> ran (pmap s1)"
    "empty_page (pframes s2 i6)" "pool_state.more s2 = pool_state.more s1"
    using bootstrap_page [OF good a(2,3,4) m1] by auto
  have m2: "pmap s2 5 = None" "free_frames s2 \<noteq> []" using a(5,6) b(5,6) s by auto
  obtain i5 s3 where c: "bootstrap_one_catalog_page env 5 s2 = (Inr (), s3)" "alloc_wf s3" "hdrs_ok s3" "kds_bdev s3" "pmap s3 = (pmap s2)(5 \<mapsto> i5)"
    "length (free_frames s3) = length (free_frames s2) - 1" "\<forall>j. j \<noteq> i5 \<longrightarrow> pframes s3 j = pframes s2 j" "i5 \<notin> ran (pmap s2)"
    "empty_page (pframes s3 i5)" "pool_state.more s3 = pool_state.more s2"
    using bootstrap_page [OF good b(2,3,4) m2] by auto
  have m3: "pmap s3 7 = None" "free_frames s3 \<noteq> []" using a(5,6) b(5,6) c(5,6) s by auto
  obtain i7 s4 where d: "bootstrap_one_catalog_page env 7 s3 = (Inr (), s4)" "alloc_wf s4" "hdrs_ok s4" "kds_bdev s4" "pmap s4 = (pmap s3)(7 \<mapsto> i7)"
    "length (free_frames s4) = length (free_frames s3) - 1" "\<forall>j. j \<noteq> i7 \<longrightarrow> pframes s4 j = pframes s3 j" "i7 \<notin> ran (pmap s3)"
    "empty_page (pframes s4 i7)" "pool_state.more s4 = pool_state.more s3"
    using bootstrap_page [OF good c(2,3,4) m3] by auto
  have m: "pool_state.more s4 = pool_state.more s" using a(10) b(10) c(10) d(10) by simp
  have ri: "ring_items s4 = ring_items s" using ring_more [OF m] by simp
  have in_map: "pmap s4 4 = Some i4" "pmap s4 6 = Some i6" "pmap s4 5 = Some i5" "pmap s4 7 = Some i7" using a(5) b(5) c(5) d(5) by simp_all
  have ran: "ran (pmap s1) = insert i4 (ran (pmap s))" "ran (pmap s2) = insert i6 (ran (pmap s1))" "ran (pmap s3) = insert i5 (ran (pmap s2))"
    using a(5) b(5) c(5) m1 m2 s by simp_all
  then have ne: "i6 \<noteq> i4" "i5 \<noteq> i4" "i5 \<noteq> i6" "i7 \<noteq> i4" "i7 \<noteq> i5" "i7 \<noteq> i6" "i6 \<notin> ran (pmap s)" "i5 \<notin> ran (pmap s)" "i7 \<notin> ran (pmap s)"
    using b(8) c(8) d(8) by auto
  have fr: "empty_page (pframes s4 i4)" "empty_page (pframes s4 i6)" "empty_page (pframes s4 i5)" "empty_page (pframes s4 i7)"
    using a(9) b(7,9) c(7,9) d(7,9) ne by auto
  have st: "set (ring_items s) \<subseteq> ran (pmap s)" using s(1) by (simp add: alloc_wf_def)
  have "catalog_wf s4"
    unfolding catalog_wf_def using d(2,3) alloc_of_more(6) [OF m] s(2) in_map fr ri st ne a(8)
    by (auto intro: empty_page_rows(1))
  moreover have "for_each (\<lambda>(oid, name, page_id). or_panic (bootstrap_one_catalog_page env page_id)) sys_tables s = (Inr (), s4)"
    using P [OF a(1)] P [OF b(1)] P [OF c(1)] P [OF d(1)] by (simp add: sys_tables_def call_defs)
  moreover have "\<forall>q \<in> {4, 5, 6, 7}. empty_page (cat_frame s4 q)" using in_map fr by (simp add: cat_frame_def)
  moreover have "\<forall>p. p \<notin> {4, 5, 6, 7} \<longrightarrow> pmap s4 p = pmap s p" using a(5) b(5) c(5) d(5) by simp
  moreover have "\<forall>i \<in> ran (pmap s). pframes s4 i = pframes s i"
    using a(7,8) b(7) c(7) d(7) ne by metis
  ultimately show ?thesis using m ri d(4) by (intro exI [of _ s4]) simp
qed

lemma bootstrap_rows:
  fixes s :: "'z cat_state_scheme" and env :: kenv and k :: "string \<Rightarrow> int res"
  assumes wf: "catalog_wf s" and e: "\<forall>q \<in> {4, 5, 6, 7}. empty_page (cat_frame s q)"
  defines "rows \<equiv> sbind (for_each (\<lambda>(oid, name, page_id).
       or_panic (kds_catalog_insert_object_row env oid KDS_OID_NAMESPACE_SYS KDS_OID_TYPE_TABLE (bytes_of name))) sys_tables) (\<lambda>_.
     sbind (for_each (\<lambda>(oid, name, page_id).
       or_panic (kds_catalog_insert_relation_row env oid KDS_OID_NAMESPACE_SYS (bytes_of name) page_id KDS_CLUSTERED_HEAP)) sys_tables) (\<lambda>_.
     for_each (\<lambda>(oid, name). case kds_type_lookup_by_name k name of
         None \<Rightarrow> sfail Panic
       | Some desc \<Rightarrow> or_panic (insert_sys_type_row env oid (bytes_of (type_name desc)) (type_val_code (type_val desc)) (of_nat (fixed_len desc))))
       bootstrap_types)) :: ('z cat_state_scheme, unit) call"
  shows "\<exists>s'. rows s = (Inr (), s') \<and> catalog_wf s' \<and> pmap s' = pmap s \<and> bootstrapped k (catalog_view s') \<and> cv_staged (catalog_view s') = cv_staged (catalog_view s)
    \<and> cv_oid (catalog_view s') = cv_oid (catalog_view s)"
proof -
  obtain i where i: "pmap s 4 = Some i" using catalog_wf_page [OF wf, of 4] by auto
  define srows where "srows = sbind (for_each (\<lambda>x. or_panic (spec_add_object (system_object x))) sys_tables) (\<lambda>_.
     sbind (for_each (\<lambda>x. or_panic (spec_add_table (system_table x))) sys_tables) (\<lambda>_.
     for_each (\<lambda>x. or_panic (spec_add_type (system_type k x))) bootstrap_types))"
  have 1: "simulates 4 i (case x of (oid, name, page_id) \<Rightarrow>
       or_panic (kds_catalog_insert_object_row env oid KDS_OID_NAMESPACE_SYS KDS_OID_TYPE_TABLE (bytes_of name))) (or_panic (spec_add_object (system_object x)))" for x
    unfolding kds_catalog_insert_object_row_def catalog_simps system_object_def
    by (cases x) (auto intro!: sim_or_panic sim_add_object)
  have 2: "simulates 4 i (case x of (oid, name, page_id) \<Rightarrow>
       or_panic (kds_catalog_insert_relation_row env oid KDS_OID_NAMESPACE_SYS (bytes_of name) page_id KDS_CLUSTERED_HEAP)) (or_panic (spec_add_table (system_table x)))" for x
    unfolding kds_catalog_insert_relation_row_def catalog_simps system_table_def
    by (cases x) (auto simp: KDS_CLUSTERED_HEAP_def intro!: sim_or_panic sim_add_table)
  have 3: "simulates 4 i (case x of (oid, name) \<Rightarrow> case kds_type_lookup_by_name k name of
         None \<Rightarrow> sfail Panic
       | Some desc \<Rightarrow> or_panic (insert_sys_type_row env oid (bytes_of (type_name desc)) (type_val_code (type_val desc)) (of_nat (fixed_len desc))))
     (or_panic (spec_add_type (system_type k x)))" if "x \<in> set bootstrap_types" for x
    using type_known [OF that, of k] unfolding insert_sys_type_row_def catalog_simps system_type_def
    by (cases x) (auto intro!: sim_or_panic sim_add_type)
  have sim: "simulates 4 i rows srows"
    unfolding rows_def srows_def by (intro sim_bind sim_for_each 1 2 3) simp_all
  obtain r s' where r: "rows s = (r, s')" by fastforce
  note R = simulatesD [OF sim wf i r]
  have v: "cv_objects (catalog_view s) = []" "cv_tables (catalog_view s) = []" "cv_columns (catalog_view s) = []" "cv_types (catalog_view s) = []"
    "cv_objects_room (catalog_view s) = 8135" "cv_tables_room (catalog_view s) = 8135" "cv_columns_room (catalog_view s) = 8135" "cv_types_room (catalog_view s) = 8135"
    using e by (simp_all add: catalog_view_def empty_page_rows(2,3))
  have len: "length sys_tables = 4" "length bootstrap_types = 9" by (simp_all add: sys_tables_def bootstrap_types_def)
  have "srows (catalog_view s) = (Inr (), (catalog_view s)\<lparr>cv_objects := map system_object sys_tables, cv_objects_room := 7619,
      cv_tables := map system_table sys_tables, cv_tables_room := 7647, cv_types := map (system_type k) bootstrap_types, cv_types_room := 7118\<rparr>)"
    unfolding srows_def sbind_def using v len by (simp add: add_objects add_tables add_types)
  then show ?thesis using R r v by (auto simp: bootstrapped_def)
qed

lemma no_catalog_objects [simp]: "no_catalog (s\<lparr>g_sys_objects := x\<rparr>) = no_catalog s"
proof -
  have "pool_wf (s\<lparr>g_sys_objects := x\<rparr>) = pool_wf s" by (rule pool_wf_cong) simp_all
  moreover have "ring_items (s\<lparr>g_sys_objects := x\<rparr>) = ring_items s" "ring_inv (s\<lparr>g_sys_objects := x\<rparr>) = ring_inv s"
    by (rule ring_cong; simp)+
  ultimately show ?thesis by (simp add: no_catalog_def alloc_wf_def hdrs_ok_def)
qed

lemma bootstrap_run:
  fixes s :: "'z cat_state_scheme"
  assumes good: "env_good env" and nc: "no_catalog s" and g: "length (g_sys_objects s) + 20 \<le> 64"
  shows "\<exists>s'. kds_catalog_bootstrap env k s = (Inr (), s') \<and> catalog_wf s' \<and> bootstrapped k (catalog_view s')
    \<and> cv_oid (catalog_view s') = g_user_oid_counter s \<and> cv_staged (catalog_view s') = map (\<lambda>i. fr_page_id (pframes s i)) (ring_items s)"
proof -
  let ?s0 = "s\<lparr>g_sys_objects := g_sys_objects s @ well_known_objects\<rparr>"
  obtain s1 where s1: "for_each (\<lambda>(oid, name, page_id). or_panic (bootstrap_one_catalog_page env page_id)) sys_tables ?s0 = (Inr (), s1)"
    "catalog_wf s1" "pool_state.more s1 = pool_state.more ?s0" "\<forall>q \<in> {4, 5, 6, 7}. empty_page (cat_frame s1 q)"
    "ring_items s1 = ring_items ?s0" "\<forall>i \<in> ran (pmap ?s0). pframes s1 i = pframes ?s0 i"
    using four_pages [OF good, of ?s0] nc by auto
  note R = bootstrap_rows [OF s1(2,4), of env k]
  have ri: "ring_items ?s0 = ring_items s" by (rule ring_cong; simp)
  have "set (ring_items s) \<subseteq> ran (pmap s)" using nc by (simp add: no_catalog_def alloc_wf_def)
  then have st: "cv_staged (catalog_view s1) = map (\<lambda>i. fr_page_id (pframes s i)) (ring_items s)"
    using s1(5,6) ri by (auto simp: catalog_view_def)
  show ?thesis
    using R cat_more(1) [OF s1(3)] st
    unfolding kds_catalog_bootstrap_def sbind_def [of kds_catalog_init_well_known_objects] well_known_run [OF g]
    by (auto simp: sbind_def [of "for_each _ _" "\<lambda>_. sbind _ (\<lambda>_. sbind _ _)"] s1(1) catalog_view_def)
qed

section \<open>What a successful creation leaves\<close>

fun stored_columns :: "u64 \<Rightarrow> u64 \<Rightarrow> kds_sys_column list \<Rightarrow> kds_sys_column list" where
  "stored_columns rel oid [] = []"
| "stored_columns rel oid (c # cs) = stored_column (oid + 1) rel c # stored_columns rel (oid + 1) cs"

lemma stored_columns_facts [simp]:
  "length (stored_columns rel oid cs) = length cs" "filter (\<lambda>c. sc_rel_id c = rel) (stored_columns rel oid cs) = stored_columns rel oid cs"
  by (induction cs arbitrary: oid) (simp_all add: stored_column_def)

lemma spec_columns_ok:
  assumes "for_each (\<lambda>c. sbind spec_new_oid (\<lambda>co. spec_add_column (stored_column co rel c))) cols v = (Inr (), v')"
  shows "v' = v\<lparr>cv_columns := cv_columns v @ stored_columns rel (cv_oid v) cols, cv_columns_room := cv_columns_room v - 126 * length cols,
    cv_oid := cv_oid v + of_nat (length cols)\<rparr>"
  using assms
proof (induction cols arbitrary: v)
  case Nil
  then show ?case by (simp add: sret_def)
next
  case (Cons c cs)
  let ?f = "\<lambda>c. sbind spec_new_oid (\<lambda>co. spec_add_column (stored_column co rel c))"
  obtain w where w: "?f c v = (Inr (), w)" "for_each ?f cs w = (Inr (), v')"
    using Cons.prems by (auto simp: sbind_def [of "?f c"] split: prod.splits sum.splits)
  have wv: "w = v\<lparr>cv_columns := cv_columns v @ [stored_column (cv_oid v + 1) rel c], cv_columns_room := cv_columns_room v - 126, cv_oid := cv_oid v + 1\<rparr>"
    using w(1) by (auto simp: sbind_def spec_new_oid_def spec_add_column_def split: if_splits)
  show ?case using Cons.IH [OF w(2)] by (simp add: wv algebra_simps)
qed

lemma take_page_none: "cv_staged v = [] \<Longrightarrow> sbind spec_take_page k v = (fails ENOSPC, v)"
  by (simp add: spec_take_page_def sbind_def)

lemma spec_binds:
  "sbind spec_new_oid k v = k (cv_oid v + 1) (v\<lparr>cv_oid := cv_oid v + 1\<rparr>)"
  "sbind (spec_add_object ro) h v = (if cv_objects_room v < 129 then (fails ENOSPC, v)
     else h () (v\<lparr>cv_objects := cv_objects v @ [ro], cv_objects_room := cv_objects_room v - 129\<rparr>))"
  "sbind (spec_add_table rt) h v = (if cv_tables_room v < 122 then (fails ENOSPC, v)
     else h () (v\<lparr>cv_tables := cv_tables v @ [rt], cv_tables_room := cv_tables_room v - 122\<rparr>))"
  by (simp_all add: sbind_def spec_new_oid_def spec_add_object_def spec_add_table_def)

lemma spec_create_ok:
  assumes "spec_create_table ns nm cols ct v = (Inr oid, v')"
  shows "oid = cv_oid v + 1 \<and> (\<exists>p ps. cv_staged v = p # ps \<and> cv_staged v' = ps
     \<and> cv_objects v' = cv_objects v @ [\<lparr>so_oid = oid, so_namespace_oid = ns, so_type_oid = KDS_OID_TYPE_TABLE, so_rel_id = 0, so_name = set_name nm\<rparr>]
     \<and> cv_tables v' = cv_tables v @ [\<lparr>st_oid = oid, st_namespace_oid = ns, st_name = set_name nm, st_desc_page_id = p, st_clustered_type = ucast ct\<rparr>]
     \<and> cv_columns v' = cv_columns v @ stored_columns oid oid cols \<and> cv_types v' = cv_types v
     \<and> ct \<in> {KDS_CLUSTERED_HEAP, KDS_CLUSTERED_BTREE})"
proof -
  let ?cols = "\<lambda>oid. for_each (\<lambda>c. sbind spec_new_oid (\<lambda>co. spec_add_column (stored_column co oid c))) cols"
  have ct: "ct \<in> {KDS_CLUSTERED_HEAP, KDS_CLUSTERED_BTREE}"
    using assms by (auto simp: spec_create_table_def sfail_def split: if_splits)
  obtain p ps where st: "cv_staged v = p # ps"
    using assms by (cases "cv_staged v") (auto simp: spec_create_table_def sfail_def take_page_none split: if_splits)
  define w where "w = v\<lparr>cv_staged := ps, cv_oid := cv_oid v + 1,
     cv_objects := cv_objects v @ [\<lparr>so_oid = cv_oid v + 1, so_namespace_oid = ns, so_type_oid = KDS_OID_TYPE_TABLE, so_rel_id = 0, so_name = set_name nm\<rparr>],
     cv_objects_room := cv_objects_room v - 129,
     cv_tables := cv_tables v @ [\<lparr>st_oid = cv_oid v + 1, st_namespace_oid = ns, st_name = set_name nm, st_desc_page_id = p, st_clustered_type = ucast ct\<rparr>],
     cv_tables_room := cv_tables_room v - 122\<rparr>"
  have "sbind (?cols (cv_oid v + 1)) (\<lambda>_. sret (cv_oid v + 1)) w = (Inr oid, v')"
    using assms ct st
    by (auto simp: spec_create_table_def take_page_bind spec_binds w_def split: if_splits)
  then have c: "?cols (cv_oid v + 1) w = (Inr (), v')" "oid = cv_oid v + 1"
    by (auto simp: sbind_def sret_def split: prod.splits sum.splits)
  show ?thesis using spec_columns_ok [OF c(1)] c(2) ct st by (simp add: w_def)
qed

text \<open>No name clash and no id clash with what is there.\<close>

definition fresh_name :: "cat_view \<Rightarrow> u8 list \<Rightarrow> bool" where
  "fresh_name v n \<longleftrightarrow> (\<forall>r \<in> set (cv_objects v). so_type_oid r = KDS_OID_TYPE_TABLE \<longrightarrow> cstr 64 (so_name r) \<noteq> cstr 64 n)"

definition fresh_oid :: "cat_view \<Rightarrow> u64 \<Rightarrow> bool" where
  "fresh_oid v oid \<longleftrightarrow> (\<forall>r \<in> set (cv_tables v). st_oid r \<noteq> oid) \<and> (\<forall>c \<in> set (cv_columns v). sc_rel_id c \<noteq> oid)"

lemma find_append: "find P (xs @ ys) = (case find P xs of None \<Rightarrow> find P ys | Some x \<Rightarrow> Some x)"
  by (induction xs) simp_all

lemma find_none: "\<forall>x \<in> set xs. \<not> P x \<Longrightarrow> find P xs = None"
  by (induction xs) simp_all

lemma created_lookup:
  assumes wf: "catalog_wf s" and n: "unat (nr_cols sch) = length (sch_cols sch)" and nm: "short_name nm"
    and run: "kds_catalog_create_table env ns (Some nm) (Some sch) ct s = (Inr oid, s')"
    and fn: "fresh_name (catalog_view s) nm" and fo: "fresh_oid (catalog_view s) oid"
  shows "kds_catalog_find_table_oid_by_name env (Some nm) s' = (Inr oid, s')"
    "\<exists>p ps. cv_staged (catalog_view s) = p # ps \<and> kds_catalog_get_sys_table_row env oid s' =
       (Inr \<lparr>st_oid = oid, st_namespace_oid = ns, st_name = set_name nm, st_desc_page_id = p, st_clustered_type = ucast ct\<rparr>, s')"
    "filter (\<lambda>c. sc_rel_id c = oid) (cv_columns (catalog_view s')) = stored_columns oid oid (sch_cols sch)" "catalog_wf s'"
proof -
  have S: "catalog_wf s'" "spec_create_table ns nm (sch_cols sch) ct (catalog_view s) = (Inr oid, catalog_view s')"
    using create_table_sim [OF wf n, where env = env and ns = ns and nm = nm and ct = ct] run by simp_all
  obtain p ps where C: "cv_staged (catalog_view s) = p # ps"
    "cv_objects (catalog_view s') = cv_objects (catalog_view s) @
       [\<lparr>so_oid = oid, so_namespace_oid = ns, so_type_oid = KDS_OID_TYPE_TABLE, so_rel_id = 0, so_name = set_name nm\<rparr>]"
    "cv_tables (catalog_view s') = cv_tables (catalog_view s) @
       [\<lparr>st_oid = oid, st_namespace_oid = ns, st_name = set_name nm, st_desc_page_id = p, st_clustered_type = ucast ct\<rparr>]"
    "cv_columns (catalog_view s') = cv_columns (catalog_view s) @ stored_columns oid oid (sch_cols sch)"
    using spec_create_ok [OF S(2)] by blast
  show "catalog_wf s'" by (rule S(1))
  have "find (\<lambda>r. so_type_oid r = KDS_OID_TYPE_TABLE \<and> strneq 64 (so_name r) nm) (cv_objects (catalog_view s)) = None"
    using fn by (intro find_none) (auto simp: fresh_name_def strneq_iff)
  then show "kds_catalog_find_table_oid_by_name env (Some nm) s' = (Inr oid, s')"
    using find_oid_view [OF S(1), of env nm] C(2) own_name [OF nm, of nm] by (simp add: find_append found_def)
  have "find (\<lambda>r. st_oid r = oid) (cv_tables (catalog_view s)) = None" using fo by (intro find_none) (auto simp: fresh_oid_def)
  then have "kds_catalog_get_sys_table_row env oid s' =
       (Inr \<lparr>st_oid = oid, st_namespace_oid = ns, st_name = set_name nm, st_desc_page_id = p, st_clustered_type = ucast ct\<rparr>, s')"
    using get_row_view [OF S(1), of env oid] C(3) by (simp add: find_append found_def)
  with C(1) show "\<exists>p ps. cv_staged (catalog_view s) = p # ps \<and> kds_catalog_get_sys_table_row env oid s' =
       (Inr \<lparr>st_oid = oid, st_namespace_oid = ns, st_name = set_name nm, st_desc_page_id = p, st_clustered_type = ucast ct\<rparr>, s')" by blast
  have "filter (\<lambda>c. sc_rel_id c = oid) (cv_columns (catalog_view s)) = []" using fo by (auto simp: fresh_oid_def filter_empty_conv)
  then show "filter (\<lambda>c. sc_rel_id c = oid) (cv_columns (catalog_view s')) = stored_columns oid oid (sch_cols sch)"
    using C(4) by simp
qed

lemma find_set_desc: "find (\<lambda>r. st_oid r = o') (set_desc oid pid rs) =
    map_option (\<lambda>r. if o' = oid then r\<lparr>st_desc_page_id := pid\<rparr> else r) (find (\<lambda>r. st_oid r = o') rs)"
  by (induction rs) (auto simp: option.map_ident)

lemma found_map: "found (map_option g x) = rbind (found x) (\<lambda>r. Inr (g r))"
  by (simp add: found_def split: option.splits)

section \<open>A concrete database\<close>

definition demo_cat0 :: cat_state where
  "demo_cat0 = wal_state.extend demo_wal0 \<lparr>g_sys_objects = [], g_user_oid_counter = KDS_USER_OID_START\<rparr>"

lemma demo_cat0_simps:
  "pframes demo_cat0 = pframes demo_wal0" "pmap demo_cat0 = pmap demo_wal0" "free_frames demo_cat0 = free_frames demo_wal0"
  "nr_free demo_cat0 = nr_free demo_wal0" "cursor demo_cat0 = cursor demo_wal0" "reserved demo_cat0 = reserved demo_wal0" "ring demo_cat0 = ring demo_wal0"
  "g_alloc demo_cat0 = g_alloc demo_wal0" "kds_bdev demo_cat0 = kds_bdev demo_wal0" "g_pool demo_cat0 = g_pool demo_wal0"
  "g_sys_objects demo_cat0 = []" "g_user_oid_counter demo_cat0 = 4000"
  by (simp_all add: demo_cat0_def wal_state.defs KDS_USER_OID_START_def)

lemma demo_cat0_ring: "ring_items demo_cat0 = [5, 6]" "ring_inv demo_cat0"
proof -
  have "ring_items demo_cat0 = ring_items demo_wal0"
    by (simp add: ring_items_def ring_len_def kds_ring_count_def slot_at_def demo_cat0_simps)
  moreover have "ring_inv demo_cat0 = ring_inv demo_wal0"
    by (simp add: ring_inv_def ring_len_def kds_ring_count_def slot_at_def demo_cat0_simps)
  ultimately show "ring_items demo_cat0 = [5, 6]" "ring_inv demo_cat0" using demo_wal0_ring by simp_all
qed

lemma demo_no_catalog: "no_catalog demo_cat0"
proof -
  have "pool_wf demo_cat0 = pool_wf demo_wal0" by (simp add: pool_wf_def demo_cat0_simps)
  then have "alloc_wf demo_cat0"
    using demo_wal0_wf demo_cat0_ring demo_wal0_ring by (simp add: alloc_wf_def demo_cat0_simps)
  moreover have "hdrs_ok demo_cat0"
    by (auto simp: hdrs_ok_def demo_cat0_simps demo_wal0_simps demo_frame_def demo_kp_def page_hdr_valid_def split: if_splits)
  moreover have "4 \<le> length demo_free"
  proof -
    have "{0, 1, 2, 3} \<subseteq> set demo_free" by (auto simp: demo_free_def KDS_BUF_NR_FRAMES_def)
    then have "card {0, 1, 2, 3 :: nat} \<le> card (set demo_free)" by (intro card_mono) auto
    then show ?thesis using card_length [of demo_free] by simp
  qed
  ultimately show ?thesis by (simp add: no_catalog_def demo_cat0_simps demo_wal0_simps)
qed

definition demo_column :: "string \<Rightarrow> u32 \<Rightarrow> kds_sys_column" where
  "demo_column name pos = \<lparr>sc_oid = 0, sc_rel_id = 0, sc_pos = pos, sc_name = bytes_of name, sc_type_val = 3, sc_len = 8, sc_notnull = 1\<rparr>"

definition demo_schema :: kds_schema where
  "demo_schema = \<lparr>sch_cols = [demo_column ''id'' 0, demo_column ''qty'' 1], nr_cols = 2\<rparr>"

section \<open>Properties\<close>

lemma strneq_name: "strneq 64 (set_name n) m \<longleftrightarrow> cstr 63 n = cstr 64 m"
  by (simp add: strneq_iff cstr_set_name)

lemma system_lookup:
  assumes wf: "catalog_wf s" and b: "bootstrapped k (catalog_view s)"
  shows "\<forall>(oid, name, p) \<in> set sys_tables. kds_catalog_find_table_oid_by_name env (Some (bytes_of name)) s = (Inr oid, s)
     \<and> kds_catalog_get_sys_table_row env oid s = (Inr (system_table (oid, name, p)), s)"
proof -
  have O: "cv_objects (catalog_view s) = map system_object sys_tables" and T: "cv_tables (catalog_view s) = map system_table sys_tables"
    using b by (simp_all add: bootstrapped_def)
  show ?thesis
    unfolding find_oid_view [OF wf] get_row_view [OF wf] O T sys_tables_def
    by (simp add: system_object_def system_table_def found_def strneq_name
        KDS_OID_SYS_TYPES_TABLE_def KDS_OID_SYS_OBJECTS_TABLE_def KDS_OID_SYS_COLUMNS_TABLE_def KDS_OID_SYS_TABLES_TABLE_def cstr_def bytes_of_def)
qed

text \<open>C22: on a fresh database, with a kernel that fails nothing and room in the table of well-known objects, the bootstrap creates the four catalogue pages and fills them: afterwards every system table
  is found by its name, its row names its page, and \<^verbatim>\<open>sys.types\<close> holds the nine scalar types with the ids, codes and
  lengths of the type registry. The catalogue invariant holds.\<close>

theorem catalog_bootstrap_correct:
  assumes "env_good env" and "no_catalog s" and "length (g_sys_objects s) + 20 \<le> 64"
  shows "\<exists>s'. kds_catalog_bootstrap env k s = (Inr (), s') \<and> catalog_wf s'
     \<and> cv_types (catalog_view s') = map (system_type k) bootstrap_types \<and> cv_columns (catalog_view s') = []
     \<and> (\<forall>(oid, name, p) \<in> set sys_tables. kds_catalog_find_table_oid_by_name env (Some (bytes_of name)) s' = (Inr oid, s')
          \<and> kds_catalog_get_sys_table_row env oid s' = (Inr (system_table (oid, name, p)), s'))"
proof -
  obtain s' where s': "kds_catalog_bootstrap env k s = (Inr (), s')" "catalog_wf s'" "bootstrapped k (catalog_view s')"
    using bootstrap_run [OF assms] by blast
  show ?thesis
    using s' system_lookup [OF s'(2,3), of env] by (intro exI [of _ s'] conjI) (simp_all add: bootstrapped_def)
qed

theorem catalog_bootstrap_correct_witness:
  "\<exists>s'. kds_catalog_bootstrap demo_env (\<lambda>_. Inl Fault) demo_cat0 = (Inr (), s') \<and> catalog_wf s'
     \<and> kds_catalog_find_table_oid_by_name demo_env (Some (bytes_of ''columns'')) s' = (Inr 111, s')"
  using catalog_bootstrap_correct [OF demo_env_good demo_no_catalog, of "\<lambda>_. Inl Fault"]
  by (auto simp: demo_cat0_simps sys_tables_def KDS_OID_SYS_COLUMNS_TABLE_def)

lemma demo_bootstrap: "\<exists>s. kds_catalog_bootstrap demo_env (\<lambda>_. Inl Fault) demo_cat0 = (Inr (), s) \<and> catalog_wf s \<and> bootstrapped (\<lambda>_. Inl Fault) (catalog_view s)
    \<and> cv_oid (catalog_view s) = 4000 \<and> cv_staged (catalog_view s) = [200, 201]"
  using bootstrap_run [OF demo_env_good demo_no_catalog, of "\<lambda>_. Inl Fault"]
  by (auto simp: demo_cat0_simps demo_cat0_ring demo_wal0_simps demo_frame_def)

text \<open>C7: creating a table refines its specification on the abstract catalogue: an unknown storage kind is rejected,
  an empty ring or a full catalogue page gives \<^verbatim>\<open>ENOSPC\<close> at exactly the step the specification gives it, and on
  every outcome the catalogue stays well-formed.\<close>

theorem create_table_refines:
  assumes "catalog_wf s" and "unat (nr_cols sch) = length (sch_cols sch)"
  shows "case kds_catalog_create_table env ns (Some nm) (Some sch) ct s of
    (r, s') \<Rightarrow> catalog_wf s' \<and> spec_create_table ns nm (sch_cols sch) ct (catalog_view s) = (r, catalog_view s')"
  using assms by (rule create_table_sim)

theorem create_table_refines_witness:
  "\<exists>s :: cat_state. catalog_wf s \<and> (case kds_catalog_create_table demo_env 1 (Some (bytes_of ''orders'')) (Some demo_schema) 0 s of
    (r, s') \<Rightarrow> catalog_wf s' \<and> spec_create_table 1 (bytes_of ''orders'') (sch_cols demo_schema) 0 (catalog_view s) = (r, catalog_view s'))"
proof -
  obtain s :: cat_state where s: "catalog_wf s" using demo_bootstrap by blast
  have n: "unat (nr_cols demo_schema) = length (sch_cols demo_schema)" by (simp add: demo_schema_def)
  show ?thesis by (intro exI [of _ s] conjI s) (rule create_table_refines [OF s n])
qed

text \<open>C8: A table whose creation succeeds is found, when its name has at most 63 characters and is not the name of another table, it has one to thirty-two columns, and no row of the catalogue has its id yet (the id counter starts again after a reboot): its name gives its id, and opening it gives the schema it was created with (each column with a fresh id), its storage kind and its root page, the oldest staged page.\<close>

theorem created_table_found:
  assumes "catalog_wf s" and "unat (nr_cols sch) = length (sch_cols sch)" and "sch_cols sch \<noteq> []" and "length (sch_cols sch) \<le> 32" and "short_name nm"
    and "fresh_name (catalog_view s) nm" and "fresh_oid (catalog_view s) oid"
    and "kds_catalog_create_table env ns (Some nm) (Some sch) ct s = (Inr oid, s')"
  shows "kds_catalog_find_table_oid_by_name env (Some nm) s' = (Inr oid, s')
    \<and> kds_catalog_init_table_access env ns oid s' = (Inr \<lparr>ta_namespace_oid = ns, ta_oid = oid,
        ta_schema = \<lparr>sch_cols = stored_columns oid oid (sch_cols sch), nr_cols = nr_cols sch\<rparr>,
        ta_desc_page_id = hd (cv_staged (catalog_view s)), ta_clustered_type = ct\<rparr>, s')"
proof -
  note L = created_lookup [OF assms(1,2,5,8,6,7)]
  obtain p ps where p: "cv_staged (catalog_view s) = p # ps" "kds_catalog_get_sys_table_row env oid s' =
       (Inr \<lparr>st_oid = oid, st_namespace_oid = ns, st_name = set_name nm, st_desc_page_id = p, st_clustered_type = ucast ct\<rparr>, s')"
    using L(2) by blast
  have ct: "ucast (ucast ct :: u8) = ct"
  proof -
    have "spec_create_table ns nm (sch_cols sch) ct (catalog_view s) = (Inr oid, catalog_view s')"
      using create_table_sim [OF assms(1,2), where env = env and ns = ns and nm = nm and ct = ct] assms(8) by simp
    then show ?thesis using spec_create_ok by (fastforce simp: KDS_CLUSTERED_HEAP_def KDS_CLUSTERED_BTREE_def)
  qed
  have n: "of_nat (length (sch_cols sch)) = nr_cols sch" by (simp flip: assms(2))
  have "stored_columns oid oid (sch_cols sch) \<noteq> []" using assms(3) by (cases "sch_cols sch") simp_all
  then have "kds_catalog_build_schema_from_columns env oid s' = (Inr \<lparr>sch_cols = stored_columns oid oid (sch_cols sch), nr_cols = nr_cols sch\<rparr>, s')"
    using schema_view [OF L(4), of env oid] L(3) assms(4) n by simp
  then show ?thesis using L(1) p ct by (simp add: kds_catalog_init_table_access_def call_defs)
qed

text \<open>The columns that fit are stored, in order; the first that does not fit ends the loop.\<close>

lemma columns_run:
  "for_each (\<lambda>c. sbind spec_new_oid (\<lambda>co. spec_add_column (stored_column co rel c))) cols v =
    (if 126 * length cols \<le> cv_columns_room v then Inr () else fails ENOSPC,
     v\<lparr>cv_columns := cv_columns v @ stored_columns rel (cv_oid v) (take (cv_columns_room v div 126) cols),
       cv_columns_room := cv_columns_room v - 126 * min (length cols) (cv_columns_room v div 126),
       cv_oid := cv_oid v + of_nat (min (length cols) (Suc (cv_columns_room v div 126)))\<rparr>)"
proof (induction cols arbitrary: v)
  case Nil
  then show ?case by (simp add: sret_def)
next
  case (Cons c cols)
  show ?case
  proof (cases "cv_columns_room v < 126")
    case True
    then show ?thesis by (simp add: spec_binds sbind_def [of "\<lambda>v. _ v"] sbind_def spec_new_oid_def spec_add_column_def)
  next
    case False
    let ?v = "v\<lparr>cv_oid := cv_oid v + 1, cv_columns := cv_columns v @ [stored_column (cv_oid v + 1) rel c], cv_columns_room := cv_columns_room v - 126\<rparr>"
    have d: "cv_columns_room v div 126 = Suc ((cv_columns_room v - 126) div 126)" using False by (simp add: le_div_geq)
    have e: "126 + 126 * length cols \<le> cv_columns_room v \<longleftrightarrow> 126 * length cols \<le> cv_columns_room v - 126" using False by auto
    have "for_each (\<lambda>c. sbind spec_new_oid (\<lambda>co. spec_add_column (stored_column co rel c))) (c # cols) v
        = for_each (\<lambda>c. sbind spec_new_oid (\<lambda>co. spec_add_column (stored_column co rel c))) cols ?v"
      using False by (simp add: sbind_def spec_new_oid_def spec_add_column_def)
    then show ?thesis using Cons.IH [of ?v] by (simp add: d e)
  qed
qed

text \<open>A creation up to its columns.\<close>

definition with_table_rows :: "u64 \<Rightarrow> u8 list \<Rightarrow> u32 \<Rightarrow> u64 \<Rightarrow> u64 list \<Rightarrow> cat_view \<Rightarrow> cat_view" where
  "with_table_rows ns nm ct p ps v = v\<lparr>cv_staged := ps, cv_oid := cv_oid v + 1,
     cv_objects := cv_objects v @ [\<lparr>so_oid = cv_oid v + 1, so_namespace_oid = ns, so_type_oid = KDS_OID_TYPE_TABLE, so_rel_id = 0, so_name = set_name nm\<rparr>],
     cv_objects_room := cv_objects_room v - 129,
     cv_tables := cv_tables v @ [\<lparr>st_oid = cv_oid v + 1, st_namespace_oid = ns, st_name = set_name nm, st_desc_page_id = p, st_clustered_type = ucast ct\<rparr>],
     cv_tables_room := cv_tables_room v - 122\<rparr>"

lemma create_run:
  assumes "cv_staged v = p # ps" and "ct = KDS_CLUSTERED_HEAP \<or> ct = KDS_CLUSTERED_BTREE" and "129 \<le> cv_objects_room v" and "122 \<le> cv_tables_room v"
  shows "spec_create_table ns nm cols ct v =
    (if 126 * length cols \<le> cv_columns_room v then Inr (cv_oid v + 1) else fails ENOSPC,
     (with_table_rows ns nm ct p ps v)\<lparr>cv_columns := cv_columns v @ stored_columns (cv_oid v + 1) (cv_oid v + 1) (take (cv_columns_room v div 126) cols),
       cv_columns_room := cv_columns_room v - 126 * min (length cols) (cv_columns_room v div 126),
       cv_oid := cv_oid v + 1 + of_nat (min (length cols) (Suc (cv_columns_room v div 126)))\<rparr>)"
proof -
  have "spec_create_table ns nm cols ct v
      = sbind (for_each (\<lambda>c. sbind spec_new_oid (\<lambda>co. spec_add_column (stored_column co (cv_oid v + 1) c))) cols) (\<lambda>_. sret (cv_oid v + 1)) (with_table_rows ns nm ct p ps v)"
    using assms by (auto simp: spec_create_table_def take_page_bind spec_binds with_table_rows_def)
  then show ?thesis by (simp add: sbind_def [of "for_each _ _"] columns_run sret_def) (simp add: with_table_rows_def)
qed

lemma demo_fresh: "\<exists>s :: cat_state. catalog_wf s \<and> fresh_name (catalog_view s) (bytes_of ''orders'') \<and> fresh_oid (catalog_view s) 4001
    \<and> cv_staged (catalog_view s) = [200, 201] \<and> cv_oid (catalog_view s) = 4000 \<and> 129 \<le> cv_objects_room (catalog_view s)
    \<and> 122 \<le> cv_tables_room (catalog_view s) \<and> 8000 \<le> cv_columns_room (catalog_view s) \<and> cv_columns (catalog_view s) = []"
proof -
  obtain s :: cat_state where s: "catalog_wf s" "bootstrapped (\<lambda>_. Inl Fault) (catalog_view s)" "cv_oid (catalog_view s) = 4000" "cv_staged (catalog_view s) = [200, 201]"
    using demo_bootstrap by blast
  have "fresh_name (catalog_view s) (bytes_of ''orders'')"
    using s(2) by (simp add: bootstrapped_def fresh_name_def sys_tables_def system_object_def cstr_set_name) (simp add: cstr_def bytes_of_def)
  moreover have "fresh_oid (catalog_view s) 4001"
    using s(2) by (simp add: bootstrapped_def fresh_oid_def sys_tables_def system_table_def KDS_OID_SYS_TYPES_TABLE_def KDS_OID_SYS_OBJECTS_TABLE_def
        KDS_OID_SYS_COLUMNS_TABLE_def KDS_OID_SYS_TABLES_TABLE_def)
  ultimately show ?thesis using s by (intro exI [of _ s]) (simp add: bootstrapped_def)
qed

lemma demo_create: "\<exists>s s' :: cat_state. catalog_wf s \<and> fresh_name (catalog_view s) (bytes_of ''orders'') \<and> fresh_oid (catalog_view s) 4001
    \<and> cv_staged (catalog_view s) = [200, 201] \<and> kds_catalog_create_table demo_env 1 (Some (bytes_of ''orders'')) (Some demo_schema) 0 s = (Inr 4001, s')"
proof -
  obtain s :: cat_state where s: "catalog_wf s" "fresh_name (catalog_view s) (bytes_of ''orders'')" "fresh_oid (catalog_view s) 4001"
    "cv_staged (catalog_view s) = [200, 201]" "cv_oid (catalog_view s) = 4000" "129 \<le> cv_objects_room (catalog_view s)"
    "122 \<le> cv_tables_room (catalog_view s)" "8000 \<le> cv_columns_room (catalog_view s)"
    using demo_fresh by blast
  obtain v' where v': "spec_create_table 1 (bytes_of ''orders'') (sch_cols demo_schema) 0 (catalog_view s) = (Inr 4001, v')"
    using create_run [of "catalog_view s" 200 "[201]" 0 1 "bytes_of ''orders''" "sch_cols demo_schema"] s(4-8)
    by (auto simp: demo_schema_def KDS_CLUSTERED_HEAP_def)
  have n: "unat (nr_cols demo_schema) = length (sch_cols demo_schema)" by (simp add: demo_schema_def)
  obtain r s' where r: "kds_catalog_create_table demo_env 1 (Some (bytes_of ''orders'')) (Some demo_schema) 0 s = (r, s')" by fastforce
  have "r = Inr 4001" using create_table_sim [OF s(1) n, where env = demo_env and ns = 1 and nm = "bytes_of ''orders''" and ct = 0] r v' by simp
  then show ?thesis using s r by blast
qed

theorem created_table_found_witness:
  "\<exists>(s :: cat_state) s'. kds_catalog_create_table demo_env 1 (Some (bytes_of ''orders'')) (Some demo_schema) 0 s = (Inr 4001, s')
    \<and> kds_catalog_find_table_oid_by_name demo_env (Some (bytes_of ''orders'')) s' = (Inr 4001, s')
    \<and> kds_catalog_init_table_access demo_env 1 4001 s' = (Inr \<lparr>ta_namespace_oid = 1, ta_oid = 4001,
        ta_schema = \<lparr>sch_cols = stored_columns 4001 4001 (sch_cols demo_schema), nr_cols = 2\<rparr>, ta_desc_page_id = 200, ta_clustered_type = 0\<rparr>, s')"
proof -
  obtain s s' :: cat_state where s: "catalog_wf s" "fresh_name (catalog_view s) (bytes_of ''orders'')" "fresh_oid (catalog_view s) 4001"
    "cv_staged (catalog_view s) = [200, 201]" "kds_catalog_create_table demo_env 1 (Some (bytes_of ''orders'')) (Some demo_schema) 0 s = (Inr 4001, s')"
    using demo_create by blast
  have "short_name (bytes_of ''orders'')" by (simp add: short_name_def cstr_def bytes_of_def)
  then show ?thesis
    using created_table_found [OF s(1) _ _ _ _ s(2,3,5)] s(4,5) by (auto simp: demo_schema_def)
qed

lemma found_none_iff: "found (find P xs) = fails ENOENT \<longleftrightarrow> (\<forall>x \<in> set xs. \<not> P x)"
  by (induction xs) (simp_all add: found_def)

text \<open>Moving a table's root page changes the page id in the first \<^verbatim>\<open>sys.tables\<close> row of that table and nothing else:
  afterwards the row reads back with the new page, every other row as before. Without such a row the call reports
  \<^verbatim>\<open>ENOENT\<close> and the catalogue is unchanged.\<close>

theorem update_desc_page_correct:
  assumes "catalog_wf s"
  shows "\<exists>s'. kds_catalog_update_relation_desc_page env oid pid s =
        (if fst (kds_catalog_get_sys_table_row env oid s) = fails ENOENT then fails ENOENT else Inr (), s') \<and> catalog_wf s'
    \<and> (\<forall>oid'. kds_catalog_get_sys_table_row env oid' s' =
         (rbind (fst (kds_catalog_get_sys_table_row env oid' s)) (\<lambda>row. Inr (if oid' = oid then row\<lparr>st_desc_page_id := pid\<rparr> else row)), s'))
    \<and> cv_objects (catalog_view s') = cv_objects (catalog_view s) \<and> cv_columns (catalog_view s') = cv_columns (catalog_view s)"
proof -
  obtain s' where s': "kds_catalog_update_relation_desc_page env oid pid s
      = (if \<exists>r \<in> set (cv_tables (catalog_view s)). st_oid r = oid then Inr () else fails ENOENT, s')"
    "catalog_wf s'" "catalog_view s' = (catalog_view s)\<lparr>cv_tables := set_desc oid pid (cv_tables (catalog_view s))\<rparr>"
    using update_desc_sim [OF assms] by blast
  have "(\<exists>r \<in> set (cv_tables (catalog_view s)). st_oid r = oid) \<longleftrightarrow> fst (kds_catalog_get_sys_table_row env oid s) \<noteq> fails ENOENT"
    unfolding get_row_view [OF assms] by (simp add: found_none_iff)
  then show ?thesis
    using s' by (intro exI [of _ s']) (auto simp: get_row_view [OF s'(2)] get_row_view [OF assms] find_set_desc found_map)
qed

theorem update_desc_page_correct_witness:
  "\<exists>(s :: cat_state) s'. kds_catalog_update_relation_desc_page demo_env 112 900 s = (Inr (), s')
    \<and> kds_catalog_get_sys_table_row demo_env 112 s' = (Inr ((system_table (112, ''tables'', 7))\<lparr>st_desc_page_id := 900\<rparr>), s')
    \<and> kds_catalog_get_sys_table_row demo_env 110 s' = (Inr (system_table (110, ''objects'', 6)), s')"
proof -
  obtain s :: cat_state where s: "catalog_wf s" "bootstrapped (\<lambda>_. Inl Fault) (catalog_view s)" using demo_bootstrap by blast
  have g: "kds_catalog_get_sys_table_row demo_env 112 s = (Inr (system_table (112, ''tables'', 7)), s)"
    "kds_catalog_get_sys_table_row demo_env 110 s = (Inr (system_table (110, ''objects'', 6)), s)"
    using system_lookup [OF s, of demo_env]
    by (simp_all add: sys_tables_def KDS_OID_SYS_TABLES_TABLE_def KDS_OID_SYS_OBJECTS_TABLE_def)
  obtain s' where r: "kds_catalog_update_relation_desc_page demo_env 112 900 s =
      (if fst (kds_catalog_get_sys_table_row demo_env 112 s) = fails ENOENT then fails ENOENT else Inr (), s')"
    "\<forall>oid'. kds_catalog_get_sys_table_row demo_env oid' s' =
         (rbind (fst (kds_catalog_get_sys_table_row demo_env oid' s)) (\<lambda>row. Inr (if oid' = 112 then row\<lparr>st_desc_page_id := 900\<rparr> else row)), s')"
    using update_desc_page_correct [OF s(1), of demo_env 112 900] by blast
  then show ?thesis using g by (intro exI [of _ s] exI [of _ s']) simp
qed

text \<open>C24: Creating a table is not atomic. When \<^verbatim>\<open>sys.columns\<close> has no room for all the columns (64 columns fill it), a staged page, room in \<^verbatim>\<open>sys.objects\<close> and \<^verbatim>\<open>sys.tables\<close>, an unused name of at most 63 characters and an unused id given, the call fails with \<^verbatim>\<open>ENOSPC\<close>, but the table is there: its name resolves, its row names the page it has taken, and its schema is the columns that fitted, or \<^verbatim>\<open>ENOENT\<close> when none did.\<close>

theorem create_table_partial:
  assumes "catalog_wf s" and "unat (nr_cols sch) = length (sch_cols sch)" and "length (sch_cols sch) \<le> 32" and "short_name nm" and "fresh_name (catalog_view s) nm"
    and "fresh_oid (catalog_view s) (g_user_oid_counter s + 1)" and "cv_staged (catalog_view s) = p # ps" and "ct = KDS_CLUSTERED_HEAP \<or> ct = KDS_CLUSTERED_BTREE"
    and "129 \<le> cv_objects_room (catalog_view s)" and "122 \<le> cv_tables_room (catalog_view s)"
    and "cv_columns_room (catalog_view s) div 126 = k" and "k < length (sch_cols sch)"
  shows "\<exists>s'. kds_catalog_create_table env ns (Some nm) (Some sch) ct s = (fails ENOSPC, s')
    \<and> kds_catalog_find_table_oid_by_name env (Some nm) s' = (Inr (g_user_oid_counter s + 1), s')
    \<and> kds_catalog_get_sys_table_row env (g_user_oid_counter s + 1) s' = (Inr \<lparr>st_oid = g_user_oid_counter s + 1, st_namespace_oid = ns,
        st_name = set_name nm, st_desc_page_id = p, st_clustered_type = ucast ct\<rparr>, s')
    \<and> kds_catalog_build_schema_from_columns env (g_user_oid_counter s + 1) s' = (if k = 0 then fails ENOENT
        else Inr \<lparr>sch_cols = stored_columns (g_user_oid_counter s + 1) (g_user_oid_counter s + 1) (take k (sch_cols sch)), nr_cols = of_nat k\<rparr>, s')"
proof -
  let ?v = "catalog_view s" and ?oid = "g_user_oid_counter s + 1"
  let ?obj = "\<lparr>so_oid = ?oid, so_namespace_oid = ns, so_type_oid = KDS_OID_TYPE_TABLE, so_rel_id = 0, so_name = set_name nm\<rparr>"
  let ?row = "\<lparr>st_oid = ?oid, st_namespace_oid = ns, st_name = set_name nm, st_desc_page_id = p, st_clustered_type = ucast ct\<rparr>"
  have oid: "cv_oid ?v = g_user_oid_counter s" by (simp add: catalog_view_def)
  have "\<not> 126 * length (sch_cols sch) \<le> cv_columns_room ?v" using assms(11,12) by auto
  note C = create_run [OF assms(7-10), of ns nm "sch_cols sch", unfolded if_not_P [OF this] assms(11) oid]
  obtain r s' where r: "kds_catalog_create_table env ns (Some nm) (Some sch) ct s = (r, s')" by fastforce
  then have S: "r = fails ENOSPC" "catalog_wf s'" "cv_objects (catalog_view s') = cv_objects ?v @ [?obj]" "cv_tables (catalog_view s') = cv_tables ?v @ [?row]"
    "cv_columns (catalog_view s') = cv_columns ?v @ stored_columns ?oid ?oid (take k (sch_cols sch))"
    using create_table_sim [OF assms(1,2), where env = env and ns = ns and nm = nm and ct = ct] C
    by (auto simp: with_table_rows_def oid dest: sym [of _ "catalog_view s'"])
  have "find (\<lambda>r. so_type_oid r = KDS_OID_TYPE_TABLE \<and> strneq 64 (so_name r) nm) (cv_objects ?v) = None"
    using assms(5) by (intro find_none) (auto simp: fresh_name_def strneq_iff)
  then have "kds_catalog_find_table_oid_by_name env (Some nm) s' = (Inr ?oid, s')"
    using find_oid_view [OF S(2), of env nm] S(3) own_name [OF assms(4), of nm] by (simp add: find_append found_def)
  moreover have "find (\<lambda>r. st_oid r = ?oid) (cv_tables ?v) = None" using assms(6) by (intro find_none) (auto simp: fresh_oid_def)
  then have "kds_catalog_get_sys_table_row env ?oid s' = (Inr ?row, s')"
    using get_row_view [OF S(2), of env ?oid] S(4) by (simp add: find_append found_def)
  moreover have "filter (\<lambda>c. sc_rel_id c = ?oid) (cv_columns ?v) = []" using assms(6) by (auto simp: fresh_oid_def filter_empty_conv)
  then have f: "filter (\<lambda>c. sc_rel_id c = ?oid) (cv_columns (catalog_view s')) = stored_columns ?oid ?oid (take k (sch_cols sch))" using S(5) by simp
  have e: "stored_columns ?oid ?oid (take k (sch_cols sch)) = [] \<longleftrightarrow> k = 0"
    using stored_columns_facts(1) [of ?oid ?oid "take k (sch_cols sch)"] assms(12) by (auto simp del: stored_columns_facts)
  have "kds_catalog_build_schema_from_columns env ?oid s' = (if k = 0 then fails ENOENT
        else Inr \<lparr>sch_cols = stored_columns ?oid ?oid (take k (sch_cols sch)), nr_cols = of_nat k\<rparr>, s')"
    using schema_view [OF S(2), of env ?oid] f e assms(3,12) by (auto simp: Let_def)
  ultimately show ?thesis using r S(1) by blast
qed

text \<open>Three staged pages, and a schema with as many columns as it can have.\<close>

definition demo_cat3 :: cat_state where
  "demo_cat3 = demo_cat0\<lparr>pframes := (pframes demo_cat0)(7 := demo_frame 7 202), pmap := (pmap demo_cat0)(202 \<mapsto> 7),
     free_frames := filter (\<lambda>i. i \<noteq> 7) demo_free, nr_free := of_nat (length (filter (\<lambda>i. i \<noteq> 7) demo_free)),
     reserved := 3, ring := (ring demo_cat0)(2 := Some 7)\<rparr>"

definition wide_schema :: kds_schema where
  "wide_schema = \<lparr>sch_cols = map (\<lambda>i. demo_column ''c'' (of_nat i)) [0 ..< 32], nr_cols = 32\<rparr>"

lemma demo_cat3_simps:
  "pframes demo_cat3 = init_frame(5 := demo_frame 5 200, 6 := demo_frame 6 201, 7 := demo_frame 7 202)"
  "pmap demo_cat3 = [200 \<mapsto> 5, 201 \<mapsto> 6, 202 \<mapsto> 7]" "free_frames demo_cat3 = filter (\<lambda>i. i \<noteq> 7) demo_free"
  "nr_free demo_cat3 = of_nat (length (filter (\<lambda>i. i \<noteq> 7) demo_free))" "cursor demo_cat3 = 0" "reserved demo_cat3 = 3"
  "ring demo_cat3 = (\<lambda>_. None)(0 := Some 5, 1 := Some 6, 2 := Some 7)" "g_alloc demo_cat3" "kds_bdev demo_cat3" "g_pool demo_cat3"
  "g_sys_objects demo_cat3 = []" "g_user_oid_counter demo_cat3 = 4000"
  by (simp_all add: demo_cat3_def demo_cat0_simps demo_wal0_simps)

lemma demo_cat3_ring: "ring_items demo_cat3 = [5, 6, 7]" "ring_inv demo_cat3"
proof -
  have len: "ring_len demo_cat3 = 3" using ring_len_eq [of demo_cat3] by (simp add: demo_cat3_simps)
  have three: "[0 ..< 3] = [0, 1, 2 :: nat]" by (simp add: upt_conv_Cons)
  show "ring_items demo_cat3 = [5, 6, 7]" unfolding ring_items_def len three by (simp add: slot_at_def demo_cat3_simps)
  have "ring demo_cat3 (slot_at demo_cat3 k) \<noteq> None" if "k < 3" for k
  proof -
    from that consider "k = 0" | "k = 1" | "k = 2" by linarith
    then show ?thesis by cases (simp_all add: demo_cat3_simps slot_at_def)
  qed
  then show "ring_inv demo_cat3" unfolding ring_inv_def len by (simp add: demo_cat3_simps)
qed

lemma demo_no_catalog3: "no_catalog demo_cat3"
proof -
  have k: "(5::nat) < KDS_BUF_NR_FRAMES" "(6::nat) < KDS_BUF_NR_FRAMES" "(7::nat) < KDS_BUF_NR_FRAMES" by (simp_all add: KDS_BUF_NR_FRAMES_def)
  have m: "i \<in> set demo_free \<longleftrightarrow> i < KDS_BUF_NR_FRAMES \<and> i \<noteq> 5 \<and> i \<noteq> 6" for i by (auto simp: demo_free_def)
  have "distinct demo_free" by (simp add: demo_free_def)
  then have "pool_wf demo_cat3"
    using k m by (auto simp: pool_wf_def demo_cat3_simps init_frame_def demo_frame_def demo_kp_def frame_loaded_def split: if_splits)
  moreover have "{5, 6, 7} \<subseteq> ran (pmap demo_cat3)"
    using ranI [of "pmap demo_cat3" 200 5] ranI [of "pmap demo_cat3" 201 6] ranI [of "pmap demo_cat3" 202 7] by (simp add: demo_cat3_simps)
  ultimately have "alloc_wf demo_cat3" using demo_cat3_ring by (simp add: alloc_wf_def)
  moreover have "hdrs_ok demo_cat3"
    by (auto simp: hdrs_ok_def demo_cat3_simps demo_frame_def demo_kp_def page_hdr_valid_def split: if_splits)
  moreover have "4 \<le> length (filter (\<lambda>i. i \<noteq> 7) demo_free)"
  proof -
    have "{0, 1, 2, 3} \<subseteq> set (filter (\<lambda>i. i \<noteq> 7) demo_free)" by (auto simp: demo_free_def KDS_BUF_NR_FRAMES_def)
    then have "card {0, 1, 2, 3 :: nat} \<le> card (set (filter (\<lambda>i. i \<noteq> 7) demo_free))" by (intro card_mono) auto
    then show ?thesis using card_length [of "filter (\<lambda>i. i \<noteq> 7) demo_free"] by simp
  qed
  ultimately show ?thesis by (simp add: no_catalog_def demo_cat3_simps)
qed

lemma create_step:
  assumes "catalog_wf s" and "unat (nr_cols sch) = length (sch_cols sch)" and "spec_create_table ns nm (sch_cols sch) ct (catalog_view s) = (r, v)"
  shows "\<exists>s'. kds_catalog_create_table env ns (Some nm) (Some sch) ct s = (r, s') \<and> catalog_wf s' \<and> catalog_view s' = v"
  using create_table_sim [OF assms(1,2), where env = env and ns = ns and nm = nm and ct = ct] assms(3)
  by (cases "kds_catalog_create_table env ns (Some nm) (Some sch) ct s") auto

theorem create_table_partial_witness:
  "\<exists>s0 s1 s2 s3 :: cat_state. kds_catalog_bootstrap demo_env (\<lambda>_. Inl Fault) demo_cat3 = (Inr (), s0)
    \<and> kds_catalog_create_table demo_env 1 (Some (bytes_of ''a'')) (Some wide_schema) 0 s0 = (Inr 4001, s1)
    \<and> kds_catalog_create_table demo_env 1 (Some (bytes_of ''b'')) (Some wide_schema) 0 s1 = (Inr 4034, s2)
    \<and> kds_catalog_create_table demo_env 1 (Some (bytes_of ''c'')) (Some demo_schema) 0 s2 = (fails ENOSPC, s3)
    \<and> kds_catalog_find_table_oid_by_name demo_env (Some (bytes_of ''c'')) s3 = (Inr 4067, s3)
    \<and> kds_catalog_build_schema_from_columns demo_env 4067 s3 = (fails ENOENT, s3)"
proof -
  obtain s0 where s0: "kds_catalog_bootstrap demo_env (\<lambda>_. Inl Fault) demo_cat3 = (Inr (), s0)" "catalog_wf s0"
    "bootstrapped (\<lambda>_. Inl Fault) (catalog_view s0)" "cv_oid (catalog_view s0) = 4000" "cv_staged (catalog_view s0) = [200, 201, 202]"
    using bootstrap_run [OF demo_env_good demo_no_catalog3, of "\<lambda>_. Inl Fault"] by (auto simp: demo_cat3_simps demo_cat3_ring demo_frame_def)
  have w: "unat (nr_cols wide_schema) = length (sch_cols wide_schema)" "length (sch_cols wide_schema) = 32" by (simp_all add: wide_schema_def)
  have h: "(0::u32) = KDS_CLUSTERED_HEAP \<or> (0::u32) = KDS_CLUSTERED_BTREE" by (simp add: KDS_CLUSTERED_HEAP_def)
  have room0: "cv_objects_room (catalog_view s0) = 7619" "cv_tables_room (catalog_view s0) = 7647" "cv_columns_room (catalog_view s0) = 8135"
    "cv_columns (catalog_view s0) = []" using s0(3) by (simp_all add: bootstrapped_def)
  obtain s1 where s1: "kds_catalog_create_table demo_env 1 (Some (bytes_of ''a'')) (Some wide_schema) 0 s0 = (Inr 4001, s1)" "catalog_wf s1"
    "catalog_view s1 = (with_table_rows 1 (bytes_of ''a'') 0 200 [201, 202] (catalog_view s0))\<lparr>cv_columns := stored_columns 4001 4001 (sch_cols wide_schema),
       cv_columns_room := 4103, cv_oid := 4033\<rparr>"
    using create_step [OF s0(2) w(1) create_run [OF s0(5) h], where ns = 1 and nm = "bytes_of ''a''" and env = demo_env] w(2) room0 s0(4) by auto
  have v1: "cv_staged (catalog_view s1) = [201, 202]" "cv_objects_room (catalog_view s1) = 7490" "cv_tables_room (catalog_view s1) = 7525"
    "cv_columns_room (catalog_view s1) = 4103" "cv_oid (catalog_view s1) = 4033" using s1(3) room0 by (simp_all add: with_table_rows_def)
  obtain s2 where s2: "kds_catalog_create_table demo_env 1 (Some (bytes_of ''b'')) (Some wide_schema) 0 s1 = (Inr 4034, s2)" "catalog_wf s2"
    "catalog_view s2 = (with_table_rows 1 (bytes_of ''b'') 0 201 [202] (catalog_view s1))\<lparr>cv_columns := cv_columns (catalog_view s1) @ stored_columns 4034 4034 (sch_cols wide_schema),
       cv_columns_room := 71, cv_oid := 4066\<rparr>"
    using create_step [OF s1(2) w(1) create_run [OF v1(1) h], where ns = 1 and nm = "bytes_of ''b''" and env = demo_env] w(2) v1 by auto
  have v2: "cv_staged (catalog_view s2) = [202]" "cv_objects_room (catalog_view s2) = 7361" "cv_tables_room (catalog_view s2) = 7403"
    "cv_columns_room (catalog_view s2) = 71" "g_user_oid_counter s2 = 4066"
    using s2(3) v1 arg_cong [OF s2(3), of cv_oid] by (simp_all add: with_table_rows_def) (simp add: catalog_view_def)
  have fn: "fresh_name (catalog_view s2) (bytes_of ''c'')"
    using s0(3) by (simp add: s2(3) s1(3) with_table_rows_def bootstrapped_def fresh_name_def sys_tables_def system_object_def cstr_set_name) (simp add: cstr_def bytes_of_def)
  have rel: "\<forall>c \<in> set (stored_columns rel oid cs). sc_rel_id c = rel" for rel oid cs by (induction cs arbitrary: oid) (simp_all add: stored_column_def)
  have fo: "fresh_oid (catalog_view s2) (g_user_oid_counter s2 + 1)"
    using s0(3) rel [of 4001 4001 "sch_cols wide_schema"] rel [of 4034 4034 "sch_cols wide_schema"] room0(4)
    by (auto simp: v2(5) s2(3) s1(3) s0(4) with_table_rows_def bootstrapped_def fresh_oid_def sys_tables_def system_table_def KDS_OID_SYS_TYPES_TABLE_def KDS_OID_SYS_OBJECTS_TABLE_def
        KDS_OID_SYS_COLUMNS_TABLE_def KDS_OID_SYS_TABLES_TABLE_def)
  have n: "unat (nr_cols demo_schema) = length (sch_cols demo_schema)" "length (sch_cols demo_schema) = 2" by (simp_all add: demo_schema_def)
  have sh: "short_name (bytes_of ''c'')" by (simp add: short_name_def cstr_def bytes_of_def)
  have "\<exists>s3. kds_catalog_create_table demo_env 1 (Some (bytes_of ''c'')) (Some demo_schema) 0 s2 = (fails ENOSPC, s3)
    \<and> kds_catalog_find_table_oid_by_name demo_env (Some (bytes_of ''c'')) s3 = (Inr 4067, s3)
    \<and> kds_catalog_build_schema_from_columns demo_env 4067 s3 = (fails ENOENT, s3)"
    using create_table_partial [OF s2(2) n(1) _ sh fn fo v2(1) h, where env = demo_env and ns = 1 and k = 0] v2 n(2) by auto
  then show ?thesis using s0(1) s1(1) s2(1) by blast
qed

end
