(* ===== verification/Kds_Relation.thy ===== *)
theory Kds_Relation
  imports Kds_Catalog_Spec
begin

text \<open>
  Relations (\<^verbatim>\<open>relation.c\<close>, \<^verbatim>\<open>kds_relation.h\<close>): handles of tables and indexes opened from the catalogue, creation of an
  index, insertion and search of index entries. A handle is the value that \<^verbatim>\<open>kds_relation_open\<close> allocates; closing
  it only frees its memory. Opening a table after its creation gives the created columns and root page; a search
  reads the slot on the other side of the key than the insertion writes.
\<close>

section \<open>Handles\<close>

record kds_relation =
  rel_oid :: u64
  rel_namespace_oid :: u64
  rel_kind :: u32
  rel_root_page_id :: u64
  rel_schema :: kds_schema

definition kds_relation_open :: "kenv \<Rightarrow> u64 \<Rightarrow> ('z cat_state_scheme, kds_relation) call" where
  "kds_relation_open env oid =
     sbind (kds_catalog_get_sys_table_row env oid) (\<lambda>row.
     sbind (kalloc env) (\<lambda>mem_ok.
     if \<not> mem_ok then sfail (Errno ENOMEM)
     else let rel = \<lparr>rel_oid = oid, rel_namespace_oid = st_namespace_oid row, rel_kind = ucast (st_clustered_type row),
                rel_root_page_id = st_desc_page_id row, rel_schema = \<lparr>sch_cols = [], nr_cols = 0\<rparr>\<rparr> in
       sattempt (kds_catalog_build_schema_from_columns env oid) (\<lambda>r. case r of
         Inr schema \<Rightarrow> sret (rel\<lparr>rel_schema := schema\<rparr>)
       | Inl e \<Rightarrow> if e = ENOENT then sret rel else sfail (Errno e))))"

definition kds_relation_close :: "kds_relation \<Rightarrow> ('z cat_state_scheme, unit) call" where
  "kds_relation_close rel = sret ()"

section \<open>Indexes\<close>

text \<open>\<^verbatim>\<open>snprintf(name, 64, "index_%s_%llu", target_col, table_oid)\<close>\<close>

definition index_name :: "u8 list \<Rightarrow> u64 \<Rightarrow> u8 list" where
  "index_name target_col table_oid =
     take (KDS_CATALOG_NAME_MAX - 1)
       (bytes_of ''index_'' @ takeWhile (\<lambda>b. b \<noteq> 0) target_col @ bytes_of ''_'' @ bytes_of (show_nat (unat table_oid)))"

definition kds_relation_create_index :: "kenv \<Rightarrow> u64 \<Rightarrow> u64 \<Rightarrow> u8 list option \<Rightarrow> ('z cat_state_scheme, u64) call" where
  "kds_relation_create_index env namespace_oid table_oid target_col =
     (case target_col of None \<Rightarrow> sfail (Errno EINVAL)
      | Some col \<Rightarrow>
        sbind (kds_page_alloc KDS_PAGE_TYPE_BTREE_ROOT) (\<lambda>root_frame.
        case root_frame of None \<Rightarrow> sfail (Errno ENOSPC)
        | Some root \<Rightarrow>
          sbind (btree_init_root_kpage root) (\<lambda>_.
          sbind kds_catalog_generate_user_oid (\<lambda>new_oid.
          let name = index_name col table_oid in
          or_unpin root (kds_catalog_insert_object_row env new_oid namespace_oid KDS_OID_TYPE_INDEX name) (\<lambda>_.
          sbind (the_kp root) (\<lambda>kp.
          sbind (then_unpin root (kds_catalog_insert_relation_row env new_oid namespace_oid name (kp_id kp) KDS_CLUSTERED_BTREE)) (\<lambda>_.
          sret new_oid)))))))"

definition kds_index_insert :: "kenv \<Rightarrow> kds_relation option \<Rightarrow> u64 \<Rightarrow> u64 \<Rightarrow> ('z cat_state_scheme, unit) call" where
  "kds_index_insert env index_rel key value_page_id =
     (case index_rel of None \<Rightarrow> sfail (Errno EINVAL)
      | Some rel \<Rightarrow>
          if rel_kind rel \<noteq> KDS_CLUSTERED_BTREE then sfail (Errno EINVAL)
          else sbind (btree_insert env (rel_root_page_id rel) key value_page_id) (\<lambda>ret.
            case ret of None \<Rightarrow> sret () | Some e \<Rightarrow> sfail (Errno e)))"

text \<open>The two loops over the keys of a node; \<^verbatim>\<open>i < node.key_count\<close> compares in 64 bits.\<close>

fun scan_match :: "nat \<Rightarrow> u64 list \<Rightarrow> u64 \<Rightarrow> int \<Rightarrow> int res" where
  "scan_match 0 c key i = Inl Fault"
| "scan_match (Suc n) c key i =
     (if as_u64 i < count_of c
      then rbind (getc (keys_at i) c) (\<lambda>k. if k = key then Inr i else scan_match n c key (i + 1))
      else Inr (-1))"

fun scan_child :: "nat \<Rightarrow> u64 list \<Rightarrow> u64 \<Rightarrow> int \<Rightarrow> int res" where
  "scan_child 0 c key i = Inl Fault"
| "scan_child (Suc n) c key i =
     (if as_u64 i < count_of c
      then rbind (getc (keys_at i) c) (\<lambda>k. if key \<le> k then Inr i else scan_child n c key (i + 1))
      else Inr (int_count c))"

text \<open>\<open>n\<close> is \<^verbatim>\<open>BTREE_MAX_DEPTH - depth\<close>.\<close>

fun index_descend :: "kenv \<Rightarrow> u64 \<Rightarrow> nat \<Rightarrow> u64 \<Rightarrow> ('z cat_state_scheme, u64) call" where
  "index_descend env key 0 current_id = sfail (Errno E2BIG)"
| "index_descend env key (Suc n) current_id =
     sbind (load_page env current_id) (\<lambda>i.
     sbind (load_btree_node i) (\<lambda>node.
     let c = bt_cells node in
     sbind (slift (scan_match 16 c key 0)) (\<lambda>match_pos.
     if level_of c = 0
     then if match_pos < 0
          then sbind (kds_buf_unpin i) (\<lambda>_. sfail (Errno ENOENT))
          else sbind (slift (getc (slots_at match_pos) c)) (\<lambda>v.
               sbind (kds_buf_unpin i) (\<lambda>_. sret v))
     else sbind (slift (scan_child 16 c key 0)) (\<lambda>desc_pos.
          sbind (slift (getc (slots_at desc_pos) c)) (\<lambda>child.
          sbind (kds_buf_unpin i) (\<lambda>_. index_descend env key n child))))))"

definition kds_index_search :: "kenv \<Rightarrow> kds_relation option \<Rightarrow> u64 \<Rightarrow> ('z cat_state_scheme, u64) call" where
  "kds_index_search env index_rel key =
     (case index_rel of None \<Rightarrow> sfail (Errno EINVAL)
      | Some rel \<Rightarrow>
          if rel_kind rel \<noteq> KDS_CLUSTERED_BTREE then sfail (Errno EINVAL)
          else index_descend env key BTREE_MAX_DEPTH (rel_root_page_id rel))"

section \<open>Searching a cached leaf\<close>

lemma scan_match_numeral:
  "scan_match (numeral v) c key i =
     (if as_u64 i < count_of c
      then rbind (getc (keys_at i) c) (\<lambda>k. if k = key then Inr i else scan_match (pred_numeral v) c key (i + 1))
      else Inr (-1))"
  by (simp add: numeral_eq_Suc)

lemma scan_match_spec:
  assumes ok: "node_ok c"
  shows "scan_match 16 c key 0 = Inr (if key \<in> set (node_keys c) then int (length (takeWhile (\<lambda>k. k \<noteq> key) (node_keys c))) else -1)"
proof -
  obtain a b k0 k1 k2 k3 s0 s1 s2 s3 s4 nx pv where c: "c = [a, b, k0, k1, k2, k3, s0, s1, s2, s3, s4, nx, pv]"
    and b: "b = 0 \<or> b = 1 \<or> b = 2 \<or> b = 3 \<or> b = 4" using ok by (rule node_cells)
  with c show ?thesis
    by (elim disjE; simp add: cell_defs scan_match_numeral; auto)
qed

lemma slot_cell:
  assumes "node_ok c" and "i \<le> length (node_keys c)"
  shows "getc (slots_at (int i)) c = Inr (node_slots c ! i)"
proof -
  have "nat (6 + int i) = 6 + i" "i \<le> 4" using assms node_keys_length [OF assms(1)] by (auto simp: node_ok_def word_le_nat_alt)
  then show ?thesis using assms node_keys_length [OF assms(1)] by (simp add: getc_def slots_at_def node_slots_def node_ok_def)
qed

lemma search_leaf:
  assumes lr: "leaf_root s root i kp pg" and k: "rel_kind rel = KDS_CLUSTERED_BTREE" "rel_root_page_id rel = root"
  defines "c \<equiv> kds_btree_data_copy pg"
  shows "kds_index_search env (Some rel) key s =
    (if key \<in> set (node_keys c) then Inr (node_slots c ! length (takeWhile (\<lambda>k. k \<noteq> key) (node_keys c))) else fails ENOENT, s)"
proof -
  have ok: "node_ok c" and lv: "level_of c = 0" and bt: "kds_is_btree_page kp" and fk: "fr_kp (pframes s i) = Some kp" "fr_page (pframes s i) = Some pg"
    and pw: "pool_wf s" and pm: "pmap s root = Some i" using lr by (simp_all add: leaf_root_def c_def)
  have d: "BTREE_MAX_DEPTH = Suc 15" by (simp add: BTREE_MAX_DEPTH_def)
  have sl: "getc (slots_at (int (length (takeWhile (\<lambda>k. k \<noteq> key) (node_keys c))))) c
      = Inr (node_slots c ! length (takeWhile (\<lambda>k. k \<noteq> key) (node_keys c)))"
    by (rule slot_cell [OF ok length_takeWhile_le])
  have nd: "load_btree_node i (pinned i kp s) = (Inr \<lparr>bt_cells = c, bt_frame = Some i\<rparr>, pinned i kp s)"
    using bt fk by (simp add: load_btree_node_def load_btree_node_data_def the_kp_def the_page_def call_defs pinned_def c_def)
  have un: "kds_buf_unpin i (pinned i kp s) = (Inr (), s)"
    using unpin_pinned [OF fk(1)] by (simp add: pinned_put)
  have "index_descend env key (Suc n) root s =
    (if key \<in> set (node_keys c) then Inr (node_slots c ! length (takeWhile (\<lambda>k. k \<noteq> key) (node_keys c))) else fails ENOENT, s)" for n
    using load_root [OF pw pm fk(1), of env] nd un scan_match_spec [OF ok, of key] sl lv by (simp add: call_defs Let_def)
  from this [of 15] show ?thesis using k unfolding kds_index_search_def d by (simp del: index_descend.simps)
qed


section \<open>Opening a created table\<close>

lemma sattempt_run: "m s = (Inr x, s') \<Longrightarrow> sattempt m f s = f (Inr x) s'" "m s = (Inl (Errno e), s') \<Longrightarrow> sattempt m f s = f (Inl e) s'"
  by (simp_all add: sattempt_def strying_def)

lemma kalloc_view:
  fixes s :: "'z cat_state_scheme"
  assumes "catalog_wf s"
  shows "catalog_wf (s\<lparr>nalloc := n\<rparr>)" "catalog_view (s\<lparr>nalloc := n\<rparr>) = catalog_view s"
proof -
  have "ring_items (s\<lparr>nalloc := n\<rparr>) = ring_items s" "ring_inv (s\<lparr>nalloc := n\<rparr>) = ring_inv s" by (rule ring_cong; simp)+
  then show "catalog_wf (s\<lparr>nalloc := n\<rparr>)" "catalog_view (s\<lparr>nalloc := n\<rparr>) = catalog_view s"
    using assms by (simp_all add: catalog_wf_def alloc_wf_def hdrs_ok_def catalog_view_def cat_frame_def)
qed

text \<open>C23: Opening a table after its creation gives a handle with the created table's id, namespace, storage kind, root page and columns, none when it was created without columns; a failure can only be a failed memory allocation. The table has at most thirty-two columns and a name of at most 63 characters that is not the name of another table, and no row of the catalogue had its id before (the id counter starts again after a reboot).\<close>

theorem open_created_table:
  assumes "catalog_wf s" and "unat (nr_cols sch) = length (sch_cols sch)" and "length (sch_cols sch) \<le> 32" and "short_name nm"
    and "fresh_name (catalog_view s) nm" and "fresh_oid (catalog_view s) oid"
    and "kds_catalog_create_table env ns (Some nm) (Some sch) ct s = (Inr oid, s')"
  shows "kds_relation_open env oid s' =
    (if ke_alloc_ok env (nalloc s')
     then Inr \<lparr>rel_oid = oid, rel_namespace_oid = ns, rel_kind = ct, rel_root_page_id = hd (cv_staged (catalog_view s)),
        rel_schema = \<lparr>sch_cols = stored_columns oid oid (sch_cols sch), nr_cols = nr_cols sch\<rparr>\<rparr>
     else fails ENOMEM, s'\<lparr>nalloc := Suc (nalloc s')\<rparr>)"
proof -
  note L = created_lookup [OF assms(1,2,4,7,5,6)]
  obtain p ps where p: "cv_staged (catalog_view s) = p # ps" "kds_catalog_get_sys_table_row env oid s' =
       (Inr \<lparr>st_oid = oid, st_namespace_oid = ns, st_name = set_name nm, st_desc_page_id = p, st_clustered_type = ucast ct\<rparr>, s')"
    using L(2) by blast
  have ct: "ucast (ucast ct :: u8) = ct"
  proof -
    have "spec_create_table ns nm (sch_cols sch) ct (catalog_view s) = (Inr oid, catalog_view s')"
      using create_table_sim [OF assms(1,2), where env = env and ns = ns and nm = nm and ct = ct] assms(7) by simp
    then show ?thesis using spec_create_ok by (fastforce simp: KDS_CLUSTERED_HEAP_def KDS_CLUSTERED_BTREE_def)
  qed
  have n: "of_nat (length (sch_cols sch)) = nr_cols sch" by (simp flip: assms(2))
  let ?t = "s'\<lparr>nalloc := Suc (nalloc s')\<rparr>"
  note K = kalloc_view [OF L(4), of "Suc (nalloc s')"]
  have B: "kds_catalog_build_schema_from_columns env oid ?t = (if sch_cols sch = [] then fails ENOENT
      else Inr \<lparr>sch_cols = stored_columns oid oid (sch_cols sch), nr_cols = nr_cols sch\<rparr>, ?t)"
  proof -
    have "stored_columns oid oid (sch_cols sch) = [] \<longleftrightarrow> sch_cols sch = []" by (cases "sch_cols sch") simp_all
    then show ?thesis using schema_view [OF K(1), of env oid] L(3) assms(3) n K(2) by (simp add: Let_def)
  qed
  have z: "nr_cols sch = 0" if "sch_cols sch = []" using that n by simp
  show ?thesis
    using p B ct z
    by (cases "sch_cols sch = []")
      (simp_all add: kds_relation_open_def sbind_def kalloc_def sfail_def sret_def sattempt_run [where m = "kds_catalog_build_schema_from_columns env oid"] Let_def)
qed

theorem open_created_table_witness:
  "\<exists>(s :: cat_state) s'. kds_catalog_create_table demo_env 1 (Some (bytes_of ''orders'')) (Some demo_schema) 0 s = (Inr 4001, s')
    \<and> fst (kds_relation_open demo_env 4001 s') = Inr \<lparr>rel_oid = 4001, rel_namespace_oid = 1, rel_kind = 0, rel_root_page_id = 200,
        rel_schema = \<lparr>sch_cols = stored_columns 4001 4001 (sch_cols demo_schema), nr_cols = 2\<rparr>\<rparr>"
proof -
  obtain s s' :: cat_state where s: "catalog_wf s" "fresh_name (catalog_view s) (bytes_of ''orders'')" "fresh_oid (catalog_view s) 4001"
    "cv_staged (catalog_view s) = [200, 201]" "kds_catalog_create_table demo_env 1 (Some (bytes_of ''orders'')) (Some demo_schema) 0 s = (Inr 4001, s')"
    using demo_create by blast
  have "short_name (bytes_of ''orders'')" by (simp add: short_name_def cstr_def bytes_of_def)
  moreover have "ke_alloc_ok demo_env n" for n using demo_env_good by (simp add: env_good_def)
  moreover have "unat (nr_cols demo_schema) = length (sch_cols demo_schema)" "length (sch_cols demo_schema) \<le> 32" "nr_cols demo_schema = 2"
    by (simp_all add: demo_schema_def)
  ultimately have "fst (kds_relation_open demo_env 4001 s') = Inr \<lparr>rel_oid = 4001, rel_namespace_oid = 1, rel_kind = 0, rel_root_page_id = 200,
        rel_schema = \<lparr>sch_cols = stored_columns 4001 4001 (sch_cols demo_schema), nr_cols = 2\<rparr>\<rparr>"
    using open_created_table [OF s(1) _ _ _ s(2,3,5)] s(4) by simp
  with s(5) show ?thesis by blast
qed

lemma takeWhile_up_to: "\<forall>x \<in> set xs. x < (k :: 'a :: linorder) \<Longrightarrow> takeWhile (\<lambda>x. x \<noteq> k) (xs @ k # ys) = xs"
  by (induction xs) auto

text \<open>An entry inserted into an index leaf is not found under its key: the insertion stores the value to the right of
  the key, the search reads the slot to its left, so a search for the new key returns the value that stood before it.\<close>

theorem index_search_off_by_one:
  assumes "leaf_root s (rel_root_page_id rel) i kp pg" and "rel_kind rel = KDS_CLUSTERED_BTREE" and "count_of (kds_btree_data_copy pg) < 4"
    and "key \<notin> set (node_keys (kds_btree_data_copy pg))"
  shows "\<exists>s'. kds_index_insert env (Some rel) key v s = (Inr (), s')
    \<and> kds_index_search env (Some rel) key s' =
      (Inr (node_slots (kds_btree_data_copy pg) ! length (takeWhile (\<lambda>k. k < key) (node_keys (kds_btree_data_copy pg)))), s')"
proof -
  let ?c = "kds_btree_data_copy pg"
  let ?p = "length (takeWhile (\<lambda>k. k < key) (node_keys ?c))"
  have ok: "node_ok ?c" and so: "sorted_wrt (<) (node_keys ?c)" and lv: "level_of ?c = 0" using assms(1) by (simp_all add: leaf_root_def)
  have pb: "int ?p \<le> int (unat (count_of ?c))" using length_takeWhile_le [of "\<lambda>k. k < key" "node_keys ?c"] node_keys_length [OF ok] by (simp del: of_nat_unat)
  obtain c' where c': "btree_node_insert_at ?c (int ?p) key v = Inr c'" "node_ok c'" "level_of c' = level_of ?c"
    "node_keys c' = take ?p (node_keys ?c) @ key # drop ?p (node_keys ?c)"
    "node_slots c' = take (Suc ?p) (node_slots ?c) @ v # drop (Suc ?p) (node_slots ?c)"
    using insert_at_spec [OF ok assms(3) _ pb, of key v] by auto
  let ?s = "with_page i (kds_btree_data_store pg c') s"
  have ins: "btree_insert env (rel_root_page_id rel) key v s = (Inr None, ?s)"
    by (rule insert_leaf [OF assms(1,3,4) search_position_spec [OF ok] c'(1)])
  have tk: "takeWhile (\<lambda>k. k < key) (node_keys ?c) = take ?p (node_keys ?c)" by (rule takeWhile_eq_take)
  have rm: "length (node_keys ?c) < 4" using assms(3) node_keys_length [OF ok] by (simp add: word_less_nat_alt)
  have sl: "sorted_wrt (<) (node_keys c')"
    using node.insert_sorted [OF ok rm so assms(4) search_position_spec [OF ok], of v] c'(1) by auto
  have lr: "leaf_root ?s (rel_root_page_id rel) i kp (kds_btree_data_store pg c')"
    by (rule leaf_root_with_page [OF assms(1) c'(2) sl]) (simp add: c'(3) lv)
  have cp: "kds_btree_data_copy (kds_btree_data_store pg c') = c'" using c'(2) by (simp add: node_ok_def)
  have "\<forall>k \<in> set (take ?p (node_keys ?c)). k < key" unfolding tk [symmetric] using set_takeWhileD by fastforce
  then have "takeWhile (\<lambda>k. k \<noteq> key) (node_keys c') = take ?p (node_keys ?c)" unfolding c'(4) by (rule takeWhile_up_to)
  then have pos: "length (takeWhile (\<lambda>k. k \<noteq> key) (node_keys c')) = ?p" using tk by simp
  have sb: "?p < length (node_slots ?c)"
    using length_takeWhile_le [of "\<lambda>k. k < key" "node_keys ?c"] node_keys_length [OF ok] ok rm by (simp add: node_slots_def node_ok_def)
  have "node_slots c' ! ?p = node_slots ?c ! ?p"
    unfolding c'(5) using sb by (simp add: nth_append)
  then show ?thesis
    using search_leaf [OF lr assms(2) refl, of env key] ins pos assms(2) c'(4)
    by (simp add: kds_index_insert_def call_defs cp)
qed


definition demo_index :: cat_state where
  "demo_index = wal_state.extend (btree_state.extend demo_btree \<lparr>g_wal = None, g_wal_head_page_id = 0, g_wal_tail_page_id = 0, g_ckpt_proc = False\<rparr>)
     \<lparr>g_sys_objects = [], g_user_oid_counter = KDS_USER_OID_START\<rparr>"

lemma demo_index_root: "leaf_root demo_index 300 5 demo_btree_kp demo_btree_page"
  using demo_btree_root by (simp add: leaf_root_def pool_wf_def demo_index_def wal_state.defs btree_state.defs)

definition demo_index_rel :: kds_relation where
  "demo_index_rel = \<lparr>rel_oid = 4001, rel_namespace_oid = 1, rel_kind = KDS_CLUSTERED_BTREE, rel_root_page_id = 300,
     rel_schema = \<lparr>sch_cols = [], nr_cols = 0\<rparr>\<rparr>"

theorem index_search_off_by_one_witness:
  "\<exists>s'. kds_index_insert demo_env (Some demo_index_rel) 25 225 demo_index = (Inr (), s')
     \<and> kds_index_search demo_env (Some demo_index_rel) 25 s' = (Inr 220, s')"
proof -
  have d: "kds_btree_data_copy demo_btree_page = demo_leaf" "node_slots demo_leaf ! Suc (Suc 0) = 220" "count_of demo_leaf < 4"
    using demo_leaf_ok by (simp_all add: demo_btree_page_def demo_leaf_def node_slots_def count_of_def)
  show ?thesis
    using index_search_off_by_one [of demo_index demo_index_rel 5 demo_btree_kp demo_btree_page 25 demo_env 225] demo_index_root demo_leaf_ok d
    by (simp add: demo_index_rel_def)
qed

end
