(* ===== verification/Kds_Proc.thy ===== *)
theory Kds_Proc
  imports Kds_Relation "HOL-Library.Tree" "HOL-Library.Multiset"
begin

text \<open>
  The process scheduler (\<^verbatim>\<open>proc.c\<close>, \<^verbatim>\<open>kds_proc.h\<close>): per-CPU run queues with a list of system processes and a tree of
  session processes, registration, CPU affinity, one scheduling round, ageing of waiting processes, load balancing.
  The numbering of CPUs, the clock and the rebalancing of red-black trees belong to the Linux kernel and are the record
  \<open>sched_env\<close>; \<open>sched_env_ok\<close> states what the code relies on. Process structures live in a store indexed by
  address, because queues, callers and the running worker share them. The invariant \<open>sched_wf\<close> holds along every run
  of the step relation \<open>sched_step\<close>; a waiting process is chosen within a bounded number of rounds.
\<close>

section \<open>Processes and run queues\<close>

datatype kds_proc_kind = KDS_PROC_SYSTEM | KDS_PROC_SESSION

datatype kds_proc_state = KDS_PROC_STATE_READY | KDS_PROC_STATE_RUN | KDS_PROC_STATE_WAIT | KDS_PROC_STATE_DONE

datatype kds_proc_result = KDS_PROC_DONE_RET | KDS_PROC_YIELD_RET | KDS_PROC_WAIT_RET | KDS_PROC_CONTINUE | KDS_PROC_ERR_RET

text \<open>The functions of the module that \<^verbatim>\<open>run\<close> points to.\<close>

datatype kds_proc_run_fn = Run_prealloc | Run_checkpointer | Run_dshell

type_synonym cpumask = "nat \<Rightarrow> bool"
type_synonym s32 = "32 word"

text \<open>
  \<open>linked\<close> tells whether \<^verbatim>\<open>list_node\<close> has been initialised (zero-filled memory has null links). The name and the
  private context pointer are not used by the scheduler.
\<close>

record kds_proc =
  p_pid :: u64
  p_kind :: kds_proc_kind
  p_state :: kds_proc_state
  static_prio :: s32
  dynamic_prio :: s32
  last_run_ns :: u64
  total_runtime_ns :: u64
  wait_time_ns :: u64
  p_cpu :: int
  preferred_cpu :: int
  allowed_cpus :: cpumask
  p_running :: bool
  p_run :: "kds_proc_run_fn option"
  p_linked :: bool

text \<open>Processes are objects in memory; queues hold their addresses.\<close>

record kds_runqueue =
  system_procs :: "nat list"
  session_procs :: "nat tree"
  curr_proc :: "nat option"
  rq_total_runtime_ns :: u64
  nr_running :: u32

record kds_sched_stats =
  total_schedules :: u64
  load_balances :: u64
  migrations :: u64

record sched_state = cat_state +
  kds_runqueues :: "nat \<Rightarrow> kds_runqueue"
  procs :: "nat \<Rightarrow> kds_proc"
  kds_next_pid :: u64
  kds_stats :: kds_sched_stats
  clock :: nat

text \<open>
  What the scheduler uses of the Linux kernel: the numbering of CPUs, the possible and the online ones, the
  rebalancing half of the red-black tree library and the clock (\<open>ktime n\<close> is its \<open>n\<close>-th reading).
\<close>

record sched_env =
  nr_cpu_ids :: nat
  cpu_possible_mask :: cpumask
  cpu_online_mask :: cpumask
  rb_insert_color :: "nat \<Rightarrow> nat tree \<Rightarrow> nat tree"
  rb_erase :: "nat \<Rightarrow> nat tree \<Rightarrow> nat tree"
  ktime :: "nat \<Rightarrow> u64"

definition cpus_of :: "sched_env \<Rightarrow> cpumask \<Rightarrow> nat list" where
  "cpus_of env m = filter m [0 ..< nr_cpu_ids env]"

definition cpumask_empty :: "sched_env \<Rightarrow> cpumask \<Rightarrow> bool" where
  "cpumask_empty env m \<longleftrightarrow> cpus_of env m = []"

definition cpumask_first :: "sched_env \<Rightarrow> cpumask \<Rightarrow> nat" where
  "cpumask_first env m = (case cpus_of env m of [] \<Rightarrow> nr_cpu_ids env | c # _ \<Rightarrow> c)"

definition num_online_cpus :: "sched_env \<Rightarrow> nat" where
  "num_online_cpus env = length (cpus_of env (cpu_online_mask env))"

definition ktime_get_ns :: "sched_env \<Rightarrow> ('z sched_state_scheme, u64) call" where
  "ktime_get_ns env = (\<lambda>s. (Inr (ktime env (clock s)), s\<lparr>clock := Suc (clock s)\<rparr>))"

abbreviation rq_upd :: "nat \<Rightarrow> (kds_runqueue \<Rightarrow> kds_runqueue) \<Rightarrow> 'z sched_state_scheme \<Rightarrow> 'z sched_state_scheme" where
  "rq_upd c f s \<equiv> s\<lparr>kds_runqueues := (kds_runqueues s)(c := f (kds_runqueues s c))\<rparr>"

abbreviation proc_upd :: "nat \<Rightarrow> (kds_proc \<Rightarrow> kds_proc) \<Rightarrow> 'z sched_state_scheme \<Rightarrow> 'z sched_state_scheme" where
  "proc_upd a f s \<equiv> s\<lparr>procs := (procs s)(a := f (procs s a))\<rparr>"

section \<open>Start-up\<close>

definition empty_runqueue :: kds_runqueue where
  "empty_runqueue = \<lparr>system_procs = [], session_procs = Leaf, curr_proc = None, rq_total_runtime_ns = 0, nr_running = 0\<rparr>"

definition kds_sched_init :: "sched_env \<Rightarrow> ('z sched_state_scheme, unit) call" where
  "kds_sched_init env =
     sbind (for_each (\<lambda>c. smod (rq_upd c (\<lambda>_. empty_runqueue))) (cpus_of env (cpu_possible_mask env))) (\<lambda>_.
     smod (\<lambda>s. s\<lparr>kds_stats := \<lparr>total_schedules = 0, load_balances = 0, migrations = 0\<rparr>\<rparr>))"

definition kds_sched_cleanup :: "('z sched_state_scheme, unit) call" where
  "kds_sched_cleanup = sret ()"

section \<open>Queues\<close>

definition kds_calc_dynamic_prio :: "kds_proc \<Rightarrow> int" where
  "kds_calc_dynamic_prio p = sint (dynamic_prio p)"

text \<open>The descent to the leaf where \<^verbatim>\<open>rb_link_node\<close> puts the new node.\<close>

fun rb_link :: "(nat \<Rightarrow> kds_proc) \<Rightarrow> nat \<Rightarrow> nat tree \<Rightarrow> nat tree" where
  "rb_link ps a Leaf = Node Leaf a Leaf"
| "rb_link ps a (Node l e r) =
     (if sint (static_prio (ps a)) < sint (static_prio (ps e)) then Node (rb_link ps a l) e r else Node l e (rb_link ps a r))"

definition kds_session_rb_insert :: "sched_env \<Rightarrow> (nat \<Rightarrow> kds_proc) \<Rightarrow> nat tree \<Rightarrow> nat \<Rightarrow> nat tree" where
  "kds_session_rb_insert env ps root a = rb_insert_color env a (rb_link ps a root)"

definition kds_session_rb_remove :: "sched_env \<Rightarrow> nat tree \<Rightarrow> nat \<Rightarrow> nat tree" where
  "kds_session_rb_remove env root a = rb_erase env a root"

text \<open>
  \<^verbatim>\<open>list_add_tail\<close> of a node that is in a list already breaks that list, and \<^verbatim>\<open>list_del_init\<close> of a node whose links
  are null follows them: both are \<open>Fault\<close>. \<^verbatim>\<open>list_del_init\<close> takes the node out of whatever list it is in.
\<close>

definition in_some_list :: "sched_env \<Rightarrow> 'z sched_state_scheme \<Rightarrow> nat \<Rightarrow> bool" where
  "in_some_list env s a = list_ex (\<lambda>c. a \<in> set (system_procs (kds_runqueues s c))) [0 ..< nr_cpu_ids env]"

definition list_add_tail :: "sched_env \<Rightarrow> nat \<Rightarrow> nat \<Rightarrow> ('z sched_state_scheme, unit) call" where
  "list_add_tail env a c = sbind sget (\<lambda>s.
     if in_some_list env s a then sfail Fault
     else smod (\<lambda>s. proc_upd a (p_linked_update (\<lambda>_. True)) (rq_upd c (\<lambda>q. q\<lparr>system_procs := system_procs q @ [a]\<rparr>) s)))"

definition list_del_init :: "nat \<Rightarrow> ('z sched_state_scheme, unit) call" where
  "list_del_init a = sbind sget (\<lambda>s.
     if \<not> p_linked (procs s a) then sfail Fault
     else smod (\<lambda>s. s\<lparr>kds_runqueues := (\<lambda>c. (kds_runqueues s c)\<lparr>system_procs := filter (\<lambda>b. b \<noteq> a) (system_procs (kds_runqueues s c))\<rparr>)\<rparr>))"

text \<open>The two critical sections that several functions repeat: link a process into a queue, take it out.\<close>

definition rq_add :: "sched_env \<Rightarrow> nat \<Rightarrow> nat \<Rightarrow> ('z sched_state_scheme, unit) call" where
  "rq_add env c a = sbind sget (\<lambda>s.
     sbind (if p_kind (procs s a) = KDS_PROC_SYSTEM then list_add_tail env a c
            else smod (rq_upd c (\<lambda>q. q\<lparr>session_procs := kds_session_rb_insert env (procs s) (session_procs q) a\<rparr>)))
       (\<lambda>_. smod (rq_upd c (\<lambda>q. q\<lparr>nr_running := nr_running q + 1\<rparr>))))"

definition rq_del :: "sched_env \<Rightarrow> nat \<Rightarrow> nat \<Rightarrow> ('z sched_state_scheme, unit) call" where
  "rq_del env c a = sbind sget (\<lambda>s.
     sbind (if p_kind (procs s a) = KDS_PROC_SYSTEM then list_del_init a
            else smod (rq_upd c (\<lambda>q. q\<lparr>session_procs := kds_session_rb_remove env (session_procs q) a\<rparr>)))
       (\<lambda>_. smod (rq_upd c (\<lambda>q. q\<lparr>nr_running := nr_running q - 1\<rparr>))))"

section \<open>Choosing a CPU\<close>

fun least_loaded :: "(nat \<Rightarrow> u32) \<Rightarrow> nat list \<Rightarrow> u32 \<Rightarrow> nat option \<Rightarrow> nat option" where
  "least_loaded load [] min_load best = best"
| "least_loaded load (c # cs) min_load best =
     (if load c < min_load then least_loaded load cs (load c) (Some c) else least_loaded load cs min_load best)"

definition kds_select_cpu :: "sched_env \<Rightarrow> 'z sched_state_scheme \<Rightarrow> kds_proc \<Rightarrow> nat" where
  "kds_select_cpu env s p =
     (let load = (\<lambda>c. nr_running (kds_runqueues s c)); min_load = - 1 in
      if preferred_cpu p \<ge> 0 \<and> allowed_cpus p (nat (preferred_cpu p)) \<and> load (nat (preferred_cpu p)) < min_load
      then nat (preferred_cpu p)
      else case least_loaded load (cpus_of env (allowed_cpus p)) min_load None of
             Some c \<Rightarrow> c | None \<Rightarrow> cpumask_first env (allowed_cpus p))"

section \<open>Registration\<close>

definition kds_proc_register :: "sched_env \<Rightarrow> nat option \<Rightarrow> ('z sched_state_scheme, unit) call" where
  "kds_proc_register env proc = (case proc of None \<Rightarrow> sfail (Errno EINVAL) | Some a \<Rightarrow>
     sbind sget (\<lambda>s. if p_run (procs s a) = None then sfail (Errno EINVAL) else
     sbind (smod (\<lambda>s. proc_upd a (\<lambda>p. p\<lparr>p_state := KDS_PROC_STATE_READY, last_run_ns := 0, total_runtime_ns := 0, wait_time_ns := 0,
         p_pid := kds_next_pid s, p_running := False\<rparr>) (s\<lparr>kds_next_pid := kds_next_pid s + 1\<rparr>))) (\<lambda>_.
     sbind (smod (\<lambda>s. if cpumask_empty env (allowed_cpus (procs s a))
         then proc_upd a (\<lambda>p. p\<lparr>allowed_cpus := cpu_online_mask env\<rparr>) s else s)) (\<lambda>_.
     sbind sget (\<lambda>s. let cpu = kds_select_cpu env s (procs s a) in
     sbind (smod (proc_upd a (\<lambda>p. p\<lparr>p_cpu := int cpu, preferred_cpu := int cpu\<rparr>))) (\<lambda>_.
     rq_add env cpu a))))))"

definition kds_proc_unregister :: "sched_env \<Rightarrow> nat \<Rightarrow> ('z sched_state_scheme, unit) call" where
  "kds_proc_unregister env a = sbind sget (\<lambda>s. rq_del env (nat (p_cpu (procs s a))) a)"

definition kds_proc_set_affinity :: "sched_env \<Rightarrow> nat option \<Rightarrow> cpumask \<Rightarrow> ('z sched_state_scheme, unit) call" where
  "kds_proc_set_affinity env proc cmask = (case proc of None \<Rightarrow> sfail (Errno EINVAL) | Some a \<Rightarrow>
     if cpumask_empty env cmask then sfail (Errno EINVAL) else
     sbind sget (\<lambda>s. let old_cpu = nat (p_cpu (procs s a)) in
     if cmask old_cpu then smod (proc_upd a (\<lambda>p. p\<lparr>allowed_cpus := cmask\<rparr>)) else
     sbind (rq_del env old_cpu a) (\<lambda>_.
     sbind (smod (proc_upd a (\<lambda>p. p\<lparr>allowed_cpus := cmask\<rparr>))) (\<lambda>_.
     sbind sget (\<lambda>s. let new_cpu = kds_select_cpu env s (procs s a) in
     sbind (smod (proc_upd a (\<lambda>p. p\<lparr>p_cpu := int new_cpu\<rparr>))) (\<lambda>_.
     sbind (rq_add env new_cpu a) (\<lambda>_.
     smod (\<lambda>s. s\<lparr>kds_stats := (kds_stats s)\<lparr>migrations := migrations (kds_stats s) + 1\<rparr>\<rparr>))))))))"

section \<open>Scheduling\<close>

definition age_proc :: "u64 \<Rightarrow> u64 \<Rightarrow> kds_proc \<Rightarrow> kds_proc" where
  "age_proc elapsed_ns executed_pid p =
     (if p_pid p = executed_pid
      then p\<lparr>last_run_ns := elapsed_ns, total_runtime_ns := total_runtime_ns p + elapsed_ns, wait_time_ns := 0\<rparr>
      else p\<lparr>wait_time_ns := wait_time_ns p + elapsed_ns, dynamic_prio := dynamic_prio p + 1\<rparr>)"

definition kds_update_wait_time :: "nat \<Rightarrow> u64 \<Rightarrow> nat \<Rightarrow> ('z sched_state_scheme, unit) call" where
  "kds_update_wait_time c elapsed_ns executed = sbind sget (\<lambda>s.
     for_each (\<lambda>a. smod (\<lambda>s. proc_upd a (age_proc elapsed_ns (p_pid (procs s executed))) s)) (system_procs (kds_runqueues s c)))"

fun pick_best :: "(nat \<Rightarrow> kds_proc) \<Rightarrow> nat list \<Rightarrow> int \<Rightarrow> nat option \<Rightarrow> nat option" where
  "pick_best ps [] best_prio best = best"
| "pick_best ps (a # as) best_prio best =
     (if p_running (ps a) then pick_best ps as best_prio best
      else let prio = kds_calc_dynamic_prio (ps a) in
        if prio > best_prio then pick_best ps as prio (Some a) else pick_best ps as best_prio best)"

definition INT_MIN :: int where "INT_MIN = - (2 ^ 31)"

text \<open>
  \<open>run\<close> is the call through the function pointer of the chosen process. It runs with the queue unlocked, so what it
  returns is also the state that other CPUs may have left.
\<close>

type_synonym 's run_call = "kds_proc_run_fn \<Rightarrow> nat \<Rightarrow> u64 \<Rightarrow> ('s, kds_proc_result) call"

definition kds_proc_schedule :: "sched_env \<Rightarrow> 'z sched_state_scheme run_call \<Rightarrow> nat \<Rightarrow> u64 \<Rightarrow> ('z sched_state_scheme, unit) call" where
  "kds_proc_schedule env run c slice_ns = sbind sget (\<lambda>s.
     let q = kds_runqueues s c;
         fast_path = (nr_running q < of_nat (num_online_cpus env)
           \<and> (case curr_proc q of None \<Rightarrow> False | Some a \<Rightarrow> \<not> p_running (procs s a)));
         best = (if fast_path then curr_proc q else pick_best (procs s) (system_procs q) INT_MIN None)
     in case best of None \<Rightarrow> sret () | Some a \<Rightarrow>
       sbind (smod (\<lambda>s. rq_upd c (\<lambda>q. q\<lparr>curr_proc := Some a\<rparr>)
           (proc_upd a (\<lambda>p. p\<lparr>p_running := True, p_state := KDS_PROC_STATE_RUN\<rparr>) s))) (\<lambda>_.
       sbind (ktime_get_ns env) (\<lambda>start_ns.
       sbind (case p_run (procs s a) of None \<Rightarrow> sfail Fault | Some f \<Rightarrow> run f a slice_ns) (\<lambda>ret.
       sbind (ktime_get_ns env) (\<lambda>now_ns.
       sbind (kds_update_wait_time c (now_ns - start_ns) a) (\<lambda>_.
       smod (\<lambda>s. let s1 = proc_upd a (\<lambda>p. p\<lparr>p_running := False\<rparr>)
                   (rq_upd c (\<lambda>q. q\<lparr>rq_total_runtime_ns := rq_total_runtime_ns q + (now_ns - start_ns)\<rparr>) s);
                 s2 = (if fast_path then s1 else rq_upd c (\<lambda>q. q\<lparr>curr_proc := None\<rparr>) s1)
             in s2\<lparr>kds_stats := (kds_stats s2)\<lparr>total_schedules := total_schedules (kds_stats s2) + 1\<rparr>\<rparr>)))))))"

definition kds_proc_schedule_all :: "sched_env \<Rightarrow> 'z sched_state_scheme run_call \<Rightarrow> u64 \<Rightarrow> ('z sched_state_scheme, unit) call" where
  "kds_proc_schedule_all env run slice_ns =
     for_each (\<lambda>c. kds_proc_schedule env run c slice_ns) (cpus_of env (cpu_online_mask env))"

section \<open>Load balancing\<close>

definition KDS_LOAD_BALANCE_THRESHOLD :: u32 where "KDS_LOAD_BALANCE_THRESHOLD = 2"

fun most_loaded :: "(nat \<Rightarrow> u32) \<Rightarrow> nat list \<Rightarrow> u32 \<Rightarrow> nat option \<Rightarrow> nat option" where
  "most_loaded load [] max_load best = best"
| "most_loaded load (c # cs) max_load best =
     (if load c > max_load then most_loaded load cs (load c) (Some c) else most_loaded load cs max_load best)"

fun first_movable :: "(nat \<Rightarrow> kds_proc) \<Rightarrow> nat \<Rightarrow> nat list \<Rightarrow> nat option" where
  "first_movable ps dst [] = None"
| "first_movable ps dst (a # as) =
     (if p_running (ps a) then first_movable ps dst as
      else if allowed_cpus (ps a) dst then Some a else first_movable ps dst as)"

text \<open>
  A loop that ends without \<^verbatim>\<open>break\<close> leaves in \<^verbatim>\<open>proc\<close> the address computed from the list head, which is not null and
  not a process: the code then unlinks the head of the list and writes to that address.
\<close>

definition kds_load_balance :: "sched_env \<Rightarrow> ('z sched_state_scheme, unit) call" where
  "kds_load_balance env = sbind sget (\<lambda>s.
     let load = (\<lambda>c. nr_running (kds_runqueues s c)); cpus = cpus_of env (cpu_online_mask env)
     in case (most_loaded load cpus 0 None, least_loaded load cpus (- 1) None) of
       (Some max_cpu, Some min_cpu) \<Rightarrow>
         if load max_cpu - load min_cpu \<le> KDS_LOAD_BALANCE_THRESHOLD then sret ()
         else (case first_movable (procs s) min_cpu (system_procs (kds_runqueues s max_cpu)) of
             None \<Rightarrow> sfail Fault
           | Some a \<Rightarrow>
             sbind (list_del_init a) (\<lambda>_.
             sbind (smod (rq_upd max_cpu (\<lambda>q. q\<lparr>nr_running := nr_running q - 1\<rparr>))) (\<lambda>_.
             sbind (list_add_tail env a min_cpu) (\<lambda>_.
             sbind (smod (rq_upd min_cpu (\<lambda>q. q\<lparr>nr_running := nr_running q + 1\<rparr>))) (\<lambda>_.
             sbind (smod (proc_upd a (\<lambda>p. p\<lparr>p_cpu := int min_cpu\<rparr>))) (\<lambda>_.
             smod (\<lambda>s. s\<lparr>kds_stats := (kds_stats s)\<lparr>load_balances := load_balances (kds_stats s) + 1,
                 migrations := migrations (kds_stats s) + 1\<rparr>\<rparr>)))))))
     | _ \<Rightarrow> sret ())"

section \<open>The invariant of the queues\<close>

definition prio_of :: "(nat \<Rightarrow> kds_proc) \<Rightarrow> nat \<Rightarrow> int" where
  "prio_of ps a = sint (static_prio (ps a))"

definition queue_of :: "kds_runqueue \<Rightarrow> nat list" where
  "queue_of q = system_procs q @ inorder (session_procs q)"

definition registered :: "'z sched_state_scheme \<Rightarrow> nat set" where
  "registered s = (\<Union>c. set (queue_of (kds_runqueues s c)))"

definition mask_ok :: "sched_env \<Rightarrow> cpumask \<Rightarrow> bool" where
  "mask_ok env m \<longleftrightarrow> (\<forall>c. m c \<longrightarrow> c < nr_cpu_ids env)"

text \<open>Some CPU is online, rebalancing keeps the order of the nodes, erasing removes one node.\<close>

definition sched_env_ok :: "sched_env \<Rightarrow> bool" where
  "sched_env_ok env \<longleftrightarrow> mask_ok env (cpu_online_mask env) \<and> cpus_of env (cpu_online_mask env) \<noteq> [] \<and> (\<forall>a t. inorder (rb_insert_color env a t) = inorder t)
     \<and> (\<forall>a t. a \<in> set (inorder t) \<longrightarrow> inorder (rb_erase env a t) = remove1 a (inorder t))"

definition queue_wf :: "sched_env \<Rightarrow> (nat \<Rightarrow> kds_proc) \<Rightarrow> nat \<Rightarrow> kds_runqueue \<Rightarrow> bool" where
  "queue_wf env ps c q \<longleftrightarrow> distinct (queue_of q) \<and> (c \<ge> nr_cpu_ids env \<longrightarrow> queue_of q = [])
     \<and> (\<forall>a \<in> set (queue_of q). p_cpu (ps a) = int c \<and> p_run (ps a) \<noteq> None \<and> \<not> p_running (ps a))
     \<and> (\<forall>a \<in> set (system_procs q). p_kind (ps a) = KDS_PROC_SYSTEM \<and> p_linked (ps a))
     \<and> (\<forall>a \<in> set (inorder (session_procs q)). p_kind (ps a) = KDS_PROC_SESSION)
     \<and> sorted (map (prio_of ps) (inorder (session_procs q)))
     \<and> nr_running q = of_nat (length (queue_of q)) \<and> curr_proc q = None"

definition sched_wf :: "sched_env \<Rightarrow> 'z sched_state_scheme \<Rightarrow> bool" where
  "sched_wf env s \<longleftrightarrow> (\<forall>c. queue_wf env (procs s) c (kds_runqueues s c)) \<and> inj_on (\<lambda>a. p_pid (procs s a)) (registered s)
     \<and> (\<forall>a \<in> registered s. p_pid (procs s a) < kds_next_pid s)"

lemma sched_wf_queue: "sched_wf env s \<Longrightarrow> queue_wf env (procs s) c (kds_runqueues s c)"
  by (simp add: sched_wf_def)

lemma registered_cpu:
  fixes s :: "'z sched_state_scheme"
  assumes "sched_wf env s" and "a \<in> registered s"
  shows "nat (p_cpu (procs s a)) < nr_cpu_ids env" "0 \<le> p_cpu (procs s a)" "a \<in> set (queue_of (kds_runqueues s (nat (p_cpu (procs s a)))))"
    "a \<in> set (queue_of (kds_runqueues s c)) \<Longrightarrow> c = nat (p_cpu (procs s a))"
proof -
  have "p_cpu (procs s a) = int c \<and> c < nr_cpu_ids env" if "a \<in> set (queue_of (kds_runqueues s c))" for c
    using sched_wf_queue [OF assms(1), of c] that by (auto simp: queue_wf_def leI not_less [symmetric])
  moreover obtain c where "a \<in> set (queue_of (kds_runqueues s c))" using assms(2) by (auto simp: registered_def)
  ultimately show "nat (p_cpu (procs s a)) < nr_cpu_ids env" "0 \<le> p_cpu (procs s a)"
    "a \<in> set (queue_of (kds_runqueues s (nat (p_cpu (procs s a)))))"
    "a \<in> set (queue_of (kds_runqueues s c)) \<Longrightarrow> c = nat (p_cpu (procs s a))" for c by auto
qed

lemma queued_idle: "queue_wf env ps c q \<Longrightarrow> a \<in> set (queue_of q) \<Longrightarrow> \<not> p_running (ps a)"
  by (simp add: queue_wf_def)

text \<open>Fields of a process that the invariant does not mention may change freely.\<close>

definition same_role :: "kds_proc \<Rightarrow> kds_proc \<Rightarrow> bool" where
  "same_role p q \<longleftrightarrow> p_kind p = p_kind q \<and> p_cpu p = p_cpu q \<and> p_run p = p_run q \<and> p_linked p = p_linked q
     \<and> static_prio p = static_prio q \<and> p_pid p = p_pid q"

lemma same_role_refl [simp]: "same_role p p" by (simp add: same_role_def)

lemma queue_wf_procs:
  assumes "queue_wf env ps c q" and "\<forall>a \<in> set (queue_of q). same_role (ps a) (ps' a) \<and> \<not> p_running (ps' a)"
  shows "queue_wf env ps' c q"
proof -
  have "map (prio_of ps') (inorder (session_procs q)) = map (prio_of ps) (inorder (session_procs q))"
    using assms(2) by (simp add: prio_of_def same_role_def queue_of_def)
  moreover have "sorted (map (prio_of ps) (inorder (session_procs q)))" using assms(1) by (simp add: queue_wf_def)
  ultimately have "sorted (map (prio_of ps') (inorder (session_procs q)))" by (simp only:)
  then show ?thesis using assms by (simp add: queue_wf_def same_role_def queue_of_def)
qed

lemma sched_wf_procs:
  assumes "sched_wf env s" and "\<forall>a \<in> registered s. same_role (procs s a) (ps' a) \<and> \<not> p_running (ps' a)"
    and "kds_runqueues t = kds_runqueues s" "procs t = ps'" "kds_next_pid s \<le> kds_next_pid t"
  shows "sched_wf env t"
proof -
  have r: "registered t = registered s" using assms(3) by (simp add: registered_def)
  have q: "queue_wf env ps' c (kds_runqueues s c)" for c
    by (rule queue_wf_procs [OF sched_wf_queue [OF assms(1)]]) (use assms(2) in \<open>auto simp: registered_def\<close>)
  have p: "p_pid (ps' a) = p_pid (procs s a)" if "a \<in> registered s" for a using assms(2) that by (simp add: same_role_def)
  have "inj_on (\<lambda>a. p_pid (ps' a)) (registered s)"
    using assms(1) p by (simp add: sched_wf_def inj_on_def)
  moreover have "p_pid (ps' a) < kds_next_pid t" if "a \<in> registered s" for a
    using assms(1,5) p that by (fastforce simp: sched_wf_def)
  ultimately show ?thesis using q r assms(3,4) by (simp add: sched_wf_def)
qed

section \<open>The session tree\<close>

lemma while_stop:
  "\<not> P e \<Longrightarrow> takeWhile P (xs @ e # ys) = takeWhile P xs" "\<not> P e \<Longrightarrow> dropWhile P (xs @ e # ys) = dropWhile P xs @ e # ys"
  by (induction xs) auto

lemma while_pass:
  "P e \<and> (\<forall>x \<in> set xs. P x) \<Longrightarrow> takeWhile P (xs @ e # ys) = xs @ e # takeWhile P ys"
  "P e \<and> (\<forall>x \<in> set xs. P x) \<Longrightarrow> dropWhile P (xs @ e # ys) = dropWhile P ys"
  by (induction xs) auto

lemma rb_link_prio: "rb_link ps a (Node l e r) = (if prio_of ps a < prio_of ps e then Node (rb_link ps a l) e r else Node l e (rb_link ps a r))"
  by (simp add: prio_of_def)

lemma rb_link_inorder:
  "sorted (map (prio_of ps) (inorder t)) \<Longrightarrow>
   inorder (rb_link ps a t) = takeWhile (\<lambda>e. prio_of ps e \<le> prio_of ps a) (inorder t) @ a # dropWhile (\<lambda>e. prio_of ps e \<le> prio_of ps a) (inorder t)"
proof (induction t)
  case Leaf
  then show ?case by simp
next
  case (Node l e r)
  let ?P = "\<lambda>e. prio_of ps e \<le> prio_of ps a"
  have s: "sorted (map (prio_of ps) (inorder l))" "sorted (map (prio_of ps) (inorder r))"
    "\<forall>x \<in> set (inorder l). prio_of ps x \<le> prio_of ps e" using Node.prems by (auto simp: sorted_append)
  show ?case
  proof (cases "prio_of ps a < prio_of ps e")
    case True
    then have "takeWhile ?P (inorder l @ e # inorder r) = takeWhile ?P (inorder l)" "dropWhile ?P (inorder l @ e # inorder r) = dropWhile ?P (inorder l) @ e # inorder r"
      by (simp_all add: while_stop)
    then show ?thesis using True Node.IH(1) s(1) by (simp add: rb_link_prio del: rb_link.simps)
  next
    case False
    then have "\<forall>x \<in> set (inorder l @ [e]). ?P x" using s(3) by auto
    then have "takeWhile ?P (inorder l @ e # inorder r) = inorder l @ e # takeWhile ?P (inorder r)" "dropWhile ?P (inorder l @ e # inorder r) = dropWhile ?P (inorder r)"
      by (simp_all add: while_pass)
    then show ?thesis using False Node.IH(2) s(2) by (simp add: rb_link_prio del: rb_link.simps)
  qed
qed

lemma insert_after:
  fixes f :: "'a \<Rightarrow> int"
  assumes "sorted (map f xs)"
  shows "sorted (map f (takeWhile (\<lambda>e. f e \<le> f a) xs @ a # dropWhile (\<lambda>e. f e \<le> f a) xs))"
    and "mset (takeWhile (\<lambda>e. f e \<le> f a) xs @ a # dropWhile (\<lambda>e. f e \<le> f a) xs) = mset (a # xs)"
proof -
  have m: "mset (takeWhile (\<lambda>e. f e \<le> f a) xs @ a # dropWhile (\<lambda>e. f e \<le> f a) xs) = mset (a # xs)" for xs
    by (induction xs) auto
  show "mset (takeWhile (\<lambda>e. f e \<le> f a) xs @ a # dropWhile (\<lambda>e. f e \<le> f a) xs) = mset (a # xs)" by (rule m)
  show "sorted (map f (takeWhile (\<lambda>e. f e \<le> f a) xs @ a # dropWhile (\<lambda>e. f e \<le> f a) xs))"
    using assms
  proof (induction xs)
    case (Cons x xs)
    let ?ys = "takeWhile (\<lambda>e. f e \<le> f a) xs @ a # dropWhile (\<lambda>e. f e \<le> f a) xs"
    have "set ?ys = insert a (set xs)" using mset_eq_setD [OF m [of xs]] by simp
    then have "f x \<le> f a \<Longrightarrow> \<forall>y \<in> set ?ys. f x \<le> f y" using Cons.prems by auto
    then show ?case using Cons by (cases "f x \<le> f a") auto
  qed simp
qed

lemma rb_insert_spec:
  assumes "sched_env_ok env" and "sorted (map (prio_of ps) (inorder t))"
  shows "sorted (map (prio_of ps) (inorder (kds_session_rb_insert env ps t a)))"
    and "mset (inorder (kds_session_rb_insert env ps t a)) = mset (a # inorder t)"
proof -
  have i: "inorder (kds_session_rb_insert env ps t a)
      = takeWhile (\<lambda>e. prio_of ps e \<le> prio_of ps a) (inorder t) @ a # dropWhile (\<lambda>e. prio_of ps e \<le> prio_of ps a) (inorder t)"
    using assms by (simp add: kds_session_rb_insert_def sched_env_ok_def rb_link_inorder)
  show "sorted (map (prio_of ps) (inorder (kds_session_rb_insert env ps t a)))"
    "mset (inorder (kds_session_rb_insert env ps t a)) = mset (a # inorder t)"
    unfolding i by (rule insert_after [OF assms(2)])+
qed

lemma rb_remove_spec:
  assumes "sched_env_ok env" and "a \<in> set (inorder t)" and "distinct (inorder t)"
  shows "inorder (kds_session_rb_remove env t a) = filter (\<lambda>b. b \<noteq> a) (inorder t)"
proof -
  have "inorder (kds_session_rb_remove env t a) = remove1 a (inorder t)"
    using assms(1,2) unfolding sched_env_ok_def kds_session_rb_remove_def by blast
  then show ?thesis using assms(3) by (simp add: distinct_remove1_removeAll removeAll_filter_not_eq) (metis (mono_tags) filter_cong)
qed

section \<open>Linking and unlinking\<close>

lemma not_registered: "a \<notin> registered s \<Longrightarrow> a \<notin> set (queue_of (kds_runqueues s c))"
  by (auto simp: registered_def)

lemma not_in_list: "a \<notin> registered s \<Longrightarrow> \<not> in_some_list env s a"
  using not_registered by (auto simp: in_some_list_def list_ex_iff queue_of_def)

lemma registered_upd:
  "registered (s\<lparr>kds_runqueues := (kds_runqueues s)(c := q)\<rparr>) = (\<Union>d \<in> - {c}. set (queue_of (kds_runqueues s d))) \<union> set (queue_of q)"
  by (auto simp: registered_def split: if_splits)

text \<open>The state after a process is linked into the queue of a CPU, and after it is taken out.\<close>

definition add_queue :: "sched_env \<Rightarrow> (nat \<Rightarrow> kds_proc) \<Rightarrow> nat \<Rightarrow> kds_runqueue \<Rightarrow> kds_runqueue" where
  "add_queue env ps a q = (if p_kind (ps a) = KDS_PROC_SYSTEM then q\<lparr>system_procs := system_procs q @ [a], nr_running := nr_running q + 1\<rparr>
     else q\<lparr>session_procs := kds_session_rb_insert env ps (session_procs q) a, nr_running := nr_running q + 1\<rparr>)"

definition add_proc :: "sched_env \<Rightarrow> nat \<Rightarrow> nat \<Rightarrow> 'z sched_state_scheme \<Rightarrow> 'z sched_state_scheme" where
  "add_proc env c a s = s\<lparr>kds_runqueues := (kds_runqueues s)(c := add_queue env (procs s) a (kds_runqueues s c)),
     procs := (procs s)(a := (procs s a)\<lparr>p_linked := p_linked (procs s a) \<or> p_kind (procs s a) = KDS_PROC_SYSTEM\<rparr>)\<rparr>"

lemma rq_add_run: "a \<notin> registered s \<Longrightarrow> rq_add env c a s = (Inr (), add_proc env c a s)"
  by (simp add: rq_add_def list_add_tail_def call_defs not_in_list add_proc_def add_queue_def)

lemma mset_add_queue:
  assumes "sched_env_ok env" and "sorted (map (prio_of ps) (inorder (session_procs q)))"
  shows "mset (queue_of (add_queue env ps a q)) = mset (a # queue_of q)"
  using rb_insert_spec(2) [OF assms] by (simp add: add_queue_def queue_of_def)

lemma queue_wf_add:
  assumes "sched_env_ok env" and "queue_wf env ps c q" and "a \<notin> set (queue_of q)" and "c < nr_cpu_ids env"
    and "p_cpu (ps a) = int c" "p_run (ps a) \<noteq> None" "\<not> p_running (ps a)" "p_kind (ps a) = KDS_PROC_SYSTEM \<Longrightarrow> p_linked (ps a)"
  shows "queue_wf env ps c (add_queue env ps a q)"
proof -
  have so: "sorted (map (prio_of ps) (inorder (session_procs q)))" using assms(2) by (simp add: queue_wf_def)
  note m = mset_add_queue [OF assms(1) so, of a]
  have se: "set (queue_of (add_queue env ps a q)) = insert a (set (queue_of q))" using mset_eq_setD [OF m] by simp
  have di: "distinct (queue_of (add_queue env ps a q))"
    using mset_eq_imp_distinct_iff [OF m] assms(2,3) by (simp add: queue_wf_def)
  have le: "length (queue_of (add_queue env ps a q)) = Suc (length (queue_of q))" using mset_eq_length [OF m] by simp
  have so': "sorted (map (prio_of ps) (inorder (session_procs (add_queue env ps a q))))"
    using so rb_insert_spec(1) [OF assms(1) so] by (simp add: add_queue_def)
  have k: "\<forall>b \<in> set (system_procs (add_queue env ps a q)). p_kind (ps b) = KDS_PROC_SYSTEM \<and> p_linked (ps b)"
    using assms(2,8) by (auto simp: add_queue_def queue_wf_def)
  have "p_kind (ps a) = KDS_PROC_SYSTEM \<or> p_kind (ps a) = KDS_PROC_SESSION" by (cases "p_kind (ps a)") auto
  then have k': "\<forall>b \<in> set (inorder (session_procs (add_queue env ps a q))). p_kind (ps b) = KDS_PROC_SESSION"
    using assms(2) mset_eq_setD [OF rb_insert_spec(2) [OF assms(1) so, of a]] by (auto simp: add_queue_def queue_wf_def)
  have nr: "nr_running (add_queue env ps a q) = nr_running q + 1" "curr_proc (add_queue env ps a q) = curr_proc q" by (simp_all add: add_queue_def)
  show ?thesis
    unfolding queue_wf_def se le nr using assms di so' k k' by (auto simp: queue_wf_def)
qed

lemma sched_wf_add:
  assumes "sched_env_ok env" and "sched_wf env s" and "a \<notin> registered s" and "c < nr_cpu_ids env"
    and "p_cpu (procs s a) = int c" "p_run (procs s a) \<noteq> None" "\<not> p_running (procs s a)"
    and "p_pid (procs s a) < kds_next_pid s" "\<forall>b \<in> registered s. p_pid (procs s b) \<noteq> p_pid (procs s a)"
  shows "sched_wf env (add_proc env c a s)" "registered (add_proc env c a s) = insert a (registered s)"
proof -
  let ?ps = "procs (add_proc env c a s)"
  have ps: "\<forall>b. b \<noteq> a \<longrightarrow> ?ps b = procs s b" "p_pid (?ps b) = p_pid (procs s b)" for b by (simp_all add: add_proc_def)
  have aq: "add_queue env ?ps a q = add_queue env (procs s) a q" for q
  proof -
    have "rb_link ?ps a t = rb_link (procs s) a t" for t by (induction t) (simp_all add: add_proc_def)
    moreover have "p_kind (?ps a) = p_kind (procs s a)" by (simp add: add_proc_def)
    ultimately show ?thesis by (simp add: add_queue_def kds_session_rb_insert_def)
  qed
  have kq: "kds_runqueues (add_proc env c a s) = (kds_runqueues s)(c := add_queue env ?ps a (kds_runqueues s c))"
    unfolding aq by (simp add: add_proc_def)
  have old: "queue_wf env ?ps d (kds_runqueues s d)" for d
  proof (rule queue_wf_procs [OF sched_wf_queue [OF assms(2)]], rule ballI)
    fix b assume b: "b \<in> set (queue_of (kds_runqueues s d))"
    then have "b \<noteq> a" using not_registered [OF assms(3)] by blast
    then show "same_role (procs s b) (?ps b) \<and> \<not> p_running (?ps b)"
      using ps(1) queued_idle [OF sched_wf_queue [OF assms(2)] b] by simp
  qed
  have new: "queue_wf env ?ps c (add_queue env ?ps a (kds_runqueues s c))"
    by (rule queue_wf_add [OF assms(1) old not_registered [OF assms(3)] assms(4)]) (use assms(5-7) in \<open>simp_all add: add_proc_def\<close>)
  have so: "sorted (map (prio_of ?ps) (inorder (session_procs (kds_runqueues s c))))" using old by (simp add: queue_wf_def)
  have "set (queue_of (add_queue env ?ps a (kds_runqueues s c))) = insert a (set (queue_of (kds_runqueues s c)))"
    using mset_eq_setD [OF mset_add_queue [OF assms(1) so, of a]] by simp
  then have rq: "set (queue_of (kds_runqueues (add_proc env c a s) d)) = (if d = c then insert a (set (queue_of (kds_runqueues s d))) else set (queue_of (kds_runqueues s d)))" for d
    by (simp add: kq)
  show reg: "registered (add_proc env c a s) = insert a (registered s)"
    unfolding registered_def rq by (auto split: if_splits)
  have "queue_wf env ?ps d (kds_runqueues (add_proc env c a s) d)" for d using old new by (simp add: kq)
  moreover have "inj_on (\<lambda>b. p_pid (?ps b)) (insert a (registered s))"
    unfolding ps(2) using assms(2,9) by (auto simp: sched_wf_def inj_on_def)
  ultimately show "sched_wf env (add_proc env c a s)"
    using assms(2,8) unfolding sched_wf_def reg ps(2) by (simp add: add_proc_def [of env c a s])
qed

definition del_queue :: "sched_env \<Rightarrow> (nat \<Rightarrow> kds_proc) \<Rightarrow> nat \<Rightarrow> kds_runqueue \<Rightarrow> kds_runqueue" where
  "del_queue env ps a q = (if p_kind (ps a) = KDS_PROC_SYSTEM then q\<lparr>system_procs := filter (\<lambda>b. b \<noteq> a) (system_procs q), nr_running := nr_running q - 1\<rparr>
     else q\<lparr>session_procs := kds_session_rb_remove env (session_procs q) a, nr_running := nr_running q - 1\<rparr>)"

definition del_proc :: "sched_env \<Rightarrow> nat \<Rightarrow> nat \<Rightarrow> 'z sched_state_scheme \<Rightarrow> 'z sched_state_scheme" where
  "del_proc env c a s = s\<lparr>kds_runqueues := (kds_runqueues s)(c := del_queue env (procs s) a (kds_runqueues s c))\<rparr>"

lemma registered_kind:
  assumes "sched_wf env s" and "a \<in> set (queue_of (kds_runqueues s c))"
  shows "a \<in> set (system_procs (kds_runqueues s c)) \<longleftrightarrow> p_kind (procs s a) = KDS_PROC_SYSTEM"
    "a \<in> set (inorder (session_procs (kds_runqueues s c))) \<longleftrightarrow> p_kind (procs s a) \<noteq> KDS_PROC_SYSTEM"
    "p_kind (procs s a) = KDS_PROC_SYSTEM \<Longrightarrow> p_linked (procs s a)"
  using sched_wf_queue [OF assms(1), of c] assms(2) by (auto simp: queue_wf_def queue_of_def)

lemma other_queue:
  assumes "sched_wf env s" and "a \<in> set (queue_of (kds_runqueues s c))" and "d \<noteq> c"
  shows "a \<notin> set (queue_of (kds_runqueues s d))"
  using registered_cpu(4) [OF assms(1), of a] assms(2,3) by (auto simp: registered_def)

lemma list_del_init_run:
  assumes "sched_wf env s" and "a \<in> set (system_procs (kds_runqueues s c))"
  shows "list_del_init a s = (Inr (), rq_upd c (\<lambda>q. q\<lparr>system_procs := filter (\<lambda>b. b \<noteq> a) (system_procs q)\<rparr>) s)"
proof -
  have aq: "a \<in> set (queue_of (kds_runqueues s c))" using assms(2) by (simp add: queue_of_def)
  have "filter (\<lambda>b. b \<noteq> a) (system_procs (kds_runqueues s d)) = system_procs (kds_runqueues s d)" if "d \<noteq> c" for d
    using other_queue [OF assms(1) aq that] by (auto simp: queue_of_def intro!: filter_True)
  then have "(\<lambda>d. (kds_runqueues s d)\<lparr>system_procs := filter (\<lambda>b. b \<noteq> a) (system_procs (kds_runqueues s d))\<rparr>)
      = (kds_runqueues s)(c := (kds_runqueues s c)\<lparr>system_procs := filter (\<lambda>b. b \<noteq> a) (system_procs (kds_runqueues s c))\<rparr>)"
    by (auto simp: fun_eq_iff)
  moreover have "p_linked (procs s a)" using registered_kind [OF assms(1) aq] assms(2) by blast
  ultimately show ?thesis by (simp add: list_del_init_def call_defs)
qed

lemma rq_del_run:
  assumes "sched_wf env s" and "a \<in> set (queue_of (kds_runqueues s c))"
  shows "rq_del env c a s = (Inr (), del_proc env c a s)"
proof (cases "p_kind (procs s a) = KDS_PROC_SYSTEM")
  case True
  then show ?thesis using list_del_init_run [OF assms(1), of a c] registered_kind(1) [OF assms]
    by (simp add: rq_del_def call_defs del_proc_def del_queue_def)
qed (simp add: rq_del_def call_defs del_proc_def del_queue_def)

lemma filter_one:
  assumes "distinct xs" and "a \<in> set xs"
  shows "Suc (length (filter (\<lambda>b. b \<noteq> a) xs)) = length xs"
  using assms by (induction xs) (auto intro!: arg_cong [where f = length] filter_True)

lemma queue_of_del:
  assumes "sched_env_ok env" and "sched_wf env s" and "a \<in> set (queue_of (kds_runqueues s c))"
  shows "queue_of (del_queue env (procs s) a (kds_runqueues s c)) = filter (\<lambda>b. b \<noteq> a) (queue_of (kds_runqueues s c))"
    "inorder (session_procs (del_queue env (procs s) a (kds_runqueues s c))) = filter (\<lambda>b. b \<noteq> a) (inorder (session_procs (kds_runqueues s c)))"
    "system_procs (del_queue env (procs s) a (kds_runqueues s c)) = filter (\<lambda>b. b \<noteq> a) (system_procs (kds_runqueues s c))"
proof -
  note k = registered_kind [OF assms(2,3)]
  have d: "distinct (inorder (session_procs (kds_runqueues s c)))" using sched_wf_queue [OF assms(2), of c] by (simp add: queue_wf_def queue_of_def)
  show i: "inorder (session_procs (del_queue env (procs s) a (kds_runqueues s c))) = filter (\<lambda>b. b \<noteq> a) (inorder (session_procs (kds_runqueues s c)))"
    using k(1,2) rb_remove_spec [OF assms(1) _ d, of a] by (auto simp: del_queue_def intro!: filter_True [symmetric])
  show f: "system_procs (del_queue env (procs s) a (kds_runqueues s c)) = filter (\<lambda>b. b \<noteq> a) (system_procs (kds_runqueues s c))"
    using k(1,2) by (auto simp: del_queue_def intro!: filter_True [symmetric])
  show "queue_of (del_queue env (procs s) a (kds_runqueues s c)) = filter (\<lambda>b. b \<noteq> a) (queue_of (kds_runqueues s c))"
    by (simp add: queue_of_def i f)
qed

lemma sched_wf_del:
  assumes "sched_env_ok env" and "sched_wf env s" and "a \<in> set (queue_of (kds_runqueues s c))"
  shows "sched_wf env (del_proc env c a s)" "registered (del_proc env c a s) = registered s - {a}"
proof -
  let ?q = "kds_runqueues s c" and ?q' = "del_queue env (procs s) a (kds_runqueues s c)"
  note q = queue_of_del [OF assms] and w = sched_wf_queue [OF assms(2), of c]
  have "nr_running ?q' = nr_running ?q - 1" "curr_proc ?q' = curr_proc ?q" by (simp_all add: del_queue_def)
  moreover have "length (queue_of ?q) = Suc (length (filter (\<lambda>b. b \<noteq> a) (queue_of ?q)))"
    using filter_one [OF _ assms(3)] w by (simp add: queue_wf_def)
  moreover have "sorted (map (prio_of (procs s)) (filter (\<lambda>b. b \<noteq> a) (inorder (session_procs ?q))))"
    using w by (simp add: queue_wf_def sorted_filter)
  ultimately have qw: "queue_wf env (procs s) c ?q'"
    using w unfolding queue_wf_def q by (simp only:) auto
  have rq: "set (queue_of (kds_runqueues (del_proc env c a s) d)) = set (queue_of (kds_runqueues s d)) - {a}" for d
    using other_queue [OF assms(2,3)] q(1) by (auto simp: del_proc_def)
  show reg: "registered (del_proc env c a s) = registered s - {a}"
    unfolding registered_def rq by auto
  have "queue_wf env (procs s) d (kds_runqueues (del_proc env c a s) d)" for d
    using qw sched_wf_queue [OF assms(2), of d] by (simp add: del_proc_def)
  moreover have "inj_on (\<lambda>a. p_pid (procs s a)) (registered s - {a})" using assms(2) by (auto simp: sched_wf_def inj_on_def)
  ultimately show "sched_wf env (del_proc env c a s)"
    using assms(2) unfolding sched_wf_def reg by (simp add: del_proc_def)
qed

section \<open>Choosing a CPU\<close>

lemma least_loaded_spec:
  "(\<exists>c \<in> set cs. least_loaded load cs m b = Some c \<and> load c < m \<and> (\<forall>d \<in> set cs. load c \<le> load d))
   \<or> least_loaded load cs m b = b \<and> (\<forall>d \<in> set cs. m \<le> load d)"
proof (induction cs arbitrary: m b)
  case (Cons c cs)
  show ?case
  proof (cases "load c < m")
    case True
    then show ?thesis using Cons.IH [of "load c" "Some c"] by (auto intro: order_less_imp_le less_trans)
  next
    case False
    then show ?thesis using Cons.IH [of m b] by (auto simp: not_less intro: order_less_imp_le less_le_trans)
  qed
qed simp

lemma most_loaded_spec:
  "(\<exists>c \<in> set cs. most_loaded load cs m b = Some c \<and> m < load c \<and> (\<forall>d \<in> set cs. load d \<le> load c))
   \<or> most_loaded load cs m b = b \<and> (\<forall>d \<in> set cs. load d \<le> m)"
proof (induction cs arbitrary: m b)
  case (Cons c cs)
  show ?case
  proof (cases "m < load c")
    case True
    then show ?thesis using Cons.IH [of "load c" "Some c"] by (auto intro: order_less_imp_le less_trans)
  next
    case False
    then show ?thesis using Cons.IH [of m b] by (auto simp: not_less intro: order_less_imp_le le_less_trans)
  qed
qed simp

lemma select_cpu_ok:
  assumes "mask_ok env (allowed_cpus p)" and "\<not> cpumask_empty env (allowed_cpus p)"
  shows "kds_select_cpu env s p < nr_cpu_ids env" "allowed_cpus p (kds_select_cpu env s p)"
proof -
  let ?cs = "cpus_of env (allowed_cpus p)"
  have mem: "allowed_cpus p c \<Longrightarrow> c \<in> set ?cs" for c using assms(1) by (simp add: cpus_of_def mask_ok_def)
  have fst: "cpumask_first env (allowed_cpus p) \<in> set ?cs" using assms(2) by (cases ?cs) (simp_all add: cpumask_first_def cpumask_empty_def)
  have ll: "least_loaded load ?cs m None = Some c \<Longrightarrow> c \<in> set ?cs" for load m c
    using least_loaded_spec [of ?cs load m None] by auto
  have "kds_select_cpu env s p \<in> set ?cs"
    using mem fst ll by (simp add: kds_select_cpu_def Let_def split: option.split)
  then show "kds_select_cpu env s p < nr_cpu_ids env" "allowed_cpus p (kds_select_cpu env s p)" by (auto simp: cpus_of_def)
qed

lemma select_cpu_state [simp]: "kds_select_cpu env (s\<lparr>procs := f\<rparr>) p = kds_select_cpu env s p" "kds_select_cpu env (s\<lparr>kds_next_pid := n\<rparr>) p = kds_select_cpu env s p"
  by (simp_all add: kds_select_cpu_def)

section \<open>Registration keeps the invariant\<close>

lemma sched_wf_unregistered:
  assumes "sched_wf env s" and "a \<notin> registered s"
  shows "sched_wf env (s\<lparr>procs := (procs s)(a := p)\<rparr>)" "registered (s\<lparr>procs := (procs s)(a := p)\<rparr>) = registered s"
proof -
  show "registered (s\<lparr>procs := (procs s)(a := p)\<rparr>) = registered s" by (simp add: registered_def)
  have "\<not> p_running (procs s b)" if "b \<in> registered s" for b
    using that queued_idle [OF sched_wf_queue [OF assms(1)]] by (auto simp: registered_def)
  then show "sched_wf env (s\<lparr>procs := (procs s)(a := p)\<rparr>)"
    by (intro sched_wf_procs [OF assms(1), where ps' = "(procs s)(a := p)"]) (use assms(2) in auto)
qed

lemma register_wf:
  assumes "sched_env_ok env" and "sched_wf env s" and "a \<notin> registered s" and "mask_ok env (allowed_cpus (procs s a))"
    and "kds_next_pid s + 1 \<noteq> 0" and "p_run (procs s a) \<noteq> None"
  shows "\<exists>s'. kds_proc_register env (Some a) s = (Inr (), s') \<and> sched_wf env s' \<and> registered s' = insert a (registered s)
    \<and> p_pid (procs s' a) = kds_next_pid s \<and> (\<forall>b. b \<noteq> a \<longrightarrow> procs s' b = procs s b)"
proof -
  let ?p = "(procs s a)\<lparr>p_state := KDS_PROC_STATE_READY, last_run_ns := 0, total_runtime_ns := 0, wait_time_ns := 0,
         p_pid := kds_next_pid s, p_running := False\<rparr>"
  let ?p2 = "?p\<lparr>allowed_cpus := if cpumask_empty env (allowed_cpus (procs s a)) then cpu_online_mask env else allowed_cpus (procs s a)\<rparr>"
  let ?t = "s\<lparr>kds_next_pid := kds_next_pid s + 1\<rparr>"
  define cpu where "cpu = kds_select_cpu env s ?p2"
  let ?p3 = "?p2\<lparr>p_cpu := int cpu, preferred_cpu := int cpu\<rparr>"
  let ?u = "?t\<lparr>procs := (procs s)(a := ?p3)\<rparr>"
  have lt: "kds_next_pid s < kds_next_pid s + 1" using assms(5) unatSuc [of "kds_next_pid s"] by (simp add: word_less_nat_alt add.commute)
  have m: "mask_ok env (allowed_cpus ?p2)" "\<not> cpumask_empty env (allowed_cpus ?p2)"
    using assms(1,4) by (simp_all add: sched_env_ok_def cpumask_empty_def)
  note sel = select_cpu_ok [OF m, of s, folded cpu_def]
  have run: "kds_proc_register env (Some a) s = rq_add env cpu a ?u"
  proof (cases "cpumask_empty env (allowed_cpus (procs s a))")
    case True
    then show ?thesis using assms(6) by (simp add: kds_proc_register_def call_defs Let_def cpu_def del: not_None_eq)
  next
    case False
    have "?p2 = ?p" using False by (intro kds_proc.equality) simp_all
    then show ?thesis using assms(6) False unfolding cpu_def by (simp only:) (simp add: kds_proc_register_def call_defs Let_def del: not_None_eq)
  qed
  have t: "sched_wf env ?t"
    by (rule sched_wf_procs [OF assms(2), where ps' = "procs s"])
      (use lt queued_idle [OF sched_wf_queue [OF assms(2)]] in \<open>auto simp: registered_def\<close>)
  have r: "registered ?t = registered s" by (simp add: registered_def)
  note u = sched_wf_unregistered [OF t, unfolded r, OF assms(3), of ?p3]
  have "sched_wf env (add_proc env cpu a ?u)" "registered (add_proc env cpu a ?u) = insert a (registered ?u)"
    by (rule sched_wf_add [OF assms(1)]; use u sel assms(2,3,6) lt in \<open>auto simp: sched_wf_def\<close>)+
  then show ?thesis using rq_add_run [of a ?u env cpu] u(2) assms(3) run by (simp add: add_proc_def [of env cpu a ?u])
qed

lemma unregister_wf:
  assumes "sched_env_ok env" and "sched_wf env s" and "a \<in> registered s"
  shows "\<exists>s'. kds_proc_unregister env a s = (Inr (), s') \<and> sched_wf env s' \<and> registered s' = registered s - {a} \<and> procs s' = procs s"
proof -
  note c = registered_cpu(3) [OF assms(2,3)]
  show ?thesis using rq_del_run [OF assms(2) c] sched_wf_del [OF assms(1,2) c]
    by (simp add: kds_proc_unregister_def call_defs) (simp add: del_proc_def)
qed

text \<open>Out of one queue, a new CPU, into another.\<close>

lemma migrate_wf:
  assumes "sched_env_ok env" and "sched_wf env s" and "a \<in> set (queue_of (kds_runqueues s c))" and "d < nr_cpu_ids env"
    and "same_role (procs s a) (p\<lparr>p_cpu := p_cpu (procs s a)\<rparr>)" "p_cpu p = int d" "\<not> p_running p"
  defines "t \<equiv> (del_proc env c a s)\<lparr>procs := (procs s)(a := p)\<rparr>"
  shows "a \<notin> registered t" "sched_wf env (add_proc env d a t)" "registered (add_proc env d a t) = registered s"
proof -
  have ar: "a \<in> registered s" using assms(3) by (auto simp: registered_def)
  note w = sched_wf_del [OF assms(1-3)]
  have ps: "procs (del_proc env c a s) = procs s" "kds_next_pid t = kds_next_pid s" by (simp_all add: del_proc_def t_def)
  have t: "sched_wf env t" "registered t = registered s - {a}"
    using sched_wf_unregistered [OF w(1), of a p] w(2) ps(1) by (simp_all add: t_def)
  then show n: "a \<notin> registered t" by simp
  have run: "p_run (procs s a) \<noteq> None" using sched_wf_queue [OF assms(2), of c] assms(3) by (simp add: queue_wf_def)
  have pid: "p_pid p = p_pid (procs s a)" "p_run p = p_run (procs s a)" using assms(5) by (simp_all add: same_role_def)
  have "\<forall>b \<in> registered t. p_pid (procs s b) \<noteq> p_pid (procs s a)"
    using assms(2) ar t(2) by (auto simp: sched_wf_def inj_on_def)
  then have q: "\<forall>b \<in> registered t. p_pid (procs t b) \<noteq> p_pid (procs t a)" using t(2) pid by (auto simp: t_def)
  have r: "p_pid (procs t a) < kds_next_pid t" using assms(2) ar pid ps(2) by (simp add: sched_wf_def t_def)
  have "p_cpu (procs t a) = int d" "p_run (procs t a) \<noteq> None" "\<not> p_running (procs t a)" using assms(6,7) run pid by (simp_all add: t_def)
  note add = sched_wf_add [OF assms(1) t(1) n assms(4) this r q]
  show "sched_wf env (add_proc env d a t)" by (rule add(1))
  show "registered (add_proc env d a t) = registered s" using add(2) t(2) ar by auto
qed

lemma registered_queue:
  assumes "sched_wf env s" and "a \<in> registered s"
  obtains c where "a \<in> set (queue_of (kds_runqueues s c))" "c < nr_cpu_ids env" "nat (p_cpu (procs s a)) = c" "\<not> p_running (procs s a)"
  using registered_cpu [OF assms] queued_idle [OF sched_wf_queue [OF assms(1)]] by blast

lemma affinity_wf:
  assumes "sched_env_ok env" and "sched_wf env s" and "a \<in> registered s" and "mask_ok env m"
  shows "\<exists>r s'. kds_proc_set_affinity env (Some a) m s = (r, s') \<and> sched_wf env s' \<and> registered s' = registered s
    \<and> (if cpumask_empty env m then r = fails EINVAL \<and> s' = s
       else r = Inr () \<and> allowed_cpus (procs s' a) = m \<and> m (nat (p_cpu (procs s' a))) \<and> (\<forall>b. b \<noteq> a \<longrightarrow> procs s' b = procs s b))"
proof -
  obtain c where c: "a \<in> set (queue_of (kds_runqueues s c))" "nat (p_cpu (procs s a)) = c" "\<not> p_running (procs s a)"
    using registered_queue [OF assms(2,3)] by metis
  consider "cpumask_empty env m" | "\<not> cpumask_empty env m" "m c" | "\<not> cpumask_empty env m" "\<not> m c" by blast
  then show ?thesis
  proof cases
    case 1
    then show ?thesis using assms(2) by (simp add: kds_proc_set_affinity_def call_defs)
  next
    case 2
    let ?s = "proc_upd a (\<lambda>p. p\<lparr>allowed_cpus := m\<rparr>) s"
    have "sched_wf env ?s"
      by (rule sched_wf_procs [OF assms(2), where ps' = "procs ?s"])
        (use queued_idle [OF sched_wf_queue [OF assms(2)]] in \<open>auto simp: registered_def same_role_def\<close>)
    moreover have "registered ?s = registered s" by (simp add: registered_def)
    ultimately show ?thesis using 2 c by (simp add: kds_proc_set_affinity_def call_defs Let_def)
  next
    case 3
    define d where "d = kds_select_cpu env (del_proc env c a s) ((procs s a)\<lparr>allowed_cpus := m\<rparr>)"
    let ?p = "(procs s a)\<lparr>allowed_cpus := m, p_cpu := int d\<rparr>"
    let ?t = "(del_proc env c a s)\<lparr>procs := (procs s)(a := ?p)\<rparr>"
    have d: "d < nr_cpu_ids env" "m d"
      using select_cpu_ok [of env "(procs s a)\<lparr>allowed_cpus := m\<rparr>" "del_proc env c a s"] assms(4) 3 by (simp_all add: d_def)
    note M = migrate_wf [OF assms(1,2) c(1) d(1), of ?p]
    have ps: "procs (del_proc env c a s) = procs s" by (simp add: del_proc_def)
    let ?u = "add_proc env d a ?t"
    let ?v = "?u\<lparr>kds_stats := (kds_stats ?u)\<lparr>migrations := migrations (kds_stats ?u) + 1\<rparr>\<rparr>"
    have run: "kds_proc_set_affinity env (Some a) m s = (Inr (), ?v)"
      using 3 c(2) rq_del_run [OF assms(2) c(1)] rq_add_run [of a ?t env d] M(1) c(3)
      by (simp add: kds_proc_set_affinity_def call_defs Let_def ps d_def [symmetric] same_role_def)
    have "sched_wf env ?v" "registered ?v = registered s"
      using M(2,3) c(3) by (auto simp: sched_wf_def same_role_def registered_def)
    then show ?thesis using 3 d run by (simp add: add_proc_def [of env d a])
  qed
qed

section \<open>One round of the scheduler\<close>

definition chosen :: "'z sched_state_scheme \<Rightarrow> nat \<Rightarrow> nat option" where
  "chosen s c = pick_best (procs s) (system_procs (kds_runqueues s c)) INT_MIN None"

lemma pick_best_spec:
  assumes "\<forall>a \<in> set xs. \<not> p_running (ps a)"
  shows "(\<exists>ys a zs. xs = ys @ a # zs \<and> pick_best ps xs m b = Some a \<and> m < sint (dynamic_prio (ps a))
       \<and> (\<forall>x \<in> set xs. sint (dynamic_prio (ps x)) \<le> sint (dynamic_prio (ps a))) \<and> (\<forall>x \<in> set ys. sint (dynamic_prio (ps x)) < sint (dynamic_prio (ps a))))
    \<or> pick_best ps xs m b = b \<and> (\<forall>x \<in> set xs. sint (dynamic_prio (ps x)) \<le> m)"
  using assms
proof (induction xs arbitrary: m b)
  case (Cons x xs)
  let ?k = "\<lambda>a. sint (dynamic_prio (ps a))"
  have nr: "\<not> p_running (ps x)" "\<forall>a \<in> set xs. \<not> p_running (ps a)" using Cons.prems by auto
  show ?case
  proof (cases "m < ?k x")
    case True
    have e: "pick_best ps (x # xs) m b = pick_best ps xs (?k x) (Some x)" using nr True by (simp add: kds_calc_dynamic_prio_def)
    from Cons.IH [OF nr(2), of "?k x" "Some x"] show ?thesis
    proof
      assume "\<exists>ys a zs. xs = ys @ a # zs \<and> pick_best ps xs (?k x) (Some x) = Some a \<and> ?k x < ?k a \<and> (\<forall>y \<in> set xs. ?k y \<le> ?k a) \<and> (\<forall>y \<in> set ys. ?k y < ?k a)"
      then obtain ys a zs where "xs = ys @ a # zs" "pick_best ps xs (?k x) (Some x) = Some a" "?k x < ?k a" "\<forall>y \<in> set xs. ?k y \<le> ?k a" "\<forall>y \<in> set ys. ?k y < ?k a" by blast
      then show ?thesis using True unfolding e by (intro disjI1 exI [of _ "x # ys"] exI [of _ a] exI [of _ zs]) auto
    next
      assume "pick_best ps xs (?k x) (Some x) = Some x \<and> (\<forall>y \<in> set xs. ?k y \<le> ?k x)"
      then show ?thesis using True unfolding e by (intro disjI1 exI [of _ "[]"] exI [of _ x] exI [of _ xs]) auto
    qed
  next
    case False
    have e: "pick_best ps (x # xs) m b = pick_best ps xs m b" using nr False by (simp add: kds_calc_dynamic_prio_def)
    from Cons.IH [OF nr(2), of m b] show ?thesis
    proof
      assume "\<exists>ys a zs. xs = ys @ a # zs \<and> pick_best ps xs m b = Some a \<and> m < ?k a \<and> (\<forall>y \<in> set xs. ?k y \<le> ?k a) \<and> (\<forall>y \<in> set ys. ?k y < ?k a)"
      then obtain ys a zs where "xs = ys @ a # zs" "pick_best ps xs m b = Some a" "m < ?k a" "\<forall>y \<in> set xs. ?k y \<le> ?k a" "\<forall>y \<in> set ys. ?k y < ?k a" by blast
      then show ?thesis using False unfolding e by (intro disjI1 exI [of _ "x # ys"] exI [of _ a] exI [of _ zs]) auto
    next
      assume "pick_best ps xs m b = b \<and> (\<forall>y \<in> set xs. ?k y \<le> m)"
      then show ?thesis using False unfolding e by auto
    qed
  qed
qed simp

text \<open>What a run function does to the scheduler: nothing. It may change everything else, and it returns.\<close>

definition run_keeps :: "'z sched_state_scheme run_call \<Rightarrow> bool" where
  "run_keeps run \<longleftrightarrow> (\<forall>f a sl s. \<exists>r s'. run f a sl s = (Inr r, s') \<and> kds_runqueues s' = kds_runqueues s \<and> procs s' = procs s
     \<and> kds_next_pid s' = kds_next_pid s \<and> kds_stats s' = kds_stats s)"

text \<open>The same of the calls that return; a call that faults or panics has stopped the kernel.\<close>

definition kept_sched :: "'z sched_state_scheme \<Rightarrow> 'z sched_state_scheme \<Rightarrow> bool" where
  "kept_sched s s' \<longleftrightarrow> kds_runqueues s' = kds_runqueues s \<and> procs s' = procs s \<and> kds_next_pid s' = kds_next_pid s \<and> kds_stats s' = kds_stats s"

definition run_safe :: "'z sched_state_scheme run_call \<Rightarrow> bool" where
  "run_safe run \<longleftrightarrow> (\<forall>f a sl s r s'. run f a sl s = (Inr r, s') \<longrightarrow> kept_sched s s')"

lemma run_keeps_at: "run_keeps run \<Longrightarrow> \<exists>r s'. run f a sl s = (Inr r, s') \<and> kept_sched s s'"
  by (simp add: run_keeps_def kept_sched_def)

lemma run_keeps_safe: "run_keeps run \<Longrightarrow> run_safe run"
  unfolding run_safe_def by (metis run_keeps_at prod.inject sum.inject(2))

lemma age_pid [simp]: "p_pid (age_proc e i p) = p_pid p"
  by (simp add: age_proc_def)

definition aged :: "u64 \<Rightarrow> nat \<Rightarrow> nat list \<Rightarrow> (nat \<Rightarrow> kds_proc) \<Rightarrow> nat \<Rightarrow> kds_proc" where
  "aged e a xs ps b = (if b \<in> set xs then age_proc e (p_pid (ps a)) (ps b) else ps b)"

lemma age_each:
  "distinct xs \<Longrightarrow> for_each (\<lambda>b. smod (\<lambda>s. proc_upd b (age_proc e (p_pid (procs s a))) s)) xs s = (Inr (), s\<lparr>procs := aged e a xs (procs s)\<rparr>)"
proof (induction xs arbitrary: s)
  case Nil
  have "aged e a [] (procs s) = procs s" by (simp add: aged_def fun_eq_iff)
  then show ?case by (simp add: sret_def)
next
  case (Cons x xs)
  have "aged e a xs ((procs s)(x := age_proc e (p_pid (procs s a)) (procs s x))) = aged e a (x # xs) (procs s)"
    using Cons.prems by (auto simp: aged_def fun_eq_iff)
  then show ?case using Cons by (simp add: sbind_def smod_def del: fun_upd_apply)
qed

lemma chosen_spec:
  assumes "sched_wf env s"
  shows "chosen s c = Some a \<Longrightarrow> a \<in> set (system_procs (kds_runqueues s c))
      \<and> (\<forall>b \<in> set (system_procs (kds_runqueues s c)). sint (dynamic_prio (procs s b)) \<le> sint (dynamic_prio (procs s a)))"
    and "chosen s c = None \<Longrightarrow> b \<in> set (system_procs (kds_runqueues s c)) \<Longrightarrow> sint (dynamic_prio (procs s b)) \<le> INT_MIN"
proof -
  have "\<forall>b \<in> set (system_procs (kds_runqueues s c)). \<not> p_running (procs s b)"
    using queued_idle [OF sched_wf_queue [OF assms, of c]] by (simp add: queue_of_def)
  note P = pick_best_spec [OF this, of INT_MIN None, folded chosen_def]
  show "chosen s c = Some a \<Longrightarrow> a \<in> set (system_procs (kds_runqueues s c))
      \<and> (\<forall>b \<in> set (system_procs (kds_runqueues s c)). sint (dynamic_prio (procs s b)) \<le> sint (dynamic_prio (procs s a)))"
    and "chosen s c = None \<Longrightarrow> b \<in> set (system_procs (kds_runqueues s c)) \<Longrightarrow> sint (dynamic_prio (procs s b)) \<le> INT_MIN"
    using P by auto
qed

lemma schedule_idle: "sched_wf env s \<Longrightarrow> chosen s c = None \<Longrightarrow> kds_proc_schedule env run c sl s = (Inr (), s)"
  using sched_wf_queue [of env s c] by (simp add: kds_proc_schedule_def chosen_def call_defs queue_wf_def Let_def)

definition after_round :: "u64 \<Rightarrow> nat \<Rightarrow> nat list \<Rightarrow> (nat \<Rightarrow> kds_proc) \<Rightarrow> nat \<Rightarrow> kds_proc" where
  "after_round e a xs ps b =
     (if b = a then (ps a)\<lparr>p_state := KDS_PROC_STATE_RUN, last_run_ns := e, total_runtime_ns := total_runtime_ns (ps a) + e, wait_time_ns := 0\<rparr>
      else if b \<in> set xs then (ps b)\<lparr>wait_time_ns := wait_time_ns (ps b) + e, dynamic_prio := dynamic_prio (ps b) + 1\<rparr>
      else ps b)"

text \<open>The state in which the chosen process runs.\<close>

definition running :: "nat \<Rightarrow> nat \<Rightarrow> 'z sched_state_scheme \<Rightarrow> 'z sched_state_scheme" where
  "running c a s = (rq_upd c (\<lambda>q. q\<lparr>curr_proc := Some a\<rparr>) (proc_upd a (\<lambda>p. p\<lparr>p_running := True, p_state := KDS_PROC_STATE_RUN\<rparr>) s))\<lparr>clock := Suc (clock s)\<rparr>"

lemma schedule_run_at:
  assumes "sched_wf env s" and "chosen s c = Some a" and f: "p_run (procs s a) = Some f" and "run f a sl (running c a s) = (Inr r, s3)" and "kept_sched (running c a s) s3"
  shows "\<exists>e s'. kds_proc_schedule env run c sl s = (Inr (), s')
    \<and> procs s' = after_round e a (system_procs (kds_runqueues s c)) (procs s)
    \<and> kds_runqueues s' = (kds_runqueues s)(c := (kds_runqueues s c)\<lparr>rq_total_runtime_ns := rq_total_runtime_ns (kds_runqueues s c) + e\<rparr>)
    \<and> kds_next_pid s' = kds_next_pid s
    \<and> kds_stats s' = (kds_stats s)\<lparr>total_schedules := total_schedules (kds_stats s) + 1\<rparr>"
proof -
  let ?q = "kds_runqueues s c"
  have a: "a \<in> set (system_procs ?q)" using chosen_spec(1) [OF assms(1,2)] by blast
  have q: "curr_proc ?q = None" "distinct (system_procs ?q)" "\<not> p_running (procs s a)"
    using sched_wf_queue [OF assms(1), of c] a by (auto simp: queue_wf_def queue_of_def)
  let ?s1 = "rq_upd c (\<lambda>q. q\<lparr>curr_proc := Some a\<rparr>) (proc_upd a (\<lambda>p. p\<lparr>p_running := True, p_state := KDS_PROC_STATE_RUN\<rparr>) s)"
  let ?s2 = "?s1\<lparr>clock := Suc (clock ?s1)\<rparr>"
  have r: "run f a sl ?s2 = (Inr r, s3)" "kds_runqueues s3 = kds_runqueues ?s2" "procs s3 = procs ?s2"
    "kds_next_pid s3 = kds_next_pid ?s2" "kds_stats s3 = kds_stats ?s2"
    using assms(4,5) by (simp_all add: running_def kept_sched_def)
  define e where "e = ktime env (clock s3) - ktime env (clock s)"
  have pid: "p_pid (procs s b) \<noteq> p_pid (procs s a)" if "b \<in> set (system_procs ?q)" "b \<noteq> a" for b
  proof -
    have "b \<in> registered s" "a \<in> registered s" using a that by (auto simp: registered_def queue_of_def)
    then show ?thesis using assms(1) that(2) by (auto simp: sched_wf_def inj_on_def)
  qed
  let ?g = "aged e a (system_procs ?q)"
  have g: "(?g (procs s3))(a := (?g (procs s3) a)\<lparr>p_running := False\<rparr>) = after_round e a (system_procs ?q) (procs s)"
  proof
    fix b
    show "((?g (procs s3))(a := (?g (procs s3) a)\<lparr>p_running := False\<rparr>)) b = after_round e a (system_procs ?q) (procs s) b"
      using pid [of b] a q(3) by (auto simp: after_round_def aged_def r(3) age_proc_def intro!: kds_proc.equality)
  qed
  have w: "kds_update_wait_time c e a (s3\<lparr>clock := Suc (clock s3)\<rparr>) = (Inr (), s3\<lparr>clock := Suc (clock s3), procs := ?g (procs s3)\<rparr>)"
    using age_each [OF q(2), of e a "s3\<lparr>clock := Suc (clock s3)\<rparr>"] by (simp add: kds_update_wait_time_def sbind_def sget_def r(2))
  have cp: "?q\<lparr>curr_proc := None, rq_total_runtime_ns := x\<rparr> = ?q\<lparr>rq_total_runtime_ns := x\<rparr>" for x
    using q(1) by (intro kds_runqueue.equality) simp_all
  have ch: "pick_best (procs s) (system_procs ?q) INT_MIN None = Some a" using assms(2) by (simp add: chosen_def)
  have "\<exists>s'. kds_proc_schedule env run c sl s = (Inr (), s') \<and> procs s' = (?g (procs s3))(a := (?g (procs s3) a)\<lparr>p_running := False\<rparr>)
    \<and> kds_runqueues s' = (kds_runqueues s)(c := ?q\<lparr>curr_proc := None, rq_total_runtime_ns := rq_total_runtime_ns ?q + e\<rparr>)
    \<and> kds_next_pid s' = kds_next_pid s \<and> kds_stats s' = (kds_stats s)\<lparr>total_schedules := total_schedules (kds_stats s) + 1\<rparr>"
    using q(1) ch f r w
    by (simp add: kds_proc_schedule_def sbind_def sget_def smod_def ktime_get_ns_def Let_def e_def [symmetric] del: fun_upd_apply) (simp add: fun_upd_def fun_eq_iff)
  then show ?thesis unfolding g cp by blast
qed

lemma chosen_body:
  assumes "sched_wf env s" and "chosen s c = Some a"
  obtains f where "p_run (procs s a) = Some f"
proof -
  have "a \<in> set (queue_of (kds_runqueues s c))" using chosen_spec(1) [OF assms] by (simp add: queue_of_def)
  then have "p_run (procs s a) \<noteq> None" using sched_wf_queue [OF assms(1), of c] unfolding queue_wf_def by blast
  then show thesis using that by blast
qed

lemma schedule_run:
  assumes "sched_wf env s" and "run_keeps run" and "chosen s c = Some a"
  shows "\<exists>e s'. kds_proc_schedule env run c sl s = (Inr (), s')
    \<and> procs s' = after_round e a (system_procs (kds_runqueues s c)) (procs s)
    \<and> kds_runqueues s' = (kds_runqueues s)(c := (kds_runqueues s c)\<lparr>rq_total_runtime_ns := rq_total_runtime_ns (kds_runqueues s c) + e\<rparr>)
    \<and> kds_next_pid s' = kds_next_pid s
    \<and> kds_stats s' = (kds_stats s)\<lparr>total_schedules := total_schedules (kds_stats s) + 1\<rparr>"
proof -
  obtain f where f: "p_run (procs s a) = Some f" using chosen_body [OF assms(1,3)] .
  obtain r s3 where "run f a sl (running c a s) = (Inr r, s3)" "kept_sched (running c a s) s3" using run_keeps_at [OF assms(2)] by blast
  from schedule_run_at [where run = run, OF assms(1,3) f this] show ?thesis .
qed

text \<open>A round that returns has got a result from the body of the chosen process.\<close>

lemma schedule_returns:
  assumes "sched_wf env s" and "chosen s c = Some a" and "p_run (procs s a) = Some f" and "kds_proc_schedule env run c sl s = (Inr x, s')"
  shows "\<exists>r s3. run f a sl (running c a s) = (Inr r, s3)"
proof -
  have ch: "pick_best (procs s) (system_procs (kds_runqueues s c)) INT_MIN None = Some a" using assms(2) by (simp add: chosen_def)
  have q: "curr_proc (kds_runqueues s c) = None" using sched_wf_queue [OF assms(1), of c] by (simp add: queue_wf_def)
  let ?s2 = "(rq_upd c (\<lambda>q. q\<lparr>curr_proc := Some a\<rparr>) (proc_upd a (\<lambda>p. p\<lparr>p_running := True, p_state := KDS_PROC_STATE_RUN\<rparr>) s))\<lparr>clock := Suc (clock s)\<rparr>"
  have "fst (run f a sl ?s2) \<noteq> Inl e" for e
    using assms(3,4) ch q by (auto simp: kds_proc_schedule_def sbind_def sget_def smod_def ktime_get_ns_def Let_def split: prod.splits sum.splits)
  then show ?thesis by (cases "run f a sl ?s2"; cases "fst (run f a sl ?s2)") (auto simp: running_def)
qed

lemma queue_wf_runtime [simp]: "queue_wf env ps c (q\<lparr>rq_total_runtime_ns := x\<rparr>) = queue_wf env ps c q"
  by (simp add: queue_wf_def queue_of_def)

lemma schedule_wf:
  assumes "sched_wf env s" and "run_safe run" and "kds_proc_schedule env run c sl s = (Inr x, s')"
  shows "sched_wf env s' \<and> registered s' = registered s"
proof (cases "chosen s c")
  case None
  then show ?thesis using schedule_idle [OF assms(1) None, of run sl] assms(1,3) by simp
next
  case (Some a)
  let ?q = "kds_runqueues s c"
  obtain f where f: "p_run (procs s a) = Some f" using chosen_body [OF assms(1) Some] .
  obtain r s3 where r: "run f a sl (running c a s) = (Inr r, s3)" using schedule_returns [OF assms(1) Some f assms(3)] by blast
  then have "kept_sched (running c a s) s3" using assms(2) unfolding run_safe_def by blast
  from schedule_run_at [where run = run, OF assms(1) Some f r this] assms(3)
  obtain e where s': "procs s' = after_round e a (system_procs ?q) (procs s)"
    "kds_runqueues s' = (kds_runqueues s)(c := ?q\<lparr>rq_total_runtime_ns := rq_total_runtime_ns ?q + e\<rparr>)" "kds_next_pid s' = kds_next_pid s" by auto
  have qo: "queue_of (kds_runqueues s' d) = queue_of (kds_runqueues s d)" for d by (simp add: s'(2) queue_of_def)
  have r: "registered s' = registered s" by (simp add: registered_def qo)
  have ro: "same_role (procs s b) (procs s' b) \<and> p_running (procs s' b) = p_running (procs s b)" for b
    by (simp add: s'(1) after_round_def same_role_def)
  have "queue_wf env (procs s) d (kds_runqueues s' d)" for d
    using sched_wf_queue [OF assms(1), of d] by (cases "d = c") (simp_all add: s'(2))
  then have "queue_wf env (procs s') d (kds_runqueues s' d)" for d
    by (rule queue_wf_procs) (use ro queued_idle [OF sched_wf_queue [OF assms(1), of d]] qo in auto)
  moreover have "p_pid (procs s' b) = p_pid (procs s b)" for b using ro by (simp add: same_role_def)
  ultimately have "sched_wf env s'" using assms(1) unfolding sched_wf_def r by (simp add: s'(3))
  then show ?thesis using r by blast
qed

section \<open>Load balancing\<close>

lemma first_movable_spec:
  "first_movable ps d xs = (case filter (\<lambda>a. \<not> p_running (ps a) \<and> allowed_cpus (ps a) d) xs of [] \<Rightarrow> None | a # _ \<Rightarrow> Some a)"
  by (induction xs) auto

lemma first_movable_in: "first_movable ps d xs = Some a \<Longrightarrow> a \<in> set xs"
  by (induction xs) (auto split: if_splits)

abbreviation load :: "'z sched_state_scheme \<Rightarrow> nat \<Rightarrow> u32" where
  "load s c \<equiv> nr_running (kds_runqueues s c)"

lemma balance_wf:
  assumes "sched_env_ok env" and "sched_wf env s"
    and "most_loaded (load s) (cpus_of env (cpu_online_mask env)) 0 None = Some hi"
    and "least_loaded (load s) (cpus_of env (cpu_online_mask env)) (- 1) None = Some lo"
    and "KDS_LOAD_BALANCE_THRESHOLD < load s hi - load s lo" and "first_movable (procs s) lo (system_procs (kds_runqueues s hi)) = Some a"
  shows "\<exists>s'. kds_load_balance env s = (Inr (), s') \<and> sched_wf env s' \<and> registered s' = registered s
    \<and> load s' hi = load s hi - 1 \<and> load s' lo = load s lo + 1 \<and> p_cpu (procs s' a) = int lo
    \<and> (\<forall>c. c \<noteq> hi \<and> c \<noteq> lo \<longrightarrow> kds_runqueues s' c = kds_runqueues s c)"
proof -
  have a: "a \<in> set (system_procs (kds_runqueues s hi))" using first_movable_in [OF assms(6)] .
  have aq: "a \<in> set (queue_of (kds_runqueues s hi))" using a by (simp add: queue_of_def)
  have k: "p_kind (procs s a) = KDS_PROC_SYSTEM" "p_linked (procs s a)" "\<not> p_running (procs s a)"
    using registered_kind [OF assms(2) aq] a queued_idle [OF sched_wf_queue [OF assms(2)] aq] by auto
  have hl: "hi \<noteq> lo" using assms(5) by (auto simp: KDS_LOAD_BALANCE_THRESHOLD_def)
  have lo: "lo < nr_cpu_ids env"
    using least_loaded_spec [of "cpus_of env (cpu_online_mask env)" "load s" "- 1" None] assms(4) by (auto simp: cpus_of_def)
  let ?p = "(procs s a)\<lparr>p_cpu := int lo\<rparr>"
  let ?t = "(del_proc env hi a s)\<lparr>procs := (procs s)(a := ?p)\<rparr>"
  note M = migrate_wf [OF assms(1,2) aq lo, of ?p]
  have M': "a \<notin> registered ?t" "sched_wf env (add_proc env lo a ?t)" "registered (add_proc env lo a ?t) = registered s"
    using M k(3) by (simp_all add: same_role_def)
  let ?d = "rq_upd hi (\<lambda>q. q\<lparr>nr_running := nr_running q - 1\<rparr>) (rq_upd hi (\<lambda>q. q\<lparr>system_procs := filter (\<lambda>b. b \<noteq> a) (system_procs q)\<rparr>) s)"
  have dq: "?d = del_proc env hi a s" using k(1) by (simp add: del_proc_def del_queue_def)
  have ns: "\<not> in_some_list env ?d a"
    using not_in_list [OF M'(1), of env] unfolding dq by (simp add: in_some_list_def)
  let ?u = "add_proc env lo a ?t"
  let ?v = "?u\<lparr>kds_stats := (kds_stats ?u)\<lparr>load_balances := load_balances (kds_stats ?u) + 1, migrations := migrations (kds_stats ?u) + 1\<rparr>\<rparr>"
  have run: "kds_load_balance env s = (Inr (), ?v)"
  proof -
    have pl: "(procs s a)\<lparr>p_linked := True, p_cpu := int lo\<rparr> = (procs s a)\<lparr>p_cpu := int lo, p_linked := True\<rparr>"
      by (intro kds_proc.equality) simp_all
    have th: "\<not> load s hi - load s lo \<le> KDS_LOAD_BALANCE_THRESHOLD" using assms(5) by simp
    have "kds_load_balance env s =
      sbind (list_add_tail env a lo) (\<lambda>_.
             sbind (smod (rq_upd lo (\<lambda>q. q\<lparr>nr_running := nr_running q + 1\<rparr>))) (\<lambda>_.
             sbind (smod (proc_upd a (\<lambda>p. p\<lparr>p_cpu := int lo\<rparr>))) (\<lambda>_.
             smod (\<lambda>s. s\<lparr>kds_stats := (kds_stats s)\<lparr>load_balances := load_balances (kds_stats s) + 1,
                 migrations := migrations (kds_stats s) + 1\<rparr>\<rparr>)))) ?d"
      using assms(3,4,6) th list_del_init_run [OF assms(2) a]
      by (simp add: kds_load_balance_def sbind_def sget_def smod_def Let_def)
    also have "\<dots> = (Inr (), ?v)"
      using ns hl k(1,2) by (simp add: list_add_tail_def call_defs add_proc_def add_queue_def del_proc_def del_queue_def fun_upd_twist) (simp only: pl)
    finally show ?thesis .
  qed
  have "sched_wf env ?v" "registered ?v = registered s"
    using M'(2,3) by (auto simp: sched_wf_def registered_def)
  then show ?thesis using run hl k(1) by (simp add: add_proc_def add_queue_def del_proc_def del_queue_def)
qed

section \<open>Runs of the scheduler\<close>

text \<open>
  The calls the rest of the module makes, in any order: a caller fills an unregistered process structure, registers,
  unregisters or migrates a process; a worker schedules one round on its CPU; the load is balanced. A step is a call
  that returns: a round whose process body faults or panics has stopped the kernel, and \<^verbatim>\<open>kds_load_balance\<close> does not
  return from the use of a list head as a process when it finds nothing to move (\<open>load_balance_corrupts\<close>). The steps do
  not overlap.
\<close>

inductive sched_step :: "sched_env \<Rightarrow> 'z sched_state_scheme run_call \<Rightarrow> 'z sched_state_scheme \<Rightarrow> 'z sched_state_scheme \<Rightarrow> bool"
  for env :: sched_env and run :: "'z sched_state_scheme run_call" where
  fill: "a \<notin> registered s \<Longrightarrow> sched_step env run s (s\<lparr>procs := (procs s)(a := p)\<rparr>)"
| reg: "a \<notin> registered s \<Longrightarrow> mask_ok env (allowed_cpus (procs s a)) \<Longrightarrow> kds_next_pid s + 1 \<noteq> 0 \<Longrightarrow>
    kds_proc_register env (Some a) s = (r, s') \<Longrightarrow> sched_step env run s s'"
| unreg: "a \<in> registered s \<Longrightarrow> kds_proc_unregister env a s = (r, s') \<Longrightarrow> sched_step env run s s'"
| affinity: "a \<in> registered s \<Longrightarrow> mask_ok env m \<Longrightarrow> kds_proc_set_affinity env (Some a) m s = (r, s') \<Longrightarrow> sched_step env run s s'"
| round: "kds_proc_schedule env run c sl s = (Inr (), s') \<Longrightarrow> sched_step env run s s'"
| balance: "kds_load_balance env s = (Inr (), s') \<Longrightarrow> sched_step env run s s'"

inductive_cases sched_step_cases: "sched_step env run s s'"

lemma balance_wf_all:
  assumes "sched_env_ok env" and "sched_wf env s" and "kds_load_balance env s = (Inr (), s')"
  shows "sched_wf env s' \<and> registered s' = registered s"
proof -
  let ?cs = "cpus_of env (cpu_online_mask env)"
  consider hi lo a where "most_loaded (load s) ?cs 0 None = Some hi" "least_loaded (load s) ?cs (- 1) None = Some lo"
      "KDS_LOAD_BALANCE_THRESHOLD < load s hi - load s lo" "first_movable (procs s) lo (system_procs (kds_runqueues s hi)) = Some a"
    | "s' = s"
    using assms(3)
    by (auto simp: kds_load_balance_def sbind_def sget_def sret_def sfail_def Let_def not_le split: option.splits if_splits)
  then show ?thesis
  proof cases
    case 1
    then show ?thesis using balance_wf [OF assms(1,2) 1] assms(3) by auto
  qed (simp add: assms(2))
qed

lemma register_einval: "p_run (procs s a) = None \<Longrightarrow> kds_proc_register env (Some a) s = (fails EINVAL, s)"
  by (simp add: kds_proc_register_def call_defs)

lemma sched_step_wf:
  assumes "sched_step env run s s'" and "sched_env_ok env" and "run_safe run" and "sched_wf env s"
  shows "sched_wf env s'"
  using assms(1)
proof cases
  case (fill a p)
  then show ?thesis using sched_wf_unregistered [OF assms(4)] by simp
next
  case (reg a r)
  then show ?thesis using register_wf [OF assms(2,4) reg(1-3)] register_einval [of s a env] assms(4)
    by (cases "p_run (procs s a) = None") auto
next
  case (unreg a r)
  then show ?thesis using unregister_wf [OF assms(2,4) unreg(1)] by auto
next
  case (affinity a m r)
  then show ?thesis using affinity_wf [OF assms(2,4) affinity(1,2)] by auto
next
  case (round c sl)
  then show ?thesis using schedule_wf [OF assms(4,3)] by blast
next
  case balance
  then show ?thesis using balance_wf_all [OF assms(2,4)] by blast
qed

definition emptied :: "nat list \<Rightarrow> (nat \<Rightarrow> kds_runqueue) \<Rightarrow> nat \<Rightarrow> kds_runqueue" where
  "emptied cs qs c = (if c \<in> set cs then empty_runqueue else qs c)"

lemma init_each:
  "for_each (\<lambda>c. smod (rq_upd c (\<lambda>_. empty_runqueue))) cs s = (Inr (), s\<lparr>kds_runqueues := emptied cs (kds_runqueues s)\<rparr>)"
proof (induction cs arbitrary: s)
  case Nil
  have "emptied [] (kds_runqueues s) = kds_runqueues s" by (simp add: emptied_def fun_eq_iff)
  then show ?case by (simp add: sret_def)
next
  case (Cons c cs)
  have "emptied cs ((kds_runqueues s)(c := empty_runqueue)) = emptied (c # cs) (kds_runqueues s)" by (auto simp: emptied_def fun_eq_iff)
  then show ?case using Cons by (simp add: sbind_def smod_def del: fun_upd_apply)
qed

lemma sched_init_wf:
  assumes "\<And>c. c \<notin> set (cpus_of env (cpu_possible_mask env)) \<Longrightarrow> kds_runqueues s c = empty_runqueue"
  shows "\<exists>s'. kds_sched_init env s = (Inr (), s') \<and> sched_wf env s' \<and> registered s' = {}"
proof -
  have "emptied (cpus_of env (cpu_possible_mask env)) (kds_runqueues s) = (\<lambda>_. empty_runqueue)"
    using assms by (auto simp: emptied_def)
  then have "kds_sched_init env s = (Inr (), s\<lparr>kds_runqueues := \<lambda>_. empty_runqueue, kds_stats := \<lparr>total_schedules = 0, load_balances = 0, migrations = 0\<rparr>\<rparr>)"
    (is "_ = (_, ?s)") unfolding kds_sched_init_def sbind_def init_each by (simp add: smod_def)
  moreover have "registered ?s = {}" by (simp add: registered_def queue_of_def empty_runqueue_def)
  moreover from this have "sched_wf env ?s" by (simp add: sched_wf_def queue_wf_def queue_of_def empty_runqueue_def)
  ultimately show ?thesis by blast
qed

text \<open>Every sequence of steps after the start-up keeps the queues consistent, for process bodies that keep the scheduler's state.\<close>

lemma sched_runs_wf:
  assumes "sched_env_ok env" and "run_safe run" and "\<And>c. c \<notin> set (cpus_of env (cpu_possible_mask env)) \<Longrightarrow> kds_runqueues s0 c = empty_runqueue"
    and "kds_sched_init env s0 = (r, s1)" and "(sched_step env run)\<^sup>*\<^sup>* s1 s"
  shows "sched_wf env s"
proof -
  have "sched_wf env s1" using sched_init_wf [of env s0] assms(3,4) by auto
  with assms(5) show ?thesis by induction (use sched_step_wf [OF _ assms(1,2)] in blast)+
qed

text \<open>One round runs the first of the processes with the highest dynamic priority on its CPU, once and with the whole
  slice; the process that ran keeps its priority and gets its waiting time reset, every other process of the queue
  gains one priority point and the elapsed time; with no process above the smallest integer nothing happens.\<close>

theorem schedule_round:
  assumes "sched_wf env s" and "run_keeps run"
  shows "(chosen s c = None \<longrightarrow> kds_proc_schedule env run c sl s = (Inr (), s))
    \<and> (\<forall>a. chosen s c = Some a \<longrightarrow> a \<in> set (system_procs (kds_runqueues s c))
        \<and> (\<forall>b \<in> set (system_procs (kds_runqueues s c)). sint (dynamic_prio (procs s b)) \<le> sint (dynamic_prio (procs s a)))
        \<and> (\<exists>e s'. kds_proc_schedule env run c sl s = (Inr (), s')
            \<and> dynamic_prio (procs s' a) = dynamic_prio (procs s a) \<and> wait_time_ns (procs s' a) = 0
            \<and> total_runtime_ns (procs s' a) = total_runtime_ns (procs s a) + e
            \<and> (\<forall>b \<in> set (system_procs (kds_runqueues s c)). b \<noteq> a \<longrightarrow> dynamic_prio (procs s' b) = dynamic_prio (procs s b) + 1
                 \<and> wait_time_ns (procs s' b) = wait_time_ns (procs s b) + e)
            \<and> (\<forall>b. b \<notin> set (system_procs (kds_runqueues s c)) \<longrightarrow> procs s' b = procs s b)))"
proof (intro conjI impI allI)
  show "chosen s c = None \<Longrightarrow> kds_proc_schedule env run c sl s = (Inr (), s)" by (rule schedule_idle [OF assms(1)])
  fix a assume ch: "chosen s c = Some a"
  note C = chosen_spec(1) [OF assms(1) ch]
  show "a \<in> set (system_procs (kds_runqueues s c))" using C by blast
  show "\<forall>b \<in> set (system_procs (kds_runqueues s c)). sint (dynamic_prio (procs s b)) \<le> sint (dynamic_prio (procs s a))" using C by blast
  obtain e s' where s': "kds_proc_schedule env run c sl s = (Inr (), s')" "procs s' = after_round e a (system_procs (kds_runqueues s c)) (procs s)"
    using schedule_run [OF assms ch] by blast
  show "\<exists>e s'. kds_proc_schedule env run c sl s = (Inr (), s')
            \<and> dynamic_prio (procs s' a) = dynamic_prio (procs s a) \<and> wait_time_ns (procs s' a) = 0
            \<and> total_runtime_ns (procs s' a) = total_runtime_ns (procs s a) + e
            \<and> (\<forall>b \<in> set (system_procs (kds_runqueues s c)). b \<noteq> a \<longrightarrow> dynamic_prio (procs s' b) = dynamic_prio (procs s b) + 1
                 \<and> wait_time_ns (procs s' b) = wait_time_ns (procs s b) + e)
            \<and> (\<forall>b. b \<notin> set (system_procs (kds_runqueues s c)) \<longrightarrow> procs s' b = procs s b)"
    using s' C by (intro exI [of _ e] exI [of _ s']) (auto simp: after_round_def)
qed

section \<open>Bounded waiting\<close>

fun rounds :: "sched_env \<Rightarrow> 'z sched_state_scheme run_call \<Rightarrow> nat \<Rightarrow> u64 \<Rightarrow> nat \<Rightarrow> ('z sched_state_scheme, unit) call" where
  "rounds env run c sl 0 = sret ()"
| "rounds env run c sl (Suc n) = sbind (kds_proc_schedule env run c sl) (\<lambda>_. rounds env run c sl n)"

text \<open>By how much the other processes of a queue are ahead of \<open>a\<close>, summed up.\<close>

definition lead :: "(nat \<Rightarrow> kds_proc) \<Rightarrow> nat list \<Rightarrow> nat \<Rightarrow> nat" where
  "lead ps xs a = (\<Sum>b \<in> set xs - {a}. nat (sint (dynamic_prio (ps b)) - sint (dynamic_prio (ps a)) + 1))"

lemma sint_succ:
  fixes w :: s32
  assumes "sint w + 1 < 2 ^ 31"
  shows "sint (w + 1) = sint w + 1"
proof -
  have "- (2 ^ 31) \<le> sint w" using sint_ge [of w] by simp
  then have "signed_take_bit 31 (sint w + 1) = sint w + 1" using assms by (intro signed_take_bit_int_eq_self) auto
  then show ?thesis by (simp add: sint_word_ariths)
qed


lemma lead_round:
  assumes "finite B" and "b \<in> B" and "a \<notin> B" and "k a \<le> k b" and "\<forall>x \<in> B. k' x = (if x = b then k x else k x + 1)" and "k' a = k a + (1 :: int)"
  shows "Suc (\<Sum>x \<in> B. nat (k' x - k' a + 1)) = (\<Sum>x \<in> B. nat (k x - k a + 1))"
proof -
  have "(\<Sum>x \<in> B - {b}. nat (k' x - k' a + 1)) = (\<Sum>x \<in> B - {b}. nat (k x - k a + 1))"
    using assms(5,6) by (intro sum.cong) auto
  moreover have "Suc (nat (k' b - k' a + 1)) = nat (k b - k a + 1)" using assms(2,4,5,6) by (auto simp: nat_eq_iff Suc_nat_eq_nat_zadd1)
  ultimately show ?thesis using assms(1,2) by (simp add: sum.remove [of B b])
qed

lemma wait_induct:
  assumes "sched_env_ok env" and "run_keeps run" and "sched_wf env s" and "a \<in> set (system_procs (kds_runqueues s c))"
    and "INT_MIN < sint (dynamic_prio (procs s a))" and "lead (procs s) (system_procs (kds_runqueues s c)) a = n"
    and "\<forall>b \<in> set (system_procs (kds_runqueues s c)). sint (dynamic_prio (procs s b)) + int n < 2 ^ 31"
  shows "\<exists>m t. m \<le> n \<and> rounds env run c sl m s = (Inr (), t) \<and> chosen t c = Some a"
  using assms(3-7)
proof (induction n arbitrary: s)
  case (0 s)
  let ?xs = "system_procs (kds_runqueues s c)" and ?k = "\<lambda>b. sint (dynamic_prio (procs s b))"
  have z: "nat (?k b - ?k a + 1) = 0" if "b \<in> set ?xs" "b \<noteq> a" for b using 0(4) that by (simp add: lead_def)
  have small: "?k b < ?k a" if "b \<in> set ?xs" "b \<noteq> a" for b using z [OF that] by linarith
  have "chosen s c \<noteq> None" using chosen_spec(2) [OF 0(1), of c a] 0(2,3) by auto
  then have "chosen s c = Some a" using chosen_spec(1) [OF 0(1), of c] small 0(2) by (metis not_le option.exhaust_sel)
  then show ?case by (intro exI [of _ 0] exI [of _ s]) (simp add: sret_def)
next
  case (Suc n s)
  let ?xs = "system_procs (kds_runqueues s c)" and ?k = "\<lambda>b. sint (dynamic_prio (procs s b))"
  have "chosen s c \<noteq> None" using chosen_spec(2) [OF Suc(2), of c a] Suc(3,4) by auto
  then obtain b where b: "chosen s c = Some b" by blast
  show ?case
  proof (cases "b = a")
    case True
    then show ?thesis using b by (intro exI [of _ 0] exI [of _ s]) (simp add: sret_def)
  next
    case False
    note C = chosen_spec(1) [OF Suc(2) b]
    obtain e s' where s': "kds_proc_schedule env run c sl s = (Inr (), s')" "procs s' = after_round e b ?xs (procs s)"
      "system_procs (kds_runqueues s' c) = ?xs"
      using schedule_run [OF Suc(2) assms(2) b, of sl] by auto
    have wf: "sched_wf env s'" using schedule_wf [OF Suc(2) run_keeps_safe [OF assms(2)] s'(1)] by blast
    let ?k' = "\<lambda>x. sint (dynamic_prio (procs s' x))"
    have k': "\<forall>x \<in> set ?xs. ?k' x = (if x = b then ?k x else ?k x + 1)"
      using Suc(6) by (auto simp: s'(2) after_round_def intro!: sint_succ)
    have ka: "?k' a = ?k a + 1" using k' Suc(3) False by simp
    have "Suc (lead (procs s') ?xs a) = lead (procs s) ?xs a"
      unfolding lead_def by (rule lead_round [where b = b and k = ?k and k' = ?k']) (use C False Suc(3) k' ka in auto)
    then have ld: "lead (procs s') (system_procs (kds_runqueues s' c)) a = n" using Suc(5) s'(3) by simp
    have "\<exists>m t. m \<le> n \<and> rounds env run c sl m s' = (Inr (), t) \<and> chosen t c = Some a"
      by (rule Suc.IH [OF wf]) (use Suc(3,4,6) s'(3) k' ka ld in auto)
    then obtain m t where "m \<le> n" "rounds env run c sl m s' = (Inr (), t)" "chosen t c = Some a" by blast
    then show ?thesis using s'(1) by (intro exI [of _ "Suc m"] exI [of _ t]) (simp add: sbind_def)
  qed
qed

text \<open>C16: a registered system process whose priority is above the smallest integer waits for a bounded number of rounds of
  its CPU, one after the other, whose process bodies return and leave the scheduler's state alone: it is chosen after at
  most as many rounds as the other processes of its queue are ahead of it in total, as long as the priorities do not
  overflow meanwhile.\<close>

theorem bounded_waiting:
  assumes "sched_env_ok env" and "run_keeps run" and "sched_wf env s" and "a \<in> set (system_procs (kds_runqueues s c))"
    and "INT_MIN < sint (dynamic_prio (procs s a))"
    and "\<forall>b \<in> set (system_procs (kds_runqueues s c)).
      sint (dynamic_prio (procs s b)) + int (lead (procs s) (system_procs (kds_runqueues s c)) a) < 2 ^ 31"
  shows "\<exists>m t. m \<le> lead (procs s) (system_procs (kds_runqueues s c)) a \<and> rounds env run c sl m s = (Inr (), t) \<and> chosen t c = Some a"
  by (rule wait_induct [OF assms(1-5) refl assms(6)])

text \<open>When the busiest queue has no process that may move (only session processes, or all bound to their CPU), load
  balancing works on the address of the list head as if it were a process.\<close>

theorem load_balance_corrupts:
  assumes "most_loaded (load s) (cpus_of env (cpu_online_mask env)) 0 None = Some hi"
    and "least_loaded (load s) (cpus_of env (cpu_online_mask env)) (- 1) None = Some lo"
    and "KDS_LOAD_BALANCE_THRESHOLD < load s hi - load s lo"
    and "\<forall>a \<in> set (system_procs (kds_runqueues s hi)). p_running (procs s a) \<or> \<not> allowed_cpus (procs s a) lo"
  shows "kds_load_balance env s = (Inl Fault, s)"
proof -
  have "filter (\<lambda>a. \<not> p_running (procs s a) \<and> allowed_cpus (procs s a) lo) (system_procs (kds_runqueues s hi)) = []"
    using assms(4) by (auto simp: filter_empty_conv)
  moreover have "\<not> load s hi - load s lo \<le> KDS_LOAD_BALANCE_THRESHOLD" using assms(3) by simp
  ultimately show ?thesis using assms(1,2) by (simp add: kds_load_balance_def sbind_def sget_def sfail_def Let_def first_movable_spec)
qed

text \<open>Load balancing moves one process from the busiest CPU to the least busy one when they differ by more than the
  threshold and some process may move: the larger load drops by one, the smaller grows by one, no process is lost.\<close>

theorem load_balance_moves:
  assumes "sched_env_ok env" and "sched_wf env s"
    and "most_loaded (load s) (cpus_of env (cpu_online_mask env)) 0 None = Some hi"
    and "least_loaded (load s) (cpus_of env (cpu_online_mask env)) (- 1) None = Some lo"
    and "KDS_LOAD_BALANCE_THRESHOLD < load s hi - load s lo" and "first_movable (procs s) lo (system_procs (kds_runqueues s hi)) = Some a"
  shows "\<exists>s'. kds_load_balance env s = (Inr (), s') \<and> sched_wf env s' \<and> registered s' = registered s
    \<and> load s' hi = load s hi - 1 \<and> load s' lo = load s lo + 1 \<and> p_cpu (procs s' a) = int lo
    \<and> (\<forall>c. c \<noteq> hi \<and> c \<noteq> lo \<longrightarrow> kds_runqueues s' c = kds_runqueues s c)"
  by (rule balance_wf [OF assms])

section \<open>Concrete schedulers\<close>

fun spine :: "'a list \<Rightarrow> 'a tree" where
  "spine [] = Leaf"
| "spine (x # xs) = Node Leaf x (spine xs)"

lemma inorder_spine [simp]: "inorder (spine xs) = xs" "set_tree (spine xs) = set xs" "size (spine xs) = length xs"
  by (induction xs) simp_all

definition demo_senv :: sched_env where
  "demo_senv = \<lparr>nr_cpu_ids = 2, cpu_possible_mask = (\<lambda>c. c < 2), cpu_online_mask = (\<lambda>c. c < 2), rb_insert_color = (\<lambda>a t. t),
     rb_erase = (\<lambda>a t. spine (remove1 a (inorder t))), ktime = (\<lambda>n. of_nat n * 1000)\<rparr>"

lemma demo_cpus: "cpus_of demo_senv (cpu_online_mask demo_senv) = [0, 1]" "cpus_of demo_senv (cpu_possible_mask demo_senv) = [0, 1]"
  by (simp_all add: demo_senv_def cpus_of_def upt_rec)

lemma demo_senv_ok: "sched_env_ok demo_senv"
  using demo_cpus(1) by (simp add: sched_env_ok_def mask_ok_def) (simp add: demo_senv_def)

definition demo_run :: "'z sched_state_scheme run_call" where
  "demo_run f a sl = sret KDS_PROC_YIELD_RET"

lemma demo_run_keeps: "run_keeps demo_run"
  by (simp add: run_keeps_def demo_run_def sret_def)

definition demo_proc :: "kds_proc_kind \<Rightarrow> nat \<Rightarrow> kds_proc" where
  "demo_proc k a = \<lparr>p_pid = of_nat a, p_kind = k, p_state = KDS_PROC_STATE_READY, static_prio = 5, dynamic_prio = (if a = 1 then 30 else 100),
     last_run_ns = 0, total_runtime_ns = 0, wait_time_ns = 0, p_cpu = 0, preferred_cpu = 0, allowed_cpus = (\<lambda>c. c < 2), p_running = False,
     p_run = Some Run_checkpointer, p_linked = True\<rparr>"

definition demo_queue :: "nat list \<Rightarrow> nat list \<Rightarrow> kds_runqueue" where
  "demo_queue sys sess = \<lparr>system_procs = sys, session_procs = spine sess, curr_proc = None, rq_total_runtime_ns = 0,
     nr_running = of_nat (length sys + length sess)\<rparr>"

definition demo_sched :: "nat list \<Rightarrow> nat list \<Rightarrow> sched_state" where
  "demo_sched sys sess = cat_state.extend demo_index \<lparr>kds_runqueues = (\<lambda>_. empty_runqueue)(0 := demo_queue sys sess),
     procs = (\<lambda>a. demo_proc (if a \<in> set sys then KDS_PROC_SYSTEM else KDS_PROC_SESSION) a), kds_next_pid = 100,
     kds_stats = \<lparr>total_schedules = 0, load_balances = 0, migrations = 0\<rparr>, clock = 0\<rparr>"

lemma demo_sched_simps:
  "kds_runqueues (demo_sched sys sess) = (\<lambda>_. empty_runqueue)(0 := demo_queue sys sess)" "kds_next_pid (demo_sched sys sess) = 100"
  "procs (demo_sched sys sess) = (\<lambda>a. demo_proc (if a \<in> set sys then KDS_PROC_SYSTEM else KDS_PROC_SESSION) a)"
  by (simp_all add: demo_sched_def cat_state.defs)

lemma demo_sched_wf:
  assumes "distinct (sys @ sess)" and "\<forall>a \<in> set (sys @ sess). a < 100"
  shows "sched_wf demo_senv (demo_sched sys sess)" "registered (demo_sched sys sess) = set (sys @ sess)"
proof -
  let ?s = "demo_sched sys sess"
  have q: "queue_of (kds_runqueues ?s c) = (if c = 0 then sys @ sess else [])" for c
    by (simp add: demo_sched_simps queue_of_def demo_queue_def empty_runqueue_def)
  then show r: "registered ?s = set (sys @ sess)" by (auto simp: registered_def split: if_splits)
  have "queue_wf demo_senv (procs ?s) c (kds_runqueues ?s c)" for c
    using assms(1) by (auto simp: queue_wf_def queue_of_def demo_sched_simps demo_queue_def empty_runqueue_def demo_proc_def demo_senv_def
        prio_of_def sorted_iff_nth_mono)
  moreover have "unat (of_nat a :: u64) = a" if "a < 100" for a using that by (simp add: unat_of_nat)
  then have "inj_on (\<lambda>a. of_nat a :: u64) (set (sys @ sess))" "\<forall>a \<in> set (sys @ sess). (of_nat a :: u64) < 100"
    using assms(2) by (auto simp: word_less_nat_alt intro!: inj_onI dest!: arg_cong [where f = unat])
  then have "inj_on (\<lambda>a. p_pid (procs ?s a)) (registered ?s)" "\<forall>a \<in> registered ?s. p_pid (procs ?s a) < kds_next_pid ?s"
    unfolding r by (simp_all add: demo_sched_simps demo_proc_def)
  ultimately show "sched_wf demo_senv ?s" by (simp add: sched_wf_def)
qed

lemma demo_chosen: "chosen (demo_sched [1, 2] []) 0 = Some 2"
  by (simp add: chosen_def demo_sched_simps demo_queue_def kds_calc_dynamic_prio_def demo_proc_def INT_MIN_def)

theorem schedule_round_witness:
  "\<exists>s'. kds_proc_schedule demo_senv demo_run 0 1000 (demo_sched [1, 2] []) = (Inr (), s')
     \<and> dynamic_prio (procs s' 1) = 31 \<and> dynamic_prio (procs s' 2) = 100"
  using schedule_round [OF demo_sched_wf(1) demo_run_keeps, of "[1, 2]" "[]" 0 1000] demo_chosen
  by (auto simp: demo_sched_simps demo_queue_def demo_proc_def)

theorem bounded_waiting_witness:
  "\<exists>m t. m \<le> 71 \<and> rounds demo_senv demo_run 0 1000 m (demo_sched [1, 2] []) = (Inr (), t) \<and> chosen t 0 = Some 1"
proof -
  let ?s = "demo_sched [1, 2] []"
  have q: "system_procs (kds_runqueues ?s 0) = [1, 2]" by (simp add: demo_sched_simps demo_queue_def)
  have p: "sint (dynamic_prio (procs ?s 1)) = 30" "sint (dynamic_prio (procs ?s 2)) = 100" by (simp_all add: demo_sched_simps demo_proc_def)
  have "{1, 2} - {1} = {2 :: nat}" by auto
  then have l: "lead (procs ?s) [1, 2] 1 = 71" using p by (simp add: lead_def)
  show ?thesis using bounded_waiting [OF demo_senv_ok demo_run_keeps demo_sched_wf(1), of "[1, 2]" "[]" 1 0 1000] q p l by (simp add: INT_MIN_def)
qed

lemma demo_loads: 
  assumes "length sys + length sess = 3"
  shows "most_loaded (load (demo_sched sys sess)) (cpus_of demo_senv (cpu_online_mask demo_senv)) 0 None = Some 0"
    "least_loaded (load (demo_sched sys sess)) (cpus_of demo_senv (cpu_online_mask demo_senv)) (- 1) None = Some 1"
    "KDS_LOAD_BALANCE_THRESHOLD < load (demo_sched sys sess) 0 - load (demo_sched sys sess) 1"
  using assms by (simp_all add: demo_cpus demo_sched_simps demo_queue_def empty_runqueue_def KDS_LOAD_BALANCE_THRESHOLD_def flip: of_nat_add)

theorem load_balance_corrupts_witness:
  "kds_load_balance demo_senv (demo_sched [] [1, 2, 3]) = (Inl Fault, demo_sched [] [1, 2, 3])"
  by (rule load_balance_corrupts [OF demo_loads]) (simp_all add: demo_sched_simps demo_queue_def)

theorem load_balance_moves_witness:
  "\<exists>s'. kds_load_balance demo_senv (demo_sched [1, 2, 3] []) = (Inr (), s') \<and> sched_wf demo_senv s' \<and> load s' 0 = 2 \<and> load s' 1 = 1"
proof -
  have m: "first_movable (procs (demo_sched [1, 2, 3] [])) 1 (system_procs (kds_runqueues (demo_sched [1, 2, 3] []) 0)) = Some 1"
    by (simp add: demo_sched_simps demo_queue_def demo_proc_def)
  have w: "sched_wf demo_senv (demo_sched [1, 2, 3] [])" by (rule demo_sched_wf(1)) simp_all
  show ?thesis using load_balance_moves [OF demo_senv_ok w demo_loads m]
    by (auto simp: demo_sched_simps demo_queue_def empty_runqueue_def)
qed

end
