(* ===== verification/Kds_Exec.thy ===== *)
theory Kds_Exec
  imports Kds_Proc
begin

text \<open>
  \<^verbatim>\<open>kds_executor.h\<close> and \<^verbatim>\<open>exec_heap_insert.c\<close>. An executor is a structure that is run in slices: every call gets a
  deadline, checks the clock between units of work and returns \<^verbatim>\<open>CONTINUE\<close> with its progress stored in the structure.
  The structure is a record that every phase takes and returns updated; the function pointer \<^verbatim>\<open>run\<close> is the argument
  \<open>run\<close> of \<open>kds_exec_run\<close>. The walks over a page chain take the number of pages they may visit.
\<close>

section \<open>The executor interface\<close>

datatype kds_exec_result = KDS_EXEC_DONE | KDS_EXEC_ERROR | KDS_EXEC_CONTINUE

text \<open>\<open>ex_ret\<close> is \<^verbatim>\<open>ret\<close>: \<open>None\<close> for 0.\<close>

record kds_exec_state =
  ex_ret :: "errno option"
  deadline_ns :: u64
  units_done :: u64

text \<open>
  A run function takes the executor structure and returns it updated. \<open>None\<close> is a call that has not returned within the
  rounds it was given: a page chain read from disk may be cyclic.
\<close>

type_synonym ('s, 'x) exec_call = "('s, (kds_exec_result \<times> 'x) option) call"

definition kds_exec_run ::
  "sched_env \<Rightarrow> ('y kds_exec_state_scheme \<Rightarrow> ('z sched_state_scheme, 'y kds_exec_state_scheme) exec_call) \<Rightarrow> 'y kds_exec_state_scheme \<Rightarrow> u64 \<Rightarrow>
   ('z sched_state_scheme, 'y kds_exec_state_scheme) exec_call" where
  "kds_exec_run senv run ex slice_ns = sbind (ktime_get_ns senv) (\<lambda>now. run (ex\<lparr>deadline_ns := now + slice_ns\<rparr>))"

definition kds_exec_slice_expired :: "sched_env \<Rightarrow> 'y kds_exec_state_scheme \<Rightarrow> ('z sched_state_scheme, bool) call" where
  "kds_exec_slice_expired senv ex = sbind (ktime_get_ns senv) (\<lambda>now. sret (deadline_ns ex \<le> now))"

abbreviation unit_done :: "'y kds_exec_state_scheme \<Rightarrow> 'y kds_exec_state_scheme" where
  "unit_done ex \<equiv> ex\<lparr>units_done := units_done ex + 1\<rparr>"

definition exec_error :: "'y kds_exec_state_scheme \<Rightarrow> errno \<Rightarrow> ('s, 'y kds_exec_state_scheme) exec_call" where
  "exec_error ex e = sret (Some (KDS_EXEC_ERROR, ex\<lparr>ex_ret := Some e\<rparr>))"

text \<open>Go on with the next phase when a phase is done, return its result otherwise.\<close>

definition then_phase :: "('s, 'x) exec_call \<Rightarrow> ('x \<Rightarrow> ('s, 'x) exec_call) \<Rightarrow> ('s, 'x) exec_call" where
  "then_phase m k = sbind m (\<lambda>r. case r of Some (KDS_EXEC_DONE, ex) \<Rightarrow> k ex | _ \<Rightarrow> sret r)"

section \<open>Insertion into a heap table\<close>

definition KDS_EXEC_ROW_SCAN_BUF :: nat where "KDS_EXEC_ROW_SCAN_BUF = 256"

datatype kds_heap_insert_phase = KDS_HEAP_INSERT_PHASE_DUP_SCAN | KDS_HEAP_INSERT_PHASE_FIND_TAIL
  | KDS_HEAP_INSERT_PHASE_WAL_INSERT | KDS_HEAP_INSERT_PHASE_WAL_INIT_PAGE | KDS_HEAP_INSERT_PHASE_DONE

text \<open>\<open>hi_data\<close> is the buffer behind the pointer \<^verbatim>\<open>data\<close>; \<open>new_pk\<close> the eight bytes of the key.\<close>

record kds_heap_insert_exec = kds_exec_state +
  hi_rel :: "kds_relation option"
  hi_data :: "u8 list option"
  hi_data_len :: u16
  hi_xid :: u64
  hi_out_tid :: kds_heap_tid
  hi_phase :: kds_heap_insert_phase
  cursor_page_id :: u64
  new_pk :: u64
  wal_target_page_id :: u64
  wal_target_offset :: u32
  wal_need_init_page :: bool

text \<open>The loop over the slots; \<open>True\<close> is the return value 1.\<close>

fun scan_pk :: "kds_frame \<Rightarrow> u64 \<Rightarrow> nat list \<Rightarrow> bool res" where
  "scan_pk f target_pk [] = Inr False"
| "scan_pk f target_pk (slot # slots) =
     (case heap_read_tuple f (of_nat slot) True (of_nat KDS_EXEC_ROW_SCAN_BUF) of
        Inl (Errno ENOENT) \<Rightarrow> scan_pk f target_pk slots
      | Inl x \<Rightarrow> Inl x
      | Inr (hdr, buf) \<Rightarrow>
          if data_len hdr < 8 then scan_pk f target_pk slots
          else if dec64 (take 8 buf) = target_pk then Inr True
          else scan_pk f target_pk slots)"

definition kds_heap_scan_page_for_pk :: "kenv \<Rightarrow> u64 \<Rightarrow> u64 \<Rightarrow> ('z sched_state_scheme, bool \<times> u64) call" where
  "kds_heap_scan_page_for_pk env page_id target_pk =
     scan_page env page_id (\<lambda>f slots. rbind (scan_pk f target_pk slots) (\<lambda>dup. rbind (heap_get_next_page_id f) (\<lambda>nxt. Inr (dup, nxt))))"

fun heap_insert_run_dup_scan ::
  "kenv \<Rightarrow> sched_env \<Rightarrow> nat \<Rightarrow> kds_heap_insert_exec \<Rightarrow> ('z sched_state_scheme, kds_heap_insert_exec) exec_call" where
  "heap_insert_run_dup_scan env senv 0 ex = sret None"
| "heap_insert_run_dup_scan env senv (Suc n) ex =
     (if cursor_page_id ex = 0 then sret (Some (KDS_EXEC_DONE, ex))
      else sattempt (kds_heap_scan_page_for_pk env (cursor_page_id ex) (new_pk ex)) (\<lambda>r.
        case r of Inl e \<Rightarrow> exec_error ex e
        | Inr (dup, nxt) \<Rightarrow>
          if dup then exec_error ex EEXIST
          else let ex' = (unit_done ex)\<lparr>cursor_page_id := nxt\<rparr> in
            if nxt = 0 then heap_insert_run_dup_scan env senv n ex'
            else sbind (kds_exec_slice_expired senv ex') (\<lambda>expired.
              if expired then sret (Some (KDS_EXEC_CONTINUE, ex')) else heap_insert_run_dup_scan env senv n ex')))"

text \<open>The chain grows by a page: allocate, initialise, insert, link from the old tail, which is still pinned.\<close>

definition grow_chain :: "nat \<Rightarrow> kds_heap_insert_exec \<Rightarrow> ('z sched_state_scheme, kds_heap_insert_exec) exec_call" where
  "grow_chain i ex =
     sbind (kds_page_alloc KDS_PAGE_TYPE_HEAP) (\<lambda>new_frame.
     case new_frame of
       None \<Rightarrow> sbind (kds_buf_unpin i) (\<lambda>_. exec_error ex ENOSPC)
     | Some j \<Rightarrow>
       sbind (on_frame j (unit_op heap_init_page)) (\<lambda>_.
       sattempt (on_frame j (\<lambda>f. heap_insert_tuple f (hi_data ex) (hi_data_len ex) (hi_xid ex))) (\<lambda>r.
       case r of
         Inl e \<Rightarrow> sbind (kds_buf_unpin j) (\<lambda>_. sbind (kds_buf_unpin i) (\<lambda>_. exec_error ex e))
       | Inr tid \<Rightarrow>
         let ex1 = ex\<lparr>hi_out_tid := tid\<rparr> in
         sbind (the_kp j) (\<lambda>kp.
         sattempt (then_unpin i (on_frame i (unit_op (\<lambda>f. heap_set_next_page_id f (kp_id kp))))) (\<lambda>r.
         case r of
           Inl e \<Rightarrow> sbind (kds_buf_unpin j) (\<lambda>_. exec_error ex1 e)
         | Inr _ \<Rightarrow>
           sbind (kds_buf_unpin j) (\<lambda>_.
           sret (Some (KDS_EXEC_DONE, unit_done (ex1\<lparr>wal_target_page_id := kp_id kp, wal_target_offset := 0, wal_need_init_page := True\<rparr>)))))))))"

fun heap_insert_run_find_tail ::
  "kenv \<Rightarrow> sched_env \<Rightarrow> nat \<Rightarrow> kds_heap_insert_exec \<Rightarrow> ('z sched_state_scheme, kds_heap_insert_exec) exec_call" where
  "heap_insert_run_find_tail env senv 0 ex = sret None"
| "heap_insert_run_find_tail env senv (Suc n) ex =
     sattempt (load_page env (cursor_page_id ex)) (\<lambda>r.
     case r of Inl e \<Rightarrow> exec_error ex e
     | Inr i \<Rightarrow>
       sattempt (on_frame i (\<lambda>f. heap_insert_tuple f (hi_data ex) (hi_data_len ex) (hi_xid ex))) (\<lambda>r.
       case r of
         Inr tid \<Rightarrow>
           sbind (the_kp i) (\<lambda>kp.
           sbind (kds_buf_unpin i) (\<lambda>_.
           sret (Some (KDS_EXEC_DONE, unit_done (ex\<lparr>hi_out_tid := tid, wal_target_page_id := kp_id kp, wal_target_offset := 0,
             wal_need_init_page := False\<rparr>)))))
       | Inl e \<Rightarrow>
           if e \<noteq> ENOSPC then sbind (kds_buf_unpin i) (\<lambda>_. exec_error ex e)
           else sbind sget (\<lambda>s. sbind (slift (heap_get_next_page_id (pframes s i))) (\<lambda>nxt.
             if nxt \<noteq> 0
             then sbind (kds_buf_unpin i) (\<lambda>_.
               let ex' = (unit_done ex)\<lparr>cursor_page_id := nxt\<rparr> in
               sbind (kds_exec_slice_expired senv ex') (\<lambda>expired.
               if expired then sret (Some (KDS_EXEC_CONTINUE, ex')) else heap_insert_run_find_tail env senv n ex'))
             else grow_chain i ex))))"

text \<open>The result of an append is only logged.\<close>

definition wal_append_logged :: "(u32 \<Rightarrow> u8 list \<Rightarrow> u32) \<Rightarrow> kds_wal_rec_hdr \<Rightarrow> u8 list \<Rightarrow> ('z wal_state_scheme, unit) call" where
  "wal_append_logged crc hdr body = sattempt (kds_wal_append crc hdr (Some body)) (\<lambda>_. sret ())"

definition heap_insert_run_wal_init_page ::
  "(u32 \<Rightarrow> u8 list \<Rightarrow> u32) \<Rightarrow> kds_heap_insert_exec \<Rightarrow> ('z sched_state_scheme, kds_heap_insert_exec) exec_call" where
  "heap_insert_run_wal_init_page crc ex =
     (let body = enc_body_init_page (wal_target_page_id ex) (ucast KDS_PAGE_TYPE_HEAP) in
      sbind (wal_append_logged crc (zero_rec_hdr\<lparr>rec_xid := hi_xid ex, rec_type := rec_type_code KDS_WAL_REC_INIT_PAGE,
        body_len := of_nat (length body)\<rparr>) body) (\<lambda>_. sret (Some (KDS_EXEC_DONE, ex))))"

text \<open>The bounce buffer with the header of the body and the row.\<close>

definition wal_row :: "kenv \<Rightarrow> (u32 \<Rightarrow> u8 list \<Rightarrow> u32) \<Rightarrow> u64 \<Rightarrow> u64 \<Rightarrow> u32 \<Rightarrow> u8 list option \<Rightarrow> u16 \<Rightarrow> ('z sched_state_scheme, unit) call" where
  "wal_row env crc xid page_id offset row row_len =
     sbind (kalloc env) (\<lambda>mem_ok.
     if \<not> mem_ok then sret ()
     else case (case row of None \<Rightarrow> None | Some bs \<Rightarrow> buf_rd bs (unat row_len)) of
       None \<Rightarrow> sfail Fault
     | Some bytes \<Rightarrow>
       let meta = enc_body_page_mod page_id offset (ucast row_len) in
       wal_append_logged crc (zero_rec_hdr\<lparr>rec_xid := xid, rec_type := rec_type_code KDS_WAL_REC_INSERT,
         body_len := of_nat (length meta) + ucast row_len\<rparr>) (meta @ bytes))"

definition heap_insert_run_wal_insert ::
  "kenv \<Rightarrow> (u32 \<Rightarrow> u8 list \<Rightarrow> u32) \<Rightarrow> kds_heap_insert_exec \<Rightarrow> ('z sched_state_scheme, kds_heap_insert_exec) exec_call" where
  "heap_insert_run_wal_insert env crc ex =
     sbind (wal_row env crc (hi_xid ex) (wal_target_page_id ex) (wal_target_offset ex) (hi_data ex) (hi_data_len ex))
       (\<lambda>_. sret (Some (KDS_EXEC_DONE, ex)))"

text \<open>
  The switch over the phase: each case ends with a return or with the case of the next phase. The cases are listed in
  the order in which they follow each other.
\<close>

definition hi_phase_done :: "kds_heap_insert_exec \<Rightarrow> ('z sched_state_scheme, kds_heap_insert_exec) exec_call" where
  "hi_phase_done ex = sret (Some (KDS_EXEC_DONE, ex))"

definition hi_phase_wal_insert ::
  "kenv \<Rightarrow> (u32 \<Rightarrow> u8 list \<Rightarrow> u32) \<Rightarrow> kds_heap_insert_exec \<Rightarrow> ('z sched_state_scheme, kds_heap_insert_exec) exec_call" where
  "hi_phase_wal_insert env crc ex =
     then_phase (heap_insert_run_wal_insert env crc ex) (\<lambda>ex. hi_phase_done (ex\<lparr>hi_phase := KDS_HEAP_INSERT_PHASE_DONE\<rparr>))"

definition hi_phase_wal_init_page ::
  "kenv \<Rightarrow> (u32 \<Rightarrow> u8 list \<Rightarrow> u32) \<Rightarrow> kds_heap_insert_exec \<Rightarrow> ('z sched_state_scheme, kds_heap_insert_exec) exec_call" where
  "hi_phase_wal_init_page env crc ex =
     then_phase (heap_insert_run_wal_init_page crc ex) (\<lambda>ex. hi_phase_wal_insert env crc (ex\<lparr>hi_phase := KDS_HEAP_INSERT_PHASE_WAL_INSERT\<rparr>))"

definition hi_phase_find_tail ::
  "kenv \<Rightarrow> sched_env \<Rightarrow> (u32 \<Rightarrow> u8 list \<Rightarrow> u32) \<Rightarrow> nat \<Rightarrow> kds_heap_insert_exec \<Rightarrow> ('z sched_state_scheme, kds_heap_insert_exec) exec_call" where
  "hi_phase_find_tail env senv crc n ex =
     sbind (kds_exec_slice_expired senv ex) (\<lambda>expired.
     if expired then sret (Some (KDS_EXEC_CONTINUE, ex))
     else then_phase (heap_insert_run_find_tail env senv n ex) (\<lambda>ex.
       if wal_need_init_page ex then hi_phase_wal_init_page env crc (ex\<lparr>hi_phase := KDS_HEAP_INSERT_PHASE_WAL_INIT_PAGE\<rparr>)
       else hi_phase_wal_insert env crc (ex\<lparr>hi_phase := KDS_HEAP_INSERT_PHASE_WAL_INSERT\<rparr>)))"

definition hi_phase_dup_scan ::
  "kenv \<Rightarrow> sched_env \<Rightarrow> (u32 \<Rightarrow> u8 list \<Rightarrow> u32) \<Rightarrow> nat \<Rightarrow> kds_relation \<Rightarrow> kds_heap_insert_exec \<Rightarrow>
   ('z sched_state_scheme, kds_heap_insert_exec) exec_call" where
  "hi_phase_dup_scan env senv crc n rel ex =
     then_phase (heap_insert_run_dup_scan env senv n ex) (\<lambda>ex.
       hi_phase_find_tail env senv crc n (ex\<lparr>hi_phase := KDS_HEAP_INSERT_PHASE_FIND_TAIL, cursor_page_id := rel_root_page_id rel\<rparr>))"

definition kds_heap_insert_exec_run ::
  "kenv \<Rightarrow> sched_env \<Rightarrow> (u32 \<Rightarrow> u8 list \<Rightarrow> u32) \<Rightarrow> nat \<Rightarrow> kds_heap_insert_exec \<Rightarrow> ('z sched_state_scheme, kds_heap_insert_exec) exec_call" where
  "kds_heap_insert_exec_run env senv crc n ex =
     (case hi_rel ex of None \<Rightarrow> exec_error ex EINVAL
      | Some rel \<Rightarrow>
        if rel_kind rel \<noteq> KDS_CLUSTERED_HEAP then exec_error ex EINVAL
        else if hi_data_len ex < 8 then exec_error ex EINVAL
        else case hi_phase ex of
          KDS_HEAP_INSERT_PHASE_DUP_SCAN \<Rightarrow> hi_phase_dup_scan env senv crc n rel ex
        | KDS_HEAP_INSERT_PHASE_FIND_TAIL \<Rightarrow> hi_phase_find_tail env senv crc n ex
        | KDS_HEAP_INSERT_PHASE_WAL_INIT_PAGE \<Rightarrow> hi_phase_wal_init_page env crc ex
        | KDS_HEAP_INSERT_PHASE_WAL_INSERT \<Rightarrow> hi_phase_wal_insert env crc ex
        | KDS_HEAP_INSERT_PHASE_DONE \<Rightarrow> hi_phase_done ex)"

definition kds_heap_insert_exec_init :: "kds_relation option \<Rightarrow> u8 list option \<Rightarrow> u16 \<Rightarrow> u64 \<Rightarrow> kds_heap_insert_exec res" where
  "kds_heap_insert_exec_init rel data dlen xid =
     rbind (case data of None \<Rightarrow> Inr 0 | Some bs \<Rightarrow>
              if dlen < 8 then Inr 0 else case buf_rd bs 8 of None \<Rightarrow> Inl Fault | Some k \<Rightarrow> Inr (dec64 k)) (\<lambda>pk.
     Inr \<lparr>ex_ret = None, deadline_ns = 0, units_done = 0, hi_rel = rel, hi_data = data, hi_data_len = dlen, hi_xid = xid,
       hi_out_tid = \<lparr>tid_page_id = 0, tid_slot = 0\<rparr>, hi_phase = KDS_HEAP_INSERT_PHASE_DUP_SCAN,
       cursor_page_id = (case rel of None \<Rightarrow> 0 | Some r \<Rightarrow> rel_root_page_id r), new_pk = pk,
       wal_target_page_id = 0, wal_target_offset = 0, wal_need_init_page = False\<rparr>)"

end
