(* ===== verification/Kds_Exec_Heap.thy ===== *)
theory Kds_Exec_Heap
  imports Kds_Exec
begin

text \<open>
  What an insertion into a heap table does. A table is a chain of heap pages (\<open>heap_chain\<close>), its contents the list of
  the live rows (\<open>table_rows\<close>). The phases are described one by one; \<open>hi_at\<close> says how far an executor is and
  \<open>hi_outcome\<close> what a call may do. The locale \<open>sliced_exec\<close> is the contract between an executor and the loop that
  calls it: every call ends the work or shortens what is left.
\<close>

section \<open>Tables as chains of heap pages\<close>

definition slot_rows :: "heap_view \<Rightarrow> u8 list list" where
  "slot_rows v = List.map_filter (map_option (\<lambda>(h, d, c). d)) (v_slots v)"

definition table_rows :: "'z cat_state_scheme \<Rightarrow> u64 list \<Rightarrow> u8 list list" where
  "table_rows s ps = concat (map (\<lambda>p. slot_rows (frame_view (cat_frame s p))) ps)"

definition row_key :: "u8 list \<Rightarrow> u64" where
  "row_key r = dec64 (take 8 r)"

definition page_keys :: "kds_frame \<Rightarrow> u64 list" where
  "page_keys f = map row_key (filter (\<lambda>r. 8 \<le> length r) (slot_rows (frame_view f)))"

definition next_page :: "'z cat_state_scheme \<Rightarrow> u64 \<Rightarrow> u64" where
  "next_page s p = v_next (frame_view (cat_frame s p))"

definition chain_links :: "'z cat_state_scheme \<Rightarrow> u64 list \<Rightarrow> bool" where
  "chain_links s ps \<longleftrightarrow> map (next_page s) ps = tl ps @ [0]"

text \<open>The pages of a table: cached, well-formed, linked in this order, none of them staged for allocation.\<close>

definition heap_chain :: "'z cat_state_scheme \<Rightarrow> u64 list \<Rightarrow> bool" where
  "heap_chain s ps \<longleftrightarrow> ps \<noteq> [] \<and> distinct ps \<and> 0 \<notin> set ps \<and> chain_links s ps
     \<and> (\<forall>p \<in> set ps. \<exists>i. pmap s p = Some i \<and> i \<notin> set (ring_items s) \<and> heap_ok (pframes s i))"

definition store_ok :: "'z cat_state_scheme \<Rightarrow> bool" where
  "store_ok s \<longleftrightarrow> alloc_wf s \<and> g_alloc s \<and> hdrs_ok s \<and> pmap s 0 = None"

lemma store_ok_pool: "store_ok s \<Longrightarrow> pool_wf s"
  by (simp add: store_ok_def alloc_wf_def)

text \<open>States with the same pages: the clock, the log and the allocation counter do not matter.\<close>

definition same_store :: "'z cat_state_scheme \<Rightarrow> 'z cat_state_scheme \<Rightarrow> bool" where
  "same_store s s' \<longleftrightarrow> pframes s' = pframes s \<and> pmap s' = pmap s \<and> free_frames s' = free_frames s \<and> nr_free s' = nr_free s
     \<and> g_pool s' = g_pool s \<and> cursor s' = cursor s \<and> reserved s' = reserved s \<and> ring s' = ring s \<and> g_alloc s' = g_alloc s"

lemma same_store_refl [simp]: "same_store s s" by (simp add: same_store_def)

lemma same_store_trans: "same_store a b \<Longrightarrow> same_store b c \<Longrightarrow> same_store a c" by (simp add: same_store_def)

lemma same_store_upd [simp]:
  fixes s :: "'z sched_state_scheme"
  shows "same_store s (s\<lparr>clock := t\<rparr>)" "same_store s (s\<lparr>g_wal := w\<rparr>)" "same_store s (s\<lparr>nalloc := n\<rparr>)"
  by (simp_all add: same_store_def)

text \<open>The row \<open>d\<close> is at the place \<open>tid\<close>.\<close>

definition slot_holds :: "kds_frame \<Rightarrow> nat \<Rightarrow> u8 list \<Rightarrow> bool" where
  "slot_holds f i d \<longleftrightarrow> i < length (v_slots (frame_view f)) \<and> (\<exists>h c. v_slots (frame_view f) ! i = Some (h, d, c))"

definition row_at :: "'z cat_state_scheme \<Rightarrow> kds_heap_tid \<Rightarrow> u8 list \<Rightarrow> bool" where
  "row_at s tid d \<longleftrightarrow> slot_holds (cat_frame s (tid_page_id tid)) (unat (tid_slot tid)) d"

lemma same_store_facts:
  assumes "same_store s s'"
  shows "pool_wf s' = pool_wf s" "cat_frame s' = cat_frame s" "ring_items s' = ring_items s" "hdrs_ok s' = hdrs_ok s"
    "store_ok s' = store_ok s" "next_page s' = next_page s" "chain_links s' = chain_links s" "heap_chain s' = heap_chain s" "table_rows s' = table_rows s"
    "row_at s' = row_at s"
proof -
  have r: "ring_items s' = ring_items s" "ring_inv s' = ring_inv s" by (rule ring_cong; use assms in \<open>simp add: same_store_def\<close>)+
  show p: "pool_wf s' = pool_wf s" using assms by (simp add: pool_wf_def same_store_def)
  show c: "cat_frame s' = cat_frame s" using assms by (simp add: cat_frame_def fun_eq_iff same_store_def)
  show "ring_items s' = ring_items s" by (rule r)
  show h: "hdrs_ok s' = hdrs_ok s" using assms by (simp add: hdrs_ok_def same_store_def)
  show "store_ok s' = store_ok s" using r p h assms by (simp add: store_ok_def alloc_wf_def same_store_def)
  show n: "next_page s' = next_page s" using c by (simp add: next_page_def fun_eq_iff)
  show l: "chain_links s' = chain_links s" by (rule ext) (simp add: chain_links_def n)
  show "heap_chain s' = heap_chain s" using assms by (intro ext) (simp add: heap_chain_def l r same_store_def)
  show "table_rows s' = table_rows s" by (intro ext) (simp add: table_rows_def c)
  show "row_at s' = row_at s" by (intro ext) (simp add: row_at_def c)
qed

lemmas clock_store [simp] = same_store_facts [OF same_store_upd(1)]

lemma chain_page:
  assumes "heap_chain s ps" and "p \<in> set ps"
  obtains i where "pmap s p = Some i" "i \<notin> set (ring_items s)" "heap_ok (pframes s i)" "cat_frame s p = pframes s i" "p \<noteq> 0"
  using assms by (force simp: heap_chain_def cat_frame_def)

lemma chain_next:
  assumes "chain_links s (as @ p # bs)"
  shows "next_page s p = (case bs of [] \<Rightarrow> 0 | q # _ \<Rightarrow> q)"
proof -
  have "map (next_page s) (as @ p # bs) ! length as = (tl (as @ p # bs) @ [0]) ! length as" using assms by (simp add: chain_links_def)
  then show ?thesis by (cases as; cases bs) (simp_all add: nth_append)
qed

lemma heap_next: "heap_ok f \<Longrightarrow> heap_get_next_page_id f = Inr (v_next (frame_view f))"
  by (elim heap_okE) (simp add: heap_get_next_page_id_def pload_def heap_consts heap_view_def)

section \<open>The scan for a duplicate key\<close>

text \<open>
  A page on which a read through the 256 byte buffer never leaves the page: every live row has at most 256 bytes and
  at least that many bytes follow it.
\<close>

definition scannable :: "kds_frame \<Rightarrow> bool" where
  "scannable f \<longleftrightarrow> heap_ok f \<and> (\<forall>i < length (v_slots (frame_view f)). heap_read_tuple f (of_nat i) True 256 \<noteq> Inl Fault)
     \<and> (\<forall>r \<in> set (slot_rows (frame_view f)). length r \<le> 256)"

lemma scannable_kp:
  assumes "fr_kp f \<noteq> None"
  shows "scannable (f\<lparr>fr_kp := Some kp\<rparr>) = scannable f" "page_keys (f\<lparr>fr_kp := Some kp\<rparr>) = page_keys f"
    "scan_pk (f\<lparr>fr_kp := Some kp\<rparr>) pk xs = scan_pk f pk xs" "heap_get_next_page_id (f\<lparr>fr_kp := Some kp\<rparr>) = heap_get_next_page_id f"
proof -
  have rd: "heap_read_tuple (f\<lparr>fr_kp := Some kp\<rparr>) i b n = heap_read_tuple f i b n" for i b n
    using assms by (auto simp: heap_read_tuple_def heap_read_tuple_gen_def frame_page_def split: option.splits)
  show "scannable (f\<lparr>fr_kp := Some kp\<rparr>) = scannable f" using assms rd by (simp add: scannable_def)
  show "scan_pk (f\<lparr>fr_kp := Some kp\<rparr>) pk xs = scan_pk f pk xs"
  proof (induction xs)
    case (Cons x xs)
    show ?case unfolding scan_pk.simps rd Cons ..
  qed simp
  show "page_keys (f\<lparr>fr_kp := Some kp\<rparr>) = page_keys f" using assms by (simp add: page_keys_def)
  show "heap_get_next_page_id (f\<lparr>fr_kp := Some kp\<rparr>) = heap_get_next_page_id f"
    using assms by (auto simp: heap_get_next_page_id_def frame_page_def split: option.splits)
qed

lemma slot_rows_mem: "i < length (v_slots v) \<Longrightarrow> v_slots v ! i = Some (h, d, c) \<Longrightarrow> d \<in> set (slot_rows v)"
  by (force simp: slot_rows_def List.map_filter_def intro: nth_mem)

lemma tuple_len:
  assumes "heap_ok f" and "i < length (v_slots (frame_view f))" and "v_slots (frame_view f) ! i = Some (h, d, c)"
  shows "length d = unat (data_len h)"
  using assms by (auto elim!: heap_okE simp: tuple_at_def Let_def split: if_splits)

lemma scannable_read:
  assumes "scannable f" and "i < length (v_slots (frame_view f))"
  shows "case v_slots (frame_view f) ! i of None \<Rightarrow> heap_read_tuple f (of_nat i) True 256 = fails ENOENT
    | Some (h, d, c) \<Rightarrow> \<exists>rest. heap_read_tuple f (of_nat i) True 256 = Inr (h, d @ rest)"
proof -
  have ok: "heap_ok f" using assms(1) by (simp add: scannable_def)
  have i: "unat (of_nat i :: u16) = i" using slots_small [OF ok] assms(2) by (intro unat_of_nat16) simp
  note R = heap_read_refines [OF ok, of "of_nat i" 256, unfolded i]
  show ?thesis
  proof (cases "v_slots (frame_view f) ! i")
    case None
    then show ?thesis using R assms(2) by (simp add: spec_read_def spec_slot_def)
  next
    case (Some t)
    obtain h d c where t: "t = (h, d, c)" by (cases t)
    have "length d \<le> 256" using slot_rows_mem [OF assms(2), of h d c] Some t assms(1) by (simp add: scannable_def)
    then show ?thesis using R Some t assms by (auto simp: spec_read_def spec_slot_def scannable_def)
  qed
qed

lemma full_rows_scannable:
  assumes "heap_ok f" and "\<forall>r \<in> set (slot_rows (frame_view f)). length r = 256"
  shows "scannable f"
proof -
  have "heap_read_tuple f (of_nat i) True 256 \<noteq> Inl Fault" if i: "i < length (v_slots (frame_view f))" for i
  proof -
    have u: "unat (of_nat i :: u16) = i" using slots_small [OF assms(1)] i by (intro unat_of_nat16) simp
    show ?thesis
      using heap_read_refines [OF assms(1), of "of_nat i" 256, unfolded u] i assms(2) slot_rows_mem [OF i]
      by (auto simp: spec_read_def spec_slot_def split: option.splits if_splits)
  qed
  with assms show ?thesis by (simp add: scannable_def)
qed

lemma scan_pk_rows:
  assumes "scannable f" and "\<forall>i \<in> set xs. i < length (v_slots (frame_view f))"
  shows "scan_pk f pk xs = Inr (\<exists>r \<in> set (List.map_filter (\<lambda>i. map_option (\<lambda>(h, d, c). d) (v_slots (frame_view f) ! i)) xs). 8 \<le> length r \<and> row_key r = pk)"
  using assms(2)
proof (induction xs)
  case Nil
  then show ?case by simp
next
  case (Cons i xs)
  have i: "i < length (v_slots (frame_view f))" using Cons.prems by simp
  note R = scannable_read [OF assms(1) i]
  have b: "(of_nat KDS_EXEC_ROW_SCAN_BUF :: u16) = 256" by (simp add: KDS_EXEC_ROW_SCAN_BUF_def)
  show ?case
  proof (cases "v_slots (frame_view f) ! i")
    case None
    then show ?thesis using R Cons b by simp
  next
    case (Some t)
    obtain h d c where t: "t = (h, d, c)" by (cases t)
    obtain rest where r: "heap_read_tuple f (of_nat i) True 256 = Inr (h, d @ rest)" using R Some t by auto
    have l: "length d = unat (data_len h)" using tuple_len [OF _ i] assms(1) Some t by (auto simp: scannable_def)
    have e: "data_len h < 8 \<longleftrightarrow> length d < 8" using l by (simp add: word_less_nat_alt)
    have k: "\<not> length d < 8 \<Longrightarrow> dec64 (take 8 (d @ rest)) = row_key d" by (simp add: row_key_def)
    show ?thesis using r Cons b Some t e k by auto
  qed
qed

lemma scan_pk_spec:
  assumes "scannable f"
  shows "scan_pk f pk [0 ..< length (v_slots (frame_view f))] = Inr (pk \<in> set (page_keys f))"
proof -
  have "scan_pk f pk [0 ..< length (v_slots (frame_view f))] = Inr (\<exists>r \<in> set (slot_rows (frame_view f)). 8 \<le> length r \<and> row_key r = pk)"
    using scan_pk_rows [OF assms, of "[0 ..< length (v_slots (frame_view f))]" pk]
    by (simp only: map_filter_nth slot_rows_def) simp
  then show ?thesis by (auto simp: page_keys_def)
qed

lemma scan_page_for_pk:
  assumes "pool_wf s" and "heap_chain s (as @ p # bs)" and "scannable (cat_frame s p)"
  shows "kds_heap_scan_page_for_pk env p pk s = (Inr (pk \<in> set (page_keys (cat_frame s p)), case bs of [] \<Rightarrow> 0 | q # _ \<Rightarrow> q), s)"
proof -
  obtain i where i: "pmap s p = Some i" "heap_ok (pframes s i)" "cat_frame s p = pframes s i" using chain_page [OF assms(2), of p] by auto
  obtain kp where kp: "fr_kp (pframes s i) = Some kp" using pool_wf_map(4) [OF assms(1) i(1)] by (auto simp: frame_loaded_def)
  have nx: "v_next (frame_view (cat_frame s p)) = (case bs of [] \<Rightarrow> 0 | q # _ \<Rightarrow> q)"
    using chain_next [of s as p bs] assms(2) by (simp add: heap_chain_def next_page_def)
  show ?thesis
    unfolding kds_heap_scan_page_for_pk_def
  proof (rule scan_page_eq [OF assms(1) i(1,2)])
    fix kp' :: kds_page
    show "rbind (scan_pk ((pframes s i)\<lparr>fr_kp := Some kp'\<rparr>) pk [0 ..< length (v_slots (frame_view (pframes s i)))])
        (\<lambda>dup. rbind (heap_get_next_page_id ((pframes s i)\<lparr>fr_kp := Some kp'\<rparr>)) (\<lambda>nxt. Inr (dup, nxt)))
      = Inr (pk \<in> set (page_keys (cat_frame s p)), case bs of [] \<Rightarrow> 0 | q # _ \<Rightarrow> q)"
      using scan_pk_spec [OF assms(3), of pk] kp nx i heap_next [OF i(2)] by (simp add: scannable_kp)
  qed simp
qed

abbreviation cursor_at :: "u64 list \<Rightarrow> u64" where
  "cursor_at qs \<equiv> (case qs of [] \<Rightarrow> 0 | q # _ \<Rightarrow> q)"

definition same_job :: "kds_heap_insert_exec \<Rightarrow> kds_heap_insert_exec \<Rightarrow> bool" where
  "same_job ex ex' \<longleftrightarrow> hi_rel ex' = hi_rel ex \<and> hi_data ex' = hi_data ex \<and> hi_data_len ex' = hi_data_len ex \<and> hi_xid ex' = hi_xid ex
     \<and> new_pk ex' = new_pk ex \<and> hi_phase ex' = hi_phase ex"

lemma same_job_refl [simp]: "same_job ex ex" by (simp add: same_job_def)

lemma same_job_trans: "same_job a b \<Longrightarrow> same_job b c \<Longrightarrow> same_job a c" by (simp add: same_job_def)

lemma same_job_upd [simp]:
  "same_job ex (ex\<lparr>units_done := u\<rparr>)" "same_job ex (ex\<lparr>cursor_page_id := p\<rparr>)" "same_job ex (ex\<lparr>units_done := u, cursor_page_id := p\<rparr>)"
  "same_job ex (ex\<lparr>ex_ret := r\<rparr>)"
  by (simp_all add: same_job_def)

definition free_of_key :: "'z cat_state_scheme \<Rightarrow> u64 \<Rightarrow> u64 list \<Rightarrow> bool" where
  "free_of_key s pk ps \<longleftrightarrow> (\<forall>p \<in> set ps. pk \<notin> set (page_keys (cat_frame s p)))"

lemma free_of_key_simps [simp]:
  "free_of_key s pk []" "free_of_key s pk (p # ps) \<longleftrightarrow> pk \<notin> set (page_keys (cat_frame s p)) \<and> free_of_key s pk ps"
  "free_of_key s pk (ps @ qs) \<longleftrightarrow> free_of_key s pk ps \<and> free_of_key s pk qs"
  by (auto simp: free_of_key_def)

lemma expired_run:
  fixes s :: "'z sched_state_scheme"
  obtains b where "kds_exec_slice_expired senv ex s = (Inr b, s\<lparr>clock := Suc (clock s)\<rparr>)" "b \<longleftrightarrow> deadline_ns ex \<le> ktime senv (clock s)"
  by (simp add: kds_exec_slice_expired_def ktime_get_ns_def call_defs)

lemma free_of_key_clock [simp]: "free_of_key (s\<lparr>clock := t\<rparr> :: 'z sched_state_scheme) = free_of_key s"
  by (simp add: free_of_key_def fun_eq_iff)

definition dup_outcome :: "'z cat_state_scheme \<Rightarrow> u64 \<Rightarrow> u64 list \<Rightarrow> kds_exec_result \<Rightarrow> kds_heap_insert_exec \<Rightarrow> bool" where
  "dup_outcome s pk qs r ex' \<longleftrightarrow> (case r of KDS_EXEC_ERROR \<Rightarrow> \<not> free_of_key s pk qs \<and> ex_ret ex' = Some EEXIST
     | KDS_EXEC_DONE \<Rightarrow> free_of_key s pk qs
     | KDS_EXEC_CONTINUE \<Rightarrow> \<exists>xs ys. qs = xs @ ys \<and> xs \<noteq> [] \<and> ys \<noteq> [] \<and> free_of_key s pk xs \<and> cursor_page_id ex' = hd ys)"

lemma dup_outcome_clock [simp]: "dup_outcome (s\<lparr>clock := t\<rparr> :: 'z sched_state_scheme) = dup_outcome s"
  unfolding dup_outcome_def [abs_def] free_of_key_clock ..

lemma dup_outcome_Cons:
  assumes "dup_outcome s pk qs r ex'" and "pk \<notin> set (page_keys (cat_frame s q))"
  shows "dup_outcome s pk (q # qs) r ex'"
proof (cases r)
  case KDS_EXEC_CONTINUE
  then obtain xs ys where "qs = xs @ ys" "xs \<noteq> []" "ys \<noteq> []" "free_of_key s pk xs" "cursor_page_id ex' = hd ys"
    using assms(1) by (auto simp: dup_outcome_def)
  then show ?thesis using KDS_EXEC_CONTINUE assms(2) by (simp add: dup_outcome_def, intro exI [of _ "q # xs"] exI [of _ ys]) simp
qed (use assms in \<open>auto simp: dup_outcome_def\<close>)

text \<open>
  The scan visits pages from the cursor on. It ends with the duplicate, at the end of the chain, or, when the slice is
  used up, in front of a page it has not visited; it changes nothing but the clock.
\<close>

lemma dup_scan_spec:
  fixes s :: "'z sched_state_scheme"
  assumes "pool_wf s" and "heap_chain s (as @ qs)" and "\<forall>p \<in> set qs. scannable (cat_frame s p)" and "cursor_page_id ex = cursor_at qs" and "length qs < n"
  shows "\<exists>r ex' t. heap_insert_run_dup_scan env senv n ex s = (Inr (Some (r, ex')), s\<lparr>clock := t\<rparr>) \<and> same_job ex ex'
    \<and> dup_outcome s (new_pk ex) qs r ex'"
  using assms
proof (induction n arbitrary: as qs ex s)
  case (Suc n as qs ex s)
  show ?case
  proof (cases qs)
    case Nil
    have "heap_insert_run_dup_scan env senv (Suc n) ex s = (Inr (Some (KDS_EXEC_DONE, ex)), s\<lparr>clock := clock s\<rparr>)"
      using Nil Suc.prems(4) by (simp add: sret_def)
    then show ?thesis using Nil by (intro exI [of _ KDS_EXEC_DONE] exI [of _ ex] exI [of _ "clock s"]) (simp add: dup_outcome_def)
  next
    case (Cons q qs')
    have q0: "q \<noteq> 0" and cur: "cursor_page_id ex = q" using Suc.prems(2,4) Cons by (auto simp: heap_chain_def)
    have sc: "kds_heap_scan_page_for_pk env q (new_pk ex) s = (Inr (new_pk ex \<in> set (page_keys (cat_frame s q)), cursor_at qs'), s)"
      by (rule scan_page_for_pk [OF Suc.prems(1), of as]) (use Suc.prems(2,3) Cons in auto)
    let ?ex = "(unit_done ex)\<lparr>cursor_page_id := cursor_at qs'\<rparr>"
    have ch: "heap_chain s ((as @ [q]) @ qs')" using Suc.prems(2) Cons by simp
    show ?thesis
    proof (cases "new_pk ex \<in> set (page_keys (cat_frame s q))")
      case True
      have "heap_insert_run_dup_scan env senv (Suc n) ex s = (Inr (Some (KDS_EXEC_ERROR, ex\<lparr>ex_ret := Some EEXIST\<rparr>)), s\<lparr>clock := clock s\<rparr>)"
        using sc True q0 cur by (simp add: sattempt_run exec_error_def sret_def)
      then show ?thesis using Cons True by (intro exI [of _ KDS_EXEC_ERROR] exI [of _ "ex\<lparr>ex_ret := Some EEXIST\<rparr>"] exI [of _ "clock s"]) (simp add: dup_outcome_def)
    next
      case False
      have run: "heap_insert_run_dup_scan env senv (Suc n) ex s = (if cursor_at qs' = 0 then heap_insert_run_dup_scan env senv n ?ex s
          else sbind (kds_exec_slice_expired senv ?ex) (\<lambda>b. if b then sret (Some (KDS_EXEC_CONTINUE, ?ex)) else heap_insert_run_dup_scan env senv n ?ex) s)"
        using sc False q0 cur by (simp add: sattempt_run Let_def)
      have IH: "\<exists>r ex' t. heap_insert_run_dup_scan env senv n ?ex (s\<lparr>clock := u\<rparr>) = (Inr (Some (r, ex')), s\<lparr>clock := t\<rparr>) \<and> same_job ex ex'
        \<and> dup_outcome s (new_pk ex) qs r ex'" for u
      proof -
        have j: "same_job ex ?ex" by (simp add: same_job_def)
        obtain r ex' t where r: "heap_insert_run_dup_scan env senv n ?ex (s\<lparr>clock := u\<rparr>) = (Inr (Some (r, ex')), s\<lparr>clock := t\<rparr>)"
          "same_job ?ex ex'" "dup_outcome s (new_pk ex) qs' r ex'"
          using Suc.IH [of "s\<lparr>clock := u\<rparr>" "as @ [q]" qs' ?ex] Suc.prems(1,3,5) ch Cons by (auto simp del: append_assoc)
        then show ?thesis using dup_outcome_Cons [OF r(3) False] same_job_trans [OF j r(2)] Cons by blast
      qed
      show ?thesis
      proof (cases qs')
        case Nil
        then show ?thesis using IH [of "clock s"] run by simp
      next
        case (Cons q' qs'')
        have z: "q' \<noteq> 0" using Suc.prems(2) \<open>qs = q # qs'\<close> Cons by (auto simp: heap_chain_def)
        obtain b where b: "kds_exec_slice_expired senv ?ex s = (Inr b, s\<lparr>clock := Suc (clock s)\<rparr>)" using expired_run by blast
        show ?thesis
        proof (cases b)
          case True
          then have "heap_insert_run_dup_scan env senv (Suc n) ex s = (Inr (Some (KDS_EXEC_CONTINUE, ?ex)), s\<lparr>clock := Suc (clock s)\<rparr>)"
            using run b z Cons by (simp add: sbind_def sret_def)
          then show ?thesis using \<open>qs = q # qs'\<close> Cons False
            by (intro exI [of _ KDS_EXEC_CONTINUE] exI [of _ ?ex] exI [of _ "Suc (clock s)"])
               (simp add: same_job_def dup_outcome_def, intro exI [of _ "[q]"] exI [of _ "q' # qs''"], simp)
        next
          case False
          then have "heap_insert_run_dup_scan env senv (Suc n) ex s = heap_insert_run_dup_scan env senv n ?ex (s\<lparr>clock := Suc (clock s)\<rparr>)"
            using run b z Cons by (simp add: sbind_def)
          then show ?thesis using IH [of "Suc (clock s)"] by simp
        qed
      qed
    qed
  qed
qed simp

section \<open>Changing pages of a chain\<close>

lemma chain_cat: "heap_chain s ps \<Longrightarrow> p \<in> set ps \<Longrightarrow> pmap s p = Some i \<Longrightarrow> cat_frame s p = pframes s i \<and> heap_ok (pframes s i) \<and> i \<notin> set (ring_items s)"
  by (auto simp: heap_chain_def cat_frame_def)

definition fits :: "u8 list \<Rightarrow> kds_frame \<Rightarrow> bool" where
  "fits d f \<longleftrightarrow> 33 + length d \<le> page_room f"

lemma heap_insert_cases:
  assumes "heap_ok f" and "length d \<le> 8192"
  shows "if fits d f
    then \<exists>tid f'. heap_insert_tuple f (Some d) (of_nat (length d)) xid = Inr (tid, f') \<and> frame_keeps f f' \<and> heap_ok f'
      \<and> tid_page_id tid = frame_kp_id f \<and> slot_holds f' (unat (tid_slot tid)) d
      \<and> slot_rows (frame_view f') = slot_rows (frame_view f) @ [d] \<and> v_next (frame_view f') = v_next (frame_view f)
    else heap_insert_tuple f (Some d) (of_nat (length d)) xid = fails ENOSPC"
proof -
  note R = heap_insert_refines [OF assms(1), of d xid 0 0]
  have l: "length d < 65536" using assms(2) by simp
  show ?thesis
  proof (cases "heap_insert_tuple f (Some d) (of_nat (length d)) xid")
    case (Inl e)
    then show ?thesis using R [OF l] assms(2) by (auto simp: heap_insert_tuple_def spec_insert_def fits_def page_room_def split: if_splits)
  next
    case (Inr x)
    obtain tid f' where x: "x = (tid, f')" by (cases x)
    have k: "frame_keeps f f'" using insert_puts [of f] Inr x frame_keeps_put by (fastforce simp: heap_insert_tuple_def)
    have "33 + length d \<le> v_free (frame_view f) \<and> heap_ok f' \<and> tid_page_id tid = frame_kp_id f \<and> unat (tid_slot tid) = length (v_slots (frame_view f)) \<and> frame_view f' = (frame_view f)\<lparr>v_slots := v_slots (frame_view f) @
        [Some (mk_hdr xid 0 0 (length d), d, length d)], v_free := v_free (frame_view f) - (33 + length d)\<rparr>"
      using R [OF l] Inr x assms(2) by (auto simp: heap_insert_tuple_def spec_insert_def split: if_splits)
    then show ?thesis using Inr x k by (simp add: fits_def page_room_def slot_rows_def slot_holds_def map_filter_append)
  qed
qed

lemma store_ok_put:
  assumes "store_ok s" and "pmap s p = Some i" and "frame_keeps (pframes s i) f"
  shows "store_ok (put_frame i f s)" "ring_items (put_frame i f s) = ring_items s"
proof -
  have pw: "pool_wf s" using assms(1) by (rule store_ok_pool)
  have m: "pool_state.more (put_frame i f s) = pool_state.more s" by simp
  show "ring_items (put_frame i f s) = ring_items s" using ring_more [OF m] by simp
  show "store_ok (put_frame i f s)"
    using assms(1) pool_wf_put [OF pw assms(2,3)] ring_more [OF m] alloc_of_more [OF m] hdrs_ok_put [OF _ pw assms(2,3)]
    by (simp add: store_ok_def alloc_wf_def)
qed

text \<open>Pin counts do not matter either.\<close>

lemma store_ok_unpin:
  assumes "store_ok s" and "pmap s p = Some i"
  shows "\<exists>s' kp. kds_buf_unpin i s = (Inr (), s') \<and> store_ok s' \<and> pmap s' = pmap s \<and> ring_items s' = ring_items s \<and> pool_state.more s' = pool_state.more s
    \<and> nalloc s' = nalloc s \<and> pframes s' = (pframes s)(i := (pframes s i)\<lparr>fr_kp := Some kp\<rparr>) \<and> map_option unpin_kpage (fr_kp (pframes s i)) = Some kp"
proof -
  have pw: "pool_wf s" using assms(1) by (rule store_ok_pool)
  obtain kp where kp: "fr_kp (pframes s i) = Some kp" using pool_wf_map(4) [OF pw assms(2)] by (auto simp: frame_loaded_def)
  let ?s = "upd_frame i (\<lambda>f. f\<lparr>fr_kp := Some (unpin_kpage kp)\<rparr>) s"
  have m: "pool_state.more ?s = pool_state.more s" by simp
  have "pool_wf ?s" using pw pool_wf_id [OF pw, of i] kp by (intro pool_wf_touch) (auto simp: frame_loaded_def unpin_kpage_def)
  moreover have "hdrs_ok ?s" using assms kp by (auto simp: store_ok_def hdrs_ok_def unpin_kpage_def)
  ultimately have "store_ok ?s" using assms(1) ring_more [OF m] alloc_of_more [OF m] by (simp add: store_ok_def alloc_wf_def)
  then show ?thesis using kp ring_more [OF m] by (intro exI [of _ ?s] exI [of _ "unpin_kpage kp"]) (simp add: kds_buf_unpin_def upd_frame_def)
qed

text \<open>One page of a chain gets new contents but keeps its link.\<close>

lemma chain_replace:
  assumes wf: "pool_wf s" and ch: "heap_chain s ps" and p: "p \<in> set ps" "pmap s p = Some i" and m: "pmap s' = pmap s" "ring_items s' = ring_items s"
    and f: "pframes s' = (pframes s)(i := f)" and ok: "heap_ok f" "v_next (frame_view f) = next_page s p"
  shows "heap_chain s' ps" "\<And>q j. pmap s q = Some j \<Longrightarrow> q \<noteq> p \<Longrightarrow> cat_frame s' q = cat_frame s q" "cat_frame s' p = f"
proof -
  show other: "cat_frame s' q = cat_frame s q" if "pmap s q = Some j" "q \<noteq> p" for q j
    using that f m pmap_inj [OF wf p(2), of q] by (auto simp: cat_frame_def)
  show self: "cat_frame s' p = f" using p f m by (simp add: cat_frame_def)
  have "next_page s' q = next_page s q" if "q \<in> set ps" for q
    using that ch other self ok by (cases "q = p") (auto simp: next_page_def heap_chain_def)
  then have "map (next_page s') ps = map (next_page s) ps" by simp
  then show "heap_chain s' ps" using ch f ok(1) m unfolding heap_chain_def chain_links_def by auto
qed

lemma table_rows_cong: "(\<And>q. q \<in> set ps \<Longrightarrow> cat_frame s' q = cat_frame s q) \<Longrightarrow> table_rows s' ps = table_rows s ps"
  by (simp add: table_rows_def cong: map_cong)

lemma table_rows_append [simp]: "table_rows s (xs @ ys) = table_rows s xs @ table_rows s ys" "table_rows s (p # ys) = slot_rows (frame_view (cat_frame s p)) @ table_rows s ys"
  "table_rows s [] = []"
  by (simp_all add: table_rows_def)

lemma rows_replace:
  assumes "heap_chain s (as @ p # bs)" and "\<And>q j. pmap s q = Some j \<Longrightarrow> q \<noteq> p \<Longrightarrow> cat_frame s' q = cat_frame s q"
  shows "table_rows s' (as @ p # bs) = table_rows s as @ slot_rows (frame_view (cat_frame s' p)) @ table_rows s bs"
proof -
  have "cat_frame s' q = cat_frame s q" if "q \<in> set as \<union> set bs" for q
  proof -
    have "q \<in> set (as @ p # bs)" using that by auto
    then obtain j where "pmap s q = Some j" by (rule chain_page [OF assms(1)])
    moreover have "q \<noteq> p" using assms(1) that by (auto simp: heap_chain_def)
    ultimately show ?thesis by (rule assms(2))
  qed
  then have "table_rows s' as = table_rows s as" "table_rows s' bs = table_rows s bs" by (auto intro: table_rows_cong)
  then show ?thesis by simp
qed

text \<open>A chain that grows at its end.\<close>

lemma chain_snoc:
  assumes ch: "heap_chain s (xs @ [p])" and m: "pmap s' = pmap s" and r: "set (ring_items s') \<subseteq> set (ring_items s)"
    and q: "pmap s q = Some j" "q \<notin> set (xs @ [p])" "q \<noteq> 0" "j \<notin> set (ring_items s')" "heap_ok (pframes s' j)" "next_page s' q = 0"
    and old: "\<And>a. a \<in> set xs \<Longrightarrow> cat_frame s' a = cat_frame s a" and p: "next_page s' p = q" "heap_ok (cat_frame s' p)"
  shows "heap_chain s' (xs @ [p, q])"
proof -
  have "map (next_page s) xs @ [next_page s p] = tl (xs @ [p]) @ [0]" using ch by (simp add: heap_chain_def chain_links_def)
  then have l: "map (next_page s) xs = tl (xs @ [p])" by simp
  have "map (next_page s') xs = map (next_page s) xs" using old by (simp add: next_page_def)
  then have "map (next_page s') xs = tl (xs @ [p])" using l by (rule trans)
  then have "chain_links s' (xs @ [p, q])" using p(1) q(6) by (cases xs) (simp_all add: chain_links_def del: list.map_id)
  moreover have "\<exists>i. pmap s' a = Some i \<and> i \<notin> set (ring_items s') \<and> heap_ok (pframes s' i)" if a: "a \<in> set (xs @ [p, q])" for a
  proof (cases "a = q")
    case True
    then show ?thesis using q m by simp
  next
    case False
    then obtain i where i: "pmap s a = Some i" "i \<notin> set (ring_items s)" "heap_ok (pframes s i)" using ch a by (auto simp: heap_chain_def)
    have "heap_ok (cat_frame s' a)" using a False old [of a] p(2) i by (auto simp: cat_frame_def)
    then show ?thesis using i r m by (auto simp: cat_frame_def)
  qed
  ultimately show ?thesis using ch q(2,3) by (auto simp: heap_chain_def)
qed

section \<open>Finding a page for the row\<close>

text \<open>The row an executor is to insert, and what a successful search leaves.\<close>

definition job_row :: "kds_heap_insert_exec \<Rightarrow> u8 list \<Rightarrow> bool" where
  "job_row ex d \<longleftrightarrow> hi_data ex = Some d \<and> hi_data_len ex = of_nat (length d) \<and> 8 \<le> length d \<and> length d \<le> 8102"

lemma job_row_job: "same_job ex ex' \<Longrightarrow> job_row ex' d = job_row ex d"
  by (simp add: same_job_def job_row_def)

definition inserted :: "'z sched_state_scheme \<Rightarrow> 'z sched_state_scheme \<Rightarrow> u64 list \<Rightarrow> u64 list \<Rightarrow> u8 list \<Rightarrow> bool" where
  "inserted s s' ps ps' d \<longleftrightarrow> store_ok s' \<and> heap_chain s' ps' \<and> pmap s' = pmap s \<and> mset (table_rows s' ps') = add_mset d (mset (table_rows s ps))
     \<and> (\<forall>q j. q \<notin> set ps' \<longrightarrow> pmap s q = Some j \<longrightarrow> cat_frame s' q = cat_frame s q) \<and> g_wal s' = g_wal s \<and> nalloc s' = nalloc s"

lemma sched_more:
  fixes s s' :: "'z sched_state_scheme"
  assumes "pool_state.more s' = pool_state.more s"
  shows "g_wal s' = g_wal s" "clock s' = clock s"
  using assms by (cases s, cases s', simp)+

lemma put_frame_fields [simp]:
  fixes s :: "'z sched_state_scheme"
  shows "nalloc (put_frame i f s) = nalloc s" "g_wal (put_frame i f s) = g_wal s" "nalloc (pinned i kp s) = nalloc s" "g_wal (pinned i kp s) = g_wal s"
  by (simp_all add: put_frame_def pinned_def upd_frame_def)

lemma on_frame_ok: "op (pframes s i) = Inr (x, f) \<Longrightarrow> on_frame i op s = (Inr x, put_frame i f s)"
  by (simp add: on_frame_def put_frame_def)

lemma on_frame_fails: "op (pframes s i) = Inl e \<Longrightarrow> on_frame i op s = (Inl e, s)"
  by (simp add: on_frame_def)

lemma the_kp_run: "fr_kp (pframes s i) = Some kp \<Longrightarrow> the_kp i s = (Inr kp, s)"
  by (simp add: the_kp_def call_defs)

lemma sbind_run: "m s = (Inr x, s') \<Longrightarrow> sbind m f s = f x s'"
  by (simp add: sbind_def)

lemma page_loaded:
  assumes "store_ok s" and "pmap s p = Some i"
  obtains kp pg where "fr_kp (pframes s i) = Some kp" "fr_page (pframes s i) = Some pg" "kp_id kp = p" "page_hdr_valid (kp_hdr kp)"
  using pool_wf_map(4) [OF store_ok_pool [OF assms(1)] assms(2)] assms by (auto simp: frame_loaded_def store_ok_def hdrs_ok_def)

text \<open>Pinning, changing and unpinning a page.\<close>

lemma pinned_change:
  assumes kp: "fr_kp (pframes s i) = Some kp" and k: "frame_keeps ((pframes s i)\<lparr>fr_kp := Some (pin_kpage kp)\<rparr>) f"
  shows "\<exists>g kp'. kds_buf_unpin i (put_frame i f s) = (Inr (), put_frame i g s) \<and> frame_keeps (pframes s i) g \<and> g = f\<lparr>fr_kp := Some kp'\<rparr>
    \<and> fr_kp f \<noteq> None"
proof -
  obtain kp' where kp': "fr_kp f = Some kp'" using k by (auto simp: frame_keeps_def)
  have "frame_keeps (pframes s i) (f\<lparr>fr_kp := Some (unpin_kpage kp')\<rparr>)"
    using k kp kp' by (auto simp: frame_keeps_def pin_kpage_def unpin_kpage_def)
  then show ?thesis using unpin_put [OF kp'] kp' by blast
qed

definition tail_done :: "kds_heap_insert_exec \<Rightarrow> kds_heap_tid \<Rightarrow> u64 \<Rightarrow> bool \<Rightarrow> kds_heap_insert_exec" where
  "tail_done ex tid p b = unit_done (ex\<lparr>hi_out_tid := tid, wal_target_page_id := p, wal_target_offset := 0, wal_need_init_page := b\<rparr>)"

lemma tail_hit:
  fixes s :: "'z sched_state_scheme"
  assumes so: "store_ok s" and ch: "heap_chain s (as @ p # bs)" and cur: "cursor_page_id ex = p" and d: "job_row ex d" and fit: "fits d (cat_frame s p)"
  shows "\<exists>tid s'. heap_insert_run_find_tail env senv (Suc n) ex s = (Inr (Some (KDS_EXEC_DONE, tail_done ex tid p False)), s')
    \<and> inserted s s' (as @ p # bs) (as @ p # bs) d \<and> tid_page_id tid = p \<and> row_at s' tid d"
proof -
  have wf: "pool_wf s" using so by (rule store_ok_pool)
  obtain i where i: "pmap s p = Some i" "heap_ok (pframes s i)" "cat_frame s p = pframes s i" "p \<noteq> 0" using chain_page [OF ch, of p] by auto
  obtain kp pg where kp: "fr_kp (pframes s i) = Some kp" "kp_id kp = p" using page_loaded [OF so i(1)] by metis
  let ?f = "(pframes s i)\<lparr>fr_kp := Some (pin_kpage kp)\<rparr>"
  have ok: "heap_ok ?f" "fits d ?f" using i kp fit by (simp_all add: fits_def page_room_def)
  obtain tid f' where f': "heap_insert_tuple ?f (hi_data ex) (hi_data_len ex) (hi_xid ex) = Inr (tid, f')" "frame_keeps ?f f'" "heap_ok f'"
    "slot_rows (frame_view f') = slot_rows (frame_view (pframes s i)) @ [d]" "v_next (frame_view f') = v_next (frame_view (pframes s i))"
    and tid: "tid_page_id tid = p" "slot_holds f' (unat (tid_slot tid)) d"
    using heap_insert_cases [OF ok(1), of d "hi_xid ex"] ok(2) d kp by (auto simp: job_row_def frame_kp_id_def pin_kpage_def)
  obtain kp' where kp': "fr_kp f' = Some kp'" "kp_id kp' = p" using f'(2) kp by (auto simp: frame_keeps_def pin_kpage_def)
  obtain g kg where g: "kds_buf_unpin i (put_frame i f' s) = (Inr (), put_frame i g s)" "frame_keeps (pframes s i) g" "g = f'\<lparr>fr_kp := Some kg\<rparr>"
    using pinned_change [OF kp(1) f'(2)] by blast
  have v: "heap_ok g" "frame_view g = frame_view f'" using g(3) f'(3) kp' by simp_all
  have run: "heap_insert_run_find_tail env senv (Suc n) ex s = (Inr (Some (KDS_EXEC_DONE, tail_done ex tid p False)), put_frame i g s)"
    using load_root [OF wf i(1) kp(1), of env] cur kp'(2)
    by (simp add: sattempt_run pinned_put on_frame_ok f'(1) the_kp_run kp'(1) sbind_run g(1) tail_done_def sret_def)
  have fr: "pframes (put_frame i g s) = (pframes s)(i := g)" by (simp add: fun_eq_iff)
  note so' = store_ok_put [OF so i(1) g(2)]
  note R = chain_replace [OF wf ch _ i(1) _ so'(2) fr v(1)]
  have nx: "v_next (frame_view g) = next_page s p" using v f' i by (simp add: next_page_def)
  have "mset (table_rows (put_frame i g s) (as @ p # bs)) = add_mset d (mset (table_rows s (as @ p # bs)))"
    using rows_replace [OF ch, of "put_frame i g s"] R(2,3) nx v(2) f'(4) i(3) by simp
  then have "inserted s (put_frame i g s) (as @ p # bs) (as @ p # bs) d"
    using so' R nx sched_more [of "put_frame i g s" s] by (auto simp: inserted_def)
  moreover have "row_at (put_frame i g s) tid d" using tid v(2) i(1) so'(2) by (simp add: row_at_def slot_holds_def cat_frame_def)
  ultimately show ?thesis using run tid(1) by blast
qed

lemma tail_full:
  fixes s :: "'z sched_state_scheme"
  assumes so: "store_ok s" and ch: "heap_chain s (as @ p # bs)" and cur: "cursor_page_id ex = p" and d: "job_row ex d" and full: "\<not> fits d (cat_frame s p)"
  obtains i kp where "pmap s p = Some i" "fr_kp (pframes s i) = Some kp"
    "heap_insert_run_find_tail env senv (Suc n) ex s = (case bs of
      [] \<Rightarrow> grow_chain i ex (pinned i kp s)
    | q # _ \<Rightarrow> sbind (kds_exec_slice_expired senv ((unit_done ex)\<lparr>cursor_page_id := q\<rparr>)) (\<lambda>expired.
        if expired then sret (Some (KDS_EXEC_CONTINUE, (unit_done ex)\<lparr>cursor_page_id := q\<rparr>))
        else heap_insert_run_find_tail env senv n ((unit_done ex)\<lparr>cursor_page_id := q\<rparr>)) s)"
proof -
  have wf: "pool_wf s" using so by (rule store_ok_pool)
  obtain i where i: "pmap s p = Some i" "heap_ok (pframes s i)" "cat_frame s p = pframes s i" "p \<noteq> 0" using chain_page [OF ch, of p] by auto
  obtain kp pg where kp: "fr_kp (pframes s i) = Some kp" "kp_id kp = p" using page_loaded [OF so i(1)] by metis
  let ?f = "(pframes s i)\<lparr>fr_kp := Some (pin_kpage kp)\<rparr>"
  have ok: "heap_ok ?f" "\<not> fits d ?f" using i kp full by (simp_all add: fits_def page_room_def)
  have ins: "heap_insert_tuple ?f (hi_data ex) (hi_data_len ex) (hi_xid ex) = fails ENOSPC"
    using heap_insert_cases [OF ok(1), of d "hi_xid ex"] ok(2) d kp by (auto simp: job_row_def)
  have nx: "heap_get_next_page_id ?f = Inr (cursor_at bs)"
    using heap_next [OF ok(1)] chain_next [of s as p bs] ch i kp by (simp add: heap_chain_def next_page_def)
  have nz: "q \<noteq> 0" if "bs = q # cs" for q cs using ch that by (auto simp: heap_chain_def)
  have "heap_insert_run_find_tail env senv (Suc n) ex s = (case bs of
      [] \<Rightarrow> grow_chain i ex (pinned i kp s)
    | q # _ \<Rightarrow> sbind (kds_exec_slice_expired senv ((unit_done ex)\<lparr>cursor_page_id := q\<rparr>)) (\<lambda>expired.
        if expired then sret (Some (KDS_EXEC_CONTINUE, (unit_done ex)\<lparr>cursor_page_id := q\<rparr>))
        else heap_insert_run_find_tail env senv n ((unit_done ex)\<lparr>cursor_page_id := q\<rparr>)) s)"
    using load_root [OF wf i(1) kp(1), of env] cur ins nx nz unpin_pinned [OF kp(1)]
    by (cases bs) (simp_all add: sattempt_run pinned_put on_frame_fails sbind_run sget_def slift_def Let_def)
  then show thesis by (rule that [OF i(1) kp(1)])
qed

section \<open>Growing the chain\<close>

lemma store_ok_pinned:
  assumes "store_ok s" and "pmap s p = Some i" and "fr_kp (pframes s i) = Some kp"
  shows "store_ok (pinned i kp s)" "ring_items (pinned i kp s) = ring_items s" "pmap (pinned i kp s) = pmap s"
    "pframes (pinned i kp s) = (pframes s)(i := (pframes s i)\<lparr>fr_kp := Some (pin_kpage kp)\<rparr>)"
proof -
  have pw: "pool_wf s" using assms(1) by (rule store_ok_pool)
  have m: "pool_state.more (pinned i kp s) = pool_state.more s" by (simp add: pinned_def)
  have "pool_wf (pinned i kp s)" unfolding pinned_def using pw pool_wf_id [OF pw, of i] assms(3)
    by (intro pool_wf_touch) (auto simp: frame_loaded_def pin_kpage_def)
  moreover have "hdrs_ok (pinned i kp s)" using assms by (auto simp: store_ok_def hdrs_ok_def pinned_def pin_kpage_def)
  moreover have "pmap (pinned i kp s) = pmap s" by (simp add: pinned_def)
  ultimately show "store_ok (pinned i kp s)" using assms(1) ring_more [OF m] alloc_of_more [OF m] by (simp add: store_ok_def alloc_wf_def)
  show "ring_items (pinned i kp s) = ring_items s" by (rule ring_more [OF m])
  show "pmap (pinned i kp s) = pmap s" by (simp add: pinned_def)
  show "pframes (pinned i kp s) = (pframes s)(i := (pframes s i)\<lparr>fr_kp := Some (pin_kpage kp)\<rparr>)" by (simp add: pinned_def upd_frame_def)
qed

lemma page_alloc_sched:
  fixes s :: "'z sched_state_scheme"
  assumes "kds_page_alloc t s = (r, s')"
  shows "clock s' = clock s" "nalloc s' = nalloc s"
  using assms by (auto simp: kds_page_alloc_def ring_pop_def set_page_type_def call_defs upd_frame_def split: if_splits option.splits)

lemma page_alloc_none:
  assumes "store_ok s" and "ring_items s = []"
  shows "kds_page_alloc t s = (Inr None, s)"
  using assms ring_count_empty [OF assms(2)] by (simp add: kds_page_alloc_def call_defs store_ok_def)

lemma page_alloc_store:
  fixes s :: "'z sched_state_scheme"
  assumes so: "store_ok s" and it: "ring_items s = j # js"
  shows "\<exists>s'. kds_page_alloc t s = (Inr (Some j), s') \<and> store_ok s' \<and> pmap s' = pmap s \<and> ring_items s' = js \<and> frame_keeps (pframes s j) (pframes s' j)
    \<and> (\<forall>k. k \<noteq> j \<longrightarrow> pframes s' k = pframes s k) \<and> pmap s (fr_page_id (pframes s j)) = Some j \<and> j \<notin> set js
    \<and> g_wal s' = g_wal s \<and> nalloc s' = nalloc s \<and> clock s' = clock s"
proof -
  have aw: "alloc_wf s" and g: "g_alloc s" and pw: "pool_wf s" using so by (simp_all add: store_ok_def alloc_wf_def)
  obtain s' kp where S: "kds_page_alloc t s = (Inr (Some j), s')" "alloc_wf s'" "ring_items s' = js" "pmap s' = pmap s" "g_alloc s'"
    "fr_kp (pframes s j) = Some kp" "fr_kp (pframes s' j) = Some (kp\<lparr>kp_hdr := (kp_hdr kp)\<lparr>hdr_type := t\<rparr>\<rparr>)"
    "\<forall>k. k \<noteq> j \<longrightarrow> pframes s' k = pframes s k"
    using page_alloc_pops [OF aw g it] by blast
  obtain p where p: "pmap s p = Some j" using aw it by (auto simp: alloc_wf_def ran_def)
  have pid: "fr_page_id (pframes s j) = p" using pool_wf_map(3) [OF pw p] .
  obtain pg where pg: "fr_page (pframes s j) = Some pg" using pool_wf_map(4) [OF pw p] by (auto simp: frame_loaded_def)
  note F = page_alloc_frames [OF S(1)]
  have keep: "frame_keeps (pframes s j) (pframes s' j)" using S(6,7) pg by (subst F(1)) (simp add: frame_keeps_def)
  have "page_hdr_valid (kp_hdr k)" if q: "pmap s' q = Some i" "fr_kp (pframes s' i) = Some k" for q i k
    using q S(4,6,7,8) so p by (cases "i = j") (auto simp: store_ok_def hdrs_ok_def page_hdr_valid_def)
  then have "store_ok s'" using so S(2,4,5) by (auto simp: store_ok_def hdrs_ok_def)
  moreover have "j \<notin> set js" using aw it by (simp add: alloc_wf_def)
  ultimately show ?thesis using S(1,3,4,8) keep p pid F(5) page_alloc_sched [OF S(1)] by blast
qed

lemma link_keeps: "heap_set_next_page_id f nx = Inr f' \<Longrightarrow> frame_keeps f f'"
  by (auto simp: heap_set_next_page_id_def rbind_ok_iff frame_page_kp frame_keeps_put split: option.splits)

lemma fresh_page:
  assumes "fr_kp f = Some kp" and "fr_page f = Some pg" and "page_hdr_valid (kp_hdr kp)" and "length d \<le> 8102"
  shows "\<exists>f1 tid f2. heap_init_page f = Inr f1 \<and> heap_insert_tuple f1 (Some d) (of_nat (length d)) xid = Inr (tid, f2) \<and> frame_keeps f f2
    \<and> heap_ok f2 \<and> slot_rows (frame_view f2) = [d] \<and> v_next (frame_view f2) = 0 \<and> tid_page_id tid = kp_id kp \<and> slot_holds f2 (unat (tid_slot tid)) d"
proof -
  have fp: "frame_page f = Some (kp, pg)" using assms by (simp add: frame_page_kp)
  obtain f1 where f1: "heap_init_page f = Inr f1" "heap_ok f1" "frame_view f1 = \<lparr>v_slots = [], v_free = 8135, v_next = 0\<rparr>"
    "frame_kp_id f1 = kp_id kp"
    using heap_init_ok [OF fp assms(3)] by (auto simp: heap_init_page_def)
  have k: "frame_keeps f f1" using heap_init_keeps [OF assms(1-3)] f1(1) by auto
  have "fits d f1" using f1(3) assms(4) by (simp add: fits_def page_room_def)
  then obtain tid f2 where "heap_insert_tuple f1 (Some d) (of_nat (length d)) xid = Inr (tid, f2)" "frame_keeps f1 f2" "heap_ok f2"
    "slot_rows (frame_view f2) = slot_rows (frame_view f1) @ [d]" "v_next (frame_view f2) = v_next (frame_view f1)" "tid_page_id tid = frame_kp_id f1" "slot_holds f2 (unat (tid_slot tid)) d"
    using heap_insert_cases [OF f1(2), of d xid] assms(4) by auto
  then show ?thesis using f1 frame_keeps_trans [OF k] by (auto simp: slot_rows_def)
qed

lemma grow_empty:
  assumes "store_ok s" and "pmap s p = Some i" and "fr_kp (pframes s i) = Some kp" and "ring_items s = []"
  shows "grow_chain i ex (pinned i kp s) = (Inr (Some (KDS_EXEC_ERROR, ex\<lparr>ex_ret := Some ENOSPC\<rparr>)), s)"
  using store_ok_pinned [OF assms(1-3)] assms(4) page_alloc_none [of "pinned i kp s" KDS_PAGE_TYPE_HEAP] unpin_pinned [OF assms(3)]
  by (simp add: grow_chain_def sbind_run pinned_put exec_error_def sret_def)

lemma grow_runs:
  fixes s :: "'z sched_state_scheme"
  assumes so: "store_ok s" and p: "pmap s p = Some i" "heap_ok (pframes s i)" "i \<notin> set (ring_items s)" and kp: "fr_kp (pframes s i) = Some kp"
    and it: "ring_items s = j # js" and d: "job_row ex d"
  shows "\<exists>tid q s' fi fj. grow_chain i ex (pinned i kp s) = (Inr (Some (KDS_EXEC_DONE, tail_done ex tid q True)), s') \<and> store_ok s' \<and> pmap s' = pmap s
    \<and> ring_items s' = js \<and> j \<notin> set js \<and> pframes s' = (pframes s)(i := fi, j := fj) \<and> i \<noteq> j \<and> pmap s q = Some j
    \<and> heap_ok fi \<and> frame_view fi = (frame_view (pframes s i))\<lparr>v_next := q\<rparr> \<and> heap_ok fj \<and> slot_rows (frame_view fj) = [d] \<and> v_next (frame_view fj) = 0
    \<and> g_wal s' = g_wal s \<and> nalloc s' = nalloc s \<and> tid_page_id tid = q \<and> slot_holds fj (unat (tid_slot tid)) d"
proof -
  let ?s0 = "pinned i kp s" and ?q = "fr_page_id (pframes s j)"
  let ?fi = "(pframes s i)\<lparr>fr_kp := Some (pin_kpage kp)\<rparr>"
  note P = store_ok_pinned [OF so p(1) kp]
  have ij: "i \<noteq> j" using p(3) it by auto
  obtain s1 where a: "kds_page_alloc KDS_PAGE_TYPE_HEAP ?s0 = (Inr (Some j), s1)" "store_ok s1" "pmap s1 = pmap s" "ring_items s1 = js"
    "frame_keeps (pframes s j) (pframes s1 j)" "\<forall>k. k \<noteq> j \<longrightarrow> pframes s1 k = pframes ?s0 k" "pmap s ?q = Some j" "j \<notin> set js"
    "g_wal s1 = g_wal ?s0" "nalloc s1 = nalloc ?s0"
    using page_alloc_store [OF P(1), of j js KDS_PAGE_TYPE_HEAP] it P ij by auto
  obtain kj pg where kj: "fr_kp (pframes s1 j) = Some kj" "fr_page (pframes s1 j) = Some pg" "kp_id kj = ?q" "page_hdr_valid (kp_hdr kj)"
    using page_loaded [OF a(2), of ?q j] a(3,7) by auto
  obtain f1 tid f2 where f: "heap_init_page (pframes s1 j) = Inr f1" "heap_insert_tuple f1 (hi_data ex) (hi_data_len ex) (hi_xid ex) = Inr (tid, f2)"
    "frame_keeps (pframes s1 j) f2" "heap_ok f2" "slot_rows (frame_view f2) = [d]" "v_next (frame_view f2) = 0"
    "tid_page_id tid = ?q" "slot_holds f2 (unat (tid_slot tid)) d"
    using fresh_page [OF kj(1,2,4), of d "hi_xid ex"] d kj(3) by (auto simp: job_row_def)
  obtain k2 where k2: "fr_kp f2 = Some k2" "kp_id k2 = ?q" using f(3) kj by (auto simp: frame_keeps_def)
  let ?s2 = "put_frame j f2 s1"
  note S2 = store_ok_put [OF a(2), unfolded a(3), OF a(7) f(3)]
  have i2: "pframes ?s2 i = ?fi" using a(6) ij P(4) by simp
  have oki: "heap_ok ?fi" using p(2) kp by simp
  obtain h where h: "heap_set_next_page_id ?fi ?q = Inr h" "heap_ok h" "frame_view h = (frame_view ?fi)\<lparr>v_next := ?q\<rparr>"
    using heap_link_refines [OF oki] by blast
  let ?s3 = "put_frame i h ?s2"
  have "frame_keeps (pframes ?s2 i) h" using link_keeps [OF h(1)] i2 by simp
  note S3 = store_ok_put [OF S2(1), of p i h, unfolded put_frame_simps a(3), OF p(1), folded put_frame_simps, OF this]
  have pm: "pmap ?s3 = pmap s" using a(3) by simp
  obtain s4 ki where s4: "kds_buf_unpin i ?s3 = (Inr (), s4)" "store_ok s4" "pmap s4 = pmap s" "ring_items s4 = js" "pool_state.more s4 = pool_state.more ?s3" "nalloc s4 = nalloc ?s3"
    "pframes s4 = (pframes ?s3)(i := h\<lparr>fr_kp := Some ki\<rparr>)"
    using store_ok_unpin [OF S3(1), of p i] p(1) pm S3(2) S2(2) a(4) by auto
  obtain s5 kl where s5: "kds_buf_unpin j s4 = (Inr (), s5)" "store_ok s5" "pmap s5 = pmap s" "ring_items s5 = js" "pool_state.more s5 = pool_state.more s4" "nalloc s5 = nalloc s4"
    "pframes s5 = (pframes s4)(j := (pframes s4 j)\<lparr>fr_kp := Some kl\<rparr>)"
    using store_ok_unpin [OF s4(2), of ?q j] a(7) s4 by auto
  have run: "grow_chain i ex ?s0 = (Inr (Some (KDS_EXEC_DONE, tail_done ex tid ?q True)), s5)"
    using a(1) f(1,2) k2 s4(1) s5(1) h(1) i2 ij
    by (simp add: grow_chain_def sbind_run sattempt_run on_frame_ok [of "unit_op heap_init_page"] unit_op_def on_frame_ok the_kp_run then_unpin_def sret_def tail_done_def Let_def)
  have fr: "pframes s5 = (pframes s)(i := h\<lparr>fr_kp := Some ki\<rparr>, j := f2\<lparr>fr_kp := Some kl\<rparr>)"
    using s5(7) s4(7) a(6) P(4) ij by (auto simp: fun_eq_iff)
  have hk: "fr_kp h \<noteq> None" using link_keeps [OF h(1)] by (auto simp: frame_keeps_def)
  have "nalloc s5 = nalloc s" using s5(6) s4(6) a(10) by simp
  moreover have "g_wal s5 = g_wal s" using a(9) sched_more(1) [OF s5(5)] sched_more(1) [OF s4(5)] by simp
  ultimately show ?thesis using run s5 fr ij a(7,8) h(2,3) f(4-8) hk k2(1) kp by (intro exI [of _ tid] exI [of _ ?q] exI [of _ s5] exI [of _ "h\<lparr>fr_kp := Some ki\<rparr>"] exI [of _ "f2\<lparr>fr_kp := Some kl\<rparr>"]) (simp add: slot_holds_def)
qed

definition all_full :: "'z cat_state_scheme \<Rightarrow> u8 list \<Rightarrow> u64 list \<Rightarrow> bool" where
  "all_full s d ps \<longleftrightarrow> (\<forall>p \<in> set ps. \<not> fits d (cat_frame s p))"

definition tail_outcome :: "'z sched_state_scheme \<Rightarrow> u64 list \<Rightarrow> nat \<Rightarrow> u8 list \<Rightarrow> kds_exec_result \<Rightarrow> kds_heap_insert_exec \<Rightarrow> 'z sched_state_scheme \<Rightarrow> bool" where
  "tail_outcome s ps k d r ex' s' \<longleftrightarrow> (case r of
     KDS_EXEC_DONE \<Rightarrow> \<exists>ps'. (if wal_need_init_page ex' then all_full s d ps \<and> ps' = ps @ [wal_target_page_id ex'] else ps' = ps) \<and> inserted s s' ps ps' d
       \<and> wal_target_page_id ex' \<in> set ps' \<and> \<not> (all_full s d ps \<and> ring_items s = [])
       \<and> tid_page_id (hi_out_tid ex') = wal_target_page_id ex' \<and> row_at s' (hi_out_tid ex') d
   | KDS_EXEC_ERROR \<Rightarrow> (\<exists>t. s' = s\<lparr>clock := t\<rparr>) \<and> ex_ret ex' = Some ENOSPC \<and> ring_items s = [] \<and> all_full s d ps
   | KDS_EXEC_CONTINUE \<Rightarrow> (\<exists>t. s' = s\<lparr>clock := t\<rparr>)
       \<and> (\<exists>xs ys. ps = xs @ ys \<and> ys \<noteq> [] \<and> k < length xs \<and> cursor_page_id ex' = hd ys \<and> all_full s d xs))"

lemma inserted_clock [simp]: "inserted (s\<lparr>clock := t\<rparr>) s' ps ps' d = inserted s s' ps ps' d"
  by (simp add: inserted_def)

lemma all_full_clock [simp]: "all_full (s\<lparr>clock := t\<rparr> :: 'z sched_state_scheme) d ps = all_full s d ps"
  by (simp add: all_full_def)

lemma tail_outcome_clock: "tail_outcome (s\<lparr>clock := t\<rparr>) ps k d r ex' s' = tail_outcome s ps k d r ex' s'"
  unfolding tail_outcome_def by (simp cong: kds_exec_result.case_cong)

lemma tail_outcome_mono: "tail_outcome s ps k d r ex' s' \<Longrightarrow> m \<le> k \<Longrightarrow> tail_outcome s ps m d r ex' s'"
  by (cases r) (auto simp: tail_outcome_def intro: order.strict_trans1)

lemma same_job_tail [simp]: "same_job ex (tail_done ex tid p b)" "wal_need_init_page (tail_done ex tid p b) = b" "wal_target_page_id (tail_done ex tid p b) = p"
    "hi_out_tid (tail_done ex tid p b) = tid"
  by (simp_all add: same_job_def tail_done_def)

lemma tail_last:
  fixes s :: "'z sched_state_scheme"
  assumes so: "store_ok s" and ch: "heap_chain s (as @ [p])" and p: "pmap s p = Some i" "fr_kp (pframes s i) = Some kp" and d: "job_row ex d"
    and full: "all_full s d (as @ [p])"
  shows "\<exists>r ex' s'. grow_chain i ex (pinned i kp s) = (Inr (Some (r, ex')), s') \<and> same_job ex ex' \<and> tail_outcome s (as @ [p]) k d r ex' s'"
proof (cases "ring_items s")
  case Nil
  have "grow_chain i ex (pinned i kp s) = (Inr (Some (KDS_EXEC_ERROR, ex\<lparr>ex_ret := Some ENOSPC\<rparr>)), s\<lparr>clock := clock s\<rparr>)"
    using grow_empty [OF so p Nil] by simp
  moreover have "tail_outcome s (as @ [p]) k d KDS_EXEC_ERROR (ex\<lparr>ex_ret := Some ENOSPC\<rparr>) (s\<lparr>clock := clock s\<rparr>)"
    using Nil full by (simp add: tail_outcome_def) (rule exI [of _ "clock s"], simp)
  moreover have "same_job ex (ex\<lparr>ex_ret := Some ENOSPC\<rparr>)" by simp
  ultimately show ?thesis by blast
next
  case (Cons j js)
  have wf: "pool_wf s" using so by (rule store_ok_pool)
  have c: "cat_frame s p = pframes s i" "heap_ok (pframes s i)" "i \<notin> set (ring_items s)" using chain_cat [OF ch _ p(1)] by auto
  obtain tid q s' fi fj where g: "grow_chain i ex (pinned i kp s) = (Inr (Some (KDS_EXEC_DONE, tail_done ex tid q True)), s')" "store_ok s'" "pmap s' = pmap s"
    "ring_items s' = js" "j \<notin> set js" "pframes s' = (pframes s)(i := fi, j := fj)" "i \<noteq> j" "pmap s q = Some j"
    "heap_ok fi" "frame_view fi = (frame_view (pframes s i))\<lparr>v_next := q\<rparr>" "heap_ok fj" "slot_rows (frame_view fj) = [d]" "v_next (frame_view fj) = 0"
    "g_wal s' = g_wal s" "nalloc s' = nalloc s" "tid_page_id tid = q" "slot_holds fj (unat (tid_slot tid)) d"
    using grow_runs [OF so p(1) c(2,3) p(2) Cons d] by blast
  have q0: "q \<noteq> 0" using g(8) so by (auto simp: store_ok_def)
  have qn: "q \<notin> set (as @ [p])"
    using ch g(8) Cons by (auto simp: heap_chain_def)
  have cp: "cat_frame s' p = fi" "cat_frame s' q = fj" using p(1) g(3,6,7,8) by (simp_all add: cat_frame_def)
  have other: "cat_frame s' a = cat_frame s a" if "pmap s a = Some l" "a \<noteq> p" "a \<noteq> q" for a l
    using that pmap_inj [OF wf p(1), of a] pmap_inj [OF wf g(8), of a] g(3,6) by (auto simp: cat_frame_def)
  have old: "cat_frame s' a = cat_frame s a" if "a \<in> set as" for a
  proof -
    have "a \<in> set (as @ [p])" using that by simp
    then obtain l where "pmap s a = Some l" by (rule chain_page [OF ch])
    then show ?thesis using other that ch qn by (auto simp: heap_chain_def)
  qed
  have ch': "heap_chain s' (as @ [p, q])"
    by (rule chain_snoc [OF ch g(3)]) (use g cp Cons q0 qn old in \<open>auto simp: next_page_def\<close>)
  have "slot_rows (frame_view fi) = slot_rows (frame_view (pframes s i))" using g(10) by (simp add: slot_rows_def)
  then have "table_rows s' (as @ [p, q]) = table_rows s (as @ [p]) @ [d]"
    using table_rows_cong [of as s' s] old cp g(12) c by simp
  then have "inserted s s' (as @ [p]) (as @ [p, q]) d" using g(2,3,14,15) ch' other by (simp add: inserted_def)
  then have "tail_outcome s (as @ [p]) k d KDS_EXEC_DONE (tail_done ex tid q True) s'" using full Cons g(16,17) cp(2) by (simp add: tail_outcome_def row_at_def)
  then show ?thesis using g(1) same_job_tail(1) by blast
qed

lemma find_tail_spec:
  fixes s :: "'z sched_state_scheme"
  assumes "store_ok s" and "heap_chain s (as @ q # qs)" and "cursor_page_id ex = q" and "job_row ex d" and "all_full s d as" and "length qs < n"
  shows "\<exists>r ex' s'. heap_insert_run_find_tail env senv n ex s = (Inr (Some (r, ex')), s') \<and> same_job ex ex' \<and> tail_outcome s (as @ q # qs) (length as) d r ex' s'"
  using assms
proof (induction n arbitrary: as q qs ex s)
  case (Suc n as q qs ex s)
  show ?case
  proof (cases "fits d (cat_frame s q)")
    case True
    obtain tid s' where "heap_insert_run_find_tail env senv (Suc n) ex s = (Inr (Some (KDS_EXEC_DONE, tail_done ex tid q False)), s')"
      "inserted s s' (as @ q # qs) (as @ q # qs) d" "tid_page_id tid = q" "row_at s' tid d" using tail_hit [OF Suc.prems(1-4) True] by blast
    moreover from this(2-4) have "tail_outcome s (as @ q # qs) (length as) d KDS_EXEC_DONE (tail_done ex tid q False) s'" using True by (simp add: tail_outcome_def all_full_def)
    ultimately show ?thesis using same_job_tail(1) by blast
  next
    case False
    obtain i kp where i: "pmap s q = Some i" "fr_kp (pframes s i) = Some kp" and run: "heap_insert_run_find_tail env senv (Suc n) ex s = (case qs of
        [] \<Rightarrow> grow_chain i ex (pinned i kp s)
      | q # _ \<Rightarrow> sbind (kds_exec_slice_expired senv ((unit_done ex)\<lparr>cursor_page_id := q\<rparr>)) (\<lambda>expired.
          if expired then sret (Some (KDS_EXEC_CONTINUE, (unit_done ex)\<lparr>cursor_page_id := q\<rparr>))
          else heap_insert_run_find_tail env senv n ((unit_done ex)\<lparr>cursor_page_id := q\<rparr>)) s)"
      using tail_full [OF Suc.prems(1-4) False] by blast
    have af: "all_full s d (as @ [q])" using Suc.prems(5) False by (auto simp: all_full_def)
    show ?thesis
    proof (cases qs)
      case Nil
      then show ?thesis using run tail_last [OF Suc.prems(1) _ i Suc.prems(4) af] Suc.prems(2) by simp
    next
      case (Cons p ps)
      let ?ex = "(unit_done ex)\<lparr>cursor_page_id := p\<rparr>"
      obtain b where b: "kds_exec_slice_expired senv ?ex s = (Inr b, s\<lparr>clock := Suc (clock s)\<rparr>)" using expired_run by blast
      have j: "same_job ex ?ex" by (simp add: same_job_def)
      show ?thesis
      proof (cases b)
        case True
        have "heap_insert_run_find_tail env senv (Suc n) ex s = (Inr (Some (KDS_EXEC_CONTINUE, ?ex)), s\<lparr>clock := Suc (clock s)\<rparr>)"
          using run Cons b True by (simp add: sbind_run sret_def)
        moreover have "tail_outcome s (as @ q # qs) (length as) d KDS_EXEC_CONTINUE ?ex (s\<lparr>clock := Suc (clock s)\<rparr>)"
          using af Cons by (simp add: tail_outcome_def, intro conjI exI [of _ "as @ [q]"] exI [of _ "p # ps"] exI [of _ "Suc (clock s)"]) simp_all
        ultimately show ?thesis using j by blast
      next
        case False
        obtain r ex' s' where r: "heap_insert_run_find_tail env senv n ?ex (s\<lparr>clock := Suc (clock s)\<rparr>) = (Inr (Some (r, ex')), s')" "same_job ?ex ex'"
          "tail_outcome s ((as @ [q]) @ p # ps) (length (as @ [q])) d r ex' s'"
          using Suc.IH [of "s\<lparr>clock := Suc (clock s)\<rparr>" "as @ [q]" p ps ?ex] Suc.prems af Cons job_row_job [OF j, of d] tail_outcome_clock by fastforce
        have "heap_insert_run_find_tail env senv (Suc n) ex s = (Inr (Some (r, ex')), s')" using run Cons b False r(1) by (simp add: sbind_run)
        then show ?thesis using same_job_trans [OF j r(2)] tail_outcome_mono [OF r(3), of "length as"] Cons by auto
      qed
    qed
  qed
qed simp

section \<open>Logging the insertion\<close>

definition wal_ready :: "'z wal_state_scheme \<Rightarrow> bool" where
  "wal_ready s \<longleftrightarrow> (case g_wal s of None \<Rightarrow> True | Some w \<Rightarrow> wal_buf_ok (ws_buf w))"

text \<open>An append that has no room is skipped.\<close>

definition logged :: "(u32 \<Rightarrow> u8 list \<Rightarrow> u32) \<Rightarrow> kds_wal_rec_hdr \<times> u8 list \<Rightarrow> kds_wal_state option \<Rightarrow> kds_wal_state option" where
  "logged crc rec w = (case w of None \<Rightarrow> None | Some w \<Rightarrow>
     if unat (wal_buf_used (ws_buf w)) + 36 + length (snd rec) \<le> KDS_WAL_BUF_SIZE then Some (appended crc w (fst rec) (snd rec)) else Some w)"

lemma append_logged:
  assumes "wal_ready s" and "rec_fits h bs"
  shows "wal_append_logged crc h bs s = (Inr (), s\<lparr>g_wal := logged crc (h, bs) (g_wal s)\<rparr>)" "wal_ready (s\<lparr>g_wal := logged crc (h, bs) (g_wal s)\<rparr>)"
proof -
  have "wal_append_logged crc h bs s = (Inr (), s\<lparr>g_wal := logged crc (h, bs) (g_wal s)\<rparr>) \<and> wal_ready (s\<lparr>g_wal := logged crc (h, bs) (g_wal s)\<rparr>)"
  proof (cases "g_wal s")
    case None
    then show ?thesis by (simp add: wal_append_logged_def kds_wal_append_def sattempt_def call_defs logged_def wal_ready_def)
  next
    case (Some w)
    then have ok: "wal_buf_ok (ws_buf w)" using assms(1) by (simp add: wal_ready_def)
    show ?thesis
    proof (cases "unat (wal_buf_used (ws_buf w)) + 36 + length bs \<le> KDS_WAL_BUF_SIZE")
      case True
      then show ?thesis using append_runs [OF Some ok assms(2) True] appended_buf(1) [OF ok assms(2) True] Some
        by (simp add: wal_append_logged_def sattempt_run sret_def logged_def wal_ready_def)
    next
      case False
      then show ?thesis using append_full [OF Some ok assms(2)] Some ok
        by (simp add: wal_append_logged_def sattempt_run sret_def logged_def wal_ready_def)
    qed
  qed
  then show "wal_append_logged crc h bs s = (Inr (), s\<lparr>g_wal := logged crc (h, bs) (g_wal s)\<rparr>)"
    "wal_ready (s\<lparr>g_wal := logged crc (h, bs) (g_wal s)\<rparr>)" by simp_all
qed

text \<open>The records of an insertion.\<close>

definition init_rec :: "u64 \<Rightarrow> u64 \<Rightarrow> kds_wal_rec_hdr \<times> u8 list" where
  "init_rec xid p = (zero_rec_hdr\<lparr>rec_xid := xid, rec_type := rec_type_code KDS_WAL_REC_INIT_PAGE, body_len := 12\<rparr>,
     enc_body_init_page p (ucast KDS_PAGE_TYPE_HEAP))"

definition row_rec :: "u64 \<Rightarrow> u64 \<Rightarrow> u32 \<Rightarrow> u8 list \<Rightarrow> kds_wal_rec_hdr \<times> u8 list" where
  "row_rec xid p off d = (zero_rec_hdr\<lparr>rec_xid := xid, rec_type := rec_type_code KDS_WAL_REC_INSERT, body_len := of_nat (16 + length d)\<rparr>,
     enc_body_page_mod p off (of_nat (length d)) @ d)"

lemma recs_fit:
  "rec_fits (fst (init_rec xid p)) (snd (init_rec xid p))"
  "length d \<le> 8102 \<Longrightarrow> rec_fits (fst (row_rec xid p off d)) (snd (row_rec xid p off d))"
  by (simp_all add: rec_fits_def init_rec_def row_rec_def rec_hdr_valid_def zero_rec_hdr_def enc_body_init_page_def enc_body_page_mod_def KDS_PAGE_SIZE_def
      unat_of_nat unat_word_ariths)

definition log_row :: "kenv \<Rightarrow> (u32 \<Rightarrow> u8 list \<Rightarrow> u32) \<Rightarrow> u64 \<Rightarrow> u64 \<Rightarrow> u32 \<Rightarrow> u8 list \<Rightarrow> 'z sched_state_scheme \<Rightarrow> 'z sched_state_scheme" where
  "log_row env crc xid p off d s = s\<lparr>nalloc := Suc (nalloc s),
     g_wal := if ke_alloc_ok env (nalloc s) then logged crc (row_rec xid p off d) (g_wal s) else g_wal s\<rparr>"

lemma wal_row_run:
  fixes s :: "'z sched_state_scheme"
  assumes "wal_ready s" and "length d \<le> 8102"
  shows "wal_row env crc xid p off (Some d) (of_nat (length d)) s = (Inr (), log_row env crc xid p off d s)"
proof -
  have l: "unat (of_nat (length d) :: u16) = length d" using assms(2) by (intro unat_of_nat16) simp
  have b: "buf_rd d (unat (of_nat (length d) :: u16)) = Some d" using l by (simp add: buf_rd_def)
  have w: "wal_ready (s\<lparr>nalloc := Suc (nalloc s)\<rparr>)" using assms(1) by (simp add: wal_ready_def)
  have u: "(ucast (of_nat (length d) :: u16) :: u32) = of_nat (length d)"
    by (subst of_nat_unat [symmetric]) (simp only: l)
  have r: "(zero_rec_hdr\<lparr>rec_xid := xid, rec_type := rec_type_code KDS_WAL_REC_INSERT,
      body_len := of_nat (length (enc_body_page_mod p off (of_nat (length d)))) + of_nat (length d)\<rparr>, enc_body_page_mod p off (of_nat (length d)) @ d) = row_rec xid p off d"
    by (simp add: row_rec_def enc_body_page_mod_def)
  show ?thesis using append_logged(1) [OF w recs_fit(2) [OF assms(2)], of crc xid p off] b u
    by (simp add: wal_row_def kalloc_def sbind_run Let_def r [symmetric] log_row_def sret_def)
qed

section \<open>One call of the executor\<close>

lemma then_phase_run:
  "m s = (Inr (Some (KDS_EXEC_DONE, ex)), s') \<Longrightarrow> then_phase m k s = k ex s'"
  "m s = (Inr (Some (r, ex)), s') \<Longrightarrow> r \<noteq> KDS_EXEC_DONE \<Longrightarrow> then_phase m k s = (Inr (Some (r, ex)), s')"
  by (simp_all add: then_phase_def sbind_run sret_def split: kds_exec_result.splits)

text \<open>What the log phases leave.\<close>

definition hi_logged :: "kenv \<Rightarrow> (u32 \<Rightarrow> u8 list \<Rightarrow> u32) \<Rightarrow> kds_heap_insert_exec \<Rightarrow> u8 list \<Rightarrow> 'z sched_state_scheme \<Rightarrow> 'z sched_state_scheme" where
  "hi_logged env crc ex d s = log_row env crc (hi_xid ex) (wal_target_page_id ex) (wal_target_offset ex) d
     (if wal_need_init_page ex then s\<lparr>g_wal := logged crc (init_rec (hi_xid ex) (wal_target_page_id ex)) (g_wal s)\<rparr> else s)"

lemma log_row_store: "same_store s (log_row env crc xid p off d s)"
  by (simp add: log_row_def same_store_def)

lemma hi_logged_store: "same_store s (hi_logged env crc ex d s)"
  by (simp add: hi_logged_def log_row_store same_store_trans [OF same_store_upd(2) log_row_store])

lemma wal_insert_run:
  assumes "wal_ready s" and "job_row ex d"
  shows "hi_phase_wal_insert env crc ex s = (Inr (Some (KDS_EXEC_DONE, ex\<lparr>hi_phase := KDS_HEAP_INSERT_PHASE_DONE\<rparr>)),
    log_row env crc (hi_xid ex) (wal_target_page_id ex) (wal_target_offset ex) d s)"
  using wal_row_run [OF assms(1), of d env crc] assms(2)
  by (simp add: hi_phase_wal_insert_def heap_insert_run_wal_insert_def job_row_def sbind_run sret_def then_phase_run hi_phase_done_def)

lemma wal_init_run:
  assumes "wal_ready s" and "job_row ex d"
  shows "hi_phase_wal_init_page env crc ex s = (Inr (Some (KDS_EXEC_DONE, ex\<lparr>hi_phase := KDS_HEAP_INSERT_PHASE_DONE\<rparr>)),
    log_row env crc (hi_xid ex) (wal_target_page_id ex) (wal_target_offset ex) d
      (s\<lparr>g_wal := logged crc (init_rec (hi_xid ex) (wal_target_page_id ex)) (g_wal s)\<rparr>))"
proof -
  note L = append_logged [OF assms(1) recs_fit(1), of crc "hi_xid ex" "wal_target_page_id ex"]
  have "heap_insert_run_wal_init_page crc ex s = (Inr (Some (KDS_EXEC_DONE, ex)), s\<lparr>g_wal := logged crc (init_rec (hi_xid ex) (wal_target_page_id ex)) (g_wal s)\<rparr>)"
    using L(1) by (simp add: heap_insert_run_wal_init_page_def init_rec_def enc_body_init_page_def sbind_run sret_def Let_def)
  moreover have "job_row (ex\<lparr>hi_phase := KDS_HEAP_INSERT_PHASE_WAL_INSERT\<rparr>) d" using assms(2) by (simp add: job_row_def)
  ultimately show ?thesis using wal_insert_run [of _ "ex\<lparr>hi_phase := KDS_HEAP_INSERT_PHASE_WAL_INSERT\<rparr>" d env crc] L(2)
    by (simp add: hi_phase_wal_init_page_def then_phase_run)
qed

text \<open>An executor that has still to insert its row; \<open>k\<close> counts the pages it may still visit.\<close>

definition hi_at :: "'z sched_state_scheme \<Rightarrow> u64 list \<Rightarrow> u8 list \<Rightarrow> kds_heap_insert_exec \<Rightarrow> nat \<Rightarrow> bool" where
  "hi_at s ps d ex k \<longleftrightarrow> (\<exists>rel. hi_rel ex = Some rel \<and> rel_kind rel = KDS_CLUSTERED_HEAP \<and> rel_root_page_id rel = hd ps) \<and> job_row ex d \<and> new_pk ex = row_key d
     \<and> (case hi_phase ex of
          KDS_HEAP_INSERT_PHASE_DUP_SCAN \<Rightarrow> \<exists>as qs. ps = as @ qs \<and> qs \<noteq> [] \<and> cursor_page_id ex = hd qs \<and> free_of_key s (row_key d) as \<and> k = length ps + length qs
        | KDS_HEAP_INSERT_PHASE_FIND_TAIL \<Rightarrow> \<exists>as qs. ps = as @ qs \<and> qs \<noteq> [] \<and> cursor_page_id ex = hd qs \<and> free_of_key s (row_key d) ps \<and> all_full s d as
            \<and> k = length qs
        | _ \<Rightarrow> False)"

definition hi_outcome ::
  "kenv \<Rightarrow> (u32 \<Rightarrow> u8 list \<Rightarrow> u32) \<Rightarrow> 'z sched_state_scheme \<Rightarrow> u64 list \<Rightarrow> u8 list \<Rightarrow> (nat \<Rightarrow> bool) \<Rightarrow> kds_exec_result \<Rightarrow> kds_heap_insert_exec \<Rightarrow>
   'z sched_state_scheme \<Rightarrow> bool" where
  "hi_outcome env crc s ps d rem r ex' s' \<longleftrightarrow> (case r of
     KDS_EXEC_DONE \<Rightarrow> free_of_key s (row_key d) ps \<and> \<not> (all_full s d ps \<and> ring_items s = []) \<and> hi_phase ex' = KDS_HEAP_INSERT_PHASE_DONE
       \<and> (\<exists>ps' s1. (if wal_need_init_page ex' then all_full s d ps \<and> ps' = ps @ [wal_target_page_id ex'] else ps' = ps) \<and> inserted s s1 ps ps' d
            \<and> wal_target_page_id ex' \<in> set ps' \<and> s' = hi_logged env crc ex' d s1)
       \<and> tid_page_id (hi_out_tid ex') = wal_target_page_id ex' \<and> row_at s' (hi_out_tid ex') d
   | KDS_EXEC_ERROR \<Rightarrow> (\<exists>t. s' = s\<lparr>clock := t\<rparr>)
       \<and> (ex_ret ex' = Some EEXIST \<and> \<not> free_of_key s (row_key d) ps
        \<or> ex_ret ex' = Some ENOSPC \<and> free_of_key s (row_key d) ps \<and> all_full s d ps \<and> ring_items s = [])
   | KDS_EXEC_CONTINUE \<Rightarrow> (\<exists>t. s' = s\<lparr>clock := t\<rparr>) \<and> (\<exists>k'. hi_at s ps d ex' k' \<and> rem k'))"

lemma wal_ready_inserted: "inserted s s' ps ps' d \<Longrightarrow> wal_ready s \<Longrightarrow> wal_ready s'"
  by (simp add: inserted_def wal_ready_def)

lemma wal_ready_clock [simp]: "wal_ready (s\<lparr>clock := t\<rparr>) = wal_ready s" for s :: "'z sched_state_scheme"
  by (simp add: wal_ready_def)

lemma hi_at_clock [simp]: "hi_at (s\<lparr>clock := t\<rparr>) ps d ex k = hi_at s ps d ex k"
  by (simp add: hi_at_def cong: kds_heap_insert_phase.case_cong)

lemma hi_outcome_clock: "hi_outcome env crc (s\<lparr>clock := t\<rparr>) ps d rem r ex' s' = hi_outcome env crc s ps d rem r ex' s'"
  unfolding hi_outcome_def by (simp cong: kds_exec_result.case_cong)

text \<open>The outcome of the search for a page, carried through the log phases.\<close>

lemma after_tail:
  fixes s :: "'z sched_state_scheme"
  assumes t: "tail_outcome s ps k d r ex' s'" and j: "same_job ex ex'" and at: "hi_at s ps d ex n" and ph: "hi_phase ex = KDS_HEAP_INSERT_PHASE_FIND_TAIL"
    and w: "wal_ready s" and m: "m s = (Inr (Some (r, ex')), s')" and k: "k + n = length ps"
  shows "\<exists>r' ex'' s''. then_phase m (\<lambda>ex.
       if wal_need_init_page ex then hi_phase_wal_init_page env crc (ex\<lparr>hi_phase := KDS_HEAP_INSERT_PHASE_WAL_INIT_PAGE\<rparr>)
       else hi_phase_wal_insert env crc (ex\<lparr>hi_phase := KDS_HEAP_INSERT_PHASE_WAL_INSERT\<rparr>)) s = (Inr (Some (r', ex'')), s'')
    \<and> hi_outcome env crc s ps d (\<lambda>k'. k' < n) r' ex'' s''"
proof (cases r)
  case KDS_EXEC_DONE
  obtain ps' where p: "if wal_need_init_page ex' then all_full s d ps \<and> ps' = ps @ [wal_target_page_id ex'] else ps' = ps" "inserted s s' ps ps' d"
    "wal_target_page_id ex' \<in> set ps'" "\<not> (all_full s d ps \<and> ring_items s = [])"
    "tid_page_id (hi_out_tid ex') = wal_target_page_id ex'" "row_at s' (hi_out_tid ex') d" using t KDS_EXEC_DONE by (auto simp: tail_outcome_def)
  have fk: "free_of_key s (row_key d) ps" using at ph by (auto simp: hi_at_def)
  have jr: "job_row (ex'\<lparr>hi_phase := ph\<rparr>) d" for ph using at job_row_job [OF j, of d] by (simp add: hi_at_def job_row_def)
  note w' = wal_ready_inserted [OF p(2) w]
  let ?ex = "ex'\<lparr>hi_phase := KDS_HEAP_INSERT_PHASE_DONE\<rparr>"
  have run: "then_phase m (\<lambda>ex.
       if wal_need_init_page ex then hi_phase_wal_init_page env crc (ex\<lparr>hi_phase := KDS_HEAP_INSERT_PHASE_WAL_INIT_PAGE\<rparr>)
       else hi_phase_wal_insert env crc (ex\<lparr>hi_phase := KDS_HEAP_INSERT_PHASE_WAL_INSERT\<rparr>)) s = (Inr (Some (KDS_EXEC_DONE, ?ex)), hi_logged env crc ?ex d s')"
    using m KDS_EXEC_DONE wal_insert_run [OF w' jr] wal_init_run [OF w' jr] by (simp add: then_phase_run(1) hi_logged_def)
  have "hi_outcome env crc s ps d (\<lambda>k'. k' < n) KDS_EXEC_DONE ?ex (hi_logged env crc ?ex d s')"
    using fk p same_store_facts(10) [OF hi_logged_store [of s' env crc ?ex d]] unfolding hi_outcome_def by (simp del: split_paired_Ex) metis
  then show ?thesis using run by blast
next
  case KDS_EXEC_ERROR
  have "hi_outcome env crc s ps d (\<lambda>k'. k' < n) r ex' s'" using t KDS_EXEC_ERROR at ph by (auto simp: tail_outcome_def hi_outcome_def hi_at_def)
  then show ?thesis using then_phase_run(2) [of m s r ex' s', OF m] KDS_EXEC_ERROR by auto
next
  case KDS_EXEC_CONTINUE
  obtain u xs ys where c: "s' = s\<lparr>clock := u\<rparr>" "ps = xs @ ys" "ys \<noteq> []" "k < length xs" "cursor_page_id ex' = hd ys" "all_full s d xs"
    using t KDS_EXEC_CONTINUE by (auto simp: tail_outcome_def)
  have "hi_at s ps d ex' (length ys)" using at ph j c job_row_job [OF j, of d] by (auto simp: hi_at_def same_job_def)
  moreover have "length ys < n" using c k by simp
  ultimately have "hi_outcome env crc s ps d (\<lambda>k'. k' < n) r ex' s'" using c(1) KDS_EXEC_CONTINUE by (auto simp: hi_outcome_def)
  then show ?thesis using then_phase_run(2) [of m s r ex' s', OF m] KDS_EXEC_CONTINUE by auto
qed

lemma hi_outcome_mono: "hi_outcome env crc s ps d rem r ex' s' \<Longrightarrow> (\<And>k. rem k \<Longrightarrow> rem' k) \<Longrightarrow> hi_outcome env crc s ps d rem' r ex' s'"
  by (cases r) (auto simp: hi_outcome_def)

text \<open>Only an executor that resumes its search for a page may return without having done anything.\<close>

definition stalls :: "sched_env \<Rightarrow> 'z sched_state_scheme \<Rightarrow> kds_heap_insert_exec \<Rightarrow> bool" where
  "stalls senv s ex \<longleftrightarrow> hi_phase ex = KDS_HEAP_INSERT_PHASE_FIND_TAIL \<and> deadline_ns ex \<le> ktime senv (clock s)"

definition table_ready :: "'z sched_state_scheme \<Rightarrow> u64 list \<Rightarrow> bool" where
  "table_ready s ps \<longleftrightarrow> store_ok s \<and> heap_chain s ps \<and> (\<forall>p \<in> set ps. scannable (cat_frame s p)) \<and> wal_ready s"

lemma table_ready_clock [simp]: "table_ready (s\<lparr>clock := t\<rparr>) ps = table_ready s ps"
  by (simp add: table_ready_def)

lemma find_phase:
  fixes s :: "'z sched_state_scheme"
  assumes tr: "table_ready s ps" and at: "hi_at s ps d ex k" and ph: "hi_phase ex = KDS_HEAP_INSERT_PHASE_FIND_TAIL" and n: "length ps < n"
  shows "\<exists>r ex' s'. hi_phase_find_tail env senv crc n ex s = (Inr (Some (r, ex')), s') \<and> hi_outcome env crc s ps d (\<lambda>k'. if stalls senv s ex then k' \<le> k else k' < k) r ex' s'"
proof (cases "deadline_ns ex \<le> ktime senv (clock s)")
  case True
  have "hi_phase_find_tail env senv crc n ex s = (Inr (Some (KDS_EXEC_CONTINUE, ex)), s\<lparr>clock := Suc (clock s)\<rparr>)"
    using True by (simp add: hi_phase_find_tail_def kds_exec_slice_expired_def ktime_get_ns_def call_defs)
  moreover have "hi_outcome env crc s ps d (\<lambda>k'. if stalls senv s ex then k' \<le> k else k' < k) KDS_EXEC_CONTINUE ex (s\<lparr>clock := Suc (clock s)\<rparr>)"
    using at True ph by (auto simp: hi_outcome_def stalls_def)
  ultimately show ?thesis by blast
next
  case False
  let ?s = "s\<lparr>clock := Suc (clock s)\<rparr>"
  have e: "kds_exec_slice_expired senv ex s = (Inr False, ?s)" using False by (simp add: kds_exec_slice_expired_def ktime_get_ns_def call_defs)
  obtain as q qs where p: "ps = as @ q # qs" "cursor_page_id ex = q" "all_full s d as" "k = length (q # qs)" and jr: "job_row ex d"
    using at ph by (auto simp: hi_at_def neq_Nil_conv)
  obtain r ex' s' where t: "heap_insert_run_find_tail env senv n ex ?s = (Inr (Some (r, ex')), s')" "same_job ex ex'" "tail_outcome ?s ps (length as) d r ex' s'"
    using find_tail_spec [of ?s as q qs ex d n env senv] tr p jr n by (auto simp: table_ready_def)
  obtain r' ex'' s'' where "then_phase (heap_insert_run_find_tail env senv n ex) (\<lambda>ex.
       if wal_need_init_page ex then hi_phase_wal_init_page env crc (ex\<lparr>hi_phase := KDS_HEAP_INSERT_PHASE_WAL_INIT_PAGE\<rparr>)
       else hi_phase_wal_insert env crc (ex\<lparr>hi_phase := KDS_HEAP_INSERT_PHASE_WAL_INSERT\<rparr>)) ?s = (Inr (Some (r', ex'')), s'')"
    "hi_outcome env crc ?s ps d (\<lambda>k'. k' < k) r' ex'' s''"
    using after_tail [OF t(3,2) _ ph, where m = "heap_insert_run_find_tail env senv n ex" and n = k and env = env and crc = crc] t(1) at tr p by (auto simp: table_ready_def)
  then show ?thesis using e False by (auto simp: hi_phase_find_tail_def sbind_run hi_outcome_clock stalls_def)
qed

lemma dup_phase:
  fixes s :: "'z sched_state_scheme"
  assumes tr: "table_ready s ps" and at: "hi_at s ps d ex k" and ph: "hi_phase ex = KDS_HEAP_INSERT_PHASE_DUP_SCAN" and n: "length ps < n"
    and rel: "hi_rel ex = Some rel"
  shows "\<exists>r ex' s'. hi_phase_dup_scan env senv crc n rel ex s = (Inr (Some (r, ex')), s') \<and> hi_outcome env crc s ps d (\<lambda>k'. k' < k) r ex' s'"
proof -
  obtain as qs where p: "ps = as @ qs" "qs \<noteq> []" "cursor_page_id ex = hd qs" "free_of_key s (row_key d) as" "k = length ps + length qs"
    and jr: "job_row ex d" and pk: "new_pk ex = row_key d" using at ph by (auto simp: hi_at_def)
  have c: "cursor_page_id ex = cursor_at qs" using p(2,3) by (cases qs) auto
  obtain r ex' t where D: "heap_insert_run_dup_scan env senv n ex s = (Inr (Some (r, ex')), s\<lparr>clock := t\<rparr>)" and j: "same_job ex ex'"
    and out: "dup_outcome s (row_key d) qs r ex'"
    using dup_scan_spec [of s as qs ex n env senv] tr p n c pk store_ok_pool by (force simp: table_ready_def)
  have at': "hi_at s ps d (ex'\<lparr>hi_phase := KDS_HEAP_INSERT_PHASE_FIND_TAIL, cursor_page_id := rel_root_page_id rel\<rparr>) (length ps)" if "free_of_key s (row_key d) qs"
  proof -
    have "\<exists>as qs. ps = as @ qs \<and> qs \<noteq> [] \<and> hd ps = hd qs \<and> free_of_key s (row_key d) ps \<and> all_full s d as \<and> length ps = length qs"
      by (rule exI [of _ "[]"], rule exI [of _ ps]) (use p(1,2,4) that in \<open>simp add: all_full_def\<close>)
    then show ?thesis using at j rel job_row_job [OF j, of d] by (simp add: hi_at_def same_job_def job_row_def)
  qed
  show ?thesis
  proof (cases r)
    case KDS_EXEC_DONE
    let ?ex = "ex'\<lparr>hi_phase := KDS_HEAP_INSERT_PHASE_FIND_TAIL, cursor_page_id := rel_root_page_id rel\<rparr>" and ?s = "s\<lparr>clock := t\<rparr>"
    have fk: "free_of_key s (row_key d) qs" using out KDS_EXEC_DONE by (simp add: dup_outcome_def)
    obtain r' ex'' s' where f: "hi_phase_find_tail env senv crc n ?ex ?s = (Inr (Some (r', ex'')), s')"
      "hi_outcome env crc ?s ps d (\<lambda>k'. if stalls senv ?s ?ex then k' \<le> length ps else k' < length ps) r' ex'' s'"
      using find_phase [of ?s ps d ?ex "length ps" n env senv crc] tr at' [OF fk] n by auto
    have "hi_outcome env crc s ps d (\<lambda>k'. k' < k) r' ex'' s'"
      using f(2) unfolding hi_outcome_clock by (rule hi_outcome_mono) (use p in \<open>auto simp: neq_Nil_conv split: if_splits\<close>)
    then show ?thesis using f(1) D KDS_EXEC_DONE by (auto simp: hi_phase_dup_scan_def then_phase_run(1))
  next
    case KDS_EXEC_ERROR
    have "hi_outcome env crc s ps d (\<lambda>k'. k' < k) r ex' (s\<lparr>clock := t\<rparr>)" using out p(1) KDS_EXEC_ERROR by (auto simp: dup_outcome_def hi_outcome_def)
    then show ?thesis using then_phase_run(2) [where m = "heap_insert_run_dup_scan env senv n ex", OF D] KDS_EXEC_ERROR by (auto simp: hi_phase_dup_scan_def)
  next
    case KDS_EXEC_CONTINUE
    obtain xs ys where q: "qs = xs @ ys" "xs \<noteq> []" "ys \<noteq> []" "free_of_key s (row_key d) xs" "cursor_page_id ex' = hd ys"
      using out KDS_EXEC_CONTINUE by (auto simp: dup_outcome_def)
    have "\<exists>as qs. ps = as @ qs \<and> qs \<noteq> [] \<and> hd ys = hd qs \<and> free_of_key s (row_key d) as \<and> length ys = length qs"
      by (rule exI [of _ "as @ xs"], rule exI [of _ ys]) (use p(1,4) q in simp)
    then have "hi_at s ps d ex' (length ps + length ys)" using at j ph q(5) job_row_job [OF j, of d] by (simp add: hi_at_def same_job_def)
    moreover have "length ps + length ys < k" using p(5) q(1,2) by (cases xs) simp_all
    ultimately have "hi_outcome env crc s ps d (\<lambda>k'. k' < k) r ex' (s\<lparr>clock := t\<rparr>)" using KDS_EXEC_CONTINUE by (auto simp: hi_outcome_def)
    then show ?thesis using then_phase_run(2) [where m = "heap_insert_run_dup_scan env senv n ex", OF D] KDS_EXEC_CONTINUE by (auto simp: hi_phase_dup_scan_def)
  qed
qed

lemma heap_insert_run:
  fixes s :: "'z sched_state_scheme"
  assumes tr: "table_ready s ps" and at: "hi_at s ps d ex k" and n: "length ps < n"
  shows "\<exists>r ex' s'. kds_heap_insert_exec_run env senv crc n ex s = (Inr (Some (r, ex')), s')
    \<and> hi_outcome env crc s ps d (\<lambda>k'. if stalls senv s ex then k' \<le> k else k' < k) r ex' s'"
proof -
  obtain rel where rel: "hi_rel ex = Some rel" "rel_kind rel = KDS_CLUSTERED_HEAP" and jr: "job_row ex d" using at by (auto simp: hi_at_def)
  have l: "\<not> hi_data_len ex < 8" using jr unat_of_nat16 [of "length d"] by (auto simp: job_row_def word_less_nat_alt)
  show ?thesis
  proof (cases "hi_phase ex")
    case KDS_HEAP_INSERT_PHASE_DUP_SCAN
    then show ?thesis using dup_phase [OF tr at _ n rel(1), of env senv crc] rel l by (simp add: kds_heap_insert_exec_run_def stalls_def)
  next
    case KDS_HEAP_INSERT_PHASE_FIND_TAIL
    then show ?thesis using find_phase [OF tr at _ n, of env senv crc] rel l by (simp add: kds_heap_insert_exec_run_def)
  qed (use at in \<open>auto simp: hi_at_def\<close>)
qed

lemma hi_at_deadline [simp]: "hi_at s ps d (ex\<lparr>deadline_ns := t\<rparr>) k = hi_at s ps d ex k"
  by (simp add: hi_at_def job_row_def cong: kds_heap_insert_phase.case_cong)

section \<open>Calls until the executor is done\<close>

text \<open>What the caller does: it runs the executor with a fresh slice until the result is not \<^verbatim>\<open>CONTINUE\<close>.\<close>

fun exec_slices ::
  "sched_env \<Rightarrow> ('y kds_exec_state_scheme \<Rightarrow> ('z sched_state_scheme, 'y kds_exec_state_scheme) exec_call) \<Rightarrow> u64 \<Rightarrow> nat \<Rightarrow> 'y kds_exec_state_scheme \<Rightarrow>
   ('z sched_state_scheme, 'y kds_exec_state_scheme) exec_call" where
  "exec_slices senv run sl 0 ex = sret (Some (KDS_EXEC_CONTINUE, ex))"
| "exec_slices senv run sl (Suc m) ex =
     sbind (kds_exec_run senv run ex sl) (\<lambda>r. case r of Some (KDS_EXEC_CONTINUE, ex') \<Rightarrow> exec_slices senv run sl m ex' | _ \<Rightarrow> sret r)"

text \<open>
  The contract of an executor: a call either ends with a result, or leaves the executor closer to its end. Then the
  caller's loop ends.
\<close>

locale sliced_exec =
  fixes senv :: sched_env
    and run :: "'y kds_exec_state_scheme \<Rightarrow> ('z sched_state_scheme, 'y kds_exec_state_scheme) exec_call"
    and sl :: u64
    and at :: "'z sched_state_scheme \<Rightarrow> 'y kds_exec_state_scheme \<Rightarrow> nat \<Rightarrow> bool"
    and post :: "kds_exec_result \<Rightarrow> 'y kds_exec_state_scheme \<Rightarrow> 'z sched_state_scheme \<Rightarrow> bool"
  assumes call: "at s ex k \<Longrightarrow> \<exists>r ex' s'. kds_exec_run senv run ex sl s = (Inr (Some (r, ex')), s')
    \<and> (if r = KDS_EXEC_CONTINUE then \<exists>k' < k. at s' ex' k' else post r ex' s')"
begin

lemma completes:
  assumes "at s ex k" and "k < m"
  shows "\<exists>r ex' s'. exec_slices senv run sl m ex s = (Inr (Some (r, ex')), s') \<and> r \<noteq> KDS_EXEC_CONTINUE \<and> post r ex' s'"
  using assms
proof (induction m arbitrary: s ex k)
  case (Suc m)
  obtain r ex' s' where r: "kds_exec_run senv run ex sl s = (Inr (Some (r, ex')), s')"
    "if r = KDS_EXEC_CONTINUE then \<exists>k' < k. at s' ex' k' else post r ex' s'"
    using call [OF Suc.prems(1)] by blast
  show ?case
  proof (cases "r = KDS_EXEC_CONTINUE")
    case True
    then obtain k' where "k' < k" "at s' ex' k'" using r(2) by auto
    then show ?thesis using Suc.IH [of s' ex' k'] Suc.prems(2) r(1) True by (simp add: sbind_run)
  next
    case False
    then show ?thesis using r by (cases r) (simp_all add: sbind_run sret_def)
  qed
qed simp

end

definition table_keys :: "'z cat_state_scheme \<Rightarrow> u64 list \<Rightarrow> u64 list" where
  "table_keys s ps = map row_key (filter (\<lambda>r. 8 \<le> length r) (table_rows s ps))"

lemma free_keys: "free_of_key s pk ps \<longleftrightarrow> pk \<notin> set (table_keys s ps)"
  by (induction ps) (auto simp: table_keys_def page_keys_def)

lemma exec_run_eq: "kds_exec_run senv run ex sl s = run (ex\<lparr>deadline_ns := ktime senv (clock s) + sl\<rparr>) (s\<lparr>clock := Suc (clock s)\<rparr>)"
  by (simp add: kds_exec_run_def ktime_get_ns_def call_defs)

lemma heap_insert_slice:
  fixes s :: "'z sched_state_scheme"
  assumes tr: "table_ready s ps" and at: "hi_at s ps d ex k" and n: "length ps < n"
  shows "\<exists>r ex' s'. kds_exec_run senv (kds_heap_insert_exec_run env senv crc n) ex sl s = (Inr (Some (r, ex')), s')
    \<and> hi_outcome env crc s ps d (\<lambda>k'. k' \<le> k \<and> (ktime senv (Suc (clock s)) < ktime senv (clock s) + sl \<longrightarrow> k' < k)) r ex' s'"
proof -
  let ?s = "s\<lparr>clock := Suc (clock s)\<rparr>" and ?ex = "ex\<lparr>deadline_ns := ktime senv (clock s) + sl\<rparr>"
  obtain r ex' s' where r: "kds_heap_insert_exec_run env senv crc n ?ex ?s = (Inr (Some (r, ex')), s')"
    "hi_outcome env crc s ps d (\<lambda>k'. if stalls senv ?s ?ex then k' \<le> k else k' < k) r ex' s'"
    using heap_insert_run [of ?s ps d ?ex k n env senv crc] tr at n by (auto simp: hi_outcome_clock)
  have "hi_outcome env crc s ps d (\<lambda>k'. k' \<le> k \<and> (ktime senv (Suc (clock s)) < ktime senv (clock s) + sl \<longrightarrow> k' < k)) r ex' s'"
    using r(2) by (rule hi_outcome_mono) (auto simp: stalls_def split: if_splits)
  then show ?thesis using r(1) by (auto simp: exec_run_eq)
qed

text \<open>The heap insertion keeps the contract when the clock does not pass a slice between two readings.\<close>

definition hi_waits :: "sched_env \<Rightarrow> u64 \<Rightarrow> 'z sched_state_scheme \<Rightarrow> u64 list \<Rightarrow> u8 list \<Rightarrow> nat \<Rightarrow> 'z sched_state_scheme \<Rightarrow> kds_heap_insert_exec \<Rightarrow> nat \<Rightarrow> bool" where
  "hi_waits senv sl s0 ps d n s ex k \<longleftrightarrow> table_ready s0 ps \<and> hi_at s0 ps d ex k \<and> length ps < n \<and> (\<exists>t. s = s0\<lparr>clock := t\<rparr>) \<and> (\<forall>i. ktime senv (Suc i) < ktime senv i + sl)"

interpretation heap_insert: sliced_exec senv "kds_heap_insert_exec_run env senv crc n" sl "hi_waits senv sl s0 ps d n" "hi_outcome env crc s0 ps d (\<lambda>_. False)"
  for senv env crc n sl and s0 :: "'z sched_state_scheme" and ps d
proof
  fix s :: "'z sched_state_scheme" and ex k
  assume a: "hi_waits senv sl s0 ps d n s ex k"
  then obtain t where s: "s = s0\<lparr>clock := t\<rparr>" by (auto simp: hi_waits_def)
  obtain r ex' s' where r: "kds_exec_run senv (kds_heap_insert_exec_run env senv crc n) ex sl s = (Inr (Some (r, ex')), s')"
    "hi_outcome env crc s0 ps d (\<lambda>k'. k' \<le> k \<and> (ktime senv (Suc (clock s)) < ktime senv (clock s) + sl \<longrightarrow> k' < k)) r ex' s'"
    using heap_insert_slice [of s ps d ex k n senv env crc sl] a s by (auto simp: hi_waits_def hi_outcome_clock)
  have "if r = KDS_EXEC_CONTINUE then \<exists>k' < k. hi_waits senv sl s0 ps d n s' ex' k' else hi_outcome env crc s0 ps d (\<lambda>_. False) r ex' s'"
    using r(2) a by (cases r) (auto simp: hi_outcome_def hi_waits_def)
  then show "\<exists>r ex' s'. kds_exec_run senv (kds_heap_insert_exec_run env senv crc n) ex sl s = (Inr (Some (r, ex')), s')
      \<and> (if r = KDS_EXEC_CONTINUE then \<exists>k' < k. hi_waits senv sl s0 ps d n s' ex' k' else hi_outcome env crc s0 ps d (\<lambda>_. False) r ex' s')"
    using r(1) by blast
qed

lemma init_at:
  assumes "heap_chain s ps" and "rel_kind rel = KDS_CLUSTERED_HEAP" and "rel_root_page_id rel = hd ps" and "8 \<le> length d" and "length d \<le> 8102"
    and "kds_heap_insert_exec_init (Some rel) (Some d) (of_nat (length d)) xid = Inr ex"
  shows "hi_at s ps d ex (2 * length ps)"
proof -
  have "\<not> (of_nat (length d) :: u16) < 8" using assms(4,5) unat_of_nat16 [of "length d"] by (simp add: word_less_nat_alt)
  then have ex: "ex = \<lparr>ex_ret = None, deadline_ns = 0, units_done = 0, hi_rel = Some rel, hi_data = Some d, hi_data_len = of_nat (length d), hi_xid = xid,
       hi_out_tid = \<lparr>tid_page_id = 0, tid_slot = 0\<rparr>, hi_phase = KDS_HEAP_INSERT_PHASE_DUP_SCAN, cursor_page_id = hd ps, new_pk = row_key d,
       wal_target_page_id = 0, wal_target_offset = 0, wal_need_init_page = False\<rparr>"
    using assms(3-6) by (simp add: kds_heap_insert_exec_init_def buf_rd_def row_key_def)
  have "\<exists>as qs. ps = as @ qs \<and> qs \<noteq> [] \<and> hd ps = hd qs \<and> free_of_key s (row_key d) as \<and> 2 * length ps = length ps + length qs"
    by (rule exI [of _ "[]"], rule exI [of _ ps]) (use assms(1) in \<open>simp add: heap_chain_def\<close>)
  then show ?thesis using assms(2-5) by (simp add: hi_at_def ex job_row_def)
qed

text \<open>What a finished insertion leaves of the storage.\<close>

lemma outcome_done:
  assumes "hi_outcome env crc s ps d rem KDS_EXEC_DONE ex' s'"
  shows "\<exists>ps'. (ps' = ps \<or> all_full s d ps \<and> (\<exists>q. ps' = ps @ [q])) \<and> store_ok s' \<and> heap_chain s' ps' \<and> mset (table_rows s' ps') = add_mset d (mset (table_rows s ps))
    \<and> (\<forall>q j. q \<notin> set ps' \<longrightarrow> pmap s q = Some j \<longrightarrow> cat_frame s' q = cat_frame s q) \<and> row_key d \<notin> set (table_keys s ps)
    \<and> tid_page_id (hi_out_tid ex') \<in> set ps' \<and> row_at s' (hi_out_tid ex') d"
proof -
  obtain ps' s1 where p: "if wal_need_init_page ex' then all_full s d ps \<and> ps' = ps @ [wal_target_page_id ex'] else ps' = ps" "inserted s s1 ps ps' d"
    "s' = hi_logged env crc ex' d s1" "free_of_key s (row_key d) ps" "tid_page_id (hi_out_tid ex') \<in> set ps'" "row_at s' (hi_out_tid ex') d"
    using assms by (auto simp: hi_outcome_def)
  note F = same_store_facts [OF hi_logged_store [of s1 env crc ex' d], folded p(3)]
  show ?thesis using p(1,2,4-) F by (intro exI [of _ ps']) (auto simp: inserted_def free_keys split: if_splits)
qed

section \<open>Rows near the end of a page\<close>

text \<open>
  On a page with little data every live row is so close to the end of the page that a read of 256 bytes leaves it.
\<close>

definition young :: "kds_frame \<Rightarrow> bool" where
  "young f \<longleftrightarrow> 7859 < page_room f + 5 * length (v_slots (frame_view f))"

lemma young_read:
  assumes ok: "heap_ok f" and y: "young f" and i: "i < length (v_slots (frame_view f))" and s: "v_slots (frame_view f) ! i = Some (h, d, c)" and l: "length d \<le> 256"
  shows "heap_read_tuple f (of_nat i) True 256 = Inl Fault"
proof -
  obtain kp pg where f: "frame_page f = Some (kp, pg)" "heap_wf pg" "frame_view f = heap_view pg" using ok by (rule heap_okE)
  have n: "length (v_slots (frame_view f)) = nslots pg" using f(3) by simp
  have u: "unat (of_nat i :: u16) = i" using slots_small [OF ok] i by (intro unat_of_nat16) simp
  have live: "slot_live pg i" "h = htuple pg (slot_off pg i)" "d = rd pg (slot_off pg i + 28) (unat (data_len h))"
    using s i f(3) n by (auto simp: tuple_at_def Let_def split: if_splits)
  have b: "unat (lower (hmeta pg)) = 49 + 5 * nslots pg" "unat (lower (hmeta pg)) \<le> unat (upper (hmeta pg))" "unat (upper (hmeta pg)) \<le> 8184"
    using f(2) by (simp_all add: heap_wf_def)
  note S = heap_wf_span [OF f(2), of i]
  have off: "7908 < slot_off pg i" "slot_off pg i + 28 \<le> 8192"
    using S i n live(1) y b f(3) by (auto simp: young_def page_room_def heap_view_def)
  have dl: "data_len h \<le> 256" using l live(3) by (simp add: word_le_nat_alt)
  have slot: "load_slot pg (of_nat i) = Inr (hslot pg i)" using load_slot_ok [of "of_nat i" pg] u b i n by simp
  have hdr: "load_tuple_hdr pg (s_offset (hslot pg i)) = Inr h" using load_tuple_hdr_ok [of "s_offset (hslot pg i)" pg] off(2) live(2) by (simp add: slot_off_def)
  have nr: "\<not> nr_slots (hmeta pg) \<le> of_nat i" using i n u by (simp add: word_le_nat_alt nslots_def)
  show ?thesis using off(1) dl live(1) slot hdr nr
    by (simp add: heap_read_tuple_def heap_read_tuple_gen_def f(1) slot_live_def pload_def heap_consts slot_off_def)
qed

lemma live_slot:
  assumes "slot_rows v \<noteq> []"
  shows "\<exists>i \<in> set [0 ..< length (v_slots v)]. v_slots v ! i \<noteq> None"
proof -
  obtain x where "x \<in> set (v_slots v)" "x \<noteq> None" using assms by (force simp: slot_rows_def List.map_filter_def filter_empty_conv)
  then show ?thesis by (metis atLeastLessThan_upt atLeastLessThan_iff in_set_conv_nth le0)
qed

lemma young_scan:
  assumes ok: "heap_ok f" and y: "young f" and short: "\<forall>r \<in> set (slot_rows (frame_view f)). length r \<le> 256"
    and xs: "\<forall>i \<in> set xs. i < length (v_slots (frame_view f))" and live: "\<exists>i \<in> set xs. v_slots (frame_view f) ! i \<noteq> None"
  shows "scan_pk f pk xs = Inl Fault"
  using xs live
proof (induction xs)
  case (Cons i xs)
  have i: "i < length (v_slots (frame_view f))" using Cons.prems(1) by simp
  have u: "unat (of_nat i :: u16) = i" using slots_small [OF ok] i by (intro unat_of_nat16) simp
  have b: "(of_nat KDS_EXEC_ROW_SCAN_BUF :: u16) = 256" by (simp add: KDS_EXEC_ROW_SCAN_BUF_def)
  show ?case
  proof (cases "v_slots (frame_view f) ! i")
    case None
    then have "heap_read_tuple f (of_nat i) True 256 = fails ENOENT"
      using heap_read_refines [OF ok, of "of_nat i" 256, unfolded u] i by (simp add: spec_read_def spec_slot_def)
    then show ?thesis using Cons None b by simp
  next
    case (Some t)
    obtain h d c where t: "t = (h, d, c)" by (cases t)
    then have "heap_read_tuple f (of_nat i) True 256 = Inl Fault" using young_read [OF ok y i] Some short slot_rows_mem [OF i, of h d c] by simp
    then show ?thesis using b by simp
  qed
qed simp

section \<open>A concrete table\<close>

definition demo_base :: sched_state where
  "demo_base = cat_state.extend demo_cat0 \<lparr>kds_runqueues = (\<lambda>_. empty_runqueue), procs = (\<lambda>a. demo_proc KDS_PROC_SYSTEM a), kds_next_pid = 0,
     kds_stats = \<lparr>total_schedules = 0, load_balances = 0, migrations = 0\<rparr>, clock = 0\<rparr>"

lemma demo_base_simps:
  "pframes demo_base = pframes demo_wal0" "pmap demo_base = pmap demo_wal0" "free_frames demo_base = free_frames demo_wal0"
  "nr_free demo_base = nr_free demo_wal0" "cursor demo_base = cursor demo_wal0" "reserved demo_base = reserved demo_wal0" "ring demo_base = ring demo_wal0"
  "g_alloc demo_base = g_alloc demo_wal0" "g_pool demo_base = g_pool demo_wal0" "g_wal demo_base = None"
  by (simp_all add: demo_base_def demo_cat0_def wal_state.defs cat_state.defs demo_wal0_def btree_state.defs)

lemma demo_base_ok: "store_ok demo_base" "ring_items demo_base = [5, 6]"
proof -
  have "ring_items demo_base = ring_items demo_wal0"
    by (simp add: ring_items_def ring_len_def kds_ring_count_def slot_at_def demo_base_simps)
  then show r: "ring_items demo_base = [5, 6]" using demo_wal0_ring by simp
  have "ring_inv demo_base = ring_inv demo_wal0" by (simp add: ring_inv_def ring_len_def kds_ring_count_def slot_at_def demo_base_simps)
  moreover have "pool_wf demo_base = pool_wf demo_wal0" by (simp add: pool_wf_def demo_base_simps)
  ultimately have "alloc_wf demo_base" using demo_wal0_wf r demo_wal0_ring by (simp add: alloc_wf_def demo_base_simps)
  moreover have "hdrs_ok demo_base"
    by (auto simp: hdrs_ok_def demo_base_simps demo_wal0_simps demo_frame_def demo_kp_def page_hdr_valid_def split: if_splits)
  ultimately show "store_ok demo_base" by (simp add: store_ok_def demo_base_simps demo_wal0_simps)
qed

text \<open>A table of one page, empty or with one row.\<close>

definition demo_frame_with :: "u8 list option \<Rightarrow> kds_frame \<Rightarrow> kds_frame" where
  "demo_frame_with d f = (case heap_init_page f of Inl _ \<Rightarrow> f
     | Inr g \<Rightarrow> (case d of None \<Rightarrow> g | Some r \<Rightarrow> (case heap_insert_tuple g (Some r) (of_nat (length r)) 1 of Inl _ \<Rightarrow> g | Inr (tid, h) \<Rightarrow> h)))"

definition demo_table :: "u8 list option \<Rightarrow> sched_state" where
  "demo_table d = (let s = snd (kds_page_alloc KDS_PAGE_TYPE_HEAP demo_base) in put_frame 5 (demo_frame_with d (pframes s 5)) s)"

definition demo_rel :: kds_relation where
  "demo_rel = \<lparr>rel_oid = 4000, rel_namespace_oid = 0, rel_kind = KDS_CLUSTERED_HEAP, rel_root_page_id = 200, rel_schema = demo_schema\<rparr>"

lemma demo_frame_facts:
  assumes d: "case d of None \<Rightarrow> True | Some r \<Rightarrow> length r \<le> 8102" and kp: "fr_kp f = Some kp" "fr_page f = Some pg" "page_hdr_valid (kp_hdr kp)"
  shows "frame_keeps f (demo_frame_with d f)" "heap_ok (demo_frame_with d f)"
    "frame_view (demo_frame_with d f) = (case d of None \<Rightarrow> \<lparr>v_slots = [], v_free = 8135, v_next = 0\<rparr>
      | Some r \<Rightarrow> \<lparr>v_slots = [Some (mk_hdr 1 0 0 (length r), r, length r)], v_free = 8102 - length r, v_next = 0\<rparr>)"
proof -
  have fp: "frame_page f = Some (kp, pg)" using kp by (simp add: frame_page_kp)
  obtain g where g: "heap_init_page f = Inr g" "heap_ok g" "frame_view g = \<lparr>v_slots = [], v_free = 8135, v_next = 0\<rparr>"
    using heap_init_ok [OF fp kp(3), of KDS_PAGE_TYPE_HEAP] by (auto simp: heap_init_page_def)
  have kg: "frame_keeps f g" using heap_init_keeps [OF kp] g(1) by auto
  have "frame_keeps f (demo_frame_with d f) \<and> heap_ok (demo_frame_with d f)
    \<and> frame_view (demo_frame_with d f) = (case d of None \<Rightarrow> \<lparr>v_slots = [], v_free = 8135, v_next = 0\<rparr>
      | Some r \<Rightarrow> \<lparr>v_slots = [Some (mk_hdr 1 0 0 (length r), r, length r)], v_free = 8102 - length r, v_next = 0\<rparr>)"
  proof (cases d)
    case None
    then show ?thesis using g kg by (simp add: demo_frame_with_def)
  next
    case (Some r)
    then have l: "length r \<le> 8102" using d by simp
    have "spec_insert (frame_view g) r 1 0 0 = Inr (0, \<lparr>v_slots = [Some (mk_hdr 1 0 0 (length r), r, length r)], v_free = 8102 - length r, v_next = 0\<rparr>)"
      using g(3) l by (simp add: spec_insert_def)
    then obtain tid h where h: "heap_insert_tuple_ex g (Some r) (of_nat (length r)) 1 0 0 = Inr (tid, h)" "heap_ok h"
      "frame_view h = \<lparr>v_slots = [Some (mk_hdr 1 0 0 (length r), r, length r)], v_free = 8102 - length r, v_next = 0\<rparr>"
      using heap_insert_refines [OF g(2), of r 1 0 0] l by (auto split: sum.splits)
    have "frame_keeps g h" using insert_puts [OF h(1)] frame_keeps_put by blast
    then show ?thesis using Some g(1) h frame_keeps_trans [OF kg] by (simp add: demo_frame_with_def heap_insert_tuple_def)
  qed
  then show "frame_keeps f (demo_frame_with d f)" "heap_ok (demo_frame_with d f)"
    "frame_view (demo_frame_with d f) = (case d of None \<Rightarrow> \<lparr>v_slots = [], v_free = 8135, v_next = 0\<rparr>
      | Some r \<Rightarrow> \<lparr>v_slots = [Some (mk_hdr 1 0 0 (length r), r, length r)], v_free = 8102 - length r, v_next = 0\<rparr>)" by simp_all
qed

lemma demo_table_view:
  assumes "case d of None \<Rightarrow> True | Some r \<Rightarrow> length r \<le> 8102"
  shows "store_ok (demo_table d)" "ring_items (demo_table d) = [6]" "pmap (demo_table d) = pmap demo_base" "heap_ok (cat_frame (demo_table d) 200)"
    "frame_view (cat_frame (demo_table d) 200) = (case d of None \<Rightarrow> \<lparr>v_slots = [], v_free = 8135, v_next = 0\<rparr>
      | Some r \<Rightarrow> \<lparr>v_slots = [Some (mk_hdr 1 0 0 (length r), r, length r)], v_free = 8102 - length r, v_next = 0\<rparr>)" "g_wal (demo_table d) = None"
proof -
  obtain s where s: "kds_page_alloc KDS_PAGE_TYPE_HEAP demo_base = (Inr (Some 5), s)" "store_ok s" "pmap s = pmap demo_base" "ring_items s = [6]" "g_wal s = g_wal demo_base"
    using page_alloc_store [OF demo_base_ok, of KDS_PAGE_TYPE_HEAP] by auto
  have p: "pmap s 200 = Some 5" using s(3) by (simp add: demo_base_simps demo_wal0_simps)
  obtain kp pg where kp: "fr_kp (pframes s 5) = Some kp" "fr_page (pframes s 5) = Some pg" "page_hdr_valid (kp_hdr kp)" using page_loaded [OF s(2) p] by metis
  note F = demo_frame_facts [OF assms kp]
  have t: "demo_table d = put_frame 5 (demo_frame_with d (pframes s 5)) s" using s(1) by (simp add: demo_table_def)
  note so = store_ok_put [OF s(2) p F(1)]
  show "store_ok (demo_table d)" "ring_items (demo_table d) = [6]" using so s(4) t by simp_all
  show "pmap (demo_table d) = pmap demo_base" "g_wal (demo_table d) = None" using s(3,5) t by (simp_all add: demo_base_simps)
  have "cat_frame (demo_table d) 200 = demo_frame_with d (pframes s 5)" using p t by (simp add: cat_frame_def)
  then show "heap_ok (cat_frame (demo_table d) 200)" "frame_view (cat_frame (demo_table d) 200) = (case d of None \<Rightarrow> \<lparr>v_slots = [], v_free = 8135, v_next = 0\<rparr>
      | Some r \<Rightarrow> \<lparr>v_slots = [Some (mk_hdr 1 0 0 (length r), r, length r)], v_free = 8102 - length r, v_next = 0\<rparr>)"
    using F by simp_all
qed

lemma demo_table_chain:
  assumes "case d of None \<Rightarrow> True | Some r \<Rightarrow> length r \<le> 8102"
  shows "heap_chain (demo_table d) [200]" "table_rows (demo_table d) [200] = (case d of None \<Rightarrow> [] | Some r \<Rightarrow> [r])" "wal_ready (demo_table d)"
proof -
  note V = demo_table_view [OF assms]
  have p: "pmap (demo_table d) 200 = Some 5" using V(3) by (simp add: demo_base_simps demo_wal0_simps)
  show "heap_chain (demo_table d) [200]"
    using V(2,4,5) p by (auto simp: heap_chain_def chain_links_def next_page_def cat_frame_def split: option.splits)
  show "table_rows (demo_table d) [200] = (case d of None \<Rightarrow> [] | Some r \<Rightarrow> [r])" using V(5) by (auto simp: slot_rows_def split: option.splits)
  show "wal_ready (demo_table d)" using V(6) by (simp add: wal_ready_def)
qed

lemma demo_table_ready: "table_ready (demo_table None) [200]"
  using demo_table_view [of None] demo_table_chain [of None]
  by (simp add: table_ready_def scannable_def slot_rows_def)

text \<open>A row of 256 bytes can be read through the buffer wherever it is.\<close>

lemma demo_full_ready:
  assumes "length r = 256"
  shows "table_ready (demo_table (Some r)) [200]" "table_rows (demo_table (Some r)) [200] = [r]" "length d \<le> 7813 \<Longrightarrow> \<not> all_full (demo_table (Some r)) d [200]"
proof -
  have l: "case Some r of None \<Rightarrow> True | Some r \<Rightarrow> length r \<le> 8102" using assms by simp
  note V = demo_table_view [OF l] and C = demo_table_chain [OF l]
  have "scannable (cat_frame (demo_table (Some r)) 200)" using V(4,5) assms by (intro full_rows_scannable) (simp_all add: slot_rows_def)
  then show "table_ready (demo_table (Some r)) [200]" using V(1) C by (simp add: table_ready_def)
  show "table_rows (demo_table (Some r)) [200] = [r]" using C(2) by simp
  show "\<not> all_full (demo_table (Some r)) d [200]" if "length d \<le> 7813" using V(5) assms that by (simp add: all_full_def fits_def page_room_def)
qed

definition demo_exec :: "u8 list \<Rightarrow> kds_heap_insert_exec" where
  "demo_exec d = \<lparr>ex_ret = None, deadline_ns = 0, units_done = 0, hi_rel = Some demo_rel, hi_data = Some d, hi_data_len = of_nat (length d), hi_xid = 1,
     hi_out_tid = \<lparr>tid_page_id = 0, tid_slot = 0\<rparr>, hi_phase = KDS_HEAP_INSERT_PHASE_DUP_SCAN, cursor_page_id = 200, new_pk = row_key d,
     wal_target_page_id = 0, wal_target_offset = 0, wal_need_init_page = False\<rparr>"

lemma demo_exec_init:
  assumes "8 \<le> length d" and "length d \<le> 8102"
  shows "kds_heap_insert_exec_init (Some demo_rel) (Some d) (of_nat (length d)) 1 = Inr (demo_exec d)"
proof -
  have "\<not> (of_nat (length d) :: u16) < 8" using assms unat_of_nat16 [of "length d"] by (simp add: word_less_nat_alt)
  then show ?thesis using assms(1) by (simp add: kds_heap_insert_exec_init_def demo_exec_def buf_rd_def row_key_def demo_rel_def)
qed

section \<open>Properties\<close>

text \<open>C12: A heap insertion of a row of 8 to 8102 bytes that is called again and again completes, at most one call for
  every visit of a page, as long as the clock does not pass a whole slice between two readings. It is stated for a
  table whose pages are all in memory and scannable: every live row has at most 256 bytes and at least 256 bytes of its
  page follow its start, since the search for a duplicate copies 256 bytes from there whatever the length of the row
  (a table with a short row near the end of a page is excluded, and C39 shows what happens to it). The insertion succeeds
  exactly when the key is not in the table and there is a page for the row: then the table holds its rows and the new
  one, in the same pages or with one page more when all were full, the new row is in the page and slot that the executor
  reports, and every other page is as before. Otherwise nothing has changed and the error is \<^verbatim>\<open>EEXIST\<close> or
  \<^verbatim>\<open>ENOSPC\<close>.\<close>

theorem heap_insert_completes:
  fixes s :: "'z sched_state_scheme"
  assumes "table_ready s ps" and "rel_kind rel = KDS_CLUSTERED_HEAP" and "rel_root_page_id rel = hd ps" and "8 \<le> length d" and "length d \<le> 8102"
    and "kds_heap_insert_exec_init (Some rel) (Some d) (of_nat (length d)) xid = Inr ex" and "length ps < n"
    and "\<forall>i. ktime senv (Suc i) < ktime senv i + sl"
  shows "\<exists>r ex' s'. exec_slices senv (kds_heap_insert_exec_run env senv crc n) sl (Suc (2 * length ps)) ex s = (Inr (Some (r, ex')), s')
    \<and> (if row_key d \<in> set (table_keys s ps) then r = KDS_EXEC_ERROR \<and> ex_ret ex' = Some EEXIST \<and> same_store s s'
       else if all_full s d ps \<and> ring_items s = [] then r = KDS_EXEC_ERROR \<and> ex_ret ex' = Some ENOSPC \<and> same_store s s'
       else r = KDS_EXEC_DONE \<and> (\<exists>ps'. (ps' = ps \<or> all_full s d ps \<and> (\<exists>q. ps' = ps @ [q])) \<and> store_ok s' \<and> heap_chain s' ps'
         \<and> mset (table_rows s' ps') = add_mset d (mset (table_rows s ps))
         \<and> tid_page_id (hi_out_tid ex') \<in> set ps' \<and> row_at s' (hi_out_tid ex') d
         \<and> (\<forall>q j. q \<notin> set ps' \<longrightarrow> pmap s q = Some j \<longrightarrow> cat_frame s' q = cat_frame s q)))"
proof -
  have at: "hi_at s ps d ex (2 * length ps)" using init_at assms(1-6) by (auto simp: table_ready_def)
  then have "hi_waits senv sl s ps d n s ex (2 * length ps)" using assms(1,7,8) by (auto simp: hi_waits_def intro: exI [of _ "clock s"])
  then obtain r ex' s' where run: "exec_slices senv (kds_heap_insert_exec_run env senv crc n) sl (Suc (2 * length ps)) ex s = (Inr (Some (r, ex')), s')"
    and r: "r \<noteq> KDS_EXEC_CONTINUE" "hi_outcome env crc s ps d (\<lambda>_. False) r ex' s'"
    using heap_insert.completes [of senv sl s ps d n s ex "2 * length ps" "Suc (2 * length ps)" env crc] by auto
  show ?thesis
  proof (cases r)
    case KDS_EXEC_DONE
    obtain ps' where p: "(ps' = ps \<or> all_full s d ps \<and> (\<exists>q. ps' = ps @ [q]))" "store_ok s'" "heap_chain s' ps'"
      "mset (table_rows s' ps') = add_mset d (mset (table_rows s ps))"
      "\<forall>q j. q \<notin> set ps' \<longrightarrow> pmap s q = Some j \<longrightarrow> cat_frame s' q = cat_frame s q" "row_key d \<notin> set (table_keys s ps)"
      "tid_page_id (hi_out_tid ex') \<in> set ps'" "row_at s' (hi_out_tid ex') d"
      using outcome_done [OF r(2) [unfolded KDS_EXEC_DONE]] by blast
    have "\<not> (all_full s d ps \<and> ring_items s = [])" using r(2) KDS_EXEC_DONE by (simp add: hi_outcome_def)
    then show ?thesis using run KDS_EXEC_DONE p by auto
  next
    case KDS_EXEC_ERROR
    then show ?thesis using run r(2) by (auto simp: hi_outcome_def free_keys)
  qed (use r in simp)
qed

lemma sbind_fault: "m s = (Inl e, s') \<Longrightarrow> sbind m f s = (Inl e, s')"
  by (simp add: sbind_def)

text \<open>A clock that advances by a microsecond at every reading, for a while.\<close>

definition demo_clock :: sched_env where
  "demo_clock = demo_senv\<lparr>ktime := (\<lambda>i. of_nat (min i 100) * 1000)\<rparr>"

lemma demo_clock_ticks: "ktime demo_clock (Suc i) < ktime demo_clock i + 5000" "ktime demo_clock i + 0 \<le> ktime demo_clock (Suc i)"
proof -
  have u: "unat (of_nat (min i 100) * 1000 :: u64) = min i 100 * 1000" for i
    by (simp add: unat_word_ariths unat_of_nat)
  have "unat (of_nat (min i 100) * 1000 + 5000 :: u64) = min i 100 * 1000 + 5000" using u [of i] by (simp add: unat_word_ariths)
  then show "ktime demo_clock (Suc i) < ktime demo_clock i + 5000" using u [of "Suc i"] by (simp add: demo_clock_def word_less_nat_alt)
  show "ktime demo_clock i + 0 \<le> ktime demo_clock (Suc i)" using u [of i] u [of "Suc i"] by (simp add: demo_clock_def word_le_nat_alt)
qed

lemma demo_keys: "row_key (replicate 20 8) \<notin> set (table_keys (demo_table (Some (replicate 256 7))) [200])"
proof -
  have "row_key (replicate 20 8) \<noteq> row_key (replicate 256 7)" by (simp add: row_key_def) code_simp
  then show ?thesis using demo_full_ready(2) [of "replicate 256 7"] by (simp add: table_keys_def del: table_rows_append)
qed

theorem heap_insert_completes_witness:
  "\<exists>ex' s' ps'. exec_slices demo_clock (kds_heap_insert_exec_run demo_env demo_clock (\<lambda>_ _. 0) 2) 5000 3 (demo_exec (replicate 20 8)) (demo_table (Some (replicate 256 7)))
      = (Inr (Some (KDS_EXEC_DONE, ex')), s')
    \<and> heap_chain s' ps' \<and> mset (table_rows s' ps') = {#replicate 20 8, replicate 256 7#} \<and> row_at s' (hi_out_tid ex') (replicate 20 8)"
proof -
  let ?d = "replicate 20 8 :: u8 list" and ?t = "demo_table (Some (replicate 256 7))"
  have i: "kds_heap_insert_exec_init (Some demo_rel) (Some ?d) (of_nat (length ?d)) 1 = Inr (demo_exec ?d)" by (rule demo_exec_init) simp_all
  have l: "length (replicate 256 7 :: u8 list) = 256" by simp
  note R = demo_full_ready [OF l]
  have "\<not> all_full ?t ?d [200]" by (rule R(3)) simp
  moreover have "Suc (2 * length [200 :: u64]) = 3" by simp
  ultimately obtain ex' s' ps' where "exec_slices demo_clock (kds_heap_insert_exec_run demo_env demo_clock (\<lambda>_ _. 0) 2) 5000 3 (demo_exec ?d) ?t = (Inr (Some (KDS_EXEC_DONE, ex')), s')"
    "heap_chain s' ps'" "mset (table_rows s' ps') = add_mset ?d (mset (table_rows ?t [200]))" "row_at s' (hi_out_tid ex') ?d"
    using heap_insert_completes [OF R(1) _ _ _ _ i, of 2 demo_clock 5000 demo_env "\<lambda>_ _. 0"] demo_clock_ticks(1) demo_keys
    by (auto simp add: demo_rel_def simp del: exec_slices.simps table_rows_append)
  then show ?thesis using R(2) by (auto simp del: exec_slices.simps table_rows_append)
qed

text \<open>Whatever the slice and the clock, one call either ends the insertion, with the row stored and logged and its page
  named in the record, or with the storage untouched; or it asks to be called again, with the storage untouched and an
  executor that resumes behind the pages it has already visited.\<close>

theorem heap_insert_resumes:
  fixes s :: "'z sched_state_scheme"
  assumes "table_ready s ps" and "hi_at s ps d ex k" and "length ps < n"
  shows "\<exists>r ex' s'. kds_exec_run senv (kds_heap_insert_exec_run env senv crc n) ex sl s = (Inr (Some (r, ex')), s')
    \<and> hi_outcome env crc s ps d (\<lambda>k'. k' \<le> k) r ex' s'"
  using heap_insert_slice [OF assms, of senv env crc sl] hi_outcome_mono by (metis (no_types, lifting))

lemma demo_exec_at: "table_ready (demo_table x) [200] \<Longrightarrow> 8 \<le> length d \<Longrightarrow> length d \<le> 8102 \<Longrightarrow> hi_at (demo_table x) [200] d (demo_exec d) 2"
  using init_at [of "demo_table x" "[200]" demo_rel d 1 "demo_exec d"] demo_exec_init [of d] by (simp add: demo_rel_def table_ready_def)

theorem heap_insert_resumes_witness:
  "\<exists>r ex' s'. kds_exec_run demo_clock (kds_heap_insert_exec_run demo_env demo_clock (\<lambda>_ _. 0) 2) (demo_exec (replicate 20 7)) 0 (demo_table None) = (Inr (Some (r, ex')), s')
    \<and> hi_outcome demo_env (\<lambda>_ _. 0) (demo_table None) [200] (replicate 20 7) (\<lambda>k'. k' \<le> 2) r ex' s'"
  by (rule heap_insert_resumes [OF demo_table_ready demo_exec_at [OF demo_table_ready]]) simp_all





text \<open>An executor that resumes its search for a page with a slice that is over at the first reading of the clock makes no
  progress, however often it is called.\<close>

theorem heap_insert_stalls:
  fixes s :: "'z sched_state_scheme"
  assumes "hi_rel ex = Some rel" and "rel_kind rel = KDS_CLUSTERED_HEAP" and "8 \<le> hi_data_len ex" and "hi_phase ex = KDS_HEAP_INSERT_PHASE_FIND_TAIL"
    and "\<forall>i. ktime senv i + sl \<le> ktime senv (Suc i)"
  shows "\<exists>t dl. exec_slices senv (kds_heap_insert_exec_run env senv crc n) sl m ex s = (Inr (Some (KDS_EXEC_CONTINUE, ex\<lparr>deadline_ns := dl\<rparr>)), s\<lparr>clock := t\<rparr>)"
  using assms
proof (induction m arbitrary: ex s)
  case 0
  have "ex\<lparr>deadline_ns := deadline_ns ex\<rparr> = ex" "s\<lparr>clock := clock s\<rparr> = s" by simp_all
  then show ?case by (metis exec_slices.simps(1) sret_def)
next
  case (Suc m ex s)
  let ?ex = "ex\<lparr>deadline_ns := ktime senv (clock s) + sl\<rparr>" and ?s = "s\<lparr>clock := Suc (Suc (clock s))\<rparr>"
  have "\<not> hi_data_len ex < 8" using Suc.prems(3) by simp
  then have "kds_exec_run senv (kds_heap_insert_exec_run env senv crc n) ex sl s = (Inr (Some (KDS_EXEC_CONTINUE, ?ex)), ?s)"
    using Suc.prems by (simp add: exec_run_eq kds_heap_insert_exec_run_def hi_phase_find_tail_def kds_exec_slice_expired_def ktime_get_ns_def call_defs)
  then show ?case using Suc.IH [of ?ex ?s] Suc.prems by (auto simp: sbind_run)
qed

theorem heap_insert_stalls_witness:
  "\<exists>t dl. exec_slices demo_clock (kds_heap_insert_exec_run demo_env demo_clock (\<lambda>_ _. 0) 2) 0 1000
      ((demo_exec (replicate 20 7))\<lparr>hi_phase := KDS_HEAP_INSERT_PHASE_FIND_TAIL\<rparr>) (demo_table None)
    = (Inr (Some (KDS_EXEC_CONTINUE, (demo_exec (replicate 20 7))\<lparr>hi_phase := KDS_HEAP_INSERT_PHASE_FIND_TAIL, deadline_ns := dl\<rparr>)), (demo_table None)\<lparr>clock := t\<rparr>)"
  using heap_insert_stalls [of "(demo_exec (replicate 20 7))\<lparr>hi_phase := KDS_HEAP_INSERT_PHASE_FIND_TAIL\<rparr>" demo_rel demo_clock 0] demo_clock_ticks(2)
  by (simp add: demo_exec_def demo_rel_def)

text \<open>C39: A table whose first page has a row and little data cannot be inserted into: the scan for a duplicate key copies 256
  bytes from the start of the row, beyond the end of the page.\<close>

theorem short_row_blocks_inserts:
  fixes s :: "'z sched_state_scheme"
  assumes "store_ok s" and "heap_chain s (p # ps)" and "slot_rows (frame_view (cat_frame s p)) \<noteq> []" and "\<forall>r \<in> set (slot_rows (frame_view (cat_frame s p))). length r \<le> 256"
    and "7859 < page_room (cat_frame s p) + 5 * length (v_slots (frame_view (cat_frame s p)))"
    and "rel_kind rel = KDS_CLUSTERED_HEAP" and "rel_root_page_id rel = p" and "8 \<le> length d" and "length d \<le> 8102"
    and "kds_heap_insert_exec_init (Some rel) (Some d) (of_nat (length d)) xid = Inr ex"
  shows "fst (kds_exec_run senv (kds_heap_insert_exec_run env senv crc (Suc n)) ex sl s) = Inl Fault"
proof -
  have at: "hi_at s (p # ps) d ex (2 * length (p # ps))" using init_at [OF assms(2)] assms(6-10) by simp
  obtain i where i: "pmap s p = Some i" "heap_ok (pframes s i)" "cat_frame s p = pframes s i" "p \<noteq> 0" using chain_page [OF assms(2), of p] by auto
  have wf: "pool_wf s" using assms(1) by (rule store_ok_pool)
  obtain kp where kp: "fr_kp (pframes s i) = Some kp" using page_loaded [OF assms(1) i(1)] by metis
  let ?t = "s\<lparr>clock := Suc (clock s)\<rparr>" and ?f = "(pframes s i)\<lparr>fr_kp := Some (pin_kpage kp)\<rparr>"
  let ?ex = "ex\<lparr>deadline_ns := ktime senv (clock s) + sl\<rparr>"
  have v: "heap_ok ?f" "frame_view ?f = frame_view (cat_frame s p)" "young ?f" using i kp assms(5) by (simp_all add: young_def page_room_def)
  have live: "\<exists>k \<in> set [0 ..< length (v_slots (frame_view ?f))]. v_slots (frame_view ?f) ! k \<noteq> None" by (rule live_slot) (simp add: v(2) assms(3))
  have "scan_pk ?f (new_pk ?ex) [0 ..< length (v_slots (frame_view ?f))] = Inl Fault"
    by (rule young_scan [OF v(1,3) _ _ live]) (use assms(4) v(2) in simp_all)
  then have "fst (kds_heap_scan_page_for_pk env p (new_pk ?ex) ?t) = Inl Fault"
    using load_root [of ?t p i kp env] wf i(1) kp page_slots_eq [OF v(1)]
    by (simp add: kds_heap_scan_page_for_pk_def scan_page_def sbind_run then_unpin_def sattempt_def strying_def pinned_put sget_def slift_def sfail_def)
  then obtain u where u: "kds_heap_scan_page_for_pk env p (new_pk ?ex) ?t = (Inl Fault, u)" by (metis prod.collapse)
  obtain rel' where at': "hi_rel ex = Some rel'" "rel_kind rel' = KDS_CLUSTERED_HEAP" "hi_phase ex = KDS_HEAP_INSERT_PHASE_DUP_SCAN" "cursor_page_id ex = p" "\<not> hi_data_len ex < 8"
    using assms(6-10) unat_of_nat16 [of "length d"] by (auto simp: kds_heap_insert_exec_init_def buf_rd_def word_less_nat_alt)
  have "heap_insert_run_dup_scan env senv (Suc n) ?ex ?t = (Inl Fault, u)"
    using u at' i(4) by (simp add: sattempt_def strying_def sfail_def)
  then show ?thesis using at'
    by (simp add: exec_run_eq kds_heap_insert_exec_run_def hi_phase_dup_scan_def then_phase_def sbind_fault del: heap_insert_run_dup_scan.simps)
qed

theorem short_row_blocks_inserts_witness:
  "fst (kds_exec_run demo_clock (kds_heap_insert_exec_run demo_env demo_clock (\<lambda>_ _. 0) 2) (demo_exec (replicate 20 8)) 5000 (demo_table (Some (replicate 20 7)))) = Inl Fault"
proof -
  let ?d = "replicate 20 7 :: u8 list" and ?e = "replicate 20 8 :: u8 list"
  have V: "frame_view (cat_frame (demo_table (Some ?d)) 200) = \<lparr>v_slots = [Some (mk_hdr 1 0 0 20, ?d, 20)], v_free = 8082, v_next = 0\<rparr>"
    using demo_table_view(5) [of "Some ?d"] by simp
  have "kds_heap_insert_exec_init (Some demo_rel) (Some ?e) (of_nat (length ?e)) 1 = Inr (demo_exec ?e)" by (rule demo_exec_init) simp_all
  then show ?thesis
    using short_row_blocks_inserts [of "demo_table (Some ?d)" 200 "[]" demo_rel ?e 1 "demo_exec ?e" demo_clock demo_env "\<lambda>_ _. 0" 1 5000]
      demo_table_view(1) [of "Some ?d"] demo_table_chain(1) [of "Some ?d"]
    by (simp add: V demo_rel_def slot_rows_def page_room_def numeral_2_eq_2)
qed

end
