(* ===== verification/Kds_Exec_Btree.thy ===== *)
theory Kds_Exec_Btree
  imports Kds_Exec_Heap
begin

text \<open>
  \<^verbatim>\<open>exec_btree_insert.c\<close>: insertion into a table clustered by a B-tree. The leaves of the tree point to heap pages; the
  executor descends to a leaf, looks into the heap page of the slot, logs the change, stores the row and, when it had to
  take a new page, enters the page into the leaf. The theorems are about trees of one node (\<open>btree_leaf\<close>): what happens
  with a page that has room (\<open>heap_leaf\<close>), with a new page (\<open>needs_page\<close>), with a key that is already there, and
  when no page can be had.
\<close>

section \<open>Insertion into a clustered B-tree\<close>

definition KDS_BTREE_EXEC_XID :: u64 where "KDS_BTREE_EXEC_XID = 1"

datatype kds_btree_insert_phase = KDS_BTREE_INSERT_PHASE_SEARCH_AND_PREPARE | KDS_BTREE_INSERT_PHASE_WAL_INIT_PAGE
  | KDS_BTREE_INSERT_PHASE_WAL_INSERT | KDS_BTREE_INSERT_PHASE_WAL_BTREE | KDS_BTREE_INSERT_PHASE_HEAP_INSERT
  | KDS_BTREE_INSERT_PHASE_BTREE_INSERT | KDS_BTREE_INSERT_PHASE_DONE

record kds_btree_insert_exec = kds_exec_state +
  bi_rel :: "kds_relation option"
  bi_key :: u64
  bi_data :: "u8 list option"
  bi_data_len :: u16
  bi_phase :: kds_btree_insert_phase
  bi_cursor :: kds_btree_cursor
  current_page_id :: u64
  target_heap_page_id :: u64
  new_heap_page_id :: u64
  new_page_min_key :: u64
  need_new_page :: bool
  bi_out_tid :: kds_heap_tid

definition bi_cleanup :: "kds_btree_insert_exec \<Rightarrow> ('z sched_state_scheme, kds_btree_insert_exec) call" where
  "bi_cleanup ex = sbind (btree_cursor_cleanup (bi_cursor ex)) (\<lambda>cur. sret (ex\<lparr>bi_cursor := cur\<rparr>))"

definition cleanup_error :: "kds_btree_insert_exec \<Rightarrow> errno \<Rightarrow> ('z sched_state_scheme, kds_btree_insert_exec) exec_call" where
  "cleanup_error ex e = sbind (bi_cleanup ex) (\<lambda>ex. exec_error ex e)"

text \<open>The loop over the slots of the heap page; \<open>True\<close> is a duplicate.\<close>

fun scan_key :: "kds_frame \<Rightarrow> u64 \<Rightarrow> nat list \<Rightarrow> bool res" where
  "scan_key f key [] = Inr False"
| "scan_key f key (slot # slots) =
     (case heap_read_tuple_pk f (of_nat slot) True 8 of
        Inl (Errno ENOENT) \<Rightarrow> scan_key f key slots
      | Inl x \<Rightarrow> Inl x
      | Inr (hdr, buf) \<Rightarrow> if dec64 buf = key then Inr True else scan_key f key slots)"

text \<open>At the leaf: the heap page of the slot, the root page when the slot is empty.\<close>

definition probe_heap_page :: "kenv \<Rightarrow> u64 \<Rightarrow> kds_btree_insert_exec \<Rightarrow> ('z sched_state_scheme, kds_btree_insert_exec) exec_call" where
  "probe_heap_page env heap_page_id ex =
     sattempt (load_page env heap_page_id) (\<lambda>r.
     case r of Inl e \<Rightarrow> cleanup_error ex e
     | Inr j \<Rightarrow>
       sbind sget (\<lambda>s. let f = pframes s j in
       sattempt (slift (rbind (page_slots f) (scan_key f (bi_key ex)))) (\<lambda>r.
       case r of
         Inl e \<Rightarrow> sbind (kds_buf_unpin j) (\<lambda>_. cleanup_error ex e)
       | Inr dup \<Rightarrow>
           if dup then sbind (kds_buf_unpin j) (\<lambda>_. cleanup_error ex EEXIST)
           else sbind (slift (heap_has_space f (bi_data_len ex))) (\<lambda>space.
             sbind (kds_buf_unpin j) (\<lambda>_. sret (Some (KDS_EXEC_DONE, ex\<lparr>need_new_page := \<not> space\<rparr>)))))))"

definition probe_leaf :: "kenv \<Rightarrow> kds_relation \<Rightarrow> u64 \<Rightarrow> kds_btree_insert_exec \<Rightarrow> ('z sched_state_scheme, kds_btree_insert_exec) exec_call" where
  "probe_leaf env rel slot ex =
     (let heap_page_id = (if slot = 0 then rel_root_page_id rel else slot);
          ex' = ex\<lparr>target_heap_page_id := heap_page_id\<rparr>
      in if heap_page_id = 0 then sret (Some (KDS_EXEC_DONE, ex'\<lparr>need_new_page := True\<rparr>))
         else probe_heap_page env heap_page_id ex')"

text \<open>The descent; the first argument is the number of levels the cursor has left.\<close>

fun search_levels :: "kenv \<Rightarrow> sched_env \<Rightarrow> kds_relation \<Rightarrow> nat \<Rightarrow> kds_btree_insert_exec \<Rightarrow> ('z sched_state_scheme, kds_btree_insert_exec) exec_call" where
  "search_levels env senv rel 0 ex = cleanup_error ex E2BIG"
| "search_levels env senv rel (Suc n) ex =
     sattempt (load_page env (current_page_id ex)) (\<lambda>r.
     case r of Inl e \<Rightarrow> cleanup_error ex e
     | Inr i \<Rightarrow>
       sbind (load_btree_node i) (\<lambda>node.
       sbind (slift (scan_keys 16 (bt_cells node) (bi_key ex) 0)) (\<lambda>pos.
       let cur = bi_cursor ex; d = cur_depth cur;
           ex' = unit_done (ex\<lparr>bi_cursor := cur\<lparr>cur_nodes := (cur_nodes cur)[d := node], cur_positions := (cur_positions cur)[d := pos]\<rparr>\<rparr>) in
       sbind (slift (getc (slots_at pos) (bt_cells node))) (\<lambda>slot.
       if level_of (bt_cells node) = 0 then probe_leaf env rel slot ex'
       else let ex'' = ex'\<lparr>current_page_id := slot, bi_cursor := (bi_cursor ex')\<lparr>cur_depth := Suc d\<rparr>\<rparr> in
         sbind (kds_exec_slice_expired senv ex'') (\<lambda>expired.
         if expired then sret (Some (KDS_EXEC_CONTINUE, ex'')) else search_levels env senv rel n ex'')))))"

definition btree_insert_run_search_and_prepare ::
  "kenv \<Rightarrow> sched_env \<Rightarrow> kds_relation \<Rightarrow> kds_btree_insert_exec \<Rightarrow> ('z sched_state_scheme, kds_btree_insert_exec) exec_call" where
  "btree_insert_run_search_and_prepare env senv rel ex = search_levels env senv rel (BTREE_MAX_DEPTH - cur_depth (bi_cursor ex)) ex"

definition btree_insert_run_wal_init_page ::
  "(u32 \<Rightarrow> u8 list \<Rightarrow> u32) \<Rightarrow> kds_btree_insert_exec \<Rightarrow> ('z sched_state_scheme, kds_btree_insert_exec) exec_call" where
  "btree_insert_run_wal_init_page crc ex =
     (let body = enc_body_init_page 0 (ucast KDS_PAGE_TYPE_HEAP) in
      sbind (wal_append_logged crc (zero_rec_hdr\<lparr>rec_xid := KDS_BTREE_EXEC_XID, rec_type := rec_type_code KDS_WAL_REC_INIT_PAGE,
        body_len := of_nat (length body)\<rparr>) body) (\<lambda>_. sret (Some (KDS_EXEC_DONE, ex))))"

definition btree_insert_run_wal_insert ::
  "kenv \<Rightarrow> (u32 \<Rightarrow> u8 list \<Rightarrow> u32) \<Rightarrow> kds_btree_insert_exec \<Rightarrow> ('z sched_state_scheme, kds_btree_insert_exec) exec_call" where
  "btree_insert_run_wal_insert env crc ex =
     sbind (wal_row env crc KDS_BTREE_EXEC_XID (if need_new_page ex then 0 else target_heap_page_id ex) 0 (bi_data ex) (bi_data_len ex))
       (\<lambda>_. sret (Some (KDS_EXEC_DONE, ex)))"

text \<open>The leaf is the node at the depth of the cursor; its length field counts a key and a page id.\<close>

definition btree_insert_run_wal_btree ::
  "(u32 \<Rightarrow> u8 list \<Rightarrow> u32) \<Rightarrow> kds_btree_insert_exec \<Rightarrow> ('z sched_state_scheme, kds_btree_insert_exec) exec_call" where
  "btree_insert_run_wal_btree crc ex =
     sbind (case bt_frame (cur_nodes (bi_cursor ex) ! cur_depth (bi_cursor ex)) of
              None \<Rightarrow> sret 0 | Some i \<Rightarrow> sbind (the_kp i) (\<lambda>kp. sret (kp_id kp))) (\<lambda>pid.
     let meta = enc_body_page_mod pid 0 16 in
     sbind (wal_append_logged crc (zero_rec_hdr\<lparr>rec_xid := KDS_BTREE_EXEC_XID, rec_type := rec_type_code KDS_WAL_REC_INSERT,
       body_len := of_nat (length meta)\<rparr>) meta) (\<lambda>_. sret (Some (KDS_EXEC_DONE, ex))))"

definition insert_into_new_page :: "kds_btree_insert_exec \<Rightarrow> ('z sched_state_scheme, kds_btree_insert_exec) exec_call" where
  "insert_into_new_page ex =
     sbind (kds_page_alloc KDS_PAGE_TYPE_HEAP) (\<lambda>new_frame.
     case new_frame of
       None \<Rightarrow> exec_error ex ENOSPC
     | Some j \<Rightarrow>
       sbind (on_frame j (unit_op heap_init_page)) (\<lambda>_.
       sattempt (on_frame j (\<lambda>f. heap_insert_tuple f (bi_data ex) (bi_data_len ex) KDS_BTREE_EXEC_XID)) (\<lambda>r.
       case r of
         Inl e \<Rightarrow> sbind (kds_buf_unpin j) (\<lambda>_. exec_error ex e)
       | Inr tid \<Rightarrow>
         sbind (the_kp j) (\<lambda>kp.
         sbind (kds_buf_unpin j) (\<lambda>_.
         sret (Some (KDS_EXEC_DONE, unit_done (ex\<lparr>bi_out_tid := tid, new_heap_page_id := kp_id kp, new_page_min_key := bi_key ex\<rparr>))))))))"

definition insert_into_target :: "kenv \<Rightarrow> kds_btree_insert_exec \<Rightarrow> ('z sched_state_scheme, kds_btree_insert_exec) exec_call" where
  "insert_into_target env ex =
     sattempt (load_page env (target_heap_page_id ex)) (\<lambda>r.
     case r of Inl e \<Rightarrow> exec_error ex e
     | Inr i \<Rightarrow>
       sattempt (then_unpin i (on_frame i (\<lambda>f. heap_insert_tuple f (bi_data ex) (bi_data_len ex) KDS_BTREE_EXEC_XID))) (\<lambda>r.
       case r of Inl e \<Rightarrow> exec_error ex e
       | Inr tid \<Rightarrow> sret (Some (KDS_EXEC_DONE, unit_done (ex\<lparr>bi_out_tid := tid, new_heap_page_id := 0\<rparr>)))))"

definition btree_insert_run_heap_insert ::
  "kenv \<Rightarrow> kds_btree_insert_exec \<Rightarrow> ('z sched_state_scheme, kds_btree_insert_exec) exec_call" where
  "btree_insert_run_heap_insert env ex = (if need_new_page ex then insert_into_new_page ex else insert_into_target env ex)"

definition btree_insert_run_btree_insert ::
  "kenv \<Rightarrow> kds_btree_insert_exec \<Rightarrow> ('z sched_state_scheme, kds_btree_insert_exec) exec_call" where
  "btree_insert_run_btree_insert env ex =
     sbind (kds_btree_cursor_insert env (bi_cursor ex) (new_page_min_key ex) (new_heap_page_id ex)) (\<lambda>(ret, cur).
     let ex' = ex\<lparr>bi_cursor := cur\<rparr> in
     case ret of Some e \<Rightarrow> exec_error ex' e | None \<Rightarrow> sret (Some (KDS_EXEC_DONE, unit_done ex')))"

text \<open>The cases of the switch, in the order in which they follow each other.\<close>

definition bi_phase_done :: "kds_btree_insert_exec \<Rightarrow> ('z sched_state_scheme, kds_btree_insert_exec) exec_call" where
  "bi_phase_done ex = sbind (bi_cleanup ex) (\<lambda>ex. sret (Some (KDS_EXEC_DONE, ex)))"

definition bi_phase_btree_insert ::
  "kenv \<Rightarrow> sched_env \<Rightarrow> kds_btree_insert_exec \<Rightarrow> ('z sched_state_scheme, kds_btree_insert_exec) exec_call" where
  "bi_phase_btree_insert env senv ex =
     sbind (kds_exec_slice_expired senv ex) (\<lambda>expired.
     if expired then sret (Some (KDS_EXEC_CONTINUE, ex))
     else sbind (btree_insert_run_btree_insert env ex) (\<lambda>r.
       case r of None \<Rightarrow> sret None
       | Some (res, ex) \<Rightarrow> sbind (bi_cleanup ex) (\<lambda>ex.
           if res \<noteq> KDS_EXEC_DONE then sret (Some (res, ex)) else bi_phase_done (ex\<lparr>bi_phase := KDS_BTREE_INSERT_PHASE_DONE\<rparr>))))"

definition bi_phase_heap_insert ::
  "kenv \<Rightarrow> sched_env \<Rightarrow> kds_btree_insert_exec \<Rightarrow> ('z sched_state_scheme, kds_btree_insert_exec) exec_call" where
  "bi_phase_heap_insert env senv ex =
     sbind (kds_exec_slice_expired senv ex) (\<lambda>expired.
     if expired then sret (Some (KDS_EXEC_CONTINUE, ex))
     else then_phase (btree_insert_run_heap_insert env ex) (\<lambda>ex.
       if need_new_page ex then bi_phase_btree_insert env senv (ex\<lparr>bi_phase := KDS_BTREE_INSERT_PHASE_BTREE_INSERT\<rparr>)
       else bi_phase_done (ex\<lparr>bi_phase := KDS_BTREE_INSERT_PHASE_DONE\<rparr>)))"

definition bi_phase_wal_btree ::
  "kenv \<Rightarrow> sched_env \<Rightarrow> (u32 \<Rightarrow> u8 list \<Rightarrow> u32) \<Rightarrow> kds_btree_insert_exec \<Rightarrow> ('z sched_state_scheme, kds_btree_insert_exec) exec_call" where
  "bi_phase_wal_btree env senv crc ex =
     then_phase (btree_insert_run_wal_btree crc ex) (\<lambda>ex. bi_phase_heap_insert env senv (ex\<lparr>bi_phase := KDS_BTREE_INSERT_PHASE_HEAP_INSERT\<rparr>))"

definition bi_phase_wal_insert ::
  "kenv \<Rightarrow> sched_env \<Rightarrow> (u32 \<Rightarrow> u8 list \<Rightarrow> u32) \<Rightarrow> kds_btree_insert_exec \<Rightarrow> ('z sched_state_scheme, kds_btree_insert_exec) exec_call" where
  "bi_phase_wal_insert env senv crc ex =
     then_phase (btree_insert_run_wal_insert env crc ex) (\<lambda>ex.
       if need_new_page ex then bi_phase_wal_btree env senv crc (ex\<lparr>bi_phase := KDS_BTREE_INSERT_PHASE_WAL_BTREE\<rparr>)
       else bi_phase_heap_insert env senv (ex\<lparr>bi_phase := KDS_BTREE_INSERT_PHASE_HEAP_INSERT\<rparr>))"

definition bi_phase_wal_init_page ::
  "kenv \<Rightarrow> sched_env \<Rightarrow> (u32 \<Rightarrow> u8 list \<Rightarrow> u32) \<Rightarrow> kds_btree_insert_exec \<Rightarrow> ('z sched_state_scheme, kds_btree_insert_exec) exec_call" where
  "bi_phase_wal_init_page env senv crc ex =
     then_phase (btree_insert_run_wal_init_page crc ex) (\<lambda>ex. bi_phase_wal_insert env senv crc (ex\<lparr>bi_phase := KDS_BTREE_INSERT_PHASE_WAL_INSERT\<rparr>))"

definition bi_phase_search ::
  "kenv \<Rightarrow> sched_env \<Rightarrow> (u32 \<Rightarrow> u8 list \<Rightarrow> u32) \<Rightarrow> kds_relation \<Rightarrow> kds_btree_insert_exec \<Rightarrow> ('z sched_state_scheme, kds_btree_insert_exec) exec_call" where
  "bi_phase_search env senv crc rel ex =
     then_phase (btree_insert_run_search_and_prepare env senv rel ex) (\<lambda>ex.
       if need_new_page ex then bi_phase_wal_init_page env senv crc (ex\<lparr>bi_phase := KDS_BTREE_INSERT_PHASE_WAL_INIT_PAGE\<rparr>)
       else bi_phase_wal_insert env senv crc (ex\<lparr>bi_phase := KDS_BTREE_INSERT_PHASE_WAL_INSERT\<rparr>))"

definition kds_btree_insert_exec_run ::
  "kenv \<Rightarrow> sched_env \<Rightarrow> (u32 \<Rightarrow> u8 list \<Rightarrow> u32) \<Rightarrow> kds_btree_insert_exec \<Rightarrow> ('z sched_state_scheme, kds_btree_insert_exec) exec_call" where
  "kds_btree_insert_exec_run env senv crc ex =
     (case bi_rel ex of None \<Rightarrow> exec_error ex EINVAL
      | Some rel \<Rightarrow>
        if rel_kind rel \<noteq> KDS_CLUSTERED_BTREE then exec_error ex EINVAL
        else if rel_root_page_id rel = 0 then exec_error ex ENODEV
        else case bi_phase ex of
          KDS_BTREE_INSERT_PHASE_SEARCH_AND_PREPARE \<Rightarrow> bi_phase_search env senv crc rel ex
        | KDS_BTREE_INSERT_PHASE_WAL_INIT_PAGE \<Rightarrow> bi_phase_wal_init_page env senv crc ex
        | KDS_BTREE_INSERT_PHASE_WAL_INSERT \<Rightarrow> bi_phase_wal_insert env senv crc ex
        | KDS_BTREE_INSERT_PHASE_WAL_BTREE \<Rightarrow> bi_phase_wal_btree env senv crc ex
        | KDS_BTREE_INSERT_PHASE_HEAP_INSERT \<Rightarrow> bi_phase_heap_insert env senv ex
        | KDS_BTREE_INSERT_PHASE_BTREE_INSERT \<Rightarrow> bi_phase_btree_insert env senv ex
        | KDS_BTREE_INSERT_PHASE_DONE \<Rightarrow> bi_phase_done ex)"

definition kds_btree_insert_exec_init :: "kds_relation option \<Rightarrow> u64 \<Rightarrow> u8 list option \<Rightarrow> u16 \<Rightarrow> kds_btree_insert_exec" where
  "kds_btree_insert_exec_init rel key data dlen =
     \<lparr>ex_ret = None, deadline_ns = 0, units_done = 0, bi_rel = rel, bi_key = key, bi_data = data, bi_data_len = dlen,
      bi_phase = KDS_BTREE_INSERT_PHASE_SEARCH_AND_PREPARE, bi_cursor = btree_cursor_init,
      current_page_id = (case rel of None \<Rightarrow> 0 | Some r \<Rightarrow> rel_root_page_id r), target_heap_page_id = 0, new_heap_page_id = 0,
      new_page_min_key = 0, need_new_page = False, bi_out_tid = \<lparr>tid_page_id = 0, tid_slot = 0\<rparr>\<rparr>"

section \<open>Reading a heap page for a key\<close>

lemma heap_space:
  assumes ok: "heap_ok f" and l: "length d \<le> 8102"
  shows "heap_has_space f (of_nat (length d)) = Inr (fits d f)"
proof -
  obtain kp pg where f: "frame_page f = Some (kp, pg)" "heap_wf pg" "frame_view f = heap_view pg" using ok by (rule heap_okE)
  have u: "unat (of_nat (length d) :: u16) = length d" "unat (33 + of_nat (length d) :: u16) = 33 + length d"
    using unat_of_nat16 [of "length d"] unat_of_nat16 [of "33 + length d"] l by simp_all
  have b: "unat (lower (hmeta pg)) \<le> unat (upper (hmeta pg))" using f(2) by (simp add: heap_wf_def)
  have "unat (if lower (hmeta pg) < upper (hmeta pg) then upper (hmeta pg) - lower (hmeta pg) else 0) = unat (upper (hmeta pg)) - unat (lower (hmeta pg))"
    using b by (auto simp: word_less_nat_alt unat_sub word_le_nat_alt)
  then show ?thesis using u l f by (simp add: heap_has_space_def heap_free_space_def heap_consts fits_def page_room_def heap_view_def word_le_nat_alt)
qed

lemma read_pk:
  assumes ok: "heap_ok f" and i: "i < length (v_slots (frame_view f))"
  shows "case v_slots (frame_view f) ! i of None \<Rightarrow> heap_read_tuple_pk f (of_nat i) True 8 = fails ENOENT
    | Some (h, d, c) \<Rightarrow> 8 \<le> length d \<longrightarrow> heap_read_tuple_pk f (of_nat i) True 8 = Inr (h, take 8 d)"
proof -
  obtain kp pg where f: "frame_page f = Some (kp, pg)" "heap_wf pg" "frame_view f = heap_view pg" using ok by (rule heap_okE)
  have n: "length (v_slots (frame_view f)) = nslots pg" using f(3) by simp
  have u: "unat (of_nat i :: u16) = i" using slots_small [OF ok] i by (intro unat_of_nat16) simp
  have b: "unat (lower (hmeta pg)) = 49 + 5 * nslots pg" "unat (lower (hmeta pg)) \<le> unat (upper (hmeta pg))" "unat (upper (hmeta pg)) \<le> 8184"
    using f(2) by (simp_all add: heap_wf_def)
  have slot: "load_slot pg (of_nat i) = Inr (hslot pg i)" using load_slot_ok [of "of_nat i" pg] u b i n by simp
  have nr: "\<not> nr_slots (hmeta pg) \<le> of_nat i" using i n u by (simp add: word_le_nat_alt nslots_def)
  show ?thesis
  proof (cases "slot_live pg i")
    case False
    then show ?thesis using i n f slot nr by (simp add: tuple_at_def heap_read_tuple_pk_def heap_read_tuple_gen_def slot_live_def)
  next
    case True
    have off: "slot_off pg i + 28 \<le> 8184" using heap_wf_span [OF f(2), of i] i n True by simp
    have hdr: "load_tuple_hdr pg (s_offset (hslot pg i)) = Inr (htuple pg (slot_off pg i))"
      using load_tuple_hdr_ok [of "s_offset (hslot pg i)" pg] off by (simp add: slot_off_def)
    then show ?thesis using i n f slot nr True off
      by (auto simp: tuple_at_def heap_read_tuple_pk_def heap_read_tuple_gen_def slot_live_def Let_def pload_def heap_consts slot_off_def [symmetric] take_rd)
  qed
qed

lemma scan_key_rows:
  assumes ok: "heap_ok f" and long: "\<forall>r \<in> set (slot_rows (frame_view f)). 8 \<le> length r" and "\<forall>i \<in> set xs. i < length (v_slots (frame_view f))"
  shows "scan_key f key xs = Inr (\<exists>r \<in> set (List.map_filter (\<lambda>i. map_option (\<lambda>(h, d, c). d) (v_slots (frame_view f) ! i)) xs). row_key r = key)"
  using assms(3)
proof (induction xs)
  case (Cons i xs)
  have i: "i < length (v_slots (frame_view f))" using Cons.prems by simp
  show ?case
  proof (cases "v_slots (frame_view f) ! i")
    case None
    then show ?thesis using read_pk [OF ok i] Cons by simp
  next
    case (Some t)
    obtain h d c where t: "t = (h, d, c)" by (cases t)
    then have "heap_read_tuple_pk f (of_nat i) True 8 = Inr (h, take 8 d)" using read_pk [OF ok i] Some long slot_rows_mem [OF i, of h d c] by simp
    then show ?thesis using Cons Some t by (auto simp: row_key_def)
  qed
qed simp

lemma scan_key_spec:
  assumes ok: "heap_ok f" and long: "\<forall>r \<in> set (slot_rows (frame_view f)). 8 \<le> length r"
  shows "rbind (page_slots f) (scan_key f key) = Inr (key \<in> set (page_keys f))"
proof -
  have "scan_key f key [0 ..< length (v_slots (frame_view f))] = Inr (\<exists>r \<in> set (slot_rows (frame_view f)). row_key r = key)"
    using scan_key_rows [OF assms, of "[0 ..< length (v_slots (frame_view f))]" key] by (simp only: map_filter_nth slot_rows_def) simp
  then show ?thesis using page_slots_eq [OF ok] long by (auto simp: page_keys_def)
qed

section \<open>The leaf of a table of one node\<close>

definition leaf_pos :: "u64 list \<Rightarrow> u64 \<Rightarrow> nat" where
  "leaf_pos c key = length (takeWhile (\<lambda>k. k < key) (node_keys c))"

definition leaf_slot :: "u64 list \<Rightarrow> u64 \<Rightarrow> u64" where
  "leaf_slot c key = node_slots c ! leaf_pos c key"

definition btree_leaf :: "'z sched_state_scheme \<Rightarrow> u64 \<Rightarrow> nat \<Rightarrow> kds_page \<Rightarrow> pagebuf \<Rightarrow> bool" where
  "btree_leaf s root i kp pg \<longleftrightarrow> store_ok s \<and> pmap s root = Some i \<and> i \<notin> set (ring_items s) \<and> fr_kp (pframes s i) = Some kp \<and> fr_page (pframes s i) = Some pg
     \<and> kds_is_btree_page kp \<and> node_ok (kds_btree_data_copy pg) \<and> level_of (kds_btree_data_copy pg) = 0"

text \<open>Read as a heap page, the root of a one-level tree has no tuples and no room: its level is zero.\<close>

lemma root_as_heap:
  assumes "level_of (kds_btree_data_copy pg) = 0" and "frame_page f = Some (kp, pg)" and l: "length d \<le> 8102"
  shows "rbind (page_slots f) (scan_key f key) = Inr False" "heap_has_space f (of_nat (length d)) = Inr False"
proof -
  have "dec64 (rd pg 41 8) = 0" using assms(1) by (simp add: level_of_def level_at_def kds_btree_data_copy_def upt_rec KDS_PAGE_HDR_SIZE_def)
  then have "rd pg 41 8 = enc64 0" using enc64_dec64 [of "rd pg 41 8"] by simp
  then have z: "hmeta pg = \<lparr>nr_slots = 0, lower = 0, upper = 0, m_reserved = 0\<rparr>" by (simp add: hmeta_def) code_simp
  show "rbind (page_slots f) (scan_key f key) = Inr False" using assms(2) z by (simp add: page_slots_def heap_nr_slots_def)
  have "unat (33 + of_nat (length d) :: u16) = 33 + length d" "unat (of_nat (length d) :: u16) = length d"
    using unat_of_nat16 [of "33 + length d"] unat_of_nat16 [of "length d"] l by simp_all
  then have "(33 + of_nat (length d) :: u16) \<noteq> 0" "unat (of_nat (length d) :: u16) = length d" by (auto simp: unat_eq_zero)
  then show "heap_has_space f (of_nat (length d)) = Inr False" using assms(2) z l by (simp add: heap_has_space_def heap_free_space_def heap_consts)
qed

section \<open>The steps of the insertion\<close>

lemma lift_runs:
  "sattempt (slift (Inr x)) g s = g (Inr x) s" "sbind (slift (Inr x)) f s = f x s"
  by (simp_all add: sattempt_def call_defs)

lemma btree_leaf_facts:
  assumes "btree_leaf s root i kp pg"
  shows "store_ok s" "pool_wf s" "pmap s root = Some i" "i \<notin> set (ring_items s)" "fr_kp (pframes s i) = Some kp" "fr_page (pframes s i) = Some pg"
    "kds_is_btree_page kp" "node_ok (kds_btree_data_copy pg)" "level_of (kds_btree_data_copy pg) = 0"
  using assms store_ok_pool by (auto simp: btree_leaf_def)

lemma leaf_pos_le: "leaf_pos c key \<le> length (node_keys c)"
  by (simp add: leaf_pos_def length_takeWhile_le)

lemma search_leaf_step:
  assumes bl: "btree_leaf s root i kp pg" and ex: "current_page_id ex = root" "bi_cursor ex = btree_cursor_init" "bi_key ex = key"
  shows "search_levels env senv rel (Suc n) ex s = probe_leaf env rel (leaf_slot (kds_btree_data_copy pg) key)
    (unit_done (ex\<lparr>bi_cursor := root_cursor i (kds_btree_data_copy pg) (int (leaf_pos (kds_btree_data_copy pg) key))\<rparr>)) (pinned i kp s)"
proof -
  let ?c = "kds_btree_data_copy pg"
  note B = btree_leaf_facts [OF bl]
  have p: "scan_keys 16 ?c key 0 = Inr (int (leaf_pos ?c key))" using search_position_spec [OF B(8), of key] by (simp add: btree_search_position_def leaf_pos_def)
  have sl: "getc (slots_at (int (leaf_pos ?c key))) ?c = Inr (leaf_slot ?c key)" using slot_cell [OF B(8) leaf_pos_le] by (simp add: leaf_slot_def)
  have ld: "load_btree_node i (pinned i kp s) = (Inr \<lparr>bt_cells = ?c, bt_frame = Some i\<rparr>, pinned i kp s)"
    using B(5-7) by (simp add: load_btree_node_def load_btree_node_data_def the_kp_def the_page_def call_defs pinned_def)
  have cur: "btree_cursor_init\<lparr>cur_nodes := (cur_nodes btree_cursor_init)[cur_depth btree_cursor_init := \<lparr>bt_cells = ?c, bt_frame = Some i\<rparr>],
      cur_positions := (cur_positions btree_cursor_init)[cur_depth btree_cursor_init := int (leaf_pos ?c key)]\<rparr> = root_cursor i ?c (int (leaf_pos ?c key))"
    by (simp add: root_cursor_def btree_cursor_init_def)
  show ?thesis
    using load_root [OF B(2,3,5), of env] ex p sl ld cur B(9)
    by (simp add: sattempt_run sbind_run lift_runs Let_def del: scan_keys_numeral)
qed

definition closed :: "nat \<Rightarrow> u64 list \<Rightarrow> int \<Rightarrow> kds_btree_cursor" where
  "closed i c p = (root_cursor i c p)\<lparr>cur_nodes := (cur_nodes (root_cursor i c p))[0 := \<lparr>bt_cells = c, bt_frame = None\<rparr>]\<rparr>"

lemma closed_cleanup: "btree_cursor_cleanup (closed i c p) s = (Inr (closed i c p), s)"
  by (simp add: btree_cursor_cleanup_def closed_def root_cursor_def btree_cursor_init_def BTREE_MAX_DEPTH_def numeral_eq_Suc call_defs)

lemma open_cleanup:
  assumes "fr_kp (pframes s i) = Some kp"
  shows "btree_cursor_cleanup (root_cursor i c p) s = (Inr (closed i c p), put_frame i ((pframes s i)\<lparr>fr_kp := Some (unpin_kpage kp)\<rparr>) s)"
  using assms by (simp add: cleanup_root_found kds_buf_unpin_def closed_def put_frame_def upd_frame_def)

lemma probe_root:
  assumes bl: "btree_leaf s root i kp pg" and ex: "bi_data_len ex = of_nat (length d)" and l: "length d \<le> 8102"
  shows "probe_heap_page env root ex (pinned i kp s) = (Inr (Some (KDS_EXEC_DONE, ex\<lparr>need_new_page := True\<rparr>)), pinned i kp s)"
proof -
  let ?t = "pinned i kp s"
  note B = btree_leaf_facts [OF bl]
  note P = store_ok_pinned [OF B(1,3,5)]
  have k: "fr_kp (pframes ?t i) = Some (pin_kpage kp)" "pmap ?t root = Some i" using P(3,4) B(3) by simp_all
  have ld: "load_page env root ?t = (Inr i, pinned i (pin_kpage kp) ?t)" by (rule load_root [OF store_ok_pool [OF P(1)] k(2,1)])
  let ?f = "pframes (pinned i (pin_kpage kp) ?t) i"
  have "frame_page ?f = Some (pin_kpage (pin_kpage kp), pg)" using B(5,6) by (simp add: frame_page_kp pinned_def upd_frame_def)
  note H = root_as_heap [OF B(9) this l]
  have u: "kds_buf_unpin i (pinned i (pin_kpage kp) ?t) = (Inr (), ?t)" unfolding pinned_put [of i "pin_kpage kp"] by (rule unpin_pinned [OF k(1)])
  show ?thesis using ld H(1) [of "bi_key ex"] H(2) u ex by (simp add: probe_heap_page_def sattempt_run sbind_run sget_def Let_def lift_runs sret_def)
qed

definition heap_leaf :: "'z sched_state_scheme \<Rightarrow> u64 \<Rightarrow> nat \<Rightarrow> bool" where
  "heap_leaf s p j \<longleftrightarrow> p \<noteq> 0 \<and> pmap s p = Some j \<and> j \<notin> set (ring_items s) \<and> heap_ok (pframes s j) \<and> (\<forall>r \<in> set (slot_rows (frame_view (pframes s j))). 8 \<le> length r)"

lemma probe_heap:
  assumes bl: "btree_leaf s root i kp pg" and hl: "heap_leaf s p j" and ne: "j \<noteq> i" and ex: "bi_data_len ex = of_nat (length d)" "bi_key ex = key" and l: "length d \<le> 8102"
  shows "probe_heap_page env p ex (pinned i kp s) = (if key \<in> set (page_keys (pframes s j)) then cleanup_error ex EEXIST
    else sret (Some (KDS_EXEC_DONE, ex\<lparr>need_new_page := \<not> fits d (pframes s j)\<rparr>))) (pinned i kp s)"
proof -
  let ?t = "pinned i kp s"
  note B = btree_leaf_facts [OF bl]
  note P = store_ok_pinned [OF B(1,3,5)]
  have h: "pmap s p = Some j" "heap_ok (pframes s j)" "\<forall>r \<in> set (slot_rows (frame_view (pframes s j))). 8 \<le> length r" using hl by (simp_all add: heap_leaf_def)
  obtain kj where kj: "fr_kp (pframes s j) = Some kj" using page_loaded [OF B(1) h(1)] by metis
  have fj: "pframes ?t j = pframes s j" "pmap ?t p = Some j" using P(3,4) h(1) ne by simp_all
  have ld: "load_page env p ?t = (Inr j, pinned j kj ?t)" by (rule load_root [OF store_ok_pool [OF P(1)] fj(2)]) (simp add: fj kj)
  let ?f = "pframes (pinned j kj ?t) j"
  have f: "?f = (pframes s j)\<lparr>fr_kp := Some (pin_kpage kj)\<rparr>" using fj by (simp add: pinned_def upd_frame_def)
  have v: "heap_ok ?f" "frame_view ?f = frame_view (pframes s j)" using f kj h by simp_all
  have sc: "rbind (page_slots ?f) (scan_key ?f key) = Inr (key \<in> set (page_keys (pframes s j)))"
    using scan_key_spec [OF v(1)] v(2) h(3) by (simp add: page_keys_def)
  have sp: "heap_has_space ?f (of_nat (length d)) = Inr (fits d (pframes s j))" using heap_space [OF v(1) l] v(2) by (simp add: fits_def page_room_def)
  have u: "kds_buf_unpin j (pinned j kj ?t) = (Inr (), ?t)" unfolding pinned_put [of j kj] by (rule unpin_pinned) (simp add: fj kj)
  show ?thesis using ld sc sp u ex by (simp add: probe_heap_page_def sattempt_run sbind_run sget_def Let_def lift_runs sret_def)
qed

text \<open>The record of a change of the leaf.\<close>

definition leaf_rec :: "u64 \<Rightarrow> kds_wal_rec_hdr \<times> u8 list" where
  "leaf_rec p = (zero_rec_hdr\<lparr>rec_xid := 1, rec_type := rec_type_code KDS_WAL_REC_INSERT, body_len := 16\<rparr>, enc_body_page_mod p 0 16)"

lemma leaf_rec_fits: "rec_fits (fst (leaf_rec p)) (snd (leaf_rec p))"
  by (simp add: rec_fits_def leaf_rec_def rec_hdr_valid_def zero_rec_hdr_def enc_body_page_mod_def KDS_PAGE_SIZE_def)

lemma wal_ready_log_row:
  assumes "wal_ready s" and "length d \<le> 8102"
  shows "wal_ready (log_row env crc xid p off d s)"
  using append_logged(2) [OF assms(1) recs_fit(2) [OF assms(2)], of crc xid p off] assms(1) by (simp add: log_row_def wal_ready_def)

lemma cursor_insert_run:
  assumes f: "fr_kp (pframes t i) = Some kp" "fr_page (pframes t i) = Some pg" "kds_is_btree_page kp" and room: "count_of c < 4"
    and c': "btree_node_insert_at c p key v = Inr c'"
  shows "kds_btree_cursor_insert env (root_cursor i c p) key v t = (Inr (None, closed i c' p),
    put_frame i ((pframes t i)\<lparr>fr_page := Some (kds_btree_data_store pg c'), fr_kp := Some (unpin_kpage kp)\<rparr>) t)"
proof -
  let ?t = "put_frame i ((pframes t i)\<lparr>fr_page := Some (kds_btree_data_store pg c')\<rparr>) t"
  have st: "store_btree_node \<lparr>bt_cells = c', bt_frame = Some i\<rparr> t = (Inr (), ?t)"
    using f by (simp add: store_btree_node_def node_frame_def btree_link_kpage_def the_kp_def the_page_def call_defs put_frame_def upd_frame_def)
  have e: "put_leaf (root_cursor i c p) \<lparr>bt_cells = c', bt_frame = Some i\<rparr> = root_cursor i c' p" by (simp add: put_leaf_def root_cursor_def)
  have cl: "btree_cursor_cleanup (root_cursor i c' p) ?t = (Inr (closed i c' p), put_frame i ((pframes t i)\<lparr>fr_page := Some (kds_btree_data_store pg c'), fr_kp := Some (unpin_kpage kp)\<rparr>) t)"
    using open_cleanup [of ?t i kp c' p] f(1) by simp
  show ?thesis using st e cl c' room by (simp add: kds_btree_cursor_insert_def Let_def sbind_run lift_runs sret_def as_u64_def BTREE_MAX_KEYS_def)
qed

text \<open>One pin of a frame has been given back.\<close>

definition released :: "kds_frame \<Rightarrow> kds_frame \<Rightarrow> bool" where
  "released f f' \<longleftrightarrow> (\<exists>kp kp'. fr_kp f = Some kp \<and> fr_kp f' = Some kp' \<and> kp_refcnt kp' = kp_refcnt kp - 1)"

definition bi_row :: "kds_btree_insert_exec \<Rightarrow> u8 list \<Rightarrow> bool" where
  "bi_row ex d \<longleftrightarrow> bi_data ex = Some d \<and> bi_data_len ex = of_nat (length d) \<and> 8 \<le> length d \<and> length d \<le> 8102"

lemma new_page_run:
  fixes t :: "'z sched_state_scheme"
  assumes so: "store_ok t" and it: "ring_items t = j # js" and d: "bi_row ex d"
  shows "\<exists>tid q t' fj. insert_into_new_page ex t = (Inr (Some (KDS_EXEC_DONE, unit_done (ex\<lparr>bi_out_tid := tid, new_heap_page_id := q, new_page_min_key := bi_key ex\<rparr>))), t')
    \<and> store_ok t' \<and> pmap t' = pmap t \<and> ring_items t' = js \<and> j \<notin> set js \<and> pframes t' = (pframes t)(j := fj) \<and> pmap t q = Some j
    \<and> heap_ok fj \<and> slot_rows (frame_view fj) = [d] \<and> released (pframes t j) fj \<and> g_wal t' = g_wal t \<and> clock t' = clock t"
proof -
  obtain s1 where a: "kds_page_alloc KDS_PAGE_TYPE_HEAP t = (Inr (Some j), s1)" "store_ok s1" "pmap s1 = pmap t" "ring_items s1 = js"
    "\<forall>k. k \<noteq> j \<longrightarrow> pframes s1 k = pframes t k" "pmap t (fr_page_id (pframes t j)) = Some j" "j \<notin> set js" "g_wal s1 = g_wal t" "clock s1 = clock t"
    "frame_keeps (pframes t j) (pframes s1 j)"
    using page_alloc_store [OF so it, of KDS_PAGE_TYPE_HEAP] by blast
  let ?q = "fr_page_id (pframes t j)"
  obtain kj pg where kj: "fr_kp (pframes s1 j) = Some kj" "fr_page (pframes s1 j) = Some pg" "kp_id kj = ?q" "page_hdr_valid (kp_hdr kj)"
    using page_loaded [OF a(2), of ?q j] a(3,6) by auto
  obtain f1 tid f2 where f: "heap_init_page (pframes s1 j) = Inr f1" "heap_insert_tuple f1 (Some d) (of_nat (length d)) KDS_BTREE_EXEC_XID = Inr (tid, f2)"
    "frame_keeps (pframes s1 j) f2" "heap_ok f2" "slot_rows (frame_view f2) = [d]"
    using fresh_page [OF kj(1,2,4), of d KDS_BTREE_EXEC_XID] d by (auto simp: bi_row_def)
  obtain k2 where k2: "fr_kp f2 = Some k2" "kp_id k2 = ?q" using f(3) kj by (auto simp: frame_keeps_def)
  let ?s2 = "put_frame j f2 s1"
  note S2 = store_ok_put [OF a(2), unfolded a(3), OF a(6) f(3)]
  obtain s3 kl where s3: "kds_buf_unpin j ?s2 = (Inr (), s3)" "store_ok s3" "pmap s3 = pmap t" "ring_items s3 = js" "pool_state.more s3 = pool_state.more ?s2"
    "pframes s3 = (pframes ?s2)(j := f2\<lparr>fr_kp := Some kl\<rparr>)" "kl = unpin_kpage k2"
    using store_ok_unpin [OF S2(1), of ?q j] a(3,4,6) S2(2) k2(1) by auto
  have rel: "released (pframes t j) (f2\<lparr>fr_kp := Some kl\<rparr>)"
    using frame_keeps_trans [OF a(10) f(3)] k2(1) s3(7) by (auto simp: frame_keeps_def released_def unpin_kpage_def)
  have "insert_into_new_page ex t = (Inr (Some (KDS_EXEC_DONE, unit_done (ex\<lparr>bi_out_tid := tid, new_heap_page_id := ?q, new_page_min_key := bi_key ex\<rparr>))), s3)"
    using a(1) f(1,2) k2 s3(1) d
    by (simp add: insert_into_new_page_def bi_row_def sbind_run sattempt_run on_frame_ok [of "unit_op heap_init_page"] unit_op_def on_frame_ok the_kp_run sret_def)
  moreover have "pframes s3 = (pframes t)(j := f2\<lparr>fr_kp := Some kl\<rparr>)" using s3(6) a(5) by (auto simp: fun_eq_iff)
  moreover have "g_wal s3 = g_wal t" "clock s3 = clock t" using sched_more [OF s3(5)] a(8,9) sched_more(2) [of ?s2 s1] by simp_all
  ultimately show ?thesis using s3(2-4) a(6,7) f(4,5) k2(1) rel
    by (intro exI [of _ tid] exI [of _ ?q] exI [of _ s3] exI [of _ "f2\<lparr>fr_kp := Some kl\<rparr>"]) simp
qed

lemma target_run:
  fixes t :: "'z sched_state_scheme"
  assumes so: "store_ok t" and p: "pmap t p = Some j" "heap_ok (pframes t j)" and fit: "fits d (pframes t j)" and d: "bi_row ex d" and ex: "target_heap_page_id ex = p"
  shows "\<exists>tid g. insert_into_target env ex t = (Inr (Some (KDS_EXEC_DONE, unit_done (ex\<lparr>bi_out_tid := tid, new_heap_page_id := 0\<rparr>))), put_frame j g t)
    \<and> frame_keeps (pframes t j) g \<and> heap_ok g \<and> slot_rows (frame_view g) = slot_rows (frame_view (pframes t j)) @ [d]"
proof -
  have wf: "pool_wf t" using so by (rule store_ok_pool)
  obtain kj where kj: "fr_kp (pframes t j) = Some kj" using page_loaded [OF so p(1)] by metis
  let ?f = "(pframes t j)\<lparr>fr_kp := Some (pin_kpage kj)\<rparr>"
  have ok: "heap_ok ?f" "fits d ?f" using p kj fit by (simp_all add: fits_def page_room_def)
  obtain tid f' where f': "heap_insert_tuple ?f (Some d) (of_nat (length d)) KDS_BTREE_EXEC_XID = Inr (tid, f')" "frame_keeps ?f f'" "heap_ok f'"
    "slot_rows (frame_view f') = slot_rows (frame_view (pframes t j)) @ [d]"
    using heap_insert_cases [OF ok(1), of d KDS_BTREE_EXEC_XID] ok(2) d kj by (auto simp: bi_row_def)
  obtain g kg where g: "kds_buf_unpin j (put_frame j f' t) = (Inr (), put_frame j g t)" "frame_keeps (pframes t j) g" "g = f'\<lparr>fr_kp := Some kg\<rparr>" "fr_kp f' \<noteq> None"
    using pinned_change [OF kj f'(2)] by blast
  have "insert_into_target env ex t = (Inr (Some (KDS_EXEC_DONE, unit_done (ex\<lparr>bi_out_tid := tid, new_heap_page_id := 0\<rparr>))), put_frame j g t)"
    using load_root [OF wf p(1) kj, of env] ex f'(1) d g(1)
    by (simp add: insert_into_target_def bi_row_def sattempt_run pinned_put then_unpin_def on_frame_ok sbind_run sret_def)
  then show ?thesis using g(2-4) f'(3,4) by auto
qed

section \<open>The log phases\<close>

definition logged_new :: "kenv \<Rightarrow> (u32 \<Rightarrow> u8 list \<Rightarrow> u32) \<Rightarrow> u64 \<Rightarrow> u8 list \<Rightarrow> 'z sched_state_scheme \<Rightarrow> 'z sched_state_scheme" where
  "logged_new env crc root d t = (let t1 = t\<lparr>g_wal := logged crc (init_rec 1 0) (g_wal t)\<rparr>; t2 = log_row env crc 1 0 0 d t1
     in t2\<lparr>g_wal := logged crc (leaf_rec root) (g_wal t2)\<rparr>)"

lemma logged_new_store: "same_store t (logged_new env crc root d t)" "clock (logged_new env crc root d t) = clock t"
  unfolding logged_new_def Let_def
  by (rule same_store_trans [OF same_store_trans [OF same_store_upd(2) log_row_store] same_store_upd(2)]) (simp add: log_row_def)

lemma wal_phases_new:
  fixes t :: "'z sched_state_scheme"
  assumes w: "wal_ready t" and d: "bi_row ex d" and n: "need_new_page ex" and cur: "bi_cursor ex = root_cursor i c p" and kp: "fr_kp (pframes t i) = Some kp" "kp_id kp = root"
  shows "bi_phase_wal_init_page env senv crc ex t = bi_phase_heap_insert env senv (ex\<lparr>bi_phase := KDS_BTREE_INSERT_PHASE_HEAP_INSERT\<rparr>) (logged_new env crc root d t)"
proof -
  have l: "length d \<le> 8102" using d by (simp add: bi_row_def)
  let ?t1 = "t\<lparr>g_wal := logged crc (init_rec 1 0) (g_wal t)\<rparr>"
  note L1 = append_logged [OF w recs_fit(1) [of 1 0], of crc]
  have w1: "wal_ready ?t1" using L1(2) by simp
  let ?t2 = "log_row env crc 1 0 0 d ?t1"
  note w2 = wal_ready_log_row [OF w1 l, of env crc 1 0 0]
  note L3 = append_logged(1) [OF w2 leaf_rec_fits [of root], of crc]
  have r1: "btree_insert_run_wal_init_page crc ex t = (Inr (Some (KDS_EXEC_DONE, ex)), ?t1)"
    using L1(1) by (simp add: btree_insert_run_wal_init_page_def init_rec_def enc_body_init_page_def sbind_run sret_def Let_def KDS_BTREE_EXEC_XID_def)
  have r2: "btree_insert_run_wal_insert env crc (ex\<lparr>bi_phase := ph\<rparr>) ?t1 = (Inr (Some (KDS_EXEC_DONE, ex\<lparr>bi_phase := ph\<rparr>)), ?t2)" for ph
    using wal_row_run [OF w1 l, of env crc 1 0 0] d n by (simp add: btree_insert_run_wal_insert_def bi_row_def sbind_run sret_def KDS_BTREE_EXEC_XID_def)
  have k2: "fr_kp (pframes ?t2 i) = Some kp" using kp(1) by (simp add: log_row_def)
  have r3: "btree_insert_run_wal_btree crc (ex\<lparr>bi_phase := ph\<rparr>) ?t2 = (Inr (Some (KDS_EXEC_DONE, ex\<lparr>bi_phase := ph\<rparr>)), logged_new env crc root d t)" for ph
    using L3 cur kp(2) by (simp add: btree_insert_run_wal_btree_def leaf_rec_def enc_body_page_mod_def the_kp_run [OF k2] sbind_run sret_def Let_def KDS_BTREE_EXEC_XID_def logged_new_def)
  show ?thesis using n r1 r2 r3 by (simp add: bi_phase_wal_init_page_def bi_phase_wal_insert_def bi_phase_wal_btree_def then_phase_run(1))
qed

lemma wal_phases_target:
  fixes t :: "'z sched_state_scheme"
  assumes w: "wal_ready t" and d: "bi_row ex d" and n: "\<not> need_new_page ex"
  shows "bi_phase_wal_insert env senv crc ex t = bi_phase_heap_insert env senv (ex\<lparr>bi_phase := KDS_BTREE_INSERT_PHASE_HEAP_INSERT\<rparr>) (log_row env crc 1 (target_heap_page_id ex) 0 d t)"
proof -
  have "btree_insert_run_wal_insert env crc ex t = (Inr (Some (KDS_EXEC_DONE, ex)), log_row env crc 1 (target_heap_page_id ex) 0 d t)"
    using wal_row_run [OF w, of d env crc 1 "target_heap_page_id ex" 0] d n by (simp add: btree_insert_run_wal_insert_def bi_row_def sbind_run sret_def KDS_BTREE_EXEC_XID_def)
  then show ?thesis using n by (simp add: bi_phase_wal_insert_def then_phase_run(1))
qed

section \<open>The insertion as a whole\<close>

lemma slice_alive: "ktime senv (clock t) < deadline_ns ex \<Longrightarrow> sbind (kds_exec_slice_expired senv ex) f t = f False (t\<lparr>clock := Suc (clock t)\<rparr>)"
proof -
  assume "ktime senv (clock t) < deadline_ns ex"
  then have "(deadline_ns ex \<le> ktime senv (clock t)) = False" by auto
  then show ?thesis by (simp add: kds_exec_slice_expired_def ktime_get_ns_def call_defs)
qed

text \<open>Storing a node and releasing its page.\<close>

lemma store_ok_node:
  assumes so: "store_ok t" and p: "pmap t root = Some i" and kp: "fr_kp (pframes t i) = Some kp"
  shows "store_ok (put_frame i ((pframes t i)\<lparr>fr_page := Some pg, fr_kp := Some (unpin_kpage kp)\<rparr>) t)"
    "ring_items (put_frame i ((pframes t i)\<lparr>fr_page := Some pg, fr_kp := Some (unpin_kpage kp)\<rparr>) t) = ring_items t"
proof -
  have k: "frame_keeps (pframes t i) ((pframes t i)\<lparr>fr_page := Some pg\<rparr>)" using kp by (simp add: frame_keeps_def)
  note S = store_ok_put [OF so p k]
  have u: "kds_buf_unpin i (put_frame i ((pframes t i)\<lparr>fr_page := Some pg\<rparr>) t) = (Inr (), put_frame i ((pframes t i)\<lparr>fr_page := Some pg, fr_kp := Some (unpin_kpage kp)\<rparr>) t)"
    by (rule unpin_put) (simp add: kp)
  show "store_ok (put_frame i ((pframes t i)\<lparr>fr_page := Some pg, fr_kp := Some (unpin_kpage kp)\<rparr>) t)"
    "ring_items (put_frame i ((pframes t i)\<lparr>fr_page := Some pg, fr_kp := Some (unpin_kpage kp)\<rparr>) t) = ring_items t"
    using store_ok_unpin [OF S(1), of root i] p u S(2) by auto
qed

lemma heap_phase_new:
  fixes t :: "'z sched_state_scheme"
  assumes so: "store_ok t" and p: "pmap t root = Some i" and kp: "fr_kp (pframes t i) = Some kp" "fr_page (pframes t i) = Some pg" "kds_is_btree_page kp"
    and it: "ring_items t = j # js" and ij: "i \<noteq> j" and d: "bi_row ex d" and n: "need_new_page ex" and cur: "bi_cursor ex = root_cursor i c pos"
    and time: "ktime senv (clock t) < deadline_ns ex" "ktime senv (Suc (clock t)) < deadline_ns ex"
    and room: "count_of c < 4" and c': "\<And>q. \<exists>c'. btree_node_insert_at c pos (bi_key ex) q = Inr c' \<and> R q c'"
  shows "\<exists>ex' t' q c' fj. bi_phase_heap_insert env senv ex t = (Inr (Some (KDS_EXEC_DONE, ex')), t') \<and> R q c' \<and> store_ok t' \<and> pmap t' = pmap t \<and> ring_items t' = js \<and> j \<notin> set js
    \<and> pmap t q = Some j \<and> heap_ok fj \<and> slot_rows (frame_view fj) = [d] \<and> released (pframes t j) fj
    \<and> pframes t' = (pframes t)(j := fj, i := (pframes t i)\<lparr>fr_page := Some (kds_btree_data_store pg c'), fr_kp := Some (unpin_kpage kp)\<rparr>)"
proof -
  let ?t1 = "t\<lparr>clock := Suc (clock t)\<rparr>"
  note F1 = same_store_facts [OF same_store_upd(1) [of t "Suc (clock t)"]]
  obtain tid q t2 fj where a: "insert_into_new_page ex ?t1 = (Inr (Some (KDS_EXEC_DONE, unit_done (ex\<lparr>bi_out_tid := tid, new_heap_page_id := q, new_page_min_key := bi_key ex\<rparr>))), t2)"
    "store_ok t2" "pmap t2 = pmap t" "ring_items t2 = js" "j \<notin> set js" "pframes t2 = (pframes t)(j := fj)" "pmap t q = Some j" "heap_ok fj" "slot_rows (frame_view fj) = [d]"
    "clock t2 = Suc (clock t)" "released (pframes t j) fj"
    using new_page_run [of ?t1 j js ex d] so it d F1 by auto
  define ex1 where "ex1 = (unit_done (ex\<lparr>bi_out_tid := tid, new_heap_page_id := q, new_page_min_key := bi_key ex\<rparr>))\<lparr>bi_phase := KDS_BTREE_INSERT_PHASE_BTREE_INSERT\<rparr>"
  let ?t3 = "t2\<lparr>clock := Suc (clock t2)\<rparr>"
  have e2: "ktime senv (clock t2) < deadline_ns ex1" by (simp add: ex1_def a(10) time(2))
  have nn: "need_new_page ex1" using n by (simp add: ex1_def)
  obtain c' where C: "btree_node_insert_at c pos (bi_key ex) q = Inr c'" "R q c'" using c' by blast
  have f3: "fr_kp (pframes ?t3 i) = Some kp" "fr_page (pframes ?t3 i) = Some pg" using kp a(6) ij by simp_all
  let ?t4 = "put_frame i ((pframes ?t3 i)\<lparr>fr_page := Some (kds_btree_data_store pg c'), fr_kp := Some (unpin_kpage kp)\<rparr>) ?t3"
  have b: "btree_insert_run_btree_insert env ex1 ?t3 = (Inr (Some (KDS_EXEC_DONE, unit_done (ex1\<lparr>bi_cursor := closed i c' pos\<rparr>))), ?t4)"
    using cursor_insert_run [OF f3 kp(3) room C(1), of env] cur by (simp add: btree_insert_run_btree_insert_def ex1_def sbind_run Let_def sret_def)
  have "bi_phase_btree_insert env senv ex1 t2 = (Inr (Some (KDS_EXEC_DONE, (unit_done (ex1\<lparr>bi_cursor := closed i c' pos\<rparr>))\<lparr>bi_phase := KDS_BTREE_INSERT_PHASE_DONE\<rparr>)), ?t4)"
    using b by (simp add: bi_phase_btree_insert_def slice_alive [OF e2] sbind_run bi_cleanup_def closed_cleanup bi_phase_done_def sret_def)
  then have run: "bi_phase_heap_insert env senv ex t = (Inr (Some (KDS_EXEC_DONE, (unit_done (ex1\<lparr>bi_cursor := closed i c' pos\<rparr>))\<lparr>bi_phase := KDS_BTREE_INSERT_PHASE_DONE\<rparr>)), ?t4)"
    using a(1) n by (simp add: bi_phase_heap_insert_def slice_alive [OF time(1)] btree_insert_run_heap_insert_def then_phase_run(1) ex1_def)
  have so3: "store_ok ?t3" "pmap ?t3 root = Some i" "ring_items ?t3 = js" using a(2-4) p by simp_all
  note S = store_ok_node [OF so3(1,2) f3(1), of "kds_btree_data_store pg c'"]
  have fr: "pframes ?t4 = (pframes t)(j := fj, i := (pframes t i)\<lparr>fr_page := Some (kds_btree_data_store pg c'), fr_kp := Some (unpin_kpage kp)\<rparr>)"
    using a(6) ij by (auto simp: fun_eq_iff)
  show ?thesis using run C(2) S so3(3) a(3,5,7-9,11) fr
    by (intro exI [of _ "(unit_done (ex1\<lparr>bi_cursor := closed i c' pos\<rparr>))\<lparr>bi_phase := KDS_BTREE_INSERT_PHASE_DONE\<rparr>"] exI [of _ ?t4] exI [of _ q] exI [of _ c'] exI [of _ fj] conjI) simp_all
qed

lemma heap_phase_target:
  fixes t :: "'z sched_state_scheme"
  assumes so: "store_ok t" and p: "pmap t p = Some j" "heap_ok (pframes t j)" and fit: "fits d (pframes t j)" and ij: "i \<noteq> j" and d: "bi_row ex d"
    and ex: "target_heap_page_id ex = p" "\<not> need_new_page ex" "bi_cursor ex = root_cursor i c pos"
    and kp: "fr_kp (pframes t i) = Some kp" and time: "ktime senv (clock t) < deadline_ns ex"
  shows "\<exists>ex' t' fj. bi_phase_heap_insert env senv ex t = (Inr (Some (KDS_EXEC_DONE, ex')), t') \<and> frame_keeps (pframes t j) fj \<and> heap_ok fj
    \<and> slot_rows (frame_view fj) = slot_rows (frame_view (pframes t j)) @ [d]
    \<and> t' = put_frame i ((pframes t i)\<lparr>fr_kp := Some (unpin_kpage kp)\<rparr>) (put_frame j fj (t\<lparr>clock := Suc (clock t)\<rparr>))"
proof -
  let ?t1 = "t\<lparr>clock := Suc (clock t)\<rparr>"
  obtain tid g where g: "insert_into_target env ex ?t1 = (Inr (Some (KDS_EXEC_DONE, unit_done (ex\<lparr>bi_out_tid := tid, new_heap_page_id := 0\<rparr>))), put_frame j g ?t1)"
    "frame_keeps (pframes t j) g" "heap_ok g" "slot_rows (frame_view g) = slot_rows (frame_view (pframes t j)) @ [d]"
    using target_run [of ?t1 p j d ex env] so p fit d ex by auto
  have k: "fr_kp (pframes (put_frame j g ?t1) i) = Some kp" using kp ij by simp
  show ?thesis using g open_cleanup [OF k, of c pos] ex ij
    by (auto simp: bi_phase_heap_insert_def slice_alive [OF time] sbind_run btree_insert_run_heap_insert_def then_phase_run(1) bi_phase_done_def bi_cleanup_def sret_def)
qed

abbreviation bi_start :: "sched_env \<Rightarrow> u64 \<Rightarrow> 'z sched_state_scheme \<Rightarrow> kds_relation \<Rightarrow> u64 \<Rightarrow> u8 list \<Rightarrow> kds_btree_insert_exec" where
  "bi_start senv sl s rel key d \<equiv> (kds_btree_insert_exec_init (Some rel) key (Some d) (of_nat (length d)))\<lparr>deadline_ns := ktime senv (clock s) + sl\<rparr>"

definition btree_table :: "kds_relation \<Rightarrow> u64 \<Rightarrow> u8 list \<Rightarrow> bool" where
  "btree_table rel root d \<longleftrightarrow> rel_kind rel = KDS_CLUSTERED_BTREE \<and> rel_root_page_id rel = root \<and> 8 \<le> length d \<and> length d \<le> 8102"

lemma btree_leaf_same:
  assumes "same_store s s'"
  shows "btree_leaf s' root i kp pg = btree_leaf s root i kp pg"
  using assms same_store_facts [OF assms] by (simp add: btree_leaf_def same_store_def)

lemma heap_leaf_same:
  assumes "same_store s s'"
  shows "heap_leaf s' p j = heap_leaf s p j"
  using assms same_store_facts [OF assms] by (simp add: heap_leaf_def same_store_def)

lemma root_nonzero: "btree_leaf s root i kp pg \<Longrightarrow> root \<noteq> 0"
  by (auto simp: btree_leaf_def store_ok_def)

lemma bi_begins:
  fixes s :: "'z sched_state_scheme"
  assumes bl: "btree_leaf s root i kp pg" and tb: "btree_table rel root d"
  shows "kds_exec_run senv (kds_btree_insert_exec_run env senv crc) (kds_btree_insert_exec_init (Some rel) key (Some d) (of_nat (length d))) sl s =
    then_phase (probe_leaf env rel (leaf_slot (kds_btree_data_copy pg) key)
      (unit_done ((bi_start senv sl s rel key d)\<lparr>bi_cursor := root_cursor i (kds_btree_data_copy pg) (int (leaf_pos (kds_btree_data_copy pg) key))\<rparr>))) (\<lambda>ex.
       if need_new_page ex then bi_phase_wal_init_page env senv crc (ex\<lparr>bi_phase := KDS_BTREE_INSERT_PHASE_WAL_INIT_PAGE\<rparr>)
       else bi_phase_wal_insert env senv crc (ex\<lparr>bi_phase := KDS_BTREE_INSERT_PHASE_WAL_INSERT\<rparr>)) (pinned i kp (s\<lparr>clock := Suc (clock s)\<rparr>))"
proof -
  let ?s = "s\<lparr>clock := Suc (clock s)\<rparr>" and ?ex = "bi_start senv sl s rel key d"
  have bl': "btree_leaf ?s root i kp pg" using bl btree_leaf_same [OF same_store_upd(1)] by blast
  have "search_levels env senv rel (Suc 15) ?ex ?s = probe_leaf env rel (leaf_slot (kds_btree_data_copy pg) key)
      (unit_done (?ex\<lparr>bi_cursor := root_cursor i (kds_btree_data_copy pg) (int (leaf_pos (kds_btree_data_copy pg) key))\<rparr>)) (pinned i kp ?s)"
    by (rule search_leaf_step [OF bl']) (use tb in \<open>simp_all add: kds_btree_insert_exec_init_def btree_table_def\<close>)
  moreover have "BTREE_MAX_DEPTH - cur_depth (bi_cursor ?ex) = Suc 15" by (simp add: kds_btree_insert_exec_init_def btree_cursor_init_def BTREE_MAX_DEPTH_def)
  moreover have "bi_rel ?ex = Some rel" "bi_phase ?ex = KDS_BTREE_INSERT_PHASE_SEARCH_AND_PREPARE" by (simp_all add: kds_btree_insert_exec_init_def)
  ultimately show ?thesis using tb root_nonzero [OF bl]
    by (simp add: exec_run_eq kds_btree_insert_exec_run_def bi_phase_search_def btree_insert_run_search_and_prepare_def then_phase_def btree_table_def
        sbind_def del: search_levels.simps)
qed

text \<open>The leaf slot leads to no heap page with room: it is empty, or its page is full.\<close>

definition needs_page :: "'z sched_state_scheme \<Rightarrow> nat \<Rightarrow> u64 \<Rightarrow> u64 \<Rightarrow> u8 list \<Rightarrow> bool" where
  "needs_page s i slot key d \<longleftrightarrow> slot = 0 \<or> (\<exists>j. heap_leaf s slot j \<and> j \<noteq> i \<and> key \<notin> set (page_keys (pframes s j)) \<and> \<not> fits d (pframes s j))"

lemma probe_new:
  fixes s :: "'z sched_state_scheme"
  assumes bl: "btree_leaf s root i kp pg" and tb: "btree_table rel root d" and np: "needs_page s i slot key d"
    and ex: "bi_data_len ex = of_nat (length d)" "bi_key ex = key"
  shows "\<exists>p. probe_leaf env rel slot ex (pinned i kp s) = (Inr (Some (KDS_EXEC_DONE, ex\<lparr>target_heap_page_id := p, need_new_page := True\<rparr>)), pinned i kp s)"
proof (cases "slot = 0")
  case True
  have "probe_heap_page env root (ex\<lparr>target_heap_page_id := root\<rparr>) (pinned i kp s)
      = (Inr (Some (KDS_EXEC_DONE, ex\<lparr>target_heap_page_id := root, need_new_page := True\<rparr>)), pinned i kp s)"
    using probe_root [OF bl, of "ex\<lparr>target_heap_page_id := root\<rparr>" d] ex tb by (simp add: btree_table_def)
  then show ?thesis using True tb root_nonzero [OF bl] by (auto simp: probe_leaf_def btree_table_def Let_def)
next
  case False
  then obtain j where j: "heap_leaf s slot j" "j \<noteq> i" "key \<notin> set (page_keys (pframes s j))" "\<not> fits d (pframes s j)" using np by (auto simp: needs_page_def)
  have "probe_heap_page env slot (ex\<lparr>target_heap_page_id := slot\<rparr>) (pinned i kp s)
      = (Inr (Some (KDS_EXEC_DONE, ex\<lparr>target_heap_page_id := slot, need_new_page := True\<rparr>)), pinned i kp s)"
    using probe_heap [OF bl j(1,2), of "ex\<lparr>target_heap_page_id := slot\<rparr>" d key] ex tb j(3,4) by (simp add: btree_table_def sret_def)
  then show ?thesis using False by (auto simp: probe_leaf_def Let_def)
qed

text \<open>The state in which the data is changed: the root pinned, the log written.\<close>

definition bi_ready :: "kenv \<Rightarrow> (u32 \<Rightarrow> u8 list \<Rightarrow> u32) \<Rightarrow> nat \<Rightarrow> kds_page \<Rightarrow> u64 \<Rightarrow> u8 list \<Rightarrow> 'z sched_state_scheme \<Rightarrow> 'z sched_state_scheme" where
  "bi_ready env crc i kp root d s = logged_new env crc root d (pinned i kp (s\<lparr>clock := Suc (clock s)\<rparr>))"

lemma bi_ready_facts:
  fixes s :: "'z sched_state_scheme"
  assumes bl: "btree_leaf s root i kp pg"
  shows "store_ok (bi_ready env crc i kp root d s)" "pmap (bi_ready env crc i kp root d s) = pmap s" "ring_items (bi_ready env crc i kp root d s) = ring_items s"
    "pframes (bi_ready env crc i kp root d s) = (pframes s)(i := (pframes s i)\<lparr>fr_kp := Some (pin_kpage kp)\<rparr>)" "clock (bi_ready env crc i kp root d s) = Suc (clock s)"
proof -
  let ?s = "s\<lparr>clock := Suc (clock s)\<rparr>"
  note B = btree_leaf_facts [OF bl]
  have b: "store_ok ?s" "pmap ?s root = Some i" "fr_kp (pframes ?s i) = Some kp" using B by simp_all
  note P = store_ok_pinned [OF b]
  note L = logged_new_store [where t = "pinned i kp ?s" and env = env and crc = crc and root = root and d = d]
  note F = same_store_facts [OF L(1)]
  show "store_ok (bi_ready env crc i kp root d s)" "ring_items (bi_ready env crc i kp root d s) = ring_items s" using P F by (simp_all add: bi_ready_def)
  show "pmap (bi_ready env crc i kp root d s) = pmap s" "pframes (bi_ready env crc i kp root d s) = (pframes s)(i := (pframes s i)\<lparr>fr_kp := Some (pin_kpage kp)\<rparr>)"
    using L(1) P(3,4) by (simp_all add: bi_ready_def same_store_def)
  show "clock (bi_ready env crc i kp root d s) = Suc (clock s)" using L(2) by (simp add: bi_ready_def pinned_def upd_frame_def)
qed

lemma bi_new_page:
  fixes s :: "'z sched_state_scheme"
  assumes bl: "btree_leaf s root i kp pg" and tb: "btree_table rel root d" and w: "wal_ready s" and np: "needs_page s i (leaf_slot (kds_btree_data_copy pg) key) key d"
  shows "\<exists>ex. bi_row ex d \<and> bi_key ex = key \<and> need_new_page ex \<and> bi_cursor ex = root_cursor i (kds_btree_data_copy pg) (int (leaf_pos (kds_btree_data_copy pg) key))
    \<and> deadline_ns ex = ktime senv (clock s) + sl
    \<and> kds_exec_run senv (kds_btree_insert_exec_run env senv crc) (kds_btree_insert_exec_init (Some rel) key (Some d) (of_nat (length d))) sl s
      = bi_phase_heap_insert env senv ex (bi_ready env crc i kp root d s)"
proof -
  let ?s = "s\<lparr>clock := Suc (clock s)\<rparr>" and ?c = "kds_btree_data_copy pg"
  note B = btree_leaf_facts [OF bl]
  define ex1 where "ex1 = unit_done ((bi_start senv sl s rel key d)\<lparr>bi_cursor := root_cursor i ?c (int (leaf_pos ?c key))\<rparr>)"
  have e1: "bi_row ex1 d" "bi_key ex1 = key" "bi_cursor ex1 = root_cursor i ?c (int (leaf_pos ?c key))" "deadline_ns ex1 = ktime senv (clock s) + sl"
    using tb by (simp_all add: ex1_def bi_row_def kds_btree_insert_exec_init_def btree_table_def)
  have bl': "btree_leaf ?s root i kp pg" using bl btree_leaf_same [OF same_store_upd(1)] by blast
  have np': "needs_page ?s i (leaf_slot ?c key) key d" using np by (simp add: needs_page_def heap_leaf_same [OF same_store_upd(1)])
  obtain p where p: "probe_leaf env rel (leaf_slot ?c key) ex1 (pinned i kp ?s)
      = (Inr (Some (KDS_EXEC_DONE, ex1\<lparr>target_heap_page_id := p, need_new_page := True\<rparr>)), pinned i kp ?s)"
    using probe_new [OF bl' tb np', of ex1 env] e1 by (auto simp: bi_row_def)
  let ?ex2 = "ex1\<lparr>target_heap_page_id := p, need_new_page := True, bi_phase := KDS_BTREE_INSERT_PHASE_WAL_INIT_PAGE\<rparr>"
  have w': "wal_ready (pinned i kp ?s)" using w by (simp add: wal_ready_def)
  have k: "fr_kp (pframes (pinned i kp ?s) i) = Some (pin_kpage kp)" "kp_id (pin_kpage kp) = root"
    using page_loaded [OF B(1,3)] B(5) by (auto simp: pinned_def upd_frame_def pin_kpage_def)
  have r2: "bi_row ?ex2 d" "need_new_page ?ex2" "bi_cursor ?ex2 = root_cursor i ?c (int (leaf_pos ?c key))" using e1 by (simp_all add: bi_row_def)
  have "kds_exec_run senv (kds_btree_insert_exec_run env senv crc) (kds_btree_insert_exec_init (Some rel) key (Some d) (of_nat (length d))) sl s
      = bi_phase_heap_insert env senv (?ex2\<lparr>bi_phase := KDS_BTREE_INSERT_PHASE_HEAP_INSERT\<rparr>) (bi_ready env crc i kp root d s)"
    using bi_begins [OF bl tb, of senv env crc key sl, folded ex1_def] then_phase_run(1) [where m = "probe_leaf env rel (leaf_slot ?c key) ex1", OF p]
      wal_phases_new [OF w' r2 k, of env senv crc] by (simp add: bi_ready_def)
  moreover have "bi_row (?ex2\<lparr>bi_phase := ph\<rparr>) d" for ph using r2(1) by (simp add: bi_row_def)
  ultimately show ?thesis using e1 by (intro exI [of _ "?ex2\<lparr>bi_phase := KDS_BTREE_INSERT_PHASE_HEAP_INSERT\<rparr>"]) simp
qed

section \<open>A concrete tree\<close>

definition demo_tree_of :: "u64 list \<Rightarrow> sched_state" where
  "demo_tree_of c = (let s = snd (kds_page_alloc KDS_PAGE_TYPE_BTREE_ROOT demo_base)
     in put_frame 5 ((pframes s 5)\<lparr>fr_page := Some (kds_btree_data_store (\<lambda>_. 0) c)\<rparr>) s)"

text \<open>A second page, a heap page with the row \<open>r\<close>.\<close>

definition demo_tree_with :: "u64 list \<Rightarrow> u8 list \<Rightarrow> sched_state" where
  "demo_tree_with c r = (let s = snd (kds_page_alloc KDS_PAGE_TYPE_HEAP (demo_tree_of c)) in put_frame 6 (demo_frame_with (Some r) (pframes s 6)) s)"

definition demo_broot :: "u64 list \<Rightarrow> kds_page" where
  "demo_broot c = the (fr_kp (pframes (demo_tree_of c) 5))"

definition demo_brel :: kds_relation where
  "demo_brel = \<lparr>rel_oid = 4000, rel_namespace_oid = 0, rel_kind = KDS_CLUSTERED_BTREE, rel_root_page_id = 200, rel_schema = demo_schema\<rparr>"

lemma demo_tree_leaf:
  assumes c: "node_ok c" "level_of c = 0"
  shows "btree_leaf (demo_tree_of c) 200 5 (demo_broot c) (kds_btree_data_store (\<lambda>_. 0) c)" "ring_items (demo_tree_of c) = [6]" "wal_ready (demo_tree_of c)"
    "pmap (demo_tree_of c) = pmap demo_base"
proof -
  have aw: "alloc_wf demo_base" "g_alloc demo_base" using demo_base_ok(1) by (simp_all add: store_ok_def)
  obtain s where s: "kds_page_alloc KDS_PAGE_TYPE_BTREE_ROOT demo_base = (Inr (Some 5), s)" "store_ok s" "pmap s = pmap demo_base" "ring_items s = [6]" "g_wal s = g_wal demo_base"
    using page_alloc_store [OF demo_base_ok, of KDS_PAGE_TYPE_BTREE_ROOT] by auto
  obtain kp0 where kp0: "fr_kp (pframes s 5) = Some (kp0\<lparr>kp_hdr := (kp_hdr kp0)\<lparr>hdr_type := KDS_PAGE_TYPE_BTREE_ROOT\<rparr>\<rparr>)"
    using page_alloc_pops [OF aw demo_base_ok(2), of KDS_PAGE_TYPE_BTREE_ROOT] s(1) by auto
  define kp where "kp = kp0\<lparr>kp_hdr := (kp_hdr kp0)\<lparr>hdr_type := KDS_PAGE_TYPE_BTREE_ROOT\<rparr>\<rparr>"
  have p: "pmap s 200 = Some 5" using s(3) by (simp add: demo_base_simps demo_wal0_simps)
  have k: "fr_kp (pframes s 5) = Some kp" "kds_is_btree_page kp" using kp0 by (simp_all add: kp_def kds_is_btree_page_def)
  let ?f = "(pframes s 5)\<lparr>fr_page := Some (kds_btree_data_store (\<lambda>_. 0) c)\<rparr>"
  have fk: "frame_keeps (pframes s 5) ?f" using k by (simp add: frame_keeps_def)
  note so = store_ok_put [OF s(2) p fk]
  have t: "demo_tree_of c = put_frame 5 ?f s" using s(1) by (simp add: demo_tree_of_def)
  have cs: "kds_btree_data_copy (kds_btree_data_store (\<lambda>_. 0) c) = c" using c(1) by (simp add: node_ok_def)
  show "ring_items (demo_tree_of c) = [6]" "pmap (demo_tree_of c) = pmap demo_base" using so s(3,4) t by simp_all
  show "wal_ready (demo_tree_of c)" using t s(5) by (simp add: wal_ready_def demo_base_simps)
  show "btree_leaf (demo_tree_of c) 200 5 (demo_broot c) (kds_btree_data_store (\<lambda>_. 0) c)"
    using so p k c cs s(4) by (simp add: btree_leaf_def t demo_broot_def)
qed

lemma demo_tree_heap:
  assumes c: "node_ok c" "level_of c = 0" and l: "8 \<le> length r" "length r \<le> 8102"
  shows "btree_leaf (demo_tree_with c r) 200 5 (demo_broot c) (kds_btree_data_store (\<lambda>_. 0) c)" "ring_items (demo_tree_with c r) = []" "wal_ready (demo_tree_with c r)"
    "heap_leaf (demo_tree_with c r) 201 6" "slot_rows (frame_view (pframes (demo_tree_with c r) 6)) = [r]" "page_room (pframes (demo_tree_with c r) 6) = 8102 - length r"
proof -
  note T = demo_tree_leaf [OF c]
  note B = btree_leaf_facts [OF T(1)]
  obtain s where s: "kds_page_alloc KDS_PAGE_TYPE_HEAP (demo_tree_of c) = (Inr (Some 6), s)" "store_ok s" "pmap s = pmap (demo_tree_of c)" "ring_items s = []"
    "\<forall>k. k \<noteq> 6 \<longrightarrow> pframes s k = pframes (demo_tree_of c) k" "g_wal s = g_wal (demo_tree_of c)"
    using page_alloc_store [OF B(1) T(2), of KDS_PAGE_TYPE_HEAP] by auto
  have p: "pmap s 201 = Some 6" using s(3) T(4) by (simp add: demo_base_simps demo_wal0_simps)
  obtain kp pg where kp: "fr_kp (pframes s 6) = Some kp" "fr_page (pframes s 6) = Some pg" "page_hdr_valid (kp_hdr kp)" using page_loaded [OF s(2) p] by metis
  note F = demo_frame_facts [OF _ kp, of "Some r", simplified, OF l(2)]
  note so = store_ok_put [OF s(2) p F(1)]
  have t: "demo_tree_with c r = put_frame 6 (demo_frame_with (Some r) (pframes s 6)) s" using s(1) by (simp add: demo_tree_with_def)
  show "btree_leaf (demo_tree_with c r) 200 5 (demo_broot c) (kds_btree_data_store (\<lambda>_. 0) c)"
    using B so s(3,4,5) by (simp add: btree_leaf_def t)
  show "ring_items (demo_tree_with c r) = []" using so s(4) t by simp
  show "wal_ready (demo_tree_with c r)" using t s(6) T(3) by (simp add: wal_ready_def)
  have f: "pframes (demo_tree_with c r) 6 = demo_frame_with (Some r) (pframes s 6)" using t by simp
  show rows: "slot_rows (frame_view (pframes (demo_tree_with c r) 6)) = [r]" using F(3) f by (simp add: slot_rows_def)
  show "page_room (pframes (demo_tree_with c r) 6) = 8102 - length r" using F(3) f by (simp add: page_room_def)
  show "heap_leaf (demo_tree_with c r) 201 6" using rows F(2) f p so(2) s(4) l t by (simp add: heap_leaf_def)
qed

text \<open>The new page.\<close>

lemma bi_new_page_result:
  fixes s :: "'z sched_state_scheme"
  assumes bl: "btree_leaf s root i kp pg" and tb: "btree_table rel root d" and w: "wal_ready s" and np: "needs_page s i (leaf_slot (kds_btree_data_copy pg) key) key d"
    and room: "count_of (kds_btree_data_copy pg) < 4" and it: "ring_items s = j # js"
    and time: "\<forall>k \<le> Suc (Suc (clock s)). ktime senv k < ktime senv (clock s) + sl"
  shows "\<exists>ex' s' q c'. kds_exec_run senv (kds_btree_insert_exec_run env senv crc) (kds_btree_insert_exec_init (Some rel) key (Some d) (of_nat (length d))) sl s
      = (Inr (Some (KDS_EXEC_DONE, ex')), s')
    \<and> btree_leaf s' root i kp (kds_btree_data_store pg c') \<and> ring_items s' = js
    \<and> node_keys c' = take (leaf_pos (kds_btree_data_copy pg) key) (node_keys (kds_btree_data_copy pg)) @ key # drop (leaf_pos (kds_btree_data_copy pg) key) (node_keys (kds_btree_data_copy pg))
    \<and> node_slots c' = take (Suc (leaf_pos (kds_btree_data_copy pg) key)) (node_slots (kds_btree_data_copy pg)) @ q # drop (Suc (leaf_pos (kds_btree_data_copy pg) key)) (node_slots (kds_btree_data_copy pg))
    \<and> heap_leaf s' q j \<and> slot_rows (frame_view (pframes s' j)) = [d] \<and> released (pframes s j) (pframes s' j) \<and> (\<forall>k. k \<noteq> i \<and> k \<noteq> j \<longrightarrow> pframes s' k = pframes s k)"
proof -
  let ?c = "kds_btree_data_copy pg" and ?t = "bi_ready env crc i kp root d s"
  note B = btree_leaf_facts [OF bl]
  note T = bi_ready_facts [OF bl, of env crc d]
  obtain ex where ex: "bi_row ex d" "bi_key ex = key" "need_new_page ex" "bi_cursor ex = root_cursor i ?c (int (leaf_pos ?c key))" "deadline_ns ex = ktime senv (clock s) + sl"
    "kds_exec_run senv (kds_btree_insert_exec_run env senv crc) (kds_btree_insert_exec_init (Some rel) key (Some d) (of_nat (length d))) sl s = bi_phase_heap_insert env senv ex ?t"
    using bi_new_page [OF bl tb w np, of senv sl env crc] by blast
  have ij: "i \<noteq> j" using B(4) it by auto
  let ?R = "\<lambda>q c'. node_ok c' \<and> node_keys c' = take (leaf_pos ?c key) (node_keys ?c) @ key # drop (leaf_pos ?c key) (node_keys ?c)
    \<and> node_slots c' = take (Suc (leaf_pos ?c key)) (node_slots ?c) @ q # drop (Suc (leaf_pos ?c key)) (node_slots ?c) \<and> level_of c' = 0"
  have c': "\<exists>c'. btree_node_insert_at ?c (int (leaf_pos ?c key)) (bi_key ex) q = Inr c' \<and> ?R q c'" for q
  proof -
    have "int (leaf_pos ?c key) \<le> int (unat (count_of ?c))" using leaf_pos_le [of ?c key] node_keys_length [OF B(8)] by (simp del: of_nat_unat)
    then show ?thesis using insert_at_spec [OF B(8) room, of "int (leaf_pos ?c key)" key q] B(9) unfolding ex(2) by (auto simp del: of_nat_unat)
  qed
  have f: "fr_kp (pframes ?t i) = Some (pin_kpage kp)" "fr_page (pframes ?t i) = Some pg" "kds_is_btree_page (pin_kpage kp)" "pmap ?t root = Some i" "ring_items ?t = j # js"
    "ktime senv (clock ?t) < deadline_ns ex" "ktime senv (Suc (clock ?t)) < deadline_ns ex"
    using T B it time ex(5) by simp_all
  obtain ex' s' q c' fj where r: "bi_phase_heap_insert env senv ex ?t = (Inr (Some (KDS_EXEC_DONE, ex')), s')" "?R q c'" "store_ok s'" "pmap s' = pmap s" "ring_items s' = js"
    "j \<notin> set js" "pmap s q = Some j" "heap_ok fj" "slot_rows (frame_view fj) = [d]" "released (pframes ?t j) fj"
    "pframes s' = (pframes ?t)(j := fj, i := (pframes ?t i)\<lparr>fr_page := Some (kds_btree_data_store pg c'), fr_kp := Some (unpin_kpage (pin_kpage kp))\<rparr>)"
    using heap_phase_new [OF T(1) f(4,1,2,3,5) ij ex(1,3,4) f(6,7) room, of ?R env] c' T(2) by auto
  have fi: "(pframes ?t i)\<lparr>fr_page := Some pg', fr_kp := Some kp\<rparr> = (pframes s i)\<lparr>fr_page := Some pg'\<rparr>" for pg'
    using T(4) B(5) by (cases "pframes s i") simp
  have fr: "pframes s' = (pframes s)(j := fj, i := (pframes s i)\<lparr>fr_page := Some (kds_btree_data_store pg c')\<rparr>)" using r(11) T(4) fi by (simp add: fun_upd_def fun_eq_iff)
  have cs: "kds_btree_data_copy (kds_btree_data_store pg c') = c'" using r(2) by (simp add: node_ok_def)
  have "btree_leaf s' root i kp (kds_btree_data_store pg c')" using r(2-5) B fr cs it by (simp add: btree_leaf_def)
  moreover have "q \<noteq> 0" using r(7) B(1) by (auto simp: store_ok_def)
  then have "heap_leaf s' q j" using r fr ij tb by (simp add: heap_leaf_def btree_table_def)
  moreover have "released (pframes s j) fj" using r(10) T(4) ij by simp
  ultimately show ?thesis using ex(6) r(1,2,5,9) fr ij by (intro exI [of _ ex'] exI [of _ s'] exI [of _ q] exI [of _ c']) simp
qed

section \<open>Properties\<close>

text \<open>C14: When the leaf slot of a one-level tree is empty or leads to a page without the key and without room for the row, the leaf has fewer than four keys, a
  page is staged in the allocator's ring and the slice does not run out during the call, an insertion takes that page
  from the ring, puts the row into it, and enters the key and the page into the leaf at the position of the key. Every
  other page is as before, the leaf's frame is pinned as often as before, and the pin under which the allocator handed
  over the new page has been given back. The log is ready to take records.\<close>

theorem btree_insert_new_page:
  fixes s :: "'z sched_state_scheme"
  assumes bl: "btree_leaf s root i kp pg" and tb: "btree_table rel root d" and w: "wal_ready s" and np: "needs_page s i (leaf_slot (kds_btree_data_copy pg) key) key d"
    and room: "count_of (kds_btree_data_copy pg) < 4" and it: "ring_items s = j # js"
    and time: "\<forall>k \<le> Suc (Suc (clock s)). ktime senv k < ktime senv (clock s) + sl"
  shows "\<exists>ex' s' q c'. kds_exec_run senv (kds_btree_insert_exec_run env senv crc) (kds_btree_insert_exec_init (Some rel) key (Some d) (of_nat (length d))) sl s
      = (Inr (Some (KDS_EXEC_DONE, ex')), s')
    \<and> btree_leaf s' root i kp (kds_btree_data_store pg c') \<and> ring_items s' = js
    \<and> node_keys c' = take (leaf_pos (kds_btree_data_copy pg) key) (node_keys (kds_btree_data_copy pg)) @ key # drop (leaf_pos (kds_btree_data_copy pg) key) (node_keys (kds_btree_data_copy pg))
    \<and> node_slots c' = take (Suc (leaf_pos (kds_btree_data_copy pg) key)) (node_slots (kds_btree_data_copy pg)) @ q # drop (Suc (leaf_pos (kds_btree_data_copy pg) key)) (node_slots (kds_btree_data_copy pg))
    \<and> heap_leaf s' q j \<and> slot_rows (frame_view (pframes s' j)) = [d] \<and> released (pframes s j) (pframes s' j) \<and> (\<forall>k. k \<noteq> i \<and> k \<noteq> j \<longrightarrow> pframes s' k = pframes s k)"
  by (rule bi_new_page_result [OF assms])

lemma demo_clock_time:
  assumes "clock s = n" and "n \<le> 50"
  shows "\<forall>k \<le> Suc (Suc (clock s)). ktime demo_clock k < ktime demo_clock (clock s) + 5000"
proof (intro allI impI)
  fix k assume k: "k \<le> Suc (Suc (clock s))"
  have u: "unat (of_nat (min i 100) * 1000 :: u64) = min i 100 * 1000" for i by (simp add: unat_word_ariths unat_of_nat)
  have "unat (of_nat (min (clock s) 100) * 1000 + 5000 :: u64) = min (clock s) 100 * 1000 + 5000" using u [of "clock s"] by (simp add: unat_word_ariths)
  then show "ktime demo_clock k < ktime demo_clock (clock s) + 5000" using u [of k] k assms by (simp add: demo_clock_def word_less_nat_alt)
qed

lemma demo_tree_clock: "clock (demo_tree_of c) = 0" "clock (demo_tree_with c r) = 0"
proof -
  have p: "clock (snd (kds_page_alloc t s)) = clock s" for t and s :: sched_state using page_alloc_sched(1) [of t s] by (metis prod.collapse)
  have "clock (put_frame i f s) = clock s" for i f and s :: sched_state by (simp add: put_frame_def upd_frame_def)
  then show a: "clock (demo_tree_of c) = 0" using p by (simp add: demo_tree_of_def Let_def demo_base_def cat_state.defs)
  then show "clock (demo_tree_with c r) = 0" using p \<open>\<And>i f s :: sched_state. clock (put_frame i f s) = clock s\<close> by (simp add: demo_tree_with_def Let_def)
qed

text \<open>One key, its page in the slot behind it, the slot in front of it empty: what a first insertion leaves.\<close>

definition one_key :: "u64 list" where
  "one_key = [0, 1, 7, 0, 0, 0, 0, 201, 0, 0, 0, 0, 0]"

lemma one_key_facts: "node_ok one_key" "level_of one_key = 0" "count_of one_key = 1" "node_keys one_key = [7]" "node_slots one_key = [0, 201]"
  by (simp_all add: node_ok_def one_key_def level_of_def count_of_def node_keys_def node_slots_def)

theorem btree_insert_new_page_witness:
  "\<exists>ex' s' q c'. kds_exec_run demo_clock (kds_btree_insert_exec_run demo_env demo_clock (\<lambda>_ _. 0)) (kds_btree_insert_exec_init (Some demo_brel) 3 (Some (replicate 20 3)) 20) 5000 (demo_tree_of one_key)
      = (Inr (Some (KDS_EXEC_DONE, ex')), s') \<and> btree_leaf s' 200 5 (demo_broot one_key) (kds_btree_data_store (kds_btree_data_store (\<lambda>_. 0) one_key) c')
    \<and> node_keys c' = [3, 7] \<and> node_slots c' = [0, q, 201] \<and> slot_rows (frame_view (pframes s' 6)) = [replicate 20 3]"
proof -
  let ?d = "replicate 20 3 :: u8 list" and ?s = "demo_tree_of one_key"
  note T = demo_tree_leaf [OF one_key_facts(1,2)]
  have c: "kds_btree_data_copy (kds_btree_data_store (\<lambda>_. 0) one_key) = one_key" using one_key_facts(1) by (simp add: node_ok_def)
  have lp: "leaf_pos one_key 3 = 0" "leaf_slot one_key 3 = 0" by (simp_all add: leaf_pos_def leaf_slot_def one_key_facts)
  have "btree_table demo_brel 200 ?d" by (simp add: btree_table_def demo_brel_def)
  then show ?thesis
    using btree_insert_new_page [OF T(1) _ T(3), of demo_brel ?d 3 6 "[]" demo_clock 5000 demo_env "\<lambda>_ _. 0"] T(2) demo_clock_time [OF demo_tree_clock(1) [of one_key]]
    by (auto simp: c lp needs_page_def one_key_facts)
qed

lemma bi_probe:
  fixes s :: "'z sched_state_scheme"
  assumes bl: "btree_leaf s root i kp pg" and tb: "btree_table rel root d" and hl: "heap_leaf s p j" "j \<noteq> i" "leaf_slot (kds_btree_data_copy pg) key = p" and fit: "fits d (pframes s j)"
  shows "\<exists>ex. bi_row ex d \<and> target_heap_page_id ex = p \<and> \<not> need_new_page ex \<and> bi_cursor ex = root_cursor i (kds_btree_data_copy pg) (int (leaf_pos (kds_btree_data_copy pg) key))
    \<and> deadline_ns ex = ktime senv (clock s) + sl
    \<and> kds_exec_run senv (kds_btree_insert_exec_run env senv crc) (kds_btree_insert_exec_init (Some rel) key (Some d) (of_nat (length d))) sl s
      = then_phase (if key \<in> set (page_keys (pframes s j)) then cleanup_error ex EEXIST else sret (Some (KDS_EXEC_DONE, ex)))
          (\<lambda>ex. if need_new_page ex then bi_phase_wal_init_page env senv crc (ex\<lparr>bi_phase := KDS_BTREE_INSERT_PHASE_WAL_INIT_PAGE\<rparr>)
            else bi_phase_wal_insert env senv crc (ex\<lparr>bi_phase := KDS_BTREE_INSERT_PHASE_WAL_INSERT\<rparr>)) (pinned i kp (s\<lparr>clock := Suc (clock s)\<rparr>))"
proof -
  let ?c = "kds_btree_data_copy pg" and ?s = "s\<lparr>clock := Suc (clock s)\<rparr>"
  define ex1 where "ex1 = unit_done ((bi_start senv sl s rel key d)\<lparr>bi_cursor := root_cursor i ?c (int (leaf_pos ?c key))\<rparr>)"
  let ?ex = "ex1\<lparr>target_heap_page_id := p\<rparr>"
  have n: "need_new_page ex1 = False" and e: "bi_row ?ex d" "bi_key ?ex = key" "bi_cursor ?ex = root_cursor i ?c (int (leaf_pos ?c key))" "deadline_ns ?ex = ktime senv (clock s) + sl"
    using tb by (simp_all add: ex1_def bi_row_def kds_btree_insert_exec_init_def btree_table_def)
  have nn: "?ex\<lparr>need_new_page := False\<rparr> = ?ex" using n by (cases ex1) simp
  have bl': "btree_leaf ?s root i kp pg" using bl by (simp add: btree_leaf_same [OF same_store_upd(1)])
  have hl': "heap_leaf ?s p j" using hl(1) by (simp add: heap_leaf_same [OF same_store_upd(1)])
  have "p \<noteq> 0" using hl(1) by (simp add: heap_leaf_def)
  then have "probe_leaf env rel p ex1 (pinned i kp ?s) = (if key \<in> set (page_keys (pframes s j)) then cleanup_error ?ex EEXIST else sret (Some (KDS_EXEC_DONE, ?ex))) (pinned i kp ?s)"
    using probe_heap [OF bl' hl' hl(2), of ?ex d key env] e tb fit nn by (simp add: probe_leaf_def Let_def bi_row_def btree_table_def)
  then show ?thesis using bi_begins [OF bl tb, of senv env crc key sl, folded ex1_def, unfolded hl(3)] e n
    by (intro exI [of _ ?ex]) (simp add: then_phase_def sbind_def)
qed

lemma bi_dup:
  fixes s :: "'z sched_state_scheme"
  assumes bl: "btree_leaf s root i kp pg" and tb: "btree_table rel root d" and hl: "heap_leaf s p j" "j \<noteq> i" "leaf_slot (kds_btree_data_copy pg) key = p" and fit: "fits d (pframes s j)"
    and dup: "key \<in> set (page_keys (pframes s j))"
  shows "\<exists>ex'. kds_exec_run senv (kds_btree_insert_exec_run env senv crc) (kds_btree_insert_exec_init (Some rel) key (Some d) (of_nat (length d))) sl s
    = (Inr (Some (KDS_EXEC_ERROR, ex')), s\<lparr>clock := Suc (clock s)\<rparr>) \<and> ex_ret ex' = Some EEXIST"
proof -
  let ?c = "kds_btree_data_copy pg" and ?s = "s\<lparr>clock := Suc (clock s)\<rparr>"
  obtain ex where ex: "bi_cursor ex = root_cursor i ?c (int (leaf_pos ?c key))"
    "kds_exec_run senv (kds_btree_insert_exec_run env senv crc) (kds_btree_insert_exec_init (Some rel) key (Some d) (of_nat (length d))) sl s
      = then_phase (cleanup_error ex EEXIST)
          (\<lambda>ex. if need_new_page ex then bi_phase_wal_init_page env senv crc (ex\<lparr>bi_phase := KDS_BTREE_INSERT_PHASE_WAL_INIT_PAGE\<rparr>)
            else bi_phase_wal_insert env senv crc (ex\<lparr>bi_phase := KDS_BTREE_INSERT_PHASE_WAL_INSERT\<rparr>)) (pinned i kp ?s)"
    using bi_probe [OF bl tb hl fit, of senv sl env crc] dup by auto
  have k: "fr_kp (pframes ?s i) = Some kp" using btree_leaf_facts [OF bl] by simp
  have "btree_cursor_cleanup (root_cursor i ?c (int (leaf_pos ?c key))) (pinned i kp ?s) = (Inr (closed i ?c (int (leaf_pos ?c key))), ?s)"
    using open_cleanup [of "pinned i kp ?s" i "pin_kpage kp" ?c "int (leaf_pos ?c key)"] unpin_pinned [OF k] by (simp add: pinned_put unpin_put [where kp = "pin_kpage kp"])
  then have "cleanup_error ex EEXIST (pinned i kp ?s) = (Inr (Some (KDS_EXEC_ERROR, ex\<lparr>bi_cursor := closed i ?c (int (leaf_pos ?c key)), ex_ret := Some EEXIST\<rparr>)), ?s)"
    using ex(1) by (simp add: cleanup_error_def bi_cleanup_def sbind_run sret_def exec_error_def)
  from then_phase_run(2) [where m = "cleanup_error ex EEXIST", OF this] show ?thesis using ex(2) by auto
qed

text \<open>The row goes into the page of the slot.\<close>

lemma bi_target:
  fixes s :: "'z sched_state_scheme"
  assumes bl: "btree_leaf s root i kp pg" and tb: "btree_table rel root d" and w: "wal_ready s" and hl: "heap_leaf s p j" "j \<noteq> i" "leaf_slot (kds_btree_data_copy pg) key = p"
    and fit: "fits d (pframes s j)" and new: "key \<notin> set (page_keys (pframes s j))" and time: "ktime senv (Suc (clock s)) < ktime senv (clock s) + sl"
  shows "\<exists>ex' fj. kds_exec_run senv (kds_btree_insert_exec_run env senv crc) (kds_btree_insert_exec_init (Some rel) key (Some d) (of_nat (length d))) sl s
      = (Inr (Some (KDS_EXEC_DONE, ex')), put_frame i (pframes s i) (put_frame j fj ((log_row env crc 1 p 0 d (pinned i kp (s\<lparr>clock := Suc (clock s)\<rparr>)))\<lparr>clock := Suc (Suc (clock s))\<rparr>)))
    \<and> frame_keeps (pframes s j) fj \<and> heap_ok fj \<and> slot_rows (frame_view fj) = slot_rows (frame_view (pframes s j)) @ [d]"
proof -
  let ?c = "kds_btree_data_copy pg" and ?tp = "pinned i kp (s\<lparr>clock := Suc (clock s)\<rparr>)"
  let ?t = "log_row env crc 1 p 0 d ?tp"
  note B = btree_leaf_facts [OF bl]
  obtain ex where ex: "bi_row ex d" "target_heap_page_id ex = p" "\<not> need_new_page ex" "bi_cursor ex = root_cursor i ?c (int (leaf_pos ?c key))" "deadline_ns ex = ktime senv (clock s) + sl"
    and run: "kds_exec_run senv (kds_btree_insert_exec_run env senv crc) (kds_btree_insert_exec_init (Some rel) key (Some d) (of_nat (length d))) sl s
      = then_phase (sret (Some (KDS_EXEC_DONE, ex)))
          (\<lambda>ex. if need_new_page ex then bi_phase_wal_init_page env senv crc (ex\<lparr>bi_phase := KDS_BTREE_INSERT_PHASE_WAL_INIT_PAGE\<rparr>)
            else bi_phase_wal_insert env senv crc (ex\<lparr>bi_phase := KDS_BTREE_INSERT_PHASE_WAL_INSERT\<rparr>)) ?tp"
    using bi_probe [OF bl tb hl fit, of senv sl env crc] new by auto
  let ?ex = "ex\<lparr>bi_phase := KDS_BTREE_INSERT_PHASE_WAL_INSERT\<rparr>" and ?exh = "ex\<lparr>bi_phase := KDS_BTREE_INSERT_PHASE_HEAP_INSERT\<rparr>"
  have w': "wal_ready ?tp" "bi_row ?ex d" "\<not> need_new_page ?ex" using w ex by (simp_all add: wal_ready_def bi_row_def)
  have run': "kds_exec_run senv (kds_btree_insert_exec_run env senv crc) (kds_btree_insert_exec_init (Some rel) key (Some d) (of_nat (length d))) sl s = bi_phase_heap_insert env senv ?exh ?t"
    using run ex(2,3) wal_phases_target [OF w', of env senv crc] by (simp add: then_phase_def sbind_def sret_def)
  have b': "store_ok (s\<lparr>clock := Suc (clock s)\<rparr>)" "pmap (s\<lparr>clock := Suc (clock s)\<rparr>) root = Some i" "fr_kp (pframes (s\<lparr>clock := Suc (clock s)\<rparr>) i) = Some kp" using B by simp_all
  note P = store_ok_pinned [OF b']
  note L = log_row_store [of ?tp env crc 1 p 0 d]
  have ft: "pframes ?t = (pframes s)(i := (pframes s i)\<lparr>fr_kp := Some (pin_kpage kp)\<rparr>)" "pmap ?t = pmap s" "store_ok ?t" "clock ?t = Suc (clock s)"
    using L same_store_facts(5) [OF L] P by (simp_all add: same_store_def log_row_def pinned_def upd_frame_def)
  have j: "pmap ?t p = Some j" "heap_ok (pframes ?t j)" "fits d (pframes ?t j)" "i \<noteq> j" "fr_kp (pframes ?t i) = Some (pin_kpage kp)"
    using ft hl fit by (simp_all add: heap_leaf_def)
  have r3: "bi_row ?exh d" "target_heap_page_id ?exh = p" "\<not> need_new_page ?exh" "bi_cursor ?exh = root_cursor i ?c (int (leaf_pos ?c key))" "ktime senv (clock ?t) < deadline_ns ?exh"
    using ex ft(4) time by (simp_all add: bi_row_def)
  have "(pframes ?t i)\<lparr>fr_kp := Some (unpin_kpage (pin_kpage kp))\<rparr> = pframes s i" using ft(1) frame_kp_same [OF B(5)] by simp
  then show ?thesis using heap_phase_target [OF ft(3) j(1,2,3,4) r3(1-4) j(5) r3(5), of env] run' ft(1,4) j(4) by auto
qed

text \<open>When the leaf slot leads to a heap page with room for the row, the row goes there and the tree is unchanged, unless the
  page holds the key: then the insertion ends with \<^verbatim>\<open>EEXIST\<close> and nothing has changed. In both cases every pin has
  been released.\<close>

theorem btree_insert_existing_page:
  fixes s :: "'z sched_state_scheme"
  assumes bl: "btree_leaf s root i kp pg" and tb: "btree_table rel root d" and w: "wal_ready s" and hl: "heap_leaf s p j" "j \<noteq> i" "leaf_slot (kds_btree_data_copy pg) key = p"
    and fit: "33 + length d \<le> page_room (pframes s j)" and time: "\<forall>k \<le> Suc (Suc (clock s)). ktime senv k < ktime senv (clock s) + sl"
  shows "\<exists>r ex' s'. kds_exec_run senv (kds_btree_insert_exec_run env senv crc) (kds_btree_insert_exec_init (Some rel) key (Some d) (of_nat (length d))) sl s
      = (Inr (Some (r, ex')), s')
    \<and> (if key \<in> set (page_keys (pframes s j)) then r = KDS_EXEC_ERROR \<and> ex_ret ex' = Some EEXIST \<and> s' = s\<lparr>clock := Suc (clock s)\<rparr>
       else r = KDS_EXEC_DONE \<and> btree_leaf s' root i kp pg \<and> heap_leaf s' p j \<and> slot_rows (frame_view (pframes s' j)) = slot_rows (frame_view (pframes s j)) @ [d]
         \<and> (\<forall>k. k \<noteq> j \<longrightarrow> pframes s' k = pframes s k))"
proof (cases "key \<in> set (page_keys (pframes s j))")
  case True
  then show ?thesis using bi_dup [OF bl tb hl _ True, of senv env crc sl] fit by (auto simp: fits_def)
next
  case False
  note B = btree_leaf_facts [OF bl]
  let ?u = "(log_row env crc 1 p 0 d (pinned i kp (s\<lparr>clock := Suc (clock s)\<rparr>)))\<lparr>clock := Suc (Suc (clock s))\<rparr>"
  obtain ex' fj where f: "kds_exec_run senv (kds_btree_insert_exec_run env senv crc) (kds_btree_insert_exec_init (Some rel) key (Some d) (of_nat (length d))) sl s
      = (Inr (Some (KDS_EXEC_DONE, ex')), put_frame i (pframes s i) (put_frame j fj ?u))" "frame_keeps (pframes s j) fj" "heap_ok fj"
    "slot_rows (frame_view fj) = slot_rows (frame_view (pframes s j)) @ [d]"
    using bi_target [OF bl tb w hl _ False, of senv sl env crc] fit time by (auto simp: fits_def)
  let ?s = "put_frame i (pframes s i) (put_frame j fj ?u)"
  have b': "store_ok (s\<lparr>clock := Suc (clock s)\<rparr>)" "pmap (s\<lparr>clock := Suc (clock s)\<rparr>) root = Some i" "fr_kp (pframes (s\<lparr>clock := Suc (clock s)\<rparr>) i) = Some kp" using B by simp_all
  note P = store_ok_pinned [OF b']
  have L: "same_store (pinned i kp (s\<lparr>clock := Suc (clock s)\<rparr>)) ?u" by (rule same_store_trans [OF log_row_store same_store_upd(1)])
  have u: "store_ok ?u" "pmap ?u = pmap s" "ring_items ?u = ring_items s" "pframes ?u = (pframes s)(i := (pframes s i)\<lparr>fr_kp := Some (pin_kpage kp)\<rparr>)"
    using same_store_facts(3,5) [OF L] L P by (simp_all add: same_store_def)
  have h: "pmap ?u p = Some j" "frame_keeps (pframes ?u j) fj" using u f(2) hl by (simp_all add: heap_leaf_def)
  note S1 = store_ok_put [OF u(1) h]
  have "fr_kp (pframes (put_frame j fj ?u) i) = Some (pin_kpage kp)" using u(4) hl(2) by simp
  then have "kds_buf_unpin i (put_frame j fj ?u) = (Inr (), ?s)" using u(4) hl(2) frame_kp_same [OF B(5)] by (simp add: kds_buf_unpin_def put_frame_def upd_frame_def)
  then have so: "store_ok ?s" "ring_items ?s = ring_items s" using store_ok_unpin [OF S1(1), of root i] B(3) u(2,3) S1(2) by auto
  have fr: "pframes ?s = (pframes s)(j := fj)" "pmap ?s = pmap s" using u hl(2) by (auto simp: fun_eq_iff)
  have "btree_leaf ?s root i kp pg" using so fr B hl(2) by (simp add: btree_leaf_def)
  moreover have "heap_leaf ?s p j" using hl(1) so fr f(3,4) tb by (auto simp: heap_leaf_def btree_table_def)
  ultimately show ?thesis using f(1,4) False fr by (intro exI [of _ KDS_EXEC_DONE] exI [of _ ex'] exI [of _ ?s]) simp
qed

theorem btree_insert_existing_page_witness:
  "\<exists>ex' s'. kds_exec_run demo_clock (kds_btree_insert_exec_run demo_env demo_clock (\<lambda>_ _. 0)) (kds_btree_insert_exec_init (Some demo_brel) 9 (Some (replicate 20 9)) 20) 5000 (demo_tree_with one_key (replicate 20 7))
      = (Inr (Some (KDS_EXEC_DONE, ex')), s') \<and> slot_rows (frame_view (pframes s' 6)) = [replicate 20 7, replicate 20 9]"
proof -
  let ?d = "replicate 20 9 :: u8 list" and ?r = "replicate 20 7 :: u8 list"
  have l: "8 \<le> length ?r" "length ?r \<le> 8102" by simp_all
  note T = demo_tree_heap [OF one_key_facts(1,2) l]
  have c: "kds_btree_data_copy (kds_btree_data_store (\<lambda>_. 0) one_key) = one_key" using one_key_facts(1) by (simp add: node_ok_def)
  have lp: "leaf_slot one_key 9 = 201" by (simp add: leaf_pos_def leaf_slot_def one_key_facts)
  have "row_key ?r \<noteq> 9" unfolding row_key_def by code_simp
  then have k: "9 \<notin> set (page_keys (pframes (demo_tree_with one_key ?r) 6))" using T(5) by (simp add: page_keys_def)
  have "btree_table demo_brel 200 ?d" by (simp add: btree_table_def demo_brel_def)
  then show ?thesis
    using btree_insert_existing_page [OF T(1) _ T(3,4), of demo_brel ?d 9 demo_clock 5000 demo_env "\<lambda>_ _. 0"] T(5,6) k
      demo_clock_time [OF demo_tree_clock(2) [of one_key ?r]] by (auto simp: c lp)
qed

text \<open>The key of the first row of a page is not found in the page it was put into: the slot in front of the key is probed,
  not the one behind it. When that slot is empty, as it is after the first insertion into a table, a second row with
  the same primary key is accepted and the key is entered into the leaf once more.\<close>

theorem btree_duplicate_accepted:
  fixes s :: "'z sched_state_scheme"
  assumes "btree_leaf s root i kp pg" and "btree_table rel root d" and "wal_ready s" and "key \<in> set (node_keys (kds_btree_data_copy pg))"
    and "leaf_slot (kds_btree_data_copy pg) key = 0" and "count_of (kds_btree_data_copy pg) < 4" and "ring_items s = j # js"
    and "\<forall>k \<le> Suc (Suc (clock s)). ktime senv k < ktime senv (clock s) + sl"
  shows "\<exists>ex' s' c'. kds_exec_run senv (kds_btree_insert_exec_run env senv crc) (kds_btree_insert_exec_init (Some rel) key (Some d) (of_nat (length d))) sl s
      = (Inr (Some (KDS_EXEC_DONE, ex')), s') \<and> btree_leaf s' root i kp (kds_btree_data_store pg c') \<and> 2 \<le> count_list (node_keys c') key"
proof -
  let ?c = "kds_btree_data_copy pg"
  have np: "needs_page s i (leaf_slot ?c key) key d" using assms(5) by (simp add: needs_page_def)
  obtain ex' s' q c' where r: "kds_exec_run senv (kds_btree_insert_exec_run env senv crc) (kds_btree_insert_exec_init (Some rel) key (Some d) (of_nat (length d))) sl s
      = (Inr (Some (KDS_EXEC_DONE, ex')), s')" "btree_leaf s' root i kp (kds_btree_data_store pg c')"
    "node_keys c' = take (leaf_pos ?c key) (node_keys ?c) @ key # drop (leaf_pos ?c key) (node_keys ?c)"
    using bi_new_page_result [OF assms(1-3) np assms(6-8), of env crc] by blast
  have "count_list (node_keys c') key = Suc (count_list (take (leaf_pos ?c key) (node_keys ?c)) key + count_list (drop (leaf_pos ?c key) (node_keys ?c)) key)"
    using r(3) by simp
  also have "\<dots> = Suc (count_list (node_keys ?c) key)" by (metis append_take_drop_id count_list_append)
  finally show ?thesis using r(1,2) assms(4) count_list_0_iff [of "node_keys ?c" key] by (intro exI [of _ ex'] exI [of _ s'] exI [of _ c']) auto
qed

theorem btree_duplicate_accepted_witness:
  "\<exists>ex' s' c'. kds_exec_run demo_clock (kds_btree_insert_exec_run demo_env demo_clock (\<lambda>_ _. 0)) (kds_btree_insert_exec_init (Some demo_brel) 7 (Some (replicate 20 7)) 20) 5000 (demo_tree_of one_key)
      = (Inr (Some (KDS_EXEC_DONE, ex')), s') \<and> 2 \<le> count_list (node_keys c') 7 \<and> kds_btree_data_store (kds_btree_data_store (\<lambda>_. 0) one_key) c' = the (fr_page (pframes s' 5))"
proof -
  let ?d = "replicate 20 7 :: u8 list"
  note T = demo_tree_leaf [OF one_key_facts(1,2)]
  have c: "kds_btree_data_copy (kds_btree_data_store (\<lambda>_. 0) one_key) = one_key" using one_key_facts(1) by (simp add: node_ok_def)
  have lp: "leaf_slot one_key 7 = 0" by (simp add: leaf_pos_def leaf_slot_def one_key_facts)
  have "btree_table demo_brel 200 ?d" by (simp add: btree_table_def demo_brel_def)
  then show ?thesis
    using btree_duplicate_accepted [OF T(1) _ T(3), of demo_brel ?d 7 6 "[]" demo_clock 5000 demo_env "\<lambda>_ _. 0"] T(2) demo_clock_time [OF demo_tree_clock(1) [of one_key]]
    by (auto simp: c lp one_key_facts btree_leaf_def)
qed

text \<open>When the insertion needs a page and the allocator has none, it ends with \<^verbatim>\<open>ENOSPC\<close>, but the leaf stays pinned and the
  log already holds the records of the row that was not inserted.\<close>

theorem btree_insert_leaks:
  fixes s :: "'z sched_state_scheme"
  assumes bl: "btree_leaf s root i kp pg" and tb: "btree_table rel root d" and w: "wal_ready s" and np: "needs_page s i (leaf_slot (kds_btree_data_copy pg) key) key d"
    and it: "ring_items s = []" and time: "ktime senv (Suc (clock s)) < ktime senv (clock s) + sl" and mem: "ke_alloc_ok env (nalloc s)"
  shows "\<exists>ex' s'. kds_exec_run senv (kds_btree_insert_exec_run env senv crc) (kds_btree_insert_exec_init (Some rel) key (Some d) (of_nat (length d))) sl s
      = (Inr (Some (KDS_EXEC_ERROR, ex')), s') \<and> ex_ret ex' = Some ENOSPC
    \<and> pframes s' = (pframes s)(i := (pframes s i)\<lparr>fr_kp := Some (pin_kpage kp)\<rparr>)
    \<and> g_wal s' = logged crc (leaf_rec root) (logged crc (row_rec 1 0 0 d) (logged crc (init_rec 1 0) (g_wal s)))"
proof -
  let ?t = "bi_ready env crc i kp root d s"
  note T = bi_ready_facts [OF bl, of env crc d]
  obtain ex where ex: "bi_row ex d" "need_new_page ex" "deadline_ns ex = ktime senv (clock s) + sl"
    "kds_exec_run senv (kds_btree_insert_exec_run env senv crc) (kds_btree_insert_exec_init (Some rel) key (Some d) (of_nat (length d))) sl s = bi_phase_heap_insert env senv ex ?t"
    using bi_new_page [OF bl tb w np, of senv sl env crc] by blast
  let ?u = "?t\<lparr>clock := Suc (clock ?t)\<rparr>"
  have a: "ktime senv (clock ?t) < deadline_ns ex" using T(5) ex(3) time by simp
  have "store_ok ?u" "ring_items ?u = []" using T(1,3) it by simp_all
  then have "insert_into_new_page ex ?u = (Inr (Some (KDS_EXEC_ERROR, ex\<lparr>ex_ret := Some ENOSPC\<rparr>)), ?u)"
    using page_alloc_none [of ?u KDS_PAGE_TYPE_HEAP] by (simp add: insert_into_new_page_def sbind_run exec_error_def sret_def)
  then have r: "bi_phase_heap_insert env senv ex ?t = (Inr (Some (KDS_EXEC_ERROR, ex\<lparr>ex_ret := Some ENOSPC\<rparr>)), ?u)"
    using ex(2) by (simp add: bi_phase_heap_insert_def slice_alive [OF a] btree_insert_run_heap_insert_def then_phase_run(2))
  have "g_wal ?u = logged crc (leaf_rec root) (logged crc (row_rec 1 0 0 d) (logged crc (init_rec 1 0) (g_wal s)))"
    using mem by (simp add: bi_ready_def logged_new_def Let_def log_row_def)
  then show ?thesis using r ex(4) T(4) by (intro exI [of _ "ex\<lparr>ex_ret := Some ENOSPC\<rparr>"] exI [of _ ?u]) simp
qed

theorem btree_insert_leaks_witness:
  "\<exists>ex' s'. kds_exec_run demo_clock (kds_btree_insert_exec_run demo_env demo_clock (\<lambda>_ _. 0)) (kds_btree_insert_exec_init (Some demo_brel) 3 (Some (replicate 20 3)) 20) 5000 (demo_tree_with one_key (replicate 20 7))
      = (Inr (Some (KDS_EXEC_ERROR, ex')), s') \<and> ex_ret ex' = Some ENOSPC \<and> fr_kp (pframes s' 5) = Some (pin_kpage (demo_broot one_key))"
proof -
  let ?d = "replicate 20 3 :: u8 list" and ?r = "replicate 20 7 :: u8 list"
  have l: "8 \<le> length ?r" "length ?r \<le> 8102" by simp_all
  note T = demo_tree_heap [OF one_key_facts(1,2) l]
  have c: "kds_btree_data_copy (kds_btree_data_store (\<lambda>_. 0) one_key) = one_key" using one_key_facts(1) by (simp add: node_ok_def)
  have lp: "leaf_slot one_key 3 = 0" by (simp add: leaf_pos_def leaf_slot_def one_key_facts)
  have t: "ktime demo_clock (Suc (clock (demo_tree_with one_key ?r))) < ktime demo_clock (clock (demo_tree_with one_key ?r)) + 5000"
    using demo_clock_time [OF demo_tree_clock(2) [of one_key ?r]] by simp
  have "btree_table demo_brel 200 ?d" by (simp add: btree_table_def demo_brel_def)
  then show ?thesis
    using btree_insert_leaks [OF T(1) _ T(3), of demo_brel ?d 3 demo_clock 5000 demo_env "\<lambda>_ _. 0"] T(2) t
    by (auto simp: c lp needs_page_def demo_env_def)
qed

end
