(* ===== verification/Kds_Keeps.thy ===== *)
theory Kds_Keeps
  imports Kds_Exec_Btree
begin

text \<open>
  Frame rules. A call of the storage layers, from the block device up to the executors, changes neither the
  scheduler's queues nor the state of the layers above it. \<open>keeps v m\<close> says that the call \<open>m\<close> does not change the part
  \<open>v\<close> of the state, on any path, errors included; \<open>keeps_rules\<close> collects one rule per combinator and one per operation.
\<close>

section \<open>Combinators\<close>

named_theorems keeps_rules

definition keeps :: "('s \<Rightarrow> 'b) \<Rightarrow> ('s, 'a) call \<Rightarrow> bool" where
  "keeps v m \<longleftrightarrow> (\<forall>s. v (snd (m s)) = v s)"

lemma keepsD: "keeps v m \<Longrightarrow> m s = (r, s') \<Longrightarrow> v s' = v s"
  by (metis keeps_def snd_conv)

lemma keeps_basic [keeps_rules]:
  "keeps v (sret x)" "keeps v (sfail e)" "keeps v sget" "keeps v (slift r)"
  by (simp_all add: keeps_def call_defs)

lemma keeps_smod: "(\<And>s. v (g s) = v s) \<Longrightarrow> keeps v (smod g)"
  by (simp add: keeps_def call_defs)

lemma keeps_sbind [keeps_rules]: "keeps v m \<Longrightarrow> (\<And>x. keeps v (f x)) \<Longrightarrow> keeps v (sbind m f)"
  by (auto simp: keeps_def sbind_def split: prod.splits sum.splits) (metis snd_conv)+

lemma keeps_strying [keeps_rules]: "keeps v m \<Longrightarrow> (\<And>x. keeps v (f x)) \<Longrightarrow> keeps v (strying m f)"
  by (auto simp: keeps_def strying_def split: prod.splits) (metis snd_conv)+

lemma keeps_sattempt [keeps_rules]: "keeps v m \<Longrightarrow> (\<And>x. keeps v (f x)) \<Longrightarrow> keeps v (sattempt m f)"
  unfolding sattempt_def by (auto intro!: keeps_rules split: sum.splits failure.splits)

lemma keeps_cases [keeps_rules]:
  "(P \<Longrightarrow> keeps v m) \<Longrightarrow> (\<not> P \<Longrightarrow> keeps v n) \<Longrightarrow> keeps v (if P then m else n)"
  "keeps v (h y) \<Longrightarrow> keeps v (Let y h)"
  "(\<And>a b. keeps v (g a b)) \<Longrightarrow> keeps v (case p of (a, b) \<Rightarrow> g a b)"
  "keeps v m \<Longrightarrow> (\<And>z. keeps v (h' z)) \<Longrightarrow> keeps v (case_option m h' w)"
  "(\<And>z. keeps v (i z)) \<Longrightarrow> (\<And>z. keeps v (j z)) \<Longrightarrow> keeps v (case_sum i j u)"
  "(\<And>z. keeps v (l z)) \<Longrightarrow> keeps v m \<Longrightarrow> keeps v m' \<Longrightarrow> keeps v (case_failure l m m' fl)"
  "keeps v m \<Longrightarrow> (\<And>x xs. keeps v (k x xs)) \<Longrightarrow> keeps v (case_list m k ys)"
  by (simp_all add: Let_def split: prod.splits option.splits sum.splits failure.splits list.splits)

text \<open>The part of the state that the storage layers never touch: the scheduler's queues and whatever extends its state.\<close>

definition outside :: "'z sched_state_scheme \<Rightarrow> (nat \<Rightarrow> kds_runqueue) \<times> (nat \<Rightarrow> kds_proc) \<times> u64 \<times> kds_sched_stats \<times> 'z" where
  "outside s = (kds_runqueues s, procs s, kds_next_pid s, kds_stats s, sched_state.more s)"

lemmas outside_defs = outside_def upd_frame_def kds_buf_return_free_frame_def give_back_def

section \<open>Operations\<close>

lemma keeps_kalloc [keeps_rules]: "keeps outside (kalloc x1)"
  by (auto simp: keeps_def kalloc_def outside_def upd_frame_def Let_def split: option.splits prod.splits list.splits sum.splits)

lemma keeps_submit_write [keeps_rules]: "keeps outside (submit_write x1 x2)"
  by (auto simp: keeps_def submit_write_def outside_def upd_frame_def Let_def split: option.splits prod.splits list.splits sum.splits)

lemma keeps_submit_read [keeps_rules]: "keeps outside (submit_read x1 x2 x3)"
  by (auto simp: keeps_def submit_read_def outside_def upd_frame_def Let_def split: option.splits prod.splits list.splits sum.splits)

lemma keeps_kds_write_extent [keeps_rules]: "keeps outside (kds_write_extent x1 x2 x3)"
  unfolding kds_write_extent_def by (intro keeps_rules)

lemma keeps_kds_read_extent [keeps_rules]: "keeps outside (kds_read_extent x1 x2 x3)"
  unfolding kds_read_extent_def by (intro keeps_rules)

lemma keeps_kds_read_logical_page [keeps_rules]: "keeps outside (kds_read_logical_page x1 x2)"
  unfolding kds_read_logical_page_def by (intro keeps_rules)

lemma keeps_kds_write_logical_page [keeps_rules]: "keeps outside (kds_write_logical_page x1 x2 x3)"
  unfolding kds_write_logical_page_def by (intro keeps_rules)

lemma keeps_kds_buf_take_free_frame [keeps_rules]: "keeps outside kds_buf_take_free_frame"
  by (auto simp: keeps_def kds_buf_take_free_frame_def outside_def upd_frame_def Let_def split: option.splits prod.splits list.splits sum.splits)

lemma keeps_kds_buf_pin [keeps_rules]: "keeps outside (kds_buf_pin x1)"
  by (auto simp: keeps_def kds_buf_pin_def outside_def upd_frame_def Let_def split: option.splits prod.splits list.splits sum.splits)

lemma keeps_kds_buf_unpin [keeps_rules]: "keeps outside (kds_buf_unpin x1)"
  by (auto simp: keeps_def kds_buf_unpin_def outside_def upd_frame_def Let_def split: option.splits prod.splits list.splits sum.splits)

lemma keeps_kds_frame_read_from_disk [keeps_rules]: "keeps outside (kds_frame_read_from_disk x1 x2 x3)"
  unfolding kds_frame_read_from_disk_def by (intro keeps_rules keeps_smod; simp add: outside_defs)

lemma keeps_kds_buf_register_frame [keeps_rules]: "keeps outside (kds_buf_register_frame x1 x2)"
  unfolding kds_buf_register_frame_def by (intro keeps_rules keeps_smod; simp add: outside_defs)

lemma keeps_kds_buf_lookup [keeps_rules]: "keeps outside (kds_buf_lookup x1)"
  unfolding kds_buf_lookup_def by (intro keeps_rules)

lemma keeps_lookup_or_load: "(\<And>s. outside (g s) = outside s) \<Longrightarrow> keeps outside (kds_buf_lookup_or_load env g pid)"
  unfolding kds_buf_lookup_or_load_def by (intro keeps_rules keeps_smod; simp add: outside_defs)

lemma keeps_kds_buf_alloc_new [keeps_rules]: "keeps outside (kds_buf_alloc_new x1 x2)"
  unfolding kds_buf_alloc_new_def by (intro keeps_rules keeps_smod; simp add: outside_defs)

lemma keeps_kds_meta_get_alloc_range [keeps_rules]: "keeps outside kds_meta_get_alloc_range"
  unfolding kds_meta_get_alloc_range_def by (intro keeps_rules)

lemma keeps_set_page_type [keeps_rules]: "keeps outside (set_page_type x1 x2)"
  unfolding set_page_type_def by (intro keeps_rules keeps_smod; simp add: outside_defs)

lemma keeps_kds_page_alloc [keeps_rules]: "keeps outside (kds_page_alloc ty)"
  by (auto simp: keeps_def kds_page_alloc_def ring_pop_def set_page_type_def call_defs outside_def upd_frame_def split: option.splits)

lemma keeps_kds_page_alloc_get_stats [keeps_rules]: "keeps outside kds_page_alloc_get_stats"
  unfolding kds_page_alloc_get_stats_def by (intro keeps_rules)

lemma keeps_the_kp [keeps_rules]: "keeps outside (the_kp x1)"
  unfolding the_kp_def by (intro keeps_rules)

lemma keeps_the_page [keeps_rules]: "keeps outside (the_page x1)"
  unfolding the_page_def by (intro keeps_rules)

lemma keeps_put_kp [keeps_rules]: "keeps outside (put_kp x1 x2)"
  unfolding put_kp_def by (intro keeps_rules keeps_smod; simp add: outside_defs)

lemma keeps_load_btree_node_data [keeps_rules]: "keeps outside (load_btree_node_data x1)"
  unfolding load_btree_node_data_def by (intro keeps_rules)

lemma keeps_load_btree_node [keeps_rules]: "keeps outside (load_btree_node x1)"
  unfolding load_btree_node_def by (intro keeps_rules)

lemma keeps_btree_link_kpage [keeps_rules]: "keeps outside (btree_link_kpage x1 x2)"
  unfolding btree_link_kpage_def by (intro keeps_rules keeps_smod; simp add: outside_defs)

lemma keeps_node_frame [keeps_rules]: "keeps outside (node_frame x1)"
  unfolding node_frame_def by (intro keeps_rules)

lemma keeps_store_btree_node [keeps_rules]: "keeps outside (store_btree_node x1)"
  unfolding store_btree_node_def by (intro keeps_rules)

lemma keeps_set_dirty [keeps_rules]: "keeps outside (set_dirty x1)"
  unfolding set_dirty_def by (intro keeps_rules)

lemma keeps_load_page [keeps_rules]: "keeps outside (load_page env pid)"
  unfolding load_page_def by (rule keeps_lookup_or_load) simp

lemma keeps_unpin_nodes [keeps_rules]: "keeps outside (unpin_nodes nds n)"
  by (induction nds n rule: unpin_nodes.induct) (auto intro!: keeps_rules split: nat.splits)

lemma keeps_btree_cursor_cleanup [keeps_rules]: "keeps outside (btree_cursor_cleanup x1)"
  unfolding btree_cursor_cleanup_def by (intro keeps_rules)

lemma keeps_commit_hdr [keeps_rules]: "keeps outside (commit_hdr x1)"
  unfolding commit_hdr_def by (intro keeps_rules keeps_smod; simp add: outside_defs)

lemma keeps_step: "(\<And>s. v (snd (g s)) = v s) \<Longrightarrow> (\<And>x. keeps v (f x)) \<Longrightarrow> keeps v (sbind sget (\<lambda>s. case g s of (x, s') \<Rightarrow> sbind (smod (\<lambda>_. s')) (\<lambda>_. f x)))"
  by (auto simp: keeps_def call_defs split: prod.splits) (metis snd_conv)

lemma keeps_btree_alloc_new_page [keeps_rules]: "keeps outside (btree_alloc_new_page env ty)"
  unfolding btree_alloc_new_page_def
  by (rule keeps_step) (auto intro!: keeps_rules simp: assign_page_id_def outside_def split: option.splits)

lemma keeps_relink_next [keeps_rules]: "keeps outside (relink_next x1 x2 x3)"
  unfolding relink_next_def by (intro keeps_rules)

lemma keeps_btree_split_node [keeps_rules]: "keeps outside (btree_split_node x1 x2)"
  unfolding btree_split_node_def by (intro keeps_rules)

lemma keeps_grow_root [keeps_rules]: "keeps outside (grow_root x1 x2 x3)"
  unfolding grow_root_def by (intro keeps_rules)

lemma keeps_propagate [keeps_rules]: "keeps outside (propagate env n cur sp)"
  by (induction n arbitrary: cur sp) (auto intro!: keeps_rules)

lemma keeps_btree_propagate_split [keeps_rules]: "keeps outside (btree_propagate_split x1 x2 x3)"
  unfolding btree_propagate_split_def by (intro keeps_rules)

lemma keeps_kds_btree_cursor_insert [keeps_rules]: "keeps outside (kds_btree_cursor_insert x1 x2 x3 x4)"
  unfolding kds_btree_cursor_insert_def by (intro keeps_rules)

lemma keeps_init_kpage [keeps_rules]: "keeps outside (init_kpage x1 x2)"
  unfolding init_kpage_def by (intro keeps_rules)

lemma keeps_btree_init_root_kpage [keeps_rules]: "keeps outside (btree_init_root_kpage x1)"
  unfolding btree_init_root_kpage_def by (intro keeps_rules)

lemma keeps_upd_wal [keeps_rules]: "keeps outside (upd_wal x1)"
  unfolding upd_wal_def by (intro keeps_rules keeps_smod; simp add: outside_defs)

lemma keeps_kds_wal_append [keeps_rules]: "keeps outside (kds_wal_append x1 x2 x3)"
  unfolding kds_wal_append_def by (intro keeps_rules)

lemma keeps_on_frame [keeps_rules]: "keeps outside (on_frame x1 x2)"
  by (auto simp: keeps_def on_frame_def outside_def upd_frame_def Let_def split: option.splits prod.splits list.splits sum.splits)

lemma keeps_then_unpin [keeps_rules]: "keeps outside m \<Longrightarrow> keeps outside (then_unpin i m)"
  unfolding then_unpin_def by (intro keeps_rules; assumption)

lemma keeps_or_unpin [keeps_rules]: "keeps outside m \<Longrightarrow> (\<And>x. keeps outside (f x)) \<Longrightarrow> keeps outside (or_unpin i m f)"
  unfolding or_unpin_def by (intro keeps_rules; assumption)

lemma keeps_insert_row [keeps_rules]: "keeps outside (insert_row x1 x2 x3)"
  unfolding insert_row_def by (intro keeps_rules)

lemma keeps_kds_catalog_insert_object_row [keeps_rules]: "keeps outside (kds_catalog_insert_object_row x1 x2 x3 x4 x5)"
  unfolding kds_catalog_insert_object_row_def by (intro keeps_rules)

lemma keeps_kds_catalog_insert_relation_row [keeps_rules]: "keeps outside (kds_catalog_insert_relation_row x1 x2 x3 x4 x5 x6)"
  unfolding kds_catalog_insert_relation_row_def by (intro keeps_rules)

lemma keeps_insert_sys_column_row [keeps_rules]: "keeps outside (insert_sys_column_row x1 x2 x3 x4 x5 x6 x7 x8)"
  unfolding insert_sys_column_row_def by (intro keeps_rules)

lemma keeps_kds_catalog_generate_user_oid [keeps_rules]: "keeps outside kds_catalog_generate_user_oid"
  unfolding kds_catalog_generate_user_oid_def by (intro keeps_rules keeps_smod; simp add: outside_defs)

lemma keeps_table_root_page [keeps_rules]: "keeps outside (table_root_page x1)"
  unfolding table_root_page_def by (intro keeps_rules)

lemma keeps_insert_columns [keeps_rules]: "keeps outside (insert_columns env root oid sch is)"
  by (induction "is") (auto intro!: keeps_rules)

lemma keeps_kds_catalog_create_table [keeps_rules]: "keeps outside (kds_catalog_create_table x1 x2 x3 x4 x5)"
  unfolding kds_catalog_create_table_def by (intro keeps_rules)

lemma keeps_scan_page [keeps_rules]: "keeps outside (scan_page x1 x2 x3)"
  unfolding scan_page_def by (intro keeps_rules)

lemma keeps_kds_catalog_get_sys_table_row [keeps_rules]: "keeps outside (kds_catalog_get_sys_table_row x1 x2)"
  unfolding kds_catalog_get_sys_table_row_def by (intro keeps_rules)

lemma keeps_kds_catalog_find_table_oid_by_name [keeps_rules]: "keeps outside (kds_catalog_find_table_oid_by_name x1 x2)"
  unfolding kds_catalog_find_table_oid_by_name_def by (intro keeps_rules)

lemma keeps_kds_catalog_build_schema_from_columns [keeps_rules]: "keeps outside (kds_catalog_build_schema_from_columns x1 x2)"
  unfolding kds_catalog_build_schema_from_columns_def by (intro keeps_rules)

lemma keeps_kds_relation_open [keeps_rules]: "keeps outside (kds_relation_open x1 x2)"
  unfolding kds_relation_open_def by (intro keeps_rules)

lemma keeps_ktime_get_ns [keeps_rules]: "keeps outside (ktime_get_ns x1)"
  by (auto simp: keeps_def ktime_get_ns_def outside_def upd_frame_def Let_def split: option.splits prod.splits list.splits sum.splits)

lemma keeps_kds_exec_slice_expired [keeps_rules]: "keeps outside (kds_exec_slice_expired x1 x2)"
  unfolding kds_exec_slice_expired_def by (intro keeps_rules)

lemma keeps_exec_error [keeps_rules]: "keeps v (exec_error ex e)"
  unfolding exec_error_def by (intro keeps_rules)

lemma keeps_then_phase [keeps_rules]: "keeps v m \<Longrightarrow> (\<And>x. keeps v (f x)) \<Longrightarrow> keeps v (then_phase m f)"
  unfolding then_phase_def by (auto intro!: keeps_rules split: option.splits prod.splits kds_exec_result.splits)

lemma keeps_kds_heap_scan_page_for_pk [keeps_rules]: "keeps outside (kds_heap_scan_page_for_pk x1 x2 x3)"
  unfolding kds_heap_scan_page_for_pk_def by (intro keeps_rules)

lemma keeps_dup_scan [keeps_rules]: "keeps outside (heap_insert_run_dup_scan env senv n ex)"
  by (induction n arbitrary: ex) (auto intro!: keeps_rules)

lemma keeps_grow_chain [keeps_rules]: "keeps outside (grow_chain x1 x2)"
  unfolding grow_chain_def by (intro keeps_rules)

lemma keeps_find_tail [keeps_rules]: "keeps outside (heap_insert_run_find_tail env senv n ex)"
  by (induction n arbitrary: ex) (auto intro!: keeps_rules)

lemma keeps_wal_append_logged [keeps_rules]: "keeps outside (wal_append_logged x1 x2 x3)"
  unfolding wal_append_logged_def by (intro keeps_rules)

lemma keeps_heap_insert_run_wal_init_page [keeps_rules]: "keeps outside (heap_insert_run_wal_init_page x1 x2)"
  unfolding heap_insert_run_wal_init_page_def by (intro keeps_rules)

lemma keeps_wal_row [keeps_rules]: "keeps outside (wal_row x1 x2 x3 x4 x5 x6 x7)"
  unfolding wal_row_def by (intro keeps_rules)

lemma keeps_heap_insert_run_wal_insert [keeps_rules]: "keeps outside (heap_insert_run_wal_insert x1 x2 x3)"
  unfolding heap_insert_run_wal_insert_def by (intro keeps_rules)

lemma keeps_hi_phase_done [keeps_rules]: "keeps outside (hi_phase_done x1)"
  unfolding hi_phase_done_def by (intro keeps_rules)

lemma keeps_hi_phase_wal_insert [keeps_rules]: "keeps outside (hi_phase_wal_insert x1 x2 x3)"
  unfolding hi_phase_wal_insert_def by (intro keeps_rules)

lemma keeps_hi_phase_wal_init_page [keeps_rules]: "keeps outside (hi_phase_wal_init_page x1 x2 x3)"
  unfolding hi_phase_wal_init_page_def by (intro keeps_rules)

lemma keeps_hi_phase_find_tail [keeps_rules]: "keeps outside (hi_phase_find_tail x1 x2 x3 x4 x5)"
  unfolding hi_phase_find_tail_def by (intro keeps_rules)

lemma keeps_hi_phase_dup_scan [keeps_rules]: "keeps outside (hi_phase_dup_scan x1 x2 x3 x4 x5 x6)"
  unfolding hi_phase_dup_scan_def by (intro keeps_rules)

lemma keeps_kds_heap_insert_exec_run [keeps_rules]: "keeps outside (kds_heap_insert_exec_run env senv crc n ex)"
  unfolding kds_heap_insert_exec_run_def by (auto intro!: keeps_rules split: kds_heap_insert_phase.splits option.splits)

lemma keeps_bi_cleanup [keeps_rules]: "keeps outside (bi_cleanup x1)"
  unfolding bi_cleanup_def by (intro keeps_rules)

lemma keeps_cleanup_error [keeps_rules]: "keeps outside (cleanup_error x1 x2)"
  unfolding cleanup_error_def by (intro keeps_rules)

lemma keeps_probe_heap_page [keeps_rules]: "keeps outside (probe_heap_page x1 x2 x3)"
  unfolding probe_heap_page_def by (intro keeps_rules)

lemma keeps_probe_leaf [keeps_rules]: "keeps outside (probe_leaf x1 x2 x3 x4)"
  unfolding probe_leaf_def by (intro keeps_rules)

lemma keeps_search_levels [keeps_rules]: "keeps outside (search_levels env senv rel n ex)"
  by (induction n arbitrary: ex) (auto intro!: keeps_rules)

lemma keeps_btree_insert_run_search_and_prepare [keeps_rules]: "keeps outside (btree_insert_run_search_and_prepare x1 x2 x3 x4)"
  unfolding btree_insert_run_search_and_prepare_def by (intro keeps_rules)

lemma keeps_btree_insert_run_wal_init_page [keeps_rules]: "keeps outside (btree_insert_run_wal_init_page x1 x2)"
  unfolding btree_insert_run_wal_init_page_def by (intro keeps_rules)

lemma keeps_btree_insert_run_wal_insert [keeps_rules]: "keeps outside (btree_insert_run_wal_insert x1 x2 x3)"
  unfolding btree_insert_run_wal_insert_def by (intro keeps_rules)

lemma keeps_btree_insert_run_wal_btree [keeps_rules]: "keeps outside (btree_insert_run_wal_btree x1 x2)"
  unfolding btree_insert_run_wal_btree_def by (intro keeps_rules)

lemma keeps_insert_into_new_page [keeps_rules]: "keeps outside (insert_into_new_page x1)"
  unfolding insert_into_new_page_def by (intro keeps_rules)

lemma keeps_insert_into_target [keeps_rules]: "keeps outside (insert_into_target x1 x2)"
  unfolding insert_into_target_def by (intro keeps_rules)

lemma keeps_btree_insert_run_heap_insert [keeps_rules]: "keeps outside (btree_insert_run_heap_insert x1 x2)"
  unfolding btree_insert_run_heap_insert_def by (intro keeps_rules)

lemma keeps_btree_insert_run_btree_insert [keeps_rules]: "keeps outside (btree_insert_run_btree_insert x1 x2)"
  unfolding btree_insert_run_btree_insert_def by (intro keeps_rules)

lemma keeps_bi_phase_done [keeps_rules]: "keeps outside (bi_phase_done x1)"
  unfolding bi_phase_done_def by (intro keeps_rules)

lemma keeps_bi_phase_btree_insert [keeps_rules]: "keeps outside (bi_phase_btree_insert x1 x2 x3)"
  unfolding bi_phase_btree_insert_def by (intro keeps_rules)

lemma keeps_bi_phase_heap_insert [keeps_rules]: "keeps outside (bi_phase_heap_insert x1 x2 x3)"
  unfolding bi_phase_heap_insert_def by (intro keeps_rules)

lemma keeps_bi_phase_wal_btree [keeps_rules]: "keeps outside (bi_phase_wal_btree x1 x2 x3 x4)"
  unfolding bi_phase_wal_btree_def by (intro keeps_rules)

lemma keeps_bi_phase_wal_insert [keeps_rules]: "keeps outside (bi_phase_wal_insert x1 x2 x3 x4)"
  unfolding bi_phase_wal_insert_def by (intro keeps_rules)

lemma keeps_bi_phase_wal_init_page [keeps_rules]: "keeps outside (bi_phase_wal_init_page x1 x2 x3 x4)"
  unfolding bi_phase_wal_init_page_def by (intro keeps_rules)

lemma keeps_bi_phase_search [keeps_rules]: "keeps outside (bi_phase_search x1 x2 x3 x4 x5)"
  unfolding bi_phase_search_def by (intro keeps_rules)

lemma keeps_kds_btree_insert_exec_run [keeps_rules]: "keeps outside (kds_btree_insert_exec_run env senv crc ex)"
  unfolding kds_btree_insert_exec_run_def by (auto intro!: keeps_rules split: kds_btree_insert_phase.splits option.splits)

section \<open>Start and shutdown\<close>

lemma keeps_init_block_device [keeps_rules]: "keeps outside (init_block_device x1)"
  by (auto simp: keeps_def init_block_device_def outside_def split: option.splits)

lemma keeps_kds_buf_pool_init [keeps_rules]: "keeps outside (kds_buf_pool_init x1)"
  unfolding kds_buf_pool_init_def by (intro keeps_rules keeps_smod; simp add: outside_defs)

lemma keeps_init_superblock_and_fsync [keeps_rules]: "keeps outside (init_superblock_and_fsync x1)"
  unfolding init_superblock_and_fsync_def by (intro keeps_rules keeps_smod; simp add: outside_defs)

lemma keeps_kds_superblock_fsync [keeps_rules]: "keeps outside (kds_superblock_fsync x1)"
  unfolding kds_superblock_fsync_def by (intro keeps_rules keeps_smod; simp add: outside_defs)

lemma keeps_kds_load_or_init_superblock [keeps_rules]: "keeps outside (kds_load_or_init_superblock x1)"
  unfolding kds_load_or_init_superblock_def by (intro keeps_rules keeps_smod; simp add: outside_defs)

lemma keeps_kds_init_meta_system [keeps_rules]: "keeps outside (kds_init_meta_system x1)"
  unfolding kds_init_meta_system_def by (intro keeps_rules)

lemma keeps_kds_shutdown_meta_system [keeps_rules]: "keeps outside (kds_shutdown_meta_system x1)"
  unfolding kds_shutdown_meta_system_def by (intro keeps_rules keeps_smod; simp add: outside_defs)

lemma keeps_ring_push [keeps_rules]: "keeps outside (smod (ring_push f))"
  by (rule keeps_smod) (simp add: ring_push_def outside_def)

lemma keeps_batch_loop [keeps_rules]: "keeps outside (batch_loop x1 x2 x3 x4)"
  by (induction x1 x2 x3 x4 rule: batch_loop.induct) (simp only: batch_loop.simps; intro keeps_rules; assumption?)+

lemma keeps_get: "(\<And>s. v (snd (f s s)) = v s) \<Longrightarrow> keeps v (sbind sget f)"
  by (simp add: keeps_def call_defs)

lemma keeps_set: "v s' = v s \<Longrightarrow> keeps v m \<Longrightarrow> v (snd (sbind (smod (\<lambda>_. s')) (\<lambda>_. m) s)) = v s"
  by (simp add: keeps_def call_defs)

lemma snd_sret: "snd (sret x s) = s"
  by (simp add: sret_def)

lemma keeps_alloc_range [keeps_rules]: "keeps outside (smod (kds_meta_set_alloc_range base n))"
  by (rule keeps_smod) (simp add: outside_def kds_meta_set_alloc_range_def split: option.splits)

lemma keeps_kds_batch_alloc [keeps_rules]: "keeps outside (kds_batch_alloc x1 x2 :: ('a sched_state_scheme, nat) call)"
proof -
  have rest: "keeps outside (sbind (batch_loop x1 base js 0) (\<lambda>got. sbind (smod (kds_meta_set_alloc_range base 0)) (\<lambda>_.
      strying (kds_superblock_fsync x1) (\<lambda>r. case r of Inl Panic \<Rightarrow> sfail Panic | _ \<Rightarrow> sret got))) :: ('a sched_state_scheme, nat) call)" for base js
    by (auto intro!: keeps_rules split: sum.splits failure.splits)
  have "outside (snd (alloc_page_id_batch n s)) = outside s" for n and s :: "'a sched_state_scheme"
    by (simp add: alloc_page_id_batch_def outside_def split: option.splits)
  then have st: "outside s1 = outside s" if "alloc_page_id_batch n s = (b, s1)" for n b and s s1 :: "'a sched_state_scheme"
    using that by (metis snd_conv)
  show ?thesis
    unfolding kds_batch_alloc_def Let_def
    by (intro keeps_cases(1) keeps_basic keeps_get) (auto simp: snd_sret split: prod.splits intro!: keeps_set rest intro: st)
qed

lemma keeps_reclaim_loop [keeps_rules]: "keeps outside (reclaim_loop x1 x2 x3)"
  by (induction x2 arbitrary: x3) (auto intro!: keeps_rules keeps_lookup_or_load simp: Let_def)

lemma keeps_kds_reclaim_uninitialized_pages [keeps_rules]: "keeps outside (kds_reclaim_uninitialized_pages x1 x2)"
  unfolding kds_reclaim_uninitialized_pages_def by (intro keeps_rules)

lemma keeps_kds_init_g_alloc [keeps_rules]: "keeps outside (kds_init_g_alloc x1)"
  unfolding kds_init_g_alloc_def by (intro keeps_rules keeps_smod; simp add: outside_defs)

lemma keeps_drain [keeps_rules]: "keeps outside (drain x1 :: ('a sched_state_scheme, unit) call)"
proof (induction x1)
  case (Suc n)
  have "keeps outside (sbind (case frame of None \<Rightarrow> sret () | Some i \<Rightarrow> kds_buf_unpin i) (\<lambda>_. drain n) :: ('a sched_state_scheme, unit) call)" for frame
    by (intro keeps_rules Suc.IH)
  moreover have "outside (snd (ring_pop s)) = outside s" for s :: "'a sched_state_scheme"
    by (simp add: ring_pop_def outside_def)
  ultimately show ?case
    unfolding drain.simps by (auto intro!: keeps_get keeps_set split: prod.splits simp: sret_def) (metis snd_conv)+
qed (simp add: keeps_basic)

lemma keeps_put_page [keeps_rules]: "keeps outside (put_page x1 x2)"
  unfolding put_page_def by (intro keeps_rules keeps_smod; simp add: outside_defs)

lemma keeps_wal_alloc_page [keeps_rules]: "keeps outside (wal_alloc_page x1 x2)"
  unfolding wal_alloc_page_def by (intro keeps_rules)

lemma keeps_wal_pages [keeps_rules]: "keeps outside (smod (kds_meta_set_wal_pages h t))"
  by (rule keeps_smod) (simp add: outside_def kds_meta_set_wal_pages_def)

lemma keeps_kds_wal_init [keeps_rules]: "keeps outside (kds_wal_init x1)"
  unfolding kds_wal_init_def by (intro keeps_rules keeps_smod; simp add: outside_defs)

lemma keeps_kds_catalog_register_sys_object [keeps_rules]: "keeps outside (kds_catalog_register_sys_object x1)"
  unfolding kds_catalog_register_sys_object_def by (intro keeps_rules keeps_smod; simp add: outside_defs)

lemma keeps_register_namespace [keeps_rules]: "keeps outside (register_namespace x1 x2)"
  unfolding register_namespace_def by (intro keeps_rules)

lemma keeps_register_type [keeps_rules]: "keeps outside (register_type x1 x2)"
  unfolding register_type_def by (intro keeps_rules)

lemma keeps_for_each [keeps_rules]: "(\<And>x. keeps v (f x)) \<Longrightarrow> keeps v (for_each f xs)"
  by (induction xs) (auto intro!: keeps_rules)

lemma keeps_or_panic [keeps_rules]: "keeps v m \<Longrightarrow> keeps v (or_panic m)"
  unfolding or_panic_def by (intro keeps_rules; assumption)

lemma keeps_kds_catalog_init_well_known_objects [keeps_rules]: "keeps outside kds_catalog_init_well_known_objects"
  unfolding kds_catalog_init_well_known_objects_def by (intro keeps_rules)

lemma keeps_bootstrap_one_catalog_page [keeps_rules]: "keeps outside (bootstrap_one_catalog_page x1 x2)"
  unfolding bootstrap_one_catalog_page_def by (intro keeps_rules)

lemma keeps_insert_sys_type_row [keeps_rules]: "keeps outside (insert_sys_type_row x1 x2 x3 x4 x5)"
  unfolding insert_sys_type_row_def by (intro keeps_rules)

lemma keeps_kds_catalog_bootstrap [keeps_rules]: "keeps outside (kds_catalog_bootstrap x1 x2)"
  unfolding kds_catalog_bootstrap_def by (intro keeps_rules)

section \<open>The bodies of the background processes\<close>

lemma keeps_the_wal [keeps_rules]: "keeps outside the_wal"
  unfolding the_wal_def by (intro keeps_rules keeps_smod; simp add: outside_defs)

lemma keeps_upd_buf [keeps_rules]: "keeps outside (upd_buf x1)"
  unfolding upd_buf_def by (intro keeps_rules keeps_smod; simp add: outside_defs)

lemma keeps_kds_wal_get_flush_lsn [keeps_rules]: "keeps outside kds_wal_get_flush_lsn"
  unfolding kds_wal_get_flush_lsn_def by (intro keeps_rules keeps_smod; simp add: outside_defs)

lemma keeps_kds_meta_set_wal_checkpoint_lsn [keeps_rules]: "keeps outside (kds_meta_set_wal_checkpoint_lsn x1)"
  unfolding kds_meta_set_wal_checkpoint_lsn_def by (intro keeps_rules keeps_smod; simp add: outside_defs)

lemma keeps_kds_frame_flush [keeps_rules]: "keeps outside (kds_frame_flush x1 x2)"
  unfolding kds_frame_flush_def by (intro keeps_rules keeps_smod; simp add: outside_defs)

lemma keeps_sync_page [keeps_rules]: "keeps outside (sync_page x1 x2 x3)"
  unfolding sync_page_def by (intro keeps_rules keeps_smod; simp add: outside_defs)

lemma keeps_link_old_tail [keeps_rules]: "keeps outside (link_old_tail x1 x2 x3 x4)"
  unfolding link_old_tail_def by (intro keeps_rules keeps_smod; simp add: outside_defs)

lemma keeps_grow_log [keeps_rules]: "keeps outside (grow_log x1 x2)"
  unfolding grow_log_def by (intro keeps_rules keeps_smod; simp add: outside_defs)

lemma keeps_flush_loop [keeps_rules]: "keeps outside (flush_loop env n a b)"
proof (induction n arbitrary: a b)
  case (Suc n)
  show ?case unfolding flush_loop.simps Let_def by (intro keeps_rules Suc.IH)
qed (simp add: keeps_basic)

lemma keeps_kds_wal_flush [keeps_rules]: "keeps outside (kds_wal_flush env (\<lambda>s. s))"
  unfolding kds_wal_flush_def Let_def by (intro keeps_rules keeps_smod; simp add: outside_defs)

lemma keeps_kds_wal_checkpoint [keeps_rules]: "keeps outside (kds_wal_checkpoint env crc lsn)"
  unfolding kds_wal_checkpoint_def by (intro keeps_rules)

lemma keeps_flush_frames [keeps_rules]: "keeps outside (flush_frames env is)"
  by (induction "is") (auto intro!: keeps_rules)

lemma keeps_kds_buf_flush_dirty_frames [keeps_rules]: "keeps outside (kds_buf_flush_dirty_frames env)"
  unfolding kds_buf_flush_dirty_frames_def by (intro keeps_rules)

lemma keeps_kds_wal_checkpointer_proc [keeps_rules]: "keeps outside (kds_wal_checkpointer_proc env crc addr)"
  unfolding kds_wal_checkpointer_proc_def by (intro keeps_rules)

lemma keeps_kds_proc_prealloc [keeps_rules]: "keeps outside (kds_proc_prealloc env)"
  unfolding kds_proc_prealloc_def by (intro keeps_rules)

end
