(* ===== verification/Kds_Parser.thy ===== *)
theory Kds_Parser
  imports Kds_Types
begin

text \<open>
  The SQL subset parser (\<^verbatim>\<open>kernel/kds/parser.c\<close>, \<^verbatim>\<open>include/linux/kds_parser.h\<close>): a lexer with one token of
  look-ahead and one function per grammar rule. A scan position is the rest of the input. A \<^verbatim>\<open>char\<close> buffer of fixed
  size holds the characters before its NUL. An AST struct whose unused members are zero is a datatype with one
  constructor per tag. The out-parameters are the result of a successful call; a failed call returns
  \<^verbatim>\<open>-EINVAL\<close> and leaves the message in the error buffer. The character classes and \<^verbatim>\<open>strcasecmp\<close> are the C
  library's of the kernel (Latin-1).
\<close>

section \<open>Character classes\<close>

definition code :: "char \<Rightarrow> nat" where "code c = of_char c"

definition isspace :: "char \<Rightarrow> bool" where
  "isspace c \<longleftrightarrow> 9 \<le> code c \<and> code c \<le> 13 \<or> code c = 32 \<or> code c = 160"

definition isupper :: "char \<Rightarrow> bool" where
  "isupper c \<longleftrightarrow> 65 \<le> code c \<and> code c \<le> 90 \<or> 192 \<le> code c \<and> code c \<le> 222 \<and> code c \<noteq> 215"

definition islower :: "char \<Rightarrow> bool" where
  "islower c \<longleftrightarrow> 97 \<le> code c \<and> code c \<le> 122 \<or> 223 \<le> code c \<and> code c \<noteq> 247"

definition isalpha :: "char \<Rightarrow> bool" where "isalpha c \<longleftrightarrow> isupper c \<or> islower c"

definition isalnum :: "char \<Rightarrow> bool" where "isalnum c \<longleftrightarrow> isalpha c \<or> is_digit c"

definition tolower :: "char \<Rightarrow> char" where
  "tolower c = (if isupper c then char_of (code c + 32) else c)"

text \<open>\<^verbatim>\<open>strcasecmp(a, b) == 0\<close>\<close>

definition strcaseeq :: "string \<Rightarrow> string \<Rightarrow> bool" where
  "strcaseeq a b \<longleftrightarrow> map tolower a = map tolower b"

section \<open>Tokens\<close>

definition KDS_PARSER_NAME_MAX :: nat where "KDS_PARSER_NAME_MAX = 64"
definition KDS_PARSER_VAL_MAX :: nat where "KDS_PARSER_VAL_MAX = 256"
definition KDS_PARSER_MAX_COLS :: nat where "KDS_PARSER_MAX_COLS = 32"
definition KDS_PARSER_MAX_VALS :: nat where "KDS_PARSER_MAX_VALS = 32"
definition KDS_PARSER_MAX_CONDS :: nat where "KDS_PARSER_MAX_CONDS = 16"

datatype kds_token_type = KDS_TOK_EOF | KDS_TOK_IDENT | KDS_TOK_INT_LIT | KDS_TOK_STR_LIT | KDS_TOK_NULL
  | KDS_TOK_LPAREN | KDS_TOK_RPAREN | KDS_TOK_COMMA | KDS_TOK_SEMICOLON | KDS_TOK_STAR
  | KDS_TOK_EQ | KDS_TOK_NEQ | KDS_TOK_LT | KDS_TOK_LTE | KDS_TOK_GT | KDS_TOK_GTE | KDS_TOK_ERROR

record kds_token =
  tok_type :: kds_token_type
  tok_text :: string
  tok_int :: u64

section \<open>Lexer\<close>

record kds_lexer =
  lex_src :: string
  lex_pos :: string
  lex_peek :: kds_token
  lex_peeked :: bool

definition mk_tok :: "kds_token_type \<Rightarrow> string \<Rightarrow> kds_token" where
  "mk_tok t s = \<lparr>tok_type = t, tok_text = s, tok_int = 0\<rparr>"

definition lexer_init :: "string \<Rightarrow> kds_lexer" where
  "lexer_init sql = \<lparr>lex_src = sql, lex_pos = sql, lex_peek = mk_tok KDS_TOK_EOF [], lex_peeked = False\<rparr>"

definition NEWLINE :: char where "NEWLINE = CHR 0x0A"
definition QUOTE :: char where "QUOTE = CHR 0x27"

definition comment_here :: "string \<Rightarrow> bool" where
  "comment_here t \<longleftrightarrow> take 2 t = ''--''"

lemma comment_shrinks:
  assumes "comment_here (dropWhile isspace s)"
  shows "length (dropWhile (\<lambda>c. c \<noteq> NEWLINE) (dropWhile isspace s)) < length s"
proof -
  obtain r where t: "dropWhile isspace s = CHR ''-'' # CHR ''-'' # r"
    using assms by (cases "dropWhile isspace s"; cases "tl (dropWhile isspace s)") (auto simp: comment_here_def numeral_2_eq_2)
  have "length (dropWhile (\<lambda>c. c \<noteq> NEWLINE) (CHR ''-'' # CHR ''-'' # r)) \<le> length r"
    using length_dropWhile_le [of _ r] by (simp add: NEWLINE_def)
  then show ?thesis using t length_dropWhile_le [of isspace s] by simp
qed

function lexer_skip_ws :: "string \<Rightarrow> string" where
  "lexer_skip_ws s =
     (let t = dropWhile isspace s in
      if comment_here t then lexer_skip_ws (dropWhile (\<lambda>c. c \<noteq> NEWLINE) t) else t)"
  by pat_completeness auto
termination
  by (relation "measure length") (simp_all add: comment_shrinks)

declare lexer_skip_ws.simps [simp del]

text \<open>\<^verbatim>\<open>tok->text\<close> keeps at most \<^verbatim>\<open>KDS_PARSER_VAL_MAX - 1\<close> characters.\<close>

definition tok_copy :: "string \<Rightarrow> string" where
  "tok_copy s = take (KDS_PARSER_VAL_MAX - 1) s"

text \<open>The literal's value, computed from the copied text with 64-bit wrap-around.\<close>

definition int_of_text :: "string \<Rightarrow> u64" where
  "int_of_text txt =
     (let neg = (take 1 txt = ''-''); v = foldl (\<lambda>v c. v * 10 + (of_char c - 48)) 0 (if neg then tl txt else txt)
      in if neg then - v else v)"

definition int_here :: "string \<Rightarrow> bool" where
  "int_here t \<longleftrightarrow> (case t of [] \<Rightarrow> False | c # r \<Rightarrow> is_digit c \<or> c = CHR ''-'' \<and> (case r of [] \<Rightarrow> False | d # _ \<Rightarrow> is_digit d))"

definition ident_char :: "char \<Rightarrow> bool" where "ident_char c \<longleftrightarrow> isalnum c \<or> c = CHR ''_''"

definition ident_start :: "char \<Rightarrow> bool" where "ident_start c \<longleftrightarrow> isalpha c \<or> c = CHR ''_''"

definition lex_string :: "string \<Rightarrow> kds_token \<times> string" where
  "lex_string r = (mk_tok KDS_TOK_STR_LIT (tok_copy (takeWhile (\<lambda>c. c \<noteq> QUOTE) r)),
     (case dropWhile (\<lambda>c. c \<noteq> QUOTE) r of [] \<Rightarrow> [] | _ # q \<Rightarrow> q))"

definition lex_int :: "string \<Rightarrow> kds_token \<times> string" where
  "lex_int t =
     (let sign = (if take 1 t = ''-'' then ''-'' else []); r = drop (length sign) t;
          txt = tok_copy (sign @ takeWhile is_digit r)
      in (\<lparr>tok_type = KDS_TOK_INT_LIT, tok_text = txt, tok_int = int_of_text txt\<rparr>, dropWhile is_digit r))"

definition lex_ident :: "string \<Rightarrow> kds_token \<times> string" where
  "lex_ident t =
     (let txt = tok_copy (takeWhile ident_char t)
      in (mk_tok (if strcaseeq txt ''NULL'' then KDS_TOK_NULL else KDS_TOK_IDENT) txt, dropWhile ident_char t))"

definition char_token :: "char \<Rightarrow> kds_token_type" where
  "char_token c =
     (if c = CHR ''('' then KDS_TOK_LPAREN else if c = CHR '')'' then KDS_TOK_RPAREN
      else if c = CHR '','' then KDS_TOK_COMMA else if c = CHR '';'' then KDS_TOK_SEMICOLON
      else if c = CHR ''*'' then KDS_TOK_STAR else if c = CHR ''='' then KDS_TOK_EQ
      else if c = CHR ''<'' then KDS_TOK_LT else if c = CHR ''>'' then KDS_TOK_GT else KDS_TOK_ERROR)"

text \<open>One token from the start of the input, after white space and comments.\<close>

definition lexer_read :: "string \<Rightarrow> kds_token \<times> string" where
  "lexer_read s =
     (case lexer_skip_ws s of
        [] \<Rightarrow> (mk_tok KDS_TOK_EOF [], [])
      | c # r \<Rightarrow>
          if c = QUOTE then lex_string r
          else if int_here (c # r) then lex_int (c # r)
          else if ident_start c then lex_ident (c # r)
          else if take 2 (c # r) = ''!='' then (mk_tok KDS_TOK_NEQ ''!='', drop 1 r)
          else if take 2 (c # r) = ''<='' then (mk_tok KDS_TOK_LTE ''<='', drop 1 r)
          else if take 2 (c # r) = ''>='' then (mk_tok KDS_TOK_GTE ''>='', drop 1 r)
          else (mk_tok (char_token c) [c], r))"

section \<open>Parser state\<close>

record kds_parser =
  p_lex :: kds_lexer
  p_err_buf :: "string option"
  p_err_size :: nat

definition lexer_peek :: "(kds_parser, kds_token) call" where
  "lexer_peek = (\<lambda>p. let l = p_lex p in
     if lex_peeked l then (Inr (lex_peek l), p)
     else case lexer_read (lex_pos l) of (tok, r) \<Rightarrow>
       (Inr tok, p\<lparr>p_lex := l\<lparr>lex_pos := r, lex_peek := tok, lex_peeked := True\<rparr>\<rparr>))"

definition lexer_next :: "(kds_parser, kds_token) call" where
  "lexer_next = (\<lambda>p. let l = p_lex p in
     if lex_peeked l then (Inr (lex_peek l), p\<lparr>p_lex := l\<lparr>lex_peeked := False\<rparr>\<rparr>)
     else case lexer_read (lex_pos l) of (tok, r) \<Rightarrow> (Inr tok, p\<lparr>p_lex := l\<lparr>lex_pos := r\<rparr>\<rparr>))"

definition parser_init :: "string \<Rightarrow> string option \<Rightarrow> nat \<Rightarrow> kds_parser" where
  "parser_init sql err_buf err_buf_size = \<lparr>p_lex = lexer_init sql, p_err_buf = err_buf, p_err_size = err_buf_size\<rparr>"

definition parser_err :: "string \<Rightarrow> kds_parser \<Rightarrow> kds_parser" where
  "parser_err msg p = (case p_err_buf p of None \<Rightarrow> p
     | Some m \<Rightarrow> if p_err_size p = 0 then p else if m \<noteq> [] then p
                 else p\<lparr>p_err_buf := Some (scnprintf (p_err_size p) msg)\<rparr>)"

text \<open>Record the message and return \<^verbatim>\<open>-EINVAL\<close>.\<close>

definition syntax_error :: "string \<Rightarrow> (kds_parser, 'a) call" where
  "syntax_error msg = sbind (smod (parser_err msg)) (\<lambda>_. sfail (Errno EINVAL))"

definition quoted :: "string \<Rightarrow> string" where "quoted s = QUOTE # s @ [QUOTE]"

definition got_text :: "kds_token \<Rightarrow> string" where
  "got_text tok = quoted (if tok_type tok = KDS_TOK_EOF then ''<end of input>'' else tok_text tok)"

section \<open>Helpers\<close>

definition expect_keyword :: "string \<Rightarrow> (kds_parser, unit) call" where
  "expect_keyword keyword = sbind lexer_next (\<lambda>tok.
     if tok_type tok \<noteq> KDS_TOK_IDENT \<or> \<not> strcaseeq (tok_text tok) keyword
     then syntax_error (''expected '' @ quoted keyword @ '', got '' @ got_text tok) else sret ())"

definition expect_token :: "kds_token_type \<Rightarrow> string \<Rightarrow> (kds_parser, unit) call" where
  "expect_token type desc = sbind lexer_next (\<lambda>tok.
     if tok_type tok \<noteq> type then syntax_error (''expected '' @ desc @ '', got '' @ got_text tok) else sret ())"

definition parse_ident :: "(kds_parser, string) call" where
  "parse_ident = sbind lexer_next (\<lambda>tok.
     if tok_type tok \<noteq> KDS_TOK_IDENT then syntax_error (''expected identifier, got '' @ got_text tok)
     else sret (take (KDS_PARSER_NAME_MAX - 1) (tok_text tok)))"

definition consume_optional_semicolon :: "(kds_parser, unit) call" where
  "consume_optional_semicolon = sbind lexer_peek (\<lambda>tok.
     if tok_type tok = KDS_TOK_SEMICOLON then sbind lexer_next (\<lambda>_. sret ()) else sret ())"

section \<open>Values and operators\<close>

datatype kds_ast_val = KDS_VAL_INT u64 | KDS_VAL_STR string | KDS_VAL_NULL

datatype kds_cond_op = KDS_OP_EQ | KDS_OP_NEQ | KDS_OP_LT | KDS_OP_LTE | KDS_OP_GT | KDS_OP_GTE

definition parse_value :: "(kds_parser, kds_ast_val) call" where
  "parse_value = sbind lexer_next (\<lambda>tok.
     case tok_type tok of
       KDS_TOK_INT_LIT \<Rightarrow> sret (KDS_VAL_INT (tok_int tok))
     | KDS_TOK_STR_LIT \<Rightarrow> sret (KDS_VAL_STR (take (KDS_PARSER_VAL_MAX - 1) (tok_text tok)))
     | KDS_TOK_NULL \<Rightarrow> sret KDS_VAL_NULL
     | _ \<Rightarrow> syntax_error (''expected value (integer, '' @ quoted ''string'' @ '', or NULL), got '' @ got_text tok))"

definition parse_cond_op :: "(kds_parser, kds_cond_op) call" where
  "parse_cond_op = sbind lexer_next (\<lambda>tok.
     case tok_type tok of
       KDS_TOK_EQ \<Rightarrow> sret KDS_OP_EQ | KDS_TOK_NEQ \<Rightarrow> sret KDS_OP_NEQ | KDS_TOK_LT \<Rightarrow> sret KDS_OP_LT
     | KDS_TOK_LTE \<Rightarrow> sret KDS_OP_LTE | KDS_TOK_GT \<Rightarrow> sret KDS_OP_GT | KDS_TOK_GTE \<Rightarrow> sret KDS_OP_GTE
     | _ \<Rightarrow> syntax_error (''expected comparison operator (=, !=, <, <=, >, >=), got '' @ got_text tok))"

section \<open>Statements\<close>

datatype kds_clustered_type = KDS_CLUSTERED_HEAP | KDS_CLUSTERED_BTREE

record kds_ast_col_def =
  cd_name :: string
  cd_type_val :: kds_type_val
  cd_len :: nat

record kds_ast_cond =
  co_col_name :: string
  co_op :: kds_cond_op
  co_val :: kds_ast_val

record kds_stmt_create_table =
  ct_table_name :: string
  ct_cols :: "kds_ast_col_def list"
  ct_clustered :: kds_clustered_type

record kds_stmt_insert =
  in_table_name :: string
  in_values :: "kds_ast_val list"

record kds_stmt_select =
  se_table_name :: string
  se_has_where :: bool
  se_conds :: "kds_ast_cond list"

datatype kds_stmt = KDS_STMT_CREATE_TABLE kds_stmt_create_table | KDS_STMT_INSERT kds_stmt_insert
  | KDS_STMT_SELECT kds_stmt_select | KDS_STMT_SHOW_META | KDS_STMT_SHOW_ALLOC

definition parse_col_def :: "(string \<Rightarrow> int res) \<Rightarrow> (kds_parser, kds_ast_col_def) call" where
  "parse_col_def kstrtoll =
     sbind parse_ident (\<lambda>name.
     sbind parse_ident (\<lambda>tname.
     case kds_type_lookup_by_name kstrtoll tname of
       None \<Rightarrow> syntax_error (''unknown column type '' @ quoted tname)
     | Some d \<Rightarrow> sret \<lparr>cd_name = name, cd_type_val = type_val d, cd_len = fixed_len d\<rparr>))"

text \<open>The list loops: \<open>n\<close> is how many more elements the array has room for.\<close>

fun parse_cols :: "(string \<Rightarrow> int res) \<Rightarrow> nat \<Rightarrow> (kds_parser, kds_ast_col_def list) call" where
  "parse_cols k 0 = syntax_error (''too many columns (max '' @ show_nat KDS_PARSER_MAX_COLS @ '')'')"
| "parse_cols k (Suc n) =
     sbind (parse_col_def k) (\<lambda>col.
     sbind lexer_peek (\<lambda>tok.
     if tok_type tok = KDS_TOK_COMMA
     then sbind lexer_next (\<lambda>_. sbind (parse_cols k n) (\<lambda>cols. sret (col # cols)))
     else sret [col]))"

definition parse_storage :: "(kds_parser, kds_clustered_type) call" where
  "parse_storage = sbind lexer_peek (\<lambda>tok.
     if tok_type tok = KDS_TOK_IDENT \<and> strcaseeq (tok_text tok) ''HEAP''
     then sbind lexer_next (\<lambda>_. sret KDS_CLUSTERED_HEAP)
     else if tok_type tok = KDS_TOK_IDENT \<and> strcaseeq (tok_text tok) ''BTREE''
     then sbind lexer_next (\<lambda>_. sret KDS_CLUSTERED_BTREE)
     else sret KDS_CLUSTERED_HEAP)"

definition parse_create_table :: "(string \<Rightarrow> int res) \<Rightarrow> (kds_parser, kds_stmt_create_table) call" where
  "parse_create_table k =
     sbind (expect_keyword ''TABLE'') (\<lambda>_.
     sbind parse_ident (\<lambda>name.
     sbind (expect_token KDS_TOK_LPAREN (quoted ''('')) (\<lambda>_.
     sbind (parse_cols k KDS_PARSER_MAX_COLS) (\<lambda>cols.
     sbind (expect_token KDS_TOK_RPAREN (quoted '')'')) (\<lambda>_.
     if cols = [] then syntax_error ''CREATE TABLE requires at least one column''
     else sbind parse_storage (\<lambda>clustered.
     sbind consume_optional_semicolon (\<lambda>_.
     sret \<lparr>ct_table_name = name, ct_cols = cols, ct_clustered = clustered\<rparr>)))))))"

fun parse_values :: "nat \<Rightarrow> (kds_parser, kds_ast_val list) call" where
  "parse_values 0 = syntax_error (''too many values (max '' @ show_nat KDS_PARSER_MAX_VALS @ '')'')"
| "parse_values (Suc n) =
     sbind parse_value (\<lambda>v.
     sbind lexer_peek (\<lambda>tok.
     if tok_type tok = KDS_TOK_COMMA
     then sbind lexer_next (\<lambda>_. sbind (parse_values n) (\<lambda>vs. sret (v # vs)))
     else sret [v]))"

definition parse_insert :: "(kds_parser, kds_stmt_insert) call" where
  "parse_insert =
     sbind (expect_keyword ''INTO'') (\<lambda>_.
     sbind parse_ident (\<lambda>name.
     sbind (expect_keyword ''VALUES'') (\<lambda>_.
     sbind (expect_token KDS_TOK_LPAREN (quoted ''('')) (\<lambda>_.
     sbind (parse_values KDS_PARSER_MAX_VALS) (\<lambda>vs.
     sbind (expect_token KDS_TOK_RPAREN (quoted '')'')) (\<lambda>_.
     if vs = [] then syntax_error ''INSERT VALUES requires at least one value''
     else sbind consume_optional_semicolon (\<lambda>_.
     sret \<lparr>in_table_name = name, in_values = vs\<rparr>)))))))"

definition parse_one_cond :: "(kds_parser, kds_ast_cond) call" where
  "parse_one_cond =
     sbind parse_ident (\<lambda>col. sbind parse_cond_op (\<lambda>op. sbind parse_value (\<lambda>v.
     sret \<lparr>co_col_name = col, co_op = op, co_val = v\<rparr>)))"

fun parse_conds :: "nat \<Rightarrow> (kds_parser, kds_ast_cond list) call" where
  "parse_conds 0 = syntax_error (''too many WHERE conditions (max '' @ show_nat KDS_PARSER_MAX_CONDS @ '')'')"
| "parse_conds (Suc n) =
     sbind parse_one_cond (\<lambda>c.
     sbind lexer_peek (\<lambda>tok.
     if tok_type tok = KDS_TOK_IDENT \<and> strcaseeq (tok_text tok) ''AND''
     then sbind lexer_next (\<lambda>_. sbind (parse_conds n) (\<lambda>cs. sret (c # cs)))
     else sret [c]))"

definition parse_select :: "(kds_parser, kds_stmt_select) call" where
  "parse_select =
     sbind lexer_next (\<lambda>tok.
     if tok_type tok \<noteq> KDS_TOK_STAR then syntax_error (''only SELECT * is supported, got '' @ quoted (tok_text tok))
     else
       sbind (expect_keyword ''FROM'') (\<lambda>_.
       sbind parse_ident (\<lambda>name.
       sbind lexer_peek (\<lambda>tok.
       sbind (if tok_type tok = KDS_TOK_IDENT \<and> strcaseeq (tok_text tok) ''WHERE''
              then sbind lexer_next (\<lambda>_. sbind (parse_conds KDS_PARSER_MAX_CONDS) (\<lambda>cs. sret (True, cs)))
              else sret (False, [])) (\<lambda>(has_where, conds).
       sbind consume_optional_semicolon (\<lambda>_.
       sret \<lparr>se_table_name = name, se_has_where = has_where, se_conds = conds\<rparr>))))))"

definition parse_show :: "(kds_parser, kds_stmt) call" where
  "parse_show =
     sbind lexer_next (\<lambda>tok.
     if tok_type tok \<noteq> KDS_TOK_IDENT then syntax_error (''expected META or ALLOC after SHOW, got '' @ quoted (tok_text tok))
     else if strcaseeq (tok_text tok) ''META'' then sbind consume_optional_semicolon (\<lambda>_. sret KDS_STMT_SHOW_META)
     else if strcaseeq (tok_text tok) ''ALLOC'' then sbind consume_optional_semicolon (\<lambda>_. sret KDS_STMT_SHOW_ALLOC)
     else syntax_error (''unknown SHOW target '' @ quoted (tok_text tok) @ '' (expected META or ALLOC)''))"

section \<open>Entry point\<close>

definition parse_stmt :: "(string \<Rightarrow> int res) \<Rightarrow> (kds_parser, kds_stmt) call" where
  "parse_stmt k =
     sbind lexer_next (\<lambda>tok.
     if tok_type tok = KDS_TOK_EOF then syntax_error ''empty statement''
     else if tok_type tok \<noteq> KDS_TOK_IDENT then syntax_error (''expected SQL keyword, got '' @ quoted (tok_text tok))
     else sbind (
       if strcaseeq (tok_text tok) ''CREATE'' then sbind (parse_create_table k) (\<lambda>c. sret (KDS_STMT_CREATE_TABLE c))
       else if strcaseeq (tok_text tok) ''INSERT'' then sbind parse_insert (\<lambda>i. sret (KDS_STMT_INSERT i))
       else if strcaseeq (tok_text tok) ''SELECT'' then sbind parse_select (\<lambda>q. sret (KDS_STMT_SELECT q))
       else if strcaseeq (tok_text tok) ''SHOW'' then parse_show
       else syntax_error (''unknown SQL keyword '' @ quoted (tok_text tok) @ '' (supported: CREATE, INSERT, SELECT, SHOW)'')) (\<lambda>stmt.
     sbind lexer_peek (\<lambda>tail.
     if tok_type tail \<noteq> KDS_TOK_EOF
     then syntax_error (''unexpected token '' @ quoted (tok_text tail) @ '' after end of statement'')
     else sret stmt)))"

text \<open>The result with the final contents of the error buffer. \<open>None\<close> stands for a null pointer; the input ends at its NUL.\<close>

definition kds_parse :: "(string \<Rightarrow> int res) \<Rightarrow> string option \<Rightarrow> string option \<Rightarrow> nat \<Rightarrow> kds_stmt res \<times> string option" where
  "kds_parse k sql err_buf err_buf_size =
     (case sql of None \<Rightarrow> (fails EINVAL, err_buf)
      | Some s \<Rightarrow>
          let eb = (case err_buf of None \<Rightarrow> None | Some m \<Rightarrow> Some (if 0 < err_buf_size then [] else m)) in
          case parse_stmt k (parser_init (takeWhile (\<lambda>c. c \<noteq> CHR 0x00) s) eb err_buf_size) of
            (r, p) \<Rightarrow> (r, p_err_buf p))"

fun kds_stmt_type_name :: "kds_stmt \<Rightarrow> string" where
  "kds_stmt_type_name (KDS_STMT_CREATE_TABLE _) = ''CREATE TABLE''"
| "kds_stmt_type_name (KDS_STMT_INSERT _) = ''INSERT''"
| "kds_stmt_type_name (KDS_STMT_SELECT _) = ''SELECT''"
| "kds_stmt_type_name KDS_STMT_SHOW_META = ''SHOW META''"
| "kds_stmt_type_name KDS_STMT_SHOW_ALLOC = ''SHOW ALLOC''"

fun kds_cond_op_name :: "kds_cond_op \<Rightarrow> string" where
  "kds_cond_op_name KDS_OP_EQ = ''=''"
| "kds_cond_op_name KDS_OP_NEQ = ''!=''"
| "kds_cond_op_name KDS_OP_LT = ''<''"
| "kds_cond_op_name KDS_OP_LTE = ''<=''"
| "kds_cond_op_name KDS_OP_GT = ''>''"
| "kds_cond_op_name KDS_OP_GTE = ''>=''"

section \<open>What the lexer delivers\<close>

text \<open>\<open>lex_toks ts s\<close>: reading \<open>s\<close> gives the tokens \<open>ts\<close> and then the end of input.\<close>

fun lex_toks :: "kds_token list \<Rightarrow> string \<Rightarrow> bool" where
  "lex_toks [] s \<longleftrightarrow> tok_type (fst (lexer_read s)) = KDS_TOK_EOF"
| "lex_toks (t # ts) s \<longleftrightarrow> fst (lexer_read s) = t \<and> lex_toks ts (snd (lexer_read s))"

text \<open>The same for a parser, which may hold a token it has peeked at.\<close>

definition feeds :: "kds_token list \<Rightarrow> kds_parser \<Rightarrow> bool" where
  "feeds ts p \<longleftrightarrow> (let l = p_lex p in
     if lex_peeked l
     then (case ts of [] \<Rightarrow> tok_type (lex_peek l) = KDS_TOK_EOF | t # ts' \<Rightarrow> lex_peek l = t \<and> lex_toks ts' (lex_pos l))
     else lex_toks ts (lex_pos l))"

definition runs :: "(kds_parser, 'a) call \<Rightarrow> kds_token list \<Rightarrow> 'a \<Rightarrow> kds_token list \<Rightarrow> bool" where
  "runs m ts x ts' \<longleftrightarrow> (\<forall>p. feeds ts p \<longrightarrow> (\<exists>p'. m p = (Inr x, p') \<and> feeds ts' p' \<and> p_err_buf p' = p_err_buf p))"

named_theorems runs_intros

lemma runs_sret [runs_intros]: "runs (sret x) ts x ts"
  by (simp add: runs_def sret_def)

lemma runs_bind [runs_intros]: "runs m ts x ts1 \<Longrightarrow> runs (f x) ts1 y ts2 \<Longrightarrow> runs (sbind m f) ts y ts2"
  unfolding runs_def sbind_def by fastforce

lemma runs_next [runs_intros]: "runs lexer_next (t # ts) t ts"
  by (auto simp: runs_def lexer_next_def feeds_def Let_def split: prod.splits)

lemma runs_peek [runs_intros]: "runs lexer_peek (t # ts) t (t # ts)"
  unfolding runs_def
proof (intro allI impI)
  fix p assume f: "feeds (t # ts) p"
  show "\<exists>p'. lexer_peek p = (Inr t, p') \<and> feeds (t # ts) p' \<and> p_err_buf p' = p_err_buf p"
  proof (cases "lex_peeked (p_lex p)")
    case True
    then show ?thesis using f by (simp add: lexer_peek_def feeds_def Let_def)
  next
    case False
    obtain tok r where l: "lexer_read (lex_pos (p_lex p)) = (tok, r)" by fastforce
    then show ?thesis using f False by (simp add: lexer_peek_def feeds_def Let_def)
  qed
qed

lemma peek_end:
  assumes "feeds [] p"
  shows "\<exists>t p'. lexer_peek p = (Inr t, p') \<and> tok_type t = KDS_TOK_EOF \<and> p_err_buf p' = p_err_buf p"
  using assms by (auto simp: lexer_peek_def feeds_def Let_def split: prod.splits)

section \<open>Words\<close>

lemma space_is_space [simp]: "isspace (CHR '' '')"
  by (simp add: isspace_def code_def)

lemma skip_space [simp]: "lexer_skip_ws (CHR '' '' # s) = lexer_skip_ws s"
  by (subst lexer_skip_ws.simps, subst (2) lexer_skip_ws.simps) simp

lemma read_space [simp]: "lexer_read (CHR '' '' # s) = lexer_read s"
  by (simp add: lexer_read_def)

lemma lex_toks_space [simp]: "lex_toks ts (CHR '' '' # s) = lex_toks ts s"
  by (cases ts) simp_all

definition lexes :: "string \<Rightarrow> kds_token \<Rightarrow> bool" where
  "lexes w t \<longleftrightarrow> (\<forall>rest. lexer_read (w @ CHR '' '' # rest) = (t, CHR '' '' # rest))"

fun spaced :: "string list \<Rightarrow> string" where
  "spaced [] = []"
| "spaced (w # ws) = w @ CHR '' '' # spaced ws"

lemma read_nil [simp]: "lexer_read [] = (mk_tok KDS_TOK_EOF [], [])"
  by (simp add: lexer_read_def lexer_skip_ws.simps comment_here_def)

lemma tok_of_mk [simp]: "tok_type (mk_tok t s) = t" "tok_text (mk_tok t s) = s"
  by (simp_all add: mk_tok_def)

lemma spaced_lexes: "list_all2 lexes ws ts \<Longrightarrow> lex_toks ts (spaced ws)"
  by (induction ws ts rule: list_all2_induct) (auto simp: lexes_def)

lemma skip_none: "\<not> isspace c \<Longrightarrow> \<not> comment_here (c # s) \<Longrightarrow> lexer_skip_ws (c # s) = c # s"
  by (simp add: lexer_skip_ws.simps)

text \<open>Punctuation and operators.\<close>

lemma lexes_punct:
  "lexes ''('' (mk_tok KDS_TOK_LPAREN ''('')" "lexes '')'' (mk_tok KDS_TOK_RPAREN '')'')"
  "lexes '','' (mk_tok KDS_TOK_COMMA '','')" "lexes '';'' (mk_tok KDS_TOK_SEMICOLON '';'')"
  "lexes ''*'' (mk_tok KDS_TOK_STAR ''*'')"
  "lexes ''='' (mk_tok KDS_TOK_EQ ''='')" "lexes ''!='' (mk_tok KDS_TOK_NEQ ''!='')"
  "lexes ''<'' (mk_tok KDS_TOK_LT ''<'')" "lexes ''<='' (mk_tok KDS_TOK_LTE ''<='')"
  "lexes ''>'' (mk_tok KDS_TOK_GT ''>'')" "lexes ''>='' (mk_tok KDS_TOK_GTE ''>='')"
  by (simp_all add: lexes_def lexer_read_def skip_none isspace_def code_def comment_here_def QUOTE_def int_here_def is_digit_def
      ident_start_def isalpha_def isupper_def islower_def char_token_def)

text \<open>Identifiers.\<close>

definition id_ok :: "string \<Rightarrow> bool" where
  "id_ok n \<longleftrightarrow> (case n of [] \<Rightarrow> False | c # _ \<Rightarrow> ident_start c) \<and> list_all ident_char n \<and> length n < KDS_PARSER_NAME_MAX
     \<and> \<not> strcaseeq n ''NULL''"

lemma char_classes:
  "ident_start c \<Longrightarrow> \<not> isspace c \<and> c \<noteq> QUOTE \<and> \<not> is_digit c \<and> c \<noteq> CHR ''-'' \<and> ident_char c"
  "is_digit c \<Longrightarrow> \<not> isspace c \<and> c \<noteq> QUOTE \<and> c \<noteq> CHR ''-''"
  by (auto simp: ident_start_def isalpha_def isupper_def islower_def isspace_def code_def is_digit_def QUOTE_def ident_char_def isalnum_def)

lemma not_ident_space [simp]: "\<not> ident_char (CHR '' '')" "\<not> is_digit (CHR '' '')"
  by (simp_all add: ident_char_def isalnum_def isalpha_def isupper_def islower_def code_def is_digit_def)

lemma takeWhile_word: "list_all P w \<Longrightarrow> \<not> P c \<Longrightarrow> takeWhile P (w @ c # r) = w \<and> dropWhile P (w @ c # r) = c # r"
  by (induction w) auto

lemma lexes_word:
  assumes c: "ident_start c" and w: "list_all ident_char (c # w)" and l: "length (c # w) < KDS_PARSER_VAL_MAX"
  shows "lexes (c # w) (mk_tok (if strcaseeq (c # w) ''NULL'' then KDS_TOK_NULL else KDS_TOK_IDENT) (c # w))"
proof -
  have n: "\<not> isspace c" "c \<noteq> QUOTE" "\<not> is_digit c" "c \<noteq> CHR ''-''" using char_classes(1) [OF c] by auto
  have "\<not> comment_here (c # w @ CHR '' '' # r)" "\<not> int_here (c # w @ CHR '' '' # r)" for r
    using n by (simp_all add: comment_here_def int_here_def)
  then show ?thesis
    using n c l takeWhile_word [OF w not_ident_space(1)]
    by (simp add: lexes_def lexer_read_def skip_none lex_ident_def tok_copy_def)
qed

lemma lexes_ident: "id_ok n \<Longrightarrow> lexes n (mk_tok KDS_TOK_IDENT n)"
  using lexes_word [of "hd n" "tl n"] by (cases n) (auto simp: id_ok_def KDS_PARSER_NAME_MAX_def KDS_PARSER_VAL_MAX_def)

text \<open>String literals.\<close>

definition str_ok :: "string \<Rightarrow> bool" where
  "str_ok s \<longleftrightarrow> QUOTE \<notin> set s \<and> CHR 0x00 \<notin> set s \<and> length s < KDS_PARSER_VAL_MAX"

lemma lexes_string:
  assumes "str_ok s"
  shows "lexes (QUOTE # s @ [QUOTE]) (mk_tok KDS_TOK_STR_LIT s)"
proof -
  have "list_all (\<lambda>c. c \<noteq> QUOTE) s" using assms by (auto simp: str_ok_def list_all_iff)
  then have "takeWhile (\<lambda>c. c \<noteq> QUOTE) (s @ QUOTE # r) = s" "dropWhile (\<lambda>c. c \<noteq> QUOTE) (s @ QUOTE # r) = QUOTE # r" for r
    using takeWhile_word [of "\<lambda>c. c \<noteq> QUOTE" s QUOTE r] by auto
  moreover have "\<not> isspace QUOTE" "\<not> comment_here (QUOTE # r)" for r
    by (simp_all add: isspace_def code_def QUOTE_def comment_here_def)
  ultimately show ?thesis
    using assms by (simp add: lexes_def lexer_read_def skip_none lex_string_def tok_copy_def str_ok_def KDS_PARSER_VAL_MAX_def)
qed


text \<open>Integer literals.\<close>

definition int_tok :: "u64 \<Rightarrow> kds_token" where
  "int_tok v = \<lparr>tok_type = KDS_TOK_INT_LIT, tok_text = show_int (sint v), tok_int = v\<rparr>"

lemma digit_word: "is_digit c \<Longrightarrow> (of_char c - 48 :: u64) = of_nat (digit_val c)"
  by (simp add: is_digit_def digit_val_def of_nat_diff of_nat_of_char)

lemma foldl_digits: "list_all is_digit s \<Longrightarrow> foldl (\<lambda>v c. v * 10 + (of_char c - 48)) a s = foldl push_digit a s"
  by (induction s arbitrary: a) (simp_all add: digit_word)

lemma digits_value: "foldl (\<lambda>v c. v * 10 + (of_char c - 48)) (0 :: u64) (show_nat n) = of_nat n"
  using foldl_digits [OF show_nat_digits, of 0 n] foldl_show_nat [of n] by simp

lemma digits_not_sign: "take 1 (show_nat n) \<noteq> ''-''"
  using show_nat_head [of n] sign_not_digit(1) by (cases "show_nat n") auto

lemma int_of_show: "int_of_text (show_int x) = word_of_int x"
proof (cases "x < 0")
  case True
  then have "int_of_text (show_int x) = - of_nat (nat (- x))" by (simp add: int_of_text_def show_int_def digits_value)
  also have "\<dots> = word_of_int x" using True by simp
  finally show ?thesis .
next
  case False
  then show ?thesis using digits_not_sign [of "nat x"] by (simp add: int_of_text_def show_int_def digits_value Let_def)
qed

lemma length_show_int:
  assumes "- (2 ^ 63) \<le> x" and "x < 2 ^ 63"
  shows "length (show_int x) \<le> 20"
proof -
  have "nat x < 10 ^ 19" "nat (- x) < 10 ^ 19" using assms by auto
  then show ?thesis using length_show_nat [of "nat x" 19] length_show_nat [of "nat (- x)" 19] by (simp add: show_int_def)
qed

lemma lexes_int: "lexes (show_int (sint v)) (int_tok v)"
proof -
  let ?x = "sint v"
  have len: "length (show_int ?x) \<le> 20" using sint_bounds64 [of v] by (intro length_show_int) simp_all
  then have cp: "tok_copy (show_int ?x) = show_int ?x" by (simp add: tok_copy_def KDS_PARSER_VAL_MAX_def)
  have val: "int_of_text (show_int ?x) = v" by (simp add: int_of_show)
  obtain d ds where d: "show_nat (nat \<bar>?x\<bar>) = d # ds" "is_digit d"
    using show_nat_head [of "nat \<bar>?x\<bar>"] by (cases "show_nat (nat \<bar>?x\<bar>)") auto
  have ds: "list_all is_digit (d # ds)" using show_nat_digits [of "nat \<bar>?x\<bar>"] d by simp
  note tw = takeWhile_word [OF ds not_ident_space(2)]
  show ?thesis
  proof (cases "?x < 0")
    case True
    then have w: "show_int ?x = CHR ''-'' # d # ds" using d by (simp add: show_int_def)
    have "lexer_read (show_int ?x @ CHR '' '' # r) = lex_int (show_int ?x @ CHR '' '' # r)" for r
      using d(2) char_classes(2) [OF d(2)]
      by (simp add: w lexer_read_def skip_none isspace_def code_def comment_here_def QUOTE_def int_here_def)
    then show ?thesis using tw cp val by (simp add: lexes_def lex_int_def w int_tok_def)
  next
    case False
    then have w: "show_int ?x = d # ds" using d by (simp add: show_int_def)
    have "lexer_read (show_int ?x @ CHR '' '' # r) = lex_int (show_int ?x @ CHR '' '' # r)" for r
      using d(2) char_classes(2) [OF d(2)] by (simp add: w lexer_read_def skip_none comment_here_def int_here_def)
    moreover have "d \<noteq> CHR ''-''" using d(2) by auto
    ultimately show ?thesis using tw cp val by (simp add: lexes_def lex_int_def w int_tok_def)
  qed
qed

section \<open>Printing statements\<close>

fun val_word :: "kds_ast_val \<Rightarrow> string" where
  "val_word (KDS_VAL_INT v) = show_int (sint v)"
| "val_word (KDS_VAL_STR s) = QUOTE # s @ [QUOTE]"
| "val_word KDS_VAL_NULL = ''NULL''"

fun val_tok :: "kds_ast_val \<Rightarrow> kds_token" where
  "val_tok (KDS_VAL_INT v) = int_tok v"
| "val_tok (KDS_VAL_STR s) = mk_tok KDS_TOK_STR_LIT s"
| "val_tok KDS_VAL_NULL = mk_tok KDS_TOK_NULL ''NULL''"

fun val_ok :: "kds_ast_val \<Rightarrow> bool" where
  "val_ok (KDS_VAL_STR s) \<longleftrightarrow> str_ok s"
| "val_ok _ \<longleftrightarrow> True"

fun op_tok :: "kds_cond_op \<Rightarrow> kds_token" where
  "op_tok KDS_OP_EQ = mk_tok KDS_TOK_EQ ''=''" | "op_tok KDS_OP_NEQ = mk_tok KDS_TOK_NEQ ''!=''"
| "op_tok KDS_OP_LT = mk_tok KDS_TOK_LT ''<''" | "op_tok KDS_OP_LTE = mk_tok KDS_TOK_LTE ''<=''"
| "op_tok KDS_OP_GT = mk_tok KDS_TOK_GT ''>''" | "op_tok KDS_OP_GTE = mk_tok KDS_TOK_GTE ''>=''"

abbreviation word_tok :: "string \<Rightarrow> kds_token" where "word_tok w \<equiv> mk_tok KDS_TOK_IDENT w"

text \<open>The pieces of a list, separated by a word.\<close>

fun sep_by :: "'a \<Rightarrow> 'a list list \<Rightarrow> 'a list" where
  "sep_by s [] = []"
| "sep_by s [x] = x"
| "sep_by s (x # y # zs) = x @ s # sep_by s (y # zs)"

definition type_word :: "(string \<Rightarrow> int res) \<Rightarrow> kds_type_val \<Rightarrow> string" where
  "type_word k v = (case kds_type_lookup_by_val k v of Some d \<Rightarrow> type_name d | None \<Rightarrow> [])"

definition col_words :: "(string \<Rightarrow> int res) \<Rightarrow> kds_ast_col_def \<Rightarrow> string list" where
  "col_words k c = [cd_name c, type_word k (cd_type_val c)]"

definition cond_words :: "kds_ast_cond \<Rightarrow> string list" where
  "cond_words c = [co_col_name c, kds_cond_op_name (co_op c), val_word (co_val c)]"

fun storage_word :: "kds_clustered_type \<Rightarrow> string" where
  "storage_word KDS_CLUSTERED_HEAP = ''HEAP''" | "storage_word KDS_CLUSTERED_BTREE = ''BTREE''"

fun stmt_words :: "(string \<Rightarrow> int res) \<Rightarrow> kds_stmt \<Rightarrow> string list" where
  "stmt_words k (KDS_STMT_CREATE_TABLE c) = [''CREATE'', ''TABLE'', ct_table_name c, ''('']
     @ sep_by '','' (map (col_words k) (ct_cols c)) @ ['')'', storage_word (ct_clustered c), '';'']"
| "stmt_words k (KDS_STMT_INSERT i) = [''INSERT'', ''INTO'', in_table_name i, ''VALUES'', ''('']
     @ sep_by '','' (map (\<lambda>v. [val_word v]) (in_values i)) @ ['')'', '';'']"
| "stmt_words k (KDS_STMT_SELECT q) = [''SELECT'', ''*'', ''FROM'', se_table_name q]
     @ (if se_has_where q then ''WHERE'' # sep_by ''AND'' (map cond_words (se_conds q)) else []) @ ['';'']"
| "stmt_words k KDS_STMT_SHOW_META = [''SHOW'', ''META'', '';'']"
| "stmt_words k KDS_STMT_SHOW_ALLOC = [''SHOW'', ''ALLOC'', '';'']"

definition print_stmt :: "(string \<Rightarrow> int res) \<Rightarrow> kds_stmt \<Rightarrow> string" where
  "print_stmt k st = spaced (stmt_words k st)"

text \<open>The statements the grammar can express within the array sizes.\<close>

definition col_ok :: "(string \<Rightarrow> int res) \<Rightarrow> kds_ast_col_def \<Rightarrow> bool" where
  "col_ok k c \<longleftrightarrow> id_ok (cd_name c) \<and> (\<exists>d \<in> set (kds_type_table k). type_val d = cd_type_val c \<and> fixed_len d = cd_len c)"

fun stmt_ok :: "(string \<Rightarrow> int res) \<Rightarrow> kds_stmt \<Rightarrow> bool" where
  "stmt_ok k (KDS_STMT_CREATE_TABLE c) \<longleftrightarrow> id_ok (ct_table_name c) \<and> list_all (col_ok k) (ct_cols c)
     \<and> 0 < length (ct_cols c) \<and> length (ct_cols c) \<le> KDS_PARSER_MAX_COLS"
| "stmt_ok k (KDS_STMT_INSERT i) \<longleftrightarrow> id_ok (in_table_name i) \<and> list_all val_ok (in_values i)
     \<and> 0 < length (in_values i) \<and> length (in_values i) \<le> KDS_PARSER_MAX_VALS"
| "stmt_ok k (KDS_STMT_SELECT q) \<longleftrightarrow> id_ok (se_table_name q) \<and> list_all (\<lambda>c. id_ok (co_col_name c) \<and> val_ok (co_val c)) (se_conds q)
     \<and> (se_has_where q \<longleftrightarrow> se_conds q \<noteq> []) \<and> length (se_conds q) \<le> KDS_PARSER_MAX_CONDS"
| "stmt_ok k _ \<longleftrightarrow> True"

section \<open>Parsing the printed tokens\<close>

lemma strcaseeq_refl [simp]: "strcaseeq w w"
  by (simp add: strcaseeq_def)

lemma name_fits: "id_ok n \<Longrightarrow> take (KDS_PARSER_NAME_MAX - Suc 0) n = n"
  by (simp add: id_ok_def KDS_PARSER_NAME_MAX_def)

lemma runs_if [runs_intros]: "b \<Longrightarrow> runs m ts x ts' \<Longrightarrow> runs (if b then m else m') ts x ts'"
  "\<not> b \<Longrightarrow> runs m' ts x ts' \<Longrightarrow> runs (if b then m else m') ts x ts'"
  by simp_all

lemma runs_keyword: "strcaseeq w w' \<Longrightarrow> runs (expect_keyword w') (word_tok w # ts) () ts"
  unfolding expect_keyword_def by (rule runs_bind [OF runs_next]) (simp add: runs_sret)

lemma runs_token: "runs (expect_token t d) (mk_tok t w # ts) () ts"
  unfolding expect_token_def by (rule runs_bind [OF runs_next]) (simp add: runs_sret)

lemma runs_ident: "id_ok n \<Longrightarrow> runs parse_ident (word_tok n # ts) n ts"
  unfolding parse_ident_def by (rule runs_bind [OF runs_next]) (simp add: runs_sret name_fits)

lemma runs_semicolon: "runs consume_optional_semicolon (mk_tok KDS_TOK_SEMICOLON w # ts) () ts"
  unfolding consume_optional_semicolon_def
  by (rule runs_bind [OF runs_peek]) (auto intro: runs_bind [OF runs_next runs_sret])

lemma runs_value: "val_ok v \<Longrightarrow> runs parse_value (val_tok v # ts) v ts"
  unfolding parse_value_def by (rule runs_bind [OF runs_next]) (cases v; simp add: runs_sret int_tok_def str_ok_def KDS_PARSER_VAL_MAX_def)

lemma runs_op: "runs parse_cond_op (op_tok op # ts) op ts"
  unfolding parse_cond_op_def by (rule runs_bind [OF runs_next]) (cases op; simp add: runs_sret)

definition col_toks :: "(string \<Rightarrow> int res) \<Rightarrow> kds_ast_col_def \<Rightarrow> kds_token list" where
  "col_toks k c = map word_tok (col_words k c)"

definition cond_toks :: "kds_ast_cond \<Rightarrow> kds_token list" where
  "cond_toks c = [word_tok (co_col_name c), op_tok (co_op c), val_tok (co_val c)]"

lemma lower_null: "map tolower ''NULL'' = ''null''"
  by code_simp

lemma strcaseeq_null: "strcaseeq n ''NULL'' \<longleftrightarrow> map tolower n = ''null''"
  by (simp only: strcaseeq_def lower_null)

lemma type_names_ok: "d \<in> set (kds_type_table k) \<Longrightarrow> id_ok (type_name d)"
  by (auto simp: kds_type_table_def mk_desc_def id_ok_def ident_start_def ident_char_def isalnum_def isalpha_def isupper_def islower_def
      is_digit_def code_def KDS_PARSER_NAME_MAX_def strcaseeq_null tolower_def)

lemma lookup_facts:
  "kds_type_lookup_by_name k n = Some d \<longleftrightarrow> d \<in> set (kds_type_table k) \<and> type_name d = n"
  "kds_type_lookup_by_val k v = Some d \<longleftrightarrow> d \<in> set (kds_type_table k) \<and> type_val d = v"
  unfolding kds_type_lookup_by_name_def kds_type_lookup_by_val_def
  by (rule find_distinct_key, rule type_keys_distinct)+

lemma type_word_ok: "d \<in> set (kds_type_table k) \<Longrightarrow> type_word k (type_val d) = type_name d"
  using lookup_facts(2) [of k "type_val d" d] by (simp add: type_word_def)

lemma runs_col: "col_ok k c \<Longrightarrow> runs (parse_col_def k) (col_toks k c @ ts) c ts"
proof -
  assume ok: "col_ok k c"
  then obtain d where d: "d \<in> set (kds_type_table k)" "type_val d = cd_type_val c" "fixed_len d = cd_len c" "id_ok (cd_name c)"
    by (auto simp: col_ok_def)
  have l: "kds_type_lookup_by_name k (type_name d) = Some d" using d(1) lookup_facts(1) [of k "type_name d" d] by simp
  have t: "col_toks k c @ ts = word_tok (cd_name c) # word_tok (type_name d) # ts"
    using type_word_ok [OF d(1)] d(2) by (simp add: col_toks_def col_words_def)
  have "runs (case kds_type_lookup_by_name k (type_name d) of None \<Rightarrow> syntax_error (''unknown column type '' @ quoted (type_name d))
     | Some d' \<Rightarrow> sret \<lparr>cd_name = cd_name c, cd_type_val = type_val d', cd_len = fixed_len d'\<rparr>) ts c ts"
    using l d by (cases c) (simp add: runs_sret)
  then show ?thesis unfolding t parse_col_def_def
    by (intro runs_bind [OF runs_ident [OF d(4)] runs_bind [OF runs_ident [OF type_names_ok [OF d(1)]]]])
qed

lemma runs_cond: "id_ok (co_col_name c) \<Longrightarrow> val_ok (co_val c) \<Longrightarrow> runs parse_one_cond (cond_toks c @ ts) c ts"
proof -
  assume a: "id_ok (co_col_name c)" "val_ok (co_val c)"
  have "runs (sret \<lparr>co_col_name = co_col_name c, co_op = co_op c, co_val = co_val c\<rparr>) ts c ts" by (cases c) (simp add: runs_sret)
  then show ?thesis unfolding parse_one_cond_def cond_toks_def append.simps
    by (intro runs_bind [OF runs_ident [OF a(1)] runs_bind [OF runs_op runs_bind [OF runs_value [OF a(2)]]]])
qed

section \<open>The three list rules\<close>

text \<open>
  A postcondition of a call that can fail with \<^verbatim>\<open>-EINVAL\<close> only: the result satisfies \<open>Q\<close>, an empty error buffer of at
  least two bytes stays empty on success and holds a NUL-terminated message afterwards when the call fails.
\<close>

definition reports :: "kds_parser \<Rightarrow> 'a res \<times> kds_parser \<Rightarrow> bool" where
  "reports p rp \<longleftrightarrow> p_err_size (snd rp) = p_err_size p \<and> (p_err_buf p = Some [] \<and> 1 < p_err_size p \<longrightarrow>
     (case fst rp of Inr _ \<Rightarrow> p_err_buf (snd rp) = Some []
      | Inl _ \<Rightarrow> (\<exists>msg. p_err_buf (snd rp) = Some msg \<and> msg \<noteq> [] \<and> length msg < p_err_size p)))"

definition post :: "(kds_parser, 'a) call \<Rightarrow> ('a \<Rightarrow> bool) \<Rightarrow> bool" where
  "post m Q \<longleftrightarrow> (\<forall>p. (case fst (m p) of Inr x \<Rightarrow> Q x | Inl e \<Rightarrow> e = Errno EINVAL) \<and> reports p (m p))"

lemma post_sret: "Q x \<Longrightarrow> post (sret x) Q"
  by (simp add: post_def sret_def reports_def)

lemma post_error: "msg \<noteq> [] \<Longrightarrow> post (syntax_error msg) Q"
  by (auto simp: post_def syntax_error_def call_defs reports_def parser_err_def scnprintf_def split: option.splits)

lemma post_bind:
  assumes m: "post m P" and f: "\<And>x. P x \<Longrightarrow> post (f x) Q"
  shows "post (sbind m f) Q"
  unfolding post_def
proof
  fix p
  obtain r p' where r: "m p = (r, p')" by fastforce
  have mp: "case r of Inr x \<Rightarrow> P x | Inl e \<Rightarrow> e = Errno EINVAL" "reports p (r, p')"
    using m r by (metis fst_conv post_def)+
  show "(case fst (sbind m f p) of Inr x \<Rightarrow> Q x | Inl e \<Rightarrow> e = Errno EINVAL) \<and> reports p (sbind m f p)"
  proof (cases r)
    case (Inl e)
    then show ?thesis using mp r by (simp add: sbind_def reports_def)
  next
    case (Inr x)
    then have "P x" using mp by simp
    then have "(case fst (f x p') of Inr x \<Rightarrow> Q x | Inl e \<Rightarrow> e = Errno EINVAL) \<and> reports p' (f x p')"
      using f [of x] by (simp add: post_def)
    then show ?thesis using mp(2) Inr r by (auto simp: sbind_def reports_def split: sum.splits)
  qed
qed

lemma post_lex: "post lexer_next (\<lambda>_. True)" "post lexer_peek (\<lambda>_. True)"
  by (auto simp: post_def lexer_next_def lexer_peek_def Let_def reports_def split: prod.splits)

lemma post_mono: "post m P \<Longrightarrow> (\<And>x. P x \<Longrightarrow> Q x) \<Longrightarrow> post m Q"
  by (auto simp: post_def split: sum.splits)

lemmas post_rules = post_sret post_error post_bind [OF post_lex(1)] post_bind [OF post_lex(2)]

text \<open>
  Columns, values and conditions are parsed by loops of one shape: an element, then either a separator and the rest or
  the end; the count is checked at the head of the loop.
\<close>

locale list_rule =
  fixes one :: "(kds_parser, 'a) call"
    and is_sep :: "kds_token \<Rightarrow> bool"
    and many :: "nat \<Rightarrow> (kds_parser, 'a list) call"
    and toks :: "'a \<Rightarrow> kds_token list"
    and ok :: "'a \<Rightarrow> bool"
    and bounded :: "'a \<Rightarrow> bool"
  assumes many_0: "\<exists>msg. many 0 = syntax_error msg \<and> msg \<noteq> []"
    and many_Suc: "many (Suc n) = sbind one (\<lambda>x. sbind lexer_peek (\<lambda>tok.
       if is_sep tok then sbind lexer_next (\<lambda>_. sbind (many n) (\<lambda>xs. sret (x # xs))) else sret [x]))"
    and one_runs: "ok x \<Longrightarrow> runs one (toks x @ ts) x ts"
    and one_bounded: "post one bounded"
begin

lemma many_runs:
  assumes s: "is_sep s" and t: "\<not> is_sep t"
  shows "list_all ok xs \<Longrightarrow> xs \<noteq> [] \<Longrightarrow> length xs \<le> n \<Longrightarrow> runs (many n) (sep_by s (map toks xs) @ t # ts) xs (t # ts)"
proof (induction xs arbitrary: n)
  case (Cons x xs)
  then obtain m where n: "n = Suc m" "length xs \<le> m" by (cases n) auto
  have ok: "ok x" using Cons.prems by simp
  show ?case
  proof (cases xs)
    case Nil
    have "runs (many n) (toks x @ t # ts) [x] (t # ts)"
      unfolding n many_Suc using t by (intro runs_bind [OF one_runs [OF ok] runs_bind [OF runs_peek]]) (simp add: runs_sret)
    then show ?thesis using Nil by simp
  next
    case (Cons y ys)
    have IH: "runs (many m) (sep_by s (map toks xs) @ t # ts) xs (t # ts)" using Cons.IH n Cons.prems Cons by simp
    have "runs (many n) (toks x @ s # sep_by s (map toks xs) @ t # ts) (x # xs) (t # ts)"
      unfolding n many_Suc
      by (intro runs_bind [OF one_runs [OF ok] runs_bind [OF runs_peek]])
        (use s in \<open>simp, intro runs_bind [OF runs_next runs_bind [OF IH runs_sret]]\<close>)
    then show ?thesis using Cons by simp
  qed
qed simp

lemma many_bounded: "post (many n) (\<lambda>xs. 0 < length xs \<and> length xs \<le> n \<and> list_all bounded xs)"
proof (induction n)
  case 0
  then show ?case using many_0 post_error by auto
next
  case (Suc n)
  show ?case unfolding many_Suc
  proof (rule post_bind [OF one_bounded], rule post_bind [OF post_lex(2)])
    fix x tok
    assume x: "bounded x"
    show "post (if is_sep tok then sbind lexer_next (\<lambda>_. sbind (many n) (\<lambda>xs. sret (x # xs))) else sret [x])
      (\<lambda>xs. 0 < length xs \<and> length xs \<le> Suc n \<and> list_all bounded xs)"
      using x by (auto intro!: post_rules post_bind [OF Suc.IH])
  qed
qed

end

text \<open>Bounds of the elements.\<close>

definition name_fits_buf :: "string \<Rightarrow> bool" where
  "name_fits_buf n \<longleftrightarrow> length n < KDS_PARSER_NAME_MAX"

fun val_fits :: "kds_ast_val \<Rightarrow> bool" where
  "val_fits (KDS_VAL_STR s) \<longleftrightarrow> length s < KDS_PARSER_VAL_MAX"
| "val_fits _ \<longleftrightarrow> True"

definition col_fits :: "(string \<Rightarrow> int res) \<Rightarrow> kds_ast_col_def \<Rightarrow> bool" where
  "col_fits k c \<longleftrightarrow> name_fits_buf (cd_name c) \<and> (\<exists>d \<in> set (kds_type_table k). type_val d = cd_type_val c \<and> fixed_len d = cd_len c)"

definition cond_fits :: "kds_ast_cond \<Rightarrow> bool" where
  "cond_fits c \<longleftrightarrow> name_fits_buf (co_col_name c) \<and> val_fits (co_val c)"

lemma ident_post: "post parse_ident name_fits_buf"
  unfolding parse_ident_def by (auto intro!: post_rules simp: name_fits_buf_def KDS_PARSER_NAME_MAX_def)

lemma value_post: "post parse_value val_fits"
  unfolding parse_value_def
  by (auto intro!: post_rules split: kds_token_type.splits simp: KDS_PARSER_VAL_MAX_def)

lemma op_post: "post parse_cond_op (\<lambda>_. True)"
  unfolding parse_cond_op_def by (auto intro!: post_rules split: kds_token_type.splits)

lemma keyword_post: "post (expect_keyword w) (\<lambda>_. True)" "post (expect_token t d) (\<lambda>_. True)" "post consume_optional_semicolon (\<lambda>_. True)"
  unfolding expect_keyword_def expect_token_def consume_optional_semicolon_def by (auto intro!: post_rules)

lemma col_post: "post (parse_col_def k) (col_fits k)"
  unfolding parse_col_def_def
  by (auto intro!: post_rules post_bind [OF ident_post] simp: lookup_facts split: option.splits)
    (auto simp: col_fits_def)

lemma cond_post: "post parse_one_cond cond_fits"
  unfolding parse_one_cond_def
  by (auto intro!: post_rules post_bind [OF ident_post] post_bind [OF op_post] post_bind [OF value_post] simp: cond_fits_def)

interpretation cols: list_rule "parse_col_def k" "\<lambda>t. tok_type t = KDS_TOK_COMMA" "parse_cols k" "col_toks k" "col_ok k" "col_fits k" for k
  by unfold_locales (auto simp: runs_col col_post)

interpretation vals: list_rule parse_value "\<lambda>t. tok_type t = KDS_TOK_COMMA" parse_values "\<lambda>v. [val_tok v]" val_ok val_fits
  by unfold_locales (auto simp: runs_value value_post)

interpretation conds: list_rule parse_one_cond "\<lambda>t. tok_type t = KDS_TOK_IDENT \<and> strcaseeq (tok_text t) ''AND''" parse_conds cond_toks
  "\<lambda>c. id_ok (co_col_name c) \<and> val_ok (co_val c)" cond_fits
  by unfold_locales (auto simp: runs_cond cond_post)

section \<open>Statements\<close>

fun stmt_toks :: "(string \<Rightarrow> int res) \<Rightarrow> kds_stmt \<Rightarrow> kds_token list" where
  "stmt_toks k (KDS_STMT_CREATE_TABLE c) = [word_tok ''CREATE'', word_tok ''TABLE'', word_tok (ct_table_name c), mk_tok KDS_TOK_LPAREN ''('']
     @ sep_by (mk_tok KDS_TOK_COMMA '','') (map (col_toks k) (ct_cols c))
     @ [mk_tok KDS_TOK_RPAREN '')'', word_tok (storage_word (ct_clustered c)), mk_tok KDS_TOK_SEMICOLON '';'']"
| "stmt_toks k (KDS_STMT_INSERT i) = [word_tok ''INSERT'', word_tok ''INTO'', word_tok (in_table_name i), word_tok ''VALUES'', mk_tok KDS_TOK_LPAREN ''('']
     @ sep_by (mk_tok KDS_TOK_COMMA '','') (map (\<lambda>v. [val_tok v]) (in_values i)) @ [mk_tok KDS_TOK_RPAREN '')'', mk_tok KDS_TOK_SEMICOLON '';'']"
| "stmt_toks k (KDS_STMT_SELECT q) = [word_tok ''SELECT'', mk_tok KDS_TOK_STAR ''*'', word_tok ''FROM'', word_tok (se_table_name q)]
     @ (if se_has_where q then word_tok ''WHERE'' # sep_by (word_tok ''AND'') (map cond_toks (se_conds q)) else []) @ [mk_tok KDS_TOK_SEMICOLON '';'']"
| "stmt_toks k KDS_STMT_SHOW_META = [word_tok ''SHOW'', word_tok ''META'', mk_tok KDS_TOK_SEMICOLON '';'']"
| "stmt_toks k KDS_STMT_SHOW_ALLOC = [word_tok ''SHOW'', word_tok ''ALLOC'', mk_tok KDS_TOK_SEMICOLON '';'']"

text \<open>Every printed word lexes to its token.\<close>

lemma keywords_ok: "list_all id_ok [''CREATE'', ''TABLE'', ''INSERT'', ''INTO'', ''VALUES'', ''SELECT'', ''FROM'', ''WHERE'', ''AND'',
    ''SHOW'', ''META'', ''ALLOC'', ''HEAP'', ''BTREE'']"
  by code_simp

lemma lexes_keyword [simp]:
  "lexes ''CREATE'' (word_tok ''CREATE'')" "lexes ''TABLE'' (word_tok ''TABLE'')" "lexes ''INSERT'' (word_tok ''INSERT'')"
  "lexes ''INTO'' (word_tok ''INTO'')" "lexes ''VALUES'' (word_tok ''VALUES'')" "lexes ''SELECT'' (word_tok ''SELECT'')"
  "lexes ''FROM'' (word_tok ''FROM'')" "lexes ''WHERE'' (word_tok ''WHERE'')" "lexes ''AND'' (word_tok ''AND'')"
  "lexes ''SHOW'' (word_tok ''SHOW'')" "lexes ''META'' (word_tok ''META'')" "lexes ''ALLOC'' (word_tok ''ALLOC'')"
  "lexes ''HEAP'' (word_tok ''HEAP'')" "lexes ''BTREE'' (word_tok ''BTREE'')"
  using keywords_ok by (simp_all add: lexes_ident)

declare lexes_punct [simp]

lemma lexes_storage [simp]: "lexes (storage_word c) (word_tok (storage_word c))"
  by (cases c) simp_all

lemma lexes_val: "val_ok v \<Longrightarrow> lexes (val_word v) (val_tok v)"
  using lexes_word [of "CHR ''N''" "''ULL''"]
  by (cases v) (auto simp: lexes_string lexes_int ident_start_def ident_char_def isalnum_def isalpha_def isupper_def code_def KDS_PARSER_VAL_MAX_def)

lemma lexes_op: "lexes (kds_cond_op_name op) (op_tok op)"
  by (cases op) simp_all

lemma list_all2_sep: "list_all2 (list_all2 R) xss yss \<Longrightarrow> R s t \<Longrightarrow> list_all2 R (sep_by s xss) (sep_by t yss)"
proof (induction s xss arbitrary: yss rule: sep_by.induct)
  case (3 s x y zs)
  then show ?case by (auto simp: list_all2_Cons1 intro!: list_all2_appendI)
qed (auto simp: list_all2_Cons1)

lemma col_lexes: "col_ok k c \<Longrightarrow> list_all2 lexes (col_words k c) (col_toks k c)"
  by (auto simp: col_ok_def col_words_def col_toks_def lexes_ident type_word_ok type_names_ok dest: sym)

lemma stmt_lexes:
  assumes "stmt_ok k st"
  shows "list_all2 lexes (stmt_words k st) (stmt_toks k st)"
proof (cases st)
  case (KDS_STMT_CREATE_TABLE c)
  have "list_all2 (list_all2 lexes) (map (col_words k) (ct_cols c)) (map (col_toks k) (ct_cols c))"
    using assms KDS_STMT_CREATE_TABLE by (auto simp: list_all2_map1 list_all2_map2 list.rel_refl_strong list_all_iff col_lexes intro!: list.rel_refl_strong)
  then show ?thesis using assms KDS_STMT_CREATE_TABLE by (auto simp: lexes_ident intro!: list_all2_appendI list_all2_sep)
next
  case (KDS_STMT_INSERT i)
  have "list_all2 (list_all2 lexes) (map (\<lambda>v. [val_word v]) (in_values i)) (map (\<lambda>v. [val_tok v]) (in_values i))"
    using assms KDS_STMT_INSERT by (auto simp: list_all2_map1 list_all2_map2 list_all_iff lexes_val intro!: list.rel_refl_strong)
  then show ?thesis using assms KDS_STMT_INSERT by (auto simp: lexes_ident intro!: list_all2_appendI list_all2_sep)
next
  case (KDS_STMT_SELECT q)
  have "list_all2 (list_all2 lexes) (map cond_words (se_conds q)) (map cond_toks (se_conds q))"
    using assms KDS_STMT_SELECT
    by (auto simp: list_all2_map1 list_all2_map2 list_all_iff cond_words_def cond_toks_def lexes_ident lexes_op lexes_val intro!: list.rel_refl_strong)
  then show ?thesis using assms KDS_STMT_SELECT by (auto simp: lexes_ident intro!: list_all2_appendI list_all2_sep)
qed (simp_all)

lemma keyword_cases [simp]:
  "strcaseeq ''INSERT'' ''CREATE'' = False" "strcaseeq ''SELECT'' ''CREATE'' = False" "strcaseeq ''SELECT'' ''INSERT'' = False"
  "strcaseeq ''SHOW'' ''CREATE'' = False" "strcaseeq ''SHOW'' ''INSERT'' = False" "strcaseeq ''SHOW'' ''SELECT'' = False"
  "strcaseeq ''ALLOC'' ''META'' = False" "strcaseeq ''BTREE'' ''HEAP'' = False"
  by code_simp+

lemma runs_storage: "runs parse_storage (word_tok (storage_word c) # ts) c ts"
  unfolding parse_storage_def
  by (cases c) (auto intro!: runs_bind [OF runs_peek] runs_bind [OF runs_next] runs_sret)

lemma runs_create:
  assumes "stmt_ok k (KDS_STMT_CREATE_TABLE c)"
  shows "runs (parse_create_table k) (tl (stmt_toks k (KDS_STMT_CREATE_TABLE c))) c []"
proof -
  have ok: "id_ok (ct_table_name c)" "list_all (col_ok k) (ct_cols c)" "ct_cols c \<noteq> []" "length (ct_cols c) \<le> KDS_PARSER_MAX_COLS"
    using assms by auto
  have fin: "runs (sret \<lparr>ct_table_name = ct_table_name c, ct_cols = ct_cols c, ct_clustered = ct_clustered c\<rparr>) [] c []"
    by (cases c) (simp add: runs_sret)
  note cols = cols.many_runs [of "mk_tok KDS_TOK_COMMA '',''" "mk_tok KDS_TOK_RPAREN '')''", OF _ _ ok(2,3,4)]
  show ?thesis
    unfolding parse_create_table_def stmt_toks.simps append.simps list.sel append_assoc
    by (intro runs_bind [OF runs_keyword] runs_bind [OF runs_ident [OF ok(1)]] runs_bind [OF runs_token] runs_bind [OF cols])
      (use ok(3) fin in \<open>auto intro!: runs_bind [OF runs_storage] runs_bind [OF runs_semicolon]\<close>)
qed

lemma runs_insert:
  assumes "stmt_ok k (KDS_STMT_INSERT i)"
  shows "runs parse_insert (tl (stmt_toks k (KDS_STMT_INSERT i))) i []"
proof -
  have ok: "id_ok (in_table_name i)" "list_all val_ok (in_values i)" "in_values i \<noteq> []" "length (in_values i) \<le> KDS_PARSER_MAX_VALS"
    using assms by auto
  have fin: "runs (sret \<lparr>in_table_name = in_table_name i, in_values = in_values i\<rparr>) [] i []"
    by (cases i) (simp add: runs_sret)
  note vals = vals.many_runs [of "mk_tok KDS_TOK_COMMA '',''" "mk_tok KDS_TOK_RPAREN '')''", OF _ _ ok(2,3,4)]
  show ?thesis
    unfolding parse_insert_def stmt_toks.simps append.simps list.sel append_assoc
    by (intro runs_bind [OF runs_keyword] runs_bind [OF runs_ident [OF ok(1)]] runs_bind [OF runs_token] runs_bind [OF vals])
      (use ok(3) fin in \<open>auto intro!: runs_bind [OF runs_semicolon]\<close>)
qed

lemma runs_select:
  assumes "stmt_ok k (KDS_STMT_SELECT q)"
  shows "runs parse_select (tl (stmt_toks k (KDS_STMT_SELECT q))) q []"
proof -
  let ?semi = "mk_tok KDS_TOK_SEMICOLON '';''"
  let ?w = "if se_has_where q then word_tok ''WHERE'' # sep_by (word_tok ''AND'') (map cond_toks (se_conds q)) else []"
  have ok: "id_ok (se_table_name q)" "list_all (\<lambda>c. id_ok (co_col_name c) \<and> val_ok (co_val c)) (se_conds q)"
    "length (se_conds q) \<le> KDS_PARSER_MAX_CONDS" and w: "se_has_where q \<longleftrightarrow> se_conds q \<noteq> []"
    using assms by auto
  have fin: "runs (sret \<lparr>se_table_name = se_table_name q, se_has_where = se_has_where q, se_conds = se_conds q\<rparr>) [] q []"
    by (cases q) (simp add: runs_sret)
  have tail: "runs (sbind lexer_peek (\<lambda>tok.
       sbind (if tok_type tok = KDS_TOK_IDENT \<and> strcaseeq (tok_text tok) ''WHERE''
              then sbind lexer_next (\<lambda>_. sbind (parse_conds KDS_PARSER_MAX_CONDS) (\<lambda>cs. sret (True, cs)))
              else sret (False, [])) (\<lambda>(has_where, conds).
       sbind consume_optional_semicolon (\<lambda>_.
       sret \<lparr>se_table_name = se_table_name q, se_has_where = has_where, se_conds = conds\<rparr>)))) (?w @ [?semi]) q []"
  proof (cases "se_has_where q")
    case True
    then have ne: "se_conds q \<noteq> []" using w by simp
    have c: "runs (parse_conds KDS_PARSER_MAX_CONDS) (sep_by (word_tok ''AND'') (map cond_toks (se_conds q)) @ [?semi]) (se_conds q) [?semi]"
      by (rule conds.many_runs [OF _ _ ok(2) ne ok(3)]) simp_all
    show ?thesis using True fin
      by (auto intro!: runs_bind [OF runs_peek] runs_bind [OF runs_bind [OF runs_next runs_bind [OF c runs_sret]]] runs_bind [OF runs_semicolon])
  next
    case False
    then show ?thesis using w fin
      by (auto intro!: runs_bind [OF runs_peek] runs_bind [OF runs_sret] runs_bind [OF runs_semicolon])
  qed
  show ?thesis
    unfolding parse_select_def stmt_toks.simps append.simps list.sel
    by (intro runs_bind [OF runs_next])
      (use tail in \<open>auto intro!: runs_bind [OF runs_keyword] runs_bind [OF runs_ident [OF ok(1)]]\<close>)
qed

lemma runs_show:
  "runs parse_show (tl (stmt_toks k KDS_STMT_SHOW_META)) KDS_STMT_SHOW_META []"
  "runs parse_show (tl (stmt_toks k KDS_STMT_SHOW_ALLOC)) KDS_STMT_SHOW_ALLOC []"
  unfolding parse_show_def by (auto intro!: runs_bind [OF runs_next] runs_bind [OF runs_semicolon] runs_sret)

lemma parse_stmt_runs:
  assumes ok: "stmt_ok k st" and f: "feeds (stmt_toks k st) p"
  shows "\<exists>p'. parse_stmt k p = (Inr st, p') \<and> p_err_buf p' = p_err_buf p"
proof -
  obtain w ts where w: "stmt_toks k st = word_tok w # ts" "ts = tl (stmt_toks k st)" by (cases st) auto
  define body where "body = (if strcaseeq w ''CREATE'' then sbind (parse_create_table k) (\<lambda>c. sret (KDS_STMT_CREATE_TABLE c))
       else if strcaseeq w ''INSERT'' then sbind parse_insert (\<lambda>i. sret (KDS_STMT_INSERT i))
       else if strcaseeq w ''SELECT'' then sbind parse_select (\<lambda>q. sret (KDS_STMT_SELECT q))
       else if strcaseeq w ''SHOW'' then parse_show
       else syntax_error (''unknown SQL keyword '' @ quoted w @ '' (supported: CREATE, INSERT, SELECT, SHOW)''))"
  have b: "runs body ts st []"
  proof (cases st)
    case (KDS_STMT_CREATE_TABLE c)
    then have "w = ''CREATE''" using w(1) by (simp add: mk_tok_def)
    then show ?thesis using runs_bind [OF runs_create runs_sret] ok unfolding w(2) KDS_STMT_CREATE_TABLE by (simp only: body_def if_True strcaseeq_refl)
  next
    case (KDS_STMT_INSERT i)
    then have "w = ''INSERT''" using w(1) by (simp add: mk_tok_def)
    then show ?thesis using runs_bind [OF runs_insert runs_sret] ok unfolding w(2) KDS_STMT_INSERT
      by (simp only: body_def if_True if_False strcaseeq_refl keyword_cases)
  next
    case (KDS_STMT_SELECT q)
    then have "w = ''SELECT''" using w(1) by (simp add: mk_tok_def)
    then show ?thesis using runs_bind [OF runs_select runs_sret] ok unfolding w(2) KDS_STMT_SELECT
      by (simp only: body_def if_True if_False strcaseeq_refl keyword_cases)
  next
    case KDS_STMT_SHOW_META
    then have "w = ''SHOW''" using w(1) by (simp add: mk_tok_def)
    then show ?thesis using runs_show(1) [of k] unfolding w(2) KDS_STMT_SHOW_META by (simp only: body_def if_True if_False strcaseeq_refl keyword_cases)
  next
    case KDS_STMT_SHOW_ALLOC
    then have "w = ''SHOW''" using w(1) by (simp add: mk_tok_def)
    then show ?thesis using runs_show(2) [of k] unfolding w(2) KDS_STMT_SHOW_ALLOC by (simp only: body_def if_True if_False strcaseeq_refl keyword_cases)
  qed
  obtain p1 where p1: "lexer_next p = (Inr (word_tok w), p1)" "feeds ts p1" "p_err_buf p1 = p_err_buf p"
    using runs_next [of "word_tok w" ts] f w(1) unfolding runs_def by metis
  obtain p2 where p2: "body p1 = (Inr st, p2)" "feeds [] p2" "p_err_buf p2 = p_err_buf p1"
    using b p1(2) unfolding runs_def by blast
  obtain t p3 where p3: "lexer_peek p2 = (Inr t, p3)" "tok_type t = KDS_TOK_EOF" "p_err_buf p3 = p_err_buf p2"
    using peek_end [OF p2(2)] by blast
  have "parse_stmt k p = sbind body (\<lambda>stmt. sbind lexer_peek (\<lambda>tail.
     if tok_type tail \<noteq> KDS_TOK_EOF
     then syntax_error (''unexpected token '' @ quoted (tok_text tail) @ '' after end of statement'') else sret stmt)) p1"
    unfolding parse_stmt_def sbind_def [of lexer_next] p1(1) body_def by simp
  also have "\<dots> = (Inr st, p3)" using p2(1) p3 by (simp add: sbind_def sret_def)
  finally show ?thesis using p1(3) p2(3) p3(3) by simp
qed

text \<open>Printed statements have no NUL.\<close>

definition no_nul :: "string \<Rightarrow> bool" where "no_nul w \<longleftrightarrow> CHR 0x00 \<notin> set w"

lemma no_nul_chars: "list_all ident_char w \<Longrightarrow> no_nul w" "list_all is_digit w \<Longrightarrow> no_nul w"
  by (auto simp: no_nul_def list_all_iff ident_char_def isalnum_def isalpha_def isupper_def islower_def code_def is_digit_def)

lemma no_nul_id: "id_ok n \<Longrightarrow> no_nul n"
  by (simp add: id_ok_def no_nul_chars)

lemma no_nul_int: "no_nul (show_int x)"
  using no_nul_chars(2) [OF show_nat_digits] by (auto simp: show_int_def no_nul_def)

lemma no_nul_val: "val_ok v \<Longrightarrow> no_nul (val_word v)"
  by (cases v) (auto simp: no_nul_int str_ok_def, auto simp: no_nul_def QUOTE_def)

lemma no_nul_op: "no_nul (kds_cond_op_name op)"
  by (cases op) (simp_all add: no_nul_def)

lemma list_all_sep: "list_all (list_all P) xss \<Longrightarrow> P s \<Longrightarrow> list_all P (sep_by s xss)"
  by (induction s xss rule: sep_by.induct) auto

lemma stmt_no_nul: "stmt_ok k st \<Longrightarrow> list_all no_nul (stmt_words k st)"
proof (induction k st rule: stmt_words.induct)
  case (1 k c)
  have "list_all no_nul (col_words k d)" if "col_ok k d" for d
    using that by (auto simp: col_ok_def col_words_def no_nul_id type_word_ok type_names_ok dest: sym)
  then have "list_all (list_all no_nul) (map (col_words k) (ct_cols c))" using 1 by (auto simp: list_all_iff)
  then show ?case using 1 by (cases "ct_clustered c") (auto simp: no_nul_id intro!: list_all_sep, simp_all add: no_nul_def)
next
  case (2 k i)
  have "list_all (list_all no_nul) (map (\<lambda>v. [val_word v]) (in_values i))" using 2 by (auto simp: list_all_iff no_nul_val)
  then show ?case using 2 by (auto simp: no_nul_id intro!: list_all_sep) (simp_all add: no_nul_def)
next
  case (3 k q)
  have "list_all (list_all no_nul) (map cond_words (se_conds q))"
    using 3 by (auto simp: list_all_iff cond_words_def no_nul_id no_nul_op no_nul_val)
  then show ?case using 3 by (auto simp: no_nul_id intro!: list_all_sep) (simp_all add: no_nul_def)
qed (simp_all add: no_nul_def)

lemma takeWhile_no_nul: "list_all no_nul ws \<Longrightarrow> takeWhile (\<lambda>c. c \<noteq> CHR 0x00) (spaced ws) = spaced ws"
proof -
  assume "list_all no_nul ws"
  then have "CHR 0x00 \<notin> set (spaced ws)" by (induction ws) (auto simp: no_nul_def)
  then show ?thesis by (intro takeWhile_eq_all_conv [THEN iffD2]) auto
qed

section \<open>Bounds of parsed statements\<close>

fun stmt_fits :: "(string \<Rightarrow> int res) \<Rightarrow> kds_stmt \<Rightarrow> bool" where
  "stmt_fits k (KDS_STMT_CREATE_TABLE c) \<longleftrightarrow> name_fits_buf (ct_table_name c) \<and> list_all (col_fits k) (ct_cols c)
     \<and> 0 < length (ct_cols c) \<and> length (ct_cols c) \<le> KDS_PARSER_MAX_COLS"
| "stmt_fits k (KDS_STMT_INSERT i) \<longleftrightarrow> name_fits_buf (in_table_name i) \<and> list_all val_fits (in_values i)
     \<and> 0 < length (in_values i) \<and> length (in_values i) \<le> KDS_PARSER_MAX_VALS"
| "stmt_fits k (KDS_STMT_SELECT q) \<longleftrightarrow> name_fits_buf (se_table_name q) \<and> list_all cond_fits (se_conds q)
     \<and> (se_has_where q \<longleftrightarrow> se_conds q \<noteq> []) \<and> length (se_conds q) \<le> KDS_PARSER_MAX_CONDS"
| "stmt_fits k _ \<longleftrightarrow> True"

lemma storage_post: "post parse_storage (\<lambda>_. True)"
  unfolding parse_storage_def by (auto intro!: post_rules)

lemmas post_more = post_rules post_bind [OF keyword_post(1)] post_bind [OF keyword_post(2)] post_bind [OF keyword_post(3)]
  post_bind [OF ident_post] post_bind [OF storage_post] post_bind [OF cols.many_bounded] post_bind [OF vals.many_bounded]

lemma create_post: "post (parse_create_table k) (\<lambda>c. stmt_fits k (KDS_STMT_CREATE_TABLE c))"
  unfolding parse_create_table_def by (auto intro!: post_more)

lemma insert_post: "post parse_insert (\<lambda>i. stmt_fits k (KDS_STMT_INSERT i))"
  unfolding parse_insert_def by (auto intro!: post_more)

lemma where_post:
  "post (if b then sbind lexer_next (\<lambda>_. sbind (parse_conds KDS_PARSER_MAX_CONDS) (\<lambda>cs. sret (True, cs))) else sret (False, []))
     (\<lambda>(h, cs). list_all cond_fits cs \<and> (h \<longleftrightarrow> cs \<noteq> []) \<and> length cs \<le> KDS_PARSER_MAX_CONDS)"
  by (auto intro!: post_more post_bind [OF conds.many_bounded])

lemma select_post: "post parse_select (\<lambda>q. stmt_fits k (KDS_STMT_SELECT q))"
  unfolding parse_select_def by (auto intro!: post_more post_bind [OF where_post])

lemma show_post: "post parse_show (stmt_fits k)"
  unfolding parse_show_def by (auto intro!: post_more)

lemma stmt_post: "post (parse_stmt k) (stmt_fits k)"
  unfolding parse_stmt_def
  by (auto intro!: post_more post_bind [where P = "stmt_fits k"] post_bind [OF create_post] post_bind [OF insert_post] post_bind [OF select_post]
      show_post)

section \<open>Properties\<close>

definition demo_insert :: kds_stmt where
  "demo_insert = KDS_STMT_INSERT \<lparr>in_table_name = ''users'', in_values = [KDS_VAL_INT (- 7), KDS_VAL_STR ''bob'', KDS_VAL_NULL]\<rparr>"

text \<open>C9: printing a statement and parsing the text gives the statement back, for every statement that fits the
  parser's arrays: names of up to 63 identifier characters other than \<^verbatim>\<open>NULL\<close>, 1 to 32 columns of registered types or 1 to 32
  values, up to 16 conditions, string literals of up to 255 characters without quote, and any 64-bit integer. The error
  buffer is left empty.\<close>

theorem parse_print:
  assumes "stmt_ok k st" and "0 < n"
  shows "kds_parse k (Some (print_stmt k st)) (Some buf) n = (Inr st, Some [])"
proof -
  let ?p = "parser_init (spaced (stmt_words k st)) (Some []) n"
  have "feeds (stmt_toks k st) ?p"
    using spaced_lexes [OF stmt_lexes [OF assms(1)]] by (simp add: feeds_def parser_init_def lexer_init_def)
  from parse_stmt_runs [OF assms(1) this] obtain p' where "parse_stmt k ?p = (Inr st, p')" "p_err_buf p' = Some []"
    by (auto simp: parser_init_def)
  then show ?thesis
    using assms(2) by (simp add: kds_parse_def print_stmt_def takeWhile_no_nul [OF stmt_no_nul [OF assms(1)]])
qed

theorem parse_print_witness:
  "kds_parse kstrtoll_decimal (Some (print_stmt kstrtoll_decimal demo_insert)) (Some ''old'') 256 = (Inr demo_insert, Some [])"
proof -
  have "id_ok ''users''" by code_simp
  then have "stmt_ok kstrtoll_decimal demo_insert"
    by (simp add: demo_insert_def str_ok_def QUOTE_def KDS_PARSER_VAL_MAX_def KDS_PARSER_MAX_VALS_def)
  then show ?thesis using parse_print [of kstrtoll_decimal demo_insert 256 "''old''"] by simp
qed

text \<open>C10: whatever the input, with an error buffer of at least two bytes, parsing either succeeds with a statement whose names, literals and lists fit the AST's
  arrays, and leaves the error buffer empty, or returns \<^verbatim>\<open>-EINVAL\<close> with a non-empty message that fits the buffer with its
  NUL; it never faults or panics.\<close>

theorem parse_total_bounded:
  assumes "1 < n"
  shows "case kds_parse k (Some sql) (Some buf) n of
      (Inr st, eb) \<Rightarrow> stmt_fits k st \<and> eb = Some []
    | (Inl e, eb) \<Rightarrow> e = Errno EINVAL \<and> (\<exists>msg. eb = Some msg \<and> msg \<noteq> [] \<and> length msg < n)"
proof -
  let ?p = "parser_init (takeWhile (\<lambda>c. c \<noteq> CHR 0x00) sql) (Some []) n"
  obtain r p' where r: "parse_stmt k ?p = (r, p')" by fastforce
  have "(case r of Inr x \<Rightarrow> stmt_fits k x | Inl e \<Rightarrow> e = Errno EINVAL) \<and> reports ?p (r, p')"
    using stmt_post [of k] r by (metis fst_conv post_def)
  then show ?thesis using r assms by (auto simp: kds_parse_def reports_def parser_init_def split: sum.splits)
qed

theorem parse_total_bounded_witness:
  "\<exists>msg. kds_parse kstrtoll_decimal (Some ''SELECT name FROM t'') (Some []) 16 = (Inl (Errno EINVAL), Some msg) \<and> length msg < 16"
proof -
  let ?r = "kds_parse kstrtoll_decimal (Some ''SELECT name FROM t'') (Some []) 16"
  have "\<not> is_ok (fst ?r)" by code_simp
  then obtain e eb where "?r = (Inl e, eb)" by (cases ?r; cases "fst ?r") auto
  then show ?thesis using parse_total_bounded [of 16 kstrtoll_decimal "''SELECT name FROM t''" "[]"] by auto
qed

text \<open>An integer literal of up to 254 digits has the value of its digits modulo \<open>2^64\<close>: an out-of-range literal is
  not rejected but silently becomes another number.\<close>

theorem int_literal_wraps:
  assumes "length (show_nat m) < KDS_PARSER_VAL_MAX"
  shows "fst (lexer_read (show_nat m @ CHR '' '' # rest)) = \<lparr>tok_type = KDS_TOK_INT_LIT, tok_text = show_nat m, tok_int = of_nat m\<rparr>"
proof -
  obtain d ds where d: "show_nat m = d # ds" "is_digit d" using show_nat_head [of m] by (cases "show_nat m") auto
  have ds: "list_all is_digit (d # ds)" using show_nat_digits [of m] d by simp
  have "int_of_text (show_nat m) = of_nat m" using int_of_show [of "int m"] by (simp add: show_int_def)
  then show ?thesis
    using char_classes(2) [OF d(2)] d takeWhile_word [OF ds not_ident_space(2), of rest] assms
    by (auto simp: lexer_read_def skip_none comment_here_def int_here_def lex_int_def tok_copy_def KDS_PARSER_VAL_MAX_def)
qed

theorem int_literal_wraps_witness:
  "tok_int (fst (lexer_read (show_nat 18446744073709551617 @ '' ;''))) = 1"
proof -
  have "length (show_nat 18446744073709551617) < KDS_PARSER_VAL_MAX"
    using length_show_nat [of 18446744073709551617 20] by (simp add: KDS_PARSER_VAL_MAX_def)
  from int_literal_wraps [OF this, of "'';''"] show ?thesis by simp
qed

end
