(* ===== verification/Kds_Rows.thy ===== *)
theory Kds_Rows
  imports Kds_Relation Kds_Parser
begin

text \<open>
  The row codec of the debug shell (\<^verbatim>\<open>kds_dshell_encode_row_from_vals\<close> and \<^verbatim>\<open>kds_dshell_decode_row\<close> of \<^verbatim>\<open>dshell.c\<close>):
  the values of an \<^verbatim>\<open>INSERT\<close> become the bytes of a row, the bytes of a row become the text that \<^verbatim>\<open>SELECT\<close> prints. It
  joins the type registry, the columns of the catalogue and the values of the parser. What is printed for a row
  encodes to the same row; an encoded row never leaves its buffer and begins with its key.
\<close>

section \<open>The codec\<close>

definition KDS_DSHELL_ROW_MAX :: nat where "KDS_DSHELL_ROW_MAX = 256"

text \<open>The cast of the stored number to the enumeration: a number without a constant matches no entry of the registry.\<close>

definition type_of_code :: "u32 \<Rightarrow> kds_type_val option" where
  "type_of_code c = find (\<lambda>v. type_val_code v = c) [KDS_TYPE_INT8, KDS_TYPE_INT16, KDS_TYPE_INT32, KDS_TYPE_INT64, KDS_TYPE_FLOAT,
     KDS_TYPE_DECIMAL, KDS_TYPE_BOOL, KDS_TYPE_VARCHAR, KDS_TYPE_CHAR]"

definition col_desc :: "(string \<Rightarrow> int res) \<Rightarrow> kds_sys_column \<Rightarrow> kds_type_desc option" where
  "col_desc k col = Option.bind (type_of_code (sc_type_val col)) (kds_type_lookup_by_val k)"

text \<open>\<^verbatim>\<open>%s\<close> reads up to the first NUL; a name that fills its array is followed by the bytes of the type.\<close>

definition col_name :: "kds_sys_column \<Rightarrow> string" where
  "col_name col = string_of (takeWhile (\<lambda>b. b \<noteq> 0) (sc_name col @ enc32 (sc_type_val col)))"

text \<open>The text that a type's encoder reads: \<^verbatim>\<open>val_str\<close>.\<close>

fun val_text :: "kds_ast_val \<Rightarrow> string" where
  "val_text (KDS_VAL_INT v) = scnprintf KDS_PARSER_VAL_MAX (show_int (sint v))"
| "val_text (KDS_VAL_STR s) = take (KDS_PARSER_VAL_MAX - 1) s"
| "val_text KDS_VAL_NULL = []"

text \<open>The loop over the columns; \<open>acc\<close> are the bytes written so far, \<^verbatim>\<open>off\<close> is their number.\<close>

fun encode_cols :: "(string \<Rightarrow> int res) \<Rightarrow> kds_sys_column list \<Rightarrow> kds_ast_val list \<Rightarrow> nat \<Rightarrow> u8 list \<Rightarrow> u8 list res" where
  "encode_cols k [] vals buf_size acc = Inr acc"
| "encode_cols k (col # cols) [] buf_size acc = Inl Fault"
| "encode_cols k (col # cols) (val # vals) buf_size acc =
     (case col_desc k col of None \<Rightarrow> fails EINVAL
      | Some desc \<Rightarrow>
          if fixed_len desc = 0
          then if buf_size < length acc + 2 then fails ENOSPC
               else rbind (t_encode desc (val_text val) (buf_size - length acc - 2)) (\<lambda>bs.
                 encode_cols k cols vals buf_size (acc @ enc16 (of_nat (length bs)) @ bs))
          else if buf_size < length acc + fixed_len desc then fails ENOSPC
               else rbind (t_encode desc (val_text val) (buf_size - length acc)) (\<lambda>bs.
                 encode_cols k cols vals buf_size (acc @ bs)))"

definition schema_cols :: "kds_schema \<Rightarrow> kds_sys_column list" where
  "schema_cols schema = take (unat (nr_cols schema)) (sch_cols schema)"

text \<open>The bytes of the row and \<^verbatim>\<open>*out_len\<close>.\<close>

definition kds_dshell_encode_row_from_vals ::
  "(string \<Rightarrow> int res) \<Rightarrow> kds_schema \<Rightarrow> kds_ast_val list \<Rightarrow> nat \<Rightarrow> (u8 list \<times> u16) res" where
  "kds_dshell_encode_row_from_vals k schema vals buf_size =
     rbind (encode_cols k (schema_cols schema) vals buf_size []) (\<lambda>bs. Inr (bs, of_nat (length bs)))"

text \<open>The length of the next value and the offset at which it starts.\<close>

definition value_extent :: "kds_type_desc \<Rightarrow> u8 list \<Rightarrow> nat \<Rightarrow> nat \<Rightarrow> (nat \<times> nat) res" where
  "value_extent desc buf buf_len off =
     (if fixed_len desc = 0
      then if buf_len < off + 2 then fails EINVAL
           else case buf_rd (drop off buf) 2 of None \<Rightarrow> Inl Fault | Some b \<Rightarrow> Inr (off + 2, unat (dec16 b))
      else Inr (off, fixed_len desc))"

text \<open>
  The loop over the columns; \<open>out\<close> is the text written so far, \<^verbatim>\<open>n\<close> is its length. The second component is what
  the output buffer holds when the loop ends, with or without an error.
\<close>

fun decode_cols :: "(string \<Rightarrow> int res) \<Rightarrow> bool \<Rightarrow> kds_sys_column list \<Rightarrow> u8 list \<Rightarrow> nat \<Rightarrow> nat \<Rightarrow> nat \<Rightarrow> string \<Rightarrow> unit res \<times> string" where
  "decode_cols k first [] buf buf_len off out_size out = (Inr (), out)"
| "decode_cols k first (col # cols) buf buf_len off out_size out =
     (case col_desc k col of None \<Rightarrow> (fails EINVAL, out)
      | Some desc \<Rightarrow>
          let out1 = (if first then out else out @ scnprintf (out_size - length out) '', '') in
          case value_extent desc buf buf_len off of Inl e \<Rightarrow> (Inl e, out1)
          | Inr (off1, value_len) \<Rightarrow>
              if buf_len < off1 + value_len then (fails EINVAL, out1)
              else let out2 = out1 @ scnprintf (out_size - length out1) (col_name col @ ''='') in
                case t_decode desc (drop off1 buf) value_len (out_size - length out2) of Inl e \<Rightarrow> (Inl e, out2)
                | Inr txt \<Rightarrow> decode_cols k False cols buf buf_len (off1 + value_len) out_size (out2 @ txt))"

text \<open>The return value is the number of characters or the error; the text is what has been written in either case.\<close>

definition kds_dshell_decode_row ::
  "(string \<Rightarrow> int res) \<Rightarrow> kds_schema \<Rightarrow> u8 list \<Rightarrow> u16 \<Rightarrow> nat \<Rightarrow> nat res \<times> string" where
  "kds_dshell_decode_row k schema buf buf_len out_size =
     (case decode_cols k True (schema_cols schema) buf (unat buf_len) 0 out_size [] of
        (r, out) \<Rightarrow> (rbind r (\<lambda>_. Inr (length out)), out))"

text \<open>What the shell relies on of \<^verbatim>\<open>kstrtoll\<close>: it reads a printed 64-bit integer back.\<close>

definition reads_ints :: "(string \<Rightarrow> int res) \<Rightarrow> bool" where
  "reads_ints k \<longleftrightarrow> (\<forall>x. in_width 8 x \<longrightarrow> k (show_int x) = Inr x)"

lemma reads_ints_decimal: "reads_ints kstrtoll_decimal"
  by (simp add: reads_ints_def kstrtoll_decimal_show)

lemma buf_rd_prefix: "n = length bs \<Longrightarrow> buf_rd (bs @ rest) n = Some bs"
  by (simp add: buf_rd_def)

lemma length_show_int64: "in_width 8 x \<Longrightarrow> length (show_int x) \<le> 20"
proof -
  assume "in_width 8 x"
  then have "nat x < 10 ^ 19" "nat (- x) < 10 ^ 19" unfolding in_width_def by (simp_all, linarith+)
  then show ?thesis using length_show_nat [of "nat x" 19] length_show_nat [of "nat (- x)" 19] by (simp add: show_int_def)
qed

text \<open>
  The contract between the encoder and the decoder of a type: the bytes of a value, wherever they stand in a buffer,
  are printed as \<open>t\<close>, and \<open>t\<close> encodes to the same bytes.
\<close>

definition printed_as :: "kds_type_desc \<Rightarrow> u8 list \<Rightarrow> string \<Rightarrow> bool" where
  "printed_as d bs t \<longleftrightarrow> length t \<le> 255 \<and> (\<forall>osz rest. length t < osz \<longrightarrow> t_decode d (bs @ rest) (length bs) osz = Inr t)
     \<and> (\<forall>bsz \<ge> length bs. t_encode d t bsz = Inr bs)"

lemma printed_int:
  assumes k: "reads_ints k" and d: "d \<in> set (kds_type_table k)" "t_compare d \<noteq> None" and e: "t_encode d s bsz = Inr bs"
  shows "\<exists>x. k s = Inr x \<and> printed_as d bs (show_int x)"
proof -
  obtain n where n: "n \<in> {1, 2, 4, 8}" "fixed_len d = n"
    "t_encode d = (\<lambda>s bsz. encode_int_generic k s bsz n (- (2 ^ (8 * n - 1))) (2 ^ (8 * n - 1) - 1))"
    "t_decode d = (\<lambda>b l osz. decode_int_generic b l osz n)"
    by (rule int_entry [OF d])
  from e obtain x where x: "k s = Inr x" "in_width n x" "bs = int_bytes n x" "n \<le> bsz"
    unfolding n(3) encode_int_ok_iff [OF n(1)] by blast
  have w: "in_width 8 x" using x(2) n(1) by (auto simp: in_width_def)
  then have kx: "k (show_int x) = Inr x" using k by (simp add: reads_ints_def)
  have len: "length bs = n" using x(3) length_int_bytes [OF n(1)] by simp
  have "decode_int_generic (bs @ rest) (length bs) osz n = decode_int_generic bs n osz n" for osz rest
    using buf_rd_prefix [of n bs "[]"] by (simp add: decode_int_generic_def buf_rd_prefix len)
  then have "printed_as d bs (show_int x)"
    using length_show_int64 [OF w] decode_int_bytes [OF n(1) x(2)] x kx len
    unfolding printed_as_def n(3,4) encode_int_ok_iff [OF n(1)] by auto
  with x(1) show ?thesis by blast
qed

lemma printed_varchar:
  assumes "encode_varchar s bsz = Inr bs" and "length s \<le> 255" and "t_encode d = encode_varchar" and "t_decode d = decode_varchar"
  shows "printed_as d bs s"
  using assms encode_varchar_length [OF assms(1)] string_of_bytes_of [of s]
  by (auto simp: printed_as_def encode_varchar_def decode_varchar_def buf_rd_prefix bytes_of_def U16_MAX_def Let_def split: if_splits)

lemma printed_bool:
  assumes "encode_bool s bsz = Inr bs" and "t_encode d = encode_bool" and "t_decode d = decode_bool"
  shows "\<exists>t. printed_as d bs t"
proof (intro exI)
  show "printed_as d bs (if bs = [1] then ''true'' else ''false'')"
    using assms by (auto simp: printed_as_def encode_bool_def decode_bool_def buf_rd_def scnprintf_def split: if_splits)
qed

lemma printed_float:
  assumes "encode_float s bsz = Inr bs" and "t_encode d = encode_float" and "t_decode d = decode_float"
  shows "\<exists>t. printed_as d bs t"
proof (intro exI)
  show "printed_as d bs (format_hex_bytes bs)"
    using assms encode_float_length [OF assms(1)]
    by (auto simp: printed_as_def encode_float_def decode_float_def buf_rd_prefix parse_hex_bytes_def hex_pairs_format)
qed

lemma decimal_enc64: "encode_decimal s bsz = Inr bs \<Longrightarrow> \<exists>w. bs = enc64 w"
  by (auto simp: encode_decimal_def Let_def split: if_splits prod.splits)

lemma decode_decimal_scn: "\<exists>t. \<forall>osz. decode_decimal (enc64 w) 8 osz = Inr (scnprintf osz t)"
  by (auto simp: decode_decimal_def buf_rd_def Let_def)

lemma printed_decimal:
  assumes e: "encode_decimal s bsz = Inr bs" "bs \<noteq> enc64 (word_of_int (- (2 ^ 63)))" and d: "t_encode d = encode_decimal" "t_decode d = decode_decimal"
  shows "\<exists>t. printed_as d bs t"
proof -
  obtain w where w: "bs = enc64 w" using decimal_enc64 [OF e(1)] by blast
  with e(2) have ne: "w \<noteq> word_of_int (- (2 ^ 63))" by auto
  obtain t where t: "\<And>osz. decode_decimal (enc64 w) 8 osz = Inr (scnprintf osz t)" using decode_decimal_scn [of w] by blast
  obtain v where v: "v = nat \<bar>sint w\<bar>" by blast
  have u: "scnprintf 32 t = (if sint w < 0 then ''-'' else []) @ show_nat (v div 10000) @ ''.'' @ zero_pad 4 (show_nat (v mod 10000))"
    using t [of 32] decode_decimal_prints [OF ne order_refl] by (simp add: v)
  have "v div 10000 < 10 ^ 16" using sint_bounds64 [of w] unfolding v by (simp add: abs_if) linarith
  then have "length (scnprintf 32 t) < 31"
    using length_show_nat [of "v div 10000" 16] length_show_nat [of "v mod 10000" 4] unfolding u by (simp add: length_zero_pad)
  then have len: "length t < 31" by (simp add: scnprintf_def)
  have "encode_decimal t bsz' = Inr bs" if "8 \<le> bsz'" for bsz'
    using decimal_roundtrip [OF ne order_refl that t [of 32]] w len by (simp add: scnprintf_def)
  moreover have "decode_decimal (bs @ rest) (length bs) osz = decode_decimal bs 8 osz" for rest osz
    by (simp add: decode_decimal_def buf_rd_prefix w buf_rd_prefix [of 8 "enc64 w" "[]", simplified])
  ultimately have "printed_as d bs t"
    using len t by (auto simp: printed_as_def d w scnprintf_def)
  then show ?thesis ..
qed

text \<open>The value whose decimal text does not parse back: the most negative fixed-point number.\<close>

definition plain_val :: "(string \<Rightarrow> int res) \<Rightarrow> kds_sys_column \<Rightarrow> kds_ast_val \<Rightarrow> bool" where
  "plain_val k col v \<longleftrightarrow> sc_type_val col = type_val_code KDS_TYPE_DECIMAL \<longrightarrow> encode_decimal (val_text v) 8 \<noteq> Inr (enc64 (word_of_int (- (2 ^ 63))))"

text \<open>What is printed for a value: an integer in decimal, a string as it is; other types print some text of the same value.\<close>

definition shown :: "(string \<Rightarrow> int res) \<Rightarrow> kds_sys_column \<Rightarrow> kds_ast_val \<Rightarrow> string \<Rightarrow> bool" where
  "shown k col v t \<longleftrightarrow> (\<exists>d. col_desc k col = Some d \<and> (t_compare d \<noteq> None \<longrightarrow> (\<exists>x. k (val_text v) = Inr x \<and> t = show_int x))
     \<and> (fixed_len d = 0 \<longrightarrow> t = val_text v))"

fun row_text :: "bool \<Rightarrow> kds_sys_column list \<Rightarrow> string list \<Rightarrow> string" where
  "row_text first (col # cols) (t # ts) = (if first then [] else '', '') @ col_name col @ ''='' @ t @ row_text False cols ts"
| "row_text first _ _ = []"

lemma col_desc_entry:
  "col_desc k col = Some d \<Longrightarrow> d \<in> set (kds_type_table k) \<and> sc_type_val col = type_val_code (type_val d)"
  using lookup_exact [of k _ _ _ d]
  by (auto simp: col_desc_def type_of_code_def bind_eq_Some_conv split: if_splits)

lemma val_text_short: "length (val_text v) \<le> 255"
  by (cases v) (simp_all add: scnprintf_def KDS_PARSER_VAL_MAX_def)

lemma val_text_str: "length t \<le> 255 \<Longrightarrow> val_text (KDS_VAL_STR t) = t"
  by (simp add: KDS_PARSER_VAL_MAX_def)

lemma encode_decimal_size: "encode_decimal s bsz = Inr bs \<Longrightarrow> encode_decimal s 8 = Inr bs"
  by (auto simp: encode_decimal_def split: if_splits)

lemma text_entry:
  "d \<in> set (kds_type_table k) \<Longrightarrow> t_compare d = None \<Longrightarrow> t_encode d = encode_float \<and> t_decode d = decode_float \<and> fixed_len d \<noteq> 0
     \<or> t_encode d = encode_decimal \<and> t_decode d = decode_decimal \<and> fixed_len d \<noteq> 0 \<and> type_val d = KDS_TYPE_DECIMAL
     \<or> t_encode d = encode_bool \<and> t_decode d = decode_bool \<and> fixed_len d \<noteq> 0 \<or> t_encode d = encode_varchar \<and> t_decode d = decode_varchar"
  unfolding kds_type_table_def mk_desc_def list.set insert_iff empty_iff by (elim disjE) simp_all

text \<open>Every type of the registry keeps the contract.\<close>

lemma printed:
  assumes k: "reads_ints k" and d: "col_desc k col = Some d" and e: "t_encode d (val_text v) bsz = Inr bs" and p: "plain_val k col v"
  shows "\<exists>t. printed_as d bs t \<and> shown k col v t"
proof (cases "t_compare d")
  case (Some c)
  with printed_int [OF k _ _ e] col_desc_entry [OF d] obtain x where x: "k (val_text v) = Inr x" "printed_as d bs (show_int x)" by auto
  have "fixed_len d \<noteq> 0"
    using Some col_desc_entry [OF d] unfolding kds_type_table_def mk_desc_def list.set insert_iff empty_iff
    by (elim conjE disjE) simp_all
  with x d show ?thesis by (auto simp: shown_def)
next
  case None
  have ent: "d \<in> set (kds_type_table k)" "sc_type_val col = type_val_code (type_val d)" using col_desc_entry [OF d] by blast+
  have sh: "shown k col v t" if "fixed_len d = 0 \<longrightarrow> t = val_text v" for t using that None d by (simp add: shown_def)
  from text_entry [OF ent(1) None] consider "t_encode d = encode_float" "t_decode d = decode_float" "fixed_len d \<noteq> 0"
    | "t_encode d = encode_decimal" "t_decode d = decode_decimal" "fixed_len d \<noteq> 0" "type_val d = KDS_TYPE_DECIMAL"
    | "t_encode d = encode_bool" "t_decode d = decode_bool" "fixed_len d \<noteq> 0"
    | "t_encode d = encode_varchar" "t_decode d = decode_varchar" by (elim disjE conjE)
  then show ?thesis
  proof cases
    case 1
    from printed_float [OF e [unfolded 1(1)] 1(1,2)] obtain t where "printed_as d bs t" ..
    moreover from 1(3) have "shown k col v t" by (intro sh) simp
    ultimately show ?thesis by blast
  next
    case 2
    from e 2(1) have e': "encode_decimal (val_text v) bsz = Inr bs" by simp
    from encode_decimal_size [OF this] p ent(2) 2(4) have "bs \<noteq> enc64 (word_of_int (- (2 ^ 63)))" by (auto simp: plain_val_def)
    from printed_decimal [OF e' this 2(1,2)] obtain t where "printed_as d bs t" ..
    moreover from 2(3) have "shown k col v t" by (intro sh) simp
    ultimately show ?thesis by blast
  next
    case 3
    from printed_bool [OF e [unfolded 3(1)] 3(1,2)] obtain t where "printed_as d bs t" ..
    moreover from 3(3) have "shown k col v t" by (intro sh) simp
    ultimately show ?thesis by blast
  next
    case 4
    from printed_varchar [OF e [unfolded 4(1)] val_text_short 4] sh [of "val_text v"] show ?thesis by blast
  qed
qed

definition field :: "kds_type_desc \<Rightarrow> u8 list \<Rightarrow> u8 list" where
  "field d bs = (if fixed_len d = 0 then enc16 (of_nat (length bs)) else []) @ bs"

lemma encode_col:
  assumes d: "col_desc k col = Some d" and a: "length acc \<le> sz" "sz \<le> 65535"
  shows "encode_cols k (col # cols) (val # vals) sz acc = Inr row \<longleftrightarrow>
    (\<exists>bs. t_encode d (val_text val) (sz - length acc - (if fixed_len d = 0 then 2 else 0)) = Inr bs \<and> length acc + length (field d bs) \<le> sz
      \<and> length bs \<le> 65535 \<and> (fixed_len d \<noteq> 0 \<longrightarrow> length bs = fixed_len d) \<and> encode_cols k cols vals sz (acc @ field d bs) = Inr row)"
proof -
  have "length bs \<le> n \<and> (fixed_len d \<noteq> 0 \<longrightarrow> length bs = fixed_len d)" if "t_encode d s n = Inr bs" for s n bs
    using encode_in_bounds [OF _ that] col_desc_entry [OF d] by blast
  then show ?thesis
    using a by (auto simp: d field_def rbind_ok_iff) fastforce+
qed

lemma extent_at:
  assumes "buf = pre @ field d bs @ rest" and "length pre + length (field d bs) \<le> buf_len" and "length bs \<le> 65535"
    and "fixed_len d \<noteq> 0 \<longrightarrow> length bs = fixed_len d"
  shows "\<exists>off. value_extent d buf buf_len (length pre) = Inr (off, length bs) \<and> off + length bs = length pre + length (field d bs)
    \<and> drop off buf = bs @ rest"
proof (cases "fixed_len d = 0")
  case True
  have "unat (of_nat (length bs) :: u16) = length bs" using assms(3) by (simp add: unat_of_nat take_bit_nat_eq_self)
  with True assms show ?thesis by (auto simp: value_extent_def field_def buf_rd_prefix)
next
  case False
  with assms show ?thesis by (auto simp: value_extent_def field_def)
qed

lemma decode_col:
  assumes d: "col_desc k col = Some d" and b: "buf = pre @ field d bs @ rest" "length pre + length (field d bs) \<le> buf_len" "length bs \<le> 65535"
      "fixed_len d \<noteq> 0 \<longrightarrow> length bs = fixed_len d"
    and t: "printed_as d bs t" and o: "length out + length (row_text first [col] [t]) < osz"
  shows "decode_cols k first (col # cols) buf buf_len (length pre) osz out =
    decode_cols k False cols buf buf_len (length pre + length (field d bs)) osz (out @ row_text first [col] [t])"
proof -
  obtain off where off: "value_extent d buf buf_len (length pre) = Inr (off, length bs)" "off + length bs = length pre + length (field d bs)"
    "drop off buf = bs @ rest" using extent_at [OF b] by blast
  have dec: "t_decode d (bs @ rest) (length bs) n = Inr t" if "length t < n" for n using t that by (simp add: printed_as_def)
  have scn: "scnprintf n x = x" if "length x < n" for n x using that by (simp add: scnprintf_def)
  show ?thesis
    using o b(2) by (cases first) (simp_all add: d off Let_def dec scn)
qed

lemma row_codec:
  assumes k: "reads_ints k"
  shows "encode_cols k cols vals sz acc = Inr row \<Longrightarrow> length acc \<le> sz \<Longrightarrow> sz \<le> 65535 \<Longrightarrow> (\<forall>(c, v) \<in> set (zip cols vals). plain_val k c v) \<Longrightarrow>
    \<exists>ts. length ts = length cols \<and> length cols \<le> length vals \<and> (\<forall>i < length cols. shown k (cols ! i) (vals ! i) (ts ! i))
      \<and> length row \<le> sz \<and> take (length acc) row = acc \<and> length acc \<le> length row \<and> encode_cols k cols (map KDS_VAL_STR ts) sz acc = Inr row
      \<and> (\<forall>first osz out rest. length out + length (row_text first cols ts) < osz \<longrightarrow>
           decode_cols k first cols (row @ rest) (length row) (length acc) osz out = (Inr (), out @ row_text first cols ts))"
proof (induction cols arbitrary: vals acc)
  case Nil
  then show ?case by simp
next
  case (Cons col cols)
  then obtain v vs where v: "vals = v # vs" by (cases vals) auto
  from Cons.prems(1) v obtain d where d: "col_desc k col = Some d" by (cases "col_desc k col") auto
  from Cons.prems(1) [unfolded v encode_col [OF d Cons.prems(2,3)]] obtain bs where
    bs: "t_encode d (val_text v) (sz - length acc - (if fixed_len d = 0 then 2 else 0)) = Inr bs" "length acc + length (field d bs) \<le> sz"
      "length bs \<le> 65535" "fixed_len d \<noteq> 0 \<longrightarrow> length bs = fixed_len d" and rec: "encode_cols k cols vs sz (acc @ field d bs) = Inr row"
    by blast
  obtain t where t: "printed_as d bs t" "shown k col v t" using printed [OF k d bs(1)] Cons.prems(4) v by auto
  from Cons.IH [OF rec] bs(2) Cons.prems(3,4) v obtain ts where ts: "length ts = length cols" "length cols \<le> length vs"
    "\<forall>i < length cols. shown k (cols ! i) (vs ! i) (ts ! i)" "length row \<le> sz" "take (length acc + length (field d bs)) row = acc @ field d bs"
    "length acc + length (field d bs) \<le> length row" "encode_cols k cols (map KDS_VAL_STR ts) sz (acc @ field d bs) = Inr row"
    "\<And>first osz out rest. length out + length (row_text first cols ts) < osz \<Longrightarrow>
       decode_cols k first cols (row @ rest) (length row) (length acc + length (field d bs)) osz out = (Inr (), out @ row_text first cols ts)"
    by auto
  have row: "row = acc @ field d bs @ drop (length acc + length (field d bs)) row"
    using append_take_drop_id [of "length acc + length (field d bs)" row] ts(5) by simp
  have enc: "t_encode d t n = Inr bs" if "length bs \<le> n" for n using t(1) that by (simp add: printed_as_def)
  have "encode_cols k (col # cols) (map KDS_VAL_STR (t # ts)) sz acc = Inr row"
    unfolding list.map encode_col [OF d Cons.prems(2,3)] using bs ts(7) t(1)
    by (intro exI [of _ bs]) (auto simp: val_text_str printed_as_def field_def simp del: val_text.simps intro!: enc)
  moreover have "decode_cols k first (col # cols) (row @ rest) (length row) (length acc) osz out = (Inr (), out @ row_text first (col # cols) (t # ts))"
    if "length out + length (row_text first (col # cols) (t # ts)) < osz" for first osz out rest
    using that ts(8) [where first = False and out = "out @ row_text first [col] [t]" and osz = osz and rest = rest]
    by (subst decode_col [OF d _ ts(6) bs(3,4) t(1), where rest = "drop (length acc + length (field d bs)) row @ rest"])
       (use row in \<open>simp_all\<close>)
  moreover have "\<forall>i < length (col # cols). shown k ((col # cols) ! i) (vals ! i) ((t # ts) ! i)"
    using ts(3) t(2) v by (auto simp: less_Suc_eq_0_disj)
  moreover have "take (length acc) row = acc" using arg_cong [OF row, of "take (length acc)"] by simp
  ultimately show ?case using ts(1,2,4,6) v by (intro exI [of _ "t # ts"]) simp
qed

text \<open>C27: what \<^verbatim>\<open>SELECT\<close> prints for a row that \<^verbatim>\<open>INSERT\<close> has encoded: every column with its name, an integer in decimal, a string as it was given; and the printed values, given to \<^verbatim>\<open>INSERT\<close> as strings, encode to the same bytes. The one value excluded is the most negative decimal, whose printed text does not parse. \<^verbatim>\<open>kstrtoll\<close> is assumed to read a printed 64-bit integer back.\<close>

theorem row_roundtrip:
  assumes "reads_ints k" and "kds_dshell_encode_row_from_vals k schema vals KDS_DSHELL_ROW_MAX = Inr (row, n)"
    and "\<forall>(c, v) \<in> set (zip (schema_cols schema) vals). plain_val k c v"
  shows "\<exists>ts. length ts = length (schema_cols schema) \<and> (\<forall>i < length ts. shown k (schema_cols schema ! i) (vals ! i) (ts ! i))
    \<and> kds_dshell_encode_row_from_vals k schema (map KDS_VAL_STR ts) KDS_DSHELL_ROW_MAX = Inr (row, n)
    \<and> (\<forall>out_size rest. length (row_text True (schema_cols schema) ts) < out_size \<longrightarrow>
         kds_dshell_decode_row k schema (row @ rest) n out_size
           = (Inr (length (row_text True (schema_cols schema) ts)), row_text True (schema_cols schema) ts))"
proof -
  have enc: "encode_cols k (schema_cols schema) vals 256 [] = Inr row" and n: "n = of_nat (length row)"
    using assms(2) by (auto simp: kds_dshell_encode_row_from_vals_def rbind_ok_iff KDS_DSHELL_ROW_MAX_def)
  from row_codec [OF assms(1) enc _ _ assms(3)] obtain ts where ts: "length ts = length (schema_cols schema)"
      "\<forall>i < length (schema_cols schema). shown k (schema_cols schema ! i) (vals ! i) (ts ! i)" "length row \<le> 256"
      "encode_cols k (schema_cols schema) (map KDS_VAL_STR ts) 256 [] = Inr row"
      "\<And>osz rest. length (row_text True (schema_cols schema) ts) < osz \<Longrightarrow>
        decode_cols k True (schema_cols schema) (row @ rest) (length row) 0 osz [] = (Inr (), row_text True (schema_cols schema) ts)"
    by force
  have "unat n = length row" using ts(3) n by (simp add: unat_of_nat take_bit_nat_eq_self)
  with ts n show ?thesis
    by (intro exI [of _ ts]) (simp add: kds_dshell_encode_row_from_vals_def kds_dshell_decode_row_def KDS_DSHELL_ROW_MAX_def)
qed

definition mk_col :: "string \<Rightarrow> kds_type_val \<Rightarrow> kds_sys_column" where
  "mk_col n t = \<lparr>sc_oid = 0, sc_rel_id = 0, sc_pos = 0, sc_name = bytes_of n @ [0], sc_type_val = type_val_code t, sc_len = 0, sc_notnull = 1\<rparr>"

definition shell_schema :: kds_schema where
  "shell_schema = \<lparr>sch_cols = [mk_col ''id'' KDS_TYPE_INT64, mk_col ''name'' KDS_TYPE_VARCHAR], nr_cols = 2\<rparr>"

definition shell_vals :: "kds_ast_val list" where
  "shell_vals = [KDS_VAL_INT 7, KDS_VAL_STR ''ada'']"

lemma shell_cols: "schema_cols shell_schema = [mk_col ''id'' KDS_TYPE_INT64, mk_col ''name'' KDS_TYPE_VARCHAR]"
  by (simp add: schema_cols_def shell_schema_def)

lemma mk_col_desc:
  "col_desc k (mk_col a KDS_TYPE_INT64) = Some (mk_desc KDS_TYPE_INT64 ''int64'' 8 (encode_int64 k) decode_int64 (Some compare_int64))"
  "col_desc k (mk_col a KDS_TYPE_VARCHAR) = Some (mk_desc KDS_TYPE_VARCHAR ''varchar'' 0 encode_varchar decode_varchar None)"
  by (simp_all add: col_desc_def type_of_code_def mk_col_def kds_type_lookup_by_val_def kds_type_table_def mk_desc_def)

lemma seven: "show_int 7 = ''7''" "kstrtoll_decimal ''7'' = Inr 7" "val_text (KDS_VAL_INT 7) = ''7''" "val_text (KDS_VAL_STR ''ada'') = ''ada''"
proof -
  show "show_int 7 = ''7''" by (simp add: show_int_def show_nat.simps char_of_def bit_0)
  then show "val_text (KDS_VAL_INT 7) = ''7''" by (simp add: scnprintf_def KDS_PARSER_VAL_MAX_def take_all)
  have "is_digit (CHR ''7'')" "digit_val (CHR ''7'') = 7" by (simp_all add: is_digit_def digit_val_def of_char_def)
  then show "kstrtoll_decimal ''7'' = Inr 7" by (simp add: kstrtoll_decimal_def in_width_def)
  show "val_text (KDS_VAL_STR ''ada'') = ''ada''" by (simp add: KDS_PARSER_VAL_MAX_def)
qed

lemma ada_bytes: "encode_varchar ''ada'' n = (if n < 3 then fails ENOSPC else Inr [97, 100, 97])" "enc16 3 = [3, 0]"
proof -
  show "encode_varchar ''ada'' n = (if n < 3 then fails ENOSPC else Inr [97, 100, 97])"
    by (simp add: encode_varchar_def U16_MAX_def bytes_of_def of_char_def Let_def)
  have "(2 :: nat) = Suc (Suc 0)" by simp
  then show "enc16 3 = [3, 0]" by (simp only: enc16_def le_bytes.simps) simp
qed

lemma shell_row:
  "kds_dshell_encode_row_from_vals kstrtoll_decimal shell_schema shell_vals KDS_DSHELL_ROW_MAX = Inr (enc64 7 @ [3, 0, 97, 100, 97], 13)"
  by (simp add: kds_dshell_encode_row_from_vals_def shell_cols shell_vals_def mk_col_desc mk_desc_def encode_int64_def encode_int_generic_def
      KDS_DSHELL_ROW_MAX_def seven ada_bytes del: val_text.simps)

theorem row_roundtrip_witness:
  "kds_dshell_encode_row_from_vals kstrtoll_decimal shell_schema [KDS_VAL_STR ''7'', KDS_VAL_STR ''ada''] KDS_DSHELL_ROW_MAX
     = Inr (enc64 7 @ [3, 0, 97, 100, 97], 13)
   \<and> kds_dshell_decode_row kstrtoll_decimal shell_schema (enc64 7 @ [3, 0, 97, 100, 97]) 13 64 = (Inr 14, ''id=7, name=ada'')"
proof -
  have plain: "\<forall>(c, v) \<in> set (zip (schema_cols shell_schema) shell_vals). plain_val kstrtoll_decimal c v"
    by (simp add: shell_cols shell_vals_def plain_val_def mk_col_def)
  from row_roundtrip [OF reads_ints_decimal shell_row plain] obtain ts where ts: "length ts = length (schema_cols shell_schema)"
    "\<forall>i < length ts. shown kstrtoll_decimal (schema_cols shell_schema ! i) (shell_vals ! i) (ts ! i)"
    "kds_dshell_encode_row_from_vals kstrtoll_decimal shell_schema (map KDS_VAL_STR ts) KDS_DSHELL_ROW_MAX = Inr (enc64 7 @ [3, 0, 97, 100, 97], 13)"
    "length (row_text True (schema_cols shell_schema) ts) < 64 \<longrightarrow> kds_dshell_decode_row kstrtoll_decimal shell_schema ((enc64 7 @ [3, 0, 97, 100, 97]) @ []) 13 64
       = (Inr (length (row_text True (schema_cols shell_schema) ts)), row_text True (schema_cols shell_schema) ts)"
    by blast
  then obtain a b where ab: "ts = [a, b]" by (auto simp: shell_cols length_Suc_conv)
  with ts(2) have "shown kstrtoll_decimal (mk_col ''id'' KDS_TYPE_INT64) (KDS_VAL_INT 7) a" "shown kstrtoll_decimal (mk_col ''name'' KDS_TYPE_VARCHAR) (KDS_VAL_STR ''ada'') b"
    by (auto simp: shell_cols shell_vals_def dest: spec [of _ 0] spec [of _ 1])
  then have t: "ts = [''7'', ''ada'']"
    by (simp add: ab shown_def mk_col_desc mk_desc_def seven del: val_text.simps)
  have names: "col_name (mk_col ''id'' t) = ''id''" "col_name (mk_col ''name'' t) = ''name''" for t
    by (simp_all add: col_name_def mk_col_def bytes_of_def string_of_def of_char_def char_of_def bit_0)
  show ?thesis using ts(3,4) by (simp add: t shell_cols names)
qed

lemma encode_bounds:
  "encode_cols k cols vals sz acc = Inr row \<Longrightarrow> length acc \<le> sz \<Longrightarrow> sz \<le> 65535 \<Longrightarrow> length row \<le> sz \<and> take (length acc) row = acc \<and> length acc \<le> length row"
proof (induction cols arbitrary: vals acc)
  case Nil
  then show ?case by simp
next
  case (Cons col cols)
  then obtain v vs d where v: "vals = v # vs" "col_desc k col = Some d" by (cases vals; cases "col_desc k col") auto
  with Cons.prems encode_col [OF v(2) Cons.prems(2,3)] obtain bs where
    bs: "encode_cols k cols vs sz (acc @ field d bs) = Inr row" "length acc + length (field d bs) \<le> sz" by blast
  with Cons.IH [OF bs(1)] Cons.prems(3) have i: "length row \<le> sz" "take (length acc + length (field d bs)) row = acc @ field d bs" "length acc + length (field d bs) \<le> length row"
    by auto
  have "take (length acc) row = take (length acc) (take (length acc + length (field d bs)) row)" by simp
  then show ?case unfolding i(2) using i by simp
qed

lemma encoded_key:
  assumes "kds_dshell_encode_row_from_vals k schema vals KDS_DSHELL_ROW_MAX = Inr (row, n)"
    and "schema_cols schema \<noteq> []" and "sc_type_val (hd (schema_cols schema)) = type_val_code KDS_TYPE_INT64"
  shows "unat n = length row \<and> 8 \<le> length row \<and> length row \<le> KDS_DSHELL_ROW_MAX
    \<and> (\<exists>x. k (val_text (hd vals)) = Inr x \<and> in_width 8 x \<and> dec64 (take 8 row) = word_of_int x)"
proof -
  have enc: "encode_cols k (schema_cols schema) vals 256 [] = Inr row" and n: "n = of_nat (length row)"
    using assms(1) by (auto simp: kds_dshell_encode_row_from_vals_def rbind_ok_iff KDS_DSHELL_ROW_MAX_def)
  obtain col cols where c: "schema_cols schema = col # cols" using assms(2) by (cases "schema_cols schema") auto
  obtain v vs where v: "vals = v # vs" using enc c by (cases vals) auto
  have d: "col_desc k col = Some (mk_desc KDS_TYPE_INT64 ''int64'' 8 (encode_int64 k) decode_int64 (Some compare_int64))"
    using assms(3) c by (simp add: col_desc_def type_of_code_def kds_type_lookup_by_val_def kds_type_table_def mk_desc_def)
  from enc encode_col [OF d, of "[]" 256] obtain bs where bs: "encode_int64 k (val_text v) 256 = Inr bs" "encode_cols k cols vs 256 bs = Inr row"
    by (auto simp: c v mk_desc_def field_def)
  from bs(1) obtain x where x: "k (val_text v) = Inr x" "in_width 8 x" "bs = enc64 (word_of_int x)"
    by (auto simp: encode_int64_def encode_int_generic_def in_width_def split: if_splits sum.splits)
  from encode_bounds [OF bs(2)] x(3) have r: "length row \<le> 256" "take 8 row = enc64 (word_of_int x)" "8 \<le> length row" by auto
  then have "unat n = length row" using n by (simp add: unat_of_nat take_bit_nat_eq_self)
  with r x v show ?thesis by (simp add: KDS_DSHELL_ROW_MAX_def)
qed

text \<open>an encoded row fits the shell's buffer and its length the 16-bit length field; when the first column has type int64, as \<^verbatim>\<open>CREATE TABLE\<close> demands, the row begins with the eight bytes of the first value, so the test for a row too short to contain the key never fires.\<close>

theorem encoded_row_key:
  assumes "kds_dshell_encode_row_from_vals k schema vals KDS_DSHELL_ROW_MAX = Inr (row, n)"
    and "schema_cols schema \<noteq> []" and "sc_type_val (hd (schema_cols schema)) = type_val_code KDS_TYPE_INT64"
  shows "unat n = length row \<and> 8 \<le> length row \<and> length row \<le> KDS_DSHELL_ROW_MAX
    \<and> (\<exists>x. k (val_text (hd vals)) = Inr x \<and> in_width 8 x \<and> dec64 (take 8 row) = word_of_int x)"
  using assms by (rule encoded_key)

theorem encoded_row_key_witness:
  "length (enc64 7 @ [3, 0, 97, 100, 97]) \<le> KDS_DSHELL_ROW_MAX \<and> (\<exists>x. kstrtoll_decimal (val_text (hd shell_vals)) = Inr x
     \<and> dec64 (take 8 (enc64 7 @ [3, 0, 97, 100, 97])) = word_of_int x)"
  using encoded_row_key [OF shell_row] by (auto simp: schema_cols_def shell_schema_def mk_col_def)

end
