(* ===== verification/Kds_Dshell.thy ===== *)
theory Kds_Dshell
  imports Kds_Keeps Kds_Rows
begin

text \<open>
  The shell on \<^verbatim>\<open>/dev/kds\<close> (\<^verbatim>\<open>dshell.c\<close>, \<^verbatim>\<open>kds_dshell.h\<close>): the character device, the clients with their response buffers,
  the commands, and the process that runs the executors of waiting clients slice by slice. A write parses a statement
  and runs it; an insertion is handed to the shell's process and the writer sleeps until its completion or a timeout.
  Client structures live in a store indexed by address: a freed client is \<open>None\<close> and touching it is \<open>Fault\<close>. While
  the process runs an executor it holds no lock; what other CPUs do then is the parameter \<open>gap\<close>.
\<close>

section \<open>Clients and state\<close>

definition DSHELL_LINE_MAX :: nat where "DSHELL_LINE_MAX = 256"
definition DSHELL_RESP_MAX :: nat where "DSHELL_RESP_MAX = 512"
definition KDS_DSHELL_EXEC_TIMEOUT_MS :: nat where "KDS_DSHELL_EXEC_TIMEOUT_MS = 5000"
definition KDS_DSHELL_XID :: u64 where "KDS_DSHELL_XID = 1"
definition KDS_PROC_PRIORITY_SYSTEM_BACKGROUND :: s32 where "KDS_PROC_PRIORITY_SYSTEM_BACKGROUND = 30"
definition KDS_PARSER_ERR_MAX :: nat where "KDS_PARSER_ERR_MAX = 256"

datatype kds_dshell_exec_state = KDS_DSHELL_EXEC_IDLE | KDS_DSHELL_EXEC_PENDING

text \<open>What \<^verbatim>\<open>exec_buf\<close> holds: nothing yet (zero-filled) or one of the two executors.\<close>

datatype dshell_exec = No_exec | Heap_insert kds_heap_insert_exec | Btree_insert kds_btree_insert_exec

text \<open>\<open>cl_done\<close> is the counter of the completion.\<close>

record kds_dshell_client =
  resp_buf :: string
  resp_len :: nat
  resp_pos :: nat
  exec_status :: kds_dshell_exec_state
  exec_buf :: dshell_exec
  cl_done :: nat

text \<open>The last four fields tell which objects of the device model exist.\<close>

record dshell_state = sched_state +
  clients :: "nat \<Rightarrow> kds_dshell_client option"
  kds_dshell_clients :: "nat list"
  next_client :: nat
  kds_dshell_inited :: bool
  kds_dshell_proc :: "nat option"
  dev_region :: bool
  dev_cdev :: bool
  dev_class :: bool
  dev_node :: bool

text \<open>
  The environment of a command: the kernel services, the checksum and the string-to-integer function of the kernel,
  the number of pages a walk along a page chain may visit, the address the kernel returns for the shell's process
  structure, and the results of the four calls of the device model.
\<close>

record dshell_env =
  d_kenv :: kenv
  d_sched :: sched_env
  d_crc :: "u32 \<Rightarrow> u8 list \<Rightarrow> u32"
  d_kstrtoll :: "string \<Rightarrow> int res"
  d_pages :: nat
  d_proc :: nat
  d_region :: "errno option"
  d_cdev :: "errno option"
  d_class :: "errno option"
  d_device :: "errno option"

definition the_client :: "nat \<Rightarrow> ('z dshell_state_scheme, kds_dshell_client) call" where
  "the_client c = sbind sget (\<lambda>s. case clients s c of None \<Rightarrow> sfail Fault | Some cl \<Rightarrow> sret cl)"

definition upd_client :: "nat \<Rightarrow> (kds_dshell_client \<Rightarrow> kds_dshell_client) \<Rightarrow> ('z dshell_state_scheme, unit) call" where
  "upd_client c f = sbind (the_client c) (\<lambda>cl. smod (\<lambda>s. s\<lparr>clients := (clients s)(c \<mapsto> f cl)\<rparr>))"

text \<open>Sequencing of calls that may not return within the rounds they were given.\<close>

definition sobind :: "('s, 'a option) call \<Rightarrow> ('a \<Rightarrow> ('s, 'b option) call) \<Rightarrow> ('s, 'b option) call" where
  "sobind m f = sbind m (\<lambda>r. case r of None \<Rightarrow> sret None | Some x \<Rightarrow> f x)"

section \<open>Responses\<close>

definition NL :: string where "NL = [CHR 0x0A]"

primrec errno_code :: "errno \<Rightarrow> nat" where
  "errno_code EINVAL = 22"
| "errno_code ENOSPC = 28"
| "errno_code ENOENT = 2"
| "errno_code EEXIST = 17"
| "errno_code ENOMEM = 12"
| "errno_code ENODEV = 19"
| "errno_code EIO = 5"
| "errno_code ERANGE = 34"
| "errno_code EMSGSIZE = 90"
| "errno_code E2BIG = 7"
| "errno_code ENOSYS = 38"
| "errno_code ETIMEDOUT = 110"
| "errno_code EFAULT = 14"

text \<open>\<^verbatim>\<open>%d\<close> of a return value, \<^verbatim>\<open>%llu\<close> of a 64-bit number, \<^verbatim>\<open>%llx\<close>.\<close>

definition ret_text :: "errno \<Rightarrow> string" where "ret_text e = CHR ''-'' # show_nat (errno_code e)"

definition u64_text :: "u64 \<Rightarrow> string" where "u64_text w = show_nat (unat w)"

fun show_hex :: "nat \<Rightarrow> string" where
  "show_hex n = (if n < 16 then [hexdigits ! n] else show_hex (n div 16) @ [hexdigits ! (n mod 16)])"

declare show_hex.simps [simp del]

text \<open>Text and its terminator at a position of a buffer; the C string a buffer holds.\<close>

definition put_text :: "nat \<Rightarrow> string \<Rightarrow> string \<Rightarrow> string" where
  "put_text n t buf = take n buf @ t @ [CHR 0x00] @ drop (n + length t + 1) buf"

definition c_text :: "string \<Rightarrow> string" where
  "c_text buf = takeWhile (\<lambda>c. c \<noteq> CHR 0x00) buf"

text \<open>\<^verbatim>\<open>n += scnprintf(out + n, out_size - n, ...)\<close>\<close>

definition out_append :: "nat \<Rightarrow> string \<Rightarrow> string \<Rightarrow> nat \<times> string" where
  "out_append n t buf =
     (let w = scnprintf (length buf - n) t in (n + length w, if n < length buf then put_text n w buf else buf))"

text \<open>\<^verbatim>\<open>scnprintf(out, out_size, ...)\<close> where \<^verbatim>\<open>out\<close> is the response buffer of a client.\<close>

definition say :: "nat \<Rightarrow> string \<Rightarrow> ('z dshell_state_scheme, unit) call" where
  "say c t = upd_client c (\<lambda>cl. cl\<lparr>resp_buf := snd (out_append 0 t (resp_buf cl))\<rparr>)"

definition reply_error :: "nat \<Rightarrow> string \<Rightarrow> errno \<Rightarrow> ('z dshell_state_scheme, 'a) call" where
  "reply_error c t e = sbind (say c t) (\<lambda>_. sfail (Errno e))"

text \<open>The staging of a response that ends a command: its length, from its start.\<close>

definition stage :: "kds_dshell_client \<Rightarrow> kds_dshell_client" where
  "stage cl = cl\<lparr>resp_len := length (c_text (resp_buf cl)), resp_pos := 0\<rparr>"

section \<open>Executors of clients\<close>

definition run_client_exec :: "dshell_env \<Rightarrow> dshell_exec \<Rightarrow> u64 \<Rightarrow> ('z dshell_state_scheme, (kds_exec_result \<times> dshell_exec) option) call" where
  "run_client_exec de ex slice_ns = (case ex of
       No_exec \<Rightarrow> sfail Fault
     | Heap_insert h \<Rightarrow>
         sobind (kds_exec_run (d_sched de) (kds_heap_insert_exec_run (d_kenv de) (d_sched de) (d_crc de) (d_pages de)) h slice_ns)
           (\<lambda>(r, h'). sret (Some (r, Heap_insert h')))
     | Btree_insert b \<Rightarrow>
         sobind (kds_exec_run (d_sched de) (kds_btree_insert_exec_run (d_kenv de) (d_sched de) (d_crc de)) b slice_ns)
           (\<lambda>(r, b'). sret (Some (r, Btree_insert b'))))"

definition exec_ret :: "dshell_exec \<Rightarrow> errno option" where
  "exec_ret ex = (case ex of No_exec \<Rightarrow> None | Heap_insert h \<Rightarrow> ex_ret h | Btree_insert b \<Rightarrow> ex_ret b)"

text \<open>\<^verbatim>\<open>es->ret\<close> as text, 0 when no error is stored.\<close>

definition exec_ret_text :: "dshell_exec \<Rightarrow> string" where
  "exec_ret_text ex = (case exec_ret ex of None \<Rightarrow> ''0'' | Some e \<Rightarrow> ret_text e)"

text \<open>The successor of a client in the list, read when the loop goes on.\<close>

definition list_next :: "nat \<Rightarrow> nat list \<Rightarrow> nat option" where
  "list_next c cs = (case dropWhile (\<lambda>d. d \<noteq> c) cs of _ # d # _ \<Rightarrow> Some d | _ \<Rightarrow> None)"

text \<open>A client whose executor has ended: the response of a failure, the staging, the completion.\<close>

definition finish_client :: "nat \<Rightarrow> kds_exec_result \<Rightarrow> dshell_exec \<Rightarrow> ('z dshell_state_scheme, unit) call" where
  "finish_client c r ex =
     sbind (if r = KDS_EXEC_ERROR then say c (''ERR exec failed: '' @ exec_ret_text ex @ NL) else sret ()) (\<lambda>_.
     upd_client c (\<lambda>cl. (stage cl)\<lparr>exec_status := KDS_DSHELL_EXEC_IDLE, cl_done := Suc (cl_done cl)\<rparr>))"

text \<open>The loop over the list of clients; \<open>n\<close> clients may be visited. The executor works in
  \<^verbatim>\<open>exec_buf\<close> while the list is unlocked: what it leaves there is stored after \<open>gap\<close>, on every result.\<close>

fun service_clients ::
  "dshell_env \<Rightarrow> ('z dshell_state_scheme, unit) call \<Rightarrow> u64 \<Rightarrow> nat \<Rightarrow> nat option \<Rightarrow> ('z dshell_state_scheme, kds_proc_result option) call" where
  "service_clients de gap slice_ns n None = sret (Some KDS_PROC_YIELD_RET)"
| "service_clients de gap slice_ns 0 (Some c) = sret None"
| "service_clients de gap slice_ns (Suc n) (Some c) =
     sbind (the_client c) (\<lambda>cl.
     if exec_status cl \<noteq> KDS_DSHELL_EXEC_PENDING
     then sbind sget (\<lambda>s. service_clients de gap slice_ns n (list_next c (kds_dshell_clients s)))
     else sobind (run_client_exec de (exec_buf cl) slice_ns) (\<lambda>(r, ex).
       sbind gap (\<lambda>_.
       sbind (upd_client c (\<lambda>cl. cl\<lparr>exec_buf := ex\<rparr>)) (\<lambda>_.
       if r = KDS_EXEC_CONTINUE then sret (Some KDS_PROC_YIELD_RET)
       else sbind (finish_client c r ex) (\<lambda>_.
         sbind sget (\<lambda>s. service_clients de gap slice_ns n (list_next c (kds_dshell_clients s))))))))"

definition kds_dshell_proc_run ::
  "dshell_env \<Rightarrow> ('z dshell_state_scheme, unit) call \<Rightarrow> u64 \<Rightarrow> ('z dshell_state_scheme, kds_proc_result option) call" where
  "kds_dshell_proc_run de gap slice_ns = sbind sget (\<lambda>s.
     service_clients de gap slice_ns (length (kds_dshell_clients s))
       (case kds_dshell_clients s of [] \<Rightarrow> None | c # _ \<Rightarrow> Some c))"

section \<open>Waiting for an executor\<close>

text \<open>
  \<^verbatim>\<open>wait_for_completion_timeout\<close>: while the writer sleeps the scheduler runs the shell's process; \<open>nr\<close> is how
  often it does so before the timeout. The result tells whether the completion came. The time is over between two
  rounds: a slice that is running on another CPU at that moment is not expressed.
\<close>

fun wait_for_completion ::
  "dshell_env \<Rightarrow> ('z dshell_state_scheme, unit) call \<Rightarrow> u64 \<Rightarrow> nat \<Rightarrow> nat \<Rightarrow> ('z dshell_state_scheme, bool option) call" where
  "wait_for_completion de gap slice_ns 0 c =
     sbind (the_client c) (\<lambda>cl.
     if cl_done cl \<noteq> 0 then sbind (upd_client c (\<lambda>cl. cl\<lparr>cl_done := cl_done cl - 1\<rparr>)) (\<lambda>_. sret (Some True))
     else sret (Some False))"
| "wait_for_completion de gap slice_ns (Suc k) c =
     sbind (the_client c) (\<lambda>cl.
     if cl_done cl \<noteq> 0 then sbind (upd_client c (\<lambda>cl. cl\<lparr>cl_done := cl_done cl - 1\<rparr>)) (\<lambda>_. sret (Some True))
     else sobind (kds_dshell_proc_run de gap slice_ns) (\<lambda>_. wait_for_completion de gap slice_ns k c))"

definition cancel_exec :: "nat \<Rightarrow> ('z dshell_state_scheme, unit) call" where
  "cancel_exec c =
     sbind (upd_client c (\<lambda>cl. if exec_status cl = KDS_DSHELL_EXEC_PENDING then cl\<lparr>exec_status := KDS_DSHELL_EXEC_IDLE\<rparr> else cl)) (\<lambda>_.
     sbind (say c (''ERR exec timed out after '' @ show_nat KDS_DSHELL_EXEC_TIMEOUT_MS @ ''ms'' @ NL)) (\<lambda>_.
     upd_client c stage))"

definition kds_dshell_run_exec_via_proc ::
  "dshell_env \<Rightarrow> ('z dshell_state_scheme, unit) call \<Rightarrow> u64 \<Rightarrow> nat \<Rightarrow> nat \<Rightarrow> ('z dshell_state_scheme, unit option) call" where
  "kds_dshell_run_exec_via_proc de gap slice_ns nr c =
     sbind (upd_client c (\<lambda>cl. cl\<lparr>cl_done := 0\<rparr>)) (\<lambda>_.
     sbind (upd_client c (\<lambda>cl. cl\<lparr>exec_status := KDS_DSHELL_EXEC_PENDING\<rparr>)) (\<lambda>_.
     sobind (wait_for_completion de gap slice_ns nr c) (\<lambda>completed.
     if completed then sret (Some ())
     else sbind (cancel_exec c) (\<lambda>_. sfail (Errno ETIMEDOUT)))))"

definition kds_dshell_submit_insert_exec ::
  "dshell_env \<Rightarrow> ('z dshell_state_scheme, unit) call \<Rightarrow> u64 \<Rightarrow> nat \<Rightarrow> nat \<Rightarrow> kds_heap_insert_exec \<Rightarrow> ('z dshell_state_scheme, unit option) call" where
  "kds_dshell_submit_insert_exec de gap slice_ns nr c exec_init =
     sbind (upd_client c (\<lambda>cl. cl\<lparr>exec_buf := Heap_insert exec_init\<rparr>)) (\<lambda>_.
     kds_dshell_run_exec_via_proc de gap slice_ns nr c)"

section \<open>CREATE TABLE\<close>

definition clustered_code :: "kds_clustered_type \<Rightarrow> u32" where
  "clustered_code t = (case t of Kds_Parser.KDS_CLUSTERED_HEAP \<Rightarrow> Kds_Catalog.KDS_CLUSTERED_HEAP
     | Kds_Parser.KDS_CLUSTERED_BTREE \<Rightarrow> Kds_Catalog.KDS_CLUSTERED_BTREE)"

text \<open>The column of a definition; \<^verbatim>\<open>kzalloc\<close> has zeroed what is not set.\<close>

definition schema_col :: "nat \<Rightarrow> kds_ast_col_def \<Rightarrow> kds_sys_column" where
  "schema_col i cd = \<lparr>sc_oid = 0, sc_rel_id = 0, sc_pos = of_nat i, sc_name = set_name (bytes_of (cd_name cd)),
     sc_type_val = type_val_code (cd_type_val cd), sc_len = of_nat (cd_len cd), sc_notnull = 1\<rparr>"

definition stmt_schema :: "kds_stmt_create_table \<Rightarrow> kds_schema" where
  "stmt_schema stmt = \<lparr>sch_cols = map (\<lambda>(i, cd). schema_col i cd) (enumerate 0 (ct_cols stmt)), nr_cols = of_nat (length (ct_cols stmt))\<rparr>"

text \<open>Without a column the test of the first column reads a zeroed entry, whose type is int8.\<close>

definition first_col :: "kds_schema \<Rightarrow> kds_sys_column" where
  "first_col schema = (case sch_cols schema of [] \<Rightarrow>
       \<lparr>sc_oid = 0, sc_rel_id = 0, sc_pos = 0, sc_name = replicate KDS_CATALOG_NAME_MAX 0, sc_type_val = 0, sc_len = 0, sc_notnull = 0\<rparr>
     | col # _ \<Rightarrow> col)"

definition kds_cmd_create_table :: "dshell_env \<Rightarrow> nat \<Rightarrow> kds_stmt_create_table \<Rightarrow> ('z dshell_state_scheme, unit option) call" where
  "kds_cmd_create_table de c stmt =
     sbind (kalloc (d_kenv de)) (\<lambda>mem_ok.
     if \<not> mem_ok then reply_error c (''ERR out of memory'' @ NL) ENOMEM
     else let schema = stmt_schema stmt in
       if sc_type_val (first_col schema) \<noteq> type_val_code KDS_TYPE_INT64
       then reply_error c (''ERR first column ('' @ quoted (col_name (first_col schema)) @ '') must be the primary key and type int64'' @ NL) EINVAL
       else sattempt (kds_catalog_create_table (d_kenv de) KDS_OID_NAMESPACE_PUBLIC (Some (bytes_of (ct_table_name stmt))) (Some schema)
                        (clustered_code (ct_clustered stmt))) (\<lambda>r.
         case r of Inl e \<Rightarrow> reply_error c (''ERR create_table failed: '' @ ret_text e @ NL) e
         | Inr new_oid \<Rightarrow>
             sbind (say c (''OK table '' @ quoted (ct_table_name stmt) @ '' created, oid='' @ u64_text new_oid @ '', columns='' @
               show_nat (length (ct_cols stmt)) @ '', clustered='' @
               (if ct_clustered stmt = Kds_Parser.KDS_CLUSTERED_BTREE then ''BTREE'' else ''HEAP'') @ NL)) (\<lambda>_. sret (Some ()))))"

section \<open>INSERT\<close>

text \<open>The answer to an insertion into a heap table, from what the executor left in \<^verbatim>\<open>exec_buf\<close>.\<close>

definition answer_heap :: "nat \<Rightarrow> string \<Rightarrow> ('z dshell_state_scheme, unit option) call" where
  "answer_heap c name =
     sbind (the_client c) (\<lambda>cl.
     case exec_buf cl of
       Heap_insert h \<Rightarrow>
         (case ex_ret h of
            Some e \<Rightarrow> reply_error c (if e = EEXIST then ''ERR duplicate primary key in '' @ quoted name @ NL
                                    else ''ERR insert failed: '' @ ret_text e @ NL) e
          | None \<Rightarrow> sbind (say c (''OK inserted into '' @ quoted name @ '' at page='' @ u64_text (tid_page_id (hi_out_tid h)) @ '' slot='' @
                 show_nat (unat (tid_slot (hi_out_tid h))) @ NL)) (\<lambda>_. sret (Some ())))
     | _ \<Rightarrow> sfail Fault)"

definition answer_btree :: "nat \<Rightarrow> string \<Rightarrow> u64 \<Rightarrow> ('z dshell_state_scheme, unit option) call" where
  "answer_btree c name pk =
     sbind (the_client c) (\<lambda>cl.
     case exec_buf cl of
       Btree_insert b \<Rightarrow>
         (case ex_ret b of
            Some e \<Rightarrow> reply_error c (if e = EEXIST then ''ERR duplicate key '' @ show_int (sint pk) @ '' in '' @ quoted name @ NL
                                    else ''ERR btree insert failed: '' @ ret_text e @ NL) e
          | None \<Rightarrow> sbind (say c (''OK inserted into '' @ quoted name @ '' (btree) key='' @ show_int (sint pk) @ '' page='' @
                 u64_text (tid_page_id (bi_out_tid b)) @ '' slot='' @ show_nat (unat (tid_slot (bi_out_tid b))) @ NL)) (\<lambda>_. sret (Some ())))
     | _ \<Rightarrow> sfail Fault)"

definition insert_heap_row ::
  "dshell_env \<Rightarrow> ('z dshell_state_scheme, unit) call \<Rightarrow> u64 \<Rightarrow> nat \<Rightarrow> nat \<Rightarrow> string \<Rightarrow> kds_relation \<Rightarrow> u8 list \<Rightarrow> u16 \<Rightarrow> ('z dshell_state_scheme, unit option) call" where
  "insert_heap_row de gap slice_ns nr c name rel row row_len =
     sbind (slift (kds_heap_insert_exec_init (Some rel) (Some row) row_len KDS_DSHELL_XID)) (\<lambda>exec.
     sobind (kds_dshell_submit_insert_exec de gap slice_ns nr c exec) (\<lambda>_.
     sbind (kds_relation_close rel) (\<lambda>_. answer_heap c name)))"

definition insert_btree_row ::
  "dshell_env \<Rightarrow> ('z dshell_state_scheme, unit) call \<Rightarrow> u64 \<Rightarrow> nat \<Rightarrow> nat \<Rightarrow> string \<Rightarrow> kds_relation \<Rightarrow> u8 list \<Rightarrow> u16 \<Rightarrow> ('z dshell_state_scheme, unit option) call" where
  "insert_btree_row de gap slice_ns nr c name rel row row_len =
     (if row_len < 8 then sbind (kds_relation_close rel) (\<lambda>_. reply_error c (''ERR row too short to contain PK'' @ NL) EINVAL)
      else let pk = dec64 (take 8 row) in
        sbind (upd_client c (\<lambda>cl. cl\<lparr>exec_buf := Btree_insert (kds_btree_insert_exec_init (Some rel) pk (Some row) row_len)\<rparr>)) (\<lambda>_.
        sobind (kds_dshell_run_exec_via_proc de gap slice_ns nr c) (\<lambda>_.
        sbind (kds_relation_close rel) (\<lambda>_. answer_btree c name pk))))"

definition insert_into :: "dshell_env \<Rightarrow> ('z dshell_state_scheme, unit) call \<Rightarrow> u64 \<Rightarrow> nat \<Rightarrow> nat \<Rightarrow> kds_stmt_insert \<Rightarrow> kds_relation \<Rightarrow>
   ('z dshell_state_scheme, unit option) call" where
  "insert_into de gap slice_ns nr c stmt rel =
     (let name = in_table_name stmt; schema = rel_schema rel in
      if length (in_values stmt) \<noteq> unat (nr_cols schema)
      then sbind (kds_relation_close rel) (\<lambda>_. reply_error c (''ERR '' @ quoted name @ '' has '' @ show_nat (unat (nr_cols schema)) @
             '' column(s), got '' @ show_nat (length (in_values stmt)) @ '' value(s)'' @ NL) EINVAL)
      else case kds_dshell_encode_row_from_vals (d_kstrtoll de) schema (in_values stmt) KDS_DSHELL_ROW_MAX of
        Inl (Errno e) \<Rightarrow> sbind (kds_relation_close rel) (\<lambda>_.
          reply_error c (''ERR failed to encode row (too long or bad value): '' @ ret_text e @ NL) e)
      | Inl x \<Rightarrow> sfail x
      | Inr (row, row_len) \<Rightarrow>
          if rel_kind rel = Kds_Catalog.KDS_CLUSTERED_HEAP then insert_heap_row de gap slice_ns nr c name rel row row_len
          else if rel_kind rel = Kds_Catalog.KDS_CLUSTERED_BTREE then insert_btree_row de gap slice_ns nr c name rel row row_len
          else sbind (kds_relation_close rel) (\<lambda>_. reply_error c (''ERR '' @ quoted name @ '' has unsupported clustered type '' @
                 show_int (sint (rel_kind rel)) @ NL) EINVAL))"

text \<open>The two steps that \<^verbatim>\<open>INSERT\<close> and \<^verbatim>\<open>SELECT\<close> begin with: find the table and open it.\<close>

definition with_table :: "dshell_env \<Rightarrow> nat \<Rightarrow> string \<Rightarrow> (kds_relation \<Rightarrow> ('z dshell_state_scheme, 'a) call) \<Rightarrow> ('z dshell_state_scheme, 'a) call" where
  "with_table de c name k =
     sattempt (kds_catalog_find_table_oid_by_name (d_kenv de) (Some (bytes_of name))) (\<lambda>r. case r of
       Inl e \<Rightarrow> reply_error c (''ERR table '' @ quoted name @ '' not found: '' @ ret_text e @ NL) e
     | Inr oid \<Rightarrow> sattempt (kds_relation_open (d_kenv de) oid) (\<lambda>r. case r of
         Inl e \<Rightarrow> reply_error c (''ERR relation_open failed: '' @ ret_text e @ NL) e
       | Inr rel \<Rightarrow> k rel))"

definition kds_cmd_insert_row ::
  "dshell_env \<Rightarrow> ('z dshell_state_scheme, unit) call \<Rightarrow> u64 \<Rightarrow> nat \<Rightarrow> nat \<Rightarrow> kds_stmt_insert \<Rightarrow> ('z dshell_state_scheme, unit option) call" where
  "kds_cmd_insert_row de gap slice_ns nr c stmt = with_table de c (in_table_name stmt) (insert_into de gap slice_ns nr c stmt)"

section \<open>SELECT\<close>

definition tuple_text :: "u64 \<Rightarrow> nat \<Rightarrow> kds_heap_tuple_hdr \<Rightarrow> string" where
  "tuple_text page_id slot hdr = NL @ ''  page='' @ u64_text page_id @ '' ['' @ show_nat slot @ ''] xmin='' @ u64_text (xmin hdr) @
     '' xmax='' @ u64_text (xmax hdr) @ '' ''"

text \<open>
  The loop over the slots of a page; \<open>n\<close>, the buffer and the number of rows so far. A failed \<^verbatim>\<open>decode_row\<close> has written
  its text and then moves \<open>n\<close> back by the code of the error.
\<close>

fun scan_slots ::
  "(string \<Rightarrow> int res) \<Rightarrow> kds_schema \<Rightarrow> u64 \<Rightarrow> kds_frame \<Rightarrow> nat list \<Rightarrow> nat \<Rightarrow> string \<Rightarrow> u32 \<Rightarrow> (nat \<times> string \<times> u32 \<times> bool) res" where
  "scan_slots k schema page_id f [] n buf tot = Inr (n, buf, tot, False)"
| "scan_slots k schema page_id f (slot # slots) n buf tot =
     (case heap_read_tuple f (of_nat slot) True (of_nat KDS_DSHELL_ROW_MAX) of
        Inl (Errno e) \<Rightarrow> if e = ENOENT then scan_slots k schema page_id f slots n buf tot else Inr (n, buf, tot, False)
      | Inl x \<Rightarrow> Inl x
      | Inr (hdr, row) \<Rightarrow>
          if length buf \<le> n + 16
          then let (n', buf') = out_append n (''...(truncated)'' @ NL) buf in Inr (n', buf', tot, True)
          else let (n1, buf1) = out_append n (tuple_text page_id slot hdr) buf;
                   (r, txt) = kds_dshell_decode_row k schema row (data_len hdr) (length buf1 - n1);
                   buf2 = put_text n1 txt buf1
            in (case r of
                 Inr m \<Rightarrow> scan_slots k schema page_id f slots (n1 + m) buf2 (tot + 1)
               | Inl (Errno e) \<Rightarrow> if n1 < errno_code e then Inl Fault else scan_slots k schema page_id f slots (n1 - errno_code e) buf2 (tot + 1)
               | Inl x \<Rightarrow> Inl x))"

text \<open>The walk along the chain; a page that cannot be loaded ends the command with its error, after a line in the response.\<close>

fun scan_chain ::
  "dshell_env \<Rightarrow> nat \<Rightarrow> kds_schema \<Rightarrow> nat \<Rightarrow> u64 \<Rightarrow> nat \<Rightarrow> string \<Rightarrow> u32 \<Rightarrow> u32 \<Rightarrow> ('z dshell_state_scheme, (nat \<times> string \<times> u32 \<times> u32 \<times> bool) option) call" where
  "scan_chain de c schema 0 page_id n buf tot page_index = sret None"
| "scan_chain de c schema (Suc m) page_id n buf tot page_index =
     (if page_id = 0 then sret (Some (n, buf, tot, page_index, False))
      else sattempt (load_page (d_kenv de) page_id) (\<lambda>r. case r of
          Inl e \<Rightarrow> sbind (upd_client c (\<lambda>cl. cl\<lparr>resp_buf := snd (out_append n (NL @ ''ERR lookup_or_load(page '' @ u64_text page_id @ '') failed: '' @
              ret_text e @ NL) buf)\<rparr>)) (\<lambda>_. sfail (Errno e))
        | Inr i \<Rightarrow> sbind sget (\<lambda>s. let f = pframes s i in
            sbind (slift (rbind (page_slots f) (\<lambda>slots. scan_slots (d_kstrtoll de) schema page_id f slots n buf tot))) (\<lambda>(n, buf, tot, truncated).
            sbind (if truncated then sret 0 else slift (heap_get_next_page_id f)) (\<lambda>nxt.
            sbind (kds_buf_unpin i) (\<lambda>_.
            if truncated then sret (Some (n, buf, tot, page_index + 1, True))
            else scan_chain de c schema m nxt n buf tot (page_index + 1)))))))"

definition scan_relation :: "dshell_env \<Rightarrow> nat \<Rightarrow> string \<Rightarrow> kds_relation \<Rightarrow> ('z dshell_state_scheme, unit option) call" where
  "scan_relation de c name rel =
     (if rel_kind rel \<noteq> Kds_Catalog.KDS_CLUSTERED_HEAP
      then sbind (kds_relation_close rel) (\<lambda>_. reply_error c (''ERR '' @ quoted name @ '' is not heap-clustered'' @ NL) EINVAL)
      else sbind (the_client c) (\<lambda>cl.
        let (n, buf) = out_append 0 ''OK '' (resp_buf cl) in
        sobind (scan_chain de c (rel_schema rel) (d_pages de) (rel_root_page_id rel) n buf 0 0) (\<lambda>(n, buf, tot, pages, truncated).
        sbind (kds_relation_close rel) (\<lambda>_.
        let buf' = (if truncated then buf
          else snd (out_append n (NL @ show_nat (unat tot) @ '' row(s) across '' @ show_nat (unat pages) @ '' page(s)'' @ NL) buf))
        in sbind (upd_client c (\<lambda>cl. cl\<lparr>resp_buf := buf'\<rparr>)) (\<lambda>_. sret (Some ()))))))"

definition kds_cmd_scan_table :: "dshell_env \<Rightarrow> nat \<Rightarrow> kds_stmt_select \<Rightarrow> ('z dshell_state_scheme, unit option) call" where
  "kds_cmd_scan_table de c stmt = with_table de c (se_table_name stmt) (scan_relation de c (se_table_name stmt))"

section \<open>SHOW\<close>

definition kds_cmd_show_meta :: "nat \<Rightarrow> ('z dshell_state_scheme, unit option) call" where
  "kds_cmd_show_meta c = sbind sget (\<lambda>s. case superblock s of
       None \<Rightarrow> reply_error c (''ERR meta system not initialized'' @ NL) ENODEV
     | Some sb \<Rightarrow> sbind (say c (
         ''OK magic=0x'' @ show_hex (unat (magic sb)) @ '' version='' @ show_nat (unat (version sb)) @ NL @
         ''   max_page_id='' @ u64_text (max_page_id sb) @ '' last_commit_page_id='' @ u64_text (last_commit_page_id sb) @ NL @
         ''   total_pages='' @ u64_text (total_pages sb) @ '' free_pages='' @ u64_text (free_pages sb) @ NL @
         ''   create_time='' @ u64_text (create_time sb) @ '' last_mount_time='' @ u64_text (last_mount_time sb) @
         '' last_fsync_time='' @ u64_text (last_fsync_time sb) @ NL @
         ''   alloc_point='' @ u64_text (alloc_point sb) @ '' alloc_remaining='' @ u64_text (alloc_remaining sb) @ NL)) (\<lambda>_. sret (Some ())))"

text \<open>The difference of the three frame counters is taken in 32 bits.\<close>

definition kds_cmd_show_page_alloc_status :: "nat \<Rightarrow> ('z dshell_state_scheme, unit option) call" where
  "kds_cmd_show_page_alloc_status c =
     sbind kds_page_alloc_get_stats (\<lambda>(ap, remaining, ring_count, freelist_count).
     sbind sget (\<lambda>s. case kds_buf_pool_get_stats s of (tot, free, valid) \<Rightarrow>
     sbind (say c (
       ''OK allocator: alloc_point='' @ u64_text ap @ '' alloc_remaining='' @ u64_text remaining @ '' ring_staged='' @ u64_text ring_count @
       '' freelist='' @ u64_text freelist_count @ NL @
       ''   frame_pool: total='' @ show_nat tot @ '' free='' @ show_nat free @ '' valid='' @ show_nat valid @
       '' loading='' @ show_nat (unat (of_nat tot - of_nat free - of_nat valid :: u32)) @ NL)) (\<lambda>_. sret (Some ()))))"

section \<open>Dispatch\<close>

definition kds_dispatch_stmt ::
  "dshell_env \<Rightarrow> ('z dshell_state_scheme, unit) call \<Rightarrow> u64 \<Rightarrow> nat \<Rightarrow> nat \<Rightarrow> kds_stmt \<Rightarrow> ('z dshell_state_scheme, unit option) call" where
  "kds_dispatch_stmt de gap slice_ns nr c stmt = (case stmt of
       KDS_STMT_CREATE_TABLE q \<Rightarrow> kds_cmd_create_table de c q
     | KDS_STMT_INSERT q \<Rightarrow> kds_cmd_insert_row de gap slice_ns nr c q
     | KDS_STMT_SELECT q \<Rightarrow> kds_cmd_scan_table de c q
     | KDS_STMT_SHOW_META \<Rightarrow> kds_cmd_show_meta c
     | KDS_STMT_SHOW_ALLOC \<Rightarrow> kds_cmd_show_page_alloc_status c)"

section \<open>The character device\<close>

definition new_client :: kds_dshell_client where
  "new_client = \<lparr>resp_buf = replicate DSHELL_RESP_MAX (CHR 0x00), resp_len = 0, resp_pos = 0, exec_status = KDS_DSHELL_EXEC_IDLE,
     exec_buf = No_exec, cl_done = 0\<rparr>"

text \<open>The result is the address stored in \<^verbatim>\<open>filp->private_data\<close>.\<close>

definition kds_dshell_open :: "dshell_env \<Rightarrow> ('z dshell_state_scheme, nat) call" where
  "kds_dshell_open de =
     sbind (kalloc (d_kenv de)) (\<lambda>mem_ok.
     if \<not> mem_ok then sfail (Errno ENOMEM)
     else sbind sget (\<lambda>s. let c = next_client s in
       sbind (smod (\<lambda>s. s\<lparr>clients := (clients s)(c \<mapsto> new_client), next_client := Suc c, kds_dshell_clients := kds_dshell_clients s @ [c]\<rparr>))
         (\<lambda>_. sret c)))"

definition kds_dshell_release :: "nat option \<Rightarrow> ('z dshell_state_scheme, unit) call" where
  "kds_dshell_release client = (case client of None \<Rightarrow> sret ()
     | Some c \<Rightarrow>
       sbind (smod (\<lambda>s. s\<lparr>kds_dshell_clients := remove1 c (kds_dshell_clients s)\<rparr>)) (\<lambda>_.
       sbind (the_client c) (\<lambda>cl.
       sbind (if exec_status cl = KDS_DSHELL_EXEC_PENDING
              then sbind (say c (''ERR client closed while exec in flight'' @ NL)) (\<lambda>_. upd_client c (\<lambda>cl. cl\<lparr>cl_done := Suc (cl_done cl)\<rparr>))
              else sret ()) (\<lambda>_.
       smod (\<lambda>s. s\<lparr>clients := (clients s)(c := None)\<rparr>)))))"

text \<open>Parse a line and run its statement; the return value of a command is dropped, the response is what it has left in the buffer.\<close>

definition run_line ::
  "dshell_env \<Rightarrow> ('z dshell_state_scheme, unit) call \<Rightarrow> u64 \<Rightarrow> nat \<Rightarrow> nat \<Rightarrow> string \<Rightarrow> ('z dshell_state_scheme, unit option) call" where
  "run_line de gap slice_ns nr c sql_buf = (case kds_parse (d_kstrtoll de) (Some sql_buf) (Some []) KDS_PARSER_ERR_MAX of
       (Inl (Errno e), parse_err) \<Rightarrow>
         sbind (say c (''ERR parse error: '' @ (case parse_err of None \<Rightarrow> [] | Some m \<Rightarrow> m) @ NL)) (\<lambda>_. sret (Some ()))
     | (Inl x, _) \<Rightarrow> sfail x
     | (Inr stmt, _) \<Rightarrow> sattempt (kds_dispatch_stmt de gap slice_ns nr c stmt) (\<lambda>r. case r of Inl e \<Rightarrow> sret (Some ()) | Inr res \<Rightarrow> sret res))"

text \<open>
  \<open>ubuf\<close> are the bytes behind the user's pointer, \<^verbatim>\<open>len\<close> of them; \<open>copy_ok\<close> is the outcome of \<^verbatim>\<open>copy_from_user\<close>.
\<close>

definition kds_dshell_write ::
  "dshell_env \<Rightarrow> ('z dshell_state_scheme, unit) call \<Rightarrow> u64 \<Rightarrow> nat \<Rightarrow> bool \<Rightarrow> nat option \<Rightarrow> string \<Rightarrow> ('z dshell_state_scheme, nat option) call" where
  "kds_dshell_write de gap slice_ns nr copy_ok client ubuf = (case client of None \<Rightarrow> sfail (Errno EINVAL)
     | Some c \<Rightarrow>
       if \<not> copy_ok then sfail (Errno EFAULT)
       else let sql_buf = take (DSHELL_LINE_MAX - 1) ubuf in
         sbind (upd_client c (\<lambda>cl. cl\<lparr>resp_buf := put_text 0 [] (resp_buf cl), resp_len := 0, resp_pos := 0\<rparr>)) (\<lambda>_.
         sobind (run_line de gap slice_ns nr c sql_buf)
           (\<lambda>_. sbind (upd_client c stage) (\<lambda>_. sret (Some (length ubuf))))))"

text \<open>The result are the bytes copied to the user.\<close>

definition kds_dshell_read :: "bool \<Rightarrow> nat option \<Rightarrow> nat \<Rightarrow> ('z dshell_state_scheme, string) call" where
  "kds_dshell_read copy_ok client len = (case client of None \<Rightarrow> sfail (Errno EINVAL)
     | Some c \<Rightarrow>
       sbind (the_client c) (\<lambda>cl.
       let remaining = resp_len cl - resp_pos cl; n = min len remaining in
       if remaining = 0 then sret []
       else if \<not> copy_ok then sfail (Errno EFAULT)
       else sbind (upd_client c (\<lambda>cl. cl\<lparr>resp_pos := resp_pos cl + n\<rparr>)) (\<lambda>_.
         sret (take n (drop (resp_pos cl) (resp_buf cl))))))"

section \<open>Start and shutdown\<close>

text \<open>The process structure as \<^verbatim>\<open>vzalloc\<close> returns it with the fields the shell sets.\<close>

definition dshell_proc :: kds_proc where
  "dshell_proc = \<lparr>p_pid = 0, p_kind = KDS_PROC_SYSTEM, p_state = KDS_PROC_STATE_READY, static_prio = - 1,
     dynamic_prio = KDS_PROC_PRIORITY_SYSTEM_BACKGROUND, last_run_ns = 0, total_runtime_ns = 0, wait_time_ns = 0, p_cpu = 0,
     preferred_cpu = 0, allowed_cpus = (\<lambda>_. False), p_running = False, p_run = Some Run_dshell, p_linked = False\<rparr>"

definition kds_register_dshell_proc :: "dshell_env \<Rightarrow> ('z dshell_state_scheme, unit) call" where
  "kds_register_dshell_proc de =
     sbind (kalloc (d_kenv de)) (\<lambda>mem_ok.
     if \<not> mem_ok then sbind (smod (\<lambda>s. s\<lparr>kds_dshell_proc := None\<rparr>)) (\<lambda>_. sfail (Errno ENOMEM))
     else sbind (smod (\<lambda>s. s\<lparr>kds_dshell_proc := Some (d_proc de), procs := (procs s)(d_proc de := dshell_proc)\<rparr>)) (\<lambda>_.
       sattempt (kds_proc_register (d_sched de) (Some (d_proc de))) (\<lambda>r. case r of
         Inr _ \<Rightarrow> sret ()
       | Inl e \<Rightarrow> sbind (smod (\<lambda>s. s\<lparr>kds_dshell_proc := None\<rparr>)) (\<lambda>_. sfail (Errno e)))))"

text \<open>What the error paths of \<^verbatim>\<open>kds_init_dshell_system\<close> undo, in their order.\<close>

definition undo_region :: "errno \<Rightarrow> ('z dshell_state_scheme, unit) call" where
  "undo_region e = sbind (smod (\<lambda>s. s\<lparr>dev_region := False\<rparr>)) (\<lambda>_. sfail (Errno e))"

definition undo_cdev :: "errno \<Rightarrow> ('z dshell_state_scheme, unit) call" where
  "undo_cdev e = sbind (smod (\<lambda>s. s\<lparr>dev_cdev := False\<rparr>)) (\<lambda>_. undo_region e)"

definition undo_class :: "errno \<Rightarrow> ('z dshell_state_scheme, unit) call" where
  "undo_class e = sbind (smod (\<lambda>s. s\<lparr>dev_class := False\<rparr>)) (\<lambda>_. undo_cdev e)"

definition unregister_dshell_proc :: "dshell_env \<Rightarrow> ('z dshell_state_scheme, unit) call" where
  "unregister_dshell_proc de = sbind sget (\<lambda>s. case kds_dshell_proc s of None \<Rightarrow> sfail Fault
     | Some a \<Rightarrow> sbind (kds_proc_unregister (d_sched de) a) (\<lambda>_. smod (\<lambda>s. s\<lparr>kds_dshell_proc := None\<rparr>)))"

definition kds_init_dshell_system :: "dshell_env \<Rightarrow> ('z dshell_state_scheme, unit) call" where
  "kds_init_dshell_system de = sbind sget (\<lambda>s.
     if kds_dshell_inited s then sret ()
     else case d_region de of Some e \<Rightarrow> sfail (Errno e)
     | None \<Rightarrow> sbind (smod (\<lambda>s. s\<lparr>dev_region := True\<rparr>)) (\<lambda>_.
       case d_cdev de of Some e \<Rightarrow> undo_region e
       | None \<Rightarrow> sbind (smod (\<lambda>s. s\<lparr>dev_cdev := True\<rparr>)) (\<lambda>_.
         case d_class de of Some e \<Rightarrow> undo_cdev e
         | None \<Rightarrow> sbind (smod (\<lambda>s. s\<lparr>dev_class := True\<rparr>)) (\<lambda>_.
           sattempt (kds_register_dshell_proc de) (\<lambda>r. case r of
             Inl e \<Rightarrow> undo_class e
           | Inr _ \<Rightarrow>
             (case d_device de of
                Some e \<Rightarrow> sbind (unregister_dshell_proc de) (\<lambda>_. undo_class e)
              | None \<Rightarrow> smod (\<lambda>s. s\<lparr>dev_node := True, kds_dshell_inited := True\<rparr>)))))))"

fun wake_clients :: "nat list \<Rightarrow> ('z dshell_state_scheme, unit) call" where
  "wake_clients [] = sret ()"
| "wake_clients (c # cs) =
     sbind (the_client c) (\<lambda>cl.
     sbind (if exec_status cl = KDS_DSHELL_EXEC_PENDING
            then sbind (upd_client c (\<lambda>cl. cl\<lparr>exec_status := KDS_DSHELL_EXEC_IDLE\<rparr>)) (\<lambda>_.
              sbind (say c (''ERR dshell shutting down'' @ NL)) (\<lambda>_. upd_client c (\<lambda>cl. cl\<lparr>cl_done := Suc (cl_done cl)\<rparr>)))
            else sret ()) (\<lambda>_. wake_clients cs))"

definition kds_shutdown_dshell_system :: "dshell_env \<Rightarrow> ('z dshell_state_scheme, unit) call" where
  "kds_shutdown_dshell_system de = sbind sget (\<lambda>s.
     if \<not> kds_dshell_inited s then sret ()
     else sbind (smod (\<lambda>s. s\<lparr>dev_node := False\<rparr>)) (\<lambda>_.
       sbind (if kds_dshell_proc s = None then sret () else unregister_dshell_proc de) (\<lambda>_.
       sbind (wake_clients (kds_dshell_clients s)) (\<lambda>_.
       smod (\<lambda>s. s\<lparr>dev_class := False, dev_cdev := False, dev_region := False, kds_dshell_inited := False\<rparr>)))))"

end
