(* ===== verification/Kds_Dshell_Spec.thy ===== *)
theory Kds_Dshell_Spec
  imports Kds_Dshell
begin

text \<open>
  What the shell promises: every interleaving of operations on the device and of rounds of the shell's process keeps the
  clients well formed; every command is answered, within its buffer, and read back in order; an \<^verbatim>\<open>INSERT\<close> ends after
  a bounded number of rounds with the row stored or a named error, and a timeout cancels it for good; the start is all
  or nothing. A file that is closed while the process runs its executor leaves the process with a freed client.
\<close>

section \<open>Invariants of calls\<close>

definition maintains :: "('s \<Rightarrow> bool) \<Rightarrow> ('s, 'a) call \<Rightarrow> bool" where
  "maintains P m \<longleftrightarrow> (\<forall>s. P s \<longrightarrow> P (snd (m s)))"

named_theorems maintains_rules

lemma maintainsD: "maintains P m \<Longrightarrow> P s \<Longrightarrow> m s = (r, s') \<Longrightarrow> P s'"
  by (metis maintains_def snd_conv)

lemma maintains_keeps: "keeps v m \<Longrightarrow> (\<And>s s'. v s' = v s \<Longrightarrow> P s \<Longrightarrow> P s') \<Longrightarrow> maintains P m"
  by (auto simp: keeps_def maintains_def)

lemma maintains_basic [maintains_rules]:
  "maintains P (sret x)" "maintains P (sfail e)" "maintains P sget" "maintains P (slift r)"
  by (simp_all add: maintains_def call_defs)

lemma maintains_smod: "(\<And>s. P s \<Longrightarrow> P (g s)) \<Longrightarrow> maintains P (smod g)"
  by (simp add: maintains_def call_defs)

lemma maintains_sbind [maintains_rules]: "maintains P m \<Longrightarrow> (\<And>x. maintains P (f x)) \<Longrightarrow> maintains P (sbind m f)"
  by (fastforce simp: maintains_def sbind_def split: prod.splits sum.splits)

lemma maintains_strying [maintains_rules]: "maintains P m \<Longrightarrow> (\<And>x. maintains P (f x)) \<Longrightarrow> maintains P (strying m f)"
  by (fastforce simp: maintains_def strying_def split: prod.splits)

lemma maintains_sattempt [maintains_rules]: "maintains P m \<Longrightarrow> (\<And>x. maintains P (f x)) \<Longrightarrow> maintains P (sattempt m f)"
  unfolding sattempt_def by (auto intro!: maintains_rules split: sum.splits failure.splits)

lemma maintains_cases [maintains_rules]:
  "(P' \<Longrightarrow> maintains P m) \<Longrightarrow> (\<not> P' \<Longrightarrow> maintains P n) \<Longrightarrow> maintains P (if P' then m else n)"
  "maintains P (h y) \<Longrightarrow> maintains P (Let y h)"
  "(\<And>a b. p = (a, b) \<Longrightarrow> maintains P (g a b)) \<Longrightarrow> maintains P (case p of (a, b) \<Rightarrow> g a b)"
  "maintains P m \<Longrightarrow> (\<And>z. maintains P (h' z)) \<Longrightarrow> maintains P (case_option m h' w)"
  "(\<And>z. maintains P (i z)) \<Longrightarrow> (\<And>z. maintains P (j z)) \<Longrightarrow> maintains P (case_sum i j u)"
  "(\<And>z. maintains P (l z)) \<Longrightarrow> maintains P m \<Longrightarrow> maintains P n \<Longrightarrow> maintains P (case_failure l m n fl)"
  "maintains P m \<Longrightarrow> (\<And>h. maintains P (k h)) \<Longrightarrow> (\<And>b. maintains P (k' b)) \<Longrightarrow> maintains P (case_dshell_exec m k k' ex)"
  by (simp_all add: Let_def split: prod.splits option.splits sum.splits failure.splits dshell_exec.splits)

lemma maintains_sobind [maintains_rules]: "maintains P m \<Longrightarrow> (\<And>x. maintains P (f x)) \<Longrightarrow> maintains P (sobind m f)"
  unfolding sobind_def by (intro maintains_rules)

section \<open>Well-formed clients\<close>

text \<open>The response buffer keeps its size and holds a terminated string; the read position is inside the response.\<close>

definition client_ok :: "kds_dshell_client \<Rightarrow> bool" where
  "client_ok cl \<longleftrightarrow> length (resp_buf cl) = DSHELL_RESP_MAX \<and> CHR 0x00 \<in> set (resp_buf cl) \<and> resp_pos cl \<le> resp_len cl \<and> resp_len cl < DSHELL_RESP_MAX"

text \<open>The live clients are exactly those in the list, each once.\<close>

definition shell_wf :: "'z dshell_state_scheme \<Rightarrow> bool" where
  "shell_wf s \<longleftrightarrow> distinct (kds_dshell_clients s) \<and> (\<forall>c. c \<in> set (kds_dshell_clients s) \<longleftrightarrow> clients s c \<noteq> None)
     \<and> (\<forall>c \<in> set (kds_dshell_clients s). c < next_client s) \<and> (\<forall>c cl. clients s c = Some cl \<longrightarrow> client_ok cl)"

lemma more_dshell:
  assumes "sched_state.more s' = sched_state.more s"
  shows "clients s' = clients s" "kds_dshell_clients s' = kds_dshell_clients s" "next_client s' = next_client s"
    "kds_dshell_inited s' = kds_dshell_inited s" "kds_dshell_proc s' = kds_dshell_proc s"
    "dev_region s' = dev_region s" "dev_cdev s' = dev_cdev s" "dev_class s' = dev_class s" "dev_node s' = dev_node s"
  using assms by (simp_all add: dshell_state.select_defs sched_state.select_defs)

lemma keeps_more: "keeps outside m \<Longrightarrow> keeps sched_state.more m"
  by (simp add: keeps_def outside_def)

lemma wf_more: "sched_state.more s' = sched_state.more s \<Longrightarrow> shell_wf s' = shell_wf s"
proof -
  assume "sched_state.more s' = sched_state.more s"
  note f = more_dshell [OF this]
  show ?thesis unfolding shell_wf_def f ..
qed

lemma wf_keeps_more: "keeps sched_state.more m \<Longrightarrow> maintains shell_wf m"
  by (erule maintains_keeps) (erule (1) iffD2 [OF wf_more])

lemma wf_keeps: "keeps outside m \<Longrightarrow> maintains shell_wf m"
  by (intro wf_keeps_more keeps_more)

lemma put_text_length: "n + length t < length buf \<Longrightarrow> length (put_text n t buf) = length buf"
  by (simp add: put_text_def)

lemma put_text_nul [simp]: "CHR 0x00 \<in> set (put_text n t buf)"
  by (simp add: put_text_def)

lemma out_append_ok:
  assumes "length buf = 512" and "n < 512"
  shows "length (snd (out_append n t buf)) = 512" "CHR 0x00 \<in> set (snd (out_append n t buf))"
    "fst (out_append n t buf) = n + min (511 - n) (length t)" "fst (out_append n t buf) < 512"
  using assms by (auto simp: out_append_def scnprintf_def Let_def put_text_length)

lemma c_text_short: "CHR 0x00 \<in> set buf \<Longrightarrow> length (c_text buf) < length buf"
proof (induction buf)
  case (Cons x buf)
  then show ?case by (auto simp: c_text_def)
qed simp

lemma stage_ok: "client_ok cl \<Longrightarrow> client_ok (stage cl)"
  using c_text_short [of "resp_buf cl"] by (auto simp: client_ok_def stage_def)

lemma maintains_the_client [maintains_rules]: "maintains P (the_client c)"
  unfolding the_client_def by (intro maintains_rules)

lemma the_client_run: "clients s c = Some cl \<Longrightarrow> the_client c s = (Inr cl, s)"
  by (simp add: the_client_def call_defs)

lemma upd_client_run: "clients s c = Some cl \<Longrightarrow> upd_client c f s = (Inr (), s\<lparr>clients := (clients s)(c \<mapsto> f cl)\<rparr>)"
  by (simp add: upd_client_def the_client_def call_defs)

lemma wf_upd_client: "(\<And>cl. client_ok cl \<Longrightarrow> client_ok (f cl)) \<Longrightarrow> maintains shell_wf (upd_client c f)"
  by (auto simp: maintains_def upd_client_def the_client_def call_defs shell_wf_def split: option.splits)

lemma wf_say [maintains_rules]: "maintains shell_wf (say c t)"
  unfolding say_def using out_append_ok [of _ 0 t] by (intro wf_upd_client) (simp add: client_ok_def DSHELL_RESP_MAX_def)

lemma wf_reply [maintains_rules]: "maintains shell_wf (reply_error c t e)"
  unfolding reply_error_def by (intro maintains_rules)

lemma wf_stage [maintains_rules]: "maintains shell_wf (upd_client c stage)"
  by (intro wf_upd_client stage_ok)

lemma wf_exec [maintains_rules]: "maintains shell_wf (run_client_exec de ex sl)"
  unfolding run_client_exec_def kds_exec_run_def
  by (intro maintains_rules wf_keeps keeps_rules)

section \<open>What a decoded row writes\<close>

lemma decode_in_bounds:
  assumes "d \<in> set (kds_type_table k)" and "0 < osz"
  shows "case t_decode d buf len osz of Inr t \<Rightarrow> length t < osz | Inl x \<Rightarrow> x = Errno EINVAL \<or> x = Errno ENOSPC \<or> x = Fault"
proof -
  have ints: "case decode_int_generic buf len osz w of Inr t \<Rightarrow> length t < osz | Inl x \<Rightarrow> x = Errno EINVAL \<or> x = Errno ENOSPC \<or> x = Fault" for w
    using assms(2) by (auto simp: decode_int_generic_def scnprintf_def split: option.splits)
  show ?thesis
    using assms(1) ints [of 1] ints [of 2] ints [of 4] ints [of 8] assms(2)
    unfolding kds_type_table_def mk_desc_def list.set insert_iff empty_iff
    by (elim disjE) (auto simp: decode_int8_def decode_int16_def decode_int32_def decode_int64_def decode_bool_def decode_varchar_def
        decode_float_def decode_decimal_def buf_rd_def string_of_def scnprintf_def Let_def split: option.splits if_splits)
qed

lemma value_extent_fails: "value_extent d buf n off = Inl x \<Longrightarrow> x = Errno EINVAL \<or> x = Fault"
  by (auto simp: value_extent_def split: if_splits option.splits)

lemma decode_cols_bounds:
  "length out < osz \<Longrightarrow> decode_cols k first cols buf n off osz out = (r, out') \<Longrightarrow>
   length out' < osz \<and> (\<forall>x. r = Inl x \<longrightarrow> x = Errno EINVAL \<or> x = Errno ENOSPC \<or> x = Fault)"
proof (induction k first cols buf n off osz out rule: decode_cols.induct)
  case (1 k first buf n off osz out)
  then show ?case by auto
next
  case (2 k first col cols buf n off osz out)
  show ?case
  proof (cases "col_desc k col")
    case None
    with 2 show ?thesis by auto
  next
    case (Some d)
    let ?o1 = "if first then out else out @ scnprintf (osz - length out) '', ''"
    let ?o2 = "?o1 @ scnprintf (osz - length ?o1) (col_name col @ ''='')"
    have scn: "length xs < osz \<Longrightarrow> length (xs @ scnprintf (osz - length xs) t) < osz" for xs t by (simp add: scnprintf_def)
    have o: "length ?o1 < osz" using "2.prems"(1) scn by simp
    note o = o scn [OF o]
    show ?thesis
    proof (cases "value_extent d buf n off")
      case (Inl x)
      with 2 Some o(1) value_extent_fails [OF Inl] show ?thesis by (auto simp: Let_def)
    next
      case (Inr p)
      then obtain off1 l where p: "value_extent d buf n off = Inr (off1, l)" by (cases p) auto
      show ?thesis
      proof (cases "n < off1 + l")
        case True
        with "2.prems" Some p o(1) show ?thesis by (auto simp: Let_def)
      next
        case False
        have ent: "d \<in> set (kds_type_table k)" using col_desc_entry [OF Some] ..
        note db = decode_in_bounds [OF ent, of "osz - length ?o2" "drop off1 buf" l]
        show ?thesis
        proof (cases "t_decode d (drop off1 buf) l (osz - length ?o2)")
          case (Inl x)
          have "r = Inl x \<and> out' = ?o2" using "2.prems"(2) Some p False Inl by (simp add: Let_def)
          with db Inl o(2) show ?thesis by (auto split: sum.splits)
        next
          case (Inr t)
          have "decode_cols k False cols buf n (off1 + l) osz (?o2 @ t) = (r, out')" using "2.prems"(2) Some p False Inr by (simp add: Let_def)
          moreover have "length (?o2 @ t) < osz" using db Inr o(2) by (simp split: sum.splits)
          ultimately show ?thesis using "2.IH" [OF Some refl p refl _ refl Inr] False by simp
        qed
      qed
    qed
  qed
qed

lemma decode_row_bounds:
  assumes "0 < osz" and "kds_dshell_decode_row k schema buf n osz = (r, out)"
  shows "length out < osz" "r = Inr m \<Longrightarrow> m = length out" "r = Inl x \<Longrightarrow> x = Errno EINVAL \<or> x = Errno ENOSPC \<or> x = Fault"
  using assms decode_cols_bounds [of "[]" osz k True "schema_cols schema" buf "unat n" 0]
  by (auto simp: kds_dshell_decode_row_def rbind_fail_iff rbind_ok_iff split: prod.splits)

section \<open>SELECT stays inside the response buffer\<close>

lemma tuple_text_long: "28 \<le> length (tuple_text p slot h)"
proof -
  have "1 \<le> length (show_nat n)" for n using show_nat_not_Nil [of n] by (cases "show_nat n") auto
  from this [of "unat p"] this [of slot] this [of "unat (xmin h)"] this [of "unat (xmax h)"]
  show ?thesis by (simp add: tuple_text_def NL_def u64_text_def)
qed

text \<open>The position in the buffer never falls behind the three characters of the first line, whatever the rows contain.\<close>

lemma scan_slots_bounds:
  "length buf = 512 \<Longrightarrow> 3 \<le> n \<Longrightarrow> n < 512 \<Longrightarrow> CHR 0x00 \<in> set buf \<Longrightarrow> scan_slots k schema p f slots n buf tot = Inr (n', buf', tot', tr) \<Longrightarrow>
   length buf' = 512 \<and> 3 \<le> n' \<and> n' < 512 \<and> CHR 0x00 \<in> set buf' \<and> take 3 buf' = take 3 buf"
proof (induction slots arbitrary: n buf tot)
  case Nil
  then show ?case by simp
next
  case (Cons slot slots)
  show ?case
  proof (cases "heap_read_tuple f (of_nat slot) True (of_nat KDS_DSHELL_ROW_MAX)")
    case (Inl x)
    with Cons show ?thesis by (cases x) (auto split: if_splits)
  next
    case (Inr hr)
    then obtain h row where hr: "heap_read_tuple f (of_nat slot) True (of_nat KDS_DSHELL_ROW_MAX) = Inr (h, row)" by (cases hr) auto
    have keep3: "take 3 (put_text m t b) = take 3 b" if "3 \<le> m" "length b = 512" for m t and b :: string
      using that by (simp add: put_text_def)
    have app3: "take 3 (snd (out_append n t buf)) = take 3 buf" for t
      using Cons.prems by (simp add: out_append_def Let_def keep3)
    note oa = out_append_ok [OF Cons.prems(1,3)]
    show ?thesis
    proof (cases "512 \<le> n + 16")
      case True
      then obtain t where "out_append n t buf = (n', buf')" using Cons.prems(1,5) hr by (auto simp: Let_def split: prod.splits)
      with oa [of t] app3 [of t] Cons.prems(2) show ?thesis by simp
    next
      case False
      obtain n1 b1 where o1: "out_append n (tuple_text p slot h) buf = (n1, b1)" by (cases "out_append n (tuple_text p slot h) buf")
      obtain r tx where dr: "kds_dshell_decode_row k schema row (data_len h) (512 - n1) = (r, tx)" by (cases "kds_dshell_decode_row k schema row (data_len h) (512 - n1)")
      have n1: "n1 < 512" "length b1 = 512" "take 3 b1 = take 3 buf" "n1 = n + min (511 - n) (length (tuple_text p slot h))"
        using oa(1,3,4) [of "tuple_text p slot h"] app3 o1 by (metis fst_conv snd_conv)+
      have n1': "n + 28 \<le> n1 \<or> n1 = 511" using n1(4) tuple_text_long [of p slot h] Cons.prems(3) by (auto simp: min_def)
      have t: "length tx < 512 - n1" "\<And>m. r = Inr m \<Longrightarrow> m = length tx" "\<And>x. r = Inl x \<Longrightarrow> x = Errno EINVAL \<or> x = Errno ENOSPC \<or> x = Fault"
        using decode_row_bounds [OF _ dr] n1(1) by auto
      have b2: "length (put_text n1 tx b1) = 512" "take 3 (put_text n1 tx b1) = take 3 buf" "CHR 0x00 \<in> set (put_text n1 tx b1)"
        using t(1) n1 n1' Cons.prems(2) by (simp_all add: put_text_length keep3)
      show ?thesis
      proof (cases r)
        case (Inl x)
        with t(3) Cons.prems(1,5) False hr o1 dr n1 obtain e where e: "x = Errno e" "errno_code e \<le> 28" "\<not> n1 < errno_code e"
          "scan_slots k schema p f slots (n1 - errno_code e) (put_text n1 tx b1) (tot + 1) = Inr (n', buf', tot', tr)"
          by (auto split: if_splits)
        have "3 \<le> n1 - errno_code e" "n1 - errno_code e < 512" using e(2) n1(1) n1' Cons.prems(2) by auto
        from Cons.IH [OF b2(1) this b2(3) e(4)] b2(2) show ?thesis by simp
      next
        case (Inr m)
        with t(2) Cons.prems(1,5) False hr o1 dr n1
        have rec: "scan_slots k schema p f slots (n1 + length tx) (put_text n1 tx b1) (tot + 1) = Inr (n', buf', tot', tr)" by auto
        have "3 \<le> n1 + length tx" "n1 + length tx < 512" using t(1) n1(1) n1' Cons.prems(2) by auto
        from Cons.IH [OF b2(1) this b2(3) rec] b2(2) show ?thesis by simp
      qed
    qed
  qed
qed

definition good_out :: "nat \<Rightarrow> string \<Rightarrow> bool" where
  "good_out n buf \<longleftrightarrow> length buf = 512 \<and> 3 \<le> n \<and> n < 512 \<and> CHR 0x00 \<in> set buf \<and> take 3 buf = ''OK ''"

lemma good_first: "length buf = 512 \<Longrightarrow> good_out (fst (out_append 0 ''OK '' buf)) (snd (out_append 0 ''OK '' buf))"
  using out_append_ok [of buf 0 "''OK ''"] by (simp add: good_out_def) (simp add: out_append_def scnprintf_def put_text_def Let_def)

lemma good_append: "good_out n buf \<Longrightarrow> length (snd (out_append n t buf)) = 512 \<and> CHR 0x00 \<in> set (snd (out_append n t buf)) \<and> take 3 (snd (out_append n t buf)) = ''OK ''"
  using out_append_ok [of buf n t] by (auto simp: good_out_def) (simp add: out_append_def put_text_def Let_def)

text \<open>A property of every result a call returns.\<close>

definition results :: "('a \<Rightarrow> bool) \<Rightarrow> ('s, 'a option) call \<Rightarrow> bool" where
  "results R m \<longleftrightarrow> (\<forall>s x s'. m s = (Inr (Some x), s') \<longrightarrow> R x)"

lemma results_simple: "results R (sret None)" "results R (sfail e)" "R x \<Longrightarrow> results R (sret (Some x))"
  by (simp_all add: results_def call_defs)

lemma results_sbind: "(\<And>x. results R (f x)) \<Longrightarrow> results R (sbind m f)"
  by (auto simp: results_def sbind_def split: prod.splits sum.splits)

lemma results_sattempt: "(\<And>x. results R (f x)) \<Longrightarrow> results R (sattempt m f)"
  by (auto simp: results_def sattempt_def strying_def sfail_def split: prod.splits sum.splits failure.splits)

lemma results_lift: "(\<And>x. r = Inr x \<Longrightarrow> results R (f x)) \<Longrightarrow> results R (sbind (slift r) f)"
  by (cases r) (auto simp: results_def call_defs)

lemma maintains_lift: "(\<And>x. r = Inr x \<Longrightarrow> maintains P (f x)) \<Longrightarrow> maintains P (sbind (slift r) f)"
  by (cases r) (auto simp: maintains_def call_defs)

lemma maintains_results: "maintains P m \<Longrightarrow> results R m \<Longrightarrow> (\<And>x. R x \<Longrightarrow> maintains P (f x)) \<Longrightarrow> maintains P (sobind m f)"
  by (auto simp: maintains_def results_def sobind_def sbind_def sret_def split: prod.splits sum.splits option.splits) (metis snd_conv)+

lemma wf_client: "(\<And>cl. client_ok cl \<Longrightarrow> maintains shell_wf (f cl)) \<Longrightarrow> maintains shell_wf (sbind (the_client c) f)"
  by (auto simp: maintains_def the_client_def call_defs shell_wf_def split: option.splits) blast

lemma slots_good:
  assumes "good_out n buf" and "rbind (page_slots f) (\<lambda>slots. scan_slots k schema p f slots n buf tot) = Inr (n', buf', tot', tr)"
  shows "good_out n' buf'"
proof -
  from assms(2) obtain slots where "scan_slots k schema p f slots n buf tot = Inr (n', buf', tot', tr)" by (auto simp: rbind_ok_iff)
  from scan_slots_bounds [OF _ _ _ _ this] assms(1) show ?thesis by (simp add: good_out_def)
qed

lemma scan_chain_results: "good_out n buf \<Longrightarrow> results (\<lambda>(n', buf', _). good_out n' buf') (scan_chain de c schema m p n buf tot pi)"
proof (induction m arbitrary: p n buf tot pi)
  case (Suc m)
  then show ?case
    by (auto intro!: results_sbind results_simple results_sattempt results_lift split: sum.splits simp: Let_def dest!: slots_good [OF Suc.prems] intro: Suc.IH)
qed (simp add: results_simple)

lemma wf_scan_chain: "good_out n buf \<Longrightarrow> maintains shell_wf (scan_chain de c schema m p n buf tot pi)"
proof (induction m arbitrary: p n buf tot pi)
  case (Suc m)
  have upd: "maintains shell_wf (upd_client c (\<lambda>cl. cl\<lparr>resp_buf := snd (out_append n t buf)\<rparr>))" for t
    using good_append [OF Suc.prems, of t] by (intro wf_upd_client) (simp add: client_ok_def DSHELL_RESP_MAX_def)
  have load: "maintains shell_wf (load_page env p)" "maintains shell_wf (kds_buf_unpin i)" for env i by (intro wf_keeps keeps_rules)+
  show ?case
    unfolding scan_chain.simps Let_def
    by (intro maintains_lift upd load maintains_rules Suc.IH) (auto dest: slots_good [OF Suc.prems])
qed (simp add: maintains_rules)

lemma wf_scan_relation: "maintains shell_wf (scan_relation de c name rel)"
proof -
  have chain: "maintains shell_wf (sobind (scan_chain de c schema m p (fst (out_append 0 ''OK '' (resp_buf cl))) (snd (out_append 0 ''OK '' (resp_buf cl))) tot pi) g)"
    if "client_ok cl" "\<And>n buf tot' pi' tr. good_out n buf \<Longrightarrow> maintains shell_wf (g (n, buf, tot', pi', tr))" for cl schema m p tot pi g
  proof (rule maintains_results)
    have "good_out (fst (out_append 0 ''OK '' (resp_buf cl))) (snd (out_append 0 ''OK '' (resp_buf cl)))"
      using that(1) by (intro good_first) (simp add: client_ok_def DSHELL_RESP_MAX_def)
    from wf_scan_chain [OF this] scan_chain_results [OF this]
    show "maintains shell_wf (scan_chain de c schema m p (fst (out_append 0 ''OK '' (resp_buf cl))) (snd (out_append 0 ''OK '' (resp_buf cl))) tot pi)"
      "results (\<lambda>(n', buf', _). good_out n' buf') (scan_chain de c schema m p (fst (out_append 0 ''OK '' (resp_buf cl))) (snd (out_append 0 ''OK '' (resp_buf cl))) tot pi)"
      by blast+
  qed (use that(2) in auto)
  have upd: "maintains shell_wf (upd_client c (resp_buf_update (\<lambda>_. buf)))" if "length buf = 512 \<and> CHR 0x00 \<in> set buf" for buf
    using that by (intro wf_upd_client) (simp add: client_ok_def DSHELL_RESP_MAX_def)
  have good: "length buf = 512 \<and> CHR 0x00 \<in> set buf" if "good_out n buf" for n buf using that by (simp add: good_out_def)
  show ?thesis
    unfolding scan_relation_def kds_relation_close_def
  proof (intro maintains_cases(1) wf_client, goal_cases)
    case 1
    show ?case by (intro maintains_rules)
  next
    case (2 cl)
    obtain n buf where o: "out_append 0 ''OK '' (resp_buf cl) = (n, buf)" by (cases "out_append 0 ''OK '' (resp_buf cl)")
    show ?case
      unfolding o Let_def prod.case
      by (rule chain [OF 2(2), unfolded o, simplified]) (auto simp: good_append good intro!: maintains_rules upd)
  qed
qed

section \<open>Every operation keeps the clients well-formed\<close>

lemma wf_catalog [maintains_rules]:
  "maintains shell_wf (kalloc env)" "maintains shell_wf (kds_catalog_find_table_oid_by_name env name)" "maintains shell_wf (kds_relation_open env oid)"
  "maintains shell_wf (kds_catalog_create_table env ns name schema ty)" "maintains shell_wf kds_page_alloc_get_stats"
  by (intro wf_keeps keeps_rules)+

lemma wf_fields [maintains_rules]:
  "maintains shell_wf (upd_client c (\<lambda>cl. cl\<lparr>cl_done := g cl\<rparr>))" "maintains shell_wf (upd_client c (\<lambda>cl. cl\<lparr>exec_status := st\<rparr>))"
  "maintains shell_wf (upd_client c (\<lambda>cl. cl\<lparr>exec_buf := ex\<rparr>))"
  by (intro wf_upd_client; simp add: client_ok_def)+

lemma wf_finish [maintains_rules]: "maintains shell_wf (finish_client c r ex)"
  unfolding finish_client_def
proof (intro maintains_rules wf_upd_client)
  show "client_ok (stage cl\<lparr>exec_status := KDS_DSHELL_EXEC_IDLE, cl_done := Suc (cl_done cl)\<rparr>)" if "client_ok cl" for cl
    using stage_ok [OF that] by (simp add: client_ok_def)
qed

lemma wf_service: "maintains shell_wf gap \<Longrightarrow> maintains shell_wf (service_clients de gap sl n c)"
  by (induction de gap sl n c rule: service_clients.induct) (auto intro!: maintains_rules)

lemma wf_round [maintains_rules]: "maintains shell_wf gap \<Longrightarrow> maintains shell_wf (kds_dshell_proc_run de gap sl)"
  unfolding kds_dshell_proc_run_def by (intro maintains_rules wf_service)

lemma wf_wait: "maintains shell_wf gap \<Longrightarrow> maintains shell_wf (wait_for_completion de gap sl nr c)"
  by (induction nr) (auto intro!: maintains_rules)

lemma wf_cancel [maintains_rules]: "maintains shell_wf (cancel_exec c)"
  unfolding cancel_exec_def by (intro maintains_rules wf_upd_client) (simp add: client_ok_def)

lemma wf_via_proc: "maintains shell_wf gap \<Longrightarrow> maintains shell_wf (kds_dshell_run_exec_via_proc de gap sl nr c)"
  unfolding kds_dshell_run_exec_via_proc_def by (intro maintains_rules wf_wait)

lemma wf_answers [maintains_rules]: "maintains shell_wf (answer_heap c name)" "maintains shell_wf (answer_btree c name pk)"
  unfolding answer_heap_def answer_btree_def by (intro maintains_rules)+

lemma wf_insert_into: "maintains shell_wf gap \<Longrightarrow> maintains shell_wf (insert_into de gap sl nr c stmt rel)"
  unfolding insert_into_def insert_heap_row_def insert_btree_row_def kds_dshell_submit_insert_exec_def kds_relation_close_def
  by (intro maintains_rules wf_via_proc)

lemma wf_with_table: "(\<And>rel. maintains shell_wf (k rel)) \<Longrightarrow> maintains shell_wf (with_table de c name k)"
  unfolding with_table_def by (intro maintains_rules)

lemma wf_dispatch: "maintains shell_wf gap \<Longrightarrow> maintains shell_wf (kds_dispatch_stmt de gap sl nr c stmt)"
  unfolding kds_dispatch_stmt_def kds_cmd_create_table_def kds_cmd_insert_row_def kds_cmd_scan_table_def kds_cmd_show_meta_def
    kds_cmd_show_page_alloc_status_def
  by (auto intro!: maintains_rules wf_with_table wf_insert_into wf_scan_relation split: kds_stmt.splits)

lemma wf_run_line: "maintains shell_wf gap \<Longrightarrow> maintains shell_wf (run_line de gap sl nr c line)"
  unfolding run_line_def by (intro maintains_rules wf_dispatch)

lemma wf_write: "maintains shell_wf gap \<Longrightarrow> maintains shell_wf (kds_dshell_write de gap sl nr ok client ubuf)"
proof -
  assume gap: "maintains shell_wf gap"
  have "maintains shell_wf (upd_client c (\<lambda>cl. cl\<lparr>resp_buf := put_text 0 [] (resp_buf cl), resp_len := 0, resp_pos := 0\<rparr>))" for c
    by (intro wf_upd_client) (simp add: client_ok_def DSHELL_RESP_MAX_def put_text_length)
  then show ?thesis
    unfolding kds_dshell_write_def by (intro maintains_rules wf_run_line gap)
qed

lemma wf_read: "maintains shell_wf (kds_dshell_read ok client len)"
proof -
  have "shell_wf (s\<lparr>clients := (clients s)(c \<mapsto> cl\<lparr>resp_pos := resp_pos cl + min len (resp_len cl - resp_pos cl)\<rparr>)\<rparr>)"
    if "shell_wf s" "clients s c = Some cl" for s :: "'a dshell_state_scheme" and c cl
  proof -
    have "client_ok (cl\<lparr>resp_pos := resp_pos cl + min len (resp_len cl - resp_pos cl)\<rparr>)" 
      using that(1) [unfolded shell_wf_def, THEN conjunct2, THEN conjunct2, THEN conjunct2, rule_format, OF that(2)] by (auto simp: client_ok_def min_def)
    with that show ?thesis by (auto simp: shell_wf_def)
  qed
  then show ?thesis
    by (auto simp: maintains_def kds_dshell_read_def the_client_def upd_client_def call_defs Let_def split: option.splits)
qed

lemma wf_open: "maintains shell_wf (kds_dshell_open de)"
proof -
  have "client_ok new_client" by (simp add: client_ok_def new_client_def DSHELL_RESP_MAX_def)
  then have "shell_wf (s\<lparr>clients := (clients s)(next_client s \<mapsto> new_client), next_client := Suc (next_client s),
      kds_dshell_clients := kds_dshell_clients s @ [next_client s]\<rparr>)" if "shell_wf s" for s :: "'a dshell_state_scheme"
    using that by (auto simp: shell_wf_def less_Suc_eq)
  then have m: "maintains shell_wf (sbind sget (\<lambda>s. let c = next_client s in sbind (smod (\<lambda>s. s\<lparr>clients := (clients s)(c \<mapsto> new_client),
      next_client := Suc c, kds_dshell_clients := kds_dshell_clients s @ [c]\<rparr>)) (\<lambda>_. sret c)) :: ('a dshell_state_scheme, nat) call)"
    by (auto simp: maintains_def call_defs Let_def)
  show "maintains shell_wf (kds_dshell_open de :: ('a dshell_state_scheme, nat) call)"
    unfolding kds_dshell_open_def by (rule maintains_sbind [OF wf_catalog(1)], rule maintains_cases(1)) (rule maintains_basic, rule m)
qed

text \<open>\<^verbatim>\<open>release\<close> is called with the client of an open file, which is in the list.\<close>

lemma wf_release: "maintains shell_wf (kds_dshell_release client)"
proof (cases client)
  case (Some c)
  have "shell_wf (snd (kds_dshell_release (Some c) s))" if wf: "shell_wf s" for s :: "'a dshell_state_scheme"
  proof (cases "clients s c")
    case None
    then have "remove1 c (kds_dshell_clients s) = kds_dshell_clients s" using wf by (intro remove1_idem) (simp add: shell_wf_def)
    with None wf show ?thesis by (simp add: kds_dshell_release_def call_defs the_client_def)
  next
    case (Some cl)
    with wf show ?thesis
      by (auto simp: kds_dshell_release_def call_defs the_client_def upd_client_def say_def shell_wf_def)
  qed
  with Some show ?thesis by (simp add: maintains_def)
qed (simp add: kds_dshell_release_def maintains_rules)

lemma keeps_proc [keeps_rules]:
  "keeps sched_state.more (list_add_tail env a c)" "keeps sched_state.more (list_del_init a)"
  unfolding list_add_tail_def list_del_init_def by (intro keeps_rules keeps_smod; simp)+

lemma keeps_rq [keeps_rules]: "keeps sched_state.more (rq_add env c a)" "keeps sched_state.more (rq_del env c a)"
  unfolding rq_add_def rq_del_def by (intro keeps_rules keeps_smod; simp)+

lemma keeps_register [keeps_rules]: "keeps sched_state.more (kds_proc_register env p)" "keeps sched_state.more (kds_proc_unregister env a)"
  unfolding kds_proc_register_def kds_proc_unregister_def by (intro keeps_rules keeps_smod; simp)+

text \<open>The fields of the device and of the shell's process do not concern the clients.\<close>

lemma wf_device [simp]:
  "shell_wf (s\<lparr>dev_region := b\<rparr>) = shell_wf s" "shell_wf (s\<lparr>dev_cdev := b\<rparr>) = shell_wf s" "shell_wf (s\<lparr>dev_class := b\<rparr>) = shell_wf s"
  "shell_wf (s\<lparr>dev_node := b\<rparr>) = shell_wf s" "shell_wf (s\<lparr>kds_dshell_inited := b\<rparr>) = shell_wf s" "shell_wf (s\<lparr>kds_dshell_proc := p\<rparr>) = shell_wf s"
  "shell_wf (s\<lparr>procs := ps\<rparr>) = shell_wf s"
  by (simp_all add: shell_wf_def)

lemma wf_register: "maintains shell_wf (kds_register_dshell_proc de)"
  unfolding kds_register_dshell_proc_def
  by (intro maintains_rules maintains_smod wf_keeps_more keeps_register; simp)

lemma wf_unregister: "maintains shell_wf (unregister_dshell_proc de)"
  unfolding unregister_dshell_proc_def
  by (intro maintains_rules maintains_smod wf_keeps_more keeps_register; simp)

lemma wf_init: "maintains shell_wf (kds_init_dshell_system de)"
  unfolding kds_init_dshell_system_def undo_class_def undo_cdev_def undo_region_def
  by (intro maintains_rules maintains_smod wf_register wf_unregister; simp)

lemma wf_wake: "maintains shell_wf (wake_clients cs)"
  by (induction cs) (auto intro!: maintains_rules)

lemma wf_shutdown: "maintains shell_wf (kds_shutdown_dshell_system de)"
  unfolding kds_shutdown_dshell_system_def
  by (intro maintains_rules maintains_smod wf_unregister wf_wake; simp)

section \<open>Interleavings\<close>

text \<open>
  What can happen to the shell: any sequence of operations on the device and of rounds of its process. While a round
  runs an executor without the lock, another such sequence can happen. Two operations are either one after the other or
  nested, and an error of a nested one ends the outer one; no other overlap is expressed.
\<close>

inductive shell_op :: "dshell_env \<Rightarrow> ('z dshell_state_scheme, unit) call \<Rightarrow> bool" for de where
  idle: "shell_op de (sret ())"
| open_file: "shell_op de (sbind (kds_dshell_open de) (\<lambda>_. sret ()))"
| releasing: "shell_op de (kds_dshell_release (Some c))"
| writing: "shell_op de gap \<Longrightarrow> shell_op de (sbind (kds_dshell_write de gap slice_ns nr copy_ok (Some c) ubuf) (\<lambda>_. sret ()))"
| reading: "shell_op de (sbind (kds_dshell_read copy_ok (Some c) len) (\<lambda>_. sret ()))"
| round: "shell_op de gap \<Longrightarrow> shell_op de (sbind (kds_dshell_proc_run de gap slice_ns) (\<lambda>_. sret ()))"
| starting: "shell_op de (kds_init_dshell_system de)"
| stopping: "shell_op de (kds_shutdown_dshell_system de)"
| both: "shell_op de m \<Longrightarrow> shell_op de m' \<Longrightarrow> shell_op de (sbind m (\<lambda>_. m'))"

text \<open>C33: Along every sequence, nested at the points where the list is unlocked, of opens, closes, writes, reads, rounds of the shell's process, start and shutdown, errors included: the live clients are exactly those in the list, each once, with addresses below the allocator's; every response buffer keeps its 512 bytes and holds a terminated string, and the read position stays inside the response.\<close>

theorem shell_invariant:
  assumes "shell_op de m" and "shell_wf s" and "m s = (r, s')"
  shows "shell_wf s'"
proof -
  have "maintains shell_wf m"
    using assms(1)
  proof induction
    case idle
    show ?case by (intro maintains_rules)
  next
    case open_file
    show ?case by (intro maintains_rules wf_open)
  next
    case (releasing c)
    show ?case by (rule wf_release)
  next
    case (writing gap)
    then show ?case by (intro maintains_rules wf_write)
  next
    case (reading copy_ok c len)
    show ?case by (intro maintains_rules wf_read)
  next
    case (round gap)
    then show ?case by (intro maintains_rules)
  next
    case starting
    show ?case by (rule wf_init)
  next
    case stopping
    show ?case by (rule wf_shutdown)
  next
    case (both m m')
    then show ?case by (intro maintains_rules)
  qed
  then show ?thesis using assms(2,3) by (rule maintainsD)
qed

lemma sget_bind: "sbind sget f s = f s s"
  by (simp add: call_defs)

section \<open>Reading a response\<close>

definition staged :: "kds_dshell_client \<Rightarrow> bool" where
  "staged cl \<longleftrightarrow> resp_len cl = length (c_text (resp_buf cl)) \<and> resp_pos cl = 0"

fun read_seq :: "nat \<Rightarrow> nat list \<Rightarrow> ('z dshell_state_scheme, string) call" where
  "read_seq c [] = sret []"
| "read_seq c (len # lens) = sbind (kds_dshell_read True (Some c) len) (\<lambda>t. sbind (read_seq c lens) (\<lambda>ts. sret (t @ ts)))"

lemma c_text_take: "take (length (c_text buf)) buf = c_text buf"
  unfolding c_text_def by (metis takeWhile_eq_take)

lemma read_run:
  assumes "clients s c = Some cl" and "resp_pos cl \<le> resp_len cl"
  shows "kds_dshell_read True (Some c) len s = (Inr (take len (drop (resp_pos cl) (take (resp_len cl) (resp_buf cl)))),
      s\<lparr>clients := (clients s)(c \<mapsto> cl\<lparr>resp_pos := resp_pos cl + min len (resp_len cl - resp_pos cl)\<rparr>)\<rparr>)"
proof (cases "resp_len cl = resp_pos cl")
  case True
  then have "(clients s)(c \<mapsto> cl\<lparr>resp_pos := resp_pos cl + min len (resp_len cl - resp_pos cl)\<rparr>) = clients s"
    using assms(1) by (auto simp: fun_eq_iff)
  with True assms show ?thesis by (simp add: kds_dshell_read_def the_client_run sbind_run) (simp add: sret_def)
next
  case False
  have "resp_pos cl + min len (resp_len cl - resp_pos cl) = min (resp_len cl) (len + resp_pos cl)" using assms(2) by (auto simp: min_def)
  with False show ?thesis using assms
    by (simp add: kds_dshell_read_def the_client_run sbind_run upd_client_run Let_def) (simp add: sret_def take_drop min.commute add.commute)
qed

lemma read_seq_run:
  assumes "clients s c = Some cl" and "resp_pos cl \<le> resp_len cl"
  shows "\<exists>p. read_seq c lens s = (Inr (take (sum_list lens) (drop (resp_pos cl) (take (resp_len cl) (resp_buf cl)))),
      s\<lparr>clients := (clients s)(c \<mapsto> cl\<lparr>resp_pos := p\<rparr>)\<rparr>)"
  using assms
proof (induction lens arbitrary: s cl)
  case Nil
  then have "(clients s)(c \<mapsto> cl\<lparr>resp_pos := resp_pos cl\<rparr>) = clients s" by (auto simp: fun_eq_iff)
  then show ?case by (intro exI [of _ "resp_pos cl"]) (simp add: sret_def)
next
  case (Cons len lens)
  let ?cl = "cl\<lparr>resp_pos := resp_pos cl + min len (resp_len cl - resp_pos cl)\<rparr>"
  let ?t = "take (resp_len cl) (resp_buf cl)"
  let ?s = "s\<lparr>clients := (clients s)(c \<mapsto> ?cl)\<rparr>"
  have "resp_pos ?cl \<le> resp_len ?cl" using Cons.prems(2) by (auto simp: min_def)
  moreover have "clients ?s c = Some ?cl" by simp
  ultimately obtain p where
    "read_seq c lens ?s = (Inr (take (sum_list lens) (drop (resp_pos ?cl) (take (resp_len ?cl) (resp_buf ?cl)))), ?s\<lparr>clients := (clients ?s)(c \<mapsto> ?cl\<lparr>resp_pos := p\<rparr>)\<rparr>)"
    using Cons.IH by blast
  moreover have "?s\<lparr>clients := (clients ?s)(c \<mapsto> ?cl\<lparr>resp_pos := p\<rparr>)\<rparr> = s\<lparr>clients := (clients s)(c \<mapsto> cl\<lparr>resp_pos := p\<rparr>)\<rparr>" by simp
  ultimately have p: "read_seq c lens ?s = (Inr (take (sum_list lens) (drop (resp_pos ?cl) ?t)), s\<lparr>clients := (clients s)(c \<mapsto> cl\<lparr>resp_pos := p\<rparr>)\<rparr>)"
    by simp
  have "take len (drop (resp_pos cl) ?t) @ take (sum_list lens) (drop (resp_pos ?cl) ?t) = take (len + sum_list lens) (drop (resp_pos cl) ?t)"
  proof (cases "len \<le> resp_len cl - resp_pos cl")
    case True
    then show ?thesis by (simp add: take_add min_def add.commute)
  next
    case False
    then have "length (drop (resp_pos cl) ?t) \<le> len" by simp
    with False Cons.prems(2) show ?thesis by (simp add: min_def take_all)
  qed
  then show ?case
    using read_run [OF Cons.prems, of len] p by (intro exI [of _ p]) (simp add: sbind_def sret_def fun_upd_def)
qed

text \<open>C35: A response is delivered once and in order: however a client divides its reads, when every copy to its memory succeeds, the bytes it gets are the response from its beginning, as many as it asked for, and nothing after its end; only its own read position changes.\<close>

theorem reads_deliver:
  assumes "clients s c = Some cl" and "staged cl"
  shows "\<exists>p. read_seq c lens s = (Inr (take (sum_list lens) (c_text (resp_buf cl))), s\<lparr>clients := (clients s)(c \<mapsto> cl\<lparr>resp_pos := p\<rparr>)\<rparr>)"
  using read_seq_run [OF assms(1), of lens] assms(2) by (simp add: staged_def c_text_take)

section \<open>A client released during a round\<close>

text \<open>C37: Closing a file while the shell's process runs the executor of its client frees the client under the process: the round goes on with the freed structure. The comment in the code says that this cannot happen.\<close>

theorem release_races_round:
  assumes "kds_dshell_clients s = c # cs" and "clients s c = Some cl" and "exec_status cl = KDS_DSHELL_EXEC_PENDING"
    and "run_client_exec de (exec_buf cl) slice_ns s = (Inr (Some (r, ex)), s1)"
  shows "fst (kds_dshell_proc_run de (kds_dshell_release (Some c)) slice_ns s) = Inl Fault"
proof -
  have "keeps sched_state.more (run_client_exec de (exec_buf cl) slice_ns :: ('a dshell_state_scheme, _) call)"
    unfolding run_client_exec_def kds_exec_run_def sobind_def
    by (auto intro!: keeps_rules keeps_more split: dshell_exec.splits)
  then have "sched_state.more s1 = sched_state.more s" using assms(4) by (rule keepsD)
  from more_dshell(1) [OF this] assms(2) have c1: "clients s1 c = Some cl" by simp
  have rel: "fst (kds_dshell_release (Some c) s1) = Inr ()" "clients (snd (kds_dshell_release (Some c) s1)) c = None"
    using c1 by (simp_all add: kds_dshell_release_def the_client_def upd_client_def say_def call_defs)
  then obtain s2 where s2: "kds_dshell_release (Some c) s1 = (Inr (), s2)" "clients s2 c = None"
    by (cases "kds_dshell_release (Some c) s1") auto
  have gone: "upd_client c (\<lambda>cl. cl\<lparr>exec_buf := ex\<rparr>) s2 = (Inl Fault, s2)" using s2(2) by (simp add: upd_client_def the_client_def call_defs)
  have step: "sbind (run_client_exec de (exec_buf cl) slice_ns) f s = f (Some (r, ex)) s1" for f :: "_ \<Rightarrow> ('a dshell_state_scheme, kds_proc_result option) call"
    using assms(4) by (rule sbind_run)
  show ?thesis
    using assms(2,3)
    by (simp add: kds_dshell_proc_run_def sget_bind assms(1) sbind_run [OF the_client_run] sobind_def step sbind_run [where m = "kds_dshell_release (Some c)", OF s2(1)] sbind_fault [where m = "upd_client c _", OF gone])
qed

section \<open>Every command is answered\<close>

text \<open>A response begins with \<^verbatim>\<open>OK\<close> or \<^verbatim>\<open>ERR\<close>.\<close>

definition opener :: "string \<Rightarrow> bool" where
  "opener t \<longleftrightarrow> take 2 t = ''OK'' \<or> take 3 t = ''ERR''"

definition answered :: "nat \<Rightarrow> 'z dshell_state_scheme \<Rightarrow> bool" where
  "answered c s \<longleftrightarrow> (\<exists>cl. clients s c = Some cl \<and> opener (c_text (resp_buf cl)))"

definition replied :: "'a option res \<Rightarrow> bool" where
  "replied r \<longleftrightarrow> (case r of Inl x \<Rightarrow> (\<exists>e. x = Errno e) | Inr y \<Rightarrow> y \<noteq> None)"

lemma replied_simps [simp]: "replied (Inl (Errno e))" "\<not> replied (Inl Panic)" "\<not> replied (Inl Fault)" "replied (Inr y) = (y \<noteq> None)"
  by (simp_all add: replied_def)

definition answers :: "nat \<Rightarrow> ('z dshell_state_scheme, 'a option) call \<Rightarrow> bool" where
  "answers c m \<longleftrightarrow> (\<forall>s r s'. shell_wf s \<longrightarrow> m s = (r, s') \<longrightarrow> replied r \<longrightarrow> answered c s')"

text \<open>A call that has no error path of its own.\<close>

definition no_errno :: "('s, 'a) call \<Rightarrow> bool" where
  "no_errno m \<longleftrightarrow> (\<forall>s e s'. m s \<noteq> (Inl (Errno e), s'))"

named_theorems answer_rules

lemma no_errno_calls [answer_rules]:
  "no_errno (sret x)" "no_errno sget" "no_errno (the_client c)" "no_errno (upd_client c f)" "no_errno (say c t)" "no_errno (kalloc env)"
  "no_errno kds_page_alloc_get_stats" "no_errno (kds_buf_unpin i)"
  by (auto simp: no_errno_def call_defs the_client_def upd_client_def say_def kalloc_def kds_page_alloc_get_stats_def kds_meta_get_alloc_range_def
      kds_buf_unpin_def split: option.splits)

lemma answers_bind [answer_rules]: "no_errno m \<Longrightarrow> maintains shell_wf m \<Longrightarrow> (\<And>x. answers c (f x)) \<Longrightarrow> answers c (sbind m f)"
  unfolding answers_def no_errno_def maintains_def sbind_def
  by (auto split: prod.splits sum.splits simp: replied_def)

lemma answers_attempt [answer_rules]: "maintains shell_wf m \<Longrightarrow> (\<And>x. answers c (f x)) \<Longrightarrow> answers c (sattempt m f)"
  unfolding answers_def maintains_def sattempt_def strying_def
  by (auto split: prod.splits sum.splits failure.splits simp: sfail_def)

lemma answers_cases [answer_rules]:
  "(P \<Longrightarrow> answers c m) \<Longrightarrow> (\<not> P \<Longrightarrow> answers c n) \<Longrightarrow> answers c (if P then m else n)"
  "answers c (h y) \<Longrightarrow> answers c (Let y h)"
  "(\<And>a b. p = (a, b) \<Longrightarrow> answers c (g a b)) \<Longrightarrow> answers c (case p of (a, b) \<Rightarrow> g a b)"
  "answers c m \<Longrightarrow> (\<And>z. answers c (h' z)) \<Longrightarrow> answers c (case_option m h' w)"
  "(\<And>z. answers c (i z)) \<Longrightarrow> (\<And>z. answers c (j z)) \<Longrightarrow> answers c (case_sum i j u)"
  by (simp_all add: Let_def split: prod.splits option.splits sum.splits)

lemma c_text_put: "t \<noteq> [] \<Longrightarrow> opener t \<Longrightarrow> n < length buf \<Longrightarrow> length buf = 512 \<Longrightarrow> opener (c_text (snd (out_append 0 t buf)))"
proof -
  assume t: "opener t" and buf: "length buf = 512"
  have "take 2 t = ''OK'' \<Longrightarrow> \<exists>u. t = ''OK'' @ u" by (metis append_take_drop_id)
  moreover have "take 3 t = ''ERR'' \<Longrightarrow> \<exists>u. t = ''ERR'' @ u" by (metis append_take_drop_id)
  ultimately show ?thesis
    using t buf by (auto simp: opener_def out_append_def scnprintf_def put_text_def c_text_def Let_def)
qed

lemma say_answers:
  assumes "opener t" and "shell_wf s" and "say c t s = (Inr x, s')"
  shows "answered c s'"
proof (cases "clients s c")
  case None
  with assms(3) show ?thesis by (simp add: say_def upd_client_def the_client_def call_defs)
next
  case (Some cl)
  with assms(2) have "length (resp_buf cl) = 512" by (auto simp: shell_wf_def client_ok_def DSHELL_RESP_MAX_def)
  with assms(1) have "opener (c_text (snd (out_append 0 t (resp_buf cl))))" by (intro c_text_put [of t 0]) (auto simp: opener_def)
  with Some assms(3) show ?thesis by (auto simp: say_def upd_client_run answered_def)
qed

lemma reply_answers [answer_rules]: "opener t \<Longrightarrow> answers c (reply_error c t e)"
  by (auto simp: answers_def reply_error_def sbind_def sfail_def no_errno_def split: prod.splits sum.splits dest: say_answers)
    (use no_errno_calls(5) [of c t, unfolded no_errno_def] in \<open>auto simp: replied_def\<close>)

lemma say_done [answer_rules]: "opener t \<Longrightarrow> answers c (sbind (say c t) (\<lambda>_. sret (Some x)))"
  by (auto simp: answers_def sbind_def sret_def split: prod.splits sum.splits dest: say_answers)
    (use no_errno_calls(5) [of c t, unfolded no_errno_def] in \<open>auto simp: replied_def\<close>)

lemma buffer_opens: "take 3 buf = ''OK '' \<Longrightarrow> opener (c_text buf)"
proof -
  assume "take 3 buf = ''OK ''"
  then obtain u where "buf = ''OK '' @ u" by (metis append_take_drop_id)
  then show ?thesis by (simp add: opener_def c_text_def)
qed

text \<open>A call that leaves a response when it fails.\<close>

definition errs_answered :: "nat \<Rightarrow> ('z dshell_state_scheme, 'a) call \<Rightarrow> bool" where
  "errs_answered c m \<longleftrightarrow> (\<forall>s e s'. m s = (Inl (Errno e), s') \<longrightarrow> answered c s')"

lemma errs_bind: "no_errno m \<Longrightarrow> (\<And>x. errs_answered c (f x)) \<Longrightarrow> errs_answered c (sbind m f)"
  unfolding errs_answered_def no_errno_def sbind_def by (auto split: prod.splits sum.splits)

lemma errs_attempt: "(\<And>x. errs_answered c (f x)) \<Longrightarrow> errs_answered c (sattempt m f)"
  unfolding errs_answered_def sattempt_def strying_def by (auto split: prod.splits sum.splits failure.splits simp: sfail_def)

lemma errs_lift: "(\<And>e. r \<noteq> Inl (Errno e)) \<Longrightarrow> (\<And>x. r = Inr x \<Longrightarrow> errs_answered c (f x)) \<Longrightarrow> errs_answered c (sbind (slift r) f)"
  by (cases r) (auto simp: errs_answered_def call_defs)

lemma errs_ret: "errs_answered c (sret x)"
  by (simp add: errs_answered_def sret_def)

lemma page_reads: "page_slots f \<noteq> Inl (Errno e)" "heap_get_next_page_id f \<noteq> Inl (Errno e)"
  by (auto simp: page_slots_def heap_nr_slots_def heap_get_next_page_id_def load_meta_def pload_def split: option.splits)

lemma scan_slots_no_errno: "scan_slots k schema p f slots n buf tot \<noteq> Inl (Errno e)"
proof (induction slots arbitrary: n buf tot)
  case (Cons slot slots)
  show ?case
  proof (cases "heap_read_tuple f (of_nat slot) True (of_nat KDS_DSHELL_ROW_MAX)")
    case (Inl x)
    with Cons show ?thesis by (cases x) auto
  next
    case (Inr hr)
    with Cons show ?thesis by (auto simp: Let_def split: prod.splits sum.splits failure.splits)
  qed
qed simp

lemma scan_chain_errs: "good_out n buf \<Longrightarrow> errs_answered c (scan_chain de c schema m p n buf tot pi)"
proof (induction m arbitrary: p n buf tot pi)
  case 0
  show ?case by (simp add: errs_ret)
next
  case (Suc m)
  have lost: "errs_answered c (sbind (upd_client c (\<lambda>cl. cl\<lparr>resp_buf := snd (out_append n t buf)\<rparr>)) (\<lambda>_. sfail (Errno e)))" for t e
    using good_append [OF Suc.prems, of t] buffer_opens
    by (auto simp: errs_answered_def answered_def upd_client_def the_client_def call_defs split: option.splits)
  have slots: "rbind (page_slots f) (\<lambda>slots. scan_slots k schema p f slots n buf tot) \<noteq> Inl (Errno e)" for f k e
    using page_reads(1) [of f e] scan_slots_no_errno by (auto simp: rbind_fail_iff)
  have nxt: "no_errno (if tr then sret 0 else slift (heap_get_next_page_id f))" for tr f
    using page_reads(2) [of f] by (auto simp: no_errno_def call_defs)
  show ?case
    unfolding scan_chain.simps Let_def
    by (auto intro!: errs_ret errs_attempt errs_bind [OF no_errno_calls(2)] errs_bind [OF no_errno_calls(8)] errs_bind [OF nxt] errs_lift lost slots Suc.IH
        dest!: slots_good [OF Suc.prems] split: sum.splits)
qed

lemma scan_relation_answers: "answers c (scan_relation de c name rel :: ('a dshell_state_scheme, unit option) call)"
  unfolding scan_relation_def kds_relation_close_def
proof (rule answers_cases(1))
  show "answers c (sbind (sret ()) (\<lambda>_. reply_error c (''ERR '' @ quoted name @ '' is not heap-clustered'' @ NL) EINVAL) :: ('a dshell_state_scheme, unit option) call)"
    by (intro answer_rules maintains_rules) (simp add: opener_def)
next
  let ?fin = "\<lambda>(n, buf, tot, pages, truncated). sbind (sret ()) (\<lambda>_. let buf' = (if truncated then buf
      else snd (out_append n (NL @ show_nat (unat tot) @ '' row(s) across '' @ show_nat (unat pages) @ '' page(s)'' @ NL) buf))
    in sbind (upd_client c (\<lambda>cl. cl\<lparr>resp_buf := buf'\<rparr>)) (\<lambda>_. sret (Some ())))"
  let ?scan = "\<lambda>n buf. sobind (scan_chain de c (rel_schema rel) (d_pages de) (rel_root_page_id rel) n buf 0 0) ?fin"
  have fin: "answered c s'" if "good_out n buf" "?fin (n, buf, tot, pages, tr) s = (r, s')" "replied r"
    for n buf tot pages tr and s s' :: "'a dshell_state_scheme" and r
    using that good_append [OF that(1)] buffer_opens
    by (auto simp: call_defs upd_client_def the_client_def answered_def good_out_def Let_def split: option.splits if_splits)
  have scan: "answered c s'" if g: "good_out n buf" and run: "?scan n buf s = (r, s')" "replied r"
    for n buf and s s' :: "'a dshell_state_scheme" and r
  proof (cases "scan_chain de c (rel_schema rel) (d_pages de) (rel_root_page_id rel) n buf 0 0 s")
    case (Pair q s1)
    show ?thesis
    proof (cases q)
      case (Inl x)
      with Pair run have "x \<noteq> Fault" "x \<noteq> Panic" "s' = s1" by (auto simp: sobind_def sbind_def)
      with Inl Pair show ?thesis by (cases x) (auto intro: scan_chain_errs [OF g, unfolded errs_answered_def, rule_format])
    next
      case (Inr y)
      with Pair run obtain z where z: "y = Some z" by (cases y) (auto simp: sobind_def sbind_def sret_def)
      obtain n' buf' tot pages tr where zz: "z = (n', buf', tot, pages, tr)" by (cases z) auto
      have "good_out n' buf'" using scan_chain_results [OF g] Pair Inr z zz by (fastforce simp: results_def)
      moreover have "?fin (n', buf', tot, pages, tr) s1 = (r, s')" using Pair run(1) Inr z zz by (simp add: sobind_def sbind_def)
      ultimately show ?thesis using fin run(2) by blast
    qed
  qed
  show "answers c (sbind (the_client c) (\<lambda>cl. let (n, buf) = out_append 0 ''OK '' (resp_buf cl) in ?scan n buf) :: ('a dshell_state_scheme, unit option) call)"
    unfolding answers_def
  proof (intro allI impI)
    fix s s' :: "'a dshell_state_scheme" and r
    assume wf: "shell_wf s" and run: "sbind (the_client c) (\<lambda>cl. let (n, buf) = out_append 0 ''OK '' (resp_buf cl) in ?scan n buf) s = (r, s')" and rep: "replied r"
    from run rep obtain cl where cl: "clients s c = Some cl" by (cases "clients s c") (auto simp: the_client_def call_defs)
    with wf have "good_out (fst (out_append 0 ''OK '' (resp_buf cl))) (snd (out_append 0 ''OK '' (resp_buf cl)))"
      by (intro good_first) (auto simp: shell_wf_def client_ok_def DSHELL_RESP_MAX_def)
    moreover have "?scan (fst (out_append 0 ''OK '' (resp_buf cl))) (snd (out_append 0 ''OK '' (resp_buf cl))) s = (r, s')"
      using run by (simp add: sbind_run [where m = "the_client c", OF the_client_run [OF cl]] case_prod_unfold Let_def)
    ultimately show "answered c s'" using scan rep by blast
  qed
qed

lemma dispatch_answers:
  assumes "\<And>q. stmt \<noteq> KDS_STMT_INSERT q"
  shows "answers c (kds_dispatch_stmt de gap sl nr c stmt)"
proof (cases stmt)
  case (KDS_STMT_CREATE_TABLE q)
  then show ?thesis
    unfolding KDS_STMT_CREATE_TABLE kds_dispatch_stmt_def kds_stmt.case kds_cmd_create_table_def
    by (intro answer_rules maintains_rules; simp add: opener_def)
next
  case (KDS_STMT_SELECT q)
  then show ?thesis
    unfolding KDS_STMT_SELECT kds_dispatch_stmt_def kds_stmt.case kds_cmd_scan_table_def with_table_def
    by (intro answer_rules maintains_rules scan_relation_answers; simp add: opener_def)
next
  case KDS_STMT_SHOW_META
  then show ?thesis
    unfolding KDS_STMT_SHOW_META kds_dispatch_stmt_def kds_stmt.case kds_cmd_show_meta_def
    by (intro answer_rules maintains_rules; simp add: opener_def)
next
  case KDS_STMT_SHOW_ALLOC
  then show ?thesis
    unfolding KDS_STMT_SHOW_ALLOC kds_dispatch_stmt_def kds_stmt.case kds_cmd_show_page_alloc_status_def
    by (intro answer_rules maintains_rules; simp add: opener_def)
qed (use assms in blast)

text \<open>C34: A write that returns leaves an answer for the next read: the response begins with OK or ERR, fits its buffer, and is staged from its first byte, whatever the statement was, a syntax error included; an insertion, which is answered by the shell's process as well, is the subject of its own theorems.\<close>

theorem write_answered:
  assumes "shell_wf s" and "maintains shell_wf gap" and "kds_dshell_write de gap slice_ns nr copy_ok (Some c) ubuf s = (Inr (Some n), s')"
    and "\<forall>q. fst (kds_parse (d_kstrtoll de) (Some (take (DSHELL_LINE_MAX - 1) ubuf)) (Some []) KDS_PARSER_ERR_MAX) \<noteq> Inr (KDS_STMT_INSERT q)"
  shows "n = length ubuf \<and> (\<exists>cl. clients s' c = Some cl \<and> staged cl \<and> opener (c_text (resp_buf cl)) \<and> resp_len cl < DSHELL_RESP_MAX)"
proof -
  let ?upd = "upd_client c (\<lambda>cl. cl\<lparr>resp_buf := put_text 0 [] (resp_buf cl), resp_len := 0, resp_pos := 0\<rparr>) :: ('a dshell_state_scheme, unit) call"
  let ?cmd = "run_line de gap slice_ns nr c (take (DSHELL_LINE_MAX - 1) ubuf)"
  have wr: "kds_dshell_write de gap slice_ns nr copy_ok (Some c) ubuf s = sbind ?upd (\<lambda>_. sobind ?cmd (\<lambda>_. sbind (upd_client c stage) (\<lambda>_. sret (Some (length ubuf))))) s"
    using assms(3) by (cases copy_ok) (simp_all add: kds_dshell_write_def Let_def sfail_def)
  have wf_upd: "maintains shell_wf ?upd" by (intro wf_upd_client) (simp add: client_ok_def DSHELL_RESP_MAX_def put_text_length)
  have wf_cmd: "maintains shell_wf ?cmd" by (rule wf_run_line [OF assms(2)])
  have ans: "answered c t'" if "shell_wf t" "?cmd t = (Inr (Some x), t')" for t t' x
  proof (cases "kds_parse (d_kstrtoll de) (Some (take (DSHELL_LINE_MAX - 1) ubuf)) (Some []) KDS_PARSER_ERR_MAX")
    case (Pair r pe)
    show ?thesis
    proof (cases r)
      case (Inl y)
      with that Pair obtain e where y: "y = Errno e" by (cases y) (auto simp: run_line_def sfail_def)
      have "answers c (sbind (say c (''ERR parse error: '' @ (case pe of None \<Rightarrow> [] | Some m \<Rightarrow> m) @ NL)) (\<lambda>_. sret (Some ())))"
        by (intro answer_rules) (simp add: opener_def)
      with that Pair Inl y show ?thesis by (auto simp: answers_def run_line_def)
    next
      case (Inr stmt)
      with assms(4) Pair have "answers c (kds_dispatch_stmt de gap slice_ns nr c stmt)" by (intro dispatch_answers) auto
      with that Pair Inr show ?thesis
        by (auto simp: answers_def run_line_def sattempt_def strying_def sret_def sfail_def split: prod.splits sum.splits failure.splits)
    qed
  qed
  from assms(3) [unfolded wr] obtain t x t' where t: "?upd s = (Inr (), t)" "?cmd t = (Inr (Some x), t')"
      "upd_client c stage t' = (Inr (), s')" "n = length ubuf"
    by (auto simp: sbind_def sobind_def sret_def split: prod.splits sum.splits option.splits)
  have wt: "shell_wf t" using maintainsD [OF wf_upd assms(1) t(1)] .
  from ans [OF wt t(2)] obtain cl where cl: "clients t' c = Some cl" "opener (c_text (resp_buf cl))" by (auto simp: answered_def)
  have "client_ok (stage cl)" using maintainsD [OF wf_cmd wt t(2)] cl(1) by (intro stage_ok) (auto simp: shell_wf_def)
  with t(3,4) cl show ?thesis by (auto simp: upd_client_run [OF cl(1)] staged_def stage_def client_ok_def)
qed

section \<open>Rounds with one waiting client\<close>

abbreviation hd_opt :: "'a list \<Rightarrow> 'a option" where
  "hd_opt xs \<equiv> (case xs of [] \<Rightarrow> None | x # _ \<Rightarrow> Some x)"

definition idle_client :: "nat \<Rightarrow> 'z dshell_state_scheme \<Rightarrow> bool" where
  "idle_client x s \<longleftrightarrow> (\<exists>cl. clients s x = Some cl \<and> exec_status cl = KDS_DSHELL_EXEC_IDLE)"

lemma list_next_at: "distinct (pre @ x # rest) \<Longrightarrow> list_next x (pre @ x # rest) = hd_opt rest"
proof -
  assume "distinct (pre @ x # rest)"
  then have "dropWhile (\<lambda>d. d \<noteq> x) (pre @ x # rest) = x # rest" by (induction pre) auto
  then show ?thesis by (simp add: list_next_def split: list.splits)
qed

lemma service_skip:
  assumes "kds_dshell_clients s = pre @ as @ rest" and "distinct (kds_dshell_clients s)" and "\<forall>x \<in> set as. idle_client x s"
  shows "service_clients de gap sl (length as + n) (hd_opt (as @ rest)) s = service_clients de gap sl n (hd_opt rest) s"
  using assms
proof (induction as arbitrary: pre)
  case (Cons x as)
  obtain cl where cl: "clients s x = Some cl" "exec_status cl \<noteq> KDS_DSHELL_EXEC_PENDING" using Cons.prems(3) by (auto simp: idle_client_def)
  have "list_next x (kds_dshell_clients s) = hd_opt (as @ rest)" using list_next_at [of pre x "as @ rest"] Cons.prems(1,2) by simp
  with Cons.IH [of "pre @ [x]"] Cons.prems cl show ?case
    by (simp add: sbind_run [where m = "the_client x", OF the_client_run [OF cl(1)]] sget_bind)
qed simp

text \<open>A client whose executor has ended.\<close>

definition ended :: "kds_exec_result \<Rightarrow> dshell_exec \<Rightarrow> kds_dshell_client \<Rightarrow> kds_dshell_client" where
  "ended r ex cl = (stage (cl\<lparr>exec_buf := ex, resp_buf := (if r = KDS_EXEC_ERROR then snd (out_append 0 (''ERR exec failed: '' @ exec_ret_text ex @ NL) (resp_buf cl))
     else resp_buf cl)\<rparr>))\<lparr>exec_status := KDS_DSHELL_EXEC_IDLE, cl_done := Suc (cl_done cl)\<rparr>"

lemma finish_run:
  assumes "clients s c = Some cl"
  shows "sbind (upd_client c (\<lambda>cl. cl\<lparr>exec_buf := ex\<rparr>)) (\<lambda>_. finish_client c r ex) s = (Inr (), s\<lparr>clients := (clients s)(c \<mapsto> ended r ex cl)\<rparr>)"
proof -
  let ?cl = "cl\<lparr>exec_buf := ex\<rparr>"
  let ?s = "s\<lparr>clients := (clients s)(c \<mapsto> ?cl)\<rparr>"
  have c: "clients ?s c = Some ?cl" by simp
  have "finish_client c r ex ?s = (Inr (), s\<lparr>clients := (clients s)(c \<mapsto> ended r ex cl)\<rparr>)"
  proof (cases "r = KDS_EXEC_ERROR")
    case True
    have d: "clients (?s\<lparr>clients := (clients ?s)(c \<mapsto> b)\<rparr>) c = Some b" for b by simp
    show ?thesis
      unfolding finish_client_def say_def if_P [OF True] sbind_run [where m = "upd_client c _", OF upd_client_run [OF c]] upd_client_run [OF d]
      by (simp add: ended_def stage_def True)
  next
    case False
    then show ?thesis by (simp add: finish_client_def upd_client_run [OF c] sbind_def sret_def) (simp add: ended_def stage_def)
  qed
  then show ?thesis by (simp only: sbind_run [where m = "upd_client c _", OF upd_client_run [OF assms]])
qed

lemma keeps_exec: "keeps sched_state.more (run_client_exec de ex sl)"
  unfolding run_client_exec_def kds_exec_run_def sobind_def
  by (auto intro!: keeps_rules keeps_more split: dshell_exec.splits)

lemma round_run:
  fixes s :: "'z dshell_state_scheme"
  assumes wf: "shell_wf s" and l: "kds_dshell_clients s = as @ c # bs" and idle: "\<forall>x \<in> set as \<union> set bs. idle_client x s"
    and cl: "clients s c = Some cl" "exec_status cl = KDS_DSHELL_EXEC_PENDING" and run: "run_client_exec de (exec_buf cl) sl s = (Inr (Some (r, ex)), s1)"
  shows "kds_dshell_proc_run de (sret ()) sl s = (Inr (Some KDS_PROC_YIELD_RET), s1\<lparr>clients := (clients s)(c \<mapsto>
     (if r = KDS_EXEC_CONTINUE then cl\<lparr>exec_buf := ex\<rparr> else ended r ex cl))\<rparr>)"
proof -
  have "sched_state.more s1 = sched_state.more s" using keepsD [OF keeps_exec run] .
  note m = more_dshell [OF this]
  have dist: "distinct (kds_dshell_clients s)" using wf by (simp add: shell_wf_def)
  have hop: "hd_opt (as @ c # bs) = (case kds_dshell_clients s of [] \<Rightarrow> None | c # _ \<Rightarrow> Some c)" using l by simp
  have step: "sbind (run_client_exec de (exec_buf cl) sl) f s = f (Some (r, ex)) s1" for f :: "_ \<Rightarrow> ('z dshell_state_scheme, kds_proc_result option) call"
    using run by (rule sbind_run)
  have upd: "upd_client c (\<lambda>cl. cl\<lparr>exec_buf := ex\<rparr>) s1 = (Inr (), s1\<lparr>clients := (clients s)(c \<mapsto> cl\<lparr>exec_buf := ex\<rparr>)\<rparr>)"
    using cl(1) m(1) by (simp add: upd_client_run)
  have "kds_dshell_proc_run de (sret ()) sl s = service_clients de (sret ()) sl (Suc (length bs)) (Some c) s"
    using service_skip [of s "[]" as "c # bs" de "sret ()" sl "Suc (length bs)"] l dist idle by (simp add: kds_dshell_proc_run_def sget_bind)
  also have "\<dots> = sbind (upd_client c (\<lambda>cl. cl\<lparr>exec_buf := ex\<rparr>)) (\<lambda>_. if r = KDS_EXEC_CONTINUE then sret (Some KDS_PROC_YIELD_RET)
       else sbind (finish_client c r ex) (\<lambda>_. sbind sget (\<lambda>s. service_clients de (sret ()) sl (length bs) (list_next c (kds_dshell_clients s))))) s1"
    using cl by (simp add: sbind_run [where m = "the_client c", OF the_client_run [OF cl(1)]] sobind_def step)
  also have "\<dots> = (Inr (Some KDS_PROC_YIELD_RET), s1\<lparr>clients := (clients s)(c \<mapsto> (if r = KDS_EXEC_CONTINUE then cl\<lparr>exec_buf := ex\<rparr> else ended r ex cl))\<rparr>)"
  proof (cases "r = KDS_EXEC_CONTINUE")
    case True
    then show ?thesis by (simp add: sbind_run [where m = "upd_client c _", OF upd]) (simp add: sret_def)
  next
    case False
    let ?t = "s1\<lparr>clients := (clients s)(c \<mapsto> ended r ex cl)\<rparr>"
    have "\<forall>x \<in> set bs. idle_client x ?t" using idle dist l by (auto simp: idle_client_def)
    then have "service_clients de (sret ()) sl (length bs) (hd_opt bs) ?t = (Inr (Some KDS_PROC_YIELD_RET), ?t)"
      using service_skip [of ?t "as @ [c]" bs "[]" de "sret ()" sl 0] l dist m(2) by (simp add: sret_def)
    moreover have "list_next c (kds_dshell_clients ?t) = hd_opt bs" using list_next_at [of as c bs] l dist m(2) by simp
    moreover have "sbind (upd_client c (\<lambda>cl. cl\<lparr>exec_buf := ex\<rparr>)) (\<lambda>_. finish_client c r ex) s1 = (Inr (), ?t)"
      using finish_run [of s1 c cl ex r] cl(1) m(1) by simp
    ultimately show ?thesis
      using False by (simp add: sbind_def sget_def split: prod.splits sum.splits)
  qed
  finally show ?thesis .
qed

section \<open>Waiting for the end of an executor\<close>

text \<open>No other client of the shell is waiting for an executor.\<close>

definition alone :: "nat \<Rightarrow> 'z dshell_state_scheme \<Rightarrow> bool" where
  "alone c s \<longleftrightarrow> c \<in> set (kds_dshell_clients s) \<and> (\<forall>x \<in> set (kds_dshell_clients s) - {c}. idle_client x s)"

lemma alone_split:
  assumes "alone c s" and "shell_wf s"
  obtains as bs where "kds_dshell_clients s = as @ c # bs" "\<forall>x \<in> set as \<union> set bs. idle_client x s"
proof -
  from assms(1) obtain as bs where l: "kds_dshell_clients s = as @ c # bs" by (auto simp: alone_def dest: split_list)
  moreover have "\<forall>x \<in> set as \<union> set bs. idle_client x s"
    using assms l by (auto simp: alone_def shell_wf_def)
  ultimately show thesis by (rule that)
qed

lemma alone_upd: "sched_state.more s' = sched_state.more s \<Longrightarrow> alone c s \<Longrightarrow> alone c (s'\<lparr>clients := (clients s)(c \<mapsto> cl)\<rparr>)"
proof -
  assume m: "sched_state.more s' = sched_state.more s" and "alone c s"
  then show ?thesis using more_dshell(2) [OF m] by (auto simp: alone_def idle_client_def)
qed

lemma ended_ok: "client_ok cl \<Longrightarrow> client_ok (ended r ex cl)"
proof -
  assume a: "client_ok cl"
  let ?t = "''ERR exec failed: '' @ exec_ret_text ex @ NL"
  have "client_ok (cl\<lparr>exec_buf := ex, resp_buf := (if r = KDS_EXEC_ERROR then snd (out_append 0 ?t (resp_buf cl)) else resp_buf cl)\<rparr>)"
    using a out_append_ok(1,2) [of "resp_buf cl" 0 ?t] by (simp add: client_ok_def DSHELL_RESP_MAX_def)
  from stage_ok [OF this] show ?thesis by (simp add: ended_def client_ok_def)
qed

lemma wf_put: "sched_state.more s' = sched_state.more s \<Longrightarrow> shell_wf s \<Longrightarrow> clients s c \<noteq> None \<Longrightarrow> client_ok cl \<Longrightarrow> shell_wf (s'\<lparr>clients := (clients s)(c \<mapsto> cl)\<rparr>)"
proof -
  assume m: "sched_state.more s' = sched_state.more s" and "shell_wf s" and "clients s c \<noteq> None" and "client_ok cl"
  then show ?thesis using more_dshell(2,3) [OF m] by (auto simp: shell_wf_def)
qed

lemma wait_done:
  assumes "clients s c = Some cl" and "cl_done cl \<noteq> 0"
  shows "wait_for_completion de gap sl nr c s = (Inr (Some True), s\<lparr>clients := (clients s)(c \<mapsto> cl\<lparr>cl_done := cl_done cl - 1\<rparr>)\<rparr>)"
  using assms by (cases nr) (simp_all add: sbind_run [where m = "the_client c", OF the_client_run [OF assms(1)]]
    sbind_run [where m = "upd_client c _", OF upd_client_run [OF assms(1)]], simp_all add: sret_def)

text \<open>
  The contract of an executor as the shell's process runs it: a round either ends it or brings it closer to its end, and
  what it knows of the state does not depend on the clients.
\<close>

locale shell_exec =
  fixes de :: dshell_env
    and sl :: u64
    and at :: "'z dshell_state_scheme \<Rightarrow> dshell_exec \<Rightarrow> nat \<Rightarrow> bool"
    and post :: "kds_exec_result \<Rightarrow> dshell_exec \<Rightarrow> 'z dshell_state_scheme \<Rightarrow> bool"
  assumes runs: "at s ex k \<Longrightarrow> \<exists>r ex' s'. run_client_exec de ex sl s = (Inr (Some (r, ex')), s')
      \<and> (if r = KDS_EXEC_CONTINUE then \<exists>k' < k. at s' ex' k' else post r ex' s')"
    and at_clients: "at s ex k \<Longrightarrow> at (s\<lparr>clients := X\<rparr>) ex k"
    and post_clients: "post r ex s \<Longrightarrow> post r ex (s\<lparr>clients := X\<rparr>)"
begin

lemma wait_ends:
  assumes "shell_wf s" and "alone c s" and "clients s c = Some cl" and "exec_status cl = KDS_DSHELL_EXEC_PENDING" and "cl_done cl = 0"
    and "at s (exec_buf cl) k" and "k < nr"
  shows "\<exists>r ex s' cl'. wait_for_completion de (sret ()) sl nr c s = (Inr (Some True), s') \<and> post r ex s' \<and> shell_wf s'
    \<and> clients s' = (clients s)(c \<mapsto> cl') \<and> exec_buf cl' = ex \<and> kds_dshell_clients s' = kds_dshell_clients s \<and> exec_status cl' = KDS_DSHELL_EXEC_IDLE"
  using assms
proof (induction nr arbitrary: s cl k)
  case (Suc nr)
  note cl = Suc.prems(3)
  obtain as bs where l: "kds_dshell_clients s = as @ c # bs" "\<forall>x \<in> set as \<union> set bs. idle_client x s" using alone_split Suc.prems(1,2) by blast
  obtain r ex s1 where r: "run_client_exec de (exec_buf cl) sl s = (Inr (Some (r, ex)), s1)"
    "if r = KDS_EXEC_CONTINUE then \<exists>k' < k. at s1 ex k' else post r ex s1" using runs [OF Suc.prems(6)] by blast
  have m: "sched_state.more s1 = sched_state.more s" using keepsD [OF keeps_exec r(1)] .
  let ?cl = "if r = KDS_EXEC_CONTINUE then cl\<lparr>exec_buf := ex\<rparr> else ended r ex cl"
  let ?t = "s1\<lparr>clients := (clients s)(c \<mapsto> ?cl)\<rparr>"
  have ok: "client_ok cl" using Suc.prems(1,3) by (auto simp: shell_wf_def)
  then have "client_ok ?cl" using ended_ok by (simp add: client_ok_def)
  then have wf: "shell_wf ?t" using wf_put [OF m Suc.prems(1)] cl by simp
  have step: "wait_for_completion de (sret ()) sl (Suc nr) c s = wait_for_completion de (sret ()) sl nr c ?t"
    unfolding wait_for_completion.simps
    using Suc.prems(5) by (simp add: sbind_run [where m = "the_client c", OF the_client_run [OF cl]] sobind_def
        sbind_run [where m = "kds_dshell_proc_run de (sret ()) sl", OF round_run [OF Suc.prems(1) l cl Suc.prems(4) r(1)]])
  have tc: "clients ?t c = Some ?cl" by simp
  have lst: "kds_dshell_clients ?t = kds_dshell_clients s" using more_dshell(2) [OF m] by simp
  show ?case
  proof (cases "r = KDS_EXEC_CONTINUE")
    case True
    then obtain k' where k': "k' < k" "at s1 ex k'" using r(2) by auto
    have "at ?t (exec_buf ?cl) k'" using at_clients [OF k'(2)] True by simp
    moreover have "exec_status ?cl = KDS_DSHELL_EXEC_PENDING" "cl_done ?cl = 0" using True Suc.prems(4,5) by simp_all
    moreover have "k' < nr" using k'(1) Suc.prems(7) by simp
    ultimately obtain r' ex' s' cl' where "wait_for_completion de (sret ()) sl nr c ?t = (Inr (Some True), s')" "post r' ex' s'" "shell_wf s'"
      "clients s' = (clients ?t)(c \<mapsto> cl')" "exec_buf cl' = ex'" "kds_dshell_clients s' = kds_dshell_clients ?t" "exec_status cl' = KDS_DSHELL_EXEC_IDLE"
      using Suc.IH [OF wf alone_upd [OF m Suc.prems(2)] tc, of k'] by blast
    then show ?thesis using step lst by (intro exI [of _ r'] exI [of _ ex'] exI [of _ s'] exI [of _ cl']) simp
  next
    case False
    let ?e = "(ended r ex cl)\<lparr>cl_done := cl_done (ended r ex cl) - 1\<rparr>"
    let ?u = "?t\<lparr>clients := (clients ?t)(c \<mapsto> ?e)\<rparr>"
    have d: "cl_done ?cl \<noteq> 0" using False by (simp add: ended_def)
    have "wait_for_completion de (sret ()) sl nr c ?t = (Inr (Some True), ?u)"
      using wait_done [OF tc d] False by simp
    moreover have "client_ok ?e" using ended_ok [OF ok] by (simp add: client_ok_def)
    then have "shell_wf ?u" by (intro wf_put [OF refl wf]) (simp_all add: tc)
    moreover have "post r ex ?u" using False r(2) post_clients by (simp add: post_clients)
    ultimately show ?thesis
      using step lst by (intro exI [of _ r] exI [of _ ex] exI [of _ ?u] exI [of _ ?e]) (simp add: ended_def stage_def)
  qed
qed simp

text \<open>The whole of \<^verbatim>\<open>kds_dshell_run_exec_via_proc\<close>.\<close>

lemma via_proc_ends:
  assumes "shell_wf s" and "alone c s" and "clients s c = Some cl" and "at s (exec_buf cl) k" and "k < nr"
  shows "\<exists>r ex s' cl'. kds_dshell_run_exec_via_proc de (sret ()) sl nr c s = (Inr (Some ()), s') \<and> post r ex s' \<and> shell_wf s'
    \<and> clients s' = (clients s)(c \<mapsto> cl') \<and> exec_buf cl' = ex \<and> kds_dshell_clients s' = kds_dshell_clients s \<and> exec_status cl' = KDS_DSHELL_EXEC_IDLE"
proof -
  let ?cl = "cl\<lparr>cl_done := 0, exec_status := KDS_DSHELL_EXEC_PENDING\<rparr>"
  let ?t = "s\<lparr>clients := (clients s)(c \<mapsto> ?cl)\<rparr>"
  have ok: "client_ok ?cl" using assms(1,3) by (auto simp: shell_wf_def client_ok_def)
  have t: "shell_wf ?t" "alone c ?t" using wf_put [OF refl assms(1) _ ok, of c] alone_upd [OF refl assms(2)] assms(3) by simp_all
  obtain r ex s' cl' where w: "wait_for_completion de (sret ()) sl nr c ?t = (Inr (Some True), s')" "post r ex s'" "shell_wf s'"
      "clients s' = (clients ?t)(c \<mapsto> cl')" "exec_buf cl' = ex" "kds_dshell_clients s' = kds_dshell_clients ?t" "exec_status cl' = KDS_DSHELL_EXEC_IDLE"
    using wait_ends [OF t, of ?cl k nr] assms(5) at_clients [OF assms(4)] by auto
  have a: "clients (s\<lparr>clients := (clients s)(c \<mapsto> cl\<lparr>cl_done := 0\<rparr>)\<rparr>) c = Some (cl\<lparr>cl_done := 0\<rparr>)" by simp
  have "kds_dshell_run_exec_via_proc de (sret ()) sl nr c s = (Inr (Some ()), s')"
    unfolding kds_dshell_run_exec_via_proc_def sbind_run [where m = "upd_client c _", OF upd_client_run [OF assms(3)]]
      sbind_run [where m = "upd_client c _", OF upd_client_run [OF a]]
    using w(1) by (simp add: sobind_def sbind_def sret_def)
  then show ?thesis using w(2-) by (intro exI [of _ r] exI [of _ ex] exI [of _ s'] exI [of _ cl']) simp
qed

end

section \<open>INSERT into a heap table\<close>

text \<open>An executor that has not failed stores no error.\<close>

abbreviation clean :: "kds_exec_result \<times> kds_heap_insert_exec \<Rightarrow> bool" where
  "clean \<equiv> \<lambda>(r, ex). r \<noteq> KDS_EXEC_ERROR \<longrightarrow> ex_ret ex = None"

lemma clean_then: "results clean m \<Longrightarrow> (\<And>ex. ex_ret ex = None \<Longrightarrow> results clean (k ex)) \<Longrightarrow> results clean (then_phase m k)"
proof -
  assume m: "results clean m" and k: "\<And>ex. ex_ret ex = None \<Longrightarrow> results clean (k ex)"
  have "clean x" if run: "then_phase m k s = (Inr (Some x), s')" for s x s'
  proof (cases "m s")
    case (Pair q t)
    show ?thesis
    proof (cases q)
      case (Inr y)
      with Pair run obtain r ex where y: "y = Some (r, ex)" by (cases y) (auto simp: then_phase_def sbind_def sret_def)
      with Inr Pair m have c: "clean (r, ex)" by (auto simp: results_def)
      show ?thesis
      proof (cases r)
        case KDS_EXEC_DONE
        with c k have "results clean (k ex)" by simp
        with KDS_EXEC_DONE run Pair Inr y show ?thesis by (auto simp: then_phase_def sbind_def results_def)
      qed (use c run Pair Inr y in \<open>auto simp: then_phase_def sbind_def sret_def\<close>)
    qed (use run Pair in \<open>simp add: then_phase_def sbind_def\<close>)
  qed
  then show ?thesis unfolding results_def by blast
qed

lemma clean_error: "results clean (exec_error ex e)"
  by (simp add: exec_error_def results_def sret_def)

lemmas clean_rules = clean_error results_simple results_sbind results_sattempt

lemma clean_dup: "ex_ret ex = None \<Longrightarrow> results clean (heap_insert_run_dup_scan env senv n ex)"
  by (induction n arbitrary: ex) (auto simp: Let_def split: sum.splits intro!: clean_rules)

lemma clean_tail: "ex_ret ex = None \<Longrightarrow> results clean (heap_insert_run_find_tail env senv n ex)"
  by (induction n arbitrary: ex) (auto simp: grow_chain_def Let_def split: sum.splits option.splits intro!: clean_rules)

lemma clean_run: "ex_ret ex = None \<Longrightarrow> results clean (kds_heap_insert_exec_run env senv crc n ex)"
  unfolding kds_heap_insert_exec_run_def hi_phase_dup_scan_def hi_phase_find_tail_def hi_phase_wal_init_page_def hi_phase_wal_insert_def hi_phase_done_def
    heap_insert_run_wal_init_page_def heap_insert_run_wal_insert_def
  by (auto simp: Let_def split: option.splits kds_heap_insert_phase.splits intro!: clean_rules clean_then clean_dup clean_tail)

lemma same_clients: "same_store s (s\<lparr>clients := X\<rparr>)"
  by (simp add: same_store_def)

lemma same_store_insert:
  assumes "same_store s s'"
  shows "free_of_key s' = free_of_key s" "all_full s' = all_full s" "table_keys s' = table_keys s"
  using same_store_facts [OF assms] by (simp_all add: fun_eq_iff free_of_key_def all_full_def table_keys_def)

lemma table_clients: "table_ready (s\<lparr>clients := X\<rparr>) ps = table_ready s ps" "hi_at (s\<lparr>clients := X\<rparr>) ps d h k = hi_at s ps d h k"
  by (simp_all add: table_ready_def hi_at_def wal_ready_def same_store_facts [OF same_clients] same_store_insert [OF same_clients]
    split: kds_heap_insert_phase.split)

text \<open>The end of an insertion of the row \<open>d\<close> into the table of the pages \<open>ps\<close> that began in the state \<open>s0\<close>.\<close>

definition heap_inserted :: "'z dshell_state_scheme \<Rightarrow> u64 list \<Rightarrow> u8 list \<Rightarrow> kds_heap_insert_exec \<Rightarrow> 'z dshell_state_scheme \<Rightarrow> bool" where
  "heap_inserted s0 ps d h s \<longleftrightarrow>
     (if row_key d \<in> set (table_keys s0 ps) then ex_ret h = Some EEXIST \<and> same_store s0 s
      else if all_full s0 d ps \<and> ring_items s0 = [] then ex_ret h = Some ENOSPC \<and> same_store s0 s
      else ex_ret h = None \<and> (\<exists>ps'. (ps' = ps \<or> all_full s0 d ps \<and> (\<exists>q. ps' = ps @ [q])) \<and> store_ok s \<and> heap_chain s ps'
        \<and> mset (table_rows s ps') = add_mset d (mset (table_rows s0 ps))
        \<and> tid_page_id (hi_out_tid h) \<in> set ps' \<and> row_at s (hi_out_tid h) d))"

lemma heap_inserted_same:
  assumes "same_store s s'" and "heap_inserted s0 ps d h s"
  shows "heap_inserted s0 ps d h s'"
  using assms(2) same_store_facts [OF assms(1)] same_store_trans [of s0 s s', OF _ assms(1)]
  by (auto simp: heap_inserted_def split: if_splits)

lemma outcome_inserted:
  assumes "hi_outcome env crc s ps d rem r h s'" and "r \<noteq> KDS_EXEC_CONTINUE" and "r \<noteq> KDS_EXEC_ERROR \<longrightarrow> ex_ret h = None" and "same_store s0 s"
  shows "heap_inserted s0 ps d h s'"
proof -
  note t = same_store_facts [OF assms(4)] same_store_insert [OF assms(4)]
  show ?thesis
  proof (cases r)
    case KDS_EXEC_DONE
    have "\<not> (all_full s d ps \<and> ring_items s = [])" using assms(1) KDS_EXEC_DONE by (simp add: hi_outcome_def)
    then show ?thesis using outcome_done [OF assms(1) [unfolded KDS_EXEC_DONE]] KDS_EXEC_DONE assms(3) t by (auto simp: heap_inserted_def)
  next
    case KDS_EXEC_ERROR
    then obtain u where "s' = s\<lparr>clock := u\<rparr>" using assms(1) by (auto simp: hi_outcome_def)
    then have "same_store s0 s'" using same_store_trans [OF assms(4)] same_store_upd(1) by simp
    then show ?thesis using KDS_EXEC_ERROR assms(1) t by (auto simp: hi_outcome_def heap_inserted_def free_keys)
  qed (use assms(2) in simp)
qed

definition heap_waits ::
  "dshell_env \<Rightarrow> u64 \<Rightarrow> 'z dshell_state_scheme \<Rightarrow> u64 list \<Rightarrow> u8 list \<Rightarrow> 'z dshell_state_scheme \<Rightarrow> dshell_exec \<Rightarrow> nat \<Rightarrow> bool" where
  "heap_waits de sl s0 ps d s ex k \<longleftrightarrow> (\<exists>h. ex = Heap_insert h \<and> ex_ret h = None \<and> hi_at s ps d h k) \<and> table_ready s ps \<and> length ps < d_pages de
     \<and> (\<forall>i. ktime (d_sched de) (Suc i) < ktime (d_sched de) i + sl) \<and> same_store s0 s"

interpretation heap_shell: shell_exec de sl "heap_waits de sl s0 ps d" "\<lambda>r ex s. \<exists>h. ex = Heap_insert h \<and> heap_inserted s0 ps d h s"
  for de sl and s0 :: "'z dshell_state_scheme" and ps d
proof
  fix s :: "'z dshell_state_scheme" and ex k
  assume a: "heap_waits de sl s0 ps d s ex k"
  then obtain h where h: "ex = Heap_insert h" "ex_ret h = None" "hi_at s ps d h k" by (auto simp: heap_waits_def)
  let ?run = "kds_heap_insert_exec_run (d_kenv de) (d_sched de) (d_crc de) (d_pages de)"
  obtain r h' s' where r: "kds_exec_run (d_sched de) ?run h sl s = (Inr (Some (r, h')), s')"
    "hi_outcome (d_kenv de) (d_crc de) s ps d (\<lambda>k'. k' \<le> k \<and> (ktime (d_sched de) (Suc (clock s)) < ktime (d_sched de) (clock s) + sl \<longrightarrow> k' < k)) r h' s'"
    using heap_insert_slice [OF _ h(3), of "d_pages de" "d_sched de" "d_kenv de" "d_crc de" sl] a unfolding heap_waits_def by blast
  have "results clean (?run (h\<lparr>deadline_ns := ktime (d_sched de) (clock s) + sl\<rparr>))" using h(2) by (intro clean_run) simp
  then have c: "r \<noteq> KDS_EXEC_ERROR \<longrightarrow> ex_ret h' = None" using r(1) by (fastforce simp: exec_run_eq results_def)
  have run: "run_client_exec de ex sl s = (Inr (Some (r, Heap_insert h')), s')"
    using r(1) by (simp add: run_client_exec_def h(1) sobind_def sbind_def sret_def)
  have "if r = KDS_EXEC_CONTINUE then \<exists>k' < k. heap_waits de sl s0 ps d s' (Heap_insert h') k'
      else \<exists>h. Heap_insert h' = Heap_insert h \<and> heap_inserted s0 ps d h s'"
  proof (cases "r = KDS_EXEC_CONTINUE")
    case True
    then obtain t k' where t: "s' = s\<lparr>clock := t\<rparr>" "hi_at s ps d h' k'" "k' < k" using r(2) a by (auto simp: hi_outcome_def heap_waits_def)
    moreover have "same_store s0 s'" using a t(1) same_store_trans same_store_upd(1) by (metis heap_waits_def)
    ultimately show ?thesis using a c True by (auto simp: heap_waits_def)
  next
    case False
    then show ?thesis using outcome_inserted [OF r(2) _ c] a by (simp add: heap_waits_def)
  qed
  then show "\<exists>r ex' s'. run_client_exec de ex sl s = (Inr (Some (r, ex')), s') \<and> (if r = KDS_EXEC_CONTINUE then \<exists>k' < k. heap_waits de sl s0 ps d s' ex' k'
      else \<exists>h. ex' = Heap_insert h \<and> heap_inserted s0 ps d h s')"
    using run by blast
next
  fix s :: "'z dshell_state_scheme" and ex k X
  assume "heap_waits de sl s0 ps d s ex k"
  then show "heap_waits de sl s0 ps d (s\<lparr>clients := X\<rparr>) ex k"
    using same_store_trans [of s0 s, OF _ same_clients] by (auto simp: heap_waits_def table_clients)
next
  fix r ex and s :: "'z dshell_state_scheme" and X
  assume "\<exists>h. ex = Heap_insert h \<and> heap_inserted s0 ps d h s"
  then show "\<exists>h. ex = Heap_insert h \<and> heap_inserted s0 ps d h (s\<lparr>clients := X\<rparr>)"
    using heap_inserted_same [OF same_clients] by blast
qed

text \<open>The text in the response buffer of a client.\<close>

definition response :: "nat \<Rightarrow> 'z dshell_state_scheme \<Rightarrow> string" where
  "response c s = (case clients s c of None \<Rightarrow> [] | Some cl \<Rightarrow> c_text (resp_buf cl))"

lemma c_text_out: "length buf = 512 \<Longrightarrow> c_text (snd (out_append 0 t buf)) = c_text (take 511 t)"
  by (simp add: out_append_def scnprintf_def put_text_def c_text_def Let_def takeWhile_append2 takeWhile_tail)

text \<open>The client with another response.\<close>

abbreviation responds :: "nat \<Rightarrow> kds_dshell_client \<Rightarrow> string \<Rightarrow> 'z dshell_state_scheme \<Rightarrow> 'z dshell_state_scheme" where
  "responds c cl b s \<equiv> s\<lparr>clients := (clients s)(c \<mapsto> cl\<lparr>resp_buf := b\<rparr>)\<rparr>"

lemma say_response:
  assumes "shell_wf s" and "clients s c = Some cl"
  obtains b where "say c t s = (Inr (), responds c cl b s)" "c_text b = c_text (take 511 t)"
proof -
  have "length (resp_buf cl) = 512" using assms by (auto simp: shell_wf_def client_ok_def DSHELL_RESP_MAX_def)
  then show thesis using upd_client_run [OF assms(2)] c_text_out
    by (intro that [of "snd (out_append 0 t (resp_buf cl))"]) (simp_all add: say_def)
qed

definition heap_answer :: "string \<Rightarrow> kds_heap_insert_exec \<Rightarrow> string" where
  "heap_answer name h = (case ex_ret h of
      Some e \<Rightarrow> if e = EEXIST then ''ERR duplicate primary key in '' @ quoted name @ NL else ''ERR insert failed: '' @ ret_text e @ NL
    | None \<Rightarrow> ''OK inserted into '' @ quoted name @ '' at page='' @ u64_text (tid_page_id (hi_out_tid h)) @ '' slot='' @
        show_nat (unat (tid_slot (hi_out_tid h))) @ NL)"

lemma answer_heap_run:
  assumes "shell_wf s" and "clients s c = Some cl" and "exec_buf cl = Heap_insert h"
  shows "\<exists>b. answer_heap c name s = (case ex_ret h of Some e \<Rightarrow> Inl (Errno e) | None \<Rightarrow> Inr (Some ()), responds c cl b s)
    \<and> c_text b = c_text (take 511 (heap_answer name h))"
proof -
  obtain b where b: "say c (heap_answer name h) s = (Inr (), responds c cl b s)" "c_text b = c_text (take 511 (heap_answer name h))"
    by (rule say_response [OF assms(1,2)])
  have "answer_heap c name s = sbind (say c (heap_answer name h)) (\<lambda>_. case ex_ret h of Some e \<Rightarrow> sfail (Errno e) | None \<Rightarrow> sret (Some ())) s"
    unfolding answer_heap_def sbind_run [where m = "the_client c", OF the_client_run [OF assms(2)]] assms(3) heap_answer_def
    by (cases "ex_ret h") (simp_all add: reply_error_def)
  then show ?thesis
    using b by (intro exI [of _ b]) (simp add: sbind_run [where m = "say c _", OF b(1)], simp add: sret_def sfail_def split: option.split)
qed

lemma submit_ends:
  fixes s :: "'z dshell_state_scheme"
  assumes "shell_wf s" and "alone c s" and "table_ready s ps" and "hi_at s ps d h k" and "ex_ret h = None" and "length ps < d_pages de"
    and "\<forall>i. ktime (d_sched de) (Suc i) < ktime (d_sched de) i + sl" and "k < nr"
  shows "\<exists>h' s' cl. kds_dshell_submit_insert_exec de (sret ()) sl nr c h s = (Inr (Some ()), s') \<and> heap_inserted s ps d h' s' \<and> shell_wf s'
    \<and> clients s' c = Some cl \<and> exec_buf cl = Heap_insert h' \<and> exec_status cl = KDS_DSHELL_EXEC_IDLE \<and> kds_dshell_clients s' = kds_dshell_clients s"
proof -
  obtain cl where cl: "clients s c = Some cl" using assms(1,2) by (auto simp: alone_def shell_wf_def)
  let ?cl = "cl\<lparr>exec_buf := Heap_insert h\<rparr>"
  let ?t = "s\<lparr>clients := (clients s)(c \<mapsto> ?cl)\<rparr>"
  have ok: "client_ok ?cl" using assms(1) cl by (auto simp: shell_wf_def client_ok_def)
  have t: "shell_wf ?t" "alone c ?t" "clients ?t c = Some ?cl"
    using wf_put [OF refl assms(1) _ ok, of c] alone_upd [OF refl assms(2)] cl by simp_all
  have "heap_waits de sl s ps d ?t (exec_buf ?cl) k"
    using assms(3-7) same_clients by (auto simp: heap_waits_def table_clients)
  from heap_shell.via_proc_ends [OF t this assms(8)]
  obtain h' s' cl' where "kds_dshell_run_exec_via_proc de (sret ()) sl nr c ?t = (Inr (Some ()), s')" "heap_inserted s ps d h' s'" "shell_wf s'"
    "clients s' c = Some cl'" "exec_buf cl' = Heap_insert h'" "exec_status cl' = KDS_DSHELL_EXEC_IDLE" "kds_dshell_clients s' = kds_dshell_clients s" by auto
  then show ?thesis
    unfolding kds_dshell_submit_insert_exec_def sbind_run [where m = "upd_client c _", OF upd_client_run [OF cl]]
    by (intro exI [of _ h'] exI [of _ s'] exI [of _ cl']) simp
qed

text \<open>C28: An \<^verbatim>\<open>INSERT\<close> of values that encode, the first column a 64-bit integer, into a heap table whose pages are all in memory and scannable (every live row has at most 256 bytes and at least 256 bytes of its page follow its start; a table with an ordinary short row near the end of a page is excluded, there the search for a duplicate leaves the page, see C39), when the log can take records, no other client waits and the clock does not pass a slice between two readings: after at most \<open>2 * pages + 1\<close> rounds of the shell's process the command ends. It is answered with the place of the row, a page of the table and a slot that holds exactly the encoded row, and then the table holds its old rows and the encoded row, in the same pages or in one more when all were full; or with a duplicate-key error exactly when the key is in the table, or with \<^verbatim>\<open>ENOSPC\<close> exactly when all pages are full and no page is staged, and then no page has changed. The client waits for nothing afterwards.\<close>

theorem insert_command_completes:
  fixes s :: "'z dshell_state_scheme"
  assumes "shell_wf s" and "alone c s" and "table_ready s ps" and "rel_kind rel = Kds_Catalog.KDS_CLUSTERED_HEAP" and "rel_root_page_id rel = hd ps"
    and "length (in_values stmt) = unat (nr_cols (rel_schema rel))" and "schema_cols (rel_schema rel) \<noteq> []"
    and "sc_type_val (hd (schema_cols (rel_schema rel))) = type_val_code KDS_TYPE_INT64"
    and "kds_dshell_encode_row_from_vals (d_kstrtoll de) (rel_schema rel) (in_values stmt) KDS_DSHELL_ROW_MAX = Inr (row, n)"
    and "length ps < d_pages de" and "\<forall>i. ktime (d_sched de) (Suc i) < ktime (d_sched de) i + sl" and "2 * length ps < nr"
  shows "\<exists>r s'. insert_into de (sret ()) sl nr c stmt rel s = (r, s') \<and> idle_client c s' \<and> kds_dshell_clients s' = kds_dshell_clients s
    \<and> (if row_key row \<in> set (table_keys s ps)
       then r = Inl (Errno EEXIST) \<and> same_store s s' \<and> response c s' = c_text (take 511 (''ERR duplicate primary key in '' @ quoted (in_table_name stmt) @ NL))
       else if all_full s row ps \<and> ring_items s = []
       then r = Inl (Errno ENOSPC) \<and> same_store s s' \<and> response c s' = c_text (take 511 (''ERR insert failed: '' @ ret_text ENOSPC @ NL))
       else r = Inr (Some ())
         \<and> (\<exists>tid ps'. response c s' = c_text (take 511 (''OK inserted into '' @ quoted (in_table_name stmt) @ '' at page='' @ u64_text (tid_page_id tid) @ '' slot='' @
                show_nat (unat (tid_slot tid)) @ NL))
              \<and> tid_page_id tid \<in> set ps' \<and> row_at s' tid row \<and> (ps' = ps \<or> all_full s row ps \<and> (\<exists>q. ps' = ps @ [q])) \<and> store_ok s' \<and> heap_chain s' ps'
              \<and> mset (table_rows s' ps') = add_mset row (mset (table_rows s ps))))"
proof -
  have row: "unat n = length row" "8 \<le> length row" "length row \<le> 256" using encoded_key [OF assms(9,7,8)] by (simp_all add: KDS_DSHELL_ROW_MAX_def)
  then have n: "n = of_nat (length row)" by (simp add: word_unat_eq_iff unat_of_nat take_bit_nat_eq_self)
  have "buf_rd row 8 \<noteq> None" using row(2) by (simp add: buf_rd_def)
  then obtain h where h: "kds_heap_insert_exec_init (Some rel) (Some row) n KDS_DSHELL_XID = Inr h" and e: "ex_ret h = None"
    by (cases "n < 8") (auto simp: kds_heap_insert_exec_init_def rbind_def)
  have "hi_at s ps row h (2 * length ps)"
    by (rule init_at [OF _ assms(4,5) row(2) _ h [unfolded n]]) (use row(3) assms(3) in \<open>simp_all add: table_ready_def\<close>)
  from submit_ends [OF assms(1-3) this e assms(10-12)] obtain h' s1 cl where
    s1: "kds_dshell_submit_insert_exec de (sret ()) sl nr c h s = (Inr (Some ()), s1)" "heap_inserted s ps row h' s1" "shell_wf s1"
      "clients s1 c = Some cl" "exec_buf cl = Heap_insert h'" "exec_status cl = KDS_DSHELL_EXEC_IDLE" "kds_dshell_clients s1 = kds_dshell_clients s" by blast
  have eq: "insert_into de (sret ()) sl nr c stmt rel s = answer_heap c (in_table_name stmt) s1"
    using assms(4,6) by (simp add: insert_into_def Let_def assms(9) insert_heap_row_def h slift_def kds_relation_close_def sobind_def sbind_def s1(1)) (simp add: sret_def)
  from answer_heap_run [OF s1(3-5), of "in_table_name stmt"] obtain b where
    b: "answer_heap c (in_table_name stmt) s1 = (case ex_ret h' of Some e \<Rightarrow> Inl (Errno e) | None \<Rightarrow> Inr (Some ()), responds c cl b s1)"
      "c_text b = c_text (take 511 (heap_answer (in_table_name stmt) h'))" by blast
  let ?s = "responds c cl b s1"
  have r: "response c ?s = c_text (take 511 (heap_answer (in_table_name stmt) h'))" "idle_client c ?s" "kds_dshell_clients ?s = kds_dshell_clients s"
    using b(2) s1(6,7) by (simp_all add: response_def idle_client_def)
  have i: "heap_inserted s ps row h' ?s" using heap_inserted_same [OF same_clients s1(2)] .
  show ?thesis
  proof (intro exI conjI)
    show "insert_into de (sret ()) sl nr c stmt rel s = (case ex_ret h' of Some e \<Rightarrow> Inl (Errno e) | None \<Rightarrow> Inr (Some ()), ?s)" unfolding eq b(1) ..
  qed (rule r, rule r, insert i r(1), auto simp: heap_inserted_def heap_answer_def split: if_splits)
qed

section \<open>Timeouts\<close>

lemma wait_false:
  assumes "wait_for_completion de gap sl nr c s = (Inr (Some False), s')"
  shows "\<exists>cl. clients s' c = Some cl"
  using assms
proof (induction nr arbitrary: s)
  case 0
  then show ?case by (auto simp: sbind_def the_client_def upd_client_def sget_def sret_def sfail_def smod_def split: option.splits if_splits)
next
  case (Suc nr)
  from Suc.prems obtain cl where cl: "clients s c = Some cl" by (cases "clients s c") (auto simp: sbind_def the_client_def sget_def sret_def sfail_def)
  then have w: "sobind (kds_dshell_proc_run de gap sl) (\<lambda>_. wait_for_completion de gap sl nr c) s = (Inr (Some False), s')"
    using Suc.prems wait_done [OF cl, of de gap sl "Suc nr"]
    by (auto simp: sbind_run [where m = "the_client c", OF the_client_run [OF cl]] split: if_splits)
  then show ?case using Suc.IH by (auto simp: sobind_def sbind_def sret_def split: prod.splits sum.splits option.splits)
qed

definition timeout_text :: string where
  "timeout_text = ''ERR exec timed out after 5000ms'' @ NL"

lemma timeout_text: "''ERR exec timed out after '' @ show_nat KDS_DSHELL_EXEC_TIMEOUT_MS @ ''ms'' @ NL = timeout_text" "c_text (take 511 timeout_text) = timeout_text"
  by (simp_all add: timeout_text_def KDS_DSHELL_EXEC_TIMEOUT_MS_def show_nat.simps char_of_def bit_0 c_text_def NL_def)

lemma cancel_run:
  assumes "shell_wf s" and "clients s c = Some cl"
  shows "\<exists>cl'. cancel_exec c s = (Inr (), s\<lparr>clients := (clients s)(c \<mapsto> cl')\<rparr>) \<and> exec_status cl' = KDS_DSHELL_EXEC_IDLE \<and> staged cl'
    \<and> c_text (resp_buf cl') = timeout_text"
proof -
  let ?cl = "if exec_status cl = KDS_DSHELL_EXEC_PENDING then cl\<lparr>exec_status := KDS_DSHELL_EXEC_IDLE\<rparr> else cl"
  let ?s = "s\<lparr>clients := (clients s)(c \<mapsto> ?cl)\<rparr>"
  have i: "exec_status ?cl = KDS_DSHELL_EXEC_IDLE" by (cases "exec_status cl") simp_all
  have "client_ok ?cl" using assms by (auto simp: shell_wf_def client_ok_def)
  then have wf: "shell_wf ?s" using assms by (intro wf_put [OF refl]) simp_all
  have c: "clients ?s c = Some ?cl" by simp
  obtain b where b: "say c timeout_text ?s = (Inr (), responds c ?cl b ?s)" "c_text b = c_text (take 511 timeout_text)" by (rule say_response [OF wf c])
  have d: "clients (responds c ?cl b ?s) c = Some (?cl\<lparr>resp_buf := b\<rparr>)" by simp
  have "cancel_exec c s = upd_client c stage (responds c ?cl b ?s)"
    unfolding cancel_exec_def timeout_text(1) sbind_run [where m = "upd_client c _", OF upd_client_run [OF assms(2)]] sbind_run [where m = "say c _", OF b(1)] ..
  also have "\<dots> = (Inr (), s\<lparr>clients := (clients s)(c \<mapsto> stage (?cl\<lparr>resp_buf := b\<rparr>))\<rparr>)"
    unfolding upd_client_run [OF d] by simp
  finally show ?thesis
    using i b(2) timeout_text(2) by (intro exI [of _ "stage (?cl\<lparr>resp_buf := b\<rparr>)"] conjI) (simp_all add: stage_def staged_def)
qed

text \<open>C36: A wait whose time is over between two rounds of the shell's process, after any number of rounds in which the executor has not ended, cancels the executor: the command fails with \<^verbatim>\<open>ETIMEDOUT\<close>, the response says so and is staged, the client is no longer pending, and as long as no client of the list waits a round of the shell's process changes nothing at all. This is the case in which no slice of the executor is in progress when the time is over; a slice that is running on another CPU at that moment is not stopped (dshell.c:846).\<close>

theorem timeout_cancels:
  assumes "shell_wf s" and "maintains shell_wf gap" and "clients s c = Some cl"
    and "wait_for_completion de gap sl nr c (s\<lparr>clients := (clients s)(c \<mapsto> cl\<lparr>cl_done := 0, exec_status := KDS_DSHELL_EXEC_PENDING\<rparr>)\<rparr>) = (Inr (Some False), s1)"
  shows "\<exists>s' cl'. kds_dshell_run_exec_via_proc de gap sl nr c s = (Inl (Errno ETIMEDOUT), s') \<and> clients s' c = Some cl'
    \<and> exec_status cl' = KDS_DSHELL_EXEC_IDLE \<and> staged cl' \<and> c_text (resp_buf cl') = ''ERR exec timed out after 5000ms'' @ NL
    \<and> (alone c s' \<longrightarrow> kds_dshell_proc_run de gap' sl' s' = (Inr (Some KDS_PROC_YIELD_RET), s'))"
proof -
  let ?cl = "cl\<lparr>cl_done := 0, exec_status := KDS_DSHELL_EXEC_PENDING\<rparr>"
  let ?t = "s\<lparr>clients := (clients s)(c \<mapsto> ?cl)\<rparr>"
  have "client_ok ?cl" using assms(1,3) by (auto simp: shell_wf_def client_ok_def)
  then have "shell_wf ?t" using assms(1,3) by (intro wf_put [OF refl]) simp_all
  then have wf: "shell_wf s1" using maintainsD [OF wf_wait [OF assms(2)] _ assms(4)] by blast
  obtain cl1 where "clients s1 c = Some cl1" using wait_false [OF assms(4)] by blast
  from cancel_run [OF wf this] obtain cl' where c: "cancel_exec c s1 = (Inr (), s1\<lparr>clients := (clients s1)(c \<mapsto> cl')\<rparr>)"
    "exec_status cl' = KDS_DSHELL_EXEC_IDLE" "staged cl'" "c_text (resp_buf cl') = timeout_text" by blast
  let ?s = "s1\<lparr>clients := (clients s1)(c \<mapsto> cl')\<rparr>"
  have a: "clients (s\<lparr>clients := (clients s)(c \<mapsto> cl\<lparr>cl_done := 0\<rparr>)\<rparr>) c = Some (cl\<lparr>cl_done := 0\<rparr>)" by simp
  have t: "s\<lparr>clients := (clients s)(c \<mapsto> cl\<lparr>cl_done := 0\<rparr>)\<rparr>\<lparr>clients := (clients (s\<lparr>clients := (clients s)(c \<mapsto> cl\<lparr>cl_done := 0\<rparr>)\<rparr>))(c \<mapsto> ?cl)\<rparr> = ?t" by simp
  have run: "kds_dshell_run_exec_via_proc de gap sl nr c s = (Inl (Errno ETIMEDOUT), ?s)"
    unfolding kds_dshell_run_exec_via_proc_def sbind_run [where m = "upd_client c _", OF upd_client_run [OF assms(3)]]
      sbind_run [where m = "upd_client c _", OF upd_client_run [OF a]] sobind_def
    by (simp add: sbind_run [where m = "wait_for_completion de gap sl nr c", OF assms(4)] sbind_run [where m = "cancel_exec c", OF c(1)])
      (simp add: sfail_def)
  have "kds_dshell_proc_run de gap' sl' ?s = (Inr (Some KDS_PROC_YIELD_RET), ?s)" if al: "alone c ?s"
  proof -
    have "\<forall>x \<in> set (kds_dshell_clients s1). idle_client x ?s" using al c(2) by (auto simp: alone_def idle_client_def)
    moreover have "distinct (kds_dshell_clients s1)" using wf by (simp add: shell_wf_def)
    ultimately show ?thesis using service_skip [of ?s "[]" "kds_dshell_clients s1" "[]" de gap' sl' 0]
      by (simp add: kds_dshell_proc_run_def sget_bind sret_def)
  qed
  then show ?thesis using run c(2-) by (intro exI [of _ ?s] exI [of _ cl']) (simp add: timeout_text_def)
qed

section \<open>Start and shutdown\<close>

text \<open>Which objects of the device model exist, and whether the shell is started.\<close>

definition device_objects :: "'z dshell_state_scheme \<Rightarrow> bool list" where
  "device_objects s = [dev_region s, dev_cdev s, dev_class s, dev_node s, kds_dshell_inited s]"

lemma objects_more: "keeps sched_state.more m \<Longrightarrow> keeps device_objects m"
  unfolding keeps_def device_objects_def by (auto dest: more_dshell)

lemmas objects_calls = objects_more [OF keeps_more [OF keeps_kalloc]] objects_more [OF keeps_register(1)] objects_more [OF keeps_register(2)]

lemma objects_register: "keeps device_objects (kds_register_dshell_proc de)"
  unfolding kds_register_dshell_proc_def
  by (intro keeps_rules keeps_smod objects_calls; simp add: device_objects_def)

lemma objects_unregister: "keeps device_objects (unregister_dshell_proc de)"
  unfolding unregister_dshell_proc_def
  by (intro keeps_rules keeps_smod objects_calls; simp add: device_objects_def)

lemma register_result:
  assumes "kds_register_dshell_proc de s = (r, s')"
  shows "r = Inr () \<Longrightarrow> kds_dshell_proc s' \<noteq> None" and "r = Inl (Errno e) \<Longrightarrow> kds_dshell_proc s' = None"
proof -
  have k: "kds_dshell_proc t' = kds_dshell_proc t" if "kds_proc_register (d_sched de) p t = (q, t')" for p q and t t' :: "'a dshell_state_scheme"
    using more_dshell(5) [OF keepsD [OF keeps_register(1) that]] .
  note run = assms [unfolded kds_register_dshell_proc_def sattempt_def strying_def]
  show "r = Inr () \<Longrightarrow> kds_dshell_proc s' \<noteq> None"
    using run by (auto simp: call_defs kalloc_def split: prod.splits sum.splits failure.splits if_splits dest!: k)
  show "r = Inl (Errno e) \<Longrightarrow> kds_dshell_proc s' = None"
    using run by (auto simp: call_defs kalloc_def split: prod.splits sum.splits failure.splits if_splits)
qed

lemma unregister_result: "unregister_dshell_proc de s = (Inr x, s') \<Longrightarrow> kds_dshell_proc s' = None"
  by (auto simp: unregister_dshell_proc_def call_defs split: option.splits prod.splits sum.splits)

lemma unregister_no_errno: "unregister_dshell_proc de s \<noteq> (Inl (Errno e), s')"
  by (auto simp: unregister_dshell_proc_def kds_proc_unregister_def rq_del_def list_del_init_def call_defs Let_def split: option.splits prod.splits sum.splits if_splits)

abbreviation device :: "'z dshell_state_scheme \<Rightarrow> bool list \<times> nat option" where
  "device s \<equiv> (device_objects s, kds_dshell_proc s)"

lemma device_client: "keeps device (upd_client c f)" "keeps device (the_client c)" "keeps device (say c t)"
  by (auto simp: keeps_def say_def upd_client_def the_client_def call_defs device_objects_def split: option.splits)

lemma device_wake: "keeps device (wake_clients cs)"
  by (induction cs) (auto intro!: keeps_rules device_client)

lemma shutdown_removes:
  assumes "kds_dshell_inited s" and "kds_dshell_proc s \<noteq> None" and "kds_shutdown_dshell_system de s = (Inr (), s')"
  shows "device s' = ([False, False, False, False, False], None)"
proof -
  from assms obtain x t u where t: "unregister_dshell_proc de (s\<lparr>dev_node := False\<rparr>) = (Inr x, t)" and u: "wake_clients (kds_dshell_clients s) t = (Inr (), u)"
    and s': "s' = u\<lparr>dev_class := False, dev_cdev := False, dev_region := False, kds_dshell_inited := False\<rparr>"
    by (auto simp: kds_shutdown_dshell_system_def sbind_def sget_def smod_def split: prod.splits sum.splits)
  have "device u = (device_objects (s\<lparr>dev_node := False\<rparr>), None)"
    using keepsD [OF device_wake u] keepsD [OF objects_unregister t] unregister_result [OF t] by simp
  then show ?thesis by (simp add: s' device_objects_def)
qed

text \<open>The last two steps of the start, when the device numbers, the character device and the class exist.\<close>

lemma start_last:
  assumes "device_objects s = [True, True, True, False, False]"
    and "sattempt (kds_register_dshell_proc de) (\<lambda>r. case r of
             Inl e \<Rightarrow> undo_class e
           | Inr _ \<Rightarrow>
             (case d_device de of
                Some e \<Rightarrow> sbind (unregister_dshell_proc de) (\<lambda>_. undo_class e)
              | None \<Rightarrow> smod (\<lambda>s. s\<lparr>dev_node := True, kds_dshell_inited := True\<rparr>))) s = (r, s')"
  shows "(r = Inr () \<longrightarrow> device_objects s' = [True, True, True, True, True] \<and> kds_dshell_proc s' \<noteq> None)
    \<and> (r = Inl (Errno e) \<longrightarrow> device s' = ([False, False, False, False, False], None))"
proof -
  obtain q t where reg: "kds_register_dshell_proc de s = (q, t)" by (cases "kds_register_dshell_proc de s")
  have o: "device_objects t = [True, True, True, False, False]" using keepsD [OF objects_register reg] assms(1) by simp
  note defs = sattempt_def strying_def reg undo_class_def undo_cdev_def undo_region_def call_defs device_objects_def
  show ?thesis
  proof (cases q)
    case (Inl x)
    then show ?thesis using register_result(2) [OF reg] assms(2) o by (cases x) (auto simp: defs)
  next
    case (Inr x)
    show ?thesis
    proof (cases "d_device de")
      case None
      then show ?thesis using assms(2) Inr register_result(1) [OF reg] o by (auto simp: defs)
    next
      case (Some e')
      obtain y v where v: "unregister_dshell_proc de t = (y, v)" by (cases "unregister_dshell_proc de t")
      then show ?thesis
        using assms(2) Inr Some unregister_no_errno [of de t] unregister_result [of de t _ v] keepsD [OF objects_unregister v] o
        by (cases y) (auto simp: defs)
    qed
  qed
qed

lemma start_result:
  assumes "device s = ([False, False, False, False, False], None)" and "kds_init_dshell_system de s = (r, s')"
  shows "(r = Inr () \<longrightarrow> device_objects s' = [True, True, True, True, True] \<and> kds_dshell_proc s' \<noteq> None)
    \<and> (r = Inl (Errno e) \<longrightarrow> device s' = ([False, False, False, False, False], None))"
proof (cases "d_region de = None \<and> d_cdev de = None \<and> d_class de = None")
  case False
  then show ?thesis using assms
    by (cases "d_region de"; cases "d_cdev de"; cases "d_class de")
      (auto simp: kds_init_dshell_system_def undo_cdev_def undo_region_def call_defs device_objects_def)
next
  case True
  have "device_objects (s\<lparr>dev_region := True, dev_cdev := True, dev_class := True\<rparr>) = [True, True, True, False, False]"
    using assms(1) by (simp add: device_objects_def)
  from start_last [OF this] show ?thesis
    using assms True by (auto simp: kds_init_dshell_system_def sbind_def sget_def smod_def device_objects_def)
qed

text \<open>The start of the shell is all or nothing: when it succeeds, the device numbers, the character device, the class, the node and the process of the shell exist; when any of its steps fails, nothing of it remains and the shell is not started. A shutdown that returns removes everything again.\<close>

theorem start_all_or_nothing:
  assumes "device_objects s = [False, False, False, False, False]" and "kds_dshell_proc s = None" and "kds_init_dshell_system de s = (r, s1)"
  shows "(r = Inr () \<longrightarrow> device_objects s1 = [True, True, True, True, True] \<and> kds_dshell_proc s1 \<noteq> None
           \<and> (kds_shutdown_dshell_system de s1 = (Inr (), s2) \<longrightarrow> device_objects s2 = [False, False, False, False, False] \<and> kds_dshell_proc s2 = None))
    \<and> (r = Inl (Errno e) \<longrightarrow> device_objects s1 = [False, False, False, False, False] \<and> kds_dshell_proc s1 = None)"
proof -
  have "device_objects s2 = [False, False, False, False, False] \<and> kds_dshell_proc s2 = None"
    if "device_objects s1 = [True, True, True, True, True]" "kds_dshell_proc s1 \<noteq> None" "kds_shutdown_dshell_system de s1 = (Inr (), s2)"
    using shutdown_removes [OF _ that(2,3)] that(1) by (simp add: device_objects_def)
  then show ?thesis using start_result [OF _ assms(3), of e] assms(1,2) by auto
qed

definition shell_on :: "sched_state \<Rightarrow> dshell_state" where
  "shell_on t = sched_state.extend t (dshell_state.fields [0 \<mapsto> new_client] [0] 1 True None True True True True)"

lemma shell_on_fields [simp]:
  "pframes (shell_on t) = pframes t" "pmap (shell_on t) = pmap t" "clients (shell_on t) = [0 \<mapsto> new_client]"
  "kds_dshell_clients (shell_on t) = [0]" "next_client (shell_on t) = 1" "g_wal (shell_on t) = g_wal t" "ring (shell_on t) = ring t"
  "free_frames (shell_on t) = free_frames t" "nr_free (shell_on t) = nr_free t" "g_pool (shell_on t) = g_pool t"
  "cursor (shell_on t) = cursor t" "reserved (shell_on t) = reserved t" "g_alloc (shell_on t) = g_alloc t"
  by (simp_all add: shell_on_def sched_state.defs dshell_state.defs)

lemma shell_on_store:
  "ring_items (shell_on t) = ring_items t" "cat_frame (shell_on t) = cat_frame t" "table_rows (shell_on t) = table_rows t"
  "table_keys (shell_on t) = table_keys t" "all_full (shell_on t) = all_full t" "next_page (shell_on t) = next_page t"
  by (simp_all add: next_page_def ring_items_def ring_len_def kds_ring_count_def slot_at_def cat_frame_def table_rows_def table_keys_def all_full_def fun_eq_iff)

lemma shell_on_ready: "table_ready (shell_on t) ps = table_ready t ps"
  by (simp add: table_ready_def store_ok_def alloc_wf_def pool_wf_def hdrs_ok_def ring_inv_def ring_len_def kds_ring_count_def slot_at_def heap_chain_def chain_links_def wal_ready_def shell_on_store)

lemma shell_on_wf: "shell_wf (shell_on t)" "alone 0 (shell_on t)" "clients (shell_on t) 0 = Some new_client"
  by (auto simp: shell_wf_def client_ok_def new_client_def DSHELL_RESP_MAX_def alone_def)

abbreviation demo_shell :: dshell_state where
  "demo_shell \<equiv> shell_on (demo_table None)"

lemma demo_shell_ready: "table_ready demo_shell [200]"
  using demo_table_ready by (simp add: shell_on_ready)

lemmas demo_shell_wf = shell_on_wf [of "demo_table None"]

definition demo_denv :: dshell_env where
  "demo_denv = \<lparr>d_kenv = demo_env, d_sched = demo_clock, d_crc = (\<lambda>_ _. 0), d_kstrtoll = kstrtoll_decimal, d_pages = 2, d_proc = 3,
     d_region = None, d_cdev = None, d_class = None, d_device = Some ENOMEM\<rparr>"

definition demo_heap :: kds_relation where
  "demo_heap = demo_rel\<lparr>rel_schema := shell_schema\<rparr>"

definition shell_insert :: kds_stmt_insert where
  "shell_insert = \<lparr>in_table_name = ''t'', in_values = shell_vals\<rparr>"

theorem insert_command_completes_witness:
  "\<exists>s' ps' tid. insert_into demo_denv (sret ()) 5000 3 0 shell_insert demo_heap (shell_on (demo_table (Some (replicate 256 9)))) = (Inr (Some ()), s') \<and> idle_client 0 s'
    \<and> heap_chain s' ps' \<and> mset (table_rows s' ps') = {#enc64 7 @ [3, 0, 97, 100, 97], replicate 256 9#} \<and> row_at s' tid (enc64 7 @ [3, 0, 97, 100, 97])
    \<and> response 0 s' = c_text (take 511 (''OK inserted into '' @ quoted ''t'' @ '' at page='' @ u64_text (tid_page_id tid) @ '' slot='' @ show_nat (unat (tid_slot tid)) @ NL))"
proof -
  let ?row = "enc64 7 @ [3, 0, 97, 100, 97] :: u8 list" and ?s = "shell_on (demo_table (Some (replicate 256 9)))"
  have l: "length (replicate 256 9 :: u8 list) = 256" by simp
  note R = demo_full_ready [OF l]
  have rows: "table_rows ?s [200] = [replicate 256 9]" using R(2) by (simp add: shell_on_store del: table_rows_append)
  have f: "\<not> all_full ?s ?row [200]" using R(3) [of ?row] by (simp add: shell_on_store)
  have "row_key ?row \<noteq> row_key (replicate 256 9)" by (simp add: row_key_def) code_simp
  then have k: "row_key ?row \<notin> set (table_keys ?s [200])" using rows by (simp add: table_keys_def del: table_rows_append)
  have "kds_dshell_encode_row_from_vals (d_kstrtoll demo_denv) (rel_schema demo_heap) (in_values shell_insert) KDS_DSHELL_ROW_MAX = Inr (?row, 13)"
    using shell_row by (simp add: demo_denv_def demo_heap_def shell_insert_def)
  from insert_command_completes [OF shell_on_wf(1,2) _ _ _ _ _ _ this, of "demo_table (Some (replicate 256 9))" "[200]" 5000 3] show ?thesis
    using f k rows demo_clock_ticks(1) R(1)
    by (auto simp: shell_on_ready demo_heap_def demo_rel_def shell_insert_def demo_denv_def shell_schema_def schema_cols_def shell_vals_def mk_col_def simp del: table_rows_append)
qed

theorem shell_invariant_witness:
  "shell_wf (snd (sbind (sbind (kds_dshell_open demo_denv) (\<lambda>_. sret ())) (\<lambda>_. kds_dshell_release (Some 0)) demo_shell))
    \<and> kds_dshell_clients (snd (sbind (sbind (kds_dshell_open demo_denv) (\<lambda>_. sret ())) (\<lambda>_. kds_dshell_release (Some 0)) demo_shell)) = [1]"
proof -
  let ?m = "sbind (sbind (kds_dshell_open demo_denv) (\<lambda>_. sret ())) (\<lambda>_. kds_dshell_release (Some 0)) :: (dshell_state, unit) call"
  have "shell_op demo_denv ?m" by (intro shell_op.both shell_op.open_file shell_op.releasing)
  then have "shell_wf (snd (?m demo_shell))" by (rule shell_invariant [OF _ demo_shell_wf(1) prod.collapse [symmetric]])
  moreover have "kds_dshell_clients (snd (?m demo_shell)) = [1]"
    by (simp add: kds_dshell_open_def kds_dshell_release_def kalloc_def demo_denv_def demo_env_def the_client_def new_client_def call_defs Let_def)
  ultimately show ?thesis by simp
qed

theorem reads_deliver_witness:
  "fst (read_seq 0 [1, 5] (demo_shell\<lparr>clients := [0 \<mapsto> new_client\<lparr>resp_buf := put_text 0 ''OK 42'' (replicate 512 (CHR 0x00)), resp_len := 5\<rparr>]\<rparr>)) = Inr ''OK 42''"
proof -
  let ?cl = "new_client\<lparr>resp_buf := put_text 0 ''OK 42'' (replicate 512 (CHR 0x00)), resp_len := 5\<rparr>"
  have "staged ?cl" "c_text (resp_buf ?cl) = ''OK 42''" by (simp_all add: staged_def new_client_def put_text_def c_text_def)
  then show ?thesis using reads_deliver [of "demo_shell\<lparr>clients := [0 \<mapsto> ?cl]\<rparr>" 0 ?cl "[1, 5]"] by (auto simp del: read_seq.simps)
qed

theorem write_answered_witness:
  "\<exists>s' cl. kds_dshell_write demo_denv (sret ()) 5000 3 True (Some 0) ''drop'' demo_shell = (Inr (Some 4), s') \<and> clients s' 0 = Some cl
    \<and> staged cl \<and> opener (c_text (resp_buf cl))"
proof -
  let ?p = "kds_parse kstrtoll_decimal (Some ''drop'') (Some []) 256"
  have "\<not> is_ok (fst ?p)" and e: "case fst ?p of Inl (Errno e) \<Rightarrow> True | _ \<Rightarrow> False" by code_simp+
  then obtain e pe where p: "?p = (Inl (Errno e), pe)" by (cases ?p) (auto split: sum.splits failure.splits)
  have "\<exists>s'. kds_dshell_write demo_denv (sret ()) 5000 3 True (Some 0) ''drop'' demo_shell = (Inr (Some 4), s')"
    by (simp add: kds_dshell_write_def run_line_def DSHELL_LINE_MAX_def KDS_PARSER_ERR_MAX_def p demo_denv_def say_def sobind_def upd_client_def the_client_def call_defs)
  then obtain s' where s': "kds_dshell_write demo_denv (sret ()) 5000 3 True (Some 0) ''drop'' demo_shell = (Inr (Some 4), s')" by blast
  have "\<forall>q. fst (kds_parse (d_kstrtoll demo_denv) (Some (take (DSHELL_LINE_MAX - 1) ''drop'')) (Some []) KDS_PARSER_ERR_MAX) \<noteq> Inr (KDS_STMT_INSERT q)"
    using p by (simp add: demo_denv_def DSHELL_LINE_MAX_def KDS_PARSER_ERR_MAX_def)
  from write_answered [OF demo_shell_wf(1) maintains_basic(1) s' this] s' show ?thesis by auto
qed

theorem release_races_round_witness:
  "\<exists>h. fst (kds_dshell_proc_run demo_denv (kds_dshell_release (Some 0)) 5000
      (demo_shell\<lparr>clients := [0 \<mapsto> new_client\<lparr>exec_status := KDS_DSHELL_EXEC_PENDING, exec_buf := Heap_insert h\<rparr>]\<rparr>)) = Inl Fault"
proof -
  let ?d = "replicate 20 7 :: u8 list" and ?h = "demo_exec (replicate 20 7)"
  let ?cl = "new_client\<lparr>exec_status := KDS_DSHELL_EXEC_PENDING, exec_buf := Heap_insert ?h\<rparr>"
  let ?s = "demo_shell\<lparr>clients := [0 \<mapsto> ?cl]\<rparr>"
  have "kds_heap_insert_exec_init (Some demo_rel) (Some ?d) (of_nat (length ?d)) 1 = Inr ?h" by (rule demo_exec_init) simp_all
  then have "hi_at demo_shell [200] ?d ?h (2 * length [200 :: u64])"
    by (rule init_at [rotated 5]) (use demo_shell_ready in \<open>simp_all add: table_ready_def demo_rel_def\<close>)
  then have "heap_waits demo_denv 5000 demo_shell [200] ?d ?s (exec_buf ?cl) 2"
    using demo_shell_ready demo_clock_ticks(1) same_clients by (simp add: heap_waits_def table_clients demo_denv_def demo_exec_def)
  from heap_shell.runs [OF this] obtain r ex s1 where "run_client_exec demo_denv (exec_buf ?cl) 5000 ?s = (Inr (Some (r, ex)), s1)" by blast
  from release_races_round [OF _ _ _ this, of 0 "[]"] show ?thesis by (intro exI [of _ ?h]) simp
qed

theorem start_all_or_nothing_witness:
  "fst (kds_init_dshell_system (demo_denv\<lparr>d_class := Some ENOMEM\<rparr>)
      (demo_shell\<lparr>dev_region := False, dev_cdev := False, dev_class := False, dev_node := False, kds_dshell_inited := False\<rparr>)) = Inl (Errno ENOMEM)
   \<and> device_objects (snd (kds_init_dshell_system (demo_denv\<lparr>d_class := Some ENOMEM\<rparr>)
      (demo_shell\<lparr>dev_region := False, dev_cdev := False, dev_class := False, dev_node := False, kds_dshell_inited := False\<rparr>))) = [False, False, False, False, False]"
proof -
  let ?s = "demo_shell\<lparr>dev_region := False, dev_cdev := False, dev_class := False, dev_node := False, kds_dshell_inited := False\<rparr>"
  let ?de = "demo_denv\<lparr>d_class := Some ENOMEM\<rparr>"
  have p: "kds_dshell_proc ?s = None" by (simp add: shell_on_def sched_state.defs dshell_state.defs)
  have o: "device_objects ?s = [False, False, False, False, False]" by (simp add: device_objects_def)
  obtain r s1 where run: "kds_init_dshell_system ?de ?s = (r, s1)" by (cases "kds_init_dshell_system ?de ?s")
  have "r = Inl (Errno ENOMEM)" using run by (auto simp: kds_init_dshell_system_def undo_cdev_def undo_region_def demo_denv_def call_defs)
  then show ?thesis using start_all_or_nothing [OF o p run, of s1 ENOMEM] run by simp
qed

section \<open>Shutdown under a waiting client\<close>

definition pages_of :: "'z sched_state_scheme \<Rightarrow> (nat \<Rightarrow> kds_frame) \<times> (u64 \<Rightarrow> nat option)" where
  "pages_of s = (pframes s, pmap s)"

lemma pages_clients: "keeps pages_of (upd_client c f)" "keeps pages_of (the_client c)" "keeps pages_of (say c t)"
  by (auto simp: keeps_def say_def upd_client_def the_client_def call_defs pages_of_def split: option.splits)

lemma pages_unregister: "keeps pages_of (unregister_dshell_proc de)"
  unfolding unregister_dshell_proc_def kds_proc_unregister_def rq_del_def list_del_init_def
  by (intro keeps_rules keeps_smod; simp add: pages_of_def)

lemma pages_shutdown: "keeps pages_of (kds_shutdown_dshell_system de)"
proof -
  have "keeps pages_of (wake_clients cs :: ('a dshell_state_scheme, unit) call)" for cs
    by (induction cs) (auto intro!: keeps_rules pages_clients)
  then show ?thesis
    unfolding kds_shutdown_dshell_system_def by (intro keeps_rules keeps_smod pages_unregister; simp add: pages_of_def)
qed

text \<open>A client that is woken.\<close>

definition woken :: "kds_dshell_client \<Rightarrow> kds_dshell_client" where
  "woken cl = cl\<lparr>exec_status := KDS_DSHELL_EXEC_IDLE, resp_buf := snd (out_append 0 (''ERR dshell shutting down'' @ NL) (resp_buf cl)), cl_done := Suc (cl_done cl)\<rparr>"

lemma wake_one:
  assumes "clients s c = Some cl" and "exec_status cl = KDS_DSHELL_EXEC_PENDING"
  shows "wake_clients (c # cs) s = wake_clients cs (s\<lparr>clients := (clients s)(c \<mapsto> woken cl)\<rparr>)"
  using assms by (simp add: sbind_run [where m = "the_client c", OF the_client_run [OF assms(1)]])
    (simp add: say_def upd_client_def the_client_def sbind_def sget_def sret_def smod_def woken_def)

lemma wake_others: "c \<notin> set cs \<Longrightarrow> wake_clients cs s = (Inr x, s') \<Longrightarrow> clients s' c = clients s c"
proof (induction cs arbitrary: s)
  case (Cons d cs)
  obtain cl where cl: "clients s d = Some cl" using Cons.prems(2) by (cases "clients s d") (auto simp: sbind_def the_client_def sget_def sfail_def)
  show ?case
  proof (cases "exec_status cl = KDS_DSHELL_EXEC_PENDING")
    case True
    then show ?thesis using Cons wake_one [OF cl True, of cs] by fastforce
  next
    case False
    then have "wake_clients cs s = (Inr x, s')"
      using Cons.prems(2) by (simp add: sbind_def the_client_run [OF cl] sret_def)
    then show ?thesis using Cons by simp
  qed
qed (simp add: sret_def)

lemma clients_unregister: "keeps clients (kds_proc_unregister env a)"
  using keeps_register(2) unfolding keeps_def by (auto dest: more_dshell(1))

lemma shutdown_wakes:
  assumes "kds_shutdown_dshell_system de s = (Inr (), s')" and "kds_dshell_inited s" and "kds_dshell_clients s = c # cs" and "c \<notin> set cs"
    and "clients s c = Some cl" and "exec_status cl = KDS_DSHELL_EXEC_PENDING"
  shows "clients s' c = Some (woken cl)"
proof -
  let ?un = "if kds_dshell_proc s = None then sret () else unregister_dshell_proc de"
  from assms(1-3) obtain t u where t: "?un (s\<lparr>dev_node := False\<rparr>) = (Inr (), t)" and u: "wake_clients (c # cs) t = (Inr (), u)"
    and s': "s' = u\<lparr>dev_class := False, dev_cdev := False, dev_region := False, kds_dshell_inited := False\<rparr>"
    by (auto simp del: wake_clients.simps simp: kds_shutdown_dshell_system_def sbind_def sget_def smod_def split: prod.splits sum.splits)
  have k: "keeps clients ?un" unfolding unregister_dshell_proc_def
    by (intro keeps_rules keeps_smod clients_unregister; simp)
  have c: "clients t c = Some cl" using keepsD [OF k t] assms(5) by simp
  then have "wake_clients cs (t\<lparr>clients := (clients t)(c \<mapsto> woken cl)\<rparr>) = (Inr (), u)" using u wake_one [OF c assms(6)] by simp
  from wake_others [OF assms(4) this] show ?thesis by (simp add: s')
qed

text \<open>C32: A shutdown while a client waits for its insertion is answered with a success: the shutdown writes an error response and signals the completion, the woken command takes the executor, which has not run to its end and holds no error, for a finished one, and overwrites the response. No page has changed since the last slice.\<close>

theorem shutdown_reports_success:
  assumes "shell_wf s" and "kds_dshell_inited s" and "kds_dshell_clients s = c # cs" and "clients s c = Some cl" and "exec_buf cl = Heap_insert h"
    and "run_client_exec de (Heap_insert h) sl (s\<lparr>clients := (clients s)(c \<mapsto> cl\<lparr>cl_done := 0, exec_status := KDS_DSHELL_EXEC_PENDING\<rparr>)\<rparr>)
      = (Inr (Some (KDS_EXEC_CONTINUE, Heap_insert h')), s1)" and "ex_ret h' = None" and "kds_shutdown_dshell_system de s1 = (Inr (), s2)"
  shows "\<exists>s'. sobind (kds_dshell_run_exec_via_proc de (kds_shutdown_dshell_system de) sl (Suc nr) c) (\<lambda>_. answer_heap c name) s = (Inr (Some ()), s')
    \<and> response c s' = c_text (take 511 (''OK inserted into '' @ quoted name @ '' at page='' @ u64_text (tid_page_id (hi_out_tid h')) @ '' slot='' @
        show_nat (unat (tid_slot (hi_out_tid h'))) @ NL)) \<and> pframes s' = pframes s1 \<and> pmap s' = pmap s1"
proof -
  let ?cl = "cl\<lparr>cl_done := 0, exec_status := KDS_DSHELL_EXEC_PENDING\<rparr>" and ?gap = "kds_shutdown_dshell_system de"
  let ?t = "s\<lparr>clients := (clients s)(c \<mapsto> ?cl)\<rparr>"
  have m: "sched_state.more s1 = sched_state.more ?t" using keepsD [OF keeps_exec assms(6)] .
  note f = more_dshell [OF m]
  have ok: "client_ok ?cl" using assms(1,4) by (auto simp: shell_wf_def client_ok_def)
  then have "shell_wf ?t" using assms(1,4) by (intro wf_put [OF refl]) simp_all
  then have wf2: "shell_wf s2" using maintainsD [OF wf_shutdown _ assms(8)] wf_more [OF m] by blast
  have d: "c \<notin> set cs" using assms(1,3) by (simp add: shell_wf_def)
  have c2: "clients s2 c = Some (woken ?cl)"
    by (rule shutdown_wakes [OF assms(8) _ _ d]) (use f assms(2,3) in simp_all)
  let ?cl3 = "(woken ?cl)\<lparr>exec_buf := Heap_insert h'\<rparr>"
  let ?s3 = "s2\<lparr>clients := (clients s2)(c \<mapsto> ?cl3)\<rparr>"
  let ?cl4 = "?cl3\<lparr>cl_done := cl_done ?cl3 - 1\<rparr>"
  let ?s4 = "?s3\<lparr>clients := (clients ?s3)(c \<mapsto> ?cl4)\<rparr>"
  have tc: "clients ?t c = Some ?cl" and c3: "clients ?s3 c = Some ?cl3" and n3: "cl_done ?cl3 \<noteq> 0" by (simp_all add: woken_def)
  have round: "kds_dshell_proc_run de ?gap sl ?t = (Inr (Some KDS_PROC_YIELD_RET), ?s3)"
    using assms(3,5,6) by (simp add: kds_dshell_proc_run_def sget_bind sbind_run [where m = "the_client c", OF the_client_run [OF tc]] sobind_def
        sbind_run [where m = "run_client_exec de _ sl", OF assms(6)] sbind_run [where m = ?gap, OF assms(8)] sbind_run [where m = "upd_client c _", OF upd_client_run [OF c2]])
      (simp add: sret_def)
  have wait: "wait_for_completion de ?gap sl (Suc nr) c ?t = (Inr (Some True), ?s4)"
    unfolding wait_for_completion.simps sbind_run [where m = "the_client c", OF the_client_run [OF tc]] sobind_def
    using wait_done [OF c3 n3, of de ?gap sl nr] by (simp add: sbind_run [where m = "kds_dshell_proc_run de ?gap sl", OF round])
  have a: "clients (s\<lparr>clients := (clients s)(c \<mapsto> cl\<lparr>cl_done := 0\<rparr>)\<rparr>) c = Some (cl\<lparr>cl_done := 0\<rparr>)" by simp
  have via: "kds_dshell_run_exec_via_proc de ?gap sl (Suc nr) c s = (Inr (Some ()), ?s4)"
    unfolding kds_dshell_run_exec_via_proc_def sbind_run [where m = "upd_client c _", OF upd_client_run [OF assms(4)]]
      sbind_run [where m = "upd_client c _", OF upd_client_run [OF a]]
    using wait by (simp add: sobind_def sbind_def sret_def)
  have "client_ok (woken ?cl)" using wf2 c2 by (auto simp: shell_wf_def)
  then have "shell_wf ?s4" using wf2 c2 by (auto simp: shell_wf_def client_ok_def)
  moreover have "clients ?s4 c = Some ?cl4" "exec_buf ?cl4 = Heap_insert h'" by simp_all
  ultimately obtain b where b: "answer_heap c name ?s4 = (Inr (Some ()), responds c ?cl4 b ?s4)" "c_text b = c_text (take 511 (heap_answer name h'))"
    using answer_heap_run [of ?s4 c ?cl4 h' name] assms(7) by auto
  have "pages_of s2 = pages_of s1" using keepsD [OF pages_shutdown assms(8)] .
  then show ?thesis
    using b assms(7) via by (intro exI [of _ "responds c ?cl4 b ?s4"]) (simp add: sobind_def sbind_run response_def heap_answer_def pages_of_def)
qed

lemma demo_table_sched: "kds_runqueues (demo_table None) = (\<lambda>_. empty_runqueue)" "procs (demo_table None) = (\<lambda>a. demo_proc KDS_PROC_SYSTEM a)"
  "kds_next_pid (demo_table None) = 0"
proof -
  have "keeps outside (kds_page_alloc KDS_PAGE_TYPE_HEAP :: (sched_state, nat option) call)" by (intro keeps_rules)
  then have "outside (snd (kds_page_alloc KDS_PAGE_TYPE_HEAP demo_base)) = outside demo_base" by (simp add: keeps_def)
  then show "kds_runqueues (demo_table None) = (\<lambda>_. empty_runqueue)" "procs (demo_table None) = (\<lambda>a. demo_proc KDS_PROC_SYSTEM a)" "kds_next_pid (demo_table None) = 0"
    by (simp_all add: demo_table_def Let_def put_frame_def upd_frame_def demo_base_def cat_state.defs outside_def)
qed

lemma demo_table_pool: "g_pool (demo_table None)"
proof -
  have "keeps g_pool (kds_page_alloc KDS_PAGE_TYPE_HEAP :: (sched_state, nat option) call)"
    by (auto simp: keeps_def kds_page_alloc_def ring_pop_def set_page_type_def call_defs upd_frame_def split: option.splits)
  then show ?thesis by (simp add: keeps_def demo_table_def Let_def put_frame_def upd_frame_def demo_base_simps demo_wal0_simps)
qed

text \<open>An executor that is about to look for a page, and a slice that is over at once.\<close>

definition resumed :: kds_heap_insert_exec where
  "resumed = (demo_exec (replicate 20 7))\<lparr>hi_phase := KDS_HEAP_INSERT_PHASE_FIND_TAIL\<rparr>"

lemma resumed_yields: "run_client_exec demo_denv (Heap_insert resumed) 0 s
    = (Inr (Some (KDS_EXEC_CONTINUE, Heap_insert (resumed\<lparr>deadline_ns := ktime demo_clock (clock s)\<rparr>))), s\<lparr>clock := Suc (Suc (clock s))\<rparr>)"
  using demo_clock_ticks(2) [of "clock s"]
  by (simp add: run_client_exec_def sobind_def demo_denv_def resumed_def demo_exec_def demo_rel_def exec_run_eq kds_heap_insert_exec_run_def hi_phase_find_tail_def
      kds_exec_slice_expired_def ktime_get_ns_def call_defs)

definition waiting_shell :: dshell_state where
  "waiting_shell = demo_shell\<lparr>kds_dshell_proc := Some 3, clients := [0 \<mapsto> new_client\<lparr>exec_buf := Heap_insert resumed\<rparr>]\<rparr>"

lemma waiting_shell_fields: "kds_dshell_clients waiting_shell = [0]" "clients waiting_shell = [0 \<mapsto> new_client\<lparr>exec_buf := Heap_insert resumed\<rparr>]"
  "kds_dshell_inited waiting_shell" "kds_dshell_proc waiting_shell = Some 3" "procs waiting_shell = (\<lambda>a. demo_proc KDS_PROC_SYSTEM a)" "shell_wf waiting_shell"
  by (auto simp: waiting_shell_def shell_on_def sched_state.defs dshell_state.defs demo_table_sched(2) shell_wf_def client_ok_def new_client_def DSHELL_RESP_MAX_def)

theorem shutdown_reports_success_witness:
  "\<exists>s' m. sobind (kds_dshell_run_exec_via_proc demo_denv (kds_shutdown_dshell_system demo_denv) 0 1 0) (\<lambda>_. answer_heap 0 ''t'') waiting_shell = (Inr (Some ()), s')
    \<and> response 0 s' = c_text (take 511 (''OK inserted into '' @ quoted ''t'' @ '' at page='' @ m)) \<and> pframes s' = pframes waiting_shell"
proof -
  let ?cl = "new_client\<lparr>exec_buf := Heap_insert resumed\<rparr>"
  let ?t = "waiting_shell\<lparr>clients := (clients waiting_shell)(0 \<mapsto> ?cl\<lparr>cl_done := 0, exec_status := KDS_DSHELL_EXEC_PENDING\<rparr>)\<rparr>"
  have c: "clients waiting_shell 0 = Some ?cl" by (simp add: waiting_shell_fields)
  obtain s2 where s2: "kds_shutdown_dshell_system demo_denv (?t\<lparr>clock := Suc (Suc (clock ?t))\<rparr>) = (Inr (), s2)"
    by (simp add: kds_shutdown_dshell_system_def unregister_dshell_proc_def kds_proc_unregister_def rq_del_def list_del_init_def say_def upd_client_def the_client_def
        waiting_shell_fields demo_proc_def new_client_def call_defs)
  have "ex_ret (resumed\<lparr>deadline_ns := ktime demo_clock (clock ?t)\<rparr>) = None" by (simp add: resumed_def demo_exec_def)
  from shutdown_reports_success [OF waiting_shell_fields(6,3,1) c _ resumed_yields this s2, of 0 "''t''"] show ?thesis
    by (auto simp: numeral_eq_Suc)
qed

text \<open>The client waits for one round, in which the executor yields.\<close>

theorem timeout_cancels_witness:
  "\<exists>s1 s' cl. wait_for_completion demo_denv (sret ()) 0 1 0
        (waiting_shell\<lparr>clients := [0 \<mapsto> new_client\<lparr>exec_buf := Heap_insert resumed, exec_status := KDS_DSHELL_EXEC_PENDING\<rparr>]\<rparr>) = (Inr (Some False), s1)
    \<and> clock s1 = clock waiting_shell + 2
    \<and> kds_dshell_run_exec_via_proc demo_denv (sret ()) 0 1 0 waiting_shell = (Inl (Errno ETIMEDOUT), s') \<and> clients s' 0 = Some cl
    \<and> exec_status cl = KDS_DSHELL_EXEC_IDLE \<and> c_text (resp_buf cl) = ''ERR exec timed out after 5000ms'' @ NL"
proof -
  let ?cl = "new_client\<lparr>exec_buf := Heap_insert resumed\<rparr>"
  let ?u = "waiting_shell\<lparr>clients := [0 \<mapsto> new_client\<lparr>exec_buf := Heap_insert resumed, exec_status := KDS_DSHELL_EXEC_PENDING\<rparr>]\<rparr>"
  have c: "clients waiting_shell 0 = Some ?cl" by (simp add: waiting_shell_fields)
  have u: "waiting_shell\<lparr>clients := (clients waiting_shell)(0 \<mapsto> ?cl\<lparr>cl_done := 0, exec_status := KDS_DSHELL_EXEC_PENDING\<rparr>)\<rparr> = ?u"
    by (simp add: waiting_shell_fields new_client_def)
  obtain s1 where s1: "wait_for_completion demo_denv (sret ()) 0 1 0 ?u = (Inr (Some False), s1)" "clock s1 = clock waiting_shell + 2"
    by (simp add: kds_dshell_proc_run_def resumed_yields sobind_def upd_client_def the_client_def waiting_shell_fields new_client_def call_defs)
  from timeout_cancels [OF waiting_shell_fields(6) maintains_basic(1) c s1(1) [folded u]] s1 show ?thesis by blast
qed

end
