(* ===== verification/Kds_Select.thy ===== *)
theory Kds_Select
  imports Kds_Dshell_Spec
begin

text \<open>
  What \<^verbatim>\<open>SELECT\<close> answers (\<^verbatim>\<open>kds_cmd_scan_table\<close> of \<^verbatim>\<open>dshell.c\<close>), against a specification of the printed table: one line per
  live row in the order of the pages and slots, with the values that were inserted, and a line with the counts.
  It joins the heap pages, the chain of a table, the row codec, the buffer pool and the response of a client.
\<close>

section \<open>The printed table\<close>

definition row_line :: "kds_schema \<Rightarrow> (u8 list \<Rightarrow> string list) \<Rightarrow> u64 \<Rightarrow> heap_view \<Rightarrow> nat \<Rightarrow> string" where
  "row_line schema txt p v i = (case v_slots v ! i of None \<Rightarrow> []
     | Some (h, d, c) \<Rightarrow> tuple_text p i h @ row_text True (schema_cols schema) (txt d))"

definition page_lines :: "kds_schema \<Rightarrow> (u8 list \<Rightarrow> string list) \<Rightarrow> u64 \<Rightarrow> heap_view \<Rightarrow> string" where
  "page_lines schema txt p v = concat (map (row_line schema txt p v) [0 ..< length (v_slots v)])"

definition table_lines :: "kds_schema \<Rightarrow> (u8 list \<Rightarrow> string list) \<Rightarrow> 'z cat_state_scheme \<Rightarrow> u64 list \<Rightarrow> string" where
  "table_lines schema txt s ps = concat (map (\<lambda>p. page_lines schema txt p (frame_view (cat_frame s p))) ps)"

text \<open>The two counters are 32 bits wide.\<close>

definition count_line :: "nat \<Rightarrow> nat \<Rightarrow> string" where
  "count_line rows pages = NL @ show_nat (rows mod 2 ^ 32) @ '' row(s) across '' @ show_nat (pages mod 2 ^ 32) @ '' page(s)'' @ NL"

definition table_answer :: "kds_schema \<Rightarrow> (u8 list \<Rightarrow> string list) \<Rightarrow> 'z cat_state_scheme \<Rightarrow> u64 list \<Rightarrow> string" where
  "table_answer schema txt s ps = ''OK '' @ table_lines schema txt s ps @ count_line (length (table_rows s ps)) (length ps)"

text \<open>A row that \<^verbatim>\<open>INSERT\<close> has encoded from these values, and the texts that show them.\<close>

definition encodes :: "(string \<Rightarrow> int res) \<Rightarrow> kds_schema \<Rightarrow> kds_ast_val list \<Rightarrow> u8 list \<Rightarrow> bool" where
  "encodes k schema vals d \<longleftrightarrow> (\<exists>n. kds_dshell_encode_row_from_vals k schema vals KDS_DSHELL_ROW_MAX = Inr (d, n))
     \<and> (\<forall>(c, v) \<in> set (zip (schema_cols schema) vals). plain_val k c v)"

definition shows_row :: "(string \<Rightarrow> int res) \<Rightarrow> kds_schema \<Rightarrow> kds_ast_val list \<Rightarrow> u8 list \<Rightarrow> string list \<Rightarrow> bool" where
  "shows_row k schema vals d ts \<longleftrightarrow> length ts = length (schema_cols schema)
     \<and> (\<forall>i < length ts. shown k (schema_cols schema ! i) (vals ! i) (ts ! i))
     \<and> (\<exists>n. kds_dshell_encode_row_from_vals k schema (map KDS_VAL_STR ts) KDS_DSHELL_ROW_MAX = Inr (d, n))"

text \<open>The decoder prints these texts for the row, whatever follows it in the buffer, when there is room.\<close>

definition decodes_to :: "(string \<Rightarrow> int res) \<Rightarrow> kds_schema \<Rightarrow> u8 list \<Rightarrow> string list \<Rightarrow> bool" where
  "decodes_to k schema d ts \<longleftrightarrow> (\<forall>osz rest. length (row_text True (schema_cols schema) ts) < osz \<longrightarrow>
     kds_dshell_decode_row k schema (d @ rest) (of_nat (length d)) osz
       = (Inr (length (row_text True (schema_cols schema) ts)), row_text True (schema_cols schema) ts))"

lemma encodes_shown:
  assumes "reads_ints k" and "encodes k schema vals d"
  obtains ts where "shows_row k schema vals d ts" "decodes_to k schema d ts"
proof -
  have enc: "encode_cols k (schema_cols schema) vals 256 [] = Inr d"
    and plain: "\<forall>(c, v) \<in> set (zip (schema_cols schema) vals). plain_val k c v"
    using assms(2) by (auto simp: encodes_def kds_dshell_encode_row_from_vals_def rbind_ok_iff KDS_DSHELL_ROW_MAX_def)
  from row_codec [OF assms(1) enc _ _ plain] obtain ts where ts: "length ts = length (schema_cols schema)"
      "\<forall>i < length (schema_cols schema). shown k (schema_cols schema ! i) (vals ! i) (ts ! i)" "length d \<le> 256"
      "encode_cols k (schema_cols schema) (map KDS_VAL_STR ts) 256 [] = Inr d"
      "\<And>osz rest. length (row_text True (schema_cols schema) ts) < osz \<Longrightarrow>
        decode_cols k True (schema_cols schema) (d @ rest) (length d) 0 osz [] = (Inr (), row_text True (schema_cols schema) ts)"
    by force
  have "unat (of_nat (length d) :: u16) = length d" using ts(3) by (simp add: unat_of_nat take_bit_nat_eq_self)
  with ts show thesis
    by (intro that [of ts])
      (simp_all add: shows_row_def decodes_to_def kds_dshell_encode_row_from_vals_def kds_dshell_decode_row_def KDS_DSHELL_ROW_MAX_def)
qed

section \<open>Text in the response buffer\<close>

definition holds :: "string \<Rightarrow> string \<Rightarrow> bool" where
  "holds t buf \<longleftrightarrow> length buf = 512 \<and> length t < 512 \<and> take (Suc (length t)) buf = t @ [CHR 0x00]"

lemma holds_put:
  assumes "holds t buf" and "length t + length u < 512"
  shows "holds (t @ u) (put_text (length t) u buf)"
proof -
  have "take (length t) buf = t" using arg_cong [of _ _ "take (length t)"] assms(1) by (auto simp: holds_def) (metis append_eq_conv_conj butlast_snoc butlast_take diff_Suc_1 length_append_singleton less_or_eq_imp_le Suc_leI)
  then show ?thesis using assms by (auto simp: holds_def put_text_def)
qed

lemma holds_append:
  assumes "holds t buf" and "length t + length u < 512"
  shows "out_append (length t) u buf = (length (t @ u), put_text (length t) u buf)"
  using assms by (simp add: out_append_def holds_def scnprintf_def)

lemma holds_first: "length buf = 512 \<Longrightarrow> length t < 512 \<Longrightarrow> holds t (snd (out_append 0 t buf)) \<and> fst (out_append 0 t buf) = length t"
  by (simp add: out_append_def holds_def scnprintf_def put_text_def)

lemma holds_text: "holds t buf \<Longrightarrow> c_text buf = c_text t"
proof -
  assume "holds t buf"
  then obtain r where "buf = t @ CHR 0x00 # r" by (metis append.assoc append_Cons append_Nil append_take_drop_id holds_def)
  then show ?thesis by (simp add: c_text_def takeWhile_tail)
qed

section \<open>The scan\<close>

definition live :: "heap_view \<Rightarrow> nat \<Rightarrow> bool" where "live v i \<longleftrightarrow> v_slots v ! i \<noteq> None"

lemma live_rows: "length (filter (live v) [0 ..< length (v_slots v)]) = length (slot_rows v)"
proof -
  have "length (filter (live v) [0 ..< length (v_slots v)]) = length (filter (\<lambda>x. x \<noteq> None) (v_slots v))"
    unfolding length_filter_conv_card live_def by (intro arg_cong [where f = card]) auto
  also have "\<dots> = length (slot_rows v)" by (induction "v_slots v") (auto simp: slot_rows_def List.map_filter_def comp_def)
  finally show ?thesis .
qed

lemma scan_slots_prints:
  assumes "scannable f" and "\<forall>d \<in> set (slot_rows (frame_view f)). decodes_to k schema d (txt d)"
  shows "\<forall>i \<in> set xs. i < length (v_slots (frame_view f)) \<Longrightarrow> holds t buf \<Longrightarrow> length t + length (concat (map (row_line schema txt p (frame_view f)) xs)) < 512 \<Longrightarrow>
    \<exists>buf'. scan_slots k schema p f xs (length t) buf tot
      = Inr (length (t @ concat (map (row_line schema txt p (frame_view f)) xs)), buf', tot + of_nat (length (filter (live (frame_view f)) xs)), False)
    \<and> holds (t @ concat (map (row_line schema txt p (frame_view f)) xs)) buf'"
proof (induction xs arbitrary: t buf tot)
  case Nil
  then show ?case by simp
next
  case (Cons i xs)
  have i: "i < length (v_slots (frame_view f))" using Cons.prems by simp
  have b: "(of_nat KDS_DSHELL_ROW_MAX :: u16) = 256" by (simp add: KDS_DSHELL_ROW_MAX_def)
  note R = scannable_read [OF assms(1) i]
  show ?case
  proof (cases "v_slots (frame_view f) ! i")
    case None
    then show ?thesis using R b Cons by (simp add: row_line_def live_def)
  next
    case (Some u)
    obtain h d c where u: "u = (h, d, c)" by (cases u)
    obtain rest where r: "heap_read_tuple f (of_nat i) True 256 = Inr (h, d @ rest)" using R Some u by auto
    have l: "data_len h = of_nat (length d)" using tuple_len [OF _ i] assms(1) Some u by (auto simp: scannable_def word_unat_eq_iff)
    let ?a = "tuple_text p i h" and ?r = "row_text True (schema_cols schema) (txt d)"
    have line: "row_line schema txt p (frame_view f) i = ?a @ ?r" using Some u by (simp add: row_line_def)
    have room: "length t + length ?a + length ?r < 512" "28 \<le> length ?a" using Cons.prems(3) line tuple_text_long by simp_all
    let ?b1 = "put_text (length t) ?a buf" and ?b2 = "put_text (length (t @ ?a)) ?r (put_text (length t) ?a buf)"
    have h1: "holds (t @ ?a) ?b1" using Cons.prems(2) room by (intro holds_put) simp_all
    have h2: "holds ((t @ ?a) @ ?r) ?b2" using room by (intro holds_put [OF h1]) simp
    have o1: "out_append (length t) ?a buf = (length (t @ ?a), ?b1)" using Cons.prems(2) room by (intro holds_append) simp_all
    have "decodes_to k schema d (txt d)" using assms(2) slot_rows_mem [OF i] Some u by blast
    then have dec: "kds_dshell_decode_row k schema (d @ rest) (data_len h) (length ?b1 - length (t @ ?a)) = (Inr (length ?r), ?r)"
      using room h1 by (auto simp: decodes_to_def l holds_def)
    have "scan_slots k schema p f (i # xs) (length t) buf tot = scan_slots k schema p f xs (length ((t @ ?a) @ ?r)) ?b2 (tot + 1)"
      using Cons.prems(2) room r o1 dec by (simp add: b holds_def Let_def add.assoc)
    moreover have "live (frame_view f) i" using Some by (simp add: live_def)
    ultimately show ?thesis
      using Cons.IH [OF _ h2, of "tot + 1"] Cons.prems(1,3) line by (simp add: add.assoc)
  qed
qed

lemma page_prints:
  assumes "scannable f" and "\<forall>d \<in> set (slot_rows (frame_view f)). decodes_to k schema d (txt d)"
    and "holds t buf" and "length t + length (page_lines schema txt p (frame_view f)) < 512"
  obtains buf' where "rbind (page_slots f) (\<lambda>slots. scan_slots k schema p f slots (length t) buf tot)
      = Inr (length (t @ page_lines schema txt p (frame_view f)), buf', tot + of_nat (length (slot_rows (frame_view f))), False)"
    "holds (t @ page_lines schema txt p (frame_view f)) buf'"
proof -
  have "page_slots f = Inr [0 ..< length (v_slots (frame_view f))]" using assms(1) by (intro page_slots_eq) (simp add: scannable_def)
  then show thesis
    using scan_slots_prints [OF assms(1,2) _ assms(3), of "[0 ..< length (v_slots (frame_view f))]" p tot] assms(4) that
    by (auto simp: page_lines_def live_rows)
qed

text \<open>The walk along the chain from the page \<open>hd qs\<close> on leaves the state as it was: every page is unpinned again.\<close>

lemma scan_chain_prints:
  assumes "pool_wf s" and "\<forall>d \<in> set (table_rows s (as @ qs)). decodes_to (d_kstrtoll de) schema d (txt d)"
  shows "heap_chain s (as @ qs) \<Longrightarrow> \<forall>p \<in> set (as @ qs). scannable (cat_frame s p) \<Longrightarrow> length qs < m \<Longrightarrow> holds t buf \<Longrightarrow>
    length t + length (table_lines schema txt s qs) < 512 \<Longrightarrow>
    \<exists>buf'. scan_chain de c schema m (cursor_at qs) (length t) buf tot pi s
      = (Inr (Some (length (t @ table_lines schema txt s qs), buf', tot + of_nat (length (table_rows s qs)), pi + of_nat (length qs), False)), s)
    \<and> holds (t @ table_lines schema txt s qs) buf'"
  using assms(2)
proof (induction qs arbitrary: as m t buf tot pi)
  case Nil
  then show ?case by (cases m) (simp_all add: table_lines_def table_rows_def sret_def)
next
  case (Cons p qs)
  then obtain m' where m: "m = Suc m'" "length qs < m'" by (cases m) auto
  obtain i where i: "pmap s p = Some i" "heap_ok (pframes s i)" "cat_frame s p = pframes s i" "p \<noteq> 0" using chain_page [OF Cons.prems(1), of p] by auto
  obtain kp where kp: "fr_kp (pframes s i) = Some kp" using pool_wf_map(4) [OF assms(1) i(1)] by (auto simp: frame_loaded_def)
  let ?f = "(pframes s i)\<lparr>fr_kp := Some (pin_kpage kp)\<rparr>" and ?v = "frame_view (cat_frame s p)"
  have v: "frame_view ?f = ?v" "scannable ?f" "heap_get_next_page_id ?f = Inr (cursor_at qs)"
    using Cons.prems(1,2) i kp heap_next [OF i(2)] chain_next [of s as p qs] by (simp_all add: scannable_kp heap_chain_def next_page_def)
  have rows: "set (slot_rows ?v) \<subseteq> set (table_rows s (as @ p # qs))" by (auto simp: table_rows_def)
  have len: "length t + length (page_lines schema txt p ?v) + length (table_lines schema txt s qs) < 512" using Cons.prems(5) by (simp add: table_lines_def)
  obtain buf1 where b1: "rbind (page_slots ?f) (\<lambda>slots. scan_slots (d_kstrtoll de) schema p ?f slots (length t) buf tot)
      = Inr (length (t @ page_lines schema txt p ?v), buf1, tot + of_nat (length (slot_rows ?v)), False)" "holds (t @ page_lines schema txt p ?v) buf1"
  proof (rule page_prints [OF v(2), unfolded v(1)])
    show "\<forall>d \<in> set (slot_rows ?v). decodes_to (d_kstrtoll de) schema d (txt d)" using Cons.prems(6) rows by blast
    show "length t + length (page_lines schema txt p ?v) < 512" using len by simp
  qed (use Cons.prems(4) in simp_all)
  have u: "kds_buf_unpin i (put_frame i ?f s) = (Inr (), s)" using kp by (rule unpin_pinned)
  have "scan_chain de c schema m p (length t) buf tot pi s
      = scan_chain de c schema m' (cursor_at qs) (length (t @ page_lines schema txt p ?v)) buf1 (tot + of_nat (length (slot_rows ?v))) (pi + 1) s"
    unfolding m(1) scan_chain.simps using i(4) load_root [OF assms(1) i(1) kp, of "d_kenv de"] b1(1) v(3) u
    by (simp add: sattempt_run pinned_put sbind_run sget_def slift_def sret_def Let_def)
  moreover from Cons.IH [of "as @ [p]" m' "t @ page_lines schema txt p ?v" buf1 "tot + of_nat (length (slot_rows ?v))" "pi + 1"]
  obtain buf' where "scan_chain de c schema m' (cursor_at qs) (length (t @ page_lines schema txt p ?v)) buf1 (tot + of_nat (length (slot_rows ?v))) (pi + 1) s
      = (Inr (Some (length ((t @ page_lines schema txt p ?v) @ table_lines schema txt s qs), buf', tot + of_nat (length (slot_rows ?v)) + of_nat (length (table_rows s qs)), pi + 1 + of_nat (length qs), False)), s)"
    "holds ((t @ page_lines schema txt p ?v) @ table_lines schema txt s qs) buf'"
    using Cons.prems(1,2,6) m(2) b1(2) len by auto
  ultimately show ?case by (simp add: table_lines_def table_rows_def add.assoc)
qed

lemma counter32: "unat (of_nat n :: u32) = n mod 2 ^ 32"
  by (simp add: unat_of_nat take_bit_eq_mod)

lemma scan_relation_prints:
  assumes "shell_wf s" and "clients s c = Some cl" and "pool_wf s" and "heap_chain s ps" and "\<forall>p \<in> set ps. scannable (cat_frame s p)"
    and "rel_kind rel = Kds_Catalog.KDS_CLUSTERED_HEAP" and "rel_root_page_id rel = hd ps" and "length ps < d_pages de"
    and "\<forall>d \<in> set (table_rows s ps). decodes_to (d_kstrtoll de) (rel_schema rel) d (txt d)"
    and "length (table_answer (rel_schema rel) txt s ps) < 512"
  shows "\<exists>b. scan_relation de c name rel s = (Inr (Some ()), responds c cl b s) \<and> c_text b = c_text (table_answer (rel_schema rel) txt s ps)"
proof -
  let ?ok = "''OK ''" and ?foot = "count_line (length (table_rows s ps)) (length ps)" and ?lines = "table_lines (rel_schema rel) txt s ps"
  have "length (resp_buf cl) = 512" using assms(1,2) by (auto simp: shell_wf_def client_ok_def DSHELL_RESP_MAX_def)
  then obtain b0 where o: "out_append 0 ?ok (resp_buf cl) = (3, b0)" "holds ?ok b0"
    using holds_first [of "resp_buf cl" ?ok] by (cases "out_append 0 ?ok (resp_buf cl)") simp
  have len: "3 + length ?lines + length ?foot < 512" using assms(10) by (simp add: table_answer_def)
  obtain b1 where b1: "scan_chain de c (rel_schema rel) (d_pages de) (hd ps) 3 b0 0 0 s
      = (Inr (Some (length (?ok @ ?lines), b1, of_nat (length (table_rows s ps)), of_nat (length ps), False)), s)" "holds (?ok @ ?lines) b1"
  proof -
    have "cursor_at ps = hd ps" using assms(4) by (cases ps) (simp_all add: heap_chain_def)
    moreover have l: "length ?ok = 3" by simp
    ultimately show thesis
      using scan_chain_prints [OF assms(3), of "[]" ps de "rel_schema rel" "txt" "d_pages de" ?ok b0 c 0 0, unfolded l append_Nil add_0]
        assms(4,5,8,9) o(2) len that by (metis add_lessD1)
  qed
  let ?b = "put_text (length (?ok @ ?lines)) ?foot b1"
  have f: "out_append (length (?ok @ ?lines)) ?foot b1 = (length ((?ok @ ?lines) @ ?foot), ?b)" "holds ((?ok @ ?lines) @ ?foot) ?b"
    by (rule holds_append [OF b1(2)] holds_put [OF b1(2)]; use len in simp)+
  have foot: "NL @ show_nat (unat (of_nat (length (table_rows s ps)) :: u32)) @ '' row(s) across '' @ show_nat (unat (of_nat (length ps) :: u32)) @ '' page(s)'' @ NL = ?foot"
    unfolding count_line_def counter32 ..
  have heap: "(rel_kind rel \<noteq> Kds_Catalog.KDS_CLUSTERED_HEAP) = False" using assms(6) by simp
  have sret_run: "sret () s = (Inr (), s)" by (simp add: sret_def)
  obtain F L where FL: "F = ?foot" "L = length (?ok @ ?lines)" by blast
  have "scan_relation de c name rel s = sbind (upd_client c (\<lambda>cl. cl\<lparr>resp_buf := snd (out_append L F b1)\<rparr>)) (\<lambda>_. sret (Some ())) s"
    unfolding scan_relation_def heap if_False sbind_run [where m = "the_client c", OF the_client_run [OF assms(2)]] sobind_def o(1) Let_def prod.case assms(7)
      sbind_run [where m = "scan_chain de c _ _ _ _ _ _ _", OF b1(1) [folded FL(2)]] option.case foot FL(1) [symmetric] kds_relation_close_def
      sbind_run [where m = "sret ()", OF sret_run] ..
  then have "scan_relation de c name rel s = (Inr (Some ()), responds c cl ?b s)"
    using f(1) by (simp only: sbind_run [where m = "upd_client c _", OF upd_client_run [OF assms(2)]] FL) (simp add: sret_def)
  moreover have "c_text ?b = c_text (table_answer (rel_schema rel) txt s ps)" using holds_text [OF f(2)] by (simp add: table_answer_def)
  ultimately show ?thesis by blast
qed

section \<open>Short rows\<close>

lemma young_slots:
  assumes ok: "heap_ok f" and y: "young f" and short: "\<forall>r \<in> set (slot_rows (frame_view f)). length r \<le> 256"
    and xs: "\<forall>i \<in> set xs. i < length (v_slots (frame_view f))" and live: "\<exists>i \<in> set xs. v_slots (frame_view f) ! i \<noteq> None"
  shows "scan_slots k schema p f xs n buf tot = Inl Fault"
  using xs live
proof (induction xs)
  case (Cons i xs)
  have i: "i < length (v_slots (frame_view f))" using Cons.prems(1) by simp
  have u: "unat (of_nat i :: u16) = i" using slots_small [OF ok] i by (intro unat_of_nat16) simp
  have b: "(of_nat KDS_DSHELL_ROW_MAX :: u16) = 256" by (simp add: KDS_DSHELL_ROW_MAX_def)
  show ?case
  proof (cases "v_slots (frame_view f) ! i")
    case None
    then have "heap_read_tuple f (of_nat i) True 256 = fails ENOENT"
      using heap_read_refines [OF ok, of "of_nat i" 256, unfolded u] i by (simp add: spec_read_def spec_slot_def)
    then show ?thesis using Cons None b by simp
  next
    case (Some t)
    obtain h d c where t: "t = (h, d, c)" by (cases t)
    then have "heap_read_tuple f (of_nat i) True 256 = Inl Fault" using young_read [OF ok y i] Some short slot_rows_mem [OF i, of h d c] by simp
    then show ?thesis using b by simp
  qed
qed simp

text \<open>\<^verbatim>\<open>SELECT\<close> on a table whose first page has a row and little data leaves the page: it copies 256 bytes from the start of the row.\<close>

theorem short_row_faults_select:
  assumes "clients s c = Some cl" and "pool_wf s" and "heap_chain s (p # ps)" and "slot_rows (frame_view (cat_frame s p)) \<noteq> []"
    and "\<forall>r \<in> set (slot_rows (frame_view (cat_frame s p))). length r \<le> 256" and "young (cat_frame s p)"
    and "rel_kind rel = Kds_Catalog.KDS_CLUSTERED_HEAP" and "rel_root_page_id rel = p" and "0 < d_pages de"
  shows "fst (scan_relation de c name rel s) = Inl Fault"
proof -
  obtain m where m: "d_pages de = Suc m" using assms(9) gr0_implies_Suc by blast
  obtain i where i: "pmap s p = Some i" "heap_ok (pframes s i)" "cat_frame s p = pframes s i" "p \<noteq> 0" using chain_page [OF assms(3), of p] by auto
  obtain kp where kp: "fr_kp (pframes s i) = Some kp" using pool_wf_map(4) [OF assms(2) i(1)] by (auto simp: frame_loaded_def)
  let ?f = "(pframes s i)\<lparr>fr_kp := Some (pin_kpage kp)\<rparr>"
  have v: "heap_ok ?f" "frame_view ?f = frame_view (cat_frame s p)" "young ?f" using i kp assms(6) by (simp_all add: young_def page_room_def)
  have "scan_slots (d_kstrtoll de) sch p ?f [0 ..< length (v_slots (frame_view ?f))] n buf tot = Inl Fault" for sch n buf tot
    by (rule young_slots [OF v(1,3)]) (use assms(4,5) v(2) live_slot in auto)
  then have chain: "fst (scan_chain de c sch (Suc m) p n buf tot pi s) = Inl Fault" for sch n buf tot pi
    using load_root [OF assms(2) i(1) kp, of "d_kenv de"] i(4) page_slots_eq [OF v(1)]
    by (simp add: sattempt_run pinned_put sbind_run sget_def slift_def sbind_def)
  have "fst (sobind (scan_chain de c sch (Suc m) p n buf tot pi) g s) = Inl Fault" for sch n buf tot pi and g :: "_ \<Rightarrow> (_, unit option) call"
  proof -
    obtain u where "scan_chain de c sch (Suc m) p n buf tot pi s = (Inl Fault, u)"
      using chain [of sch n buf tot pi] by (cases "scan_chain de c sch (Suc m) p n buf tot pi s") (simp del: scan_chain.simps)
    then show ?thesis by (simp add: sobind_def sbind_def del: scan_chain.simps)
  qed
  then show ?thesis using assms(7,8) m by (simp add: scan_relation_def sbind_run [where m = "the_client c", OF the_client_run [OF assms(1)]] Let_def split: prod.split del: scan_chain.simps)
qed

text \<open>C29: \<^verbatim>\<open>SELECT\<close> on a heap table whose pages are all in memory and scannable, and whose rows \<^verbatim>\<open>INSERT\<close> has encoded, prints the table when the answer fits the response buffer: after \<^verbatim>\<open>OK\<close> one line per live row in the order of the pages and slots, with its address, its transactions and every column, an integer in decimal, a string as it was given, other values as a text that encodes to the same bytes; and a line with the numbers of rows and pages. Nothing but the response of the client changes: every page is unpinned again. Scannable means that every live row has at most 256 bytes and that at least 256 bytes of its page follow its start, as the 256 byte row of the example has: the command reads 256 bytes from there, and a table with an ordinary short row near the end of its page is excluded, it makes the command leave the page (\<open>short_row_faults_select\<close>). The most negative decimal is excluded, its printed text does not parse. \<^verbatim>\<open>kstrtoll\<close> is assumed to read a printed 64-bit integer back.\<close>

theorem select_prints_table:
  assumes "shell_wf s" and "clients s c = Some cl" and "pool_wf s" and "heap_chain s ps" and "\<forall>p \<in> set ps. scannable (cat_frame s p)"
    and "rel_kind rel = Kds_Catalog.KDS_CLUSTERED_HEAP" and "rel_root_page_id rel = hd ps" and "length ps < d_pages de"
    and "reads_ints (d_kstrtoll de)" and "\<forall>d \<in> set (table_rows s ps). encodes (d_kstrtoll de) (rel_schema rel) (vals d) d"
  shows "\<exists>txt. (\<forall>d \<in> set (table_rows s ps). shows_row (d_kstrtoll de) (rel_schema rel) (vals d) d (txt d))
    \<and> (length (table_answer (rel_schema rel) txt s ps) < 512 \<longrightarrow>
        (\<exists>b. scan_relation de c name rel s = (Inr (Some ()), responds c cl b s) \<and> c_text b = c_text (table_answer (rel_schema rel) txt s ps)))"
proof -
  let ?k = "d_kstrtoll de" and ?sch = "rel_schema rel"
  have "\<exists>ts. shows_row ?k ?sch (vals d) d ts \<and> decodes_to ?k ?sch d ts" if "d \<in> set (table_rows s ps)" for d
    using encodes_shown [OF assms(9)] assms(10) that by blast
  then obtain "txt" where t: "\<forall>d \<in> set (table_rows s ps). shows_row ?k ?sch (vals d) d (txt d) \<and> decodes_to ?k ?sch d (txt d)" by metis
  with scan_relation_prints [OF assms(1-8)] show ?thesis by (intro exI [of _ "txt"]) blast
qed

section \<open>A table with one row\<close>

text \<open>A row of 256 bytes, the longest that \<^verbatim>\<open>INSERT\<close> encodes: the read through the row buffer stays inside the page.\<close>

definition long_name :: string where "long_name = replicate 246 CHR ''a''"

definition long_vals :: "kds_ast_val list" where "long_vals = [KDS_VAL_INT 7, KDS_VAL_STR long_name]"

definition long_row :: "u8 list" where "long_row = enc64 7 @ enc16 246 @ replicate 246 97"

lemma long_row_encodes: "encodes kstrtoll_decimal shell_schema long_vals long_row"
proof -
  have s: "val_text (KDS_VAL_STR long_name) = long_name" by (rule val_text_str) (simp add: long_name_def)
  have e: "encode_varchar long_name n = (if n < 246 then fails ENOSPC else Inr (replicate 246 97))" for n
    by (simp add: encode_varchar_def long_name_def U16_MAX_def bytes_of_def of_char_def)
  have "kds_dshell_encode_row_from_vals kstrtoll_decimal shell_schema long_vals KDS_DSHELL_ROW_MAX = Inr (long_row, 256)"
    by (simp add: kds_dshell_encode_row_from_vals_def shell_cols long_vals_def mk_col_desc mk_desc_def encode_int64_def encode_int_generic_def
        KDS_DSHELL_ROW_MAX_def seven s e long_row_def del: val_text.simps)
  then show ?thesis by (simp add: encodes_def shell_cols long_vals_def plain_val_def mk_col_def)
qed

abbreviation demo_select :: dshell_state where
  "demo_select \<equiv> shell_on (demo_table (Some long_row))"

lemma demo_select_table:
  "pool_wf demo_select" "heap_chain demo_select [200]" "scannable (cat_frame demo_select 200)" "table_rows demo_select [200] = [long_row]"
  "frame_view (cat_frame demo_select 200) = \<lparr>v_slots = [Some (mk_hdr 1 0 0 256, long_row, 256)], v_free = 7846, v_next = 0\<rparr>"
proof -
  have l: "length long_row = 256" by (simp add: long_row_def)
  have le: "case Some long_row of None \<Rightarrow> True | Some r \<Rightarrow> length r \<le> 8102" by (simp add: l)
  note V = demo_table_view [OF le] and C = demo_table_chain [OF le]
  have c: "cat_frame demo_select = cat_frame (demo_table (Some long_row))" by (simp add: shell_on_store)
  show v: "frame_view (cat_frame demo_select 200) = \<lparr>v_slots = [Some (mk_hdr 1 0 0 256, long_row, 256)], v_free = 7846, v_next = 0\<rparr>" using V(5) by (simp add: c l)
  show "pool_wf demo_select" using store_ok_pool [OF V(1)] by (simp add: pool_wf_def)
  show "heap_chain demo_select [200]" using C(1) by (simp add: heap_chain_def chain_links_def shell_on_store)
  show "scannable (cat_frame demo_select 200)" using V(4) v by (intro full_rows_scannable) (simp_all add: c slot_rows_def l)
  show "table_rows demo_select [200] = [long_row]" using v by (simp add: table_rows_def slot_rows_def)
qed

lemmas demo_select_wf = shell_on_wf(1,3) [of "demo_table (Some long_row)"]

lemma demo_names: "col_name (mk_col ''id'' t) = ''id''" "col_name (mk_col ''name'' t) = ''name''"
  by (simp_all add: col_name_def mk_col_def bytes_of_def string_of_def of_char_def char_of_def bit_0)

lemma shown_long: "shows_row kstrtoll_decimal shell_schema long_vals d ts \<Longrightarrow> ts = [''7'', long_name]"
proof -
  assume "shows_row kstrtoll_decimal shell_schema long_vals d ts"
  moreover have s: "val_text (KDS_VAL_STR long_name) = long_name" by (rule val_text_str) (simp add: long_name_def)
  ultimately show ?thesis
    by (auto simp: shows_row_def shell_cols long_vals_def length_Suc_conv All_less_Suc2 shown_def mk_col_desc mk_desc_def seven s simp del: val_text.simps)
qed

lemma demo_answer:
  assumes "txt long_row = [''7'', long_name]"
  shows "table_answer shell_schema txt demo_select [200]
    = ''OK '' @ NL @ ''  page=200 [0] xmin=1 xmax=0 id=7, name='' @ long_name @ NL @ ''1 row(s) across 1 page(s)'' @ NL"
  using demo_select_table(4,5) assms
  by (simp add: table_answer_def table_lines_def page_lines_def row_line_def tuple_text_def count_line_def u64_text_def mk_hdr_def shell_cols demo_names show_nat.simps char_of_def bit_0)

theorem select_prints_table_witness:
  "\<exists>b. scan_relation demo_denv 0 ''t'' demo_heap demo_select = (Inr (Some ()), responds 0 new_client b demo_select)
    \<and> c_text b = ''OK '' @ NL @ ''  page=200 [0] xmin=1 xmax=0 id=7, name='' @ long_name @ NL @ ''1 row(s) across 1 page(s)'' @ NL"
proof -
  let ?vals = "\<lambda>_ :: u8 list. long_vals"
  have h: "rel_kind demo_heap = Kds_Catalog.KDS_CLUSTERED_HEAP" "rel_root_page_id demo_heap = hd [200]" "rel_schema demo_heap = shell_schema"
    "d_kstrtoll demo_denv = kstrtoll_decimal" "length [200 :: u64] < d_pages demo_denv"
    by (simp_all add: demo_heap_def demo_rel_def demo_denv_def)
  have "\<forall>d \<in> set (table_rows demo_select [200]). encodes (d_kstrtoll demo_denv) (rel_schema demo_heap) (?vals d) d"
    using long_row_encodes by (simp add: demo_select_table(4) h del: table_rows_append)
  from select_prints_table [OF demo_select_wf demo_select_table(1,2) _ h(1,2,5) _ this, unfolded h(3,4), of "''t''"]
  obtain "txt" where t: "shows_row kstrtoll_decimal shell_schema long_vals long_row (txt long_row)"
    "length (table_answer shell_schema txt demo_select [200]) < 512 \<longrightarrow> (\<exists>b. scan_relation demo_denv 0 ''t'' demo_heap demo_select
       = (Inr (Some ()), responds 0 new_client b demo_select) \<and> c_text b = c_text (table_answer shell_schema txt demo_select [200]))"
    using demo_select_table(3) reads_ints_decimal by (auto simp: demo_select_table(4) simp del: table_rows_append)
  note a = demo_answer [of "txt", OF shown_long [OF t(1)]]
  have "c_text (table_answer shell_schema txt demo_select [200]) = table_answer shell_schema txt demo_select [200]"
    unfolding a by (simp add: c_text_def NL_def long_name_def takeWhile_append2)
  moreover have "length (table_answer shell_schema txt demo_select [200]) < 512" unfolding a by (simp add: NL_def long_name_def)
  ultimately show ?thesis using t(2) unfolding a by simp
qed

end
