(* ===== verification/Kds_Main.thy ===== *)
theory Kds_Main
  imports Kds_Dshell
begin

text \<open>
  The module entry (\<^verbatim>\<open>main.c\<close>): the bootstrap, which starts the subsystems one after the other, the worker thread
  of each CPU, the load balancer, and the teardown. The threads themselves run concurrently; the model has the body of
  a thread as a call that makes a given number of rounds before it is told to stop. The outcomes of the kernel's thread
  functions are arguments. What other CPUs and the process bodies do are arguments of the scheduler, as in \<open>Kds_Proc\<close>.
\<close>

section \<open>State\<close>

datatype kds_init = KDS_INIT_PENDING | KDS_INIT_DONE | KDS_INIT_FAILED

text \<open>A pointer to a task: null, a thread, or an error pointer.\<close>

datatype task_ptr = No_task | Task nat | Err_task errno

record main_state = dshell_state +
  kds_initialized :: kds_init
  kds_worker_thread :: "nat \<Rightarrow> task_ptr"
  kds_load_balancer :: task_ptr

text \<open>
  The environment: that of the shell, the addresses the kernel returns for the two other process structures, and the
  outcomes of the creation of threads: the handle of a worker or an error.
\<close>

record main_env =
  m_shell :: dshell_env
  m_prealloc :: nat
  m_ckpt :: nat
  m_worker :: "nat \<Rightarrow> errno + nat"
  m_balancer :: "errno + nat"

definition KDS_TIME_SLICE_NS :: u64 where "KDS_TIME_SLICE_NS = 10 * 1000000"

abbreviation m_kenv :: "main_env \<Rightarrow> kenv" where "m_kenv me \<equiv> d_kenv (m_shell me)"
abbreviation m_sched :: "main_env \<Rightarrow> sched_env" where "m_sched me \<equiv> d_sched (m_shell me)"

abbreviation online_cpus :: "main_env \<Rightarrow> nat list" where
  "online_cpus me \<equiv> cpus_of (m_sched me) (cpu_online_mask (m_sched me))"

section \<open>Bootstrap\<close>

text \<open>
  The registration of the processes of the page allocator and of the checkpointer: the structure from \<^verbatim>\<open>vzalloc\<close> with
  the fields their modules set, which are those of the shell's process but for the body.
\<close>

definition register_proc :: "main_env \<Rightarrow> nat \<Rightarrow> kds_proc_run_fn \<Rightarrow> ('z main_state_scheme, unit) call" where
  "register_proc me a body =
     sbind (smod (\<lambda>s. s\<lparr>procs := (procs s)(a := dshell_proc\<lparr>p_run := Some body\<rparr>)\<rparr>)) (\<lambda>_. kds_proc_register (m_sched me) (Some a))"

definition kds_bootstrap_failed :: "('z main_state_scheme, unit) call" where
  "kds_bootstrap_failed = sbind (smod (\<lambda>s. s\<lparr>kds_initialized := KDS_INIT_FAILED\<rparr>)) (\<lambda>_. sfail Panic)"

text \<open>One stage: \<^verbatim>\<open>if (ret) return kds_bootstrap_failed(...)\<close>.\<close>

definition boot_stage :: "('z main_state_scheme, unit) call \<Rightarrow> ('z main_state_scheme, unit) call \<Rightarrow> ('z main_state_scheme, unit) call" where
  "boot_stage m next_stages = sattempt m (\<lambda>r. case r of Inl e \<Rightarrow> kds_bootstrap_failed | Inr _ \<Rightarrow> next_stages)"

definition kds_bootstrap :: "main_env \<Rightarrow> ('z main_state_scheme, unit) call" where
  "kds_bootstrap me =
     boot_stage (init_block_device (m_kenv me)) (
     boot_stage (kds_buf_pool_init (m_kenv me)) (
     boot_stage (kds_sched_init (m_sched me)) (
     boot_stage (kds_init_meta_system (m_kenv me)) (
     boot_stage (kds_init_dshell_system (m_shell me)) (
     boot_stage (kds_init_page_alloc_system (m_kenv me) (register_proc me (m_prealloc me) Run_prealloc)) (
     boot_stage (sbind sget (\<lambda>s. if kds_meta_is_fresh_init s then kds_catalog_bootstrap (m_kenv me) (d_kstrtoll (m_shell me)) else sret ())) (
     boot_stage (kds_wal_init (m_kenv me)) (
     boot_stage (kds_wal_checkpointer_init (m_kenv me) (register_proc me (m_ckpt me) Run_checkpointer)) (
     smod (\<lambda>s. s\<lparr>kds_initialized := KDS_INIT_DONE\<rparr>))))))))))"

section \<open>Threads\<close>

text \<open>\<open>n\<close> rounds of the loop of a thread before \<^verbatim>\<open>kthread_should_stop\<close>.\<close>

fun rounds_of :: "nat \<Rightarrow> ('s, unit) call \<Rightarrow> ('s, unit) call" where
  "rounds_of 0 m = sret ()"
| "rounds_of (Suc n) m = sbind m (\<lambda>_. rounds_of n m)"

text \<open>The bodies of the threads, with their return values.\<close>

definition kds_worker_fn :: "main_env \<Rightarrow> 'z main_state_scheme run_call \<Rightarrow> nat \<Rightarrow> nat \<Rightarrow> ('z main_state_scheme, int) call" where
  "kds_worker_fn me run n cpu = sbind sget (\<lambda>s.
     if kds_initialized s \<noteq> KDS_INIT_DONE then sret (- 1)
     else sbind (rounds_of n (kds_proc_schedule (m_sched me) run cpu KDS_TIME_SLICE_NS)) (\<lambda>_. sret 0))"

definition kds_load_balancer_fn :: "main_env \<Rightarrow> nat \<Rightarrow> ('z main_state_scheme, int) call" where
  "kds_load_balancer_fn me n = sbind sget (\<lambda>s.
     if kds_initialized s \<noteq> KDS_INIT_DONE then sret (- 1)
     else sbind (rounds_of n (kds_load_balance (m_sched me))) (\<lambda>_. sret 0))"

text \<open>\<^verbatim>\<open>kthread_stop\<close> dereferences its argument.\<close>

definition kthread_stop :: "task_ptr \<Rightarrow> ('z main_state_scheme, unit) call" where
  "kthread_stop t = (case t of Task _ \<Rightarrow> sret () | _ \<Rightarrow> sfail Fault)"

fun stop_workers :: "nat list \<Rightarrow> ('z main_state_scheme, unit) call" where
  "stop_workers [] = sret ()"
| "stop_workers (cpu # cpus) =
     sbind sget (\<lambda>s. let worker = kds_worker_thread s cpu in
     sbind (if worker \<noteq> No_task
            then sbind (kthread_stop worker) (\<lambda>_. smod (\<lambda>s. s\<lparr>kds_worker_thread := (kds_worker_thread s)(cpu := No_task)\<rparr>))
            else sret ()) (\<lambda>_. stop_workers cpus))"

text \<open>The loop over the online CPUs; the result is false when a worker cannot be created.\<close>

fun create_workers :: "main_env \<Rightarrow> nat list \<Rightarrow> ('z main_state_scheme, bool) call" where
  "create_workers me [] = sret True"
| "create_workers me (cpu # cpus) = (case m_worker me cpu of
       Inl e \<Rightarrow> sret False
     | Inr t \<Rightarrow> sbind (smod (\<lambda>s. s\<lparr>kds_worker_thread := (kds_worker_thread s)(cpu := Task t)\<rparr>)) (\<lambda>_. create_workers me cpus))"

definition kds_start_workers :: "main_env \<Rightarrow> ('z main_state_scheme, int) call" where
  "kds_start_workers me =
     sbind (create_workers me (online_cpus me)) (\<lambda>ok.
     if ok then sret 0 else sbind (stop_workers (online_cpus me)) (\<lambda>_. sret (- 1)))"

text \<open>The error pointer stays in the global variable.\<close>

definition kds_start_load_balancer :: "main_env \<Rightarrow> ('z main_state_scheme, int) call" where
  "kds_start_load_balancer me = (case m_balancer me of
       Inl e \<Rightarrow> sbind (smod (\<lambda>s. s\<lparr>kds_load_balancer := Err_task e\<rparr>)) (\<lambda>_. sret (- int (errno_code e)))
     | Inr t \<Rightarrow> sbind (smod (\<lambda>s. s\<lparr>kds_load_balancer := Task t\<rparr>)) (\<lambda>_. sret 0))"

section \<open>Start and teardown\<close>

definition kds_cleanup :: "main_env \<Rightarrow> ('z main_state_scheme, unit) call" where
  "kds_cleanup me =
     sbind sget (\<lambda>s.
     sbind (if kds_load_balancer s \<noteq> No_task
            then sbind (kthread_stop (kds_load_balancer s)) (\<lambda>_. smod (\<lambda>s. s\<lparr>kds_load_balancer := No_task\<rparr>))
            else sret ()) (\<lambda>_.
     sbind (stop_workers (online_cpus me)) (\<lambda>_.
     sbind kds_sched_cleanup (\<lambda>_.
     sbind (kds_shutdown_page_alloc_system (kds_proc_unregister (m_sched me) (m_prealloc me))) (\<lambda>_.
     sbind (kds_shutdown_dshell_system (m_shell me)) (\<lambda>_.
     sbind (smod kds_buf_pool_destroy) (\<lambda>_.
     sbind (kds_shutdown_meta_system (m_kenv me)) (\<lambda>_.
     smod exit_block_device))))))))"

definition kds_main :: "main_env \<Rightarrow> ('z main_state_scheme, int) call" where
  "kds_main me =
     sbind (kds_bootstrap me) (\<lambda>_.
     sbind (kds_start_workers me) (\<lambda>ret.
     if ret \<noteq> 0 then sret ret
     else sbind (kds_start_load_balancer me) (\<lambda>ret.
       if ret \<noteq> 0 then sbind (kds_cleanup me) (\<lambda>_. sret ret) else sret 0)))"

definition kds_late_init :: "main_env \<Rightarrow> ('z main_state_scheme, int) call" where
  "kds_late_init me = kds_main me"

definition kds_exit :: "main_env \<Rightarrow> ('z main_state_scheme, unit) call" where
  "kds_exit me = kds_cleanup me"

end
