(* ===== verification/Kds_Main_Spec.thy ===== *)
theory Kds_Main_Spec
  imports Kds_Main Kds_Dshell_Spec
begin

text \<open>
  What the module entry does: the bootstrap is marked done exactly when every stage has succeeded, every online CPU has a
  worker or none has, and what a cleanup leaves behind. The proofs run the stages over the frame rules of \<open>Kds_Keeps\<close>:
  no subsystem touches the fields of the entry, and after its start the shell is left alone.
\<close>

section \<open>Calls that establish a fact\<close>

definition establishes :: "('s \<Rightarrow> bool) \<Rightarrow> ('s, 'a) call \<Rightarrow> bool" where
  "establishes P m \<longleftrightarrow> (\<forall>s x s'. m s = (Inr x, s') \<longrightarrow> P s')"

lemma establishesD: "establishes P m \<Longrightarrow> m s = (Inr x, s') \<Longrightarrow> P s'"
  by (auto simp: establishes_def)

lemma establishes_smod: "(\<And>s. P (g s)) \<Longrightarrow> establishes P (smod g)"
  by (auto simp: establishes_def smod_def)

lemma establishes_rules:
  "establishes P (sfail e)"
  "(\<And>x. establishes P (f x)) \<Longrightarrow> establishes P (sbind m f)"
  "establishes P m1 \<Longrightarrow> establishes P m2 \<Longrightarrow> establishes P (if b then m1 else m2)"
  by (auto simp: establishes_def sfail_def sbind_def split: prod.splits sum.splits)

lemma wal_init_up: "establishes (\<lambda>s. g_wal s \<noteq> None) (kds_wal_init env)"
  unfolding kds_wal_init_def by (intro establishes_rules establishes_smod; simp)

section \<open>The bootstrap\<close>

text \<open>What the subsystems below the shell never touch.\<close>

lemma keeps_main_more:
  assumes "sched_state.more s' = sched_state.more s"
  shows "kds_initialized s' = kds_initialized s" "kds_worker_thread s' = kds_worker_thread s" "kds_load_balancer s' = kds_load_balancer s"
  using assms by (simp_all add: main_state.select_defs dshell_state.select_defs sched_state.select_defs)

text \<open>The fields of the module entry, which no subsystem touches.\<close>

definition entry_state :: "'z main_state_scheme \<Rightarrow> kds_init \<times> (nat \<Rightarrow> task_ptr) \<times> task_ptr" where
  "entry_state s = (kds_initialized s, kds_worker_thread s, kds_load_balancer s)"

abbreviation module_view :: "'z main_state_scheme \<Rightarrow> (kds_init \<times> (nat \<Rightarrow> task_ptr) \<times> task_ptr) \<times> bool list \<times> nat option" where
  "module_view s \<equiv> (entry_state s, device s)"

lemma view_more: "keeps sched_state.more m \<Longrightarrow> keeps module_view m"
  unfolding keeps_def entry_state_def device_objects_def by (auto dest: keeps_main_more more_dshell)

lemma view_outside: "keeps outside m \<Longrightarrow> keeps module_view m"
  by (intro view_more keeps_more)

lemma keeps_sched_init: "keeps sched_state.more (kds_sched_init env)"
  unfolding kds_sched_init_def by (intro keeps_rules keeps_smod; simp)

lemma keeps_register_proc: "keeps sched_state.more (register_proc me a body)"
  unfolding register_proc_def by (intro keeps_rules keeps_register keeps_smod; simp)

lemma keeps_page_alloc_start: "keeps sched_state.more (kds_init_page_alloc_system env (register_proc me a body))"
  unfolding kds_init_page_alloc_system_def kds_create_proc_prealloc_def
  by (intro keeps_rules keeps_register_proc keeps_smod keeps_more [OF keeps_kalloc] keeps_more [OF keeps_kds_init_g_alloc]
      keeps_more [OF keeps_kds_meta_get_alloc_range] keeps_more [OF keeps_kds_batch_alloc] keeps_more [OF keeps_kds_reclaim_uninitialized_pages]; simp)

lemma entry_more: "keeps sched_state.more m \<Longrightarrow> keeps entry_state m"
  unfolding keeps_def entry_state_def by (auto dest: keeps_main_more)

lemmas entry_calls = entry_more [OF keeps_more [OF keeps_kalloc]] entry_more [OF keeps_register(1)] entry_more [OF keeps_register(2)]

lemma entry_register_dshell: "keeps entry_state (kds_register_dshell_proc de)" "keeps entry_state (unregister_dshell_proc de)"
proof -
  show "keeps entry_state (kds_register_dshell_proc de)"
    unfolding kds_register_dshell_proc_def by (intro keeps_rules keeps_smod entry_calls; simp add: entry_state_def)
  show "keeps entry_state (unregister_dshell_proc de)"
    unfolding unregister_dshell_proc_def by (intro keeps_rules keeps_smod entry_calls; simp add: entry_state_def)
qed

lemma entry_dshell_start: "keeps entry_state (kds_init_dshell_system de)"
  unfolding kds_init_dshell_system_def undo_class_def undo_cdev_def undo_region_def
  by (intro keeps_rules keeps_smod entry_register_dshell; simp add: entry_state_def)

lemma entry_clients: "keeps entry_state (upd_client c f)" "keeps entry_state (the_client c)" "keeps entry_state (say c t)"
  by (auto simp: keeps_def say_def upd_client_def the_client_def call_defs entry_state_def split: option.splits)

lemma entry_dshell_stop: "keeps entry_state (kds_shutdown_dshell_system de)"
proof -
  have "keeps entry_state (wake_clients cs :: ('a main_state_scheme, unit) call)" for cs
    by (induction cs) (auto intro!: keeps_rules entry_clients)
  then show ?thesis
    unfolding kds_shutdown_dshell_system_def by (intro keeps_rules keeps_smod entry_register_dshell; simp add: entry_state_def)
qed

text \<open>A stage either succeeds and the next stages run, or the bootstrap ends without being done.\<close>

definition boot_failed :: "failure + unit \<Rightarrow> 'z main_state_scheme \<Rightarrow> bool" where
  "boot_failed r s \<longleftrightarrow> (r = Inl Panic \<or> r = Inl Fault) \<and> kds_initialized s \<noteq> KDS_INIT_DONE"

lemma stage_cases:
  assumes "boot_stage m n s = (r, s')" and "keeps entry_state m" and "kds_initialized s \<noteq> KDS_INIT_DONE"
  obtains t where "m s = (Inr (), t)" "n t = (r, s')" "entry_state t = entry_state s" | "boot_failed r s'"
proof (cases "m s")
  case (Pair q t)
  then have e: "entry_state t = entry_state s" using keepsD [OF assms(2)] by simp
  show thesis
  proof (cases q)
    case (Inl x)
    then have "boot_failed r s'"
      using assms(1,3) Pair e by (cases x) (auto simp: boot_stage_def sattempt_def strying_def sfail_def kds_bootstrap_failed_def sbind_def smod_def boot_failed_def entry_state_def)
    then show thesis by (rule that(2))
  next
    case (Inr x)
    then have "n t = (r, s')" using assms(1) Pair by (simp add: boot_stage_def sattempt_def strying_def)
    then show thesis using that(1) Pair Inr e by simp
  qed
qed

text \<open>From the start of the shell to the end of the bootstrap.\<close>

lemma keeps_storage_stages:
  "keeps sched_state.more (init_block_device env)" "keeps sched_state.more (kds_buf_pool_init env)" "keeps sched_state.more (kds_init_meta_system env)"
  "keeps sched_state.more (kds_wal_init env)"
  "keeps sched_state.more (sbind sget (\<lambda>s. if kds_meta_is_fresh_init s then kds_catalog_bootstrap env k else sret ()))"
  by (rule keeps_more, intro keeps_rules)+

lemma keeps_checkpointer_start: "keeps sched_state.more (kds_wal_checkpointer_init env (register_proc me a body))"
  unfolding kds_wal_checkpointer_init_def by (intro keeps_rules keeps_register_proc keeps_smod keeps_more [OF keeps_kalloc]; simp)

text \<open>The state of the write-ahead log that outlives a call, and whether the buffer pool exists.\<close>

definition log_state :: "'z sched_state_scheme \<Rightarrow> (kds_wal_state option \<times> bool) \<times> bool" where
  "log_state s = ((g_wal s, g_ckpt_proc s), g_pool s)"

lemma log_queues: "keeps log_state (list_add_tail env a c)" "keeps log_state (list_del_init a)"
  unfolding list_add_tail_def list_del_init_def by (intro keeps_rules keeps_smod; simp add: log_state_def)+

lemma log_rq: "keeps log_state (rq_add env c a)" "keeps log_state (rq_del env c a)"
  unfolding rq_add_def rq_del_def by (intro keeps_rules log_queues keeps_smod; simp add: log_state_def)+

lemma log_procs: "keeps log_state (kds_proc_register env p)" "keeps log_state (kds_proc_unregister env a)"
  unfolding kds_proc_register_def kds_proc_unregister_def by (intro keeps_rules log_rq keeps_smod; simp add: log_state_def)+

lemma log_register: "keeps log_state (register_proc me a body)"
  unfolding register_proc_def by (intro keeps_rules log_procs keeps_smod; simp add: log_state_def)

lemma log_kalloc: "keeps log_state (kalloc env)"
  by (auto simp: keeps_def kalloc_def log_state_def)

lemma checkpointer_up:
  assumes "kds_wal_checkpointer_init env (register_proc me a body) s = (Inr x, s')"
  shows "g_ckpt_proc s' \<and> g_wal s' = g_wal s"
proof -
  obtain b t where t: "kalloc env s = (Inr b, t)" by (auto simp: kalloc_def)
  obtain q u where u: "register_proc me a body (t\<lparr>g_ckpt_proc := True\<rparr>) = (q, u)" by (cases "register_proc me a body (t\<lparr>g_ckpt_proc := True\<rparr>)")
  have "q = Inr () \<and> s' = u"
    using assms t u by (auto simp: kds_wal_checkpointer_init_def sbind_def sret_def smod_def strying_def sfail_def split: if_splits sum.splits)
  then show ?thesis using keepsD [OF log_kalloc t] keepsD [OF log_register u] by (simp add: log_state_def)
qed

lemma boot_last:
  assumes "kds_initialized s \<noteq> KDS_INIT_DONE"
    and "boot_stage (kds_wal_init env) (boot_stage (kds_wal_checkpointer_init env (register_proc me a body)) (smod (\<lambda>s. s\<lparr>kds_initialized := KDS_INIT_DONE\<rparr>))) s = (r, s')"
  shows "boot_failed r s' \<or> r = Inr () \<and> kds_initialized s' = KDS_INIT_DONE \<and> device s' = device s \<and> g_wal s' \<noteq> None \<and> g_ckpt_proc s'
    \<and> kds_worker_thread s' = kds_worker_thread s \<and> kds_load_balancer s' = kds_load_balancer s"
proof (rule stage_cases [OF assms(2) entry_more [OF keeps_storage_stages(4)] assms(1)])
  fix t
  assume t: "kds_wal_init env s = (Inr (), t)" "entry_state t = entry_state s"
    and rest: "boot_stage (kds_wal_checkpointer_init env (register_proc me a body)) (smod (\<lambda>s. s\<lparr>kds_initialized := KDS_INIT_DONE\<rparr>)) t = (r, s')"
  have i: "kds_initialized t \<noteq> KDS_INIT_DONE" using t(2) assms(1) by (simp add: entry_state_def)
  show ?thesis
  proof (rule stage_cases [OF rest entry_more [OF keeps_checkpointer_start] i])
    fix u
    assume u: "kds_wal_checkpointer_init env (register_proc me a body) t = (Inr (), u)" and fin: "smod (\<lambda>s. s\<lparr>kds_initialized := KDS_INIT_DONE\<rparr>) u = (r, s')"
    have "module_view u = module_view s" using keepsD [OF view_more [OF keeps_storage_stages(4)] t(1)] keepsD [OF view_more [OF keeps_checkpointer_start] u] by simp
    then show ?thesis
      using fin establishesD [OF wal_init_up t(1)] checkpointer_up [OF u] by (auto simp: smod_def entry_state_def device_objects_def)
  qed simp
qed simp

text \<open>Stages that leave the shell and the module entry alone.\<close>

lemma stages_keep:
  assumes "\<forall>m \<in> set ms. keeps module_view m" and "kds_initialized s \<noteq> KDS_INIT_DONE" and "foldr boot_stage ms n s = (r, s')"
  shows "boot_failed r s' \<or> (\<exists>t. n t = (r, s') \<and> module_view t = module_view s)"
  using assms
proof (induction ms arbitrary: s)
  case (Cons m ms)
  have e: "keeps entry_state m" "keeps module_view m" using Cons.prems(1) by (auto simp: keeps_def)
  have "boot_stage m (foldr boot_stage ms n) s = (r, s')" using Cons.prems(3) by simp
  then show ?case
  proof (rule stage_cases [OF _ e(1) Cons.prems(2)])
    fix t
    assume t: "m s = (Inr (), t)" "foldr boot_stage ms n t = (r, s')"
    have v: "module_view t = module_view s" using keepsD [OF e(2) t(1)] .
    then have "kds_initialized t \<noteq> KDS_INIT_DONE" using Cons.prems(2) by (simp add: entry_state_def)
    from Cons.IH [OF _ this t(2)] show ?thesis using Cons.prems(1) v by auto
  qed simp
qed auto

definition booted :: "'z main_state_scheme \<Rightarrow> failure + unit \<Rightarrow> 'z main_state_scheme \<Rightarrow> bool" where
  "booted s r s' \<longleftrightarrow> r = Inr () \<and> kds_initialized s' = KDS_INIT_DONE \<and> device_objects s' = [True, True, True, True, True] \<and> kds_dshell_proc s' \<noteq> None
     \<and> g_wal s' \<noteq> None \<and> g_ckpt_proc s' \<and> kds_worker_thread s' = kds_worker_thread s \<and> kds_load_balancer s' = kds_load_balancer s"

lemma bootstrap_cases:
  assumes "kds_initialized s \<noteq> KDS_INIT_DONE" and "device s = ([False, False, False, False, False], None)" and "kds_bootstrap me s = (r, s')"
  shows "boot_failed r s' \<or> booted s r s'"
proof -
  let ?env = "m_kenv me" and ?last = "boot_stage (kds_wal_init (m_kenv me)) (boot_stage (kds_wal_checkpointer_init (m_kenv me) (register_proc me (m_ckpt me) Run_checkpointer))
     (smod (\<lambda>s. s\<lparr>kds_initialized := KDS_INIT_DONE\<rparr>)))"
  let ?lower = "[init_block_device ?env, kds_buf_pool_init ?env, kds_sched_init (m_sched me), kds_init_meta_system ?env]"
  let ?upper = "[kds_init_page_alloc_system ?env (register_proc me (m_prealloc me) Run_prealloc),
     sbind sget (\<lambda>s. if kds_meta_is_fresh_init s then kds_catalog_bootstrap ?env (d_kstrtoll (m_shell me)) else sret ())]"
  have "foldr boot_stage ?lower (boot_stage (kds_init_dshell_system (m_shell me)) (foldr boot_stage ?upper ?last)) s = (r, s')"
    using assms(3) by (simp add: kds_bootstrap_def)
  from stages_keep [OF _ assms(1) this] consider "boot_failed r s'"
    | t where "boot_stage (kds_init_dshell_system (m_shell me)) (foldr boot_stage ?upper ?last) t = (r, s')" "module_view t = module_view s"
    by (auto simp: view_more keeps_storage_stages keeps_sched_init)
  then show ?thesis
  proof cases
    case (2 t)
    have it: "kds_initialized t \<noteq> KDS_INIT_DONE" using 2(2) assms(1) by (simp add: entry_state_def)
    show ?thesis
    proof (rule stage_cases [OF 2(1) entry_dshell_start it])
      fix u
      assume u: "kds_init_dshell_system (m_shell me) t = (Inr (), u)" "foldr boot_stage ?upper ?last u = (r, s')" "entry_state u = entry_state t"
      have d: "device_objects u = [True, True, True, True, True] \<and> kds_dshell_proc u \<noteq> None"
        using start_result [OF _ u(1)] 2(2) assms(2) by simp
      have iu: "kds_initialized u \<noteq> KDS_INIT_DONE" using it u(3) by (simp add: entry_state_def)
      from stages_keep [OF _ iu u(2)] consider "boot_failed r s'" | w where "?last w = (r, s')" "module_view w = module_view u"
        by (auto simp: view_more keeps_storage_stages keeps_page_alloc_start)
      then show ?thesis
      proof cases
        case (2 w)
        have "kds_initialized w \<noteq> KDS_INIT_DONE" using iu 2(2) by (simp add: entry_state_def)
        from boot_last [OF this 2(1)] show ?thesis
          using d 2(2) u(3) \<open>module_view t = module_view s\<close> by (auto simp: booted_def entry_state_def)
      qed simp
    qed simp
  qed simp
qed

text \<open>The stages in their order, and what it means that all of them succeed: each returns without an error, in the state the one before has left.\<close>

definition boot_stages :: "main_env \<Rightarrow> ('z main_state_scheme, unit) call list" where
  "boot_stages me =
     [init_block_device (m_kenv me), kds_buf_pool_init (m_kenv me), kds_sched_init (m_sched me), kds_init_meta_system (m_kenv me),
      kds_init_dshell_system (m_shell me), kds_init_page_alloc_system (m_kenv me) (register_proc me (m_prealloc me) Run_prealloc),
      sbind sget (\<lambda>s. if kds_meta_is_fresh_init s then kds_catalog_bootstrap (m_kenv me) (d_kstrtoll (m_shell me)) else sret ()),
      kds_wal_init (m_kenv me), kds_wal_checkpointer_init (m_kenv me) (register_proc me (m_ckpt me) Run_checkpointer)]"

fun all_succeed :: "('s, unit) call list \<Rightarrow> 's \<Rightarrow> 's option" where
  "all_succeed [] s = Some s"
| "all_succeed (m # ms) s = (case m s of (Inr _, t) \<Rightarrow> all_succeed ms t | (Inl _, t) \<Rightarrow> None)"

lemma stage_run:
  "m s = (Inr x, t) \<Longrightarrow> boot_stage m n s = n t" "m s = (Inl e, t) \<Longrightarrow> \<exists>e' t'. boot_stage m n s = (Inl e', t')"
  by (cases e; simp add: boot_stage_def sattempt_def strying_def kds_bootstrap_failed_def sbind_def smod_def sfail_def)+

lemma stages_run: "all_succeed ms s = Some t \<Longrightarrow> foldr boot_stage ms n s = n t"
  by (induction ms arbitrary: s) (auto simp: stage_run(1) split: prod.splits sum.splits)

lemma stages_stop: "all_succeed ms s = None \<Longrightarrow> \<exists>e s'. foldr boot_stage ms n s = (Inl e, s')"
proof (induction ms arbitrary: s)
  case (Cons m ms)
  obtain q t where q: "m s = (q, t)" by (cases "m s")
  then show ?case using Cons stage_run [of m s _ t] by (cases q) auto
qed simp

lemma bootstrap_stages: "kds_bootstrap me = foldr boot_stage (boot_stages me) (smod (\<lambda>s. s\<lparr>kds_initialized := KDS_INIT_DONE\<rparr>))"
  by (simp add: kds_bootstrap_def boot_stages_def)

text \<open>C30: The bootstrap of a module that is not running ends in one of two ways. Either all nine stages have returned success, one after the other: the block device, the buffer pool, the scheduler, the superblock, the shell, the page allocator, the catalogue when the disk is fresh, the log, the checkpointer; then it is marked done in the state they leave, \<^verbatim>\<open>/dev/kds\<close> exists with its process, and the log and its checkpointer are up. Or some stage has not succeeded: then it ends in a panic, or in a fault inside that stage, and is not marked done, so that no worker enters the scheduler. It never returns an error.\<close>

theorem bootstrap_outcome:
  assumes "kds_initialized s \<noteq> KDS_INIT_DONE" and "device s = ([False, False, False, False, False], None)" and "kds_bootstrap me s = (r, s')"
  shows "case all_succeed (boot_stages me) s of
      Some t \<Rightarrow> r = Inr () \<and> s' = t\<lparr>kds_initialized := KDS_INIT_DONE\<rparr> \<and> device_objects s' = [True, True, True, True, True] \<and> kds_dshell_proc s' \<noteq> None
        \<and> g_wal s' \<noteq> None \<and> g_ckpt_proc s'
    | None \<Rightarrow> (r = Inl Panic \<or> r = Inl Fault) \<and> kds_initialized s' \<noteq> KDS_INIT_DONE
        \<and> (\<forall>run n cpu. kds_worker_fn me run n cpu s' = (Inr (- 1), s')) \<and> (\<forall>n. kds_load_balancer_fn me n s' = (Inr (- 1), s'))"
proof -
  let ?done = "smod (\<lambda>s. s\<lparr>kds_initialized := KDS_INIT_DONE\<rparr>) :: ('a main_state_scheme, unit) call"
  have run: "foldr boot_stage (boot_stages me) ?done s = (r, s')" using assms(3) by (simp only: bootstrap_stages)
  have b: "boot_failed r s' \<or> booted s r s'" by (rule bootstrap_cases [OF assms])
  show ?thesis
  proof (cases "all_succeed (boot_stages me) s")
    case None
    then obtain e where "r = Inl e" using stages_stop [OF None, of ?done] run by auto
    then have "boot_failed r s'" using b by (simp add: booted_def)
    then show ?thesis using None by (simp add: boot_failed_def kds_worker_fn_def kds_load_balancer_fn_def call_defs)
  next
    case (Some t)
    then have "r = Inr () \<and> s' = t\<lparr>kds_initialized := KDS_INIT_DONE\<rparr>" using stages_run [OF Some, of ?done] run by (simp add: smod_def)
    then show ?thesis using Some b by (simp add: booted_def boot_failed_def)
  qed
qed

section \<open>The processes of the module\<close>

text \<open>
  The bodies the module registers with the scheduler. \<open>addr\<close> is the address that \<^verbatim>\<open>kds_wal_need_flush\<close> compares
  with, \<open>gap\<close> what other threads do while the shell's list of clients is unlocked.
\<close>

definition module_run :: "main_env \<Rightarrow> u64 \<Rightarrow> ('z main_state_scheme, unit) call \<Rightarrow> 'z main_state_scheme run_call" where
  "module_run me addr gap f a sl = (case f of
       Run_prealloc \<Rightarrow> sbind (kds_proc_prealloc (m_kenv me)) (\<lambda>_. sret KDS_PROC_YIELD_RET)
     | Run_checkpointer \<Rightarrow> sbind (kds_wal_checkpointer_proc (m_kenv me) (d_crc (m_shell me)) addr) (\<lambda>_. sret KDS_PROC_YIELD_RET)
     | Run_dshell \<Rightarrow> sbind (kds_dshell_proc_run (m_shell me) gap sl) (\<lambda>r. case r of None \<Rightarrow> sfail Panic | Some x \<Rightarrow> sret x))"

definition queues_of :: "'z sched_state_scheme \<Rightarrow> (nat \<Rightarrow> kds_runqueue) \<times> (nat \<Rightarrow> kds_proc) \<times> u64 \<times> kds_sched_stats" where
  "queues_of s = (kds_runqueues s, procs s, kds_next_pid s, kds_stats s)"

lemmas keeps_flow = keeps_basic keeps_sbind keeps_cases(1,3,4)

lemma queues_outside: "keeps outside m \<Longrightarrow> keeps queues_of m"
  by (simp add: keeps_def outside_def queues_of_def)

lemma queues_clients: "keeps queues_of (upd_client c f)" "keeps queues_of (the_client c)" "keeps queues_of (say c t)"
  by (auto simp: keeps_def say_def upd_client_def the_client_def call_defs queues_of_def split: option.splits)

lemma queues_exec: "keeps queues_of (run_client_exec de ex sl)"
  unfolding run_client_exec_def sobind_def kds_exec_run_def
  by (rule queues_outside) (auto intro!: keeps_rules split: dshell_exec.splits)

lemma queues_service:
  assumes "keeps queues_of gap"
  shows "keeps queues_of (service_clients de gap sl n c)"
proof (induction n arbitrary: c)
  case 0
  show ?case by (cases c) (simp_all add: keeps_basic)
next
  case (Suc n)
  show ?case
  proof (cases c)
    case (Some d)
    show ?thesis unfolding Some service_clients.simps sobind_def finish_client_def
      by (intro keeps_flow queues_clients queues_exec Suc.IH assms)
  qed (simp add: keeps_basic)
qed

lemma module_run_safe:
  assumes "keeps queues_of gap"
  shows "run_safe (module_run me addr gap)"
proof -
  have shell: "keeps queues_of (kds_dshell_proc_run (m_shell me) gap sl)" for sl
    unfolding kds_dshell_proc_run_def by (rule keeps_sbind [OF keeps_basic(3) queues_service [OF assms]])
  have k: "keeps queues_of (module_run me addr gap f a sl)" for f a sl
    unfolding module_run_def
    by (cases f; simp only: kds_proc_run_fn.case;
        intro keeps_flow queues_outside [OF keeps_kds_proc_prealloc] queues_outside [OF keeps_kds_wal_checkpointer_proc] shell)
  have "queues_of s' = queues_of s" if "module_run me addr gap f a sl s = (Inr r, s')" for f a sl s r s' by (rule keepsD [OF k that])
  then show ?thesis unfolding run_safe_def kept_sched_def queues_of_def by simp
qed

text \<open>C15: After the start-up of the scheduler, along every sequence of its calls that return, one after the other, each queue of each CPU stays consistent: a registered process is in exactly one queue, the one of its own CPU and its kind; the session queue is ordered by static priority; \<^verbatim>\<open>nr_running\<close> is the number of queued processes; process ids are distinct; and \<^verbatim>\<open>curr_proc\<close> is null between two rounds, so the fast path of the scheduler is not taken. The calls are the filling of an unregistered structure; the registration of one, with a mask of existing CPUs, until the 64-bit id counter wraps; the removal of a registered process and its migration under such a mask; rounds on any CPU, which run the module's own process bodies (page preallocation, checkpointer, shell) while other threads leave the scheduler alone; and load balancing. A round whose body faults or panics, and a load balancing that finds no process to move on the busiest CPU and takes the list head for one (proc.c:404), do not return and are not part of such a sequence. Some CPU is online and CPUs that cannot exist have empty queues to begin with.\<close>

theorem scheduler_invariant:
  assumes "sched_env_ok env" and "keeps queues_of gap" and "\<And>c. c \<notin> set (cpus_of env (cpu_possible_mask env)) \<Longrightarrow> kds_runqueues s0 c = empty_runqueue"
    and "kds_sched_init env s0 = (r, s1)" and "(sched_step env (module_run me addr gap))\<^sup>*\<^sup>* s1 s"
  shows "sched_wf env s"
  by (rule sched_runs_wf [OF assms(1) module_run_safe [OF assms(2)] assms(3-5)])

section \<open>Threads\<close>

definition has_worker :: "'z main_state_scheme \<Rightarrow> nat \<Rightarrow> bool" where
  "has_worker s cpu \<longleftrightarrow> (\<exists>t. kds_worker_thread s cpu = Task t)"

lemma create_workers_run:
  "\<exists>T. create_workers me cpus s = (Inr (\<forall>c \<in> set cpus. \<not> isl (m_worker me c)), s\<lparr>kds_worker_thread := T\<rparr>)
     \<and> (\<forall>c. c \<notin> set cpus \<longrightarrow> T c = kds_worker_thread s c) \<and> (\<forall>c. T c = kds_worker_thread s c \<or> (\<exists>t. T c = Task t))
     \<and> ((\<forall>c \<in> set cpus. \<not> isl (m_worker me c)) \<longrightarrow> (\<forall>c \<in> set cpus. \<exists>t. T c = Task t))"
proof (induction cpus arbitrary: s)
  case Nil
  show ?case by (intro exI [of _ "kds_worker_thread s"]) (simp add: sret_def)
next
  case (Cons cpu cpus)
  show ?case
  proof (cases "m_worker me cpu")
    case (Inl e)
    then show ?thesis by (intro exI [of _ "kds_worker_thread s"]) (simp add: sret_def)
  next
    case (Inr t)
    let ?s = "s\<lparr>kds_worker_thread := (kds_worker_thread s)(cpu := Task t)\<rparr>"
    from Cons.IH [of ?s] obtain T where T: "create_workers me cpus ?s = (Inr (\<forall>c \<in> set cpus. \<not> isl (m_worker me c)), ?s\<lparr>kds_worker_thread := T\<rparr>)"
      "\<forall>c. c \<notin> set cpus \<longrightarrow> T c = kds_worker_thread ?s c" "\<forall>c. T c = kds_worker_thread ?s c \<or> (\<exists>t. T c = Task t)"
      "(\<forall>c \<in> set cpus. \<not> isl (m_worker me c)) \<longrightarrow> (\<forall>c \<in> set cpus. \<exists>t. T c = Task t)" by blast
    then have "create_workers me (cpu # cpus) s = (Inr (\<forall>c \<in> set (cpu # cpus). \<not> isl (m_worker me c)), s\<lparr>kds_worker_thread := T\<rparr>)"
      using Inr by (simp add: sbind_def smod_def)
    moreover have "\<exists>t. T cpu = Task t" using T(3) [rule_format, of cpu] by auto
    ultimately show ?thesis using T by (intro exI [of _ T]) (auto split: if_splits)
  qed
qed

lemma stop_workers_run:
  assumes "\<forall>c. kds_worker_thread s c = No_task \<or> has_worker s c"
  shows "stop_workers cpus s = (Inr (), s\<lparr>kds_worker_thread := (\<lambda>c. if c \<in> set cpus then No_task else kds_worker_thread s c)\<rparr>)"
  using assms
proof (induction cpus arbitrary: s)
  case (Cons cpu cpus)
  let ?s = "s\<lparr>kds_worker_thread := (kds_worker_thread s)(cpu := No_task)\<rparr>"
  have ok: "\<forall>c. kds_worker_thread ?s c = No_task \<or> has_worker ?s c" using Cons.prems by (auto simp: has_worker_def)
  have same: "?s = s" if "kds_worker_thread s cpu = No_task" using that by (simp add: fun_upd_idem)
  have "stop_workers (cpu # cpus) s = stop_workers cpus ?s"
  proof (cases "kds_worker_thread s cpu")
    case No_task
    show ?thesis unfolding same [OF No_task] stop_workers.simps sget_bind Let_def No_task by (simp add: sbind_def sret_def)
  next
    case (Task t)
    show ?thesis unfolding stop_workers.simps sget_bind Let_def Task kthread_stop_def by (simp add: sbind_def smod_def sret_def)
  next
    case (Err_task e)
    then show ?thesis using Cons.prems by (metis has_worker_def task_ptr.distinct(3,5))
  qed
  also have "\<dots> = (Inr (), ?s\<lparr>kds_worker_thread := (\<lambda>c. if c \<in> set cpus then No_task else kds_worker_thread ?s c)\<rparr>)" by (rule Cons.IH [OF ok])
  also have "\<dots> = (Inr (), s\<lparr>kds_worker_thread := (\<lambda>c. if c \<in> set (cpu # cpus) then No_task else kds_worker_thread s c)\<rparr>)"
    by (auto simp: fun_eq_iff intro!: main_state.fold_congs)
  finally show ?case .
qed (simp add: sret_def)

text \<open>Either every online CPU gets its worker, or the start of the workers fails and none is left.\<close>

lemma start_workers_run:
  assumes "\<forall>c. kds_worker_thread s c = No_task"
  shows "\<exists>T. kds_start_workers me s = (Inr (if \<forall>c \<in> set (online_cpus me). \<not> isl (m_worker me c) then 0 else - 1), s\<lparr>kds_worker_thread := T\<rparr>)
    \<and> (if \<forall>c \<in> set (online_cpus me). \<not> isl (m_worker me c) then \<forall>c \<in> set (online_cpus me). \<exists>t. T c = Task t else \<forall>c. T c = No_task)"
proof -
  let ?cpus = "online_cpus me"
  let ?ok = "\<forall>c \<in> set ?cpus. \<not> isl (m_worker me c)"
  obtain T where T: "create_workers me ?cpus s = (Inr ?ok, s\<lparr>kds_worker_thread := T\<rparr>)" "\<forall>c. c \<notin> set ?cpus \<longrightarrow> T c = No_task"
    "\<forall>c. T c = No_task \<or> (\<exists>t. T c = Task t)" "?ok \<longrightarrow> (\<forall>c \<in> set ?cpus. \<exists>t. T c = Task t)"
    using create_workers_run [of me ?cpus s] assms by auto
  show ?thesis
  proof (cases ?ok)
    case True
    have "kds_start_workers me s = (Inr 0, s\<lparr>kds_worker_thread := T\<rparr>)"
      unfolding kds_start_workers_def using T(1) True by (simp add: sbind_def sret_def)
    then show ?thesis using T True by (intro exI [of _ T]) simp
  next
    case False
    let ?s = "s\<lparr>kds_worker_thread := T\<rparr>"
    have k: "kds_worker_thread ?s = T" by simp
    have "stop_workers ?cpus ?s = (Inr (), ?s\<lparr>kds_worker_thread := (\<lambda>c. if c \<in> set ?cpus then No_task else T c)\<rparr>)"
      using stop_workers_run [of ?s ?cpus] T(3) unfolding has_worker_def k by blast
    moreover have "(\<lambda>c. if c \<in> set ?cpus then No_task else T c) = (\<lambda>c. No_task)" using T(2) by auto
    ultimately have "kds_start_workers me s = (Inr (- 1), s\<lparr>kds_worker_thread := (\<lambda>c. No_task)\<rparr>)"
      unfolding kds_start_workers_def using T(1) False by (simp add: sbind_def sret_def)
    then show ?thesis using False by (intro exI [of _ "\<lambda>c. No_task"]) simp
  qed
qed

section \<open>The start of the module\<close>

lemma balancer_fault:
  assumes "kds_bootstrap me s = (Inr (), t)" and "\<forall>c. kds_worker_thread t c = No_task" and "\<forall>c \<in> set (online_cpus me). \<not> isl (m_worker me c)"
    and "m_balancer me = Inl e"
  shows "fst (kds_main me s) = Inl Fault"
proof -
  from start_workers_run [OF assms(2), of me] assms(3) obtain T where "kds_start_workers me t = (Inr 0, t\<lparr>kds_worker_thread := T\<rparr>)" by auto
  moreover have "errno_code e \<noteq> 0" by (cases e) simp_all
  ultimately show ?thesis
    using assms(1,4) by (simp add: kds_main_def sbind_def sret_def kds_start_load_balancer_def kds_cleanup_def sget_def smod_def kthread_stop_def sfail_def)
qed

text \<open>When the load balancer cannot be started, the module crashes instead of cleaning up: the error pointer stays in the global variable, and the cleanup passes it to \<^verbatim>\<open>kthread_stop\<close>.\<close>

theorem balancer_failure_faults:
  assumes "m_balancer me = Inl e"
  shows "\<exists>k t. kds_start_load_balancer me s = (Inr k, t) \<and> k \<noteq> 0 \<and> fst (kds_cleanup me t) = Inl Fault"
proof -
  have "errno_code e \<noteq> 0" by (cases e) simp_all
  then show ?thesis
    using assms by (simp add: kds_start_load_balancer_def kds_cleanup_def sbind_def sret_def sget_def smod_def kthread_stop_def sfail_def)
qed

text \<open>What \<^verbatim>\<open>kds_main\<close> leaves behind when it returns. With 0: the bootstrap is done, the device exists, every online CPU has a worker and the load balancer runs. With another value, which is always -1: a worker could not be created and none is left, but the bootstrap is not undone: the device and its process are still there, and no thread will ever run the process.\<close>

theorem main_outcome:
  assumes "kds_initialized s \<noteq> KDS_INIT_DONE" and "device s = ([False, False, False, False, False], None)"
    and "\<forall>c. kds_worker_thread s c = No_task" and "kds_main me s = (Inr k, s')"
  shows "kds_initialized s' = KDS_INIT_DONE \<and> device_objects s' = [True, True, True, True, True] \<and> kds_dshell_proc s' \<noteq> None
    \<and> (if k = 0 then (\<forall>c \<in> set (online_cpus me). has_worker s' c) \<and> (\<exists>t. kds_load_balancer s' = Task t)
       else k = - 1 \<and> (\<exists>c \<in> set (online_cpus me). isl (m_worker me c)) \<and> (\<forall>c. kds_worker_thread s' c = No_task))"
proof -
  obtain r t where t: "kds_bootstrap me s = (r, t)" by (cases "kds_bootstrap me s")
  with assms(4) have "\<not> boot_failed r t" by (auto simp: kds_main_def sbind_def boot_failed_def)
  with bootstrap_cases [OF assms(1,2) t] have b: "booted s r t" by blast
  then have "\<forall>c. kds_worker_thread t c = No_task" using assms(3) by (simp add: booted_def)
  from start_workers_run [OF this, of me] obtain T where T: "kds_start_workers me t = (Inr (if \<forall>c \<in> set (online_cpus me). \<not> isl (m_worker me c) then 0 else - 1), t\<lparr>kds_worker_thread := T\<rparr>)"
    "if \<forall>c \<in> set (online_cpus me). \<not> isl (m_worker me c) then \<forall>c \<in> set (online_cpus me). \<exists>t. T c = Task t else \<forall>c. T c = No_task" by blast
  let ?t = "t\<lparr>kds_worker_thread := T\<rparr>"
  have bt: "kds_initialized ?t = KDS_INIT_DONE \<and> device_objects ?t = [True, True, True, True, True] \<and> kds_dshell_proc ?t \<noteq> None"
    using b by (simp add: booted_def device_objects_def)
  show ?thesis
  proof (cases "\<forall>c \<in> set (online_cpus me). \<not> isl (m_worker me c)")
    case False
    then have "kds_main me s = (Inr (- 1), ?t)" using t b T(1) [unfolded if_not_P [OF False]] by (simp add: kds_main_def sbind_def sret_def booted_def)
    then show ?thesis using assms(4) bt T(2) False by auto
  next
    case True
    show ?thesis
    proof (cases "m_balancer me")
      case (Inl e)
      have "fst (kds_main me s) = Inl Fault" by (rule balancer_fault [OF _ _ True Inl, of s t]) (use t b assms(3) in \<open>simp_all add: booted_def\<close>)
      then show ?thesis using assms(4) by simp
    next
      case (Inr h)
      then have "kds_main me s = (Inr 0, ?t\<lparr>kds_load_balancer := Task h\<rparr>)"
        using t b T(1) [unfolded if_P [OF True]] by (simp add: kds_main_def sbind_def sret_def booted_def kds_start_load_balancer_def smod_def)
      then show ?thesis using assms(4) bt T(2) [unfolded if_P [OF True]] by (auto simp: has_worker_def device_objects_def)
    qed
  qed
qed

section \<open>The teardown\<close>

text \<open>The calls of the teardown do not reach the write-ahead log.\<close>

lemma log_storage: "keeps log_state (submit_write env b)" "keeps log_state (kds_buf_unpin i)"
  by (auto simp: keeps_def submit_write_def kds_buf_unpin_def call_defs log_state_def upd_frame_def Let_def split: option.splits prod.splits list.splits sum.splits)

lemma log_write_extent: "keeps log_state (kds_write_extent env sec bs)"
  unfolding kds_write_extent_def by (intro keeps_rules log_storage log_kalloc)

lemma log_write_page: "keeps log_state (kds_write_logical_page env sec pg)"
  unfolding kds_write_logical_page_def by (intro keeps_rules log_write_extent log_kalloc)

lemma log_fsync: "keeps log_state (kds_superblock_fsync env)"
  unfolding kds_superblock_fsync_def by (intro keeps_rules log_write_page keeps_smod; simp add: log_state_def)

lemma log_meta_stop: "keeps log_state (kds_shutdown_meta_system env)"
  unfolding kds_shutdown_meta_system_def by (intro keeps_rules log_fsync keeps_smod; simp add: log_state_def)

lemma log_drain: "keeps log_state (drain n :: ('z sched_state_scheme, unit) call)"
proof (induction n)
  case (Suc n)
  have "keeps log_state (sbind (case frame of None \<Rightarrow> sret () | Some i \<Rightarrow> kds_buf_unpin i) (\<lambda>_. drain n) :: ('z sched_state_scheme, unit) call)" for frame
    by (intro keeps_rules log_storage Suc.IH)
  moreover have "log_state (snd (ring_pop s)) = log_state s" for s :: "'z sched_state_scheme" by (simp add: ring_pop_def log_state_def)
  ultimately show ?case
    unfolding drain.simps by (auto intro!: keeps_get keeps_set split: prod.splits simp: sret_def) (metis snd_conv)+
qed (simp add: keeps_basic)

lemma log_page_alloc_stop: "keeps log_state (kds_shutdown_page_alloc_system (kds_proc_unregister env a))"
  unfolding kds_shutdown_page_alloc_system_def by (intro keeps_rules log_drain log_procs keeps_smod; simp add: log_state_def)

lemma log_clients: "keeps log_state (upd_client c f)" "keeps log_state (the_client c)" "keeps log_state (say c t)"
  by (auto simp: keeps_def say_def upd_client_def the_client_def call_defs log_state_def split: option.splits)

lemma log_dshell_stop: "keeps log_state (kds_shutdown_dshell_system de)"
proof -
  have "keeps log_state (wake_clients cs :: ('a dshell_state_scheme, unit) call)" for cs
    by (induction cs) (auto intro!: keeps_rules log_clients)
  then show ?thesis
    unfolding kds_shutdown_dshell_system_def unregister_dshell_proc_def
    by (intro keeps_rules keeps_smod log_procs; simp add: log_state_def)
qed

text \<open>Closing the superblock does not touch the frames.\<close>

lemma pages_storage: "keeps pages_of (submit_write env b)" "keeps pages_of (kalloc env)"
  by (auto simp: keeps_def submit_write_def kalloc_def call_defs pages_of_def Let_def split: option.splits prod.splits list.splits sum.splits)

lemma pages_write_extent: "keeps pages_of (kds_write_extent env sec bs)"
  unfolding kds_write_extent_def by (intro keeps_rules pages_storage)

lemma pages_write_page: "keeps pages_of (kds_write_logical_page env sec pg)"
  unfolding kds_write_logical_page_def by (intro keeps_rules pages_write_extent pages_storage)

lemma pages_fsync: "keeps pages_of (kds_superblock_fsync env)"
  unfolding kds_superblock_fsync_def by (intro keeps_rules pages_write_page keeps_smod; simp add: pages_of_def)

lemma pages_meta_stop: "keeps pages_of (kds_shutdown_meta_system env)"
  unfolding kds_shutdown_meta_system_def by (intro keeps_rules pages_fsync keeps_smod; simp add: pages_of_def)

lemma meta_stop_superblock: "establishes (\<lambda>s. superblock s = None) (kds_shutdown_meta_system env)"
proof -
  have "superblock s' = None" if "kds_shutdown_meta_system env s = (Inr x, s')" for s s' :: "'a meta_state_scheme" and x
  proof (cases "superblock s")
    case (Some sb)
    then show ?thesis using that
      by (auto simp: kds_shutdown_meta_system_def sbind_def sget_def smod_def sfail_def strying_def split: prod.splits sum.splits failure.splits)
  qed (use that in \<open>auto simp: kds_shutdown_meta_system_def call_defs\<close>)
  then show ?thesis by (auto simp: establishes_def)
qed

lemma keeps_page_alloc_stop: "keeps sched_state.more (kds_shutdown_page_alloc_system (kds_proc_unregister env a))"
  unfolding kds_shutdown_page_alloc_system_def
  by (intro keeps_rules keeps_register keeps_more [OF keeps_drain] keeps_smod; simp)

lemma cleanup_steps:
  assumes "kds_cleanup me s = (Inr (), s')" and "\<forall>c. kds_worker_thread s c = No_task \<or> has_worker s c"
  obtains t u v x y z where "log_state t = log_state s" "entry_state t = (kds_initialized s, (\<lambda>c. if c \<in> set (online_cpus me) then No_task else kds_worker_thread s c), No_task)" "device t = device s"
    "kds_shutdown_page_alloc_system (kds_proc_unregister (m_sched me) (m_prealloc me)) t = (Inr x, u)"
    "kds_shutdown_dshell_system (m_shell me) u = (Inr (), v)"
    "kds_shutdown_meta_system (m_kenv me) (kds_buf_pool_destroy v) = (Inr y, z)" "s' = exit_block_device z"
proof -
  let ?b = "s\<lparr>kds_load_balancer := No_task\<rparr>"
  let ?t = "?b\<lparr>kds_worker_thread := (\<lambda>c. if c \<in> set (online_cpus me) then No_task else kds_worker_thread s c)\<rparr>"
  have k: "kds_worker_thread ?b = kds_worker_thread s" by simp
  have w: "stop_workers (online_cpus me) ?b = (Inr (), ?t)"
    using stop_workers_run [of ?b "online_cpus me"] assms(2) unfolding has_worker_def k by blast
  let ?stop = "if kds_load_balancer s \<noteq> No_task then sbind (kthread_stop (kds_load_balancer s)) (\<lambda>_. smod (\<lambda>s. s\<lparr>kds_load_balancer := No_task\<rparr>)) else sret ()"
  let ?rest = "sbind (stop_workers (online_cpus me)) (\<lambda>_. sbind kds_sched_cleanup (\<lambda>_.
     sbind (kds_shutdown_page_alloc_system (kds_proc_unregister (m_sched me) (m_prealloc me))) (\<lambda>_.
     sbind (kds_shutdown_dshell_system (m_shell me)) (\<lambda>_.
     sbind (smod kds_buf_pool_destroy) (\<lambda>_.
     sbind (kds_shutdown_meta_system (m_kenv me)) (\<lambda>_. smod exit_block_device))))))"
  have c: "sbind ?stop (\<lambda>_. ?rest) s = (Inr (), s')" using assms(1) by (simp add: kds_cleanup_def sget_bind)
  have "?stop s = (Inr (), ?b)"
  proof (cases "kds_load_balancer s")
    case (Err_task e)
    then have "?stop s = (Inl Fault, s)" by (simp add: kthread_stop_def sbind_def sfail_def)
    then show ?thesis using c by (simp add: sbind_def)
  qed (simp_all add: kthread_stop_def sbind_def sret_def smod_def)
  then have "?rest ?b = (Inr (), s')" using c by (simp only: sbind_run)
  then obtain x u v y z where *: "kds_shutdown_page_alloc_system (kds_proc_unregister (m_sched me) (m_prealloc me)) ?t = (Inr x, u)"
      "kds_shutdown_dshell_system (m_shell me) u = (Inr (), v)"
      "kds_shutdown_meta_system (m_kenv me) (kds_buf_pool_destroy v) = (Inr y, z)" "s' = exit_block_device z"
    by (auto simp: sbind_def w kds_sched_cleanup_def sret_def smod_def split: prod.splits sum.splits)
  show thesis by (rule that [OF _ _ _ *]) (simp_all add: entry_state_def device_objects_def log_state_def)
qed

text \<open>C31: A cleanup of a module whose shell is up, when it returns, has stopped the load balancer and every worker of an online CPU, removed the device and its process, destroyed the buffer pool with its frames and its page table, and closed the superblock and the block device. It has not shut down the log: the buffer, with whatever was not flushed, and the registration of the checkpointer are as before, although the frames and the block device it needs are gone.\<close>

theorem cleanup_outcome:
  assumes "kds_cleanup me s = (Inr (), s')" and "\<forall>c. kds_worker_thread s c = No_task \<or> has_worker s c"
    and "device_objects s = [True, True, True, True, True]" and "kds_dshell_proc s \<noteq> None"
  shows "kds_load_balancer s' = No_task \<and> (\<forall>c \<in> set (online_cpus me). kds_worker_thread s' c = No_task)
    \<and> device s' = ([False, False, False, False, False], None) \<and> superblock s' = None \<and> \<not> kds_bdev s'
    \<and> \<not> g_pool s' \<and> (g_pool s \<longrightarrow> pframes s' = init_frame \<and> pmap s' = Map.empty)
    \<and> g_wal s' = g_wal s \<and> g_ckpt_proc s' = g_ckpt_proc s"
proof (rule cleanup_steps [OF assms(1,2)])
  fix t u v x y z
  assume lt: "log_state t = log_state s" and t: "entry_state t = (kds_initialized s, (\<lambda>c. if c \<in> set (online_cpus me) then No_task else kds_worker_thread s c), No_task)" "device t = device s"
    and u: "kds_shutdown_page_alloc_system (kds_proc_unregister (m_sched me) (m_prealloc me)) t = (Inr x, u)"
    and v: "kds_shutdown_dshell_system (m_shell me) u = (Inr (), v)"
    and z: "kds_shutdown_meta_system (m_kenv me) (kds_buf_pool_destroy v) = (Inr y, z)" and s': "s' = exit_block_device z"
  have mu: "module_view u = (entry_state t, device s)" using keepsD [OF view_more [OF keeps_page_alloc_stop] u] t(2) by simp
  then have dv: "device v = ([False, False, False, False, False], None)"
    using shutdown_removes [OF _ _ v] assms(3,4) by (simp add: device_objects_def)
  have ev: "entry_state v = entry_state t" using keepsD [OF entry_dshell_stop v] mu by simp
  have "module_view (kds_buf_pool_destroy v) = module_view v" by (simp add: kds_buf_pool_destroy_def entry_state_def device_objects_def)
  then have mz: "module_view z = module_view v" using keepsD [OF view_outside [OF keeps_kds_shutdown_meta_system] z] by simp
  have "module_view s' = module_view z" by (simp add: s' exit_block_device_def entry_state_def device_objects_def)
  then have "entry_state s' = entry_state t" "device s' = ([False, False, False, False, False], None)" using mz ev dv by simp_all
  moreover have "superblock s' = None" using establishesD [OF meta_stop_superblock z] by (simp add: s' exit_block_device_def)
  moreover have "\<not> kds_bdev s'" by (simp add: s' exit_block_device_def)
  moreover have lv: "log_state v = log_state s" using keepsD [OF log_page_alloc_stop u] keepsD [OF log_dshell_stop v] lt by simp
  then have "g_wal s' = g_wal s \<and> g_ckpt_proc s' = g_ckpt_proc s \<and> \<not> g_pool s'"
    using keepsD [OF log_meta_stop z] by (auto simp: s' exit_block_device_def kds_buf_pool_destroy_def log_state_def split: if_splits)
  moreover have "pframes s' = init_frame \<and> pmap s' = Map.empty" if "g_pool s"
    using that lv keepsD [OF pages_meta_stop z] by (auto simp: s' exit_block_device_def kds_buf_pool_destroy_def log_state_def pages_of_def)
  ultimately show ?thesis using t(1) by (simp add: entry_state_def)
qed

section \<open>Concrete modules\<close>

definition demo_module :: main_state where
  "demo_module = dshell_state.extend (demo_shell\<lparr>superblock := None, g_alloc := False, kds_prealloc_proc := False, kds_dshell_proc := Some 3,
       kds_dshell_inited := True\<rparr>) (main_state.fields KDS_INIT_DONE (\<lambda>c. if c < 2 then Task c else No_task) (Task 9))"

definition demo_menv :: main_env where
  "demo_menv = \<lparr>m_shell = demo_denv, m_prealloc = 1, m_ckpt = 2, m_worker = Inr, m_balancer = Inl ENOMEM\<rparr>"

definition demo_off :: main_state where
  "demo_off = demo_module\<lparr>kds_initialized := KDS_INIT_PENDING, dev_region := False, dev_cdev := False, dev_class := False, dev_node := False,
     kds_dshell_inited := False, kds_dshell_proc := None, kds_worker_thread := (\<lambda>_. No_task), kds_load_balancer := No_task\<rparr>"

theorem bootstrap_outcome_witness:
  "fst (kds_bootstrap (demo_menv\<lparr>m_shell := demo_denv\<lparr>d_kenv := demo_env\<lparr>ke_open := Some ENODEV\<rparr>\<rparr>\<rparr>) demo_off) = Inl Panic
    \<and> kds_initialized (snd (kds_bootstrap (demo_menv\<lparr>m_shell := demo_denv\<lparr>d_kenv := demo_env\<lparr>ke_open := Some ENODEV\<rparr>\<rparr>\<rparr>) demo_off)) \<noteq> KDS_INIT_DONE"
proof -
  let ?me = "demo_menv\<lparr>m_shell := demo_denv\<lparr>d_kenv := demo_env\<lparr>ke_open := Some ENODEV\<rparr>\<rparr>\<rparr>"
  obtain r s' where run: "kds_bootstrap ?me demo_off = (r, s')" by (cases "kds_bootstrap ?me demo_off")
  have "kds_initialized demo_off \<noteq> KDS_INIT_DONE" "device demo_off = ([False, False, False, False, False], None)"
    by (simp_all add: demo_off_def device_objects_def)
  from bootstrap_outcome [OF this run] have o: "r = Inr () \<or> kds_initialized s' \<noteq> KDS_INIT_DONE" by (auto split: option.splits)
  have "init_block_device (d_kenv (m_shell ?me)) demo_off = (Inl (Errno ENODEV), demo_off)" by (simp add: init_block_device_def)
  then have "r = Inl Panic" using run by (auto simp: kds_bootstrap_def boot_stage_def sattempt_def strying_def kds_bootstrap_failed_def sbind_def smod_def sfail_def)
  then show ?thesis using run o by simp
qed

theorem balancer_failure_faults_witness:
  "\<exists>k t. kds_start_load_balancer demo_menv demo_off = (Inr k, t) \<and> k \<noteq> 0 \<and> fst (kds_cleanup demo_menv t) = Inl Fault"
  using balancer_failure_faults [of demo_menv ENOMEM demo_off] by (simp add: demo_menv_def)

lemma demo_module_fields:
  "superblock demo_module = None" "g_alloc demo_module = False" "kds_prealloc_proc demo_module = False" "kds_dshell_proc demo_module = Some 3"
  "kds_dshell_inited demo_module = True" "kds_worker_thread demo_module = (\<lambda>c. if c < 2 then Task c else No_task)" "kds_load_balancer demo_module = Task 9"
  "clients demo_module = [0 \<mapsto> new_client]" "kds_dshell_clients demo_module = [0]" "dev_region demo_module" "dev_cdev demo_module" "dev_class demo_module" "dev_node demo_module"
  "procs demo_module = procs (demo_table None)"
  by (simp_all add: demo_module_def shell_on_def dshell_state.defs sched_state.defs main_state.defs)

theorem cleanup_outcome_witness:
  "\<exists>s'. kds_cleanup demo_menv demo_module = (Inr (), s') \<and> kds_load_balancer s' = No_task \<and> \<not> kds_bdev s' \<and> g_wal s' = g_wal demo_module
    \<and> pmap s' = Map.empty"
proof -
  have w: "\<forall>c. kds_worker_thread demo_module c = No_task \<or> has_worker demo_module c" by (simp add: demo_module_fields has_worker_def)
  have cpus: "online_cpus demo_menv = [0, 1]" using demo_cpus(1) by (simp add: demo_menv_def demo_denv_def demo_clock_def cpus_of_def)
  have "\<exists>s'. kds_cleanup demo_menv demo_module = (Inr (), s')"
    unfolding kds_cleanup_def cpus
    by (simp add: call_defs kthread_stop_def demo_module_fields demo_table_sched(2) demo_proc_def kds_sched_cleanup_def kds_shutdown_page_alloc_system_def
        kds_shutdown_dshell_system_def unregister_dshell_proc_def kds_proc_unregister_def rq_del_def list_del_init_def the_client_def new_client_def
        kds_buf_pool_destroy_def kds_shutdown_meta_system_def Let_def)
  then obtain s' where s': "kds_cleanup demo_menv demo_module = (Inr (), s')" by blast
  have d: "device_objects demo_module = [True, True, True, True, True]" "kds_dshell_proc demo_module \<noteq> None" by (simp_all add: demo_module_fields device_objects_def)
  have "g_pool demo_module" by (simp add: demo_table_pool demo_module_def shell_on_def dshell_state.defs sched_state.defs main_state.defs)
  with cleanup_outcome [OF s' w d] s' show ?thesis by blast
qed

text \<open>The shell's process is registered and runs for one round.\<close>

definition proc_role :: "nat \<Rightarrow> 'z sched_state_scheme \<Rightarrow> (kds_proc_run_fn option \<times> s32 \<times> kds_proc_kind) \<times> kds_sched_stats" where
  "proc_role a s = ((p_run (procs s a), dynamic_prio (procs s a), p_kind (procs s a)), kds_stats s)"

lemma role_register: "keeps (proc_role a) (kds_proc_register env (Some a))"
  unfolding kds_proc_register_def rq_add_def list_add_tail_def option.case Let_def
  by (intro keeps_flow keeps_smod; simp add: proc_role_def)

lemma only_choice:
  assumes "sched_wf env s" and "registered s = {a}" and "p_kind (procs s a) = KDS_PROC_SYSTEM" and "INT_MIN < sint (dynamic_prio (procs s a))"
  shows "chosen s (nat (p_cpu (procs s a))) = Some a"
proof -
  let ?c = "nat (p_cpu (procs s a))"
  have a: "a \<in> set (queue_of (kds_runqueues s ?c))" by (rule registered_cpu(3) [OF assms(1)]) (simp add: assms(2))
  then have "a \<in> set (system_procs (kds_runqueues s ?c))" using registered_kind(1) [OF assms(1) a] assms(3) by simp
  then have "chosen s ?c \<noteq> None" using chosen_spec(2) [OF assms(1), of ?c a] assms(4) by auto
  then obtain b where b: "chosen s ?c = Some b" by blast
  then have "b \<in> registered s" using chosen_spec(1) [OF assms(1) b] by (auto simp: registered_def queue_of_def)
  then show ?thesis using b assms(2) by simp
qed

theorem scheduler_invariant_witness:
  "\<exists>s1 s :: main_state. kds_sched_init demo_senv demo_off = (Inr (), s1) \<and> (sched_step demo_senv (module_run demo_menv 0 (sret ())))\<^sup>*\<^sup>* s1 s
     \<and> registered s = {7} \<and> total_schedules (kds_stats s) = 1 \<and> sched_wf demo_senv s"
proof -
  let ?run = "module_run demo_menv 0 (sret ()) :: main_state run_call"
  have q: "kds_runqueues demo_off = (\<lambda>_. empty_runqueue)" "kds_next_pid demo_off = 0" "clients demo_off = [0 \<mapsto> new_client]" "kds_dshell_clients demo_off = [0]"
    by (simp_all add: demo_off_def demo_module_def shell_on_def demo_table_sched dshell_state.defs sched_state.defs main_state.defs)
  have e: "emptied cs (\<lambda>_. empty_runqueue) = (\<lambda>_. empty_runqueue)" for cs by (auto simp: emptied_def)
  let ?s1 = "demo_off\<lparr>kds_runqueues := \<lambda>_. empty_runqueue, kds_stats := \<lparr>total_schedules = 0, load_balances = 0, migrations = 0\<rparr>\<rparr>"
  have s1: "kds_sched_init demo_senv demo_off = (Inr (), ?s1)" unfolding kds_sched_init_def sbind_def init_each q e by (simp add: smod_def)
  have w1: "sched_wf demo_senv ?s1" "registered ?s1 = {}" using sched_init_wf [of demo_senv demo_off] q s1 by auto
  let ?s2 = "?s1\<lparr>procs := (procs ?s1)(7 := dshell_proc)\<rparr>"
  have w2: "sched_wf demo_senv ?s2" "registered ?s2 = {}" using sched_wf_unregistered [OF w1(1)] w1(2) by simp_all
  have f: "sched_step demo_senv ?run ?s1 ?s2" using w1(2) by (intro sched_step.fill) simp
  obtain s3 where s3: "kds_proc_register demo_senv (Some 7) ?s2 = (Inr (), s3)" "sched_wf demo_senv s3" "registered s3 = {7}"
    using register_wf [OF demo_senv_ok w2(1), of 7] w2(2) q(2) by (auto simp: dshell_proc_def mask_ok_def)
  have g: "sched_step demo_senv ?run ?s2 s3"
    by (rule sched_step.reg [OF _ _ _ s3(1)]) (use w2(2) q(2) in \<open>simp_all add: dshell_proc_def mask_ok_def\<close>)
  have p3: "proc_role 7 s3 = proc_role 7 ?s2" using keepsD [OF role_register s3(1)] .
  then have p: "p_run (procs s3 7) = Some Run_dshell" "p_kind (procs s3 7) = KDS_PROC_SYSTEM" "INT_MIN < sint (dynamic_prio (procs s3 7))" "total_schedules (kds_stats s3) = 0"
    by (simp_all add: proc_role_def dshell_proc_def KDS_PROC_PRIORITY_SYSTEM_BACKGROUND_def INT_MIN_def)
  let ?c = "nat (p_cpu (procs s3 7))"
  have ch: "chosen s3 ?c = Some 7" by (rule only_choice [OF s3(2,3) p(2,3)])
  have "clients s3 = [0 \<mapsto> new_client]" "kds_dshell_clients s3 = [0]" using more_dshell [OF keepsD [OF keeps_register(1) s3(1)]] q(3,4) by simp_all
  then have "?run Run_dshell 7 1000 (running ?c 7 s3) = (Inr KDS_PROC_YIELD_RET, running ?c 7 s3)"
    by (simp add: module_run_def kds_dshell_proc_run_def running_def the_client_def new_client_def list_next_def call_defs)
  from schedule_run_at [where run = ?run, OF s3(2) ch p(1) this] obtain s4 where
    s4: "kds_proc_schedule demo_senv ?run ?c 1000 s3 = (Inr (), s4)" "total_schedules (kds_stats s4) = 1" using p(4) by (auto simp: kept_sched_def)
  have "registered s4 = {7}" using schedule_wf [OF s3(2) module_run_safe [OF keeps_basic(1)] s4(1)] s3(3) by simp
  moreover have r: "(sched_step demo_senv ?run)\<^sup>*\<^sup>* ?s1 s4"
    using f g sched_step.round [OF s4(1)] by (meson converse_rtranclp_into_rtranclp r_into_rtranclp)
  moreover have "sched_wf demo_senv s4" by (rule scheduler_invariant [OF demo_senv_ok keeps_basic(1) _ s1 r]) (simp add: q)
  ultimately show ?thesis using s1 s4(2) by blast
qed

end
