(* ===== verification/Spec2Isabelle.thy ===== *)
theory Spec2Isabelle
  imports Kds_Undo Kds_Select Kds_Main_Spec
begin

text \<open>
  \<^bold>\<open>A verification development for the KDS kernel database module.\<close>

  \<^bold>\<open>The program.\<close> KDS is a small relational store that runs inside the Linux kernel (\<^verbatim>\<open>src/kernel/kds\<close>,
  headers under \<^verbatim>\<open>src/include/linux\<close>). From the bottom up: \<^verbatim>\<open>blkdev.c\<close> reads and writes 8 KiB logical pages
  on a block device; \<^verbatim>\<open>page_mgr.c\<close> caches them in a fixed pool of frames; \<^verbatim>\<open>page.c\<close> has the operations on one
  page; \<^verbatim>\<open>meta.c\<close> keeps the superblock with the page id counters; \<^verbatim>\<open>page_alloc.c\<close> stages freshly made pages in
  a ring; \<^verbatim>\<open>heap.c\<close> and \<^verbatim>\<open>undo.c\<close> store tuples and their old versions in slotted pages; \<^verbatim>\<open>btree.c\<close> indexes
  them; \<^verbatim>\<open>wal.c\<close> logs changes through a ring buffer into a chain of log pages; \<^verbatim>\<open>types.c\<close> converts
  column values between text and bytes; \<^verbatim>\<open>catalog.c\<close> keeps the system tables in heap pages; \<^verbatim>\<open>relation.c\<close> opens tables
  and indexes; \<^verbatim>\<open>parser.c\<close> reads SQL statements; \<^verbatim>\<open>proc.c\<close> schedules the module's processes over the CPUs;
  \<^verbatim>\<open>exec_heap_insert.c\<close> and \<^verbatim>\<open>exec_btree_insert.c\<close> insert rows in time slices; \<^verbatim>\<open>dshell.c\<close> is the device \<^verbatim>\<open>/dev/kds\<close>: it
  takes statements, runs them, and drives the executors from a process of the scheduler; \<^verbatim>\<open>main.c\<close> starts all of this,
  one subsystem after the other, runs a worker thread per CPU and tears it down.

  \<^bold>\<open>The theories.\<close>
  \<^item> \<open>Kds_Prelude\<close>: word types, errno values, results and the \<open>call\<close> type of state-changing fallible calls, byte
    memory, little-endian integers; the locale \<open>layout\<close> for fixed-width structs.
  \<^item> \<open>Kds_Types\<close>: \<^verbatim>\<open>types.c\<close>. Round trips of every type, ranges, comparison, buffer bounds.
  \<^item> \<open>Kds_Frame\<close>: the structs of \<^verbatim>\<open>kds.h\<close>, the inline helpers of \<^verbatim>\<open>kds_page.h\<close>, the in-memory part of \<^verbatim>\<open>page.c\<close>.
  \<^item> \<open>Kds_Heap\<close>: \<^verbatim>\<open>heap.c\<close>. The page invariant \<open>heap_wf\<close>; every operation refines an operation on a list of
    optional tuples (locale \<open>tuple_store\<close>); any sequence of operations keeps the page well-formed.
  \<^item> \<open>Kds_Undo\<close>: \<^verbatim>\<open>undo.c\<close>. Undo entries read back as written; an update keeps the old version reachable.
  \<^item> \<open>Kds_Blkdev\<close>: \<^verbatim>\<open>blkdev.c\<close> over a byte disk. The kernel's behaviour (memory, I/O errors, torn writes, time) is
    the record \<open>kenv\<close>, an argument of every definition that depends on it; locale \<open>page_device\<close>.
  \<^item> \<open>Kds_Page_Mgr\<close>: \<^verbatim>\<open>page_mgr.c\<close> and the disk part of \<^verbatim>\<open>page.c\<close>. The pool invariant \<open>pool_wf\<close>, kept also when
    other threads run during a disk read (\<open>rely\<close>); flush durability; locale \<open>page_cache\<close>.
  \<^item> \<open>Kds_Meta\<close>: \<^verbatim>\<open>meta.c\<close>. What a restart reads back is what the last fsync wrote.
  \<^item> \<open>Kds_Page_Alloc\<close>: \<^verbatim>\<open>page_alloc.c\<close>. The ring implements a bounded queue (locale \<open>fifo\<close>); batch allocation,
    consumption and shutdown keep \<open>alloc_wf\<close>.
  \<^item> \<open>Kds_Btree\<close>: \<^verbatim>\<open>btree.c\<close>. Nodes as thirteen 64-bit cells; locale \<open>key_node\<close>; insert and delete on a cached
    root leaf; what happens on a full node.
  \<^item> \<open>Kds_Wal\<close>, \<open>Kds_Wal_Log\<close>: \<^verbatim>\<open>wal.c\<close>. The ring is a bounded byte queue (locale \<open>byte_queue\<close>); appended records
    read back in order; a flush moves the buffered bytes to the end of the log stream; checkpoints; recovery counts
    the records to replay. Other threads that run between the two critical sections of a flush are the argument \<open>oth\<close>.
  \<^item> \<open>Kds_Catalog\<close>, \<open>Kds_Catalog_Spec\<close>: \<^verbatim>\<open>catalog.c\<close>. Rows of the four system pages (locale \<open>row_store\<close>, one
    interpretation per row type); table creation refines an operation on lists of rows (\<open>cat_view\<close>, by the simulation
    calculus \<open>simulates\<close>); bootstrap, lookups, moving a root page; a creation that runs out of space leaves a table with part of its columns.
  \<^item> \<open>Kds_Relation\<close>: \<^verbatim>\<open>relation.c\<close>. Opening a created table; index insertion and search.
  \<^item> \<open>Kds_Proc\<close>: \<^verbatim>\<open>proc.c\<close>. Run queues per CPU over a store of processes; the invariant \<open>sched_wf\<close> along any
    sequence of scheduler calls that return (\<open>sched_step\<close>), what one round does, bounded waiting, load balancing. Processor masks,
    the clock and the rebalancing of the kernel's red-black tree are the record \<open>sched_env\<close>; the process bodies are
    the argument \<open>run\<close>.
  \<^item> \<open>Kds_Exec\<close>, \<open>Kds_Exec_Heap\<close>: \<^verbatim>\<open>kds_executor.h\<close> and \<^verbatim>\<open>exec_heap_insert.c\<close>. A table is a chain of heap pages; the
    insertion completes after a bounded number of calls, adds exactly the row or changes nothing, keeps the keys distinct
    and can be resumed after every slice. This holds for tables whose live rows can be read through the scan's 256 byte
    buffer (\<open>scannable\<close>); on a page with a short row near its end the scan leaves the page. The locale \<open>sliced_exec\<close> is the contract between an executor and its caller.
  \<^item> \<open>Kds_Exec_Btree\<close>: \<^verbatim>\<open>exec_btree_insert.c\<close>. The whole executor; theorems for trees of one node, among them how a
    duplicate primary key gets in and what an insertion without a page leaves behind.
  \<^item> \<open>Kds_Parser\<close>: \<^verbatim>\<open>parser.c\<close>. Print/parse round trip for every statement, totality and bounds (locale
    \<open>list_rule\<close> for the comma separated lists).
  \<^item> \<open>Kds_Rows\<close>: the row codec of \<^verbatim>\<open>dshell.c\<close>. What is printed for a row encodes to the same row; a row begins with its key.
  \<^item> \<open>Kds_Keeps\<close>: frame rules: which calls of the lower layers leave the fields of the layers above alone.
  \<^item> \<open>Kds_Dshell\<close>, \<open>Kds_Dshell_Spec\<close>: \<^verbatim>\<open>dshell.c\<close>. Clients with their response buffers in a store by address, every command,
    the process that runs the executors of waiting clients, open, release, write and read, start and shutdown. The
    invariant \<open>shell_wf\<close> along every interleaving (\<open>shell_op\<close>); every write is answered; responses are read in order;
    an \<^verbatim>\<open>INSERT\<close> completes within a bounded number of rounds (locale \<open>shell_exec\<close>, the contract of an executor as the
    shell's process runs it); a timeout between two rounds cancels; the start is all or nothing. What other CPUs do while an executor runs
    is the argument \<open>gap\<close>, the number of rounds before the timeout the argument \<open>nr\<close>: a timeout that fires while a slice
    is running on another CPU, and overlaps of two operations that are not nested, are not expressed. Among the theorems are two flaws: a
    client freed under a running executor, and an \<^verbatim>\<open>INSERT\<close> that a shutdown answers with success.
  \<^item> \<open>Kds_Select\<close>: what \<^verbatim>\<open>SELECT\<close> answers: the specification of the printed table and that the scan prints it, with the
    values that were inserted, and leaves everything but the response as it was, on scannable tables; a short row near
    the end of a page makes it leave the page.
  \<^item> \<open>Kds_Main\<close>, \<open>Kds_Main_Spec\<close>: \<^verbatim>\<open>main.c\<close>. The bootstrap as a chain of stages, the bodies of the threads, the start of
    the workers and of the load balancer, the cleanup. The bootstrap is marked done exactly when every stage has
    succeeded; every CPU has a worker or none; what a cleanup removes and what it leaves. The bodies of the module's
    processes (\<open>module_run\<close>) leave the scheduler's state alone, which gives the scheduler's invariant for them.

  \<^bold>\<open>State and errors.\<close> The module's globals are one record that grows along the chain \<open>blk_state\<close>, \<open>pool_state\<close>,
  \<open>meta_state\<close>, \<open>alloc_state\<close>, \<open>btree_state\<close>, \<open>wal_state\<close>, \<open>cat_state\<close>, \<open>sched_state\<close>, \<open>dshell_state\<close>, \<open>main_state\<close>; operations are polymorphic in the
  extension, so a lower layer is used unchanged by a higher one. A call returns \<open>Inl (Errno e)\<close> for \<^verbatim>\<open>-e\<close>, \<open>Inl Panic\<close> for \<^verbatim>\<open>panic\<close> and \<^verbatim>\<open>BUG_ON\<close>, and
  \<open>Inl Fault\<close> for an access outside an object. Machine integers are words of their width.

  \<^bold>\<open>Bounds and fuel.\<close> \<open>drain\<close> (shutdown) gets as many rounds as the ring has slots; the theorem on shutdown shows
  that it always empties the ring. The B-tree descent counts the rounds its own depth limit allows. A loop over the
  cells of a node may run sixteen rounds, more than a node has cells. The recursive tree walk takes its nesting depth
  as an argument. The executors' walks over a page chain take the number of pages
  they may visit, \<open>None\<close> when it is used up; the theorems hold for any number larger than the length of the chain. The flush loop of the log may run twice per byte and two rounds more, which its durability theorem
  shows to be enough; recovery takes the number of pages and of records per page it may visit, and \<open>None\<close> is a
  recovery that has not ended within them.

  \<^bold>\<open>Not modelled.\<close> Locks: a critical section is one step, and the only interleaving that the code exposes to its own
  retry logic (a load racing with another load) is explicit. Log messages, and with
  them the functions that only print a B-tree to the kernel log (\<^verbatim>\<open>kds_btree_print\<close>, \<^verbatim>\<open>print_btree_node\<close>).
  The concurrency of the threads of \<^verbatim>\<open>main.c\<close>: their bodies are calls; what interleaves is modelled where a component
  exposes it (\<open>rely\<close>, \<open>oth\<close>, \<open>gap\<close>, \<open>sched_step\<close>, \<open>shell_op\<close>).
\<close>

end
